(* ===== verification/Prelude.thy ===== *)
theory Prelude
  imports Main "HOL-Library.Multiset" "HOL-Library.Word"
begin

text \<open>
  Shared vocabulary of the development: machine words and counters, the loop idioms the C++ code
  repeats (scan an array for its minimum, erase from a \<open>std::list\<close> while iterating), the
  collections of simplification rules, and generic facts about lists and multisets.
\<close>

unbundle bit_operations_syntax

named_theorems smr_simps \<open>equations of the reclaimers' loops\<close>
named_theorems wf_intros \<open>well-formedness is kept\<close>

subsection \<open>Pointers and 64-bit counters\<close>

text \<open>
  A C++ pointer is a 64-bit word; the null pointer is 0. A \<open>uint64_t\<close> counter is a
  natural number below \<open>2 ^ 64\<close>, and every increment writes the wrap-around out.
\<close>

type_synonym ptr = "64 word"

abbreviation NULL :: ptr where "NULL \<equiv> 0"

definition UINT64_MAX :: nat where
  "UINT64_MAX = 2 ^ 64 - 1"

definition u64_inc :: "nat \<Rightarrow> nat" where
  "u64_inc e = (e + 1) mod 2 ^ 64"

lemma UINT64_MAX_eq: "UINT64_MAX = 18446744073709551615"
  by (simp add: UINT64_MAX_def)

lemma all_less_2: "(\<forall>t<2. P t) \<longleftrightarrow> P 0 \<and> P (1::nat)"
  by (auto simp: less_2_cases_iff)

lemma upt_3: "[0..<3] = [0, 1, 2::nat]"
  by (simp add: upt_rec)

lemma all_less_3: "(\<forall>t<3. P t) \<longleftrightarrow> P 0 \<and> P 1 \<and> P (2::nat)"
  by (auto simp: numeral_eq_Suc less_Suc_eq)

lemma ex_less_2: "(\<exists>t<2. P t) \<longleftrightarrow> P 0 \<or> P (1::nat)"
  by (auto simp: less_2_cases_iff)

lemma u64_inc_eq: "e < UINT64_MAX \<Longrightarrow> u64_inc e = Suc e"
  by (simp add: u64_inc_def UINT64_MAX_def)

lemma u64_inc_le: "u64_inc e \<le> UINT64_MAX"
proof -
  have "(e + 1) mod 2 ^ 64 < (2 ^ 64 :: nat)" by (rule mod_less_divisor) simp
  then show ?thesis by (simp add: u64_inc_def UINT64_MAX_def)
qed

subsection \<open>Scanning an array for its minimum\<close>

text \<open>
  The loop \<open>for (i = 0; i < num_process; i++) { res = a[i]; if (res < m) m = res; }\<close>.
\<close>

fun scan_min :: "'a::linorder \<Rightarrow> 'a list \<Rightarrow> 'a" where
  "scan_min m [] = m"
| "scan_min m (r # rs) = scan_min (if r < m then r else m) rs"

lemma less_scan_min [smr_simps]: "e < scan_min m rs \<longleftrightarrow> e < m \<and> (\<forall>r\<in>set rs. e < r)"
  by (induction rs arbitrary: m) auto

lemma scan_min_le: "scan_min m rs \<le> m"
proof (induction rs arbitrary: m)
  case Nil
  then show ?case by simp
next
  case (Cons a rs)
  have "scan_min a rs \<le> a" by (rule Cons.IH)
  then show ?case using Cons.IH [of m] by auto
qed

lemma scan_min_le_elem: "r \<in> set rs \<Longrightarrow> scan_min m rs \<le> r"
proof (induction rs arbitrary: m)
  case Nil
  then show ?case by simp
next
  case (Cons a rs)
  then show ?case by (auto intro: order_trans [OF scan_min_le])
qed

lemma scan_min_snoc [simp]:
  "scan_min m (rs @ [r]) = (if r < scan_min m rs then r else scan_min m rs)"
  by (induction rs arbitrary: m) auto

subsection \<open>Erasing from a list while iterating over it\<close>

text \<open>
  The loop every reclaimer runs over its \<open>std::list\<close> of retired objects: an element that
  is safe to free is erased (and handed to the pool), the others stay. The result is the list that
  is left and the erased elements, in the order of their erasure.
\<close>

fun erase_loop :: "('a \<Rightarrow> bool) \<Rightarrow> 'a list \<Rightarrow> 'a list \<times> 'a list" where
  "erase_loop safe [] = ([], [])"
| "erase_loop safe (x # xs) =
     (let (kept, erased) = erase_loop safe xs
      in if safe x then (kept, x # erased) else (x # kept, erased))"

lemma erase_loop_eq [smr_simps]:
  "erase_loop safe xs = (filter (\<lambda>x. \<not> safe x) xs, filter safe xs)"
  by (induction xs) auto

lemma mset_filter_split:
  "mset (filter P xs) + mset (filter (\<lambda>x. \<not> P x) xs) = mset xs"
  by (induction xs) auto

lemma mset_map_filter_split:
  "mset (map f (filter P xs)) + mset (map f (filter (\<lambda>x. \<not> P x) xs)) = mset (map f xs)"
  by (induction xs) auto

lemma distinct_mset_subset:
  assumes "mset xs \<subseteq># mset ys" and "distinct ys"
  shows "distinct xs"
proof -
  obtain M where "mset ys = mset xs + M"
    using assms(1) by (auto simp: mset_subset_eq_exists_conv)
  moreover obtain zs where "mset zs = M"
    using ex_mset by blast
  ultimately have "mset ys = mset (xs @ zs)" by simp
  then have "distinct (xs @ zs)"
    using assms(2) mset_eq_imp_distinct_iff by blast
  then show ?thesis by simp
qed

subsection \<open>Arrays indexed by thread\<close>

text \<open>The multiset of all entries of an array of lists, and how it changes with one entry.\<close>

definition all_entries :: "'a list list \<Rightarrow> 'a multiset" where
  "all_entries xss = mset (concat xss)"

lemma all_entries_update:
  "i < length xss \<Longrightarrow> all_entries (xss[i := ys]) + mset (xss ! i) = all_entries xss + mset ys"
proof (induction xss arbitrary: i)
  case Nil
  then show ?case by simp
next
  case (Cons x xss)
  show ?case
  proof (cases i)
    case 0
    then show ?thesis by (simp add: all_entries_def)
  next
    case (Suc j)
    with Cons.prems have "all_entries (xss[j := ys]) + mset (xss ! j) = all_entries xss + mset ys"
      by (intro Cons.IH) simp
    with Suc show ?thesis by (simp add: all_entries_def add_ac)
  qed
qed

lemma image_all_entries_update:
  assumes "i < length xss"
  shows "image_mset f (all_entries (xss[i := ys])) + mset (map f (xss ! i))
       = image_mset f (all_entries xss) + mset (map f ys)"
  using arg_cong [OF all_entries_update [OF assms, of ys], of "image_mset f"] by simp

lemma sweep_account:
  assumes "i < length xss"
  shows "image_mset f (all_entries (xss[i := filter (\<lambda>x. \<not> P x) (xss ! i)]))
       + mset (map f (filter P (xss ! i))) = image_mset f (all_entries xss)"
proof -
  let ?F = "image_mset f (all_entries (xss[i := filter (\<lambda>x. \<not> P x) (xss ! i)]))"
  let ?no = "mset (map f (filter (\<lambda>x. \<not> P x) (xss ! i)))" and ?yes = "mset (map f (filter P (xss ! i)))"
  have "?F + (?yes + ?no) = image_mset f (all_entries xss) + ?no"
    using image_all_entries_update [OF assms] by (simp add: mset_map_filter_split del: mset_map)
  then show ?thesis by (simp add: add.assoc [symmetric] del: mset_map)
qed

lemma push_account:
  assumes "i < length xss"
  shows "image_mset f (all_entries (xss[i := xss ! i @ [x]])) = image_mset f (all_entries xss) + {#f x#}"
  using image_all_entries_update [OF assms, of f "xss ! i @ [x]"] by simp

text \<open>No element occurs twice.\<close>

definition once :: "'a multiset \<Rightarrow> bool" where
  "once M \<longleftrightarrow> (\<forall>x. count M x \<le> 1)"

lemma once_mset: "once (mset xs) \<longleftrightarrow> distinct xs"
proof
  assume o: "once (mset xs)"
  have "count (mset xs) x = (if x \<in> set xs then 1 else 0)" for x
  proof (cases "x \<in> set xs")
    case True
    then have "count (mset xs) x \<noteq> 0" by (simp add: count_mset_0_iff)
    moreover have "count (mset xs) x \<le> 1" using o by (simp add: once_def)
    ultimately have "count (mset xs) x = 1" by linarith
    with True show ?thesis by simp
  qed (simp add: count_mset_0_iff)
  then show "distinct xs" unfolding distinct_count_atmost_1 by blast
next
  assume "distinct xs"
  then have "count (mset xs) x = (if x \<in> set xs then 1 else 0)" for x
    by (simp only: distinct_count_atmost_1)
  then show "once (mset xs)" by (simp add: once_def)
qed

lemma once_subset: "once N \<Longrightarrow> M \<subseteq># N \<Longrightarrow> once M"
  unfolding once_def subseteq_mset_def using order_trans by blast

lemma entry_subset: "i < length xss \<Longrightarrow> mset (xss ! i) \<subseteq># all_entries xss"
proof (induction xss arbitrary: i)
  case (Cons x xss)
  then show ?case
    by (cases i) (auto simp: all_entries_def intro: subset_mset.add_increasing)
qed simp

lemma once_entry: "once (all_entries xss) \<Longrightarrow> i < length xss \<Longrightarrow> distinct (xss ! i)"
  using once_mset once_subset entry_subset by blast

lemma distinct_filter_length:
  assumes "distinct xs"
  shows "length (filter (\<lambda>x. x \<in> set ys) xs) \<le> length ys"
proof -
  have "length (filter (\<lambda>x. x \<in> set ys) xs) = card (set (filter (\<lambda>x. x \<in> set ys) xs))"
    using distinct_card [of "filter (\<lambda>x. x \<in> set ys) xs"] assms by (simp only: distinct_filter)
  also have "\<dots> \<le> card (set ys)" by (intro card_mono) auto
  also have "\<dots> \<le> length ys" by (rule card_length)
  finally show ?thesis .
qed

lemma all_entries_replicate_Nil [simp]: "all_entries (replicate n []) = {#}"
  by (induction n) (auto simp: all_entries_def)

lemma nth_list_update_if:
  "i < length xs \<Longrightarrow> xs[j := v] ! i = (if i = j then v else xs ! i)"
  by simp

lemma list_all_update: "list_all P xs \<Longrightarrow> P v \<Longrightarrow> list_all P (xs[i := v])"
  unfolding list_all_iff by (blast dest: set_update_subset_insert [THEN subsetD])

lemma take_butlast_eq: "length xs = Suc n \<Longrightarrow> take n xs @ [xs ! n] = xs"
  by (metis lessI take_Suc_conv_app_nth take_all order_refl)

end
