(* ===== verification/Smr_System.thy ===== *)
theory Smr_System
  imports Prelude
begin

text \<open>
  The concurrent system a reclamation scheme runs in, as a step relation over shared atomic cells.
  Threads allocate and link objects, unlink and retire them, and follow the scheme's own protocol
  to publish reservations and to acquire references; a reclaiming thread reads the reservation
  cells one atomic load at a time and then frees what the scheme's test calls safe. Any thread may
  move at any time, so every interleaving of atomic accesses is a run. The memory is sequentially
  consistent.

  A scheme is a record of functions taken from the reclaimer's code. Its contract is the locale
  \<open>smr_scheme\<close>; the locale's theorem is that no reachable state has freed an object that a
  thread still holds.
\<close>

datatype status = Fresh | Linked | Unlinked nat | Retired nat | Freed

record ('r, 'l, 'i) smr =
  sm_clock :: nat
  sm_status :: "ptr \<Rightarrow> status"
  sm_res :: "nat \<Rightarrow> 'r"
  sm_loc :: "nat \<Rightarrow> 'l"
  sm_trash :: "nat \<Rightarrow> 'i list"
  sm_scan :: "nat \<Rightarrow> 'r list option"
  sm_freed :: "ptr list"

record ('r, 'l, 'i) scheme =
  sc_cells :: nat
  sc_birth :: "ptr \<Rightarrow> nat"
  sc_item :: "ptr \<Rightarrow> nat \<Rightarrow> 'i"
  sc_obj :: "'i \<Rightarrow> ptr"
  sc_safe :: "'r list \<Rightarrow> 'i \<Rightarrow> bool"
  sc_proto :: "nat \<Rightarrow> nat \<Rightarrow> ptr set \<Rightarrow> (nat \<Rightarrow> 'r) \<Rightarrow> 'l \<Rightarrow> (nat \<Rightarrow> 'r) \<Rightarrow> 'l \<Rightarrow> bool"

definition linked :: "('r, 'l, 'i) smr \<Rightarrow> ptr set" where
  "linked s = {p. sm_status s p = Linked}"

text \<open>
  The relation over-approximates the code in one point: \<open>scan_begin\<close> may happen at any time, while
  the reclaimers scan only in a \<open>retire\<close> whose counter has reached a multiple of
  \<open>empty_freq\<close>. Every run of the code is a run here, which is what the safety theorems need; no
  claim that a run exists rests on the relation, except that its hypotheses can be met. The class
  operations with their counters are in the theories of the schemes.
\<close>

text \<open>The clock of a step may not reach \<open>UINT64_MAX\<close>: the runs are those before an epoch counter wraps.\<close>

inductive smr_step :: "('r, 'l, 'i) scheme \<Rightarrow> ('r, 'l, 'i) smr \<Rightarrow> ('r, 'l, 'i) smr \<Rightarrow> bool"
  for sc where
  tick: "Suc (sm_clock s) < UINT64_MAX \<Longrightarrow> smr_step sc s (s\<lparr>sm_clock := Suc (sm_clock s)\<rparr>)"
| link: "sm_status s p = Fresh \<Longrightarrow> p \<noteq> NULL \<Longrightarrow> sc_birth sc p \<le> sm_clock s \<Longrightarrow>
     smr_step sc s (s\<lparr>sm_status := (sm_status s)(p := Linked)\<rparr>)"
| unlink: "sm_status s p = Linked \<Longrightarrow>
     smr_step sc s (s\<lparr>sm_status := (sm_status s)(p := Unlinked t)\<rparr>)"
| retire: "sm_status s p = Unlinked t \<Longrightarrow> sm_scan s t = None \<Longrightarrow>
     smr_step sc s (s\<lparr>sm_status := (sm_status s)(p := Retired t),
       sm_trash := (sm_trash s)(t := sm_trash s t @ [sc_item sc p (sm_clock s)])\<rparr>)"
| scan_begin: "sm_scan s t = None \<Longrightarrow>
     smr_step sc s (s\<lparr>sm_scan := (sm_scan s)(t := Some [])\<rparr>)"
| scan_read: "sm_scan s t = Some snap \<Longrightarrow> length snap < sc_cells sc \<Longrightarrow>
     smr_step sc s (s\<lparr>sm_scan := (sm_scan s)(t := Some (snap @ [sm_res s (length snap)]))\<rparr>)"
| sweep: "sm_scan s t = Some snap \<Longrightarrow> length snap = sc_cells sc \<Longrightarrow>
     erase_loop (sc_safe sc snap) (sm_trash s t) = (kept, erased) \<Longrightarrow>
     smr_step sc s (s\<lparr>sm_scan := (sm_scan s)(t := None),
       sm_trash := (sm_trash s)(t := kept),
       sm_freed := sm_freed s @ map (sc_obj sc) erased,
       sm_status := (\<lambda>p. if p \<in> sc_obj sc ` set erased then Freed else sm_status s p)\<rparr>)"
| proto: "sc_proto sc t (sm_clock s) (linked s) (sm_res s) (sm_loc s t) res' l' \<Longrightarrow>
     smr_step sc s (s\<lparr>sm_res := res', sm_loc := (sm_loc s)(t := l')\<rparr>)"

inductive smr_reach :: "('r, 'l, 'i) scheme \<Rightarrow> ('r, 'l, 'i) smr \<Rightarrow> ('r, 'l, 'i) smr \<Rightarrow> bool"
  for sc s0 where
  reach_init: "smr_reach sc s0 s0"
| reach_step: "smr_reach sc s0 s \<Longrightarrow> smr_step sc s s' \<Longrightarrow> smr_reach sc s0 s'"

lemma smr_reach_trans: "smr_reach sc b c \<Longrightarrow> smr_reach sc a b \<Longrightarrow> smr_reach sc a c"
  by (induction rule: smr_reach.induct) (auto intro: smr_reach.intros)

lemma smr_reach_step: "smr_step sc s s' \<Longrightarrow> smr_reach sc s s'"
  by (blast intro: smr_reach.intros)

text \<open>
  A reclaiming thread that nobody disturbs: the scan reads the cells as they are, and the sweep
  frees what is safe for them.
\<close>

lemma undisturbed_reads:
  "sm_scan s t = Some [] \<Longrightarrow> n \<le> sc_cells sc \<Longrightarrow>
     smr_reach sc s (s\<lparr>sm_scan := (sm_scan s)(t := Some (map (sm_res s) [0..<n]))\<rparr>)"
proof (induction n)
  case 0
  then have "s\<lparr>sm_scan := (sm_scan s)(t := Some (map (sm_res s) [0..<0]))\<rparr> = s" by (simp add: fun_upd_idem)
  then show ?case by (metis reach_init)
next
  case (Suc n)
  let ?s = "s\<lparr>sm_scan := (sm_scan s)(t := Some (map (sm_res s) [0..<n]))\<rparr>"
  have "smr_step sc ?s (?s\<lparr>sm_scan := (sm_scan ?s)(t := Some (map (sm_res s) [0..<n]
      @ [sm_res ?s (length (map (sm_res s) [0..<n]))]))\<rparr>)"
    by (rule smr_step.scan_read) (use Suc.prems in auto)
  moreover have "smr_reach sc s ?s" by (rule Suc.IH) (use Suc.prems in auto)
  ultimately have "smr_reach sc s (?s\<lparr>sm_scan := (sm_scan ?s)(t := Some (map (sm_res s) [0..<n]
      @ [sm_res ?s (length (map (sm_res s) [0..<n]))]))\<rparr>)" by (rule reach_step [rotated])
  then show ?case by (simp add: fun_upd_def cong: if_cong)
qed

lemma undisturbed_empty:
  assumes "sm_scan s t = None"
    and "erase_loop (sc_safe sc (map (sm_res s) [0..<sc_cells sc])) (sm_trash s t) = (kept, erased)"
  shows "smr_reach sc s (s\<lparr>sm_trash := (sm_trash s)(t := kept),
       sm_freed := sm_freed s @ map (sc_obj sc) erased,
       sm_status := (\<lambda>p. if p \<in> sc_obj sc ` set erased then Freed else sm_status s p)\<rparr>)"
proof -
  let ?cells = "map (sm_res s) [0..<sc_cells sc]"
  let ?s1 = "s\<lparr>sm_scan := (sm_scan s)(t := Some [])\<rparr>"
  let ?s2 = "s\<lparr>sm_scan := (sm_scan s)(t := Some ?cells)\<rparr>"
  let ?done = "\<lambda>sc_of. ?s2\<lparr>sm_scan := sc_of, sm_trash := (sm_trash s)(t := kept),
       sm_freed := sm_freed s @ map (sc_obj sc) erased,
       sm_status := (\<lambda>p. if p \<in> sc_obj sc ` set erased then Freed else sm_status s p)\<rparr>"
  have "smr_reach sc s ?s1"
    using assms(1) by (intro smr_reach_step smr_step.scan_begin)
  moreover have "smr_reach sc ?s1 ?s2"
    using undisturbed_reads [of ?s1 t "sc_cells sc" sc] by simp
  ultimately have r2: "smr_reach sc s ?s2" by (rule smr_reach_trans [rotated])
  have r3: "smr_step sc ?s2 (?done ((sm_scan ?s2)(t := None)))"
    using smr_step.sweep [of ?s2 t ?cells sc kept erased] assms(2) by (simp cong: if_cong)
  have "(sm_scan ?s2)(t := None) = sm_scan s" using assms(1) by (auto simp: fun_eq_iff)
  with reach_step [OF r2 r3] show ?thesis by simp
qed

text \<open>A start state: nothing allocated, retired or freed, every thread idle.\<close>

definition smr_init :: "nat \<Rightarrow> (nat \<Rightarrow> 'r) \<Rightarrow> 'l \<Rightarrow> ('r, 'l, 'i) smr" where
  "smr_init c res l = \<lparr>sm_clock = c, sm_status = (\<lambda>_. Fresh), sm_res = res, sm_loc = (\<lambda>_. l),
     sm_trash = (\<lambda>_. []), sm_scan = (\<lambda>_. None), sm_freed = []\<rparr>"

text \<open>The life of one object while nobody disturbs the thread that reclaims it.\<close>

lemma unlink_to_free:
  fixes s :: "('r, 'l, 'i) smr"
  assumes "sm_status s p = Linked" and "sm_scan s 0 = None" and "sm_trash s 0 = []"
    and "sc_obj sc (sc_item sc p (sm_clock s)) = p"
    and "sc_safe sc (map (sm_res s) [0..<sc_cells sc]) (sc_item sc p (sm_clock s))"
  shows "\<exists>s'. smr_reach sc s s' \<and> sm_freed s' = sm_freed s @ [p] \<and> sm_loc s' = sm_loc s
       \<and> sm_res s' = sm_res s \<and> sm_clock s' = sm_clock s"
proof -
  let ?i = "sc_item sc p (sm_clock s)"
  let ?s2 = "s\<lparr>sm_status := (sm_status s)(p := Unlinked 0)\<rparr>"
  let ?s3 = "?s2\<lparr>sm_status := (sm_status ?s2)(p := Retired 0),
      sm_trash := (sm_trash ?s2)(0 := sm_trash ?s2 0 @ [sc_item sc p (sm_clock ?s2)])\<rparr>"
  have 2: "smr_reach sc s ?s2"
    using assms by (intro smr_reach_step smr_step.unlink)
  have 3: "smr_reach sc s ?s3"
    by (rule reach_step [OF 2]) (rule smr_step.retire, simp_all add: assms)
  have "erase_loop (sc_safe sc (map (sm_res ?s3) [0..<sc_cells sc])) (sm_trash ?s3 0) = ([], [?i])"
    using assms by simp
  from undisturbed_empty [OF _ this] have 4: "smr_reach sc ?s3 (?s3\<lparr>sm_trash := (sm_trash ?s3)(0 := []),
       sm_freed := sm_freed ?s3 @ map (sc_obj sc) [?i],
       sm_status := (\<lambda>q. if q \<in> sc_obj sc ` set [?i] then Freed else sm_status ?s3 q)\<rparr>)"
    using assms by simp
  show ?thesis
    by (rule exI, rule conjI, rule smr_reach_trans [OF 4 3]) (simp add: assms)
qed

lemma link_reach:
  fixes sc :: "('r, 'l, 'i) scheme"
  assumes "p \<noteq> NULL" and "sc_birth sc p \<le> c"
  shows "smr_reach sc (smr_init c res l) ((smr_init c res l)\<lparr>sm_status := (\<lambda>_. Fresh)(p := Linked)\<rparr>)"
proof -
  let ?s = "smr_init c res l :: ('r, 'l, 'i) smr"
  have "smr_step sc ?s (?s\<lparr>sm_status := (sm_status ?s)(p := Linked)\<rparr>)"
    by (rule smr_step.link) (simp_all add: smr_init_def assms)
  then show ?thesis by (simp add: smr_init_def smr_reach_step)
qed

lemma lifecycle_run:
  fixes sc :: "('r, 'l, 'i) scheme"
  assumes "p \<noteq> NULL" and "sc_birth sc p \<le> c" and "sc_obj sc (sc_item sc p c) = p"
    and "sc_safe sc (map res [0..<sc_cells sc]) (sc_item sc p c)"
  shows "\<exists>s. smr_reach sc (smr_init c res l) s \<and> sm_freed s = [p] \<and> sm_loc s = (\<lambda>_. l)
       \<and> sm_res s = res \<and> sm_clock s = c"
proof -
  let ?s1 = "(smr_init c res l :: ('r, 'l, 'i) smr)\<lparr>sm_status := (\<lambda>_. Fresh)(p := Linked)\<rparr>"
  have "\<exists>s'. smr_reach sc ?s1 s' \<and> sm_freed s' = sm_freed ?s1 @ [p] \<and> sm_loc s' = sm_loc ?s1
       \<and> sm_res s' = sm_res ?s1 \<and> sm_clock s' = sm_clock ?s1"
    by (rule unlink_to_free) (use assms in \<open>simp_all add: smr_init_def\<close>)
  then show ?thesis
    using smr_reach_trans [OF _ link_reach [OF assms(1,2)]] by (auto simp: smr_init_def)
qed

text \<open>
  The cells a scan has read so far, and the present values of the others: what a scan that went on
  now, undisturbed, would see.
\<close>

definition view :: "'r list \<Rightarrow> (nat \<Rightarrow> 'r) \<Rightarrow> nat \<Rightarrow> 'r" where
  "view snap res c = (if c < length snap then snap ! c else res c)"

lemma view_Nil [simp]: "view [] res = res"
  by (auto simp: view_def)

lemma view_snoc [simp]: "view (snap @ [res (length snap)]) res = view snap res"
  by (auto simp: view_def nth_append fun_eq_iff less_Suc_eq)

lemma view_complete: "c < length snap \<Longrightarrow> view snap res c = snap ! c"
  by (simp add: view_def)

text \<open>
  The contract of a scheme. \<open>held l\<close> are the objects a thread with local state
  \<open>l\<close> may dereference, \<open>conflict l v t i\<close> says that the cells \<open>v\<close>, as
  far as thread \<open>t\<close> owns them, guard the retired item \<open>i\<close> the way \<open>l\<close>
  relies on, and \<open>linv\<close> is the scheme's own invariant of one thread. The laws: a protocol
  step writes only its thread's cells and acquires only objects that are linked; a held object,
  retired now, is guarded; it stays guarded as long as it is held, whatever part of the cells a scan
  has read already; and the code's test frees nothing that is guarded in a complete scan.
\<close>

locale smr_scheme =
  fixes sc :: "('r, 'l, 'i) scheme"
    and owner :: "nat \<Rightarrow> nat"
    and held :: "'l \<Rightarrow> ptr set"
    and conflict :: "'l \<Rightarrow> (nat \<Rightarrow> 'r) \<Rightarrow> nat \<Rightarrow> 'i \<Rightarrow> bool"
    and linv :: "nat \<Rightarrow> (nat \<Rightarrow> 'r) \<Rightarrow> nat \<Rightarrow> 'l \<Rightarrow> bool"
    and c0 :: nat and res0 :: "nat \<Rightarrow> 'r" and l0 :: 'l
  assumes init_clock: "c0 < UINT64_MAX"
    and init_linv: "linv c0 res0 t l0"
    and init_held: "held l0 = {}"
    and obj_item: "sc_obj sc (sc_item sc p c) = p"
    and linv_tick: "linv c res t l \<Longrightarrow> Suc c < UINT64_MAX \<Longrightarrow> linv (Suc c) res t l"
    and linv_proto: "sc_proto sc t c L res l res' l' \<Longrightarrow> linv c res t l \<Longrightarrow> c < UINT64_MAX \<Longrightarrow>
      (\<forall>p\<in>L. p \<noteq> NULL \<and> sc_birth sc p \<le> c) \<Longrightarrow> linv c res' t l'"
    and linv_local: "linv c res t l \<Longrightarrow> (\<forall>k. owner k = t \<longrightarrow> res' k = res k) \<Longrightarrow> linv c res' t l"
    and proto_frame: "sc_proto sc t c L res l res' l' \<Longrightarrow> owner k \<noteq> t \<Longrightarrow> res' k = res k"
    and conflict_local: "conflict l v t i \<Longrightarrow> (\<forall>k. owner k = t \<longrightarrow> v' k = v k) \<Longrightarrow> conflict l v' t i"
    and acquire: "sc_proto sc t c L res l res' l' \<Longrightarrow> linv c res t l \<Longrightarrow> (\<forall>p\<in>L. p \<noteq> NULL \<and> sc_birth sc p \<le> c) \<Longrightarrow>
      held l' \<subseteq> held l \<union> L"
    and cover: "linv c res t l \<Longrightarrow> p \<in> held l \<Longrightarrow> conflict l res t (sc_item sc p c)"
    and keep: "sc_proto sc t c L res l res' l' \<Longrightarrow> linv c res t l \<Longrightarrow> c < UINT64_MAX \<Longrightarrow>
      sc_obj sc i \<in> held l \<Longrightarrow> sc_obj sc i \<in> held l' \<Longrightarrow> sc_obj sc i \<notin> L \<Longrightarrow>
      conflict l (view snap res) t i \<Longrightarrow> conflict l' (view snap res') t i"
    and safe: "length snap = sc_cells sc \<Longrightarrow> sc_safe sc snap i \<Longrightarrow> sc_obj sc i \<in> held l \<Longrightarrow>
      \<not> conflict l (view snap res) t i"
begin

definition snap_of :: "('r, 'l, 'i) smr \<Rightarrow> nat \<Rightarrow> 'r list" where
  "snap_of s u = (case sm_scan s u of None \<Rightarrow> [] | Some snap \<Rightarrow> snap)"

definition local_ok :: "('r, 'l, 'i) smr \<Rightarrow> bool" where
  "local_ok s \<longleftrightarrow> sm_clock s < UINT64_MAX
     \<and> (\<forall>t. linv (sm_clock s) (sm_res s) t (sm_loc s t))
     \<and> (\<forall>p. sm_status s p = Linked \<longrightarrow> p \<noteq> NULL \<and> sc_birth sc p \<le> sm_clock s)"

definition trash_ok :: "('r, 'l, 'i) smr \<Rightarrow> bool" where
  "trash_ok s \<longleftrightarrow> (\<forall>t. distinct (map (sc_obj sc) (sm_trash s t))
       \<and> (\<forall>i\<in>set (sm_trash s t). sm_status s (sc_obj sc i) = Retired t))
     \<and> distinct (sm_freed s) \<and> (\<forall>p. p \<in> set (sm_freed s) \<longleftrightarrow> sm_status s p = Freed)"

definition guarded :: "('r, 'l, 'i) smr \<Rightarrow> bool" where
  "guarded s \<longleftrightarrow> (\<forall>u t. \<forall>i\<in>set (sm_trash s u). sc_obj sc i \<in> held (sm_loc s t) \<longrightarrow>
       conflict (sm_loc s t) (sm_res s) t i
         \<and> conflict (sm_loc s t) (view (snap_of s u) (sm_res s)) t i)"

definition held_ok :: "('r, 'l, 'i) smr \<Rightarrow> bool" where
  "held_ok s \<longleftrightarrow> (\<forall>t. \<forall>p\<in>held (sm_loc s t). sm_status s p \<noteq> Fresh \<and> sm_status s p \<noteq> Freed)"

definition inv :: "('r, 'l, 'i) smr \<Rightarrow> bool" where
  "inv s \<longleftrightarrow> local_ok s \<and> trash_ok s \<and> guarded s \<and> held_ok s"

lemmas inv_defs = inv_def local_ok_def trash_ok_def guarded_def held_ok_def

lemma inv_init: "inv (smr_init c0 res0 l0)"
  using init_clock init_linv init_held by (simp add: inv_defs smr_init_def)

lemma tick_inv: "inv s \<Longrightarrow> Suc (sm_clock s) < UINT64_MAX \<Longrightarrow> inv (s\<lparr>sm_clock := Suc (sm_clock s)\<rparr>)"
  by (auto simp: inv_defs snap_of_def intro: linv_tick le_SucI)

lemma link_inv:
  "inv s \<Longrightarrow> sm_status s p = Fresh \<Longrightarrow> p \<noteq> NULL \<Longrightarrow> sc_birth sc p \<le> sm_clock s \<Longrightarrow>
     inv (s\<lparr>sm_status := (sm_status s)(p := Linked)\<rparr>)"
  unfolding inv_defs snap_of_def by (simp; metis status.distinct(1,5,7) status.simps(3))

lemma unlink_inv:
  "inv s \<Longrightarrow> sm_status s p = Linked \<Longrightarrow>
     inv (s\<lparr>sm_status := (sm_status s)(p := Unlinked t)\<rparr>)"
  unfolding inv_defs snap_of_def by (simp; metis status.distinct)

lemma proto_inv:
  assumes "inv s" and st: "sc_proto sc t (sm_clock s) (linked s) (sm_res s) (sm_loc s t) res' l'"
  shows "inv (s\<lparr>sm_res := res', sm_loc := (sm_loc s)(t := l')\<rparr>)" (is "inv ?s'")
proof -
  have lo: "local_ok s" and tr: "trash_ok s" and gu: "guarded s" and he: "held_ok s"
    using assms(1) by (auto simp: inv_def)
  have c: "sm_clock s < UINT64_MAX" and li: "linv (sm_clock s) (sm_res s) u (sm_loc s u)" for u
    using lo by (auto simp: local_ok_def)
  have births: "\<forall>p\<in>linked s. p \<noteq> NULL \<and> sc_birth sc p \<le> sm_clock s"
    using lo by (auto simp: local_ok_def linked_def)
  have acq: "held l' \<subseteq> held (sm_loc s t) \<union> linked s"
    using acquire [OF st li births] .
  have other: "res' k = sm_res s k" if "owner k \<noteq> t" for k
    using proto_frame [OF st that] .
  have "linv (sm_clock s) res' u (sm_loc ?s' u)" for u
  proof (cases "u = t")
    case True
    with linv_proto [OF st li c births] show ?thesis by simp
  next
    case False
    with other show ?thesis using linv_local [OF li [of u]] by auto
  qed
  then have "local_ok ?s'" using lo by (simp add: local_ok_def)
  moreover have "trash_ok ?s'" using tr by (simp add: trash_ok_def)
  moreover have "held_ok ?s'"
    using he acq by (fastforce simp: held_ok_def linked_def)
  moreover have "guarded ?s'"
    unfolding guarded_def
  proof (intro allI ballI impI)
    fix u v i
    assume i: "i \<in> set (sm_trash ?s' u)" and h: "sc_obj sc i \<in> held (sm_loc ?s' v)"
    from i have i': "i \<in> set (sm_trash s u)" by simp
    have sn: "snap_of ?s' u = snap_of s u" by (simp add: snap_of_def)
    have st_i: "sm_status s (sc_obj sc i) = Retired u"
      using tr i' by (auto simp: trash_ok_def)
    show "conflict (sm_loc ?s' v) (sm_res ?s') v i
       \<and> conflict (sm_loc ?s' v) (view (snap_of ?s' u) (sm_res ?s')) v i"
    proof (cases "v = t")
      case True
      have nL: "sc_obj sc i \<notin> linked s" using st_i by (simp add: linked_def)
      then have ho: "sc_obj sc i \<in> held (sm_loc s t)"
        using h True acq by auto
      then have "conflict (sm_loc s t) (view [] (sm_res s)) t i"
        "conflict (sm_loc s t) (view (snap_of s u) (sm_res s)) t i"
        using gu i' by (auto simp: guarded_def)
      then have "conflict l' (view [] res') t i" "conflict l' (view (snap_of s u) res') t i"
        using keep [OF st li c ho _ nL] h True by (simp_all del: view_Nil)
      with True sn show ?thesis by simp
    next
      case False
      have "conflict (sm_loc s v) (sm_res s) v i"
        "conflict (sm_loc s v) (view (snap_of s u) (sm_res s)) v i"
        using gu i' h False by (auto simp: guarded_def)
      moreover have "\<forall>k. owner k = v \<longrightarrow> res' k = sm_res s k"
        using other False by auto
      moreover from this have "\<forall>k. owner k = v \<longrightarrow> view (snap_of s u) res' k = view (snap_of s u) (sm_res s) k"
        by (simp add: view_def)
      ultimately show ?thesis using conflict_local sn False by auto
    qed
  qed
  ultimately show ?thesis by (simp add: inv_def)
qed

lemma retire_inv:
  assumes "inv s" and p: "sm_status s p = Unlinked t" and sn: "sm_scan s t = None"
  shows "inv (s\<lparr>sm_status := (sm_status s)(p := Retired t),
       sm_trash := (sm_trash s)(t := sm_trash s t @ [sc_item sc p (sm_clock s)])\<rparr>)" (is "inv ?s'")
proof -
  have lo: "local_ok s" and tr: "trash_ok s" and gu: "guarded s" and he: "held_ok s"
    using assms(1) by (auto simp: inv_def)
  have nin: "sc_obj sc i \<noteq> p" if "i \<in> set (sm_trash s u)" for i u
    using that tr p by (auto simp: trash_ok_def)
  have "local_ok ?s'" using lo by (auto simp: local_ok_def)
  moreover have "trash_ok ?s'"
    using tr p nin by (auto simp: trash_ok_def obj_item image_iff)
  moreover have "held_ok ?s'" using he by (auto simp: held_ok_def)
  moreover have "conflict (sm_loc s v) (sm_res s) v (sc_item sc p (sm_clock s))" if "p \<in> held (sm_loc s v)" for v
    using cover [OF _ that] lo by (auto simp: local_ok_def)
  then have "guarded ?s'"
    using gu sn by (auto simp: guarded_def snap_of_def obj_item)
  ultimately show ?thesis by (simp add: inv_def)
qed

lemma scan_begin_inv: "inv s \<Longrightarrow> sm_scan s t = None \<Longrightarrow> inv (s\<lparr>sm_scan := (sm_scan s)(t := Some [])\<rparr>)"
  by (auto simp: inv_defs snap_of_def)

lemma scan_read_inv:
  assumes "inv s" and "sm_scan s t = Some snap"
  shows "inv (s\<lparr>sm_scan := (sm_scan s)(t := Some (snap @ [sm_res s (length snap)]))\<rparr>)" (is "inv ?s'")
proof -
  have "view (snap_of ?s' u) (sm_res ?s') = view (snap_of s u) (sm_res s)" for u
    using assms(2) by (simp add: snap_of_def)
  then show ?thesis using assms(1) by (simp add: inv_defs)
qed

lemma sweep_frees_unheld:
  assumes "inv s" and "sm_scan s t = Some snap" and "length snap = sc_cells sc"
    and "i \<in> set (sm_trash s t)" and "sc_safe sc snap i"
  shows "sc_obj sc i \<notin> held (sm_loc s v)"
proof
  assume h: "sc_obj sc i \<in> held (sm_loc s v)"
  then have "conflict (sm_loc s v) (view snap (sm_res s)) v i"
    using assms(1,2,4) by (fastforce simp: inv_def guarded_def snap_of_def)
  with safe [OF assms(3,5) h] show False by blast
qed

lemma sweep_inv:
  assumes "inv s" and sn: "sm_scan s t = Some snap" and len: "length snap = sc_cells sc"
    and el: "erase_loop (sc_safe sc snap) (sm_trash s t) = (kept, erased)"
  shows "inv (s\<lparr>sm_scan := (sm_scan s)(t := None), sm_trash := (sm_trash s)(t := kept),
       sm_freed := sm_freed s @ map (sc_obj sc) erased,
       sm_status := (\<lambda>p. if p \<in> sc_obj sc ` set erased then Freed else sm_status s p)\<rparr>)"
    (is "inv ?s'")
proof -
  have lo: "local_ok s" and tr: "trash_ok s" and gu: "guarded s" and he: "held_ok s"
    using assms(1) by (auto simp: inv_def)
  have kept: "kept = filter (\<lambda>i. \<not> sc_safe sc snap i) (sm_trash s t)"
    and er: "erased = filter (sc_safe sc snap) (sm_trash s t)"
    using el by (auto simp: erase_loop_eq)
  have st: "sm_status s (sc_obj sc i) = Retired t" if "i \<in> set erased" for i
    using that tr by (auto simp: er trash_ok_def)
  have inj: "inj_on (sc_obj sc) (set (sm_trash s t))"
    using tr by (auto simp: trash_ok_def distinct_map)
  then have ke: "sc_obj sc i \<notin> sc_obj sc ` set erased" if "i \<in> set kept" for i
    using that by (auto simp: kept er inj_on_def)
  have ne: "sc_obj sc i \<notin> sc_obj sc ` set erased" if "i \<in> set (sm_trash s u)" "u \<noteq> t" for i u
    using that tr st by (fastforce simp: trash_ok_def)
  have "local_ok ?s'" using lo by (auto simp: local_ok_def)
  moreover have "trash_ok ?s'"
  proof -
    have "distinct (map (sc_obj sc) (sm_trash ?s' u))" for u
      using tr by (auto simp: trash_ok_def kept distinct_map_filter)
    moreover have "sm_status ?s' (sc_obj sc i) = Retired u" if "i \<in> set (sm_trash ?s' u)" for i u
      using that tr ke ne by (auto simp: trash_ok_def kept split: if_splits)
    moreover have "distinct (sm_freed ?s')"
      using tr st by (fastforce simp: trash_ok_def er distinct_map_filter)
    moreover have "p \<in> set (sm_freed ?s') \<longleftrightarrow> sm_status ?s' p = Freed" for p
      using tr by (auto simp: trash_ok_def)
    ultimately show ?thesis by (simp add: trash_ok_def)
  qed
  moreover have "held_ok ?s'"
    using he sweep_frees_unheld [OF assms(1) sn len] by (auto simp: held_ok_def er)
  moreover have "guarded ?s'"
    using gu by (auto simp: guarded_def snap_of_def kept split: if_splits)
  ultimately show ?thesis by (simp add: inv_def)
qed

lemma step_inv: "smr_step sc s s' \<Longrightarrow> inv s \<Longrightarrow> inv s'"
  by (induction rule: smr_step.induct)
    (auto intro: tick_inv link_inv unlink_inv retire_inv scan_begin_inv scan_read_inv sweep_inv proto_inv)

lemma reach_inv: "smr_reach sc (smr_init c0 res0 l0) s \<Longrightarrow> inv s"
  by (induction rule: smr_reach.induct) (auto intro: inv_init step_inv)

lemma no_use_after_free:
  "smr_reach sc (smr_init c0 res0 l0) s \<Longrightarrow> p \<in> set (sm_freed s) \<Longrightarrow> p \<notin> held (sm_loc s t)"
  using reach_inv by (fastforce simp: inv_def held_ok_def trash_ok_def)

lemma safe_reclamation:
  "smr_reach sc (smr_init c0 res0 l0) s \<Longrightarrow>
     distinct (sm_freed s) \<and> (\<forall>t. held (sm_loc s t) \<inter> set (sm_freed s) = {})"
  using reach_inv by (fastforce simp: inv_def held_ok_def trash_ok_def)

lemma no_double_free: "smr_reach sc (smr_init c0 res0 l0) s \<Longrightarrow> distinct (sm_freed s)"
  using reach_inv by (fastforce simp: inv_def trash_ok_def)

end

end
