(* ===== verification/Allocator.thy ===== *)
theory Allocator
  imports Prelude
begin

text \<open>
  The allocator and the pool the reclaimers hand their objects to:
  \<open>common/recordmgr/allocator_new.h\<close> (\<open>new\<close> and \<open>delete\<close> behind per-thread
  counters) and \<open>common/recordmgr/pool_none.h\<close> (a pool that keeps nothing). The address
  that \<open>operator new\<close> picks is an argument of the model, since the C++ runtime picks it.
\<close>

record allocator =
  al_live :: "ptr set"
  al_freed :: "ptr list"
  al_allocated :: "nat \<Rightarrow> nat"
  al_deallocated :: "nat \<Rightarrow> nat"

definition alloc_init :: allocator where
  "alloc_init = \<lparr>al_live = {}, al_freed = [], al_allocated = (\<lambda>_. 0), al_deallocated = (\<lambda>_. 0)\<rparr>"

definition allocate :: "nat \<Rightarrow> ptr \<Rightarrow> allocator \<Rightarrow> ptr \<times> allocator" where
  "allocate tid fresh al =
     (fresh, al\<lparr>al_allocated := (al_allocated al)(tid := al_allocated al tid + 1),
                al_live := insert fresh (al_live al)\<rparr>)"

definition deallocate :: "nat \<Rightarrow> ptr \<Rightarrow> allocator \<Rightarrow> allocator" where
  "deallocate tid p al =
     al\<lparr>al_deallocated := (al_deallocated al)(tid := al_deallocated al tid + 1),
        al_live := al_live al - {p},
        al_freed := al_freed al @ [p]\<rparr>"

definition pool_get :: "nat \<Rightarrow> ptr \<Rightarrow> allocator \<Rightarrow> ptr \<times> allocator" where
  "pool_get tid fresh al = allocate tid fresh al"

definition pool_add :: "nat \<Rightarrow> ptr \<Rightarrow> allocator \<Rightarrow> allocator" where
  "pool_add tid p al = deallocate tid p al"

text \<open>Handing a list of objects to the pool one after the other.\<close>

definition pool_add_all :: "nat \<Rightarrow> ptr list \<Rightarrow> allocator \<Rightarrow> allocator" where
  "pool_add_all tid ps al = fold (pool_add tid) ps al"

lemma freed_pool_add [simp]: "al_freed (pool_add tid p al) = al_freed al @ [p]"
  by (simp add: pool_add_def deallocate_def)

lemma live_pool_add [simp]: "al_live (pool_add tid p al) = al_live al - {p}"
  by (simp add: pool_add_def deallocate_def)

lemma freed_pool_add_all [simp, smr_simps]: "al_freed (pool_add_all tid ps al) = al_freed al @ ps"
  unfolding pool_add_all_def by (induction ps arbitrary: al) auto

lemma live_pool_add_all [simp]: "al_live (pool_add_all tid ps al) = al_live al - set ps"
  unfolding pool_add_all_def by (induction ps arbitrary: al) auto

lemma pool_add_all_Nil [simp]: "pool_add_all tid [] al = al"
  by (simp add: pool_add_all_def)

lemma deallocated_pool_add_all:
  "al_deallocated (pool_add_all tid ps al) =
     (al_deallocated al)(tid := al_deallocated al tid + length ps)"
  unfolding pool_add_all_def
  by (induction ps arbitrary: al) (auto simp: pool_add_def deallocate_def)

end
