(* ===== verification/Reclaimer_Spec.thy ===== *)
theory Reclaimer_Spec
  imports Allocator
begin

text \<open>
  The contract between a data structure and a reclaimer
  (\<open>common/recordmgr/reclaimer_interface.h\<close>): \<open>retire\<close> takes over an object
  that was unlinked, and every object handed over is, at any later time, either still in limbo or
  was given back to the pool exactly once. Each reclaimer of the development interprets it, for any
  sequence of the interface's calls.
\<close>

text \<open>
  One call of the interface: the start and the end of an operation, a protected read that loaded
  the given pointer, the hook that runs at every allocation, the handler of a signal that reaches
  the thread, and \<open>retire\<close>.
\<close>

datatype smr_op =
  StartOp nat
| EndOp nat
| ReadOp nat nat ptr
| AllocOp nat
| SignalOp nat
| RetireOp nat ptr

fun op_tid :: "smr_op \<Rightarrow> nat" where
  "op_tid (StartOp t) = t"
| "op_tid (EndOp t) = t"
| "op_tid (ReadOp t i p) = t"
| "op_tid (AllocOp t) = t"
| "op_tid (SignalOp t) = t"
| "op_tid (RetireOp t p) = t"

text \<open>
  The calls the code makes: the thread is below the number of threads, and a read names one of the
  three slots that the reclaimers with slots have per thread.
\<close>

fun op_ok :: "nat \<Rightarrow> smr_op \<Rightarrow> bool" where
  "op_ok n (ReadOp t i p) \<longleftrightarrow> t < n \<and> i < 3"
| "op_ok n op \<longleftrightarrow> op_tid op < n"

lemma op_ok_tid: "op_ok n op \<Longrightarrow> op_tid op < n"
  by (cases op) auto

text \<open>The objects a call hands over: \<open>retire\<close> of a null pointer returns at once.\<close>

fun retired_by :: "smr_op \<Rightarrow> ptr list" where
  "retired_by (RetireOp t p) = (if p = NULL then [] else [p])"
| "retired_by _ = []"

definition retired_in :: "smr_op list \<Rightarrow> ptr list" where
  "retired_in ops = concat (map retired_by ops)"

definition legal_ops :: "nat \<Rightarrow> smr_op list \<Rightarrow> bool" where
  "legal_ops n ops \<longleftrightarrow> (\<forall>op\<in>set ops. op_ok n op)"

lemma legal_ops_simps [simp]:
  "legal_ops n []"
  "legal_ops n (op # ops) \<longleftrightarrow> op_ok n op \<and> legal_ops n ops"
  by (simp_all add: legal_ops_def)

lemma retired_in_simps [simp]:
  "retired_in [] = []"
  "retired_in (op # ops) = retired_by op @ retired_in ops"
  by (simp_all add: retired_in_def)

subsection \<open>Histories of a data structure\<close>

text \<open>
  The order in which a data structure makes its calls: a thread calls \<open>startOp\<close>, then allocates,
  reads and retires, and then calls \<open>endOp\<close>; a read finds an object only before the object is
  retired, and no object is retired twice. \<open>A\<close> are the threads that are in an operation and
  \<open>D\<close> the objects retired so far.
\<close>

fun client_ok :: "nat set \<Rightarrow> ptr set \<Rightarrow> smr_op list \<Rightarrow> bool" where
  "client_ok A D [] = True"
| "client_ok A D (StartOp t # ops) \<longleftrightarrow> t \<notin> A \<and> client_ok (insert t A) D ops"
| "client_ok A D (EndOp t # ops) \<longleftrightarrow> t \<in> A \<and> client_ok (A - {t}) D ops"
| "client_ok A D (ReadOp t i p # ops) \<longleftrightarrow> t \<in> A \<and> p \<notin> D \<and> client_ok A D ops"
| "client_ok A D (AllocOp t # ops) \<longleftrightarrow> t \<in> A \<and> client_ok A D ops"
| "client_ok A D (SignalOp t # ops) \<longleftrightarrow> client_ok A D ops"
| "client_ok A D (RetireOp t p # ops) \<longleftrightarrow> t \<in> A \<and> p \<notin> D \<and> client_ok A (insert p D) ops"

text \<open>The objects that thread \<open>t\<close> has met in the operation it is in.\<close>

fun met_step :: "nat \<Rightarrow> smr_op \<Rightarrow> ptr set \<Rightarrow> ptr set" where
  "met_step t (StartOp u) R = (if u = t then {} else R)"
| "met_step t (EndOp u) R = (if u = t then {} else R)"
| "met_step t (ReadOp u i p) R = (if u = t then insert p R else R)"
| "met_step t _ R = R"

definition met_in :: "nat \<Rightarrow> smr_op list \<Rightarrow> ptr set" where
  "met_in t ops = fold (met_step t) ops {}"

text \<open>Different objects, as many as the runs below need.\<close>

definition nth_obj :: "nat \<Rightarrow> ptr" where
  "nth_obj i = word_of_nat (8 * Suc i)"

lemma nth_obj_unat: "i < 2 ^ 20 \<Longrightarrow> unat (nth_obj i) = 8 * Suc i"
  by (simp only: nth_obj_def unsigned_of_nat) (simp add: take_bit_nat_eq_self)

lemma nth_obj_inj: "i < 2 ^ 20 \<Longrightarrow> j < 2 ^ 20 \<Longrightarrow> nth_obj i = nth_obj j \<longleftrightarrow> i = j"
proof -
  assume "i < 2 ^ 20" "j < 2 ^ 20"
  note u = this [THEN nth_obj_unat]
  have "i = j" if "nth_obj i = nth_obj j"
  proof -
    have "8 * Suc i = 8 * Suc j" unfolding u [symmetric] that by (rule refl)
    then show ?thesis by simp
  qed
  then show ?thesis by auto
qed

lemma nth_obj_new: "i < 2 ^ 20 \<Longrightarrow> nth_obj i \<notin> nth_obj ` {..<i}"
proof
  assume i: "i < 2 ^ 20" and "nth_obj i \<in> nth_obj ` {..<i}"
  then obtain j where "j < i" "nth_obj i = nth_obj j" by auto
  then show False using nth_obj_inj [OF i, of j] i by simp
qed

lemma nth_obj_nonnull: "i < 2 ^ 20 \<Longrightarrow> nth_obj i \<noteq> NULL"
proof
  assume "i < 2 ^ 20" "nth_obj i = NULL"
  then have "8 * Suc i = unat NULL" using nth_obj_unat [of i] by (simp only:)
  then show False by simp
qed

lemma nth_obj_eq: "nth_obj 0 = 8" "nth_obj 1 = 16"
  by (simp_all add: nth_obj_def)

subsection \<open>The contract\<close>

locale reclaimer =
  fixes exec :: "smr_op \<Rightarrow> 's \<Rightarrow> 's"
    and wf :: "'s \<Rightarrow> bool"
    and nthreads :: "'s \<Rightarrow> nat"
    and limbo :: "'s \<Rightarrow> ptr multiset"
    and freed :: "'s \<Rightarrow> ptr list"
  assumes wf_exec: "wf s \<Longrightarrow> op_ok (nthreads s) op \<Longrightarrow> wf (exec op s)"
    and nthreads_exec: "wf s \<Longrightarrow> op_ok (nthreads s) op \<Longrightarrow> nthreads (exec op s) = nthreads s"
    and account: "wf s \<Longrightarrow> op_ok (nthreads s) op \<Longrightarrow>
      limbo (exec op s) + mset (freed (exec op s)) = limbo s + mset (freed s) + mset (retired_by op)"
    and freed_grows: "wf s \<Longrightarrow> op_ok (nthreads s) op \<Longrightarrow> \<exists>ps. freed (exec op s) = freed s @ ps"
begin

lemma run_keeps:
  "wf s \<Longrightarrow> legal_ops (nthreads s) ops \<Longrightarrow>
     wf (fold exec ops s) \<and> nthreads (fold exec ops s) = nthreads s \<and>
     limbo (fold exec ops s) + mset (freed (fold exec ops s))
       = limbo s + mset (freed s) + mset (retired_in ops)"
  by (induction ops arbitrary: s) (simp_all add: wf_exec nthreads_exec account add_ac)

lemma run_accounting:
  assumes "wf s" and "legal_ops (nthreads s) ops" and "limbo s = {#}" and "freed s = []"
  shows "limbo (fold exec ops s) + mset (freed (fold exec ops s)) = mset (retired_in ops)"
  using run_keeps [OF assms(1,2)] assms(3,4) by simp

lemma run_no_double_free:
  assumes "wf s" and "legal_ops (nthreads s) ops" and "limbo s = {#}" and "freed s = []"
    and "distinct (retired_in ops)"
  shows "distinct (freed (fold exec ops s))"
proof -
  have "mset (freed (fold exec ops s)) \<subseteq># mset (retired_in ops)"
    using run_accounting [OF assms(1-4)] by (metis mset_subset_eq_add_right)
  then show ?thesis using assms(5) by (rule distinct_mset_subset)
qed

lemma run_freed_stays:
  "wf s \<Longrightarrow> legal_ops (nthreads s) ops \<Longrightarrow> \<exists>ps. freed (fold exec ops s) = freed s @ ps"
proof (induction ops arbitrary: s)
  case (Cons op ops)
  then obtain ps where ps: "freed (exec op s) = freed s @ ps"
    using freed_grows by fastforce
  have "\<exists>qs. freed (fold exec ops (exec op s)) = freed (exec op s) @ qs"
    using Cons by (simp add: wf_exec nthreads_exec)
  with ps show ?case by auto
qed simp

end

end
