(* ===== verification/Rcu.thy ===== *)
theory Rcu
  imports Smr_System Reclaimer_Spec
begin

text \<open>
  Epoch-based reclamation, \<open>common/recordmgr/reclaimer_ibr_rcu.h\<close>. Each thread announces the
  global epoch at the start of an operation and \<open>UINT64_MAX\<close> at its end; a retired object is
  stamped with the epoch, and freed once every announced epoch is later than its stamp.
\<close>

subsection \<open>The class and its operations\<close>

record rcu_info =
  ri_obj :: ptr
  ri_epoch :: nat

record rcu =
  rcu_num_process :: nat
  rcu_empty_freq :: nat
  rcu_epoch_freq :: nat
  rcu_reservations :: "nat list"
  rcu_retired :: "rcu_info list list"
  rcu_retire_counters :: "nat list"
  rcu_alloc_counters :: "nat list"
  rcu_epoch :: nat
  rcu_pool :: allocator

definition rcu_new :: "nat \<Rightarrow> allocator \<Rightarrow> rcu" where
  "rcu_new numProcesses pool =
     \<lparr>rcu_num_process = numProcesses, rcu_empty_freq = 24576, rcu_epoch_freq = 150,
      rcu_reservations = replicate numProcesses UINT64_MAX,
      rcu_retired = replicate numProcesses [],
      rcu_retire_counters = replicate numProcesses 0,
      rcu_alloc_counters = replicate numProcesses 0,
      rcu_epoch = 0, rcu_pool = pool\<rparr>"

definition rcu_startOp :: "nat \<Rightarrow> rcu \<Rightarrow> bool \<times> rcu" where
  "rcu_startOp tid s =
     (let e = rcu_epoch s
      in (True, s\<lparr>rcu_reservations := (rcu_reservations s)[tid := e]\<rparr>))"

definition rcu_endOp :: "nat \<Rightarrow> rcu \<Rightarrow> rcu" where
  "rcu_endOp tid s = s\<lparr>rcu_reservations := (rcu_reservations s)[tid := UINT64_MAX]\<rparr>"

definition rcu_updateAllocCounterAndEpoch :: "nat \<Rightarrow> rcu \<Rightarrow> rcu" where
  "rcu_updateAllocCounterAndEpoch tid s =
     (let c = u64_inc (rcu_alloc_counters s ! tid);
          s1 = s\<lparr>rcu_alloc_counters := (rcu_alloc_counters s)[tid := c]\<rparr>
      in if c mod (rcu_epoch_freq s * rcu_num_process s) = 0
         then s1\<lparr>rcu_epoch := u64_inc (rcu_epoch s1)\<rparr> else s1)"

text \<open>The loop of \<open>empty\<close> over the announced epochs, and its test.\<close>

definition rcu_min_epoch :: "nat list \<Rightarrow> nat" where
  "rcu_min_epoch reservs = scan_min UINT64_MAX reservs"

definition rcu_safe :: "nat list \<Rightarrow> rcu_info \<Rightarrow> bool" where
  "rcu_safe reservs res \<longleftrightarrow> ri_epoch res < rcu_min_epoch reservs"

definition rcu_empty :: "nat \<Rightarrow> rcu \<Rightarrow> rcu" where
  "rcu_empty tid s =
     (let reservs = take (rcu_num_process s) (rcu_reservations s);
          (kept, erased) = erase_loop (rcu_safe reservs) (rcu_retired s ! tid)
      in s\<lparr>rcu_retired := (rcu_retired s)[tid := kept],
           rcu_pool := pool_add_all tid (map ri_obj erased) (rcu_pool s)\<rparr>)"

definition rcu_push :: "nat \<Rightarrow> ptr \<Rightarrow> rcu \<Rightarrow> rcu" where
  "rcu_push tid obj s =
     s\<lparr>rcu_retired := (rcu_retired s)[tid := rcu_retired s ! tid @ [\<lparr>ri_obj = obj, ri_epoch = rcu_epoch s\<rparr>]],
       rcu_retire_counters := (rcu_retire_counters s)[tid := u64_inc (rcu_retire_counters s ! tid)]\<rparr>"

definition rcu_retire :: "nat \<Rightarrow> ptr \<Rightarrow> rcu \<Rightarrow> rcu" where
  "rcu_retire tid obj s =
     (if obj = NULL then s
      else let s1 = rcu_push tid obj s
           in if rcu_retire_counters s1 ! tid mod rcu_empty_freq s1 = 0 then rcu_empty tid s1 else s1)"

definition rcu_delete :: "rcu \<Rightarrow> allocator" where
  "rcu_delete s = fold (\<lambda>i pool. pool_add_all i (map ri_obj (rcu_retired s ! i)) pool)
     [0..<rcu_num_process s] (rcu_pool s)"

subsection \<open>Sequential behaviour\<close>

definition rcu_wf :: "rcu \<Rightarrow> bool" where
  "rcu_wf s \<longleftrightarrow> length (rcu_reservations s) = rcu_num_process s
     \<and> length (rcu_retired s) = rcu_num_process s
     \<and> length (rcu_retire_counters s) = rcu_num_process s
     \<and> length (rcu_alloc_counters s) = rcu_num_process s"

definition rcu_limbo :: "rcu \<Rightarrow> ptr multiset" where
  "rcu_limbo s = image_mset ri_obj (all_entries (rcu_retired s))"

lemma rcu_wf_new: "rcu_wf (rcu_new n pool)"
  by (simp add: rcu_wf_def rcu_new_def)

lemma rcu_wf_startOp: "rcu_wf s \<Longrightarrow> rcu_wf (snd (rcu_startOp tid s))"
  by (simp add: rcu_wf_def rcu_startOp_def Let_def)

lemma rcu_wf_endOp: "rcu_wf s \<Longrightarrow> rcu_wf (rcu_endOp tid s)"
  by (simp add: rcu_wf_def rcu_endOp_def)

lemma rcu_wf_updateAlloc: "rcu_wf s \<Longrightarrow> rcu_wf (rcu_updateAllocCounterAndEpoch tid s)"
  by (simp add: rcu_wf_def rcu_updateAllocCounterAndEpoch_def Let_def)

lemma rcu_safe_iff:
  "rcu_safe reservs i \<longleftrightarrow> ri_epoch i < UINT64_MAX \<and> (\<forall>r\<in>set reservs. ri_epoch i < r)"
  by (simp add: rcu_safe_def rcu_min_epoch_def less_scan_min)

lemma rcu_empty_eq:
  "rcu_wf s \<Longrightarrow> rcu_empty tid s =
     s\<lparr>rcu_retired := (rcu_retired s)[tid := filter (\<lambda>i. \<not> rcu_safe (rcu_reservations s) i) (rcu_retired s ! tid)],
       rcu_pool := pool_add_all tid (map ri_obj (filter (rcu_safe (rcu_reservations s)) (rcu_retired s ! tid))) (rcu_pool s)\<rparr>"
  by (simp add: rcu_empty_def rcu_wf_def erase_loop_eq Let_def)

lemma rcu_wf_empty: "rcu_wf s \<Longrightarrow> rcu_wf (rcu_empty tid s)"
  by (simp add: rcu_empty_eq) (simp add: rcu_wf_def)

lemma rcu_wf_push: "rcu_wf s \<Longrightarrow> rcu_wf (rcu_push tid p s)"
  by (simp add: rcu_push_def rcu_wf_def)

lemma rcu_account_empty:
  assumes "rcu_wf s" and "tid < rcu_num_process s"
  shows "rcu_limbo (rcu_empty tid s) + mset (al_freed (rcu_pool (rcu_empty tid s)))
       = rcu_limbo s + mset (al_freed (rcu_pool s))"
  using assms sweep_account [of tid "rcu_retired s" ri_obj "rcu_safe (rcu_reservations s)"]
  by (simp add: rcu_empty_eq rcu_limbo_def rcu_wf_def add.left_commute add.commute del: mset_map)

lemma rcu_account_push:
  "rcu_wf s \<Longrightarrow> tid < rcu_num_process s \<Longrightarrow> rcu_limbo (rcu_push tid p s) = rcu_limbo s + {#p#}"
  by (simp add: rcu_push_def rcu_limbo_def rcu_wf_def push_account)

lemma rcu_push_fields [simp]:
  "rcu_num_process (rcu_push tid p s) = rcu_num_process s"
  "rcu_pool (rcu_push tid p s) = rcu_pool s"
  "rcu_empty_freq (rcu_push tid p s) = rcu_empty_freq s"
  "rcu_reservations (rcu_push tid p s) = rcu_reservations s"
  by (simp_all add: rcu_push_def)

lemma rcu_empty_fields [simp]:
  "rcu_num_process (rcu_empty tid s) = rcu_num_process s"
  "rcu_reservations (rcu_empty tid s) = rcu_reservations s"
  "rcu_epoch (rcu_empty tid s) = rcu_epoch s"
  by (simp_all add: rcu_empty_def Let_def split: prod.splits)

fun rcu_exec :: "smr_op \<Rightarrow> rcu \<Rightarrow> rcu" where
  "rcu_exec (StartOp tid) s = snd (rcu_startOp tid s)"
| "rcu_exec (EndOp tid) s = rcu_endOp tid s"
| "rcu_exec (ReadOp tid idx p) s = s"
| "rcu_exec (AllocOp tid) s = rcu_updateAllocCounterAndEpoch tid s"
| "rcu_exec (SignalOp tid) s = s"
| "rcu_exec (RetireOp tid p) s = rcu_retire tid p s"

lemmas rcu_small_ops = rcu_startOp_def rcu_endOp_def rcu_updateAllocCounterAndEpoch_def Let_def

lemma rcu_wf_retire: "rcu_wf s \<Longrightarrow> rcu_wf (rcu_retire tid p s)"
  by (simp add: rcu_retire_def Let_def rcu_wf_push rcu_wf_empty)

lemma rcu_account_retire:
  assumes "rcu_wf s" and "tid < rcu_num_process s" and "p \<noteq> NULL"
  shows "rcu_limbo (rcu_retire tid p s) + mset (al_freed (rcu_pool (rcu_retire tid p s)))
      = rcu_limbo s + mset (al_freed (rcu_pool s)) + {#p#}"
  using rcu_account_push [OF assms(1,2), of p] rcu_account_empty [OF rcu_wf_push [OF assms(1)], of tid tid p] assms
  by (simp add: rcu_retire_def Let_def)

lemma rcu_freed_retire:
  "rcu_wf s \<Longrightarrow> \<exists>ps. al_freed (rcu_pool (rcu_retire tid p s)) = al_freed (rcu_pool s) @ ps"
  using rcu_wf_push [of s] by (simp add: rcu_retire_def Let_def rcu_empty_eq)

interpretation rcu: reclaimer rcu_exec rcu_wf rcu_num_process rcu_limbo "\<lambda>s. al_freed (rcu_pool s)"
proof unfold_locales
  fix s op
  assume wf: "rcu_wf s" and "op_ok (rcu_num_process s) op"
  then have tid: "op_tid op < rcu_num_process s" by (simp add: op_ok_tid)
  show "rcu_wf (rcu_exec op s)"
    using wf by (cases op) (simp_all add: rcu_wf_startOp rcu_wf_endOp rcu_wf_updateAlloc rcu_wf_retire)
  show "rcu_num_process (rcu_exec op s) = rcu_num_process s"
    by (cases op) (simp_all add: rcu_small_ops rcu_retire_def)
  show "\<exists>ps. al_freed (rcu_pool (rcu_exec op s)) = al_freed (rcu_pool s) @ ps"
    using rcu_freed_retire [OF wf] by (cases op) (simp_all add: rcu_small_ops)
  show "rcu_limbo (rcu_exec op s) + mset (al_freed (rcu_pool (rcu_exec op s)))
      = rcu_limbo s + mset (al_freed (rcu_pool s)) + mset (retired_by op)"
    using rcu_account_retire [OF wf] tid
    by (cases op) (simp_all add: rcu_limbo_def rcu_small_ops, simp add: rcu_retire_def)
qed

subsection \<open>Concurrent safety\<close>

text \<open>
  One thread's local state: between operations, after the load of \<open>epoch\<close> in
  \<open>startOp\<close>, or inside an operation with the objects it met. An object may be added to
  that set whenever it is linked, so the set may be every object that was linked at some moment of
  the operation, which is what a traversal can reach, through unlinked nodes too.
\<close>

datatype rcu_loc = Idle | Started nat | Active "ptr set"

inductive rcu_proto ::
  "nat \<Rightarrow> nat \<Rightarrow> nat \<Rightarrow> ptr set \<Rightarrow> (nat \<Rightarrow> nat) \<Rightarrow> rcu_loc \<Rightarrow> (nat \<Rightarrow> nat) \<Rightarrow> rcu_loc \<Rightarrow> bool"
  for n t c L res where
  start_load: "t < n \<Longrightarrow> rcu_proto n t c L res Idle res (Started c)"
| start_store: "t < n \<Longrightarrow> rcu_proto n t c L res (Started e) (res(t := e)) (Active {})"
| meet: "p \<in> L \<Longrightarrow> rcu_proto n t c L res (Active R) res (Active (insert p R))"
| end_store: "t < n \<Longrightarrow> rcu_proto n t c L res (Active R) (res(t := UINT64_MAX)) Idle"

inductive_cases rcu_protoE: "rcu_proto n t c L res l res' l'"

fun rcu_held :: "rcu_loc \<Rightarrow> ptr set" where
  "rcu_held (Active R) = R"
| "rcu_held _ = {}"

definition rcu_scheme :: "nat \<Rightarrow> (nat, rcu_loc, rcu_info) scheme" where
  "rcu_scheme n = \<lparr>sc_cells = n, sc_birth = (\<lambda>_. 0),
     sc_item = (\<lambda>p c. \<lparr>ri_obj = p, ri_epoch = c\<rparr>), sc_obj = ri_obj,
     sc_safe = rcu_safe, sc_proto = rcu_proto n\<rparr>"

definition rcu_conflict :: "nat \<Rightarrow> (nat \<Rightarrow> nat) \<Rightarrow> nat \<Rightarrow> rcu_info \<Rightarrow> bool" where
  "rcu_conflict n v t i \<longleftrightarrow> t < n \<and> v t \<le> ri_epoch i"

fun rcu_linv :: "nat \<Rightarrow> nat \<Rightarrow> (nat \<Rightarrow> nat) \<Rightarrow> nat \<Rightarrow> rcu_loc \<Rightarrow> bool" where
  "rcu_linv n c res t Idle = True"
| "rcu_linv n c res t (Started e) \<longleftrightarrow> e \<le> c"
| "rcu_linv n c res t (Active R) \<longleftrightarrow> t < n \<and> res t \<le> c"

interpretation rcu_sys: smr_scheme "rcu_scheme n" id rcu_held "\<lambda>_. rcu_conflict n" "rcu_linv n"
  0 "\<lambda>_. UINT64_MAX" Idle for n
proof unfold_locales
  fix snap :: "nat list" and i t
  assume "length snap = sc_cells (rcu_scheme n)" and "sc_safe (rcu_scheme n) snap i"
  then show "\<not> rcu_conflict n (view snap res) t i" for res
    by (auto simp: rcu_scheme_def rcu_conflict_def rcu_safe_iff view_complete not_le)
next
  fix l c res t
  assume "rcu_linv n c res t l" and "Suc c < UINT64_MAX"
  then show "rcu_linv n (Suc c) res t l" by (cases l) auto
next
  fix l c t and res res' :: "nat \<Rightarrow> nat"
  assume "rcu_linv n c res t l" and "\<forall>k. id k = t \<longrightarrow> res' k = res k"
  then show "rcu_linv n c res' t l" by (cases l) auto
next
  fix l c res t p
  assume "rcu_linv n c res t l" and "p \<in> rcu_held l"
  then show "rcu_conflict n res t (sc_item (rcu_scheme n) p c)"
    by (cases l) (auto simp: rcu_scheme_def rcu_conflict_def)
qed (auto simp: rcu_scheme_def rcu_conflict_def UINT64_MAX_def elim: rcu_protoE)


text \<open>
  The class is one thread's view of the concurrent system: \<open>rcu_rel\<close> reads the shared
  state off the class's fields.
\<close>

definition rcu_rel :: "rcu \<Rightarrow> (nat, rcu_loc, rcu_info) smr \<Rightarrow> bool" where
  "rcu_rel s m \<longleftrightarrow> rcu_wf s \<and> sm_clock m = rcu_epoch s
     \<and> (\<forall>t<rcu_num_process s. sm_res m t = rcu_reservations s ! t)
     \<and> (\<forall>t<rcu_num_process s. sm_trash m t = rcu_retired s ! t)
     \<and> sm_freed m = al_freed (rcu_pool s)"

lemma rcu_rel_cells:
  "rcu_rel s m \<Longrightarrow> map (sm_res m) [0..<rcu_num_process s] = rcu_reservations s"
  by (rule nth_equalityI) (auto simp: rcu_rel_def rcu_wf_def)

lemma rcu_startOp_refines:
  assumes "rcu_rel s m" and "tid < rcu_num_process s" and "sm_loc m tid = Idle"
  shows "\<exists>m'. smr_reach (rcu_scheme (rcu_num_process s)) m m' \<and> rcu_rel (snd (rcu_startOp tid s)) m'
     \<and> sm_loc m' tid = Active {}"
proof -
  let ?sc = "rcu_scheme (rcu_num_process s)"
  let ?m1 = "m\<lparr>sm_res := sm_res m, sm_loc := (sm_loc m)(tid := Started (sm_clock m))\<rparr>"
  let ?m2 = "?m1\<lparr>sm_res := (sm_res m)(tid := sm_clock m), sm_loc := (sm_loc ?m1)(tid := Active {})\<rparr>"
  have "smr_step ?sc m ?m1"
    by (rule smr_step.proto) (use assms in \<open>auto simp: rcu_scheme_def intro: rcu_proto.intros\<close>)
  moreover have "smr_step ?sc ?m1 ?m2"
    by (rule smr_step.proto) (use assms in \<open>auto simp: rcu_scheme_def intro: rcu_proto.intros\<close>)
  ultimately have "smr_reach ?sc m ?m2" by (blast intro: smr_reach.intros)
  moreover have "rcu_rel (snd (rcu_startOp tid s)) ?m2"
    using assms by (auto simp: rcu_rel_def rcu_startOp_def rcu_wf_def)
  ultimately show ?thesis by fastforce
qed

lemma rcu_endOp_refines:
  assumes "rcu_rel s m" and "tid < rcu_num_process s" and "sm_loc m tid = Active R"
  shows "\<exists>m'. smr_reach (rcu_scheme (rcu_num_process s)) m m' \<and> rcu_rel (rcu_endOp tid s) m'
     \<and> sm_loc m' tid = Idle"
proof -
  let ?m1 = "m\<lparr>sm_res := (sm_res m)(tid := UINT64_MAX), sm_loc := (sm_loc m)(tid := Idle)\<rparr>"
  have "smr_step (rcu_scheme (rcu_num_process s)) m ?m1"
    by (rule smr_step.proto) (use assms in \<open>auto simp: rcu_scheme_def intro: rcu_proto.intros\<close>)
  moreover have "rcu_rel (rcu_endOp tid s) ?m1"
    using assms by (auto simp: rcu_rel_def rcu_endOp_def rcu_wf_def)
  ultimately show ?thesis by (fastforce intro: smr_reach_step)
qed

lemma rcu_empty_refines:
  assumes rel: "rcu_rel s m" and tid: "tid < rcu_num_process s" and "sm_scan m tid = None"
  shows "\<exists>m'. smr_reach (rcu_scheme (rcu_num_process s)) m m' \<and> rcu_rel (rcu_empty tid s) m'
     \<and> sm_loc m' = sm_loc m"
proof -
  let ?sc = "rcu_scheme (rcu_num_process s)" and ?safe = "rcu_safe (rcu_reservations s)"
  have wf: "rcu_wf s" and tr: "sm_trash m tid = rcu_retired s ! tid"
    using rel tid by (auto simp: rcu_rel_def)
  have "erase_loop (sc_safe ?sc (map (sm_res m) [0..<sc_cells ?sc])) (sm_trash m tid)
      = (filter (\<lambda>i. \<not> ?safe i) (rcu_retired s ! tid), filter ?safe (rcu_retired s ! tid))"
    using rcu_rel_cells [OF rel] tr by (simp add: rcu_scheme_def erase_loop_eq)
  note reach = undisturbed_empty [OF assms(3) this]
  show ?thesis
    by (rule exI, rule conjI, rule reach)
      (use rel tid wf in \<open>auto simp: rcu_rel_def rcu_empty_eq rcu_scheme_def rcu_wf_def\<close>)
qed

lemma rcu_push_refines:
  assumes rel: "rcu_rel s m" and tid: "tid < rcu_num_process s" and "sm_scan m tid = None"
    and "sm_status m p = Unlinked tid"
  shows "\<exists>m'. smr_reach (rcu_scheme (rcu_num_process s)) m m' \<and> rcu_rel (rcu_push tid p s) m'
     \<and> sm_loc m' = sm_loc m \<and> sm_scan m' = sm_scan m"
proof -
  let ?sc = "rcu_scheme (rcu_num_process s)"
  have "rcu_rel (rcu_push tid p s) (m\<lparr>sm_status := (sm_status m)(p := Retired tid),
       sm_trash := (sm_trash m)(tid := sm_trash m tid @ [sc_item ?sc p (sm_clock m)])\<rparr>)"
    using rel tid by (auto simp: rcu_rel_def rcu_push_def rcu_wf_def rcu_scheme_def)
  with smr_reach_step [OF smr_step.retire [OF assms(4,3), of ?sc]] show ?thesis by fastforce
qed

lemma rcu_retire_refines:
  assumes "rcu_rel s m" and "tid < rcu_num_process s" and "sm_scan m tid = None"
    and "sm_status m p = Unlinked tid" and "p \<noteq> NULL"
  shows "\<exists>m'. smr_reach (rcu_scheme (rcu_num_process s)) m m' \<and> rcu_rel (rcu_retire tid p s) m'
     \<and> sm_loc m' = sm_loc m"
proof -
  obtain m1 where m1: "smr_reach (rcu_scheme (rcu_num_process s)) m m1" "rcu_rel (rcu_push tid p s) m1"
    "sm_loc m1 = sm_loc m" "sm_scan m1 = sm_scan m"
    using rcu_push_refines [OF assms(1-4)] by blast
  moreover obtain m2 where "smr_reach (rcu_scheme (rcu_num_process s)) m1 m2"
    "rcu_rel (rcu_empty tid (rcu_push tid p s)) m2" "sm_loc m2 = sm_loc m1"
    using rcu_empty_refines [OF m1(2), of tid] assms m1(4) by auto
  ultimately show ?thesis
    using assms(5) by (auto simp: rcu_retire_def Let_def intro: smr_reach_trans)
qed

subsection \<open>Properties\<close>

text \<open>
  C10. In every interleaving of the threads' atomic steps, a thread inside an operation never holds
  an object that was freed, where it may hold every object that was linked at some moment since its
  \<open>startOp\<close>; and no object is freed twice. The runs are those before the epoch reaches
  \<open>UINT64_MAX\<close>.
\<close>

theorem rcu_safe_reclamation:
  "smr_reach (rcu_scheme n) (smr_init 0 (\<lambda>_. UINT64_MAX) Idle) s \<Longrightarrow>
     distinct (sm_freed s) \<and> (\<forall>t. rcu_held (sm_loc s t) \<inter> set (sm_freed s) = {})"
  by (rule rcu_sys.safe_reclamation)

theorem rcu_safe_reclamation_witness:
  "\<exists>s. smr_reach (rcu_scheme 2) (smr_init 0 (\<lambda>_. UINT64_MAX) Idle) s \<and> sm_freed s = [8]
     \<and> distinct (sm_freed s) \<and> (\<forall>t. rcu_held (sm_loc s t) \<inter> set (sm_freed s) = {})"
proof -
  have "sc_safe (rcu_scheme 2) (map (\<lambda>_. UINT64_MAX) [0..<sc_cells (rcu_scheme 2)]) (sc_item (rcu_scheme 2) 8 0)"
    by (simp add: rcu_scheme_def rcu_safe_iff UINT64_MAX_def)
  then obtain s where s: "smr_reach (rcu_scheme 2) (smr_init 0 (\<lambda>_. UINT64_MAX) Idle) s" and f: "sm_freed s = [8]"
    using lifecycle_run [of 8 "rcu_scheme 2" 0 "\<lambda>_. UINT64_MAX" Idle] by (auto simp: rcu_scheme_def)
  then show ?thesis using rcu_safe_reclamation [OF s] by blast
qed

text \<open>
  For every sequence of calls by threads below \<open>num_process\<close>, the retired objects are
  exactly those in limbo together with those given to the pool: none is lost, none is freed twice.
\<close>

lemma rcu_accounting:
  assumes "legal_ops n ops"
  shows "rcu_limbo (fold rcu_exec ops (rcu_new n alloc_init))
       + mset (al_freed (rcu_pool (fold rcu_exec ops (rcu_new n alloc_init)))) = mset (retired_in ops)"
  using rcu.run_accounting [OF rcu_wf_new] assms
  by (simp add: rcu_new_def rcu_limbo_def alloc_init_def)

lemma rcu_accounting_witness:
  "rcu_limbo (fold rcu_exec [StartOp 1, RetireOp 0 8] (rcu_new 2 alloc_init))
     + mset (al_freed (rcu_pool (fold rcu_exec [StartOp 1, RetireOp 0 8] (rcu_new 2 alloc_init)))) = {#8#}"
  using rcu_accounting [of 2 "[StartOp 1, RetireOp 0 8]"] by simp


text \<open>
  C11. The class refines the concurrent system: \<open>startOp\<close>, \<open>endOp\<close> and
  \<open>retire\<close> with its \<open>empty\<close> are runs of atomic steps of the calling thread that
  nobody interrupts, so what holds in every run of the system holds for the class.
\<close>

theorem rcu_refines:
  assumes "rcu_rel s m" and "tid < rcu_num_process s" and "sm_scan m tid = None"
  shows "(sm_loc m tid = Idle \<longrightarrow> (\<exists>m'. smr_reach (rcu_scheme (rcu_num_process s)) m m'
           \<and> rcu_rel (snd (rcu_startOp tid s)) m' \<and> sm_loc m' tid = Active {}))
    \<and> (\<forall>R. sm_loc m tid = Active R \<longrightarrow> (\<exists>m'. smr_reach (rcu_scheme (rcu_num_process s)) m m'
           \<and> rcu_rel (rcu_endOp tid s) m' \<and> sm_loc m' tid = Idle))
    \<and> (\<forall>p. sm_status m p = Unlinked tid \<longrightarrow> p \<noteq> NULL \<longrightarrow> (\<exists>m'. smr_reach (rcu_scheme (rcu_num_process s)) m m'
           \<and> rcu_rel (rcu_retire tid p s) m' \<and> sm_loc m' = sm_loc m))"
  using assms rcu_startOp_refines rcu_endOp_refines rcu_retire_refines by blast

theorem rcu_refines_witness:
  "(\<exists>m'. smr_reach (rcu_scheme 1) (smr_init 0 (\<lambda>_. UINT64_MAX) Idle) m'
      \<and> rcu_rel (snd (rcu_startOp 0 (rcu_new 1 alloc_init))) m' \<and> sm_loc m' 0 = Active {})
   \<and> (\<exists>m'. smr_reach (rcu_scheme 1) ((smr_init 0 (\<lambda>_. UINT64_MAX) (Active {}))) m'
      \<and> rcu_rel (rcu_endOp 0 (rcu_new 1 alloc_init)) m' \<and> sm_loc m' 0 = Idle)
   \<and> (\<exists>m'. smr_reach (rcu_scheme 1) ((smr_init 0 (\<lambda>_. UINT64_MAX) Idle)\<lparr>sm_status := (\<lambda>_. Unlinked 0)\<rparr>) m'
      \<and> rcu_rel (rcu_retire 0 8 (rcu_new 1 alloc_init)) m' \<and> sm_loc m' = (\<lambda>_. Idle))"
proof -
  have rel: "rcu_rel (rcu_new 1 alloc_init) ((smr_init 0 (\<lambda>_. UINT64_MAX) l)\<lparr>sm_status := st\<rparr>)" for l st
    by (simp add: rcu_rel_def rcu_wf_new) (simp add: rcu_new_def smr_init_def alloc_init_def)
  have upd: "(smr_init 0 (\<lambda>_. UINT64_MAX) l)\<lparr>sm_status := (\<lambda>_. Fresh)\<rparr> = smr_init 0 (\<lambda>_. UINT64_MAX) l" for l :: rcu_loc
    by (simp add: smr_init_def)
  have n: "rcu_num_process (rcu_new 1 alloc_init) = 1" by (simp add: rcu_new_def)
  note use = rcu_refines [OF rel, where tid = 0, unfolded n]
  show ?thesis
    using use [of "\<lambda>_. Fresh" Idle] use [of "\<lambda>_. Fresh" "Active {}"] use [of "\<lambda>_. Unlinked 0" Idle]
    by (simp add: upd smr_init_def)
qed

text \<open>
  \<open>empty\<close> is exact: it frees precisely the retired objects of the calling thread whose
  stamp is earlier than every announced epoch, in the order of their retirement; the lists of the
  other threads do not change.
\<close>

lemma rcu_empty_exact:
  assumes "rcu_wf s" and "tid < rcu_num_process s"
  shows "al_freed (rcu_pool (rcu_empty tid s)) = al_freed (rcu_pool s) @
        map ri_obj (filter (\<lambda>i. ri_epoch i < UINT64_MAX \<and> (\<forall>t<rcu_num_process s. ri_epoch i < rcu_reservations s ! t))
          (rcu_retired s ! tid))
     \<and> rcu_retired (rcu_empty tid s) ! tid =
        filter (\<lambda>i. ri_epoch i \<ge> UINT64_MAX \<or> (\<exists>t<rcu_num_process s. rcu_reservations s ! t \<le> ri_epoch i))
          (rcu_retired s ! tid)
     \<and> (\<forall>t. t \<noteq> tid \<longrightarrow> rcu_retired (rcu_empty tid s) ! t = rcu_retired s ! t)"
proof -
  have "rcu_safe (rcu_reservations s) =
      (\<lambda>i. ri_epoch i < UINT64_MAX \<and> (\<forall>t<rcu_num_process s. ri_epoch i < rcu_reservations s ! t))"
    using assms(1) by (auto simp: fun_eq_iff rcu_safe_iff rcu_wf_def all_set_conv_all_nth)
  then show ?thesis using assms
    by (simp add: rcu_empty_eq) (auto simp: rcu_wf_def not_less intro!: filter_cong)
qed

lemma rcu_empty_exact_witness:
  "al_freed (rcu_pool (rcu_empty 0 ((rcu_new 2 alloc_init)\<lparr>rcu_reservations := [7, 5],
      rcu_retired := [[\<lparr>ri_obj = 8, ri_epoch = 4\<rparr>, \<lparr>ri_obj = 16, ri_epoch = 5\<rparr>], []]\<rparr>))) = [8]"
  using rcu_empty_exact [of "(rcu_new 2 alloc_init)\<lparr>rcu_reservations := [7, 5],
      rcu_retired := [[\<lparr>ri_obj = 8, ri_epoch = 4\<rparr>, \<lparr>ri_obj = 16, ri_epoch = 5\<rparr>], []]\<rparr>" 0]
  by (simp add: rcu_wf_def rcu_new_def alloc_init_def UINT64_MAX_eq all_less_2)

end
