(* ===== verification/Qsbr.thy ===== *)
theory Qsbr
  imports Smr_System Reclaimer_Spec
begin

text \<open>
  Quiescent-state-based reclamation, \<open>common/recordmgr/reclaimer_qsbr.h\<close>. A thread
  announces the epoch when an operation ends, and that announcement protects its next operation.
\<close>

subsection \<open>The class and its operations\<close>

record qsbr_info =
  qi_obj :: ptr
  qi_epoch :: nat

record qsbr =
  qs_num_process :: nat
  qs_empty_freq :: nat
  qs_epoch_freq :: nat
  qs_reservations :: "nat list"
  qs_retired :: "qsbr_info list list"
  qs_retire_counters :: "nat list"
  qs_alloc_counters :: "nat list"
  qs_epoch :: nat
  qs_pool :: allocator

definition qsbr_new :: "nat \<Rightarrow> allocator \<Rightarrow> qsbr" where
  "qsbr_new numProcesses pool =
     \<lparr>qs_num_process = numProcesses, qs_empty_freq = 16384, qs_epoch_freq = 150,
      qs_reservations = replicate numProcesses UINT64_MAX,
      qs_retired = replicate numProcesses [],
      qs_retire_counters = replicate numProcesses 0,
      qs_alloc_counters = replicate numProcesses 0,
      qs_epoch = 0, qs_pool = pool\<rparr>"

definition qsbr_startOp :: "nat \<Rightarrow> qsbr \<Rightarrow> bool \<times> qsbr" where
  "qsbr_startOp tid s = (True, s)"

definition qsbr_endOp :: "nat \<Rightarrow> qsbr \<Rightarrow> qsbr" where
  "qsbr_endOp tid s =
     (let e = qs_epoch s in s\<lparr>qs_reservations := (qs_reservations s)[tid := e]\<rparr>)"

definition qsbr_updateAllocCounterAndEpoch :: "nat \<Rightarrow> qsbr \<Rightarrow> qsbr" where
  "qsbr_updateAllocCounterAndEpoch tid s =
     (let c = u64_inc (qs_alloc_counters s ! tid);
          s1 = s\<lparr>qs_alloc_counters := (qs_alloc_counters s)[tid := c]\<rparr>
      in if c mod (qs_epoch_freq s * qs_num_process s) = 0
         then s1\<lparr>qs_epoch := u64_inc (qs_epoch s1)\<rparr> else s1)"

definition qsbr_safe :: "nat list \<Rightarrow> qsbr_info \<Rightarrow> bool" where
  "qsbr_safe reservs res \<longleftrightarrow> qi_epoch res < scan_min UINT64_MAX reservs"

definition qsbr_empty :: "nat \<Rightarrow> qsbr \<Rightarrow> qsbr" where
  "qsbr_empty tid s =
     (let reservs = take (qs_num_process s) (qs_reservations s);
          (kept, erased) = erase_loop (qsbr_safe reservs) (qs_retired s ! tid)
      in s\<lparr>qs_retired := (qs_retired s)[tid := kept],
           qs_pool := pool_add_all tid (map qi_obj erased) (qs_pool s)\<rparr>)"

definition qsbr_push :: "nat \<Rightarrow> ptr \<Rightarrow> qsbr \<Rightarrow> qsbr" where
  "qsbr_push tid obj s =
     s\<lparr>qs_retired := (qs_retired s)[tid := qs_retired s ! tid @ [\<lparr>qi_obj = obj, qi_epoch = qs_epoch s\<rparr>]],
       qs_retire_counters := (qs_retire_counters s)[tid := u64_inc (qs_retire_counters s ! tid)]\<rparr>"

definition qsbr_retire :: "nat \<Rightarrow> ptr \<Rightarrow> qsbr \<Rightarrow> qsbr" where
  "qsbr_retire tid obj s =
     (if obj = NULL then s
      else let s1 = qsbr_push tid obj s
           in if qs_retire_counters s1 ! tid mod qs_empty_freq s1 = 0 then qsbr_empty tid s1 else s1)"

definition qsbr_delete :: "qsbr \<Rightarrow> allocator" where
  "qsbr_delete s = fold (\<lambda>i pool. pool_add_all i (map qi_obj (qs_retired s ! i)) pool)
     [0..<qs_num_process s] (qs_pool s)"

fun qsbr_exec :: "smr_op \<Rightarrow> qsbr \<Rightarrow> qsbr" where
  "qsbr_exec (StartOp tid) s = snd (qsbr_startOp tid s)"
| "qsbr_exec (EndOp tid) s = qsbr_endOp tid s"
| "qsbr_exec (ReadOp tid idx p) s = s"
| "qsbr_exec (AllocOp tid) s = qsbr_updateAllocCounterAndEpoch tid s"
| "qsbr_exec (SignalOp tid) s = s"
| "qsbr_exec (RetireOp tid p) s = qsbr_retire tid p s"

subsection \<open>Sequential behaviour\<close>

definition qsbr_wf :: "qsbr \<Rightarrow> bool" where
  "qsbr_wf s \<longleftrightarrow> length (qs_reservations s) = qs_num_process s
     \<and> length (qs_retired s) = qs_num_process s
     \<and> length (qs_retire_counters s) = qs_num_process s
     \<and> length (qs_alloc_counters s) = qs_num_process s"

definition qsbr_limbo :: "qsbr \<Rightarrow> ptr multiset" where
  "qsbr_limbo s = image_mset qi_obj (all_entries (qs_retired s))"

lemma qsbr_wf_new: "qsbr_wf (qsbr_new n pool)"
  by (simp add: qsbr_wf_def qsbr_new_def)

lemma qsbr_safe_iff:
  "qsbr_safe reservs i \<longleftrightarrow> qi_epoch i < UINT64_MAX \<and> (\<forall>r\<in>set reservs. qi_epoch i < r)"
  by (simp add: qsbr_safe_def less_scan_min)

lemma qsbr_empty_eq:
  "qsbr_wf s \<Longrightarrow> qsbr_empty tid s =
     s\<lparr>qs_retired := (qs_retired s)[tid := filter (\<lambda>i. \<not> qsbr_safe (qs_reservations s) i) (qs_retired s ! tid)],
       qs_pool := pool_add_all tid (map qi_obj (filter (qsbr_safe (qs_reservations s)) (qs_retired s ! tid))) (qs_pool s)\<rparr>"
  by (simp add: qsbr_empty_def qsbr_wf_def erase_loop_eq Let_def)

lemma qsbr_wf_empty: "qsbr_wf s \<Longrightarrow> qsbr_wf (qsbr_empty tid s)"
  by (simp add: qsbr_empty_eq) (simp add: qsbr_wf_def)

lemma qsbr_push_fields [simp]:
  "qs_num_process (qsbr_push tid p s) = qs_num_process s"
  "qs_pool (qsbr_push tid p s) = qs_pool s"
  "qsbr_wf (qsbr_push tid p s) = qsbr_wf s"
  by (simp_all add: qsbr_push_def qsbr_wf_def)

lemma qsbr_empty_fields [simp]: "qs_num_process (qsbr_empty tid s) = qs_num_process s"
  by (simp add: qsbr_empty_def Let_def split: prod.splits)

lemma qsbr_account_empty:
  assumes "qsbr_wf s" and "tid < qs_num_process s"
  shows "qsbr_limbo (qsbr_empty tid s) + mset (al_freed (qs_pool (qsbr_empty tid s)))
       = qsbr_limbo s + mset (al_freed (qs_pool s))"
  using assms sweep_account [of tid "qs_retired s" qi_obj "qsbr_safe (qs_reservations s)"]
  by (simp add: qsbr_empty_eq qsbr_limbo_def qsbr_wf_def add.left_commute add.commute del: mset_map)

lemma qsbr_account_retire:
  assumes "qsbr_wf s" and "tid < qs_num_process s" and "p \<noteq> NULL"
  shows "qsbr_limbo (qsbr_retire tid p s) + mset (al_freed (qs_pool (qsbr_retire tid p s)))
      = qsbr_limbo s + mset (al_freed (qs_pool s)) + {#p#}"
proof -
  have "qsbr_limbo (qsbr_push tid p s) = qsbr_limbo s + {#p#}"
    using assms by (simp add: qsbr_push_def qsbr_limbo_def qsbr_wf_def push_account)
  then show ?thesis
    using qsbr_account_empty [of "qsbr_push tid p s" tid] assms by (simp add: qsbr_retire_def Let_def)
qed

lemmas qsbr_small_ops = qsbr_startOp_def qsbr_endOp_def qsbr_updateAllocCounterAndEpoch_def Let_def

interpretation qsbr: reclaimer qsbr_exec qsbr_wf qs_num_process qsbr_limbo "\<lambda>s. al_freed (qs_pool s)"
proof unfold_locales
  fix s op
  assume wf: "qsbr_wf s" and "op_ok (qs_num_process s) op"
  then have tid: "op_tid op < qs_num_process s" by (simp add: op_ok_tid)
  have "qsbr_wf (qsbr_retire t p s)" for t p
    using wf by (simp add: qsbr_retire_def Let_def qsbr_wf_empty)
  then show "qsbr_wf (qsbr_exec op s)"
    using wf by (cases op) (simp_all add: qsbr_wf_def qsbr_small_ops)
  show "qs_num_process (qsbr_exec op s) = qs_num_process s"
    by (cases op) (simp_all add: qsbr_small_ops qsbr_retire_def)
  show "\<exists>ps. al_freed (qs_pool (qsbr_exec op s)) = al_freed (qs_pool s) @ ps"
    using wf by (cases op) (simp_all add: qsbr_small_ops qsbr_retire_def qsbr_empty_eq)
  show "qsbr_limbo (qsbr_exec op s) + mset (al_freed (qs_pool (qsbr_exec op s)))
      = qsbr_limbo s + mset (al_freed (qs_pool s)) + mset (retired_by op)"
    using qsbr_account_retire [OF wf] tid
    by (cases op) (simp_all add: qsbr_limbo_def qsbr_small_ops, simp add: qsbr_retire_def)
qed

subsection \<open>Concurrent safety\<close>

text \<open>
  A thread before its first \<open>endOp\<close> (its announcement is the constructor's
  \<open>UINT64_MAX\<close>), between the load and the store of an \<open>endOp\<close>, or after one. The
  sets are the objects met since the last quiescent moment.
\<close>

datatype qsbr_loc = First "ptr set" | Ending nat | Covered "ptr set"

inductive qsbr_proto ::
  "nat \<Rightarrow> nat \<Rightarrow> nat \<Rightarrow> ptr set \<Rightarrow> (nat \<Rightarrow> nat) \<Rightarrow> qsbr_loc \<Rightarrow> (nat \<Rightarrow> nat) \<Rightarrow> qsbr_loc \<Rightarrow> bool"
  for n t c L res where
  meet_first: "p \<in> L \<Longrightarrow> qsbr_proto n t c L res (First R) res (First (insert p R))"
| meet: "p \<in> L \<Longrightarrow> qsbr_proto n t c L res (Covered R) res (Covered (insert p R))"
| end_load_first: "t < n \<Longrightarrow> qsbr_proto n t c L res (First R) res (Ending c)"
| end_load: "t < n \<Longrightarrow> qsbr_proto n t c L res (Covered R) res (Ending c)"
| end_store: "t < n \<Longrightarrow> qsbr_proto n t c L res (Ending e) (res(t := e)) (Covered {})"

inductive_cases qsbr_protoE: "qsbr_proto n t c L res l res' l'"

text \<open>What a thread holds and is protected; what \<open>First\<close> holds is not.\<close>

fun qsbr_held :: "qsbr_loc \<Rightarrow> ptr set" where
  "qsbr_held (Covered R) = R"
| "qsbr_held _ = {}"

definition qsbr_scheme :: "nat \<Rightarrow> (nat, qsbr_loc, qsbr_info) scheme" where
  "qsbr_scheme n = \<lparr>sc_cells = n, sc_birth = (\<lambda>_. 0),
     sc_item = (\<lambda>p c. \<lparr>qi_obj = p, qi_epoch = c\<rparr>), sc_obj = qi_obj,
     sc_safe = qsbr_safe, sc_proto = qsbr_proto n\<rparr>"

definition qsbr_conflict :: "nat \<Rightarrow> (nat \<Rightarrow> nat) \<Rightarrow> nat \<Rightarrow> qsbr_info \<Rightarrow> bool" where
  "qsbr_conflict n v t i \<longleftrightarrow> t < n \<and> v t \<le> qi_epoch i"

fun qsbr_linv :: "nat \<Rightarrow> nat \<Rightarrow> (nat \<Rightarrow> nat) \<Rightarrow> nat \<Rightarrow> qsbr_loc \<Rightarrow> bool" where
  "qsbr_linv n c res t (First R) = True"
| "qsbr_linv n c res t (Ending e) \<longleftrightarrow> e \<le> c"
| "qsbr_linv n c res t (Covered R) \<longleftrightarrow> t < n \<and> res t \<le> c"

interpretation qsbr_sys: smr_scheme "qsbr_scheme n" id qsbr_held "\<lambda>_. qsbr_conflict n" "qsbr_linv n"
  0 "\<lambda>_. UINT64_MAX" "First {}" for n
proof unfold_locales
  fix snap :: "nat list" and i t
  assume "length snap = sc_cells (qsbr_scheme n)" and "sc_safe (qsbr_scheme n) snap i"
  then show "\<not> qsbr_conflict n (view snap res) t i" for res
    by (auto simp: qsbr_scheme_def qsbr_conflict_def qsbr_safe_iff view_complete not_le)
next
  fix l c res t
  assume "qsbr_linv n c res t l" and "Suc c < UINT64_MAX"
  then show "qsbr_linv n (Suc c) res t l" by (cases l) auto
next
  fix l c t and res res' :: "nat \<Rightarrow> nat"
  assume "qsbr_linv n c res t l" and "\<forall>k. id k = t \<longrightarrow> res' k = res k"
  then show "qsbr_linv n c res' t l" by (cases l) auto
next
  fix l c res t p
  assume "qsbr_linv n c res t l" and "p \<in> qsbr_held l"
  then show "qsbr_conflict n res t (sc_item (qsbr_scheme n) p c)"
    by (cases l) (auto simp: qsbr_scheme_def qsbr_conflict_def)
qed (auto simp: qsbr_scheme_def qsbr_conflict_def UINT64_MAX_def elim: qsbr_protoE)

subsection \<open>Properties\<close>

text \<open>
  For every sequence of calls, the retired objects are exactly those in limbo together with
  those given to the pool, and an object retired once is freed at most once.
\<close>

lemma qsbr_accounting:
  assumes "legal_ops n ops"
  shows "qsbr_limbo (fold qsbr_exec ops (qsbr_new n alloc_init))
       + mset (al_freed (qs_pool (fold qsbr_exec ops (qsbr_new n alloc_init)))) = mset (retired_in ops)"
  using qsbr.run_accounting [OF qsbr_wf_new] assms
  by (simp add: qsbr_new_def qsbr_limbo_def alloc_init_def)

lemma qsbr_accounting_witness:
  "qsbr_limbo (fold qsbr_exec [EndOp 1, RetireOp 0 8] (qsbr_new 2 alloc_init))
     + mset (al_freed (qs_pool (fold qsbr_exec [EndOp 1, RetireOp 0 8] (qsbr_new 2 alloc_init)))) = {#8#}"
  using qsbr_accounting [of 2 "[EndOp 1, RetireOp 0 8]"] by simp

text \<open>
  C12. In every interleaving, a thread that has ended at least one operation never holds an object
  that was freed, and no object is freed twice.
\<close>

theorem qsbr_safe_reclamation:
  "smr_reach (qsbr_scheme n) (smr_init 0 (\<lambda>_. UINT64_MAX) (First {})) s \<Longrightarrow>
     distinct (sm_freed s) \<and> (\<forall>t. qsbr_held (sm_loc s t) \<inter> set (sm_freed s) = {})"
  by (rule qsbr_sys.safe_reclamation)

theorem qsbr_safe_reclamation_witness:
  "\<exists>s. smr_reach (qsbr_scheme 2) (smr_init 0 (\<lambda>_. UINT64_MAX) (First {})) s \<and> sm_freed s = [8]
     \<and> distinct (sm_freed s) \<and> (\<forall>t. qsbr_held (sm_loc s t) \<inter> set (sm_freed s) = {})"
proof -
  have "sc_safe (qsbr_scheme 2) (map (\<lambda>_. UINT64_MAX) [0..<sc_cells (qsbr_scheme 2)]) (sc_item (qsbr_scheme 2) 8 0)"
    by (simp add: qsbr_scheme_def qsbr_safe_iff UINT64_MAX_def)
  then obtain s where s: "smr_reach (qsbr_scheme 2) (smr_init 0 (\<lambda>_. UINT64_MAX) (First {})) s"
    and f: "sm_freed s = [8]"
    using lifecycle_run [of 8 "qsbr_scheme 2" 0 "\<lambda>_. UINT64_MAX" "First {}"] by (auto simp: qsbr_scheme_def)
  then show ?thesis using qsbr_safe_reclamation [OF s] by blast
qed

text \<open>
  A history in which thread 1 starts an operation and meets object 8, and stays in the operation,
  while thread 0 runs one operation after the other, each of which allocates and retires an object.
\<close>

definition qsbr_round :: "nat \<Rightarrow> smr_op list" where
  "qsbr_round i = [StartOp 0, AllocOp 0] @ (if i = 0 then [ReadOp 1 0 8] else []) @ [RetireOp 0 (nth_obj i), EndOp 0]"

definition qsbr_history :: "nat \<Rightarrow> smr_op list" where
  "qsbr_history k = StartOp 1 # concat (map qsbr_round [0..<k])"

definition qsbr_entries :: "nat \<Rightarrow> qsbr_info list" where
  "qsbr_entries k = map (\<lambda>i. \<lparr>qi_obj = nth_obj i, qi_epoch = Suc i div 300\<rparr>) [0..<k]"

definition qsbr_at :: "nat \<Rightarrow> qsbr" where
  "qsbr_at k = (qsbr_new 2 alloc_init)\<lparr>
     qs_reservations := [if k = 0 then UINT64_MAX else k div 300, UINT64_MAX],
     qs_retired := [qsbr_entries k, []], qs_retire_counters := [k, 0], qs_alloc_counters := [k, 0],
     qs_epoch := k div 300\<rparr>"

lemma qsbr_alloc_at:
  assumes "k < 16384"
  shows "qsbr_updateAllocCounterAndEpoch 0 (qsbr_at k)
     = (qsbr_at k)\<lparr>qs_alloc_counters := [Suc k, 0], qs_epoch := Suc k div 300\<rparr>"
proof -
  have u: "u64_inc j = Suc j" if "j \<le> k" for j
    using that assms by (intro u64_inc_eq) (simp add: UINT64_MAX_def)
  have "k div 300 \<le> k" by simp
  then have "(if Suc k mod 300 = 0 then u64_inc (k div 300) else k div 300) = Suc k div 300"
    using u [of "k div 300"] by (simp add: div_Suc)
  then show ?thesis using u [of k] by (simp add: qsbr_updateAllocCounterAndEpoch_def qsbr_at_def qsbr_new_def Let_def split: if_splits)
qed

lemma qsbr_round_at:
  assumes "Suc k < 16384"
  shows "fold qsbr_exec (qsbr_round k) (qsbr_at k) = qsbr_at (Suc k)"
proof -
  have "nth_obj k \<noteq> NULL" by (rule nth_obj_nonnull) (use assms in simp)
  moreover have "u64_inc k = Suc k" by (rule u64_inc_eq) (use assms in \<open>simp add: UINT64_MAX_def\<close>)
  ultimately have "qsbr_retire 0 (nth_obj k) ((qsbr_at k)\<lparr>qs_alloc_counters := [Suc k, 0], qs_epoch := Suc k div 300\<rparr>)
     = (qsbr_at k)\<lparr>qs_alloc_counters := [Suc k, 0], qs_epoch := Suc k div 300,
         qs_retired := [qsbr_entries (Suc k), []], qs_retire_counters := [Suc k, 0]\<rparr>"
    using assms by (simp add: qsbr_retire_def qsbr_push_def qsbr_at_def qsbr_new_def qsbr_entries_def)
  moreover have "qsbr_updateAllocCounterAndEpoch 0 (qsbr_at k) = (qsbr_at k)\<lparr>qs_alloc_counters := [Suc k, 0], qs_epoch := Suc k div 300\<rparr>"
    by (rule qsbr_alloc_at) (use assms in simp)
  moreover have "fold qsbr_exec (qsbr_round k) s = qsbr_endOp 0 (qsbr_retire 0 (nth_obj k) (qsbr_updateAllocCounterAndEpoch 0 s))" for s
    by (simp add: qsbr_round_def qsbr_startOp_def)
  ultimately have "fold qsbr_exec (qsbr_round k) (qsbr_at k) = qsbr_endOp 0 ((qsbr_at k)\<lparr>qs_alloc_counters := [Suc k, 0],
      qs_epoch := Suc k div 300, qs_retired := [qsbr_entries (Suc k), []], qs_retire_counters := [Suc k, 0]\<rparr>)"
    by (simp only:)
  then show ?thesis by (simp add: qsbr_endOp_def qsbr_at_def qsbr_new_def)
qed

lemma qsbr_history_at: "k < 16384 \<Longrightarrow> fold qsbr_exec (qsbr_history k) (qsbr_new 2 alloc_init) = qsbr_at k"
proof (induction k)
  case 0
  then show ?case
    by (simp add: qsbr_history_def qsbr_startOp_def qsbr_at_def qsbr_new_def qsbr_entries_def numeral_2_eq_2)
next
  case (Suc k)
  then show ?case using qsbr_round_at [of k] by (simp add: qsbr_history_def)
qed

lemma qsbr_history_legal: "legal_ops 2 (qsbr_history k)"
  by (auto simp: qsbr_history_def qsbr_round_def legal_ops_def split: if_splits)

lemma qsbr_round_ok:
  assumes "i < 2 ^ 20"
  shows "client_ok {1} (nth_obj ` {..<i}) (qsbr_round i @ rest) \<longleftrightarrow> client_ok {1} (nth_obj ` {..<Suc i}) rest"
proof -
  have "nth_obj i \<notin> nth_obj ` {..<i}" using assms by (rule nth_obj_new)
  moreover have "insert 0 {1} - {0} = {1::nat}" by auto
  ultimately show ?thesis
    using nth_obj_eq by (cases "i = 0") (simp_all add: qsbr_round_def lessThan_Suc)
qed

lemma qsbr_rounds_ok:
  "i + m < 2 ^ 20 \<Longrightarrow> client_ok {1} (nth_obj ` {..<i + m}) rest \<Longrightarrow>
     client_ok {1} (nth_obj ` {..<i}) (concat (map qsbr_round [i..<i + m]) @ rest)"
proof (induction m arbitrary: i)
  case (Suc m)
  have e: "[i..<i + Suc m] = i # [Suc i..<Suc i + m]" by (simp add: upt_conv_Cons)
  have "client_ok {1} (nth_obj ` {..<Suc i}) (concat (map qsbr_round [Suc i..<Suc i + m]) @ rest)"
    by (rule Suc.IH) (use Suc.prems in simp_all)
  then show ?case
    unfolding e using qsbr_round_ok [of i "concat (map qsbr_round [Suc i..<Suc i + m]) @ rest"] Suc.prems(1) by simp
qed simp

lemma qsbr_rounds_met: "fold (met_step 1) (concat (map qsbr_round [1..<m])) R = R"
  by (induction m) (auto simp: qsbr_round_def)

lemma qsbr_history_ok:
  "k < 2 ^ 20 \<Longrightarrow> client_ok {1} (nth_obj ` {..<k}) rest \<Longrightarrow> client_ok {} {} (qsbr_history k @ rest)"
  using qsbr_rounds_ok [of 0 k rest] by (simp add: qsbr_history_def)

lemma qsbr_history_met: "0 < k \<Longrightarrow> met_in 1 (qsbr_history k) = {8}"
proof -
  assume "0 < k"
  then have "[0..<k] = 0 # [1..<k]" by (simp add: upt_conv_Cons)
  then show ?thesis using qsbr_rounds_met [of k "{8}"] by (simp add: met_in_def qsbr_history_def qsbr_round_def)
qed

lemma qsbr_history_stays: "EndOp 1 \<notin> set (qsbr_history k)"
  by (auto simp: qsbr_history_def qsbr_round_def split: if_splits)

lemma qsbr_last_frees:
  "8 \<in> set (al_freed (qs_pool (fold qsbr_exec [StartOp 0, AllocOp 0, RetireOp 0 (nth_obj 16383)] (qsbr_at 16383))))"
proof -
  let ?s = "(qsbr_at 16383)\<lparr>qs_alloc_counters := [16384, 0], qs_epoch := 54\<rparr>"
  have a: "qsbr_updateAllocCounterAndEpoch 0 (qsbr_at 16383) = ?s" using qsbr_alloc_at [of 16383] by simp
  let ?e = "\<lparr>qi_obj = 8, qi_epoch = 0\<rparr>"
  have "?e = (\<lambda>i. \<lparr>qi_obj = nth_obj i, qi_epoch = Suc i div 300\<rparr>) 0" by (simp add: nth_obj_eq)
  then have e: "?e \<in> set (qsbr_entries 16383)" unfolding qsbr_entries_def set_map by (rule image_eqI [where x = 0]) simp
  have n: "nth_obj 16383 \<noteq> NULL" by (rule nth_obj_nonnull) simp
  let ?p = "qsbr_push 0 (nth_obj 16383) ?s"
  have "u64_inc 16383 = 16384" by (simp add: u64_inc_def)
  then have c: "qs_retire_counters ?p ! 0 mod qs_empty_freq ?p = 0" and w: "qsbr_wf ?p"
    by (simp_all add: qsbr_push_def qsbr_at_def qsbr_new_def qsbr_wf_def)
  have "qsbr_safe [54, UINT64_MAX] ?e" by (simp add: qsbr_safe_iff UINT64_MAX_def)
  then have "?e \<in> set (filter (qsbr_safe (qs_reservations ?p)) (qs_retired ?p ! 0))"
    using e by (simp add: qsbr_push_def qsbr_at_def)
  then have "8 \<in> qi_obj ` set (filter (qsbr_safe (qs_reservations ?p)) (qs_retired ?p ! 0))"
    by (rule rev_image_eqI) simp
  then have "8 \<in> set (al_freed (qs_pool (qsbr_empty 0 ?p)))"
    using qsbr_empty_eq [OF w, of 0] by (simp only: set_map [symmetric]) simp
  then show ?thesis using a n c by (simp add: qsbr_startOp_def qsbr_retire_def Let_def)
qed

text \<open>
  C13. The first operation of a thread is not protected: the constructor announces
  \<open>UINT64_MAX\<close> for it and \<open>startOp\<close> announces nothing. A history of calls that respects
  the interface exists, on two threads, in which thread 1 meets object 8 in its first operation and
  is still in it, and object 8 is given to the pool: when thread 0 retires for the 16384th time,
  \<open>empty_freq\<close>, and scans the announcements.
\<close>

theorem qsbr_first_operation_unprotected:
  "\<exists>ops. legal_ops 2 ops \<and> client_ok {} {} ops \<and> 8 \<in> met_in 1 ops \<and> EndOp 1 \<notin> set ops
     \<and> 8 \<in> set (al_freed (qs_pool (fold qsbr_exec ops (qsbr_new 2 alloc_init))))"
proof -
  let ?last = "[StartOp 0, AllocOp 0, RetireOp 0 (nth_obj 16383)]"
  let ?ops = "qsbr_history 16383 @ ?last"
  have "client_ok {1} (nth_obj ` {..<16383}) ?last" using nth_obj_new [of 16383] by simp
  then have "client_ok {} {} ?ops" by (intro qsbr_history_ok) simp_all
  moreover have "met_in 1 ?ops = met_in 1 (qsbr_history 16383)" by (simp add: met_in_def)
  moreover have "8 \<in> set (al_freed (qs_pool (fold qsbr_exec ?last (qsbr_at 16383))))"
    by (rule qsbr_last_frees)
  moreover have "EndOp 1 \<notin> set ?ops" using qsbr_history_stays by simp
  moreover have "legal_ops 2 ?ops" using qsbr_history_legal by (simp add: legal_ops_def)
  ultimately show ?thesis
    using qsbr_history_at [of 16383] qsbr_history_met [of 16383] by (intro exI [of _ ?ops]) simp
qed

end
