(* ===== verification/Ibr.thy ===== *)
theory Ibr
  imports Smr_System Reclaimer_Spec
begin

text \<open>
  Interval-based reclamation, \<open>common/recordmgr/reclaimer_2geibr.h\<close>. A thread announces
  the interval of epochs its operation has seen; a retired object carries the interval it lived in,
  and is freed once no announced interval meets it. The birth epoch is a field of the data
  structure's node: the operations take it as the function \<open>birth\<close>.
\<close>

subsection \<open>The class and its operations\<close>

record interval_info =
  ii_obj :: ptr
  ii_birth :: nat
  ii_retire :: nat

record ibr =
  ib_num_process :: nat
  ib_freq :: nat
  ib_epoch_freq :: nat
  ib_upper :: "nat list"
  ib_lower :: "nat list"
  ib_retire_counters :: "nat list"
  ib_alloc_counters :: "nat list"
  ib_retired :: "interval_info list list"
  ib_epoch :: nat
  ib_pool :: allocator

definition ibr_new :: "nat \<Rightarrow> allocator \<Rightarrow> ibr" where
  "ibr_new numProcesses pool =
     \<lparr>ib_num_process = numProcesses, ib_freq = 24576, ib_epoch_freq = 150,
      ib_upper = replicate numProcesses UINT64_MAX,
      ib_lower = replicate numProcesses UINT64_MAX,
      ib_retire_counters = replicate numProcesses 0,
      ib_alloc_counters = replicate numProcesses 0,
      ib_retired = replicate numProcesses [],
      ib_epoch = 0, ib_pool = pool\<rparr>"

definition ibr_startOp :: "nat \<Rightarrow> ibr \<Rightarrow> bool \<times> ibr" where
  "ibr_startOp tid s =
     (let e = ib_epoch s;
          s1 = s\<lparr>ib_lower := (ib_lower s)[tid := e]\<rparr>
      in (True, s1\<lparr>ib_upper := (ib_upper s1)[tid := e]\<rparr>))"

definition ibr_endOp :: "nat \<Rightarrow> ibr \<Rightarrow> ibr" where
  "ibr_endOp tid s =
     (let s1 = s\<lparr>ib_upper := (ib_upper s)[tid := UINT64_MAX]\<rparr>
      in s1\<lparr>ib_lower := (ib_lower s1)[tid := UINT64_MAX]\<rparr>)"

definition ibr_updateAllocCounterAndEpoch :: "nat \<Rightarrow> ibr \<Rightarrow> ibr" where
  "ibr_updateAllocCounterAndEpoch tid s =
     (let c = u64_inc (ib_alloc_counters s ! tid);
          s1 = s\<lparr>ib_alloc_counters := (ib_alloc_counters s)[tid := c]\<rparr>
      in if c mod (ib_epoch_freq s * ib_num_process s) = 0
         then s1\<lparr>ib_epoch := u64_inc (ib_epoch s1)\<rparr> else s1)"

text \<open>
  The loop of \<open>read\<close>. Each turn loads the pointer and the epoch; the list holds what the
  loads return, turn by turn, so the loop may be run against any behaviour of the other threads.
  \<open>None\<close>: the loop has not returned when the list is used up.
\<close>

fun ibr_read_loop :: "nat \<Rightarrow> nat \<Rightarrow> (ptr \<times> nat) list \<Rightarrow> ibr \<Rightarrow> (ptr \<times> ibr) option" where
  "ibr_read_loop tid prev_epoch [] s = None"
| "ibr_read_loop tid prev_epoch ((p, curr_epoch) # loads) s =
     (if curr_epoch = prev_epoch then Some (p, s)
      else ibr_read_loop tid curr_epoch loads (s\<lparr>ib_upper := (ib_upper s)[tid := curr_epoch]\<rparr>))"

definition ibr_read :: "nat \<Rightarrow> (ptr \<times> nat) list \<Rightarrow> ibr \<Rightarrow> (ptr \<times> ibr) option" where
  "ibr_read tid loads s = ibr_read_loop tid (ib_upper s ! tid) loads s"

fun ibr_conflict_scan :: "(nat \<times> nat) list \<Rightarrow> nat \<Rightarrow> nat \<Rightarrow> bool" where
  "ibr_conflict_scan [] birth_epoch retire_epoch = False"
| "ibr_conflict_scan ((lower, upper) # reservs) birth_epoch retire_epoch =
     (if upper \<ge> birth_epoch \<and> lower \<le> retire_epoch then True
      else ibr_conflict_scan reservs birth_epoch retire_epoch)"

definition ibr_safe :: "(nat \<times> nat) list \<Rightarrow> interval_info \<Rightarrow> bool" where
  "ibr_safe reservs res \<longleftrightarrow> \<not> ibr_conflict_scan reservs (ii_birth res) (ii_retire res)"

definition ibr_empty :: "nat \<Rightarrow> ibr \<Rightarrow> ibr" where
  "ibr_empty tid s =
     (let reservs = map (\<lambda>i. (ib_lower s ! i, ib_upper s ! i)) [0..<ib_num_process s];
          (kept, erased) = erase_loop (ibr_safe reservs) (ib_retired s ! tid)
      in s\<lparr>ib_retired := (ib_retired s)[tid := kept],
           ib_pool := pool_add_all tid (map ii_obj erased) (ib_pool s)\<rparr>)"

definition ibr_push :: "(ptr \<Rightarrow> nat) \<Rightarrow> nat \<Rightarrow> ptr \<Rightarrow> ibr \<Rightarrow> ibr" where
  "ibr_push birth tid obj s =
     s\<lparr>ib_retired := (ib_retired s)[tid := ib_retired s ! tid @
         [\<lparr>ii_obj = obj, ii_birth = birth obj, ii_retire = ib_epoch s\<rparr>]],
       ib_retire_counters := (ib_retire_counters s)[tid := u64_inc (ib_retire_counters s ! tid)]\<rparr>"

definition ibr_retire :: "(ptr \<Rightarrow> nat) \<Rightarrow> nat \<Rightarrow> ptr \<Rightarrow> ibr \<Rightarrow> ibr" where
  "ibr_retire birth tid obj s =
     (if obj = NULL then s
      else let s1 = ibr_push birth tid obj s
           in if ib_retire_counters s1 ! tid mod ib_freq s1 = 0 then ibr_empty tid s1 else s1)"

definition ibr_delete :: "ibr \<Rightarrow> allocator" where
  "ibr_delete s = fold (\<lambda>i pool. pool_add_all i (map ii_obj (ib_retired s ! i)) pool)
     [0..<ib_num_process s] (ib_pool s)"

text \<open>An undisturbed \<open>read\<close> loads the same pointer and epoch each turn: two turns are enough.\<close>

fun ibr_exec :: "(ptr \<Rightarrow> nat) \<Rightarrow> smr_op \<Rightarrow> ibr \<Rightarrow> ibr" where
  "ibr_exec birth (StartOp tid) s = snd (ibr_startOp tid s)"
| "ibr_exec birth (EndOp tid) s = ibr_endOp tid s"
| "ibr_exec birth (ReadOp tid idx p) s =
     (case ibr_read tid [(p, ib_epoch s), (p, ib_epoch s)] s of Some (_, s') \<Rightarrow> s' | None \<Rightarrow> s)"
| "ibr_exec birth (AllocOp tid) s = ibr_updateAllocCounterAndEpoch tid s"
| "ibr_exec birth (SignalOp tid) s = s"
| "ibr_exec birth (RetireOp tid p) s = ibr_retire birth tid p s"

subsection \<open>Sequential behaviour\<close>

definition ibr_wf :: "ibr \<Rightarrow> bool" where
  "ibr_wf s \<longleftrightarrow> length (ib_upper s) = ib_num_process s \<and> length (ib_lower s) = ib_num_process s
     \<and> length (ib_retired s) = ib_num_process s
     \<and> length (ib_retire_counters s) = ib_num_process s
     \<and> length (ib_alloc_counters s) = ib_num_process s"

definition ibr_limbo :: "ibr \<Rightarrow> ptr multiset" where
  "ibr_limbo s = image_mset ii_obj (all_entries (ib_retired s))"

definition ibr_reservs :: "ibr \<Rightarrow> (nat \<times> nat) list" where
  "ibr_reservs s = map (\<lambda>i. (ib_lower s ! i, ib_upper s ! i)) [0..<ib_num_process s]"

lemma ibr_wf_new: "ibr_wf (ibr_new n pool)"
  by (simp add: ibr_wf_def ibr_new_def)

lemma ibr_conflict_scan_iff:
  "ibr_conflict_scan reservs b r \<longleftrightarrow> (\<exists>(lower, upper)\<in>set reservs. b \<le> upper \<and> lower \<le> r)"
  by (induction reservs b r rule: ibr_conflict_scan.induct) auto

lemma ibr_empty_eq:
  "ibr_empty tid s =
     s\<lparr>ib_retired := (ib_retired s)[tid := filter (\<lambda>i. \<not> ibr_safe (ibr_reservs s) i) (ib_retired s ! tid)],
       ib_pool := pool_add_all tid (map ii_obj (filter (ibr_safe (ibr_reservs s)) (ib_retired s ! tid))) (ib_pool s)\<rparr>"
  by (simp add: ibr_empty_def erase_loop_eq Let_def ibr_reservs_def)

lemma ibr_push_fields [simp]:
  "ib_num_process (ibr_push birth tid p s) = ib_num_process s"
  "ib_pool (ibr_push birth tid p s) = ib_pool s"
  "ibr_wf (ibr_push birth tid p s) = ibr_wf s"
  by (simp_all add: ibr_push_def ibr_wf_def)

lemma ibr_empty_fields [simp]:
  "ib_num_process (ibr_empty tid s) = ib_num_process s"
  "ibr_wf (ibr_empty tid s) = ibr_wf s"
  by (simp_all add: ibr_empty_eq ibr_wf_def)

lemma ibr_account_empty:
  assumes "ibr_wf s" and "tid < ib_num_process s"
  shows "ibr_limbo (ibr_empty tid s) + mset (al_freed (ib_pool (ibr_empty tid s)))
       = ibr_limbo s + mset (al_freed (ib_pool s))"
  using assms sweep_account [of tid "ib_retired s" ii_obj "ibr_safe (ibr_reservs s)"]
  by (simp add: ibr_empty_eq ibr_limbo_def ibr_wf_def add.left_commute add.commute del: mset_map)

lemma ibr_account_retire:
  assumes "ibr_wf s" and "tid < ib_num_process s" and "p \<noteq> NULL"
  shows "ibr_limbo (ibr_retire birth tid p s) + mset (al_freed (ib_pool (ibr_retire birth tid p s)))
      = ibr_limbo s + mset (al_freed (ib_pool s)) + {#p#}"
proof -
  have "ibr_limbo (ibr_push birth tid p s) = ibr_limbo s + {#p#}"
    using assms by (simp add: ibr_push_def ibr_limbo_def ibr_wf_def push_account)
  then show ?thesis
    using ibr_account_empty [of "ibr_push birth tid p s" tid] assms by (simp add: ibr_retire_def Let_def)
qed

lemma ibr_read_loop_keeps:
  "ibr_read_loop tid prev loads s = Some (p, s') \<Longrightarrow>
     \<exists>us. length us = length (ib_upper s) \<and> s' = s\<lparr>ib_upper := us\<rparr>"
proof (induction tid prev loads s rule: ibr_read_loop.induct)
  case (2 tid prev q curr loads s)
  show ?case
  proof (cases "curr = prev")
    case True
    then show ?thesis using "2.prems" by (intro exI [of _ "ib_upper s"]) simp
  next
    case False
    then show ?thesis using 2 by fastforce
  qed
qed simp

lemma ibr_exec_read:
  "\<exists>us. length us = length (ib_upper s) \<and> ibr_exec birth (ReadOp tid idx p) s = s\<lparr>ib_upper := us\<rparr>"
proof (cases "ib_epoch s = ib_upper s ! tid")
  case True
  then show ?thesis by (intro exI [of _ "ib_upper s"]) (simp add: ibr_read_def)
next
  case False
  then show ?thesis by (intro exI [of _ "(ib_upper s)[tid := ib_epoch s]"]) (simp add: ibr_read_def)
qed

lemma ibr_retire_fields [simp]:
  "ib_num_process (ibr_retire birth tid p s) = ib_num_process s"
  "ibr_wf (ibr_retire birth tid p s) = ibr_wf s"
  "\<exists>ps. al_freed (ib_pool (ibr_retire birth tid p s)) = al_freed (ib_pool s) @ ps"
proof -
  show "ib_num_process (ibr_retire birth tid p s) = ib_num_process s"
    and "ibr_wf (ibr_retire birth tid p s) = ibr_wf s"
    by (simp_all add: ibr_retire_def Let_def)
  show "\<exists>ps. al_freed (ib_pool (ibr_retire birth tid p s)) = al_freed (ib_pool s) @ ps"
    by (simp add: ibr_retire_def Let_def ibr_empty_eq)
qed

lemmas ibr_small_ops = ibr_startOp_def ibr_endOp_def ibr_updateAllocCounterAndEpoch_def Let_def

interpretation ibr: reclaimer "ibr_exec birth" ibr_wf ib_num_process ibr_limbo "\<lambda>s. al_freed (ib_pool s)"
  for birth
proof unfold_locales
  fix s op
  assume wf: "ibr_wf s" and "op_ok (ib_num_process s) op"
  then have tid: "op_tid op < ib_num_process s" by (simp add: op_ok_tid)
  note rd = ibr_exec_read [of s birth]
  have "ibr_wf (ibr_exec birth op s) \<and> ib_num_process (ibr_exec birth op s) = ib_num_process s
    \<and> (\<exists>ps. al_freed (ib_pool (ibr_exec birth op s)) = al_freed (ib_pool s) @ ps)
    \<and> ibr_limbo (ibr_exec birth op s) + mset (al_freed (ib_pool (ibr_exec birth op s)))
      = ibr_limbo s + mset (al_freed (ib_pool s)) + mset (retired_by op)"
  proof (cases op)
    case (ReadOp t idx p)
    then obtain us where "length us = length (ib_upper s)" "ibr_exec birth op s = s\<lparr>ib_upper := us\<rparr>"
      using rd by blast
    then show ?thesis using wf ReadOp by (simp add: ibr_wf_def ibr_limbo_def)
  next
    case (RetireOp t p)
    have "ibr_retire birth t NULL s = s" by (simp add: ibr_retire_def)
    then show ?thesis
      using wf tid ibr_account_retire [OF wf, of t p birth] RetireOp by (cases "p = NULL") simp_all
  qed (use wf in \<open>simp_all add: ibr_small_ops ibr_wf_def ibr_limbo_def\<close>)
  then show "ibr_wf (ibr_exec birth op s)" and "ib_num_process (ibr_exec birth op s) = ib_num_process s"
    and "\<exists>ps. al_freed (ib_pool (ibr_exec birth op s)) = al_freed (ib_pool s) @ ps"
    and "ibr_limbo (ibr_exec birth op s) + mset (al_freed (ib_pool (ibr_exec birth op s)))
      = ibr_limbo s + mset (al_freed (ib_pool s)) + mset (retired_by op)"
    by blast+
qed


subsection \<open>Concurrent safety\<close>

text \<open>
  Thread \<open>t\<close> owns cell \<open>2 t\<close> (its lower epoch) and cell \<open>2 t + 1\<close> (its
  upper epoch), in the order in which \<open>empty\<close> loads them. A thread is between operations,
  between the loads and stores of \<open>startOp\<close> and \<open>endOp\<close>, or inside an operation
  with the objects its reads returned and its announced upper epoch; inside a \<open>read\<close> it has
  loaded a pointer, or loaded a new epoch it has not announced yet.
\<close>

datatype ibr_loc =
  IIdle
| IStart nat
| ILowered nat
| IActive "ptr set" nat
| ILoaded "ptr set" nat ptr
| IStale "ptr set" nat nat
| IEnding

inductive ibr_proto ::
  "(ptr \<Rightarrow> nat) \<Rightarrow> nat \<Rightarrow> nat \<Rightarrow> nat \<Rightarrow> ptr set \<Rightarrow> (nat \<Rightarrow> nat) \<Rightarrow> ibr_loc \<Rightarrow> (nat \<Rightarrow> nat) \<Rightarrow> ibr_loc \<Rightarrow> bool"
  for birth n t c L res where
  start_load: "t < n \<Longrightarrow> ibr_proto birth n t c L res IIdle res (IStart c)"
| start_lower: "ibr_proto birth n t c L res (IStart e) (res(2 * t := e)) (ILowered e)"
| start_upper: "ibr_proto birth n t c L res (ILowered e) (res(2 * t + 1 := e)) (IActive {} e)"
| read_load: "p \<in> L \<Longrightarrow> ibr_proto birth n t c L res (IActive R e) res (ILoaded R e p)"
| read_same: "c = e \<Longrightarrow> ibr_proto birth n t c L res (ILoaded R e p) res (IActive (insert p R) e)"
| read_stale: "c \<noteq> e \<Longrightarrow> ibr_proto birth n t c L res (ILoaded R e p) res (IStale R e c)"
| read_store: "ibr_proto birth n t c L res (IStale R e e') (res(2 * t + 1 := e')) (IActive R e')"
| end_upper: "ibr_proto birth n t c L res (IActive R e) (res(2 * t + 1 := UINT64_MAX)) IEnding"
| end_lower: "ibr_proto birth n t c L res IEnding (res(2 * t := UINT64_MAX)) IIdle"

inductive_cases ibr_protoE: "ibr_proto birth n t c L res l res' l'"

text \<open>A pointer that was loaded is protected already when it was born before the announced epoch.\<close>

fun ibr_held :: "(ptr \<Rightarrow> nat) \<Rightarrow> ibr_loc \<Rightarrow> ptr set" where
  "ibr_held birth (IActive R e) = R"
| "ibr_held birth (ILoaded R e p) = (if birth p \<le> e then insert p R else R)"
| "ibr_held birth (IStale R e e') = R"
| "ibr_held birth _ = {}"

definition ibr_cells_safe :: "nat \<Rightarrow> nat list \<Rightarrow> interval_info \<Rightarrow> bool" where
  "ibr_cells_safe n snap i = ibr_safe (map (\<lambda>k. (snap ! (2 * k), snap ! (2 * k + 1))) [0..<n]) i"

definition ibr_scheme :: "(ptr \<Rightarrow> nat) \<Rightarrow> nat \<Rightarrow> (nat, ibr_loc, interval_info) scheme" where
  "ibr_scheme birth n = \<lparr>sc_cells = 2 * n, sc_birth = birth,
     sc_item = (\<lambda>p c. \<lparr>ii_obj = p, ii_birth = birth p, ii_retire = c\<rparr>), sc_obj = ii_obj,
     sc_safe = ibr_cells_safe n, sc_proto = ibr_proto birth n\<rparr>"

definition ibr_conflict :: "nat \<Rightarrow> (nat \<Rightarrow> nat) \<Rightarrow> nat \<Rightarrow> interval_info \<Rightarrow> bool" where
  "ibr_conflict n v t i \<longleftrightarrow> t < n \<and> ii_birth i \<le> v (2 * t + 1) \<and> v (2 * t) \<le> ii_retire i"

definition ibr_in_op :: "(ptr \<Rightarrow> nat) \<Rightarrow> nat \<Rightarrow> nat \<Rightarrow> (nat \<Rightarrow> nat) \<Rightarrow> nat \<Rightarrow> ptr set \<Rightarrow> nat \<Rightarrow> bool" where
  "ibr_in_op birth n c res t R e \<longleftrightarrow>
     t < n \<and> res (2 * t) \<le> e \<and> res (2 * t + 1) = e \<and> e \<le> c \<and> (\<forall>p\<in>R. birth p \<le> e)"

fun ibr_linv :: "(ptr \<Rightarrow> nat) \<Rightarrow> nat \<Rightarrow> nat \<Rightarrow> (nat \<Rightarrow> nat) \<Rightarrow> nat \<Rightarrow> ibr_loc \<Rightarrow> bool" where
  "ibr_linv birth n c res t IIdle = True"
| "ibr_linv birth n c res t (IStart e) \<longleftrightarrow> t < n \<and> e \<le> c"
| "ibr_linv birth n c res t (ILowered e) \<longleftrightarrow> t < n \<and> e \<le> c \<and> res (2 * t) = e"
| "ibr_linv birth n c res t (IActive R e) = ibr_in_op birth n c res t R e"
| "ibr_linv birth n c res t (ILoaded R e p) \<longleftrightarrow> ibr_in_op birth n c res t R e \<and> birth p \<le> c"
| "ibr_linv birth n c res t (IStale R e e') \<longleftrightarrow> ibr_in_op birth n c res t R e \<and> e \<le> e' \<and> e' \<le> c"
| "ibr_linv birth n c res t IEnding = True"

lemma ibr_cells_safe_no_conflict:
  assumes "length snap = 2 * n" and "ibr_cells_safe n snap i"
  shows "\<not> ibr_conflict n (view snap res) t i"
proof
  assume c: "ibr_conflict n (view snap res) t i"
  then have "t < n" by (simp add: ibr_conflict_def)
  with c assms show False
    by (auto simp: ibr_conflict_def ibr_cells_safe_def ibr_safe_def ibr_conflict_scan_iff view_complete)
qed

lemma ibr_keep:
  assumes "ibr_proto birth n t c L res l res' l'" and "ibr_linv birth n c res t l"
    and "p \<in> ibr_held birth l" and "p \<in> ibr_held birth l'"
    and "ibr_conflict n (view snap res) t i"
  shows "ibr_conflict n (view snap res') t i"
  using assms
  by (cases rule: ibr_proto.cases) (auto simp: ibr_conflict_def ibr_in_op_def view_def split: if_splits)

interpretation ibr_sys: smr_scheme "ibr_scheme birth n" "\<lambda>k. k div 2" "ibr_held birth"
  "\<lambda>_. ibr_conflict n" "ibr_linv birth n" 0 "\<lambda>_. UINT64_MAX" IIdle for birth n
proof unfold_locales
  fix snap :: "nat list" and i t l res
  assume "length snap = sc_cells (ibr_scheme birth n)" and "sc_safe (ibr_scheme birth n) snap i"
  then show "\<not> ibr_conflict n (view snap res) t i"
    by (intro ibr_cells_safe_no_conflict) (simp_all add: ibr_scheme_def)
next
  fix c res t l
  assume "ibr_linv birth n c res t l" and "Suc c < UINT64_MAX"
  then show "ibr_linv birth n (Suc c) res t l" by (cases l) (auto simp: ibr_in_op_def)
next
  fix c t l and res res' :: "nat \<Rightarrow> nat"
  assume "ibr_linv birth n c res t l" and "\<forall>k. k div 2 = t \<longrightarrow> res' k = res k"
  then show "ibr_linv birth n c res' t l" by (cases l) (auto simp: ibr_in_op_def)
next
  fix c res t l p
  assume "ibr_linv birth n c res t l" and "p \<in> ibr_held birth l"
  then show "ibr_conflict n res t (sc_item (ibr_scheme birth n) p c)"
    by (cases l) (auto simp: ibr_scheme_def ibr_conflict_def ibr_in_op_def split: if_splits)
next
  fix t c L res l res' l' i snap
  assume "sc_proto (ibr_scheme birth n) t c L res l res' l'" and "ibr_linv birth n c res t l"
    and "sc_obj (ibr_scheme birth n) i \<in> ibr_held birth l"
    and "sc_obj (ibr_scheme birth n) i \<in> ibr_held birth l'"
    and "ibr_conflict n (view snap res) t i"
  then show "ibr_conflict n (view snap res') t i"
    using ibr_keep by (simp add: ibr_scheme_def)
next
  fix t c L res l res' l'
  assume "sc_proto (ibr_scheme birth n) t c L res l res' l'" and "ibr_linv birth n c res t l"
    and "\<forall>p\<in>L. p \<noteq> NULL \<and> sc_birth (ibr_scheme birth n) p \<le> c"
  then show "ibr_linv birth n c res' t l'"
    by (auto simp: ibr_scheme_def ibr_in_op_def elim!: ibr_protoE) (meson order_trans)
next
  fix t c L res l res' l'
  assume "sc_proto (ibr_scheme birth n) t c L res l res' l'" and "ibr_linv birth n c res t l"
  then show "ibr_held birth l' \<subseteq> ibr_held birth l \<union> L"
    by (auto simp: ibr_scheme_def ibr_in_op_def elim!: ibr_protoE split: if_splits)
next
  fix t c L res l res' l' k
  assume "sc_proto (ibr_scheme birth n) t c L res l res' l'" and "k div 2 \<noteq> t"
  then show "res' k = res k"
    by (auto simp: ibr_scheme_def elim!: ibr_protoE)
qed (auto simp: ibr_scheme_def ibr_conflict_def UINT64_MAX_def)

subsection \<open>Properties\<close>

text \<open>
  C14. In every interleaving, no object is freed twice, and a thread never holds a freed object: what
  its \<open>read\<close> returned during its operation, and what the running \<open>read\<close> has
  loaded, if it was born by the announced epoch. The cell a \<open>read\<close> loads from holds a
  linked object, and the runs are those before the epoch reaches \<open>UINT64_MAX\<close>.
\<close>

theorem ibr_safe_reclamation:
  "smr_reach (ibr_scheme birth n) (smr_init 0 (\<lambda>_. UINT64_MAX) IIdle) s \<Longrightarrow>
     distinct (sm_freed s) \<and> (\<forall>t. ibr_held birth (sm_loc s t) \<inter> set (sm_freed s) = {})"
  by (rule ibr_sys.safe_reclamation)

theorem ibr_safe_reclamation_witness:
  "\<exists>s. smr_reach (ibr_scheme (\<lambda>_. 0) 2) (smr_init 0 (\<lambda>_. UINT64_MAX) IIdle) s \<and> sm_freed s = [8]
     \<and> distinct (sm_freed s) \<and> (\<forall>t. ibr_held (\<lambda>_. 0) (sm_loc s t) \<inter> set (sm_freed s) = {})"
proof -
  have "sc_safe (ibr_scheme (\<lambda>_. 0) 2) (map (\<lambda>_. UINT64_MAX) [0..<sc_cells (ibr_scheme (\<lambda>_. 0) 2)])
      (sc_item (ibr_scheme (\<lambda>_. 0) 2) 8 0)"
    by (auto simp: ibr_scheme_def ibr_cells_safe_def ibr_safe_def ibr_conflict_scan_iff UINT64_MAX_def)
  then obtain s where s: "smr_reach (ibr_scheme (\<lambda>_. 0) 2) (smr_init 0 (\<lambda>_. UINT64_MAX) IIdle) s"
    and f: "sm_freed s = [8]"
    using lifecycle_run [of 8 "ibr_scheme (\<lambda>_. 0) 2" 0 "\<lambda>_. UINT64_MAX" IIdle]
    by (auto simp: ibr_scheme_def)
  then show ?thesis using ibr_safe_reclamation [OF s] by blast
qed

text \<open>
  For every sequence of calls, reads with their announcements included, the retired objects are
  exactly those in limbo together with those given to the pool.
\<close>

lemma ibr_accounting:
  assumes "legal_ops n ops"
  shows "ibr_limbo (fold (ibr_exec birth) ops (ibr_new n alloc_init))
       + mset (al_freed (ib_pool (fold (ibr_exec birth) ops (ibr_new n alloc_init)))) = mset (retired_in ops)"
  using ibr.run_accounting [OF ibr_wf_new] assms
  by (simp add: ibr_new_def ibr_limbo_def alloc_init_def)

lemma ibr_accounting_witness:
  "ibr_limbo (fold (ibr_exec (\<lambda>_. 0)) [StartOp 1, ReadOp 1 0 8, RetireOp 0 8] (ibr_new 2 alloc_init))
     + mset (al_freed (ib_pool (fold (ibr_exec (\<lambda>_. 0)) [StartOp 1, ReadOp 1 0 8, RetireOp 0 8] (ibr_new 2 alloc_init)))) = {#8#}"
  using ibr_accounting [of 2 "[StartOp 1, ReadOp 1 0 8, RetireOp 0 8]" "\<lambda>_. 0"] by simp

lemma ibr_read_loop_loaded:
  "ibr_read_loop tid prev loads s = Some (p, s') \<Longrightarrow> tid < length (ib_upper s) \<Longrightarrow> ib_upper s ! tid = prev \<Longrightarrow>
     \<exists>k<length loads. loads ! k = (p, ib_upper s' ! tid)"
proof (induction tid prev loads s rule: ibr_read_loop.induct)
  case (2 tid prev q curr loads s)
  show ?case
  proof (cases "curr = prev")
    case True
    then show ?thesis using "2.prems" by (intro exI [of _ 0]) simp
  next
    case False
    then obtain k where "k < length loads" "loads ! k = (p, ib_upper s' ! tid)"
      using 2 by fastforce
    then show ?thesis by (intro exI [of _ "Suc k"]) simp
  qed
qed simp

lemma ibr_read_loop_returns:
  "Suc k < length loads \<Longrightarrow> snd (loads ! k) = snd (loads ! Suc k) \<Longrightarrow> ibr_read_loop tid prev loads s \<noteq> None"
proof (induction k arbitrary: prev loads s)
  case 0
  then show ?case by (cases loads; cases "tl loads") auto
next
  case (Suc k)
  then show ?case by (cases loads) auto
qed

text \<open>
  What \<open>read\<close> returns was loaded before an epoch load that equals the announced upper
  epoch, so the object is covered when it is returned; and \<open>read\<close> returns as soon as two
  successive turns load the same epoch, so only an advance of the epoch can delay it.
\<close>

lemma ibr_read_announced:
  assumes "ibr_wf s" and "tid < ib_num_process s"
  shows "(\<forall>p s'. ibr_read tid loads s = Some (p, s') \<longrightarrow> (\<exists>k<length loads. loads ! k = (p, ib_upper s' ! tid)))
     \<and> (\<forall>k. Suc k < length loads \<longrightarrow> snd (loads ! k) = snd (loads ! Suc k) \<longrightarrow> ibr_read tid loads s \<noteq> None)"
  using assms ibr_read_loop_loaded ibr_read_loop_returns by (auto simp: ibr_read_def ibr_wf_def)

lemma ibr_read_announced_witness:
  "ibr_read 0 [(8, 3), (16, 3)] (ibr_new 1 alloc_init) \<noteq> None"
  using ibr_read_announced [of "ibr_new 1 alloc_init" 0 "[(8, 3), (16, 3)]"]
  by (simp add: ibr_wf_new) (simp add: ibr_new_def)

end
