(* ===== verification/He.thy ===== *)
theory He
  imports Smr_System Reclaimer_Spec
begin

text \<open>
  Hazard eras, \<open>common/recordmgr/reclaimer_he.h\<close>. A thread announces, per slot, the era in
  which it read a pointer; 0 says that the slot announces nothing, and the clock starts at 1. A
  retired object is freed once no announced era lies between its birth and its retirement. The
  thread-local \<open>tid\<close> that \<open>isFreeable\<close> reads is the thread that runs
  \<open>empty\<close>, so its array \<open>scannedHEs\<close> is the argument \<open>scanned\<close>.
\<close>

subsection \<open>The class and its operations\<close>

record he_info =
  hi_obj :: ptr
  hi_birth :: nat
  hi_retire :: nat

record he =
  he_num_process :: nat
  he_freq :: nat
  he_epoch_freq :: nat
  he_num_he :: nat
  he_reservations :: "nat list list"
  he_retire_counters :: "nat list"
  he_alloc_counters :: "nat list"
  he_retired :: "he_info list list"
  he_epoch :: nat
  he_pool :: allocator

definition he_new :: "nat \<Rightarrow> allocator \<Rightarrow> he" where
  "he_new numProcesses pool =
     \<lparr>he_num_process = numProcesses, he_freq = 24576, he_epoch_freq = 100, he_num_he = 3,
      he_reservations = replicate numProcesses (replicate 3 0),
      he_retire_counters = replicate numProcesses 0,
      he_alloc_counters = replicate numProcesses 0,
      he_retired = replicate numProcesses [],
      he_epoch = 1, he_pool = pool\<rparr>"

definition he_store :: "nat \<Rightarrow> nat \<Rightarrow> nat \<Rightarrow> he \<Rightarrow> he" where
  "he_store tid idx e s =
     s\<lparr>he_reservations := (he_reservations s)[tid := (he_reservations s ! tid)[idx := e]]\<rparr>"

definition he_endOp :: "nat \<Rightarrow> he \<Rightarrow> he" where
  "he_endOp tid s = fold (\<lambda>i. he_store tid i 0) [0..<he_num_he s] s"

definition he_updateAllocCounterAndEpoch :: "nat \<Rightarrow> he \<Rightarrow> he" where
  "he_updateAllocCounterAndEpoch tid s =
     (let c = u64_inc (he_alloc_counters s ! tid);
          s1 = s\<lparr>he_alloc_counters := (he_alloc_counters s)[tid := c]\<rparr>
      in if c mod (he_epoch_freq s * he_num_process s) = 0
         then s1\<lparr>he_epoch := u64_inc (he_epoch s1)\<rparr> else s1)"

fun he_read_loop :: "nat \<Rightarrow> nat \<Rightarrow> nat \<Rightarrow> (ptr \<times> nat) list \<Rightarrow> he \<Rightarrow> (ptr \<times> he) option" where
  "he_read_loop tid idx prev_epoch [] s = None"
| "he_read_loop tid idx prev_epoch ((p, curr_epoch) # loads) s =
     (if curr_epoch = prev_epoch then Some (p, s)
      else he_read_loop tid idx curr_epoch loads (he_store tid idx curr_epoch s))"

definition he_read :: "nat \<Rightarrow> nat \<Rightarrow> (ptr \<times> nat) list \<Rightarrow> he \<Rightarrow> (ptr \<times> he) option" where
  "he_read tid idx loads s = he_read_loop tid idx (he_reservations s ! tid ! idx) loads s"

fun he_isFreeable :: "nat list \<Rightarrow> nat \<Rightarrow> nat \<Rightarrow> bool" where
  "he_isFreeable [] birth_epoch retire_epoch = True"
| "he_isFreeable (epo # scanned) birth_epoch retire_epoch =
     (if epo < birth_epoch \<or> epo > retire_epoch \<or> epo = 0 then he_isFreeable scanned birth_epoch retire_epoch
      else False)"

definition he_safe :: "nat list \<Rightarrow> he_info \<Rightarrow> bool" where
  "he_safe scanned res \<longleftrightarrow> he_isFreeable scanned (hi_birth res) (hi_retire res)"

definition he_scan :: "he \<Rightarrow> nat list" where
  "he_scan s = concat (map (\<lambda>i. map (\<lambda>j. he_reservations s ! i ! j) [0..<he_num_he s]) [0..<he_num_process s])"

definition he_empty :: "nat \<Rightarrow> he \<Rightarrow> he" where
  "he_empty tid s =
     (let scanned = he_scan s;
          (kept, erased) = erase_loop (he_safe scanned) (he_retired s ! tid)
      in s\<lparr>he_retired := (he_retired s)[tid := kept],
           he_pool := pool_add_all tid (map hi_obj erased) (he_pool s)\<rparr>)"

definition he_push :: "(ptr \<Rightarrow> nat) \<Rightarrow> nat \<Rightarrow> ptr \<Rightarrow> he \<Rightarrow> he" where
  "he_push birth tid obj s =
     s\<lparr>he_retired := (he_retired s)[tid := he_retired s ! tid @
         [\<lparr>hi_obj = obj, hi_birth = birth obj, hi_retire = he_epoch s\<rparr>]],
       he_retire_counters := (he_retire_counters s)[tid := u64_inc (he_retire_counters s ! tid)]\<rparr>"

definition he_retire :: "(ptr \<Rightarrow> nat) \<Rightarrow> nat \<Rightarrow> ptr \<Rightarrow> he \<Rightarrow> he" where
  "he_retire birth tid obj s =
     (if obj = NULL then s
      else let s1 = he_push birth tid obj s
           in if he_retire_counters s1 ! tid mod he_freq s1 = 0 then he_empty tid s1 else s1)"

definition he_delete :: "he \<Rightarrow> allocator" where
  "he_delete s = fold (\<lambda>i pool. pool_add_all i (map hi_obj (he_retired s ! i)) pool)
     [0..<he_num_process s] (he_pool s)"

fun he_exec :: "(ptr \<Rightarrow> nat) \<Rightarrow> smr_op \<Rightarrow> he \<Rightarrow> he" where
  "he_exec birth (StartOp tid) s = s"
| "he_exec birth (EndOp tid) s = he_endOp tid s"
| "he_exec birth (ReadOp tid idx p) s =
     (case he_read tid idx [(p, he_epoch s), (p, he_epoch s)] s of Some (_, s') \<Rightarrow> s' | None \<Rightarrow> s)"
| "he_exec birth (AllocOp tid) s = he_updateAllocCounterAndEpoch tid s"
| "he_exec birth (SignalOp tid) s = s"
| "he_exec birth (RetireOp tid p) s = he_retire birth tid p s"

subsection \<open>Sequential behaviour\<close>

definition he_wf :: "he \<Rightarrow> bool" where
  "he_wf s \<longleftrightarrow> length (he_reservations s) = he_num_process s
     \<and> (\<forall>r\<in>set (he_reservations s). length r = he_num_he s)
     \<and> length (he_retired s) = he_num_process s
     \<and> length (he_retire_counters s) = he_num_process s
     \<and> length (he_alloc_counters s) = he_num_process s"

definition he_limbo :: "he \<Rightarrow> ptr multiset" where
  "he_limbo s = image_mset hi_obj (all_entries (he_retired s))"

lemma he_wf_new: "he_wf (he_new n pool)"
  by (simp add: he_wf_def he_new_def)

lemma he_isFreeable_iff:
  "he_isFreeable scanned b r \<longleftrightarrow> (\<forall>e\<in>set scanned. e = 0 \<or> e < b \<or> r < e)"
  by (induction scanned b r rule: he_isFreeable.induct) auto

lemma he_store_fields [simp]:
  "he_num_process (he_store tid i e s) = he_num_process s"
  "he_num_he (he_store tid i e s) = he_num_he s"
  "he_retired (he_store tid i e s) = he_retired s"
  "he_pool (he_store tid i e s) = he_pool s"
  "he_epoch (he_store tid i e s) = he_epoch s"
  "length (he_reservations (he_store tid i e s)) = length (he_reservations s)"
  by (simp_all add: he_store_def)

lemma he_wf_store [simp]: "tid < he_num_process s \<Longrightarrow> he_wf s \<Longrightarrow> he_wf (he_store tid i e s)"
  unfolding he_wf_def by (auto simp: he_store_def dest!: set_update_subset_insert [THEN subsetD])

lemma he_stores_keep:
  "tid < he_num_process s \<Longrightarrow> he_wf s \<Longrightarrow>
     (let s' = fold (\<lambda>i. he_store tid i 0) is s
      in he_wf s' \<and> he_num_process s' = he_num_process s \<and> he_retired s' = he_retired s \<and> he_pool s' = he_pool s)"
  by (induction "is" arbitrary: s) (simp_all add: Let_def)

lemma he_reads_keep:
  "tid < he_num_process s \<Longrightarrow> he_wf s \<Longrightarrow> he_read_loop tid idx prev loads s = Some (p, s') \<Longrightarrow>
     he_wf s' \<and> he_num_process s' = he_num_process s \<and> he_retired s' = he_retired s \<and> he_pool s' = he_pool s"
  by (induction tid idx prev loads s rule: he_read_loop.induct) (auto split: if_splits)

lemma he_empty_eq:
  "he_empty tid s =
     s\<lparr>he_retired := (he_retired s)[tid := filter (\<lambda>i. \<not> he_safe (he_scan s) i) (he_retired s ! tid)],
       he_pool := pool_add_all tid (map hi_obj (filter (he_safe (he_scan s)) (he_retired s ! tid))) (he_pool s)\<rparr>"
  by (simp add: he_empty_def erase_loop_eq Let_def)

lemma he_push_fields [simp]:
  "he_num_process (he_push birth tid p s) = he_num_process s"
  "he_pool (he_push birth tid p s) = he_pool s"
  "he_wf (he_push birth tid p s) = he_wf s"
  by (simp_all add: he_push_def he_wf_def)

lemma he_empty_fields [simp]:
  "he_num_process (he_empty tid s) = he_num_process s"
  "he_wf (he_empty tid s) = he_wf s"
  by (simp_all add: he_empty_eq he_wf_def)

lemma he_account_empty:
  assumes "he_wf s" and "tid < he_num_process s"
  shows "he_limbo (he_empty tid s) + mset (al_freed (he_pool (he_empty tid s)))
       = he_limbo s + mset (al_freed (he_pool s))"
  using assms sweep_account [of tid "he_retired s" hi_obj "he_safe (he_scan s)"]
  by (simp add: he_empty_eq he_limbo_def he_wf_def add.left_commute add.commute del: mset_map)

lemma he_account_retire:
  assumes "he_wf s" and "tid < he_num_process s" and "p \<noteq> NULL"
  shows "he_limbo (he_retire birth tid p s) + mset (al_freed (he_pool (he_retire birth tid p s)))
      = he_limbo s + mset (al_freed (he_pool s)) + {#p#}"
proof -
  have "he_limbo (he_push birth tid p s) = he_limbo s + {#p#}"
    using assms by (simp add: he_push_def he_limbo_def he_wf_def push_account)
  then show ?thesis
    using he_account_empty [of "he_push birth tid p s" tid] assms by (simp add: he_retire_def Let_def)
qed

lemma he_retire_fields [simp]:
  "he_num_process (he_retire birth tid p s) = he_num_process s"
  "he_wf (he_retire birth tid p s) = he_wf s"
  "\<exists>ps. al_freed (he_pool (he_retire birth tid p s)) = al_freed (he_pool s) @ ps"
proof -
  show "he_num_process (he_retire birth tid p s) = he_num_process s"
    and "he_wf (he_retire birth tid p s) = he_wf s"
    by (simp_all add: he_retire_def Let_def)
  show "\<exists>ps. al_freed (he_pool (he_retire birth tid p s)) = al_freed (he_pool s) @ ps"
    by (simp add: he_retire_def Let_def he_empty_eq)
qed

lemma he_exec_keeps:
  assumes wf: "he_wf s" and tid: "op_tid op < he_num_process s"
  shows "he_wf (he_exec birth op s) \<and> he_num_process (he_exec birth op s) = he_num_process s
    \<and> (\<exists>ps. al_freed (he_pool (he_exec birth op s)) = al_freed (he_pool s) @ ps)
    \<and> he_limbo (he_exec birth op s) + mset (al_freed (he_pool (he_exec birth op s)))
      = he_limbo s + mset (al_freed (he_pool s)) + mset (retired_by op)"
proof (cases op)
  case (EndOp t)
  then show ?thesis
    using he_stores_keep [of t s "[0..<he_num_he s]"] wf tid by (simp add: he_endOp_def Let_def he_limbo_def)
next
  case (ReadOp t idx p)
  let ?rd = "he_read t idx [(p, he_epoch s), (p, he_epoch s)] s"
  show ?thesis
  proof (cases ?rd)
    case None
    then show ?thesis using wf ReadOp by simp
  next
    case (Some a)
    then show ?thesis
      using he_reads_keep [of t s idx _ _ "fst a" "snd a"] wf tid ReadOp
      by (cases a) (auto simp: he_read_def he_limbo_def simp del: he_read_loop.simps)
  qed
next
  case (AllocOp t)
  then show ?thesis
    using wf by (simp add: he_updateAllocCounterAndEpoch_def Let_def he_wf_def he_limbo_def)
next
  case (RetireOp t p)
  have "he_retire birth t NULL s = s" by (simp add: he_retire_def)
  then show ?thesis
    using wf tid he_account_retire [OF wf, of t p birth] RetireOp by (cases "p = NULL") simp_all
qed (use wf in simp_all)

interpretation he: reclaimer "he_exec birth" he_wf he_num_process he_limbo "\<lambda>s. al_freed (he_pool s)"
  for birth
  by unfold_locales (use he_exec_keeps op_ok_tid in blast)+

subsection \<open>Concurrent safety\<close>

text \<open>
  Thread \<open>t\<close> owns the cells \<open>3 t\<close>, \<open>3 t + 1\<close> and \<open>3 t + 2\<close>, its
  slots. Its local state has, per slot, the objects that reads through the slot returned since the
  slot's last store, and the read that is running: it loaded a pointer while its slot announced
  \<open>e\<close>, or loaded the new era \<open>e\<close> it has not announced yet.
\<close>

datatype he_pending = HNone | HLoaded nat nat ptr | HStale nat nat

datatype he_loc = HeLoc (he_objs: "nat \<Rightarrow> ptr set") (he_pend: he_pending)

inductive he_proto ::
  "nat \<Rightarrow> nat \<Rightarrow> nat \<Rightarrow> ptr set \<Rightarrow> (nat \<Rightarrow> nat) \<Rightarrow> he_loc \<Rightarrow> (nat \<Rightarrow> nat) \<Rightarrow> he_loc \<Rightarrow> bool"
  for n t c L res where
  read_load: "t < n \<Longrightarrow> idx < 3 \<Longrightarrow> p \<in> L \<Longrightarrow>
     he_proto n t c L res (HeLoc H HNone) res (HeLoc H (HLoaded idx (res (3 * t + idx)) p))"
| read_same: "c = e \<Longrightarrow>
     he_proto n t c L res (HeLoc H (HLoaded idx e p)) res (HeLoc (H(idx := insert p (H idx))) HNone)"
| read_stale: "c \<noteq> e \<Longrightarrow> he_proto n t c L res (HeLoc H (HLoaded idx e p)) res (HeLoc H (HStale idx c))"
| read_store: "idx < 3 \<Longrightarrow> he_proto n t c L res (HeLoc H (HStale idx e)) (res(3 * t + idx := e)) (HeLoc (H(idx := {})) HNone)"
| end_clear: "t < n \<Longrightarrow> idx < 3 \<Longrightarrow>
     he_proto n t c L res (HeLoc H HNone) (res(3 * t + idx := 0)) (HeLoc (H(idx := {})) HNone)"

inductive_cases he_protoE: "he_proto n t c L res l res' l'"

fun he_slot_held :: "(ptr \<Rightarrow> nat) \<Rightarrow> he_loc \<Rightarrow> nat \<Rightarrow> ptr set" where
  "he_slot_held birth (HeLoc H (HLoaded idx e p)) k =
     (if k = idx \<and> 0 < e \<and> birth p \<le> e then insert p (H k) else H k)"
| "he_slot_held birth (HeLoc H _) k = H k"

definition he_held :: "(ptr \<Rightarrow> nat) \<Rightarrow> he_loc \<Rightarrow> ptr set" where
  "he_held birth l = (\<Union>k<3. he_slot_held birth l k)"

definition he_scheme :: "(ptr \<Rightarrow> nat) \<Rightarrow> nat \<Rightarrow> (nat, he_loc, he_info) scheme" where
  "he_scheme birth n = \<lparr>sc_cells = n * 3, sc_birth = birth,
     sc_item = (\<lambda>p c. \<lparr>hi_obj = p, hi_birth = birth p, hi_retire = c\<rparr>), sc_obj = hi_obj,
     sc_safe = he_safe, sc_proto = he_proto n\<rparr>"

text \<open>Every slot that holds the object announces an era of its life.\<close>

definition he_conflict :: "(ptr \<Rightarrow> nat) \<Rightarrow> nat \<Rightarrow> he_loc \<Rightarrow> (nat \<Rightarrow> nat) \<Rightarrow> nat \<Rightarrow> he_info \<Rightarrow> bool" where
  "he_conflict birth n l v t i \<longleftrightarrow> t < n \<and>
     (\<forall>k<3. hi_obj i \<in> he_slot_held birth l k \<longrightarrow>
        v (3 * t + k) \<noteq> 0 \<and> hi_birth i \<le> v (3 * t + k) \<and> v (3 * t + k) \<le> hi_retire i)"

definition he_slots_ok :: "(ptr \<Rightarrow> nat) \<Rightarrow> nat \<Rightarrow> nat \<Rightarrow> (nat \<Rightarrow> nat) \<Rightarrow> nat \<Rightarrow> (nat \<Rightarrow> ptr set) \<Rightarrow> bool" where
  "he_slots_ok birth n c res t H \<longleftrightarrow> 0 < c \<and> (\<forall>k<3. res (3 * t + k) \<le> c) \<and>
     (\<forall>k<3. \<forall>p\<in>H k. t < n \<and> res (3 * t + k) \<noteq> 0 \<and> birth p \<le> res (3 * t + k))"

fun he_linv :: "(ptr \<Rightarrow> nat) \<Rightarrow> nat \<Rightarrow> nat \<Rightarrow> (nat \<Rightarrow> nat) \<Rightarrow> nat \<Rightarrow> he_loc \<Rightarrow> bool" where
  "he_linv birth n c res t (HeLoc H HNone) = he_slots_ok birth n c res t H"
| "he_linv birth n c res t (HeLoc H (HLoaded idx e p)) \<longleftrightarrow>
     he_slots_ok birth n c res t H \<and> t < n \<and> idx < 3 \<and> res (3 * t + idx) = e \<and> birth p \<le> c"
| "he_linv birth n c res t (HeLoc H (HStale idx e)) \<longleftrightarrow>
     he_slots_ok birth n c res t H \<and> t < n \<and> idx < 3 \<and> 0 < e \<and> e \<le> c"


lemma he_held_slot: "p \<in> he_held birth l \<longleftrightarrow> (\<exists>k<3. p \<in> he_slot_held birth l k)"
  by (auto simp: he_held_def)

lemma he_linv_slots: "he_linv birth n c res t l \<Longrightarrow> he_slots_ok birth n c res t (he_objs l)"
  by (cases "(birth, n, c, res, t, l)" rule: he_linv.cases) auto

lemma he_linv_held:
  assumes "he_linv birth n c res t l" and "k < 3" and "p \<in> he_slot_held birth l k"
  shows "t < n \<and> res (3 * t + k) \<noteq> 0 \<and> birth p \<le> res (3 * t + k) \<and> res (3 * t + k) \<le> c"
  using assms
  by (cases "(birth, n, c, res, t, l)" rule: he_linv.cases) (auto simp: he_slots_ok_def split: if_splits)

lemma he_linv_proto:
  assumes "he_proto n t c L res l res' l'" and "he_linv birth n c res t l" and "\<forall>p\<in>L. birth p \<le> c"
  shows "he_linv birth n c res' t l'"
  using assms by (cases rule: he_proto.cases) (auto simp: he_slots_ok_def)

lemma he_keep:
  assumes st: "he_proto n t c L res l res' l'" and li: "he_linv birth n c res t l"
    and "hi_obj i \<in> he_held birth l" and "hi_obj i \<notin> L"
    and cf: "he_conflict birth n l (view snap res) t i"
  shows "he_conflict birth n l' (view snap res') t i"
proof -
  have "hi_obj i \<in> he_slot_held birth l k" if "hi_obj i \<in> he_slot_held birth l' k" for k
    using st li assms(4) that
    by (cases rule: he_proto.cases) (auto simp: he_slots_ok_def split: if_splits)
  moreover have "res' (3 * t + k) = res (3 * t + k)" if "hi_obj i \<in> he_slot_held birth l' k" "k < 3" for k
    using st that by (cases rule: he_proto.cases) (auto split: if_splits)
  ultimately show ?thesis using cf by (auto simp: he_conflict_def view_def)
qed

lemma he_acquire:
  assumes "he_proto n t c L res l res' l'" and "he_linv birth n c res t l"
  shows "he_held birth l' \<subseteq> he_held birth l \<union> L"
  using assms
  by (cases rule: he_proto.cases) (auto simp: he_held_def he_slots_ok_def split: if_splits)

interpretation he_sys: smr_scheme "he_scheme birth n" "\<lambda>k. k div 3" "he_held birth"
  "he_conflict birth n" "he_linv birth n" 1 "\<lambda>_. 0" "HeLoc (\<lambda>_. {}) HNone" for birth n
proof unfold_locales
  fix snap :: "nat list" and i t l res
  assume len: "length snap = sc_cells (he_scheme birth n)" and sf: "sc_safe (he_scheme birth n) snap i"
    and "sc_obj (he_scheme birth n) i \<in> he_held birth l"
  then obtain k where k: "k < 3" "hi_obj i \<in> he_slot_held birth l k"
    by (auto simp: he_scheme_def he_held_slot)
  show "\<not> he_conflict birth n l (view snap res) t i"
  proof
    assume "he_conflict birth n l (view snap res) t i"
    with k have t: "t < n" and c: "view snap res (3 * t + k) \<noteq> 0" "hi_birth i \<le> view snap res (3 * t + k)"
      "view snap res (3 * t + k) \<le> hi_retire i" by (auto simp: he_conflict_def)
    have lt: "3 * t + k < length snap" using len t k(1) by (simp add: he_scheme_def)
    have "\<forall>e\<in>set snap. e = 0 \<or> e < hi_birth i \<or> hi_retire i < e"
      using sf by (simp add: he_scheme_def he_safe_def he_isFreeable_iff)
    from bspec [OF this nth_mem [OF lt]] c lt show False by (simp add: view_complete)
  qed
next
  fix c res t l
  assume "he_linv birth n c res t l" and "Suc c < UINT64_MAX"
  then show "he_linv birth n (Suc c) res t l"
    by (cases "(birth, n, c, res, t, l)" rule: he_linv.cases) (auto simp: he_slots_ok_def le_SucI)
next
  fix c t l and res res' :: "nat \<Rightarrow> nat"
  assume "he_linv birth n c res t l" and "\<forall>k. k div 3 = t \<longrightarrow> res' k = res k"
  then show "he_linv birth n c res' t l"
    by (cases "(birth, n, c, res, t, l)" rule: he_linv.cases) (auto simp: he_slots_ok_def)
next
  fix l v v' t i
  assume "he_conflict birth n l v t i" and "\<forall>k. k div 3 = t \<longrightarrow> v' k = v k"
  then show "he_conflict birth n l v' t i" by (simp add: he_conflict_def)
next
  fix c res t l p
  assume "he_linv birth n c res t l" and "p \<in> he_held birth l"
  then show "he_conflict birth n l res t (sc_item (he_scheme birth n) p c)"
    using he_linv_held by (fastforce simp: he_conflict_def he_scheme_def he_held_slot)
next
  fix t c L res l res' l' i snap
  assume "sc_proto (he_scheme birth n) t c L res l res' l'" and "he_linv birth n c res t l"
    and "sc_obj (he_scheme birth n) i \<in> he_held birth l" and "sc_obj (he_scheme birth n) i \<notin> L"
    and "he_conflict birth n l (view snap res) t i"
  then show "he_conflict birth n l' (view snap res') t i"
    using he_keep by (simp add: he_scheme_def)
next
  fix t c L res l res' l'
  assume "sc_proto (he_scheme birth n) t c L res l res' l'" and "he_linv birth n c res t l"
  then show "he_held birth l' \<subseteq> he_held birth l \<union> L"
    using he_acquire by (simp add: he_scheme_def)
next
  fix t c L res l res' l'
  assume "sc_proto (he_scheme birth n) t c L res l res' l'" and "he_linv birth n c res t l"
    and "\<forall>p\<in>L. p \<noteq> NULL \<and> sc_birth (he_scheme birth n) p \<le> c"
  then show "he_linv birth n c res' t l'"
    using he_linv_proto by (simp add: he_scheme_def)
next
  fix t c L res l res' l' k
  assume "sc_proto (he_scheme birth n) t c L res l res' l'" and "k div 3 \<noteq> t"
  then show "res' k = res k"
    by (auto simp: he_scheme_def elim!: he_protoE)
qed (auto simp: he_scheme_def UINT64_MAX_def he_slots_ok_def he_held_def)

subsection \<open>Properties\<close>

text \<open>
  C15. In every interleaving, no object is freed twice, and a thread never holds a freed object: what
  reads through a slot returned since the slot's last store, and what a running read has loaded, if
  it was born by the slot's era.
\<close>

theorem he_safe_reclamation:
  "smr_reach (he_scheme birth n) (smr_init 1 (\<lambda>_. 0) (HeLoc (\<lambda>_. {}) HNone)) s \<Longrightarrow>
     distinct (sm_freed s) \<and> (\<forall>t. he_held birth (sm_loc s t) \<inter> set (sm_freed s) = {})"
  by (rule he_sys.safe_reclamation)

theorem he_safe_reclamation_witness:
  "\<exists>s. smr_reach (he_scheme (\<lambda>_. 1) 2) (smr_init 1 (\<lambda>_. 0) (HeLoc (\<lambda>_. {}) HNone)) s \<and> sm_freed s = [8]
     \<and> distinct (sm_freed s) \<and> (\<forall>t. he_held (\<lambda>_. 1) (sm_loc s t) \<inter> set (sm_freed s) = {})"
proof -
  have "sc_safe (he_scheme (\<lambda>_. 1) 2) (map (\<lambda>_. 0) [0..<sc_cells (he_scheme (\<lambda>_. 1) 2)])
      (sc_item (he_scheme (\<lambda>_. 1) 2) 8 1)"
    by (auto simp: he_scheme_def he_safe_def he_isFreeable_iff)
  then obtain s where s: "smr_reach (he_scheme (\<lambda>_. 1) 2) (smr_init 1 (\<lambda>_. 0) (HeLoc (\<lambda>_. {}) HNone)) s"
    and f: "sm_freed s = [8]"
    using lifecycle_run [of 8 "he_scheme (\<lambda>_. 1) 2" 1 "\<lambda>_. 0" "HeLoc (\<lambda>_. {}) HNone"]
    by (auto simp: he_scheme_def)
  then show ?thesis using he_safe_reclamation [OF s] by blast
qed

text \<open>
  For every sequence of calls, reads with their announcements included, the retired objects are
  exactly those in limbo together with those given to the pool.
\<close>

lemma he_accounting:
  assumes "legal_ops n ops"
  shows "he_limbo (fold (he_exec birth) ops (he_new n alloc_init))
       + mset (al_freed (he_pool (fold (he_exec birth) ops (he_new n alloc_init)))) = mset (retired_in ops)"
  using he.run_accounting [OF he_wf_new] assms
  by (simp add: he_new_def he_limbo_def alloc_init_def)

lemma he_accounting_witness:
  "he_limbo (fold (he_exec (\<lambda>_. 1)) [ReadOp 1 2 8, RetireOp 0 8, EndOp 1] (he_new 2 alloc_init))
     + mset (al_freed (he_pool (fold (he_exec (\<lambda>_. 1)) [ReadOp 1 2 8, RetireOp 0 8, EndOp 1] (he_new 2 alloc_init)))) = {#8#}"
  using he_accounting [of 2 "[ReadOp 1 2 8, RetireOp 0 8, EndOp 1]" "\<lambda>_. 1"] by simp

end
