(* ===== verification/Hp.thy ===== *)
theory Hp
  imports Smr_System Reclaimer_Spec
begin

text \<open>
  Hazard pointers, \<open>common/recordmgr/reclaimer_ibr_hp.h\<close>. A thread announces, per slot,
  the pointer it is about to use, and checks that the cell it came from still holds it; a retired
  object is freed once no slot announces it.
\<close>

subsection \<open>The class and its operations\<close>

record hp =
  hp_num_process :: nat
  hp_empty_freq :: nat
  hp_slotsPerThread :: nat
  hp_slots :: "ptr list"
  hp_cntrs :: "nat list"
  hp_retired :: "ptr list list"
  hp_pool :: allocator

definition hp_new :: "nat \<Rightarrow> allocator \<Rightarrow> hp" where
  "hp_new numProcesses pool =
     \<lparr>hp_num_process = numProcesses, hp_empty_freq = 24576, hp_slotsPerThread = 3,
      hp_slots = replicate (numProcesses * 3) NULL,
      hp_cntrs = replicate numProcesses 0,
      hp_retired = replicate numProcesses [],
      hp_pool = pool\<rparr>"

definition hp_reserve :: "ptr \<Rightarrow> nat \<Rightarrow> nat \<Rightarrow> hp \<Rightarrow> hp" where
  "hp_reserve p slot tid s =
     s\<lparr>hp_slots := (hp_slots s)[tid * hp_slotsPerThread s + slot := p]\<rparr>"

definition hp_endOp :: "nat \<Rightarrow> hp \<Rightarrow> hp" where
  "hp_endOp tid s =
     fold (\<lambda>i s. s\<lparr>hp_slots := (hp_slots s)[tid * hp_slotsPerThread s + i := NULL]\<rparr>) [0..<hp_slotsPerThread s] s"

text \<open>The two low bits of a pointer are marks; the slot announces the pointer without them.\<close>

definition hp_realptr :: "ptr \<Rightarrow> ptr" where
  "hp_realptr ret = ret AND 0xfffffffffffffffc"

text \<open>The loop of \<open>read\<close>: per turn, what the first load and what the check load.\<close>

fun hp_read :: "nat \<Rightarrow> nat \<Rightarrow> (ptr \<times> ptr) list \<Rightarrow> hp \<Rightarrow> (ptr \<times> hp) option" where
  "hp_read tid idx [] s = None"
| "hp_read tid idx ((ret, again) # loads) s =
     (let s1 = hp_reserve (hp_realptr ret) idx tid s
      in if ret = again then Some (ret, s1) else hp_read tid idx loads s1)"

fun hp_conflict :: "ptr list \<Rightarrow> ptr \<Rightarrow> bool" where
  "hp_conflict [] p = False"
| "hp_conflict (obj # scanned_objs) p = (if p = obj then True else hp_conflict scanned_objs p)"

definition hp_empty :: "nat \<Rightarrow> hp \<Rightarrow> hp" where
  "hp_empty tid s =
     (let temp_local_slots = map (\<lambda>i. hp_slots s ! i) [0..<hp_num_process s * hp_slotsPerThread s];
          (kept, erased) = erase_loop (\<lambda>p. \<not> hp_conflict temp_local_slots p) (hp_retired s ! tid)
      in s\<lparr>hp_retired := (hp_retired s)[tid := kept],
           hp_pool := pool_add_all tid erased (hp_pool s)\<rparr>)"

definition hp_push :: "nat \<Rightarrow> ptr \<Rightarrow> hp \<Rightarrow> hp" where
  "hp_push tid obj s = s\<lparr>hp_retired := (hp_retired s)[tid := hp_retired s ! tid @ [obj]]\<rparr>"

definition hp_set_cntr :: "nat \<Rightarrow> nat \<Rightarrow> hp \<Rightarrow> hp" where
  "hp_set_cntr tid c s = s\<lparr>hp_cntrs := (hp_cntrs s)[tid := c]\<rparr>"

definition hp_retire :: "nat \<Rightarrow> ptr \<Rightarrow> hp \<Rightarrow> hp" where
  "hp_retire tid obj s =
     (if obj = NULL then s
      else let s1 = hp_push tid obj s;
               s2 = (if hp_cntrs s1 ! tid = hp_empty_freq s1 then hp_empty tid (hp_set_cntr tid 0 s1) else s1)
           in hp_set_cntr tid (hp_cntrs s2 ! tid + 1) s2)"

text \<open>The destructor deletes the arrays; what is in the retired lists goes nowhere.\<close>

definition hp_delete :: "hp \<Rightarrow> allocator" where
  "hp_delete s = hp_pool s"

text \<open>An undisturbed read loads the same pointer twice.\<close>

fun hp_exec :: "smr_op \<Rightarrow> hp \<Rightarrow> hp" where
  "hp_exec (StartOp tid) s = s"
| "hp_exec (EndOp tid) s = hp_endOp tid s"
| "hp_exec (ReadOp tid idx p) s =
     (case hp_read tid idx [(p, p)] s of Some (_, s') \<Rightarrow> s' | None \<Rightarrow> s)"
| "hp_exec (AllocOp tid) s = s"
| "hp_exec (SignalOp tid) s = s"
| "hp_exec (RetireOp tid p) s = hp_retire tid p s"

subsection \<open>Sequential behaviour\<close>

definition hp_wf :: "hp \<Rightarrow> bool" where
  "hp_wf s \<longleftrightarrow> length (hp_slots s) = hp_num_process s * hp_slotsPerThread s
     \<and> length (hp_cntrs s) = hp_num_process s
     \<and> length (hp_retired s) = hp_num_process s"

definition hp_limbo :: "hp \<Rightarrow> ptr multiset" where
  "hp_limbo s = all_entries (hp_retired s)"

lemma hp_wf_new: "hp_wf (hp_new n pool)"
  by (simp add: hp_wf_def hp_new_def)

lemma hp_conflict_iff [simp]: "hp_conflict scanned p \<longleftrightarrow> p \<in> set scanned"
  by (induction scanned p rule: hp_conflict.induct) auto

lemma hp_empty_eq:
  assumes "hp_wf s"
  shows "hp_empty tid s =
     s\<lparr>hp_retired := (hp_retired s)[tid := filter (\<lambda>p. p \<in> set (hp_slots s)) (hp_retired s ! tid)],
       hp_pool := pool_add_all tid (filter (\<lambda>p. p \<notin> set (hp_slots s)) (hp_retired s ! tid)) (hp_pool s)\<rparr>"
proof -
  have "map (\<lambda>i. hp_slots s ! i) [0..<hp_num_process s * hp_slotsPerThread s] = hp_slots s"
    using assms map_nth [of "hp_slots s"] by (simp add: hp_wf_def)
  then show ?thesis by (simp add: hp_empty_def erase_loop_eq Let_def)
qed

lemma hp_fields [simp]:
  "hp_num_process (hp_push tid p s) = hp_num_process s" "hp_num_process (hp_set_cntr tid c s) = hp_num_process s"
  "hp_pool (hp_push tid p s) = hp_pool s" "hp_pool (hp_set_cntr tid c s) = hp_pool s"
  "hp_retired (hp_set_cntr tid c s) = hp_retired s" "hp_limbo (hp_set_cntr tid c s) = hp_limbo s"
  "hp_slots (hp_set_cntr tid c s) = hp_slots s" "hp_slots (hp_push tid p s) = hp_slots s"
  "hp_empty_freq (hp_push tid p s) = hp_empty_freq s" "hp_empty_freq (hp_set_cntr tid c s) = hp_empty_freq s"
  "hp_cntrs (hp_push tid p s) = hp_cntrs s" "hp_cntrs (hp_set_cntr tid c s) = (hp_cntrs s)[tid := c]"
  "hp_slotsPerThread (hp_push tid p s) = hp_slotsPerThread s"
  "hp_slotsPerThread (hp_set_cntr tid c s) = hp_slotsPerThread s"
  "hp_wf (hp_push tid p s) = hp_wf s" "hp_wf (hp_set_cntr tid c s) = hp_wf s"
  by (simp_all add: hp_push_def hp_set_cntr_def hp_wf_def hp_limbo_def)

lemma hp_empty_fields [simp]:
  assumes "hp_wf s"
  shows "hp_num_process (hp_empty tid s) = hp_num_process s" "hp_wf (hp_empty tid s)"
    "hp_cntrs (hp_empty tid s) = hp_cntrs s" "hp_empty_freq (hp_empty tid s) = hp_empty_freq s"
    "hp_slotsPerThread (hp_empty tid s) = hp_slotsPerThread s" "hp_slots (hp_empty tid s) = hp_slots s"
  using assms by (simp_all add: hp_empty_eq) (simp add: hp_wf_def)

lemma hp_account_empty:
  assumes "hp_wf s" and "tid < hp_num_process s"
  shows "hp_limbo (hp_empty tid s) + mset (al_freed (hp_pool (hp_empty tid s)))
       = hp_limbo s + mset (al_freed (hp_pool s))"
  using assms sweep_account [of tid "hp_retired s" id "\<lambda>p. p \<notin> set (hp_slots s)"]
  by (simp add: hp_empty_eq hp_limbo_def hp_wf_def add.left_commute add.commute)

lemma hp_account_push:
  "hp_wf s \<Longrightarrow> tid < hp_num_process s \<Longrightarrow> hp_limbo (hp_push tid p s) = hp_limbo s + {#p#}"
  using push_account [of tid "hp_retired s" id p] by (simp add: hp_push_def hp_limbo_def hp_wf_def)

lemma hp_retire_keeps:
  assumes "hp_wf s" and "tid < hp_num_process s"
  shows "hp_wf (hp_retire tid p s)" "hp_num_process (hp_retire tid p s) = hp_num_process s"
    "hp_slotsPerThread (hp_retire tid p s) = hp_slotsPerThread s"
    "hp_empty_freq (hp_retire tid p s) = hp_empty_freq s"
    "\<exists>ps. al_freed (hp_pool (hp_retire tid p s)) = al_freed (hp_pool s) @ ps"
    "hp_limbo (hp_retire tid p s) + mset (al_freed (hp_pool (hp_retire tid p s)))
      = hp_limbo s + mset (al_freed (hp_pool s)) + mset (if p = NULL then [] else [p])"
proof -
  show "hp_wf (hp_retire tid p s)" "hp_num_process (hp_retire tid p s) = hp_num_process s"
    "hp_slotsPerThread (hp_retire tid p s) = hp_slotsPerThread s"
    "hp_empty_freq (hp_retire tid p s) = hp_empty_freq s"
    using assms by (simp_all add: hp_retire_def Let_def)
  show "\<exists>ps. al_freed (hp_pool (hp_retire tid p s)) = al_freed (hp_pool s) @ ps"
    using assms by (simp add: hp_retire_def Let_def hp_empty_eq)
  show "hp_limbo (hp_retire tid p s) + mset (al_freed (hp_pool (hp_retire tid p s)))
      = hp_limbo s + mset (al_freed (hp_pool s)) + mset (if p = NULL then [] else [p])"
    using hp_account_empty [of "hp_set_cntr tid 0 (hp_push tid p s)" tid] hp_account_push [of s tid p] assms
    by (simp add: hp_retire_def Let_def)
qed

definition hp_slots_only :: "hp \<Rightarrow> hp \<Rightarrow> bool" where
  "hp_slots_only s s' \<longleftrightarrow> (\<exists>slots. length slots = length (hp_slots s) \<and> s' = s\<lparr>hp_slots := slots\<rparr>)"

lemma hp_slots_only_refl: "hp_slots_only s s"
  unfolding hp_slots_only_def by (rule exI [of _ "hp_slots s"]) simp

lemma hp_slots_only_trans: "hp_slots_only s s' \<Longrightarrow> hp_slots_only s' s'' \<Longrightarrow> hp_slots_only s s''"
  by (auto simp: hp_slots_only_def)

lemma hp_slots_onlyI: "length slots = length (hp_slots s) \<Longrightarrow> hp_slots_only s (s\<lparr>hp_slots := slots\<rparr>)"
  unfolding hp_slots_only_def by (rule exI [of _ slots]) simp

lemma hp_reserve_only: "hp_slots_only s (hp_reserve p i tid s)"
  by (simp add: hp_reserve_def hp_slots_onlyI)

lemma hp_endOp_only: "hp_slots_only s (hp_endOp tid s)"
proof -
  have "hp_slots_only s (fold (\<lambda>i s. s\<lparr>hp_slots := (hp_slots s)[tid * hp_slotsPerThread s + i := NULL]\<rparr>) is s)" for "is"
  proof (induction "is" arbitrary: s)
    case (Cons i "is")
    show ?case
      by (simp, rule hp_slots_only_trans [OF _ Cons.IH]) (simp add: hp_slots_onlyI)
  qed (simp add: hp_slots_only_refl)
  then show ?thesis by (simp add: hp_endOp_def)
qed

lemma hp_exec_read_only: "hp_slots_only s (hp_exec (ReadOp tid idx p) s)"
  by (simp add: Let_def hp_reserve_only)

lemma hp_slots_only_keeps:
  "hp_slots_only s s' \<Longrightarrow> hp_wf s' = hp_wf s \<and> hp_num_process s' = hp_num_process s
     \<and> hp_pool s' = hp_pool s \<and> hp_limbo s' = hp_limbo s \<and> hp_retired s' = hp_retired s
     \<and> hp_cntrs s' = hp_cntrs s \<and> hp_empty_freq s' = hp_empty_freq s \<and> hp_slotsPerThread s' = hp_slotsPerThread s"
  by (auto simp: hp_slots_only_def hp_wf_def hp_limbo_def)

lemma hp_exec_keeps:
  assumes wf: "hp_wf s" and "op_ok (hp_num_process s) op"
  shows "hp_wf (hp_exec op s) \<and> hp_num_process (hp_exec op s) = hp_num_process s
    \<and> (\<exists>ps. al_freed (hp_pool (hp_exec op s)) = al_freed (hp_pool s) @ ps)
    \<and> hp_limbo (hp_exec op s) + mset (al_freed (hp_pool (hp_exec op s)))
      = hp_limbo s + mset (al_freed (hp_pool s)) + mset (retired_by op)"
proof (cases op)
  case (EndOp t)
  then show ?thesis using wf hp_slots_only_keeps [OF hp_endOp_only [of s t]] by simp
next
  case (ReadOp t i p)
  then show ?thesis using wf hp_slots_only_keeps [OF hp_exec_read_only [of s t i p]] by simp
next
  case (RetireOp t p)
  then show ?thesis using hp_retire_keeps [OF wf, of t p] assms(2) by simp
qed (use wf in simp_all)

interpretation hp: reclaimer hp_exec hp_wf hp_num_process hp_limbo "\<lambda>s. al_freed (hp_pool s)"
  by unfold_locales (use hp_exec_keeps in blast)+


subsection \<open>The bound on unreclaimed objects\<close>

definition hp_bounded :: "hp \<Rightarrow> bool" where
  "hp_bounded s \<longleftrightarrow> 0 < hp_empty_freq s \<and> (\<forall>t<hp_num_process s. hp_cntrs s ! t \<le> hp_empty_freq s
     \<and> length (hp_retired s ! t) \<le> hp_num_process s * hp_slotsPerThread s + hp_cntrs s ! t)"

lemma hp_bounded_retire:
  assumes wf: "hp_wf s" and b: "hp_bounded s" and tid: "tid < hp_num_process s"
    and once: "once (hp_limbo s + {#p#})"
  shows "hp_bounded (hp_retire tid p s)"
proof (cases "p = NULL")
  case True
  then show ?thesis using b by (simp add: hp_retire_def)
next
  case False
  let ?s1 = "hp_push tid p s"
  have len: "tid < length (hp_retired s)" "tid < length (hp_cntrs s)" using wf tid by (simp_all add: hp_wf_def)
  have ret1: "hp_retired ?s1 ! t = (if t = tid then hp_retired s ! tid @ [p] else hp_retired s ! t)" for t
    using len by (simp add: hp_push_def)
  show ?thesis
  proof (cases "hp_cntrs s ! tid = hp_empty_freq s")
    case full: True
    let ?kept = "filter (\<lambda>p. p \<in> set (hp_slots s)) (hp_retired s ! tid @ [p])"
    have "once (all_entries (hp_retired ?s1))"
      using once hp_account_push [OF wf tid, of p] by (simp add: hp_limbo_def)
    then have "distinct (hp_retired s ! tid @ [p])"
      using once_entry [of "hp_retired ?s1" tid] len ret1 [of tid] by (simp add: hp_push_def)
    then have "length ?kept \<le> length (hp_slots s)" by (rule distinct_filter_length)
    then have k: "length ?kept \<le> hp_num_process s * hp_slotsPerThread s" using wf by (simp add: hp_wf_def)
    let ?s2 = "hp_empty tid (hp_set_cntr tid 0 ?s1)"
    have "hp_retired ?s2 = (hp_retired ?s1)[tid := filter (\<lambda>p. p \<in> set (hp_slots s)) (hp_retired ?s1 ! tid)]"
      using wf by (simp add: hp_empty_eq)
    then have "hp_retired ?s2 = (hp_retired s)[tid := ?kept]"
      using len by (simp add: hp_push_def)
    moreover have "hp_retire tid p s = hp_set_cntr tid 1 ?s2"
      using False full wf len by (simp add: hp_retire_def Let_def)
    ultimately show ?thesis
      using b k wf len full tid by (auto simp: hp_bounded_def nth_list_update)
  next
    case False
    then show ?thesis
      using b \<open>p \<noteq> NULL\<close> len ret1 by (auto simp: hp_retire_def Let_def hp_bounded_def nth_list_update le_less)
  qed
qed

lemma hp_bounded_exec:
  assumes "hp_wf s" and "hp_bounded s" and "op_ok (hp_num_process s) op"
    and once: "once (hp_limbo s + mset (retired_by op))"
  shows "hp_bounded (hp_exec op s)"
proof (cases op)
  case (EndOp t)
  then show ?thesis using assms hp_slots_only_keeps [OF hp_endOp_only [of s t]] by (simp add: hp_bounded_def)
next
  case (ReadOp t i p)
  then show ?thesis using assms hp_slots_only_keeps [OF hp_exec_read_only [of s t i p]] by (simp add: hp_bounded_def)
next
  case (RetireOp t p)
  then show ?thesis
    using assms hp_bounded_retire [of s t p] by (cases "p = NULL") (auto simp: hp_retire_def)
qed (use assms in simp_all)

lemma hp_bounded_run:
  "hp_wf s \<Longrightarrow> hp_bounded s \<Longrightarrow> legal_ops (hp_num_process s) ops \<Longrightarrow>
     once (hp_limbo s + mset (al_freed (hp_pool s)) + mset (retired_in ops)) \<Longrightarrow>
     hp_bounded (fold hp_exec ops s)"
proof (induction ops arbitrary: s)
  case (Cons op ops)
  have ok: "op_ok (hp_num_process s) op" using Cons.prems by simp
  note keeps = hp_exec_keeps [OF Cons.prems(1) ok]
  have "hp_limbo s + mset (retired_by op) \<subseteq># hp_limbo s + mset (al_freed (hp_pool s)) + mset (retired_in (op # ops))"
    by (simp add: subset_mset.add_mono)
  then have "hp_bounded (hp_exec op s)"
    using hp_bounded_exec [OF Cons.prems(1,2) ok] once_subset [OF Cons.prems(4)] by blast
  moreover have "hp_limbo (hp_exec op s) + mset (al_freed (hp_pool (hp_exec op s))) + mset (retired_in ops)
      = hp_limbo s + mset (al_freed (hp_pool s)) + mset (retired_in (op # ops))"
    using keeps by (simp add: add_ac)
  then have "once (hp_limbo (hp_exec op s) + mset (al_freed (hp_pool (hp_exec op s))) + mset (retired_in ops))"
    using Cons.prems(4) by (simp only:)
  ultimately show ?case using Cons.IH [of "hp_exec op s"] Cons.prems(3) keeps by simp
qed simp


lemma hp_exec_consts:
  "hp_wf s \<Longrightarrow> op_ok (hp_num_process s) op \<Longrightarrow>
     hp_slotsPerThread (hp_exec op s) = hp_slotsPerThread s \<and> hp_empty_freq (hp_exec op s) = hp_empty_freq s"
  using hp_slots_only_keeps [OF hp_endOp_only] hp_retire_keeps(3,4)
  by (cases op) (simp_all add: Let_def hp_reserve_def)

lemma hp_run_consts:
  "hp_wf s \<Longrightarrow> legal_ops (hp_num_process s) ops \<Longrightarrow>
     hp_slotsPerThread (fold hp_exec ops s) = hp_slotsPerThread s \<and> hp_empty_freq (fold hp_exec ops s) = hp_empty_freq s"
  by (induction ops arbitrary: s) (simp_all add: hp_exec_consts hp_exec_keeps)

subsection \<open>Concurrent safety\<close>

text \<open>
  Per slot, the objects that a read through the slot validated and that the slot still announces,
  and the read that is running: a word was loaded, marks included, or its pointer is announced and
  not yet validated. The check of \<open>read\<close> succeeds when the cell still holds the word, so that the
  object is still linked. A call of \<open>reserve\<close> outside \<open>read\<close> writes a slot and validates
  nothing; with the pointer that the slot announces already it takes nothing away.
\<close>

datatype hp_pending = PNone | PLoaded nat ptr | PReserved nat ptr

datatype hp_loc = HpLoc (hp_objs: "nat \<Rightarrow> ptr set") (hp_pend: hp_pending)

inductive hp_proto ::
  "nat \<Rightarrow> nat \<Rightarrow> nat \<Rightarrow> ptr set \<Rightarrow> (nat \<Rightarrow> ptr) \<Rightarrow> hp_loc \<Rightarrow> (nat \<Rightarrow> ptr) \<Rightarrow> hp_loc \<Rightarrow> bool"
  for n t c L res where
  read_load: "t < n \<Longrightarrow> k < 3 \<Longrightarrow> hp_proto n t c L res (HpLoc H PNone) res (HpLoc H (PLoaded k p))"
| read_reserve: "t < n \<Longrightarrow> k < 3 \<Longrightarrow>
     hp_proto n t c L res (HpLoc H (PLoaded k p)) (res(3 * t + k := hp_realptr p))
       (HpLoc (H(k := {})) (PReserved k p))"
| read_ok: "hp_realptr p \<in> L \<Longrightarrow>
     hp_proto n t c L res (HpLoc H (PReserved k p)) res (HpLoc (H(k := {hp_realptr p})) PNone)"
| read_null: "hp_realptr p = NULL \<Longrightarrow>
     hp_proto n t c L res (HpLoc H (PReserved k p)) res (HpLoc H PNone)"
| read_again: "t < n \<Longrightarrow> k < 3 \<Longrightarrow>
     hp_proto n t c L res (HpLoc H (PReserved k p)) res (HpLoc H (PLoaded k q))"
| reserve: "t < n \<Longrightarrow> k < 3 \<Longrightarrow>
     hp_proto n t c L res (HpLoc H PNone) (res(3 * t + k := p)) (HpLoc (H(k := H k \<inter> {p})) PNone)"
| end_clear: "t < n \<Longrightarrow> k < 3 \<Longrightarrow>
     hp_proto n t c L res (HpLoc H PNone) (res(3 * t + k := NULL)) (HpLoc (H(k := {})) PNone)"

inductive_cases hp_protoE: "hp_proto n t c L res l res' l'"

definition hp_held :: "hp_loc \<Rightarrow> ptr set" where
  "hp_held l = (\<Union>k<3. hp_objs l k)"

definition hp_cells_safe :: "ptr list \<Rightarrow> ptr \<Rightarrow> bool" where
  "hp_cells_safe snap p \<longleftrightarrow> \<not> hp_conflict snap p"

definition hp_scheme :: "nat \<Rightarrow> (ptr, hp_loc, ptr) scheme" where
  "hp_scheme n = \<lparr>sc_cells = n * 3, sc_birth = (\<lambda>_. 0), sc_item = (\<lambda>p c. p), sc_obj = (\<lambda>p. p),
     sc_safe = hp_cells_safe, sc_proto = hp_proto n\<rparr>"

definition hp_guards :: "nat \<Rightarrow> hp_loc \<Rightarrow> (nat \<Rightarrow> ptr) \<Rightarrow> nat \<Rightarrow> ptr \<Rightarrow> bool" where
  "hp_guards n l v t p \<longleftrightarrow> t < n \<and> (\<forall>k<3. p \<in> hp_objs l k \<longrightarrow> v (3 * t + k) = p)"

definition hp_linv :: "nat \<Rightarrow> nat \<Rightarrow> (nat \<Rightarrow> ptr) \<Rightarrow> nat \<Rightarrow> hp_loc \<Rightarrow> bool" where
  "hp_linv n c res t l \<longleftrightarrow> (\<forall>k<3. \<forall>p\<in>hp_objs l k. t < n \<and> res (3 * t + k) = p)
     \<and> (\<forall>k p. hp_pend l = PReserved k p \<longrightarrow> t < n \<and> k < 3 \<and> res (3 * t + k) = hp_realptr p)"

lemma hp_linv_proto: "hp_proto n t c L res l res' l' \<Longrightarrow> hp_linv n c res t l \<Longrightarrow> hp_linv n c res' t l'"
  by (cases rule: hp_proto.cases) (auto simp: hp_linv_def split: if_splits)

lemma hp_keep:
  assumes st: "hp_proto n t c L res l res' l'" and "p \<notin> L" and g: "hp_guards n l (view snap res) t p"
  shows "hp_guards n l' (view snap res') t p"
proof -
  have "p \<in> hp_objs l k \<and> (res' (3 * t + k) = res (3 * t + k) \<or> res' (3 * t + k) = p)" if "p \<in> hp_objs l' k" "k < 3" for k
    using st assms(2) that by (cases rule: hp_proto.cases) (auto split: if_splits)
  then show ?thesis using g by (fastforce simp: hp_guards_def view_def)
qed

interpretation hp_sys: smr_scheme "hp_scheme n" "\<lambda>k. k div 3" hp_held "hp_guards n" "hp_linv n"
  0 "\<lambda>_. NULL" "HpLoc (\<lambda>_. {}) PNone" for n
proof unfold_locales
  fix snap :: "ptr list" and i t l res
  assume len: "length snap = sc_cells (hp_scheme n)" and sf: "sc_safe (hp_scheme n) snap i"
    and "sc_obj (hp_scheme n) i \<in> hp_held l"
  then obtain k where k: "k < 3" "i \<in> hp_objs l k" by (auto simp: hp_scheme_def hp_held_def)
  show "\<not> hp_guards n l (view snap res) t i"
  proof
    assume "hp_guards n l (view snap res) t i"
    with k have t: "t < n" "view snap res (3 * t + k) = i" by (auto simp: hp_guards_def)
    moreover from this have "3 * t + k < length snap" using len k(1) by (simp add: hp_scheme_def)
    ultimately have "i \<in> set snap" by (auto simp: view_complete)
    then show False using sf by (simp add: hp_scheme_def hp_cells_safe_def)
  qed
next
  fix c res t l p
  assume "hp_linv n c res t l" and "p \<in> hp_held l"
  then show "hp_guards n l res t (sc_item (hp_scheme n) p c)"
    by (auto simp: hp_linv_def hp_guards_def hp_scheme_def hp_held_def)
next
  fix t c L res l res' l' i snap
  assume "sc_proto (hp_scheme n) t c L res l res' l'" and "sc_obj (hp_scheme n) i \<notin> L"
    and "hp_guards n l (view snap res) t i"
  then show "hp_guards n l' (view snap res') t i" using hp_keep by (simp add: hp_scheme_def)
next
  fix t c L res l res' l'
  assume "sc_proto (hp_scheme n) t c L res l res' l'" and "hp_linv n c res t l"
  then show "hp_linv n c res' t l'" using hp_linv_proto by (simp add: hp_scheme_def)
next
  fix t c L res l res' l'
  assume "sc_proto (hp_scheme n) t c L res l res' l'"
  then show "hp_held l' \<subseteq> hp_held l \<union> L"
    by (auto simp: hp_scheme_def hp_held_def elim!: hp_protoE split: if_splits)
next
  fix t c L res l res' l' k
  assume "sc_proto (hp_scheme n) t c L res l res' l'" and "k div 3 \<noteq> t"
  then show "res' k = res k" by (auto simp: hp_scheme_def elim!: hp_protoE)
qed (auto simp: hp_scheme_def hp_held_def hp_linv_def hp_guards_def UINT64_MAX_def)

subsection \<open>Properties\<close>

text \<open>
  C16. In every interleaving, no object is freed twice, and an object that a read validated is not
  freed as long as its slot announces it.
\<close>

theorem hp_safe_reclamation:
  "smr_reach (hp_scheme n) (smr_init 0 (\<lambda>_. NULL) (HpLoc (\<lambda>_. {}) PNone)) s \<Longrightarrow>
     distinct (sm_freed s) \<and> (\<forall>t. hp_held (sm_loc s t) \<inter> set (sm_freed s) = {})"
  by (rule hp_sys.safe_reclamation)

theorem hp_safe_reclamation_witness:
  "\<exists>s. smr_reach (hp_scheme 2) (smr_init 0 (\<lambda>_. NULL) (HpLoc (\<lambda>_. {}) PNone)) s \<and> sm_freed s = [8]
     \<and> distinct (sm_freed s) \<and> (\<forall>t. hp_held (sm_loc s t) \<inter> set (sm_freed s) = {})"
proof -
  have "sc_safe (hp_scheme 2) (map (\<lambda>_. NULL) [0..<sc_cells (hp_scheme 2)]) (sc_item (hp_scheme 2) 8 0)"
    by (auto simp: hp_scheme_def hp_cells_safe_def)
  then obtain s where s: "smr_reach (hp_scheme 2) (smr_init 0 (\<lambda>_. NULL) (HpLoc (\<lambda>_. {}) PNone)) s"
    and f: "sm_freed s = [8]"
    using lifecycle_run [of 8 "hp_scheme 2" 0 "\<lambda>_. NULL" "HpLoc (\<lambda>_. {}) PNone"]
    by (auto simp: hp_scheme_def)
  then show ?thesis using hp_safe_reclamation [OF s] by blast
qed

text \<open>
  C17. The garbage is bounded: if no object is retired twice, no thread's list ever holds more than
  \<open>empty_freq\<close> objects and one per slot, whatever the other threads announce and for however
  long.
\<close>

theorem hp_garbage_bounded:
  assumes "legal_ops n ops" and "distinct (retired_in ops)" and "tid < n"
  shows "length (hp_retired (fold hp_exec ops (hp_new n alloc_init)) ! tid) \<le> n * 3 + 24576"
proof -
  let ?s = "fold hp_exec ops (hp_new n alloc_init)"
  have once: "once (hp_limbo (hp_new n alloc_init) + mset (al_freed (hp_pool (hp_new n alloc_init))) + mset (retired_in ops))"
    using assms(2) by (simp add: hp_new_def hp_limbo_def alloc_init_def once_mset)
  have bd: "hp_bounded (hp_new n alloc_init)" by (simp add: hp_bounded_def hp_new_def)
  have leg: "legal_ops (hp_num_process (hp_new n alloc_init)) ops" using assms(1) by (simp add: hp_new_def)
  have n: "hp_num_process ?s = n" using hp.run_keeps [OF hp_wf_new leg] by (simp add: hp_new_def)
  have "hp_slotsPerThread ?s = 3 \<and> hp_empty_freq ?s = 24576"
    using hp_run_consts [OF hp_wf_new leg] by (simp add: hp_new_def)
  with hp_bounded_run [OF hp_wf_new bd leg once] n assms(3) show ?thesis
    by (auto simp: hp_bounded_def)
qed

theorem hp_garbage_bounded_witness:
  "length (hp_retired (fold hp_exec [RetireOp 0 8, RetireOp 0 16] (hp_new 1 alloc_init)) ! 0) \<le> 1 * 3 + 24576"
  using hp_garbage_bounded [of 1 "[RetireOp 0 8, RetireOp 0 16]" 0] by simp

text \<open>
  For every sequence of calls, the retired objects are exactly those in limbo together with those
  given to the pool.
\<close>

lemma hp_accounting:
  assumes "legal_ops n ops"
  shows "hp_limbo (fold hp_exec ops (hp_new n alloc_init))
       + mset (al_freed (hp_pool (fold hp_exec ops (hp_new n alloc_init)))) = mset (retired_in ops)"
  using hp.run_accounting [OF hp_wf_new] assms
  by (simp add: hp_new_def hp_limbo_def alloc_init_def)

lemma hp_accounting_witness:
  "hp_limbo (fold hp_exec [ReadOp 1 2 8, RetireOp 0 8, EndOp 1] (hp_new 2 alloc_init))
     + mset (al_freed (hp_pool (fold hp_exec [ReadOp 1 2 8, RetireOp 0 8, EndOp 1] (hp_new 2 alloc_init)))) = {#8#}"
  using hp_accounting [of 2 "[ReadOp 1 2 8, RetireOp 0 8, EndOp 1]"] by simp

end
