(* ===== verification/Pop_System.thy ===== *)
theory Pop_System
  imports Hp
begin

text \<open>
  The concurrent protocol of publish-on-ping, \<open>common/recordmgr/reclaimer_ibr_pophp.h\<close>, as the
  code has it. Threads keep their hazard pointers in local slots. \<open>retire\<close> pushes the object; when
  the thread's counter is at \<open>empty_freq\<close> it sets the counter to zero, notes every thread's
  publication counter, publishes its own slots, signals the others one by one, looks at the counters
  once more, scans the published slots and frees; at its end it increments its counter. The second
  look counts the threads that have not published since (\<open>assert_count\<close>) and goes on in any case.

  A signal that was sent is pending until its thread runs the handler, at any later time; signals to a
  thread with one pending merge. The handler copies the local slots to the published ones and then
  increments the publication counter, and the thread does nothing else meanwhile; a signal that
  arrives while a thread publishes waits until it is done. \<open>px_missed\<close> adds up the values that
  \<open>assert_count\<close> has reached in all calls so far.
\<close>

definition pop_empty_freq :: nat where
  "pop_empty_freq = 32768"

text \<open>Where a thread is in \<open>retire\<close>; \<open>Mutating\<close> when it is not there.\<close>

datatype pop_phase =
  Mutating
| Pushed
| Noting "nat list"
| Publishing "nat list"
| Signalling "nat list" nat
| Checking "nat list" nat nat
| Scanning "nat list" "ptr list"
| Counting

record pop_sys =
  px_status :: "ptr \<Rightarrow> status"
  px_loc :: "nat \<Rightarrow> hp_loc"
  px_local :: "nat \<Rightarrow> nat \<Rightarrow> ptr"
  px_slots :: "nat \<Rightarrow> nat \<Rightarrow> ptr"
  px_cntrs :: "nat \<Rightarrow> nat"
  px_pub :: "nat \<Rightarrow> nat"
  px_pending :: "nat set"
  px_handler :: "nat \<Rightarrow> nat option"
  px_trash :: "nat \<Rightarrow> ptr list"
  px_phase :: "nat \<Rightarrow> pop_phase"
  px_missed :: nat
  px_freed :: "ptr list"

definition pop_init :: pop_sys where
  "pop_init = \<lparr>px_status = (\<lambda>_. Fresh), px_loc = (\<lambda>_. HpLoc (\<lambda>_. {}) PNone),
     px_local = (\<lambda>_ _. NULL), px_slots = (\<lambda>_ _. NULL), px_cntrs = (\<lambda>_. 0), px_pub = (\<lambda>_. 0),
     px_pending = {}, px_handler = (\<lambda>_. None),
     px_trash = (\<lambda>_. []), px_phase = (\<lambda>_. Mutating), px_missed = 0, px_freed = []\<rparr>"

definition px_linked :: "pop_sys \<Rightarrow> ptr set" where
  "px_linked s = {p. px_status s p = Linked}"

text \<open>A thread of the program that runs its own code, not the handler, outside \<open>retire\<close>.\<close>

definition px_runs :: "nat \<Rightarrow> pop_sys \<Rightarrow> nat \<Rightarrow> bool" where
  "px_runs n s t \<longleftrightarrow> t < n \<and> px_handler s t = None \<and> px_phase s t = Mutating"

text \<open>What a thread does with its own local slots: the same reads as with plain hazard pointers.\<close>

inductive pop_proto :: "ptr set \<Rightarrow> (nat \<Rightarrow> ptr) \<Rightarrow> hp_loc \<Rightarrow> (nat \<Rightarrow> ptr) \<Rightarrow> hp_loc \<Rightarrow> bool" for L loc where
  load: "k < 3 \<Longrightarrow> pop_proto L loc (HpLoc H PNone) loc (HpLoc H (PLoaded k p))"
| reserve: "k < 3 \<Longrightarrow> pop_proto L loc (HpLoc H (PLoaded k p)) (loc(k := hp_realptr p)) (HpLoc (H(k := {})) (PReserved k p))"
| ok: "hp_realptr p \<in> L \<Longrightarrow> pop_proto L loc (HpLoc H (PReserved k p)) loc (HpLoc (H(k := {hp_realptr p})) PNone)"
| null: "hp_realptr p = NULL \<Longrightarrow> pop_proto L loc (HpLoc H (PReserved k p)) loc (HpLoc H PNone)"
| again: "k < 3 \<Longrightarrow> pop_proto L loc (HpLoc H (PReserved k p)) loc (HpLoc H (PLoaded k q))"
| announce: "k < 3 \<Longrightarrow> pop_proto L loc (HpLoc H PNone) (loc(k := p)) (HpLoc (H(k := H k \<inter> {p})) PNone)"
| clear: "k < 3 \<Longrightarrow> pop_proto L loc (HpLoc H PNone) (loc(k := NULL)) (HpLoc (H(k := {})) PNone)"

inductive pop_step :: "nat \<Rightarrow> pop_sys \<Rightarrow> pop_sys \<Rightarrow> bool" for n where
  link: "px_runs n s t \<Longrightarrow> px_status s p = Fresh \<Longrightarrow> p \<noteq> NULL \<Longrightarrow> hp_realptr p = p \<Longrightarrow>
     pop_step n s (s\<lparr>px_status := (px_status s)(p := Linked)\<rparr>)"
| unlink: "px_runs n s t \<Longrightarrow> px_status s p = Linked \<Longrightarrow>
     pop_step n s (s\<lparr>px_status := (px_status s)(p := Unlinked t)\<rparr>)"
| proto: "px_runs n s t \<Longrightarrow>
     pop_proto (px_linked s) (px_local s t) (px_loc s t) loc' l' \<Longrightarrow>
     pop_step n s (s\<lparr>px_local := (px_local s)(t := loc'), px_loc := (px_loc s)(t := l')\<rparr>)"
| retire: "px_runs n s t \<Longrightarrow> px_status s p = Unlinked t \<Longrightarrow>
     pop_step n s (s\<lparr>px_status := (px_status s)(p := Retired t),
       px_trash := (px_trash s)(t := px_trash s t @ [p]), px_phase := (px_phase s)(t := Pushed)\<rparr>)"
| no_scan: "px_phase s u = Pushed \<Longrightarrow> px_handler s u = None \<Longrightarrow> px_cntrs s u \<noteq> pop_empty_freq \<Longrightarrow>
     pop_step n s (s\<lparr>px_phase := (px_phase s)(u := Counting)\<rparr>)"
| note_start: "px_phase s u = Pushed \<Longrightarrow> px_handler s u = None \<Longrightarrow> px_cntrs s u = pop_empty_freq \<Longrightarrow>
     pop_step n s (s\<lparr>px_cntrs := (px_cntrs s)(u := 0), px_phase := (px_phase s)(u := Noting [])\<rparr>)"
| note_one: "px_phase s u = Noting ts \<Longrightarrow> px_handler s u = None \<Longrightarrow> length ts < n \<Longrightarrow>
     pop_step n s (s\<lparr>px_phase := (px_phase s)(u := Noting (ts @ [px_pub s (length ts)]))\<rparr>)"
| publish_own: "px_phase s u = Noting ts \<Longrightarrow> px_handler s u = None \<Longrightarrow> length ts = n \<Longrightarrow>
     pop_step n s (s\<lparr>px_phase := (px_phase s)(u := Publishing ts),
       px_handler := (px_handler s)(u := Some 0)\<rparr>)"
| signal_start: "px_phase s u = Publishing ts \<Longrightarrow> px_handler s u = None \<Longrightarrow>
     pop_step n s (s\<lparr>px_phase := (px_phase s)(u := Signalling ts 0)\<rparr>)"
| signal_one: "px_phase s u = Signalling ts i \<Longrightarrow> px_handler s u = None \<Longrightarrow> i < n \<Longrightarrow>
     pop_step n s (s\<lparr>px_phase := (px_phase s)(u := Signalling ts (Suc i)),
       px_pending := (if i = u then px_pending s else insert i (px_pending s))\<rparr>)"
| signal_fails: "px_phase s u = Signalling ts i \<Longrightarrow> px_handler s u = None \<Longrightarrow> i < n \<Longrightarrow> i \<noteq> u \<Longrightarrow>
     pop_step n s (s\<lparr>px_phase := (px_phase s)(u := Counting)\<rparr>)"
| check_start: "px_phase s u = Signalling ts i \<Longrightarrow> px_handler s u = None \<Longrightarrow> i = n \<Longrightarrow>
     pop_step n s (s\<lparr>px_phase := (px_phase s)(u := Checking ts 0 0)\<rparr>)"
| check_changed: "px_phase s u = Checking ts i a \<Longrightarrow> px_handler s u = None \<Longrightarrow> i < n \<Longrightarrow>
     i = u \<or> px_pub s i \<noteq> ts ! i \<Longrightarrow>
     pop_step n s (s\<lparr>px_phase := (px_phase s)(u := Checking ts (Suc i) a)\<rparr>)"
| check_missed: "px_phase s u = Checking ts i a \<Longrightarrow> px_handler s u = None \<Longrightarrow> i < n \<Longrightarrow>
     i \<noteq> u \<Longrightarrow> px_pub s i = ts ! i \<Longrightarrow> Suc a < 3 * n \<Longrightarrow>
     pop_step n s (s\<lparr>px_phase := (px_phase s)(u := Checking ts (Suc i) (Suc a)), px_missed := Suc (px_missed s)\<rparr>)"
| scan_start: "px_phase s u = Checking ts i a \<Longrightarrow> px_handler s u = None \<Longrightarrow> i = n \<Longrightarrow>
     pop_step n s (s\<lparr>px_phase := (px_phase s)(u := Scanning ts [])\<rparr>)"
| scan_one: "px_phase s u = Scanning ts snap \<Longrightarrow> px_handler s u = None \<Longrightarrow> length snap < n * 3 \<Longrightarrow>
     pop_step n s (s\<lparr>px_phase := (px_phase s)(u :=
       Scanning ts (snap @ [px_slots s (length snap div 3) (length snap mod 3)]))\<rparr>)"
| sweep: "px_phase s u = Scanning ts snap \<Longrightarrow> px_handler s u = None \<Longrightarrow> length snap = n * 3 \<Longrightarrow>
     erase_loop (\<lambda>p. \<not> hp_conflict snap p) (px_trash s u) = (kept, erased) \<Longrightarrow>
     pop_step n s (s\<lparr>px_phase := (px_phase s)(u := Counting), px_trash := (px_trash s)(u := kept),
       px_freed := px_freed s @ erased,
       px_status := (\<lambda>p. if p \<in> set erased then Freed else px_status s p)\<rparr>)"
| count: "px_phase s u = Counting \<Longrightarrow> px_handler s u = None \<Longrightarrow>
     pop_step n s (s\<lparr>px_cntrs := (px_cntrs s)(u := Suc (px_cntrs s u)), px_phase := (px_phase s)(u := Mutating)\<rparr>)"
| handler_start: "t \<in> px_pending s \<Longrightarrow> t < n \<Longrightarrow> px_handler s t = None \<Longrightarrow>
     pop_step n s (s\<lparr>px_pending := px_pending s - {t}, px_handler := (px_handler s)(t := Some 0)\<rparr>)"
| handler_copy: "px_handler s t = Some k \<Longrightarrow> k < 3 \<Longrightarrow>
     pop_step n s (s\<lparr>px_slots := (px_slots s)(t := (px_slots s t)(k := px_local s t k)),
       px_handler := (px_handler s)(t := Some (Suc k))\<rparr>)"
| handler_done: "px_handler s t = Some 3 \<Longrightarrow> Suc (px_pub s t) < 2 ^ 32 \<Longrightarrow>
     pop_step n s (s\<lparr>px_pub := (px_pub s)(t := Suc (px_pub s t)),
       px_handler := (px_handler s)(t := None)\<rparr>)"

inductive pop_reach :: "nat \<Rightarrow> pop_sys \<Rightarrow> bool" for n where
  pop_reach_init: "pop_reach n pop_init"
| pop_reach_step: "pop_reach n s \<Longrightarrow> pop_step n s s' \<Longrightarrow> pop_reach n s'"

text \<open>What a check that found an unchanged counter adds is never taken back.\<close>

lemma pop_missed_mono: "pop_step n s s' \<Longrightarrow> px_missed s \<le> px_missed s'"
  by (induction rule: pop_step.induct) simp_all

subsection \<open>The invariant\<close>

text \<open>The counters a reclaiming thread noted, and what it has scanned.\<close>

fun px_noted :: "pop_phase \<Rightarrow> nat list" where
  "px_noted Mutating = []"
| "px_noted Pushed = []"
| "px_noted (Noting ts) = ts"
| "px_noted (Publishing ts) = ts"
| "px_noted (Signalling ts i) = ts"
| "px_noted (Checking ts i a) = ts"
| "px_noted (Scanning ts snap) = ts"
| "px_noted Counting = []"

fun px_snap :: "pop_phase \<Rightarrow> ptr list" where
  "px_snap (Scanning ts snap) = snap"
| "px_snap _ = []"

text \<open>
  What is known of the noted counters in each phase, as long as no check has missed; \<open>h\<close> is the
  handler of the thread.
\<close>

fun phase_ok :: "nat \<Rightarrow> (nat \<Rightarrow> nat) \<Rightarrow> nat option \<Rightarrow> nat \<Rightarrow> pop_phase \<Rightarrow> bool" where
  "phase_ok n pub h u Mutating = True"
| "phase_ok n pub h u Pushed \<longleftrightarrow> u < n"
| "phase_ok n pub h u Counting = True"
| "phase_ok n pub h u (Noting ts) \<longleftrightarrow> u < n \<and> length ts \<le> n \<and> (\<forall>t<length ts. ts ! t \<le> pub t)"
| "phase_ok n pub h u (Publishing ts) \<longleftrightarrow>
     u < n \<and> length ts = n \<and> (\<forall>t<n. ts ! t \<le> pub t) \<and> (h \<noteq> None \<or> ts ! u < pub u)"
| "phase_ok n pub h u (Signalling ts i) \<longleftrightarrow>
     u < n \<and> length ts = n \<and> i \<le> n \<and> (\<forall>t<n. ts ! t \<le> pub t) \<and> ts ! u < pub u"
| "phase_ok n pub h u (Checking ts i a) \<longleftrightarrow>
     u < n \<and> length ts = n \<and> i \<le> n \<and> (\<forall>t<n. ts ! t \<le> pub t \<and> (t < i \<or> t = u \<longrightarrow> ts ! t < pub t))"
| "phase_ok n pub h u (Scanning ts snap) \<longleftrightarrow> u < n \<and> length ts = n \<and> (\<forall>t<n. ts ! t < pub t)"

definition px_holds :: "pop_sys \<Rightarrow> nat \<Rightarrow> nat \<Rightarrow> ptr \<Rightarrow> bool" where
  "px_holds s t k p \<longleftrightarrow> k < 3 \<and> p \<in> hp_objs (px_loc s t) k"

lemma px_holds_irrelevant [simp]:
  "px_holds (s\<lparr>px_status := st\<rparr>) = px_holds s"
  "px_holds (s\<lparr>px_local := lo\<rparr>) = px_holds s"
  "px_holds (s\<lparr>px_slots := sl\<rparr>) = px_holds s"
  "px_holds (s\<lparr>px_pub := pu\<rparr>) = px_holds s"
  "px_holds (s\<lparr>px_cntrs := cn\<rparr>) = px_holds s"
  "px_holds (s\<lparr>px_pending := pe\<rparr>) = px_holds s"
  "px_holds (s\<lparr>px_missed := mi\<rparr>) = px_holds s"
  "px_holds (s\<lparr>px_handler := ha\<rparr>) = px_holds s"
  "px_holds (s\<lparr>px_trash := tr\<rparr>) = px_holds s"
  "px_holds (s\<lparr>px_phase := ph\<rparr>) = px_holds s"
  "px_holds (s\<lparr>px_freed := fr\<rparr>) = px_holds s"
  by (simp_all add: px_holds_def fun_eq_iff)

definition pop_local_ok :: "nat \<Rightarrow> pop_sys \<Rightarrow> bool" where
  "pop_local_ok n s \<longleftrightarrow> (\<forall>t k p. px_holds s t k p \<longrightarrow>
       t < n \<and> px_local s t k = p \<and> px_status s p \<noteq> Fresh \<and> px_status s p \<noteq> Freed)
     \<and> (\<forall>t k p. hp_pend (px_loc s t) = PReserved k p \<longrightarrow> k < 3 \<and> px_local s t k = hp_realptr p)
     \<and> (\<forall>t j. px_handler s t = Some j \<longrightarrow> t < n \<and> j \<le> 3 \<and> (\<forall>k<j. px_slots s t k = px_local s t k))"

definition pop_trash_ok :: "pop_sys \<Rightarrow> bool" where
  "pop_trash_ok s \<longleftrightarrow> (\<forall>u. distinct (px_trash s u) \<and> (\<forall>p\<in>set (px_trash s u). px_status s p = Retired u))
     \<and> distinct (px_freed s) \<and> (\<forall>p. p \<in> set (px_freed s) \<longleftrightarrow> px_status s p = Freed)"

definition pop_phase_ok :: "nat \<Rightarrow> pop_sys \<Rightarrow> bool" where
  "pop_phase_ok n s \<longleftrightarrow> (\<forall>u. phase_ok n (px_pub s) (px_handler s u) u (px_phase s u))"

text \<open>
  A thread that published after its counter was noted has, in its published slots, every retired
  object it holds; and so has the scan of the reclaiming thread.
\<close>

definition pop_published :: "pop_sys \<Rightarrow> bool" where
  "pop_published s \<longleftrightarrow> (\<forall>u t k p. p \<in> set (px_trash s u) \<longrightarrow> px_holds s t k p \<longrightarrow>
       t < length (px_noted (px_phase s u)) \<longrightarrow> px_pub s t \<noteq> px_noted (px_phase s u) ! t \<longrightarrow>
       px_slots s t k = p
         \<and> (3 * t + k < length (px_snap (px_phase s u)) \<longrightarrow> px_snap (px_phase s u) ! (3 * t + k) = p))"

definition pop_inv :: "nat \<Rightarrow> pop_sys \<Rightarrow> bool" where
  "pop_inv n s \<longleftrightarrow> pop_local_ok n s \<and> pop_trash_ok s \<and> pop_phase_ok n s \<and> pop_published s"


lemma pop_inv_init: "pop_inv n pop_init"
  by (simp add: pop_inv_def pop_local_ok_def pop_trash_ok_def pop_phase_ok_def pop_published_def
      px_holds_def pop_init_def)

lemma pop_proto_objs:
  assumes "pop_proto L loc l loc' l'" and "k < 3" and "p \<in> hp_objs l' k"
  shows "p \<in> L \<or> p \<in> hp_objs l k"
  using assms by cases (auto split: if_splits)

definition own_ok :: "(nat \<Rightarrow> ptr) \<Rightarrow> hp_loc \<Rightarrow> bool" where
  "own_ok loc l \<longleftrightarrow> (\<forall>k<3. \<forall>p\<in>hp_objs l k. loc k = p)
     \<and> (\<forall>k p. hp_pend l = PReserved k p \<longrightarrow> k < 3 \<and> loc k = hp_realptr p)"

lemma pop_proto_own: "pop_proto L loc l loc' l' \<Longrightarrow> own_ok loc l \<Longrightarrow> own_ok loc' l'"
  by (cases rule: pop_proto.cases) (auto simp: own_ok_def split: if_splits)

lemma pop_local_own: "pop_local_ok n s \<Longrightarrow> own_ok (px_local s t) (px_loc s t)"
  by (auto simp: pop_local_ok_def own_ok_def px_holds_def)

lemma pop_local_proto:
  assumes old: "pop_local_ok n s" and "t < n" and "px_handler s t = None"
    and st: "pop_proto (px_linked s) (px_local s t) (px_loc s t) loc' l'"
  shows "pop_local_ok n (s\<lparr>px_local := (px_local s)(t := loc'), px_loc := (px_loc s)(t := l')\<rparr>)"
    (is "pop_local_ok n ?s'")
proof -
  have own: "own_ok loc' l'" using pop_proto_own [OF st pop_local_own [OF old]] .
  have held: "px_status s p \<noteq> Fresh \<and> px_status s p \<noteq> Freed" if "k < 3" "p \<in> hp_objs l' k" for k p
    using pop_proto_objs [OF st that] old that(1) by (auto simp: px_linked_def pop_local_ok_def px_holds_def)
  have "u < n \<and> px_local ?s' u k = p \<and> px_status ?s' p \<noteq> Fresh \<and> px_status ?s' p \<noteq> Freed"
    if "px_holds ?s' u k p" for u k p
  proof (cases "u = t")
    case True
    then show ?thesis using that own held assms(2) by (auto simp: px_holds_def own_ok_def)
  next
    case False
    then show ?thesis using that old by (auto simp: pop_local_ok_def px_holds_def)
  qed
  moreover have "k < 3 \<and> px_local ?s' u k = hp_realptr p" if "hp_pend (px_loc ?s' u) = PReserved k p" for u k p
    using that own old by (cases "u = t") (auto simp: own_ok_def pop_local_ok_def)
  moreover have "u < n \<and> j \<le> 3 \<and> (\<forall>k<j. px_slots ?s' u k = px_local ?s' u k)" if "px_handler ?s' u = Some j" for u j
    using that old assms(3) by (cases "u = t") (auto simp: pop_local_ok_def)
  ultimately show ?thesis by (auto simp: pop_local_ok_def)
qed

lemma pop_local_status:
  assumes "pop_local_ok n s" and "\<And>t k q. px_holds s t k q \<Longrightarrow> st q \<noteq> Fresh \<and> st q \<noteq> Freed"
  shows "pop_local_ok n (s\<lparr>px_status := st\<rparr>)"
  using assms by (auto simp: pop_local_ok_def)

lemma pop_local_irrelevant [simp]:
  "pop_local_ok n (s\<lparr>px_trash := tr\<rparr>) = pop_local_ok n s"
  "pop_local_ok n (s\<lparr>px_phase := ph\<rparr>) = pop_local_ok n s"
  "pop_local_ok n (s\<lparr>px_freed := fr\<rparr>) = pop_local_ok n s"
  "pop_local_ok n (s\<lparr>px_pub := pu\<rparr>) = pop_local_ok n s"
  "pop_local_ok n (s\<lparr>px_cntrs := cn\<rparr>) = pop_local_ok n s"
  "pop_local_ok n (s\<lparr>px_pending := pe\<rparr>) = pop_local_ok n s"
  "pop_local_ok n (s\<lparr>px_missed := mi\<rparr>) = pop_local_ok n s"
  by (simp_all add: pop_local_ok_def px_holds_def)

lemma pop_publishedD:
  "pop_published s \<Longrightarrow> p \<in> set (px_trash s u) \<Longrightarrow> px_holds s t k p \<Longrightarrow>
     t < length (px_noted (px_phase s u)) \<Longrightarrow> px_pub s t \<noteq> px_noted (px_phase s u) ! t \<Longrightarrow>
     px_slots s t k = p
       \<and> (3 * t + k < length (px_snap (px_phase s u)) \<longrightarrow> px_snap (px_phase s u) ! (3 * t + k) = p)"
  unfolding pop_published_def by blast

lemma sweep_unheld:
  assumes "pop_inv n s" and "px_phase s u = Scanning ts snap" and "length snap = n * 3"
    and "p \<in> set (px_trash s u)" and "p \<notin> set snap"
  shows "\<not> px_holds s t k p"
proof
  assume h: "px_holds s t k p"
  then have t: "t < n" and k: "k < 3" using assms(1) by (auto simp: pop_inv_def pop_local_ok_def px_holds_def)
  have "phase_ok n (px_pub s) (px_handler s u) u (px_phase s u)"
    using assms(1) by (simp add: pop_inv_def pop_phase_ok_def)
  then have full: "length ts = n" and seen: "\<forall>t<n. px_pub s t \<noteq> ts ! t" using assms(2) by auto
  have lt: "3 * t + k < length snap" using t k assms(3) by simp
  have "snap ! (3 * t + k) = p"
    using pop_publishedD [OF _ assms(4) h] assms(1,2) t full seen lt by (simp add: pop_inv_def)
  with lt have "p \<in> set snap" by auto
  with assms(5) show False ..
qed

lemma pop_local_step:
  assumes "pop_step n s s'" and inv: "pop_inv n s"
  shows "pop_local_ok n s'"
proof -
  have old: "pop_local_ok n s" using inv by (simp add: pop_inv_def)
  from assms(1) show ?thesis
  proof cases
    case (link t p)
    then show ?thesis using old by (auto intro!: pop_local_status [OF old] simp: pop_local_ok_def)
  next
    case (unlink t p)
    then show ?thesis using old by (auto intro!: pop_local_status [OF old] simp: pop_local_ok_def)
  next
    case (retire t p)
    have "pop_local_ok n (s\<lparr>px_status := (px_status s)(p := Retired t)\<rparr>)"
      using old by (intro pop_local_status) (auto simp: pop_local_ok_def)
    then show ?thesis using retire by (simp add: pop_local_ok_def px_holds_def)
  next
    case (proto t loc' l')
    then show ?thesis using pop_local_proto [OF old] by (simp add: px_runs_def)
  next
    case (publish_own u ts)
    have "phase_ok n (px_pub s) (px_handler s u) u (px_phase s u)"
      using inv by (simp add: pop_inv_def pop_phase_ok_def)
    then have "u < n" using publish_own(2) by simp
    then show ?thesis using publish_own old by (auto simp: pop_local_ok_def)
  next
    case (sweep u ts snap kept erased)
    have "pop_local_ok n (s\<lparr>px_status := (\<lambda>p. if p \<in> set erased then Freed else px_status s p)\<rparr>)"
    proof (rule pop_local_status [OF old])
      fix t k q
      assume h: "px_holds s t k q"
      have "q \<notin> set erased"
        using sweep_unheld [OF inv sweep(2,4)] h sweep(5) by (auto simp: erase_loop_eq)
      then show "(if q \<in> set erased then Freed else px_status s q) \<noteq> Fresh
          \<and> (if q \<in> set erased then Freed else px_status s q) \<noteq> Freed"
        using old h by (auto simp: pop_local_ok_def)
    qed
    then show ?thesis using sweep(1) by (simp add: pop_local_ok_def px_holds_def)
  qed (use old in \<open>auto simp: pop_local_ok_def px_holds_def less_Suc_eq\<close>)
qed

lemma pop_trash_step:
  assumes "pop_step n s s'" and old: "pop_trash_ok s"
  shows "pop_trash_ok s'"
  using assms(1)
proof cases
  case (sweep u ts snap kept erased)
  have kept: "kept = filter (\<lambda>p. p \<in> set snap) (px_trash s u)"
    and er: "erased = filter (\<lambda>p. p \<notin> set snap) (px_trash s u)"
    using sweep(5) by (simp_all add: erase_loop_eq)
  have st: "px_status s p = Retired u" if "p \<in> set (px_trash s u)" for p u
    using old that by (auto simp: pop_trash_ok_def)
  have "p \<notin> set erased" if "p \<in> set (px_trash s v)" "v \<noteq> u" for p v
    using that st [of p u] st [of p v] er by auto
  moreover have "distinct (px_freed s @ erased)"
    using old st by (fastforce simp: pop_trash_ok_def er)
  ultimately show ?thesis using old sweep(1) kept er
    by (auto simp: pop_trash_ok_def split: if_splits)
qed (use old in \<open>auto simp: pop_trash_ok_def split: if_splits\<close>)


lemma phase_ok_mono:
  assumes "phase_ok n pub h u ph" and "\<And>t. pub t \<le> pub' t" and "h' = None \<Longrightarrow> h = None \<or> pub u < pub' u"
  shows "phase_ok n pub' h' u ph"
proof -
  have le: "x \<le> pub t \<Longrightarrow> x \<le> pub' t" and less: "x < pub t \<Longrightarrow> x < pub' t" for x t
    using assms(2) [of t] by linarith+
  have up: "x \<le> pub u \<Longrightarrow> pub u < pub' u \<Longrightarrow> x < pub' u" for x by linarith
  show ?thesis
  proof (cases ph)
    case (Publishing ts)
    then show ?thesis using assms(1,3) le less up [of "ts ! u"] by (cases h') auto
  qed (use assms(1) le less in auto)
qed

lemma pop_phase_step:
  assumes "pop_step n s s'" and inv: "pop_inv n s" and nomiss: "px_missed s' = 0"
  shows "pop_phase_ok n s'"
proof -
  have old: "phase_ok n (px_pub s) (px_handler s u) u (px_phase s u)" for u
    using inv by (simp add: pop_inv_def pop_phase_ok_def)
  have lt: "ts ! i \<le> px_pub s i \<Longrightarrow> px_pub s i \<noteq> ts ! i \<Longrightarrow> ts ! i < px_pub s i" for ts i by simp
  from assms(1) show ?thesis
  proof cases
    case (handler_start t)
    then show ?thesis using phase_ok_mono [OF old, of "px_pub s"] by (auto simp: pop_phase_ok_def)
  next
    case (handler_copy t k)
    then show ?thesis using phase_ok_mono [OF old, of "px_pub s"] by (auto simp: pop_phase_ok_def)
  next
    case (handler_done t)
    have "phase_ok n (px_pub s') (px_handler s' u) u (px_phase s u)" for u
      by (rule phase_ok_mono [OF old [of u]]) (use handler_done in \<open>auto split: if_splits\<close>)
    then show ?thesis using handler_done by (simp add: pop_phase_ok_def)
  next
    case (note_one u ts)
    then show ?thesis using old old [of u] by (auto simp: pop_phase_ok_def nth_append less_Suc_eq)
  next
    case (signal_start u ts)
    then show ?thesis using old old [of u] by (auto simp: pop_phase_ok_def)
  next
    case (signal_one u ts i)
    then show ?thesis using old old [of u] by (auto simp: pop_phase_ok_def)
  next
    case (check_start u ts i)
    then show ?thesis using old old [of u] by (auto simp: pop_phase_ok_def)
  next
    case (check_changed u ts i a)
    then show ?thesis using old old [of u] lt by (auto simp: pop_phase_ok_def less_Suc_eq)
  next
    case (check_missed u ts i a)
    then show ?thesis using nomiss by simp
  next
    case (scan_start u ts i a)
    then show ?thesis using old old [of u] by (auto simp: pop_phase_ok_def)
  next
    case (note_start u)
    then show ?thesis using old old [of u] by (auto simp: pop_phase_ok_def)
  next
    case (retire t p)
    then show ?thesis using old by (auto simp: pop_phase_ok_def px_runs_def)
  next
    case (publish_own u ts)
    then show ?thesis using old old [of u] by (auto simp: pop_phase_ok_def)
  next
    case (scan_one u ts snap)
    then show ?thesis using old old [of u] by (auto simp: pop_phase_ok_def)
  qed (use old in \<open>auto simp: pop_phase_ok_def\<close>)
qed

lemma pop_published_step:
  assumes "pop_step n s s'" and inv: "pop_inv n s"
  shows "pop_published s'"
proof -
  have lo: "pop_local_ok n s" and tr: "pop_trash_ok s" and pu: "pop_published s"
    using inv by (auto simp: pop_inv_def)
  have ph: "phase_ok n (px_pub s) (px_handler s u) u (px_phase s u)" for u
    using inv by (simp add: pop_inv_def pop_phase_ok_def)
  have own: "px_local s t k = p" if "px_holds s t k p" for t k p
    using that lo by (auto simp: pop_local_ok_def)
  from assms(1) show ?thesis
  proof cases
    case (proto t loc' l')
    have "px_holds s v k p" if "px_holds s' v k p" "px_status s p \<noteq> Linked" for v k p
      using that pop_proto_objs [OF proto(3)] proto(1) by (auto simp: px_holds_def px_linked_def split: if_splits)
    moreover have "px_status s p \<noteq> Linked" if "p \<in> set (px_trash s u)" for u p
      using that tr by (auto simp: pop_trash_ok_def)
    ultimately show ?thesis using pu proto(1) by (simp add: pop_published_def)
  next
    case (retire t p)
    then show ?thesis using pu by (auto simp: pop_published_def)
  next
    case (handler_copy t k)
    have "px_slots s' v j = px_slots s v j \<or> px_slots s' v j = px_local s v j" for v j
      using handler_copy(1) by auto
    then show ?thesis using pu own handler_copy(1) by (auto simp: pop_published_def)
  next
    case (handler_done t)
    have slots: "px_slots s t k = px_local s t k" if "k < 3" for k
      using lo handler_done(2) that by (auto simp: pop_local_ok_def)
    show ?thesis
      unfolding pop_published_def
    proof (intro allI impI)
      fix u v k p
      assume p: "p \<in> set (px_trash s' u)" and h: "px_holds s' v k p"
        and len: "v < length (px_noted (px_phase s' u))" and new: "px_pub s' v \<noteq> px_noted (px_phase s' u) ! v"
      have p': "p \<in> set (px_trash s u)" and h': "px_holds s v k p" and len': "v < length (px_noted (px_phase s u))"
        using p h len handler_done(1) by simp_all
      show "px_slots s' v k = p
         \<and> (3 * v + k < length (px_snap (px_phase s' u)) \<longrightarrow> px_snap (px_phase s' u) ! (3 * v + k) = p)"
      proof (cases "px_pub s v = px_noted (px_phase s u) ! v")
        case True
        then have "v = t" using new handler_done(1) by (auto split: if_splits)
        then have "px_slots s v k = p" using slots own [OF h'] h' by (simp add: px_holds_def)
        moreover have "px_snap (px_phase s u) = []"
          using ph [of u] True len' by (cases "px_phase s u") auto
        ultimately show ?thesis using handler_done(1) by simp
      next
        case False
        then show ?thesis using pop_publishedD [OF pu p' h' len'] handler_done(1) by simp
      qed
    qed
  next
    case (note_one u ts)
    then show ?thesis using pu by (auto simp: pop_published_def nth_append less_Suc_eq)
  next
    case (scan_one u ts snap)
    have "px_slots s (length snap div 3) (length snap mod 3) = p"
      if "p \<in> set (px_trash s u)" "px_holds s t k p" "3 * t + k = length snap" "t < length ts" "px_pub s t \<noteq> ts ! t" for t k p
    proof -
      have "k < 3" using that(2) by (simp add: px_holds_def)
      then have "length snap div 3 = t" "length snap mod 3 = k" using that(3) [symmetric] by simp_all
      then show ?thesis using pop_publishedD [OF pu that(1,2)] that(4,5) scan_one(2) by simp
    qed
    note new = this
    show ?thesis
      unfolding pop_published_def
    proof (intro allI impI)
      fix v t k p
      assume p: "p \<in> set (px_trash s' v)" and h: "px_holds s' t k p"
        and len: "t < length (px_noted (px_phase s' v))" and ne: "px_pub s' t \<noteq> px_noted (px_phase s' v) ! t"
      have nt: "px_noted (px_phase s' v) = px_noted (px_phase s v)" using scan_one(1,2) by simp
      have d: "px_slots s t k = p
         \<and> (3 * t + k < length (px_snap (px_phase s v)) \<longrightarrow> px_snap (px_phase s v) ! (3 * t + k) = p)"
        using pop_publishedD [OF pu, of p v t k] p h len ne nt scan_one(1) by simp
      show "px_slots s' t k = p
         \<and> (3 * t + k < length (px_snap (px_phase s' v)) \<longrightarrow> px_snap (px_phase s' v) ! (3 * t + k) = p)"
      proof (cases "v = u")
        case True
        then show ?thesis
          using d new [of p t k] p h len ne nt scan_one(1,2) by (auto simp: nth_append less_Suc_eq)
      next
        case False
        then show ?thesis using d scan_one(1) by simp
      qed
    qed
  next
    case (sweep u ts snap kept erased)
    then show ?thesis using pu by (auto simp: pop_published_def erase_loop_eq)
  qed (use pu in \<open>auto simp: pop_published_def\<close>)
qed

lemma pop_inv_step: "pop_step n s s' \<Longrightarrow> px_missed s' = 0 \<Longrightarrow> pop_inv n s \<Longrightarrow> pop_inv n s'"
  using pop_local_step pop_phase_step pop_published_step pop_trash_step by (auto simp: pop_inv_def)

lemma pop_reach_inv: "pop_reach n s \<Longrightarrow> px_missed s = 0 \<Longrightarrow> pop_inv n s"
proof (induction rule: pop_reach.induct)
  case (pop_reach_step s s')
  then have "px_missed s = 0" using pop_missed_mono [of n s s'] by simp
  with pop_reach_step show ?case by (blast intro: pop_inv_step)
qed (rule pop_inv_init)

lemma pop_reach_trash: "pop_reach n s \<Longrightarrow> pop_trash_ok s"
proof (induction rule: pop_reach.induct)
  case (pop_reach_step s s')
  then show ?case by (blast intro: pop_trash_step)
qed (use pop_inv_init in \<open>simp add: pop_inv_def\<close>)


subsection \<open>Runs\<close>

text \<open>
  A reclamation that nobody disturbs, in two parts: up to the last signal, and from the second look at
  the counters on.
\<close>

lemma noting_run:
  assumes "i \<le> n" and "pop_reach n s" and "px_phase s u = Noting (map (px_pub s) [0..<i])" and "px_handler s u = None"
  shows "pop_reach n (s\<lparr>px_phase := (px_phase s)(u := Noting (map (px_pub s) [0..<n]))\<rparr>)"
  using assms
proof (induction "n - i" arbitrary: i s)
  case 0
  then have eq: "s\<lparr>px_phase := (px_phase s)(u := Noting (map (px_pub s) [0..<n]))\<rparr> = s" by (simp add: fun_upd_idem)
  show ?case unfolding eq by (rule 0)
next
  case (Suc m)
  let ?s = "s\<lparr>px_phase := (px_phase s)(u := Noting (map (px_pub s) [0..<i] @ [px_pub s (length (map (px_pub s) [0..<i]))]))\<rparr>"
  have "pop_reach n ?s" using Suc by (intro pop_reach_step [OF _ pop_step.note_one]) auto
  from Suc.hyps(1) [of "Suc i" ?s, OF _ _ this] Suc show ?case by simp
qed

lemma publish_run:
  assumes "pop_reach n s" and "px_handler s u = Some 0" and "Suc (px_pub s u) < 2 ^ 32"
  shows "\<exists>slots. (\<forall>t. t \<noteq> u \<longrightarrow> slots t = px_slots s t) \<and> (\<forall>k<3. slots u k = px_local s u k)
     \<and> (\<forall>k\<ge>3. slots u k = px_slots s u k)
     \<and> pop_reach n (s\<lparr>px_slots := slots, px_pub := (px_pub s)(u := Suc (px_pub s u)), px_handler := (px_handler s)(u := None)\<rparr>)"
proof -
  let ?c = "\<lambda>s k. s\<lparr>px_slots := (px_slots s)(u := (px_slots s u)(k := px_local s u k)), px_handler := (px_handler s)(u := Some (Suc k))\<rparr>"
  have 1: "pop_reach n (?c s 0)"
    using assms by (intro pop_reach_step [OF _ pop_step.handler_copy]) auto
  have 2: "pop_reach n (?c (?c s 0) 1)"
    by (intro pop_reach_step [OF 1 pop_step.handler_copy]) auto
  have 3: "pop_reach n (?c (?c (?c s 0) 1) 2)"
    by (intro pop_reach_step [OF 2 pop_step.handler_copy]) auto
  have 4: "pop_reach n ((?c (?c (?c s 0) 1) 2)\<lparr>px_pub := (px_pub s)(u := Suc (px_pub s u)), px_handler := (px_handler s)(u := None)\<rparr>)"
    using pop_reach_step [OF 3 pop_step.handler_done [where t = u]] assms by simp
  then show ?thesis
    by (intro exI [of _ "px_slots (?c (?c (?c s 0) 1) 2)"]) (auto simp: all_less_3)
qed

lemma signal_run:
  assumes "i \<le> n" and "pop_reach n s" and "px_phase s u = Signalling ts i" and "px_handler s u = None"
  shows "pop_reach n (s\<lparr>px_phase := (px_phase s)(u := Signalling ts n), px_pending := px_pending s \<union> ({i..<n} - {u})\<rparr>)"
  using assms
proof (induction "n - i" arbitrary: i s)
  case 0
  then have eq: "s\<lparr>px_phase := (px_phase s)(u := Signalling ts n), px_pending := px_pending s \<union> ({i..<n} - {u})\<rparr> = s"
    by (simp add: fun_upd_idem)
  show ?case unfolding eq by (rule 0)
next
  case (Suc m)
  let ?s = "s\<lparr>px_phase := (px_phase s)(u := Signalling ts (Suc i)),
     px_pending := (if i = u then px_pending s else insert i (px_pending s))\<rparr>"
  have "pop_reach n ?s" using Suc by (intro pop_reach_step [OF _ pop_step.signal_one]) auto
  from Suc.hyps(1) [of "Suc i" ?s, OF _ _ this] Suc
  have "pop_reach n (?s\<lparr>px_phase := (px_phase ?s)(u := Signalling ts n), px_pending := px_pending ?s \<union> ({Suc i..<n} - {u})\<rparr>)"
    by simp
  moreover have "px_pending ?s \<union> ({Suc i..<n} - {u}) = px_pending s \<union> ({i..<n} - {u})"
    using Suc.hyps(2) by (cases "i = u") (auto simp: le_less Suc_le_eq)
  ultimately show ?case by simp
qed

lemma checking_run:
  assumes "i \<le> n" and "a \<le> i" and "pop_reach n s" and "px_phase s u = Checking ts i a" and "px_handler s u = None"
  shows "\<exists>a m. ((\<forall>j<n. j = u \<or> px_pub s j \<noteq> ts ! j) \<longrightarrow> m = px_missed s) \<and>
     pop_reach n (s\<lparr>px_phase := (px_phase s)(u := Checking ts n a), px_missed := m\<rparr>)"
  using assms
proof (induction "n - i" arbitrary: i a s)
  case 0
  then have eq: "s\<lparr>px_phase := (px_phase s)(u := Checking ts n a), px_missed := px_missed s\<rparr> = s" by (simp add: fun_upd_idem)
  show ?case by (rule exI [of _ a], rule exI [of _ "px_missed s"], unfold eq) (use 0 in simp)
next
  case (Suc m)
  show ?case
  proof (cases "i = u \<or> px_pub s i \<noteq> ts ! i")
    case True
    let ?s = "s\<lparr>px_phase := (px_phase s)(u := Checking ts (Suc i) a)\<rparr>"
    have "pop_reach n ?s" using Suc True by (intro pop_reach_step [OF _ pop_step.check_changed]) auto
    from Suc.hyps(1) [of "Suc i" a ?s, OF _ _ _ this] Suc show ?thesis by auto
  next
    case False
    let ?s = "s\<lparr>px_phase := (px_phase s)(u := Checking ts (Suc i) (Suc a)), px_missed := Suc (px_missed s)\<rparr>"
    have "pop_reach n ?s" using Suc False by (intro pop_reach_step [OF _ pop_step.check_missed]) auto
    moreover have i: "m = n - Suc i" "Suc i \<le> n" "i < n" using Suc.hyps(2) by simp_all
    ultimately obtain b m where "pop_reach n (s\<lparr>px_phase := (px_phase s)(u := Checking ts n b), px_missed := m\<rparr>)"
      using Suc.hyps(1) [of "Suc i" "Suc a" ?s] Suc.prems by auto
    then show ?thesis using False i(3) by (intro exI [of _ b] exI [of _ m]) auto
  qed
qed

lemma scanning_run:
  assumes "length snap \<le> n * 3" and "pop_reach n s" and "px_phase s u = Scanning ts snap" and "px_handler s u = None"
    and "\<forall>x\<in>set snap. \<exists>t k. t < n \<and> k < 3 \<and> x = px_slots s t k"
  shows "\<exists>snap'. length snap' = n * 3 \<and> (\<forall>x\<in>set snap'. \<exists>t k. t < n \<and> k < 3 \<and> x = px_slots s t k)
     \<and> pop_reach n (s\<lparr>px_phase := (px_phase s)(u := Scanning ts snap')\<rparr>)"
  using assms
proof (induction "n * 3 - length snap" arbitrary: snap s)
  case 0
  then have eq: "s\<lparr>px_phase := (px_phase s)(u := Scanning ts snap)\<rparr> = s" by (simp add: fun_upd_idem)
  show ?case by (rule exI [of _ snap], unfold eq) (use 0 in simp)
next
  case (Suc m)
  let ?x = "px_slots s (length snap div 3) (length snap mod 3)"
  let ?s = "s\<lparr>px_phase := (px_phase s)(u := Scanning ts (snap @ [?x]))\<rparr>"
  have "length snap < n * 3" using Suc by simp
  then have "length snap div 3 < n" by (simp add: less_mult_imp_div_less)
  then have "\<exists>t k. t < n \<and> k < 3 \<and> ?x = px_slots s t k"
    by (intro exI [of _ "length snap div 3"] exI [of _ "length snap mod 3"]) simp
  moreover have "pop_reach n ?s" using Suc by (intro pop_reach_step [OF _ pop_step.scan_one]) auto
  ultimately show ?case using Suc.hyps(1) [of "snap @ [?x]" ?s] Suc by simp
qed

lemma ping_run:
  assumes "pop_reach n s" and "px_phase s u = Pushed" and "px_handler s u = None" and "px_cntrs s u = pop_empty_freq"
    and "Suc (px_pub s u) < 2 ^ 32"
  shows "\<exists>slots. (\<forall>t. t \<noteq> u \<longrightarrow> slots t = px_slots s t) \<and> (\<forall>k<3. slots u k = px_local s u k)
     \<and> pop_reach n (s\<lparr>px_cntrs := (px_cntrs s)(u := 0), px_slots := slots, px_pub := (px_pub s)(u := Suc (px_pub s u)),
         px_phase := (px_phase s)(u := Signalling (map (px_pub s) [0..<n]) n),
         px_pending := px_pending s \<union> ({0..<n} - {u})\<rparr>)"
proof -
  let ?ts = "map (px_pub s) [0..<n]"
  let ?s1 = "s\<lparr>px_cntrs := (px_cntrs s)(u := 0), px_phase := (px_phase s)(u := Noting [])\<rparr>"
  have 1: "pop_reach n ?s1" using assms by (intro pop_reach_step [OF assms(1) pop_step.note_start])
  let ?s2 = "s\<lparr>px_cntrs := (px_cntrs s)(u := 0), px_phase := (px_phase s)(u := Noting ?ts)\<rparr>"
  have 2: "pop_reach n ?s2" using noting_run [OF _ 1, of 0 u] assms(3) by simp
  let ?s3 = "s\<lparr>px_cntrs := (px_cntrs s)(u := 0), px_phase := (px_phase s)(u := Publishing ?ts), px_handler := (px_handler s)(u := Some 0)\<rparr>"
  have 3: "pop_reach n ?s3"
    using pop_reach_step [OF 2 pop_step.publish_own [where u = u and ts = ?ts]] assms(3) by simp
  obtain slots where sl: "\<forall>t. t \<noteq> u \<longrightarrow> slots t = px_slots s t" "\<forall>k<3. slots u k = px_local s u k"
    and 4: "pop_reach n (?s3\<lparr>px_slots := slots, px_pub := (px_pub s)(u := Suc (px_pub s u)), px_handler := (px_handler s)(u := None)\<rparr>)"
    using publish_run [OF 3, of u] assms(5) by auto
  have h: "(px_handler s)(u := None) = px_handler s" using assms(3) by (simp add: fun_upd_idem)
  have 5: "pop_reach n (s\<lparr>px_cntrs := (px_cntrs s)(u := 0), px_slots := slots, px_pub := (px_pub s)(u := Suc (px_pub s u)),
      px_phase := (px_phase s)(u := Signalling ?ts 0)\<rparr>)"
    by (rule back_subst [where P = "pop_reach n", OF pop_reach_step [OF 4 pop_step.signal_start [where u = u and ts = ?ts]]])
      (simp_all add: h assms(3))
  show ?thesis
    using signal_run [OF _ 5, of 0 u ?ts] sl assms(3) by (intro exI [of _ slots]) simp
qed

lemma sweep_run:
  assumes "pop_reach n s" and "px_phase s u = Signalling ts n" and "px_handler s u = None"
    and "p \<in> set (px_trash s u)" and "\<forall>t<n. \<forall>k<3. px_slots s t k \<noteq> p"
  shows "\<exists>s'. pop_reach n s' \<and> p \<in> set (px_freed s') \<and> px_loc s' = px_loc s \<and> px_pending s' = px_pending s
     \<and> ((\<forall>j<n. j = u \<or> px_pub s j \<noteq> ts ! j) \<longrightarrow> px_missed s' = px_missed s)"
proof -
  have 1: "pop_reach n (s\<lparr>px_phase := (px_phase s)(u := Checking ts 0 0)\<rparr>)"
    using assms by (intro pop_reach_step [OF assms(1) pop_step.check_start]) simp_all
  obtain a m where m: "(\<forall>j<n. j = u \<or> px_pub s j \<noteq> ts ! j) \<longrightarrow> m = px_missed s"
    and 2: "pop_reach n (s\<lparr>px_phase := (px_phase s)(u := Checking ts n a), px_missed := m\<rparr>)"
    using checking_run [OF _ _ 1, of 0 0 u ts] assms(3) by auto
  have 3: "pop_reach n (s\<lparr>px_missed := m, px_phase := (px_phase s)(u := Scanning ts [])\<rparr>)"
    using pop_reach_step [OF 2 pop_step.scan_start [where u = u and i = n]] assms(3) by simp
  obtain snap where snap: "length snap = n * 3" "\<forall>x\<in>set snap. \<exists>t k. t < n \<and> k < 3 \<and> x = px_slots s t k"
    and 4: "pop_reach n (s\<lparr>px_missed := m, px_phase := (px_phase s)(u := Scanning ts snap)\<rparr>)"
    using scanning_run [OF _ 3, of "[]" u ts] assms(3) by auto
  have "p \<notin> set snap" using snap(2) assms(5) by metis
  then have "p \<in> set (filter (\<lambda>p. p \<notin> set snap) (px_trash s u))" using assms(4) by simp
  moreover obtain kept erased where el: "erase_loop (\<lambda>p. \<not> hp_conflict snap p) (px_trash s u) = (kept, erased)"
    by fastforce
  ultimately have "p \<in> set erased" by (auto simp: erase_loop_eq)
  moreover note pop_reach_step [OF 4 pop_step.sweep [where u = u and snap = snap and kept = kept and erased = erased]]
  ultimately show ?thesis using snap(1) el m assms(3) by fastforce
qed

text \<open>Calls of \<open>retire\<close>, one after the other, that do not scan.\<close>

definition retires :: "nat \<Rightarrow> ptr list \<Rightarrow> pop_sys \<Rightarrow> pop_sys" where
  "retires u ps s = s\<lparr>px_status := (\<lambda>p. if p \<in> set ps then Retired u else px_status s p),
     px_trash := (px_trash s)(u := px_trash s u @ ps),
     px_cntrs := (px_cntrs s)(u := px_cntrs s u + length ps)\<rparr>"

lemma push_run:
  assumes "pop_reach n s" and "px_runs n s u" and "px_status s p = Linked"
  shows "pop_reach n (s\<lparr>px_status := (px_status s)(p := Retired u), px_trash := (px_trash s)(u := px_trash s u @ [p]),
     px_phase := (px_phase s)(u := Pushed)\<rparr>)"
proof -
  have 1: "pop_reach n (s\<lparr>px_status := (px_status s)(p := Unlinked u)\<rparr>)"
    by (rule pop_reach_step [OF assms(1) pop_step.unlink]) (use assms in auto)
  show ?thesis
    using pop_reach_step [OF 1 pop_step.retire [where t = u and p = p]] assms(2) by (simp add: px_runs_def)
qed

lemma retire_run:
  assumes "pop_reach n s" and "px_runs n s u" and "px_status s p = Linked" and "px_cntrs s u \<noteq> pop_empty_freq"
  shows "pop_reach n (retires u [p] s)"
proof -
  let ?s1 = "s\<lparr>px_status := (px_status s)(p := Retired u), px_trash := (px_trash s)(u := px_trash s u @ [p]),
     px_phase := (px_phase s)(u := Pushed)\<rparr>"
  have 1: "pop_reach n ?s1" by (rule push_run [OF assms(1-3)])
  have 2: "pop_reach n (?s1\<lparr>px_phase := (px_phase ?s1)(u := Counting)\<rparr>)"
    by (rule pop_reach_step [OF 1 pop_step.no_scan]) (use assms in \<open>auto simp: px_runs_def\<close>)
  have "(px_phase s)(u := Mutating) = px_phase s" using assms(2) by (auto simp: px_runs_def)
  then show ?thesis
    using pop_reach_step [OF 2 pop_step.count [where u = u]] assms(2)
    by (cases s) (simp add: px_runs_def retires_def fun_upd_def cong: if_cong)
qed

lemma link_run:
  assumes "pop_reach n s" and "px_runs n s u" and "px_status s p = Fresh" and "p \<noteq> NULL" and "hp_realptr p = p"
  shows "pop_reach n (s\<lparr>px_status := (px_status s)(p := Linked)\<rparr>)"
  by (rule pop_reach_step [OF assms(1) pop_step.link]) (use assms in auto)

lemma retires_run:
  assumes "pop_reach n s" and "px_runs n s u" and "distinct ps" and "px_cntrs s u + length ps \<le> pop_empty_freq"
    and "\<forall>p\<in>set ps. px_status s p = Fresh \<and> p \<noteq> NULL \<and> hp_realptr p = p \<or> px_status s p = Linked"
  shows "pop_reach n (retires u ps s)"
  using assms
proof (induction ps arbitrary: s)
  case Nil
  then show ?case by (simp add: retires_def)
next
  case (Cons p ps)
  have 1: "pop_reach n (s\<lparr>px_status := (px_status s)(p := Linked)\<rparr>)"
  proof (cases "px_status s p = Linked")
    case True
    then have "s\<lparr>px_status := (px_status s)(p := Linked)\<rparr> = s" by (simp add: fun_upd_idem)
    then show ?thesis using Cons.prems(1) by simp
  qed (use Cons.prems in \<open>auto intro: link_run\<close>)
  have 2: "pop_reach n (retires u [p] (s\<lparr>px_status := (px_status s)(p := Linked)\<rparr>))"
    by (rule retire_run [OF 1]) (use Cons.prems in \<open>auto simp: px_runs_def\<close>)
  have e: "retires u [p] (s\<lparr>px_status := (px_status s)(p := Linked)\<rparr>) = retires u [p] s"
    by (simp add: retires_def fun_eq_iff cong: if_cong)
  have "pop_reach n (retires u ps (retires u [p] s))"
    by (rule Cons.IH [OF 2 [unfolded e]]) (use Cons.prems in \<open>auto simp: px_runs_def retires_def\<close>)
  moreover have "retires u ps (retires u [p] s) = retires u (p # ps) s"
    by (simp add: retires_def fun_eq_iff cong: if_cong)
  ultimately show ?case by simp
qed

lemma read_run:
  assumes "pop_reach n s" and "px_runs n s t" and "px_loc s t = HpLoc H PNone"
    and "px_status s p = Linked" and "hp_realptr p = p"
  shows "pop_reach n (s\<lparr>px_local := (px_local s)(t := (px_local s t)(0 := p)),
     px_loc := (px_loc s)(t := HpLoc (H(0 := {p})) PNone)\<rparr>)"
proof -
  let ?s = "\<lambda>loc l. s\<lparr>px_local := (px_local s)(t := loc), px_loc := (px_loc s)(t := l)\<rparr>"
  have runs: "px_runs n (?s loc l) t" for loc l using assms(2) by (simp add: px_runs_def)
  have step: "pop_reach n (?s loc' l')"
    if "pop_reach n (?s loc l)" "pop_proto (px_linked s) loc l loc' l'" for loc l loc' l'
    using pop_reach_step [OF that(1) pop_step.proto [OF runs, where loc' = loc' and l' = l']] that(2)
    by (simp add: px_linked_def)
  have "?s (px_local s t) (HpLoc H PNone) = s" using assms(3) by (simp add: fun_upd_idem)
  then have 0: "pop_reach n (?s (px_local s t) (HpLoc H PNone))" using assms(1) by simp
  have 1: "pop_reach n (?s (px_local s t) (HpLoc H (PLoaded 0 p)))"
    by (rule step [OF 0]) (rule pop_proto.load, simp)
  have 2: "pop_reach n (?s ((px_local s t)(0 := p)) (HpLoc (H(0 := {})) (PReserved 0 p)))"
    by (rule step [OF 1]) (use pop_proto.reserve [of 0 _ _ H p] assms(5) in simp)
  have "pop_reach n (?s ((px_local s t)(0 := p)) (HpLoc ((H(0 := {}))(0 := {p})) PNone))"
    by (rule step [OF 2]) (use pop_proto.ok [of p "px_linked s" _ "H(0 := {})" 0] assms(4,5) in \<open>simp add: px_linked_def\<close>)
  then show ?thesis by simp
qed

text \<open>
  Enough objects for the counter: two that were linked before, one of which thread 1 has read, and
  others; thread 0 has retired them all, and one more.
\<close>

lemma nth_obj_ok: "i < 2 ^ 20 \<Longrightarrow> nth_obj i \<noteq> NULL \<and> hp_realptr (nth_obj i) = nth_obj i"
proof -
  assume i: "i < 2 ^ 20"
  have m: "0xfffffffffffffffc = (push_bit 2 (mask 62) :: ptr)" by (simp add: push_bit_eq_mult mask_eq_exp_minus_1)
  have p: "nth_obj i = push_bit 3 (word_of_nat (Suc i))" by (simp add: nth_obj_def push_bit_eq_mult mult.commute)
  have "hp_realptr (nth_obj i) = nth_obj i"
    unfolding hp_realptr_def m p by (rule bit_eqI) (auto simp: bit_simps)
  then show ?thesis using nth_obj_nonnull [OF i] by simp
qed

lemma pinging_run:
  assumes q: "q \<in> {nth_obj 0, nth_obj 1}"
  shows "\<exists>s. pop_reach 2 s \<and> px_phase s = (\<lambda>_. Mutating)(0 := Pushed) \<and> px_handler s = (\<lambda>_. None)
     \<and> px_cntrs s 0 = pop_empty_freq \<and> px_pub s = (\<lambda>_. 0) \<and> px_pending s = {} \<and> px_missed s = 0
     \<and> nth_obj 0 \<in> set (px_trash s 0) \<and> nth_obj 1 \<in> set (px_trash s 0)
     \<and> px_local s = (\<lambda>_ _. NULL)(1 := (\<lambda>_. NULL)(0 := q)) \<and> px_slots s = (\<lambda>_ _. NULL)
     \<and> px_loc s 1 = HpLoc ((\<lambda>_. {})(0 := {q})) PNone"
proof -
  let ?N = pop_empty_freq
  have N: "2 \<le> ?N" "Suc ?N < 2 ^ 20" by (simp_all add: pop_empty_freq_def)
  have inj: "nth_obj i = nth_obj j \<longleftrightarrow> i = j" if "i \<le> ?N" "j \<le> ?N" for i j
    using nth_obj_inj [of i j] that N(2) by simp
  have ok: "nth_obj i \<noteq> NULL" "hp_realptr (nth_obj i) = nth_obj i" if "i \<le> ?N" for i
    using nth_obj_ok [of i] that N(2) by simp_all
  have runs: "px_runs 2 (s\<lparr>px_status := st\<rparr>) t = px_runs 2 s t" "px_runs 2 pop_init t = (t < 2)" for s st t
    by (auto simp: px_runs_def pop_init_def)
  define s1 where "s1 = pop_init\<lparr>px_status := (px_status pop_init)(nth_obj 0 := Linked)\<rparr>"
  define s2 where "s2 = s1\<lparr>px_status := (px_status s1)(nth_obj 1 := Linked)\<rparr>"
  define s3 where "s3 = s2\<lparr>px_local := (px_local s2)(1 := (px_local s2 1)(0 := q)),
     px_loc := (px_loc s2)(1 := HpLoc ((\<lambda>_. {})(0 := {q})) PNone)\<rparr>"
  define ps where "ps = map nth_obj [0..<?N]"
  define s4 where "s4 = retires 0 ps s3"
  define s5 where "s5 = s4\<lparr>px_status := (px_status s4)(nth_obj ?N := Linked)\<rparr>"
  have st2: "px_status s2 p = (if p \<in> {nth_obj 0, nth_obj 1} then Linked else Fresh)" for p
    by (simp add: s2_def s1_def pop_init_def)
  have s1: "pop_reach 2 s1" unfolding s1_def
    by (rule link_run [OF pop_reach_init, of _ 0]) (use ok [of 0] in \<open>simp_all add: runs, simp add: pop_init_def\<close>)
  have s2: "pop_reach 2 s2" unfolding s2_def
    by (rule link_run [OF s1, of 0]) (use ok [of 1] inj [of 1 0] N in \<open>simp_all add: s1_def runs, simp add: pop_init_def\<close>)
  have s3: "pop_reach 2 s3" unfolding s3_def
    by (rule read_run [OF s2]) (use q ok [of 0] ok [of 1] N in \<open>auto simp: st2 s2_def s1_def runs, simp_all add: pop_init_def\<close>)
  have f3: "px_status s3 = px_status s2" "px_cntrs s3 = (\<lambda>_. 0)" "px_trash s3 = (\<lambda>_. [])" "px_handler s3 = (\<lambda>_. None)"
    "px_phase s3 = (\<lambda>_. Mutating)" "px_pub s3 = (\<lambda>_. 0)" "px_pending s3 = {}" "px_missed s3 = 0" "px_slots s3 = (\<lambda>_ _. NULL)"
    "px_local s3 = (\<lambda>_ _. NULL)(1 := (\<lambda>_. NULL)(0 := q))" "px_loc s3 1 = HpLoc ((\<lambda>_. {})(0 := {q})) PNone"
    by (simp_all add: s3_def s2_def s1_def pop_init_def)
  have ps: "distinct ps" "length ps = ?N" "nth_obj ?N \<notin> set ps" "nth_obj 0 \<in> set ps" "nth_obj 1 \<in> set ps"
    using inj N by (auto simp: ps_def distinct_map inj_on_def)
  have s4: "pop_reach 2 s4" unfolding s4_def
    by (rule retires_run [OF s3 _ ps(1)]) (use ok in \<open>auto simp: px_runs_def f3 ps st2, auto simp: ps_def\<close>)
  have s5: "pop_reach 2 s5" unfolding s5_def
    by (rule link_run [OF s4, of 0])
      (use ok [of ?N] inj [of ?N 0] inj [of ?N 1] N ps(3) in \<open>simp_all add: s4_def retires_def px_runs_def f3 st2\<close>)
  have "pop_reach 2 (s5\<lparr>px_status := (px_status s5)(nth_obj ?N := Retired 0), px_trash := (px_trash s5)(0 := px_trash s5 0 @ [nth_obj ?N]),
     px_phase := (px_phase s5)(0 := Pushed)\<rparr>)"
    by (rule push_run [OF s5]) (simp_all add: s5_def s4_def retires_def px_runs_def f3)
  then show ?thesis
    by (rule exI [where P = "\<lambda>s. pop_reach 2 s \<and> _ s", OF conjI])
      (use ps(2,4,5) in \<open>simp add: s5_def s4_def retires_def f3 del: One_nat_def\<close>)
qed

subsection \<open>Properties\<close>

text \<open>
  C18. No object is freed twice, and no object that a thread holds in a validated local slot is freed
  as long as no call of \<open>retire\<close> has found a publication counter unchanged when it looked at the
  counters again (\<open>assert_count\<close> has stayed 0): whatever the delay of the signals up to that
  point, whatever the threads read meanwhile, and with several threads reclaiming at once.
\<close>

theorem pop_safe_reclamation:
  assumes "pop_reach n s"
  shows "distinct (px_freed s) \<and> (px_missed s = 0 \<longrightarrow> (\<forall>t k p. px_holds s t k p \<longrightarrow> p \<notin> set (px_freed s)))"
  using pop_reach_trash [OF assms] pop_reach_inv [OF assms]
  by (auto simp: pop_inv_def pop_local_ok_def pop_trash_ok_def)

theorem pop_safe_reclamation_witness:
  "\<exists>s. pop_reach 2 s \<and> px_missed s = 0 \<and> 8 \<in> set (px_freed s) \<and> px_holds s 1 0 16 \<and> 16 \<notin> set (px_freed s)"
proof -
  obtain s where s: "pop_reach 2 s" "px_phase s = (\<lambda>_. Mutating)(0 := Pushed)" "px_handler s = (\<lambda>_. None)"
    "px_cntrs s 0 = pop_empty_freq" "px_pub s = (\<lambda>_. 0)" "px_pending s = {}" "px_missed s = 0" "8 \<in> set (px_trash s 0)"
    "px_local s = (\<lambda>_ _. NULL)(1 := (\<lambda>_. NULL)(0 := 16))" "px_slots s = (\<lambda>_ _. NULL)"
    "px_loc s 1 = HpLoc ((\<lambda>_. {})(0 := {16})) PNone"
    using pinging_run [of 16] unfolding nth_obj_eq by auto
  obtain sl where sl: "\<forall>t. t \<noteq> 0 \<longrightarrow> sl t = px_slots s t" "\<forall>k<3. sl 0 k = px_local s 0 k"
    and 1: "pop_reach 2 (s\<lparr>px_cntrs := (px_cntrs s)(0 := 0), px_slots := sl, px_pub := (px_pub s)(0 := Suc (px_pub s 0)),
         px_phase := (px_phase s)(0 := Signalling (map (px_pub s) [0..<2]) 2), px_pending := px_pending s \<union> ({0..<2} - {0})\<rparr>)"
    (is "pop_reach 2 ?s1")
    using ping_run [OF s(1), of 0] s by auto
  have 2: "pop_reach 2 (?s1\<lparr>px_pending := px_pending ?s1 - {1}, px_handler := (px_handler ?s1)(1 := Some 0)\<rparr>)"
    (is "pop_reach 2 ?s2")
    by (rule pop_reach_step [OF 1 pop_step.handler_start]) (simp_all add: s)
  obtain sm where sm: "\<forall>t. t \<noteq> 1 \<longrightarrow> sm t = sl t" "\<forall>k<3. sm 1 k = px_local s 1 k"
    and 3: "pop_reach 2 (?s2\<lparr>px_slots := sm, px_pub := (px_pub ?s2)(1 := Suc (px_pub ?s2 1)), px_handler := (px_handler ?s2)(1 := None)\<rparr>)"
    (is "pop_reach 2 ?s3")
    using publish_run [OF 2, of 1] by (auto simp: s)
  have "\<forall>t<2. \<forall>k<3. sm t k \<noteq> 8" using sl sm s(9) by (auto simp: all_less_2)
  then obtain s' where s': "pop_reach 2 s'" "8 \<in> set (px_freed s')" "px_loc s' = px_loc s" "px_missed s' = 0"
    using sweep_run [OF 3, of 0 "map (px_pub s) [0..<2]" 8] s(2-8) by (auto simp: all_less_2)
  then have h: "px_holds s' 1 0 16" by (simp add: px_holds_def s(11) del: One_nat_def)
  show ?thesis using s' h pop_safe_reclamation [OF s'(1)] by blast
qed

text \<open>
  C19. The code does not wait for the publications, and a run of it exists in which a thread has not
  yet taken its signal when the thread that retires looks at its counter again, and an object is
  freed while the first thread holds it in a validated local slot; the signal is still pending. The
  run respects the counter: the thread retires \<open>empty_freq + 1\<close> objects before it scans.
\<close>

theorem pop_code_unsafe:
  "\<exists>s. pop_reach 2 s \<and> 8 \<in> set (px_freed s) \<and> px_holds s 1 0 8 \<and> 1 \<in> px_pending s"
proof -
  obtain s where s: "pop_reach 2 s" "px_phase s = (\<lambda>_. Mutating)(0 := Pushed)" "px_handler s = (\<lambda>_. None)"
    "px_cntrs s 0 = pop_empty_freq" "px_pub s = (\<lambda>_. 0)" "8 \<in> set (px_trash s 0)"
    "px_local s = (\<lambda>_ _. NULL)(1 := (\<lambda>_. NULL)(0 := 8))" "px_slots s = (\<lambda>_ _. NULL)"
    "px_loc s 1 = HpLoc ((\<lambda>_. {})(0 := {8})) PNone"
    using pinging_run [of 8] unfolding nth_obj_eq by auto
  obtain sl where sl: "\<forall>t. t \<noteq> 0 \<longrightarrow> sl t = px_slots s t" "\<forall>k<3. sl 0 k = px_local s 0 k"
    and 1: "pop_reach 2 (s\<lparr>px_cntrs := (px_cntrs s)(0 := 0), px_slots := sl, px_pub := (px_pub s)(0 := Suc (px_pub s 0)),
         px_phase := (px_phase s)(0 := Signalling (map (px_pub s) [0..<2]) 2), px_pending := px_pending s \<union> ({0..<2} - {0})\<rparr>)"
    (is "pop_reach 2 ?s1")
    using ping_run [OF s(1), of 0] s by auto
  have "\<forall>t<2. \<forall>k<3. sl t k \<noteq> 8" using sl s(7,8) by (auto simp: all_less_2)
  then obtain s' where "pop_reach 2 s'" "8 \<in> set (px_freed s')" "px_loc s' = px_loc s" "px_pending s' = px_pending ?s1"
    using sweep_run [OF 1, of 0 "map (px_pub s) [0..<2]" 8] s(2-6) by auto
  then show ?thesis by (intro exI [of _ s']) (simp add: px_holds_def s(9) del: One_nat_def)
qed

end
