(* ===== verification/PopHp.thy ===== *)
theory PopHp
  imports Pop_System
begin

text \<open>
  Hazard pointers that are published on ping, \<open>common/recordmgr/reclaimer_ibr_pophp.h\<close>: the
  class, its signal handler (\<open>trcrashhandler\<close> in \<open>recovery_manager.h\<close>), and what
  \<open>retire\<close> does. \<open>pthread_kill\<close> is the argument \<open>kill\<close> (does the call
  succeed), and a signal that was sent is pending until its thread runs the handler.
\<close>

subsection \<open>The class and its operations\<close>

record pop_thread =
  pt_bagCapacityThreshold :: nat
  pt_sigallattempts :: nat
  pt_local_slots :: "ptr list"
  pt_mypublishingTS :: nat
  pt_myscannedTS :: "nat list"

record pophp =
  ph_num_process :: nat
  ph_empty_freq :: nat
  ph_slotsPerThread :: nat
  ph_slots :: "ptr list"
  ph_cntrs :: "nat list"
  ph_retired :: "ptr list list"
  ph_thread :: "pop_thread list"
  ph_pending :: "nat set"
  ph_pool :: allocator

definition pophp_new :: "nat \<Rightarrow> allocator \<Rightarrow> pophp" where
  "pophp_new numProcesses pool =
     \<lparr>ph_num_process = numProcesses, ph_empty_freq = 32768, ph_slotsPerThread = 3,
      ph_slots = replicate (numProcesses * 3) NULL,
      ph_cntrs = replicate numProcesses 0,
      ph_retired = replicate numProcesses [],
      ph_thread = replicate numProcesses \<lparr>pt_bagCapacityThreshold = 0, pt_sigallattempts = 0,
         pt_local_slots = replicate 3 NULL, pt_mypublishingTS = 0, pt_myscannedTS = []\<rparr>,
      ph_pending = {}, ph_pool = pool\<rparr>"

definition pophp_initThread :: "nat \<Rightarrow> pophp \<Rightarrow> pophp" where
  "pophp_initThread tid s =
     s\<lparr>ph_thread := (ph_thread s)[tid :=
        (ph_thread s ! tid)\<lparr>pt_bagCapacityThreshold := ph_empty_freq s,
           pt_local_slots := replicate 3 NULL, pt_sigallattempts := 0,
           pt_mypublishingTS := 0, pt_myscannedTS := replicate (ph_num_process s * 16) 0\<rparr>]\<rparr>"

definition pophp_start :: "nat \<Rightarrow> allocator \<Rightarrow> pophp" where
  "pophp_start n pool = fold pophp_initThread [0..<n] (pophp_new n pool)"

definition pophp_set_local :: "nat \<Rightarrow> nat \<Rightarrow> ptr \<Rightarrow> pophp \<Rightarrow> pophp" where
  "pophp_set_local tid slot p s =
     s\<lparr>ph_thread := (ph_thread s)[tid := (ph_thread s ! tid)\<lparr>pt_local_slots := (pt_local_slots (ph_thread s ! tid))[slot := p]\<rparr>]\<rparr>"

definition pophp_endOp :: "nat \<Rightarrow> pophp \<Rightarrow> pophp" where
  "pophp_endOp tid s = fold (\<lambda>i. pophp_set_local tid i NULL) [0..<ph_slotsPerThread s] s"

definition pophp_reserve :: "ptr \<Rightarrow> nat \<Rightarrow> nat \<Rightarrow> pophp \<Rightarrow> pophp" where
  "pophp_reserve p slot tid s = pophp_set_local tid slot p s"

fun pophp_read :: "nat \<Rightarrow> nat \<Rightarrow> (ptr \<times> ptr) list \<Rightarrow> pophp \<Rightarrow> (ptr \<times> pophp) option" where
  "pophp_read tid idx [] s = None"
| "pophp_read tid idx ((ret, again) # loads) s =
     (let s1 = pophp_reserve (hp_realptr ret) idx tid s
      in if ret = again then Some (ret, s1) else pophp_read tid idx loads s1)"

definition pophp_publishReservations :: "nat \<Rightarrow> pophp \<Rightarrow> pophp" where
  "pophp_publishReservations tid s =
     (let s1 = fold (\<lambda>i s. s\<lparr>ph_slots := (ph_slots s)[tid * ph_slotsPerThread s + i := pt_local_slots (ph_thread s ! tid) ! i]\<rparr>)
           [0..<ph_slotsPerThread s] s
      in s1\<lparr>ph_thread := (ph_thread s1)[tid := (ph_thread s1 ! tid)\<lparr>pt_mypublishingTS :=
           (pt_mypublishingTS (ph_thread s1 ! tid) + 1) mod 2 ^ 32\<rparr>]\<rparr>)"

text \<open>The handler of the signal, when it reaches the thread.\<close>

definition pophp_handler :: "nat \<Rightarrow> pophp \<Rightarrow> pophp" where
  "pophp_handler tid s =
     (if tid \<in> ph_pending s then pophp_publishReservations tid (s\<lparr>ph_pending := ph_pending s - {tid}\<rparr>) else s)"

fun pophp_signal_loop :: "(nat \<Rightarrow> bool) \<Rightarrow> nat \<Rightarrow> nat list \<Rightarrow> pophp \<Rightarrow> bool \<times> pophp" where
  "pophp_signal_loop kill tid [] s = (True, s)"
| "pophp_signal_loop kill tid (otherTid # rest) s =
     (if tid \<noteq> otherTid then
        if \<not> kill otherTid then (False, s)
        else pophp_signal_loop kill tid rest (s\<lparr>ph_pending := insert otherTid (ph_pending s)\<rparr>)
      else pophp_signal_loop kill tid rest s)"

definition pophp_requestAllThreadsToRestart :: "(nat \<Rightarrow> bool) \<Rightarrow> nat \<Rightarrow> pophp \<Rightarrow> bool \<times> pophp" where
  "pophp_requestAllThreadsToRestart kill tid s =
     pophp_signal_loop kill tid [0..<ph_num_process s] (pophp_publishReservations tid s)"

text \<open>\<open>empty\<close> looks for the object among the published slots.\<close>

definition pophp_empty :: "nat \<Rightarrow> pophp \<Rightarrow> pophp" where
  "pophp_empty tid s =
     (let temp_local_slots = map (\<lambda>i. ph_slots s ! i) [0..<ph_num_process s * ph_slotsPerThread s];
          (kept, erased) = erase_loop (\<lambda>p. \<not> hp_conflict temp_local_slots p) (ph_retired s ! tid)
      in s\<lparr>ph_retired := (ph_retired s)[tid := kept],
           ph_pool := pool_add_all tid erased (ph_pool s)\<rparr>)"

definition pophp_push :: "nat \<Rightarrow> ptr \<Rightarrow> pophp \<Rightarrow> pophp" where
  "pophp_push tid obj s = s\<lparr>ph_retired := (ph_retired s)[tid := ph_retired s ! tid @ [obj]]\<rparr>"

definition pophp_set_cntr :: "nat \<Rightarrow> nat \<Rightarrow> pophp \<Rightarrow> pophp" where
  "pophp_set_cntr tid c s = s\<lparr>ph_cntrs := (ph_cntrs s)[tid := c]\<rparr>"

definition pophp_note_publishing :: "nat \<Rightarrow> pophp \<Rightarrow> pophp" where
  "pophp_note_publishing tid s =
     s\<lparr>ph_thread := (ph_thread s)[tid := (ph_thread s ! tid)\<lparr>pt_myscannedTS :=
        map (\<lambda>i. pt_mypublishingTS (ph_thread s ! i)) [0..<ph_num_process s]
          @ drop (ph_num_process s) (pt_myscannedTS (ph_thread s ! tid))\<rparr>]\<rparr>"

text \<open>
  The loop after the signals. It changes nothing but \<open>assert_count\<close>, which is its result; the
  second component says whether every assertion of the loop held.
\<close>

fun pophp_wait_loop :: "nat \<Rightarrow> pophp \<Rightarrow> nat list \<Rightarrow> nat \<Rightarrow> nat \<times> bool" where
  "pophp_wait_loop tid s [] assert_count = (assert_count, True)"
| "pophp_wait_loop tid s (i # is) assert_count =
     (if tid \<noteq> i \<and> pt_myscannedTS (ph_thread s ! tid) ! i = pt_mypublishingTS (ph_thread s ! i)
      then (if assert_count + 1 < 3 * ph_num_process s then pophp_wait_loop tid s is (assert_count + 1)
            else (assert_count + 1, False))
      else pophp_wait_loop tid s is assert_count)"

text \<open>\<open>retire\<close>; \<open>None\<close> when an assertion fails.\<close>

definition pophp_retire :: "(nat \<Rightarrow> bool) \<Rightarrow> nat \<Rightarrow> ptr \<Rightarrow> pophp \<Rightarrow> pophp option" where
  "pophp_retire kill tid obj s =
     (if obj = NULL then Some s
      else let s1 = pophp_push tid obj s in
        case (if ph_cntrs s1 ! tid = ph_empty_freq s1
              then let s2 = pophp_note_publishing tid (pophp_set_cntr tid 0 s1);
                       (sent, s3) = pophp_requestAllThreadsToRestart kill tid s2
                   in if sent
                      then if snd (pophp_wait_loop tid s3 [0..<ph_num_process s3] 0)
                           then Some (pophp_empty tid s3) else None
                      else Some s3
              else Some s1)
        of None \<Rightarrow> None | Some s4 \<Rightarrow> Some (pophp_set_cntr tid (ph_cntrs s4 ! tid + 1) s4))"

fun pophp_exec :: "(nat \<Rightarrow> bool) \<Rightarrow> smr_op \<Rightarrow> pophp \<Rightarrow> pophp" where
  "pophp_exec kill (StartOp tid) s = s"
| "pophp_exec kill (EndOp tid) s = pophp_endOp tid s"
| "pophp_exec kill (ReadOp tid idx p) s =
     (case pophp_read tid idx [(p, p)] s of Some (_, s') \<Rightarrow> s' | None \<Rightarrow> s)"
| "pophp_exec kill (AllocOp tid) s = s"
| "pophp_exec kill (SignalOp tid) s = pophp_handler tid s"
| "pophp_exec kill (RetireOp tid p) s =
     (case pophp_retire kill tid p s of Some s' \<Rightarrow> s' | None \<Rightarrow> s)"

subsection \<open>Well-formed states\<close>

definition pophp_wf :: "pophp \<Rightarrow> bool" where
  "pophp_wf s \<longleftrightarrow> ph_slotsPerThread s = 3 \<and> length (ph_slots s) = ph_num_process s * 3
     \<and> length (ph_cntrs s) = ph_num_process s \<and> length (ph_retired s) = ph_num_process s
     \<and> length (ph_thread s) = ph_num_process s
     \<and> (\<forall>th\<in>set (ph_thread s). length (pt_local_slots th) = 3)"

definition pophp_limbo :: "pophp \<Rightarrow> ptr multiset" where
  "pophp_limbo s = all_entries (ph_retired s)"

text \<open>What the operations on slots, counters and signals leave alone.\<close>

definition pophp_same :: "pophp \<Rightarrow> pophp \<Rightarrow> bool" where
  "pophp_same s s' \<longleftrightarrow> ph_num_process s' = ph_num_process s \<and> ph_retired s' = ph_retired s
     \<and> ph_pool s' = ph_pool s \<and> ph_empty_freq s' = ph_empty_freq s
     \<and> ph_slotsPerThread s' = ph_slotsPerThread s \<and> (pophp_wf s \<longrightarrow> pophp_wf s')"

lemma pophp_same_refl [simp]: "pophp_same s s"
  by (simp add: pophp_same_def)

lemma pophp_same_trans: "pophp_same s s' \<Longrightarrow> pophp_same s' s'' \<Longrightarrow> pophp_same s s''"
  by (simp add: pophp_same_def)

lemma pophp_wf_thread:
  assumes "pophp_wf s" and "length (pt_local_slots th) = 3"
  shows "pophp_wf (s\<lparr>ph_thread := (ph_thread s)[tid := th]\<rparr>)"
  using assms by (auto simp: pophp_wf_def dest!: set_update_subset_insert [THEN subsetD])

lemma pophp_local_length: "pophp_wf s \<Longrightarrow> tid < ph_num_process s \<Longrightarrow> length (pt_local_slots (ph_thread s ! tid)) = 3"
  by (simp add: pophp_wf_def)

lemma pophp_same_thread:
  assumes "pophp_wf s \<Longrightarrow> length (pt_local_slots th) = 3"
  shows "pophp_same s (s\<lparr>ph_thread := (ph_thread s)[tid := th]\<rparr>)"
  using assms pophp_wf_thread by (simp add: pophp_same_def)

lemma pophp_set_local_same: "tid < ph_num_process s \<Longrightarrow> pophp_same s (pophp_set_local tid i p s)"
  unfolding pophp_set_local_def by (rule pophp_same_thread) (simp add: pophp_local_length)

lemma pophp_endOp_same:
  assumes "tid < ph_num_process s"
  shows "pophp_same s (pophp_endOp tid s)"
proof -
  have "pophp_same s (fold (\<lambda>i. pophp_set_local tid i NULL) is s)" if "tid < ph_num_process s" for "is" s
    using that
  proof (induction "is" arbitrary: s)
    case (Cons i "is")
    have "pophp_same s (pophp_set_local tid i NULL s)" using Cons.prems by (rule pophp_set_local_same)
    moreover from this have "tid < ph_num_process (pophp_set_local tid i NULL s)"
      using Cons.prems by (simp add: pophp_same_def)
    ultimately show ?case using Cons.IH pophp_same_trans by fastforce
  qed simp
  with assms show ?thesis by (simp add: pophp_endOp_def)
qed

lemma pophp_publish_eq:
  assumes "pophp_wf s"
  shows "pophp_publishReservations tid s = s\<lparr>
     ph_slots := (ph_slots s)[3 * tid := pt_local_slots (ph_thread s ! tid) ! 0,
        3 * tid + 1 := pt_local_slots (ph_thread s ! tid) ! 1, 3 * tid + 2 := pt_local_slots (ph_thread s ! tid) ! 2],
     ph_thread := (ph_thread s)[tid := (ph_thread s ! tid)\<lparr>pt_mypublishingTS :=
        (pt_mypublishingTS (ph_thread s ! tid) + 1) mod 2 ^ 32\<rparr>]\<rparr>"
  using assms by (simp add: pophp_publishReservations_def pophp_wf_def upt_3 Let_def mult.commute)

lemma pophp_publish_same:
  assumes "pophp_wf s" and "tid < ph_num_process s"
  shows "pophp_same s (pophp_publishReservations tid s)"
proof -
  have "pophp_wf (s\<lparr>ph_slots := sl\<rparr>)" if "length sl = length (ph_slots s)" for sl
    using assms that by (simp add: pophp_wf_def)
  from pophp_wf_thread [OF this, of "(ph_slots s)[3 * tid := pt_local_slots (ph_thread s ! tid) ! 0,
        3 * tid + 1 := pt_local_slots (ph_thread s ! tid) ! 1, 3 * tid + 2 := pt_local_slots (ph_thread s ! tid) ! 2]"
      "(ph_thread s ! tid)\<lparr>pt_mypublishingTS := (pt_mypublishingTS (ph_thread s ! tid) + 1) mod 2 ^ 32\<rparr>" tid]
  show ?thesis
    using assms pophp_local_length [OF assms] by (simp add: pophp_same_def pophp_publish_eq)
qed

lemma pophp_pending_same [simp]:
  "pophp_same s (s\<lparr>ph_pending := P\<rparr>)" "pophp_wf (s\<lparr>ph_pending := P\<rparr>) = pophp_wf s"
  by (simp_all add: pophp_same_def pophp_wf_def)

lemma pophp_handler_same:
  "pophp_wf s \<Longrightarrow> tid < ph_num_process s \<Longrightarrow> pophp_same s (pophp_handler tid s)"
  using pophp_same_trans [OF pophp_pending_same(1) pophp_publish_same] by (simp add: pophp_handler_def)

lemma pophp_signal_loop_eq:
  "\<exists>b P. pophp_signal_loop kill tid os s = (b, s\<lparr>ph_pending := ph_pending s \<union> P\<rparr>)
     \<and> ((\<forall>t\<in>set os. kill t) \<longrightarrow> b \<and> P = set os - {tid})"
proof (induction os arbitrary: s)
  case Nil
  then show ?case by (intro exI [of _ True] exI [of _ "{}"]) simp
next
  case (Cons t os)
  show ?case
  proof (cases "t = tid")
    case True
    then show ?thesis using Cons.IH [of s] by auto
  next
    case False
    show ?thesis
    proof (cases "kill t")
      case True
      obtain b P where "pophp_signal_loop kill tid os (s\<lparr>ph_pending := insert t (ph_pending s)\<rparr>)
          = (b, s\<lparr>ph_pending := insert t (ph_pending s) \<union> P\<rparr>)"
        and "(\<forall>t\<in>set os. kill t) \<longrightarrow> b \<and> P = set os - {tid}"
        using Cons.IH [of "s\<lparr>ph_pending := insert t (ph_pending s)\<rparr>"] by auto
      then show ?thesis using False True
        by (intro exI [of _ b] exI [of _ "insert t P"]) auto
    next
      case nk: False
      then show ?thesis using False by (intro exI [of _ False] exI [of _ "{}"]) simp
    qed
  qed
qed

lemma pophp_wait_loop_ok:
  "assert_count + length is < 3 * ph_num_process s \<Longrightarrow>
     snd (pophp_wait_loop tid s is assert_count)
       \<and> fst (pophp_wait_loop tid s is assert_count) \<le> assert_count + length is"
proof (induction "is" arbitrary: assert_count)
  case (Cons i "is")
  from Cons.IH [of assert_count] Cons.IH [of "Suc assert_count"] Cons.prems show ?case by auto
qed simp

lemma pophp_cntr_same [simp]:
  "pophp_wf (pophp_set_cntr tid c s) = pophp_wf s" "ph_pool (pophp_set_cntr tid c s) = ph_pool s"
  "ph_retired (pophp_set_cntr tid c s) = ph_retired s" "ph_num_process (pophp_set_cntr tid c s) = ph_num_process s"
  "ph_slots (pophp_set_cntr tid c s) = ph_slots s" "ph_thread (pophp_set_cntr tid c s) = ph_thread s"
  "ph_slotsPerThread (pophp_set_cntr tid c s) = ph_slotsPerThread s" "pophp_limbo (pophp_set_cntr tid c s) = pophp_limbo s"
  "ph_pending (pophp_set_cntr tid c s) = ph_pending s"
  by (simp_all add: pophp_set_cntr_def pophp_wf_def pophp_limbo_def)

lemma pophp_push_same [simp]:
  "pophp_wf (pophp_push tid p s) = pophp_wf s" "ph_pool (pophp_push tid p s) = ph_pool s"
  "ph_num_process (pophp_push tid p s) = ph_num_process s" "ph_cntrs (pophp_push tid p s) = ph_cntrs s"
  "ph_slots (pophp_push tid p s) = ph_slots s" "ph_thread (pophp_push tid p s) = ph_thread s"
  "ph_slotsPerThread (pophp_push tid p s) = ph_slotsPerThread s" "ph_empty_freq (pophp_push tid p s) = ph_empty_freq s"
  "ph_pending (pophp_push tid p s) = ph_pending s"
  by (simp_all add: pophp_push_def pophp_wf_def)

lemma pophp_note_same:
  "pophp_wf s \<Longrightarrow> tid < ph_num_process s \<Longrightarrow> pophp_same s (pophp_note_publishing tid s)"
  unfolding pophp_note_publishing_def by (rule pophp_same_thread) (simp add: pophp_local_length)

lemma pophp_empty_eq:
  assumes "pophp_wf s"
  shows "pophp_empty tid s =
     s\<lparr>ph_retired := (ph_retired s)[tid := filter (\<lambda>p. p \<in> set (ph_slots s)) (ph_retired s ! tid)],
       ph_pool := pool_add_all tid (filter (\<lambda>p. p \<notin> set (ph_slots s)) (ph_retired s ! tid)) (ph_pool s)\<rparr>"
proof -
  have "map (\<lambda>i. ph_slots s ! i) [0..<ph_num_process s * ph_slotsPerThread s] = ph_slots s"
    using assms map_nth [of "ph_slots s"] by (simp add: pophp_wf_def)
  then show ?thesis by (simp add: pophp_empty_def erase_loop_eq Let_def)
qed

text \<open>What \<open>retire\<close> does before its last line.\<close>

lemma pophp_request:
  assumes wf: "pophp_wf s"
  shows "\<exists>b P. pophp_requestAllThreadsToRestart kill tid s
      = (b, (pophp_publishReservations tid s)\<lparr>ph_pending := ph_pending s \<union> P\<rparr>)
    \<and> ((\<forall>t<ph_num_process s. kill t) \<longrightarrow> b \<and> P = {0..<ph_num_process s} - {tid})"
proof -
  have pe: "ph_pending (pophp_publishReservations tid s) = ph_pending s"
    using wf by (simp add: pophp_publish_eq)
  obtain b P where "pophp_signal_loop kill tid [0..<ph_num_process s] (pophp_publishReservations tid s)
      = (b, (pophp_publishReservations tid s)\<lparr>ph_pending := ph_pending (pophp_publishReservations tid s) \<union> P\<rparr>)"
    and "(\<forall>t\<in>{0..<ph_num_process s}. kill t) \<longrightarrow> b \<and> P = {0..<ph_num_process s} - {tid}"
    using pophp_signal_loop_eq [of kill tid "[0..<ph_num_process s]" "pophp_publishReservations tid s"] by auto
  then show ?thesis
    unfolding pophp_requestAllThreadsToRestart_def pe by (intro exI [of _ b] exI [of _ P]) simp
qed

lemma pophp_retire_steps:
  assumes wf: "pophp_wf s" and tid: "tid < ph_num_process s" and p: "p \<noteq> NULL"
  shows "\<exists>s3 s4. pophp_retire kill tid p s = Some (pophp_set_cntr tid (ph_cntrs s4 ! tid + 1) s4)
     \<and> pophp_same (pophp_push tid p s) s3 \<and> (s4 = s3 \<or> s4 = pophp_empty tid s3)
     \<and> (ph_cntrs s ! tid = ph_empty_freq s \<longrightarrow> (\<forall>t<ph_num_process s. kill t) \<longrightarrow>
          s4 = pophp_empty tid s3 \<and> ph_slots s3 = ph_slots (pophp_publishReservations tid s)
          \<and> ph_pending s3 = ph_pending s \<union> ({0..<ph_num_process s} - {tid}))"
proof (cases "ph_cntrs s ! tid = ph_empty_freq s")
  case False
  with p show ?thesis
    by (intro exI [of _ "pophp_push tid p s"]) (simp add: pophp_retire_def Let_def)
next
  case True
  let ?s1 = "pophp_push tid p s"
  let ?s1' = "pophp_set_cntr tid 0 ?s1"
  let ?s2 = "pophp_note_publishing tid ?s1'"
  have 1: "pophp_same ?s1 ?s1'" by (simp add: pophp_same_def) (simp add: pophp_set_cntr_def)
  have wf1: "pophp_wf ?s1'" using wf by simp
  have 2: "pophp_same ?s1' ?s2" using wf1 tid by (intro pophp_note_same) simp_all
  have wf2: "pophp_wf ?s2" and n2: "ph_num_process ?s2 = ph_num_process s" using 2 wf1 by (simp_all add: pophp_same_def)
  have 3: "pophp_same ?s2 (pophp_publishReservations tid ?s2)"
    using pophp_publish_same [OF wf2, of tid] tid n2 by simp
  have pe2: "ph_pending ?s2 = ph_pending s" by (simp add: pophp_note_publishing_def)
  obtain b P where req: "pophp_requestAllThreadsToRestart kill tid ?s2
      = (b, (pophp_publishReservations tid ?s2)\<lparr>ph_pending := ph_pending s \<union> P\<rparr>)" (is "_ = (b, ?s3)")
    and ok: "(\<forall>t<ph_num_process s. kill t) \<longrightarrow> b \<and> P = {0..<ph_num_process s} - {tid}"
    using pophp_request [OF wf2, of kill tid] unfolding n2 pe2 by blast
  have same: "pophp_same ?s1 ?s3"
    using pophp_same_trans [OF pophp_same_trans [OF 1 2] pophp_same_trans [OF 3 pophp_pending_same(1)]] .
  have n3: "ph_num_process ?s3 = ph_num_process s" using same by (simp add: pophp_same_def)
  have wait: "snd (pophp_wait_loop tid ?s3 [0..<ph_num_process ?s3] 0)"
    using pophp_wait_loop_ok [of 0 "[0..<ph_num_process ?s3]" ?s3 tid] n3 tid by simp
  have slots: "ph_slots ?s3 = ph_slots (pophp_publishReservations tid s)"
    using wf wf2 tid by (simp add: pophp_publish_eq) (simp add: pophp_note_publishing_def pophp_wf_def)
  let ?s4 = "if b then pophp_empty tid ?s3 else ?s3"
  have ret: "pophp_retire kill tid p s = Some (pophp_set_cntr tid (ph_cntrs ?s4 ! tid + 1) ?s4)"
    using p True req wait by (simp add: pophp_retire_def Let_def)
  show ?thesis
    by (rule exI [of _ ?s3], rule exI [of _ ?s4]) (use ret same slots ok in auto)
qed

lemma pophp_account_empty:
  assumes "pophp_wf s" and "tid < ph_num_process s"
  shows "pophp_limbo (pophp_empty tid s) + mset (al_freed (ph_pool (pophp_empty tid s)))
       = pophp_limbo s + mset (al_freed (ph_pool s))"
  using assms sweep_account [of tid "ph_retired s" id "\<lambda>p. p \<notin> set (ph_slots s)"]
  by (simp add: pophp_empty_eq pophp_limbo_def pophp_wf_def add.left_commute add.commute)

lemma pophp_account_push:
  "pophp_wf s \<Longrightarrow> tid < ph_num_process s \<Longrightarrow> pophp_limbo (pophp_push tid p s) = pophp_limbo s + {#p#}"
  using push_account [of tid "ph_retired s" id p] by (simp add: pophp_push_def pophp_limbo_def pophp_wf_def)

definition pophp_ok :: "pophp \<Rightarrow> pophp \<Rightarrow> ptr list \<Rightarrow> bool" where
  "pophp_ok s s' ps \<longleftrightarrow> pophp_wf s' \<and> ph_num_process s' = ph_num_process s
    \<and> (\<exists>fs. al_freed (ph_pool s') = al_freed (ph_pool s) @ fs)
    \<and> pophp_limbo s' + mset (al_freed (ph_pool s')) = pophp_limbo s + mset (al_freed (ph_pool s)) + mset ps"

lemma pophp_same_ok: "pophp_wf s \<Longrightarrow> pophp_same s s' \<Longrightarrow> pophp_ok s s' []"
  by (simp add: pophp_same_def pophp_ok_def pophp_limbo_def)

lemma pophp_retire_ok:
  assumes wf: "pophp_wf s" and tid: "tid < ph_num_process s" and p: "p \<noteq> NULL"
  shows "\<exists>s'. pophp_retire kill tid p s = Some s' \<and> pophp_ok s s' [p]"
proof -
  obtain s3 s4 where ret: "pophp_retire kill tid p s = Some (pophp_set_cntr tid (ph_cntrs s4 ! tid + 1) s4)"
    and same: "pophp_same (pophp_push tid p s) s3" and s4: "s4 = s3 \<or> s4 = pophp_empty tid s3"
    using pophp_retire_steps [OF assms, of kill] by blast
  have wf3: "pophp_wf s3" and n3: "ph_num_process s3 = ph_num_process s" and pool3: "ph_pool s3 = ph_pool s"
    and lim3: "pophp_limbo s3 = pophp_limbo s + {#p#}"
    using same wf pophp_account_push [OF wf tid, of p] by (simp_all add: pophp_same_def pophp_limbo_def)
  have "pophp_ok s s4 [p]"
    using s4
  proof
    assume "s4 = s3"
    then show ?thesis using wf3 n3 pool3 lim3 by (simp add: pophp_ok_def)
  next
    assume e: "s4 = pophp_empty tid s3"
    have "pophp_wf s4" using wf3 e by (simp add: pophp_empty_eq) (simp add: pophp_wf_def)
    then show ?thesis
      using pophp_account_empty [OF wf3, of tid] n3 tid pool3 lim3 wf3 unfolding e pophp_ok_def
      by (simp add: pophp_empty_eq)
  qed
  then show ?thesis using ret by (auto simp: pophp_ok_def)
qed

lemma pophp_exec_ok:
  assumes wf: "pophp_wf s" and ok: "op_ok (ph_num_process s) op"
  shows "pophp_ok s (pophp_exec kill op s) (retired_by op)"
proof (cases op)
  case (RetireOp t p)
  show ?thesis
  proof (cases "p = NULL")
    case True
    then show ?thesis using RetireOp wf pophp_same_ok [OF wf pophp_same_refl] by (simp add: pophp_retire_def)
  next
    case False
    with pophp_retire_ok [OF wf _ False, of t kill] RetireOp ok show ?thesis by auto
  qed
next
  case (EndOp t)
  then show ?thesis using pophp_same_ok [OF wf pophp_endOp_same] ok by simp
next
  case (ReadOp t i p)
  then show ?thesis using pophp_same_ok [OF wf pophp_set_local_same] ok by (simp add: Let_def pophp_reserve_def)
next
  case (SignalOp t)
  then show ?thesis using pophp_same_ok [OF wf pophp_handler_same] wf ok by simp
qed (use pophp_same_ok [OF wf pophp_same_refl] in simp_all)

interpretation pophp: reclaimer "pophp_exec kill" pophp_wf ph_num_process pophp_limbo "\<lambda>s. al_freed (ph_pool s)"
  for kill
  by unfold_locales (use pophp_exec_ok in \<open>auto simp: pophp_ok_def\<close>)


lemma pophp_wf_start:
  "pophp_wf (pophp_start n pool) \<and> ph_num_process (pophp_start n pool) = n
     \<and> ph_retired (pophp_start n pool) = replicate n [] \<and> ph_pool (pophp_start n pool) = pool"
proof -
  have "pophp_same s (pophp_initThread t s)" for t s
    unfolding pophp_initThread_def by (rule pophp_same_thread) simp
  then have "pophp_same s (fold pophp_initThread ts s)" for ts s
    by (induction ts arbitrary: s) (auto intro: pophp_same_trans)
  then have "pophp_same (pophp_new n pool) (pophp_start n pool)" by (simp add: pophp_start_def)
  moreover have "pophp_wf (pophp_new n pool)" by (simp add: pophp_wf_def pophp_new_def)
  ultimately show ?thesis by (simp add: pophp_same_def) (simp add: pophp_new_def)
qed

subsection \<open>Properties\<close>

text \<open>
  For every sequence of calls and signal deliveries, whichever \<open>pthread_kill\<close> calls
  fail, the retired objects are exactly those in limbo together with those given to the pool.
\<close>

lemma pophp_accounting:
  assumes "legal_ops n ops"
  shows "pophp_limbo (fold (pophp_exec kill) ops (pophp_start n alloc_init))
       + mset (al_freed (ph_pool (fold (pophp_exec kill) ops (pophp_start n alloc_init)))) = mset (retired_in ops)"
  using pophp.run_accounting [of "pophp_start n alloc_init" ops kill] pophp_wf_start [of n alloc_init] assms
  by (simp add: pophp_limbo_def alloc_init_def)

lemma pophp_accounting_witness:
  "pophp_limbo (fold (pophp_exec (\<lambda>_. True)) [ReadOp 1 2 8, RetireOp 0 8, SignalOp 1] (pophp_start 2 alloc_init))
     + mset (al_freed (ph_pool (fold (pophp_exec (\<lambda>_. True)) [ReadOp 1 2 8, RetireOp 0 8, SignalOp 1] (pophp_start 2 alloc_init))))
   = {#8#}"
  using pophp_accounting [of 2 "[ReadOp 1 2 8, RetireOp 0 8, SignalOp 1]" "\<lambda>_. True"] by simp

lemma pophp_retire_full:
  assumes wf: "pophp_wf s" and tid: "tid < ph_num_process s" and p: "p \<noteq> NULL"
    and full: "ph_cntrs s ! tid = ph_empty_freq s" and kill: "\<forall>t<ph_num_process s. kill t"
  shows "\<exists>s'. pophp_retire kill tid p s = Some s'
     \<and> al_freed (ph_pool s') = al_freed (ph_pool s)
         @ filter (\<lambda>q. q \<notin> set (ph_slots (pophp_publishReservations tid s))) (ph_retired s ! tid @ [p])
     \<and> ph_pending s' = ph_pending s \<union> ({0..<ph_num_process s} - {tid})"
proof -
  obtain s3 s4 where st: "pophp_retire kill tid p s = Some (pophp_set_cntr tid (ph_cntrs s4 ! tid + 1) s4)"
    and same: "pophp_same (pophp_push tid p s) s3"
    and f: "ph_cntrs s ! tid = ph_empty_freq s \<longrightarrow> (\<forall>t<ph_num_process s. kill t) \<longrightarrow>
          s4 = pophp_empty tid s3 \<and> ph_slots s3 = ph_slots (pophp_publishReservations tid s)
          \<and> ph_pending s3 = ph_pending s \<union> ({0..<ph_num_process s} - {tid})"
    using pophp_retire_steps [OF wf tid p, of kill] by blast
  have s4: "s4 = pophp_empty tid s3" and sl: "ph_slots s3 = ph_slots (pophp_publishReservations tid s)"
    and pe: "ph_pending s3 = ph_pending s \<union> ({0..<ph_num_process s} - {tid})"
    using f full kill by blast+
  note ret = st [unfolded s4]
  have wf3: "pophp_wf s3" and r3: "ph_retired s3 ! tid = ph_retired s ! tid @ [p]" and "ph_pool s3 = ph_pool s"
    using same wf tid by (simp_all add: pophp_same_def) (simp add: pophp_push_def pophp_wf_def)
  then show ?thesis using ret sl pe by (simp add: pophp_empty_eq)
qed

text \<open>
  When the list of a thread is full and the signals could be sent, \<open>retire\<close> frees every
  object of it that no published slot names, at once: the signals it has just sent are all still
  pending, and the counters it compares decide nothing.
\<close>

lemma pophp_retire_does_not_wait:
  assumes "pophp_wf s" and "tid < ph_num_process s" and "p \<noteq> NULL"
    and "ph_cntrs s ! tid = ph_empty_freq s" and "\<forall>t<ph_num_process s. kill t"
  shows "\<exists>s'. pophp_retire kill tid p s = Some s'
     \<and> al_freed (ph_pool s') = al_freed (ph_pool s)
         @ filter (\<lambda>q. q \<notin> set (ph_slots (pophp_publishReservations tid s))) (ph_retired s ! tid @ [p])
     \<and> {0..<ph_num_process s} - {tid} \<subseteq> ph_pending s'"
  using pophp_retire_full [OF assms] by blast

lemma pophp_retire_does_not_wait_witness:
  "\<exists>s'. pophp_retire (\<lambda>_. True) 0 8 ((pophp_start 2 alloc_init)\<lparr>ph_cntrs := [7, 0], ph_empty_freq := 7\<rparr>) = Some s'
     \<and> 1 \<in> ph_pending s'"
proof -
  let ?s = "(pophp_start 2 alloc_init)\<lparr>ph_cntrs := [7, 0], ph_empty_freq := 7\<rparr>"
  have wf: "pophp_wf ?s" using pophp_wf_start [of 2 alloc_init] by (simp add: pophp_wf_def)
  have n: "ph_num_process ?s = 2" using pophp_wf_start [of 2 alloc_init] by simp
  have "\<exists>s'. pophp_retire (\<lambda>_. True) 0 8 ?s = Some s' \<and> {0..<ph_num_process ?s} - {0} \<subseteq> ph_pending s'"
    using pophp_retire_does_not_wait [OF wf, of 0 8 "\<lambda>_. True"] n by auto
  moreover have "1 \<in> {0..<2} - {0::nat}" by simp
  ultimately show ?thesis unfolding n by blast
qed

text \<open>
  If every other thread has published its local slots when a full list is emptied, nothing that
  \<open>retire\<close> frees is in any thread's local slots: what the wait was meant to establish is
  enough.
\<close>

lemma pophp_retire_safe_if_published:
  assumes wf: "pophp_wf s" and tid: "tid < ph_num_process s" and p: "p \<noteq> NULL"
    and full: "ph_cntrs s ! tid = ph_empty_freq s" and kill: "\<forall>t<ph_num_process s. kill t"
    and pub: "\<forall>t<ph_num_process s. t \<noteq> tid \<longrightarrow>
        (\<forall>k<3. ph_slots s ! (3 * t + k) = pt_local_slots (ph_thread s ! t) ! k)"
  shows "\<exists>s' fs. pophp_retire kill tid p s = Some s' \<and> al_freed (ph_pool s') = al_freed (ph_pool s) @ fs
     \<and> (\<forall>t<ph_num_process s. \<forall>k<3. pt_local_slots (ph_thread s ! t) ! k \<notin> set fs)"
proof -
  let ?sl = "ph_slots (pophp_publishReservations tid s)"
  have len: "length ?sl = ph_num_process s * 3" using wf by (simp add: pophp_publish_eq pophp_wf_def)
  have "pt_local_slots (ph_thread s ! t) ! k \<in> set ?sl" if t: "t < ph_num_process s" and k: "k < 3" for t k
  proof -
    have lt: "3 * t + k < length (ph_slots s)" using wf t k by (simp add: pophp_wf_def)
    have "?sl ! (3 * t + k) = pt_local_slots (ph_thread s ! t) ! k"
    proof (cases "t = tid")
      case True
      then show ?thesis using wf lt k by (auto simp: pophp_publish_eq nth_list_update less_Suc_eq numeral_3_eq_3 numeral_2_eq_2)
    next
      case False
      then have "3 * t + k \<noteq> 3 * tid" "3 * t + k \<noteq> 3 * tid + 1" "3 * t + k \<noteq> 3 * tid + 2" using k by presburger+
      then show ?thesis using wf pub t k False by (simp add: pophp_publish_eq)
    qed
    then show ?thesis using lt len wf by (metis nth_mem pophp_wf_def)
  qed
  with pophp_retire_full [OF wf tid p full kill] show ?thesis by fastforce
qed

lemma pophp_retire_safe_if_published_witness:
  "\<exists>s' fs. pophp_retire (\<lambda>_. True) 0 8 ((pophp_start 1 alloc_init)\<lparr>ph_cntrs := [7], ph_empty_freq := 7\<rparr>) = Some s'
     \<and> al_freed (ph_pool s') = fs
     \<and> (\<forall>k<3. pt_local_slots (ph_thread ((pophp_start 1 alloc_init)\<lparr>ph_cntrs := [7], ph_empty_freq := 7\<rparr>) ! 0) ! k \<notin> set fs)"
proof -
  let ?s = "(pophp_start 1 alloc_init)\<lparr>ph_cntrs := [7], ph_empty_freq := 7\<rparr>"
  have wf: "pophp_wf ?s" using pophp_wf_start [of 1 alloc_init] by (simp add: pophp_wf_def)
  have n: "ph_num_process ?s = 1" and f: "al_freed (ph_pool ?s) = []"
    using pophp_wf_start [of 1 alloc_init] by (simp_all add: alloc_init_def)
  from pophp_retire_safe_if_published [OF wf, of 0 8 "\<lambda>_. True"] show ?thesis
    unfolding n f by simp
qed

end
