(* ===== verification/BlockBag.thy ===== *)
theory BlockBag
  imports Allocator
begin

text \<open>
  Bags of objects, \<open>common/recordmgr/blockbag.h\<close>: a linked list of fixed-size blocks whose
  head block is the only one that is not full, over the store of blocks and the pool of empty blocks
  of \<open>common/recordmgr/blockpool.h\<close>. Blocks live in an explicit store, so the head, tail and
  next pointers are those of the code. A block's address is a natural number, 0 for \<open>NULL\<close>;
  the address that \<open>new\<close> picks is an argument \<open>nw\<close> of the model.
\<close>

type_synonym bptr = nat

text \<open>\<open>BLOCK_SIZE_DESIRED_BYTES/sizeof(T*) - 3*sizeof(size_t)\<close> with 8-byte pointers and sizes.\<close>

definition BLOCK_SIZE :: nat where
  "BLOCK_SIZE = 512 div 8 - 3 * 8"

definition MAX_BLOCK_POOL_SIZE :: nat where
  "MAX_BLOCK_POOL_SIZE = 32"

subsection \<open>A block: a stack in an array\<close>

record blk =
  bk_next :: bptr
  bk_nextCount :: nat
  bk_size :: nat
  bk_data :: "ptr list"

definition block_new :: "bptr \<Rightarrow> blk" where
  "block_new next = \<lparr>bk_next = next, bk_nextCount = 0, bk_size = 0, bk_data = replicate BLOCK_SIZE NULL\<rparr>"

definition block_isFull :: "blk \<Rightarrow> bool" where
  "block_isFull b \<longleftrightarrow> bk_size b = BLOCK_SIZE"

definition block_isEmpty :: "blk \<Rightarrow> bool" where
  "block_isEmpty b \<longleftrightarrow> bk_size b = 0"

text \<open>
  \<open>push\<close> and \<open>pop\<close> assert their preconditions, that the block is not full and not empty. The
  assertions are predicates of their own, here and for the bag below; \<open>blockbag_asserts_hold\<close>
  shows that they hold in a well-formed bag.
\<close>

definition block_push_asserts :: "blk \<Rightarrow> bool" where
  "block_push_asserts b \<longleftrightarrow> bk_size b < BLOCK_SIZE"

definition block_pop_asserts :: "blk \<Rightarrow> bool" where
  "block_pop_asserts b \<longleftrightarrow> 0 < bk_size b"

definition block_push :: "ptr \<Rightarrow> blk \<Rightarrow> blk" where
  "block_push obj b =
     (let sz = bk_size b in b\<lparr>bk_data := (bk_data b)[sz := obj], bk_size := sz + 1\<rparr>)"

definition block_pop :: "blk \<Rightarrow> ptr \<times> blk" where
  "block_pop b = (let sz = bk_size b - 1 in (bk_data b ! sz, b\<lparr>bk_size := sz\<rparr>))"

definition block_peek :: "nat \<Rightarrow> blk \<Rightarrow> ptr" where
  "block_peek ix b = bk_data b ! ix"

fun block_contains_from :: "nat \<Rightarrow> nat \<Rightarrow> ptr list \<Rightarrow> ptr \<Rightarrow> bool" where
  "block_contains_from i 0 data obj = False"
| "block_contains_from i (Suc n) data obj =
     (if data ! i = obj then True else block_contains_from (Suc i) n data obj)"

definition block_contains :: "ptr \<Rightarrow> blk \<Rightarrow> bool" where
  "block_contains obj b = block_contains_from 0 (bk_size b) (bk_data b) obj"

text \<open>\<open>erase(T*)\<close>: the last object is tried first, then the others from the oldest on.\<close>

fun block_erase_from :: "nat \<Rightarrow> nat \<Rightarrow> ptr \<Rightarrow> blk \<Rightarrow> blk" where
  "block_erase_from i 0 obj b = b"
| "block_erase_from i (Suc n) obj b =
     (if bk_data b ! i = obj
      then b\<lparr>bk_data := (bk_data b)[i := bk_data b ! (bk_size b - 1)], bk_size := bk_size b - 1\<rparr>
      else block_erase_from (Suc i) n obj b)"

definition block_erase_obj :: "ptr \<Rightarrow> blk \<Rightarrow> blk" where
  "block_erase_obj obj b =
     (if bk_size b = 0 then b
      else if bk_data b ! (bk_size b - 1) = obj then b\<lparr>bk_size := bk_size b - 1\<rparr>
      else block_erase_from 0 (bk_size b - 1) obj b)"

definition block_erase_ix :: "nat \<Rightarrow> blk \<Rightarrow> blk" where
  "block_erase_ix ix b =
     (if bk_size b \<noteq> 0 then
        let b1 = (if ix \<noteq> bk_size b - 1 then b\<lparr>bk_data := (bk_data b)[ix := bk_data b ! (bk_size b - 1)]\<rparr> else b)
        in b1\<lparr>bk_size := bk_size b1 - 1\<rparr>
      else b)"

definition block_replace :: "nat \<Rightarrow> ptr \<Rightarrow> blk \<Rightarrow> blk" where
  "block_replace ix obj b = b\<lparr>bk_data := (bk_data b)[ix := obj]\<rparr>"

definition block_clear :: "blk \<Rightarrow> blk" where
  "block_clear b = b\<lparr>bk_size := 0\<rparr>"

text \<open>The objects of a block, oldest first.\<close>

definition block_items :: "blk \<Rightarrow> ptr list" where
  "block_items b = take (bk_size b) (bk_data b)"

definition block_wf :: "blk \<Rightarrow> bool" where
  "block_wf b \<longleftrightarrow> length (bk_data b) = BLOCK_SIZE \<and> bk_size b \<le> BLOCK_SIZE"

lemma block_size_items: "block_wf b \<Longrightarrow> length (block_items b) = bk_size b"
  by (simp add: block_wf_def block_items_def)

lemma block_new_wf [simp]: "block_wf (block_new nx)" "block_items (block_new nx) = []"
  "bk_next (block_new nx) = nx" "bk_size (block_new nx) = 0"
  by (simp_all add: block_wf_def block_new_def block_items_def)

lemma block_push_items:
  assumes "block_wf b" and "bk_size b < BLOCK_SIZE"
  shows "block_wf (block_push p b)" "block_items (block_push p b) = block_items b @ [p]"
    "bk_next (block_push p b) = bk_next b" "bk_size (block_push p b) = Suc (bk_size b)"
  using assms
  by (simp_all add: block_wf_def block_push_def block_items_def Let_def take_Suc_conv_app_nth)

lemma block_pop_items:
  assumes "block_wf b" and "bk_size b \<noteq> 0"
  shows "block_wf (snd (block_pop b))" "block_items (snd (block_pop b)) @ [fst (block_pop b)] = block_items b"
    "bk_next (snd (block_pop b)) = bk_next b" "bk_size (snd (block_pop b)) = bk_size b - 1"
proof -
  obtain n where n: "bk_size b = Suc n" using assms(2) by (cases "bk_size b") auto
  then show "block_wf (snd (block_pop b))" "bk_next (snd (block_pop b)) = bk_next b"
    "bk_size (snd (block_pop b)) = bk_size b - 1"
    using assms by (simp_all add: block_wf_def block_pop_def Let_def)
  show "block_items (snd (block_pop b)) @ [fst (block_pop b)] = block_items b"
    using n assms(1) by (simp add: block_wf_def block_pop_def block_items_def Let_def take_Suc_conv_app_nth)
qed

lemma block_replace_wf [simp]:
  "block_wf (block_replace ix p b) = block_wf b" "bk_next (block_replace ix p b) = bk_next b"
  "bk_size (block_replace ix p b) = bk_size b"
  by (simp_all add: block_replace_def block_wf_def)

lemma block_replace_items: "block_items (block_replace ix p b) = (block_items b)[ix := p]"
  by (simp add: block_replace_def block_items_def take_update_swap)

lemma block_peek_items: "ix < bk_size b \<Longrightarrow> block_wf b \<Longrightarrow> block_peek ix b = block_items b ! ix"
  by (simp add: block_peek_def block_items_def block_wf_def)

lemma mset_list_update_add: "i < length xs \<Longrightarrow> mset (xs[i := y]) + {#xs ! i#} = mset xs + {#y#}"
proof (induction xs arbitrary: i)
  case (Cons x xs)
  then show ?case by (cases i) auto
qed simp

lemma block_erase_ix_items:
  assumes wf: "block_wf b" and ix: "ix < bk_size b"
  shows "block_wf (block_erase_ix ix b)" "bk_next (block_erase_ix ix b) = bk_next b"
    "bk_size (block_erase_ix ix b) = bk_size b - 1"
    "mset (block_items (block_erase_ix ix b)) + {#block_peek ix b#} = mset (block_items b)"
proof -
  obtain n where n: "bk_size b = Suc n" using ix by (cases "bk_size b") auto
  show "block_wf (block_erase_ix ix b)" "bk_next (block_erase_ix ix b) = bk_next b"
    "bk_size (block_erase_ix ix b) = bk_size b - 1"
    using wf n by (simp_all add: block_erase_ix_def block_wf_def Let_def)
  have len: "n < length (bk_data b)" using wf n by (simp add: block_wf_def)
  have items: "block_items b = take n (bk_data b) @ [bk_data b ! n]"
    using n len by (simp add: block_items_def take_Suc_conv_app_nth)
  show "mset (block_items (block_erase_ix ix b)) + {#block_peek ix b#} = mset (block_items b)"
  proof (cases "ix = n")
    case True
    then show ?thesis using n items by (simp add: block_erase_ix_def block_items_def block_peek_def Let_def)
  next
    case False
    then have lt: "ix < n" using ix n by simp
    then have "mset ((take n (bk_data b))[ix := bk_data b ! n]) + {#bk_data b ! ix#}
        = mset (take n (bk_data b)) + {#bk_data b ! n#}"
      using mset_list_update_add [of ix "take n (bk_data b)" "bk_data b ! n"] len by simp
    then show ?thesis
      using n lt items by (simp add: block_erase_ix_def block_items_def block_peek_def Let_def take_update_swap)
  qed
qed


subsection \<open>The store of blocks and the pool of empty blocks\<close>

record world =
  bw_mem :: "bptr \<Rightarrow> blk option"
  bw_pool :: "bptr list"

definition blk_at :: "world \<Rightarrow> bptr \<Rightarrow> blk" where
  "blk_at w p = the (bw_mem w p)"

definition blk_upd :: "bptr \<Rightarrow> (blk \<Rightarrow> blk) \<Rightarrow> world \<Rightarrow> world" where
  "blk_upd p f w = w\<lparr>bw_mem := (bw_mem w)(p \<mapsto> f (blk_at w p))\<rparr>"

definition blockpool_allocateBlock :: "((bptr \<Rightarrow> blk option) \<Rightarrow> bptr) \<Rightarrow> bptr \<Rightarrow> world \<Rightarrow> bptr \<times> world" where
  "blockpool_allocateBlock nw next w =
     (if bw_pool w \<noteq> [] then
        let result = last (bw_pool w)
        in (result, w\<lparr>bw_pool := butlast (bw_pool w), bw_mem := (bw_mem w)(result \<mapsto> block_new next)\<rparr>)
      else
        let result = nw (bw_mem w)
        in (result, w\<lparr>bw_mem := (bw_mem w)(result \<mapsto> block_new next)\<rparr>))"

definition blockpool_deallocateBlock :: "bptr \<Rightarrow> world \<Rightarrow> world" where
  "blockpool_deallocateBlock b w =
     (if length (bw_pool w) = MAX_BLOCK_POOL_SIZE then w\<lparr>bw_mem := (bw_mem w)(b := None)\<rparr>
      else w\<lparr>bw_pool := bw_pool w @ [b]\<rparr>)"

subsection \<open>The bag\<close>

record bag =
  bb_owner :: nat
  bb_reclaimCount :: nat
  bb_sizeInBlocks :: nat
  bb_head :: bptr
  bb_tail :: bptr

definition blockbag_new :: "((bptr \<Rightarrow> blk option) \<Rightarrow> bptr) \<Rightarrow> nat \<Rightarrow> world \<Rightarrow> bag \<times> world" where
  "blockbag_new nw tid w =
     (let (h, w1) = blockpool_allocateBlock nw 0 w
      in (\<lparr>bb_owner = tid, bb_reclaimCount = 0, bb_sizeInBlocks = 1, bb_head = h, bb_tail = h\<rparr>, w1))"

definition blockbag_isEmpty :: "bag \<Rightarrow> world \<Rightarrow> bool" where
  "blockbag_isEmpty b w \<longleftrightarrow> bk_next (blk_at w (bb_head b)) = 0 \<and> block_isEmpty (blk_at w (bb_head b))"

definition blockbag_add :: "((bptr \<Rightarrow> blk option) \<Rightarrow> bptr) \<Rightarrow> ptr \<Rightarrow> bag \<Rightarrow> world \<Rightarrow> bag \<times> world" where
  "blockbag_add nw obj b w =
     (let w1 = blk_upd (bb_head b) (block_push obj) w
      in if block_isFull (blk_at w1 (bb_head b))
         then let (newblock, w2) = blockpool_allocateBlock nw (bb_head b) w1
              in (b\<lparr>bb_sizeInBlocks := bb_sizeInBlocks b + 1, bb_head := newblock\<rparr>, w2)
         else (b, w1))"

definition blockbag_remove :: "bag \<Rightarrow> world \<Rightarrow> ptr \<times> bag \<times> world" where
  "blockbag_remove b w =
     (if block_isEmpty (blk_at w (bb_head b))
      then let nx = bk_next (blk_at w (bb_head b));
               result = fst (block_pop (blk_at w nx));
               w1 = blk_upd nx (snd \<circ> block_pop) w;
               temp = bb_head b;
               b1 = b\<lparr>bb_head := bk_next (blk_at w1 temp)\<rparr>;
               w2 = blockpool_deallocateBlock temp w1
           in (result, b1\<lparr>bb_sizeInBlocks := bb_sizeInBlocks b1 - 1\<rparr>, w2)
      else (fst (block_pop (blk_at w (bb_head b))), b, blk_upd (bb_head b) (snd \<circ> block_pop) w))"

text \<open>The assertions that \<open>add\<close> and \<open>remove\<close> meet, with those of the block they work on.\<close>

definition blockbag_add_asserts :: "bag \<Rightarrow> world \<Rightarrow> bool" where
  "blockbag_add_asserts b w \<longleftrightarrow> block_push_asserts (blk_at w (bb_head b))"

definition blockbag_remove_asserts :: "bag \<Rightarrow> world \<Rightarrow> bool" where
  "blockbag_remove_asserts b w \<longleftrightarrow> \<not> blockbag_isEmpty b w
     \<and> (if block_isEmpty (blk_at w (bb_head b)) then block_pop_asserts (blk_at w (bk_next (blk_at w (bb_head b))))
        else block_pop_asserts (blk_at w (bb_head b)))"

text \<open>\<open>erase(cur, ix)\<close>, the removal through an iterator; the result says what the iterator does next.\<close>

definition blockbag_erase :: "bptr \<Rightarrow> nat \<Rightarrow> bag \<Rightarrow> world \<Rightarrow> bool \<times> bag \<times> world" where
  "blockbag_erase cur ix b w =
     (let (b1, w1) = (if block_isEmpty (blk_at w (bb_head b))
           then let temp = bb_head b
                in (b\<lparr>bb_head := bk_next (blk_at w temp), bb_sizeInBlocks := bb_sizeInBlocks b - 1\<rparr>,
                    blockpool_deallocateBlock temp w)
           else (b, w))
      in if cur = bb_head b1
         then (False, b1, blk_upd (bb_head b1) (block_erase_ix ix) w1)
         else let obj = fst (block_pop (blk_at w1 (bb_head b1)));
                  w2 = blk_upd (bb_head b1) (snd \<circ> block_pop) w1
              in (True, b1, blk_upd cur (block_replace ix obj) w2))"

definition blockbag_removeFullBlock :: "bag \<Rightarrow> world \<Rightarrow> bptr \<times> bag \<times> world" where
  "blockbag_removeFullBlock b w =
     (let second = bk_next (blk_at w (bb_head b))
      in if second \<noteq> 0 then
           if bk_next (blk_at w second) \<noteq> 0 then
             let w1 = blk_upd (bb_head b) (\<lambda>x. x\<lparr>bk_next := bk_next (blk_at w second)\<rparr>) w;
                 w2 = blk_upd second (\<lambda>x. x\<lparr>bk_next := 0\<rparr>) w1
             in (second, b\<lparr>bb_sizeInBlocks := bb_sizeInBlocks b - 1\<rparr>, w2)
           else (0, b, w)
         else (0, b, w))"

definition blockbag_addFullBlock :: "bptr \<Rightarrow> bag \<Rightarrow> world \<Rightarrow> bag \<times> world" where
  "blockbag_addFullBlock p b w =
     (let w1 = blk_upd (bb_tail b) (\<lambda>x. x\<lparr>bk_next := p\<rparr>) w
      in (b\<lparr>bb_tail := p, bb_sizeInBlocks := bb_sizeInBlocks b + 1\<rparr>, w1))"

text \<open>
  The loops that follow the \<open>next\<close> pointers need not end in a store with a cycle: they are
  partial functions, and that they end on a bag is a theorem.
\<close>

partial_function (option) blocks_from :: "world \<Rightarrow> bptr \<Rightarrow> bptr list option" where
  "blocks_from w cur =
     (if cur = 0 then Some []
      else Option.bind (blocks_from w (bk_next (blk_at w cur))) (\<lambda>ps. Some (cur # ps)))"

definition blockbag_computeSizeInBlocks :: "bag \<Rightarrow> world \<Rightarrow> nat option" where
  "blockbag_computeSizeInBlocks b w = map_option length (blocks_from w (bb_head b))"

definition blockbag_computeSize :: "bag \<Rightarrow> world \<Rightarrow> nat option" where
  "blockbag_computeSize b w =
     map_option (\<lambda>ps. fold (\<lambda>p result. result + bk_size (blk_at w p)) ps 0) (blocks_from w (bb_head b))"

definition blockbag_computeSizeFast :: "bag \<Rightarrow> world \<Rightarrow> nat" where
  "blockbag_computeSizeFast b w = (bb_sizeInBlocks b - 1) * BLOCK_SIZE + bk_size (blk_at w (bb_head b))"

definition blockbag_clearWithoutFreeingElements :: "bag \<Rightarrow> world \<Rightarrow> (bag \<times> world) option" where
  "blockbag_clearWithoutFreeingElements b w =
     (case blocks_from w (bk_next (blk_at w (bb_head b))) of
        None \<Rightarrow> None
      | Some ps \<Rightarrow>
          let w1 = fold (\<lambda>p w. blockpool_deallocateBlock p (blk_upd p block_clear w)) ps w;
              w2 = blk_upd (bb_head b) (\<lambda>x. x\<lparr>bk_next := 0\<rparr>) w1;
              w3 = blk_upd (bb_head b) block_clear w2
          in Some (b\<lparr>bb_tail := bb_head b, bb_sizeInBlocks := 1\<rparr>, w3))"

text \<open>\<open>appendMoveFullBlocks\<close> from the blocks after \<open>predecessor\<close> of the other bag.\<close>

definition blockbag_appendMoveFullBlocks :: "bptr \<Rightarrow> bag \<Rightarrow> bag \<Rightarrow> world \<Rightarrow> (bag \<times> bag \<times> world) option" where
  "blockbag_appendMoveFullBlocks predecessor b other w =
     (if bk_next (blk_at w predecessor) \<noteq> 0 then
        let w1 = blk_upd (bb_tail b) (\<lambda>x. x\<lparr>bk_next := bk_next (blk_at w predecessor)\<rparr>) w;
            b1 = b\<lparr>bb_tail := bb_tail other\<rparr>
        in case blockbag_computeSizeInBlocks b1 w1 of
             None \<Rightarrow> None
           | Some n \<Rightarrow>
               let b2 = b1\<lparr>bb_sizeInBlocks := n\<rparr>;
                   w2 = blk_upd predecessor (\<lambda>x. x\<lparr>bk_next := 0\<rparr>) w1;
                   other1 = other\<lparr>bb_tail := predecessor\<rparr>
               in case blockbag_computeSizeInBlocks other1 w2 of
                    None \<Rightarrow> None
                  | Some m \<Rightarrow> Some (b2, other1\<lparr>bb_sizeInBlocks := m\<rparr>, w2)
      else Some (b, other, w))"

text \<open>The loop of \<open>appendMoveAll\<close>, and the one that drains a bag into the allocator.\<close>

partial_function (option) bag_move_loop ::
  "((bptr \<Rightarrow> blk option) \<Rightarrow> bptr) \<Rightarrow> bag \<Rightarrow> bag \<Rightarrow> world \<Rightarrow> (bag \<times> bag \<times> world) option" where
  "bag_move_loop nw b other w =
     (if blockbag_isEmpty other w then Some (b, other, w)
      else let (obj, other1, w1) = blockbag_remove other w; (b1, w2) = blockbag_add nw obj b w1
           in bag_move_loop nw b1 other1 w2)"

definition blockbag_appendMoveAll ::
  "((bptr \<Rightarrow> blk option) \<Rightarrow> bptr) \<Rightarrow> bag \<Rightarrow> bag \<Rightarrow> world \<Rightarrow> (bag \<times> bag \<times> world) option" where
  "blockbag_appendMoveAll nw b other w =
     (case blockbag_appendMoveFullBlocks (bb_head other) b other w of
        None \<Rightarrow> None
      | Some (b1, other1, w1) \<Rightarrow>
          (case bag_move_loop nw b1 other1 w1 of
             None \<Rightarrow> None
           | Some (b2, other2, w2) \<Rightarrow>
               map_option (\<lambda>n. (b2\<lparr>bb_sizeInBlocks := n\<rparr>, other2, w2)) (blockbag_computeSizeInBlocks b2 w2)))"

text \<open>A loop \<open>while (!isEmpty()) f(remove())\<close> over any container, and the one of the allocator.\<close>

partial_function (option) drain_loop ::
  "('s \<Rightarrow> bool) \<Rightarrow> ('s \<Rightarrow> ptr \<times> 's) \<Rightarrow> (ptr \<Rightarrow> 'a \<Rightarrow> 'a) \<Rightarrow> 's \<Rightarrow> 'a \<Rightarrow> ('s \<times> 'a) option" where
  "drain_loop is_empty pop f s a =
     (if is_empty s then Some (s, a)
      else let (x, s') = pop s in drain_loop is_empty pop f s' (f x a))"

definition deallocateAndClear ::
  "nat \<Rightarrow> bag \<times> world \<Rightarrow> allocator \<Rightarrow> ((bag \<times> world) \<times> allocator) option" where
  "deallocateAndClear tid bw al =
     drain_loop (\<lambda>(b, w). blockbag_isEmpty b w) (\<lambda>(b, w). blockbag_remove b w) (deallocate tid) bw al"


subsection \<open>The bag as a stack\<close>

text \<open>The chain of blocks from a pointer on, and the invariant that the code's comment states.\<close>

fun chain :: "(bptr \<Rightarrow> blk option) \<Rightarrow> bptr \<Rightarrow> bptr list \<Rightarrow> bool" where
  "chain m p [] \<longleftrightarrow> p = 0"
| "chain m p (q # qs) \<longleftrightarrow> p = q \<and> q \<noteq> 0 \<and> (\<exists>b. m q = Some b \<and> block_wf b \<and> chain m (bk_next b) qs)"

definition world_ok :: "world \<Rightarrow> bool" where
  "world_ok w \<longleftrightarrow> finite (dom (bw_mem w)) \<and> 0 \<notin> dom (bw_mem w) \<and> distinct (bw_pool w)
     \<and> set (bw_pool w) \<subseteq> dom (bw_mem w) \<and> length (bw_pool w) \<le> MAX_BLOCK_POOL_SIZE"

definition bag_ok :: "world \<Rightarrow> bag \<Rightarrow> bptr list \<Rightarrow> bool" where
  "bag_ok w b ps \<longleftrightarrow> ps \<noteq> [] \<and> distinct ps \<and> chain (bw_mem w) (bb_head b) ps
     \<and> bb_tail b = last ps \<and> bb_sizeInBlocks b = length ps
     \<and> bk_size (blk_at w (hd ps)) < BLOCK_SIZE \<and> (\<forall>p\<in>set (tl ps). bk_size (blk_at w p) = BLOCK_SIZE)
     \<and> set ps \<inter> set (bw_pool w) = {}"

definition bag_stack :: "world \<Rightarrow> bptr list \<Rightarrow> ptr list" where
  "bag_stack w ps = concat (map (\<lambda>p. rev (block_items (blk_at w p))) ps)"

definition nw_ok :: "((bptr \<Rightarrow> blk option) \<Rightarrow> bptr) \<Rightarrow> bool" where
  "nw_ok nw \<longleftrightarrow> (\<forall>m. finite (dom m) \<longrightarrow> nw m \<notin> dom m \<and> nw m \<noteq> 0)"

text \<open>What an operation on one bag leaves alone: the blocks of everybody else.\<close>

definition frame :: "bptr list \<Rightarrow> world \<Rightarrow> bptr list \<Rightarrow> world \<Rightarrow> bool" where
  "frame ps w ps' w' \<longleftrightarrow> (\<forall>q. q \<in> dom (bw_mem w) \<longrightarrow> q \<notin> set ps \<longrightarrow> q \<notin> set (bw_pool w) \<longrightarrow>
     bw_mem w' q = bw_mem w q \<and> q \<notin> set ps' \<and> q \<notin> set (bw_pool w'))"

lemma frame_refl [simp]: "frame ps w ps w"
  by (simp add: frame_def)

lemma frame_trans: "frame ps w ps' w' \<Longrightarrow> frame ps' w' ps'' w'' \<Longrightarrow> frame ps w ps'' w''"
  unfolding frame_def by (metis domIff)

lemma chain_cong: "chain m p ps \<Longrightarrow> (\<forall>q\<in>set ps. m' q = m q) \<Longrightarrow> chain m' p ps"
  by (induction ps arbitrary: p) auto

lemma chain_dom: "chain m p ps \<Longrightarrow> q \<in> set ps \<Longrightarrow> \<exists>b. m q = Some b \<and> block_wf b \<and> q \<noteq> 0"
  by (induction ps arbitrary: p) auto

lemma chain_append:
  "chain m p (ps @ [q]) \<Longrightarrow> q \<notin> set ps \<Longrightarrow> m q = Some b \<Longrightarrow> bk_next b = 0"
  by (induction ps arbitrary: p) auto

lemma bag_stack_cong: "(\<forall>q\<in>set ps. bw_mem w' q = bw_mem w q) \<Longrightarrow> bag_stack w' ps = bag_stack w ps"
  unfolding bag_stack_def blk_at_def by (intro arg_cong [of _ _ concat] map_cong) auto

lemma bag_ok_frame:
  assumes "bag_ok w b ps" and "set ps \<subseteq> dom (bw_mem w)" and "set ps \<inter> set qs = {}" and "frame qs w qs' w'"
  shows "bag_ok w' b ps \<and> set ps \<inter> set qs' = {} \<and> bag_stack w' ps = bag_stack w ps"
proof -
  have same: "\<forall>q\<in>set ps. bw_mem w' q = bw_mem w q \<and> q \<notin> set qs' \<and> q \<notin> set (bw_pool w')"
    using assms unfolding frame_def bag_ok_def by blast
  moreover have "\<forall>q\<in>set ps. blk_at w' q = blk_at w q" using same by (simp add: blk_at_def)
  moreover have "hd ps \<in> set ps" using assms(1) by (simp add: bag_ok_def)
  moreover have "\<forall>q\<in>set (tl ps). q \<in> set ps" by (cases ps) auto
  ultimately show ?thesis
    using assms(1) chain_cong [of "bw_mem w" "bb_head b" ps "bw_mem w'"] bag_stack_cong [of ps w' w]
    unfolding bag_ok_def by auto
qed

lemma blk_upd_simps [simp]:
  "bw_pool (blk_upd p f w) = bw_pool w"
  "blk_at (blk_upd p f w) q = (if q = p then f (blk_at w p) else blk_at w q)"
  "bw_mem (blk_upd p f w) q = (if q = p then Some (f (blk_at w p)) else bw_mem w q)"
  "dom (bw_mem (blk_upd p f w)) = insert p (dom (bw_mem w))"
  by (auto simp: blk_upd_def blk_at_def)

lemma world_ok_upd: "world_ok w \<Longrightarrow> p \<in> dom (bw_mem w) \<Longrightarrow> world_ok (blk_upd p f w)"
  by (auto simp: world_ok_def)

lemma world_pool_ge: "world_ok w \<Longrightarrow> q \<in> set (bw_pool w) \<Longrightarrow> q \<in> dom (bw_mem w) \<and> q \<noteq> 0"
  unfolding world_ok_def by (metis in_mono)

text \<open>A block from the pool, or a new one.\<close>

lemma allocateBlock_spec:
  assumes ok: "world_ok w" and nw: "nw_ok nw" and al: "blockpool_allocateBlock nw nx w = (r, w')"
  shows "world_ok w'" "r \<noteq> 0" "r \<notin> set (bw_pool w')" "bw_mem w' = (bw_mem w)(r \<mapsto> block_new nx)"
    "r \<in> set (bw_pool w) \<or> r \<notin> dom (bw_mem w)" "set (bw_pool w') \<subseteq> set (bw_pool w)"
proof -
  have "world_ok w' \<and> r \<noteq> 0 \<and> r \<notin> set (bw_pool w') \<and> bw_mem w' = (bw_mem w)(r \<mapsto> block_new nx)
      \<and> (r \<in> set (bw_pool w) \<or> r \<notin> dom (bw_mem w)) \<and> set (bw_pool w') \<subseteq> set (bw_pool w)"
  proof (cases "bw_pool w = []")
    case True
    then have r: "r = nw (bw_mem w)" "w' = w\<lparr>bw_mem := (bw_mem w)(r \<mapsto> block_new nx)\<rparr>"
      using al by (auto simp: blockpool_allocateBlock_def Let_def)
    have "nw (bw_mem w) \<notin> dom (bw_mem w) \<and> nw (bw_mem w) \<noteq> 0"
      using nw ok unfolding nw_ok_def world_ok_def by blast
    then show ?thesis using r True ok by (auto simp: world_ok_def)
  next
    case False
    then obtain q qs where qs: "bw_pool w = qs @ [q]" by (metis append_butlast_last_id)
    then have r: "r = q" "w' = w\<lparr>bw_pool := qs, bw_mem := (bw_mem w)(q \<mapsto> block_new nx)\<rparr>"
      using al by (auto simp: blockpool_allocateBlock_def Let_def)
    have "q \<in> dom (bw_mem w)" "q \<noteq> 0" using world_pool_ge [OF ok, of q] qs by auto
    then show ?thesis using r qs ok by (auto simp: world_ok_def)
  qed
  then show "world_ok w'" "r \<noteq> 0" "r \<notin> set (bw_pool w')" "bw_mem w' = (bw_mem w)(r \<mapsto> block_new nx)"
    "r \<in> set (bw_pool w) \<or> r \<notin> dom (bw_mem w)" "set (bw_pool w') \<subseteq> set (bw_pool w)" by blast+
qed

lemma deallocateBlock_spec:
  assumes ok: "world_ok w" and q: "q \<in> dom (bw_mem w)" "q \<notin> set (bw_pool w)"
  shows "world_ok (blockpool_deallocateBlock q w)"
    "\<forall>p. p \<noteq> q \<longrightarrow> bw_mem (blockpool_deallocateBlock q w) p = bw_mem w p"
    "set (bw_pool (blockpool_deallocateBlock q w)) \<subseteq> insert q (set (bw_pool w))"
  using assms by (auto simp: blockpool_deallocateBlock_def world_ok_def MAX_BLOCK_POOL_SIZE_def)


definition bag_inv :: "world \<Rightarrow> bag \<Rightarrow> bptr list \<Rightarrow> bool" where
  "bag_inv w b ps \<longleftrightarrow> world_ok w \<and> bag_ok w b ps"

lemma bag_inv_dom: "bag_inv w b ps \<Longrightarrow> set ps \<subseteq> dom (bw_mem w) \<and> 0 \<notin> set ps"
  unfolding bag_inv_def bag_ok_def using chain_dom by fastforce

lemma bag_inv_Cons:
  assumes "bag_inv w b ps"
  obtains h t x where "ps = h # t" "bb_head b = h" "bw_mem w h = Some x" "block_wf x" "bk_size x < BLOCK_SIZE"
    "chain (bw_mem w) (bk_next x) t" "h \<notin> set t" "h \<noteq> 0" "h \<notin> set (bw_pool w)" "blk_at w h = x"
  using assms unfolding bag_inv_def bag_ok_def by (cases ps) (auto simp: blk_at_def)

lemma bag_stack_Cons [simp]: "bag_stack w (q # qs) = rev (block_items (blk_at w q)) @ bag_stack w qs"
  by (simp add: bag_stack_def)

lemma bag_stack_Nil [simp]: "bag_stack w [] = []"
  by (simp add: bag_stack_def)

text \<open>Changing the head block only.\<close>

lemma head_upd:
  assumes inv: "bag_inv w b (h # t)" and nx: "bk_next (f (blk_at w h)) = bk_next (blk_at w h)"
    and wf: "block_wf (f (blk_at w h))"
  shows "world_ok (blk_upd h f w)" "chain (bw_mem (blk_upd h f w)) h (h # t)"
    "bag_stack (blk_upd h f w) t = bag_stack w t"
    "\<forall>q\<in>set t. blk_at (blk_upd h f w) q = blk_at w q" "frame (h # t) w (h # t) (blk_upd h f w)"
proof -
  have hd: "h \<in> dom (bw_mem w)" using bag_inv_dom [OF inv] by simp
  show "world_ok (blk_upd h f w)" using inv hd by (simp add: bag_inv_def world_ok_upd)
  have ht: "h \<notin> set t" using inv by (simp add: bag_inv_def bag_ok_def)
  have ch: "chain (bw_mem w) h (h # t)" using inv by (auto simp: bag_inv_def bag_ok_def)
  then have "chain (bw_mem w) (bk_next (blk_at w h)) t" by (auto simp: blk_at_def)
  then have "chain (bw_mem (blk_upd h f w)) (bk_next (blk_at w h)) t"
    by (rule chain_cong) (use ht in auto)
  then show "chain (bw_mem (blk_upd h f w)) h (h # t)" using ch nx wf by simp
  show "bag_stack (blk_upd h f w) t = bag_stack w t" by (rule bag_stack_cong) (use ht in auto)
  show "\<forall>q\<in>set t. blk_at (blk_upd h f w) q = blk_at w q" using ht by auto
  show "frame (h # t) w (h # t) (blk_upd h f w)" by (auto simp: frame_def)
qed

lemma blockbag_add_spec:
  assumes inv: "bag_inv w b ps" and nw: "nw_ok nw" and add: "blockbag_add nw p b w = (b', w')"
  shows "\<exists>ps'. bag_inv w' b' ps' \<and> bag_stack w' ps' = p # bag_stack w ps \<and> frame ps w ps' w'"
proof -
  obtain h t x where ps: "ps = h # t" and hb: "bb_head b = h" and wfx: "block_wf x" "bk_size x < BLOCK_SIZE"
    and hx: "blk_at w h = x" and hp: "h \<notin> set (bw_pool w)" and ht: "h \<notin> set t" and h0: "h \<noteq> 0"
    using bag_inv_Cons [OF inv] by metis
  have ok: "bag_ok w b (h # t)" and inv': "bag_inv w b (h # t)" using inv ps by (simp_all add: bag_inv_def)
  let ?w1 = "blk_upd h (block_push p) w"
  note push = block_push_items [OF wfx, of p]
  have c: "bk_next (block_push p (blk_at w h)) = bk_next (blk_at w h)" "block_wf (block_push p (blk_at w h))"
    using hx push by simp_all
  note up = head_upd [where f = "block_push p", OF inv' c]
  have st1: "bag_stack ?w1 (h # t) = p # bag_stack w (h # t)" using hx push up(3) by simp
  show ?thesis
  proof (cases "block_isFull (blk_at ?w1 h)")
    case False
    then have w': "b' = b" "w' = ?w1" using add hb by (auto simp: blockbag_add_def Let_def)
    have "bk_size (blk_at ?w1 h) < BLOCK_SIZE" using False wfx push hx by (simp add: block_isFull_def)
    then have "bag_ok ?w1 b (h # t)" using ok up(2,4) hb by (auto simp: bag_ok_def)
    then show ?thesis using w' up(1,5) st1 ps by (intro exI [of _ "h # t"]) (simp add: bag_inv_def)
  next
    case True
    obtain r w2 where al: "blockpool_allocateBlock nw h ?w1 = (r, w2)" by fastforce
    have w': "b' = b\<lparr>bb_sizeInBlocks := bb_sizeInBlocks b + 1, bb_head := r\<rparr>" "w' = w2"
      using True add hb al by (auto simp: blockbag_add_def Let_def)
    note sp = allocateBlock_spec [OF up(1) nw al]
    have dom: "set (h # t) \<subseteq> dom (bw_mem w)" using bag_inv_dom [OF inv'] by simp
    have disj: "set (h # t) \<inter> set (bw_pool w) = {}" using ok by (simp add: bag_ok_def)
    have rn: "r \<notin> set (h # t)" using sp(5) dom disj by auto
    have same: "\<forall>q\<in>set (h # t). bw_mem w2 q = bw_mem ?w1 q" using sp(4) rn by auto
    have chh: "chain (bw_mem w2) h (h # t)" by (rule chain_cong [OF up(2) same])
    have "bw_mem w2 r = Some (block_new h)" using sp(4) by simp
    then have ch2: "chain (bw_mem w2) r (r # h # t)"
      by (subst chain.simps(2)) (use chh sp(2) in \<open>simp del: chain.simps\<close>)
    have sizes: "\<forall>q\<in>set (h # t). bk_size (blk_at w2 q) = BLOCK_SIZE"
      using True ok up(4) same by (auto simp: bag_ok_def block_isFull_def blk_at_def)
    have "bag_ok w2 b' (r # h # t)"
      using ok ch2 sizes rn w'(1) sp(3,4,6) disj by (auto simp: bag_ok_def blk_at_def BLOCK_SIZE_def)
    moreover have "bag_stack w2 (r # h # t) = bag_stack ?w1 (h # t)"
      using bag_stack_cong [OF same] sp(4) by (simp add: blk_at_def)
    moreover have "frame (h # t) ?w1 (r # h # t) w2" using sp(4,5,6) by (auto simp: frame_def)
    then have "frame (h # t) w (r # h # t) w2" by (rule frame_trans [OF up(5)])
    ultimately show ?thesis using w' sp(1) st1 ps by (intro exI [of _ "r # h # t"]) (simp add: bag_inv_def)
  qed
qed

lemma blockbag_isEmpty_spec:
  assumes "bag_inv w b ps"
  shows "blockbag_isEmpty b w \<longleftrightarrow> bag_stack w ps = []"
proof -
  obtain h t x where ps: "ps = h # t" and hb: "bb_head b = h" and wfx: "block_wf x"
    and ch: "chain (bw_mem w) (bk_next x) t" and hx: "blk_at w h = x"
    using bag_inv_Cons [OF assms] by metis
  show ?thesis
  proof (cases t)
    case Nil
    then show ?thesis
      using ch ps hb hx block_size_items [OF wfx] by (auto simp: blockbag_isEmpty_def block_isEmpty_def)
  next
    case (Cons q qs)
    then have "bk_next x \<noteq> 0" using ch by auto
    moreover have "bk_size (blk_at w q) = BLOCK_SIZE" "block_wf (blk_at w q)"
      using assms Cons ps ch by (auto simp: bag_inv_def bag_ok_def blk_at_def)
    then have "block_items (blk_at w q) \<noteq> []"
      using block_size_items by (fastforce simp: BLOCK_SIZE_def)
    ultimately show ?thesis using ps hb hx Cons by (auto simp: blockbag_isEmpty_def)
  qed
qed

lemma blockbag_asserts_hold:
  assumes "bag_inv w b ps"
  shows "blockbag_add_asserts b w" "bag_stack w ps \<noteq> [] \<Longrightarrow> blockbag_remove_asserts b w"
proof -
  obtain h t x where ps: "ps = h # t" and hb: "bb_head b = h" and ch: "chain (bw_mem w) (bk_next x) t" and hx: "blk_at w h = x"
    using bag_inv_Cons [OF assms] by metis
  have ok: "bag_ok w b (h # t)" using assms ps by (simp add: bag_inv_def)
  then show "blockbag_add_asserts b w" by (simp add: blockbag_add_asserts_def block_push_asserts_def bag_ok_def hb)
  assume "bag_stack w ps \<noteq> []"
  then have ne: "\<not> blockbag_isEmpty b w" using blockbag_isEmpty_spec [OF assms] by simp
  have "block_pop_asserts (blk_at w (bk_next x))" if "block_isEmpty x"
  proof (cases t)
    case Nil
    then show ?thesis using ne ch that by (simp add: blockbag_isEmpty_def hb hx)
  next
    case (Cons q qs)
    then have "bk_next x = q" using ch by simp
    then show ?thesis using ok Cons by (simp add: bag_ok_def block_pop_asserts_def BLOCK_SIZE_def)
  qed
  then show "blockbag_remove_asserts b w"
    using ne by (simp add: blockbag_remove_asserts_def hb hx) (simp add: block_isEmpty_def block_pop_asserts_def)
qed

lemma blockbag_remove_spec:
  assumes inv: "bag_inv w b ps" and ne: "bag_stack w ps \<noteq> []" and rm: "blockbag_remove b w = (p, b', w')"
  shows "\<exists>ps'. bag_inv w' b' ps' \<and> p # bag_stack w' ps' = bag_stack w ps \<and> frame ps w ps' w'"
proof -
  obtain h t x where ps: "ps = h # t" and hb: "bb_head b = h" and wfx: "block_wf x" "bk_size x < BLOCK_SIZE"
    and ch: "chain (bw_mem w) (bk_next x) t"
    and hx: "blk_at w h = x" and hp: "h \<notin> set (bw_pool w)" and ht: "h \<notin> set t" and h0: "h \<noteq> 0"
    using bag_inv_Cons [OF inv] by metis
  have ok: "bag_ok w b (h # t)" and inv': "bag_inv w b (h # t)" using inv ps by (simp_all add: bag_inv_def)
  show ?thesis
  proof (cases "bk_size x = 0")
    case False
    let ?w1 = "blk_upd h (snd \<circ> block_pop) w"
    note pop = block_pop_items [OF wfx(1) False]
    have w': "p = fst (block_pop x)" "b' = b" "w' = ?w1"
      using rm hb hx False by (auto simp: blockbag_remove_def block_isEmpty_def)
    have c: "bk_next ((snd \<circ> block_pop) (blk_at w h)) = bk_next (blk_at w h)" "block_wf ((snd \<circ> block_pop) (blk_at w h))"
      using hx pop by simp_all
    note up = head_upd [where f = "snd \<circ> block_pop", OF inv' c]
    have "bk_size (blk_at ?w1 h) < BLOCK_SIZE" using wfx pop hx by simp
    then have "bag_ok ?w1 b (h # t)" using ok up(2,4) hb by (auto simp: bag_ok_def)
    moreover have "p # bag_stack ?w1 (h # t) = bag_stack w (h # t)"
      using up(3) hx w'(1) arg_cong [OF pop(2), of rev] by simp
    ultimately show ?thesis using w' up(1,5) ps by (intro exI [of _ "h # t"]) (simp add: bag_inv_def)
  next
    case True
    then have items: "block_items x = []" using block_size_items [OF wfx(1)] by simp
    then obtain q qs where t: "t = q # qs" using ne ps hx by (cases t) auto
    then have nx: "bk_next x = q" "q \<noteq> 0" and qwf: "block_wf (blk_at w q)"
      and chq: "chain (bw_mem w) (bk_next (blk_at w q)) qs"
      using ch by (auto simp: blk_at_def)
    have qsz: "bk_size (blk_at w q) = BLOCK_SIZE" using ok t by (simp add: bag_ok_def)
    then have q0: "bk_size (blk_at w q) \<noteq> 0" by (simp add: BLOCK_SIZE_def)
    note pop = block_pop_items [OF qwf q0]
    let ?w1 = "blk_upd q (snd \<circ> block_pop) w"
    let ?w2 = "blockpool_deallocateBlock h ?w1"
    have hq: "h \<noteq> q" using ht t by simp
    have w': "p = fst (block_pop (blk_at w q))" "b' = b\<lparr>bb_head := q, bb_sizeInBlocks := bb_sizeInBlocks b - 1\<rparr>" "w' = ?w2"
      using rm hb hx True nx hq by (auto simp: blockbag_remove_def block_isEmpty_def Let_def)
    have dom: "set (h # t) \<subseteq> dom (bw_mem w)" using bag_inv_dom [OF inv'] by simp
    have w1ok: "world_ok ?w1" using inv dom t by (auto simp: bag_inv_def intro!: world_ok_upd)
    have "h \<in> dom (bw_mem ?w1)" "h \<notin> set (bw_pool ?w1)" using dom hp by auto
    note de = deallocateBlock_spec [OF w1ok this]
    have same: "\<forall>r\<in>set (q # qs). bw_mem ?w2 r = bw_mem ?w1 r" using de(2) ht t by auto
    have qqs: "q \<notin> set qs" using ok t by (simp add: bag_ok_def)
    have "chain (bw_mem ?w1) (bk_next (blk_at w q)) qs"
      by (rule chain_cong [OF chq]) (use qqs in auto)
    then have "chain (bw_mem ?w1) q (q # qs)" using nx pop by simp
    then have ch2: "chain (bw_mem ?w2) q (q # qs)" using same by (rule chain_cong)
    have at2: "blk_at ?w2 r = (if r = q then snd (block_pop (blk_at w q)) else blk_at w r)" if "r \<in> set (q # qs)" for r
    proof -
      have "bw_mem ?w2 r = bw_mem ?w1 r" using same that by blast
      then have "blk_at ?w2 r = blk_at ?w1 r" by (simp only: blk_at_def)
      then show ?thesis by simp
    qed
    have "set (h # t) \<inter> set (bw_pool w) = {}" using ok by (simp add: bag_ok_def)
    then have disj: "set (q # qs) \<inter> set (bw_pool ?w2) = {}" using de(3) ht t by auto
    have "bag_ok ?w2 b' (q # qs)"
      using ok ch2 at2 qsz pop t w'(2) disj hq ht qqs
      by (auto simp: bag_ok_def BLOCK_SIZE_def split: if_splits)
    moreover have "bag_stack ?w2 qs = bag_stack w qs"
      by (rule bag_stack_cong) (use same qqs in auto)
    then have "p # bag_stack ?w2 (q # qs) = bag_stack w (h # t)"
      using t items hx at2 [of q] w'(1) arg_cong [OF pop(2), of rev] by simp
    moreover have "frame (h # t) w (q # qs) ?w2"
      using de(2,3) t by (auto simp: frame_def)
    ultimately show ?thesis using w' de(1) ps by (intro exI [of _ "q # qs"]) (simp add: bag_inv_def)
  qed
qed


lemma blockbag_new_spec:
  assumes "world_ok w" and "nw_ok nw" and "blockbag_new nw tid w = (b, w')"
  shows "\<exists>ps. bag_inv w' b ps \<and> bag_stack w' ps = [] \<and> frame [] w ps w'"
proof -
  obtain r where al: "blockpool_allocateBlock nw 0 w = (r, w')"
    and b: "b = \<lparr>bb_owner = tid, bb_reclaimCount = 0, bb_sizeInBlocks = 1, bb_head = r, bb_tail = r\<rparr>"
    using assms(3) by (auto simp: blockbag_new_def Let_def split: prod.splits)
  note sp = allocateBlock_spec [OF assms(1,2) al]
  have "bag_inv w' b [r]" using sp(1,2,3,4) b by (simp add: bag_inv_def bag_ok_def blk_at_def BLOCK_SIZE_def)
  moreover have "bag_stack w' [r] = []" using sp(4) by (simp add: blk_at_def)
  moreover have "frame [] w [r] w'" using sp(4,5,6) by (auto simp: frame_def)
  ultimately show ?thesis by blast
qed

lemma blocks_from_chain: "chain (bw_mem w) p ps \<Longrightarrow> blocks_from w p = Some ps"
proof (induction ps arbitrary: p)
  case Nil
  then show ?case by (subst blocks_from.simps) simp
next
  case (Cons q qs)
  then have "blocks_from w (bk_next (blk_at w q)) = Some qs" by (auto simp: blk_at_def)
  with Cons.prems show ?case by (subst blocks_from.simps) simp
qed

lemma blockbag_computeSizeInBlocks_spec:
  "bag_inv w b ps \<Longrightarrow> blockbag_computeSizeInBlocks b w = Some (length ps) \<and> bb_sizeInBlocks b = length ps"
  using blocks_from_chain [of w "bb_head b" ps]
  by (simp add: blockbag_computeSizeInBlocks_def bag_inv_def bag_ok_def)

lemma fold_sizes: "fold (\<lambda>p result. result + f p) ps (k::nat) = k + sum_list (map f ps)"
  by (induction ps arbitrary: k) simp_all

lemma bag_stack_length:
  "chain (bw_mem w) p ps \<Longrightarrow> length (bag_stack w ps) = sum_list (map (\<lambda>p. bk_size (blk_at w p)) ps)"
proof (induction ps arbitrary: p)
  case (Cons q qs)
  then have "block_wf (blk_at w q)" by (auto simp: blk_at_def)
  with Cons show ?case by (auto simp: block_size_items)
qed simp

lemma blockbag_computeSize_spec:
  assumes inv: "bag_inv w b ps"
  shows "blockbag_computeSize b w = Some (length (bag_stack w ps))"
    and "blockbag_computeSizeFast b w = length (bag_stack w ps)"
proof -
  have ok: "bag_ok w b ps" using inv by (simp add: bag_inv_def)
  then have ch: "chain (bw_mem w) (bb_head b) ps" by (simp add: bag_ok_def)
  note len = bag_stack_length [OF ch]
  show "blockbag_computeSize b w = Some (length (bag_stack w ps))"
    using ch len by (simp add: blockbag_computeSize_def blocks_from_chain fold_sizes)
  obtain h t where ps: "ps = h # t" and hb: "bb_head b = h" using bag_inv_Cons [OF inv] by metis
  have "sum_list (map (\<lambda>p. bk_size (blk_at w p)) t) = length t * BLOCK_SIZE"
  proof -
    have "map (\<lambda>p. bk_size (blk_at w p)) t = replicate (length t) BLOCK_SIZE"
      using ok ps by (intro nth_equalityI) (auto simp: bag_ok_def)
    then show ?thesis by (simp add: sum_list_replicate)
  qed
  then show "blockbag_computeSizeFast b w = length (bag_stack w ps)"
    using len ps hb ok by (simp add: blockbag_computeSizeFast_def bag_ok_def)
qed

text \<open>Joining and cutting chains.\<close>

lemma neq_Nil_conv_snoc': "xs \<noteq> [] \<longleftrightarrow> (\<exists>ys y. xs = ys @ [y])"
  by (cases xs rule: rev_cases) auto

lemma chain_split: "chain m p (xs @ y # zs) \<Longrightarrow> \<exists>b. m y = Some b \<and> block_wf b \<and> y \<noteq> 0 \<and> chain m (bk_next b) zs"
  by (induction xs arbitrary: p) auto

lemma chain_link:
  "chain m p (xs @ y # ys) \<Longrightarrow> y \<notin> set xs \<Longrightarrow> m y = Some b \<Longrightarrow> chain m r zs \<Longrightarrow> y \<notin> set zs \<Longrightarrow>
     chain (m(y \<mapsto> b\<lparr>bk_next := r\<rparr>)) p (xs @ y # zs)"
proof (induction xs arbitrary: p)
  case Nil
  have "chain (m(y \<mapsto> b\<lparr>bk_next := r\<rparr>)) r zs" by (rule chain_cong [OF Nil.prems(4)]) (use Nil.prems(5) in auto)
  moreover have "p = y \<and> y \<noteq> 0 \<and> block_wf (b\<lparr>bk_next := r\<rparr>)" using Nil.prems by (auto simp: block_wf_def)
  ultimately show ?case
    unfolding append_Nil chain.simps(2) by (intro conjI exI [of _ "b\<lparr>bk_next := r\<rparr>"]) (simp_all only: fun_upd_same blk.select_convs blk.update_convs, simp_all)
next
  case (Cons x xs)
  then show ?case by auto
qed

lemma block_items_next [simp]:
  "block_items (b\<lparr>bk_next := r\<rparr>) = block_items b" "block_wf (b\<lparr>bk_next := r\<rparr>) = block_wf b"
  by (simp_all add: block_items_def block_wf_def)

lemma bag_stack_append [simp]: "bag_stack w (ps @ qs) = bag_stack w ps @ bag_stack w qs"
  by (simp add: bag_stack_def)

lemma set_next_stack [simp]: "bag_stack (blk_upd y (\<lambda>x. x\<lparr>bk_next := r\<rparr>) w) ps = bag_stack w ps"
  unfolding bag_stack_def by (intro arg_cong [of _ _ concat] map_cong) auto

lemma set_next_mem:
  "bw_mem w y = Some b \<Longrightarrow> bw_mem (blk_upd y (\<lambda>x. x\<lparr>bk_next := r\<rparr>) w) = (bw_mem w)(y \<mapsto> b\<lparr>bk_next := r\<rparr>)"
  by (simp add: blk_upd_def blk_at_def)

lemma set_next_size [simp]: "bk_size (blk_at (blk_upd y (\<lambda>x. x\<lparr>bk_next := r\<rparr>) w) q) = bk_size (blk_at w q)"
  by simp

text \<open>A full block on its own, as \<open>removeFullBlock\<close> hands it over.\<close>

definition full_block :: "world \<Rightarrow> bptr \<Rightarrow> bool" where
  "full_block w q \<longleftrightarrow> chain (bw_mem w) q [q] \<and> bk_size (blk_at w q) = BLOCK_SIZE \<and> q \<notin> set (bw_pool w)"

lemma blockbag_addFullBlock_spec:
  assumes inv: "bag_inv w b ps" and q: "full_block w q" "q \<notin> set ps" and add: "blockbag_addFullBlock q b w = (b', w')"
  shows "bag_inv w' b' (ps @ [q])" "bag_stack w' (ps @ [q]) = bag_stack w ps @ rev (block_items (blk_at w q))"
proof -
  obtain xs y where ps: "ps = xs @ [y]" using inv by (auto simp: bag_inv_def bag_ok_def neq_Nil_conv_snoc')
  have ok: "bag_ok w b ps" "world_ok w" using inv by (auto simp: bag_inv_def)
  have y: "bb_tail b = y" using ok(1) ps by (simp add: bag_ok_def)
  have ch: "chain (bw_mem w) (bb_head b) (xs @ y # [])" and yx: "y \<notin> set xs" using ok(1) ps by (auto simp: bag_ok_def)
  obtain yb where yb: "bw_mem w y = Some yb" using chain_split [OF ch] by blast
  let ?w = "blk_upd y (\<lambda>x. x\<lparr>bk_next := q\<rparr>) w"
  have w': "w' = ?w" "b' = b\<lparr>bb_tail := q, bb_sizeInBlocks := bb_sizeInBlocks b + 1\<rparr>"
    using add y by (auto simp: blockbag_addFullBlock_def Let_def)
  have yq: "y \<noteq> q" using q(2) ps by auto
  have "chain (bw_mem ?w) (bb_head b) (xs @ y # [q])"
    unfolding set_next_mem [OF yb] by (rule chain_link [OF ch yx yb]) (use q(1) yq in \<open>auto simp: full_block_def\<close>)
  moreover have "hd (xs @ [y, q]) = hd (xs @ [y])" by (cases xs) auto
  moreover have "\<forall>p\<in>set (tl (xs @ [y, q])). p = q \<or> p \<in> set (tl (xs @ [y]))" by (cases xs) auto
  moreover have "world_ok ?w" using ok(2) yb by (auto intro: world_ok_upd)
  ultimately show "bag_inv w' b' (ps @ [q])"
    using ok(1) ps w' q by (auto simp: bag_inv_def bag_ok_def full_block_def)
  show "bag_stack w' (ps @ [q]) = bag_stack w ps @ rev (block_items (blk_at w q))"
    using w' yq by (simp del: blk_upd_simps) (simp add: yq)
qed

lemma blockbag_removeFullBlock_spec:
  assumes inv: "bag_inv w b ps" and rm: "blockbag_removeFullBlock b w = (q, b', w')"
  shows "(length ps < 3 \<longrightarrow> q = 0 \<and> b' = b \<and> w' = w) \<and>
     (3 \<le> length ps \<longrightarrow> (\<exists>h qs. ps = h # q # qs \<and> bag_inv w' b' (h # qs) \<and> full_block w' q
        \<and> bag_stack w' (h # qs) = rev (block_items (blk_at w h)) @ bag_stack w qs))"
proof -
  have ok: "bag_ok w b ps" "world_ok w" using inv by (auto simp: bag_inv_def)
  obtain h t x where ps: "ps = h # t" and hb: "bb_head b = h" and hx: "bw_mem w h = Some x"
    and ch: "chain (bw_mem w) (bk_next x) t" and hx': "blk_at w h = x" and h0: "h \<noteq> 0"
    using bag_inv_Cons [OF inv] by metis
  show ?thesis
  proof (cases t)
    case Nil
    then show ?thesis using ps ch hb hx' rm by (auto simp: blockbag_removeFullBlock_def)
  next
    case (Cons r qs)
    then obtain rb where r: "bk_next x = r" "r \<noteq> 0" "bw_mem w r = Some rb" and chq: "chain (bw_mem w) (bk_next rb) qs"
      and rwf: "block_wf rb"
      using ch by auto
    have rb: "blk_at w r = rb" using r by (simp add: blk_at_def)
    show ?thesis
    proof (cases qs)
      case Nil
      then show ?thesis using ps Cons chq hb hx' r rb rm by (auto simp: blockbag_removeFullBlock_def)
    next
      case (Cons s rs)
      then have s0: "bk_next rb \<noteq> 0" using chq by auto
      let ?w1 = "blk_upd h (\<lambda>x. x\<lparr>bk_next := bk_next rb\<rparr>) w"
      let ?w2 = "blk_upd r (\<lambda>x. x\<lparr>bk_next := 0\<rparr>) ?w1"
      have w': "q = r" "b' = b\<lparr>bb_sizeInBlocks := bb_sizeInBlocks b - 1\<rparr>" "w' = ?w2"
        using rm hb hx' r rb s0 by (auto simp: blockbag_removeFullBlock_def Let_def)
      have ne: "h \<noteq> r" "h \<notin> set qs" "r \<notin> set qs" using ok(1) ps \<open>t = r # qs\<close> by (auto simp: bag_ok_def)
      have full: "bk_size (blk_at w r) = BLOCK_SIZE" using ok(1) ps \<open>t = r # qs\<close> by (simp add: bag_ok_def)
      have chh: "chain (bw_mem w) h ([] @ h # t)" using ok(1) ps hb by (simp add: bag_ok_def)
      have "chain (bw_mem ?w1) h ([] @ h # qs)"
        unfolding set_next_mem [OF hx] by (rule chain_link [OF chh _ hx chq]) (use ne in auto)
      then have c0: "chain (bw_mem ?w1) h (h # qs)" by (simp only: append_Nil)
      have "\<forall>p\<in>set (h # qs). bw_mem ?w2 p = bw_mem ?w1 p"
        using ne by (metis blk_upd_simps(3) set_ConsD)
      then have c1: "chain (bw_mem ?w2) h (h # qs)" by (rule chain_cong [OF c0])
      have wok: "world_ok ?w2" using ok(2) hx r by (auto intro!: world_ok_upd)
      have szs: "\<And>p. bk_size (blk_at ?w2 p) = bk_size (blk_at w p)" by simp
      have pool: "bw_pool ?w2 = bw_pool w" by simp
      have "bag_ok ?w2 b' (h # qs)"
        using ok(1) c1 ne Cons hb unfolding bag_ok_def szs pool ps \<open>t = r # qs\<close> w'(2)
        by (simp del: chain.simps)
      then have "bag_inv ?w2 b' (h # qs)" using wok by (simp add: bag_inv_def)
      moreover have "chain (bw_mem ?w2) r [r]" using r rwf rb ne by simp
      then have "full_block ?w2 r"
        using full ok(1) unfolding full_block_def szs pool by (simp add: ps \<open>t = r # qs\<close> bag_ok_def)
      moreover have "bag_stack ?w2 (h # qs) = rev (block_items (blk_at w h)) @ bag_stack w qs"
        by (simp only: bag_stack_Cons [symmetric] set_next_stack)
      ultimately show ?thesis using w' ps \<open>t = r # qs\<close> Cons by simp
    qed
  qed
qed

end
