(* ===== verification/BagMove.thy ===== *)
theory BagMove
  imports BlockBag
begin

text \<open>
  Moving objects between bags and out of them, \<open>blockbag.h\<close> (\<open>erase\<close>,
  \<open>appendMoveFullBlocks\<close>, \<open>appendMoveAll\<close>, \<open>clearWithoutFreeingElements\<close>) and
  \<open>allocator_new.h\<close> (\<open>deallocateAndClear\<close>): no object is lost, none is duplicated, and
  the loops end. The locale \<open>stack_bag\<close> is the interface that the clients of a bag use.
\<close>

subsection \<open>A bag whose head may be full\<close>

definition bag_pre :: "world \<Rightarrow> bag \<Rightarrow> bptr list \<Rightarrow> bool" where
  "bag_pre w b ps \<longleftrightarrow> world_ok w \<and> ps \<noteq> [] \<and> distinct ps \<and> chain (bw_mem w) (bb_head b) ps
     \<and> bb_tail b = last ps \<and> bb_sizeInBlocks b = length ps
     \<and> (\<forall>p\<in>set (tl ps). bk_size (blk_at w p) = BLOCK_SIZE) \<and> set ps \<inter> set (bw_pool w) = {}"

lemma bag_inv_pre: "bag_inv w b ps \<longleftrightarrow> bag_pre w b ps \<and> bk_size (blk_at w (hd ps)) < BLOCK_SIZE"
  by (auto simp: bag_inv_def bag_ok_def bag_pre_def)

lemma bag_pre_dom: "bag_pre w b ps \<Longrightarrow> p \<in> set ps \<Longrightarrow> p \<in> dom (bw_mem w) \<and> p \<noteq> 0 \<and> block_wf (blk_at w p)"
  unfolding bag_pre_def blk_at_def using chain_dom by fastforce

lemma chain_upd:
  assumes "chain (bw_mem w) q ps" and "bk_next (f (blk_at w p)) = bk_next (blk_at w p)" and "block_wf (f (blk_at w p))"
  shows "chain (bw_mem (blk_upd p f w)) q ps"
  using assms by (induction ps arbitrary: q) (auto simp: blk_at_def)

lemma bag_pre_upd:
  assumes pre: "bag_pre w b ps" and p: "p \<in> set ps" and nx: "bk_next (f (blk_at w p)) = bk_next (blk_at w p)"
    and wf: "block_wf (f (blk_at w p))" and sz: "p \<in> set (tl ps) \<Longrightarrow> bk_size (f (blk_at w p)) = BLOCK_SIZE"
  shows "bag_pre (blk_upd p f w) b ps"
proof -
  have "world_ok (blk_upd p f w)" using bag_pre_dom [OF pre p] pre by (simp add: bag_pre_def world_ok_upd)
  moreover have "chain (bw_mem (blk_upd p f w)) (bb_head b) ps"
    using pre nx wf by (intro chain_upd) (auto simp: bag_pre_def)
  moreover have "\<forall>q\<in>set (tl ps). bk_size (blk_at (blk_upd p f w) q) = BLOCK_SIZE"
    using pre sz by (auto simp: bag_pre_def)
  ultimately show ?thesis using pre by (simp add: bag_pre_def)
qed

lemma bag_stack_upd:
  assumes "distinct ps" and "p \<in> set ps"
  shows "mset (bag_stack (blk_upd p f w) ps) + mset (block_items (blk_at w p))
           = mset (bag_stack w ps) + mset (block_items (f (blk_at w p)))"
  using assms
proof (induction ps)
  case (Cons q qs)
  show ?case
  proof (cases "q = p")
    case True
    then have "bag_stack (blk_upd p f w) qs = bag_stack w qs" using Cons.prems by (intro bag_stack_cong) auto
    then show ?thesis using True by simp
  next
    case False
    then show ?thesis using Cons by simp
  qed
qed simp

text \<open>Dropping an empty head block, the first step of \<open>erase\<close>.\<close>

lemma drop_empty_head:
  assumes inv: "bag_inv w b (h # q # qs)" and empty: "block_isEmpty (blk_at w h)"
  defines "w1 \<equiv> blockpool_deallocateBlock h w"
    and "b1 \<equiv> b\<lparr>bb_head := bk_next (blk_at w h), bb_sizeInBlocks := bb_sizeInBlocks b - 1\<rparr>"
  shows "bag_pre w1 b1 (q # qs)" "bb_head b1 = q" "bag_stack w1 (q # qs) = bag_stack w (h # q # qs)"
    "\<forall>r\<in>set (q # qs). blk_at w1 r = blk_at w r" "frame (h # q # qs) w (q # qs) w1"
proof -
  have ok: "bag_ok w b (h # q # qs)" and wok: "world_ok w" using inv by (auto simp: bag_inv_def)
  have h: "h \<in> dom (bw_mem w)" "h \<notin> set (bw_pool w)" "h \<notin> set (q # qs)" "h \<noteq> 0" "block_wf (blk_at w h)"
    and nx: "bk_next (blk_at w h) = q" and ch: "chain (bw_mem w) q (q # qs)"
    using ok by (auto simp: bag_ok_def blk_at_def)
  note de = deallocateBlock_spec [OF wok h(1,2)]
  have same: "\<forall>r\<in>set (q # qs). bw_mem w1 r = bw_mem w r" using de(2) h(3) unfolding w1_def by auto
  then show at: "\<forall>r\<in>set (q # qs). blk_at w1 r = blk_at w r" by (simp add: blk_at_def)
  have ch1: "chain (bw_mem w1) q (q # qs)" by (rule chain_cong [OF ch same])
  have disj: "set (q # qs) \<inter> set (bw_pool w1) = {}" using de(3) h(3) ok unfolding w1_def bag_ok_def by auto
  show hd: "bb_head b1 = q" using nx by (simp add: b1_def)
  have "\<forall>r\<in>set qs. bk_size (blk_at w1 r) = BLOCK_SIZE" using at ok by (auto simp: bag_ok_def)
  moreover have "world_ok w1" using de(1) by (simp add: w1_def)
  moreover have "bb_tail b1 = last (q # qs)" "bb_sizeInBlocks b1 = length (q # qs)" "distinct (q # qs)"
    using ok by (auto simp: b1_def bag_ok_def)
  ultimately show "bag_pre w1 b1 (q # qs)"
    using ch1 disj unfolding bag_pre_def hd by (simp del: chain.simps)
  have "block_items (blk_at w h) = []" using empty by (simp add: block_isEmpty_def block_items_def)
  then show "bag_stack w1 (q # qs) = bag_stack w (h # q # qs)"
    using bag_stack_cong [OF same] by simp
  show "frame (h # q # qs) w (q # qs) w1" using de(2,3) unfolding w1_def by (auto simp: frame_def)
qed

lemma mset_exchange:
  assumes a: "A1 + H = S + H'" "A2 + C = A1 + C'" "C' + P = C + Q" "H = H' + Q"
  shows "A2 + P = (S :: 'a multiset)"
proof (rule multiset_eqI)
  fix x
  have "count A1 x + count H x = count S x + count H' x" "count A2 x + count C x = count A1 x + count C' x"
    "count C' x + count P x = count C x + count Q x" "count H x = count H' x + count Q x"
    using a by (metis count_union)+
  then show "count (A2 + P) x = count S x" by simp
qed

text \<open>The second step: the object at an index of a block is replaced by the last one of the head.\<close>

lemma erase_head_step:
  assumes pre: "bag_pre w b (h # t)" and ix: "ix < bk_size (blk_at w h)"
  shows "bag_inv (blk_upd h (block_erase_ix ix) w) b (h # t)
    \<and> mset (bag_stack (blk_upd h (block_erase_ix ix) w) (h # t)) + {#block_peek ix (blk_at w h)#} = mset (bag_stack w (h # t))"
proof -
  have wf: "block_wf (blk_at w h)" using bag_pre_dom [OF pre, of h] by simp
  note er = block_erase_ix_items [OF wf ix]
  have "bag_pre (blk_upd h (block_erase_ix ix) w) b (h # t)"
    by (rule bag_pre_upd [OF pre]) (use er pre in \<open>auto simp: bag_pre_def\<close>)
  moreover have "bk_size (block_erase_ix ix (blk_at w h)) < BLOCK_SIZE" using er(3) wf ix by (auto simp: block_wf_def)
  moreover have "mset (bag_stack (blk_upd h (block_erase_ix ix) w) (h # t)) + mset (block_items (blk_at w h))
      = mset (bag_stack w (h # t)) + mset (block_items (block_erase_ix ix (blk_at w h)))"
    using pre by (intro bag_stack_upd) (auto simp: bag_pre_def)
  ultimately show ?thesis using er(4) by (auto simp: bag_inv_pre)
qed

lemma erase_inner_step:
  assumes pre: "bag_pre w b (h # t)" and cur: "cur \<in> set t" and ix: "ix < BLOCK_SIZE" and h0: "bk_size (blk_at w h) \<noteq> 0"
  defines "obj \<equiv> fst (block_pop (blk_at w h))" and "w2 \<equiv> blk_upd h (snd \<circ> block_pop) w"
  shows "bag_inv (blk_upd cur (block_replace ix obj) w2) b (h # t)
    \<and> mset (bag_stack (blk_upd cur (block_replace ix obj) w2) (h # t)) + {#block_peek ix (blk_at w cur)#} = mset (bag_stack w (h # t))"
proof -
  have wf: "block_wf (blk_at w h)" "block_wf (blk_at w cur)" using bag_pre_dom [OF pre] cur by auto
  have hc: "h \<noteq> cur" and d: "distinct (h # t)" and full: "bk_size (blk_at w cur) = BLOCK_SIZE"
    using pre cur by (auto simp: bag_pre_def)
  note pop = block_pop_items [OF wf(1) h0]
  have pre2: "bag_pre w2 b (h # t)"
    unfolding w2_def by (rule bag_pre_upd [OF pre]) (use pop d in auto)
  have at: "blk_at w2 cur = blk_at w cur" "blk_at w2 h = snd (block_pop (blk_at w h))" using hc by (auto simp: w2_def)
  have pre3: "bag_pre (blk_upd cur (block_replace ix obj) w2) b (h # t)"
    by (rule bag_pre_upd [OF pre2]) (use cur at wf full in auto)
  have "bk_size (blk_at w2 h) < BLOCK_SIZE" using at pop wf(1) h0 by (auto simp: block_wf_def)
  then have inv: "bag_inv (blk_upd cur (block_replace ix obj) w2) b (h # t)" using pre3 hc by (simp add: bag_inv_pre)
  have m1: "mset (bag_stack w2 (h # t)) + mset (block_items (blk_at w h))
      = mset (bag_stack w (h # t)) + mset (block_items (snd (block_pop (blk_at w h))))"
    using bag_stack_upd [OF d, of h "snd \<circ> block_pop" w] by (simp add: w2_def)
  have m2: "mset (bag_stack (blk_upd cur (block_replace ix obj) w2) (h # t)) + mset (block_items (blk_at w cur))
      = mset (bag_stack w2 (h # t)) + mset ((block_items (blk_at w cur))[ix := obj])"
    using bag_stack_upd [OF d, of cur "block_replace ix obj" w2] cur at by (simp add: block_replace_items)
  have len: "ix < length (block_items (blk_at w cur))" using ix full block_size_items [OF wf(2)] by simp
  have m3: "mset ((block_items (blk_at w cur))[ix := obj]) + {#block_peek ix (blk_at w cur)#}
      = mset (block_items (blk_at w cur)) + {#obj#}"
    using mset_list_update_add [OF len] block_peek_items [of ix "blk_at w cur"] ix full wf(2) by simp
  have m4: "mset (block_items (blk_at w h)) = mset (block_items (snd (block_pop (blk_at w h)))) + {#obj#}"
    using arg_cong [OF pop(2), of mset] by (simp add: obj_def)
  show ?thesis using inv mset_exchange [OF m1 m2 m3 m4] by blast
qed

definition erase_at :: "bptr \<Rightarrow> nat \<Rightarrow> bag \<Rightarrow> world \<Rightarrow> bool \<times> bag \<times> world" where
  "erase_at cur ix b w =
     (if cur = bb_head b then (False, b, blk_upd (bb_head b) (block_erase_ix ix) w)
      else (True, b, blk_upd cur (block_replace ix (fst (block_pop (blk_at w (bb_head b)))))
                       (blk_upd (bb_head b) (snd \<circ> block_pop) w)))"

lemma blockbag_erase_alt:
  "blockbag_erase cur ix b w =
     (if block_isEmpty (blk_at w (bb_head b))
      then erase_at cur ix (b\<lparr>bb_head := bk_next (blk_at w (bb_head b)), bb_sizeInBlocks := bb_sizeInBlocks b - 1\<rparr>)
             (blockpool_deallocateBlock (bb_head b) w)
      else erase_at cur ix b w)"
  by (simp add: blockbag_erase_def erase_at_def Let_def)

lemma blockbag_erase_spec:
  assumes inv: "bag_inv w b ps" and cur: "cur \<in> set ps" and ix: "ix < bk_size (blk_at w cur)"
    and er: "blockbag_erase cur ix b w = (r, b', w')"
  shows "\<exists>ps'. bag_inv w' b' ps' \<and> mset (bag_stack w' ps') + {#block_peek ix (blk_at w cur)#} = mset (bag_stack w ps)
    \<and> (r \<longleftrightarrow> cur \<noteq> bb_head b')"
proof -
  obtain h t where ps: "ps = h # t" and hb: "bb_head b = h" using bag_inv_Cons [OF inv] by metis
  have inv': "bag_inv w b (h # t)" using inv ps by simp
  have key: "\<exists>ps'. bag_inv w' b' ps' \<and> mset (bag_stack w' ps') + {#block_peek ix (blk_at w1 cur)#} = mset (bag_stack w1 (g # u))
      \<and> (r \<longleftrightarrow> cur \<noteq> bb_head b')"
    if pre: "bag_pre w1 b1 (g # u)" and g: "bb_head b1 = g" and c: "cur \<in> set (g # u)"
      and ix1: "ix < bk_size (blk_at w1 cur)" and g0: "bk_size (blk_at w1 g) \<noteq> 0"
      and e: "erase_at cur ix b1 w1 = (r, b', w')" for w1 b1 g u
  proof (cases "cur = g")
    case True
    have "r = False" "b' = b1" "w' = blk_upd g (block_erase_ix ix) w1" using e g True by (simp_all add: erase_at_def)
    then show ?thesis using erase_head_step [OF pre, of ix] ix1 True g by blast
  next
    case False
    then have cu: "cur \<in> set u" using c by simp
    have "ix < BLOCK_SIZE" using ix1 pre cu by (auto simp: bag_pre_def)
    note st = erase_inner_step [OF pre cu this g0]
    have "r = True" "b' = b1"
      "w' = blk_upd cur (block_replace ix (fst (block_pop (blk_at w1 g)))) (blk_upd g (snd \<circ> block_pop) w1)"
      using e g False by (simp_all add: erase_at_def)
    then show ?thesis using st False g by blast
  qed
  show ?thesis
  proof (cases "block_isEmpty (blk_at w h)")
    case False
    then have "bk_size (blk_at w h) \<noteq> 0" by (simp add: block_isEmpty_def)
    then show ?thesis
      using key [of w b h t] inv' hb cur ps ix er False by (simp add: bag_inv_pre blockbag_erase_alt)
  next
    case True
    then have "cur \<noteq> h" using ix by (auto simp: block_isEmpty_def)
    then obtain q qs where t: "t = q # qs" and c: "cur \<in> set (q # qs)" using cur ps by (cases t) auto
    note dr = drop_empty_head [OF inv' [unfolded t] True]
    have q: "bk_size (blk_at w q) = BLOCK_SIZE" using inv' t by (simp add: bag_inv_def bag_ok_def)
    have at: "blk_at (blockpool_deallocateBlock h w) cur = blk_at w cur"
      "blk_at (blockpool_deallocateBlock h w) q = blk_at w q" using dr(4) c by auto
    have e: "erase_at cur ix (b\<lparr>bb_head := bk_next (blk_at w h), bb_sizeInBlocks := bb_sizeInBlocks b - 1\<rparr>)
        (blockpool_deallocateBlock h w) = (r, b', w')"
      using er True hb by (simp only: blockbag_erase_alt if_True)
    show ?thesis
      using key [OF dr(1) dr(2) c _ _ e] ix q dr(3) unfolding at ps t by (simp only: BLOCK_SIZE_def)
  qed
qed

subsection \<open>Clearing, and moving whole blocks\<close>

lemma clear_blocks:
  assumes "world_ok w" and "distinct qs" and "set qs \<subseteq> dom (bw_mem w)" and "set qs \<inter> set (bw_pool w) = {}"
  defines "w1 \<equiv> fold (\<lambda>p w. blockpool_deallocateBlock p (blk_upd p block_clear w)) qs w"
  shows "world_ok w1 \<and> (\<forall>p. p \<notin> set qs \<longrightarrow> bw_mem w1 p = bw_mem w p) \<and> set (bw_pool w1) \<subseteq> set qs \<union> set (bw_pool w)"
  using assms(1-4) unfolding w1_def
proof (induction qs arbitrary: w)
  case (Cons q qs)
  let ?w = "blockpool_deallocateBlock q (blk_upd q block_clear w)"
  have ok: "world_ok (blk_upd q block_clear w)" using Cons.prems by (intro world_ok_upd) auto
  have "q \<in> dom (bw_mem (blk_upd q block_clear w))" "q \<notin> set (bw_pool (blk_upd q block_clear w))"
    using Cons.prems by auto
  note de = deallocateBlock_spec [OF ok this]
  have mem: "\<forall>p. p \<noteq> q \<longrightarrow> bw_mem ?w p = bw_mem w p" using de(2) by auto
  have dom: "set qs \<subseteq> dom (bw_mem ?w)"
  proof
    fix p assume "p \<in> set qs"
    then have "p \<noteq> q" "p \<in> dom (bw_mem w)" using Cons.prems by auto
    then show "p \<in> dom (bw_mem ?w)" using mem by (simp add: domIff)
  qed
  have pool: "set (bw_pool ?w) \<subseteq> insert q (set (bw_pool w))" using de(3) by simp
  have disj: "set qs \<inter> set (bw_pool ?w) = {}" using pool Cons.prems by auto
  have "distinct qs" using Cons.prems by simp
  note ih = Cons.IH [OF de(1) this dom disj]
  then show ?case using mem pool by (simp del: blk_upd_simps) blast
qed simp

lemma blockbag_clear_spec:
  assumes inv: "bag_inv w b ps"
  shows "\<exists>b' w'. blockbag_clearWithoutFreeingElements b w = Some (b', w') \<and> bag_inv w' b' [bb_head b]
    \<and> bag_stack w' [bb_head b] = [] \<and> frame ps w [bb_head b] w'"
proof -
  obtain h t x where ps: "ps = h # t" and hb: "bb_head b = h" and hx: "bw_mem w h = Some x" and wfx: "block_wf x"
    and ch: "chain (bw_mem w) (bk_next x) t" and h: "h \<notin> set t" "h \<noteq> 0" "h \<notin> set (bw_pool w)" "blk_at w h = x"
    using bag_inv_Cons [OF inv] by metis
  have pre: "bag_pre w b (h # t)" using inv ps by (simp add: bag_inv_pre)
  have bf: "blocks_from w (bk_next (blk_at w h)) = Some t" using blocks_from_chain [OF ch] h(4) by simp
  let ?w1 = "fold (\<lambda>p w. blockpool_deallocateBlock p (blk_upd p block_clear w)) t w"
  let ?w3 = "blk_upd h block_clear (blk_upd h (\<lambda>x. x\<lparr>bk_next := 0\<rparr>) ?w1)"
  let ?b = "b\<lparr>bb_tail := h, bb_sizeInBlocks := 1\<rparr>"
  have res: "blockbag_clearWithoutFreeingElements b w = Some (?b, ?w3)"
    using bf hb by (simp add: blockbag_clearWithoutFreeingElements_def Let_def)
  have tdom: "set t \<subseteq> dom (bw_mem w)" using bag_pre_dom [OF pre] by auto
  have "distinct t" "set t \<inter> set (bw_pool w) = {}" "world_ok w" using pre by (auto simp: bag_pre_def)
  note cl = clear_blocks [OF this(3,1) tdom this(2)]
  have hm: "bw_mem ?w1 h = Some x" using cl h(1) hx by auto
  have hp: "h \<notin> set (bw_pool ?w1)" using cl h(1,3) by blast
  have at: "blk_at ?w3 h = block_clear (x\<lparr>bk_next := 0\<rparr>)" using hm by (simp add: blk_at_def)
  have ok: "world_ok ?w3" using cl hm by (intro world_ok_upd) auto
  have "block_wf (block_clear (x\<lparr>bk_next := 0\<rparr>))" using wfx by (simp add: block_wf_def block_clear_def)
  then have "chain (bw_mem ?w3) h [h]" using at h(2) hm by (simp add: block_clear_def)
  then have "bag_inv ?w3 ?b [h]"
    using ok at hp hb by (simp add: bag_inv_def bag_ok_def block_clear_def BLOCK_SIZE_def del: chain.simps)
  moreover have "bag_stack ?w3 [h] = []" using at by (simp add: block_items_def block_clear_def)
  moreover have "frame ps w [h] ?w3" using cl ps by (auto simp: frame_def)
  ultimately show ?thesis using res hb by auto
qed


lemma bag_inv_alt:
  "bag_inv w b ps \<longleftrightarrow> world_ok w \<and> ps \<noteq> [] \<and> distinct ps \<and> chain (bw_mem w) (bb_head b) ps
     \<and> bb_tail b = last ps \<and> bb_sizeInBlocks b = length ps \<and> bk_size (blk_at w (hd ps)) < BLOCK_SIZE
     \<and> (\<forall>p\<in>set (tl ps). bk_size (blk_at w p) = BLOCK_SIZE) \<and> set ps \<inter> set (bw_pool w) = {}"
  by (auto simp: bag_inv_def bag_ok_def)

lemma computeSizeInBlocks_chain:
  "chain (bw_mem w) (bb_head b) ps \<Longrightarrow> blockbag_computeSizeInBlocks b w = Some (length ps)"
  by (simp add: blockbag_computeSizeInBlocks_def blocks_from_chain)

lemma chain_cut:
  assumes "chain m p (xs @ y # ys)" and "y \<notin> set xs" and "m y = Some b"
  shows "chain (m(y \<mapsto> b\<lparr>bk_next := 0\<rparr>)) p (xs @ [y])"
  by (rule chain_link [OF assms, of 0 "[]"]) simp_all

lemma hd_append_ne: assumes "ps \<noteq> []" shows "hd (ps @ zs) = hd ps" "tl (ps @ zs) = tl ps @ zs"
  using assms by (cases ps; simp)+

lemma hd_cut: "hd (xs @ [y]) = hd (xs @ y # zs)" "set (tl (xs @ [y])) \<subseteq> set (tl (xs @ y # zs))"
  by (cases xs; auto)+

lemma appendMoveFullBlocks_spec:
  assumes inv: "bag_inv w b ps" and inv2: "bag_inv w c (xs @ y # zs)" and disj: "set ps \<inter> set (xs @ y # zs) = {}"
  shows "\<exists>b' c' w'. blockbag_appendMoveFullBlocks y b c w = Some (b', c', w')
    \<and> bag_inv w' b' (ps @ zs) \<and> bag_inv w' c' (xs @ [y])
    \<and> bag_stack w' (ps @ zs) = bag_stack w ps @ bag_stack w zs \<and> bag_stack w' (xs @ [y]) = bag_stack w (xs @ [y])"
proof -
  have chc: "chain (bw_mem w) (bb_head c) (xs @ y # zs)" and dc: "distinct (xs @ y # zs)"
    using inv2 by (auto simp: bag_inv_alt)
  obtain yb where yb: "bw_mem w y = Some yb" "chain (bw_mem w) (bk_next yb) zs" using chain_split [OF chc] by blast
  have yat: "blk_at w y = yb" using yb by (simp add: blk_at_def)
  show ?thesis
  proof (cases zs)
    case Nil
    then have "blockbag_appendMoveFullBlocks y b c w = Some (b, c, w)"
      using yb yat by (simp add: blockbag_appendMoveFullBlocks_def)
    then show ?thesis using inv inv2 Nil by simp
  next
    case (Cons z zs')
    then have nz: "bk_next yb = z" "bk_next yb \<noteq> 0" using yb by auto
    obtain us u where ps: "ps = us @ [u]" using inv by (auto simp: bag_inv_alt neq_Nil_conv_snoc')
    have u: "bb_tail b = u" "u \<notin> set us" "chain (bw_mem w) (bb_head b) (us @ u # [])"
      using inv ps by (auto simp: bag_inv_alt)
    obtain ub where ub: "bw_mem w u = Some ub" using chain_split [OF u(3)] by blast
    have uy: "u \<noteq> y" "u \<notin> set zs" "u \<notin> set xs" "y \<notin> set ps" "y \<notin> set zs" "y \<notin> set xs"
      using disj ps dc by auto
    let ?w1 = "blk_upd u (\<lambda>x. x\<lparr>bk_next := bk_next yb\<rparr>) w"
    let ?w2 = "blk_upd y (\<lambda>x. x\<lparr>bk_next := 0\<rparr>) ?w1"
    have m1: "bw_mem ?w1 = (bw_mem w)(u \<mapsto> ub\<lparr>bk_next := bk_next yb\<rparr>)" by (rule set_next_mem [OF ub])
    have yb1: "bw_mem ?w1 y = Some yb" using m1 uy yb by simp
    have m2: "bw_mem ?w2 = (bw_mem ?w1)(y \<mapsto> yb\<lparr>bk_next := 0\<rparr>)" by (rule set_next_mem [OF yb1])
    have b1: "chain (bw_mem ?w1) (bb_head b) (us @ u # zs)"
      unfolding m1 by (rule chain_link [OF u(3) u(2) ub yb(2) uy(2)])
    have c1: "chain (bw_mem ?w1) (bb_head c) (xs @ y # zs)"
      by (rule chain_cong [OF chc]) (use uy in \<open>auto simp: m1\<close>)
    have b2: "chain (bw_mem ?w2) (bb_head b) (us @ u # zs)"
      by (rule chain_cong [OF b1]) (use uy ps in \<open>auto simp: m2\<close>)
    have c2: "chain (bw_mem ?w2) (bb_head c) (xs @ [y])"
      unfolding m2 by (rule chain_cut [OF c1 uy(6) yb1])
    let ?b' = "b\<lparr>bb_tail := bb_tail c, bb_sizeInBlocks := length (us @ u # zs)\<rparr>"
    let ?c' = "c\<lparr>bb_tail := y, bb_sizeInBlocks := length (xs @ [y])\<rparr>"
    have "blockbag_computeSizeInBlocks (b\<lparr>bb_tail := bb_tail c\<rparr>) ?w1 = Some (length (us @ u # zs))"
      using b1 by (intro computeSizeInBlocks_chain) simp
    moreover have "blockbag_computeSizeInBlocks (c\<lparr>bb_tail := y\<rparr>) ?w2 = Some (length (xs @ [y]))"
      using c2 by (intro computeSizeInBlocks_chain) simp
    ultimately have res: "blockbag_appendMoveFullBlocks y b c w = Some (?b', ?c', ?w2)"
      using nz yat u(1) by (simp add: blockbag_appendMoveFullBlocks_def Let_def)
    have wok: "world_ok ?w2" using inv ub yb by (auto simp: bag_inv_alt intro!: world_ok_upd)
    have szs: "\<And>p. bk_size (blk_at ?w2 p) = bk_size (blk_at w p)" by simp
    have pool: "bw_pool ?w2 = bw_pool w" by simp
    have full: "\<forall>p\<in>set zs. bk_size (blk_at w p) = BLOCK_SIZE"
      using inv2 by (cases xs) (auto simp: bag_inv_alt)
    have "ps \<noteq> []" using ps by simp
    note hdp = hd_append_ne [OF this] hd_cut [of xs y zs]
    have psz: "us @ u # zs = ps @ zs" using ps by simp
    have "bag_inv ?w2 ?b' (ps @ zs)"
      unfolding bag_inv_alt szs pool hdp
      using wok b2 inv inv2 full disj Cons unfolding psz by (auto simp: bag_inv_alt simp del: chain.simps blk_upd_simps)
    moreover have "bag_inv ?w2 ?c' (xs @ [y])"
      unfolding bag_inv_alt szs pool hdp
      using wok c2 inv2 hdp(4) by (auto simp: bag_inv_alt simp del: chain.simps blk_upd_simps)
    moreover have "bag_stack ?w2 (ps @ zs) = bag_stack w ps @ bag_stack w zs" "bag_stack ?w2 (xs @ [y]) = bag_stack w (xs @ [y])"
      by (simp_all only: set_next_stack bag_stack_append)
    ultimately show ?thesis using res by blast
  qed
qed


subsection \<open>The interface of a bag\<close>

locale stack_bag =
  fixes rep :: "'s \<Rightarrow> ptr list \<Rightarrow> bool"
    and is_empty :: "'s \<Rightarrow> bool"
    and push :: "ptr \<Rightarrow> 's \<Rightarrow> 's"
    and pop :: "'s \<Rightarrow> ptr \<times> 's"
  assumes empty_iff: "rep s xs \<Longrightarrow> is_empty s \<longleftrightarrow> xs = []"
    and push_rep: "rep s xs \<Longrightarrow> rep (push x s) (x # xs)"
    and pop_rep: "rep s (x # xs) \<Longrightarrow> \<exists>s'. pop s = (x, s') \<and> rep s' xs"
begin

lemma push_all: "rep s xs \<Longrightarrow> rep (fold push ys s) (rev ys @ xs)"
  by (induction ys arbitrary: s xs) (use push_rep in fastforce)+

lemma push_pop: "rep s xs \<Longrightarrow> \<exists>s'. pop (push x s) = (x, s') \<and> rep s' xs"
  using push_rep pop_rep by blast

lemma drain_rep: "rep s xs \<Longrightarrow> \<exists>s'. drain_loop is_empty pop f s a = Some (s', fold f xs a) \<and> rep s' []"
proof (induction xs arbitrary: s a)
  case Nil
  then show ?case using empty_iff by (subst drain_loop.simps) auto
next
  case (Cons x xs)
  obtain s' where s': "pop s = (x, s')" "rep s' xs" using pop_rep [OF Cons.prems] by blast
  have "\<not> is_empty s" using empty_iff [OF Cons.prems] by simp
  then have "drain_loop is_empty pop f s a = drain_loop is_empty pop f s' (f x a)"
    by (subst drain_loop.simps) (simp add: s'(1))
  then show ?case using Cons.IH [OF s'(2), of "f x a"] by simp
qed

lemma fill_and_drain:
  "rep s [] \<Longrightarrow> \<exists>s'. drain_loop is_empty pop f (fold push ys s) a = Some (s', fold f (rev ys) a) \<and> rep s' []"
  using drain_rep [OF push_all [of s "[]" ys]] by simp

end

definition bag_rep :: "bag \<times> world \<Rightarrow> ptr list \<Rightarrow> bool" where
  "bag_rep bw xs \<longleftrightarrow> (\<exists>ps. bag_inv (snd bw) (fst bw) ps \<and> bag_stack (snd bw) ps = xs)"

text \<open>The address for a new block: the least one that is free.\<close>

definition nw_next :: "(bptr \<Rightarrow> blk option) \<Rightarrow> bptr" where
  "nw_next m = Suc (Max (insert 0 (dom m)))"

lemma nw_next_ok: "nw_ok nw_next"
proof -
  have "Suc (Max (insert 0 (dom m))) \<notin> dom m" if "finite (dom m)" for m :: "bptr \<Rightarrow> blk option"
  proof
    assume "Suc (Max (insert 0 (dom m))) \<in> dom m"
    then have "Suc (Max (insert 0 (dom m))) \<le> Max (insert 0 (dom m))" using that by (intro Max_ge) auto
    then show False by simp
  qed
  then show ?thesis by (simp add: nw_ok_def nw_next_def)
qed

interpretation bb: stack_bag bag_rep "\<lambda>(b, w). blockbag_isEmpty b w"
  "\<lambda>x (b, w). blockbag_add nw_next x b w" "\<lambda>(b, w). blockbag_remove b w"
proof (unfold_locales, goal_cases)
  case (1 s xs)
  then show ?case using blockbag_isEmpty_spec by (cases s) (auto simp: bag_rep_def)
next
  case (2 s xs x)
  obtain b w where s: "s = (b, w)" by (cases s)
  obtain ps where ps: "bag_inv w b ps" "bag_stack w ps = xs" using 2 s by (auto simp: bag_rep_def)
  obtain b' w' where ad: "blockbag_add nw_next x b w = (b', w')" by fastforce
  show ?case using blockbag_add_spec [OF ps(1) nw_next_ok ad] ps(2) s ad by (auto simp: bag_rep_def)
next
  case (3 s x xs)
  obtain b w where s: "s = (b, w)" by (cases s)
  obtain ps where ps: "bag_inv w b ps" "bag_stack w ps = x # xs" using 3 s by (auto simp: bag_rep_def)
  obtain p b' w' where rm: "blockbag_remove b w = (p, b', w')" by (metis prod_cases3)
  show ?case using blockbag_remove_spec [OF ps(1) _ rm] ps(2) s rm by (fastforce simp: bag_rep_def)
qed

subsection \<open>Moving everything\<close>

lemma bag_inv_frame:
  assumes "bag_inv w b ps" and "world_ok w'" and "set ps \<inter> set qs = {}" and "frame qs w qs' w'"
  shows "bag_inv w' b ps \<and> set ps \<inter> set qs' = {} \<and> bag_stack w' ps = bag_stack w ps"
  using bag_ok_frame [of w b ps qs qs' w'] assms bag_inv_dom [OF assms(1)] by (auto simp: bag_inv_def)

lemma bag_move_loop_spec:
  assumes "nw_ok nw" and "bag_inv w b ps" and "bag_inv w c qs" and "set ps \<inter> set qs = {}"
  shows "\<exists>b' c' w' ps' qs'. bag_move_loop nw b c w = Some (b', c', w') \<and> bag_inv w' b' ps' \<and> bag_inv w' c' qs'
    \<and> set ps' \<inter> set qs' = {} \<and> bag_stack w' ps' = rev (bag_stack w qs) @ bag_stack w ps \<and> bag_stack w' qs' = []"
  using assms(2-)
proof (induction "bag_stack w qs" arbitrary: w b c ps qs)
  case Nil
  then have "blockbag_isEmpty c w" using blockbag_isEmpty_spec by simp
  then have "bag_move_loop nw b c w = Some (b, c, w)" by (subst bag_move_loop.simps) simp
  then show ?case using Nil by (metis append_Nil rev.simps(1))
next
  case (Cons x xs)
  have ne: "bag_stack w qs \<noteq> []" using Cons.hyps(2) by auto
  obtain p c1 w1 where rm: "blockbag_remove c w = (p, c1, w1)" by (metis prod_cases3)
  obtain qs1 where q1: "bag_inv w1 c1 qs1" "p # bag_stack w1 qs1 = bag_stack w qs" "frame qs w qs1 w1"
    using blockbag_remove_spec [OF Cons.prems(2) ne rm] by blast
  have st: "p = x" "bag_stack w1 qs1 = xs" using q1(2) Cons.hyps(2) by (metis list.inject)+
  have "world_ok w1" using q1(1) by (simp add: bag_inv_def)
  note b1 = bag_inv_frame [OF Cons.prems(1) this Cons.prems(3) q1(3)]
  obtain b2 w2 where ad: "blockbag_add nw p b w1 = (b2, w2)" by fastforce
  obtain ps2 where p2: "bag_inv w2 b2 ps2" "bag_stack w2 ps2 = p # bag_stack w1 ps" "frame ps w1 ps2 w2"
    using blockbag_add_spec [OF conjunct1 [OF b1] assms(1) ad] by blast
  have "world_ok w2" "set qs1 \<inter> set ps = {}" using p2(1) b1 by (auto simp: bag_inv_def)
  note c2 = bag_inv_frame [OF q1(1) this p2(3)]
  have "\<not> blockbag_isEmpty c w" using blockbag_isEmpty_spec [OF Cons.prems(2)] ne by simp
  then have step: "bag_move_loop nw b c w = bag_move_loop nw b2 c1 w2"
    by (subst bag_move_loop.simps) (simp add: rm ad)
  have "xs = bag_stack w2 qs1" "set ps2 \<inter> set qs1 = {}" using c2 st by auto
  note ih = Cons.hyps(1) [OF this(1) p2(1) conjunct1 [OF c2] this(2)]
  have "rev (bag_stack w2 qs1) @ bag_stack w2 ps2 = rev (bag_stack w qs) @ bag_stack w ps"
    using c2 st p2(2) b1 Cons.hyps(2) by (metis append.assoc append_Cons append_Nil rev.simps(2))
  then show ?case using ih step by simp
qed

lemma appendMoveAll_spec:
  assumes nw: "nw_ok nw" and inv: "bag_inv w b ps" and inv2: "bag_inv w c qs" and disj: "set ps \<inter> set qs = {}"
  shows "\<exists>b' c' w' ps' qs'. blockbag_appendMoveAll nw b c w = Some (b', c', w') \<and> bag_inv w' b' ps' \<and> bag_inv w' c' qs'
    \<and> set ps' \<inter> set qs' = {} \<and> mset (bag_stack w' ps') = mset (bag_stack w ps) + mset (bag_stack w qs) \<and> bag_stack w' qs' = []"
proof -
  obtain h t where qs: "qs = h # t" and hc: "bb_head c = h" using bag_inv_Cons [OF inv2] by metis
  have i2: "bag_inv w c ([] @ h # t)" and d2: "set ps \<inter> set ([] @ h # t) = {}" and ht: "h \<notin> set t"
    using inv2 disj qs by (auto simp: bag_inv_alt)
  obtain b1 c1 w1 where m: "blockbag_appendMoveFullBlocks h b c w = Some (b1, c1, w1)"
    "bag_inv w1 b1 (ps @ t)" "bag_inv w1 c1 [h]"
    "bag_stack w1 (ps @ t) = bag_stack w ps @ bag_stack w t" "bag_stack w1 [h] = bag_stack w [h]"
    using appendMoveFullBlocks_spec [OF inv i2 d2] by auto
  have "set (ps @ t) \<inter> set [h] = {}" using disj ht qs by auto
  from bag_move_loop_spec [OF nw m(2,3) this]
  obtain b2 c2 w2 ps2 qs2 where l: "bag_move_loop nw b1 c1 w1 = Some (b2, c2, w2)"
    "bag_inv w2 b2 ps2" "bag_inv w2 c2 qs2" "set ps2 \<inter> set qs2 = {}"
    "bag_stack w2 ps2 = rev (bag_stack w1 [h]) @ bag_stack w1 (ps @ t)" "bag_stack w2 qs2 = []" by blast
  have ch: "chain (bw_mem w2) (bb_head b2) ps2" "bb_sizeInBlocks b2 = length ps2" using l(2) by (auto simp: bag_inv_alt)
  have res: "blockbag_appendMoveAll nw b c w = Some (b2\<lparr>bb_sizeInBlocks := length ps2\<rparr>, c2, w2)"
    using m(1) l(1) hc computeSizeInBlocks_chain [OF ch(1)] by (simp add: blockbag_appendMoveAll_def)
  have same: "b2\<lparr>bb_sizeInBlocks := length ps2\<rparr> = b2" using ch(2) by simp
  have "mset (bag_stack w2 ps2) = mset (bag_stack w ps) + mset (bag_stack w qs)"
    unfolding l(5) m(4,5) qs by (simp add: ac_simps)
  then show ?thesis using res l unfolding same by blast
qed


subsection \<open>Properties\<close>

text \<open>A bag against a stack: any sequence of operations that never removes from an empty stack.\<close>

datatype bag_op = Add ptr | Remove

fun bag_run :: "bag_op list \<Rightarrow> bag \<times> world \<Rightarrow> ptr list \<times> (bag \<times> world)" where
  "bag_run [] bw = ([], bw)"
| "bag_run (Add x # ops) bw = bag_run ops (blockbag_add nw_next x (fst bw) (snd bw))"
| "bag_run (Remove # ops) bw =
     (let (x, bw1) = blockbag_remove (fst bw) (snd bw); (xs, bw2) = bag_run ops bw1 in (x # xs, bw2))"

fun stack_run :: "bag_op list \<Rightarrow> ptr list \<Rightarrow> (ptr list \<times> ptr list) option" where
  "stack_run [] st = Some ([], st)"
| "stack_run (Add x # ops) st = stack_run ops (x # st)"
| "stack_run (Remove # ops) [] = None"
| "stack_run (Remove # ops) (x # st) = map_option (\<lambda>(xs, st'). (x # xs, st')) (stack_run ops st)"

definition world0 :: world where
  "world0 = \<lparr>bw_mem = Map.empty, bw_pool = []\<rparr>"

lemma world0_ok: "world_ok world0"
  by (simp add: world0_def world_ok_def)

lemma bag0: "bag_rep (blockbag_new nw_next tid world0) []"
proof -
  obtain b w where nb: "blockbag_new nw_next tid world0 = (b, w)" by fastforce
  show ?thesis using blockbag_new_spec [OF world0_ok nw_next_ok nb] nb by (auto simp: bag_rep_def)
qed

text \<open>
  C28. A block bag is a stack: whatever sequence of \<open>add\<close> and \<open>remove\<close> calls is made on
  a well-formed bag, with blocks being taken from and given back to the pool as the head block fills
  and empties, the removed objects are those that a plain stack would give, and the bag stays
  well formed.
\<close>

theorem bag_refines_stack:
  assumes "bag_rep bw st" and "stack_run ops st = Some (xs, st')"
  shows "fst (bag_run ops bw) = xs \<and> bag_rep (snd (bag_run ops bw)) st'"
  using assms
proof (induction ops st arbitrary: bw xs rule: stack_run.induct)
  case (2 x ops st)
  have "bag_rep (blockbag_add nw_next x (fst bw) (snd bw)) (x # st)"
    using bb.push_rep [OF 2(2), of x] by (simp add: case_prod_beta)
  then show ?case using 2 by simp
next
  case (4 ops x st)
  obtain bw1 where rm: "blockbag_remove (fst bw) (snd bw) = (x, bw1)" and r1: "bag_rep bw1 st"
    using bb.pop_rep [OF 4(2)] by (auto simp: case_prod_beta)
  obtain ys where ys: "stack_run ops st = Some (ys, st')" "xs = x # ys" using 4(3) by auto
  show ?case using 4(1) [OF r1 ys(1)] rm ys(2) by (simp add: case_prod_beta)
qed simp_all

theorem bag_refines_stack_witness:
  "fst (bag_run [Add 7, Add 8, Remove, Add 9, Remove] (blockbag_new nw_next 0 world0)) = [8, 9]
   \<and> bag_rep (snd (bag_run [Add 7, Add 8, Remove, Add 9, Remove] (blockbag_new nw_next 0 world0))) [7]"
  by (rule bag_refines_stack [OF bag0]) simp

text \<open>In such a run every assertion of \<open>add\<close> and \<open>remove\<close>, and of the blocks' \<open>push\<close> and \<open>pop\<close>, holds.\<close>

fun bag_run_asserts :: "bag_op list \<Rightarrow> bag \<times> world \<Rightarrow> bool" where
  "bag_run_asserts [] bw = True"
| "bag_run_asserts (Add x # ops) bw \<longleftrightarrow>
     blockbag_add_asserts (fst bw) (snd bw) \<and> bag_run_asserts ops (blockbag_add nw_next x (fst bw) (snd bw))"
| "bag_run_asserts (Remove # ops) bw \<longleftrightarrow>
     blockbag_remove_asserts (fst bw) (snd bw) \<and> bag_run_asserts ops (snd (blockbag_remove (fst bw) (snd bw)))"

lemma bag_run_asserts_hold: "bag_rep bw st \<Longrightarrow> stack_run ops st \<noteq> None \<Longrightarrow> bag_run_asserts ops bw"
proof (induction ops st arbitrary: bw rule: stack_run.induct)
  case (2 x ops st)
  have "bag_rep (blockbag_add nw_next x (fst bw) (snd bw)) (x # st)"
    using bb.push_rep [OF 2(2), of x] by (simp add: case_prod_beta)
  then show ?case using 2 blockbag_asserts_hold(1) by (auto simp: bag_rep_def)
next
  case (4 ops x st)
  obtain bw1 where rm: "blockbag_remove (fst bw) (snd bw) = (x, bw1)" and r1: "bag_rep bw1 st"
    using bb.pop_rep [OF 4(2)] by (auto simp: case_prod_beta)
  have "blockbag_remove_asserts (fst bw) (snd bw)" using 4(2) blockbag_asserts_hold(2) by (fastforce simp: bag_rep_def)
  then show ?case using 4(1) [OF r1] 4(3) rm by auto
qed simp_all

text \<open>
  \<open>deallocateAndClear\<close> ends on every well-formed bag; it hands exactly the objects of the
  bag to \<open>deallocate\<close>, each as often as it is in the bag, most recent first, and leaves the bag
  empty.
\<close>

lemma deallocateAndClear_frees_contents:
  assumes "bag_rep bw xs"
  shows "\<exists>bw'. deallocateAndClear tid bw al = Some (bw', fold (deallocate tid) xs al) \<and> bag_rep bw' []"
  unfolding deallocateAndClear_def by (rule bb.drain_rep [OF assms])

lemma deallocateAndClear_frees_contents_witness:
  "\<exists>bw'. deallocateAndClear 1 (snd (bag_run [Add 7, Add 8] (blockbag_new nw_next 0 world0))) alloc_init
     = Some (bw', fold (deallocate 1) [8, 7] alloc_init) \<and> bag_rep bw' []"
proof (rule deallocateAndClear_frees_contents)
  show "bag_rep (snd (bag_run [Add 7, Add 8] (blockbag_new nw_next 0 world0))) [8, 7]"
    using bb.push_all [OF bag0, of "[7, 8]" 0] by (simp add: case_prod_beta)
qed

text \<open>
  \<open>appendMoveAll\<close> moves every object of one bag to another: it returns, both bags are well
  formed and share no block afterwards, the source is empty, and the destination holds the objects
  of both, none lost and none duplicated.
\<close>

lemma appendMoveAll_moves_all:
  assumes "nw_ok nw" and "bag_inv w b ps" and "bag_inv w c qs" and "set ps \<inter> set qs = {}"
  shows "\<exists>b' c' w' ps' qs'. blockbag_appendMoveAll nw b c w = Some (b', c', w') \<and> bag_inv w' b' ps' \<and> bag_inv w' c' qs'
    \<and> set ps' \<inter> set qs' = {} \<and> mset (bag_stack w' ps') = mset (bag_stack w ps) + mset (bag_stack w qs) \<and> bag_stack w' qs' = []"
  by (rule appendMoveAll_spec [OF assms])

text \<open>Two bags of one world, for the witnesses: blocks 1 and 2, each with one object.\<close>

definition world2 :: world where
  "world2 = \<lparr>bw_mem = [1 \<mapsto> block_push 7 (block_new 0), 2 \<mapsto> block_push 8 (block_new 0)], bw_pool = []\<rparr>"

definition bag_of_block :: "bptr \<Rightarrow> bag" where
  "bag_of_block p = \<lparr>bb_owner = 0, bb_reclaimCount = 0, bb_sizeInBlocks = 1, bb_head = p, bb_tail = p\<rparr>"

lemma push_new: "block_wf (block_push p (block_new 0))" "block_items (block_push p (block_new 0)) = [p]"
  "bk_next (block_push p (block_new 0)) = 0" "bk_size (block_push p (block_new 0)) = 1"
  using block_push_items [of "block_new 0" p] by (auto simp: BLOCK_SIZE_def)

lemma world2_bags:
  "bag_inv world2 (bag_of_block 1) [1]" "bag_inv world2 (bag_of_block 2) [2]"
  "bag_stack world2 [1] = [7]" "bag_stack world2 [2] = [8]"
  by (simp_all add: bag_inv_alt world2_def bag_of_block_def world_ok_def push_new blk_at_def bag_stack_def BLOCK_SIZE_def)

lemma appendMoveAll_moves_all_witness:
  "\<exists>b' c' w' ps' qs'. blockbag_appendMoveAll nw_next (bag_of_block 1) (bag_of_block 2) world2 = Some (b', c', w')
    \<and> bag_inv w' b' ps' \<and> bag_inv w' c' qs' \<and> set ps' \<inter> set qs' = {} \<and> mset (bag_stack w' ps') = mset [7] + mset [8] \<and> bag_stack w' qs' = []"
  by (rule appendMoveAll_moves_all [OF nw_next_ok world2_bags(1,2), unfolded world2_bags(3,4)]) simp

text \<open>
  \<open>erase(curr, ix)\<close> removes exactly the object at that place of the bag, whether the block is
  the head, an inner block or the block behind an empty head, and keeps every other object; the
  bag stays well formed, and the result tells whether the block is not the head.
\<close>

lemma blockbag_erase_exact:
  assumes "bag_inv w b ps" and "p \<in> set ps" and "ix < bk_size (blk_at w p)" and "blockbag_erase p ix b w = (r, b', w')"
  shows "\<exists>ps'. bag_inv w' b' ps' \<and> mset (bag_stack w' ps') + {#block_peek ix (blk_at w p)#} = mset (bag_stack w ps)
    \<and> (r \<longleftrightarrow> p \<noteq> bb_head b')"
  by (rule blockbag_erase_spec [OF assms])

lemma blockbag_erase_exact_witness:
  "\<exists>r b' w' ps'. blockbag_erase 1 0 (bag_of_block 1) world2 = (r, b', w') \<and> bag_inv w' b' ps' \<and> bag_stack w' ps' = []"
proof -
  obtain r b' w' where e: "blockbag_erase 1 0 (bag_of_block 1) world2 = (r, b', w')" by (metis prod_cases3)
  have at: "blk_at world2 1 = block_push 7 (block_new 0)" by (simp add: world2_def blk_at_def)
  have "block_peek 0 (block_push 7 (block_new 0)) = 7" using block_peek_items [of 0 "block_push 7 (block_new 0)"] push_new by simp
  then show ?thesis
    using blockbag_erase_exact [OF world2_bags(1) _ _ e] at push_new e by (auto simp: world2_bags)
qed

end
