(* ===== verification/BagIter.thy ===== *)
theory BagIter
  imports BagMove
begin

text \<open>
  The iterator over a bag, \<open>blockbag_iterator\<close> of \<open>blockbag.h\<close>: from the last object
  of the head block down, then through the full blocks. A loop from \<open>begin()\<close> to
  \<open>end()\<close> ends on every well-formed bag and visits each object once.
\<close>

record bag_iter =
  it_curr :: bptr
  it_ix :: int

definition iter_next :: "world \<Rightarrow> bag_iter \<Rightarrow> bag_iter" where
  "iter_next w it =
     (let it1 = it\<lparr>it_ix := it_ix it - 1\<rparr>
      in if it_ix it1 < 0 then
           let c = bk_next (blk_at w (it_curr it1))
           in it1\<lparr>it_curr := c, it_ix := (if c \<noteq> 0 then int (bk_size (blk_at w c)) - 1 else -1)\<rparr>
         else it1)"

definition iter_new :: "world \<Rightarrow> bptr \<Rightarrow> bag_iter" where
  "iter_new w start =
     (if start \<noteq> 0 then iter_next w \<lparr>it_curr = start, it_ix = int (bk_size (blk_at w start))\<rparr>
      else \<lparr>it_curr = start, it_ix = -1\<rparr>)"

definition bag_begin :: "bag \<Rightarrow> world \<Rightarrow> bag_iter" where
  "bag_begin b w = iter_new w (bb_head b)"

definition bag_end :: "world \<Rightarrow> bag_iter" where
  "bag_end w = iter_new w 0"

definition iter_eq :: "bag_iter \<Rightarrow> bag_iter \<Rightarrow> bool" where
  "iter_eq a b = (if it_curr a \<noteq> it_curr b then False else if it_ix a \<noteq> it_ix b then False else True)"

definition iter_deref :: "world \<Rightarrow> bag_iter \<Rightarrow> ptr" where
  "iter_deref w it = block_peek (nat (it_ix it)) (blk_at w (it_curr it))"

definition iter_swap :: "bptr \<Rightarrow> nat \<Rightarrow> bag_iter \<Rightarrow> world \<Rightarrow> world" where
  "iter_swap otherCurr otherIx it w =
     (let temp = block_peek otherIx (blk_at w otherCurr);
          w1 = blk_upd otherCurr (block_replace otherIx (iter_deref w it)) w
      in blk_upd (it_curr it) (block_replace (nat (it_ix it)) temp) w1)"

definition iter_erase :: "bag_iter \<Rightarrow> bag \<Rightarrow> world \<Rightarrow> bag_iter \<times> bag \<times> world" where
  "iter_erase it b w =
     (let (result, b1, w1) = blockbag_erase (it_curr it) (nat (it_ix it)) b w;
          it1 = (if it_ix it \<ge> int (bk_size (blk_at w1 (it_curr it))) then iter_next w1 it else it);
          it2 = (if result then iter_next w1 it1 else it1)
      in (it2, b1, w1))"

text \<open>The loop \<open>for (it = begin(); it != end(); it++)\<close> and the objects it sees.\<close>

partial_function (option) iter_collect :: "world \<Rightarrow> bag_iter \<Rightarrow> ptr list option" where
  "iter_collect w it =
     (if iter_eq it (bag_end w) then Some []
      else Option.bind (iter_collect w (iter_next w it)) (\<lambda>xs. Some (iter_deref w it # xs)))"

lemma bag_end_eq: "iter_eq it (bag_end w) \<longleftrightarrow> it_curr it = 0 \<and> it_ix it = -1"
  by (simp add: iter_eq_def bag_end_def iter_new_def)

lemma rev_take_Suc: "n < length xs \<Longrightarrow> rev (take (Suc n) xs) = xs ! n # rev (take n xs)"
  by (simp add: take_Suc_conv_app_nth)

text \<open>Within a block: the loop reaches the block's first object and goes on with the next block.\<close>

definition iter_after :: "world \<Rightarrow> bptr \<Rightarrow> bag_iter" where
  "iter_after w c = \<lparr>it_curr = c, it_ix = (if c \<noteq> 0 then int (bk_size (blk_at w c)) - 1 else -1)\<rparr>"

lemma iter_next_cases:
  "iter_next w \<lparr>it_curr = p, it_ix = int n\<rparr> =
     (if n = 0 then iter_after w (bk_next (blk_at w p)) else \<lparr>it_curr = p, it_ix = int (n - 1)\<rparr>)"
  by (simp add: iter_next_def iter_after_def of_nat_diff Let_def)

lemma iter_collect_block:
  assumes p: "p \<noteq> 0" and wf: "block_wf (blk_at w p)"
    and rest: "iter_collect w (iter_after w (bk_next (blk_at w p))) = Some xs"
  shows "n < bk_size (blk_at w p) \<Longrightarrow>
    iter_collect w \<lparr>it_curr = p, it_ix = int n\<rparr> = Some (rev (take (Suc n) (block_items (blk_at w p))) @ xs)"
proof (induction n)
  case 0
  have ne: "block_items (blk_at w p) \<noteq> []" using 0 block_size_items [OF wf] by auto
  have "iter_collect w \<lparr>it_curr = p, it_ix = int 0\<rparr>
      = Option.bind (iter_collect w (iter_after w (bk_next (blk_at w p))))
          (\<lambda>xs. Some (iter_deref w \<lparr>it_curr = p, it_ix = int 0\<rparr> # xs))"
    by (subst iter_collect.simps) (simp only: bag_end_eq iter_next_cases, simp add: p)
  then show ?case using rest block_peek_items [OF 0 wf] ne
    by (simp add: iter_deref_def take_Suc hd_conv_nth)
next
  case (Suc n)
  have len: "Suc n < length (block_items (blk_at w p))" using Suc.prems block_size_items [OF wf] by simp
  have "iter_collect w \<lparr>it_curr = p, it_ix = int (Suc n)\<rparr>
      = Option.bind (iter_collect w \<lparr>it_curr = p, it_ix = int n\<rparr>)
          (\<lambda>xs. Some (iter_deref w \<lparr>it_curr = p, it_ix = int (Suc n)\<rparr> # xs))"
    by (subst iter_collect.simps) (simp only: bag_end_eq iter_next_cases, simp add: p)
  moreover have "iter_deref w \<lparr>it_curr = p, it_ix = int (Suc n)\<rparr> = block_items (blk_at w p) ! Suc n"
    unfolding iter_deref_def bag_iter.simps nat_int by (rule block_peek_items [OF Suc.prems wf])
  ultimately show ?case using Suc rev_take_Suc [OF len] by simp
qed

lemma iter_collect_chain:
  "chain (bw_mem w) p ps \<Longrightarrow> \<forall>q\<in>set ps. bk_size (blk_at w q) = BLOCK_SIZE \<Longrightarrow>
     iter_collect w (iter_after w p) = Some (bag_stack w ps)"
proof (induction ps arbitrary: p)
  case Nil
  then show ?case by (subst iter_collect.simps) (simp add: bag_end_eq iter_after_def)
next
  case (Cons q qs)
  then have q: "p = q" "q \<noteq> 0" "block_wf (blk_at w q)" "chain (bw_mem w) (bk_next (blk_at w q)) qs"
    by (auto simp: blk_at_def)
  have rest: "iter_collect w (iter_after w (bk_next (blk_at w q))) = Some (bag_stack w qs)"
    using Cons.IH [OF q(4)] Cons.prems(2) by simp
  have sz: "bk_size (blk_at w q) = BLOCK_SIZE" using Cons.prems(2) by simp
  then have "iter_after w p = \<lparr>it_curr = q, it_ix = int (BLOCK_SIZE - 1)\<rparr>"
    using q by (simp add: iter_after_def BLOCK_SIZE_def)
  moreover have "BLOCK_SIZE - 1 < bk_size (blk_at w q)" using sz by (simp add: BLOCK_SIZE_def)
  ultimately show ?case
    using iter_collect_block [OF q(2,3) rest, of "BLOCK_SIZE - 1"] block_size_items [OF q(3)] sz
    by (simp add: BLOCK_SIZE_def)
qed

text \<open>
  The loop over a bag with its iterator ends, and it sees every object of the bag exactly as often
  as the bag holds it, in the order in which \<open>remove\<close> would give them; an empty bag is
  not entered.
\<close>

lemma bag_iterator_visits_all:
  assumes "bag_inv w b ps"
  shows "iter_collect w (bag_begin b w) = Some (bag_stack w ps)"
proof -
  obtain h t where ps: "ps = h # t" "bb_head b = h" and h: "h \<noteq> 0" using bag_inv_Cons [OF assms] by metis
  have pre: "bag_pre w b (h # t)" using assms ps by (simp add: bag_inv_pre)
  have wf: "block_wf (blk_at w h)" using bag_pre_dom [OF pre, of h] by simp
  have ch: "chain (bw_mem w) (bk_next (blk_at w h)) t"
    using pre by (auto simp: bag_pre_def blk_at_def)
  have rest: "iter_collect w (iter_after w (bk_next (blk_at w h))) = Some (bag_stack w t)"
    by (rule iter_collect_chain [OF ch]) (use pre in \<open>auto simp: bag_pre_def\<close>)
  have bg: "bag_begin b w = iter_next w \<lparr>it_curr = h, it_ix = int (bk_size (blk_at w h))\<rparr>"
    using ps h by (simp add: bag_begin_def iter_new_def)
  show ?thesis
  proof (cases "bk_size (blk_at w h)")
    case 0
    then have "block_items (blk_at w h) = []" by (simp add: block_items_def)
    moreover have "bag_begin b w = iter_after w (bk_next (blk_at w h))"
      using bg 0 iter_next_cases [of w h 0] by simp
    ultimately show ?thesis using rest ps by simp
  next
    case (Suc n)
    then have "bag_begin b w = \<lparr>it_curr = h, it_ix = int n\<rparr>" using bg by (simp only: iter_next_cases) simp
    then show ?thesis
      using iter_collect_block [OF h wf rest, of n] Suc block_size_items [OF wf] ps by simp
  qed
qed

lemma bag_iterator_visits_all_witness:
  "iter_collect world2 (bag_begin (bag_of_block 1) world2) = Some [7]"
  using bag_iterator_visits_all [OF world2_bags(1)] world2_bags(3) by simp

text \<open>
  Erasing an object that is not the last of the head block puts the head's last object, which the
  iterator has already shown, in its place, and the iterator stays there: it is seen again.
\<close>

lemma iter_erase_revisits:
  assumes "bag_inv w b ps" and "ix + 1 < bk_size (blk_at w (bb_head b))"
  shows "\<exists>b' w'. iter_erase \<lparr>it_curr = bb_head b, it_ix = int ix\<rparr> b w = (\<lparr>it_curr = bb_head b, it_ix = int ix\<rparr>, b', w')
     \<and> iter_deref w' \<lparr>it_curr = bb_head b, it_ix = int ix\<rparr>
         = block_peek (bk_size (blk_at w (bb_head b)) - 1) (blk_at w (bb_head b))"
proof -
  obtain h t where ps: "ps = h # t" "bb_head b = h" using bag_inv_Cons [OF assms(1)] by metis
  have "block_wf (blk_at w h)" using bag_pre_dom [of w b ps h] assms(1) ps by (simp add: bag_inv_pre)
  then have "ix < length (bk_data (blk_at w h))" using assms(2) ps by (auto simp: block_wf_def)
  then show ?thesis
    using assms(2) ps
    by (auto simp: iter_erase_def blockbag_erase_def block_isEmpty_def iter_deref_def block_erase_ix_def block_peek_def Let_def)
qed

end
