(* ===== verification/LockFreeBag.thy ===== *)
theory LockFreeBag
  imports BlockBag "HOL-Library.Word"
begin

text \<open>
  The shared bag of blocks, \<open>common/recordmgr/lockfreeblockbag.h\<close>: a stack of blocks with a
  head pointer and a version number that one double-wide compare-and-swap changes together. Each
  access of a thread to shared memory is a step; threads own the blocks that are in no stack and may
  rewire, free and reuse them at any time. The version number is 64 bits wide and wraps around; the
  field \<open>lf_count\<close> is a ghost that counts the successful swaps.
\<close>

record tagged_ptr =
  tp_ptr :: bptr
  tp_tag :: "64 word"

text \<open>Where a thread is: in a loop of \<open>getBlock\<close> or of \<open>addBlock\<close>, or in neither.\<close>

datatype lf_pc =
    Idle
  | GetLoop
  | GetLoaded tagged_ptr nat
  | GetNext tagged_ptr nat bptr
  | GetDone bptr
  | AddLoop bptr
  | AddLoaded bptr tagged_ptr nat
  | AddLinked bptr tagged_ptr nat

record lf_state =
  lf_head :: tagged_ptr
  lf_next :: "bptr \<Rightarrow> bptr"
  lf_pc :: "nat \<Rightarrow> lf_pc"
  lf_own :: "nat \<Rightarrow> bptr set"
  lf_count :: nat

definition lf_init :: lf_state where
  "lf_init = \<lparr>lf_head = \<lparr>tp_ptr = 0, tp_tag = 0\<rparr>, lf_next = (\<lambda>_. 0), lf_pc = (\<lambda>_. Idle), lf_own = (\<lambda>_. {}), lf_count = 0\<rparr>"

datatype lf_event = Tau | Pushed nat bptr | Popped nat bptr | FoundEmpty nat

definition lf_goto :: "nat \<Rightarrow> lf_pc \<Rightarrow> lf_state \<Rightarrow> lf_state" where
  "lf_goto t c s = s\<lparr>lf_pc := (lf_pc s)(t := c)\<rparr>"

definition lf_link :: "bptr \<Rightarrow> bptr \<Rightarrow> lf_state \<Rightarrow> lf_state" where
  "lf_link b p s = s\<lparr>lf_next := (lf_next s)(b := p)\<rparr>"

definition lf_swap :: "bptr \<Rightarrow> 64 word \<Rightarrow> lf_state \<Rightarrow> lf_state" where
  "lf_swap p tag s = s\<lparr>lf_head := \<lparr>tp_ptr = p, tp_tag = tag + 1\<rparr>, lf_count := lf_count s + 1\<rparr>"

definition lf_give :: "nat \<Rightarrow> bptr \<Rightarrow> lf_state \<Rightarrow> lf_state" where
  "lf_give t b s = s\<lparr>lf_own := (lf_own s)(t := insert b (lf_own s t))\<rparr>"

definition lf_take :: "nat \<Rightarrow> bptr \<Rightarrow> lf_state \<Rightarrow> lf_state" where
  "lf_take t b s = s\<lparr>lf_own := (lf_own s)(t := lf_own s t - {b})\<rparr>"

text \<open>The blocks from a pointer on, head first.\<close>

fun nchain :: "(bptr \<Rightarrow> bptr) \<Rightarrow> bptr \<Rightarrow> bptr list \<Rightarrow> bool" where
  "nchain nx p [] \<longleftrightarrow> p = 0"
| "nchain nx p (q # qs) \<longleftrightarrow> p = q \<and> q \<noteq> 0 \<and> nchain nx (nx q) qs"

definition lf_stack :: "lf_state \<Rightarrow> bptr list \<Rightarrow> bool" where
  "lf_stack s xs \<longleftrightarrow> nchain (lf_next s) (tp_ptr (lf_head s)) xs"

inductive lf_step :: "lf_state \<Rightarrow> lf_event \<Rightarrow> lf_state \<Rightarrow> bool" where
  get_call: "lf_pc s t = Idle \<Longrightarrow> lf_step s Tau (lf_goto t GetLoop s)"
| get_load: "lf_pc s t = GetLoop \<Longrightarrow> tp_ptr (lf_head s) \<noteq> 0 \<Longrightarrow>
    lf_step s Tau (lf_goto t (GetLoaded (lf_head s) (lf_count s)) s)"
| get_null: "lf_pc s t = GetLoop \<Longrightarrow> tp_ptr (lf_head s) = 0 \<Longrightarrow> lf_step s (FoundEmpty t) (lf_goto t Idle s)"
| get_next: "lf_pc s t = GetLoaded e k \<Longrightarrow> lf_step s Tau (lf_goto t (GetNext e k (lf_next s (tp_ptr e))) s)"
| get_cas: "lf_pc s t = GetNext e k n \<Longrightarrow> lf_head s = e \<Longrightarrow>
    lf_step s (Popped t (tp_ptr e)) (lf_goto t (GetDone (tp_ptr e)) (lf_give t (tp_ptr e) (lf_swap n (tp_tag e) s)))"
| get_fail: "lf_pc s t = GetNext e k n \<Longrightarrow> lf_step s Tau (lf_goto t GetLoop s)"
| get_return: "lf_pc s t = GetDone b \<Longrightarrow> lf_step s Tau (lf_goto t Idle (lf_link b 0 s))"
| add_call: "lf_pc s t = Idle \<Longrightarrow> b \<in> lf_own s t \<Longrightarrow> lf_step s Tau (lf_goto t (AddLoop b) s)"
| add_load: "lf_pc s t = AddLoop b \<Longrightarrow> lf_step s Tau (lf_goto t (AddLoaded b (lf_head s) (lf_count s)) s)"
| add_link: "lf_pc s t = AddLoaded b e k \<Longrightarrow> lf_step s Tau (lf_goto t (AddLinked b e k) (lf_link b (tp_ptr e) s))"
| add_cas: "lf_pc s t = AddLinked b e k \<Longrightarrow> lf_head s = e \<Longrightarrow>
    lf_step s (Pushed t b) (lf_goto t Idle (lf_take t b (lf_swap b (tp_tag e) s)))"
| add_fail: "lf_pc s t = AddLinked b e k \<Longrightarrow> lf_step s Tau (lf_goto t (AddLoop b) s)"
| own_new: "lf_pc s t = Idle \<Longrightarrow> b \<noteq> 0 \<Longrightarrow> \<forall>u. b \<notin> lf_own s u \<Longrightarrow> lf_stack s xs \<Longrightarrow> b \<notin> set xs \<Longrightarrow>
    lf_step s Tau (lf_give t b s)"
| own_link: "lf_pc s t = Idle \<Longrightarrow> b \<in> lf_own s t \<Longrightarrow> lf_step s Tau (lf_link b p s)"
| own_delete: "lf_pc s t = Idle \<Longrightarrow> b \<in> lf_own s t \<Longrightarrow> lf_step s Tau (lf_take t b s)"

inductive lf_run :: "lf_event list \<Rightarrow> lf_state \<Rightarrow> bool" where
  lf_start: "lf_run [] lf_init"
| lf_more: "lf_run evs s \<Longrightarrow> lf_step s ev s' \<Longrightarrow> lf_run (evs @ [ev]) s'"

text \<open>What the events mean for a sequential stack.\<close>

fun lf_spec :: "lf_event \<Rightarrow> bptr list \<Rightarrow> bptr list option" where
  "lf_spec Tau xs = Some xs"
| "lf_spec (Pushed t b) xs = Some (b # xs)"
| "lf_spec (Popped t b) xs = (case xs of [] \<Rightarrow> None | x # ys \<Rightarrow> if x = b then Some ys else None)"
| "lf_spec (FoundEmpty t) xs = (if xs = [] then Some [] else None)"

definition lf_spec_run :: "lf_event list \<Rightarrow> bptr list option" where
  "lf_spec_run evs = fold (\<lambda>ev st. Option.bind st (lf_spec ev)) evs (Some [])"

subsection \<open>The invariant\<close>

lemma nchain_cong: "nchain nx p xs \<Longrightarrow> \<forall>q\<in>set xs. nx' q = nx q \<Longrightarrow> nchain nx' p xs"
  by (induction xs arbitrary: p) auto

lemma nchain_link [simp]: "b \<notin> set xs \<Longrightarrow> nchain (nx(b := v)) p xs = nchain nx p xs"
  by (induction xs arbitrary: p) auto

lemma nchain_unique: "nchain nx p xs \<Longrightarrow> nchain nx p ys \<Longrightarrow> xs = ys"
proof (induction xs arbitrary: p ys)
  case Nil
  then show ?case by (cases ys) auto
next
  case (Cons x xs)
  then show ?case by (cases ys) auto
qed

text \<open>What a thread knows at each place, as long as no swap has succeeded since its load.\<close>

definition lf_known :: "lf_state \<Rightarrow> nat \<Rightarrow> bool" where
  "lf_known s t \<longleftrightarrow> (case lf_pc s t of
      Idle \<Rightarrow> True
    | GetLoop \<Rightarrow> True
    | GetLoaded e k \<Rightarrow> k \<le> lf_count s \<and> tp_tag e = word_of_nat k \<and> tp_ptr e \<noteq> 0 \<and> (k = lf_count s \<longrightarrow> e = lf_head s)
    | GetNext e k n \<Rightarrow> k \<le> lf_count s \<and> tp_tag e = word_of_nat k \<and> tp_ptr e \<noteq> 0
        \<and> (k = lf_count s \<longrightarrow> e = lf_head s \<and> n = lf_next s (tp_ptr e))
    | GetDone b \<Rightarrow> b \<in> lf_own s t
    | AddLoop b \<Rightarrow> b \<in> lf_own s t
    | AddLoaded b e k \<Rightarrow> b \<in> lf_own s t \<and> k \<le> lf_count s \<and> tp_tag e = word_of_nat k \<and> (k = lf_count s \<longrightarrow> e = lf_head s)
    | AddLinked b e k \<Rightarrow> b \<in> lf_own s t \<and> k \<le> lf_count s \<and> tp_tag e = word_of_nat k
        \<and> (k = lf_count s \<longrightarrow> e = lf_head s) \<and> lf_next s b = tp_ptr e)"

definition lf_inv :: "lf_state \<Rightarrow> bptr list \<Rightarrow> bool" where
  "lf_inv s xs \<longleftrightarrow> lf_stack s xs \<and> distinct xs \<and> tp_tag (lf_head s) = word_of_nat (lf_count s)
     \<and> (\<forall>t. lf_own s t \<inter> set xs = {} \<and> 0 \<notin> lf_own s t) \<and> (\<forall>t u. t \<noteq> u \<longrightarrow> lf_own s t \<inter> lf_own s u = {})
     \<and> (\<forall>t. lf_known s t)"

lemmas lf_ops = lf_goto_def lf_link_def lf_swap_def lf_give_def lf_take_def

lemma lf_ops_simps [simp]:
  "lf_head (lf_goto t c s) = lf_head s" "lf_next (lf_goto t c s) = lf_next s" "lf_own (lf_goto t c s) = lf_own s"
  "lf_count (lf_goto t c s) = lf_count s" "lf_pc (lf_goto t c s) = (lf_pc s)(t := c)"
  "lf_head (lf_give t b s) = lf_head s" "lf_next (lf_give t b s) = lf_next s" "lf_pc (lf_give t b s) = lf_pc s"
  "lf_count (lf_give t b s) = lf_count s" "lf_own (lf_give t b s) = (lf_own s)(t := insert b (lf_own s t))"
  "lf_head (lf_take t b s) = lf_head s" "lf_next (lf_take t b s) = lf_next s" "lf_pc (lf_take t b s) = lf_pc s"
  "lf_count (lf_take t b s) = lf_count s" "lf_own (lf_take t b s) = (lf_own s)(t := lf_own s t - {b})"
  "lf_head (lf_swap p tag s) = \<lparr>tp_ptr = p, tp_tag = tag + 1\<rparr>" "lf_next (lf_swap p tag s) = lf_next s"
  "lf_pc (lf_swap p tag s) = lf_pc s" "lf_own (lf_swap p tag s) = lf_own s" "lf_count (lf_swap p tag s) = Suc (lf_count s)"
  by (simp_all add: lf_ops)

text \<open>Giving a block that nobody owns, and taking one away, keep the owners apart.\<close>

definition apart :: "(nat \<Rightarrow> bptr set) \<Rightarrow> bptr set \<Rightarrow> bool" where
  "apart f X \<longleftrightarrow> (\<forall>t. f t \<inter> X = {} \<and> 0 \<notin> f t) \<and> (\<forall>t u. t \<noteq> u \<longrightarrow> f t \<inter> f u = {})"

lemma apart_insert:
  assumes "apart f X" and "\<forall>u. b \<notin> f u" and "b \<noteq> 0" and "b \<notin> Y" and "Y \<subseteq> X"
  shows "apart (f(t := insert b (f t))) Y"
  unfolding apart_def
proof (intro conjI allI impI)
  fix v u :: nat assume "v \<noteq> u"
  then show "(f(t := insert b (f t))) v \<inter> (f(t := insert b (f t))) u = {}"
    using assms(1,2) unfolding apart_def by (cases "v = t"; cases "u = t") auto
qed (use assms in \<open>auto simp: apart_def\<close>)

lemma apart_remove:
  assumes "apart f X" and "b \<in> f t \<or> Y = X" and "Y \<subseteq> insert b X"
  shows "apart (f(t := f t - {b})) Y"
proof -
  have d: "f v \<inter> f u = {}" if "v \<noteq> u" for v u using assms(1) that by (simp add: apart_def)
  show ?thesis
    unfolding apart_def
  proof (intro conjI allI impI)
    fix v u :: nat assume "v \<noteq> u"
    then show "(f(t := f t - {b})) v \<inter> (f(t := f t - {b})) u = {}" using d [of v u] by auto
  next
    fix v show "(f(t := f t - {b})) v \<inter> Y = {}"
    proof (cases "v = t")
      case False
      then have "b \<in> f t \<longrightarrow> b \<notin> f v" using d by blast
      then show ?thesis using assms False unfolding apart_def by auto
    qed (use assms in \<open>auto simp: apart_def\<close>)
  qed (use assms(1) in \<open>auto simp: apart_def\<close>)
qed

lemma lf_inv_alt:
  "lf_inv s xs \<longleftrightarrow> nchain (lf_next s) (tp_ptr (lf_head s)) xs \<and> distinct xs
     \<and> tp_tag (lf_head s) = word_of_nat (lf_count s) \<and> apart (lf_own s) (set xs) \<and> (\<forall>t. lf_known s t)"
  by (auto simp: lf_inv_def lf_stack_def apart_def)

text \<open>The version numbers tell states apart as long as the counter has not gone around.\<close>

lemma word_count_eq:
  assumes "word_of_nat k = (word_of_nat n :: 64 word)" and "k < 2 ^ 64" and "n < 2 ^ 64"
  shows "k = n"
proof -
  have "unat (word_of_nat k :: 64 word) = k" "unat (word_of_nat n :: 64 word) = n"
    using assms(2,3) by (simp_all add: unsigned_of_nat take_bit_nat_eq_self)
  then show ?thesis using assms(1) by metis
qed

lemma cas_current:
  assumes "tp_tag e = word_of_nat k" and "e = lf_head s" and "tp_tag (lf_head s) = word_of_nat (lf_count s)"
    and "k \<le> lf_count s" and "lf_count s < 2 ^ 64"
  shows "k = lf_count s"
  using assms by (intro word_count_eq) auto


lemma lf_knownI:
  assumes "lf_known s t" and "lf_pc s' t = lf_pc s t" and "lf_count s' = lf_count s" and "lf_head s' = lf_head s"
    and "lf_own s t \<subseteq> lf_own s' t" and "\<And>b. b \<in> lf_own s t \<or> b = tp_ptr (lf_head s) \<Longrightarrow> lf_next s' b = lf_next s b"
  shows "lf_known s' t"
  using assms by (auto simp: lf_known_def split: lf_pc.splits)

lemma lf_known_swapped:
  assumes "lf_known s t" and "lf_pc s' t = lf_pc s t" and "lf_count s' = Suc (lf_count s)"
    and "lf_own s t \<subseteq> lf_own s' t" and "lf_next s' = lf_next s"
  shows "lf_known s' t"
  using assms by (auto simp: lf_known_def split: lf_pc.splits)

text \<open>Steps that change neither the stack nor who owns what.\<close>

lemma lf_inv_goto:
  assumes "lf_inv s xs" and "lf_known (lf_goto t c s) t"
  shows "lf_inv (lf_goto t c s) xs"
proof -
  have "lf_known (lf_goto t c s) u" for u
    using assms by (cases "u = t") (auto simp: lf_inv_def lf_goto_def intro: lf_knownI)
  then show ?thesis using assms(1) by (simp add: lf_inv_def lf_goto_def lf_stack_def)
qed

lemma lf_inv_link:
  assumes inv: "lf_inv s xs" and b: "b \<in> lf_own s t" and t: "lf_pc s t = Idle \<or> lf_pc s t = GetDone b \<or> (\<exists>e k. lf_pc s t = AddLoaded b e k)"
  shows "lf_inv (lf_link b p s) xs"
proof -
  have bx: "b \<notin> set xs" using inv b by (auto simp: lf_inv_def)
  have hb: "tp_ptr (lf_head s) \<noteq> b"
  proof
    assume h: "tp_ptr (lf_head s) = b"
    have "b \<noteq> 0" using inv b by (auto simp: lf_inv_def)
    then have "b \<in> set xs" using inv h by (cases xs) (auto simp: lf_inv_def lf_stack_def)
    then show False using bx by blast
  qed
  have "lf_known (lf_link b p s) u" if ku: "lf_known s u" for u
  proof (cases "u = t")
    case True
    then show ?thesis using ku t b by (auto simp: lf_known_def lf_link_def split: lf_pc.splits)
  next
    case False
    then have "b \<notin> lf_own s u" using inv b unfolding lf_inv_def by blast
    then show ?thesis using hb ku by (intro lf_knownI [OF ku]) (auto simp: lf_link_def)
  qed
  then show ?thesis using inv bx by (simp add: lf_inv_def lf_link_def lf_stack_def)
qed

lemma lf_inv_pop:
  assumes inv: "lf_inv s xs" and t: "lf_pc s t = GetNext e k n" and e: "lf_head s = e" and c: "lf_count s < 2 ^ 64"
  shows "\<exists>ys. xs = tp_ptr e # ys \<and> lf_inv (lf_goto t (GetDone (tp_ptr e)) (lf_give t (tp_ptr e) (lf_swap n (tp_tag e) s))) ys"
proof -
  have kall: "\<And>u. lf_known s u" using inv by (simp add: lf_inv_def)
  note kt = kall [of t]
  have kn: "k \<le> lf_count s" "tp_tag e = word_of_nat k" "tp_ptr e \<noteq> 0" "k = lf_count s \<Longrightarrow> n = lf_next s (tp_ptr e)"
    using kt t by (simp_all add: lf_known_def)
  have "tp_tag (lf_head s) = word_of_nat (lf_count s)" using inv by (simp add: lf_inv_def)
  then have "k = lf_count s" using cas_current [OF kn(2) e [symmetric] _ kn(1) c] by simp
  then have n: "n = lf_next s (tp_ptr e)" using kn(4) by simp
  obtain ys where xs: "xs = tp_ptr e # ys" "nchain (lf_next s) n ys" "tp_ptr e \<notin> set ys" "distinct ys"
    using inv e kn(3) n by (cases xs) (auto simp: lf_inv_def lf_stack_def)
  let ?s = "lf_goto t (GetDone (tp_ptr e)) (lf_give t (tp_ptr e) (lf_swap n (tp_tag e) s))"
  have "lf_known ?s u" for u
  proof (cases "u = t")
    case True
    then show ?thesis by (simp add: lf_known_def lf_ops)
  next
    case False
    then show ?thesis by (intro lf_known_swapped [OF kall [of u]]) auto
  qed
  moreover have "\<forall>u. tp_ptr e \<notin> lf_own s u" using inv xs by (auto simp: lf_inv_def)
  moreover have "apart (lf_own ?s) (set ys)"
    using inv xs calculation(2) kn(3) unfolding lf_inv_alt by (simp only: lf_ops_simps) (rule apart_insert, auto)
  ultimately have "lf_inv ?s ys" using inv xs e by (simp add: lf_inv_alt del: fun_upd_apply)
  then show ?thesis using xs by blast
qed

lemma lf_inv_push:
  assumes inv: "lf_inv s xs" and t: "lf_pc s t = AddLinked b e k" and e: "lf_head s = e" and c: "lf_count s < 2 ^ 64"
  shows "lf_inv (lf_goto t Idle (lf_take t b (lf_swap b (tp_tag e) s))) (b # xs)"
proof -
  have kall: "\<And>u. lf_known s u" using inv by (simp add: lf_inv_def)
  note kt = kall [of t]
  have kn: "b \<in> lf_own s t" "lf_next s b = tp_ptr e"
    using kt t by (simp_all add: lf_known_def)
  let ?s = "lf_goto t Idle (lf_take t b (lf_swap b (tp_tag e) s))"
  have "lf_known ?s u" for u
  proof (cases "u = t")
    case True
    then show ?thesis by (simp add: lf_known_def lf_ops)
  next
    case False
    then show ?thesis by (intro lf_known_swapped [OF kall [of u]]) auto
  qed
  moreover have "apart (lf_own ?s) (set (b # xs))"
    unfolding lf_ops_simps by (rule apart_remove [of _ "set xs"]) (use inv kn(1) in \<open>simp_all add: lf_inv_alt subset_insertI\<close>)
  moreover have "lf_own s t \<inter> set xs = {}" "0 \<notin> lf_own s t" using inv by (simp_all add: lf_inv_alt apart_def)
  then have "b \<noteq> 0" "b \<notin> set xs" using kn(1) by (metis, blast)
  ultimately show ?thesis using inv kn(2) e by (simp add: lf_inv_alt del: fun_upd_apply)
qed


lemma lf_inv_own:
  assumes inv: "lf_inv s xs" and t: "lf_pc s t = Idle"
  shows "b \<noteq> 0 \<Longrightarrow> \<forall>u. b \<notin> lf_own s u \<Longrightarrow> b \<notin> set xs \<Longrightarrow> lf_inv (lf_give t b s) xs"
    and "lf_inv (lf_take t b s) xs"
proof -
  have "lf_known (lf_give t b s) u" "lf_known (lf_take t b s) u" for u
  proof -
    have ku: "lf_known s u" using inv by (simp add: lf_inv_def)
    show "lf_known (lf_give t b s) u" by (rule lf_knownI [OF ku]) auto
    show "lf_known (lf_take t b s) u"
    proof (cases "u = t")
      case True
      then show ?thesis using t by (simp add: lf_known_def)
    next
      case False
      then show ?thesis by (intro lf_knownI [OF ku]) auto
    qed
  qed
  then show "b \<noteq> 0 \<Longrightarrow> \<forall>u. b \<notin> lf_own s u \<Longrightarrow> b \<notin> set xs \<Longrightarrow> lf_inv (lf_give t b s) xs"
    and "lf_inv (lf_take t b s) xs"
    using inv apart_insert [of "lf_own s" "set xs" b "set xs" t] apart_remove [of "lf_own s" "set xs" b t "set xs"]
    by (auto simp: lf_inv_alt simp del: fun_upd_apply)
qed

lemma lf_step_inv:
  assumes st: "lf_step s ev s'" and inv: "lf_inv s xs" and c: "lf_count s < 2 ^ 64"
  shows "\<exists>ys. lf_spec ev xs = Some ys \<and> lf_inv s' ys"
proof -
  have kn: "\<And>t. lf_known s t" using inv by (simp add: lf_inv_def)
  have tag: "tp_tag (lf_head s) = word_of_nat (lf_count s)" using inv by (simp add: lf_inv_def)
  from st show ?thesis
  proof cases
    case (get_call t)
    then show ?thesis using lf_inv_goto [OF inv] by (simp add: lf_known_def lf_goto_def)
  next
    case (get_load t)
    then show ?thesis using lf_inv_goto [OF inv] tag by (simp add: lf_known_def lf_goto_def)
  next
    case (get_null t)
    then have "xs = []" using inv by (cases xs) (auto simp: lf_inv_def lf_stack_def)
    then show ?thesis using get_null lf_inv_goto [OF inv] by (simp add: lf_known_def lf_goto_def)
  next
    case (get_next t e k)
    then show ?thesis using lf_inv_goto [OF inv] kn [of t] by (simp add: lf_known_def lf_goto_def)
  next
    case (get_cas t e k n)
    then show ?thesis using lf_inv_pop [OF inv get_cas(3,4) c] by auto
  next
    case (get_fail t e k n)
    then show ?thesis using lf_inv_goto [OF inv] by (simp add: lf_known_def lf_goto_def)
  next
    case (get_return t b)
    have "b \<in> lf_own s t" using kn [of t] get_return by (simp add: lf_known_def)
    then have "lf_inv (lf_link b 0 s) xs" using lf_inv_link [OF inv] get_return by blast
    then show ?thesis using get_return lf_inv_goto by (simp add: lf_known_def lf_goto_def)
  next
    case (add_call t b)
    then show ?thesis using lf_inv_goto [OF inv] by (simp add: lf_known_def lf_goto_def)
  next
    case (add_load t b)
    then show ?thesis using lf_inv_goto [OF inv] tag kn [of t] by (simp add: lf_known_def lf_goto_def)
  next
    case (add_link t b e k)
    have kt: "b \<in> lf_own s t" using kn [of t] add_link by (simp add: lf_known_def)
    then have i: "lf_inv (lf_link b (tp_ptr e) s) xs" using lf_inv_link [OF inv] add_link by blast
    have "lf_known (lf_goto t (AddLinked b e k) (lf_link b (tp_ptr e) s)) t"
      using kn [of t] add_link by (simp add: lf_known_def lf_goto_def lf_link_def)
    then show ?thesis using lf_inv_goto [OF i] add_link by simp
  next
    case (add_cas t b e k)
    then show ?thesis using lf_inv_push [OF inv add_cas(3,4) c] by auto
  next
    case (add_fail t b e k)
    then show ?thesis using lf_inv_goto [OF inv] kn [of t] by (simp add: lf_known_def lf_goto_def)
  next
    case (own_new t b ys)
    then have "ys = xs" using inv nchain_unique by (auto simp: lf_inv_def lf_stack_def)
    then show ?thesis using own_new lf_inv_own(1) [OF inv own_new(3)] by simp
  next
    case (own_link t b p)
    then show ?thesis using lf_inv_link [OF inv] by auto
  next
    case (own_delete t b)
    then show ?thesis using lf_inv_own(2) [OF inv own_delete(3)] by simp
  qed
qed

lemma lf_count_mono: "lf_step s ev s' \<Longrightarrow> lf_count s \<le> lf_count s'"
  by (cases rule: lf_step.cases) (auto simp: lf_ops)

lemma lf_inv_init: "lf_inv lf_init []"
  by (simp add: lf_inv_def lf_init_def lf_stack_def lf_known_def)

lemma lf_spec_run_snoc: "lf_spec_run (evs @ [ev]) = Option.bind (lf_spec_run evs) (lf_spec ev)"
  by (simp add: lf_spec_run_def)

lemma lf_run_inv: "lf_run evs s \<Longrightarrow> lf_count s < 2 ^ 64 \<Longrightarrow> \<exists>xs. lf_spec_run evs = Some xs \<and> lf_inv s xs"
proof (induction rule: lf_run.induct)
  case lf_start
  then show ?case using lf_inv_init by (simp add: lf_spec_run_def)
next
  case (lf_more evs s ev s')
  have c: "lf_count s < 2 ^ 64" using lf_count_mono [OF lf_more(2)] lf_more(4) by simp
  obtain xs where "lf_spec_run evs = Some xs" "lf_inv s xs" using lf_more.IH [OF c] by blast
  then show ?case using lf_step_inv [OF lf_more(2) _ c] by (auto simp: lf_spec_run_snoc)
qed

text \<open>
  C30. The shared bag is linearizable: in every interleaving of any number of threads that push, pop,
  free and reuse blocks, as long as fewer than \<open>2 ^ 64\<close> swaps have succeeded, the sequence of the
  successful swaps and of the calls that found the bag empty is a legal history of a sequential
  stack, the chain of blocks from the head is what that stack holds, and no block is in the bag and
  with a thread, or with two threads. Reusing a freed block does not break it: the version number
  rules out the ABA problem.
\<close>

theorem lf_linearizable:
  assumes "lf_run evs s" and "lf_count s < 2 ^ 64"
  shows "\<exists>xs. lf_spec_run evs = Some xs \<and> lf_stack s xs \<and> distinct xs
    \<and> (\<forall>t. lf_own s t \<inter> set xs = {}) \<and> (\<forall>t u. t \<noteq> u \<longrightarrow> lf_own s t \<inter> lf_own s u = {})"
  using lf_run_inv [OF assms] by (auto simp: lf_inv_def)

text \<open>A run for the witness: thread 0 makes block 5 and pushes it.\<close>

definition lf_push5 :: lf_state where
  "lf_push5 = lf_goto 0 Idle (lf_take 0 5 (lf_swap 5 0 (lf_goto 0 (AddLinked 5 \<lparr>tp_ptr = 0, tp_tag = 0\<rparr> 0) (lf_link 5 0
     (lf_goto 0 (AddLoaded 5 \<lparr>tp_ptr = 0, tp_tag = 0\<rparr> 0) (lf_goto 0 (AddLoop 5) (lf_give 0 5 lf_init)))))))"

lemma lf_push5_run: "lf_run [Tau, Tau, Tau, Tau, Pushed 0 5] lf_push5"
proof -
  let ?h = "\<lparr>tp_ptr = 0, tp_tag = 0\<rparr>"
  let ?s1 = "lf_give 0 5 lf_init" let ?s2 = "lf_goto 0 (AddLoop 5) ?s1"
  let ?s3 = "lf_goto 0 (AddLoaded 5 ?h 0) ?s2" let ?s4 = "lf_goto 0 (AddLinked 5 ?h 0) (lf_link 5 0 ?s3)"
  have "lf_step lf_init Tau ?s1" by (rule own_new [where xs = "[]"]) (simp_all add: lf_init_def lf_stack_def)
  with lf_start have r1: "lf_run ([] @ [Tau]) ?s1" by (rule lf_more)
  have "lf_step ?s1 Tau ?s2" by (rule add_call) (simp_all add: lf_init_def)
  with r1 have r2: "lf_run (([] @ [Tau]) @ [Tau]) ?s2" by (rule lf_more)
  have "lf_step ?s2 Tau ?s3" using add_load [of ?s2 0 5] by (simp add: lf_init_def)
  with r2 have r3: "lf_run ((([] @ [Tau]) @ [Tau]) @ [Tau]) ?s3" by (rule lf_more)
  have "lf_step ?s3 Tau ?s4" using add_link [of ?s3 0 5 ?h 0] by simp
  with r3 have r4: "lf_run (((([] @ [Tau]) @ [Tau]) @ [Tau]) @ [Tau]) ?s4" by (rule lf_more)
  have "lf_step ?s4 (Pushed 0 5) lf_push5"
    using add_cas [of ?s4 0 5 ?h 0] by (simp add: lf_push5_def lf_link_def lf_init_def)
  with r4 have "lf_run ((((([] @ [Tau]) @ [Tau]) @ [Tau]) @ [Tau]) @ [Pushed 0 5]) lf_push5" by (rule lf_more)
  then show ?thesis by simp
qed

theorem lf_linearizable_witness:
  "\<exists>xs. lf_spec_run [Tau, Tau, Tau, Tau, Pushed 0 5] = Some xs \<and> lf_stack lf_push5 xs \<and> xs = [5]"
proof -
  have "lf_count lf_push5 < 2 ^ 64" by (simp add: lf_push5_def lf_link_def lf_init_def)
  from lf_linearizable [OF lf_push5_run this] show ?thesis by (auto simp: lf_spec_run_def)
qed

end
