(* ===== verification/Debra.thy ===== *)
theory Debra
  imports Reclaimer_Spec BagMove
begin

text \<open>
  DEBRA, \<open>common/recordmgr/reclaimer_debra.h\<close>: distributed epoch-based reclamation with three
  limbo bags per thread. A thread that sees a new epoch at the start of an operation rotates its bags
  and frees the oldest; it announces the epoch, and checks one other announcement per
  \<open>MIN_OPS_BEFORE_READ\<close> operations; having checked all, it advances the epoch. A bag is the list
  of its objects, most recent first: \<open>bag_refines_stack\<close> and
  \<open>deallocateAndClear_frees_contents\<close> give that view of the block bags. One record type.
\<close>

subsection \<open>The class and its operations\<close>

definition EPOCH_INCREMENT :: nat where "EPOCH_INCREMENT = 2"

definition MIN_OPS_BEFORE_READ :: nat where "MIN_OPS_BEFORE_READ = 10"

definition NUMBER_OF_EPOCH_BAGS :: nat where "NUMBER_OF_EPOCH_BAGS = 3"

definition NUMBER_OF_ALWAYS_EMPTY_EPOCH_BAGS :: nat where "NUMBER_OF_ALWAYS_EMPTY_EPOCH_BAGS = 0"

text \<open>The lowest bit of an announcement says that the thread is quiescent.\<close>

definition BITS_EPOCH :: "nat \<Rightarrow> nat" where "BITS_EPOCH ann = ann - ann mod EPOCH_INCREMENT"

definition QUIESCENT :: "nat \<Rightarrow> bool" where "QUIESCENT ann \<longleftrightarrow> ann mod 2 = 1"

definition GET_WITH_QUIESCENT :: "nat \<Rightarrow> nat" where
  "GET_WITH_QUIESCENT ann = (if ann mod 2 = 1 then ann else ann + 1)"

record debra_thread =
  dt_announcedEpoch :: nat
  dt_localvar :: nat
  dt_epochbags :: "nat \<Rightarrow> ptr list option"
  dt_index :: nat
  dt_currentBag :: nat
  dt_checked :: nat
  dt_opsSinceRead :: nat

record debra =
  db_num_process :: nat
  db_thread :: "nat \<Rightarrow> debra_thread"
  db_epoch :: nat
  db_pool :: allocator

definition upd_thread :: "nat \<Rightarrow> (debra_thread \<Rightarrow> debra_thread) \<Rightarrow> debra \<Rightarrow> debra" where
  "upd_thread tid f s = s\<lparr>db_thread := (db_thread s)(tid := f (db_thread s tid))\<rparr>"

definition debra_new :: "nat \<Rightarrow> (nat \<Rightarrow> debra_thread) \<Rightarrow> allocator \<Rightarrow> debra" where
  "debra_new numProcesses mem pool =
     \<lparr>db_num_process = numProcesses,
      db_thread = (\<lambda>tid. if tid < numProcesses
        then (mem tid)\<lparr>dt_index := 0, dt_localvar := GET_WITH_QUIESCENT 0, dt_announcedEpoch := GET_WITH_QUIESCENT 0,
               dt_epochbags := (\<lambda>_. None)\<rparr>
        else mem tid),
      db_epoch = 0, db_pool = pool\<rparr>"

definition debra_init_data :: "debra_thread \<Rightarrow> debra_thread" where
  "debra_init_data th =
     th\<lparr>dt_epochbags := (\<lambda>i. if i < NUMBER_OF_EPOCH_BAGS \<and> dt_epochbags th i = None then Some [] else dt_epochbags th i),
        dt_currentBag := 0, dt_opsSinceRead := 0, dt_checked := 0\<rparr>"

definition debra_initThread :: "nat \<Rightarrow> debra \<Rightarrow> debra" where
  "debra_initThread tid s = upd_thread tid debra_init_data s"

definition bag_items :: "ptr list option \<Rightarrow> ptr list" where
  "bag_items b = (case b of None \<Rightarrow> [] | Some xs \<Rightarrow> xs)"

definition debra_deinitThread :: "nat \<Rightarrow> debra \<Rightarrow> debra" where
  "debra_deinitThread tid s =
     fold (\<lambda>i s. upd_thread tid (\<lambda>th. th\<lparr>dt_epochbags := (dt_epochbags th)(i := None)\<rparr>)
        (s\<lparr>db_pool := pool_add_all tid (bag_items (dt_epochbags (db_thread s tid) i)) (db_pool s)\<rparr>)) [0..<NUMBER_OF_EPOCH_BAGS] s"

definition debra_rotateEpochBags :: "nat \<Rightarrow> debra \<Rightarrow> debra" where
  "debra_rotateEpochBags tid s =
     (let th = db_thread s tid;
          nextIndex = (dt_index th + 1) mod NUMBER_OF_EPOCH_BAGS;
          freeable = (nextIndex + NUMBER_OF_ALWAYS_EMPTY_EPOCH_BAGS) mod NUMBER_OF_EPOCH_BAGS
      in upd_thread tid (\<lambda>th. th\<lparr>dt_epochbags := (dt_epochbags th)(freeable := map_option (\<lambda>_. []) (dt_epochbags th freeable)),
             dt_index := nextIndex, dt_currentBag := nextIndex\<rparr>)
           (s\<lparr>db_pool := pool_add_all tid (bag_items (dt_epochbags th freeable)) (db_pool s)\<rparr>))"

text \<open>The parts of \<open>startOp\<close>, cut at its accesses to shared memory.\<close>

definition debra_begin :: "nat \<Rightarrow> nat \<Rightarrow> debra \<Rightarrow> bool \<times> debra" where
  "debra_begin tid readEpoch s =
     (let ann = dt_localvar (db_thread s tid);
          s1 = upd_thread tid (\<lambda>th. th\<lparr>dt_localvar := readEpoch\<rparr>) s
      in if readEpoch \<noteq> ann
         then (True, debra_rotateEpochBags tid (upd_thread tid (\<lambda>th. th\<lparr>dt_checked := 0\<rparr>) s1))
         else (False, s1))"

definition debra_announce :: "nat \<Rightarrow> nat \<Rightarrow> debra \<Rightarrow> debra" where
  "debra_announce tid readEpoch s = upd_thread tid (\<lambda>th. th\<lparr>dt_announcedEpoch := readEpoch\<rparr>) s"

definition debra_count :: "nat \<Rightarrow> debra \<Rightarrow> bool \<times> debra" where
  "debra_count tid s =
     (let n = dt_opsSinceRead (db_thread s tid) + 1
      in if n = MIN_OPS_BEFORE_READ then (True, upd_thread tid (\<lambda>th. th\<lparr>dt_opsSinceRead := 0\<rparr>) s)
         else (False, upd_thread tid (\<lambda>th. th\<lparr>dt_opsSinceRead := n\<rparr>) s))"

definition debra_check :: "nat \<Rightarrow> nat \<Rightarrow> debra \<Rightarrow> bool \<times> debra" where
  "debra_check tid readEpoch s =
     (let otherTid = dt_checked (db_thread s tid);
          otherAnnounce = dt_announcedEpoch (db_thread s otherTid)
      in if BITS_EPOCH otherAnnounce = readEpoch \<or> QUIESCENT otherAnnounce
         then let c = dt_checked (db_thread s tid) + 1
              in (db_num_process s \<le> c, upd_thread tid (\<lambda>th. th\<lparr>dt_checked := c\<rparr>) s)
         else (False, s))"

definition debra_cas_epoch :: "nat \<Rightarrow> debra \<Rightarrow> debra" where
  "debra_cas_epoch readEpoch s = (if db_epoch s = readEpoch then s\<lparr>db_epoch := readEpoch + EPOCH_INCREMENT\<rparr> else s)"

definition debra_startOp :: "nat \<Rightarrow> debra \<Rightarrow> bool \<times> debra" where
  "debra_startOp tid s =
     (let readEpoch = db_epoch s;
          (result, s1) = debra_begin tid readEpoch s;
          s2 = debra_announce tid readEpoch s1;
          (due, s3) = debra_count tid s2
      in if due
         then let (all_checked, s4) = debra_check tid readEpoch s3
              in (result, if all_checked then debra_cas_epoch readEpoch s4 else s4)
         else (result, s3))"

definition debra_endOp :: "nat \<Rightarrow> debra \<Rightarrow> debra" where
  "debra_endOp tid s = upd_thread tid (\<lambda>th. th\<lparr>dt_announcedEpoch := GET_WITH_QUIESCENT (dt_localvar th)\<rparr>) s"

definition debra_retire :: "nat \<Rightarrow> ptr \<Rightarrow> debra \<Rightarrow> debra" where
  "debra_retire tid p s =
     upd_thread tid (\<lambda>th. th\<lparr>dt_epochbags := (dt_epochbags th)(dt_currentBag th := map_option (Cons p) (dt_epochbags th (dt_currentBag th)))\<rparr>) s"

definition debra_isQuiescent :: "nat \<Rightarrow> debra \<Rightarrow> bool" where
  "debra_isQuiescent tid s = QUIESCENT (dt_announcedEpoch (db_thread s tid))"

definition debra_getSizeInNodes :: "debra \<Rightarrow> nat" where
  "debra_getSizeInNodes s =
     sum_list (map (\<lambda>tid. sum_list (map (\<lambda>j. length (bag_items (dt_epochbags (db_thread s tid) j))) [0..<NUMBER_OF_EPOCH_BAGS])) [0..<db_num_process s])"

definition debra_start :: "nat \<Rightarrow> (nat \<Rightarrow> debra_thread) \<Rightarrow> allocator \<Rightarrow> debra" where
  "debra_start n mem pool = fold debra_initThread [0..<n] (debra_new n mem pool)"

lemmas debra_consts = EPOCH_INCREMENT_def MIN_OPS_BEFORE_READ_def NUMBER_OF_EPOCH_BAGS_def NUMBER_OF_ALWAYS_EMPTY_EPOCH_BAGS_def

lemma upd_thread_simps [simp]:
  "db_thread (upd_thread tid f s) = (db_thread s)(tid := f (db_thread s tid))"
  "db_num_process (upd_thread tid f s) = db_num_process s"
  "db_epoch (upd_thread tid f s) = db_epoch s" "db_pool (upd_thread tid f s) = db_pool s"
  by (simp_all add: upd_thread_def)

subsection \<open>Sequential behaviour\<close>

definition debra_thread_wf :: "debra_thread \<Rightarrow> bool" where
  "debra_thread_wf th \<longleftrightarrow> dt_index th < 3 \<and> dt_currentBag th < 3 \<and> (\<forall>i<3. dt_epochbags th i \<noteq> None)"

definition debra_wf :: "debra \<Rightarrow> bool" where
  "debra_wf s \<longleftrightarrow> (\<forall>t<db_num_process s. debra_thread_wf (db_thread s t))"

definition thread_items :: "debra_thread \<Rightarrow> ptr list" where
  "thread_items th = bag_items (dt_epochbags th 0) @ bag_items (dt_epochbags th 1) @ bag_items (dt_epochbags th 2)"

definition real_objects :: "ptr list \<Rightarrow> ptr multiset" where
  "real_objects ps = filter_mset (\<lambda>p. p \<noteq> NULL) (mset ps)"

definition debra_limbo :: "debra \<Rightarrow> ptr multiset" where
  "debra_limbo s = sum (\<lambda>t. real_objects (thread_items (db_thread s t))) {..<db_num_process s}"

definition debra_freed :: "debra \<Rightarrow> ptr list" where
  "debra_freed s = filter (\<lambda>p. p \<noteq> NULL) (al_freed (db_pool s))"

fun debra_exec :: "smr_op \<Rightarrow> debra \<Rightarrow> debra" where
  "debra_exec (StartOp tid) s = snd (debra_startOp tid s)"
| "debra_exec (EndOp tid) s = debra_endOp tid s"
| "debra_exec (ReadOp tid idx p) s = s"
| "debra_exec (AllocOp tid) s = s"
| "debra_exec (SignalOp tid) s = s"
| "debra_exec (RetireOp tid p) s = debra_retire tid p s"

lemma sum_upd:
  fixes f g :: "nat \<Rightarrow> 'a multiset"
  assumes "t < n" and "\<And>u. u \<noteq> t \<Longrightarrow> g u = f u"
  shows "sum g {..<n} + f t = sum f {..<n} + g t"
proof -
  have "sum g ({..<n} - {t}) = sum f ({..<n} - {t})" using assms(2) by (intro sum.cong) auto
  then show ?thesis using assms(1) sum.remove [of "{..<n}" t g] sum.remove [of "{..<n}" t f] by (simp add: add_ac)
qed

lemma debra_limbo_upd:
  assumes "t < db_num_process s" and "db_num_process s' = db_num_process s" and "\<And>u. u \<noteq> t \<Longrightarrow> db_thread s' u = db_thread s u"
  shows "debra_limbo s' + real_objects (thread_items (db_thread s t)) = debra_limbo s + real_objects (thread_items (db_thread s' t))"
  unfolding debra_limbo_def assms(2)
  by (rule sum_upd [OF assms(1), of "\<lambda>t. real_objects (thread_items (db_thread s' t))" "\<lambda>t. real_objects (thread_items (db_thread s t))"])
    (simp add: assms(3))

lemma real_objects_simps [simp]:
  "real_objects [] = {#}" "real_objects (p # ps) = (if p = NULL then {#} else {#p#}) + real_objects ps"
  "real_objects (ps @ qs) = real_objects ps + real_objects qs"
  by (simp_all add: real_objects_def)

lemma debra_freed_real: "mset (debra_freed s) = real_objects (al_freed (db_pool s))"
  by (simp add: debra_freed_def real_objects_def)

text \<open>What the parts of \<open>startOp\<close> leave alone.\<close>

lemma less3_cases: "(i::nat) < 3 \<Longrightarrow> i = 0 \<or> i = 1 \<or> i = 2" by auto

lemma debra_thread_wf_rotate:
  "debra_thread_wf (db_thread s tid) \<Longrightarrow> debra_thread_wf (db_thread (debra_rotateEpochBags tid s) tid)"
  by (auto simp: debra_thread_wf_def debra_rotateEpochBags_def Let_def debra_consts)

lemma debra_account_rotate:
  assumes "debra_thread_wf (db_thread s tid)"
  shows "real_objects (thread_items (db_thread (debra_rotateEpochBags tid s) tid)) + mset (debra_freed (debra_rotateEpochBags tid s))
     = real_objects (thread_items (db_thread s tid)) + mset (debra_freed s)"
  using less3_cases [of "dt_index (db_thread s tid)"] assms
  by (auto simp: debra_thread_wf_def debra_rotateEpochBags_def Let_def debra_consts thread_items_def debra_freed_real bag_items_def
      split: option.splits)


lemma debra_rotate_simps [simp]:
  "db_num_process (debra_rotateEpochBags tid s) = db_num_process s" "db_epoch (debra_rotateEpochBags tid s) = db_epoch s"
  "u \<noteq> tid \<Longrightarrow> db_thread (debra_rotateEpochBags tid s) u = db_thread s u"
  "\<exists>ps. al_freed (db_pool (debra_rotateEpochBags tid s)) = al_freed (db_pool s) @ ps"
  by (simp_all add: debra_rotateEpochBags_def Let_def)

text \<open>A change of a thread's counters and announcements keeps its bags.\<close>

definition same_bags :: "debra \<Rightarrow> debra \<Rightarrow> bool" where
  "same_bags s s' \<longleftrightarrow> db_num_process s' = db_num_process s \<and> db_pool s' = db_pool s
     \<and> (\<forall>u. dt_epochbags (db_thread s' u) = dt_epochbags (db_thread s u) \<and> dt_index (db_thread s' u) = dt_index (db_thread s u)
          \<and> dt_currentBag (db_thread s' u) = dt_currentBag (db_thread s u))"

lemma same_bags_trans: "same_bags s s' \<Longrightarrow> same_bags s' s'' \<Longrightarrow> same_bags s s''"
  by (simp add: same_bags_def)

lemma same_bags_ops:
  "same_bags s (upd_thread t (\<lambda>th. th\<lparr>dt_localvar := e\<rparr>) s)" "same_bags s (upd_thread t (\<lambda>th. th\<lparr>dt_checked := c\<rparr>) s)"
  "same_bags s (debra_announce t e s)" "same_bags s (snd (debra_count t s))" "same_bags s (snd (debra_check t e s))"
  "same_bags s (debra_cas_epoch e s)" "same_bags s (debra_endOp t s)"
  by (simp_all add: same_bags_def debra_announce_def debra_count_def debra_check_def debra_cas_epoch_def debra_endOp_def Let_def)

lemma same_bags_facts:
  assumes "same_bags s s'"
  shows "debra_limbo s' = debra_limbo s" "debra_freed s' = debra_freed s" "debra_wf s' = debra_wf s"
    "db_num_process s' = db_num_process s" "al_freed (db_pool s') = al_freed (db_pool s)"
  using assms by (simp_all add: same_bags_def debra_limbo_def debra_freed_def debra_wf_def debra_thread_wf_def thread_items_def)

lemma mset_handover:
  assumes "L' + X = L + X'" and "X' + F' = X + F"
  shows "L' + F' = (L + F :: 'a multiset)"
proof -
  have "L' + F' + X = (L' + X) + F'" by (simp only: add_ac)
  also have "\<dots> = L + (X' + F')" by (simp only: assms(1) add.assoc)
  also have "\<dots> = L + (X + F)" by (simp only: assms(2))
  also have "\<dots> = L + F + X" by (simp only: add_ac)
  finally show ?thesis by simp
qed

lemma debra_rotate_facts:
  assumes wf: "debra_wf s" and t: "tid < db_num_process s"
  shows "debra_wf (debra_rotateEpochBags tid s)"
    "debra_limbo (debra_rotateEpochBags tid s) + mset (debra_freed (debra_rotateEpochBags tid s)) = debra_limbo s + mset (debra_freed s)"
proof -
  let ?s = "debra_rotateEpochBags tid s"
  have th: "debra_thread_wf (db_thread s tid)" using wf t by (simp add: debra_wf_def)
  have "debra_thread_wf (db_thread ?s u)" if "u < db_num_process s" for u
    using that wf debra_thread_wf_rotate [OF th] by (cases "u = tid") (simp_all add: debra_wf_def)
  then show "debra_wf ?s" by (simp add: debra_wf_def)
  have a: "debra_limbo ?s + real_objects (thread_items (db_thread s tid)) = debra_limbo s + real_objects (thread_items (db_thread ?s tid))"
    by (rule debra_limbo_upd [OF t]) simp_all
  have b: "real_objects (thread_items (db_thread ?s tid)) + mset (debra_freed ?s) = real_objects (thread_items (db_thread s tid)) + mset (debra_freed s)"
    by (rule debra_account_rotate [OF th])
  show "debra_limbo ?s + mset (debra_freed ?s) = debra_limbo s + mset (debra_freed s)"
    by (rule mset_handover [OF a b])
qed

text \<open>\<open>startOp\<close> is its first part followed by steps that keep the bags.\<close>

lemma debra_startOp_begin: "same_bags (snd (debra_begin tid (db_epoch s) s)) (snd (debra_startOp tid s))"
proof -
  let ?e = "db_epoch s"
  let ?s2 = "debra_announce tid ?e (snd (debra_begin tid ?e s))"
  let ?s3 = "snd (debra_count tid ?s2)"
  let ?s4 = "snd (debra_check tid ?e ?s3)"
  have a: "same_bags (snd (debra_begin tid ?e s)) ?s3"
    by (rule same_bags_trans [OF same_bags_ops(3) same_bags_ops(4)])
  note b = same_bags_trans [OF a same_bags_ops(5) [of _ tid ?e]]
  note c = same_bags_trans [OF b same_bags_ops(6) [of _ ?e]]
  have "snd (debra_startOp tid s) = ?s3 \<or> snd (debra_startOp tid s) = ?s4 \<or> snd (debra_startOp tid s) = debra_cas_epoch ?e ?s4"
    by (simp add: debra_startOp_def case_prod_beta Let_def)
  then show ?thesis using a b c by (elim disjE) (simp_all only:)
qed

lemma debra_begin_facts:
  fixes e :: nat
  assumes wf: "debra_wf s" and t: "tid < db_num_process s"
  defines "s' \<equiv> snd (debra_begin tid e s)"
  shows "debra_wf s'" "db_num_process s' = db_num_process s"
    "debra_limbo s' + mset (debra_freed s') = debra_limbo s + mset (debra_freed s)"
    "\<exists>ps. al_freed (db_pool s') = al_freed (db_pool s) @ ps"
proof -
  let ?s1 = "upd_thread tid (\<lambda>th. th\<lparr>dt_localvar := e\<rparr>) s"
  let ?s2 = "upd_thread tid (\<lambda>th. th\<lparr>dt_checked := 0\<rparr>) ?s1"
  have sb: "same_bags s ?s1" "same_bags s ?s2" using same_bags_ops(1,2) same_bags_trans by blast+
  note f1 = same_bags_facts [OF sb(1)] and f2 = same_bags_facts [OF sb(2)]
  have rot: "debra_wf (debra_rotateEpochBags tid ?s2)"
    "debra_limbo (debra_rotateEpochBags tid ?s2) + mset (debra_freed (debra_rotateEpochBags tid ?s2)) = debra_limbo s + mset (debra_freed s)"
    using debra_rotate_facts [of ?s2 tid] f2 wf t by simp_all
  have s1: "debra_wf ?s1" "debra_limbo ?s1 + mset (debra_freed ?s1) = debra_limbo s + mset (debra_freed s)"
    using f1 wf by simp_all
  have s': "s' = (if e \<noteq> dt_localvar (db_thread s tid) then debra_rotateEpochBags tid ?s2 else ?s1)"
    by (simp add: s'_def debra_begin_def Let_def)
  show "debra_wf s'" 
    using rot(1) s1(1) unfolding s' by (cases "e \<noteq> dt_localvar (db_thread s tid)") (simp_all only: if_True if_False not_False_eq_True not_True_eq_False)
  show "db_num_process s' = db_num_process s" using s' by simp
  show "debra_limbo s' + mset (debra_freed s') = debra_limbo s + mset (debra_freed s)"
    using rot(2) s1(2) unfolding s' by (cases "e \<noteq> dt_localvar (db_thread s tid)") (simp_all only: if_True if_False not_False_eq_True not_True_eq_False)
  show "\<exists>ps. al_freed (db_pool s') = al_freed (db_pool s) @ ps"
    using s' debra_rotate_simps(4) [of tid ?s2] by simp
qed

lemma debra_retire_facts:
  assumes wf: "debra_wf s" and t: "tid < db_num_process s"
  shows "debra_wf (debra_retire tid p s)" "debra_freed (debra_retire tid p s) = debra_freed s"
    "debra_limbo (debra_retire tid p s) = debra_limbo s + real_objects [p]"
proof -
  let ?s = "debra_retire tid p s"
  have th: "debra_thread_wf (db_thread s tid)" using wf t by (simp add: debra_wf_def)
  then show "debra_wf ?s" using wf by (auto simp: debra_wf_def debra_retire_def debra_thread_wf_def)
  show "debra_freed ?s = debra_freed s" by (simp add: debra_freed_def debra_retire_def)
  have "real_objects (thread_items (db_thread ?s tid)) = real_objects (thread_items (db_thread s tid)) + real_objects [p]"
    using less3_cases [of "dt_currentBag (db_thread s tid)"] th
    by (auto simp: debra_retire_def debra_thread_wf_def thread_items_def bag_items_def split: option.splits)
  then show "debra_limbo ?s = debra_limbo s + real_objects [p]"
    using debra_limbo_upd [OF t, of ?s] by (simp add: debra_retire_def add_ac del: real_objects_simps)
qed

interpretation debra: reclaimer debra_exec debra_wf db_num_process debra_limbo debra_freed
proof (unfold_locales, goal_cases)
  case (1 s op)
  then show ?case
    using debra_begin_facts(1) debra_retire_facts(1) same_bags_facts(3) [OF debra_startOp_begin] same_bags_facts(3) [OF same_bags_ops(7)] op_ok_tid [OF 1(2)]
    by (cases op) auto
next
  case (2 s op)
  then show ?case
    using debra_begin_facts(2) same_bags_facts(4) [OF debra_startOp_begin] op_ok_tid [OF 2(2)]
    by (cases op) (auto simp: debra_endOp_def debra_retire_def)
next
  case (3 s op)
  then show ?case
    using debra_begin_facts(3) debra_retire_facts(2,3) same_bags_facts(1,2) [OF debra_startOp_begin] same_bags_facts(1,2) [OF same_bags_ops(7)]
      op_ok_tid [OF 3(2)] by (cases op) auto
next
  case (4 s op)
  then show ?case
    using debra_begin_facts(4) [of s "op_tid op" "db_epoch s"] same_bags_facts(2) [OF debra_startOp_begin] op_ok_tid [OF 4(2)]
    by (cases op) (auto simp: debra_freed_def debra_endOp_def debra_retire_def)
qed


subsection \<open>The start of the threads\<close>

definition debra_fresh :: "debra_thread \<Rightarrow> bool" where
  "debra_fresh th \<longleftrightarrow> dt_index th = 0 \<and> dt_currentBag th = 0 \<and> dt_localvar th = 1 \<and> dt_announcedEpoch th = 1
     \<and> dt_checked th = 0 \<and> dt_opsSinceRead th = 0 \<and> (\<forall>i<3. dt_epochbags th i = Some [])"

lemma init_threads:
  "distinct ts \<Longrightarrow> db_thread (fold debra_initThread ts s) u = (if u \<in> set ts then db_thread (debra_initThread u s) u else db_thread s u)
    \<and> db_num_process (fold debra_initThread ts s) = db_num_process s
    \<and> db_epoch (fold debra_initThread ts s) = db_epoch s \<and> db_pool (fold debra_initThread ts s) = db_pool s"
  by (induction ts arbitrary: s) (auto simp: debra_initThread_def)

lemma debra_start_consts [simp]:
  "db_num_process (debra_start n mem pool) = n" "db_epoch (debra_start n mem pool) = 0" "db_pool (debra_start n mem pool) = pool"
  using init_threads [of "[0..<n]" "debra_new n mem pool"] by (simp_all add: debra_start_def debra_new_def)

lemma debra_start_fresh: "t < n \<Longrightarrow> debra_fresh (db_thread (debra_start n mem pool) t)"
  using init_threads [of "[0..<n]" "debra_new n mem pool" t]
  by (simp add: debra_start_def debra_new_def debra_initThread_def debra_init_data_def debra_fresh_def GET_WITH_QUIESCENT_def NUMBER_OF_EPOCH_BAGS_def)

lemma debra_start_wf: "debra_wf (debra_start n mem pool)"
  using debra_start_fresh [of _ n mem pool] by (auto simp: debra_wf_def debra_thread_wf_def debra_fresh_def)

lemma debra_start_empty: "debra_limbo (debra_start n mem pool) = {#}"
  unfolding debra_limbo_def
  by (rule sum.neutral) (use debra_start_fresh [of _ n mem pool] in \<open>auto simp: debra_fresh_def thread_items_def bag_items_def\<close>)

subsection \<open>Properties\<close>

text \<open>
  Over every sequence of calls from the constructor on, the retired objects are those that are in
  the bags together with those that were freed, each once, the order and the rotations
  notwithstanding.
\<close>

lemma debra_accounting:
  assumes "legal_ops n ops" and "al_freed pool = []"
  shows "debra_limbo (fold debra_exec ops (debra_start n mem pool)) + mset (debra_freed (fold debra_exec ops (debra_start n mem pool)))
       = mset (retired_in ops)"
  by (rule debra.run_accounting) (use assms debra_start_wf in \<open>auto simp: debra_start_empty debra_freed_def\<close>)

lemma debra_accounting_witness:
  "\<forall>mem. debra_limbo (fold debra_exec [StartOp 0, RetireOp 0 7, EndOp 0] (debra_start 2 mem alloc_init))
     + mset (debra_freed (fold debra_exec [StartOp 0, RetireOp 0 7, EndOp 0] (debra_start 2 mem alloc_init))) = {#7#}"
  using debra_accounting [of 2 "[StartOp 0, RetireOp 0 7, EndOp 0]" alloc_init] by (simp add: alloc_init_def)

text \<open>What a rotation frees, and where the current bag goes.\<close>

lemma rotate_bags:
  assumes "debra_thread_wf (db_thread s t)"
  defines "i \<equiv> dt_index (db_thread s t)" and "s' \<equiv> debra_rotateEpochBags t s"
  shows "al_freed (db_pool s') = al_freed (db_pool s) @ bag_items (dt_epochbags (db_thread s t) ((i + 1) mod 3))"
    and "j \<noteq> (i + 1) mod 3 \<Longrightarrow> dt_epochbags (db_thread s' t) j = dt_epochbags (db_thread s t) j"
    and "dt_index (db_thread s' t) = (i + 1) mod 3"
  by (simp_all add: i_def s'_def debra_rotateEpochBags_def Let_def debra_consts)

text \<open>
  What the initialisation of a thread that was initialised before does: \<open>initThread\<close> makes bag 0 the
  current bag and leaves \<open>index\<close> as it was. With \<open>index\<close> 2, an object retired then is freed by the
  first \<open>startOp\<close> that sees a new epoch, and not by the third: two epochs too early, while threads
  that met it may still be in the same operation.
\<close>

lemma debra_reinit_frees_early:
  assumes "debra_wf s" and "t < db_num_process s" and "dt_index (db_thread s t) = 2"
    and "db_epoch s \<noteq> dt_localvar (db_thread s t)"
  shows "p \<in> set (al_freed (db_pool (snd (debra_startOp t (debra_retire t p (debra_initThread t (debra_deinitThread t s)))))))"
proof -
  let ?s1 = "debra_retire t p (debra_initThread t (debra_deinitThread t s))"
  have s1: "dt_index (db_thread ?s1 t) = 2" "db_epoch ?s1 = db_epoch s" "dt_localvar (db_thread ?s1 t) = dt_localvar (db_thread s t)"
    "\<exists>xs. dt_epochbags (db_thread ?s1 t) 0 = Some (p # xs)"
    using assms(3) by (simp_all add: debra_retire_def debra_initThread_def debra_init_data_def debra_deinitThread_def NUMBER_OF_EPOCH_BAGS_def upt_3)
  then have "p \<in> set (al_freed (db_pool (snd (debra_begin t (db_epoch ?s1) ?s1))))"
    using assms(4) by (auto simp: debra_begin_def debra_rotateEpochBags_def Let_def debra_consts bag_items_def)
  then show ?thesis using same_bags_facts(5) [OF debra_startOp_begin] by simp
qed

text \<open>A thread whose index is 2, for the witness: two epochs were seen.\<close>

definition debra_two :: debra where
  "debra_two = \<lparr>db_num_process = 1, db_thread = (\<lambda>_. \<lparr>dt_announcedEpoch = 1, dt_localvar = 2, dt_epochbags = (\<lambda>_. Some []),
      dt_index = 2, dt_currentBag = 2, dt_checked = 0, dt_opsSinceRead = 0\<rparr>), db_epoch = 4, db_pool = alloc_init\<rparr>"

lemma debra_reinit_frees_early_witness:
  "7 \<in> set (al_freed (db_pool (snd (debra_startOp 0 (debra_retire 0 7 (debra_initThread 0 (debra_deinitThread 0 debra_two)))))))"
  by (rule debra_reinit_frees_early) (simp_all add: debra_two_def debra_wf_def debra_thread_wf_def)

end
