(* ===== verification/Debra_System.thy ===== *)
theory Debra_System
  imports Debra
begin

text \<open>
  DEBRA access by access: the parts of \<open>startOp\<close> of \<open>reclaimer_debra.h\<close> as steps that
  any number of threads interleave, and threads that hold objects they met while these were linked.
  Three limbo bags are enough: no object is freed while a thread holds it.
\<close>

subsection \<open>The system\<close>

datatype dpc = DQuiet | DRead nat | DBegun nat | DAnnounced nat | DCheck nat | DCas nat | DBody

datatype dstatus = DFree | DLinked | DUnlinked nat | DRetired nat

text \<open>
  The ghosts: what each object is, whom it is held by, the epoch when a thread announced itself and
  the epoch when an object was retired.
\<close>

record dsys =
  dy_class :: debra
  dy_pc :: "nat \<Rightarrow> dpc"
  dy_status :: "ptr \<Rightarrow> dstatus"
  dy_held :: "nat \<Rightarrow> ptr set"
  dy_ann_at :: "nat \<Rightarrow> nat"
  dy_ret_at :: "ptr \<Rightarrow> nat"

definition dsys_init :: "nat \<Rightarrow> (nat \<Rightarrow> debra_thread) \<Rightarrow> allocator \<Rightarrow> dsys" where
  "dsys_init n mem pool = \<lparr>dy_class = debra_start n mem pool, dy_pc = (\<lambda>_. DQuiet), dy_status = (\<lambda>_. DFree),
     dy_held = (\<lambda>_. {}), dy_ann_at = (\<lambda>_. 0), dy_ret_at = (\<lambda>_. 0)\<rparr>"

definition dgo :: "nat \<Rightarrow> dpc \<Rightarrow> debra \<Rightarrow> dsys \<Rightarrow> dsys" where
  "dgo t c d y = y\<lparr>dy_class := d, dy_pc := (dy_pc y)(t := c)\<rparr>"

definition freed_by_rotation :: "nat \<Rightarrow> nat \<Rightarrow> debra \<Rightarrow> ptr list" where
  "freed_by_rotation tid e d =
     (if e \<noteq> dt_localvar (db_thread d tid)
      then bag_items (dt_epochbags (db_thread d tid) ((dt_index (db_thread d tid) + 1) mod NUMBER_OF_EPOCH_BAGS)) else [])"

inductive dstep :: "dsys \<Rightarrow> dsys \<Rightarrow> bool" where
  d_read: "t < db_num_process (dy_class y) \<Longrightarrow> dy_pc y t = DQuiet \<Longrightarrow>
    dstep y (dgo t (DRead (db_epoch (dy_class y))) (dy_class y) y)"
| d_begin: "t < db_num_process (dy_class y) \<Longrightarrow> dy_pc y t = DRead e \<Longrightarrow>
    dstep y ((dgo t (DBegun e) (snd (debra_begin t e (dy_class y))) y)
       \<lparr>dy_status := (\<lambda>p. if p \<in> set (freed_by_rotation t e (dy_class y)) then DFree else dy_status y p)\<rparr>)"
| d_announce: "t < db_num_process (dy_class y) \<Longrightarrow> dy_pc y t = DBegun e \<Longrightarrow>
    dstep y ((dgo t (DAnnounced e) (debra_announce t e (dy_class y)) y)\<lparr>dy_ann_at := (dy_ann_at y)(t := db_epoch (dy_class y))\<rparr>)"
| d_count: "t < db_num_process (dy_class y) \<Longrightarrow> dy_pc y t = DAnnounced e \<Longrightarrow> debra_count t (dy_class y) = (due, d') \<Longrightarrow>
    dstep y (dgo t (if due then DCheck e else DBody) d' y)"
| d_check: "t < db_num_process (dy_class y) \<Longrightarrow> dy_pc y t = DCheck e \<Longrightarrow> debra_check t e (dy_class y) = (all_checked, d') \<Longrightarrow>
    dstep y (dgo t (if all_checked then DCas e else DBody) d' y)"
| d_cas: "t < db_num_process (dy_class y) \<Longrightarrow> dy_pc y t = DCas e \<Longrightarrow>
    dstep y (dgo t DBody (debra_cas_epoch e (dy_class y)) y)"
| d_end: "t < db_num_process (dy_class y) \<Longrightarrow> dy_pc y t = DBody \<Longrightarrow>
    dstep y ((dgo t DQuiet (debra_endOp t (dy_class y)) y)\<lparr>dy_held := (dy_held y)(t := {})\<rparr>)"
| d_link: "dy_status y p = DFree \<Longrightarrow> dstep y (y\<lparr>dy_status := (dy_status y)(p := DLinked)\<rparr>)"
| d_meet: "t < db_num_process (dy_class y) \<Longrightarrow> dy_pc y t = DBody \<Longrightarrow> dy_status y p = DLinked \<Longrightarrow>
    dstep y (y\<lparr>dy_held := (dy_held y)(t := insert p (dy_held y t))\<rparr>)"
| d_unlink: "t < db_num_process (dy_class y) \<Longrightarrow> dy_pc y t = DBody \<Longrightarrow> dy_status y p = DLinked \<Longrightarrow>
    dstep y (y\<lparr>dy_status := (dy_status y)(p := DUnlinked t)\<rparr>)"
| d_retire: "t < db_num_process (dy_class y) \<Longrightarrow> dy_pc y t = DBody \<Longrightarrow> dy_status y p = DUnlinked t \<Longrightarrow>
    dstep y (y\<lparr>dy_class := debra_retire t p (dy_class y), dy_status := (dy_status y)(p := DRetired t),
              dy_ret_at := (dy_ret_at y)(p := db_epoch (dy_class y))\<rparr>)"

inductive dreach :: "nat \<Rightarrow> dsys \<Rightarrow> bool" for n where
  dreach_init: "dreach n (dsys_init n mem pool)"
| dreach_step: "dreach n y \<Longrightarrow> dstep y y' \<Longrightarrow> dreach n y'"

subsection \<open>The invariant\<close>

text \<open>A thread's state cut down to what matters: its bags in the order of their age.\<close>

definition cur_bag :: "debra_thread \<Rightarrow> ptr list" where
  "cur_bag th = bag_items (dt_epochbags th (dt_index th))"

definition mid_bag :: "debra_thread \<Rightarrow> ptr list" where
  "mid_bag th = bag_items (dt_epochbags th ((dt_index th + 2) mod 3))"

definition old_bag :: "debra_thread \<Rightarrow> ptr list" where
  "old_bag th = bag_items (dt_epochbags th ((dt_index th + 1) mod 3))"

definition in_op :: "dpc \<Rightarrow> bool" where
  "in_op c \<longleftrightarrow> (case c of DQuiet \<Rightarrow> False | DRead _ \<Rightarrow> False | DBegun _ \<Rightarrow> False | _ \<Rightarrow> True)"

text \<open>The bags and the epochs in them.\<close>

definition bags_ok :: "dsys \<Rightarrow> nat \<Rightarrow> bool" where
  "bags_ok y t \<longleftrightarrow> (let th = db_thread (dy_class y) t in
     debra_thread_wf th \<and> dt_currentBag th = dt_index th
     \<and> distinct (cur_bag th @ mid_bag th @ old_bag th)
     \<and> (\<forall>p\<in>set (cur_bag th @ mid_bag th @ old_bag th). dy_status y p = DRetired t)
     \<and> (\<forall>p\<in>set (cur_bag th). dy_ret_at y p \<le> db_epoch (dy_class y))
     \<and> (\<forall>p\<in>set (mid_bag th). dy_ret_at y p \<le> dt_localvar th)
     \<and> (\<forall>p\<in>set (old_bag th). dy_ret_at y p + 2 \<le> dt_localvar th))"

text \<open>The place of a thread and its counters.\<close>

definition pc_ok :: "dsys \<Rightarrow> nat \<Rightarrow> bool" where
  "pc_ok y t \<longleftrightarrow> (let th = db_thread (dy_class y) t; n = db_num_process (dy_class y); g = db_epoch (dy_class y) in
     (odd (dt_localvar th) \<longrightarrow> dt_localvar th = 1 \<and> thread_items th = [] \<and> (dy_pc y t = DQuiet \<or> (\<exists>e. dy_pc y t = DRead e)))
     \<and> (even (dt_localvar th) \<longrightarrow> dt_localvar th \<le> g)
     \<and> dt_checked th \<le> n
     \<and> (case dy_pc y t of
          DRead e \<Rightarrow> even e \<and> e \<le> g \<and> (even (dt_localvar th) \<longrightarrow> dt_localvar th \<le> e)
             \<and> (dt_checked th = n \<longrightarrow> dt_localvar th \<noteq> e) \<and> (\<forall>p\<in>set (cur_bag th). dy_ret_at y p \<le> e)
        | DBegun e \<Rightarrow> e = dt_localvar th \<and> dt_checked th < n
        | DAnnounced e \<Rightarrow> e = dt_localvar th \<and> dt_checked th < n
        | DCheck e \<Rightarrow> e = dt_localvar th \<and> dt_checked th < n
        | DCas e \<Rightarrow> e = dt_localvar th
        | _ \<Rightarrow> dt_checked th = n \<longrightarrow> dt_localvar th \<noteq> g))"

text \<open>A thread inside an operation: the epoch is at most one ahead of the one it announced itself in.\<close>

definition reader_ok :: "dsys \<Rightarrow> nat \<Rightarrow> bool" where
  "reader_ok y t \<longleftrightarrow> (let th = db_thread (dy_class y) t; g = db_epoch (dy_class y) in
     (if in_op (dy_pc y t)
      then dt_announcedEpoch th = dt_localvar th \<and> dt_localvar th \<le> dy_ann_at y t \<and> even (dy_ann_at y t)
         \<and> dy_ann_at y t \<le> g \<and> g \<le> dy_ann_at y t + 2
      else odd (dt_announcedEpoch th) \<and> dy_held y t = {})
     \<and> (\<forall>p\<in>dy_held y t. dy_status y p \<noteq> DFree \<and> (\<forall>u. dy_status y p = DRetired u \<longrightarrow> dy_ann_at y t \<le> dy_ret_at y p)))"

text \<open>A thread that scans the announcements for the current epoch has not passed a late reader.\<close>

definition scan_ok :: "dsys \<Rightarrow> nat \<Rightarrow> nat \<Rightarrow> bool" where
  "scan_ok y u r \<longleftrightarrow> (let d = dy_class y in
     in_op (dy_pc y r) \<and> db_epoch d = dy_ann_at y r + 2 \<and> dt_localvar (db_thread d u) = db_epoch d
     \<longrightarrow> dt_checked (db_thread d u) \<le> r \<and> (\<forall>e. dy_pc y u \<noteq> DCas e))"

definition dinv :: "nat \<Rightarrow> dsys \<Rightarrow> bool" where
  "dinv n y \<longleftrightarrow> db_num_process (dy_class y) = n \<and> even (db_epoch (dy_class y))
     \<and> (\<forall>t<n. bags_ok y t) \<and> (\<forall>t<n. pc_ok y t) \<and> (\<forall>t<n. reader_ok y t) \<and> (\<forall>u<n. \<forall>r<n. scan_ok y u r)"


lemma dinvD:
  assumes "dinv n y" and "t < n"
  shows "db_num_process (dy_class y) = n" "even (db_epoch (dy_class y))" "bags_ok y t" "pc_ok y t" "reader_ok y t"
    "\<And>r. r < n \<Longrightarrow> scan_ok y t r"
  using assms by (simp_all add: dinv_def)

lemma items_bags:
  assumes "debra_thread_wf th"
  shows "set (thread_items th) = set (cur_bag th @ mid_bag th @ old_bag th)"
proof -
  have "dt_index th = 0 \<or> dt_index th = 1 \<or> dt_index th = 2" using assms by (auto simp: debra_thread_wf_def)
  then show ?thesis by (auto simp: thread_items_def cur_bag_def mid_bag_def old_bag_def numeral_2_eq_2)
qed

subsection \<open>What leaves the clauses alone\<close>

lemma bags_keep:
  assumes "bags_ok y t"
    and "dt_epochbags (db_thread (dy_class y') t) = dt_epochbags (db_thread (dy_class y) t)"
    and "dt_index (db_thread (dy_class y') t) = dt_index (db_thread (dy_class y) t)"
    and "dt_currentBag (db_thread (dy_class y') t) = dt_currentBag (db_thread (dy_class y) t)"
    and "dt_localvar (db_thread (dy_class y') t) = dt_localvar (db_thread (dy_class y) t)"
    and "db_epoch (dy_class y) \<le> db_epoch (dy_class y')"
    and "\<And>p. dy_status y p = DRetired t \<Longrightarrow> dy_status y' p = DRetired t \<and> dy_ret_at y' p = dy_ret_at y p"
  shows "bags_ok y' t"
proof -
  let ?th = "db_thread (dy_class y) t" and ?th' = "db_thread (dy_class y') t"
  have same: "cur_bag ?th' = cur_bag ?th" "mid_bag ?th' = mid_bag ?th" "old_bag ?th' = old_bag ?th"
    "debra_thread_wf ?th' = debra_thread_wf ?th"
    using assms(2-4) by (simp_all add: cur_bag_def mid_bag_def old_bag_def debra_thread_wf_def)
  have st: "dy_status y' p = DRetired t \<and> dy_ret_at y' p = dy_ret_at y p"
    if "p \<in> set (cur_bag ?th @ mid_bag ?th @ old_bag ?th)" for p
    using assms(1,7) that by (auto simp: bags_ok_def Let_def)
  show ?thesis using assms(1,3-6) st unfolding bags_ok_def Let_def same by auto
qed

lemma pc_keep:
  assumes "pc_ok y t" and "bags_ok y t" and "even (db_epoch (dy_class y))" and "even (db_epoch (dy_class y'))"
    and "db_thread (dy_class y') t = db_thread (dy_class y) t" and "dy_pc y' t = dy_pc y t"
    and "db_num_process (dy_class y') = db_num_process (dy_class y)"
    and "db_epoch (dy_class y) \<le> db_epoch (dy_class y')"
    and "\<And>p. dy_status y p = DRetired t \<Longrightarrow> dy_ret_at y' p = dy_ret_at y p"
  shows "pc_ok y' t"
proof -
  let ?th = "db_thread (dy_class y) t"
  have r: "\<forall>p\<in>set (cur_bag ?th). dy_ret_at y' p = dy_ret_at y p" using assms(2,9) by (auto simp: bags_ok_def Let_def)
  have old: "dt_localvar ?th \<noteq> db_epoch (dy_class y')" if "dt_localvar ?th \<noteq> db_epoch (dy_class y)"
    using that assms(1,4,8) by (cases "even (dt_localvar ?th)") (auto simp: pc_ok_def Let_def)
  show ?thesis
    using assms(1) r old assms(8)
    unfolding pc_ok_def Let_def assms(5,6,7)
    by (auto split: dpc.splits)
qed

lemma reader_keep:
  assumes "reader_ok y t"
    and "dt_announcedEpoch (db_thread (dy_class y') t) = dt_announcedEpoch (db_thread (dy_class y) t)"
    and "dt_localvar (db_thread (dy_class y') t) = dt_localvar (db_thread (dy_class y) t) \<or> \<not> in_op (dy_pc y t)"
    and "in_op (dy_pc y' t) = in_op (dy_pc y t)" and "dy_ann_at y' t = dy_ann_at y t" and "dy_held y' t = dy_held y t"
    and "db_epoch (dy_class y') = db_epoch (dy_class y)"
    and "\<And>p. p \<in> dy_held y t \<Longrightarrow> dy_status y' p \<noteq> DFree
        \<and> (\<forall>u. dy_status y' p = DRetired u \<longrightarrow> dy_ann_at y t \<le> dy_ret_at y' p)"
  shows "reader_ok y' t"
  using assms(1,3,8) unfolding reader_ok_def Let_def assms(2,4-7) by (cases "in_op (dy_pc y t)") auto

lemma reader_held:
  assumes "reader_ok y t" and "p \<in> dy_held y t"
  shows "dy_status y p \<noteq> DFree" "dy_status y p = DRetired u \<Longrightarrow> dy_ann_at y t \<le> dy_ret_at y p"
    "in_op (dy_pc y t)" "db_epoch (dy_class y) \<le> dy_ann_at y t + 2" "dy_ann_at y t \<le> db_epoch (dy_class y)"
  using assms by (auto simp: reader_ok_def Let_def split: if_splits)

lemma scan_keep:
  assumes "scan_ok y u r"
    and "in_op (dy_pc y' r) \<Longrightarrow> in_op (dy_pc y r) \<and> dy_ann_at y' r = dy_ann_at y r"
    and "db_epoch (dy_class y') = db_epoch (dy_class y)"
    and "dt_localvar (db_thread (dy_class y') u) = dt_localvar (db_thread (dy_class y) u)"
    and "dt_checked (db_thread (dy_class y') u) = dt_checked (db_thread (dy_class y) u)"
    and "\<And>e. dy_pc y' u = DCas e \<Longrightarrow> dy_pc y u = DCas e"
  shows "scan_ok y' u r"
  using assms unfolding scan_ok_def Let_def by metis

text \<open>A step that changes only ghosts: what an object is, and who holds it.\<close>

lemma dinv_ghost:
  assumes inv: "dinv n y" and "dy_class y' = dy_class y" and "dy_pc y' = dy_pc y" and "dy_ann_at y' = dy_ann_at y"
    and "dy_ret_at y' = dy_ret_at y"
    and st: "\<And>p t. dy_status y p = DRetired t \<longleftrightarrow> dy_status y' p = DRetired t"
    and held: "\<And>t p. t < n \<Longrightarrow> p \<in> dy_held y' t \<Longrightarrow> dy_status y' p \<noteq> DFree
        \<and> (p \<in> dy_held y t \<or> in_op (dy_pc y t) \<and> (\<forall>u. dy_status y p \<noteq> DRetired u))"
  shows "dinv n y'"
proof -
  have "bags_ok y' t" if "t < n" for t
    by (rule bags_keep [OF dinvD(3) [OF inv that]]) (use assms in auto)
  moreover have "pc_ok y' t" if "t < n" for t
    by (rule pc_keep [OF dinvD(4) [OF inv that] dinvD(3) [OF inv that] dinvD(2) [OF inv that]])
      (use assms dinvD(2) [OF inv that] in auto)
  moreover have "scan_ok y' t r" if "t < n" "r < n" for t r
    by (rule scan_keep [OF dinvD(6) [OF inv that]]) (use assms in auto)
  moreover have "reader_ok y' t" if t: "t < n" for t
  proof -
    have ok: "reader_ok y t" using dinvD(5) [OF inv t] .
    have h: "dy_status y' p \<noteq> DFree \<and> (\<forall>u. dy_status y' p = DRetired u \<longrightarrow> dy_ann_at y t \<le> dy_ret_at y p)"
      if p: "p \<in> dy_held y' t" for p
      using held [OF t p] reader_held(2) [OF ok, of p] st by blast
    have "dy_held y' t = {}" if "\<not> in_op (dy_pc y t)"
      using that held [OF t] reader_held(3) [OF ok] by blast
    then show ?thesis using ok h unfolding reader_ok_def Let_def assms(2-5) by auto
  qed
  ultimately show ?thesis using inv unfolding dinv_def assms(2) by blast
qed


text \<open>A step of one thread, as the others see it.\<close>

lemma dinv_local:
  assumes inv: "dinv n y" and t: "t < n"
    and n': "db_num_process (dy_class y') = n" and g': "db_epoch (dy_class y') = db_epoch (dy_class y)"
    and others: "\<And>u. u \<noteq> t \<Longrightarrow> db_thread (dy_class y') u = db_thread (dy_class y) u \<and> dy_pc y' u = dy_pc y u
        \<and> dy_ann_at y' u = dy_ann_at y u \<and> dy_held y' u = dy_held y u"
    and ret: "\<And>p u. u \<noteq> t \<Longrightarrow> dy_status y p = DRetired u \<Longrightarrow> dy_status y' p = DRetired u \<and> dy_ret_at y' p = dy_ret_at y p"
    and held: "\<And>p u. u < n \<Longrightarrow> u \<noteq> t \<Longrightarrow> p \<in> dy_held y u \<Longrightarrow> dy_status y' p \<noteq> DFree
        \<and> (\<forall>v. dy_status y' p = DRetired v \<longrightarrow> dy_ann_at y u \<le> dy_ret_at y' p)"
    and own: "bags_ok y' t" "pc_ok y' t" "reader_ok y' t"
    and scan: "\<And>r. r < n \<Longrightarrow> scan_ok y' t r" "\<And>u. u < n \<Longrightarrow> u \<noteq> t \<Longrightarrow> scan_ok y' u t"
  shows "dinv n y'"
proof -
  have b: "bags_ok y' u" if "u < n" for u
  proof (cases "u = t")
    case False
    then show ?thesis by (intro bags_keep [OF dinvD(3) [OF inv that]]) (use others ret g' in auto)
  qed (use own in simp)
  moreover have "pc_ok y' u" if "u < n" for u
  proof (cases "u = t")
    case False
    then show ?thesis
      by (intro pc_keep [OF dinvD(4,3,2) [OF inv that]]) (use others ret g' n' dinvD(1,2) [OF inv that] in auto)
  qed (use own in simp)
  moreover have "reader_ok y' u" if "u < n" for u
  proof (cases "u = t")
    case False
    then show ?thesis by (intro reader_keep [OF dinvD(5) [OF inv that]]) (use others held that g' in auto)
  qed (use own in simp)
  moreover have "scan_ok y' u r" if "u < n" "r < n" for u r
  proof (cases "u = t \<or> r = t")
    case False
    then show ?thesis by (intro scan_keep [OF dinvD(6) [OF inv that]]) (use others g' in auto)
  qed (use scan that in blast)
  ultimately show ?thesis using n' g' dinvD(2) [OF inv t] unfolding dinv_def by auto
qed

text \<open>A step of one thread that touches neither the bags nor any object.\<close>

lemma dinv_quiet:
  assumes inv: "dinv n y" and t: "t < n" and y': "y' = dgo t c d y"
    and d: "db_num_process d = n" "db_epoch d = db_epoch (dy_class y)" "\<And>u. u \<noteq> t \<Longrightarrow> db_thread d u = db_thread (dy_class y) u"
    and th: "dt_epochbags (db_thread d t) = dt_epochbags (db_thread (dy_class y) t)" "dt_index (db_thread d t) = dt_index (db_thread (dy_class y) t)"
      "dt_currentBag (db_thread d t) = dt_currentBag (db_thread (dy_class y) t)" "dt_localvar (db_thread d t) = dt_localvar (db_thread (dy_class y) t)"
      "dt_announcedEpoch (db_thread d t) = dt_announcedEpoch (db_thread (dy_class y) t)"
    and op: "in_op c = in_op (dy_pc y t)" and pc: "pc_ok y' t" and sc: "\<And>r. r < n \<Longrightarrow> scan_ok y' t r"
  shows "dinv n y'"
proof (rule dinv_local [OF inv t])
  show "bags_ok y' t" by (rule bags_keep [OF dinvD(3) [OF inv t]]) (use th d in \<open>auto simp: y' dgo_def\<close>)
  have rk: "dy_status y p \<noteq> DFree \<and> (\<forall>v. dy_status y p = DRetired v \<longrightarrow> dy_ann_at y u \<le> dy_ret_at y p)"
    if "u < n" "p \<in> dy_held y u" for p u
    using reader_held(1,2) [OF dinvD(5) [OF inv that(1)] that(2)] by blast
  then show "reader_ok y' t" by (intro reader_keep [OF dinvD(5) [OF inv t]]) (use th d op t in \<open>auto simp: y' dgo_def\<close>)
  show "scan_ok y' u t" if "u < n" "u \<noteq> t" for u
    by (rule scan_keep [OF dinvD(6) [OF inv that(1) t]]) (use that th d op in \<open>auto simp: y' dgo_def\<close>)
  show "dy_status y' p \<noteq> DFree \<and> (\<forall>v. dy_status y' p = DRetired v \<longrightarrow> dy_ann_at y u \<le> dy_ret_at y' p)"
    if "u < n" "p \<in> dy_held y u" for p u
    using rk [OF that] by (simp add: y' dgo_def)
qed (use d pc sc in \<open>auto simp: y' dgo_def\<close>)

subsection \<open>Every step keeps the invariant\<close>

lemma dinv_read:
  assumes inv: "dinv n y" and t: "t < n" and pc: "dy_pc y t = DQuiet"
  shows "dinv n (dgo t (DRead (db_epoch (dy_class y))) (dy_class y) y)"
proof (rule dinv_quiet [OF inv t refl])
  note D = dinvD [OF inv t]
  show "pc_ok (dgo t (DRead (db_epoch (dy_class y))) (dy_class y) y) t"
    using D pc by (auto simp: pc_ok_def bags_ok_def Let_def dgo_def)
  show "scan_ok (dgo t (DRead (db_epoch (dy_class y))) (dy_class y) y) t r" if "r < n" for r
    by (rule scan_keep [OF D(6) [OF that]]) (auto simp: dgo_def in_op_def split: if_splits)
qed (use dinvD [OF inv t] pc in \<open>auto simp: in_op_def\<close>)

lemma dinv_count:
  assumes inv: "dinv n y" and t: "t < n" and pc: "dy_pc y t = DAnnounced e" and d: "debra_count t (dy_class y) = (due, d')"
  shows "dinv n (dgo t (if due then DCheck e else DBody) d' y)"
proof -
  note D = dinvD [OF inv t]
  obtain k where d': "d' = upd_thread t (\<lambda>th. th\<lparr>dt_opsSinceRead := k\<rparr>) (dy_class y)"
    using d by (auto simp: debra_count_def Let_def split: if_splits)
  let ?y = "dgo t (if due then DCheck e else DBody) d' y"
  show ?thesis
  proof (rule dinv_quiet [OF inv t refl])
    have "pc_ok y t" by (rule D)
    then show "pc_ok ?y t" using pc by (simp add: pc_ok_def Let_def dgo_def d' thread_items_def)
    show "scan_ok ?y t r" if "r < n" for r
      by (rule scan_keep [OF D(6) [OF that]]) (use pc in \<open>auto simp: dgo_def in_op_def d' split: if_splits\<close>)
  qed (use D(1) pc in \<open>auto simp: in_op_def d'\<close>)
qed

text \<open>
  The check of one announcement: a thread inside an operation that announced an older epoch stops the
  scan, so nobody is passed who could still need the bags of two epochs ago.
\<close>

lemma check_passes:
  assumes inv: "dinv n y" and t: "t < n" and pc: "dy_pc y t = DCheck e" and r: "r < n" "in_op (dy_pc y r)"
    and g: "db_epoch (dy_class y) = dy_ann_at y r + 2" "e = db_epoch (dy_class y)"
    and ck: "dt_checked (db_thread (dy_class y) t) = r"
  shows "debra_check t e (dy_class y) = (False, dy_class y)"
proof -
  have ro: "dt_announcedEpoch (db_thread (dy_class y) r) = dt_localvar (db_thread (dy_class y) r)"
    "dt_localvar (db_thread (dy_class y) r) \<le> dy_ann_at y r"
    using dinvD(5) [OF inv r(1)] r(2) by (simp_all add: reader_ok_def Let_def)
  have ev: "even (dt_localvar (db_thread (dy_class y) r))"
    using dinvD(4) [OF inv r(1)] r(2) by (auto simp: pc_ok_def Let_def in_op_def)
  have "\<not> QUIESCENT (dt_announcedEpoch (db_thread (dy_class y) r))" "BITS_EPOCH (dt_announcedEpoch (db_thread (dy_class y) r)) \<noteq> e"
    using ro ev g by (auto simp: QUIESCENT_def BITS_EPOCH_def EPOCH_INCREMENT_def even_iff_mod_2_eq_zero)
  then show ?thesis using ck by (simp add: debra_check_def Let_def)
qed

lemma dinv_check:
  assumes inv: "dinv n y" and t: "t < n" and pc: "dy_pc y t = DCheck e" and d: "debra_check t e (dy_class y) = (ok, d')"
  shows "dinv n (dgo t (if ok then DCas e else DBody) d' y)"
proof -
  note D = dinvD [OF inv t]
  let ?c = "dt_checked (db_thread (dy_class y) t)" and ?g = "db_epoch (dy_class y)"
  have pk: "e = dt_localvar (db_thread (dy_class y) t)" "?c < n" using D(1,4) pc by (auto simp: pc_ok_def Let_def)
  obtain k where d': "d' = upd_thread t (\<lambda>th. th\<lparr>dt_checked := k\<rparr>) (dy_class y)"
    and k: "k = ?c \<and> \<not> ok \<or> k = ?c + 1 \<and> ok = (n \<le> k)"
  proof (cases "d' = dy_class y \<and> \<not> ok")
    case True
    have "dy_class y = upd_thread t (\<lambda>th. th\<lparr>dt_checked := ?c\<rparr>) (dy_class y)" by (simp add: upd_thread_def)
    then show ?thesis using that [of ?c] True by simp
  next
    case False
    then show ?thesis using d D(1) that [of "?c + 1"] by (auto simp: debra_check_def Let_def split: if_splits)
  qed
  let ?y = "dgo t (if ok then DCas e else DBody) d' y"
  have sc: "scan_ok ?y t r" if r: "r < n" for r
    unfolding scan_ok_def Let_def
  proof (intro impI)
    assume "in_op (dy_pc ?y r) \<and> db_epoch (dy_class ?y) = dy_ann_at ?y r + 2 \<and> dt_localvar (db_thread (dy_class ?y) t) = db_epoch (dy_class ?y)"
    then have g: "in_op (dy_pc y r)" "?g = dy_ann_at y r + 2" "e = ?g"
      using pc pk(1) by (auto simp: dgo_def d' in_op_def split: if_splits)
    have le: "?c \<le> r" using D(6) [OF r] g pk(1) by (simp add: scan_ok_def Let_def)
    have ck: "dt_checked (db_thread d' t) = k" by (simp add: d')
    have "?c \<noteq> r \<or> \<not> ok \<and> k = ?c"
      using check_passes [OF inv t pc r g] d ck by auto
    then have "k \<le> r" "\<not> ok" using le k r by auto
    then show "dt_checked (db_thread (dy_class ?y) t) \<le> r \<and> (\<forall>e. dy_pc ?y t \<noteq> DCas e)" by (simp add: dgo_def d')
  qed
  show ?thesis
  proof (rule dinv_quiet [OF inv t refl])
    have "pc_ok y t" by (rule D)
    then show "pc_ok ?y t" using pc k D(1) by (auto simp: pc_ok_def Let_def dgo_def d' thread_items_def)
  qed (use D(1) pc sc in \<open>auto simp: in_op_def d'\<close>)
qed


lemma dinv_announce:
  assumes inv: "dinv n y" and t: "t < n" and pc: "dy_pc y t = DBegun e"
  shows "dinv n ((dgo t (DAnnounced e) (debra_announce t e (dy_class y)) y)\<lparr>dy_ann_at := (dy_ann_at y)(t := db_epoch (dy_class y))\<rparr>)"
    (is "dinv n ?y")
proof (rule dinv_local [OF inv t])
  note D = dinvD [OF inv t]
  show "bags_ok ?y t" by (rule bags_keep [OF D(3)]) (auto simp: dgo_def debra_announce_def)
  have pk: "pc_ok y t" by (rule D)
  then show "pc_ok ?y t" using pc by (simp add: pc_ok_def Let_def dgo_def debra_announce_def thread_items_def)
  have held: "dy_held y t = {}" using D(5) pc by (simp add: reader_ok_def Let_def in_op_def)
  then show "reader_ok ?y t"
    using pk pc D(2) by (auto simp: reader_ok_def pc_ok_def Let_def dgo_def debra_announce_def in_op_def)
  show "scan_ok ?y t r" if "r < n" for r
    using D(6) [OF that] by (auto simp: scan_ok_def Let_def dgo_def debra_announce_def)
  show "scan_ok ?y u t" if "u < n" "u \<noteq> t" for u
    by (simp add: scan_ok_def Let_def dgo_def debra_announce_def)
  show "dy_status ?y p \<noteq> DFree \<and> (\<forall>v. dy_status ?y p = DRetired v \<longrightarrow> dy_ann_at y u \<le> dy_ret_at ?y p)"
    if "u < n" "p \<in> dy_held y u" for p u
    using reader_held(1,2) [OF dinvD(5) [OF inv that(1)] that(2)] by (simp add: dgo_def)
qed (use dinvD [OF inv t] in \<open>auto simp: dgo_def debra_announce_def\<close>)

lemma odd_quiescent: "odd (GET_WITH_QUIESCENT a)"
  unfolding GET_WITH_QUIESCENT_def by presburger

lemma dinv_end:
  assumes inv: "dinv n y" and t: "t < n" and pc: "dy_pc y t = DBody"
  shows "dinv n ((dgo t DQuiet (debra_endOp t (dy_class y)) y)\<lparr>dy_held := (dy_held y)(t := {})\<rparr>)" (is "dinv n ?y")
proof (rule dinv_local [OF inv t])
  note D = dinvD [OF inv t]
  show "bags_ok ?y t" by (rule bags_keep [OF D(3)]) (auto simp: dgo_def debra_endOp_def)
  have pk: "pc_ok y t" by (rule D)
  then show "pc_ok ?y t" using pc by (simp add: pc_ok_def Let_def dgo_def debra_endOp_def thread_items_def)
  show "reader_ok ?y t" by (simp add: reader_ok_def Let_def dgo_def debra_endOp_def in_op_def odd_quiescent)
  show "scan_ok ?y t r" if "r < n" for r
    using D(6) [OF that] by (auto simp: scan_ok_def Let_def dgo_def debra_endOp_def in_op_def split: if_splits)
  show "scan_ok ?y u t" if "u < n" "u \<noteq> t" for u by (simp add: scan_ok_def Let_def dgo_def in_op_def)
  show "dy_status ?y p \<noteq> DFree \<and> (\<forall>v. dy_status ?y p = DRetired v \<longrightarrow> dy_ann_at y u \<le> dy_ret_at ?y p)"
    if "u < n" "p \<in> dy_held y u" for p u
    using reader_held(1,2) [OF dinvD(5) [OF inv that(1)] that(2)] by (simp add: dgo_def)
qed (use dinvD [OF inv t] in \<open>auto simp: dgo_def debra_endOp_def\<close>)

text \<open>The swap of the epoch: by then no thread inside an operation is an epoch behind.\<close>

lemma dinv_cas:
  assumes inv: "dinv n y" and t: "t < n" and pc: "dy_pc y t = DCas e"
  shows "dinv n (dgo t DBody (debra_cas_epoch e (dy_class y)) y)" (is "dinv n ?y")
proof -
  note D = dinvD [OF inv t]
  let ?g = "db_epoch (dy_class y)"
  have e: "e = dt_localvar (db_thread (dy_class y) t)" "even e" "e \<le> ?g" using D(4) pc by (auto simp: pc_ok_def Let_def)
  have n': "db_num_process (dy_class ?y) = n" "db_thread (dy_class ?y) = db_thread (dy_class y)"
    "even (db_epoch (dy_class ?y))" "?g \<le> db_epoch (dy_class ?y)" "db_epoch (dy_class ?y) \<noteq> e"
    "db_epoch (dy_class ?y) = (if ?g = e then ?g + 2 else ?g)"
    using D(1,2) e by (auto simp: dgo_def debra_cas_epoch_def EPOCH_INCREMENT_def)
  have gh: "dy_status ?y = dy_status y" "dy_ret_at ?y = dy_ret_at y" "dy_held ?y = dy_held y" "dy_ann_at ?y = dy_ann_at y"
    "\<And>u. u \<noteq> t \<Longrightarrow> dy_pc ?y u = dy_pc y u" "dy_pc ?y t = DBody"
    by (auto simp: dgo_def)
  have io: "in_op (dy_pc ?y u) = in_op (dy_pc y u)" for u using gh(5,6) pc by (cases "u = t") (auto simp: in_op_def)
  have bags: "bags_ok ?y u" if "u < n" for u
    by (rule bags_keep [OF dinvD(3) [OF inv that]]) (use n' gh in auto)
  moreover have "pc_ok ?y u" if u: "u < n" for u
  proof (cases "u = t")
    case True
    then show ?thesis using D(1,4) pc n' gh(6) e by (auto simp: pc_ok_def Let_def split: dpc.splits)
  next
    case False
    then show ?thesis
      by (intro pc_keep [OF dinvD(4,3,2) [OF inv u]]) (use n' gh D(1) in auto)
  qed
  moreover have "reader_ok ?y u" if u: "u < n" for u
  proof -
    have "?g \<le> dy_ann_at y u" if "in_op (dy_pc y u)" "?g = e"
    proof -
      have "even (dy_ann_at y u)" "?g \<le> dy_ann_at y u + 2" using dinvD(5) [OF inv u] that by (auto simp: reader_ok_def Let_def)
      moreover have "?g \<noteq> dy_ann_at y u + 2" using D(6) [OF u] that pc e(1) by (auto simp: scan_ok_def Let_def)
      ultimately show ?thesis using D(2) by presburger
    qed
    then show ?thesis using dinvD(5) [OF inv u] n'(6)
      unfolding reader_ok_def Let_def n'(2) gh(1-4) io by auto
  qed
  moreover have "scan_ok ?y u r" if ur: "u < n" "r < n" for u r
  proof (cases "?g = e")
    case True
    have "even (dt_localvar (db_thread (dy_class y) u)) \<longrightarrow> dt_localvar (db_thread (dy_class y) u) \<le> ?g"
      using dinvD(4) [OF inv ur(1)] by (simp add: pc_ok_def Let_def)
    then have "dt_localvar (db_thread (dy_class y) u) \<noteq> ?g + 2" using D(2) by auto
    then show ?thesis using True n'(2,6) by (simp add: scan_ok_def Let_def)
  next
    case False
    have "dy_pc y u = DCas ea" if "dy_pc ?y u = DCas ea" for ea using that gh(5,6) by (cases "u = t") auto
    then show ?thesis
      using False by (intro scan_keep [OF dinvD(6) [OF inv ur]]) (use n'(2,6) gh io in auto)
  qed
  ultimately show ?thesis using n' unfolding dinv_def by blast
qed


text \<open>The rotation: every bag becomes one epoch older, and the oldest is emptied.\<close>

lemma begin_rotates:
  assumes wf: "debra_thread_wf (db_thread d t)" and ne: "e \<noteq> dt_localvar (db_thread d t)"
  defines "th' \<equiv> db_thread (snd (debra_begin t e d)) t" and "th \<equiv> db_thread d t"
  shows "cur_bag th' = []" "mid_bag th' = cur_bag th" "old_bag th' = mid_bag th" "freed_by_rotation t e d = old_bag th"
    "debra_thread_wf th'" "dt_currentBag th' = dt_index th'" "dt_localvar th' = e" "dt_checked th' = 0"
    "dt_announcedEpoch th' = dt_announcedEpoch th"
proof -
  have i: "dt_index th = 0 \<or> dt_index th = 1 \<or> dt_index th = 2" using wf by (auto simp: debra_thread_wf_def th_def)
  have th': "th' = th\<lparr>dt_localvar := e, dt_checked := 0,
      dt_epochbags := (dt_epochbags th)((dt_index th + 1) mod 3 := map_option (\<lambda>_. []) (dt_epochbags th ((dt_index th + 1) mod 3))),
      dt_index := (dt_index th + 1) mod 3, dt_currentBag := (dt_index th + 1) mod 3\<rparr>"
    using ne by (simp add: th'_def th_def debra_begin_def debra_rotateEpochBags_def Let_def debra_consts)
  show "cur_bag th' = []" using th' by (simp add: cur_bag_def bag_items_def split: option.splits)
  show "mid_bag th' = cur_bag th" "old_bag th' = mid_bag th"
    using th' i by (auto simp: mid_bag_def cur_bag_def old_bag_def numeral_2_eq_2)
  show "freed_by_rotation t e d = old_bag th"
    using ne by (simp add: freed_by_rotation_def old_bag_def th_def NUMBER_OF_EPOCH_BAGS_def)
  show "debra_thread_wf th'" using th' wf by (auto simp: debra_thread_wf_def th_def)
  show "dt_currentBag th' = dt_index th'" "dt_localvar th' = e" "dt_checked th' = 0" "dt_announcedEpoch th' = dt_announcedEpoch th"
    using th' by simp_all
qed

lemma debra_begin_others:
  "u \<noteq> t \<Longrightarrow> db_thread (snd (debra_begin t e d)) u = db_thread d u"
  "db_num_process (snd (debra_begin t e d)) = db_num_process d" "db_epoch (snd (debra_begin t e d)) = db_epoch d"
  by (simp_all add: debra_begin_def Let_def)

text \<open>Nothing that a rotation frees is held: its retirement is two epochs back.\<close>

lemma rotation_safe:
  assumes inv: "dinv n y" and t: "t < n" and pc: "dy_pc y t = DRead e"
    and p: "p \<in> set (freed_by_rotation t e (dy_class y))" and u: "u < n"
  shows "p \<notin> dy_held y u"
proof
  assume h: "p \<in> dy_held y u"
  let ?th = "db_thread (dy_class y) t"
  have bk: "bags_ok y t" and pk: "pc_ok y t" using dinvD [OF inv t] by blast+
  have wf: "debra_thread_wf ?th" using bk by (simp add: bags_ok_def Let_def)
  have ne: "e \<noteq> dt_localvar ?th" using p by (auto simp: freed_by_rotation_def split: if_splits)
  have po: "p \<in> set (old_bag ?th)" using p begin_rotates(4) [OF wf ne] by simp
  then have st: "dy_status y p = DRetired t" "dy_ret_at y p + 2 \<le> dt_localvar ?th" using bk by (auto simp: bags_ok_def Let_def)
  have "even (dt_localvar ?th)" using pk po items_bags [OF wf] by (auto simp: pc_ok_def Let_def)
  then have "dt_localvar ?th < e" "e \<le> db_epoch (dy_class y)" using pk pc ne by (auto simp: pc_ok_def Let_def)
  then have "dy_ret_at y p + 2 < db_epoch (dy_class y)" using st(2) by simp
  then show False using reader_held(2,4) [OF dinvD(5) [OF inv u] h] st(1) by fastforce
qed

lemma dinv_begin:
  assumes inv: "dinv n y" and t: "t < n" and pc: "dy_pc y t = DRead e"
  shows "dinv n ((dgo t (DBegun e) (snd (debra_begin t e (dy_class y))) y)
       \<lparr>dy_status := (\<lambda>p. if p \<in> set (freed_by_rotation t e (dy_class y)) then DFree else dy_status y p)\<rparr>)" (is "dinv n ?y")
proof -
  define yy where yy: "yy = ?y"
  note D = dinvD [OF inv t]
  let ?th = "db_thread (dy_class y) t" and ?th' = "db_thread (snd (debra_begin t e (dy_class y))) t"
  let ?F = "set (freed_by_rotation t e (dy_class y))"
  have wf: "debra_thread_wf ?th" and cur: "dt_currentBag ?th = dt_index ?th" using D(3) by (auto simp: bags_ok_def Let_def)
  have pk: "even e" "e \<le> db_epoch (dy_class y)" "even (dt_localvar ?th) \<Longrightarrow> dt_localvar ?th \<le> e"
    "dt_checked ?th = n \<Longrightarrow> dt_localvar ?th \<noteq> e" "dt_checked ?th \<le> n" "\<forall>p\<in>set (cur_bag ?th). dy_ret_at y p \<le> e"
    "odd (dt_localvar ?th) \<Longrightarrow> thread_items ?th = []"
    using D(1,4) pc by (auto simp: pc_ok_def Let_def)
  have y: "db_thread (dy_class yy) t = ?th'" "dy_pc yy t = DBegun e" "dy_ret_at yy = dy_ret_at y" "dy_held yy = dy_held y"
    "dy_ann_at yy = dy_ann_at y" "db_epoch (dy_class yy) = db_epoch (dy_class y)" "db_num_process (dy_class yy) = n"
    "\<And>p. dy_status yy p = (if p \<in> ?F then DFree else dy_status y p)"
    using D(1) by (auto simp: yy dgo_def debra_begin_others)
  have F: "p \<in> ?F \<Longrightarrow> dy_status y p = DRetired t" for p
    using D(3) begin_rotates(4) [OF wf] by (cases "e = dt_localvar ?th") (auto simp: bags_ok_def Let_def freed_by_rotation_def)
  have bags: "bags_ok yy t \<and> dt_localvar ?th' = e \<and> dt_checked ?th' < n \<and> dt_announcedEpoch ?th' = dt_announcedEpoch ?th"
  proof (cases "e = dt_localvar ?th")
    case True
    then have th': "?th' = ?th" by (simp add: debra_begin_def)
    have "?F = {}" using True by (simp add: freed_by_rotation_def)
    then have "bags_ok yy t" by (intro bags_keep [OF D(3)]) (use y th' in auto)
    moreover have "dt_checked ?th \<noteq> n" using pk(4) True by metis
    ultimately show ?thesis using th' True pk(5) by auto
  next
    case False
    note R = begin_rotates [OF wf False]
    have mid: "dy_ret_at y p + 2 \<le> e" if p: "p \<in> set (mid_bag ?th)" for p
    proof -
      have "thread_items ?th \<noteq> []" using items_bags [OF wf] p by force
      then have "even (dt_localvar ?th)" using pk(7) by blast
      moreover have "dy_ret_at y p \<le> dt_localvar ?th" using D(3) p by (auto simp: bags_ok_def Let_def)
      ultimately show ?thesis using pk(1,3) False by presburger
    qed
    have "distinct (cur_bag ?th @ mid_bag ?th @ old_bag ?th)" using D(3) by (simp add: bags_ok_def Let_def)
    then have "bags_ok yy t"
      using D(3) R(5,6,7) pk(6) mid y(6) unfolding bags_ok_def Let_def y(1,3,8) R(1-4) by auto
    then show ?thesis using R t by simp
  qed
  have "dinv n yy"
  proof (rule dinv_local [OF inv t])
    show "bags_ok yy t" using bags by blast
    show "pc_ok yy t" using bags pk(1,2) unfolding pc_ok_def Let_def y(1,2,6,7) by simp
    show "reader_ok yy t" using D(5) bags pc unfolding reader_ok_def Let_def y(1-6) by (simp add: in_op_def)
    show "scan_ok yy t r" if r: "r < n" for r
    proof (cases "e = dt_localvar ?th")
      case True
      then show ?thesis by (intro scan_keep [OF D(6) [OF r]]) (auto simp: yy dgo_def in_op_def debra_begin_def split: if_splits)
    next
      case False
      then show ?thesis using begin_rotates(8) [OF wf False] by (simp add: scan_ok_def Let_def yy dgo_def)
    qed
    show "scan_ok yy u t" if "u < n" "u \<noteq> t" for u by (simp add: scan_ok_def Let_def yy dgo_def in_op_def)
    show "dy_status yy p \<noteq> DFree \<and> (\<forall>v. dy_status yy p = DRetired v \<longrightarrow> dy_ann_at y u \<le> dy_ret_at yy p)"
      if "u < n" "p \<in> dy_held y u" for p u
      using rotation_safe [OF inv t pc _ that(1)] reader_held(1,2) [OF dinvD(5) [OF inv that(1)] that(2)] that y(3,8) by auto
    show "dy_status yy p = DRetired u \<and> dy_ret_at yy p = dy_ret_at y p" if "u \<noteq> t" "dy_status y p = DRetired u" for p u
      using F [of p] that y(3,8) by auto
  qed (use y D(1) in \<open>auto simp: yy dgo_def debra_begin_others\<close>)
  then show ?thesis by (simp only: yy)
qed

lemma dinv_retire:
  assumes inv: "dinv n y" and t: "t < n" and pc: "dy_pc y t = DBody" and p: "dy_status y p = DUnlinked t"
  shows "dinv n (y\<lparr>dy_class := debra_retire t p (dy_class y), dy_status := (dy_status y)(p := DRetired t),
              dy_ret_at := (dy_ret_at y)(p := db_epoch (dy_class y))\<rparr>)" (is "dinv n ?y")
proof -
  note D = dinvD [OF inv t]
  let ?th = "db_thread (dy_class y) t" and ?th' = "db_thread (dy_class ?y) t"
  have b: "debra_thread_wf ?th" "dt_currentBag ?th = dt_index ?th" "dt_index ?th = 0 \<or> dt_index ?th = 1 \<or> dt_index ?th = 2"
    using D(3) by (auto simp: bags_ok_def Let_def debra_thread_wf_def)
  obtain xs where xs: "dt_epochbags ?th (dt_index ?th) = Some xs" using b by (auto simp: debra_thread_wf_def)
  have th': "cur_bag ?th' = p # cur_bag ?th" "mid_bag ?th' = mid_bag ?th" "old_bag ?th' = old_bag ?th" "debra_thread_wf ?th'"
    "dt_index ?th' = dt_index ?th" "dt_currentBag ?th' = dt_currentBag ?th" "dt_localvar ?th' = dt_localvar ?th"
    "dt_checked ?th' = dt_checked ?th" "dt_announcedEpoch ?th' = dt_announcedEpoch ?th"
    using b xs by (auto simp: debra_retire_def cur_bag_def mid_bag_def old_bag_def bag_items_def debra_thread_wf_def)
  have pn: "p \<notin> set (cur_bag ?th @ mid_bag ?th @ old_bag ?th)" using D(3) p by (auto simp: bags_ok_def Let_def)
  have y: "dy_pc ?y = dy_pc y" "dy_held ?y = dy_held y" "dy_ann_at ?y = dy_ann_at y"
    "db_epoch (dy_class ?y) = db_epoch (dy_class y)" "db_num_process (dy_class ?y) = n"
    using D(1) by (simp_all add: debra_retire_def)
  have held: "dy_status ?y q \<noteq> DFree \<and> (\<forall>v. dy_status ?y q = DRetired v \<longrightarrow> dy_ann_at y u \<le> dy_ret_at ?y q)"
    if "u < n" "q \<in> dy_held y u" for q u
    using reader_held [OF dinvD(5) [OF inv that(1)] that(2)] by auto
  show ?thesis
  proof (rule dinv_local [OF inv t])
    show "bags_ok ?y t" using D(3) pn y(4) th'(4) unfolding bags_ok_def Let_def th' by auto
    show "pc_ok ?y t" using D(1,4) pc y unfolding pc_ok_def Let_def th' by auto
    show "reader_ok ?y t"
      by (rule reader_keep [OF D(5)]) (use th' y held t in auto)
    show "scan_ok ?y t r" if "r < n" for r by (rule scan_keep [OF D(6) [OF that]]) (use th' y in auto)
    show "scan_ok ?y u t" if "u < n" "u \<noteq> t" for u
      by (rule scan_keep [OF dinvD(6) [OF inv that(1) t]]) (use that y in \<open>auto simp: debra_retire_def\<close>)
  qed (use held p y in \<open>auto simp: debra_retire_def\<close>)
qed


lemma dinv_init: "dinv n (dsys_init n mem pool)"
proof -
  let ?y = "dsys_init n mem pool"
  have th: "debra_fresh (db_thread (dy_class ?y) t)" if "t < n" for t using debra_start_fresh [OF that] by (simp add: dsys_init_def)
  have g: "db_epoch (dy_class ?y) = 0" "db_num_process (dy_class ?y) = n"
    by (simp_all add: dsys_init_def debra_start_consts)
  have empty: "thread_items (db_thread (dy_class ?y) t) = []" "cur_bag (db_thread (dy_class ?y) t) = []"
    "mid_bag (db_thread (dy_class ?y) t) = []" "old_bag (db_thread (dy_class ?y) t) = []" if "t < n" for t
    using th [OF that] by (simp_all add: debra_fresh_def thread_items_def cur_bag_def mid_bag_def old_bag_def bag_items_def)
  have "bags_ok ?y t" if "t < n" for t
    using th [OF that] empty [OF that] by (simp add: bags_ok_def Let_def debra_fresh_def debra_thread_wf_def)
  moreover have "pc_ok ?y t" if "t < n" for t
    using th [OF that] empty [OF that] g that by (simp add: pc_ok_def Let_def debra_fresh_def) (simp add: dsys_init_def)
  moreover have "reader_ok ?y t" if "t < n" for t
    using th [OF that] by (simp add: reader_ok_def Let_def debra_fresh_def) (simp add: dsys_init_def in_op_def)
  moreover have "scan_ok ?y u r" for u r by (simp add: scan_ok_def dsys_init_def in_op_def)
  ultimately show ?thesis using g by (simp add: dinv_def)
qed

lemma dinv_step: "dinv n y \<Longrightarrow> dstep y y' \<Longrightarrow> dinv n y'"
proof -
  assume inv: "dinv n y" and st: "dstep y y'"
  have n: "db_num_process (dy_class y) = n" using inv by (simp add: dinv_def)
  have op: "in_op (dy_pc y t)" if "dy_pc y t = DBody" for t using that by (simp add: in_op_def)
  have held: "dy_status y p \<noteq> DFree" if "t < n" "p \<in> dy_held y t" for t p
    using reader_held(1) [OF dinvD(5) [OF inv that(1)] that(2)] .
  from st show ?thesis
  proof cases
    case (d_read t)
    then show ?thesis using dinv_read [OF inv] n by simp
  next
    case (d_begin t e)
    then show ?thesis using dinv_begin [OF inv _ d_begin(3)] n by simp
  next
    case (d_announce t e)
    then show ?thesis using dinv_announce [OF inv] n by simp
  next
    case (d_count t e due d')
    then show ?thesis using dinv_count [OF inv _ d_count(3,4)] n by simp
  next
    case (d_check t e ok d')
    then show ?thesis using dinv_check [OF inv _ d_check(3,4)] n by simp
  next
    case (d_cas t e)
    then show ?thesis using dinv_cas [OF inv] n by simp
  next
    case (d_end t)
    then show ?thesis using dinv_end [OF inv] n by simp
  next
    case (d_link p)
    then show ?thesis by (intro dinv_ghost [OF inv]) (use held in \<open>auto split: if_splits\<close>)
  next
    case (d_meet t p)
    then show ?thesis by (intro dinv_ghost [OF inv]) (use held op n in \<open>auto split: if_splits\<close>)
  next
    case (d_unlink t p)
    then show ?thesis by (intro dinv_ghost [OF inv]) (use held in \<open>auto split: if_splits\<close>)
  next
    case (d_retire t p)
    then show ?thesis using dinv_retire [OF inv] n by simp
  qed
qed

lemma dreach_inv: "dreach n y \<Longrightarrow> dinv n y"
  by (induction rule: dreach.induct) (auto intro: dinv_init dinv_step)

text \<open>A run for the witnesses: thread 0 starts an operation and meets object 7; thread 1 sleeps.\<close>

lemma dreach_meets: "\<exists>y. dreach 2 y \<and> 7 \<in> dy_held y 0"
proof -
  let ?mem = "\<lambda>_. undefined"
  let ?y0 = "(dsys_init 2 ?mem alloc_init)"
  let ?y1 = "?y0\<lparr>dy_status := (dy_status ?y0)(7 := DLinked)\<rparr>"
  have r1: "dreach 2 ?y1" by (rule dreach_step [OF dreach_init d_link]) (simp add: dsys_init_def)
  have n1: "0 < db_num_process (dy_class ?y1)" by (simp add: dsys_init_def)
  have "dy_pc ?y1 0 = DQuiet" by (simp add: dsys_init_def)
  from dreach_step [OF r1 d_read [OF n1 this]] obtain y2 where y2: "dreach 2 y2" "dy_pc y2 0 = DRead 0" "dy_status y2 7 = DLinked"
    by (simp add: dgo_def dsys_init_def)
  have n: "dreach 2 y \<Longrightarrow> 0 < db_num_process (dy_class y)" for y using dinvD(1) [OF dreach_inv, of 2 y 0] by simp
  have nf: "7 \<notin> set (freed_by_rotation 0 0 (dy_class y2))"
  proof
    let ?th = "db_thread (dy_class y2) 0"
    assume f: "7 \<in> set (freed_by_rotation 0 0 (dy_class y2))"
    have "bags_ok y2 0" using dinvD(3) [OF dreach_inv [OF y2(1)], of 0] by simp
    then have wf: "debra_thread_wf ?th" and st: "\<forall>p\<in>set (old_bag ?th). dy_status y2 p = DRetired 0"
      by (auto simp: bags_ok_def Let_def)
    have ne: "0 \<noteq> dt_localvar ?th" using f by (auto simp: freed_by_rotation_def split: if_splits)
    show False using f begin_rotates(4) [OF wf ne] st y2(3) by auto
  qed
  from dreach_step [OF y2(1) d_begin [OF n [OF y2(1)] y2(2)]] nf y2(3)
  obtain y3 where y3: "dreach 2 y3" "dy_pc y3 0 = DBegun 0" "dy_status y3 7 = DLinked" by (auto simp: dgo_def)
  from dreach_step [OF y3(1) d_announce [OF n [OF y3(1)] y3(2)]] y3(3)
  obtain y4 where y4: "dreach 2 y4" "dy_pc y4 0 = DAnnounced 0" "dy_status y4 7 = DLinked" by (auto simp: dgo_def)
  obtain due d' where c: "debra_count 0 (dy_class y4) = (due, d')" by fastforce
  from dreach_step [OF y4(1) d_count [OF n [OF y4(1)] y4(2) c]] y4(3)
  obtain y5 where y5: "dreach 2 y5" "dy_pc y5 0 = (if due then DCheck 0 else DBody)" "dy_status y5 7 = DLinked" by (auto simp: dgo_def)
  obtain y6 where y6: "dreach 2 y6" "dy_pc y6 0 = DBody" "dy_status y6 7 = DLinked"
  proof (cases due)
    case True
    then have pc: "dy_pc y5 0 = DCheck 0" using y5 by simp
    obtain ok d2 where k: "debra_check 0 0 (dy_class y5) = (ok, d2)" by fastforce
    from dreach_step [OF y5(1) d_check [OF n [OF y5(1)] pc k]] y5(3)
    obtain y where y: "dreach 2 y" "dy_pc y 0 = (if ok then DCas 0 else DBody)" "dy_status y 7 = DLinked" by (auto simp: dgo_def)
    show ?thesis
    proof (cases ok)
      case True
      then have pc: "dy_pc y 0 = DCas 0" using y by simp
      from dreach_step [OF y(1) d_cas [OF n [OF y(1)] pc]] y(3) show ?thesis using that by (auto simp: dgo_def)
    qed (use y that in auto)
  qed (use y5 that in auto)
  from dreach_step [OF y6(1) d_meet [OF n [OF y6(1)] y6(2,3)]] show ?thesis by fastforce
qed

text \<open>
  C27. DEBRA is safe, with any number of threads and in every interleaving of the shared accesses of
  \<open>startOp\<close>, \<open>endOp\<close> and \<open>retire\<close>: an object that a thread met during its running operation is not
  free, whatever happened to it since. The three bags suffice although a thread may announce an
  epoch that is long past.
\<close>

theorem debra_safe_reclamation:
  assumes "dreach n y" and "t < n" and "p \<in> dy_held y t"
  shows "dy_status y p \<noteq> DFree"
  using reader_held(1) [OF dinvD(5) [OF dreach_inv [OF assms(1)] assms(2)] assms(3)] .

theorem debra_safe_reclamation_witness: "\<exists>y. dreach 2 y \<and> 7 \<in> dy_held y 0 \<and> dy_status y 7 \<noteq> DFree"
  using dreach_meets debra_safe_reclamation [of 2 _ 0 7] by fastforce

text \<open>
  The scan of the announcements stays inside the array of the threads, and the epoch a thread is
  in an operation with is at most one behind the global epoch at its announcement plus one: it
  delays the epoch, and only by the operations that are running.
\<close>

lemma debra_scan_in_bounds:
  assumes "dreach n y" and "t < n"
  shows "(dy_pc y t = DCheck e \<longrightarrow> dt_checked (db_thread (dy_class y) t) < n)
    \<and> (in_op (dy_pc y t) \<longrightarrow> db_epoch (dy_class y) \<le> dy_ann_at y t + EPOCH_INCREMENT)"
  using dinvD [OF dreach_inv [OF assms(1)] assms(2)]
  by (auto simp: pc_ok_def reader_ok_def Let_def EPOCH_INCREMENT_def)


lemma debra_scan_in_bounds_witness:
  "\<exists>y. dreach 2 y \<and> in_op (dy_pc y 0) \<and> db_epoch (dy_class y) \<le> dy_ann_at y 0 + EPOCH_INCREMENT"
proof -
  obtain y where y: "dreach 2 y" "7 \<in> dy_held y 0" using dreach_meets by blast
  have "in_op (dy_pc y 0)" using reader_held(3) [OF dinvD(5) [OF dreach_inv [OF y(1)]] y(2)] by simp
  then show ?thesis using debra_scan_in_bounds [OF y(1), of 0] y(1) by auto
qed

end
