(* ===== verification/LazyList.thy ===== *)
theory LazyList
  imports Prelude
begin

text \<open>
  The lazy list, \<open>ds/herlihy_lazylist/lazylist_impl.h\<close>: a sorted linked list with a lock
  and a mark per node. \<open>contains\<close> takes no lock; \<open>doInsert\<close> and \<open>erase\<close>
  search without locks, lock, validate, and retry when the validation fails. Every access to shared
  memory is a step of one of any number of threads. Nodes come from the allocator at addresses that
  nobody can hold, which is what the reclaimers guarantee. The branch for reclaimers without hazard
  pointers.
\<close>

subsection \<open>The list and the threads\<close>

record lz_node =
  n_key :: int
  n_val :: int
  n_next :: ptr
  n_lock :: "nat option"
  n_marked :: bool

datatype lz_op = Contains int | Insert int int | Erase int

fun op_key :: "lz_op \<Rightarrow> int" where
  "op_key (Contains k) = k"
| "op_key (Insert k v) = k"
| "op_key (Erase k) = k"

text \<open>
  Where a thread is: traversing, taking the locks, in the three reads of \<open>validateLinks\<close>,
  past the validation, with a new node, with a marked node, or releasing its locks with a result
  (\<open>None\<close>: retry). The result of an operation is the value found, or \<open>None\<close> for
  \<open>NO_VALUE\<close>.
\<close>

datatype lz_pc =
    LIdle
  | LBegin lz_op
  | LTrav lz_op ptr ptr
  | LLock lz_op ptr ptr
  | LLock2 lz_op ptr ptr
  | LVal lz_op nat ptr ptr
  | LOk lz_op ptr ptr
  | LNew int int ptr ptr ptr
  | LMarked int ptr ptr int ptr
  | LRel lz_op ptr "ptr option" "int option option"
  | LDone lz_op "int option"

text \<open>
  The state, and ghosts: the nodes that are in the list, those that ever were, those that were
  retired, the set that the list stands for, and per thread what was seen since its operation
  started: the abstract sets, the nodes that were in the list, and the change the operation made.
\<close>

type_synonym absmap = "int \<Rightarrow> int option"

record lz =
  lz_mem :: "ptr \<Rightarrow> lz_node"
  lz_head :: ptr
  lz_tail :: ptr
  lz_min :: int
  lz_max :: int
  lz_alloc :: "ptr set"
  lz_pc :: "nat \<Rightarrow> lz_pc"
  lz_in :: "ptr set"
  lz_pub :: "ptr set"
  lz_retired :: "ptr list"
  lz_abs :: absmap
  lz_hist :: "nat \<Rightarrow> absmap set"
  lz_since :: "nat \<Rightarrow> ptr set"
  lz_lp :: "nat \<Rightarrow> (absmap \<times> absmap) option"

abbreviation key_of :: "lz \<Rightarrow> ptr \<Rightarrow> int" where "key_of s x \<equiv> n_key (lz_mem s x)"
abbreviation val_of :: "lz \<Rightarrow> ptr \<Rightarrow> int" where "val_of s x \<equiv> n_val (lz_mem s x)"
abbreviation next_of :: "lz \<Rightarrow> ptr \<Rightarrow> ptr" where "next_of s x \<equiv> n_next (lz_mem s x)"
abbreviation lock_of :: "lz \<Rightarrow> ptr \<Rightarrow> nat option" where "lock_of s x \<equiv> n_lock (lz_mem s x)"
abbreviation marked_of :: "lz \<Rightarrow> ptr \<Rightarrow> bool" where "marked_of s x \<equiv> n_marked (lz_mem s x)"

definition new_node :: "int \<Rightarrow> int \<Rightarrow> ptr \<Rightarrow> lz_node" where
  "new_node key val nx = \<lparr>n_key = key, n_val = val, n_next = nx, n_lock = None, n_marked = False\<rparr>"

definition lz_new :: "(ptr \<Rightarrow> lz_node) \<Rightarrow> ptr \<Rightarrow> ptr \<Rightarrow> int \<Rightarrow> int \<Rightarrow> lz" where
  "lz_new mem mx hd_node KEY_MIN KEY_MAX =
     \<lparr>lz_mem = mem(mx := new_node KEY_MAX 0 NULL, hd_node := new_node KEY_MIN 0 mx),
      lz_head = hd_node, lz_tail = mx, lz_min = KEY_MIN, lz_max = KEY_MAX, lz_alloc = {mx, hd_node},
      lz_pc = (\<lambda>_. LIdle), lz_in = {mx, hd_node}, lz_pub = {mx, hd_node}, lz_retired = [], lz_abs = Map.empty,
      lz_hist = (\<lambda>_. {}), lz_since = (\<lambda>_. {}), lz_lp = (\<lambda>_. None)\<rparr>"

text \<open>Writes of a thread; every step records the new abstract set and the nodes in the list for all threads.\<close>

definition lz_goto :: "nat \<Rightarrow> lz_pc \<Rightarrow> lz \<Rightarrow> lz" where
  "lz_goto t c s = s\<lparr>lz_pc := (lz_pc s)(t := c)\<rparr>"

definition lz_write :: "ptr \<Rightarrow> (lz_node \<Rightarrow> lz_node) \<Rightarrow> lz \<Rightarrow> lz" where
  "lz_write x f s = s\<lparr>lz_mem := (lz_mem s)(x := f (lz_mem s x))\<rparr>"

definition lz_observe :: "lz \<Rightarrow> lz" where
  "lz_observe s = s\<lparr>lz_hist := (\<lambda>t. insert (lz_abs s) (lz_hist s t)), lz_since := (\<lambda>t. lz_since s t \<union> lz_in s)\<rparr>"

definition lz_lin :: "nat \<Rightarrow> absmap \<Rightarrow> lz \<Rightarrow> lz" where
  "lz_lin t A s = s\<lparr>lz_abs := A, lz_lp := (lz_lp s)(t := Some (lz_abs s, A))\<rparr>"

definition lz_result :: "lz \<Rightarrow> lz_op \<Rightarrow> ptr \<Rightarrow> int option" where
  "lz_result s op c = (if key_of s c = op_key op \<and> \<not> marked_of s c then Some (val_of s c) else None)"

inductive lz_step :: "lz \<Rightarrow> nat \<Rightarrow> lz \<Rightarrow> bool" where
  call: "lz_pc s t = LIdle \<Longrightarrow> lz_min s < op_key op \<Longrightarrow> op_key op < lz_max s \<Longrightarrow>
    lz_step s t (lz_goto t (LBegin op) (s\<lparr>lz_hist := (lz_hist s)(t := {lz_abs s}), lz_since := (lz_since s)(t := lz_in s),
       lz_lp := (lz_lp s)(t := None)\<rparr>))"
| begin_contains: "lz_pc s t = LBegin op \<Longrightarrow> op = Contains k \<Longrightarrow> lz_step s t (lz_goto t (LTrav op (lz_head s) (lz_head s)) s)"
| begin_update: "lz_pc s t = LBegin op \<Longrightarrow> op \<noteq> Contains (op_key op) \<Longrightarrow>
    lz_step s t (lz_goto t (LTrav op (lz_head s) (next_of s (lz_head s))) s)"
| trav: "lz_pc s t = LTrav op p c \<Longrightarrow> key_of s c < op_key op \<Longrightarrow> lz_step s t (lz_goto t (LTrav op c (next_of s c)) s)"
| found_contains: "lz_pc s t = LTrav op p c \<Longrightarrow> op_key op \<le> key_of s c \<Longrightarrow> op = Contains k \<Longrightarrow>
    lz_step s t (lz_goto t (LDone op (lz_result s op c)) s)"
| found_insert: "lz_pc s t = LTrav op p c \<Longrightarrow> op_key op \<le> key_of s c \<Longrightarrow> op = Insert k v \<Longrightarrow>
    lz_step s t (lz_goto t (LLock op p c) s)"
| found_erase: "lz_pc s t = LTrav op p c \<Longrightarrow> op_key op \<le> key_of s c \<Longrightarrow> op = Erase k \<Longrightarrow>
    lz_step s t (lz_goto t (if key_of s c \<noteq> k then LDone op None else LLock op p c) s)"
| lock_pred: "lz_pc s t = LLock op p c \<Longrightarrow> lock_of s p = None \<Longrightarrow>
    lz_step s t (lz_goto t (if op = Erase (op_key op) then LLock2 op p c else LVal op 1 p c) (lz_write p (\<lambda>x. x\<lparr>n_lock := Some t\<rparr>) s))"
| lock_curr: "lz_pc s t = LLock2 op p c \<Longrightarrow> lock_of s c = None \<Longrightarrow>
    lz_step s t (lz_goto t (LVal op 1 p c) (lz_write c (\<lambda>x. x\<lparr>n_lock := Some t\<rparr>) s))"
| valid1: "lz_pc s t = LVal op 1 p c \<Longrightarrow>
    lz_step s t (lz_goto t (if \<not> marked_of s p then LVal op 2 p c else LRel op p (if op = Erase (op_key op) then Some c else None) None) s)"
| valid2: "lz_pc s t = LVal op 2 p c \<Longrightarrow>
    lz_step s t (lz_goto t (if \<not> marked_of s c then LVal op 3 p c else LRel op p (if op = Erase (op_key op) then Some c else None) None) s)"
| valid3: "lz_pc s t = LVal op 3 p c \<Longrightarrow>
    lz_step s t (lz_goto t (if next_of s p = c then LOk op p c else LRel op p (if op = Erase (op_key op) then Some c else None) None) s)"
| insert_found: "lz_pc s t = LOk op p c \<Longrightarrow> op = Insert k v \<Longrightarrow> key_of s c = k \<Longrightarrow>
    lz_step s t (lz_goto t (LRel op p None (Some (Some (val_of s c)))) s)"
| insert_new: "lz_pc s t = LOk op p c \<Longrightarrow> op = Insert k v \<Longrightarrow> key_of s c \<noteq> k \<Longrightarrow> x \<noteq> NULL \<Longrightarrow> x \<notin> lz_alloc s \<Longrightarrow>
    lz_step s t (lz_goto t (LNew k v p c x) ((lz_write x (\<lambda>_. new_node k v c) s)\<lparr>lz_alloc := insert x (lz_alloc s)\<rparr>))"
| insert_link: "lz_pc s t = LNew k v p c x \<Longrightarrow>
    lz_step s t (lz_observe (lz_goto t (LRel (Insert k v) p None (Some None))
      (lz_lin t ((lz_abs s)(k \<mapsto> v)) ((lz_write p (\<lambda>n. n\<lparr>n_next := x\<rparr>) s)\<lparr>lz_in := insert x (lz_in s), lz_pub := insert x (lz_pub s)\<rparr>))))"
| erase_mark: "lz_pc s t = LOk op p c \<Longrightarrow> op = Erase k \<Longrightarrow>
    lz_step s t (lz_observe (lz_goto t (LMarked k p c (val_of s c) (next_of s c))
      (lz_lin t ((lz_abs s)(k := None)) (lz_write c (\<lambda>n. n\<lparr>n_marked := True\<rparr>) s))))"
| erase_unlink: "lz_pc s t = LMarked k p c v nx \<Longrightarrow>
    lz_step s t (lz_goto t (LRel (Erase k) p (Some c) (Some (Some v)))
      ((lz_write p (\<lambda>n. n\<lparr>n_next := nx\<rparr>) s)\<lparr>lz_in := lz_in s - {c}, lz_retired := c # lz_retired s\<rparr>))"
| release_curr: "lz_pc s t = LRel op p (Some c) r \<Longrightarrow>
    lz_step s t (lz_goto t (LRel op p None r) (lz_write c (\<lambda>n. n\<lparr>n_lock := None\<rparr>) s))"
| release_pred: "lz_pc s t = LRel op p None r \<Longrightarrow>
    lz_step s t (lz_goto t (case r of None \<Rightarrow> LBegin op | Some res \<Rightarrow> LDone op res) (lz_write p (\<lambda>n. n\<lparr>n_lock := None\<rparr>) s))"
| return: "lz_pc s t = LDone op r \<Longrightarrow> lz_step s t (lz_goto t LIdle s)"

text \<open>The states of a list and its threads; memory that no node occupies yet holds no lock.\<close>

inductive lz_reach :: "lz \<Rightarrow> bool" where
  lz_start: "\<forall>x. n_lock (mem x) = None \<Longrightarrow> KEY_MIN < KEY_MAX \<Longrightarrow> mx \<noteq> hd_node \<Longrightarrow> mx \<noteq> NULL \<Longrightarrow> hd_node \<noteq> NULL \<Longrightarrow> lz_reach (lz_new mem mx hd_node KEY_MIN KEY_MAX)"
| lz_more: "lz_reach s \<Longrightarrow> lz_step s t s' \<Longrightarrow> lz_reach s'"

end
