(* ===== verification/LazyList_Inv.thy ===== *)
theory LazyList_Inv
  imports LazyList
begin

text \<open>
  The invariant of the lazy list and its proof: the nodes in the list are sorted and linked, a node
  that left it is marked, locks are held by the threads that are past taking them, and what a
  traversal saw was in the list at some moment of its operation.
\<close>

subsection \<open>The clauses\<close>

definition gap :: "lz \<Rightarrow> absmap \<Rightarrow> ptr \<Rightarrow> ptr \<Rightarrow> bool" where
  "gap s A x y \<longleftrightarrow> (\<forall>k. key_of s x < k \<longrightarrow> k < key_of s y \<longrightarrow> A k = None)"

text \<open>The shared structure.\<close>

definition shape_ok :: "lz \<Rightarrow> bool" where
  "shape_ok s \<longleftrightarrow> lz_head s \<in> lz_in s \<and> lz_tail s \<in> lz_in s \<and> lz_head s \<noteq> lz_tail s
     \<and> key_of s (lz_head s) = lz_min s \<and> key_of s (lz_tail s) = lz_max s \<and> lz_min s < lz_max s
     \<and> lz_in s \<subseteq> lz_pub s \<and> lz_pub s \<subseteq> lz_alloc s \<and> NULL \<notin> lz_alloc s
     \<and> \<not> marked_of s (lz_head s) \<and> \<not> marked_of s (lz_tail s)"

definition links_ok :: "lz \<Rightarrow> bool" where
  "links_ok s \<longleftrightarrow> (\<forall>x\<in>lz_in s. x \<noteq> lz_tail s \<longrightarrow> next_of s x \<in> lz_in s \<and> key_of s x < key_of s (next_of s x)
        \<and> (\<forall>y\<in>lz_in s. key_of s y \<le> key_of s x \<or> key_of s (next_of s x) \<le> key_of s y))
     \<and> inj_on (key_of s) (lz_in s)"

definition pub_ok :: "lz \<Rightarrow> bool" where
  "pub_ok s \<longleftrightarrow> (\<forall>x\<in>lz_pub s. (x \<notin> lz_in s \<longrightarrow> marked_of s x) \<and> lz_min s \<le> key_of s x \<and> key_of s x \<le> lz_max s
     \<and> (key_of s x = lz_max s \<longrightarrow> x = lz_tail s) \<and> (key_of s x = lz_min s \<longrightarrow> x = lz_head s))"

definition abs_ok :: "lz \<Rightarrow> bool" where
  "abs_ok s \<longleftrightarrow> (\<forall>k v. lz_abs s k = Some v \<longleftrightarrow>
     (\<exists>x\<in>lz_in s. \<not> marked_of s x \<and> x \<noteq> lz_head s \<and> x \<noteq> lz_tail s \<and> key_of s x = k \<and> val_of s x = v))"

definition retired_ok :: "lz \<Rightarrow> bool" where
  "retired_ok s \<longleftrightarrow> distinct (lz_retired s) \<and> set (lz_retired s) = lz_pub s - lz_in s"

definition list_ok :: "lz \<Rightarrow> bool" where
  "list_ok s \<longleftrightarrow> shape_ok s \<and> links_ok s \<and> pub_ok s \<and> abs_ok s \<and> retired_ok s"

text \<open>What a thread has seen since its operation started.\<close>

definition hist_ok :: "lz \<Rightarrow> nat \<Rightarrow> bool" where
  "hist_ok s t \<longleftrightarrow> lz_abs s \<in> lz_hist s t \<and> lz_in s \<subseteq> lz_since s t \<and> lz_since s t \<subseteq> lz_pub s
     \<and> (\<forall>x\<in>lz_since s t. x \<noteq> lz_tail s \<longrightarrow> next_of s x \<in> lz_since s t \<and> (\<exists>A\<in>lz_hist s t. gap s A x (next_of s x)))
     \<and> (\<forall>x\<in>lz_since s t. marked_of s x \<longrightarrow> (\<exists>A\<in>lz_hist s t. A (key_of s x) = None))"

text \<open>The result of an operation: right for the list at one moment between its call and its return.\<close>

definition result_ok :: "lz \<Rightarrow> nat \<Rightarrow> lz_op \<Rightarrow> int option \<Rightarrow> bool" where
  "result_ok s t op r \<longleftrightarrow> (case op of
      Contains k \<Rightarrow> \<exists>A\<in>lz_hist s t. A k = r
    | Insert k v \<Rightarrow> (case r of Some w \<Rightarrow> \<exists>A\<in>lz_hist s t. A k = Some w
        | None \<Rightarrow> \<exists>A. A \<in> lz_hist s t \<and> A k = None \<and> lz_lp s t = Some (A, A(k \<mapsto> v)))
    | Erase k \<Rightarrow> (case r of None \<Rightarrow> \<exists>A\<in>lz_hist s t. A k = None
        | Some w \<Rightarrow> \<exists>A. A \<in> lz_hist s t \<and> A k = Some w \<and> lz_lp s t = Some (A, A(k := None))))"

definition op_ok :: "lz \<Rightarrow> lz_op \<Rightarrow> bool" where
  "op_ok s op \<longleftrightarrow> lz_min s < op_key op \<and> op_key op < lz_max s"

definition window :: "lz \<Rightarrow> nat \<Rightarrow> lz_op \<Rightarrow> ptr \<Rightarrow> ptr \<Rightarrow> bool" where
  "window s t op p c \<longleftrightarrow> op_ok s op \<and> p \<in> lz_since s t \<and> c \<in> lz_since s t \<and> key_of s p < op_key op
     \<and> (\<exists>A\<in>lz_hist s t. gap s A p c)"

definition located :: "lz \<Rightarrow> nat \<Rightarrow> lz_op \<Rightarrow> ptr \<Rightarrow> ptr \<Rightarrow> bool" where
  "located s t op p c \<longleftrightarrow> window s t op p c \<and> op_key op \<le> key_of s c \<and> (\<forall>k. op \<noteq> Contains k)
     \<and> (\<forall>k. op = Erase k \<longrightarrow> key_of s c = k)"

definition is_erase :: "lz_op \<Rightarrow> bool" where
  "is_erase op \<longleftrightarrow> op = Erase (op_key op)"

definition pc_ok :: "lz \<Rightarrow> nat \<Rightarrow> lz_pc \<Rightarrow> bool" where
  "pc_ok s t pc \<longleftrightarrow> (case pc of
      LIdle \<Rightarrow> True
    | LBegin op \<Rightarrow> op_ok s op
    | LTrav op p c \<Rightarrow> window s t op p c
    | LLock op p c \<Rightarrow> located s t op p c
    | LLock2 op p c \<Rightarrow> located s t op p c \<and> is_erase op
    | LVal op n p c \<Rightarrow> located s t op p c \<and> (2 \<le> n \<longrightarrow> \<not> marked_of s p) \<and> (3 \<le> n \<longrightarrow> next_of s p = c \<longrightarrow> \<not> marked_of s c)
    | LOk op p c \<Rightarrow> located s t op p c \<and> \<not> marked_of s p \<and> next_of s p = c \<and> \<not> marked_of s c
    | LNew k v p c x \<Rightarrow> located s t (Insert k v) p c \<and> \<not> marked_of s p \<and> next_of s p = c \<and> \<not> marked_of s c
        \<and> k < key_of s c \<and> x \<in> lz_alloc s - lz_pub s \<and> lz_mem s x = new_node k v c
    | LMarked k p c v nx \<Rightarrow> located s t (Erase k) p c \<and> \<not> marked_of s p \<and> next_of s p = c \<and> c \<in> lz_in s \<and> marked_of s c
        \<and> next_of s c = nx \<and> result_ok s t (Erase k) (Some v)
    | LRel op p co r \<Rightarrow> op_ok s op \<and> p \<in> lz_since s t \<and> (\<forall>c. co = Some c \<longrightarrow> c \<in> lz_since s t \<and> c \<noteq> p)
        \<and> (\<forall>res. r = Some res \<longrightarrow> result_ok s t op res)
    | LDone op r \<Rightarrow> result_ok s t op r)"

fun holds :: "lz_pc \<Rightarrow> ptr set" where
  "holds (LLock2 op p c) = {p}"
| "holds (LVal op n p c) = (if is_erase op then {p, c} else {p})"
| "holds (LOk op p c) = (if is_erase op then {p, c} else {p})"
| "holds (LNew k v p c x) = {p}"
| "holds (LMarked k p c v nx) = {p, c}"
| "holds (LRel op p co r) = insert p (set_option co)"
| "holds _ = {}"

definition lz_inv :: "lz \<Rightarrow> bool" where
  "lz_inv s \<longleftrightarrow> list_ok s
     \<and> (\<forall>t. pc_ok s t (lz_pc s t) \<and> (lz_pc s t \<noteq> LIdle \<longrightarrow> hist_ok s t))
     \<and> (\<forall>x t. lock_of s x = Some t \<longleftrightarrow> x \<in> holds (lz_pc s t))
     \<and> (\<forall>x\<in>lz_in s. marked_of s x \<longrightarrow> (\<exists>t k p v nx. lz_pc s t = LMarked k p x v nx))
     \<and> (\<forall>t u k v p c x k' v' p' c' x'. t \<noteq> u \<longrightarrow> lz_pc s t = LNew k v p c x \<longrightarrow> lz_pc s u = LNew k' v' p' c' x' \<longrightarrow> x \<noteq> x')"

lemma lz_invD:
  assumes "lz_inv s"
  shows "list_ok s" "pc_ok s t (lz_pc s t)" "lz_pc s t \<noteq> LIdle \<Longrightarrow> hist_ok s t"
    "lock_of s x = Some t \<longleftrightarrow> x \<in> holds (lz_pc s t)"
    "x \<in> lz_in s \<Longrightarrow> marked_of s x \<Longrightarrow> \<exists>t k p v nx. lz_pc s t = LMarked k p x v nx"
    "t \<noteq> u \<Longrightarrow> lz_pc s t = LNew k v p c y \<Longrightarrow> lz_pc s u = LNew k' v' p' c' y' \<Longrightarrow> y \<noteq> y'"
  using assms unfolding lz_inv_def by blast+

text \<open>No two threads hold the same lock.\<close>

lemma holds_apart: "lz_inv s \<Longrightarrow> t \<noteq> u \<Longrightarrow> x \<in> holds (lz_pc s t) \<Longrightarrow> x \<notin> holds (lz_pc s u)"
  using lz_invD(4) by (metis option.inject)

subsection \<open>Facts about the list\<close>

lemma gap_now:
  assumes "list_ok s" and "x \<in> lz_in s" and "x \<noteq> lz_tail s"
  shows "gap s (lz_abs s) x (next_of s x)" "next_of s x \<in> lz_in s" "key_of s x < key_of s (next_of s x)"
proof -
  have l: "next_of s x \<in> lz_in s \<and> key_of s x < key_of s (next_of s x)
        \<and> (\<forall>y\<in>lz_in s. key_of s y \<le> key_of s x \<or> key_of s (next_of s x) \<le> key_of s y)"
    using assms by (simp add: list_ok_def links_ok_def)
  then show "next_of s x \<in> lz_in s" "key_of s x < key_of s (next_of s x)" by blast+
  have "lz_abs s k = None" if "key_of s x < k" "k < key_of s (next_of s x)" for k
  proof (rule ccontr)
    assume "lz_abs s k \<noteq> None"
    then obtain v where "lz_abs s k = Some v" by blast
    then obtain y where "y \<in> lz_in s" "key_of s y = k" using assms(1) by (auto simp: list_ok_def abs_ok_def)
    then show False using l that by force
  qed
  then show "gap s (lz_abs s) x (next_of s x)" by (simp add: gap_def)
qed

lemma abs_marked:
  assumes "list_ok s" and "x \<in> lz_in s" and "marked_of s x"
  shows "lz_abs s (key_of s x) = None"
proof (rule ccontr)
  assume "lz_abs s (key_of s x) \<noteq> None"
  then obtain v where "lz_abs s (key_of s x) = Some v" by blast
  then obtain y where "y \<in> lz_in s" "\<not> marked_of s y" "key_of s y = key_of s x" using assms(1) by (auto simp: list_ok_def abs_ok_def)
  then show False using assms by (auto simp: list_ok_def links_ok_def inj_on_def)
qed

lemma abs_unmarked:
  assumes "list_ok s" and "x \<in> lz_pub s" and "\<not> marked_of s x" and "lz_min s < key_of s x" and "key_of s x < lz_max s"
  shows "x \<in> lz_in s" "x \<noteq> lz_head s" "x \<noteq> lz_tail s" "lz_abs s (key_of s x) = Some (val_of s x)"
proof -
  show 1: "x \<in> lz_in s" using assms(1-3) by (auto simp: list_ok_def pub_ok_def)
  show 2: "x \<noteq> lz_head s" "x \<noteq> lz_tail s" using assms(1,4,5) by (auto simp: list_ok_def shape_ok_def)
  show "lz_abs s (key_of s x) = Some (val_of s x)" using assms(1,3) 1 2 unfolding list_ok_def abs_ok_def by blast
qed

lemma unique_pred:
  assumes "list_ok s" and "p \<in> lz_in s" and "p' \<in> lz_in s" and "p \<noteq> lz_tail s" and "p' \<noteq> lz_tail s" and "next_of s p = next_of s p'"
  shows "p = p'"
proof -
  have l: "\<And>x. x \<in> lz_in s \<Longrightarrow> x \<noteq> lz_tail s \<Longrightarrow> key_of s x < key_of s (next_of s x)
        \<and> (\<forall>y\<in>lz_in s. key_of s y \<le> key_of s x \<or> key_of s (next_of s x) \<le> key_of s y)"
    using assms(1) by (simp add: list_ok_def links_ok_def)
  have "key_of s p' \<le> key_of s p" using l [OF assms(3,5)] conjunct2 [OF l [OF assms(2,4)]] assms(3,6) by (metis not_le)
  moreover have "key_of s p \<le> key_of s p'" using l [OF assms(2,4)] conjunct2 [OF l [OF assms(3,5)]] assms(2,6) by (metis not_le)
  ultimately have "key_of s p = key_of s p'" by simp
  moreover have "inj_on (key_of s) (lz_in s)" using assms(1) by (simp add: list_ok_def links_ok_def)
  ultimately show ?thesis using assms(2,3) by (simp add: inj_on_def)
qed

lemma pred_in:
  assumes "list_ok s" and "hist_ok s t" and "p \<in> lz_since s t" and "\<not> marked_of s p" and "key_of s p < lz_max s"
  shows "p \<in> lz_in s" "p \<noteq> lz_tail s"
proof -
  have "p \<in> lz_pub s" using assms(2,3) unfolding hist_ok_def by blast
  then show "p \<in> lz_in s" using assms(1,4) unfolding list_ok_def pub_ok_def by blast
  have "key_of s (lz_tail s) = lz_max s" using assms(1) by (simp add: list_ok_def shape_ok_def)
  then show "p \<noteq> lz_tail s" using assms(5) by auto
qed


text \<open>From the moment a node is in the list, a thread in an operation knows it.\<close>

lemma hist_observe:
  assumes ok: "list_ok s'" and h: "hist_ok s t"
    and hist: "lz_hist s' t = insert (lz_abs s') (lz_hist s t)" and since: "lz_since s' t = lz_since s t \<union> lz_in s'"
    and tl: "lz_tail s' = lz_tail s" and pub: "lz_pub s \<subseteq> lz_pub s'"
    and same: "\<And>x. x \<in> lz_pub s \<Longrightarrow> key_of s' x = key_of s x"
    and out: "\<And>x. x \<in> lz_pub s \<Longrightarrow> x \<notin> lz_in s' \<Longrightarrow> next_of s' x = next_of s x \<and> marked_of s' x = marked_of s x"
  shows "hist_ok s' t"
proof -
  have sp: "lz_since s t \<subseteq> lz_pub s" and nx: "\<And>x. x \<in> lz_since s t \<Longrightarrow> x \<noteq> lz_tail s \<Longrightarrow> next_of s x \<in> lz_since s t"
    using h by (auto simp: hist_ok_def)
  have a: "next_of s' x \<in> lz_since s' t \<and> (\<exists>A\<in>lz_hist s' t. gap s' A x (next_of s' x))"
    if x: "x \<in> lz_since s' t" "x \<noteq> lz_tail s'" for x
  proof (cases "x \<in> lz_in s'")
    case True
    then show ?thesis using gap_now [OF ok True x(2)] hist since by auto
  next
    case False
    then have xs: "x \<in> lz_since s t" "x \<in> lz_pub s" using x since sp by auto
    have n: "next_of s' x = next_of s x" using out [OF xs(2) False] by simp
    obtain A where A: "A \<in> lz_hist s t" "gap s A x (next_of s x)" using h xs x(2) tl by (auto simp: hist_ok_def)
    have "next_of s x \<in> lz_since s t" using nx xs x(2) tl by simp
    moreover from this have "gap s' A x (next_of s' x)" using A(2) same xs(2) sp n by (auto simp: gap_def)
    ultimately show ?thesis using A(1) n hist since by auto
  qed
  have b: "\<exists>A\<in>lz_hist s' t. A (key_of s' x) = None" if x: "x \<in> lz_since s' t" "marked_of s' x" for x
  proof (cases "x \<in> lz_in s'")
    case True
    then show ?thesis using abs_marked [OF ok True x(2)] hist by auto
  next
    case False
    then have xs: "x \<in> lz_since s t" "x \<in> lz_pub s" using x since sp by auto
    then have "\<exists>A\<in>lz_hist s t. A (key_of s x) = None" using h x(2) out [OF xs(2) False] by (auto simp: hist_ok_def)
    then show ?thesis using same [OF xs(2)] hist by auto
  qed
  have "lz_in s' \<subseteq> lz_pub s'" using ok by (simp add: list_ok_def shape_ok_def)
  then show ?thesis using a b hist since sp pub by (auto simp: hist_ok_def)
qed

text \<open>What a thread knows survives the steps of the others: nobody writes to the nodes it holds.\<close>

lemma result_keep:
  assumes "result_ok s t op r" and "lz_hist s t \<subseteq> lz_hist s' t" and "lz_lp s' t = lz_lp s t"
  shows "result_ok s' t op r"
  using assms unfolding result_ok_def by (cases op; cases r; simp; blast)

lemma window_keep:
  assumes "window s t op p c" and "lz_hist s t \<subseteq> lz_hist s' t" and "lz_since s t \<subseteq> lz_since s' t"
    and "lz_since s t \<subseteq> lz_pub s" and "lz_min s' = lz_min s" and "lz_max s' = lz_max s"
    and "\<And>x. x \<in> lz_pub s \<Longrightarrow> key_of s' x = key_of s x"
  shows "window s' t op p c"
proof -
  have "p \<in> lz_pub s" "c \<in> lz_pub s" using assms(1,4) by (auto simp: window_def)
  then have "key_of s' p = key_of s p" "key_of s' c = key_of s c" using assms(7) by blast+
  then show ?thesis using assms(1-6) unfolding window_def op_ok_def gap_def by auto
qed

lemma located_keep:
  assumes "located s t op p c" and "lz_hist s t \<subseteq> lz_hist s' t" and "lz_since s t \<subseteq> lz_since s' t"
    and "lz_since s t \<subseteq> lz_pub s" and "lz_min s' = lz_min s" and "lz_max s' = lz_max s"
    and "\<And>x. x \<in> lz_pub s \<Longrightarrow> key_of s' x = key_of s x"
  shows "located s' t op p c"
proof -
  have "c \<in> lz_pub s" using assms(1,4) by (auto simp: located_def window_def)
  then have "key_of s' c = key_of s c" using assms(7) by blast
  then show ?thesis using assms(1) window_keep [OF _ assms(2-7)] unfolding located_def by auto
qed

lemma located_in_pub: "located s t op p c \<Longrightarrow> lz_since s t \<subseteq> lz_pub s \<Longrightarrow> p \<in> lz_pub s \<and> c \<in> lz_pub s"
  by (auto simp: located_def window_def)

lemma lz_pc_keep:
  assumes pc: "pc_ok s t c" and grow: "lz_hist s t \<subseteq> lz_hist s' t" "lz_since s t \<subseteq> lz_since s' t" "lz_since s t \<subseteq> lz_pub s"
    and const: "lz_min s' = lz_min s" "lz_max s' = lz_max s" "lz_lp s' t = lz_lp s t"
    and keys: "\<And>x. x \<in> lz_pub s \<Longrightarrow> key_of s' x = key_of s x"
    and held: "\<And>x. x \<in> holds c \<Longrightarrow> x \<in> lz_pub s \<Longrightarrow> next_of s' x = next_of s x \<and> marked_of s' x = marked_of s x
        \<and> (x \<in> lz_in s \<longrightarrow> x \<in> lz_in s')"
    and nextm: "\<And>p y. p \<in> holds c \<Longrightarrow> p \<in> lz_pub s \<Longrightarrow> \<not> marked_of s p \<Longrightarrow> next_of s p = y \<Longrightarrow> key_of s p < lz_max s \<Longrightarrow>
        \<not> marked_of s y \<Longrightarrow> \<not> marked_of s' y"
    and priv: "\<And>k v p y x. c = LNew k v p y x \<Longrightarrow> x \<in> lz_alloc s' - lz_pub s' \<and> lz_mem s' x = lz_mem s x"
  shows "pc_ok s' t c"
proof -
  have L: "located s' t op p y" if "located s t op p y" for op p y
    using located_keep [OF that grow const(1,2) keys] .
  have P: "p \<in> lz_pub s" "y \<in> lz_pub s" "key_of s p < lz_max s" if "located s t op p y" for op p y
    using that grow(3) by (auto simp: located_def window_def op_ok_def)
  show ?thesis
  proof (cases c)
    case (LTrav op p y)
    then show ?thesis using pc window_keep [OF _ grow const(1,2) keys] by (simp add: pc_ok_def)
  next
    case (LVal op n p y)
    have l: "located s t op p y" using pc LVal by (simp add: pc_ok_def)
    have "next_of s' p = next_of s p" "marked_of s' p = marked_of s p" using held [of p] P(1) [OF l] LVal by auto
    then show ?thesis using pc LVal L [OF l] nextm [of p y] P [OF l] by (auto simp: pc_ok_def)
  next
    case (LOk op p y)
    have l: "located s t op p y" using pc LOk by (simp add: pc_ok_def)
    have "next_of s' p = next_of s p" "marked_of s' p = marked_of s p" using held [of p] P(1) [OF l] LOk by auto
    then show ?thesis using pc LOk L [OF l] nextm [of p y] P [OF l] by (auto simp: pc_ok_def)
  next
    case (LNew k v p y x)
    have l: "located s t (Insert k v) p y" using pc LNew by (simp add: pc_ok_def)
    have "next_of s' p = next_of s p" "marked_of s' p = marked_of s p" using held [of p] P(1) [OF l] LNew by auto
    then show ?thesis using pc LNew L [OF l] nextm [of p y] P [OF l] priv [OF LNew] keys by (auto simp: pc_ok_def)
  next
    case (LMarked k p y v nx)
    have l: "located s t (Erase k) p y" using pc LMarked by (simp add: pc_ok_def)
    have "next_of s' p = next_of s p" "marked_of s' p = marked_of s p" "next_of s' y = next_of s y" "marked_of s' y = marked_of s y"
      "y \<in> lz_in s \<longrightarrow> y \<in> lz_in s'"
      using held [of p] held [of y] P [OF l] LMarked by auto
    then show ?thesis using pc LMarked L [OF l] result_keep [OF _ grow(1) const(3)] by (auto simp: pc_ok_def)
  next
    case (LRel op p co r)
    then show ?thesis using pc result_keep [OF _ grow(1) const(3)] grow(2) const by (auto simp: pc_ok_def op_ok_def)
  qed (use pc L const result_keep [OF _ grow(1) const(3)] in \<open>auto simp: pc_ok_def op_ok_def\<close>)
qed

end
