(* ===== verification/LazyList_Steps.thy ===== *)
theory LazyList_Steps
  imports LazyList_Inv
begin

text \<open>
  Every step of the lazy list keeps the invariant, and what follows: the results of the operations
  are those of an atomic set, and only nodes that left the list are retired, each once.
\<close>

subsection \<open>Steps that touch at most a lock\<close>

definition lock_only :: "lz \<Rightarrow> lz \<Rightarrow> bool" where
  "lock_only s s' \<longleftrightarrow> (\<forall>y. key_of s' y = key_of s y \<and> val_of s' y = val_of s y \<and> next_of s' y = next_of s y \<and> marked_of s' y = marked_of s y)
     \<and> lz_head s' = lz_head s \<and> lz_tail s' = lz_tail s \<and> lz_min s' = lz_min s \<and> lz_max s' = lz_max s \<and> lz_alloc s' = lz_alloc s
     \<and> lz_in s' = lz_in s \<and> lz_pub s' = lz_pub s \<and> lz_retired s' = lz_retired s \<and> lz_abs s' = lz_abs s
     \<and> lz_hist s' = lz_hist s \<and> lz_since s' = lz_since s \<and> lz_lp s' = lz_lp s"

lemma lock_only_list: "lock_only s s' \<Longrightarrow> list_ok s' = list_ok s"
  unfolding lock_only_def list_ok_def shape_ok_def links_ok_def pub_ok_def abs_ok_def retired_ok_def inj_on_def by simp

lemma lock_only_hist: "lock_only s s' \<Longrightarrow> hist_ok s' t = hist_ok s t"
  unfolding lock_only_def hist_ok_def gap_def by simp

lemma lock_only_pc:
  assumes "lock_only s s'" and "\<And>x. x \<notin> lz_pub s \<Longrightarrow> lz_mem s' x = lz_mem s x"
  shows "pc_ok s' t c = pc_ok s t c"
proof -
  have w: "window s' t op p y = window s t op p y" "op_ok s' op = op_ok s op" "result_ok s' t op r = result_ok s t op r" for op p y r
    using assms(1) unfolding lock_only_def window_def op_ok_def gap_def result_ok_def by (simp_all cong: lz_op.case_cong option.case_cong)
  have l: "located s' t op p y = located s t op p y" for op p y
    using assms(1) w unfolding located_def lock_only_def by simp
  have n: "x \<in> lz_alloc s - lz_pub s \<and> lz_mem s' x = nd \<longleftrightarrow> x \<in> lz_alloc s - lz_pub s \<and> lz_mem s x = nd" for x nd
    using assms(2) by auto
  show ?thesis
    unfolding pc_ok_def w l using assms(1) n by (cases c) (auto simp: lock_only_def)
qed

lemma lz_inv_lock_only:
  assumes inv: "lz_inv s" and lo: "lock_only s s'" and priv: "\<And>x. x \<notin> lz_pub s \<Longrightarrow> lz_mem s' x = lz_mem s x"
    and others: "\<And>u. u \<noteq> t \<Longrightarrow> lz_pc s' u = lz_pc s u"
    and pc: "pc_ok s t (lz_pc s' t)" and active: "lz_pc s' t \<noteq> LIdle \<Longrightarrow> hist_ok s t"
    and locks: "\<And>x u. lock_of s' x = Some u \<longleftrightarrow> x \<in> holds (lz_pc s' u)"
    and nm: "\<And>k p c v nx. lz_pc s t \<noteq> LMarked k p c v nx" and nn: "\<And>k v p c x. lz_pc s' t \<noteq> LNew k v p c x"
  shows "lz_inv s'"
  unfolding lz_inv_def
proof (intro conjI)
  show "list_ok s'" using lz_invD(1) [OF inv] lock_only_list [OF lo] by simp
  show "\<forall>u. pc_ok s' u (lz_pc s' u) \<and> (lz_pc s' u \<noteq> LIdle \<longrightarrow> hist_ok s' u)"
  proof
    fix u
    show "pc_ok s' u (lz_pc s' u) \<and> (lz_pc s' u \<noteq> LIdle \<longrightarrow> hist_ok s' u)"
      using pc active lz_invD(2,3) [OF inv, of u] others lock_only_pc [OF lo priv] lock_only_hist [OF lo] by (cases "u = t") auto
  qed
  show "\<forall>x u. (lock_of s' x = Some u) = (x \<in> holds (lz_pc s' u))" using locks by blast
  show "\<forall>x\<in>lz_in s'. marked_of s' x \<longrightarrow> (\<exists>t k p v nx. lz_pc s' t = LMarked k p x v nx)"
  proof (intro ballI impI)
    fix x assume "x \<in> lz_in s'" "marked_of s' x"
    then have "x \<in> lz_in s" "marked_of s x" using lo by (auto simp: lock_only_def)
    then obtain u k p v nx where u: "lz_pc s u = LMarked k p x v nx" using lz_invD(5) [OF inv] by blast
    then have "u \<noteq> t" using nm by auto
    then show "\<exists>t k p v nx. lz_pc s' t = LMarked k p x v nx" using others u by metis
  qed
  show "\<forall>a b k v p c x k' v' p' c' x'. a \<noteq> b \<longrightarrow> lz_pc s' a = LNew k v p c x \<longrightarrow> lz_pc s' b = LNew k' v' p' c' x' \<longrightarrow> x \<noteq> x'"
    using lz_invD(6) [OF inv] others nn by metis
qed

lemma lz_goto_simps [simp]:
  "lz_mem (lz_goto t c s) = lz_mem s" "lz_pc (lz_goto t c s) = (lz_pc s)(t := c)" "lz_head (lz_goto t c s) = lz_head s"
  "lz_tail (lz_goto t c s) = lz_tail s" "lz_min (lz_goto t c s) = lz_min s" "lz_max (lz_goto t c s) = lz_max s"
  "lz_alloc (lz_goto t c s) = lz_alloc s" "lz_in (lz_goto t c s) = lz_in s" "lz_pub (lz_goto t c s) = lz_pub s"
  "lz_retired (lz_goto t c s) = lz_retired s" "lz_abs (lz_goto t c s) = lz_abs s" "lz_hist (lz_goto t c s) = lz_hist s"
  "lz_since (lz_goto t c s) = lz_since s" "lz_lp (lz_goto t c s) = lz_lp s"
  by (simp_all add: lz_goto_def)

lemma lz_write_simps [simp]:
  "lz_mem (lz_write x f s) = (lz_mem s)(x := f (lz_mem s x))" "lz_pc (lz_write x f s) = lz_pc s" "lz_head (lz_write x f s) = lz_head s"
  "lz_tail (lz_write x f s) = lz_tail s" "lz_min (lz_write x f s) = lz_min s" "lz_max (lz_write x f s) = lz_max s"
  "lz_alloc (lz_write x f s) = lz_alloc s" "lz_in (lz_write x f s) = lz_in s" "lz_pub (lz_write x f s) = lz_pub s"
  "lz_retired (lz_write x f s) = lz_retired s" "lz_abs (lz_write x f s) = lz_abs s" "lz_hist (lz_write x f s) = lz_hist s"
  "lz_since (lz_write x f s) = lz_since s" "lz_lp (lz_write x f s) = lz_lp s"
  by (simp_all add: lz_write_def)

lemma lz_inv_goto:
  assumes inv: "lz_inv s" and "pc_ok s t c" and "holds c = holds (lz_pc s t)" and "lz_pc s t \<noteq> LIdle"
    and "\<And>k p c v nx. lz_pc s t \<noteq> LMarked k p c v nx" and "\<And>k v p y x. c \<noteq> LNew k v p y x"
  shows "lz_inv (lz_goto t c s)"
proof (rule lz_inv_lock_only [OF inv, where t = t])
  show "lock_only s (lz_goto t c s)" by (simp add: lock_only_def)
  show "(lock_of (lz_goto t c s) x = Some u) = (x \<in> holds (lz_pc (lz_goto t c s) u))" for x u
    using lz_invD(4) [OF inv, of x u] assms(3) by auto
qed (use assms lz_invD(3) [OF inv] in auto)

lemma lz_inv_acquire:
  assumes inv: "lz_inv s" and x: "lock_of s x = None" "x \<in> lz_pub s" and pc: "pc_ok s t c" "holds c = insert x (holds (lz_pc s t))"
    and "lz_pc s t \<noteq> LIdle" and "\<And>k p c v nx. lz_pc s t \<noteq> LMarked k p c v nx" and "\<And>k v p y z. c \<noteq> LNew k v p y z"
  shows "lz_inv (lz_goto t c (lz_write x (\<lambda>n. n\<lparr>n_lock := Some t\<rparr>) s))" (is "lz_inv ?s")
proof (rule lz_inv_lock_only [OF inv, where t = t])
  show "lock_only s ?s" by (simp add: lock_only_def)
  show "(lock_of ?s y = Some u) = (y \<in> holds (lz_pc ?s u))" for y u
    using lz_invD(4) [OF inv, of y u] lz_invD(4) [OF inv, of x u] x pc(2) by auto
qed (use assms lz_invD(3) [OF inv] in auto)

lemma lz_inv_release:
  assumes inv: "lz_inv s" and x: "x \<in> holds (lz_pc s t)" "x \<in> lz_pub s" and pc: "pc_ok s t c" "holds c = holds (lz_pc s t) - {x}"
    and "lz_pc s t \<noteq> LIdle" and "\<And>k p c v nx. lz_pc s t \<noteq> LMarked k p c v nx" and "\<And>k v p y z. c \<noteq> LNew k v p y z"
  shows "lz_inv (lz_goto t c (lz_write x (\<lambda>n. n\<lparr>n_lock := None\<rparr>) s))" (is "lz_inv ?s")
proof (rule lz_inv_lock_only [OF inv, where t = t])
  show "lock_only s ?s" by (simp add: lock_only_def)
  show "(lock_of ?s y = Some u) = (y \<in> holds (lz_pc ?s u))" for y u
    using lz_invD(4) [OF inv, of y u] holds_apart [OF inv _ x(1), of u] pc(2) by auto
qed (use assms lz_invD(3) [OF inv] in auto)


subsection \<open>The steps that change the list\<close>

lemma hist_pub: "hist_ok s t \<Longrightarrow> lz_since s t \<subseteq> lz_pub s"
  by (simp add: hist_ok_def)

text \<open>What an insertion or a removal knows once it is validated: its two nodes are neighbours in the list.\<close>

lemma validated:
  assumes inv: "lz_inv s" and t: "lz_pc s t \<noteq> LIdle" and l: "located s t op p c" and v: "\<not> marked_of s p" "next_of s p = c"
  shows "p \<in> lz_in s" "p \<noteq> lz_tail s" "c \<in> lz_in s" "key_of s p < op_key op" "op_key op \<le> key_of s c" "lz_min s < op_key op"
    "op_key op < lz_max s" "p \<noteq> c" "p \<in> lz_pub s" "c \<in> lz_pub s"
proof -
  have h: "hist_ok s t" and ok: "list_ok s" using lz_invD [OF inv] t by blast+
  show k: "key_of s p < op_key op" "op_key op \<le> key_of s c" "lz_min s < op_key op" "op_key op < lz_max s"
    using l by (auto simp: located_def window_def op_ok_def)
  have ps: "p \<in> lz_since s t" using l by (simp add: located_def window_def)
  show p: "p \<in> lz_in s" "p \<noteq> lz_tail s" using pred_in [OF ok h ps v(1)] k by auto
  show "c \<in> lz_in s" using gap_now(2) [OF ok p] v(2) by simp
  then show "p \<in> lz_pub s" "c \<in> lz_pub s" using p ok by (auto simp: list_ok_def shape_ok_def)
  show "p \<noteq> c" using k by auto
qed

text \<open>The invariant after a step of thread \<open>t\<close> that writes to nodes it holds.\<close>

lemma lz_inv_write:
  assumes inv: "lz_inv s" and ok: "list_ok s'"
    and others: "\<And>u. u \<noteq> t \<Longrightarrow> lz_pc s' u = lz_pc s u \<and> lz_lp s' u = lz_lp s u"
    and grow: "\<And>u. u \<noteq> t \<Longrightarrow> lz_hist s u \<subseteq> lz_hist s' u \<and> lz_since s u \<subseteq> lz_since s' u"
    and hist: "\<And>u. lz_pc s u \<noteq> LIdle \<Longrightarrow> hist_ok s' u"
    and const: "lz_min s' = lz_min s" "lz_max s' = lz_max s"
    and keys: "\<And>x. x \<in> lz_pub s \<Longrightarrow> key_of s' x = key_of s x"
    and held: "\<And>x. x \<in> lz_pub s \<Longrightarrow> x \<notin> holds (lz_pc s t) \<Longrightarrow> next_of s' x = next_of s x \<and> marked_of s' x = marked_of s x
        \<and> (x \<in> lz_in s \<longrightarrow> x \<in> lz_in s')"
    and mark: "\<And>y. \<not> marked_of s y \<Longrightarrow> marked_of s' y \<Longrightarrow> \<exists>p. p \<in> lz_in s \<and> p \<noteq> lz_tail s \<and> p \<in> holds (lz_pc s t) \<and> next_of s p = y"
    and priv: "\<And>u k v p y x. u \<noteq> t \<Longrightarrow> lz_pc s u = LNew k v p y x \<Longrightarrow> x \<in> lz_alloc s' - lz_pub s' \<and> lz_mem s' x = lz_mem s x"
    and own: "pc_ok s' t (lz_pc s' t)" "lz_pc s t \<noteq> LIdle"
    and locks: "\<And>x. lock_of s' x = lock_of s x" "holds (lz_pc s' t) = holds (lz_pc s t)"
    and marked: "\<And>x. x \<in> lz_in s' \<Longrightarrow> marked_of s' x \<Longrightarrow> (\<exists>k p v nx. lz_pc s' t = LMarked k p x v nx)
        \<or> x \<in> lz_in s \<and> marked_of s x \<and> (\<forall>k p v nx. lz_pc s t \<noteq> LMarked k p x v nx)"
    and new: "\<And>k v p c x. lz_pc s' t = LNew k v p c x \<Longrightarrow> x \<notin> lz_alloc s"
  shows "lz_inv s'"
  unfolding lz_inv_def
proof (intro conjI)
  show "list_ok s'" by (rule ok)
  show "\<forall>u. pc_ok s' u (lz_pc s' u) \<and> (lz_pc s' u \<noteq> LIdle \<longrightarrow> hist_ok s' u)"
  proof
    fix u
    show "pc_ok s' u (lz_pc s' u) \<and> (lz_pc s' u \<noteq> LIdle \<longrightarrow> hist_ok s' u)"
    proof (cases "u = t")
      case True
      then show ?thesis using own hist by blast
    next
      case False
      note o = others [OF False]
      show ?thesis
      proof (cases "lz_pc s u = LIdle")
        case True
        then show ?thesis using o by (simp add: pc_ok_def)
      next
        case act: False
        have h: "hist_ok s u" using lz_invD(3) [OF inv act] .
        have nh: "x \<notin> holds (lz_pc s t)" if "x \<in> holds (lz_pc s u)" for x using holds_apart [OF inv False that] .
        have "pc_ok s' u (lz_pc s u)"
        proof (rule lz_pc_keep [OF lz_invD(2) [OF inv]])
          show "\<not> marked_of s' y" if p: "p \<in> holds (lz_pc s u)" "p \<in> lz_pub s" "\<not> marked_of s p" "next_of s p = y" "key_of s p < lz_max s" "\<not> marked_of s y" for p y
          proof
            assume "marked_of s' y"
            then obtain q where q: "q \<in> lz_in s" "q \<noteq> lz_tail s" "q \<in> holds (lz_pc s t)" "next_of s q = y" using mark p(6) by blast
            have l: "list_ok s" using lz_invD(1) [OF inv] .
            have "p \<in> lz_in s" using p(2,3) l unfolding list_ok_def pub_ok_def by blast
            moreover have "p \<noteq> lz_tail s" using p(5) l by (auto simp: list_ok_def shape_ok_def)
            ultimately have "p = q" using unique_pred [OF l _ q(1) _ q(2)] p(4) q(4) by simp
            then show False using nh [OF p(1)] q(3) by simp
          qed
          show "next_of s' x = next_of s x \<and> marked_of s' x = marked_of s x \<and> (x \<in> lz_in s \<longrightarrow> x \<in> lz_in s')"
            if "x \<in> holds (lz_pc s u)" "x \<in> lz_pub s" for x using held that nh by blast
        qed (use grow [OF False] hist_pub [OF h] const o keys priv [OF False] in auto)
        then show ?thesis using o hist act by simp
      qed
    qed
  qed
  show "\<forall>x u. (lock_of s' x = Some u) = (x \<in> holds (lz_pc s' u))"
  proof (intro allI)
    fix x u
    show "(lock_of s' x = Some u) = (x \<in> holds (lz_pc s' u))"
      using locks others lz_invD(4) [OF inv, of x u] by (cases "u = t") auto
  qed
  show "\<forall>x\<in>lz_in s'. marked_of s' x \<longrightarrow> (\<exists>t k p v nx. lz_pc s' t = LMarked k p x v nx)"
  proof (intro ballI impI)
    fix x assume x: "x \<in> lz_in s'" "marked_of s' x"
    show "\<exists>t k p v nx. lz_pc s' t = LMarked k p x v nx"
    proof (cases "\<exists>k p v nx. lz_pc s' t = LMarked k p x v nx")
      case False
      then have old: "x \<in> lz_in s" "marked_of s x" "\<forall>k p v nx. lz_pc s t \<noteq> LMarked k p x v nx" using marked [OF x] by blast+
      then obtain u k p v nx where u: "lz_pc s u = LMarked k p x v nx" using lz_invD(5) [OF inv] by blast
      then have "u \<noteq> t" using old(3) by auto
      then show ?thesis using others u by metis
    qed blast
  qed
  show "\<forall>a b k v p c x k' v' p' c' x'. a \<noteq> b \<longrightarrow> lz_pc s' a = LNew k v p c x \<longrightarrow> lz_pc s' b = LNew k' v' p' c' x' \<longrightarrow> x \<noteq> x'"
  proof (intro allI impI)
    fix a b k v p c x k' v' p' c' x'
    assume ab: "a \<noteq> b" "lz_pc s' a = LNew k v p c x" "lz_pc s' b = LNew k' v' p' c' x'"
    have al: "z \<in> lz_alloc s" if "lz_pc s u = LNew i j q r z" for u i j q r z
      using lz_invD(2) [OF inv, of u] that by (simp add: pc_ok_def)
    consider "a = t" "b \<noteq> t" | "b = t" "a \<noteq> t" | "a \<noteq> t" "b \<noteq> t" using ab(1) by blast
    then show "x \<noteq> x'"
    proof cases
      case 1
      have "lz_pc s b = LNew k' v' p' c' x'" using ab(3) others [OF 1(2)] by simp
      then have "x' \<in> lz_alloc s" by (rule al)
      moreover have "x \<notin> lz_alloc s" using ab(2) 1(1) new by blast
      ultimately show ?thesis by blast
    next
      case 2
      have "lz_pc s a = LNew k v p c x" using ab(2) others [OF 2(2)] by simp
      then have "x \<in> lz_alloc s" by (rule al)
      moreover have "x' \<notin> lz_alloc s" using ab(3) 2(1) new by blast
      ultimately show ?thesis by blast
    next
      case 3
      have "lz_pc s a = LNew k v p c x" "lz_pc s b = LNew k' v' p' c' x'" using ab(2,3) others [OF 3(1)] others [OF 3(2)] by simp_all
      then show ?thesis by (rule lz_invD(6) [OF inv ab(1)])
    qed
  qed
qed


text \<open>A new node.\<close>

lemma lz_inv_new:
  assumes inv: "lz_inv s" and pc: "lz_pc s t = LOk op p c" and op: "op = Insert k v" and ne: "key_of s c \<noteq> k" and x: "x \<noteq> NULL" "x \<notin> lz_alloc s"
  shows "lz_inv (lz_goto t (LNew k v p c x) ((lz_write x (\<lambda>_. new_node k v c) s)\<lparr>lz_alloc := insert x (lz_alloc s)\<rparr>))" (is "lz_inv ?s")
proof -
  have act: "lz_pc s t \<noteq> LIdle" using pc by simp
  have ok: "list_ok s" using lz_invD(1) [OF inv] .
  have P: "located s t op p c" "\<not> marked_of s p" "next_of s p = c" "\<not> marked_of s c" using lz_invD(2) [OF inv, of t] pc by (auto simp: pc_ok_def)
  note V = validated [OF inv act P(1,2,3)]
  have xp: "x \<notin> lz_pub s" "x \<notin> lz_in s" using ok x by (auto simp: list_ok_def shape_ok_def)
  have sub: "lz_in s \<subseteq> lz_pub s" "lz_head s \<in> lz_in s" "lz_tail s \<in> lz_in s" using ok by (auto simp: list_ok_def shape_ok_def)
  have m: "lz_mem ?s y = lz_mem s y" if "y \<noteq> x" for y using that by simp
  have mp: "lz_mem ?s y = lz_mem s y" if "y \<in> lz_pub s" for y using that xp by auto
  have mi: "lz_mem ?s y = lz_mem s y" if "y \<in> lz_in s" for y using that xp by auto
  have inj: "inj_on (key_of ?s) (lz_in s) = inj_on (key_of s) (lz_in s)" by (rule inj_on_cong) (simp add: mi del: lz_goto_simps(1))
  have ok': "list_ok ?s"
    using ok mp mi sub x inj unfolding list_ok_def shape_ok_def links_ok_def pub_ok_def abs_ok_def retired_ok_def
    by (simp del: fun_upd_apply) auto
  have keep: "hist_ok ?s u" if "lz_pc s u \<noteq> LIdle" for u
  proof -
    have h: "hist_ok s u" using lz_invD(3) [OF inv that] .
    have "y \<noteq> x" if "y \<in> lz_since s u" for y using hist_pub [OF h] that xp by auto
    then show ?thesis using h unfolding hist_ok_def gap_def by (auto split: if_splits) 
  qed
  have lock: "lock_of s x = None"
  proof (rule ccontr)
    assume "lock_of s x \<noteq> None"
    then obtain u where "lock_of s x = Some u" by blast
    then have hx: "x \<in> holds (lz_pc s u)" using lz_invD(4) [OF inv] by simp
    then have "lz_pc s u \<noteq> LIdle" by auto
    from hist_pub [OF lz_invD(3) [OF inv this]] hx lz_invD(2) [OF inv, of u] xp(1) show False
      by (cases "lz_pc s u") (auto simp: pc_ok_def located_def window_def split: if_splits)
  qed
  show ?thesis
  proof (rule lz_inv_write [OF inv ok', of t])
    have "located ?s t op p c"
      by (rule located_keep [OF P(1)]) (use hist_pub [OF lz_invD(3) [OF inv act]] xp in auto)
    moreover have "p \<noteq> x" "c \<noteq> x" using V xp by auto
    ultimately show "pc_ok ?s t (lz_pc ?s t)" using P V(4,5) op ne x xp by (auto simp: pc_ok_def)
    show "holds (lz_pc ?s t) = holds (lz_pc s t)" using pc op by (simp add: is_erase_def)
    show "lock_of ?s y = lock_of s y" for y using lock by (simp add: new_node_def)
    show "\<exists>p. p \<in> lz_in s \<and> p \<noteq> lz_tail s \<and> p \<in> holds (lz_pc s t) \<and> next_of s p = y" if "\<not> marked_of s y" "marked_of ?s y" for y
      using that by (auto simp: new_node_def split: if_splits)
    show "y \<in> lz_alloc ?s - lz_pub ?s \<and> lz_mem ?s y = lz_mem s y" if "u \<noteq> t" "lz_pc s u = LNew k' v' p' c' y" for u k' v' p' c' y
      using lz_invD(2) [OF inv, of u] that x by (auto simp: pc_ok_def)
    show "(\<exists>k p v nx. lz_pc ?s t = LMarked k p y v nx) \<or> y \<in> lz_in s \<and> marked_of s y \<and> (\<forall>k p v nx. lz_pc s t \<noteq> LMarked k p y v nx)"
      if "y \<in> lz_in ?s" "marked_of ?s y" for y using that xp pc by (auto split: if_splits)
  qed (use keep act x xp in auto)
qed


lemma abs_gap_none:
  assumes "list_ok s" and "p \<in> lz_in s" and "p \<noteq> lz_tail s" and "key_of s p < k" and "k < key_of s (next_of s p)"
  shows "lz_abs s k = None"
  using gap_now(1) [OF assms(1-3)] assms(4,5) by (simp add: gap_def)

text \<open>Linking the new node in: the linearization point of an insertion.\<close>

lemma list_ok_link:
  assumes ok: "list_ok s" and p: "p \<in> lz_in s" "p \<noteq> lz_tail s" "next_of s p = c" and x: "x \<in> lz_alloc s" "x \<notin> lz_pub s"
    and n: "lz_mem s x = new_node k v c" and k: "key_of s p < k" "k < key_of s c" "lz_min s < k" "k < lz_max s"
    and mem: "\<And>y. key_of s' y = key_of s y \<and> val_of s' y = val_of s y \<and> marked_of s' y = marked_of s y
        \<and> next_of s' y = (if y = p then x else next_of s y)"
    and f: "lz_in s' = insert x (lz_in s)" "lz_pub s' = insert x (lz_pub s)" "lz_abs s' = (lz_abs s)(k \<mapsto> v)" "lz_head s' = lz_head s"
      "lz_tail s' = lz_tail s" "lz_min s' = lz_min s" "lz_max s' = lz_max s" "lz_alloc s' = lz_alloc s" "lz_retired s' = lz_retired s"
  shows "list_ok s'"
proof -
  have xk: "key_of s x = k" "val_of s x = v" "next_of s x = c" "\<not> marked_of s x" using n by (simp_all add: new_node_def)
  have xi: "x \<notin> lz_in s" "x \<noteq> p" "x \<noteq> lz_head s" "x \<noteq> lz_tail s"
    using ok x(2) p(1) by (auto simp: list_ok_def shape_ok_def)
  have c: "c \<in> lz_in s" using gap_now(2) [OF ok p(1,2)] p(3) by simp
  have nb: "key_of s y \<le> key_of s p \<or> key_of s c \<le> key_of s y" if "y \<in> lz_in s" for y
    using ok p that by (auto simp: list_ok_def links_ok_def)
  have nk: "key_of s y \<noteq> k" if "y \<in> lz_in s" for y using nb [OF that] k by auto
  have "shape_ok s'" using ok x f by (simp add: list_ok_def shape_ok_def mem) auto
  moreover have "links_ok s'"
  proof -
    have "inj_on (key_of s) (lz_in s)" using ok by (simp add: list_ok_def links_ok_def)
    moreover have "k \<notin> key_of s ` lz_in s" using nk by auto
    ultimately have "inj_on (key_of s) (insert x (lz_in s))" using xk(1) xi(1) by simp
    then have "inj_on (key_of s') (lz_in s')" by (simp add: f mem inj_on_def)
    moreover have "next_of s' y \<in> lz_in s' \<and> key_of s' y < key_of s' (next_of s' y)
        \<and> (\<forall>z\<in>lz_in s'. key_of s' z \<le> key_of s' y \<or> key_of s' (next_of s' y) \<le> key_of s' z)"
      if y: "y \<in> lz_in s'" "y \<noteq> lz_tail s'" for y
    proof -
      consider "y = p" | "y = x" | "y \<noteq> p" "y \<noteq> x" "y \<in> lz_in s" using y f by auto
      then show ?thesis
      proof cases
        case 1
        have "key_of s z \<le> key_of s p \<or> k \<le> key_of s z" if "z = x \<or> z \<in> lz_in s" for z
          using that
        proof
          assume "z \<in> lz_in s"
          then show ?thesis using nb [of z] k(2) by linarith
        qed (simp add: xk)
        then show ?thesis using 1 k(1) xk(1) unfolding f(1) by (simp add: mem)
      next
        case 2
        have "key_of s z \<le> k \<or> key_of s c \<le> key_of s z" if "z = x \<or> z \<in> lz_in s" for z
          using that
        proof
          assume "z \<in> lz_in s"
          then show ?thesis using nb [of z] k(1) by linarith
        qed (simp add: xk)
        then show ?thesis using 2 k(2) xk(1,3) xi(2) c unfolding f(1) by (simp add: mem)
      next
        case 3
        then have l: "next_of s y \<in> lz_in s" "key_of s y < key_of s (next_of s y)"
          "\<And>z. z \<in> lz_in s \<Longrightarrow> key_of s z \<le> key_of s y \<or> key_of s (next_of s y) \<le> key_of s z"
          using ok y f by (auto simp: list_ok_def links_ok_def)
        have "key_of s y \<le> key_of s p \<or> key_of s c \<le> key_of s y" using nb 3 by blast
        moreover have "key_of s y < key_of s p \<Longrightarrow> key_of s (next_of s y) \<le> key_of s p" using l(3) [OF p(1)] by auto
        moreover have "key_of s y = key_of s p \<Longrightarrow> False"
          using 3 p(1) ok by (auto simp: list_ok_def links_ok_def inj_on_def)
        ultimately have "k \<le> key_of s y \<or> key_of s (next_of s y) \<le> k" using k by force
        then show ?thesis using l 3 f mem xk by auto
      qed
    qed
    ultimately show ?thesis by (simp add: links_ok_def)
  qed
  moreover have "pub_ok s'" using ok k xk by (auto simp: list_ok_def pub_ok_def f mem)
  moreover have "abs_ok s'"
    unfolding abs_ok_def
  proof (intro allI)
    fix i w
    have o: "lz_abs s i = Some w \<longleftrightarrow> (\<exists>y\<in>lz_in s. \<not> marked_of s y \<and> y \<noteq> lz_head s \<and> y \<noteq> lz_tail s \<and> key_of s y = i \<and> val_of s y = w)"
      using ok by (simp add: list_ok_def abs_ok_def)
    show "lz_abs s' i = Some w \<longleftrightarrow> (\<exists>y\<in>lz_in s'. \<not> marked_of s' y \<and> y \<noteq> lz_head s' \<and> y \<noteq> lz_tail s' \<and> key_of s' y = i \<and> val_of s' y = w)"
      using o nk xk xi by (cases "i = k") (auto simp: f mem)
  qed
  moreover have "retired_ok s'" using ok x(2) by (auto simp: list_ok_def retired_ok_def f)
  ultimately show ?thesis by (simp add: list_ok_def)
qed

lemma lz_inv_link:
  assumes inv: "lz_inv s" and pc: "lz_pc s t = LNew k v p c x"
  shows "lz_inv (lz_observe (lz_goto t (LRel (Insert k v) p None (Some None))
      (lz_lin t ((lz_abs s)(k \<mapsto> v)) ((lz_write p (\<lambda>n. n\<lparr>n_next := x\<rparr>) s)\<lparr>lz_in := insert x (lz_in s), lz_pub := insert x (lz_pub s)\<rparr>))))" (is "lz_inv ?s")
proof -
  have act: "lz_pc s t \<noteq> LIdle" using pc by simp
  have ok: "list_ok s" and h: "hist_ok s t" using lz_invD(1,3) [OF inv] act by blast+
  have P: "located s t (Insert k v) p c" "\<not> marked_of s p" "next_of s p = c" "\<not> marked_of s c" "k < key_of s c"
    "x \<in> lz_alloc s" "x \<notin> lz_pub s" "lz_mem s x = new_node k v c"
    using lz_invD(2) [OF inv, of t] pc by (auto simp: pc_ok_def)
  note V = validated [OF inv act P(1,2,3)]
  define s' where s': "s' = ?s"
  have f: "lz_in s' = insert x (lz_in s)" "lz_pub s' = insert x (lz_pub s)" "lz_abs s' = (lz_abs s)(k \<mapsto> v)" "lz_head s' = lz_head s"
      "lz_tail s' = lz_tail s" "lz_min s' = lz_min s" "lz_max s' = lz_max s" "lz_alloc s' = lz_alloc s" "lz_retired s' = lz_retired s"
      "lz_hist s' u = insert (lz_abs s') (lz_hist s u)" "lz_since s' u = lz_since s u \<union> lz_in s'"
      "lz_pc s' = (lz_pc s)(t := LRel (Insert k v) p None (Some None))" "lz_lp s' = (lz_lp s)(t := Some (lz_abs s, lz_abs s'))" for u
    by (simp_all add: s' lz_observe_def lz_lin_def)
  have mem: "key_of s' y = key_of s y \<and> val_of s' y = val_of s y \<and> marked_of s' y = marked_of s y
        \<and> next_of s' y = (if y = p then x else next_of s y)" "lock_of s' y = lock_of s y" "y \<noteq> p \<Longrightarrow> lz_mem s' y = lz_mem s y" for y
    by (simp_all add: s' lz_observe_def lz_lin_def)
  have k: "key_of s p < k" "lz_min s < k" "k < lz_max s" using V by simp_all
  have ok': "list_ok s'" by (rule list_ok_link [OF ok V(1,2) P(3,6,7,8) k(1) P(5) k(2,3) mem(1) f(1-9)])
  have none: "lz_abs s k = None" by (rule abs_gap_none [OF ok V(1,2) k(1)]) (use P in simp)
  have hist: "hist_ok s' u" if "lz_pc s u \<noteq> LIdle" for u
    by (rule hist_observe [OF ok' lz_invD(3) [OF inv that] f(10,11)]) (use f mem V(1) in auto)
  have "lz_inv s'"
  proof (rule lz_inv_write [OF inv ok', of t])
    have "p \<in> lz_since s' t" using P(1) f(11) by (auto simp: located_def window_def)
    moreover have "lz_abs s \<in> lz_hist s' t" using h f(10) by (auto simp: hist_ok_def)
    ultimately show "pc_ok s' t (lz_pc s' t)"
      using none k f by (simp add: pc_ok_def op_ok_def result_ok_def)
    show "holds (lz_pc s' t) = holds (lz_pc s t)" using pc f by simp
    show "y \<in> lz_alloc s' - lz_pub s' \<and> lz_mem s' y = lz_mem s y" if "u \<noteq> t" "lz_pc s u = LNew k' v' p' c' y" for u k' v' p' c' y
    proof -
      have "y \<in> lz_alloc s - lz_pub s" using lz_invD(2) [OF inv, of u] that by (simp add: pc_ok_def)
      moreover have "y \<noteq> x" using lz_invD(6) [OF inv that(1) that(2) pc] .
      moreover have "y \<noteq> p" using calculation(1) V(9) by auto
      ultimately show ?thesis using f mem(3) by auto
    qed
    show "(\<exists>k p v nx. lz_pc s' t = LMarked k p y v nx) \<or> y \<in> lz_in s \<and> marked_of s y \<and> (\<forall>k p v nx. lz_pc s t \<noteq> LMarked k p y v nx)"
      if "y \<in> lz_in s'" "marked_of s' y" for y using that f(1) mem(1) P(8) pc by (auto simp: new_node_def)
    show "next_of s' y = next_of s y \<and> marked_of s' y = marked_of s y \<and> (y \<in> lz_in s \<longrightarrow> y \<in> lz_in s')"
      if "y \<notin> holds (lz_pc s t)" for y using that pc f(1) mem(1) by auto
  qed (use hist act f mem in \<open>auto split: if_splits\<close>)
  then show ?thesis by (simp only: s')
qed


text \<open>Marking a node: the linearization point of a removal.\<close>

lemma list_ok_mark:
  assumes ok: "list_ok s" and c: "c \<in> lz_in s" "c \<noteq> lz_head s" "c \<noteq> lz_tail s"
    and mem: "\<And>y. key_of s' y = key_of s y \<and> val_of s' y = val_of s y \<and> next_of s' y = next_of s y
        \<and> marked_of s' y = (y = c \<or> marked_of s y)"
    and f: "lz_in s' = lz_in s" "lz_pub s' = lz_pub s" "lz_abs s' = (lz_abs s)(key_of s c := None)" "lz_head s' = lz_head s"
      "lz_tail s' = lz_tail s" "lz_min s' = lz_min s" "lz_max s' = lz_max s" "lz_alloc s' = lz_alloc s" "lz_retired s' = lz_retired s"
  shows "list_ok s'"
proof -
  have inj: "inj_on (key_of s) (lz_in s)" using ok by (simp add: list_ok_def links_ok_def)
  have "abs_ok s'"
    unfolding abs_ok_def
  proof (intro allI)
    fix i w
    have o: "lz_abs s i = Some w \<longleftrightarrow> (\<exists>y\<in>lz_in s. \<not> marked_of s y \<and> y \<noteq> lz_head s \<and> y \<noteq> lz_tail s \<and> key_of s y = i \<and> val_of s y = w)"
      using ok by (simp add: list_ok_def abs_ok_def)
    have u: "y = c" if "y \<in> lz_in s" "key_of s y = key_of s c" for y using inj_onD [OF inj that(2,1) c(1)] .
    show "lz_abs s' i = Some w \<longleftrightarrow> (\<exists>y\<in>lz_in s'. \<not> marked_of s' y \<and> y \<noteq> lz_head s' \<and> y \<noteq> lz_tail s' \<and> key_of s' y = i \<and> val_of s' y = w)"
    proof (cases "i = key_of s c")
      case True
      then show ?thesis using u by (auto simp: f mem)
    next
      case False
      then show ?thesis by (auto simp: f mem o)
    qed
  qed
  then show ?thesis
    using ok c unfolding list_ok_def shape_ok_def links_ok_def pub_ok_def retired_ok_def inj_on_def by (simp add: f mem)
qed

lemma lz_inv_mark:
  assumes inv: "lz_inv s" and pc: "lz_pc s t = LOk op p c" and op: "op = Erase k"
  shows "lz_inv (lz_observe (lz_goto t (LMarked k p c (val_of s c) (next_of s c))
      (lz_lin t ((lz_abs s)(k := None)) (lz_write c (\<lambda>n. n\<lparr>n_marked := True\<rparr>) s))))" (is "lz_inv ?s")
proof -
  have act: "lz_pc s t \<noteq> LIdle" using pc by simp
  have ok: "list_ok s" and h: "hist_ok s t" using lz_invD(1,3) [OF inv] act by blast+
  have P: "located s t (Erase k) p c" "\<not> marked_of s p" "next_of s p = c" "\<not> marked_of s c"
    using lz_invD(2) [OF inv, of t] pc op by (auto simp: pc_ok_def)
  note V = validated [OF inv act P(1,2,3)]
  have k: "key_of s c = k" "lz_min s < k" "k < lz_max s" using P(1) V by (auto simp: located_def)
  have cs: "lz_abs s k = Some (val_of s c)" "c \<noteq> lz_head s" "c \<noteq> lz_tail s"
    using abs_unmarked [OF ok V(10) P(4)] k by auto
  define s' where s': "s' = ?s"
  have f: "lz_in s' = lz_in s" "lz_pub s' = lz_pub s" "lz_abs s' = (lz_abs s)(key_of s c := None)" "lz_head s' = lz_head s"
      "lz_tail s' = lz_tail s" "lz_min s' = lz_min s" "lz_max s' = lz_max s" "lz_alloc s' = lz_alloc s" "lz_retired s' = lz_retired s"
      "lz_hist s' u = insert (lz_abs s') (lz_hist s u)" "lz_since s' u = lz_since s u \<union> lz_in s'"
      "lz_pc s' = (lz_pc s)(t := LMarked k p c (val_of s c) (next_of s c))" "lz_lp s' = (lz_lp s)(t := Some (lz_abs s, lz_abs s'))" for u
    by (simp_all add: s' lz_observe_def lz_lin_def k)
  have mem: "key_of s' y = key_of s y \<and> val_of s' y = val_of s y \<and> next_of s' y = next_of s y
        \<and> marked_of s' y = (y = c \<or> marked_of s y)" "lock_of s' y = lock_of s y" "y \<noteq> c \<Longrightarrow> lz_mem s' y = lz_mem s y" for y
    by (simp_all add: s' lz_observe_def lz_lin_def)
  have ok': "list_ok s'" by (rule list_ok_mark [OF ok V(3) cs(2,3) mem(1) f(1-9)])
  have hist: "hist_ok s' u" if "lz_pc s u \<noteq> LIdle" for u
    by (rule hist_observe [OF ok' lz_invD(3) [OF inv that] f(10,11)]) (use f mem V(3) in auto)
  have L: "located s' t (Erase k) p c"
    by (rule located_keep [OF P(1)]) (use hist_pub [OF h] f mem in auto)
  have "lz_inv s'"
  proof (rule lz_inv_write [OF inv ok', of t])
    have "lz_abs s \<in> lz_hist s' t" using h f(10) by (auto simp: hist_ok_def)
    then have "result_ok s' t (Erase k) (Some (val_of s c))" using cs(1) f k by (simp add: result_ok_def)
    then show "pc_ok s' t (lz_pc s' t)" using L P V mem f by (simp add: pc_ok_def)
    show "holds (lz_pc s' t) = holds (lz_pc s t)" using pc f op by (simp add: is_erase_def)
    show "\<exists>q. q \<in> lz_in s \<and> q \<noteq> lz_tail s \<and> q \<in> holds (lz_pc s t) \<and> next_of s q = y" if "\<not> marked_of s y" "marked_of s' y" for y
      using that mem(1) V P(3) pc op by (auto simp: is_erase_def)
    show "y \<in> lz_alloc s' - lz_pub s' \<and> lz_mem s' y = lz_mem s y" if "u \<noteq> t" "lz_pc s u = LNew k' v' p' c' y" for u k' v' p' c' y
      using lz_invD(2) [OF inv, of u] that f mem(3) [of y] V(10) by (auto simp: pc_ok_def)
    show "(\<exists>k p v nx. lz_pc s' t = LMarked k p y v nx) \<or> y \<in> lz_in s \<and> marked_of s y \<and> (\<forall>k p v nx. lz_pc s t \<noteq> LMarked k p y v nx)"
      if "y \<in> lz_in s'" "marked_of s' y" for y using that f mem(1) pc by auto
    show "next_of s' y = next_of s y \<and> marked_of s' y = marked_of s y \<and> (y \<in> lz_in s \<longrightarrow> y \<in> lz_in s')"
      if "y \<notin> holds (lz_pc s t)" for y using that pc op f(1) mem(1) by (auto simp: is_erase_def)
  qed (use hist act f mem in \<open>auto split: if_splits\<close>)
  then show ?thesis by (simp only: s')
qed

text \<open>Unlinking the marked node and retiring it.\<close>

lemma list_ok_unlink:
  assumes ok: "list_ok s" and p: "p \<in> lz_in s" "p \<noteq> lz_tail s" "next_of s p = c" and c: "c \<noteq> lz_head s" "c \<noteq> lz_tail s" "marked_of s c"
    and mem: "\<And>y. key_of s' y = key_of s y \<and> val_of s' y = val_of s y \<and> marked_of s' y = marked_of s y
        \<and> next_of s' y = (if y = p then next_of s c else next_of s y)"
    and f: "lz_in s' = lz_in s - {c}" "lz_pub s' = lz_pub s" "lz_abs s' = lz_abs s" "lz_head s' = lz_head s"
      "lz_tail s' = lz_tail s" "lz_min s' = lz_min s" "lz_max s' = lz_max s" "lz_alloc s' = lz_alloc s" "lz_retired s' = c # lz_retired s"
  shows "list_ok s'"
proof -
  have ci: "c \<in> lz_in s" "key_of s p < key_of s c" using gap_now(2,3) [OF ok p(1,2)] p(3) by simp_all
  note cn = gap_now(2,3) [OF ok ci(1) c(2)]
  have inj: "inj_on (key_of s) (lz_in s)" using ok by (simp add: list_ok_def links_ok_def)
  have l: "\<And>y z. y \<in> lz_in s \<Longrightarrow> y \<noteq> lz_tail s \<Longrightarrow> z \<in> lz_in s \<Longrightarrow> key_of s z \<le> key_of s y \<or> key_of s (next_of s y) \<le> key_of s z"
    using ok by (auto simp: list_ok_def links_ok_def)
  have "next_of s' y \<in> lz_in s' \<and> key_of s' y < key_of s' (next_of s' y)
        \<and> (\<forall>z\<in>lz_in s'. key_of s' z \<le> key_of s' y \<or> key_of s' (next_of s' y) \<le> key_of s' z)"
    if y: "y \<in> lz_in s'" "y \<noteq> lz_tail s'" for y
  proof (cases "y = p")
    case True
    have "key_of s z \<le> key_of s p \<or> key_of s (next_of s c) \<le> key_of s z" if z: "z \<in> lz_in s" "z \<noteq> c" for z
    proof -
      have "key_of s z \<noteq> key_of s c" using inj_onD [OF inj _ z(1) ci(1)] z(2) by blast
      then show ?thesis using l [OF p(1,2) z(1)] l [OF ci(1) c(2) z(1)] p(3) by force
    qed
    then show ?thesis using True cn ci(2) f mem by auto
  next
    case False
    have yi: "y \<in> lz_in s" "y \<noteq> lz_tail s" using y f by auto
    have "next_of s y \<noteq> c" using unique_pred [OF ok yi(1) p(1) yi(2) p(2)] p(3) False by auto
    then show ?thesis using False gap_now(2,3) [OF ok yi] l [OF yi] f mem by auto
  qed
  moreover have "inj_on (key_of s') (lz_in s')" using inj by (auto simp: inj_on_def f mem)
  ultimately have "links_ok s'" by (simp add: links_ok_def)
  moreover have "abs_ok s'" using ok c(3) unfolding list_ok_def abs_ok_def f by (simp add: mem) blast
  moreover have "shape_ok s'" using ok c by (simp add: list_ok_def shape_ok_def f mem) blast
  moreover have "pub_ok s'" using ok c(3) by (simp add: list_ok_def pub_ok_def f mem) blast
  moreover have "retired_ok s'"
    using ok ci(1) by (auto simp: list_ok_def retired_ok_def shape_ok_def f)
  ultimately show ?thesis by (simp add: list_ok_def)
qed

lemma lz_inv_unlink:
  assumes inv: "lz_inv s" and pc: "lz_pc s t = LMarked k p c v nx"
  shows "lz_inv (lz_goto t (LRel (Erase k) p (Some c) (Some (Some v)))
      ((lz_write p (\<lambda>n. n\<lparr>n_next := nx\<rparr>) s)\<lparr>lz_in := lz_in s - {c}, lz_retired := c # lz_retired s\<rparr>))" (is "lz_inv ?s")
proof -
  have act: "lz_pc s t \<noteq> LIdle" using pc by simp
  have ok: "list_ok s" and h: "hist_ok s t" using lz_invD(1,3) [OF inv] act by blast+
  have P: "located s t (Erase k) p c" "\<not> marked_of s p" "next_of s p = c" "c \<in> lz_in s" "marked_of s c" "next_of s c = nx"
    "result_ok s t (Erase k) (Some v)"
    using lz_invD(2) [OF inv, of t] pc by (auto simp: pc_ok_def)
  note V = validated [OF inv act P(1,2,3)]
  have cs: "c \<noteq> lz_head s" "c \<noteq> lz_tail s" using P(5) ok by (auto simp: list_ok_def shape_ok_def)
  define s' where s': "s' = ?s"
  have f: "lz_in s' = lz_in s - {c}" "lz_pub s' = lz_pub s" "lz_abs s' = lz_abs s" "lz_head s' = lz_head s"
      "lz_tail s' = lz_tail s" "lz_min s' = lz_min s" "lz_max s' = lz_max s" "lz_alloc s' = lz_alloc s" "lz_retired s' = c # lz_retired s"
      "lz_hist s' = lz_hist s" "lz_since s' = lz_since s" "lz_lp s' = lz_lp s"
      "lz_pc s' = (lz_pc s)(t := LRel (Erase k) p (Some c) (Some (Some v)))"
    by (simp_all add: s')
  have mem: "key_of s' y = key_of s y \<and> val_of s' y = val_of s y \<and> marked_of s' y = marked_of s y
        \<and> next_of s' y = (if y = p then next_of s c else next_of s y)" "lock_of s' y = lock_of s y" "y \<noteq> p \<Longrightarrow> lz_mem s' y = lz_mem s y" for y
    using P(6) by (simp_all add: s')
  have ok': "list_ok s'" by (rule list_ok_unlink [OF ok V(1,2) P(3) cs P(5) mem(1) f(1-9)])
  have pi: "p \<in> lz_in s'" using V f by simp
  have hist: "hist_ok s' u" if "lz_pc s u \<noteq> LIdle" for u
  proof -
    have hu: "hist_ok s u" using lz_invD(3) [OF inv that] .
    have g: "next_of s' y \<in> lz_since s' u \<and> (\<exists>A\<in>lz_hist s' u. gap s' A y (next_of s' y))" if "y \<in> lz_since s' u" "y \<noteq> lz_tail s'" for y
    proof (cases "y = p")
      case True
      then show ?thesis using gap_now(1,2) [OF ok' pi] V(2) hu f by (auto simp: hist_ok_def)
    next
      case False
      then show ?thesis using hu that f mem by (auto simp: hist_ok_def gap_def)
    qed
    show ?thesis using hu g f mem by (auto simp: hist_ok_def)
  qed
  have "lz_inv s'"
  proof (rule lz_inv_write [OF inv ok', of t])
    have "p \<in> lz_since s t" "c \<in> lz_since s t" using P(1) by (auto simp: located_def window_def)
    then show "pc_ok s' t (lz_pc s' t)" using P(7) V f by (simp add: pc_ok_def op_ok_def result_ok_def)
    show "holds (lz_pc s' t) = holds (lz_pc s t)" using pc f by auto
    show "y \<in> lz_alloc s' - lz_pub s' \<and> lz_mem s' y = lz_mem s y" if "u \<noteq> t" "lz_pc s u = LNew k' v' p' c' y" for u k' v' p' c' y
      using lz_invD(2) [OF inv, of u] that f mem(3) [of y] V(9) by (auto simp: pc_ok_def)
    show "(\<exists>k p v nx. lz_pc s' t = LMarked k p y v nx) \<or> y \<in> lz_in s \<and> marked_of s y \<and> (\<forall>k p v nx. lz_pc s t \<noteq> LMarked k p y v nx)"
      if "y \<in> lz_in s'" "marked_of s' y" for y using that f mem(1) pc by auto
    show "next_of s' y = next_of s y \<and> marked_of s' y = marked_of s y \<and> (y \<in> lz_in s \<longrightarrow> y \<in> lz_in s')"
      if "y \<notin> holds (lz_pc s t)" for y using that pc f(1) mem(1) by auto
  qed (use hist act f mem in \<open>auto split: if_splits\<close>)
  then show ?thesis by (simp only: s')
qed


subsection \<open>All steps\<close>

lemma lz_inv_call:
  assumes inv: "lz_inv s" and pc: "lz_pc s t = LIdle" and k: "lz_min s < op_key op" "op_key op < lz_max s"
  shows "lz_inv (lz_goto t (LBegin op) (s\<lparr>lz_hist := (lz_hist s)(t := {lz_abs s}), lz_since := (lz_since s)(t := lz_in s),
       lz_lp := (lz_lp s)(t := None)\<rparr>))"
proof -
  define s' where "s' = lz_goto t (LBegin op) (s\<lparr>lz_hist := (lz_hist s)(t := {lz_abs s}), lz_since := (lz_since s)(t := lz_in s),
       lz_lp := (lz_lp s)(t := None)\<rparr>)"
  have f: "lz_mem s' = lz_mem s" "lz_head s' = lz_head s" "lz_tail s' = lz_tail s" "lz_min s' = lz_min s" "lz_max s' = lz_max s"
    "lz_alloc s' = lz_alloc s" "lz_in s' = lz_in s" "lz_pub s' = lz_pub s" "lz_retired s' = lz_retired s" "lz_abs s' = lz_abs s"
    "lz_pc s' = (lz_pc s)(t := LBegin op)"
    "lz_hist s' = (lz_hist s)(t := {lz_abs s})" "lz_since s' = (lz_since s)(t := lz_in s)" "lz_lp s' = (lz_lp s)(t := None)"
    by (simp_all add: s'_def)
  have ok: "list_ok s" using lz_invD(1) [OF inv] .
  have g: "gap s' A x y = gap s A x y" for A x y by (simp add: gap_def f)
  have list: "list_ok s'" using ok by (simp add: list_ok_def shape_ok_def links_ok_def pub_ok_def abs_ok_def retired_ok_def f)
  have "lz_in s \<subseteq> lz_pub s" using ok by (simp add: list_ok_def shape_ok_def)
  then have ht: "hist_ok s' t" using gap_now(1,2) [OF ok] abs_marked [OF ok] by (simp add: hist_ok_def g f)
  have hu: "hist_ok s' u" if "u \<noteq> t" "lz_pc s u \<noteq> LIdle" for u
    using lz_invD(3) [OF inv that(2)] that(1) by (simp add: hist_ok_def g f)
  have pu: "pc_ok s' u (lz_pc s u)" if u: "u \<noteq> t" for u
  proof (cases "lz_pc s u = LIdle")
    case True
    then show ?thesis by (simp add: pc_ok_def)
  next
    case False
    show ?thesis
      by (rule lz_pc_keep [OF lz_invD(2) [OF inv]])
        (use u f hist_pub [OF lz_invD(3) [OF inv False]] lz_invD(2) [OF inv, of u] in \<open>auto simp: pc_ok_def\<close>)
  qed
  have pt: "pc_ok s' t (LBegin op)" using k by (simp add: pc_ok_def op_ok_def f)
  have pcs: "lz_pc s' u = lz_pc s u \<or> u = t \<and> lz_pc s' u = LBegin op" for u by (simp add: f(11))
  have a: "\<forall>u. pc_ok s' u (lz_pc s' u) \<and> (lz_pc s' u \<noteq> LIdle \<longrightarrow> hist_ok s' u)"
    using pu pt ht hu by (simp add: f(11))
  have b: "\<forall>x u. (lock_of s' x = Some u) = (x \<in> holds (lz_pc s' u))"
    using lz_invD(4) [OF inv] pc by (simp add: f(1,11))
  have marked: "\<forall>x\<in>lz_in s'. marked_of s' x \<longrightarrow> (\<exists>t k p v nx. lz_pc s' t = LMarked k p x v nx)"
  proof (intro ballI impI)
    fix x assume "x \<in> lz_in s'" "marked_of s' x"
    then obtain u k p v nx where u: "lz_pc s u = LMarked k p x v nx" using lz_invD(5) [OF inv, of x] f by auto
    then have "lz_pc s' u = LMarked k p x v nx" using pc by (auto simp: f(11))
    then show "\<exists>t k p v nx. lz_pc s' t = LMarked k p x v nx" by blast
  qed
  have new: "x \<noteq> x'" if "a \<noteq> b" "lz_pc s' a = LNew k v p c x" "lz_pc s' b = LNew k' v' p' c' x'" for a b k v p c x k' v' p' c' x'
  proof -
    have "lz_pc s a = LNew k v p c x" "lz_pc s b = LNew k' v' p' c' x'" using pcs [of a] pcs [of b] that by auto
    then show ?thesis by (rule lz_invD(6) [OF inv that(1)])
  qed
  have "lz_inv s'" unfolding lz_inv_def using list a b marked new by blast
  then show ?thesis by (simp only: s'_def)
qed

text \<open>The result of a traversal that ends without taking a lock.\<close>

lemma search_result:
  assumes ok: "list_ok s" and h: "hist_ok s t" and w: "window s t op p c" and k: "op_key op \<le> key_of s c"
  shows "key_of s c \<noteq> op_key op \<Longrightarrow> \<exists>A\<in>lz_hist s t. A (op_key op) = None"
    and "\<exists>A\<in>lz_hist s t. A (op_key op) = lz_result s op c"
proof -
  have cp: "c \<in> lz_pub s" "c \<in> lz_since s t" and o: "lz_min s < op_key op" "op_key op < lz_max s" "key_of s p < op_key op"
    using w h by (auto simp: window_def op_ok_def hist_ok_def)
  show n: "\<exists>A\<in>lz_hist s t. A (op_key op) = None" if "key_of s c \<noteq> op_key op"
    using w k o(3) that by (fastforce simp: window_def gap_def)
  show "\<exists>A\<in>lz_hist s t. A (op_key op) = lz_result s op c"
  proof (cases "key_of s c = op_key op")
    case False
    then show ?thesis using n by (simp add: lz_result_def)
  next
    case True
    show ?thesis
    proof (cases "marked_of s c")
      case False
      then have "lz_abs s (op_key op) = Some (val_of s c)" using abs_unmarked(4) [OF ok cp(1) False] True o by simp
      then show ?thesis using h True False by (auto simp: lz_result_def hist_ok_def)
    next
      case marked: True
      then have "\<exists>A\<in>lz_hist s t. A (key_of s c) = None" using h cp(2) by (auto simp: hist_ok_def)
      then show ?thesis using True marked by (simp add: lz_result_def)
    qed
  qed
qed

lemma lz_inv_begin:
  assumes inv: "lz_inv s" and pc: "lz_pc s t = LBegin op" and c: "c = lz_head s \<or> c = next_of s (lz_head s)"
  shows "lz_inv (lz_goto t (LTrav op (lz_head s) c) s)"
proof (rule lz_inv_goto [OF inv])
  have ok: "list_ok s" using lz_invD(1) [OF inv] .
  have h: "hist_ok s t" using lz_invD(3) [OF inv, of t] pc by simp
  have o: "op_ok s op" using lz_invD(2) [OF inv, of t] pc by (simp add: pc_ok_def)
  have hd: "lz_head s \<in> lz_in s" "lz_head s \<noteq> lz_tail s" "key_of s (lz_head s) = lz_min s" using ok by (simp_all add: list_ok_def shape_ok_def)
  have since: "lz_in s \<subseteq> lz_since s t" "lz_abs s \<in> lz_hist s t" using h unfolding hist_ok_def by blast+
  note nx = gap_now(1,2) [OF ok hd(1,2)]
  have "gap s (lz_abs s) (lz_head s) c" using c nx(1) by (auto simp: gap_def)
  moreover have "c \<in> lz_since s t" using c since(1) nx(2) hd(1) by blast
  ultimately have "window s t op (lz_head s) c"
    using o hd since unfolding window_def by (metis op_ok_def subsetD)
  then show "pc_ok s t (LTrav op (lz_head s) c)" by (simp add: pc_ok_def)
qed (use pc in auto)

lemma lz_step_inv: "lz_inv s \<Longrightarrow> lz_step s t s' \<Longrightarrow> lz_inv s'"
proof -
  assume inv: "lz_inv s" and st: "lz_step s t s'"
  have ok: "list_ok s" using lz_invD(1) [OF inv] .
  have h: "hist_ok s t" if "lz_pc s t \<noteq> LIdle" using lz_invD(3) [OF inv that] .
  have P: "pc_ok s t (lz_pc s t)" using lz_invD(2) [OF inv] .
  have er: "op = Erase (op_key op) \<longleftrightarrow> is_erase op" for op by (simp add: is_erase_def)
  have fail: "lz_inv (lz_goto t (LRel op p (if is_erase op then Some c else None) None) s)" if v: "lz_pc s t = LVal op n p c" for op n p c
  proof (rule lz_inv_goto [OF inv])
    show "pc_ok s t (LRel op p (if is_erase op then Some c else None) None)"
      using P v by (auto simp: pc_ok_def located_def window_def op_ok_def)
  qed (use v in auto)
  from st show ?thesis
  proof cases
    case (call op)
    then show ?thesis using lz_inv_call [OF inv] by simp
  next
    case (begin_contains op k)
    then show ?thesis using lz_inv_begin [OF inv] by simp
  next
    case (begin_update op)
    then show ?thesis using lz_inv_begin [OF inv] by simp
  next
    case (trav op p c)
    have w: "window s t op p c" using P trav by (simp add: pc_ok_def)
    have "key_of s c < lz_max s" using w trav by (simp add: window_def op_ok_def)
    then have "c \<noteq> lz_tail s" using ok by (auto simp: list_ok_def shape_ok_def)
    then have "window s t op c (next_of s c)" using w h trav by (auto simp: window_def hist_ok_def)
    then show ?thesis unfolding trav(1) by (intro lz_inv_goto [OF inv]) (use trav in \<open>auto simp: pc_ok_def\<close>)
  next
    case (found_contains op p c k)
    have w: "window s t op p c" using P found_contains by (simp add: pc_ok_def)
    have "pc_ok s t (LDone op (lz_result s op c))"
      using search_result(2) [OF ok h w] found_contains by (simp add: pc_ok_def result_ok_def)
    then show ?thesis unfolding found_contains(1) by (intro lz_inv_goto [OF inv]) (use found_contains in auto)
  next
    case (found_insert op p c k v)
    then have "pc_ok s t (LLock op p c)" using P by (simp add: pc_ok_def located_def)
    then show ?thesis unfolding found_insert(1) by (intro lz_inv_goto [OF inv]) (use found_insert in auto)
  next
    case (found_erase op p c k)
    have w: "window s t op p c" using P found_erase by (simp add: pc_ok_def)
    have "pc_ok s t (if key_of s c \<noteq> k then LDone op None else LLock op p c)"
      using search_result(1) [OF ok h w] found_erase w by (auto simp: pc_ok_def result_ok_def located_def)
    then show ?thesis unfolding found_erase(1) by (intro lz_inv_goto [OF inv]) (use found_erase in auto)
  next
    case (lock_pred op p c)
    have l: "located s t op p c" using P lock_pred by (simp add: pc_ok_def)
    have "p \<in> lz_pub s" using located_in_pub [OF l hist_pub [OF h]] lock_pred by simp
    moreover have "pc_ok s t (if is_erase op then LLock2 op p c else LVal op 1 p c)" using l by (simp add: pc_ok_def)
    ultimately show ?thesis
      unfolding lock_pred(1) er by (intro lz_inv_acquire [OF inv]) (use lock_pred in auto)
  next
    case (lock_curr op p c)
    have l: "located s t op p c" "is_erase op" using P lock_curr by (simp_all add: pc_ok_def)
    have "c \<in> lz_pub s" using located_in_pub [OF l(1) hist_pub [OF h]] lock_curr by simp
    then show ?thesis unfolding lock_curr(1) by (intro lz_inv_acquire [OF inv]) (use lock_curr l in \<open>auto simp: pc_ok_def\<close>)
  next
    case (valid1 op p c)
    show ?thesis
    proof (cases "marked_of s p")
      case True
      then show ?thesis using fail [OF valid1(2)] valid1(1) er by simp
    next
      case False
      then show ?thesis using P valid1 by (auto simp: pc_ok_def intro!: lz_inv_goto [OF inv])
    qed
  next
    case (valid2 op p c)
    show ?thesis
    proof (cases "marked_of s c")
      case True
      then show ?thesis using fail [OF valid2(2)] valid2(1) er by simp
    next
      case False
      then show ?thesis using P valid2 by (auto simp: pc_ok_def intro!: lz_inv_goto [OF inv])
    qed
  next
    case (valid3 op p c)
    show ?thesis
    proof (cases "next_of s p = c")
      case False
      then show ?thesis using fail [OF valid3(2)] valid3(1) er by simp
    next
      case True
      then show ?thesis using P valid3 by (auto simp: pc_ok_def intro!: lz_inv_goto [OF inv])
    qed
  next
    case (insert_found op p c k v)
    have l: "located s t op p c" "\<not> marked_of s p" "next_of s p = c" "\<not> marked_of s c" using P insert_found by (simp_all add: pc_ok_def)
    note V = validated [OF inv _ l(1-3)]
    have "lz_abs s k = Some (val_of s c)" using abs_unmarked(4) [OF ok _ l(4)] V insert_found by simp
    then have "pc_ok s t (LRel op p None (Some (Some (val_of s c))))"
      using l h insert_found by (auto simp: pc_ok_def result_ok_def located_def window_def hist_ok_def)
    then show ?thesis unfolding insert_found(1) by (intro lz_inv_goto [OF inv]) (use insert_found in \<open>auto simp: is_erase_def\<close>)
  next
    case (insert_new op p c k v x)
    then show ?thesis using lz_inv_new [OF inv] by blast
  next
    case (insert_link k v p c x)
    then show ?thesis using lz_inv_link [OF inv] by blast
  next
    case (erase_mark op p c k)
    then show ?thesis using lz_inv_mark [OF inv] by blast
  next
    case (erase_unlink k p c v nx)
    then show ?thesis using lz_inv_unlink [OF inv] by blast
  next
    case (release_curr op p c r)
    have "pc_ok s t (LRel op p None r)" "c \<in> lz_pub s" "c \<noteq> p" using P release_curr hist_pub [OF h] by (auto simp: pc_ok_def)
    then show ?thesis unfolding release_curr(1) by (intro lz_inv_release [OF inv]) (use release_curr in auto)
  next
    case (release_pred op p r)
    have "pc_ok s t (case r of None \<Rightarrow> LBegin op | Some res \<Rightarrow> LDone op res)" "p \<in> lz_pub s"
      using P release_pred hist_pub [OF h] by (auto simp: pc_ok_def split: option.splits)
    then show ?thesis unfolding release_pred(1) by (intro lz_inv_release [OF inv]) (use release_pred in \<open>auto split: option.splits\<close>)
  next
    case (return op r)
    then show ?thesis by (auto simp: pc_ok_def intro!: lz_inv_goto [OF inv])
  qed
qed

end
