(* ===== verification/LazyList_Set.thy ===== *)
theory LazyList_Set
  imports LazyList_Steps
begin

text \<open>
  What the lazy list promises: every reachable state satisfies the invariant, so results are those
  of a map at one moment of the operation, only the linearization points change the map, a removed
  node is retired once; the loops over the quiescent list, \<open>debugKeySum\<close>, \<open>getDSSize\<close>
  and the destructor, visit every node once; and a traversal ends whatever the other threads hold.
\<close>

subsection \<open>Reachable states\<close>

lemma lz_inv_new_list:
  assumes lk: "\<forall>x. n_lock (mem x) = None" and k: "KEY_MIN < KEY_MAX" and n: "mx \<noteq> hd_node" "mx \<noteq> NULL" "hd_node \<noteq> NULL"
  shows "lz_inv (lz_new mem mx hd_node KEY_MIN KEY_MAX)" (is "lz_inv ?s")
proof -
  have m: "lz_mem ?s mx = new_node KEY_MAX 0 NULL" "lz_mem ?s hd_node = new_node KEY_MIN 0 mx" using n by (simp_all add: lz_new_def)
  have f: "lz_in ?s = {mx, hd_node}" "lz_pub ?s = {mx, hd_node}" "lz_alloc ?s = {mx, hd_node}" "lz_head ?s = hd_node" "lz_tail ?s = mx"
    "lz_min ?s = KEY_MIN" "lz_max ?s = KEY_MAX" "lz_retired ?s = []" "lz_abs ?s = Map.empty" "lz_pc ?s = (\<lambda>_. LIdle)"
    by (simp_all add: lz_new_def)
  have "shape_ok ?s" "links_ok ?s" "pub_ok ?s" "abs_ok ?s" "retired_ok ?s"
    using k n by (simp_all add: shape_ok_def links_ok_def pub_ok_def abs_ok_def retired_ok_def f m new_node_def)
  then have "list_ok ?s" by (simp add: list_ok_def)
  moreover have "lock_of ?s x = None" for x using lk by (simp add: lz_new_def new_node_def)
  moreover have "\<not> marked_of ?s x" if "x \<in> lz_in ?s" for x using that by (auto simp: f m new_node_def)
  ultimately show ?thesis unfolding lz_inv_def f(10) pc_ok_def by simp
qed

lemma lz_reach_inv: "lz_reach s \<Longrightarrow> lz_inv s"
  by (induction rule: lz_reach.induct) (blast intro: lz_inv_new_list lz_step_inv)+

lemma lz_reach_ok: "lz_reach s \<Longrightarrow> list_ok s"
  using lz_reach_inv lz_invD(1) by blast

lemma lz_reach_finite: "lz_reach s \<Longrightarrow> finite (lz_pub s) \<and> finite (lz_in s)"
proof (induction rule: lz_reach.induct)
  case (lz_more s t s')
  from lz_more.hyps(2) show ?case using lz_more.IH by cases (auto simp: lz_observe_def lz_lin_def split: option.splits)
qed (simp add: lz_new_def)

subsection \<open>The steps as transitions of a map\<close>

text \<open>The changes a set of keys with values allows: insert an absent key, remove a present one.\<close>

inductive map_step :: "absmap \<Rightarrow> absmap \<Rightarrow> bool" where
  put: "A k = None \<Longrightarrow> map_step A (A(k \<mapsto> v))"
| take: "A k \<noteq> None \<Longrightarrow> map_step A (A(k := None))"

lemma lz_step_abs:
  assumes inv: "lz_inv s" and st: "lz_step s t s'"
  shows "lz_abs s' = lz_abs s \<or> (\<exists>k v p c x. lz_pc s t = LNew k v p c x \<and> lz_abs s k = None \<and> lz_abs s' = (lz_abs s)(k \<mapsto> v))
     \<or> (\<exists>k p c. lz_pc s t = LOk (Erase k) p c \<and> lz_abs s k = Some (val_of s c) \<and> lz_abs s' = (lz_abs s)(k := None))"
  using st
proof cases
  case (insert_link k v p c x)
  have l: "located s t (Insert k v) p c" "\<not> marked_of s p" "next_of s p = c" "k < key_of s c"
    using lz_invD(2) [OF inv, of t] insert_link by (simp_all add: pc_ok_def)
  note V = validated [OF inv _ l(1-3)]
  have "lz_abs s k = None"
    using gap_now(1) [OF lz_invD(1) [OF inv], of p] V insert_link l(3,4) by (simp add: gap_def)
  then show ?thesis using insert_link by (auto simp: lz_observe_def lz_lin_def)
next
  case (erase_mark op p c k)
  have l: "located s t op p c" "\<not> marked_of s p" "next_of s p = c" "\<not> marked_of s c"
    using lz_invD(2) [OF inv, of t] erase_mark by (simp_all add: pc_ok_def)
  note V = validated [OF inv _ l(1-3)]
  have "key_of s c = k" using l(1) erase_mark by (simp add: located_def)
  then have "lz_abs s k = Some (val_of s c)"
    using abs_unmarked(4) [OF lz_invD(1) [OF inv] _ l(4)] V erase_mark by simp
  then show ?thesis using erase_mark by (auto simp: lz_observe_def lz_lin_def)
qed (auto split: option.splits)

text \<open>The ghost history is what it says: a call starts it at the present map, a step adds the map it leaves.\<close>

lemma lz_step_hist:
  assumes "lz_inv s" and "lz_step s t s'" and "lz_pc s u \<noteq> LIdle"
  shows "lz_hist s' u = insert (lz_abs s') (lz_hist s u)"
proof -
  have now: "lz_abs s \<in> lz_hist s u" using lz_invD(3) [OF assms(1,3)] by (simp add: hist_ok_def)
  from assms(2) show ?thesis
    by cases (use now assms(3) in \<open>auto simp: lz_observe_def lz_lin_def split: option.splits\<close>)
qed

text \<open>
  C31. The lazy list is linearizable: in every reachable state, an operation about to return has a
  result that is right for the map at one moment since its call. A \<open>contains\<close> returns what that
  map had at its key; an insertion that found the key absent changed exactly the map it linearizes
  at, and one that returns a value saw it in the map; an erase that returns a value took it out of
  the map, and one that fails saw a map without the key. The history of maps starts at the call and
  gains the current map at every step.
\<close>

theorem lazylist_linearizable:
  assumes "lz_reach s"
  shows "(\<forall>op r. lz_pc s t = LDone op r \<longrightarrow> result_ok s t op r)
    \<and> (lz_pc s t \<noteq> LIdle \<longrightarrow> (\<forall>u s'. lz_step s u s' \<longrightarrow> lz_hist s' t = insert (lz_abs s') (lz_hist s t)))"
proof (intro conjI allI impI)
  fix op r assume "lz_pc s t = LDone op r"
  then show "result_ok s t op r" using lz_invD(2) [OF lz_reach_inv [OF assms], of t] by (simp add: pc_ok_def)
qed (rule lz_step_hist [OF lz_reach_inv [OF assms]])

text \<open>
  C32. The steps of the lazy list refine the steps of a map: in a reachable state, a step of any
  thread leaves the map alone, or inserts an absent key or removes a present one; and the map is the
  contents of the unmarked nodes in the list.
\<close>

theorem lazylist_refines_map:
  assumes "lz_reach s" and "lz_step s t s'"
  shows "(lz_abs s' = lz_abs s \<or> map_step (lz_abs s) (lz_abs s'))
    \<and> (\<forall>k v. lz_abs s' k = Some v \<longleftrightarrow>
        (\<exists>x\<in>lz_in s'. \<not> marked_of s' x \<and> x \<noteq> lz_head s' \<and> x \<noteq> lz_tail s' \<and> key_of s' x = k \<and> val_of s' x = v))"
proof -
  have "lz_abs s' = lz_abs s \<or> map_step (lz_abs s) (lz_abs s')"
    using lz_step_abs [OF lz_reach_inv [OF assms(1)] assms(2)] map_step.intros [of "lz_abs s"] by (metis option.distinct(1))
  moreover have "abs_ok s'" using lz_reach_ok [OF lz_more [OF assms]] by (simp add: list_ok_def)
  ultimately show ?thesis unfolding abs_ok_def by blast
qed

text \<open>
  C33. In every reachable state of the lazy list the nodes handed to the reclaimer were handed over
  once each, are marked, are no longer linked from any node in the list, and are exactly the nodes that
  left it; and two nodes in the list never share a key.
\<close>

theorem lazylist_retires_unlinked:
  assumes "lz_reach s"
  shows "distinct (lz_retired s) \<and> set (lz_retired s) = lz_pub s - lz_in s \<and> (\<forall>x\<in>set (lz_retired s). marked_of s x)
    \<and> (\<forall>x\<in>lz_in s. x \<noteq> lz_tail s \<longrightarrow> next_of s x \<notin> set (lz_retired s) \<and> key_of s x < key_of s (next_of s x))
    \<and> inj_on (key_of s) (lz_in s)"
proof -
  have ok: "retired_ok s" "pub_ok s" "links_ok s" using lz_reach_ok [OF assms] by (simp_all add: list_ok_def)
  have r: "set (lz_retired s) = lz_pub s - lz_in s" "distinct (lz_retired s)" using ok(1) by (simp_all add: retired_ok_def)
  have "\<forall>x\<in>set (lz_retired s). marked_of s x" using ok(2) unfolding r pub_ok_def by blast
  moreover have "\<forall>x\<in>lz_in s. x \<noteq> lz_tail s \<longrightarrow> next_of s x \<notin> set (lz_retired s) \<and> key_of s x < key_of s (next_of s x)"
    using ok(3) unfolding r links_ok_def by blast
  ultimately show ?thesis using r ok(3) by (simp add: links_ok_def)
qed

subsection \<open>The loops over the list\<close>

text \<open>The loops with an iteration bound; \<open>None\<close> if it does not suffice. \<open>long long\<close> sums are unbounded here.\<close>

fun debugKeySum_loop :: "nat \<Rightarrow> lz \<Rightarrow> ptr \<Rightarrow> int \<Rightarrow> int option" where
  "debugKeySum_loop 0 s c result = None"
| "debugKeySum_loop (Suc n) s c result =
     (if key_of s c < lz_max s then debugKeySum_loop n s (next_of s c) (result + key_of s c) else Some result)"

definition debugKeySum :: "nat \<Rightarrow> lz \<Rightarrow> int option" where
  "debugKeySum n s = debugKeySum_loop n s (next_of s (lz_head s)) 0"

fun getDSSize_loop :: "nat \<Rightarrow> lz \<Rightarrow> ptr \<Rightarrow> int \<Rightarrow> int option" where
  "getDSSize_loop 0 s c result = None"
| "getDSSize_loop (Suc n) s c result =
     (if key_of s c < lz_max s then getDSSize_loop n s (next_of s c) (result + 1) else Some result)"

definition getDSSize :: "nat \<Rightarrow> lz \<Rightarrow> int option" where
  "getDSSize n s = getDSSize_loop n s (next_of s (lz_head s)) 0"

text \<open>The destructor; the result is the nodes it deallocates, in order.\<close>

fun lazylist_destroy_loop :: "nat \<Rightarrow> lz \<Rightarrow> ptr \<Rightarrow> ptr list option" where
  "lazylist_destroy_loop 0 s c = None"
| "lazylist_destroy_loop (Suc n) s c =
     (if key_of s c < lz_max s then map_option (Cons c) (lazylist_destroy_loop n s (next_of s c)) else Some [c])"

definition lazylist_destroy :: "nat \<Rightarrow> lz \<Rightarrow> ptr list option" where
  "lazylist_destroy n s = lazylist_destroy_loop n s (lz_head s)"

text \<open>All three visit what the destructor deallocates.\<close>

lemma destroy_loop_nonempty: "lazylist_destroy_loop n s c = Some xs \<Longrightarrow> xs \<noteq> []"
  by (cases n) (auto split: if_splits)

lemma debugKeySum_loop_eq:
  "debugKeySum_loop n s c r = map_option (\<lambda>xs. r + sum_list (map (key_of s) (butlast xs))) (lazylist_destroy_loop n s c)"
  by (induction n s c r rule: debugKeySum_loop.induct)
    (auto simp: option.map_comp comp_def add.assoc dest: destroy_loop_nonempty intro!: option.map_cong)

lemma getDSSize_loop_eq:
  "getDSSize_loop n s c r = map_option (\<lambda>xs. r + (int (length xs) - 1)) (lazylist_destroy_loop n s c)"
  by (induction n s c r rule: getDSSize_loop.induct)
    (auto simp: option.map_comp comp_def dest: destroy_loop_nonempty intro!: option.map_cong)

text \<open>The walk from a node of the list visits it and every node behind it, each once.\<close>

lemma destroy_loop_visits:
  assumes ok: "list_ok s" and fin: "finite (lz_in s)"
  shows "c \<in> lz_in s \<Longrightarrow> card {y \<in> lz_in s. key_of s c < key_of s y} < n \<Longrightarrow>
    \<exists>xs. lazylist_destroy_loop n s c = Some xs \<and> distinct xs \<and> set xs = {y \<in> lz_in s. key_of s c \<le> key_of s y} \<and> last xs = lz_tail s"
proof (induction n arbitrary: c)
  case (Suc n)
  have inj: "inj_on (key_of s) (lz_in s)" and tl: "lz_tail s \<in> lz_in s" "key_of s (lz_tail s) = lz_max s" and sub: "lz_in s \<subseteq> lz_pub s"
    using ok by (simp_all add: list_ok_def links_ok_def shape_ok_def)
  have pub: "key_of s y \<le> lz_max s" if "y \<in> lz_pub s" for y using ok that by (simp add: list_ok_def pub_ok_def)
  show ?case
  proof (cases "key_of s c < lz_max s")
    case True
    let ?d = "next_of s c"
    have "c \<noteq> lz_tail s" using True tl(2) by auto
    then have "?d \<in> lz_in s \<and> key_of s c < key_of s ?d \<and> (\<forall>y\<in>lz_in s. key_of s y \<le> key_of s c \<or> key_of s ?d \<le> key_of s y)"
      using ok Suc.prems(1) by (simp add: list_ok_def links_ok_def)
    then have d: "?d \<in> lz_in s" "key_of s c < key_of s ?d"
        "\<And>y. y \<in> lz_in s \<Longrightarrow> key_of s y \<le> key_of s c \<or> key_of s ?d \<le> key_of s y" by blast+
    have "{y \<in> lz_in s. key_of s ?d < key_of s y} \<subset> {y \<in> lz_in s. key_of s c < key_of s y}" using d by force
    then have "card {y \<in> lz_in s. key_of s ?d < key_of s y} < card {y \<in> lz_in s. key_of s c < key_of s y}"
      using fin by (intro psubset_card_mono) auto
    then obtain xs where xs: "lazylist_destroy_loop n s ?d = Some xs" "distinct xs" "set xs = {y \<in> lz_in s. key_of s ?d \<le> key_of s y}"
        "last xs = lz_tail s" using Suc d(1) by fastforce
    have c: "y = c" if "y \<in> lz_in s" "key_of s y = key_of s c" for y using inj that Suc.prems(1) by (simp add: inj_on_def)
    have "{y \<in> lz_in s. key_of s c \<le> key_of s y} = insert c {y \<in> lz_in s. key_of s ?d \<le> key_of s y}"
    proof (intro equalityI subsetI)
      fix y assume "y \<in> {y \<in> lz_in s. key_of s c \<le> key_of s y}"
      then have y: "y \<in> lz_in s" "key_of s c \<le> key_of s y" by simp_all
      show "y \<in> insert c {y \<in> lz_in s. key_of s ?d \<le> key_of s y}" using d(3) [OF y(1)] c [OF y(1)] y by fastforce
    next
      fix y assume "y \<in> insert c {y \<in> lz_in s. key_of s ?d \<le> key_of s y}"
      then show "y \<in> {y \<in> lz_in s. key_of s c \<le> key_of s y}" using d(2) Suc.prems(1) by auto
    qed
    moreover have "c \<notin> set xs" using xs(3) d(2) by auto
    ultimately have "distinct (c # xs)" "set (c # xs) = {y \<in> lz_in s. key_of s c \<le> key_of s y}" "last (c # xs) = lz_tail s"
      using xs(2-4) destroy_loop_nonempty [OF xs(1)] by simp_all
    moreover have "lazylist_destroy_loop (Suc n) s c = Some (c # xs)" using xs(1) True by simp
    ultimately show ?thesis by blast
  next
    case False
    then have "key_of s c = lz_max s" using pub sub Suc.prems(1) by force
    then have "c = lz_tail s" using inj tl Suc.prems(1) by (simp add: inj_on_def)
    moreover have "{y \<in> lz_in s. key_of s (lz_tail s) \<le> key_of s y} = {lz_tail s}"
      using inj tl pub sub by (fastforce simp: inj_on_def)
    ultimately show ?thesis using False by simp
  qed
qed simp

text \<open>
  In every reachable state of the lazy list, with as many iterations as the list has nodes, the
  loop of the destructor ends and deallocates every node in the list, the sentinels included, each
  exactly once and the tail last; so no node is leaked, none freed twice, and none that was retired.
\<close>

lemma lazylist_destroy_frees_each_once:
  assumes "lz_reach s" and "card (lz_in s) < n"
  shows "\<exists>xs. lazylist_destroy n s = Some xs \<and> distinct xs \<and> set xs = lz_in s \<and> last xs = lz_tail s
    \<and> set xs \<inter> set (lz_retired s) = {}"
proof -
  note ok = lz_reach_ok [OF assms(1)] and fin = conjunct2 [OF lz_reach_finite [OF assms(1)]]
  have hd: "lz_head s \<in> lz_in s" "key_of s (lz_head s) = lz_min s" "lz_in s \<subseteq> lz_pub s" using ok by (simp_all add: list_ok_def shape_ok_def)
  have "\<forall>y\<in>lz_in s. lz_min s \<le> key_of s y" using ok hd(3) unfolding list_ok_def pub_ok_def by blast
  then have all: "{y \<in> lz_in s. key_of s (lz_head s) \<le> key_of s y} = lz_in s" using hd(2) by auto
  have "card {y \<in> lz_in s. key_of s (lz_head s) < key_of s y} \<le> card (lz_in s)" using fin by (intro card_mono) auto
  then obtain xs where "lazylist_destroy_loop n s (lz_head s) = Some xs" "distinct xs" "set xs = lz_in s" "last xs = lz_tail s"
    using destroy_loop_visits [OF ok fin hd(1), of n] assms(2) all by auto
  moreover have "set (lz_retired s) = lz_pub s - lz_in s" using ok by (simp add: list_ok_def retired_ok_def)
  ultimately show ?thesis unfolding lazylist_destroy_def by auto
qed

text \<open>A list without marked nodes, as between operations, holds one node per key of the map.\<close>

lemma unmarked_keys:
  assumes "list_ok s" and "\<forall>x\<in>lz_in s. \<not> marked_of s x"
  shows "dom (lz_abs s) = key_of s ` (lz_in s - {lz_head s, lz_tail s})"
proof -
  have "abs_ok s" using assms(1) by (simp add: list_ok_def)
  then show ?thesis using assms(2) by (auto simp: abs_ok_def dom_def)
qed

lemma unmarked_walk:
  assumes ok: "list_ok s" and fin: "finite (lz_in s)" and nm: "\<forall>x\<in>lz_in s. \<not> marked_of s x" and n: "card (lz_in s) \<le> n"
  shows "\<exists>xs. lazylist_destroy_loop n s (next_of s (lz_head s)) = Some xs \<and> xs \<noteq> [] \<and> distinct (map (key_of s) (butlast xs))
    \<and> key_of s ` set (butlast xs) = dom (lz_abs s)"
proof -
  let ?h = "lz_head s" and ?d = "next_of s (lz_head s)"
  have hd: "?h \<in> lz_in s" "?h \<noteq> lz_tail s" "key_of s ?h = lz_min s" "lz_in s \<subseteq> lz_pub s" using ok by (simp_all add: list_ok_def shape_ok_def)
  have inj: "inj_on (key_of s) (lz_in s)" using ok by (simp add: list_ok_def links_ok_def)
  have "?d \<in> lz_in s \<and> key_of s ?h < key_of s ?d \<and> (\<forall>y\<in>lz_in s. key_of s y \<le> key_of s ?h \<or> key_of s ?d \<le> key_of s y)"
    using ok hd(1,2) by (simp add: list_ok_def links_ok_def)
  then have d: "?d \<in> lz_in s" "key_of s ?h < key_of s ?d" "\<And>y. y \<in> lz_in s \<Longrightarrow> key_of s y \<le> key_of s ?h \<or> key_of s ?d \<le> key_of s y"
    by blast+
  have least: "lz_min s \<le> key_of s y \<and> (key_of s y = lz_min s \<longrightarrow> y = ?h)" if "y \<in> lz_in s" for y
    using ok hd(4) that unfolding list_ok_def pub_ok_def by blast
  have rest: "{y \<in> lz_in s. key_of s ?d \<le> key_of s y} = lz_in s - {?h}"
  proof (intro equalityI subsetI)
    fix y assume "y \<in> lz_in s - {?h}"
    then show "y \<in> {y \<in> lz_in s. key_of s ?d \<le> key_of s y}" using d(3) [of y] least [of y] hd(3) by auto
  qed (use d(2) in auto)
  have "{y \<in> lz_in s. key_of s ?d < key_of s y} \<subset> lz_in s" using d(1) by auto
  from psubset_card_mono [OF fin this] have "card {y \<in> lz_in s. key_of s ?d < key_of s y} < n" using n by (rule less_le_trans)
  then obtain xs where xs: "lazylist_destroy_loop n s ?d = Some xs" "distinct xs" "set xs = lz_in s - {?h}" "last xs = lz_tail s"
    using destroy_loop_visits [OF ok fin d(1), of n] unfolding rest by blast
  have ne: "xs \<noteq> []" using destroy_loop_nonempty [OF xs(1)] .
  then have split: "xs = butlast xs @ [lz_tail s]" using append_butlast_last_id [OF ne] xs(4) by simp
  then have "distinct (butlast xs @ [lz_tail s])" "set (butlast xs @ [lz_tail s]) = lz_in s - {?h}" using xs(2,3) by metis+
  then have b: "distinct (butlast xs)" "set (butlast xs) = lz_in s - {?h, lz_tail s}" by auto
  have "inj_on (key_of s) (set (butlast xs))" using inj_on_subset [OF inj] b(2) by auto
  then have "distinct (map (key_of s) (butlast xs))" using b(1) by (simp add: distinct_map)
  moreover have "key_of s ` set (butlast xs) = dom (lz_abs s)" using unmarked_keys [OF ok nm] b(2) by simp
  ultimately show ?thesis using xs(1) ne by blast
qed

lemma unmarked_sums:
  assumes "list_ok s" and "finite (lz_in s)" and "\<forall>x\<in>lz_in s. \<not> marked_of s x" and "card (lz_in s) \<le> n"
  shows "debugKeySum n s = Some (\<Sum>(dom (lz_abs s)))" "getDSSize n s = Some (int (card (dom (lz_abs s))))"
proof -
  obtain xs where xs: "lazylist_destroy_loop n s (next_of s (lz_head s)) = Some xs" "xs \<noteq> []"
      "distinct (map (key_of s) (butlast xs))" "key_of s ` set (butlast xs) = dom (lz_abs s)"
    using unmarked_walk [OF assms] by blast
  have "sum_list (map (key_of s) (butlast xs)) = \<Sum>(dom (lz_abs s))" using sum_list_distinct_conv_sum_set [OF xs(3), of "\<lambda>x. x"] xs(4) by simp
  then show "debugKeySum n s = Some (\<Sum>(dom (lz_abs s)))" unfolding debugKeySum_def debugKeySum_loop_eq xs(1) option.map add_0 by simp
  have "card (dom (lz_abs s)) = length (butlast xs)" using distinct_card [OF xs(3)] xs(4) by simp
  moreover have "int (length xs) - 1 = int (length (butlast xs))" using xs(2) by (cases xs) simp_all
  ultimately show "getDSSize n s = Some (int (card (dom (lz_abs s))))" unfolding getDSSize_def getDSSize_loop_eq xs(1) option.map add_0 by metis
qed

text \<open>
  When no operation is running, the loops of \<open>debugKeySum\<close> and \<open>getDSSize\<close> over a
  reachable lazy list end within as many iterations as the list has nodes, with the sum of the keys
  of the map and with their number: the sentinels are not counted and no key is counted twice.
\<close>

lemma lazylist_sums_match_map:
  assumes "lz_reach s" and "\<forall>t. lz_pc s t = LIdle" and "card (lz_in s) \<le> n"
  shows "debugKeySum n s = Some (\<Sum>(dom (lz_abs s))) \<and> getDSSize n s = Some (int (card (dom (lz_abs s))))"
proof -
  have "\<forall>x\<in>lz_in s. \<not> marked_of s x" using lz_invD(5) [OF lz_reach_inv [OF assms(1)]] assms(2) by fastforce
  then show ?thesis using unmarked_sums [OF lz_reach_ok [OF assms(1)] conjunct2 [OF lz_reach_finite [OF assms(1)]] _ assms(3)] by blast
qed

subsection \<open>A traversal ends\<close>

text \<open>Every node that ever was in the list points to one with a greater key, also after its removal.\<close>

definition ascending :: "lz \<Rightarrow> bool" where
  "ascending s \<longleftrightarrow> (\<forall>x\<in>lz_pub s. x \<noteq> lz_tail s \<longrightarrow> next_of s x \<in> lz_pub s \<and> key_of s x < key_of s (next_of s x))"

lemma ascending_same:
  assumes "ascending s" and "lz_pub s' = lz_pub s" and "lz_tail s' = lz_tail s"
    and "\<And>x. x \<in> lz_pub s \<Longrightarrow> next_of s' x = next_of s x \<and> key_of s' x = key_of s x"
  shows "ascending s'"
  using assms unfolding ascending_def by (metis (no_types))

lemma ascending_step:
  assumes inv: "lz_inv s" and asc: "ascending s" and st: "lz_step s t s'"
  shows "ascending s'"
  using st
proof cases
  case (insert_new op p c k v x)
  have "lz_pub s \<subseteq> lz_alloc s" using lz_invD(1) [OF inv] by (simp add: list_ok_def shape_ok_def)
  then show ?thesis using insert_new by (intro ascending_same [OF asc]) auto
next
  case (insert_link k v p c x)
  have l: "located s t (Insert k v) p c" "\<not> marked_of s p" "next_of s p = c" "k < key_of s c" "x \<notin> lz_pub s"
      "key_of s x = k" "next_of s x = c"
    using lz_invD(2) [OF inv, of t] insert_link by (simp_all add: pc_ok_def new_node_def)
  note V = validated [OF inv _ l(1-3)]
  have "c \<in> lz_pub s" "p \<in> lz_pub s" "key_of s p < k" using V insert_link(2) by simp_all
  then show ?thesis using asc l insert_link(1) unfolding ascending_def by (auto simp: lz_observe_def lz_lin_def)
next
  case (erase_unlink k p c v nx)
  have l: "located s t (Erase k) p c" "\<not> marked_of s p" "next_of s p = c" "next_of s c = nx"
    using lz_invD(2) [OF inv, of t] erase_unlink by (simp_all add: pc_ok_def)
  note V = validated [OF inv _ l(1-3)]
  have "key_of s c = k" using l(1) by (simp add: located_def)
  then have "c \<noteq> lz_tail s" using V erase_unlink(2) lz_invD(1) [OF inv] by (auto simp: list_ok_def shape_ok_def)
  then have "nx \<in> lz_pub s" "key_of s c < key_of s nx" using asc V(10) l(4) erase_unlink(2) by (auto simp: ascending_def)
  moreover have "key_of s p < key_of s c" using V erase_unlink(2) by auto
  ultimately show ?thesis using asc erase_unlink(1) unfolding ascending_def by auto
qed (use asc in \<open>auto simp: lz_observe_def lz_lin_def intro!: ascending_same [OF asc] split: option.splits\<close>)

lemma reach_ascending: "lz_reach s \<Longrightarrow> ascending s"
proof (induction rule: lz_reach.induct)
  case (lz_start mem KEY_MIN KEY_MAX mx hd_node)
  then show ?case by (simp add: ascending_def lz_new_def new_node_def)
next
  case (lz_more s t s')
  then show ?case using ascending_step [OF lz_reach_inv] by blast
qed

text \<open>The steps of one thread while the others stand still.\<close>

inductive solo :: "nat \<Rightarrow> lz \<Rightarrow> lz \<Rightarrow> bool" for t where
  solo_refl: "solo t s s"
| solo_step: "lz_step s t s' \<Longrightarrow> solo t s' s'' \<Longrightarrow> solo t s s''"

lemma solo_trans: "solo t a b \<Longrightarrow> solo t b c \<Longrightarrow> solo t a c"
  by (induction rule: solo.induct) (auto intro: solo_step)

lemma solo_traverses:
  assumes "lz_reach s" and "lz_pc s t = LTrav op p c"
  shows "\<exists>s' q d. solo t s s' \<and> lz_reach s' \<and> lz_mem s' = lz_mem s \<and> lz_pc s' t = LTrav op q d \<and> op_key op \<le> key_of s d"
  using assms
proof (induction "card {y \<in> lz_pub s. key_of s c < key_of s y}" arbitrary: s p c rule: less_induct)
  case less
  show ?case
  proof (cases "key_of s c < op_key op")
    case False
    then show ?thesis using less.prems solo_refl by (metis not_less)
  next
    case True
    define s' where "s' = lz_goto t (LTrav op c (next_of s c)) s"
    have st: "lz_step s t s'" unfolding s'_def by (rule trav [OF less.prems(2) True])
    have f: "lz_mem s' = lz_mem s" "lz_pub s' = lz_pub s" "lz_pc s' t = LTrav op c (next_of s c)" by (simp_all add: s'_def)
    have inv: "lz_inv s" using lz_reach_inv [OF less.prems(1)] .
    have w: "window s t op p c" using lz_invD(2) [OF inv, of t] less.prems(2) by (simp add: pc_ok_def)
    have "hist_ok s t" using lz_invD(3) [OF inv, of t] less.prems(2) by simp
    then have c: "c \<in> lz_pub s" using w hist_pub unfolding window_def by blast
    have "c \<noteq> lz_tail s" using w True lz_invD(1) [OF inv] by (auto simp: window_def op_ok_def list_ok_def shape_ok_def)
    then have n: "next_of s c \<in> lz_pub s" "key_of s c < key_of s (next_of s c)" using reach_ascending [OF less.prems(1)] c by (auto simp: ascending_def)
    then have "{y \<in> lz_pub s. key_of s (next_of s c) < key_of s y} \<subset> {y \<in> lz_pub s. key_of s c < key_of s y}" by force
    then have "card {y \<in> lz_pub s. key_of s (next_of s c) < key_of s y} < card {y \<in> lz_pub s. key_of s c < key_of s y}"
      using lz_reach_finite [OF less.prems(1)] by (intro psubset_card_mono) auto
    then obtain s'' q d where "solo t s' s''" "lz_reach s''" "lz_mem s'' = lz_mem s" "lz_pc s'' t = LTrav op q d" "op_key op \<le> key_of s d"
      using less.hyps [of s' "next_of s c" c] lz_more [OF less.prems(1) st] f by auto
    then show ?thesis using solo_step [OF st] by blast
  qed
qed

text \<open>
  C34. A \<open>contains\<close> of the lazy list waits for nobody: from every reachable state in which a thread
  has begun one, whatever locks the other threads hold and wherever they stopped, the thread alone
  returns after finitely many of its own steps, with a result that is right for the map at a moment
  of the operation.
\<close>

theorem lazylist_contains_returns:
  assumes "lz_reach s" and "lz_pc s t = LBegin (Contains k)"
  shows "\<exists>s' r. solo t s s' \<and> lz_pc s' t = LDone (Contains k) r \<and> (\<exists>A\<in>lz_hist s' t. A k = r)"
proof -
  define s1 where "s1 = lz_goto t (LTrav (Contains k) (lz_head s) (lz_head s)) s"
  have st1: "lz_step s t s1" unfolding s1_def by (rule begin_contains [OF assms(2) refl])
  have r1: "lz_reach s1" using lz_more [OF assms(1) st1] .
  have pc1: "lz_pc s1 t = LTrav (Contains k) (lz_head s) (lz_head s)" by (simp add: s1_def)
  obtain s2 q d where s2: "solo t s1 s2" "lz_reach s2" "lz_mem s2 = lz_mem s1" "lz_pc s2 t = LTrav (Contains k) q d" "op_key (Contains k) \<le> key_of s2 d"
    using solo_traverses [OF r1 pc1] by auto
  define s3 where "s3 = lz_goto t (LDone (Contains k) (lz_result s2 (Contains k) d)) s2"
  have st3: "lz_step s2 t s3" unfolding s3_def by (rule found_contains [OF s2(4,5) refl])
  have pc3: "lz_pc s3 t = LDone (Contains k) (lz_result s2 (Contains k) d)" by (simp add: s3_def)
  have "pc_ok s3 t (lz_pc s3 t)" using lz_invD(2) [OF lz_reach_inv [OF lz_more [OF s2(2) st3]]] .
  then have "\<exists>A\<in>lz_hist s3 t. A k = lz_result s2 (Contains k) d" using pc3 by (simp add: pc_ok_def result_ok_def)
  moreover have "solo t s s3" using solo_step [OF st1 solo_trans [OF s2(1) solo_step [OF st3 solo_refl]]] .
  ultimately show ?thesis using pc3 by blast
qed

subsection \<open>A run\<close>

text \<open>
  Thread 0 inserts 5 into the list between 0 and 10: the list between the calls, and the state
  before its return. The facts name what the properties at this state need.
\<close>

definition run_list :: lz where
  "run_list = lz_new (\<lambda>_. new_node 0 0 NULL) 1 2 0 10"

lemma run_list_reach: "lz_reach run_list"
  unfolding run_list_def by (rule lz_start) (simp_all add: new_node_def)

lemma run_insert:
  "\<exists>s. lz_reach s \<and> lz_pc s 0 = LDone (Insert 5 7) None \<and> (\<forall>t. t \<noteq> 0 \<longrightarrow> lz_pc s t = LIdle) \<and> lz_abs s = [5 \<mapsto> 7] \<and> card (lz_in s) = 3
     \<and> lz_mem s = (\<lambda>_. new_node 0 0 NULL)(1 := new_node 10 0 NULL, 2 := new_node 0 0 3, 3 := new_node 5 7 1)
     \<and> lz_head s = 2 \<and> lz_min s = 0 \<and> lz_max s = 10 \<and> lz_retired s = []"
proof -
  let ?op = "Insert 5 7"
  define s1 where "s1 = lz_goto 0 (LBegin ?op) (run_list\<lparr>lz_hist := (lz_hist run_list)(0 := {lz_abs run_list}),
      lz_since := (lz_since run_list)(0 := lz_in run_list), lz_lp := (lz_lp run_list)(0 := None)\<rparr>)"
  have 1: "lz_mem s1 = (\<lambda>_. new_node 0 0 NULL)(1 := new_node 10 0 NULL, 2 := new_node 0 0 1)" "lz_head s1 = 2"
    "lz_alloc s1 = {1, 2}" "lz_in s1 = {1, 2}" "lz_abs s1 = Map.empty" "lz_pc s1 = (\<lambda>_. LIdle)(0 := LBegin ?op)"
    by (simp_all add: s1_def run_list_def lz_new_def)
  have r1: "lz_reach s1" unfolding s1_def by (rule lz_more [OF run_list_reach], rule call) (simp_all add: run_list_def lz_new_def)
  define s2 where "s2 = lz_goto 0 (LTrav ?op 2 1) s1"
  have r2: "lz_reach s2" using lz_more [OF r1 begin_update [of s1 0 ?op]] by (simp add: 1 s2_def new_node_def)
  define s3 where "s3 = lz_goto 0 (LLock ?op 2 1) s2"
  have r3: "lz_reach s3" using lz_more [OF r2 found_insert [of s2 0 ?op 2 1 5 7]] by (simp add: 1 s2_def s3_def new_node_def)
  define s4 where "s4 = lz_goto 0 (LVal ?op 1 2 1) (lz_write 2 (\<lambda>n. n\<lparr>n_lock := Some 0\<rparr>) s3)"
  have r4: "lz_reach s4" using lz_more [OF r3 lock_pred [of s3 0 ?op 2 1]] by (simp add: 1 s2_def s3_def s4_def new_node_def)
  have 4: "lz_mem s4 = (\<lambda>_. new_node 0 0 NULL)(1 := new_node 10 0 NULL, 2 := (new_node 0 0 1)\<lparr>n_lock := Some 0\<rparr>)"
    "lz_alloc s4 = {1, 2}" "lz_in s4 = {1, 2}" "lz_abs s4 = Map.empty" "lz_pc s4 = (\<lambda>_. LIdle)(0 := LVal ?op 1 2 1)"
    using 1 by (simp_all add: s2_def s3_def s4_def)
  define s5 where "s5 = lz_goto 0 (LVal ?op 2 2 1) s4"
  have r5: "lz_reach s5" using lz_more [OF r4 valid1 [of s4 0 ?op 2 1]] by (simp add: 4 s5_def new_node_def)
  define s6 where "s6 = lz_goto 0 (LVal ?op 3 2 1) s5"
  have r6: "lz_reach s6" using lz_more [OF r5 valid2 [of s5 0 ?op 2 1]] by (simp add: 4 s5_def s6_def new_node_def)
  define s7 where "s7 = lz_goto 0 (LOk ?op 2 1) s6"
  have r7: "lz_reach s7" using lz_more [OF r6 valid3 [of s6 0 ?op 2 1]] by (simp add: 4 s5_def s6_def s7_def new_node_def)
  define s8 where "s8 = lz_goto 0 (LNew 5 7 2 1 3) ((lz_write 3 (\<lambda>_. new_node 5 7 1) s7)\<lparr>lz_alloc := insert 3 (lz_alloc s7)\<rparr>)"
  have r8: "lz_reach s8" using lz_more [OF r7 insert_new [of s7 0 ?op 2 1 5 7 3]] by (simp add: 4 s5_def s6_def s7_def s8_def new_node_def)
  have 8: "lz_mem s8 = (\<lambda>_. new_node 0 0 NULL)(1 := new_node 10 0 NULL, 2 := (new_node 0 0 1)\<lparr>n_lock := Some 0\<rparr>, 3 := new_node 5 7 1)"
    "lz_in s8 = {1, 2}" "lz_abs s8 = Map.empty" "lz_pc s8 = (\<lambda>_. LIdle)(0 := LNew 5 7 2 1 3)"
    using 4 by (simp_all add: s5_def s6_def s7_def s8_def)
  define s9 where "s9 = lz_observe (lz_goto 0 (LRel ?op 2 None (Some None)) (lz_lin 0 ((lz_abs s8)(5 \<mapsto> 7))
      ((lz_write 2 (\<lambda>n. n\<lparr>n_next := 3\<rparr>) s8)\<lparr>lz_in := insert 3 (lz_in s8), lz_pub := insert 3 (lz_pub s8)\<rparr>)))"
  have r9: "lz_reach s9" using lz_more [OF r8 insert_link [of s8 0 5 7 2 1 3]] by (simp add: 8 s9_def)
  have 9: "lz_in s9 = {3, 1, 2}" "lz_abs s9 = [5 \<mapsto> 7]" "lz_pc s9 = (\<lambda>_. LIdle)(0 := LRel ?op 2 None (Some None))"
    by (simp_all add: 8 s9_def lz_observe_def lz_lin_def)
  define s10 where "s10 = lz_goto 0 (LDone ?op None) (lz_write 2 (\<lambda>n. n\<lparr>n_lock := None\<rparr>) s9)"
  have "lz_reach s10" using lz_more [OF r9 release_pred [of s9 0 ?op 2 "Some None"]] by (simp add: 9 s10_def)
  moreover have "lz_in s10 = {3, 1, 2}" "lz_abs s10 = [5 \<mapsto> 7]" "lz_pc s10 = (\<lambda>_. LIdle)(0 := LDone ?op None)"
    using 9 by (simp_all add: s10_def)
  moreover have "lz_mem s9 = (\<lambda>_. new_node 0 0 NULL)(1 := new_node 10 0 NULL, 2 := (new_node 0 0 3)\<lparr>n_lock := Some 0\<rparr>, 3 := new_node 5 7 1)"
    by (simp add: s9_def 8 lz_observe_def lz_lin_def) (auto simp: new_node_def)
  then have "lz_mem s10 = (\<lambda>_. new_node 0 0 NULL)(1 := new_node 10 0 NULL, 2 := new_node 0 0 3, 3 := new_node 5 7 1)"
    by (simp add: s10_def) (auto simp: new_node_def)
  moreover have "lz_head s10 = 2" "lz_min s10 = 0" "lz_max s10 = 10" "lz_retired s10 = []"
    by (simp_all add: s10_def s9_def s8_def s7_def s6_def s5_def s4_def s3_def s2_def s1_def run_list_def lz_new_def lz_observe_def lz_lin_def)
  ultimately show ?thesis by (intro exI [of _ s10]) simp
qed

lemma run_returned:
  "\<exists>s s'. lz_reach s \<and> lz_step s 0 s' \<and> lz_reach s' \<and> (\<forall>t. lz_pc s' t = LIdle) \<and> lz_abs s' = [5 \<mapsto> 7] \<and> card (lz_in s') = 3"
proof -
  obtain s where s: "lz_reach s" "lz_pc s 0 = LDone (Insert 5 7) None" "\<forall>t. t \<noteq> 0 \<longrightarrow> lz_pc s t = LIdle" "lz_abs s = [5 \<mapsto> 7]" "card (lz_in s) = 3"
    using run_insert by blast
  have "lz_step s 0 (lz_goto 0 LIdle s)" by (rule return [OF s(2)])
  moreover from lz_more [OF s(1) this] have "lz_reach (lz_goto 0 LIdle s)" .
  ultimately show ?thesis using s by (intro exI [of _ s] exI [of _ "lz_goto 0 LIdle s"]) simp
qed

text \<open>Thread 2 then erases 5, up to the unlinking of its node.\<close>

lemma run_erase: "\<exists>s. lz_reach s \<and> lz_retired s = [3]"
proof -
  let ?op = "Erase 5"
  obtain s where s: "lz_reach s" "\<forall>t. t \<noteq> 0 \<longrightarrow> lz_pc s t = LIdle" "lz_head s = 2" "lz_min s = 0" "lz_max s = 10" "lz_retired s = []"
    and mem: "lz_mem s = (\<lambda>_. new_node 0 0 NULL)(1 := new_node 10 0 NULL, 2 := new_node 0 0 3, 3 := new_node 5 7 1)"
    using run_insert by blast
  define s1 where "s1 = lz_goto 2 (LBegin ?op) (s\<lparr>lz_hist := (lz_hist s)(2 := {lz_abs s}), lz_since := (lz_since s)(2 := lz_in s),
       lz_lp := (lz_lp s)(2 := None)\<rparr>)"
  have r1: "lz_reach s1" unfolding s1_def by (rule lz_more [OF s(1)], rule call) (simp_all add: s)
  have 1: "lz_mem s1 = lz_mem s" "lz_head s1 = 2" "lz_retired s1 = []" "lz_pc s1 2 = LBegin ?op" by (simp_all add: s1_def s)
  define s2 where "s2 = lz_goto 2 (LTrav ?op 2 3) s1"
  have r2: "lz_reach s2" using lz_more [OF r1 begin_update [of s1 2 ?op]] by (simp add: 1 mem s2_def new_node_def)
  define s3 where "s3 = lz_goto 2 (LLock ?op 2 3) s2"
  have r3: "lz_reach s3" using lz_more [OF r2 found_erase [of s2 2 ?op 2 3 5]] by (simp add: 1 mem s2_def s3_def new_node_def)
  define s4 where "s4 = lz_goto 2 (LLock2 ?op 2 3) (lz_write 2 (\<lambda>n. n\<lparr>n_lock := Some 2\<rparr>) s3)"
  have r4: "lz_reach s4" using lz_more [OF r3 lock_pred [of s3 2 ?op 2 3]] by (simp add: 1 mem s2_def s3_def s4_def new_node_def)
  define s5 where "s5 = lz_goto 2 (LVal ?op 1 2 3) (lz_write 3 (\<lambda>n. n\<lparr>n_lock := Some 2\<rparr>) s4)"
  have r5: "lz_reach s5" using lz_more [OF r4 lock_curr [of s4 2 ?op 2 3]] by (simp add: 1 mem s2_def s3_def s4_def s5_def new_node_def)
  have 5: "lz_mem s5 = (\<lambda>_. new_node 0 0 NULL)(1 := new_node 10 0 NULL, 2 := (new_node 0 0 3)\<lparr>n_lock := Some 2\<rparr>,
      3 := (new_node 5 7 1)\<lparr>n_lock := Some 2\<rparr>)" "lz_pc s5 2 = LVal ?op 1 2 3" "lz_retired s5 = []"
    by (simp_all add: 1 mem s2_def s3_def s4_def s5_def fun_upd_twist)
  define s6 where "s6 = lz_goto 2 (LVal ?op 2 2 3) s5"
  have r6: "lz_reach s6" using lz_more [OF r5 valid1 [of s5 2 ?op 2 3]] by (simp add: 5 s6_def new_node_def)
  define s7 where "s7 = lz_goto 2 (LVal ?op 3 2 3) s6"
  have r7: "lz_reach s7" using lz_more [OF r6 valid2 [of s6 2 ?op 2 3]] by (simp add: 5 s6_def s7_def new_node_def)
  define s8 where "s8 = lz_goto 2 (LOk ?op 2 3) s7"
  have r8: "lz_reach s8" using lz_more [OF r7 valid3 [of s7 2 ?op 2 3]] by (simp add: 5 s6_def s7_def s8_def new_node_def)
  have 8: "lz_pc s8 2 = LOk ?op 2 3" "lz_retired s8 = []" by (simp_all add: 5 s6_def s7_def s8_def)
  define s9 where "s9 = lz_observe (lz_goto 2 (LMarked 5 2 3 (val_of s8 3) (next_of s8 3))
      (lz_lin 2 ((lz_abs s8)(5 := None)) (lz_write 3 (\<lambda>n. n\<lparr>n_marked := True\<rparr>) s8)))"
  have r9: "lz_reach s9" using lz_more [OF r8 erase_mark [OF 8(1) refl]] by (simp add: s9_def)
  have 9: "lz_pc s9 2 = LMarked 5 2 3 (val_of s8 3) (next_of s8 3)" "lz_retired s9 = []"
    by (simp_all add: 8 s9_def lz_observe_def lz_lin_def)
  show ?thesis using lz_more [OF r9 erase_unlink [OF 9(1)]] 9(2) by (intro exI conjI) auto
qed

theorem lazylist_linearizable_witness:
  "\<exists>s. lz_reach s \<and> lz_pc s 0 = LDone (Insert 5 7) None \<and> result_ok s 0 (Insert 5 7) None"
  using run_insert lazylist_linearizable by blast

theorem lazylist_refines_map_witness:
  "\<exists>s s'. lz_reach s \<and> lz_step s 0 s' \<and> (lz_abs s' = lz_abs s \<or> map_step (lz_abs s) (lz_abs s'))"
  using run_returned lazylist_refines_map by blast

theorem lazylist_retires_unlinked_witness:
  "\<exists>s. lz_reach s \<and> lz_retired s = [3] \<and> 3 \<in> lz_pub s \<and> 3 \<notin> lz_in s \<and> marked_of s 3 \<and> inj_on (key_of s) (lz_in s)"
proof -
  obtain s where s: "lz_reach s" "lz_retired s = [3]" using run_erase by blast
  have "set (lz_retired s) = lz_pub s - lz_in s" "\<forall>x\<in>set (lz_retired s). marked_of s x" "inj_on (key_of s) (lz_in s)"
    using lazylist_retires_unlinked [OF s(1)] by blast+
  then show ?thesis using s by (intro exI [of _ s]) auto
qed

lemma lazylist_destroy_frees_each_once_witness:
  "\<exists>s xs. lz_reach s \<and> card (lz_in s) < 4 \<and> lazylist_destroy 4 s = Some xs \<and> set xs = lz_in s"
proof -
  obtain s where "lz_reach s" "card (lz_in s) = 3" using run_insert by blast
  then show ?thesis using lazylist_destroy_frees_each_once [of s 4] by fastforce
qed

lemma lazylist_sums_match_map_witness:
  "\<exists>s. lz_reach s \<and> debugKeySum 3 s = Some 5 \<and> getDSSize 3 s = Some 1"
proof -
  obtain s where s: "lz_reach s" "\<forall>t. lz_pc s t = LIdle" "lz_abs s = [5 \<mapsto> 7]" "card (lz_in s) = 3" using run_returned by blast
  then show ?thesis using lazylist_sums_match_map [OF s(1,2), of 3] by (intro exI [of _ s]) simp
qed

theorem lazylist_contains_returns_witness:
  "\<exists>s s' r. lz_reach s \<and> lz_pc s 1 = LBegin (Contains 5) \<and> solo 1 s s' \<and> lz_pc s' 1 = LDone (Contains 5) r"
proof -
  define s where "s = lz_goto 1 (LBegin (Contains 5)) (run_list\<lparr>lz_hist := (lz_hist run_list)(1 := {lz_abs run_list}),
      lz_since := (lz_since run_list)(1 := lz_in run_list), lz_lp := (lz_lp run_list)(1 := None)\<rparr>)"
  have r: "lz_reach s" unfolding s_def by (rule lz_more [OF run_list_reach], rule call) (simp_all add: run_list_def lz_new_def)
  have p: "lz_pc s 1 = LBegin (Contains 5)" by (simp add: s_def)
  show ?thesis using lazylist_contains_returns [OF r p] r p by blast
qed

end
