(* ===== verification/HmList.thy ===== *)
theory HmList
  imports LazyList_Steps
begin

unbundle bit_operations_syntax

text \<open>
  The list of Harris and Michael, \<open>ds/hmlist/hmlist_impl.h\<close>: a sorted linked list without
  locks. The lowest bit of the link of a node marks the node; marking it removes its key, and
  whoever meets a marked node unlinks it. Every access to shared memory is a step of one of any number of
  threads; nodes come from the allocator at even addresses that nobody can hold, which is what
  the reclaimers guarantee.
\<close>

subsection \<open>Links with a mark bit\<close>

definition getMk :: "ptr \<Rightarrow> bool" where
  "getMk node \<longleftrightarrow> node AND 1 \<noteq> 0"

definition mixPtrMk :: "ptr \<Rightarrow> bool \<Rightarrow> ptr" where
  "mixPtrMk node mk = node OR (if mk then 1 else 0)"

definition getPtr :: "ptr \<Rightarrow> ptr" where
  "getPtr node = node AND NOT 1"

definition setMk :: "ptr \<Rightarrow> ptr" where
  "setMk node = mixPtrMk node True"

lemma getMk_bit: "getMk x = bit x 0"
  by (simp add: getMk_def and_one_eq bit_0 odd_iff_mod_2_eq_one)

lemma mix_bits: "bit (mixPtrMk x m) n = (bit x n \<or> n = 0 \<and> m)" "bit (getPtr x) n = (bit x n \<and> n \<noteq> 0)"
  by (auto simp: mixPtrMk_def getPtr_def bit_or_iff bit_and_iff bit_not_iff bit_1_iff dest: bit_imp_le_length)

lemma getMk_simps [simp]:
  "getMk (mixPtrMk x m) = (getMk x \<or> m)" "getMk (setMk x)" "\<not> getMk (getPtr x)" "\<not> getMk NULL"
  by (auto simp: getMk_bit setMk_def mix_bits)

lemma getPtr_simps [simp]:
  "mixPtrMk (getPtr v) (getMk v) = v" "getPtr (getPtr x) = getPtr x" "getPtr (mixPtrMk x m) = getPtr x" "getPtr (setMk x) = getPtr x"
  by (auto intro!: bit_word_eqI Nat.gr0I simp: getMk_bit setMk_def mix_bits)

lemma getPtr_aligned: "\<not> getMk x \<Longrightarrow> getPtr x = x"
  by (rule bit_word_eqI) (auto simp: getMk_bit mix_bits intro: Nat.gr0I)

lemma setMk_ne: "\<not> getMk x \<Longrightarrow> x \<noteq> setMk y"
  by auto

subsection \<open>The list and the threads\<close>

record hm_node =
  h_key :: int
  h_val :: int
  h_next :: ptr

text \<open>
  What a search is for: \<open>contains\<close>, \<open>doInsert\<close> with its new node, \<open>erase\<close>, or
  \<open>erase\<close> after it failed to unlink the node it marked (with the value it will return).
\<close>

datatype hm_goal = GContains int | GInsert int int ptr | GErase int | GClean int int ptr

fun goal_key :: "hm_goal \<Rightarrow> int" where
  "goal_key (GContains k) = k"
| "goal_key (GInsert k v x) = k"
| "goal_key (GErase k) = k"
| "goal_key (GClean k v d) = k"

text \<open>The place \<open>prev\<close> points to: the head of the list, or the link of a node.\<close>

datatype prev_ref = PHead | PNext ptr

datatype hm_result = RBool bool | RVal "int option"

text \<open>
  Where a thread is: before the outer loop of a search, before the first read of the link of
  \<open>curr\<close>, before the second, before the check of \<open>prev\<close>, before unlinking a marked node,
  after the search, before linking a new node, before unlinking the node it marked, before returning.
\<close>

datatype hm_pc =
    HIdle
  | HSearch hm_goal
  | HAt hm_goal prev_ref ptr
  | HNx hm_goal prev_ref ptr ptr
  | HChk hm_goal prev_ref ptr ptr
  | HUnl hm_goal prev_ref ptr ptr
  | HFound hm_goal prev_ref ptr ptr bool
  | HLink int int ptr prev_ref ptr
  | HUnlE int prev_ref ptr ptr int
  | HDone lz_op hm_result

text \<open>
  The state, whether a thread is between \<open>startOp\<close> and \<open>endOp\<close> of the reclaimer, and
  ghosts as for the lazy list.
\<close>

record hm =
  hm_mem :: "ptr \<Rightarrow> hm_node"
  hm_head :: ptr
  hm_tail :: ptr
  hm_min :: int
  hm_max :: int
  hm_alloc :: "ptr set"
  hm_pc :: "nat \<Rightarrow> hm_pc"
  hm_inop :: "nat \<Rightarrow> bool"
  hm_in :: "ptr set"
  hm_pub :: "ptr set"
  hm_retired :: "ptr list"
  hm_abs :: absmap
  hm_hist :: "nat \<Rightarrow> absmap set"
  hm_lp :: "nat \<Rightarrow> (absmap \<times> absmap) option"

abbreviation hkey :: "hm \<Rightarrow> ptr \<Rightarrow> int" where "hkey s x \<equiv> h_key (hm_mem s x)"
abbreviation hval :: "hm \<Rightarrow> ptr \<Rightarrow> int" where "hval s x \<equiv> h_val (hm_mem s x)"
abbreviation hnext :: "hm \<Rightarrow> ptr \<Rightarrow> ptr" where "hnext s x \<equiv> h_next (hm_mem s x)"

definition hm_new_node :: "int \<Rightarrow> int \<Rightarrow> ptr \<Rightarrow> hm_node" where
  "hm_new_node key val nx = \<lparr>h_key = key, h_val = val, h_next = nx\<rparr>"

definition hm_new :: "(ptr \<Rightarrow> hm_node) \<Rightarrow> ptr \<Rightarrow> ptr \<Rightarrow> int \<Rightarrow> int \<Rightarrow> hm" where
  "hm_new mem tl_node hd_node KEY_MIN KEY_MAX =
     \<lparr>hm_mem = mem(tl_node := hm_new_node KEY_MAX 0 NULL, hd_node := hm_new_node KEY_MIN 0 tl_node),
      hm_head = hd_node, hm_tail = tl_node, hm_min = KEY_MIN, hm_max = KEY_MAX, hm_alloc = {tl_node, hd_node},
      hm_pc = (\<lambda>_. HIdle), hm_inop = (\<lambda>_. False), hm_in = {tl_node, hd_node}, hm_pub = {tl_node, hd_node}, hm_retired = [],
      hm_abs = Map.empty, hm_hist = (\<lambda>_. {}), hm_lp = (\<lambda>_. None)\<rparr>"

definition hm_goto :: "nat \<Rightarrow> hm_pc \<Rightarrow> hm \<Rightarrow> hm" where
  "hm_goto t c s = s\<lparr>hm_pc := (hm_pc s)(t := c)\<rparr>"

definition hm_write :: "ptr \<Rightarrow> (hm_node \<Rightarrow> hm_node) \<Rightarrow> hm \<Rightarrow> hm" where
  "hm_write x f s = s\<lparr>hm_mem := (hm_mem s)(x := f (hm_mem s x))\<rparr>"

text \<open>\<open>prev->load()\<close>, and the write of a successful exchange on \<open>prev\<close>.\<close>

definition prev_val :: "hm \<Rightarrow> prev_ref \<Rightarrow> ptr" where
  "prev_val s r = (case r of PHead \<Rightarrow> hm_head s | PNext p \<Rightarrow> hnext s p)"

definition prev_set :: "prev_ref \<Rightarrow> ptr \<Rightarrow> hm \<Rightarrow> hm" where
  "prev_set r x s = (case r of PHead \<Rightarrow> s\<lparr>hm_head := x\<rparr> | PNext p \<Rightarrow> hm_write p (\<lambda>n. n\<lparr>h_next := x\<rparr>) s)"

definition hm_lin :: "nat \<Rightarrow> absmap \<Rightarrow> hm \<Rightarrow> hm" where
  "hm_lin t A s = s\<lparr>hm_abs := A, hm_lp := (hm_lp s)(t := Some (hm_abs s, A)), hm_hist := (\<lambda>u. insert A (hm_hist s u))\<rparr>"

definition hm_endOp :: "nat \<Rightarrow> lz_op \<Rightarrow> hm_result \<Rightarrow> hm \<Rightarrow> hm" where
  "hm_endOp t op r s = (hm_goto t (HDone op r) s)\<lparr>hm_inop := (hm_inop s)(t := False)\<rparr>"

text \<open>A marked node leaves the list and is retired.\<close>

definition hm_unlink :: "prev_ref \<Rightarrow> ptr \<Rightarrow> ptr \<Rightarrow> hm \<Rightarrow> hm" where
  "hm_unlink r c n s = (prev_set r n s)\<lparr>hm_in := hm_in s - {c}, hm_retired := c # hm_retired s\<rparr>"

subsection \<open>The functions, one access at a time\<close>

definition list_search :: "nat \<Rightarrow> hm_pc \<Rightarrow> hm \<Rightarrow> hm" where
  "list_search t pc s = (case pc of
     HSearch g \<Rightarrow> hm_goto t (HAt g PHead (hm_head s)) s
   | HAt g r c \<Rightarrow> hm_goto t (if c = NULL then HFound g r c NULL False else HNx g r c (hnext s c)) s
   | HNx g r c v \<Rightarrow> hm_goto t (if mixPtrMk (getPtr v) (getMk v) \<noteq> hnext s c then HSearch g else HChk g r c v) s
   | HChk g r c v \<Rightarrow> hm_goto t
       (if prev_val s r \<noteq> c then HSearch g
        else if \<not> getMk v then
          (if goal_key g \<le> hkey s c then HFound g r c (getPtr v) (hkey s c = goal_key g) else HAt g (PNext c) (getPtr v))
        else HUnl g r c (getPtr v)) s
   | HUnl g r c n \<Rightarrow> if prev_val s r = c then hm_goto t (HAt g r n) (hm_unlink r c n s) else hm_goto t (HSearch g) s
   | _ \<Rightarrow> s)"

definition hm_contains :: "nat \<Rightarrow> int \<Rightarrow> bool \<Rightarrow> hm \<Rightarrow> hm" where
  "hm_contains t k found s = hm_endOp t (Contains k) (RBool found) s"

definition hm_doInsert :: "nat \<Rightarrow> hm_pc \<Rightarrow> hm \<Rightarrow> hm" where
  "hm_doInsert t pc s = (case pc of
     HFound (GInsert k v x) r c n found \<Rightarrow>
       if found then hm_endOp t (Insert k v) (RVal (Some (hval s c))) s
       else hm_goto t (HLink k v x r c) (hm_write x (\<lambda>y. y\<lparr>h_next := c\<rparr>) s)
   | HLink k v x r c \<Rightarrow>
       if prev_val s r = c then
         hm_lin t ((hm_abs s)(k \<mapsto> v)) (hm_endOp t (Insert k v) (RVal None)
           ((prev_set r x s)\<lparr>hm_in := insert x (hm_in s), hm_pub := insert x (hm_pub s)\<rparr>))
       else hm_goto t (HSearch (GInsert k v x)) s
   | _ \<Rightarrow> s)"

text \<open>A failed attempt to mark ends the operation for the reclaimer, and the search starts again.\<close>

definition hm_erase :: "nat \<Rightarrow> hm_pc \<Rightarrow> hm \<Rightarrow> hm" where
  "hm_erase t pc s = (case pc of
     HFound (GErase k) r c n found \<Rightarrow>
       if \<not> found then hm_endOp t (Erase k) (RVal None) s
       else if hnext s c = n then
         hm_lin t ((hm_abs s)(k := None)) (hm_goto t (HUnlE k r c n (hval s c)) (hm_write c (\<lambda>y. y\<lparr>h_next := setMk n\<rparr>) s))
       else (hm_goto t (HSearch (GErase k)) s)\<lparr>hm_inop := (hm_inop s)(t := False)\<rparr>
   | HUnlE k r c n v \<Rightarrow>
       if prev_val s r = c then hm_endOp t (Erase k) (RVal (Some v)) (hm_unlink r c n s)
       else hm_goto t (HSearch (GClean k v c)) s
   | HFound (GClean k v d) r c n found \<Rightarrow> hm_endOp t (Erase k) (RVal (Some v)) s
   | _ \<Rightarrow> s)"

text \<open>One step of a thread that is in an operation.\<close>

definition hm_exec :: "nat \<Rightarrow> hm \<Rightarrow> hm" where
  "hm_exec t s = (case hm_pc s t of
     HIdle \<Rightarrow> s
   | HFound (GContains k) r c n found \<Rightarrow> hm_contains t k found s
   | HFound (GInsert k v x) r c n found \<Rightarrow> hm_doInsert t (hm_pc s t) s
   | HLink k v x r c \<Rightarrow> hm_doInsert t (hm_pc s t) s
   | HFound g r c n found \<Rightarrow> hm_erase t (hm_pc s t) s
   | HUnlE k r c n v \<Rightarrow> hm_erase t (hm_pc s t) s
   | HDone op r \<Rightarrow> hm_goto t HIdle s
   | pc \<Rightarrow> list_search t pc s)"

text \<open>\<open>startOp\<close> at the call; \<open>doInsert\<close> allocates its node before it searches.\<close>

definition hm_start :: "nat \<Rightarrow> hm_goal \<Rightarrow> hm \<Rightarrow> hm" where
  "hm_start t g s = (hm_goto t (HSearch g) s)\<lparr>hm_inop := (hm_inop s)(t := True),
     hm_hist := (hm_hist s)(t := {hm_abs s}), hm_lp := (hm_lp s)(t := None)\<rparr>"

inductive hm_step :: "hm \<Rightarrow> nat \<Rightarrow> hm \<Rightarrow> bool" where
  hm_call: "hm_pc s t = HIdle \<Longrightarrow> hm_min s < k \<Longrightarrow> k < hm_max s \<Longrightarrow> g = GContains k \<or> g = GErase k \<Longrightarrow> hm_step s t (hm_start t g s)"
| hm_call_insert: "hm_pc s t = HIdle \<Longrightarrow> hm_min s < k \<Longrightarrow> k < hm_max s \<Longrightarrow> x \<noteq> NULL \<Longrightarrow> \<not> getMk x \<Longrightarrow> x \<notin> hm_alloc s \<Longrightarrow>
    hm_step s t (hm_start t (GInsert k v x) ((hm_write x (\<lambda>_. hm_new_node k v NULL) s)\<lparr>hm_alloc := insert x (hm_alloc s)\<rparr>))"
| hm_run: "hm_pc s t \<noteq> HIdle \<Longrightarrow> hm_step s t (hm_exec t s)"

inductive hm_reach :: "hm \<Rightarrow> bool" where
  hm_begin: "KEY_MIN < KEY_MAX \<Longrightarrow> tl_node \<noteq> hd_node \<Longrightarrow> tl_node \<noteq> NULL \<Longrightarrow> hd_node \<noteq> NULL \<Longrightarrow> \<not> getMk tl_node \<Longrightarrow> \<not> getMk hd_node \<Longrightarrow>
    hm_reach (hm_new mem tl_node hd_node KEY_MIN KEY_MAX)"
| hm_more: "hm_reach s \<Longrightarrow> hm_step s t s' \<Longrightarrow> hm_reach s'"

end
