(* ===== verification/HmList_Inv.thy ===== *)
theory HmList_Inv
  imports HmList
begin

text \<open>
  The invariant of the list of Harris and Michael. Its nodes are those of a lazy list without locks,
  so the facts about links, marks, and the map are those of the lazy list, through a projection.
\<close>

subsection \<open>The projection and the clauses\<close>

definition hm_lz :: "hm \<Rightarrow> lz" where
  "hm_lz s = \<lparr>lz_mem = (\<lambda>x. \<lparr>n_key = hkey s x, n_val = hval s x, n_next = getPtr (hnext s x), n_lock = None, n_marked = getMk (hnext s x)\<rparr>),
     lz_head = hm_head s, lz_tail = hm_tail s, lz_min = hm_min s, lz_max = hm_max s, lz_alloc = hm_alloc s, lz_pc = (\<lambda>_. LIdle),
     lz_in = hm_in s, lz_pub = hm_pub s, lz_retired = hm_retired s, lz_abs = hm_abs s,
     lz_hist = (\<lambda>_. {}), lz_since = (\<lambda>_. {}), lz_lp = (\<lambda>_. None)\<rparr>"

lemma hm_lz_simps [simp]:
  "key_of (hm_lz s) x = hkey s x" "val_of (hm_lz s) x = hval s x" "next_of (hm_lz s) x = getPtr (hnext s x)"
  "marked_of (hm_lz s) x = getMk (hnext s x)" "lz_head (hm_lz s) = hm_head s" "lz_tail (hm_lz s) = hm_tail s"
  "lz_min (hm_lz s) = hm_min s" "lz_max (hm_lz s) = hm_max s" "lz_alloc (hm_lz s) = hm_alloc s" "lz_in (hm_lz s) = hm_in s"
  "lz_pub (hm_lz s) = hm_pub s" "lz_retired (hm_lz s) = hm_retired s" "lz_abs (hm_lz s) = hm_abs s"
  by (simp_all add: hm_lz_def)

text \<open>The result of an operation, as for the lazy list; \<open>contains\<close> returns a truth value.\<close>

definition hm_result_ok :: "hm \<Rightarrow> nat \<Rightarrow> lz_op \<Rightarrow> hm_result \<Rightarrow> bool" where
  "hm_result_ok s t op r \<longleftrightarrow> (case op of
      Contains k \<Rightarrow> (\<exists>b. r = RBool b \<and> (\<exists>A\<in>hm_hist s t. (A k \<noteq> None) = b))
    | Insert k v \<Rightarrow> (\<exists>w. r = RVal (Some w) \<and> (\<exists>A\<in>hm_hist s t. A k = Some w))
        \<or> r = RVal None \<and> (\<exists>A\<in>hm_hist s t. A k = None \<and> hm_lp s t = Some (A, A(k \<mapsto> v)))
    | Erase k \<Rightarrow> (\<exists>w. r = RVal (Some w) \<and> (\<exists>A\<in>hm_hist s t. A k = Some w \<and> hm_lp s t = Some (A, A(k := None))))
        \<or> r = RVal None \<and> (\<exists>A\<in>hm_hist s t. A k = None))"

definition goal_ok :: "hm \<Rightarrow> nat \<Rightarrow> hm_goal \<Rightarrow> bool" where
  "goal_ok s t g \<longleftrightarrow> hm_min s < goal_key g \<and> goal_key g < hm_max s
     \<and> (\<forall>k v x. g = GInsert k v x \<longrightarrow> x \<in> hm_alloc s - hm_pub s \<and> hkey s x = k \<and> hval s x = v)
     \<and> (\<forall>k v d. g = GClean k v d \<longrightarrow> hm_result_ok s t (Erase k) (RVal (Some v)) \<and> d \<in> hm_pub s \<and> hkey s d = k \<and> getMk (hnext s d))"

definition prev_ok :: "hm \<Rightarrow> int \<Rightarrow> prev_ref \<Rightarrow> ptr \<Rightarrow> bool" where
  "prev_ok s k r c \<longleftrightarrow> c \<in> hm_pub s \<and> (r = PHead \<longrightarrow> c = hm_head s) \<and> (\<forall>p. r = PNext p \<longrightarrow> p \<in> hm_pub s \<and> hkey s p < k)"

text \<open>What the first read of the link of a node tells.\<close>

definition link_seen :: "hm \<Rightarrow> nat \<Rightarrow> hm_goal \<Rightarrow> ptr \<Rightarrow> ptr \<Rightarrow> bool" where
  "link_seen s t g c v \<longleftrightarrow> (c \<noteq> hm_tail s \<longrightarrow> getPtr v \<in> hm_pub s) \<and> (getMk v \<longrightarrow> hnext s c = v)
     \<and> (\<not> getMk v \<longrightarrow> (hm_min s < hkey s c \<longrightarrow> hkey s c < hm_max s \<longrightarrow> (\<exists>A\<in>hm_hist s t. A (hkey s c) = Some (hval s c)))
          \<and> (\<forall>k w d. g = GClean k w d \<longrightarrow> c \<noteq> d))"

definition found_ok :: "hm \<Rightarrow> nat \<Rightarrow> int \<Rightarrow> ptr \<Rightarrow> ptr \<Rightarrow> bool \<Rightarrow> bool" where
  "found_ok s t k c n b \<longleftrightarrow> k \<le> hkey s c \<and> b = (hkey s c = k) \<and> \<not> getMk n
     \<and> (b \<longrightarrow> (\<exists>A\<in>hm_hist s t. A k = Some (hval s c))) \<and> (\<not> b \<longrightarrow> (\<exists>A\<in>hm_hist s t. A k = None))"

definition hm_pc_ok :: "hm \<Rightarrow> nat \<Rightarrow> hm_pc \<Rightarrow> bool" where
  "hm_pc_ok s t pc \<longleftrightarrow> (case pc of
      HIdle \<Rightarrow> True
    | HSearch g \<Rightarrow> goal_ok s t g
    | HAt g r c \<Rightarrow> goal_ok s t g \<and> prev_ok s (goal_key g) r c
    | HNx g r c v \<Rightarrow> goal_ok s t g \<and> prev_ok s (goal_key g) r c \<and> link_seen s t g c v
    | HChk g r c v \<Rightarrow> goal_ok s t g \<and> prev_ok s (goal_key g) r c \<and> link_seen s t g c v
    | HUnl g r c n \<Rightarrow> goal_ok s t g \<and> prev_ok s (goal_key g) r c \<and> hnext s c = setMk n \<and> \<not> getMk n \<and> n \<in> hm_pub s
    | HFound g r c n b \<Rightarrow> goal_ok s t g \<and> prev_ok s (goal_key g) r c \<and> found_ok s t (goal_key g) c n b
    | HLink k v x r c \<Rightarrow> goal_ok s t (GInsert k v x) \<and> prev_ok s k r c \<and> k < hkey s c \<and> hnext s x = c
    | HUnlE k r c n v \<Rightarrow> prev_ok s k r c \<and> hm_min s < k \<and> k < hm_max s \<and> hkey s c = k \<and> hnext s c = setMk n \<and> \<not> getMk n \<and> n \<in> hm_pub s
        \<and> hm_result_ok s t (Erase k) (RVal (Some v))
    | HDone op r \<Rightarrow> hm_result_ok s t op r)"

text \<open>The new node of an insertion, and the marked node an erase has still to see unlinked.\<close>

fun new_of :: "hm_goal \<Rightarrow> ptr set" where
  "new_of (GInsert k v x) = {x}"
| "new_of _ = {}"

fun due_of :: "hm_goal \<Rightarrow> ptr set" where
  "due_of (GClean k v d) = {d}"
| "due_of _ = {}"

fun own :: "hm_pc \<Rightarrow> ptr set" where
  "own (HSearch g) = new_of g"
| "own (HAt g r c) = new_of g"
| "own (HNx g r c v) = new_of g"
| "own (HChk g r c v) = new_of g"
| "own (HUnl g r c n) = new_of g"
| "own (HFound g r c n b) = new_of g"
| "own (HLink k v x r c) = {x}"
| "own _ = {}"

fun due :: "hm_pc \<Rightarrow> ptr set" where
  "due (HSearch g) = due_of g"
| "due (HAt g r c) = due_of g"
| "due (HNx g r c v) = due_of g"
| "due (HChk g r c v) = due_of g"
| "due (HUnl g r c n) = due_of g"
| "due (HUnlE k r c n v) = {c}"
| "due _ = {}"

definition hm_inv :: "hm \<Rightarrow> bool" where
  "hm_inv s \<longleftrightarrow> list_ok (hm_lz s) \<and> (\<forall>x\<in>hm_alloc s. \<not> getMk x)
     \<and> (\<forall>x\<in>hm_pub s. x \<noteq> hm_tail s \<longrightarrow> getPtr (hnext s x) \<in> hm_pub s)
     \<and> (\<forall>t. hm_pc_ok s t (hm_pc s t) \<and> (hm_pc s t \<noteq> HIdle \<longrightarrow> hm_abs s \<in> hm_hist s t))
     \<and> (\<forall>t u. t \<noteq> u \<longrightarrow> own (hm_pc s t) \<inter> own (hm_pc s u) = {})
     \<and> (\<forall>d\<in>hm_in s. getMk (hnext s d) \<longrightarrow> (\<exists>t. d \<in> due (hm_pc s t)))"

lemma hm_invD:
  assumes "hm_inv s"
  shows "list_ok (hm_lz s)" "x \<in> hm_alloc s \<Longrightarrow> \<not> getMk x" "x \<in> hm_pub s \<Longrightarrow> x \<noteq> hm_tail s \<Longrightarrow> getPtr (hnext s x) \<in> hm_pub s"
    "hm_pc_ok s t (hm_pc s t)" "hm_pc s t \<noteq> HIdle \<Longrightarrow> hm_abs s \<in> hm_hist s t" "t \<noteq> u \<Longrightarrow> own (hm_pc s t) \<inter> own (hm_pc s u) = {}"
    "d \<in> hm_in s \<Longrightarrow> getMk (hnext s d) \<Longrightarrow> \<exists>t. d \<in> due (hm_pc s t)"
  using assms unfolding hm_inv_def by blast+

text \<open>The new node of an insertion is nobody else's, and not in the list.\<close>

lemma goal_new: "goal_ok s t g \<Longrightarrow> x \<in> new_of g \<Longrightarrow> x \<in> hm_alloc s - hm_pub s"
  by (cases g) (auto simp: goal_ok_def)

lemma own_new: "hm_pc_ok s t pc \<Longrightarrow> x \<in> own pc \<Longrightarrow> x \<in> hm_alloc s - hm_pub s"
  by (cases pc) (auto simp: hm_pc_ok_def dest: goal_new intro: goal_new [of s t "GInsert _ _ x"])

lemma own_apart:
  assumes "hm_inv s" and "u \<noteq> t" and "x \<in> own (hm_pc s u)"
  shows "x \<in> hm_alloc s - hm_pub s" "x \<notin> own (hm_pc s t)"
  using own_new [OF hm_invD(4) [OF assms(1)] assms(3)] hm_invD(6) [OF assms(1,2)] assms(3) by auto

subsection \<open>What the steps of other threads keep\<close>

text \<open>Nodes keep their keys and values, the link of a marked node never changes, and histories grow.\<close>

definition hm_ext :: "nat \<Rightarrow> hm \<Rightarrow> hm \<Rightarrow> bool" where
  "hm_ext t s s' \<longleftrightarrow> hm_head s' = hm_head s \<and> hm_tail s' = hm_tail s \<and> hm_min s' = hm_min s \<and> hm_max s' = hm_max s
     \<and> hm_pub s \<subseteq> hm_pub s' \<and> hm_alloc s \<subseteq> hm_alloc s'
     \<and> (\<forall>x\<in>hm_pub s. hkey s' x = hkey s x \<and> hval s' x = hval s x \<and> (getMk (hnext s x) \<longrightarrow> hnext s' x = hnext s x))
     \<and> hm_hist s t \<subseteq> hm_hist s' t \<and> hm_lp s' t = hm_lp s t"

lemma hm_result_keep: "hm_ext t s s' \<Longrightarrow> hm_result_ok s t op r \<Longrightarrow> hm_result_ok s' t op r"
  unfolding hm_ext_def hm_result_ok_def by (cases op; simp; blast)

lemma goal_keep:
  assumes "hm_ext t s s'" and "goal_ok s t g" and "\<And>x. x \<in> new_of g \<Longrightarrow> x \<notin> hm_pub s' \<and> hm_mem s' x = hm_mem s x"
  shows "goal_ok s' t g"
proof (cases g)
  case (GClean k v d)
  then show ?thesis using assms(1,2) hm_result_keep [OF assms(1)] by (auto simp: goal_ok_def hm_ext_def)
qed (use assms in \<open>auto simp: goal_ok_def hm_ext_def\<close>)

lemma prev_keep: "hm_ext t s s' \<Longrightarrow> prev_ok s k r c \<Longrightarrow> prev_ok s' k r c"
  by (auto simp: prev_ok_def hm_ext_def)

lemma seen_keep: "hm_ext t s s' \<Longrightarrow> prev_ok s k r c \<Longrightarrow> link_seen s t g c v \<Longrightarrow> link_seen s' t g c v"
  unfolding prev_ok_def hm_ext_def link_seen_def by (simp (no_asm_simp)) blast

lemma found_keep: "hm_ext t s s' \<Longrightarrow> prev_ok s k r c \<Longrightarrow> found_ok s t k c n b \<Longrightarrow> found_ok s' t k c n b"
  unfolding prev_ok_def hm_ext_def found_ok_def by (simp (no_asm_simp)) blast

lemma hm_pc_keep:
  assumes e: "hm_ext t s s'" and ok: "hm_pc_ok s t pc" and own: "\<And>x. x \<in> own pc \<Longrightarrow> x \<notin> hm_pub s' \<and> hm_mem s' x = hm_mem s x"
  shows "hm_pc_ok s' t pc"
proof -
  have n: "hkey s' c = hkey s c" "getMk (hnext s c) \<Longrightarrow> hnext s' c = hnext s c" if "prev_ok s k r c" for k r c
    using e that by (auto simp: prev_ok_def hm_ext_def)
  have c: "hm_min s' = hm_min s" "hm_max s' = hm_max s" "hm_pub s \<subseteq> hm_pub s'" using e by (simp_all add: hm_ext_def)
  show ?thesis
  proof (cases pc)
    case (HLink k v x r d)
    have "goal_ok s' t (GInsert k v x)" by (rule goal_keep [OF e]) (use ok own HLink in \<open>auto simp: hm_pc_ok_def\<close>)
    then show ?thesis using ok HLink own prev_keep [OF e] n(1) [of k r d] by (simp add: hm_pc_ok_def)
  next
    case (HUnlE k r d m v)
    then show ?thesis using ok prev_keep [OF e, of k r d] n [of k r d] c hm_result_keep [OF e] by (auto simp: hm_pc_ok_def)
  next
    case (HUnl g r d m)
    have "goal_ok s' t g" by (rule goal_keep [OF e]) (use ok own HUnl in \<open>auto simp: hm_pc_ok_def\<close>)
    then show ?thesis using ok HUnl prev_keep [OF e, of "goal_key g" r d] n [of "goal_key g" r d] c by (auto simp: hm_pc_ok_def)
  qed (use ok own goal_keep [OF e] prev_keep [OF e] seen_keep [OF e] found_keep [OF e] hm_result_keep [OF e] in \<open>auto simp: hm_pc_ok_def\<close>)
qed

text \<open>The invariant after a step of thread \<open>t\<close>.\<close>

lemma hm_invI:
  assumes inv: "hm_inv s" and ok: "list_ok (hm_lz s')"
    and even: "\<And>x. x \<in> hm_alloc s' \<Longrightarrow> \<not> getMk x" and links: "\<And>x. x \<in> hm_pub s' \<Longrightarrow> x \<noteq> hm_tail s' \<Longrightarrow> getPtr (hnext s' x) \<in> hm_pub s'"
    and others: "\<And>u. u \<noteq> t \<Longrightarrow> hm_pc s' u = hm_pc s u \<and> hm_ext u s s' \<and> (hm_abs s \<in> hm_hist s u \<longrightarrow> hm_abs s' \<in> hm_hist s' u)"
    and priv: "\<And>u x. u \<noteq> t \<Longrightarrow> x \<in> own (hm_pc s u) \<Longrightarrow> x \<notin> hm_pub s' \<and> hm_mem s' x = hm_mem s x \<and> x \<notin> own (hm_pc s' t)"
    and pc: "hm_pc_ok s' t (hm_pc s' t)" and hist: "hm_pc s' t \<noteq> HIdle \<Longrightarrow> hm_abs s' \<in> hm_hist s' t"
    and marks: "\<And>d. d \<in> hm_in s' \<Longrightarrow> getMk (hnext s' d) \<Longrightarrow> d \<in> due (hm_pc s' t) \<or> d \<in> hm_in s \<and> getMk (hnext s d) \<and> d \<notin> due (hm_pc s t)"
  shows "hm_inv s'"
proof -
  have a: "hm_pc_ok s' u (hm_pc s' u) \<and> (hm_pc s' u \<noteq> HIdle \<longrightarrow> hm_abs s' \<in> hm_hist s' u)" for u
  proof (cases "u = t")
    case False
    then show ?thesis using hm_pc_keep [OF _ hm_invD(4) [OF inv], of u s'] others [OF False] priv [OF False] hm_invD(5) [OF inv, of u] by simp
  qed (use pc hist in simp)
  have b: "own (hm_pc s' u) \<inter> own (hm_pc s' w) = {}" if ne: "u \<noteq> w" for u w
  proof -
    consider "u = t" "w \<noteq> t" | "w = t" "u \<noteq> t" | "u \<noteq> t" "w \<noteq> t" using ne by blast
    then show ?thesis
    proof cases
      case 1
      then show ?thesis using others [OF 1(2)] priv [OF 1(2)] by auto
    next
      case 2
      then show ?thesis using others [OF 2(2)] priv [OF 2(2)] by auto
    next
      case 3
      then show ?thesis using others hm_invD(6) [OF inv ne] by simp
    qed
  qed
  have c: "\<exists>u. d \<in> due (hm_pc s' u)" if d: "d \<in> hm_in s'" "getMk (hnext s' d)" for d
  proof (cases "d \<in> due (hm_pc s' t)")
    case False
    then have m: "d \<in> hm_in s" "getMk (hnext s d)" "d \<notin> due (hm_pc s t)" using marks [OF d] by auto
    then obtain u where "d \<in> due (hm_pc s u)" using hm_invD(7) [OF inv] by blast
    then have "u \<noteq> t" "d \<in> due (hm_pc s u)" using m(3) by auto
    then show ?thesis using others by metis
  qed blast
  show ?thesis unfolding hm_inv_def using ok even links a b c by blast
qed

end
