(* ===== verification/HmList_Steps.thy ===== *)
theory HmList_Steps
  imports HmList_Inv
begin

text \<open>Every step of the list of Harris and Michael keeps its invariant.\<close>

subsection \<open>Writes\<close>

lemma hm_goto_simps [simp]:
  "hm_mem (hm_goto t c s) = hm_mem s" "hm_pc (hm_goto t c s) = (hm_pc s)(t := c)" "hm_head (hm_goto t c s) = hm_head s"
  "hm_tail (hm_goto t c s) = hm_tail s" "hm_min (hm_goto t c s) = hm_min s" "hm_max (hm_goto t c s) = hm_max s"
  "hm_alloc (hm_goto t c s) = hm_alloc s" "hm_in (hm_goto t c s) = hm_in s" "hm_pub (hm_goto t c s) = hm_pub s"
  "hm_retired (hm_goto t c s) = hm_retired s" "hm_abs (hm_goto t c s) = hm_abs s" "hm_hist (hm_goto t c s) = hm_hist s"
  "hm_lp (hm_goto t c s) = hm_lp s" "hm_inop (hm_goto t c s) = hm_inop s"
  by (simp_all add: hm_goto_def)

lemma hm_write_simps [simp]:
  "hm_mem (hm_write x f s) = (hm_mem s)(x := f (hm_mem s x))" "hm_pc (hm_write x f s) = hm_pc s" "hm_head (hm_write x f s) = hm_head s"
  "hm_tail (hm_write x f s) = hm_tail s" "hm_min (hm_write x f s) = hm_min s" "hm_max (hm_write x f s) = hm_max s"
  "hm_alloc (hm_write x f s) = hm_alloc s" "hm_in (hm_write x f s) = hm_in s" "hm_pub (hm_write x f s) = hm_pub s"
  "hm_retired (hm_write x f s) = hm_retired s" "hm_abs (hm_write x f s) = hm_abs s" "hm_hist (hm_write x f s) = hm_hist s"
  "hm_lp (hm_write x f s) = hm_lp s" "hm_inop (hm_write x f s) = hm_inop s"
  by (simp_all add: hm_write_def)

lemma hm_lin_simps [simp]:
  "hm_mem (hm_lin t A s) = hm_mem s" "hm_pc (hm_lin t A s) = hm_pc s" "hm_head (hm_lin t A s) = hm_head s"
  "hm_tail (hm_lin t A s) = hm_tail s" "hm_min (hm_lin t A s) = hm_min s" "hm_max (hm_lin t A s) = hm_max s"
  "hm_alloc (hm_lin t A s) = hm_alloc s" "hm_in (hm_lin t A s) = hm_in s" "hm_pub (hm_lin t A s) = hm_pub s"
  "hm_retired (hm_lin t A s) = hm_retired s" "hm_abs (hm_lin t A s) = A" "hm_hist (hm_lin t A s) = (\<lambda>u. insert A (hm_hist s u))"
  "hm_lp (hm_lin t A s) = (hm_lp s)(t := Some (hm_abs s, A))" "hm_inop (hm_lin t A s) = hm_inop s"
  by (simp_all add: hm_lin_def)

text \<open>The reclaimer's view of the operation is no part of the invariant.\<close>

lemma hm_inv_inop [simp]: "hm_inv (s\<lparr>hm_inop := f\<rparr>) = hm_inv s"
proof -
  have g: "goal_ok (s\<lparr>hm_inop := f\<rparr>) = goal_ok s" "prev_ok (s\<lparr>hm_inop := f\<rparr>) = prev_ok s" "link_seen (s\<lparr>hm_inop := f\<rparr>) = link_seen s"
    "found_ok (s\<lparr>hm_inop := f\<rparr>) = found_ok s" "hm_result_ok (s\<lparr>hm_inop := f\<rparr>) = hm_result_ok s"
    by (intro ext, simp add: goal_ok_def prev_ok_def link_seen_def found_ok_def hm_result_ok_def split: lz_op.split)+
  have "hm_pc_ok (s\<lparr>hm_inop := f\<rparr>) = hm_pc_ok s" by (intro ext) (simp add: hm_pc_ok_def g split: hm_pc.split)
  moreover have "hm_lz (s\<lparr>hm_inop := f\<rparr>) = hm_lz s" by (simp add: hm_lz_def)
  ultimately show ?thesis by (simp add: hm_inv_def)
qed

lemma hm_ext_refl: "hm_head s' = hm_head s \<Longrightarrow> hm_tail s' = hm_tail s \<Longrightarrow> hm_min s' = hm_min s \<Longrightarrow> hm_max s' = hm_max s \<Longrightarrow>
    hm_pub s' = hm_pub s \<Longrightarrow> hm_alloc s \<subseteq> hm_alloc s' \<Longrightarrow> (\<And>x. x \<in> hm_pub s \<Longrightarrow> hm_mem s' x = hm_mem s x) \<Longrightarrow>
    hm_hist s' t = hm_hist s t \<Longrightarrow> hm_lp s' t = hm_lp s t \<Longrightarrow> hm_ext t s s'"
  by (simp add: hm_ext_def)

text \<open>Nodes that were never in the list do not matter to it.\<close>

lemma list_ok_outside:
  assumes "list_ok s" and "\<And>x. x \<in> lz_pub s \<Longrightarrow> lz_mem s' x = lz_mem s x" and "lz_alloc s \<subseteq> lz_alloc s'" and "NULL \<notin> lz_alloc s'"
    and "lz_in s' = lz_in s" "lz_pub s' = lz_pub s" "lz_abs s' = lz_abs s" "lz_head s' = lz_head s" "lz_tail s' = lz_tail s"
      "lz_min s' = lz_min s" "lz_max s' = lz_max s" "lz_retired s' = lz_retired s"
  shows "list_ok s'"
proof -
  have sub: "lz_in s \<subseteq> lz_pub s" using assms(1) by (simp add: list_ok_def shape_ok_def)
  have m: "lz_mem s' x = lz_mem s x" if "x \<in> lz_in s" for x using assms(2) sub that by blast
  have "shape_ok s'" using assms(1,3,4) m by (auto simp: list_ok_def shape_ok_def assms(5-12))
  moreover have "links_ok s'" using assms(1) m unfolding list_ok_def links_ok_def assms(5-12) inj_on_def by (metis (no_types, lifting))
  moreover have "pub_ok s'" using assms(1,2) unfolding list_ok_def pub_ok_def assms(5-12) by simp
  moreover have "abs_ok s'" using assms(1) m unfolding list_ok_def abs_ok_def assms(5-12) by simp
  moreover have "retired_ok s'" using assms(1) by (simp add: list_ok_def retired_ok_def assms(5-12))
  ultimately show ?thesis by (simp add: list_ok_def)
qed

lemma hm_inv_goto:
  assumes inv: "hm_inv s" and pc: "hm_pc_ok s t c" "hm_pc s t \<noteq> HIdle" and own: "own c \<subseteq> own (hm_pc s t)"
    and due: "\<And>d. d \<in> due (hm_pc s t) \<Longrightarrow> d \<in> hm_in s \<Longrightarrow> getMk (hnext s d) \<Longrightarrow> d \<in> due c"
  shows "hm_inv (hm_goto t c s)"
proof (rule hm_invI [OF inv, of _ t])
  have e: "hm_ext u s (hm_goto t c s)" for u by (rule hm_ext_refl) simp_all
  show "hm_pc (hm_goto t c s) u = hm_pc s u \<and> hm_ext u s (hm_goto t c s) \<and> (hm_abs s \<in> hm_hist s u \<longrightarrow> hm_abs (hm_goto t c s) \<in> hm_hist (hm_goto t c s) u)"
    if "u \<noteq> t" for u using that e by simp
  have "hm_lz (hm_goto t c s) = hm_lz s" by (simp add: hm_lz_def)
  then show "list_ok (hm_lz (hm_goto t c s))" using hm_invD(1) [OF inv] by simp
  show "x \<notin> hm_pub (hm_goto t c s) \<and> hm_mem (hm_goto t c s) x = hm_mem s x \<and> x \<notin> own (hm_pc (hm_goto t c s) t)"
    if "u \<noteq> t" "x \<in> own (hm_pc s u)" for u x
    using own_apart [OF inv that] own by auto
  have "hm_pc_ok (hm_goto t c s) t c" by (rule hm_pc_keep [OF e pc(1)]) (use own_new [OF pc(1)] in auto)
  then show "hm_pc_ok (hm_goto t c s) t (hm_pc (hm_goto t c s) t)" by simp
  show "hm_abs (hm_goto t c s) \<in> hm_hist (hm_goto t c s) t" using hm_invD(5) [OF inv pc(2)] by simp
qed (use due hm_invD(2,3) [OF inv] in auto)

subsection \<open>What a step of a search finds\<close>

text \<open>When \<open>prev\<close> still points to \<open>curr\<close>, the two are neighbours in the list.\<close>

lemma prev_current:
  assumes inv: "hm_inv s" and p: "prev_ok s k r c" and v: "prev_val s r = c" and k: "k < hm_max s"
  shows "c \<in> hm_in s" "r = PHead \<Longrightarrow> c = hm_head s"
    "r = PNext p \<Longrightarrow> p \<in> hm_in s \<and> p \<noteq> hm_tail s \<and> hnext s p = c \<and> \<not> getMk c \<and> getPtr c = c \<and> hkey s p < k"
proof -
  have ok: "list_ok (hm_lz s)" using hm_invD(1) [OF inv] .
  show h: "c = hm_head s" if "r = PHead" using p that by (simp add: prev_ok_def)
  have "c \<in> hm_alloc s" using p ok by (auto simp: prev_ok_def list_ok_def shape_ok_def)
  then have e: "\<not> getMk c" using hm_invD(2) [OF inv] by blast
  show P: "p \<in> hm_in s \<and> p \<noteq> hm_tail s \<and> hnext s p = c \<and> \<not> getMk c \<and> getPtr c = c \<and> hkey s p < k" if r: "r = PNext p" for p
  proof -
    have n: "hnext s p = c" "p \<in> hm_pub s" "hkey s p < k" using v p r by (simp_all add: prev_val_def prev_ok_def)
    then have "p \<in> hm_in s" using ok e by (auto simp: list_ok_def pub_ok_def)
    moreover have "p \<noteq> hm_tail s" using n(3) k ok by (auto simp: list_ok_def shape_ok_def)
    ultimately show ?thesis using n e getPtr_aligned by simp
  qed
  show "c \<in> hm_in s"
  proof (cases r)
    case PHead
    then show ?thesis using h ok by (simp add: list_ok_def shape_ok_def)
  next
    case (PNext p)
    then show ?thesis using gap_now(2) [OF ok, of p] P [OF PNext] by simp
  qed
qed

text \<open>A key between the node \<open>prev\<close> belongs to and \<open>curr\<close> is not in the map.\<close>

lemma prev_gap:
  assumes inv: "hm_inv s" and p: "prev_ok s k r c" and v: "prev_val s r = c" and k: "hm_min s < k" "k < hm_max s" "k \<le> hkey s c"
  shows "hkey s c \<noteq> k \<Longrightarrow> hm_abs s k = None" "\<exists>p. r = PNext p" "d \<in> hm_in s \<Longrightarrow> hkey s d = k \<Longrightarrow> d = c"
proof -
  have ok: "list_ok (hm_lz s)" using hm_invD(1) [OF inv] .
  have "r \<noteq> PHead" using prev_current(2) [OF inv p v k(2)] k ok by (auto simp: list_ok_def shape_ok_def)
  then show r: "\<exists>p. r = PNext p" by (cases r) auto
  then obtain p' where r: "r = PNext p'" by blast
  note P = prev_current(3) [OF inv p v k(2) r]
  show "hm_abs s k = None" if "hkey s c \<noteq> k" using abs_gap_none [OF ok, of p' k] P that k(3) by simp
  show "d = c" if d: "d \<in> hm_in s" "hkey s d = k"
  proof -
    have "\<forall>x\<in>hm_in s. x \<noteq> hm_tail s \<longrightarrow> (\<forall>y\<in>hm_in s. hkey s y \<le> hkey s x \<or> hkey s (getPtr (hnext s x)) \<le> hkey s y)"
      using ok by (simp add: list_ok_def links_ok_def)
    then have "\<forall>y\<in>hm_in s. hkey s y \<le> hkey s p' \<or> hkey s c \<le> hkey s y" using P by metis
    then have "hkey s d = hkey s c" using d P k(3) by fastforce
    moreover have "inj_on (hkey s) (hm_in s)" using ok by (simp add: list_ok_def links_ok_def)
    ultimately show ?thesis using inj_onD [of "hkey s" "hm_in s" d c] d(1) prev_current(1) [OF inv p v k(2)] by blast
  qed
qed

lemma read_link:
  assumes inv: "hm_inv s" and t: "hm_pc s t \<noteq> HIdle" and g: "goal_ok s t g" and c: "c \<in> hm_pub s"
  shows "link_seen s t g c (hnext s c)"
proof -
  have ok: "list_ok (hm_lz s)" using hm_invD(1) [OF inv] .
  have "hm_abs s (hkey s c) = Some (hval s c)" if "\<not> getMk (hnext s c)" "hm_min s < hkey s c" "hkey s c < hm_max s"
    using abs_unmarked(4) [OF ok, of c] c that by simp
  then show ?thesis
    using hm_invD(3) [OF inv c] hm_invD(5) [OF inv t] g unfolding link_seen_def goal_ok_def by blast
qed

text \<open>The steps of a search that only read.\<close>

lemma search_read_inv:
  assumes inv: "hm_inv s" and pc: "hm_pc s t = pc" "pc = HSearch g \<or> pc = HAt g r c \<or> pc = HNx g r c v \<or> pc = HChk g r c v"
  shows "hm_inv (list_search t pc s)"
proof -
  have ok: "list_ok (hm_lz s)" using hm_invD(1) [OF inv] .
  have P: "hm_pc_ok s t pc" "pc \<noteq> HIdle" using hm_invD(4) [OF inv, of t] pc by auto
  have g: "goal_ok s t g" using P(1) pc(2) by (auto simp: hm_pc_ok_def)
  then have k: "hm_min s < goal_key g" "goal_key g < hm_max s" by (simp_all add: goal_ok_def)
  have o: "own pc = new_of g" "due pc = due_of g" using pc(2) by auto
  note goto = hm_inv_goto [OF inv _ _, of t, unfolded pc(1) o, OF _ P(2)]
  have restart: "hm_inv (hm_goto t (HSearch g) s)" by (rule goto) (use g in \<open>auto simp: hm_pc_ok_def\<close>)
  have nn: "c \<noteq> NULL" if "c \<in> hm_pub s" using ok that by (auto simp: list_ok_def shape_ok_def)
  from pc(2) show ?thesis
  proof (elim disjE)
    assume p: "pc = HSearch g"
    have "hm_head s \<in> hm_pub s" using ok by (auto simp: list_ok_def shape_ok_def)
    then have "hm_inv (hm_goto t (HAt g PHead (hm_head s)) s)" by (intro goto) (use g in \<open>auto simp: hm_pc_ok_def prev_ok_def\<close>)
    then show ?thesis by (simp add: p list_search_def)
  next
    assume p: "pc = HAt g r c"
    have q: "prev_ok s (goal_key g) r c" using P(1) p by (simp add: hm_pc_ok_def)
    then have c: "c \<in> hm_pub s" by (simp add: prev_ok_def)
    have "link_seen s t g c (hnext s c)" using read_link [OF inv _ g c] P(2) pc(1) by simp
    then have "hm_inv (hm_goto t (HNx g r c (hnext s c)) s)" by (intro goto) (use g q in \<open>auto simp: hm_pc_ok_def\<close>)
    then show ?thesis using nn [OF c] by (simp add: p list_search_def)
  next
    assume p: "pc = HNx g r c v"
    have "hm_inv (hm_goto t (HChk g r c v) s)" by (rule goto) (use P(1) p in \<open>auto simp: hm_pc_ok_def\<close>)
    then show ?thesis using restart unfolding p list_search_def by (simp del: getPtr_simps(1))
  next
    assume p: "pc = HChk g r c v"
    have q: "prev_ok s (goal_key g) r c" "link_seen s t g c v" using P(1) p by (simp_all add: hm_pc_ok_def)
    have c: "c \<in> hm_pub s" using q(1) by (simp add: prev_ok_def)
    have tl: "hkey s (hm_tail s) = hm_max s" "\<not> getMk (hnext s (hm_tail s))" using ok by (simp_all add: list_ok_def shape_ok_def)
    show ?thesis
    proof (cases "prev_val s r = c")
      case False
      then show ?thesis using restart by (simp add: p list_search_def)
    next
      case cur: True
      consider "getMk v" | "\<not> getMk v" "hkey s c < goal_key g" | "\<not> getMk v" "goal_key g \<le> hkey s c" by fastforce
      then show ?thesis
      proof cases
        case 1
        have "hnext s c = v" using q(2) 1 by (simp add: link_seen_def)
        moreover have "setMk (getPtr v) = v" using getPtr_simps(1) [of v] 1 by (simp add: setMk_def)
        moreover have "getPtr v \<in> hm_pub s" using q(2) calculation(1) 1 tl(2) by (auto simp: link_seen_def)
        ultimately have "hm_inv (hm_goto t (HUnl g r c (getPtr v)) s)" by (intro goto) (use g q in \<open>auto simp: hm_pc_ok_def\<close>)
        then show ?thesis using cur 1 by (simp add: p list_search_def)
      next
        case 2
        have "c \<noteq> hm_tail s" using 2(2) k(2) tl(1) by auto
        then have "prev_ok s (goal_key g) (PNext c) (getPtr v)" using q 2 c by (simp add: prev_ok_def link_seen_def)
        then have "hm_inv (hm_goto t (HAt g (PNext c) (getPtr v)) s)" by (intro goto) (use g in \<open>auto simp: hm_pc_ok_def\<close>)
        then show ?thesis using cur 2 by (simp add: p list_search_def)
      next
        case 3
        note G = prev_gap [OF inv q(1) cur k 3(2)]
        have "found_ok s t (goal_key g) c (getPtr v) (hkey s c = goal_key g)"
          using q(2) 3 G(1) k hm_invD(5) [OF inv, of t] P(2) pc(1) by (auto simp: found_ok_def link_seen_def)
        moreover have "due_of g \<inter> hm_in s = {}"
        proof (cases g)
          case (GClean i w d)
          then have "c \<noteq> d" "hkey s d = i" using q(2) 3(1) g by (auto simp: link_seen_def goal_ok_def)
          then show ?thesis using G(3) [of d] GClean by auto
        qed auto
        ultimately have "hm_inv (hm_goto t (HFound g r c (getPtr v) (hkey s c = goal_key g)) s)"
          by (intro goto) (use g q in \<open>auto simp: hm_pc_ok_def\<close>)
        then show ?thesis using cur 3 by (simp add: p list_search_def)
      qed
    qed
  qed
qed

subsection \<open>The steps that change the list\<close>

lemma hm_result_lp:
  assumes "hm_abs s \<in> hm_hist s t" and "hm_abs s k = None"
  shows "hm_result_ok (hm_lin t ((hm_abs s)(k \<mapsto> v)) s) t (Insert k v) (RVal None)"
  using assms unfolding hm_result_ok_def by auto

text \<open>Unlinking a marked node, by a search or by the erase that marked it.\<close>

lemma hm_unlink_inv:
  assumes inv: "hm_inv s" and t: "hm_pc s t \<noteq> HIdle" and q: "prev_ok s k r c" "prev_val s r = c" "k < hm_max s"
    and n: "hnext s c = setMk n" "\<not> getMk n" "n \<in> hm_pub s"
    and own: "own d \<subseteq> own (hm_pc s t)" and due: "due (hm_pc s t) \<subseteq> insert c (due d)"
    and pc: "\<And>s'. hm_ext t s s' \<Longrightarrow> (\<And>x. x \<in> own d \<Longrightarrow> x \<notin> hm_pub s' \<and> hm_mem s' x = hm_mem s x) \<Longrightarrow> hm_pc_ok s' t d"
  shows "hm_inv (hm_goto t d (hm_unlink r c n s))"
proof -
  have ok: "list_ok (hm_lz s)" using hm_invD(1) [OF inv] .
  have sent: "\<not> getMk (hnext s (hm_head s))" "\<not> getMk (hnext s (hm_tail s))" using ok by (simp_all add: list_ok_def shape_ok_def)
  note C = prev_current [OF inv q]
  have ce: "c \<noteq> hm_head s" "c \<noteq> hm_tail s" using sent n(1) by auto
  then obtain p where r: "r = PNext p" using C(2) by (cases r) auto
  note P = C(3) [OF r]
  define s' where "s' = hm_goto t d (hm_unlink r c n s)"
  have f: "hm_in s' = hm_in s - {c}" "hm_pub s' = hm_pub s" "hm_abs s' = hm_abs s" "hm_head s' = hm_head s" "hm_tail s' = hm_tail s"
      "hm_min s' = hm_min s" "hm_max s' = hm_max s" "hm_alloc s' = hm_alloc s" "hm_retired s' = c # hm_retired s"
      "hm_hist s' = hm_hist s" "hm_lp s' = hm_lp s" "hm_pc s' = (hm_pc s)(t := d)"
    and m: "hm_mem s' = (hm_mem s)(p := (hm_mem s p)\<lparr>h_next := n\<rparr>)"
    by (simp_all add: s'_def hm_unlink_def prev_set_def r)
  have mem: "hkey s' y = hkey s y \<and> hval s' y = hval s y \<and> hnext s' y = (if y = p then n else hnext s y)" for y by (simp add: m)
  have pp: "p \<in> hm_pub s" "\<not> getMk (hnext s p)" "hm_in s \<subseteq> hm_pub s" "hm_pub s \<subseteq> hm_alloc s" using P ok by (auto simp: list_ok_def shape_ok_def)
  have e: "hm_ext u s s'" for u using pp(2) by (auto simp: hm_ext_def f mem)
  have "list_ok (hm_lz s')"
    by (rule list_ok_unlink [OF ok, of p c]) (use P ce n getPtr_aligned [OF n(2)] in \<open>auto simp: f mem\<close>)
  moreover have "hm_mem s' x = hm_mem s x" if "x \<in> own (hm_pc s u)" for x u
    using own_new [OF hm_invD(4) [OF inv] that] pp(1) by (auto simp: m)
  note priv = this
  moreover have "hm_pc_ok s' t d"
    by (rule pc [OF e]) (use own priv own_new [OF hm_invD(4) [OF inv, of t]] f in blast)
  ultimately have "hm_inv s'"
  proof (intro hm_invI [OF inv, of s' t])
    show "getPtr (hnext s' x) \<in> hm_pub s'" if "x \<in> hm_pub s'" "x \<noteq> hm_tail s'" for x
      using hm_invD(3) [OF inv, of x] that n(3) getPtr_aligned [OF n(2)] by (simp add: f mem)
    show "x \<notin> hm_pub s' \<and> hm_mem s' x = hm_mem s x \<and> x \<notin> own (hm_pc s' t)" if "u \<noteq> t" "x \<in> own (hm_pc s u)" for u x
      using own_apart [OF inv that] priv [OF that(2)] own f by auto
    show "y \<in> due (hm_pc s' t) \<or> y \<in> hm_in s \<and> getMk (hnext s y) \<and> y \<notin> due (hm_pc s t)"
      if "y \<in> hm_in s'" "getMk (hnext s' y)" for y
      using that due n(2) by (auto simp: f mem split: if_splits)
  qed (use e f hm_invD(2,5) [OF inv] t in auto)
  then show ?thesis by (simp only: s'_def)
qed

lemma search_unlink_inv:
  assumes inv: "hm_inv s" and pc: "hm_pc s t = HUnl g r c n"
  shows "hm_inv (list_search t (hm_pc s t) s)"
proof -
  have P: "goal_ok s t g" "prev_ok s (goal_key g) r c" "hnext s c = setMk n" "\<not> getMk n" "n \<in> hm_pub s"
    using hm_invD(4) [OF inv, of t] pc by (auto simp: hm_pc_ok_def)
  show ?thesis
  proof (cases "prev_val s r = c")
    case True
    have k: "goal_key g < hm_max s" using P(1) by (simp add: goal_ok_def)
    have r: "r \<noteq> PHead"
      using prev_current(2) [OF inv P(2) True k] P(3) hm_invD(1) [OF inv] by (auto simp: list_ok_def shape_ok_def)
    have "hm_inv (hm_goto t (HAt g r n) (hm_unlink r c n s))"
    proof (rule hm_unlink_inv [OF inv _ P(2) True k P(3-5)])
      fix s' assume e: "hm_ext t s s'" and o: "\<And>x. x \<in> own (HAt g r n) \<Longrightarrow> x \<notin> hm_pub s' \<and> hm_mem s' x = hm_mem s x"
      have "prev_ok s (goal_key g) r n" using P(2,5) r by (simp add: prev_ok_def)
      then show "hm_pc_ok s' t (HAt g r n)" using goal_keep [OF e P(1)] prev_keep [OF e] o by (simp add: hm_pc_ok_def)
    qed (use pc in auto)
    then show ?thesis using True pc by (simp add: list_search_def)
  next
    case False
    have "hm_inv (hm_goto t (HSearch g) s)" by (rule hm_inv_goto [OF inv]) (use P(1) pc in \<open>auto simp: hm_pc_ok_def\<close>)
    then show ?thesis using False pc by (simp add: list_search_def)
  qed
qed

text \<open>Linking the new node.\<close>

lemma hm_link_inv:
  assumes inv: "hm_inv s" and pc: "hm_pc s t = HLink k v x r c" and cur: "prev_val s r = c"
  shows "hm_inv (hm_lin t ((hm_abs s)(k \<mapsto> v)) (hm_goto t (HDone (Insert k v) (RVal None))
           ((prev_set r x s)\<lparr>hm_in := insert x (hm_in s), hm_pub := insert x (hm_pub s)\<rparr>)))"
proof -
  have ok: "list_ok (hm_lz s)" using hm_invD(1) [OF inv] .
  have P: "prev_ok s k r c" "k < hkey s c" "hnext s x = c" "x \<in> hm_alloc s" "x \<notin> hm_pub s" "hkey s x = k" "hval s x = v"
      "hm_min s < k" "k < hm_max s"
    using hm_invD(4) [OF inv, of t] pc by (auto simp: hm_pc_ok_def goal_ok_def)
  obtain p where r: "r = PNext p" using prev_gap(2) [OF inv P(1) cur P(8,9)] P(2) by auto
  note Q = prev_current(3) [OF inv P(1) cur P(9) r] and ci = prev_current(1) [OF inv P(1) cur P(9)]
  define s' where "s' = hm_lin t ((hm_abs s)(k \<mapsto> v)) (hm_goto t (HDone (Insert k v) (RVal None))
           ((prev_set r x s)\<lparr>hm_in := insert x (hm_in s), hm_pub := insert x (hm_pub s)\<rparr>))"
  have f: "hm_in s' = insert x (hm_in s)" "hm_pub s' = insert x (hm_pub s)" "hm_abs s' = (hm_abs s)(k \<mapsto> v)" "hm_head s' = hm_head s"
      "hm_tail s' = hm_tail s" "hm_min s' = hm_min s" "hm_max s' = hm_max s" "hm_alloc s' = hm_alloc s" "hm_retired s' = hm_retired s"
      "hm_hist s' = (\<lambda>u. insert ((hm_abs s)(k \<mapsto> v)) (hm_hist s u))" "hm_lp s' = (hm_lp s)(t := Some (hm_abs s, (hm_abs s)(k \<mapsto> v)))"
      "hm_pc s' = (hm_pc s)(t := HDone (Insert k v) (RVal None))"
    and m: "hm_mem s' = (hm_mem s)(p := (hm_mem s p)\<lparr>h_next := x\<rparr>)"
    by (simp_all add: s'_def prev_set_def r)
  have mem: "hkey s' y = hkey s y \<and> hval s' y = hval s y \<and> hnext s' y = (if y = p then x else hnext s y)" for y by (simp add: m)
  have sub: "p \<in> hm_pub s" "hm_pub s \<subseteq> hm_alloc s" "c \<in> hm_pub s" using Q ok ci by (auto simp: list_ok_def shape_ok_def)
  have xe: "\<not> getMk x" "getPtr x = x" "x \<noteq> p" using hm_invD(2) [OF inv P(4)] getPtr_aligned P(5) sub(1) by auto
  have node: "lz_mem (hm_lz s) x = new_node k v c" using P(3,6,7) Q by (simp add: hm_lz_def new_node_def)
  have none: "hm_abs s k = None" using prev_gap(1) [OF inv P(1) cur P(8,9)] P(2) by simp
  have now: "hm_abs s \<in> hm_hist s t" using hm_invD(5) [OF inv, of t] pc by simp
  have e: "hm_ext u s s'" if "u \<noteq> t" for u using Q that by (auto simp: hm_ext_def f mem)
  have priv: "y \<notin> hm_pub s' \<and> hm_mem s' y = hm_mem s y" if "u \<noteq> t" "y \<in> own (hm_pc s u)" for u y
    using own_apart [OF inv that] sub(1) pc by (auto simp: m f)
  have "hm_inv s'"
  proof (rule hm_invI [OF inv, of s' t])
    show "list_ok (hm_lz s')"
      by (rule list_ok_link [OF ok, of p c x k v]) (use Q P xe node in \<open>auto simp: f mem\<close>)
    show "getPtr (hnext s' y) \<in> hm_pub s'" if "y \<in> hm_pub s'" "y \<noteq> hm_tail s'" for y
      using hm_invD(3) [OF inv, of y] that xe P(3) sub(3) Q by (auto simp: f mem)
    show "hm_pc_ok s' t (hm_pc s' t)" using now none by (auto simp: f hm_pc_ok_def hm_result_ok_def)
    show "y \<in> due (hm_pc s' t) \<or> y \<in> hm_in s \<and> getMk (hnext s y) \<and> y \<notin> due (hm_pc s t)"
      if "y \<in> hm_in s'" "getMk (hnext s' y)" for y
      using that xe P(3) Q pc by (auto simp: f mem split: if_splits)
  qed (use e priv f hm_invD(2) [OF inv] in auto)
  then show ?thesis by (simp only: s'_def)
qed

text \<open>Marking.\<close>

lemma hm_mark_inv:
  assumes inv: "hm_inv s" and pc: "hm_pc s t = HFound (GErase k) r c n True" and cur: "hnext s c = n"
  shows "hm_inv (hm_lin t ((hm_abs s)(k := None)) (hm_goto t (HUnlE k r c n (hval s c)) (hm_write c (\<lambda>y. y\<lparr>h_next := setMk n\<rparr>) s)))"
proof -
  have ok: "list_ok (hm_lz s)" using hm_invD(1) [OF inv] .
  have P: "prev_ok s k r c" "c \<in> hm_pub s" "hkey s c = k" "\<not> getMk n" "hm_min s < k" "k < hm_max s"
    using hm_invD(4) [OF inv, of t] pc by (auto simp: hm_pc_ok_def goal_ok_def found_ok_def prev_ok_def)
  have C: "c \<in> hm_in s" "c \<noteq> hm_head s" "c \<noteq> hm_tail s" "hm_abs s k = Some (hval s c)"
    using abs_unmarked [OF ok, of c] P cur by simp_all
  have n: "n \<in> hm_pub s" "getPtr n = n" using hm_invD(3) [OF inv P(2)] C(3) cur getPtr_aligned [OF P(4)] by simp_all
  define s' where "s' = hm_lin t ((hm_abs s)(k := None)) (hm_goto t (HUnlE k r c n (hval s c)) (hm_write c (\<lambda>y. y\<lparr>h_next := setMk n\<rparr>) s))"
  have f: "hm_in s' = hm_in s" "hm_pub s' = hm_pub s" "hm_abs s' = (hm_abs s)(k := None)" "hm_head s' = hm_head s"
      "hm_tail s' = hm_tail s" "hm_min s' = hm_min s" "hm_max s' = hm_max s" "hm_alloc s' = hm_alloc s" "hm_retired s' = hm_retired s"
      "hm_hist s' = (\<lambda>u. insert ((hm_abs s)(k := None)) (hm_hist s u))" "hm_lp s' = (hm_lp s)(t := Some (hm_abs s, (hm_abs s)(k := None)))"
      "hm_pc s' = (hm_pc s)(t := HUnlE k r c n (hval s c))"
    and m: "hm_mem s' = (hm_mem s)(c := (hm_mem s c)\<lparr>h_next := setMk n\<rparr>)"
    by (simp_all add: s'_def)
  have mem: "hkey s' y = hkey s y \<and> hval s' y = hval s y \<and> hnext s' y = (if y = c then setMk n else hnext s y)" for y by (simp add: m)
  have now: "hm_abs s \<in> hm_hist s t" using hm_invD(5) [OF inv, of t] pc by simp
  have e: "hm_ext u s s'" if "u \<noteq> t" for u using that cur P(4) by (auto simp: hm_ext_def f mem)
  have priv: "y \<notin> hm_pub s' \<and> hm_mem s' y = hm_mem s y" if "u \<noteq> t" "y \<in> own (hm_pc s u)" for u y
    using own_apart [OF inv that] P(2) by (auto simp: m f)
  have "hm_inv s'"
  proof (rule hm_invI [OF inv, of s' t])
    show "list_ok (hm_lz s')"
      by (rule list_ok_mark [OF ok, of c]) (use C P(3) cur n(2) in \<open>auto simp: f mem\<close>)
    show "getPtr (hnext s' y) \<in> hm_pub s'" if "y \<in> hm_pub s'" "y \<noteq> hm_tail s'" for y
      using hm_invD(3) [OF inv, of y] that n by (auto simp: f mem)
    show "hm_pc_ok s' t (hm_pc s' t)"
      using now C(4) P n(1) by (auto simp: f mem hm_pc_ok_def hm_result_ok_def prev_ok_def)
    show "y \<in> due (hm_pc s' t) \<or> y \<in> hm_in s \<and> getMk (hnext s y) \<and> y \<notin> due (hm_pc s t)"
      if "y \<in> hm_in s'" "getMk (hnext s' y)" for y
      using that pc by (auto simp: f mem split: if_splits)
  qed (use e priv f hm_invD(2) [OF inv] in auto)
  then show ?thesis by (simp only: s'_def)
qed

subsection \<open>Calls and returns\<close>

lemma hm_call_inv:
  assumes inv: "hm_inv s" and pc: "hm_pc s t = HIdle"
    and f: "hm_head s' = hm_head s" "hm_tail s' = hm_tail s" "hm_min s' = hm_min s" "hm_max s' = hm_max s" "hm_pub s' = hm_pub s"
      "hm_in s' = hm_in s" "hm_abs s' = hm_abs s" "hm_retired s' = hm_retired s" "hm_alloc s \<subseteq> hm_alloc s'" "hm_pc s' = (hm_pc s)(t := HSearch g)"
      "hm_hist s' = (hm_hist s)(t := {hm_abs s})" "hm_lp s' = (hm_lp s)(t := None)"
    and mem: "\<And>x. x \<in> hm_alloc s \<Longrightarrow> hm_mem s' x = hm_mem s x" and g: "goal_ok s' t g"
    and alloc: "\<And>x. x \<in> hm_alloc s' \<Longrightarrow> x \<notin> hm_alloc s \<Longrightarrow> x \<noteq> NULL \<and> \<not> getMk x" and own: "new_of g \<inter> hm_alloc s = {}" "due_of g = {}"
  shows "hm_inv s'"
proof (rule hm_invI [OF inv, of s' t])
  have ok: "list_ok (hm_lz s)" using hm_invD(1) [OF inv] .
  have sub: "hm_pub s \<subseteq> hm_alloc s" "NULL \<notin> hm_alloc s" "hm_in s \<subseteq> hm_pub s" using ok by (simp_all add: list_ok_def shape_ok_def)
  have m: "hm_mem s' x = hm_mem s x" if "x \<in> hm_pub s" for x using mem sub(1) that by blast
  show "list_ok (hm_lz s')"
  proof (rule list_ok_outside [OF ok])
    show "lz_mem (hm_lz s') x = lz_mem (hm_lz s) x" if "x \<in> lz_pub (hm_lz s)" for x using m that by (simp add: hm_lz_def)
    show "NULL \<notin> lz_alloc (hm_lz s')" using alloc sub(2) by auto
  qed (simp_all add: f)
  show "\<not> getMk x" if "x \<in> hm_alloc s'" for x using alloc [OF that] hm_invD(2) [OF inv] by blast
  show "getPtr (hnext s' x) \<in> hm_pub s'" if "x \<in> hm_pub s'" "x \<noteq> hm_tail s'" for x using hm_invD(3) [OF inv, of x] that m by (simp add: f)
  show "hm_pc s' u = hm_pc s u \<and> hm_ext u s s' \<and> (hm_abs s \<in> hm_hist s u \<longrightarrow> hm_abs s' \<in> hm_hist s' u)" if "u \<noteq> t" for u
    using that m by (simp add: hm_ext_def f)
  show "x \<notin> hm_pub s' \<and> hm_mem s' x = hm_mem s x \<and> x \<notin> own (hm_pc s' t)" if "u \<noteq> t" "x \<in> own (hm_pc s u)" for u x
    using own_apart(1) [OF inv that] mem own(1) by (auto simp: f)
  show "hm_pc_ok s' t (hm_pc s' t)" using g by (simp add: f hm_pc_ok_def)
  show "d \<in> due (hm_pc s' t) \<or> d \<in> hm_in s \<and> getMk (hnext s d) \<and> d \<notin> due (hm_pc s t)" if "d \<in> hm_in s'" "getMk (hnext s' d)" for d
    using that m [of d] sub(3) pc by (auto simp: f)
qed (simp add: f)

lemma hm_start_inv:
  assumes inv: "hm_inv s" and pc: "hm_pc s t = HIdle" and k: "hm_min s < k" "k < hm_max s"
  shows "g = GContains k \<or> g = GErase k \<Longrightarrow> hm_inv (hm_start t g s)"
    and "x \<noteq> NULL \<Longrightarrow> \<not> getMk x \<Longrightarrow> x \<notin> hm_alloc s \<Longrightarrow>
      hm_inv (hm_start t (GInsert k v x) ((hm_write x (\<lambda>_. hm_new_node k v NULL) s)\<lparr>hm_alloc := insert x (hm_alloc s)\<rparr>))"
proof -
  have sub: "hm_pub s \<subseteq> hm_alloc s" using hm_invD(1) [OF inv] by (simp add: list_ok_def shape_ok_def)
  show "hm_inv (hm_start t g s)" if "g = GContains k \<or> g = GErase k"
    by (rule hm_call_inv [OF inv pc, of _ g]) (use that k in \<open>auto simp: hm_start_def goal_ok_def\<close>)
  show "hm_inv (hm_start t (GInsert k v x) ((hm_write x (\<lambda>_. hm_new_node k v NULL) s)\<lparr>hm_alloc := insert x (hm_alloc s)\<rparr>))"
    if "x \<noteq> NULL" "\<not> getMk x" "x \<notin> hm_alloc s"
    by (rule hm_call_inv [OF inv pc, of _ "GInsert k v x"]) (use that k sub in \<open>auto simp: hm_start_def goal_ok_def hm_new_node_def\<close>)
qed

text \<open>Preparing the new node.\<close>

lemma hm_store_inv:
  assumes inv: "hm_inv s" and pc: "hm_pc s t = HFound (GInsert k v x) r c n False"
  shows "hm_inv (hm_goto t (HLink k v x r c) (hm_write x (\<lambda>y. y\<lparr>h_next := c\<rparr>) s))" (is "hm_inv ?s")
proof -
  have ok: "list_ok (hm_lz s)" using hm_invD(1) [OF inv] .
  have P: "goal_ok s t (GInsert k v x)" "prev_ok s k r c" "k \<le> hkey s c" "hkey s c \<noteq> k"
    using hm_invD(4) [OF inv, of t] pc by (auto simp: hm_pc_ok_def found_ok_def)
  have x: "x \<in> hm_alloc s" "x \<notin> hm_pub s" using P(1) by (simp_all add: goal_ok_def)
  have sub: "hm_in s \<subseteq> hm_pub s" "NULL \<notin> hm_alloc s" using ok by (simp_all add: list_ok_def shape_ok_def)
  have e: "hm_ext u s ?s" for u using x(2) by (auto simp: hm_ext_def)
  show ?thesis
  proof (rule hm_invI [OF inv, of _ t])
    show "list_ok (hm_lz ?s)"
      by (rule list_ok_outside [OF ok]) (use x sub in \<open>auto simp: hm_lz_def\<close>)
    show "getPtr (hnext ?s y) \<in> hm_pub ?s" if "y \<in> hm_pub ?s" "y \<noteq> hm_tail ?s" for y using hm_invD(3) [OF inv, of y] that x(2) by auto
    show "y \<notin> hm_pub ?s \<and> hm_mem ?s y = hm_mem s y \<and> y \<notin> own (hm_pc ?s t)" if "u \<noteq> t" "y \<in> own (hm_pc s u)" for u y
      using own_apart [OF inv that] pc by auto
    have "goal_ok ?s t (GInsert k v x)" using P(1) by (simp add: goal_ok_def)
    moreover have "hkey ?s c = hkey s c" using P(2) x(2) by (auto simp: prev_ok_def)
    ultimately show "hm_pc_ok ?s t (hm_pc ?s t)" using P prev_keep [OF e P(2)] by (simp add: hm_pc_ok_def)
    show "d \<in> due (hm_pc ?s t) \<or> d \<in> hm_in s \<and> getMk (hnext s d) \<and> d \<notin> due (hm_pc s t)" if "d \<in> hm_in ?s" "getMk (hnext ?s d)" for d
      using that x(2) sub pc by (auto split: if_splits)
  qed (use e hm_invD(2,5) [OF inv] pc in auto)
qed

lemma endOp_inv:
  assumes inv: "hm_inv s" and pc: "hm_pc s t \<noteq> HIdle" and r: "hm_result_ok s t op r" and due: "due (hm_pc s t) = {}"
  shows "hm_inv (hm_endOp t op r s)"
proof -
  have "hm_inv (hm_goto t (HDone op r) s)" by (rule hm_inv_goto [OF inv _ pc]) (use r due in \<open>auto simp: hm_pc_ok_def\<close>)
  then show ?thesis by (simp add: hm_endOp_def)
qed

subsection \<open>All steps\<close>

lemma hm_insert_inv:
  assumes inv: "hm_inv s" and pc: "hm_pc s t = pc" "pc = HFound (GInsert k v x) r c n b \<or> pc = HLink k v x r c"
  shows "hm_inv (hm_doInsert t pc s)"
  using pc(2)
proof
  assume p: "pc = HFound (GInsert k v x) r c n b"
  have "hm_result_ok s t (Insert k v) (RVal (Some (hval s c)))" if b
    using hm_invD(4) [OF inv, of t] that p pc(1) by (auto simp: hm_pc_ok_def found_ok_def hm_result_ok_def)
  then have "hm_inv (hm_endOp t (Insert k v) (RVal (Some (hval s c))) s)" if b using endOp_inv [OF inv, of t] p pc(1) that by simp
  moreover have "hm_inv (hm_goto t (HLink k v x r c) (hm_write x (\<lambda>y. y\<lparr>h_next := c\<rparr>) s))" if "\<not> b"
    using hm_store_inv [OF inv, of t k v x r c n] p pc(1) that by simp
  ultimately show ?thesis by (simp add: p hm_doInsert_def)
next
  assume p: "pc = HLink k v x r c"
  have g: "goal_ok s t (GInsert k v x)" using hm_invD(4) [OF inv, of t] p pc(1) by (simp add: hm_pc_ok_def)
  have "hm_inv (hm_goto t (HSearch (GInsert k v x)) s)" by (rule hm_inv_goto [OF inv]) (use g p pc(1) in \<open>auto simp: hm_pc_ok_def\<close>)
  moreover have "hm_inv (hm_lin t A (hm_endOp t op res y))" if "hm_inv (hm_lin t A (hm_goto t (HDone op res) y))" for A op res y
  proof -
    have "hm_lin t A (hm_endOp t op res y) = (hm_lin t A (hm_goto t (HDone op res) y))\<lparr>hm_inop := (hm_inop y)(t := False)\<rparr>"
      by (simp add: hm_lin_def hm_endOp_def)
    then show ?thesis using that by simp
  qed
  ultimately show ?thesis using hm_link_inv [OF inv] p pc(1) by (simp add: hm_doInsert_def)
qed

lemma erase_found_inv:
  assumes inv: "hm_inv s" and pc: "hm_pc s t = HFound (GErase k) r c n b"
  shows "hm_inv (hm_erase t (hm_pc s t) s)"
proof -
  have P: "goal_ok s t (GErase k)" "\<not> b \<Longrightarrow> \<exists>A\<in>hm_hist s t. A k = None"
    using hm_invD(4) [OF inv, of t] pc by (auto simp: hm_pc_ok_def found_ok_def)
  have "hm_inv (hm_endOp t (Erase k) (RVal None) s)" if "\<not> b"
    using endOp_inv [OF inv, of t] P(2) [OF that] pc by (simp add: hm_result_ok_def)
  moreover have "hm_inv ((hm_goto t (HSearch (GErase k)) s)\<lparr>hm_inop := f\<rparr>)" for f
    unfolding hm_inv_inop by (rule hm_inv_goto [OF inv]) (use P(1) pc in \<open>auto simp: hm_pc_ok_def\<close>)
  ultimately show ?thesis using hm_mark_inv [OF inv, of t k r c n] pc by (simp add: hm_erase_def)
qed

lemma erase_unlink_inv:
  assumes inv: "hm_inv s" and pc: "hm_pc s t = HUnlE k r c n v"
  shows "hm_inv (hm_erase t (hm_pc s t) s)"
proof -
  have P: "prev_ok s k r c" "hm_min s < k" "k < hm_max s" "hkey s c = k" "hnext s c = setMk n" "\<not> getMk n" "n \<in> hm_pub s"
      "hm_result_ok s t (Erase k) (RVal (Some v))"
    using hm_invD(4) [OF inv, of t] pc by (auto simp: hm_pc_ok_def)
  have "hm_inv (hm_goto t (HDone (Erase k) (RVal (Some v))) (hm_unlink r c n s))" if "prev_val s r = c"
    by (rule hm_unlink_inv [OF inv _ P(1) that P(3,5-7)]) (use P(8) pc hm_result_keep in \<open>auto simp: hm_pc_ok_def\<close>)
  then have "hm_inv (hm_endOp t (Erase k) (RVal (Some v)) (hm_unlink r c n s))" if "prev_val s r = c"
    using that by (simp add: hm_endOp_def)
  moreover have "hm_inv (hm_goto t (HSearch (GClean k v c)) s)"
    by (rule hm_inv_goto [OF inv]) (use P pc in \<open>auto simp: hm_pc_ok_def goal_ok_def prev_ok_def\<close>)
  ultimately show ?thesis using pc by (simp add: hm_erase_def)
qed

lemma erase_clean_inv:
  assumes inv: "hm_inv s" and pc: "hm_pc s t = HFound (GClean k v d) r c n b"
  shows "hm_inv (hm_erase t (hm_pc s t) s)"
proof -
  have "hm_result_ok s t (Erase k) (RVal (Some v))" using hm_invD(4) [OF inv, of t] pc by (simp add: hm_pc_ok_def goal_ok_def)
  then show ?thesis using endOp_inv [OF inv, of t] pc by (simp add: hm_erase_def)
qed

lemma hm_exec_inv:
  assumes inv: "hm_inv s" and t: "hm_pc s t \<noteq> HIdle"
  shows "hm_inv (hm_exec t s)"
proof (cases "hm_pc s t")
  case (HSearch g)
  then show ?thesis using search_read_inv [OF inv, of t] by (simp add: hm_exec_def)
next
  case (HAt g r c)
  then show ?thesis using search_read_inv [OF inv, of t] by (simp add: hm_exec_def)
next
  case (HNx g r c v)
  then show ?thesis using search_read_inv [OF inv, of t] by (simp add: hm_exec_def)
next
  case (HChk g r c v)
  then show ?thesis using search_read_inv [OF inv, of t] by (simp add: hm_exec_def)
next
  case (HUnl g r c n)
  then show ?thesis using search_unlink_inv [OF inv HUnl] by (simp add: hm_exec_def)
next
  case (HFound g r c n b)
  show ?thesis
  proof (cases g)
    case (GContains k)
    have "hm_result_ok s t (Contains k) (RBool b)"
      using hm_invD(4) [OF inv, of t] HFound GContains by (cases b) (auto simp: hm_pc_ok_def found_ok_def hm_result_ok_def)
    then show ?thesis using endOp_inv [OF inv t] HFound GContains by (simp add: hm_exec_def hm_contains_def)
  next
    case (GInsert k v x)
    then show ?thesis using hm_insert_inv [OF inv HFound] HFound by (simp add: hm_exec_def)
  next
    case (GErase k)
    then show ?thesis using erase_found_inv [OF inv] HFound by (simp add: hm_exec_def)
  next
    case (GClean k v d)
    then show ?thesis using erase_clean_inv [OF inv] HFound by (simp add: hm_exec_def)
  qed
next
  case (HLink k v x r c)
  then show ?thesis using hm_insert_inv [OF inv HLink] by (simp add: hm_exec_def)
next
  case (HUnlE k r c n v)
  then show ?thesis using erase_unlink_inv [OF inv HUnlE] by (simp add: hm_exec_def)
next
  case (HDone op r)
  have "hm_inv (hm_goto t HIdle s)" by (rule hm_inv_goto [OF inv _ t]) (use HDone in \<open>auto simp: hm_pc_ok_def\<close>)
  then show ?thesis using HDone by (simp add: hm_exec_def)
qed (use t in simp)

lemma hm_step_inv: "hm_inv s \<Longrightarrow> hm_step s t s' \<Longrightarrow> hm_inv s'"
  by (erule hm_step.cases) (use hm_start_inv hm_exec_inv in blast)+

lemma hm_inv_new:
  assumes k: "KEY_MIN < KEY_MAX" and n: "tl_node \<noteq> hd_node" "tl_node \<noteq> NULL" "hd_node \<noteq> NULL" "\<not> getMk tl_node" "\<not> getMk hd_node"
  shows "hm_inv (hm_new mem tl_node hd_node KEY_MIN KEY_MAX)" (is "hm_inv ?s")
proof -
  have m: "hm_mem ?s tl_node = hm_new_node KEY_MAX 0 NULL" "hm_mem ?s hd_node = hm_new_node KEY_MIN 0 tl_node" using n by (simp_all add: hm_new_def)
  have f: "hm_in ?s = {tl_node, hd_node}" "hm_pub ?s = {tl_node, hd_node}" "hm_alloc ?s = {tl_node, hd_node}" "hm_head ?s = hd_node"
    "hm_tail ?s = tl_node" "hm_min ?s = KEY_MIN" "hm_max ?s = KEY_MAX" "hm_retired ?s = []" "hm_abs ?s = Map.empty" "hm_pc ?s = (\<lambda>_. HIdle)"
    by (simp_all add: hm_new_def)
  have g: "getPtr tl_node = tl_node" using n(4) by (rule getPtr_aligned)
  have "shape_ok (hm_lz ?s)" "links_ok (hm_lz ?s)" "pub_ok (hm_lz ?s)" "abs_ok (hm_lz ?s)" "retired_ok (hm_lz ?s)"
    using k n g by (simp_all add: shape_ok_def links_ok_def pub_ok_def abs_ok_def retired_ok_def f m hm_new_node_def)
  then have "list_ok (hm_lz ?s)" by (simp add: list_ok_def)
  then show ?thesis using n g unfolding hm_inv_def f by (simp add: m hm_new_node_def hm_pc_ok_def)
qed

lemma hm_reach_inv: "hm_reach s \<Longrightarrow> hm_inv s"
  by (induction rule: hm_reach.induct) (blast intro: hm_inv_new hm_step_inv)+

end
