(* ===== verification/HmList_Set.thy ===== *)
theory HmList_Set
  imports HmList_Steps LazyList_Set
begin

text \<open>
  What the list of Harris and Michael promises: results are those of a map at one moment of the
  operation, only the linearization points change the map, no marked node is left when nothing runs,
  so the loops over the list are right then; and what \<open>erase\<close> breaks: its retry runs outside
  an operation of the reclaimer.
\<close>

subsection \<open>Links with a mark bit\<close>

text \<open>
  C40. The mark bit and the pointer of a link can be taken apart and put together: for every 64-bit
  word the pair of \<open>getPtr\<close> and \<open>getMk\<close> determines it, and mixing a mark into an even
  address gives both back.
\<close>

theorem hmlist_mark_roundtrip:
  "mixPtrMk (getPtr v) (getMk v) = v \<and> (\<not> getMk x \<longrightarrow> getPtr (mixPtrMk x m) = x \<and> getMk (mixPtrMk x m) = m)
    \<and> (\<not> getMk x \<longrightarrow> setMk x \<noteq> x \<and> getPtr (setMk x) = x)"
  using getPtr_aligned [of x] setMk_ne [of x x] by auto

theorem hmlist_mark_roundtrip_witness:
  "\<not> getMk 6 \<and> getPtr (mixPtrMk 6 True) = 6 \<and> getMk (mixPtrMk 6 True) \<and> getPtr (setMk 6) = 6"
proof -
  have "\<not> getMk 6" by (simp add: getMk_def)
  then show ?thesis using hmlist_mark_roundtrip [of 0 6 True] by simp
qed

subsection \<open>The steps as transitions of a map\<close>

lemma hm_endOp_simps [simp]:
  "hm_abs (hm_endOp t op r s) = hm_abs s" "hm_hist (hm_endOp t op r s) = hm_hist s" "hm_in (hm_endOp t op r s) = hm_in s"
  "hm_pub (hm_endOp t op r s) = hm_pub s" "hm_pc (hm_endOp t op r s) = (hm_pc s)(t := HDone op r)"
  by (simp_all add: hm_endOp_def)

lemma prev_set_simps [simp]:
  "hm_abs (prev_set r x s) = hm_abs s" "hm_hist (prev_set r x s) = hm_hist s" "hm_in (prev_set r x s) = hm_in s"
  "hm_pub (prev_set r x s) = hm_pub s" "hm_pc (prev_set r x s) = hm_pc s"
  by (cases r; simp add: prev_set_def)+

lemma hm_unlink_simps [simp]:
  "hm_abs (hm_unlink r c n s) = hm_abs s" "hm_hist (hm_unlink r c n s) = hm_hist s" "hm_in (hm_unlink r c n s) = hm_in s - {c}"
  "hm_pub (hm_unlink r c n s) = hm_pub s" "hm_pc (hm_unlink r c n s) = hm_pc s"
  by (simp_all add: hm_unlink_def)

text \<open>The two linearization points; every other step leaves the map and the histories alone.\<close>

lemma hm_exec_abs:
  "(\<exists>k v x r c. hm_pc s t = HLink k v x r c \<and> prev_val s r = c \<and> hm_abs (hm_exec t s) = (hm_abs s)(k \<mapsto> v)
      \<and> hm_hist (hm_exec t s) = (\<lambda>u. insert ((hm_abs s)(k \<mapsto> v)) (hm_hist s u)))
    \<or> (\<exists>k r c n. hm_pc s t = HFound (GErase k) r c n True \<and> hnext s c = n \<and> hm_abs (hm_exec t s) = (hm_abs s)(k := None)
      \<and> hm_hist (hm_exec t s) = (\<lambda>u. insert ((hm_abs s)(k := None)) (hm_hist s u)))
    \<or> hm_abs (hm_exec t s) = hm_abs s \<and> hm_hist (hm_exec t s) = hm_hist s"
proof (cases "hm_pc s t")
  case (HFound g r c n b)
  then show ?thesis by (cases g) (auto simp: hm_exec_def hm_contains_def hm_doInsert_def hm_erase_def)
next
  case (HLink k v x r c)
  then show ?thesis by (auto simp: hm_exec_def hm_doInsert_def)
next
  case (HUnlE k r c n v)
  then show ?thesis by (simp add: hm_exec_def hm_erase_def)
qed (simp_all add: hm_exec_def list_search_def)

lemma hm_step_abs:
  assumes inv: "hm_inv s" and st: "hm_step s t s'"
  shows "hm_abs s' = hm_abs s \<or> map_step (hm_abs s) (hm_abs s')"
  using st
proof cases
  case hm_run
  have "hm_abs s k = None" if h: "hm_pc s t = HLink k v x r c" "prev_val s r = c" for k v x r c
    using prev_gap(1) [OF inv, of k r c] hm_invD(4) [OF inv, of t] h by (auto simp: hm_pc_ok_def goal_ok_def)
  moreover have "hm_abs s k \<noteq> None" if h: "hm_pc s t = HFound (GErase k) r c n True" "hnext s c = n" for k r c n
    using abs_unmarked(4) [OF hm_invD(1) [OF inv], of c] hm_invD(4) [OF inv, of t] h
    by (auto simp: hm_pc_ok_def goal_ok_def found_ok_def prev_ok_def)
  ultimately show ?thesis using hm_exec_abs [of s t] map_step.intros [of "hm_abs s"] hm_run(1) by metis
qed (simp_all add: hm_start_def)

lemma hm_step_hist:
  assumes inv: "hm_inv s" and st: "hm_step s t s'" and u: "hm_pc s u \<noteq> HIdle"
  shows "hm_hist s' u = insert (hm_abs s') (hm_hist s u)"
proof -
  have now: "hm_abs s \<in> hm_hist s u" using hm_invD(5) [OF inv u] .
  from st show ?thesis
  proof cases
    case hm_run
    show ?thesis using hm_exec_abs [of s t] now unfolding hm_run(1) by (auto simp: insert_absorb)
  qed (use u now in \<open>auto simp: hm_start_def insert_absorb\<close>)
qed

text \<open>
  C35. The list of Harris and Michael is linearizable: in every reachable state, an operation about to
  return has a result that is right for the map at one moment since its call, also after retries and
  after other threads unlinked the node it marked, and an insertion or removal that succeeds changed exactly
  the map it linearizes at. The history of maps gains the current map at every step of any thread.
\<close>

theorem hmlist_linearizable:
  assumes "hm_reach s"
  shows "(\<forall>op r. hm_pc s t = HDone op r \<longrightarrow> hm_result_ok s t op r)
    \<and> (hm_pc s t \<noteq> HIdle \<longrightarrow> (\<forall>u s'. hm_step s u s' \<longrightarrow> hm_hist s' t = insert (hm_abs s') (hm_hist s t)))"
proof (intro conjI allI impI)
  fix op r assume "hm_pc s t = HDone op r"
  then show "hm_result_ok s t op r" using hm_invD(4) [OF hm_reach_inv [OF assms], of t] by (simp add: hm_pc_ok_def)
qed (rule hm_step_hist [OF hm_reach_inv [OF assms]])

text \<open>
  C36. The steps of the list of Harris and Michael refine those of a map: a step leaves the map alone,
  inserts an absent key or removes a present one; the map is the contents of the unmarked nodes in the
  list; and the nodes given to the reclaimer were given once each and are exactly those that were
  unlinked, so that no thread unlinks or retires the node another one did.
\<close>

theorem hmlist_refines_map:
  assumes "hm_reach s" and "hm_step s t s'"
  shows "(hm_abs s' = hm_abs s \<or> map_step (hm_abs s) (hm_abs s'))
    \<and> (\<forall>k v. hm_abs s' k = Some v \<longleftrightarrow>
        (\<exists>x\<in>hm_in s'. \<not> getMk (hnext s' x) \<and> x \<noteq> hm_head s' \<and> x \<noteq> hm_tail s' \<and> hkey s' x = k \<and> hval s' x = v))
    \<and> distinct (hm_retired s') \<and> set (hm_retired s') = hm_pub s' - hm_in s'"
proof -
  have ok: "list_ok (hm_lz s')" using hm_invD(1) [OF hm_reach_inv [OF hm_more [OF assms]]] .
  then have a: "abs_ok (hm_lz s')" "retired_ok (hm_lz s')" by (simp_all add: list_ok_def)
  then show ?thesis using hm_step_abs [OF hm_reach_inv [OF assms(1)] assms(2)] unfolding abs_ok_def retired_ok_def hm_lz_simps by blast
qed

subsection \<open>The loops over the list\<close>

text \<open>
  The loops with an iteration bound; an error is the failed assertion of \<open>debugKeySum\<close>, or a
  marked link that \<open>getDSSize\<close>, which does not mask it, would follow.
\<close>

datatype hm_error = Marked_in_list | Marked_link_followed

fun hm_debugKeySum_loop :: "nat \<Rightarrow> hm \<Rightarrow> ptr \<Rightarrow> int \<Rightarrow> int \<Rightarrow> (hm_error + int) option" where
  "hm_debugKeySum_loop 0 s c result marked_count = None"
| "hm_debugKeySum_loop (Suc n) s c result marked_count =
     (if hkey s c < hm_max s then
        hm_debugKeySum_loop n s (getPtr (hnext s c)) (result + hkey s c) (if getMk (hnext s c) then marked_count + 1 else marked_count)
      else Some (if marked_count = 0 then Inr result else Inl Marked_in_list))"

definition hm_debugKeySum :: "nat \<Rightarrow> hm \<Rightarrow> (hm_error + int) option" where
  "hm_debugKeySum n s = hm_debugKeySum_loop n s (getPtr (hnext s (hm_head s))) 0 0"

fun hm_getDSSize_loop :: "nat \<Rightarrow> hm \<Rightarrow> ptr \<Rightarrow> int \<Rightarrow> (hm_error + int) option" where
  "hm_getDSSize_loop 0 s c result = None"
| "hm_getDSSize_loop (Suc n) s c result =
     (if getMk c then Some (Inl Marked_link_followed)
      else if hkey s c < hm_max s then hm_getDSSize_loop n s (hnext s c) (result + 1) else Some (Inr result))"

definition hm_getDSSize :: "nat \<Rightarrow> hm \<Rightarrow> (hm_error + int) option" where
  "hm_getDSSize n s = hm_getDSSize_loop n s (getPtr (hnext s (hm_head s))) 0"

text \<open>Without marks they are the loops of the lazy list.\<close>

lemma hm_loops_eq:
  assumes ok: "list_ok (hm_lz s)" and nm: "\<forall>x\<in>hm_in s. \<not> getMk (hnext s x)" and al: "\<forall>x\<in>hm_in s. \<not> getMk x"
  shows "c \<in> hm_in s \<Longrightarrow> hm_debugKeySum_loop n s c r 0 = map_option Inr (debugKeySum_loop n (hm_lz s) c r)"
    and "c \<in> hm_in s \<Longrightarrow> hm_getDSSize_loop n s c r = map_option Inr (getDSSize_loop n (hm_lz s) c r)"
proof -
  have step: "getPtr (hnext s c) = hnext s c \<and> hnext s c \<in> hm_in s \<and> \<not> getMk (hnext s c)" if "c \<in> hm_in s" "hkey s c < hm_max s" for c
  proof -
    have "c \<noteq> hm_tail s" using that(2) ok by (auto simp: list_ok_def shape_ok_def)
    then show ?thesis using gap_now(2) [OF ok, of c] that(1) nm getPtr_aligned by simp
  qed
  show "c \<in> hm_in s \<Longrightarrow> hm_debugKeySum_loop n s c r 0 = map_option Inr (debugKeySum_loop n (hm_lz s) c r)"
  proof (induction n arbitrary: c r)
    case (Suc n)
    then show ?case using step [OF Suc.prems] by simp
  qed simp
  show "c \<in> hm_in s \<Longrightarrow> hm_getDSSize_loop n s c r = map_option Inr (getDSSize_loop n (hm_lz s) c r)"
  proof (induction n arbitrary: c r)
    case (Suc n)
    then show ?case using step [OF Suc.prems] al by simp
  qed simp
qed

lemma hm_exec_in: "finite (hm_in s) \<Longrightarrow> finite (hm_in (hm_exec t s))"
proof (cases "hm_pc s t")
  case (HFound g r c n b)
  assume "finite (hm_in s)"
  then show ?thesis using HFound by (cases g) (auto simp: hm_exec_def hm_contains_def hm_doInsert_def hm_erase_def)
qed (auto simp: hm_exec_def hm_contains_def hm_doInsert_def hm_erase_def list_search_def)

lemma hm_reach_finite: "hm_reach s \<Longrightarrow> finite (hm_in s)"
proof (induction rule: hm_reach.induct)
  case (hm_more s t s')
  from hm_more.hyps(2) show ?case using hm_more.IH by cases (auto simp: hm_start_def hm_exec_in)
qed (simp add: hm_new_def)

lemma hm_quiescent_loops:
  assumes "hm_reach s" and "\<forall>t. hm_pc s t = HIdle" and "card (hm_in s) \<le> n"
  shows "(\<forall>x\<in>hm_in s. \<not> getMk (hnext s x)) \<and> hm_debugKeySum n s = Some (Inr (\<Sum>(dom (hm_abs s))))
    \<and> hm_getDSSize n s = Some (Inr (int (card (dom (hm_abs s)))))"
proof -
  note inv = hm_reach_inv [OF assms(1)]
  have ok: "list_ok (hm_lz s)" using hm_invD(1) [OF inv] .
  have nm: "\<forall>x\<in>hm_in s. \<not> getMk (hnext s x)" using hm_invD(7) [OF inv] assms(2) by auto
  have sub: "hm_head s \<in> hm_in s" "hm_head s \<noteq> hm_tail s" "hm_in s \<subseteq> hm_alloc s" using ok by (auto simp: list_ok_def shape_ok_def)
  have al: "\<forall>x\<in>hm_in s. \<not> getMk x" using hm_invD(2) [OF inv] sub(3) by blast
  have c: "getPtr (hnext s (hm_head s)) \<in> hm_in s" using gap_now(2) [OF ok, of "hm_head s"] sub by simp
  have "finite (lz_in (hm_lz s))" "\<forall>x\<in>lz_in (hm_lz s). \<not> marked_of (hm_lz s) x" "card (lz_in (hm_lz s)) \<le> n"
    using hm_reach_finite [OF assms(1)] nm assms(3) by simp_all
  note U = unmarked_sums [OF ok this]
  show ?thesis
    using nm U hm_loops_eq [OF ok nm al c] by (simp add: hm_debugKeySum_def hm_getDSSize_def debugKeySum_def getDSSize_def)
qed

text \<open>
  C38. When no operation is running, the list of Harris and Michael has no marked node left, although a
  failed unlinking leaves one behind until a search passes: so the assertion
  of \<open>debugKeySum\<close> holds and \<open>getDSSize\<close> follows no marked link, and both return, within as many iterations
  as the list has nodes, with the sum and the number of the keys of the map.
\<close>

theorem hmlist_quiescent_clean:
  assumes "hm_reach s" and "\<forall>t. hm_pc s t = HIdle" and "card (hm_in s) \<le> n"
  shows "(\<forall>x\<in>hm_in s. \<not> getMk (hnext s x)) \<and> hm_debugKeySum n s = Some (Inr (\<Sum>(dom (hm_abs s))))
    \<and> hm_getDSSize n s = Some (Inr (int (card (dom (hm_abs s)))))"
  by (rule hm_quiescent_loops [OF assms])

subsection \<open>Runs\<close>

text \<open>A search over one node that passes the head, run by one thread.\<close>

lemma hm_goto_twice [simp]: "hm_goto t a (hm_goto t b s) = hm_goto t a s"
  by (simp add: hm_goto_def)

lemma reach_exec: "hm_reach s \<Longrightarrow> hm_pc s t \<noteq> HIdle \<Longrightarrow> hm_exec t s = s' \<Longrightarrow> hm_reach s'"
  using hm_more hm_run by blast

lemma reach_search:
  assumes r: "hm_reach s" and pc: "hm_pc s t = HSearch g" and h: "hm_head s \<noteq> NULL" "\<not> getMk (hnext s (hm_head s))" "hkey s (hm_head s) < goal_key g"
    and c: "hnext s (hm_head s) = c" "c \<noteq> NULL" "\<not> getMk (hnext s c)" "goal_key g \<le> hkey s c"
  shows "hm_reach (hm_goto t (HFound g (PNext (hm_head s)) c (hnext s c) (hkey s c = goal_key g)) s)"
proof -
  note go = reach_exec [of _ t]
  have n: "getPtr c = c" "getPtr (hnext s c) = hnext s c" using h(2) c(1,3) getPtr_aligned by auto
  have ce: "\<not> getMk c" using h(2) c(1) by simp
  have 1: "hm_reach (hm_goto t (HAt g PHead (hm_head s)) s)" by (rule go [OF r]) (simp_all add: pc hm_exec_def list_search_def)
  have 2: "hm_reach (hm_goto t (HNx g PHead (hm_head s) c) s)" by (rule go [OF 1]) (simp_all add: hm_exec_def list_search_def h c)
  have 3: "hm_reach (hm_goto t (HChk g PHead (hm_head s) c) s)" by (rule go [OF 2]) (simp_all add: hm_exec_def list_search_def h c)
  have 4: "hm_reach (hm_goto t (HAt g (PNext (hm_head s)) c) s)"
    by (rule go [OF 3]) (use h ce n in \<open>simp_all add: hm_exec_def list_search_def prev_val_def\<close>)
  have 5: "hm_reach (hm_goto t (HNx g (PNext (hm_head s)) c (hnext s c)) s)" by (rule go [OF 4]) (simp_all add: hm_exec_def list_search_def c)
  have 6: "hm_reach (hm_goto t (HChk g (PNext (hm_head s)) c (hnext s c)) s)" by (rule go [OF 5]) (simp_all add: hm_exec_def list_search_def c)
  show ?thesis by (rule go [OF 6]) (use c n in \<open>simp_all add: hm_exec_def list_search_def prev_val_def\<close>)
qed

text \<open>Thread 0 inserts 5 at address 6 into the list of the nodes 4 and 2, and returns.\<close>

lemma hm_run_insert:
  "\<exists>s s'. hm_reach s \<and> hm_pc s 0 = HDone (Insert 5 7) (RVal None) \<and> hm_step s 0 s' \<and> hm_reach s' \<and> (\<forall>t. hm_pc s' t = HIdle)
    \<and> hm_abs s' = [5 \<mapsto> 7] \<and> card (hm_in s') = 3 \<and> hm_mem s' = (\<lambda>_. hm_new_node 0 0 NULL)(2 := hm_new_node 10 0 NULL, 4 := hm_new_node 0 0 6, 6 := hm_new_node 5 7 2)
    \<and> hm_head s' = 4 \<and> hm_min s' = 0 \<and> hm_max s' = 10"
proof -
  have e: "\<not> getMk 2" "\<not> getMk 4" "\<not> getMk 6" by (simp_all add: getMk_def)
  let ?g = "GInsert 5 7 6" and ?m = "\<lambda>_. hm_new_node 0 0 NULL"
  define s0 where "s0 = hm_new ?m 2 4 0 10"
  have r0: "hm_reach s0" unfolding s0_def by (rule hm_begin) (simp_all add: e)
  have f0: "hm_mem s0 = ?m(2 := hm_new_node 10 0 NULL, 4 := hm_new_node 0 0 2)" "hm_head s0 = 4" "hm_min s0 = 0" "hm_max s0 = 10" "hm_alloc s0 = {2, 4}"
    "hm_in s0 = {2, 4}" "hm_abs s0 = Map.empty" "hm_pc s0 = (\<lambda>_. HIdle)" by (simp_all add: s0_def hm_new_def)
  define s1 where "s1 = hm_start 0 ?g ((hm_write 6 (\<lambda>_. hm_new_node 5 7 NULL) s0)\<lparr>hm_alloc := insert 6 (hm_alloc s0)\<rparr>)"
  have r1: "hm_reach s1" unfolding s1_def by (rule hm_more [OF r0], rule hm_call_insert) (simp_all add: f0 e)
  have f1: "hm_mem s1 = ?m(2 := hm_new_node 10 0 NULL, 4 := hm_new_node 0 0 2, 6 := hm_new_node 5 7 NULL)" "hm_head s1 = 4"
    "hm_min s1 = 0" "hm_max s1 = 10" "hm_in s1 = {2, 4}" "hm_abs s1 = Map.empty" "hm_pc s1 = (\<lambda>_. HIdle)(0 := HSearch ?g)"
    by (simp_all add: s1_def f0 hm_start_def)
  define s2 where "s2 = hm_goto 0 (HFound ?g (PNext 4) 2 NULL False) s1"
  have r2: "hm_reach s2" using reach_search [OF r1, of 0 ?g 2] by (simp add: f1 s2_def e hm_new_node_def)
  define s3 where "s3 = hm_goto 0 (HLink 5 7 6 (PNext 4) 2) (hm_write 6 (\<lambda>y. y\<lparr>h_next := 2\<rparr>) s2)"
  have r3: "hm_reach s3" by (rule reach_exec [OF r2, of 0]) (simp_all add: s2_def s3_def hm_exec_def hm_doInsert_def)
  have f3: "hm_mem s3 = ?m(2 := hm_new_node 10 0 NULL, 4 := hm_new_node 0 0 2, 6 := hm_new_node 5 7 2)" "hm_head s3 = 4"
    "hm_min s3 = 0" "hm_max s3 = 10" "hm_in s3 = {2, 4}" "hm_abs s3 = Map.empty" "hm_pc s3 = (\<lambda>_. HIdle)(0 := HLink 5 7 6 (PNext 4) 2)"
    using f1 by (simp_all add: s3_def s2_def hm_new_node_def)
  define s4 where "s4 = hm_exec 0 s3"
  have r4: "hm_reach s4" by (rule reach_exec [OF r3, of 0]) (simp_all add: s4_def f3)
  have f4: "hm_mem s4 = ?m(2 := hm_new_node 10 0 NULL, 4 := hm_new_node 0 0 6, 6 := hm_new_node 5 7 2)" "hm_head s4 = 4"
    "hm_min s4 = 0" "hm_max s4 = 10" "hm_in s4 = {6, 2, 4}" "hm_abs s4 = [5 \<mapsto> 7]" "hm_pc s4 = (\<lambda>_. HIdle)(0 := HDone (Insert 5 7) (RVal None))"
    by (simp_all add: s4_def hm_exec_def hm_doInsert_def f3 prev_val_def prev_set_def hm_endOp_def hm_new_node_def fun_upd_twist)
  have "hm_step s4 0 (hm_goto 0 HIdle s4)" using hm_run [of s4 0] by (simp add: f4 hm_exec_def)
  moreover from hm_more [OF r4 this] have "hm_reach (hm_goto 0 HIdle s4)" .
  ultimately show ?thesis using r4 f4 by (intro exI [of _ s4] exI [of _ "hm_goto 0 HIdle s4"]) simp
qed

theorem hmlist_linearizable_witness:
  "\<exists>s. hm_reach s \<and> hm_pc s 0 = HDone (Insert 5 7) (RVal None) \<and> hm_result_ok s 0 (Insert 5 7) (RVal None)"
  using hm_run_insert hmlist_linearizable by blast

theorem hmlist_refines_map_witness:
  "\<exists>s s'. hm_reach s \<and> hm_step s 0 s' \<and> (hm_abs s' = hm_abs s \<or> map_step (hm_abs s) (hm_abs s')) \<and> distinct (hm_retired s')"
  using hm_run_insert hmlist_refines_map by blast

theorem hmlist_quiescent_clean_witness:
  "\<exists>s. hm_reach s \<and> hm_debugKeySum 3 s = Some (Inr 5) \<and> hm_getDSSize 3 s = Some (Inr 1)"
proof -
  obtain s where s: "hm_reach s" "\<forall>t. hm_pc s t = HIdle" "hm_abs s = [5 \<mapsto> 7]" "card (hm_in s) = 3" using hm_run_insert by blast
  then show ?thesis using hmlist_quiescent_clean [OF s(1,2), of 3] by (intro exI [of _ s]) simp
qed

text \<open>
  C39. A retry of \<open>erase\<close> in the list of Harris and Michael runs unprotected: there is a reachable
  state in which a thread reads the links of nodes while it is not between \<open>startOp\<close> and
  \<open>endOp\<close>, because \<open>erase\<close> ends the operation when its attempt to mark the node fails and
  searches again without starting one. An epoch-based reclaimer may free what that search meets.
\<close>

theorem hmlist_erase_retries_unprotected:
  "\<exists>s t k c. hm_reach s \<and> hm_pc s t = HAt (GErase k) PHead c \<and> c \<in> hm_in s \<and> \<not> hm_inop s t"
proof -
  let ?m = "\<lambda>_. hm_new_node 0 0 NULL" and ?g = "GErase 5"
  have e: "\<not> getMk 2" "\<not> getMk 4" "\<not> getMk 6" by (simp_all add: getMk_def)
  obtain s0 where r0: "hm_reach s0" and f0: "hm_mem s0 = ?m(2 := hm_new_node 10 0 NULL, 4 := hm_new_node 0 0 6, 6 := hm_new_node 5 7 2)"
      "hm_head s0 = 4" "hm_min s0 = 0" "hm_max s0 = 10" "\<forall>t. hm_pc s0 t = HIdle"
    using hm_run_insert by blast
  have start: "hm_reach (hm_goto t (HFound ?g (PNext 4) 6 2 True) (hm_start t ?g s))"
    if r: "hm_reach s" and m: "hm_mem s = hm_mem s0" "hm_head s = 4" "hm_min s = 0" "hm_max s = 10" "hm_pc s t = HIdle" for s t
  proof -
    have "hm_reach (hm_start t ?g s)" by (rule hm_more [OF r], rule hm_call [of s t 5]) (simp_all add: m)
    from reach_search [OF this, of t ?g 6] show ?thesis by (simp add: m f0 hm_start_def hm_new_node_def e)
  qed
  define s1 where "s1 = hm_goto 0 (HFound ?g (PNext 4) 6 2 True) (hm_start 0 ?g s0)"
  have r1: "hm_reach s1" unfolding s1_def by (rule start [OF r0]) (simp_all add: f0)
  define s2 where "s2 = hm_goto 1 (HFound ?g (PNext 4) 6 2 True) (hm_start 1 ?g s1)"
  have r2: "hm_reach s2" unfolding s2_def by (rule start [OF r1]) (simp_all add: s1_def hm_start_def f0)
  have f2: "hm_mem s2 = hm_mem s0" "hm_head s2 = 4" "hm_pc s2 0 = HFound ?g (PNext 4) 6 2 True" "hm_pc s2 1 = HFound ?g (PNext 4) 6 2 True"
    by (simp_all add: s2_def s1_def hm_start_def f0)
  define s3 where "s3 = hm_exec 1 s2"
  have r3: "hm_reach s3" by (rule reach_exec [OF r2, of 1]) (simp_all add: s3_def f2(4) [simplified])
  have f3: "hnext s3 6 = setMk 2" "hm_head s3 = 4" "hm_pc s3 0 = HFound ?g (PNext 4) 6 2 True"
    using f2 by (simp_all add: s3_def hm_exec_def hm_erase_def f0 hm_new_node_def)
  define s4 where "s4 = hm_exec 0 s3"
  have r4: "hm_reach s4" by (rule reach_exec [OF r3, of 0]) (simp_all add: s4_def f3)
  have "setMk 2 \<noteq> 2" using e setMk_ne by metis
  then have f4: "hm_pc s4 0 = HSearch ?g" "\<not> hm_inop s4 0" "hm_head s4 = 4" by (simp_all add: s4_def hm_exec_def hm_erase_def f3)
  define s5 where "s5 = hm_exec 0 s4"
  have r5: "hm_reach s5" by (rule reach_exec [OF r4, of 0]) (simp_all add: s5_def f4)
  have "hm_pc s5 0 = HAt ?g PHead 4" "\<not> hm_inop s5 0" by (simp_all add: s5_def hm_exec_def list_search_def f4)
  moreover have "4 \<in> hm_in s5"
    using hm_invD(1) [OF hm_reach_inv [OF r5]] f4(3) by (simp add: s5_def hm_exec_def list_search_def f4 list_ok_def shape_ok_def)
  ultimately show ?thesis using r5 by blast
qed

end
