(* ===== verification/HmTable.thy ===== *)
theory HmTable
  imports HmList_Set
begin

text \<open>
  The hash table of \<open>ds/hm_hashtable/hmht_impl.h\<close>: an array of lists of Harris and Michael, where
  an operation on a key works on the list of the bucket \<open>key % num_buckets\<close>. The functions on the
  list are those of \<open>hmlist_impl.h\<close> but for the choice of the head. Keys are not negative. The
  table is linearizable because its buckets are: the map of the table is the union of their maps.
\<close>

subsection \<open>The table\<close>

text \<open>Ghosts: what maps the table held since the call of a thread, and the change a call made.\<close>

record hmht =
  ht_buckets :: "hm list"
  ht_hist :: "nat \<Rightarrow> absmap set"
  ht_lp :: "nat \<Rightarrow> (absmap \<times> absmap) option"

definition ht_bucket :: "hmht \<Rightarrow> int \<Rightarrow> nat" where
  "ht_bucket s key = nat (key mod int (length (ht_buckets s)))"

definition ht_abs :: "hmht \<Rightarrow> absmap" where
  "ht_abs s key = hm_abs (ht_buckets s ! ht_bucket s key) key"

text \<open>The constructor: for each bucket a list with a head and a tail node of its own.\<close>

definition ht_new :: "(ptr \<Rightarrow> hm_node) \<Rightarrow> (ptr \<times> ptr) list \<Rightarrow> int \<Rightarrow> int \<Rightarrow> hmht" where
  "ht_new mem nodes KEY_MIN KEY_MAX =
     \<lparr>ht_buckets = map (\<lambda>(tl_node, hd_node). hm_new mem tl_node hd_node KEY_MIN KEY_MAX) nodes,
      ht_hist = (\<lambda>_. {}), ht_lp = (\<lambda>_. None)\<rparr>"

definition ht_call :: "nat \<Rightarrow> nat \<Rightarrow> hm \<Rightarrow> hmht \<Rightarrow> hmht" where
  "ht_call t b h s = s\<lparr>ht_buckets := (ht_buckets s)[b := h],
     ht_hist := (ht_hist s)(t := {ht_abs s}), ht_lp := (ht_lp s)(t := None)\<rparr>"

definition ht_move :: "nat \<Rightarrow> nat \<Rightarrow> hm \<Rightarrow> hmht \<Rightarrow> hmht" where
  "ht_move t b h s =
     (let s1 = s\<lparr>ht_buckets := (ht_buckets s)[b := h]\<rparr>
      in s1\<lparr>ht_hist := (\<lambda>u. insert (ht_abs s1) (ht_hist s u)),
            ht_lp := (if hm_lp h t = hm_lp (ht_buckets s ! b) t then ht_lp s
                      else (ht_lp s)(t := Some (ht_abs s, ht_abs s1)))\<rparr>)"

text \<open>A call on the bucket of its key, with a node that no bucket has; a step of a running operation.\<close>

inductive ht_step :: "hmht \<Rightarrow> nat \<Rightarrow> hmht \<Rightarrow> bool" where
  start: "\<forall>c<length (ht_buckets s). hm_pc (ht_buckets s ! c) t = HIdle \<Longrightarrow> b < length (ht_buckets s)
    \<Longrightarrow> hm_step (ht_buckets s ! b) t h \<Longrightarrow> hm_pc h t = HSearch g \<Longrightarrow> 0 \<le> goal_key g \<Longrightarrow> ht_bucket s (goal_key g) = b
    \<Longrightarrow> \<forall>c<length (ht_buckets s). c \<noteq> b \<longrightarrow> hm_alloc h \<inter> hm_alloc (ht_buckets s ! c) = {}
    \<Longrightarrow> ht_step s t (ht_call t b h s)"
| run: "b < length (ht_buckets s) \<Longrightarrow> hm_pc (ht_buckets s ! b) t \<noteq> HIdle
    \<Longrightarrow> ht_step s t (ht_move t b (hm_exec t (ht_buckets s ! b)) s)"

definition nodes_ok :: "(ptr \<times> ptr) list \<Rightarrow> bool" where
  "nodes_ok nodes \<longleftrightarrow> distinct (map fst nodes @ map snd nodes) \<and> NULL \<notin> fst ` set nodes \<union> snd ` set nodes
     \<and> (\<forall>(x, y)\<in>set nodes. \<not> getMk x \<and> \<not> getMk y)"

inductive ht_reach :: "hmht \<Rightarrow> bool" where
  ht_begin: "nodes \<noteq> [] \<Longrightarrow> nodes_ok nodes \<Longrightarrow> KEY_MIN < KEY_MAX \<Longrightarrow> ht_reach (ht_new mem nodes KEY_MIN KEY_MAX)"
| ht_more: "ht_reach s \<Longrightarrow> ht_step s t s' \<Longrightarrow> ht_reach s'"

subsection \<open>What a step of a list keeps\<close>

fun pc_key :: "hm_pc \<Rightarrow> int" where
  "pc_key HIdle = 0"
| "pc_key (HSearch g) = goal_key g"
| "pc_key (HAt g r c) = goal_key g"
| "pc_key (HNx g r c v) = goal_key g"
| "pc_key (HChk g r c v) = goal_key g"
| "pc_key (HUnl g r c n) = goal_key g"
| "pc_key (HFound g r c n b) = goal_key g"
| "pc_key (HLink k v x r c) = k"
| "pc_key (HUnlE k r c n v) = k"
| "pc_key (HDone op r) = op_key op"

lemma hm_goto_sel [simp]:
  "hm_pc (hm_goto t c s) = (hm_pc s)(t := c)" "hm_abs (hm_goto t c s) = hm_abs s" "hm_lp (hm_goto t c s) = hm_lp s"
  "hm_alloc (hm_goto t c s) = hm_alloc s"
  by (simp_all add: hm_goto_def)

lemma hm_write_sel [simp]:
  "hm_pc (hm_write x f s) = hm_pc s" "hm_abs (hm_write x f s) = hm_abs s" "hm_lp (hm_write x f s) = hm_lp s"
  "hm_alloc (hm_write x f s) = hm_alloc s"
  by (simp_all add: hm_write_def)

lemma prev_set_sel [simp]: "hm_lp (prev_set r x s) = hm_lp s" "hm_alloc (prev_set r x s) = hm_alloc s"
  by (cases r; simp add: prev_set_def)+

lemma hm_unlink_sel [simp]: "hm_lp (hm_unlink r c n s) = hm_lp s" "hm_alloc (hm_unlink r c n s) = hm_alloc s"
  by (simp_all add: hm_unlink_def)

lemma hm_endOp_sel [simp]: "hm_lp (hm_endOp t op r s) = hm_lp s" "hm_alloc (hm_endOp t op r s) = hm_alloc s"
  by (simp_all add: hm_endOp_def)

lemma hm_lin_sel [simp]:
  "hm_pc (hm_lin t A s) = hm_pc s" "hm_abs (hm_lin t A s) = A" "hm_lp (hm_lin t A s) = (hm_lp s)(t := Some (hm_abs s, A))"
  "hm_alloc (hm_lin t A s) = hm_alloc s"
  by (simp_all add: hm_lin_def)

lemmas hm_fun_defs = hm_exec_def list_search_def hm_contains_def hm_doInsert_def hm_erase_def

lemma hm_exec_keeps:
  "hm_alloc (hm_exec t s) = hm_alloc s"
  "u \<noteq> t \<Longrightarrow> hm_pc (hm_exec t s) u = hm_pc s u \<and> hm_lp (hm_exec t s) u = hm_lp s u"
  "hm_pc (hm_exec t s) t \<noteq> HIdle \<Longrightarrow> pc_key (hm_pc (hm_exec t s) t) = pc_key (hm_pc s t)"
  "hm_lp (hm_exec t s) t = hm_lp s t \<and> hm_abs (hm_exec t s) = hm_abs s
   \<or> hm_lp (hm_exec t s) t = Some (hm_abs s, hm_abs (hm_exec t s)) \<and> (\<forall>k. k \<noteq> pc_key (hm_pc s t) \<longrightarrow> hm_abs (hm_exec t s) k = hm_abs s k)"
proof -
  show "hm_alloc (hm_exec t s) = hm_alloc s"
    by (auto simp: hm_fun_defs split: hm_pc.split hm_goal.split)
  show "u \<noteq> t \<Longrightarrow> hm_pc (hm_exec t s) u = hm_pc s u \<and> hm_lp (hm_exec t s) u = hm_lp s u"
    by (auto simp: hm_fun_defs split: hm_pc.split hm_goal.split)
  show "hm_pc (hm_exec t s) t \<noteq> HIdle \<Longrightarrow> pc_key (hm_pc (hm_exec t s) t) = pc_key (hm_pc s t)"
    by (auto simp: hm_fun_defs split: hm_pc.splits hm_goal.splits)
  show "hm_lp (hm_exec t s) t = hm_lp s t \<and> hm_abs (hm_exec t s) = hm_abs s
   \<or> hm_lp (hm_exec t s) t = Some (hm_abs s, hm_abs (hm_exec t s)) \<and> (\<forall>k. k \<noteq> pc_key (hm_pc s t) \<longrightarrow> hm_abs (hm_exec t s) k = hm_abs s k)"
    by (auto simp: hm_fun_defs split: hm_pc.split hm_goal.split)
qed

lemma hm_call_keeps:
  assumes "hm_step s t h" "hm_pc s t = HIdle"
  shows "hm_abs h = hm_abs s" "hm_hist h = (hm_hist s)(t := {hm_abs s})" "hm_lp h = (hm_lp s)(t := None)"
    "u \<noteq> t \<Longrightarrow> hm_pc h u = hm_pc s u"
proof -
  have "hm_abs h = hm_abs s \<and> hm_hist h = (hm_hist s)(t := {hm_abs s}) \<and> hm_lp h = (hm_lp s)(t := None) \<and> (u \<noteq> t \<longrightarrow> hm_pc h u = hm_pc s u)"
    using assms by cases (auto simp: hm_start_def)
  then show "hm_abs h = hm_abs s" "hm_hist h = (hm_hist s)(t := {hm_abs s})" "hm_lp h = (hm_lp s)(t := None)"
    "u \<noteq> t \<Longrightarrow> hm_pc h u = hm_pc s u" by blast+
qed

subsection \<open>The invariant\<close>

text \<open>Two maps agree on the keys of a bucket; a running operation, seen by its bucket and by the table.\<close>

definition agree :: "nat \<Rightarrow> nat \<Rightarrow> absmap \<Rightarrow> absmap \<Rightarrow> bool" where
  "agree n b M A \<longleftrightarrow> (\<forall>k. nat (k mod int n) = b \<longrightarrow> M k = A k)"

definition linked :: "nat \<Rightarrow> nat \<Rightarrow> hm \<Rightarrow> nat \<Rightarrow> absmap set \<Rightarrow> (absmap \<times> absmap) option \<Rightarrow> bool" where
  "linked n b h t H L \<longleftrightarrow> nat (pc_key (hm_pc h t) mod int n) = b \<and> (\<forall>A\<in>hm_hist h t. \<exists>M\<in>H. agree n b M A)
     \<and> (\<forall>A A'. hm_lp h t = Some (A, A') \<longrightarrow> (\<exists>M M'. L = Some (M, M') \<and> M \<in> H \<and> agree n b M A \<and> agree n b M' A'
          \<and> (\<forall>k. nat (k mod int n) \<noteq> b \<longrightarrow> M' k = M k)))"

definition ht_inv :: "hmht \<Rightarrow> bool" where
  "ht_inv s \<longleftrightarrow> ht_buckets s \<noteq> []
     \<and> (\<forall>b<length (ht_buckets s). hm_reach (ht_buckets s ! b) \<and> (\<forall>k. ht_bucket s k \<noteq> b \<longrightarrow> hm_abs (ht_buckets s ! b) k = None))
     \<and> (\<forall>b<length (ht_buckets s). \<forall>c<length (ht_buckets s). b \<noteq> c \<longrightarrow> hm_alloc (ht_buckets s ! b) \<inter> hm_alloc (ht_buckets s ! c) = {})
     \<and> (\<forall>t. \<forall>b<length (ht_buckets s). hm_pc (ht_buckets s ! b) t \<noteq> HIdle \<longrightarrow>
          (\<forall>c<length (ht_buckets s). c \<noteq> b \<longrightarrow> hm_pc (ht_buckets s ! c) t = HIdle)
          \<and> ht_abs s \<in> ht_hist s t \<and> linked (length (ht_buckets s)) b (ht_buckets s ! b) t (ht_hist s t) (ht_lp s t))"

lemma ht_invD:
  assumes "ht_inv s" "b < length (ht_buckets s)"
  shows "hm_reach (ht_buckets s ! b)" "\<And>k. ht_bucket s k \<noteq> b \<Longrightarrow> hm_abs (ht_buckets s ! b) k = None"
    "\<And>c. c < length (ht_buckets s) \<Longrightarrow> b \<noteq> c \<Longrightarrow> hm_alloc (ht_buckets s ! b) \<inter> hm_alloc (ht_buckets s ! c) = {}"
    "\<And>t c. hm_pc (ht_buckets s ! b) t \<noteq> HIdle \<Longrightarrow> c < length (ht_buckets s) \<Longrightarrow> c \<noteq> b \<Longrightarrow> hm_pc (ht_buckets s ! c) t = HIdle"
    "\<And>t. hm_pc (ht_buckets s ! b) t \<noteq> HIdle \<Longrightarrow> ht_abs s \<in> ht_hist s t"
    "\<And>t. hm_pc (ht_buckets s ! b) t \<noteq> HIdle \<Longrightarrow> linked (length (ht_buckets s)) b (ht_buckets s ! b) t (ht_hist s t) (ht_lp s t)"
  using assms unfolding ht_inv_def by blast+

lemma linked_more: "linked n b h t H L \<Longrightarrow> linked n b h t (insert M H) L"
  unfolding linked_def by (metis insertCI)

lemma bucket_less: "ht_buckets s \<noteq> [] \<Longrightarrow> ht_bucket s k < length (ht_buckets s)"
  by (simp add: ht_bucket_def nat_less_iff)

lemma ht_abs_agree: "b < length (ht_buckets s) \<Longrightarrow> agree (length (ht_buckets s)) b (ht_abs s) (hm_abs (ht_buckets s ! b))"
  by (simp add: agree_def ht_abs_def ht_bucket_def)

text \<open>The map of the table after a bucket changed.\<close>

lemma ht_abs_upd:
  assumes "b < length (ht_buckets s)"
  shows "ht_abs (s\<lparr>ht_buckets := (ht_buckets s)[b := h]\<rparr>) k = (if ht_bucket s k = b then hm_abs h k else ht_abs s k)"
  using assms by (auto simp: ht_abs_def ht_bucket_def nth_list_update)

lemma ht_abs_ghosts [simp]: "ht_abs (s\<lparr>ht_hist := H\<rparr>) = ht_abs s" "ht_abs (s\<lparr>ht_lp := L\<rparr>) = ht_abs s"
  by (auto simp: ht_abs_def ht_bucket_def)

lemma linked_run:
  assumes r: "hm_reach h" "hm_pc h t \<noteq> HIdle" "hm_pc h u \<noteq> HIdle" "hm_pc (hm_exec t h) u \<noteq> HIdle"
    and l: "linked n b h u H L" "M \<in> H" "agree n b M (hm_abs h)"
    and M': "agree n b M' (hm_abs (hm_exec t h))" "\<forall>k. nat (k mod int n) \<noteq> b \<longrightarrow> M' k = M k"
    and L': "L' = (if u \<noteq> t \<or> hm_lp (hm_exec t h) t = hm_lp h t then L else Some (M, M'))"
  shows "linked n b (hm_exec t h) u (insert M' H) L'"
proof -
  let ?h = "hm_exec t h"
  note k = hm_exec_keeps [where t = t and s = h] hm_exec_keeps(2) [of u t h]
  have key: "pc_key (hm_pc ?h u) = pc_key (hm_pc h u)" using k(3) k(5) r(4) by (cases "u = t") auto
  have hist: "hm_hist ?h u = insert (hm_abs ?h) (hm_hist h u)"
    using hm_step_hist [OF hm_reach_inv [OF r(1)] hm_run [OF r(2)] r(3)] .
  have lp: "\<exists>M1 M2. L' = Some (M1, M2) \<and> M1 \<in> insert M' H \<and> agree n b M1 A \<and> agree n b M2 A'
      \<and> (\<forall>k. nat (k mod int n) \<noteq> b \<longrightarrow> M2 k = M1 k)" if "hm_lp ?h u = Some (A, A')" for A A'
  proof (cases "hm_lp ?h u = hm_lp h u")
    case True
    then have "L' = L" using L' by auto
    then show ?thesis using l(1) that True unfolding linked_def by (metis insertCI)
  next
    case False
    then have u: "u = t" using k(5) by auto
    then have "L' = Some (M, M')" "A = hm_abs h" "A' = hm_abs ?h" using L' False k(4) that by auto
    then show ?thesis using l(2,3) M' by auto
  qed
  have old: "nat (pc_key (hm_pc h u) mod int n) = b" "\<forall>A\<in>hm_hist h u. \<exists>M\<in>H. agree n b M A"
    using l(1) by (simp_all add: linked_def)
  have "\<forall>A\<in>insert (hm_abs ?h) (hm_hist h u). \<exists>M\<in>insert M' H. agree n b M A" using old(2) M'(1) by blast
  then show ?thesis unfolding linked_def key hist using old(1) lp by blast
qed

lemma ht_inv_start:
  assumes inv: "ht_inv s" and idle: "\<forall>c<length (ht_buckets s). hm_pc (ht_buckets s ! c) t = HIdle" and b: "b < length (ht_buckets s)"
    and st: "hm_step (ht_buckets s ! b) t h" "hm_pc h t = HSearch g" "ht_bucket s (goal_key g) = b"
    and al: "\<forall>c<length (ht_buckets s). c \<noteq> b \<longrightarrow> hm_alloc h \<inter> hm_alloc (ht_buckets s ! c) = {}"
  shows "ht_inv (ht_call t b h s)"
proof -
  let ?n = "length (ht_buckets s)" and ?o = "ht_buckets s ! b" and ?s = "ht_call t b h s"
  have i: "hm_pc ?o t = HIdle" using idle b by blast
  note k = hm_call_keeps [OF st(1) i]
  have bs: "ht_buckets ?s = (ht_buckets s)[b := h]" by (simp add: ht_call_def)
  have n: "length (ht_buckets ?s) = ?n" "ht_buckets s \<noteq> []" using b by (auto simp: bs)
  have bk: "ht_bucket ?s = ht_bucket s" by (rule ext) (simp add: ht_bucket_def bs)
  have nth: "ht_buckets ?s ! c = (if c = b then h else ht_buckets s ! c)" if "c < ?n" for c using that by (simp add: bs nth_list_update)
  have abs: "ht_abs ?s = ht_abs s"
  proof
    fix x show "ht_abs ?s x = ht_abs s x"
      using ht_abs_upd [OF b, of h x] k(1) by (simp add: ht_call_def) (simp add: ht_abs_def)
  qed
  have 1: "hm_reach (ht_buckets ?s ! c) \<and> (\<forall>x. ht_bucket s x \<noteq> c \<longrightarrow> hm_abs (ht_buckets ?s ! c) x = None)" if c: "c < ?n" for c
    using ht_invD(1,2) [OF inv c] hm_more [OF ht_invD(1) [OF inv b] st(1)] k(1) nth [OF c] by auto
  have 2: "hm_alloc (ht_buckets ?s ! c) \<inter> hm_alloc (ht_buckets ?s ! d) = {}" if "c < ?n" "d < ?n" "c \<noteq> d" for c d
    using that ht_invD(3) [OF inv that] al nth [OF that(1)] nth [OF that(2)] by (cases "c = b"; cases "d = b") auto
  have 3: "(\<forall>d<?n. d \<noteq> c \<longrightarrow> hm_pc (ht_buckets ?s ! d) u = HIdle) \<and> ht_abs s \<in> ht_hist ?s u
      \<and> linked ?n c (ht_buckets ?s ! c) u (ht_hist ?s u) (ht_lp ?s u)"
    if c: "c < ?n" "hm_pc (ht_buckets ?s ! c) u \<noteq> HIdle" for c u
  proof (cases "u = t")
    case True
    then have cb: "c = b" using c idle nth [OF c(1)] by (auto split: if_splits)
    have "linked ?n b h t {ht_abs s} None"
      using k(2,3) st(2,3) ht_abs_agree [OF b] by (simp add: linked_def ht_bucket_def)
    then show ?thesis using True cb idle nth nth [OF c(1)] by (auto simp: ht_call_def)
  next
    case False
    have pc: "hm_pc (ht_buckets ?s ! d) u = hm_pc (ht_buckets s ! d) u" if "d < ?n" for d
      using k(4) [OF False] nth [OF that] by auto
    have hl: "hm_hist (ht_buckets ?s ! c) u = hm_hist (ht_buckets s ! c) u" "hm_lp (ht_buckets ?s ! c) u = hm_lp (ht_buckets s ! c) u"
      using nth [OF c(1)] k(2,3) False by auto
    have g: "ht_hist ?s u = ht_hist s u" "ht_lp ?s u = ht_lp s u" using False by (simp_all add: ht_call_def)
    have p: "hm_pc (ht_buckets s ! c) u \<noteq> HIdle" using pc c by simp
    have "linked ?n c (ht_buckets ?s ! c) u (ht_hist s u) (ht_lp s u)"
      using ht_invD(6) [OF inv c(1) p] unfolding linked_def hl pc [OF c(1)] .
    then show ?thesis using ht_invD(4,5) [OF inv c(1) p] pc g by simp
  qed
  have 0: "ht_buckets ?s \<noteq> []" using n by auto
  show ?thesis unfolding ht_inv_def n(1) bk abs using 0 1 2 3 by blast
qed

lemma ht_inv_run:
  assumes inv: "ht_inv s" and b: "b < length (ht_buckets s)" and pc: "hm_pc (ht_buckets s ! b) t \<noteq> HIdle"
  shows "ht_inv (ht_move t b (hm_exec t (ht_buckets s ! b)) s)"
proof -
  let ?n = "length (ht_buckets s)" and ?o = "ht_buckets s ! b"
  let ?h = "hm_exec t ?o"
  let ?s = "ht_move t b ?h s"
  note k = hm_exec_keeps [where t = t and s = ?o]
  have bs: "ht_buckets ?s = (ht_buckets s)[b := ?h]" by (simp add: ht_move_def Let_def)
  have n: "length (ht_buckets ?s) = ?n" "ht_buckets s \<noteq> []" using b by (auto simp: bs)
  have bk: "ht_bucket ?s = ht_bucket s" by (rule ext) (simp add: ht_bucket_def bs)
  have nth: "ht_buckets ?s ! c = (if c = b then ?h else ht_buckets s ! c)" if "c < ?n" for c using that by (simp add: bs nth_list_update)
  have lo: "linked ?n b ?o t (ht_hist s t) (ht_lp s t)" using ht_invD(6) [OF inv b pc] .
  then have kb: "ht_bucket s (pc_key (hm_pc ?o t)) = b" by (simp add: linked_def ht_bucket_def)
  have abs: "ht_abs ?s x = (if ht_bucket s x = b then hm_abs ?h x else ht_abs s x)" for x
    using ht_abs_upd [OF b, of ?h x] by (simp add: ht_move_def Let_def)
  have ag: "agree ?n b (ht_abs ?s) (hm_abs ?h)" by (simp add: agree_def abs ht_bucket_def)
  have out: "\<forall>x. nat (x mod int ?n) \<noteq> b \<longrightarrow> ht_abs ?s x = ht_abs s x" by (simp add: abs ht_bucket_def)
  have H: "ht_hist ?s u = insert (ht_abs ?s) (ht_hist s u)" for u by (simp add: ht_move_def Let_def)
  have L: "ht_lp ?s u = (if u \<noteq> t \<or> hm_lp ?h t = hm_lp ?o t then ht_lp s u else Some (ht_abs s, ht_abs ?s))" for u
    by (simp add: ht_move_def Let_def)
  have 1: "hm_reach (ht_buckets ?s ! c) \<and> (\<forall>x. ht_bucket s x \<noteq> c \<longrightarrow> hm_abs (ht_buckets ?s ! c) x = None)" if c: "c < ?n" for c
  proof (cases "c = b")
    case True
    have "hm_abs ?h x = None" if x: "ht_bucket s x \<noteq> b" for x
    proof -
      have "x \<noteq> pc_key (hm_pc ?o t)" using kb x by blast
      then have "hm_abs ?h x = hm_abs ?o x" using k(4) by metis
      then show ?thesis using ht_invD(2) [OF inv b x] by simp
    qed
    then show ?thesis using True hm_more [OF ht_invD(1) [OF inv b] hm_run [OF pc]] nth [OF c] by simp
  next
    case False
    then show ?thesis using ht_invD(1,2) [OF inv c] nth [OF c] by simp
  qed
  have 2: "hm_alloc (ht_buckets ?s ! c) \<inter> hm_alloc (ht_buckets ?s ! d) = {}" if "c < ?n" "d < ?n" "c \<noteq> d" for c d
    using ht_invD(3) [OF inv that] nth [OF that(1)] nth [OF that(2)] k(1) by (cases "c = b"; cases "d = b") auto
  have 3: "(\<forall>d<?n. d \<noteq> c \<longrightarrow> hm_pc (ht_buckets ?s ! d) u = HIdle) \<and> ht_abs ?s \<in> ht_hist ?s u
      \<and> linked ?n c (ht_buckets ?s ! c) u (ht_hist ?s u) (ht_lp ?s u)"
    if c: "c < ?n" "hm_pc (ht_buckets ?s ! c) u \<noteq> HIdle" for c u
  proof -
    have pcu: "u \<noteq> t \<Longrightarrow> hm_pc (ht_buckets ?s ! d) u = hm_pc (ht_buckets s ! d) u" if "d < ?n" for d
      using k(2) nth [OF that] by auto
    have p: "hm_pc (ht_buckets s ! c) u \<noteq> HIdle" using c pcu [OF c(1)] pc nth [OF c(1)] by (cases "u = t"; cases "c = b") auto
    have others: "hm_pc (ht_buckets ?s ! d) u = HIdle" if d: "d < ?n" "d \<noteq> c" for d
    proof (cases "u = t")
      case True
      then have "c = b" using ht_invD(4) [OF inv b pc c(1)] p by auto
      then show ?thesis using ht_invD(4) [OF inv c(1) p d] nth [OF d(1)] d(2) by simp
    next
      case False
      then show ?thesis using ht_invD(4) [OF inv c(1) p d] pcu [OF d(1)] by simp
    qed
    have "linked ?n c (ht_buckets ?s ! c) u (ht_hist ?s u) (ht_lp ?s u)"
    proof (cases "c = b")
      case True
      have p': "hm_pc ?o u \<noteq> HIdle" "hm_pc ?h u \<noteq> HIdle" using p c True nth [OF c(1)] by simp_all
      have "linked ?n b ?h u (insert (ht_abs ?s) (ht_hist s u)) (ht_lp ?s u)"
        by (rule linked_run [OF ht_invD(1) [OF inv b] pc p' ht_invD(6) [OF inv b p'(1)] ht_invD(5) [OF inv b p'(1)] ht_abs_agree [OF b] ag out L])
      then show ?thesis using True nth [OF c(1)] H by simp
    next
      case False
      then have "u \<noteq> t" using ht_invD(4) [OF inv b pc c(1)] p by auto
      then have "ht_lp ?s u = ht_lp s u" by (simp add: L)
      then show ?thesis using linked_more [OF ht_invD(6) [OF inv c(1) p]] False nth [OF c(1)] H by simp
    qed
    then show ?thesis using others H by auto
  qed
  have 0: "ht_buckets ?s \<noteq> []" using n by auto
  show ?thesis unfolding ht_inv_def n(1) bk using 0 1 2 3 by blast
qed

lemma hm_new_sel [simp]:
  "hm_abs (hm_new m x y a b) = Map.empty" "hm_pc (hm_new m x y a b) = (\<lambda>_. HIdle)" "hm_alloc (hm_new m x y a b) = {x, y}"
  by (simp_all add: hm_new_def)

lemma ht_inv_new:
  assumes "nodes \<noteq> []" "nodes_ok nodes" "KEY_MIN < KEY_MAX"
  shows "ht_inv (ht_new mem nodes KEY_MIN KEY_MAX)"
proof -
  let ?s = "ht_new mem nodes KEY_MIN KEY_MAX"
  have bs: "ht_buckets ?s ! b = hm_new mem (fst (nodes ! b)) (snd (nodes ! b)) KEY_MIN KEY_MAX" if "b < length nodes" for b
    using that by (simp add: ht_new_def case_prod_beta)
  have n: "length (ht_buckets ?s) = length nodes" by (simp add: ht_new_def)
  have d: "distinct (map fst nodes)" "distinct (map snd nodes)" "fst ` set nodes \<inter> snd ` set nodes = {}"
    using assms(2) by (auto simp: nodes_ok_def)
  have disj: "fst (nodes ! b) \<noteq> snd (nodes ! c)" if "b < length nodes" "c < length nodes" for b c
    using d(3) nth_mem [OF that(1)] nth_mem [OF that(2)] by blast
  have ne: "fst (nodes ! b) \<noteq> fst (nodes ! c)" "snd (nodes ! b) \<noteq> snd (nodes ! c)" if "b < length nodes" "c < length nodes" "b \<noteq> c" for b c
    using d(1,2) that by (simp_all add: distinct_conv_nth)
  have reach: "hm_reach (ht_buckets ?s ! b)" if b: "b < length nodes" for b
  proof -
    have m: "nodes ! b \<in> set nodes" using b by simp
    have "NULL \<notin> fst ` set nodes" "NULL \<notin> snd ` set nodes" using assms(2) by (auto simp: nodes_ok_def)
    then have z: "fst (nodes ! b) \<noteq> NULL" "snd (nodes ! b) \<noteq> NULL" using m by force+
    have "\<not> getMk (fst (nodes ! b)) \<and> \<not> getMk (snd (nodes ! b))" using assms(2) m by (auto simp: nodes_ok_def)
    then show ?thesis unfolding bs [OF b] using disj [OF b b] z assms(3) by (intro hm_begin) auto
  qed
  have f: "hm_abs (ht_buckets ?s ! b) = Map.empty" "hm_pc (ht_buckets ?s ! b) = (\<lambda>_. HIdle)"
    "hm_alloc (ht_buckets ?s ! b) = {fst (nodes ! b), snd (nodes ! b)}" if "b < length nodes" for b
    unfolding bs [OF that] by simp_all
  have "hm_alloc (ht_buckets ?s ! b) \<inter> hm_alloc (ht_buckets ?s ! c) = {}" if "b < length nodes" "c < length nodes" "b \<noteq> c" for b c
    unfolding f(3) [OF that(1)] f(3) [OF that(2)] using ne [OF that] disj [OF that(1,2)] disj [OF that(2,1)] by auto
  moreover have "ht_buckets ?s \<noteq> []" using assms(1) n by auto
  ultimately show ?thesis unfolding ht_inv_def n using reach f(1,2) by simp
qed

lemma ht_reach_inv: "ht_reach s \<Longrightarrow> ht_inv s"
proof (induction rule: ht_reach.induct)
  case (ht_more s t s')
  from ht_more.hyps(2) ht_more.IH show ?case by cases (auto intro: ht_inv_start ht_inv_run)
qed (rule ht_inv_new)

subsection \<open>The table as a map\<close>

definition ht_result_ok :: "hmht \<Rightarrow> nat \<Rightarrow> lz_op \<Rightarrow> hm_result \<Rightarrow> bool" where
  "ht_result_ok s t op r \<longleftrightarrow> (case op of
      Contains k \<Rightarrow> (\<exists>b. r = RBool b \<and> (\<exists>A\<in>ht_hist s t. (A k \<noteq> None) = b))
    | Insert k v \<Rightarrow> (\<exists>w. r = RVal (Some w) \<and> (\<exists>A\<in>ht_hist s t. A k = Some w))
        \<or> r = RVal None \<and> (\<exists>A\<in>ht_hist s t. A k = None \<and> ht_lp s t = Some (A, A(k \<mapsto> v)))
    | Erase k \<Rightarrow> (\<exists>w. r = RVal (Some w) \<and> (\<exists>A\<in>ht_hist s t. A k = Some w \<and> ht_lp s t = Some (A, A(k := None))))
        \<or> r = RVal None \<and> (\<exists>A\<in>ht_hist s t. A k = None))"

lemma agree_upd:
  "agree n b M A \<Longrightarrow> agree n b M' (A(k := x)) \<Longrightarrow> \<forall>j. nat (j mod int n) \<noteq> b \<longrightarrow> M' j = M j \<Longrightarrow> nat (k mod int n) = b
   \<Longrightarrow> M' = M(k := x)"
  unfolding agree_def by (intro ext) (metis fun_upd_apply)

lemma result_lift:
  assumes l: "linked (length (ht_buckets s)) b h t (ht_hist s t) (ht_lp s t)" and r: "hm_result_ok h t op r"
    and k: "ht_bucket s (op_key op) = b"
  shows "ht_result_ok s t op r"
proof -
  let ?n = "length (ht_buckets s)"
  have see: "\<exists>M\<in>ht_hist s t. M (op_key op) = A (op_key op)" if "A \<in> hm_hist h t" for A
    using l that k unfolding linked_def agree_def ht_bucket_def by blast
  have lp: "\<exists>M\<in>ht_hist s t. M (op_key op) = A (op_key op) \<and> ht_lp s t = Some (M, M(op_key op := x))"
    if "hm_lp h t = Some (A, A(op_key op := x))" for A x
  proof -
    obtain M M' where m: "ht_lp s t = Some (M, M')" "M \<in> ht_hist s t" "agree ?n b M A" "agree ?n b M' (A(op_key op := x))"
      "\<forall>j. nat (j mod int ?n) \<noteq> b \<longrightarrow> M' j = M j" using l \<open>hm_lp h t = _\<close> unfolding linked_def by blast
    have "M' = M(op_key op := x)" using agree_upd [OF m(3,4,5)] k by (simp add: ht_bucket_def)
    moreover have "M (op_key op) = A (op_key op)" using m(3) k by (simp add: agree_def ht_bucket_def)
    ultimately show ?thesis using m(1,2) by blast
  qed
  show ?thesis
  proof (cases op)
    case (Contains k)
    then obtain x A where "r = RBool x" "A \<in> hm_hist h t" "(A k \<noteq> None) = x" using r by (auto simp: hm_result_ok_def)
    moreover from see [OF this(2)] obtain M where "M \<in> ht_hist s t" "M k = A k" unfolding Contains op_key.simps by blast
    ultimately have "r = RBool x \<and> (\<exists>M\<in>ht_hist s t. (M k \<noteq> None) = x)" by metis
    then show ?thesis using Contains by (simp add: ht_result_ok_def)
  next
    case (Insert k v)
    then consider w A where "r = RVal (Some w)" "A \<in> hm_hist h t" "A k = Some w"
      | A where "r = RVal None" "A k = None" "hm_lp h t = Some (A, A(k \<mapsto> v))" using r by (auto simp: hm_result_ok_def)
    then show ?thesis
    proof cases
      case 1
      obtain M where "M \<in> ht_hist s t" "M k = A k" using see [OF 1(2)] unfolding Insert op_key.simps by blast
      then show ?thesis using 1 Insert by (auto simp: ht_result_ok_def)
    next
      case 2
      obtain M where "M \<in> ht_hist s t" "M k = A k" "ht_lp s t = Some (M, M(k \<mapsto> v))"
        using lp [of A "Some v"] 2(3) unfolding Insert op_key.simps by blast
      then show ?thesis using 2 Insert by (auto simp: ht_result_ok_def)
    qed
  next
    case (Erase k)
    then consider w A where "r = RVal (Some w)" "A k = Some w" "hm_lp h t = Some (A, A(k := None))"
      | A where "r = RVal None" "A \<in> hm_hist h t" "A k = None" using r by (auto simp: hm_result_ok_def)
    then show ?thesis
    proof cases
      case 1
      obtain M where "M \<in> ht_hist s t" "M k = A k" "ht_lp s t = Some (M, M(k := None))"
        using lp [of A None] 1(3) unfolding Erase op_key.simps by blast
      then show ?thesis using 1 Erase by (auto simp: ht_result_ok_def)
    next
      case 2
      obtain M where "M \<in> ht_hist s t" "M k = A k" using see [OF 2(2)] unfolding Erase op_key.simps by blast
      then show ?thesis using 2 Erase by (auto simp: ht_result_ok_def)
    qed
  qed
qed

lemma ht_step_abs:
  assumes inv: "ht_inv s" and st: "ht_step s u s'"
  shows "ht_abs s' = ht_abs s \<or> map_step (ht_abs s) (ht_abs s')"
  using st
proof cases
  case (start b h g)
  have "hm_abs h = hm_abs (ht_buckets s ! b)" using hm_call_keeps(1) [OF start(4)] start(2,3) by blast
  then have "ht_abs s' x = ht_abs s x" for x
    using ht_abs_upd [OF start(3), of h x] unfolding start(1) ht_call_def by (simp, simp add: ht_abs_def)
  then show ?thesis by blast
next
  case (run b)
  let ?o = "ht_buckets s ! b" let ?h = "hm_exec u ?o"
  have abs: "ht_abs s' x = (if ht_bucket s x = b then hm_abs ?h x else ht_abs s x)" for x
    using ht_abs_upd [OF run(2), of ?h x] by (simp add: run(1) ht_move_def Let_def)
  have old: "ht_bucket s x = b \<Longrightarrow> ht_abs s x = hm_abs ?o x" for x by (auto simp: ht_abs_def)
  have "ht_bucket s (pc_key (hm_pc ?o u)) = b" using ht_invD(6) [OF inv run(2,3)] by (simp add: linked_def ht_bucket_def)
  note keys = hm_exec_keeps(4) [of u ?o] this
  from hm_step_abs [OF hm_reach_inv [OF ht_invD(1) [OF inv run(2)]] hm_run [OF run(3)]] show ?thesis
  proof
    assume "hm_abs ?h = hm_abs ?o"
    then have "ht_abs s' = ht_abs s" using abs old by auto
    then show ?thesis ..
  next
    assume m: "map_step (hm_abs ?o) (hm_abs ?h)"
    then show ?thesis
    proof cases
      case (put k v)
      then have "ht_bucket s k = b" using keys by (metis fun_upd_same option.distinct(1))
      moreover from this have "ht_abs s' = (ht_abs s)(k \<mapsto> v)" using abs old put by auto
      ultimately show ?thesis using old put map_step.put by simp
    next
      case (take k)
      have bk: "ht_bucket s k = b" using ht_invD(2) [OF inv run(2), of k] take(2) by metis
      then have "ht_abs s' = (ht_abs s)(k := None)" using abs old take(1) by auto
      with bk show ?thesis using old take map_step.take by simp
    qed
  qed
qed

lemma ht_step_hist:
  assumes inv: "ht_inv s" and st: "ht_step s u s'" and b: "b < length (ht_buckets s)" "hm_pc (ht_buckets s ! b) t \<noteq> HIdle"
  shows "ht_hist s' t = insert (ht_abs s') (ht_hist s t)"
  using st
proof cases
  case (start c h g)
  have "t \<noteq> u" using start(2) b by auto
  have "hm_abs h = hm_abs (ht_buckets s ! c)" using hm_call_keeps(1) [OF start(4)] start(2,3) by blast
  then have "ht_abs s' = ht_abs s"
    using ht_abs_upd [OF start(3), of h] unfolding start(1) ht_call_def by (intro ext) (simp, simp add: ht_abs_def)
  then show ?thesis using \<open>t \<noteq> u\<close> ht_invD(5) [OF inv b] start(1) by (simp add: ht_call_def insert_absorb)
next
  case (run c)
  then show ?thesis by (simp add: ht_move_def Let_def)
qed

lemma hmlist_result: "hm_reach h \<Longrightarrow> hm_pc h t = HDone op r \<Longrightarrow> hm_result_ok h t op r"
  using hm_invD(4) [OF hm_reach_inv, of h t] by (simp add: hm_pc_ok_def)

text \<open>
  C37. The hash table is linearizable: in every reachable state an operation that is about to return
  works on the bucket of its key, and its result is right for the map of the whole table at one moment
  since its call; one that succeeded in changing the map changed exactly the map it linearizes at. Every
  step of a thread leaves the map alone, inserts an absent key or removes a present one, and the history
  gains the current map at every step.
\<close>

theorem hashtable_linearizable:
  assumes "ht_reach s" and "b < length (ht_buckets s)"
  shows "(\<forall>op r. hm_pc (ht_buckets s ! b) t = HDone op r \<longrightarrow> b = ht_bucket s (op_key op) \<and> ht_result_ok s t op r)
    \<and> (\<forall>u s'. ht_step s u s' \<longrightarrow> (ht_abs s' = ht_abs s \<or> map_step (ht_abs s) (ht_abs s'))
        \<and> (hm_pc (ht_buckets s ! b) t \<noteq> HIdle \<longrightarrow> ht_hist s' t = insert (ht_abs s') (ht_hist s t)))"
proof (intro conjI allI impI)
  note inv = ht_reach_inv [OF assms(1)]
  fix op r assume d: "hm_pc (ht_buckets s ! b) t = HDone op r"
  then have l: "linked (length (ht_buckets s)) b (ht_buckets s ! b) t (ht_hist s t) (ht_lp s t)"
    using ht_invD(6) [OF inv assms(2), of t] by simp
  then show k: "b = ht_bucket s (op_key op)" using d by (simp add: linked_def ht_bucket_def)
  have "hm_result_ok (ht_buckets s ! b) t op r" using hmlist_result [OF ht_invD(1) [OF inv assms(2)] d] .
  then show "ht_result_ok s t op r" using result_lift [OF l] k by simp
next
  fix u s' assume st: "ht_step s u s'"
  show "ht_abs s' = ht_abs s \<or> map_step (ht_abs s) (ht_abs s')" by (rule ht_step_abs [OF ht_reach_inv [OF assms(1)] st])
  show "hm_pc (ht_buckets s ! b) t \<noteq> HIdle \<Longrightarrow> ht_hist s' t = insert (ht_abs s') (ht_hist s t)"
    by (rule ht_step_hist [OF ht_reach_inv [OF assms(1)] st assms(2)])
qed

text \<open>With one bucket, every run of a list on keys that are not negative is a run of the table.\<close>

lemma hm_exec_min: "hm_min (hm_exec t s) = hm_min s"
proof -
  have [simp]: "hm_min (prev_set r x s) = hm_min s" for r x s by (cases r) (simp_all add: prev_set_def)
  have [simp]: "hm_min (hm_unlink r c n s) = hm_min s" "hm_min (hm_endOp t op res s) = hm_min s" for r c n s op res
    by (simp_all add: hm_unlink_def hm_endOp_def)
  show ?thesis by (auto simp: hm_fun_defs split: hm_pc.split hm_goal.split)
qed

lemma hm_step_min: "hm_step s t s' \<Longrightarrow> hm_min s' = hm_min s"
  by (erule hm_step.cases) (auto simp: hm_start_def hm_exec_min)

lemma one_bucket: "hm_reach h \<Longrightarrow> 0 \<le> hm_min h \<Longrightarrow> \<exists>s. ht_reach s \<and> ht_buckets s = [h]"
proof (induction rule: hm_reach.induct)
  case (hm_begin KEY_MIN KEY_MAX tl_node hd_node mem)
  have "ht_reach (ht_new mem [(tl_node, hd_node)] KEY_MIN KEY_MAX)"
    using hm_begin by (intro ht_begin) (auto simp: nodes_ok_def)
  then show ?case by (intro exI [of _ "ht_new mem [(tl_node, hd_node)] KEY_MIN KEY_MAX"]) (simp add: ht_new_def)
next
  case (hm_more h t h')
  then obtain s where s: "ht_reach s" "ht_buckets s = [h]" using hm_step_min by auto
  have bk: "ht_bucket s k = 0" for k by (simp add: ht_bucket_def s(2))
  show ?case
  proof (cases "hm_pc h t = HIdle")
    case True
    from hm_more(2) have "\<exists>g. hm_pc h' t = HSearch g \<and> hm_min h < goal_key g"
    proof cases
      case (hm_call k g)
      then show ?thesis by (intro exI [of _ g]) (auto simp: hm_start_def)
    next
      case (hm_call_insert k x v)
      then show ?thesis by (simp add: hm_start_def)
    next
      case hm_run
      then show ?thesis using True by blast
    qed
    then obtain g where g: "hm_pc h' t = HSearch g" "0 \<le> goal_key g"
      using hm_more(4) hm_step_min [OF hm_more(2)] by auto
    have "ht_step s t (ht_call t 0 h' s)"
      using True hm_more(2) g bk s(2) by (intro ht_step.start) auto
    then show ?thesis using ht_more [OF s(1)] s(2) by (intro exI [of _ "ht_call t 0 h' s"]) (simp add: ht_call_def)
  next
    case False
    from hm_more(2) have "h' = hm_exec t h" by cases (use False in auto)
    moreover have "ht_step s t (ht_move t 0 (hm_exec t (ht_buckets s ! 0)) s)"
      using False s(2) by (intro ht_step.run) auto
    ultimately show ?thesis using ht_more [OF s(1)] s(2)
      by (intro exI [of _ "ht_move t 0 (hm_exec t (ht_buckets s ! 0)) s"]) (simp add: ht_move_def Let_def)
  qed
qed

theorem hashtable_linearizable_witness:
  "\<exists>s. ht_reach s \<and> hm_pc (ht_buckets s ! 0) 0 = HDone (Insert 5 7) (RVal None) \<and> ht_result_ok s 0 (Insert 5 7) (RVal None)"
proof -
  obtain h h' where h: "hm_reach h" "hm_pc h 0 = HDone (Insert 5 7) (RVal None)" "hm_step h 0 h'" "hm_min h' = 0"
    using hm_run_insert by blast
  then have "0 \<le> hm_min h" using hm_step_min by fastforce
  then obtain s where s: "ht_reach s" "ht_buckets s = [h]" using one_bucket [OF h(1)] by blast
  then show ?thesis using hashtable_linearizable [OF s(1), of 0 0] h by (intro exI [of _ s]) simp
qed

subsection \<open>The loops over the buckets\<close>

text \<open>
  \<open>debugKeySum\<close> and \<open>getDSSize\<close> add up what the loop over each list gives; the count of marked nodes
  runs on over the buckets, and must be 0 after each.
\<close>

fun ht_sum :: "(hm \<Rightarrow> (hm_error + int) option) \<Rightarrow> hm list \<Rightarrow> int \<Rightarrow> (hm_error + int) option" where
  "ht_sum f [] result = Some (Inr result)"
| "ht_sum f (h # hs) result =
     (case f h of
        None \<Rightarrow> None
      | Some (Inl e) \<Rightarrow> Some (Inl e)
      | Some (Inr n) \<Rightarrow> ht_sum f hs (result + n))"

definition ht_debugKeySum :: "nat \<Rightarrow> hmht \<Rightarrow> (hm_error + int) option" where
  "ht_debugKeySum n s = ht_sum (hm_debugKeySum n) (ht_buckets s) 0"

definition ht_getDSSize :: "nat \<Rightarrow> hmht \<Rightarrow> (hm_error + int) option" where
  "ht_getDSSize n s = ht_sum (hm_getDSSize n) (ht_buckets s) 0"

lemma ht_sum_eq: "\<forall>h\<in>set hs. f h = Some (Inr (g h)) \<Longrightarrow> ht_sum f hs r = Some (Inr (r + sum_list (map g hs)))"
  by (induction hs arbitrary: r) auto

lemma hm_dom_finite: "hm_reach h \<Longrightarrow> finite (dom (hm_abs h))"
proof -
  assume r: "hm_reach h"
  have "abs_ok (hm_lz h)" using hm_invD(1) [OF hm_reach_inv [OF r]] by (simp add: list_ok_def)
  then have "\<exists>x\<in>hm_in h. hkey h x = k" if "hm_abs h k = Some v" for k v
    using that unfolding abs_ok_def hm_lz_simps by blast
  then have "dom (hm_abs h) \<subseteq> hkey h ` hm_in h" by (auto simp: dom_def image_iff)
  then show ?thesis using hm_reach_finite [OF r] by (meson finite_imageI finite_subset)
qed

lemma ht_dom:
  assumes "ht_inv s"
  shows "dom (ht_abs s) = (\<Union>b<length (ht_buckets s). dom (hm_abs (ht_buckets s ! b)))"
    "\<And>b c. b < length (ht_buckets s) \<Longrightarrow> c < length (ht_buckets s) \<Longrightarrow> b \<noteq> c
      \<Longrightarrow> dom (hm_abs (ht_buckets s ! b)) \<inter> dom (hm_abs (ht_buckets s ! c)) = {}"
proof -
  have i: "ht_bucket s k = b" if "b < length (ht_buckets s)" "k \<in> dom (hm_abs (ht_buckets s ! b))" for b k
  proof (rule ccontr)
    assume "ht_bucket s k \<noteq> b"
    then have "hm_abs (ht_buckets s ! b) k = None" by (rule ht_invD(2) [OF assms that(1)])
    then show False using that(2) by (simp add: dom_def)
  qed
  have ne: "ht_buckets s \<noteq> []" using assms by (simp add: ht_inv_def)
  show "dom (ht_abs s) = (\<Union>b<length (ht_buckets s). dom (hm_abs (ht_buckets s ! b)))"
  proof (intro equalityI subsetI)
    fix k assume "k \<in> dom (ht_abs s)"
    then have "k \<in> dom (hm_abs (ht_buckets s ! ht_bucket s k))" by (simp add: dom_def ht_abs_def)
    then show "k \<in> (\<Union>b<length (ht_buckets s). dom (hm_abs (ht_buckets s ! b)))" using bucket_less [OF ne] by blast
  next
    fix k assume "k \<in> (\<Union>b<length (ht_buckets s). dom (hm_abs (ht_buckets s ! b)))"
    then obtain b where b: "b < length (ht_buckets s)" "k \<in> dom (hm_abs (ht_buckets s ! b))" by blast
    then show "k \<in> dom (ht_abs s)" using i [OF b] by (simp add: dom_def ht_abs_def)
  qed
  show "dom (hm_abs (ht_buckets s ! b)) \<inter> dom (hm_abs (ht_buckets s ! c)) = {}"
    if "b < length (ht_buckets s)" "c < length (ht_buckets s)" "b \<noteq> c" for b c
    using i that by blast
qed

text \<open>
  When no operation is running, \<open>debugKeySum\<close> and \<open>getDSSize\<close> return the sum and the number of the
  keys of the table's map.
\<close>

lemma hashtable_quiescent_sums:
  assumes "ht_reach s" "\<forall>b<length (ht_buckets s). \<forall>t. hm_pc (ht_buckets s ! b) t = HIdle"
    and "\<forall>b<length (ht_buckets s). card (hm_in (ht_buckets s ! b)) \<le> n"
  shows "ht_debugKeySum n s = Some (Inr (\<Sum>(dom (ht_abs s)))) \<and> ht_getDSSize n s = Some (Inr (int (card (dom (ht_abs s)))))"
proof -
  note inv = ht_reach_inv [OF assms(1)]
  let ?m = "length (ht_buckets s)" and ?D = "\<lambda>b. dom (hm_abs (ht_buckets s ! b))"
  have q: "hm_debugKeySum n h = Some (Inr (\<Sum>(dom (hm_abs h)))) \<and> hm_getDSSize n h = Some (Inr (int (card (dom (hm_abs h)))))"
    if "h \<in> set (ht_buckets s)" for h
  proof -
    from that have "\<exists>b. b < ?m \<and> ht_buckets s ! b = h" unfolding in_set_conv_nth .
    then obtain b where b: "b < ?m" "h = ht_buckets s ! b" by (elim exE conjE) simp
    have "\<forall>t. hm_pc (ht_buckets s ! b) t = HIdle" "card (hm_in (ht_buckets s ! b)) \<le> n" using assms(2,3) b(1) by simp_all
    from hm_quiescent_loops [OF ht_invD(1) [OF inv b(1)] this] show ?thesis unfolding b(2) by simp
  qed
  have fin: "finite (?D b)" if "b < ?m" for b using hm_dom_finite [OF ht_invD(1) [OF inv that]] .
  have "sum_list (map (\<lambda>h. \<Sum>(dom (hm_abs h))) (ht_buckets s)) = (\<Sum>b<?m. \<Sum>(?D b))"
    by (simp add: sum_list_sum_nth atLeast0LessThan)
  also have "\<dots> = \<Sum>(dom (ht_abs s))"
    unfolding ht_dom(1) [OF inv] using fin ht_dom(2) [OF inv] by (subst sum.UNION_disjoint) auto
  finally have 1: "sum_list (map (\<lambda>h. \<Sum>(dom (hm_abs h))) (ht_buckets s)) = \<Sum>(dom (ht_abs s))" .
  have "sum_list (map (\<lambda>h. int (card (dom (hm_abs h)))) (ht_buckets s)) = (\<Sum>b<?m. int (card (?D b)))"
    by (simp add: sum_list_sum_nth atLeast0LessThan)
  also have "\<dots> = int (card (dom (ht_abs s)))"
    unfolding ht_dom(1) [OF inv] using fin ht_dom(2) [OF inv] by (subst card_UN_disjoint) auto
  finally have 2: "sum_list (map (\<lambda>h. int (card (dom (hm_abs h)))) (ht_buckets s)) = int (card (dom (ht_abs s)))" .
  have "ht_debugKeySum n s = Some (Inr (0 + sum_list (map (\<lambda>h. \<Sum>(dom (hm_abs h))) (ht_buckets s))))"
    unfolding ht_debugKeySum_def by (rule ht_sum_eq) (use q in blast)
  moreover have "ht_getDSSize n s = Some (Inr (0 + sum_list (map (\<lambda>h. int (card (dom (hm_abs h)))) (ht_buckets s))))"
    unfolding ht_getDSSize_def by (rule ht_sum_eq) (use q in blast)
  ultimately show ?thesis using 1 2 by simp
qed

end
