(* ===== verification/EpochPop.thy ===== *)
theory EpochPop
  imports Rcu PopHp
begin

text \<open>
  Epoch-based reclamation with publish-on-ping hazard pointers as its way out of delays,
  \<open>common/recordmgr/reclaimer_rcu_popplushp.h\<close>. A thread announces epochs and keeps hazard pointers
  locally; a full list of retired objects is first emptied by epochs, and when that leaves too many,
  every thread is signalled to publish its hazard pointers and those objects are freed that nobody published.
  Past a low watermark a thread also frees after it saw another thread signal everyone. The stamped
  objects are those of epoch-based reclamation; \<open>rand() % 11\<close> is the argument \<open>rnd\<close>.
\<close>

subsection \<open>The class and its operations\<close>

record epop_thread =
  et_bagCapacityThreshold :: nat
  et_sigallattempts :: nat
  et_local_slots :: "ptr list"
  et_announcedTS :: nat
  et_savedTS :: "nat list"
  et_mypublishingTS :: nat
  et_myscannedTS :: "nat list"
  et_firstLoEntryFlag :: bool
  et_numRetiresSinceLoWatermark :: nat
  et_LoPathReclaimAttemptFreq :: nat
  et_bag_size_when_entered_loWm :: nat

record epop =
  ep_num_process :: nat
  ep_empty_freq :: nat
  ep_epoch_freq :: nat
  ep_slotsPerThread :: nat
  ep_slots :: "ptr list"
  ep_reservations :: "nat list"
  ep_retired :: "rcu_info list list"
  ep_retire_counters :: "nat list"
  ep_alloc_counters :: "nat list"
  ep_epoch :: nat
  ep_thread :: "epop_thread list"
  ep_pending :: "nat set"
  ep_pool :: allocator

text \<open>\<open>empty_freq\<close> is 24576, or 2048 when \<open>LONG_RUNNING_EXP\<close> is defined.\<close>

definition epop_new :: "nat \<Rightarrow> nat \<Rightarrow> allocator \<Rightarrow> epop" where
  "epop_new empty_freq numProcesses pool =
     \<lparr>ep_num_process = numProcesses, ep_empty_freq = empty_freq, ep_epoch_freq = 150, ep_slotsPerThread = 3,
      ep_slots = replicate (numProcesses * 3) NULL, ep_reservations = replicate numProcesses UINT64_MAX,
      ep_retired = replicate numProcesses [], ep_retire_counters = replicate numProcesses 0,
      ep_alloc_counters = replicate numProcesses 0, ep_epoch = 0,
      ep_thread = replicate numProcesses \<lparr>et_bagCapacityThreshold = 0, et_sigallattempts = 0,
         et_local_slots = replicate 3 NULL, et_announcedTS = 0, et_savedTS = [], et_mypublishingTS = 0, et_myscannedTS = [],
         et_firstLoEntryFlag = False, et_numRetiresSinceLoWatermark = 0, et_LoPathReclaimAttemptFreq = 0,
         et_bag_size_when_entered_loWm = 0\<rparr>,
      ep_pending = {}, ep_pool = pool\<rparr>"

definition epop_upd :: "nat \<Rightarrow> (epop_thread \<Rightarrow> epop_thread) \<Rightarrow> epop \<Rightarrow> epop" where
  "epop_upd tid f s = s\<lparr>ep_thread := (ep_thread s)[tid := f (ep_thread s ! tid)]\<rparr>"

definition epop_initThread :: "nat \<Rightarrow> epop \<Rightarrow> epop" where
  "epop_initThread tid s = epop_upd tid (\<lambda>th. th\<lparr>et_bagCapacityThreshold := ep_empty_freq s, et_local_slots := replicate 3 NULL,
     et_sigallattempts := 0, et_firstLoEntryFlag := True, et_bag_size_when_entered_loWm := 0, et_numRetiresSinceLoWatermark := 0,
     et_LoPathReclaimAttemptFreq := 24576 div 3, et_announcedTS := 0, et_savedTS := replicate (ep_num_process s * 16) 0,
     et_mypublishingTS := 0, et_myscannedTS := replicate (ep_num_process s * 16) 0\<rparr>) s"

definition epop_start :: "nat \<Rightarrow> nat \<Rightarrow> allocator \<Rightarrow> epop" where
  "epop_start freq n pool = fold epop_initThread [0..<n] (epop_new freq n pool)"

definition epop_startOp :: "nat \<Rightarrow> epop \<Rightarrow> bool \<times> epop" where
  "epop_startOp tid s = (let e = ep_epoch s in (True, s\<lparr>ep_reservations := (ep_reservations s)[tid := e]\<rparr>))"

definition epop_reserve :: "ptr \<Rightarrow> nat \<Rightarrow> nat \<Rightarrow> epop \<Rightarrow> epop" where
  "epop_reserve p slot tid s = epop_upd tid (\<lambda>th. th\<lparr>et_local_slots := (et_local_slots th)[slot := p]\<rparr>) s"

definition epop_endOp :: "nat \<Rightarrow> epop \<Rightarrow> epop" where
  "epop_endOp tid s =
     (let s1 = fold (\<lambda>i. epop_reserve NULL i tid) [0..<ep_slotsPerThread s] s
      in s1\<lparr>ep_reservations := (ep_reservations s1)[tid := UINT64_MAX]\<rparr>)"

text \<open>\<open>read\<close> over the pairs of loads its loop makes; \<open>None\<close> while no pair agrees.\<close>

fun epop_read :: "nat \<Rightarrow> nat \<Rightarrow> (ptr \<times> ptr) list \<Rightarrow> epop \<Rightarrow> (ptr \<times> epop) option" where
  "epop_read tid idx [] s = None"
| "epop_read tid idx ((ret, again) # loads) s =
     (let s1 = epop_reserve (hp_realptr ret) idx tid s
      in if ret = again then Some (ret, s1) else epop_read tid idx loads s1)"

definition epop_updateAllocCounterAndEpoch :: "nat \<Rightarrow> epop \<Rightarrow> epop" where
  "epop_updateAllocCounterAndEpoch tid s =
     (let c = u64_inc (ep_alloc_counters s ! tid);
          s1 = s\<lparr>ep_alloc_counters := (ep_alloc_counters s)[tid := c]\<rparr>
      in if c mod (ep_epoch_freq s * ep_num_process s) = 0 then s1\<lparr>ep_epoch := u64_inc (ep_epoch s1)\<rparr> else s1)"

definition epop_publishReservations :: "nat \<Rightarrow> epop \<Rightarrow> epop" where
  "epop_publishReservations tid s =
     epop_upd tid (\<lambda>th. th\<lparr>et_mypublishingTS := (et_mypublishingTS th + 1) mod 2 ^ 32\<rparr>)
       (fold (\<lambda>i s. s\<lparr>ep_slots := (ep_slots s)[tid * ep_slotsPerThread s + i := et_local_slots (ep_thread s ! tid) ! i]\<rparr>)
          [0..<ep_slotsPerThread s] s)"

definition epop_handler :: "nat \<Rightarrow> epop \<Rightarrow> epop" where
  "epop_handler tid s =
     (if tid \<in> ep_pending s then epop_publishReservations tid (s\<lparr>ep_pending := ep_pending s - {tid}\<rparr>) else s)"

text \<open>The signals; unlike the variant without epochs, the caller does not publish its own pointers.\<close>

fun epop_signal_loop :: "(nat \<Rightarrow> bool) \<Rightarrow> nat \<Rightarrow> nat list \<Rightarrow> epop \<Rightarrow> bool \<times> epop" where
  "epop_signal_loop kill tid [] s = (True, s)"
| "epop_signal_loop kill tid (otherTid # rest) s =
     (if tid \<noteq> otherTid then
        if \<not> kill otherTid then (False, s)
        else epop_signal_loop kill tid rest (s\<lparr>ep_pending := insert otherTid (ep_pending s)\<rparr>)
      else epop_signal_loop kill tid rest s)"

definition epop_requestAllThreadsToRestart :: "(nat \<Rightarrow> bool) \<Rightarrow> nat \<Rightarrow> epop \<Rightarrow> bool \<times> epop" where
  "epop_requestAllThreadsToRestart kill tid s = epop_signal_loop kill tid [0..<ep_num_process s] s"

subsubsection \<open>The low watermark\<close>

definition epop_setLoWmMetaData :: "nat \<Rightarrow> nat \<Rightarrow> epop \<Rightarrow> epop" where
  "epop_setLoWmMetaData rnd tid s = epop_upd tid (\<lambda>th. th\<lparr>et_firstLoEntryFlag := False,
     et_LoPathReclaimAttemptFreq := (if rnd = 0 then 24576 div 100 else rnd * 5 * 24576 div 100),
     et_savedTS := map (\<lambda>i. et_announcedTS (ep_thread s ! i)) [0..<ep_num_process s] @ drop (ep_num_process s) (et_savedTS th)\<rparr>) s"

definition epop_resetLoWmMetaData :: "nat \<Rightarrow> epop \<Rightarrow> epop" where
  "epop_resetLoWmMetaData tid s = epop_upd tid (\<lambda>th. th\<lparr>et_firstLoEntryFlag := True,
     et_numRetiresSinceLoWatermark := 0, et_bag_size_when_entered_loWm := 0\<rparr>) s"

definition epop_isPastLoWatermark :: "nat \<Rightarrow> nat \<Rightarrow> epop \<Rightarrow> bool" where
  "epop_isPastLoWatermark tid myTrashSize s \<longleftrightarrow> et_bagCapacityThreshold (ep_thread s ! tid) div 8 < myTrashSize
     \<and> et_numRetiresSinceLoWatermark (ep_thread s ! tid) mod et_LoPathReclaimAttemptFreq (ep_thread s ! tid) = 0"

text \<open>The three ways to free: by epochs, by published pointers, and by published pointers among the oldest.\<close>

definition epop_sweep :: "nat \<Rightarrow> (rcu_info \<Rightarrow> bool) \<Rightarrow> nat \<Rightarrow> epop \<Rightarrow> epop" where
  "epop_sweep tid safe limit s =
     (let (kept, erased) = erase_loop safe (take limit (ep_retired s ! tid))
      in s\<lparr>ep_retired := (ep_retired s)[tid := kept @ drop limit (ep_retired s ! tid)],
           ep_pool := pool_add_all tid (map ri_obj erased) (ep_pool s)\<rparr>)"

definition epop_rcu_empty :: "nat \<Rightarrow> epop \<Rightarrow> nat \<times> epop" where
  "epop_rcu_empty tid s =
     (let minEpoch = scan_min UINT64_MAX (take (ep_num_process s) (ep_reservations s));
          s1 = epop_sweep tid (\<lambda>res. ri_epoch res < minEpoch) (length (ep_retired s ! tid)) s
      in (length (ep_retired s1 ! tid), s1))"

definition epop_conflict :: "epop \<Rightarrow> ptr \<Rightarrow> bool" where
  "epop_conflict s p \<longleftrightarrow> (\<exists>i\<in>set [0..<ep_num_process s * ep_slotsPerThread s]. ep_slots s ! i = p)"

definition epop_hp_empty :: "nat \<Rightarrow> epop \<Rightarrow> epop" where
  "epop_hp_empty tid s = epop_sweep tid (\<lambda>res. \<not> epop_conflict s (ri_obj res)) (length (ep_retired s ! tid)) s"

text \<open>The bound \<open>retire_bag_size_when_entered_loWm - 1\<close> is unsigned: a size of 0 is no bound.\<close>

definition epop_hp_LoWmempty :: "nat \<Rightarrow> epop \<Rightarrow> epop" where
  "epop_hp_LoWmempty tid s =
     (let entered = et_bag_size_when_entered_loWm (ep_thread s ! tid)
      in epop_sweep tid (\<lambda>res. \<not> epop_conflict s (ri_obj res)) (if entered = 0 then 2 ^ 32 else entered) s)"

fun epop_lo_loop :: "nat \<Rightarrow> nat list \<Rightarrow> epop \<Rightarrow> epop" where
  "epop_lo_loop tid [] s = s"
| "epop_lo_loop tid (i # rest) s =
     (if (et_savedTS (ep_thread s ! tid) ! i + 2) mod 2 ^ 32 \<le> et_announcedTS (ep_thread s ! i)
      then epop_resetLoWmMetaData tid (epop_hp_LoWmempty tid s)
      else epop_lo_loop tid rest s)"

definition epop_lowatermark :: "nat \<Rightarrow> nat \<Rightarrow> epop \<Rightarrow> epop" where
  "epop_lowatermark rnd tid s =
     (let myTrashSize = length (ep_retired s ! tid)
      in if epop_isPastLoWatermark tid myTrashSize s
         then epop_lo_loop tid [0..<ep_num_process s]
           (if et_firstLoEntryFlag (ep_thread s ! tid)
            then epop_upd tid (\<lambda>th. th\<lparr>et_bag_size_when_entered_loWm := myTrashSize\<rparr>) (epop_setLoWmMetaData rnd tid s) else s)
         else s)"

subsubsection \<open>Retire\<close>

definition epop_push :: "nat \<Rightarrow> ptr \<Rightarrow> epop \<Rightarrow> epop" where
  "epop_push tid obj s =
     s\<lparr>ep_retired := (ep_retired s)[tid := ep_retired s ! tid @ [\<lparr>ri_obj = obj, ri_epoch = ep_epoch s\<rparr>]],
       ep_retire_counters := (ep_retire_counters s)[tid := u64_inc (ep_retire_counters s ! tid)]\<rparr>"

definition epop_announce :: "nat \<Rightarrow> epop \<Rightarrow> epop" where
  "epop_announce tid s = epop_upd tid (\<lambda>th. th\<lparr>et_announcedTS := (et_announcedTS th + 1) mod 2 ^ 32\<rparr>) s"

definition epop_note_publishing :: "nat \<Rightarrow> epop \<Rightarrow> epop" where
  "epop_note_publishing tid s = epop_upd tid (\<lambda>th. th\<lparr>et_myscannedTS :=
     map (\<lambda>i. et_mypublishingTS (ep_thread s ! i)) [0..<ep_num_process s] @ drop (ep_num_process s) (et_myscannedTS th)\<rparr>) s"

text \<open>The loop after the signals: the last value of \<open>assert_count\<close>, and whether every assertion held.\<close>

fun epop_wait_loop :: "nat \<Rightarrow> epop \<Rightarrow> nat list \<Rightarrow> nat \<Rightarrow> nat \<times> bool" where
  "epop_wait_loop tid s [] assert_count = (assert_count, True)"
| "epop_wait_loop tid s (i # is) assert_count =
     (if tid \<noteq> i \<and> et_myscannedTS (ep_thread s ! tid) ! i = et_mypublishingTS (ep_thread s ! i)
      then (if assert_count + 1 < 3 * ep_num_process s then epop_wait_loop tid s is (assert_count + 1)
            else (assert_count + 1, False))
      else epop_wait_loop tid s is assert_count)"

text \<open>The signals and the forced reclamation; \<open>None\<close> when an assertion fails.\<close>

definition epop_force :: "(nat \<Rightarrow> bool) \<Rightarrow> nat \<Rightarrow> epop \<Rightarrow> epop option" where
  "epop_force kill tid s =
     (let (sent, s1) = epop_requestAllThreadsToRestart kill tid (epop_announce tid (epop_note_publishing tid s))
      in if sent
         then if snd (epop_wait_loop tid s1 [0..<ep_num_process s1] 0) then Some (epop_hp_empty tid (epop_announce tid s1)) else None
         else Some s1)"

text \<open>The comparison \<open>after_sz >= (empty_freq - 4096)\<close> is one of 32-bit unsigned numbers.\<close>

definition epop_still_full :: "nat \<Rightarrow> epop \<Rightarrow> bool" where
  "epop_still_full after_sz s \<longleftrightarrow> (int (ep_empty_freq s) - 4096) mod 2 ^ 32 \<le> int after_sz"

definition epop_out_of_patience :: "(nat \<Rightarrow> bool) \<Rightarrow> nat \<Rightarrow> epop \<Rightarrow> epop option" where
  "epop_out_of_patience kill tid s =
     (if ep_empty_freq s \<le> length (ep_retired s ! tid)
      then let (after_sz, s1) = epop_rcu_empty tid s
           in map_option (epop_resetLoWmMetaData tid) (if epop_still_full after_sz s1 then epop_force kill tid s1 else Some s1)
      else Some s)"

definition epop_count_retire :: "nat \<Rightarrow> epop \<Rightarrow> epop" where
  "epop_count_retire tid s =
     (if \<not> et_firstLoEntryFlag (ep_thread s ! tid)
      then epop_upd tid (\<lambda>th. th\<lparr>et_numRetiresSinceLoWatermark := (et_numRetiresSinceLoWatermark th + 1) mod 2 ^ 32\<rparr>) s else s)"

definition epop_retire :: "(nat \<Rightarrow> bool) \<Rightarrow> nat \<Rightarrow> nat \<Rightarrow> ptr \<Rightarrow> epop \<Rightarrow> epop option" where
  "epop_retire kill rnd tid obj s =
     (if obj = NULL then Some s
      else map_option (epop_count_retire tid)
        (epop_out_of_patience kill tid (epop_lowatermark rnd tid (epop_push tid obj s))))"

definition epop_delete :: "epop \<Rightarrow> allocator" where
  "epop_delete s = fold (\<lambda>i pool. pool_add_all i (map ri_obj (ep_retired s ! i)) pool) [0..<ep_num_process s] (ep_pool s)"

fun epop_exec :: "(nat \<Rightarrow> bool) \<Rightarrow> (epop \<Rightarrow> nat) \<Rightarrow> smr_op \<Rightarrow> epop \<Rightarrow> epop" where
  "epop_exec kill rnd (StartOp tid) s = snd (epop_startOp tid s)"
| "epop_exec kill rnd (EndOp tid) s = epop_endOp tid s"
| "epop_exec kill rnd (ReadOp tid idx p) s = (case epop_read tid idx [(p, p)] s of Some (_, s') \<Rightarrow> s' | None \<Rightarrow> s)"
| "epop_exec kill rnd (AllocOp tid) s = epop_updateAllocCounterAndEpoch tid s"
| "epop_exec kill rnd (SignalOp tid) s = epop_handler tid s"
| "epop_exec kill rnd (RetireOp tid p) s = (case epop_retire kill (rnd s) tid p s of Some s' \<Rightarrow> s' | None \<Rightarrow> s)"

subsection \<open>What the operations keep\<close>

definition epop_wf :: "epop \<Rightarrow> bool" where
  "epop_wf s \<longleftrightarrow> ep_slotsPerThread s = 3 \<and> length (ep_slots s) = ep_num_process s * 3 \<and> length (ep_reservations s) = ep_num_process s
     \<and> length (ep_retired s) = ep_num_process s \<and> length (ep_retire_counters s) = ep_num_process s
     \<and> length (ep_alloc_counters s) = ep_num_process s \<and> length (ep_thread s) = ep_num_process s
     \<and> (\<forall>th\<in>set (ep_thread s). length (et_local_slots th) = 3)"

definition epop_limbo :: "epop \<Rightarrow> ptr multiset" where
  "epop_limbo s = image_mset ri_obj (all_entries (ep_retired s))"

text \<open>Steps that retire nothing: they may move objects from limbo to the pool.\<close>

definition epop_drops :: "epop \<Rightarrow> epop \<Rightarrow> bool" where
  "epop_drops s s' \<longleftrightarrow> epop_wf s' \<and> ep_num_process s' = ep_num_process s \<and> ep_empty_freq s' = ep_empty_freq s
     \<and> (\<exists>ps. al_freed (ep_pool s') = al_freed (ep_pool s) @ ps)
     \<and> epop_limbo s' + mset (al_freed (ep_pool s')) = epop_limbo s + mset (al_freed (ep_pool s))
     \<and> (\<forall>t. length (ep_retired s' ! t) \<le> length (ep_retired s ! t))"

lemma epop_drops_refl: "epop_wf s \<Longrightarrow> epop_drops s s"
  by (simp add: epop_drops_def)

lemma epop_drops_trans: "epop_drops s s' \<Longrightarrow> epop_drops s' s'' \<Longrightarrow> epop_drops s s''"
  by (auto simp: epop_drops_def intro: order_trans)

lemma epop_drops_wf: "epop_drops s s' \<Longrightarrow> epop_wf s'" "epop_drops s s' \<Longrightarrow> ep_num_process s' = ep_num_process s"
  by (simp_all add: epop_drops_def)

text \<open>Most steps keep the lists and the pool.\<close>

lemma epop_drops_same:
  assumes "ep_retired s' = ep_retired s" and "ep_pool s' = ep_pool s" and "ep_num_process s' = ep_num_process s"
    and "ep_empty_freq s' = ep_empty_freq s" and "epop_wf s'"
  shows "epop_drops s s'"
  using assms by (simp add: epop_drops_def epop_limbo_def)

lemma epop_upd_fields [simp]:
  "ep_retired (epop_upd tid f s) = ep_retired s" "ep_pool (epop_upd tid f s) = ep_pool s" "ep_slots (epop_upd tid f s) = ep_slots s"
  "ep_num_process (epop_upd tid f s) = ep_num_process s" "ep_empty_freq (epop_upd tid f s) = ep_empty_freq s"
  "ep_slotsPerThread (epop_upd tid f s) = ep_slotsPerThread s" "ep_pending (epop_upd tid f s) = ep_pending s"
  "ep_reservations (epop_upd tid f s) = ep_reservations s" "ep_epoch (epop_upd tid f s) = ep_epoch s"
  by (simp_all add: epop_upd_def)

lemma epop_wf_upd:
  assumes "epop_wf s" and "tid < ep_num_process s" and "\<And>th. length (et_local_slots th) = 3 \<Longrightarrow> length (et_local_slots (f th)) = 3"
  shows "epop_wf (epop_upd tid f s)"
  using assms by (auto simp: epop_wf_def epop_upd_def dest!: set_update_subset_insert [THEN subsetD])

lemma epop_drops_upd:
  assumes "epop_wf s" and "tid < ep_num_process s" and "\<And>th. length (et_local_slots th) = 3 \<Longrightarrow> length (et_local_slots (f th)) = 3"
  shows "epop_drops s (epop_upd tid f s)"
  by (rule epop_drops_same) (use epop_wf_upd [OF assms] in simp_all)

lemma epop_drops_pending [simp]: "epop_wf s \<Longrightarrow> epop_drops s (s\<lparr>ep_pending := P\<rparr>)"
  by (rule epop_drops_same) (simp_all add: epop_wf_def)

lemma epop_sweep_eq:
  "epop_sweep tid safe limit s =
     s\<lparr>ep_retired := (ep_retired s)[tid := filter (\<lambda>x. \<not> safe x) (take limit (ep_retired s ! tid)) @ drop limit (ep_retired s ! tid)],
       ep_pool := pool_add_all tid (map ri_obj (filter safe (take limit (ep_retired s ! tid)))) (ep_pool s)\<rparr>"
  by (simp add: epop_sweep_def erase_loop_eq Let_def)

lemma epop_drops_sweep:
  assumes wf: "epop_wf s" and tid: "tid < ep_num_process s"
  shows "epop_drops s (epop_sweep tid safe limit s)"
proof -
  let ?xs = "take limit (ep_retired s ! tid)" and ?ys = "drop limit (ep_retired s ! tid)"
  have len: "tid < length (ep_retired s)" using wf tid by (simp add: epop_wf_def)
  have xs: "ep_retired s ! tid = ?xs @ ?ys" by simp
  have "image_mset ri_obj (all_entries ((ep_retired s)[tid := filter (\<lambda>x. \<not> safe x) ?xs @ ?ys])) + mset (map ri_obj (?xs @ ?ys))
      = image_mset ri_obj (all_entries (ep_retired s)) + mset (map ri_obj (filter (\<lambda>x. \<not> safe x) ?xs @ ?ys))"
    using image_all_entries_update [OF len, of ri_obj "filter (\<lambda>x. \<not> safe x) ?xs @ ?ys"] by simp
  moreover have "mset (map ri_obj ?xs) = mset (map ri_obj (filter safe ?xs)) + mset (map ri_obj (filter (\<lambda>x. \<not> safe x) ?xs))"
    by (rule mset_map_filter_split [symmetric])
  ultimately have "epop_limbo (epop_sweep tid safe limit s) + mset (map ri_obj (filter safe ?xs)) = epop_limbo s"
    unfolding epop_sweep_eq epop_limbo_def by (simp add: add.assoc del: mset_map append_take_drop_id)
  moreover have "length (filter (\<lambda>x. \<not> safe x) ?xs @ ?ys) \<le> length (ep_retired s ! tid)"
    by (subst (2) xs, subst length_append, subst length_append) (simp only: add_le_cancel_right length_filter_le)
  moreover have "epop_wf (epop_sweep tid safe limit s)" using wf by (simp add: epop_sweep_eq epop_wf_def)
  ultimately show ?thesis
    using len by (auto simp: epop_drops_def epop_sweep_eq nth_list_update add_ac simp del: mset_map)
qed

lemma epop_publish_slots:
  "fold (\<lambda>i s. s\<lparr>ep_slots := (ep_slots s)[tid * ep_slotsPerThread s + i := et_local_slots (ep_thread s ! tid) ! i]\<rparr>) is s
     = s\<lparr>ep_slots := fold (\<lambda>i sl. sl[tid * ep_slotsPerThread s + i := et_local_slots (ep_thread s ! tid) ! i]) is (ep_slots s)\<rparr>"
  by (induction "is" arbitrary: s) simp_all

lemma fold_update_length: "length (fold (\<lambda>i sl. sl[f i := g i]) is sl) = length sl"
  by (induction "is" arbitrary: sl) simp_all

lemma epop_drops_publish:
  assumes "epop_wf s" and "tid < ep_num_process s"
  shows "epop_drops s (epop_publishReservations tid s)"
proof -
  let ?sl = "fold (\<lambda>i sl. sl[tid * ep_slotsPerThread s + i := et_local_slots (ep_thread s ! tid) ! i]) [0..<ep_slotsPerThread s] (ep_slots s)"
  have wf: "epop_wf (s\<lparr>ep_slots := ?sl\<rparr>)" using assms(1) by (simp add: epop_wf_def fold_update_length)
  have "epop_drops s (s\<lparr>ep_slots := ?sl\<rparr>)" by (rule epop_drops_same) (use wf in simp_all)
  moreover have "epop_drops (s\<lparr>ep_slots := ?sl\<rparr>) (epop_publishReservations tid s)"
    unfolding epop_publishReservations_def epop_publish_slots by (rule epop_drops_upd) (use wf assms(2) in simp_all)
  ultimately show ?thesis by (rule epop_drops_trans)
qed

lemma epop_signal_loop_eq:
  "\<exists>b P. epop_signal_loop kill tid os s = (b, s\<lparr>ep_pending := ep_pending s \<union> P\<rparr>)
     \<and> ((\<forall>t\<in>set os. kill t) \<longrightarrow> b \<and> P = set os - {tid})"
proof (induction os arbitrary: s)
  case Nil
  then show ?case by (intro exI [of _ True] exI [of _ "{}"]) simp
next
  case (Cons t os)
  show ?case
  proof (cases "t = tid \<or> \<not> kill t")
    case True
    show ?thesis
    proof (cases "t = tid")
      case True
      then show ?thesis using Cons.IH [of s] by auto
    next
      case False
      then show ?thesis using True by (intro exI [of _ False] exI [of _ "{}"]) simp
    qed
  next
    case False
    obtain b P where "epop_signal_loop kill tid os (s\<lparr>ep_pending := insert t (ep_pending s)\<rparr>)
        = (b, s\<lparr>ep_pending := insert t (ep_pending s) \<union> P\<rparr>)" and "(\<forall>t\<in>set os. kill t) \<longrightarrow> b \<and> P = set os - {tid}"
      using Cons.IH [of "s\<lparr>ep_pending := insert t (ep_pending s)\<rparr>"] by auto
    then show ?thesis using False by (intro exI [of _ b] exI [of _ "insert t P"]) auto
  qed
qed

lemma epop_wait_loop_ok:
  "assert_count + length is < 3 * ep_num_process s \<Longrightarrow> snd (epop_wait_loop tid s is assert_count)"
  by (induction "is" arbitrary: assert_count) auto

lemma epop_drops_small:
  assumes "epop_wf s" and "tid < ep_num_process s"
  shows "epop_drops s (epop_announce tid s)" "epop_drops s (epop_note_publishing tid s)" "epop_drops s (epop_resetLoWmMetaData tid s)"
    "epop_drops s (epop_setLoWmMetaData rnd tid s)" "epop_drops s (epop_count_retire tid s)" "epop_drops s (epop_reserve p i tid s)"
    "epop_drops s (epop_initThread tid s)"
  unfolding epop_announce_def epop_note_publishing_def epop_resetLoWmMetaData_def epop_setLoWmMetaData_def epop_count_retire_def
    epop_reserve_def epop_initThread_def
  by (simp_all add: assms epop_drops_upd epop_drops_refl)

text \<open>The forced reclamation: whoever was signalled, it ends with a sweep by the published slots as they are.\<close>

lemma epop_force_steps:
  assumes wf: "epop_wf s" and tid: "tid < ep_num_process s"
  shows "\<exists>s1 s2. epop_force kill tid s = Some s2 \<and> epop_drops s s1 \<and> (s2 = s1 \<or> s2 = epop_hp_empty tid s1)
    \<and> ep_retired s1 = ep_retired s \<and> ep_slots s1 = ep_slots s \<and> ep_pool s1 = ep_pool s
    \<and> ((\<forall>t<ep_num_process s. kill t) \<longrightarrow> s2 = epop_hp_empty tid s1 \<and> ep_pending s1 = ep_pending s \<union> ({0..<ep_num_process s} - {tid}))"
proof -
  let ?a = "epop_announce tid (epop_note_publishing tid s)"
  have d1: "epop_drops s (epop_note_publishing tid s)" using epop_drops_small(2) [OF assms] .
  have da: "epop_drops s ?a"
    using epop_drops_trans [OF d1 epop_drops_small(1)] epop_drops_wf [OF d1] tid by simp
  have fa: "ep_num_process ?a = ep_num_process s" "ep_retired ?a = ep_retired s" "ep_slots ?a = ep_slots s" "ep_pool ?a = ep_pool s"
      "ep_pending ?a = ep_pending s"
    by (simp_all add: epop_announce_def epop_note_publishing_def)
  obtain b P where req: "epop_requestAllThreadsToRestart kill tid ?a = (b, ?a\<lparr>ep_pending := ep_pending s \<union> P\<rparr>)"
    and all: "(\<forall>t\<in>set [0..<ep_num_process s]. kill t) \<longrightarrow> b \<and> P = set [0..<ep_num_process s] - {tid}"
    using epop_signal_loop_eq [of kill tid "[0..<ep_num_process s]" ?a] by (auto simp: epop_requestAllThreadsToRestart_def fa)
  define r where "r = ?a\<lparr>ep_pending := ep_pending s \<union> P\<rparr>"
  have dr: "epop_drops s r"
    unfolding r_def by (rule epop_drops_trans [OF da epop_drops_pending]) (rule epop_drops_wf(1) [OF da])
  have fr: "ep_num_process r = ep_num_process s" "ep_retired r = ep_retired s" "ep_slots r = ep_slots s" "ep_pool r = ep_pool s"
      "ep_pending r = ep_pending s \<union> P"
    by (simp_all add: r_def fa)
  have w: "snd (epop_wait_loop tid r [0..<ep_num_process r] 0)" using epop_wait_loop_ok [of 0 "[0..<ep_num_process r]" r tid] tid fr by simp
  show ?thesis
  proof (cases b)
    case True
    let ?s1 = "epop_announce tid r"
    have "epop_drops s ?s1"
      using epop_drops_trans [OF dr epop_drops_small(1)] epop_drops_wf [OF dr] tid by simp
    moreover have "epop_force kill tid s = Some (epop_hp_empty tid ?s1)"
      using req w True by (simp add: epop_force_def Let_def r_def)
    ultimately show ?thesis
      using all fr by (intro exI [of _ ?s1] exI [of _ "epop_hp_empty tid ?s1"]) (auto simp: epop_announce_def)
  next
    case False
    have "epop_force kill tid s = Some r" using req False by (simp add: epop_force_def Let_def r_def)
    then show ?thesis using dr fr all False by (intro exI [of _ r]) auto
  qed
qed

lemma epop_drops_hp_empty: "epop_wf s \<Longrightarrow> tid < ep_num_process s \<Longrightarrow> epop_drops s (epop_hp_empty tid s)"
  unfolding epop_hp_empty_def by (rule epop_drops_sweep)

lemma epop_force_drops:
  assumes "epop_wf s" and "tid < ep_num_process s"
  shows "\<exists>s'. epop_force kill tid s = Some s' \<and> epop_drops s s'"
proof -
  obtain s1 s2 where f: "epop_force kill tid s = Some s2" "epop_drops s s1" "s2 = s1 \<or> s2 = epop_hp_empty tid s1"
    using epop_force_steps [OF assms] by blast
  have "epop_drops s1 (epop_hp_empty tid s1)" using epop_drops_hp_empty [of s1 tid] epop_drops_wf [OF f(2)] assms(2) by simp
  then show ?thesis using f epop_drops_trans [OF f(2)] by blast
qed

lemma epop_rcu_empty_drops: "epop_wf s \<Longrightarrow> tid < ep_num_process s \<Longrightarrow> epop_drops s (snd (epop_rcu_empty tid s))"
  by (simp add: epop_rcu_empty_def Let_def epop_drops_sweep)

lemma epop_lo_loop_drops:
  assumes "epop_wf s" and "tid < ep_num_process s"
  shows "epop_drops s (epop_lo_loop tid is s)"
proof (induction "is")
  case (Cons i "is")
  have d: "epop_drops s (epop_hp_LoWmempty tid s)" unfolding epop_hp_LoWmempty_def Let_def by (rule epop_drops_sweep [OF assms])
  have "epop_drops s (epop_resetLoWmMetaData tid (epop_hp_LoWmempty tid s))"
    using epop_drops_trans [OF d epop_drops_small(3)] epop_drops_wf [OF d] assms(2) by simp
  then show ?case using Cons.IH by simp
qed (simp add: epop_drops_refl assms)

lemma epop_lowatermark_drops:
  assumes "epop_wf s" and "tid < ep_num_process s"
  shows "epop_drops s (epop_lowatermark rnd tid s)"
proof -
  have d1: "epop_drops s (epop_setLoWmMetaData rnd tid s)" using epop_drops_small(4) [OF assms] .
  have d2: "epop_drops s (epop_upd tid (\<lambda>th. th\<lparr>et_bag_size_when_entered_loWm := k\<rparr>) (epop_setLoWmMetaData rnd tid s))" for k
    by (rule epop_drops_trans [OF d1], rule epop_drops_upd) (use epop_drops_wf [OF d1] assms(2) in simp_all)
  have "epop_drops s (epop_lo_loop tid is x)" if "epop_drops s x" for "is" x
    using epop_drops_trans [OF that epop_lo_loop_drops] epop_drops_wf [OF that] assms(2) by simp
  then show ?thesis using d2 epop_drops_refl [OF assms(1)] by (simp add: epop_lowatermark_def Let_def)
qed

lemma epop_out_of_patience_drops:
  assumes wf: "epop_wf s" and tid: "tid < ep_num_process s"
  shows "\<exists>s'. epop_out_of_patience kill tid s = Some s' \<and> epop_drops s s'"
proof (cases "ep_empty_freq s \<le> length (ep_retired s ! tid)")
  case True
  obtain n s1 where r: "epop_rcu_empty tid s = (n, s1)" by (cases "epop_rcu_empty tid s")
  have d1: "epop_drops s s1" using epop_rcu_empty_drops [OF assms] r by simp
  obtain s2 where f: "epop_force kill tid s1 = Some s2" "epop_drops s1 s2" using epop_force_drops [of s1 tid] epop_drops_wf [OF d1] tid by auto
  have reset: "epop_drops s (epop_resetLoWmMetaData tid x)" if "epop_drops s x" for x
    using epop_drops_trans [OF that epop_drops_small(3)] epop_drops_wf [OF that] tid by simp
  show ?thesis using True r f(1) reset [OF d1] reset [OF epop_drops_trans [OF d1 f(2)]] by (simp add: epop_out_of_patience_def)
next
  case False
  then show ?thesis using epop_drops_refl [OF wf] by (simp add: epop_out_of_patience_def)
qed

lemma epop_push_facts:
  assumes "epop_wf s" and "tid < ep_num_process s"
  shows "epop_wf (epop_push tid p s)" "epop_limbo (epop_push tid p s) = epop_limbo s + {#p#}"
    "ep_num_process (epop_push tid p s) = ep_num_process s" "ep_pool (epop_push tid p s) = ep_pool s"
    "ep_empty_freq (epop_push tid p s) = ep_empty_freq s" "ep_slots (epop_push tid p s) = ep_slots s"
  using assms by (simp_all add: epop_push_def epop_wf_def epop_limbo_def push_account)

lemma epop_retire_steps:
  assumes wf: "epop_wf s" and tid: "tid < ep_num_process s" and p: "p \<noteq> NULL"
  shows "\<exists>s1 s2 s3. epop_drops (epop_push tid p s) s1 \<and> epop_out_of_patience kill tid s1 = Some s2 \<and> epop_drops s1 s2
    \<and> epop_retire kill rnd tid p s = Some s3 \<and> epop_drops s2 s3 \<and> ep_retired s3 = ep_retired s2"
proof -
  note P = epop_push_facts [OF wf tid, of p]
  let ?s1 = "epop_lowatermark rnd tid (epop_push tid p s)"
  have d1: "epop_drops (epop_push tid p s) ?s1" using epop_lowatermark_drops [OF P(1)] P(3) tid by simp
  have w1: "epop_wf ?s1" "tid < ep_num_process ?s1" using epop_drops_wf [OF d1] P(3) tid by simp_all
  obtain s2 where s2: "epop_out_of_patience kill tid ?s1 = Some s2" "epop_drops ?s1 s2" using epop_out_of_patience_drops [OF w1] by blast
  have "epop_drops s2 (epop_count_retire tid s2)" using epop_drops_small(5) [OF epop_drops_wf(1) [OF s2(2)]] epop_drops_wf [OF s2(2)] w1 by simp
  moreover have "ep_retired (epop_count_retire tid s2) = ep_retired s2" by (simp add: epop_count_retire_def)
  ultimately show ?thesis using d1 s2 p by (auto simp: epop_retire_def)
qed

lemma epop_read_step: "epop_read tid idx [(p, p)] s = Some (p, epop_reserve (hp_realptr p) idx tid s)"
  by simp

lemma epop_endOp_drops:
  assumes wf: "epop_wf s" and tid: "tid < ep_num_process s"
  shows "epop_drops s (epop_endOp tid s)"
proof -
  have "epop_drops s (fold (\<lambda>i. epop_reserve NULL i tid) is s)" if "epop_wf s" "tid < ep_num_process s" for "is" s
    using that
  proof (induction "is" arbitrary: s)
    case (Cons i "is")
    have d: "epop_drops s (epop_reserve NULL i tid s)" using epop_drops_small(6) [OF Cons.prems] .
    then show ?case using epop_drops_trans [OF d Cons.IH] epop_drops_wf [OF d] Cons.prems(2) by simp
  qed (simp add: epop_drops_refl)
  note d = this [OF assms, of "[0..<ep_slotsPerThread s]"]
  show ?thesis
    by (rule epop_drops_trans [OF d], rule epop_drops_same)
      (use epop_drops_wf(1) [OF d] in \<open>simp_all add: epop_endOp_def Let_def epop_wf_def\<close>)
qed

text \<open>The contract of a reclaimer.\<close>

definition epop_does :: "epop \<Rightarrow> epop \<Rightarrow> ptr list \<Rightarrow> bool" where
  "epop_does s s' ps \<longleftrightarrow> epop_wf s' \<and> ep_num_process s' = ep_num_process s \<and> ep_empty_freq s' = ep_empty_freq s
     \<and> (\<exists>fs. al_freed (ep_pool s') = al_freed (ep_pool s) @ fs)
     \<and> epop_limbo s' + mset (al_freed (ep_pool s')) = epop_limbo s + mset (al_freed (ep_pool s)) + mset ps"

lemma epop_drops_does: "epop_drops s s' \<Longrightarrow> epop_does s s' []"
  by (simp add: epop_drops_def epop_does_def)

lemma epop_exec_drops:
  assumes wf: "epop_wf s" and ok: "op_ok (ep_num_process s) op" and "\<forall>t p. op \<noteq> RetireOp t p"
  shows "epop_drops s (epop_exec kill rnd op s)"
proof (cases op)
  case (StartOp t)
  have "epop_wf (snd (epop_startOp t s))" using wf by (simp add: epop_startOp_def epop_wf_def Let_def)
  then show ?thesis using StartOp by (simp add: epop_startOp_def Let_def epop_drops_same)
next
  case (EndOp t)
  then show ?thesis using epop_endOp_drops [OF wf] ok by simp
next
  case (ReadOp t i p)
  then show ?thesis using epop_drops_small(6) [OF wf] ok by (simp add: Let_def)
next
  case (AllocOp t)
  have "epop_wf (epop_updateAllocCounterAndEpoch t s)" using wf by (simp add: epop_updateAllocCounterAndEpoch_def epop_wf_def Let_def)
  then show ?thesis using AllocOp by (simp add: epop_updateAllocCounterAndEpoch_def Let_def epop_drops_same)
next
  case (SignalOp t)
  have "epop_drops s (epop_publishReservations t (s\<lparr>ep_pending := P\<rparr>))" for P
    using epop_drops_trans [OF epop_drops_pending [OF wf] epop_drops_publish] epop_drops_wf [OF epop_drops_pending [OF wf, of P]] SignalOp ok by simp
  then show ?thesis using SignalOp epop_drops_refl [OF wf] by (simp add: epop_handler_def)
qed (use assms in simp)

lemma epop_exec_does:
  assumes wf: "epop_wf s" and ok: "op_ok (ep_num_process s) op"
  shows "epop_does s (epop_exec kill rnd op s) (retired_by op)"
proof (cases "\<exists>t p. op = RetireOp t p \<and> p \<noteq> NULL")
  case True
  then obtain t p where o: "op = RetireOp t p" "p \<noteq> NULL" by blast
  then have t: "t < ep_num_process s" using ok by simp
  obtain s1 s2 s3 where R: "epop_drops (epop_push t p s) s1" "epop_drops s1 s2" "epop_retire kill (rnd s) t p s = Some s3" "epop_drops s2 s3"
    using epop_retire_steps [OF wf t o(2)] by blast
  then have "epop_drops (epop_push t p s) s3" using epop_drops_trans by blast
  then show ?thesis using o R(3) epop_push_facts [OF wf t, of p] by (simp add: epop_drops_def epop_does_def)
next
  case False
  then show ?thesis
  proof (cases "\<exists>t p. op = RetireOp t p")
    case True
    then show ?thesis using False epop_drops_does [OF epop_drops_refl [OF wf]] by (auto simp: epop_retire_def)
  next
    case no: False
    then have "retired_by op = []" by (cases op) auto
    then show ?thesis using epop_drops_does [OF epop_exec_drops [OF assms]] no by simp
  qed
qed

interpretation epop: reclaimer "epop_exec kill rnd" epop_wf ep_num_process epop_limbo "\<lambda>s. al_freed (ep_pool s)"
  for kill rnd
  by unfold_locales (use epop_exec_does in \<open>auto simp: epop_does_def\<close>)

lemma epop_start_facts:
  "epop_wf (epop_start freq n pool) \<and> ep_num_process (epop_start freq n pool) = n \<and> ep_retired (epop_start freq n pool) = replicate n []
    \<and> ep_pool (epop_start freq n pool) = pool \<and> ep_empty_freq (epop_start freq n pool) = freq"
proof -
  have "epop_wf (fold epop_initThread ts s) \<and> ep_num_process (fold epop_initThread ts s) = ep_num_process s
      \<and> ep_retired (fold epop_initThread ts s) = ep_retired s \<and> ep_pool (fold epop_initThread ts s) = ep_pool s
      \<and> ep_empty_freq (fold epop_initThread ts s) = ep_empty_freq s" if "epop_wf s" "\<forall>t\<in>set ts. t < ep_num_process s" for ts s
    using that
  proof (induction ts arbitrary: s)
    case (Cons t ts)
    have "epop_wf (epop_initThread t s)" using epop_drops_wf(1) [OF epop_drops_small(7)] Cons.prems by simp
    then show ?case using Cons.IH [of "epop_initThread t s"] Cons.prems by (simp add: epop_initThread_def)
  qed simp
  moreover have "epop_wf (epop_new freq n pool)" by (simp add: epop_wf_def epop_new_def)
  ultimately show ?thesis unfolding epop_start_def by (simp add: epop_new_def)
qed

end
