(* ===== verification/EpochPop_Bound.thy ===== *)
theory EpochPop_Bound
  imports EpochPop
begin

text \<open>
  The bound that publish-on-ping gives epoch-based reclamation when threads are delayed, and what
  the forced reclamation frees.
\<close>

subsection \<open>The bound\<close>

lemma epop_conflict_iff: "epop_wf s \<Longrightarrow> epop_conflict s p \<longleftrightarrow> p \<in> set (ep_slots s)"
  by (auto simp: epop_conflict_def epop_wf_def in_set_conv_nth)

lemma epop_hp_empty_length:
  assumes wf: "epop_wf s" and tid: "tid < ep_num_process s" and once: "once (epop_limbo s)"
  shows "length (ep_retired (epop_hp_empty tid s) ! tid) \<le> ep_num_process s * 3"
proof -
  let ?xs = "ep_retired s ! tid"
  have len: "tid < length (ep_retired s)" using wf tid by (simp add: epop_wf_def)
  have "epop_limbo s = all_entries (map (map ri_obj) (ep_retired s))" by (simp add: epop_limbo_def all_entries_def flip: mset_map map_concat)
  then have "distinct (map ri_obj ?xs)" using once once_entry [of "map (map ri_obj) (ep_retired s)" tid] len by simp
  then have "length (filter (\<lambda>p. p \<in> set (ep_slots s)) (map ri_obj ?xs)) \<le> length (ep_slots s)" by (rule distinct_filter_length)
  moreover have "ep_retired (epop_hp_empty tid s) ! tid = filter (\<lambda>x. ri_obj x \<in> set (ep_slots s)) ?xs"
    using len by (simp add: epop_hp_empty_def epop_sweep_eq epop_conflict_iff [OF wf])
  ultimately show ?thesis using wf by (simp add: filter_map comp_def epop_wf_def)
qed

definition epop_bounded :: "epop \<Rightarrow> bool" where
  "epop_bounded s \<longleftrightarrow> 4096 \<le> ep_empty_freq s \<and> ep_empty_freq s < 2 ^ 32
     \<and> (\<forall>t<ep_num_process s. length (ep_retired s ! t) \<le> max (ep_empty_freq s - 1) (ep_num_process s * 3))"

lemma epop_patience_length:
  assumes wf: "epop_wf s" and tid: "tid < ep_num_process s" and once: "once (epop_limbo s + mset (al_freed (ep_pool s)))"
    and kill: "\<forall>t<ep_num_process s. kill t" and f: "4096 \<le> ep_empty_freq s" "ep_empty_freq s < 2 ^ 32"
    and r: "epop_out_of_patience kill tid s = Some s'"
  shows "length (ep_retired s' ! tid) \<le> max (ep_empty_freq s - 1) (ep_num_process s * 3)"
proof (cases "ep_empty_freq s \<le> length (ep_retired s ! tid)")
  case False
  then show ?thesis using r by (simp add: epop_out_of_patience_def)
next
  case True
  obtain n s1 where e: "epop_rcu_empty tid s = (n, s1)" by (cases "epop_rcu_empty tid s")
  have d1: "epop_drops s s1" using epop_rcu_empty_drops [OF wf tid] e by simp
  have n: "n = length (ep_retired s1 ! tid)" using e by (auto simp: epop_rcu_empty_def Let_def)
  have w1: "epop_wf s1" "tid < ep_num_process s1" using epop_drops_wf [OF d1] tid by simp_all
  show ?thesis
  proof (cases "epop_still_full n s1")
    case False
    then have "int n < (int (ep_empty_freq s) - 4096) mod 2 ^ 32" using d1 by (simp add: epop_still_full_def epop_drops_def)
    also have "\<dots> = int (ep_empty_freq s) - 4096" using f by (intro mod_pos_pos_trivial) simp_all
    finally have "length (ep_retired s1 ! tid) \<le> ep_empty_freq s - 1" using n by simp
    moreover have "s' = epop_resetLoWmMetaData tid s1" using r True e False by (simp add: epop_out_of_patience_def)
    ultimately show ?thesis by (simp add: epop_resetLoWmMetaData_def)
  next
    case full: True
    have kill1: "\<forall>t<ep_num_process s1. kill t" using kill epop_drops_wf(2) [OF d1] by simp
    obtain s2 s3 where F: "epop_force kill tid s1 = Some s3" "epop_drops s1 s2" and s3: "s3 = epop_hp_empty tid s2"
      using epop_force_steps [OF w1, of kill] kill1 by blast
    have d2: "epop_drops s s2" using epop_drops_trans [OF d1 F(2)] .
    have "epop_limbo s2 + mset (al_freed (ep_pool s2)) = epop_limbo s + mset (al_freed (ep_pool s))" using d2 by (simp add: epop_drops_def)
    then have "epop_limbo s2 \<subseteq># epop_limbo s + mset (al_freed (ep_pool s))" by (rule subst) simp
    then have "once (epop_limbo s2)" using once_subset [OF once] by blast
    then have "length (ep_retired s3 ! tid) \<le> ep_num_process s * 3"
      unfolding s3 using epop_hp_empty_length [of s2 tid] epop_drops_wf [OF d2] tid by simp
    moreover have "s' = epop_resetLoWmMetaData tid s3" using r True e full F(1) by (simp add: epop_out_of_patience_def)
    ultimately show ?thesis by (simp add: epop_resetLoWmMetaData_def)
  qed
qed

lemma epop_bounded_drops: "epop_bounded s \<Longrightarrow> epop_drops s s' \<Longrightarrow> epop_bounded s'"
proof -
  assume b: "epop_bounded s" and d: "epop_drops s s'"
  have le: "length (ep_retired s' ! t) \<le> length (ep_retired s ! t)" for t using d by (simp add: epop_drops_def)
  have "ep_num_process s' = ep_num_process s" "ep_empty_freq s' = ep_empty_freq s" using d by (simp_all add: epop_drops_def)
  then show ?thesis using b order_trans [OF le] by (simp add: epop_bounded_def)
qed

lemma epop_bounded_retire:
  assumes wf: "epop_wf s" and b: "epop_bounded s" and tid: "tid < ep_num_process s" and p: "p \<noteq> NULL"
    and once: "once (epop_limbo s + mset (al_freed (ep_pool s)) + {#p#})" and kill: "\<forall>t<ep_num_process s. kill t"
    and r: "epop_retire kill rnd tid p s = Some s'"
  shows "epop_bounded s'"
proof -
  let ?p = "epop_push tid p s"
  note P = epop_push_facts [OF wf tid, of p]
  obtain s1 s2 s3 where R: "epop_drops ?p s1" "epop_out_of_patience kill tid s1 = Some s2" "epop_drops s1 s2"
      "epop_retire kill rnd tid p s = Some s3" "epop_drops s2 s3" "ep_retired s3 = ep_retired s2"
    using epop_retire_steps [OF wf tid p] by blast
  have s3: "s3 = s'" using R(4) r by simp
  have n: "ep_num_process s1 = ep_num_process s" "ep_empty_freq s1 = ep_empty_freq s" using R(1) P by (simp_all add: epop_drops_def)
  have "epop_limbo s1 + mset (al_freed (ep_pool s1)) = epop_limbo s + mset (al_freed (ep_pool s)) + {#p#}"
    using R(1) P by (simp add: epop_drops_def)
  then have own: "length (ep_retired s2 ! tid) \<le> max (ep_empty_freq s - 1) (ep_num_process s * 3)"
    using epop_patience_length [of s1 tid kill s2] epop_drops_wf [OF R(1)] tid once kill b R(2) n P by (simp add: epop_bounded_def)
  have d: "epop_drops ?p s3" using epop_drops_trans [OF R(1) epop_drops_trans [OF R(3,5)]] .
  have "length (ep_retired s3 ! t) \<le> max (ep_empty_freq s - 1) (ep_num_process s * 3)" if t: "t < ep_num_process s" for t
  proof (cases "t = tid")
    case False
    then have "ep_retired ?p ! t = ep_retired s ! t" by (simp add: epop_push_def)
    moreover have "length (ep_retired s3 ! t) \<le> length (ep_retired ?p ! t)" using d by (simp add: epop_drops_def)
    moreover have "length (ep_retired s ! t) \<le> max (ep_empty_freq s - 1) (ep_num_process s * 3)" using b t by (simp add: epop_bounded_def)
    ultimately show ?thesis by simp
  qed (use own R(6) in simp)
  moreover have "ep_num_process s3 = ep_num_process s" "ep_empty_freq s3 = ep_empty_freq s" using d P by (simp_all add: epop_drops_def)
  ultimately show ?thesis using b unfolding s3 [symmetric] epop_bounded_def by simp
qed

lemma epop_bounded_exec:
  assumes wf: "epop_wf s" and b: "epop_bounded s" and ok: "op_ok (ep_num_process s) op"
    and once: "once (epop_limbo s + mset (al_freed (ep_pool s)) + mset (retired_by op))" and kill: "\<forall>t<ep_num_process s. kill t"
  shows "epop_bounded (epop_exec kill rnd op s)"
proof (cases "\<exists>t p. op = RetireOp t p \<and> p \<noteq> NULL")
  case True
  then obtain t p where o: "op = RetireOp t p" "p \<noteq> NULL" by blast
  then have t: "t < ep_num_process s" using ok by simp
  obtain s3 where R: "epop_retire kill (rnd s) t p s = Some s3" using epop_retire_steps [OF wf t o(2), of kill "rnd s"] by blast
  then show ?thesis using epop_bounded_retire [OF wf b t o(2) _ kill R] once o by simp
next
  case False
  then show ?thesis
  proof (cases "\<exists>t p. op = RetireOp t p")
    case True
    then show ?thesis using False b by (auto simp: epop_retire_def)
  next
    case no: False
    then show ?thesis using epop_bounded_drops [OF b epop_exec_drops [OF wf ok]] by blast
  qed
qed

lemma epop_bounded_run:
  "epop_wf s \<Longrightarrow> epop_bounded s \<Longrightarrow> legal_ops (ep_num_process s) ops \<Longrightarrow> \<forall>t<ep_num_process s. kill t \<Longrightarrow>
     once (epop_limbo s + mset (al_freed (ep_pool s)) + mset (retired_in ops)) \<Longrightarrow> epop_bounded (fold (epop_exec kill rnd) ops s)"
proof (induction ops arbitrary: s)
  case (Cons op ops)
  have ok: "op_ok (ep_num_process s) op" and rest: "legal_ops (ep_num_process s) ops" using Cons.prems(3) by simp_all
  note D = epop_exec_does [OF Cons.prems(1) ok, of kill rnd]
  have "epop_limbo s + mset (al_freed (ep_pool s)) + mset (retired_by op) \<subseteq># epop_limbo s + mset (al_freed (ep_pool s)) + mset (retired_in (op # ops))"
    by simp
  then have b: "epop_bounded (epop_exec kill rnd op s)"
    using epop_bounded_exec [OF Cons.prems(1,2) ok _ Cons.prems(4)] once_subset [OF Cons.prems(5)] by blast
  have "epop_limbo (epop_exec kill rnd op s) + mset (al_freed (ep_pool (epop_exec kill rnd op s))) + mset (retired_in ops)
      = epop_limbo s + mset (al_freed (ep_pool s)) + mset (retired_in (op # ops))"
    using D by (simp add: epop_does_def add_ac)
  then have "once (epop_limbo (epop_exec kill rnd op s) + mset (al_freed (ep_pool (epop_exec kill rnd op s))) + mset (retired_in ops))"
    using Cons.prems(5) by (simp only:)
  moreover have "epop_wf (epop_exec kill rnd op s)" "ep_num_process (epop_exec kill rnd op s) = ep_num_process s"
    using D by (simp_all add: epop_does_def)
  ultimately have "epop_bounded (fold (epop_exec kill rnd) ops (epop_exec kill rnd op s))"
    using rest Cons.prems(4) by (intro Cons.IH [OF _ b]) simp_all
  then show ?case by simp
qed simp

text \<open>
  C24. Publish-on-ping bounds the garbage of epoch-based reclamation: whatever the threads do, in
  particular if one stays in its operation forever so that no epoch ever passes, and however signals
  are delivered, a thread's list of retired objects never has more than 24575 objects, or as many as
  there are slots if that is more, as long as signals can be sent and no object is retired twice.
\<close>

theorem epop_garbage_bounded:
  assumes "legal_ops n ops" and "distinct (retired_in ops)" and "\<forall>t<n. kill t" and "tid < n"
  shows "length (ep_retired (fold (epop_exec kill rnd) ops (epop_start 24576 n alloc_init)) ! tid) \<le> max 24575 (n * 3)"
proof -
  let ?s = "epop_start 24576 n alloc_init"
  note S = epop_start_facts [of 24576 n alloc_init]
  have "epop_bounded ?s" using S by (simp add: epop_bounded_def)
  moreover have "epop_limbo ?s + mset (al_freed (ep_pool ?s)) = {#}" using S by (simp add: epop_limbo_def alloc_init_def)
  ultimately have "epop_bounded (fold (epop_exec kill rnd) ops ?s)"
    using epop_bounded_run [of ?s ops kill rnd] S assms(1-3) by (simp add: once_mset)
  moreover have "ep_num_process (fold (epop_exec kill rnd) ops ?s) = n"
    using epop.run_keeps [of ?s ops kill rnd] S assms(1) by simp
  moreover have "ep_empty_freq (fold (epop_exec kill rnd) ops s) = ep_empty_freq s" if "epop_wf s" "legal_ops (ep_num_process s) ops" for s ops
    using that
  proof (induction ops arbitrary: s)
    case (Cons op ops)
    then show ?case using epop_exec_does [of s op kill rnd] by (simp add: epop_does_def)
  qed simp
  ultimately show ?thesis using S assms(1,4) unfolding epop_bounded_def by fastforce
qed

theorem epop_garbage_bounded_witness:
  "length (ep_retired (fold (epop_exec (\<lambda>_. True) (\<lambda>_. 0)) [StartOp 0, RetireOp 0 8, RetireOp 0 16] (epop_start 24576 2 alloc_init)) ! 0) \<le> 24575"
  using epop_garbage_bounded [of 2 "[StartOp 0, RetireOp 0 8, RetireOp 0 16]" "\<lambda>_. True" 0 "\<lambda>_. 0"] by simp

subsection \<open>The configuration of long experiments\<close>

text \<open>
  With the size of 2048 that \<open>LONG_RUNNING_EXP\<close> selects, the unsigned difference in the comparison
  wraps, so that the forced reclamation never runs; then nobody signals, and the low watermark frees nothing.
\<close>

lemma epop_long_running_never_forces:
  assumes "ep_empty_freq s = 2048" and "after_sz < 2 ^ 32 - 2048"
  shows "\<not> epop_still_full after_sz s"
  using assms by (simp add: epop_still_full_def)

definition epop_silent :: "nat \<Rightarrow> epop_thread \<Rightarrow> bool" where
  "epop_silent n th \<longleftrightarrow> et_announcedTS th = 0 \<and> n \<le> length (et_savedTS th) \<and> (\<forall>i<n. et_savedTS th ! i = 0)"

text \<open>Thread 0 is in an operation that it began in epoch 0, and nothing was freed.\<close>

definition epop_stuck :: "epop \<Rightarrow> bool" where
  "epop_stuck s \<longleftrightarrow> epop_wf s \<and> ep_empty_freq s = 2048 \<and> 0 < ep_num_process s \<and> ep_reservations s ! 0 = 0
     \<and> (\<forall>th\<in>set (ep_thread s). epop_silent (ep_num_process s) th) \<and> al_freed (ep_pool s) = []"

lemma epop_stuck_upd:
  assumes st: "epop_stuck s" and tid: "tid < ep_num_process s"
    and f: "\<And>th. length (et_local_slots th) = 3 \<Longrightarrow> length (et_local_slots (f th)) = 3"
      "epop_silent (ep_num_process s) (ep_thread s ! tid) \<Longrightarrow> epop_silent (ep_num_process s) (f (ep_thread s ! tid))"
  shows "epop_stuck (epop_upd tid f s)"
proof -
  have wf: "epop_wf s" using st by (simp add: epop_stuck_def)
  have "tid < length (ep_thread s)" using wf tid by (simp add: epop_wf_def)
  then have "epop_silent (ep_num_process s) (ep_thread s ! tid)" using st nth_mem by (auto simp: epop_stuck_def)
  then have "\<forall>th\<in>set (ep_thread (epop_upd tid f s)). epop_silent (ep_num_process s) th"
    using st f(2) by (auto simp: epop_stuck_def epop_upd_def dest!: set_update_subset_insert [THEN subsetD])
  then show ?thesis using st epop_wf_upd [OF wf tid f(1)] by (simp add: epop_stuck_def)
qed

text \<open>Steps that leave the threads' announcements and the pool alone.\<close>

lemma epop_stuck_same:
  assumes "epop_stuck s" and "epop_wf s'" and "ep_thread s' = ep_thread s" and "ep_num_process s' = ep_num_process s"
    and "ep_empty_freq s' = ep_empty_freq s" and "ep_reservations s' ! 0 = ep_reservations s ! 0" and "ep_pool s' = ep_pool s"
  shows "epop_stuck s'"
  using assms by (simp add: epop_stuck_def)

lemma epop_stuck_lo_loop:
  assumes st: "epop_stuck s" and tid: "tid < ep_num_process s"
  shows "\<forall>i\<in>set is. i < ep_num_process s \<Longrightarrow> epop_lo_loop tid is s = s"
proof (induction "is")
  case (Cons i "is")
  have "length (ep_thread s) = ep_num_process s" using st by (simp add: epop_stuck_def epop_wf_def)
  then have "epop_silent (ep_num_process s) (ep_thread s ! tid)" "epop_silent (ep_num_process s) (ep_thread s ! i)"
    using st tid Cons.prems nth_mem by (auto simp: epop_stuck_def)
  then show ?case using Cons by (simp add: epop_silent_def)
qed simp

lemma epop_stuck_lowatermark:
  assumes st: "epop_stuck s" and tid: "tid < ep_num_process s"
  shows "epop_stuck (epop_lowatermark rnd tid s) \<and> ep_num_process (epop_lowatermark rnd tid s) = ep_num_process s
    \<and> ep_retired (epop_lowatermark rnd tid s) = ep_retired s"
proof -
  let ?m = "epop_setLoWmMetaData rnd tid s"
  have len: "length (ep_thread s) = ep_num_process s" using st by (simp add: epop_stuck_def epop_wf_def)
  then have sil: "epop_silent (ep_num_process s) (ep_thread s ! i)" if "i < ep_num_process s" for i
    using st that nth_mem by (auto simp: epop_stuck_def)
  have m: "epop_stuck ?m"
    unfolding epop_setLoWmMetaData_def
    by (rule epop_stuck_upd [OF assms]) (use sil in \<open>auto simp: epop_silent_def nth_append\<close>)
  have n: "ep_num_process ?m = ep_num_process s" "ep_retired ?m = ep_retired s" by (simp_all add: epop_setLoWmMetaData_def)
  have "epop_stuck (epop_upd tid (\<lambda>th. th\<lparr>et_bag_size_when_entered_loWm := k\<rparr>) ?m)" for k
    by (rule epop_stuck_upd [OF m]) (use tid n in \<open>simp_all add: epop_silent_def\<close>)
  then show ?thesis
    using epop_stuck_lo_loop [OF assms, of "[0..<ep_num_process s]"] epop_stuck_lo_loop [of "epop_upd tid f ?m" tid "[0..<ep_num_process s]" for f]
      st tid n by (simp add: epop_lowatermark_def Let_def)
qed

lemma epop_stuck_patience:
  assumes st: "epop_stuck s" and tid: "tid < ep_num_process s" and len: "length (ep_retired s ! tid) < 2 ^ 32 - 2048"
  shows "\<exists>s'. epop_out_of_patience kill tid s = Some s' \<and> epop_stuck s' \<and> ep_num_process s' = ep_num_process s \<and> ep_retired s' = ep_retired s"
proof (cases "ep_empty_freq s \<le> length (ep_retired s ! tid)")
  case True
  have wf: "epop_wf s" using st by (simp add: epop_stuck_def)
  have "0 \<in> set (take (ep_num_process s) (ep_reservations s))"
    using st by (auto simp: epop_stuck_def epop_wf_def in_set_conv_nth intro!: exI [of _ 0])
  then have "scan_min UINT64_MAX (take (ep_num_process s) (ep_reservations s)) = 0" using scan_min_le_elem le_zero_eq by blast
  then have e: "epop_rcu_empty tid s = (length (ep_retired s ! tid), s)"
    using wf tid by (simp add: epop_rcu_empty_def epop_sweep_eq Let_def)
  have "\<not> epop_still_full (length (ep_retired s ! tid)) s"
    using epop_long_running_never_forces [OF _ len] st by (simp add: epop_stuck_def)
  then have "epop_out_of_patience kill tid s = Some (epop_resetLoWmMetaData tid s)" using True e by (simp add: epop_out_of_patience_def)
  moreover have "epop_stuck (epop_resetLoWmMetaData tid s)"
    unfolding epop_resetLoWmMetaData_def by (rule epop_stuck_upd [OF st tid]) (simp_all add: epop_silent_def)
  ultimately show ?thesis by (simp add: epop_resetLoWmMetaData_def)
next
  case False
  then show ?thesis using st by (simp add: epop_out_of_patience_def)
qed

lemma epop_stuck_exec:
  assumes st: "epop_stuck s" and ok: "op_ok (ep_num_process s) op" and no: "op \<noteq> StartOp 0" "op \<noteq> EndOp 0"
    and len: "\<forall>t<ep_num_process s. length (ep_retired s ! t) < 2 ^ 32 - 2049"
  shows "epop_stuck (epop_exec kill rnd op s) \<and> ep_num_process (epop_exec kill rnd op s) = ep_num_process s
    \<and> (\<forall>t. length (ep_retired (epop_exec kill rnd op s) ! t) \<le> Suc (length (ep_retired s ! t)))"
proof -
  have wf: "epop_wf s" using st by (simp add: epop_stuck_def)
  show ?thesis
  proof (cases op)
    case (StartOp t)
    have "epop_wf (snd (epop_startOp t s))" using epop_exec_drops [OF wf ok, of kill rnd] StartOp by (simp add: epop_drops_def)
    then show ?thesis using StartOp no by (simp add: epop_startOp_def Let_def epop_stuck_same [OF st])
  next
    case (EndOp t)
    have t: "t < ep_num_process s" "t \<noteq> 0" using EndOp ok no by auto
    have f: "epop_stuck (fold (\<lambda>i. epop_reserve NULL i t) is s) \<and> ep_num_process (fold (\<lambda>i. epop_reserve NULL i t) is s) = ep_num_process s
        \<and> ep_retired (fold (\<lambda>i. epop_reserve NULL i t) is s) = ep_retired s" if "epop_stuck s" "t < ep_num_process s" for "is" s
      using that
    proof (induction "is" arbitrary: s)
      case (Cons i "is")
      have "epop_stuck (epop_reserve NULL i t s)"
        unfolding epop_reserve_def by (rule epop_stuck_upd [OF Cons.prems]) (simp_all add: epop_silent_def)
      then show ?case using Cons.IH [of "epop_reserve NULL i t s"] Cons.prems by (simp add: epop_reserve_def)
    qed simp
    note F = f [OF st t(1), of "[0..<ep_slotsPerThread s]"]
    have "epop_wf (epop_endOp t s)" using epop_endOp_drops [OF wf t(1)] by (simp add: epop_drops_def)
    then have "epop_stuck (epop_endOp t s)"
      by (intro epop_stuck_same [OF conjunct1 [OF F]]) (use t in \<open>simp_all add: epop_endOp_def Let_def\<close>)
    then show ?thesis using EndOp F by (simp add: epop_endOp_def Let_def)
  next
    case (ReadOp t i p)
    have "epop_stuck (epop_reserve (hp_realptr p) i t s)"
      unfolding epop_reserve_def by (rule epop_stuck_upd [OF st]) (use ReadOp ok in \<open>simp_all add: epop_silent_def\<close>)
    then show ?thesis using ReadOp by (simp add: epop_reserve_def Let_def)
  next
    case (AllocOp t)
    have "epop_wf (epop_updateAllocCounterAndEpoch t s)" using epop_exec_drops [OF wf ok, of kill rnd] AllocOp by (simp add: epop_drops_def)
    then show ?thesis using AllocOp by (simp add: epop_updateAllocCounterAndEpoch_def Let_def epop_stuck_same [OF st])
  next
    case (SignalOp t)
    let ?q = "s\<lparr>ep_pending := ep_pending s - {t}\<rparr>"
    define q where "q = ?q\<lparr>ep_slots := fold (\<lambda>i sl. sl[t * ep_slotsPerThread ?q + i := et_local_slots (ep_thread ?q ! t) ! i])
        [0..<ep_slotsPerThread ?q] (ep_slots ?q)\<rparr>"
    have "epop_wf q" using wf by (simp add: q_def epop_wf_def fold_update_length)
    then have "epop_stuck q" by (rule epop_stuck_same [OF st]) (simp_all add: q_def)
    then have "epop_stuck (epop_publishReservations t ?q)"
      unfolding epop_publishReservations_def epop_publish_slots q_def [symmetric]
      by (rule epop_stuck_upd) (use SignalOp ok in \<open>simp_all add: q_def epop_silent_def\<close>)
    moreover have "ep_num_process (epop_publishReservations t ?q) = ep_num_process s" "ep_retired (epop_publishReservations t ?q) = ep_retired s"
      by (simp_all add: epop_publishReservations_def epop_publish_slots)
    ultimately show ?thesis using st unfolding SignalOp epop_exec.simps epop_handler_def by (cases "t \<in> ep_pending s") simp_all
  next
    case (RetireOp t p)
    show ?thesis
    proof (cases "p = NULL")
      case True
      then show ?thesis using RetireOp st by (simp add: epop_retire_def)
    next
      case False
      have t: "t < ep_num_process s" using RetireOp ok by simp
      let ?p = "epop_push t p s"
      note P = epop_push_facts [OF wf t, of p]
      have "epop_stuck ?p" by (rule epop_stuck_same [OF st P(1)]) (simp_all add: epop_push_def)
      from epop_stuck_lowatermark [OF this, of t "rnd s"] t P(3)
      have L: "epop_stuck (epop_lowatermark (rnd s) t ?p)" "ep_num_process (epop_lowatermark (rnd s) t ?p) = ep_num_process s"
          "ep_retired (epop_lowatermark (rnd s) t ?p) = ep_retired ?p" by simp_all
      have lp: "length (ep_retired ?p ! u) \<le> Suc (length (ep_retired s ! u))" for u
        using wf t by (cases "u = t") (simp_all add: epop_push_def epop_wf_def)
      have "length (ep_retired (epop_lowatermark (rnd s) t ?p) ! t) < 2 ^ 32 - 2048" using lp [of t] len t L(3) by fastforce
      then obtain s2 where s2: "epop_out_of_patience kill t (epop_lowatermark (rnd s) t ?p) = Some s2" "epop_stuck s2"
          "ep_num_process s2 = ep_num_process s" "ep_retired s2 = ep_retired ?p"
        using epop_stuck_patience [OF L(1), of t kill] t L by auto
      have "epop_stuck (epop_count_retire t s2)"
        unfolding epop_count_retire_def using epop_stuck_upd [OF s2(2), of t] s2(2,3) t by (simp add: epop_silent_def)
      moreover have "ep_retired (epop_count_retire t s2) = ep_retired ?p" "ep_num_process (epop_count_retire t s2) = ep_num_process s"
        using s2 by (simp_all add: epop_count_retire_def)
      ultimately show ?thesis using RetireOp False s2(1) lp by (simp add: epop_retire_def)
    qed
  qed
qed

lemma epop_stuck_run:
  "epop_stuck s \<Longrightarrow> legal_ops (ep_num_process s) ops \<Longrightarrow> StartOp 0 \<notin> set ops \<Longrightarrow> EndOp 0 \<notin> set ops \<Longrightarrow>
     \<forall>t<ep_num_process s. length (ep_retired s ! t) + length ops < 2 ^ 32 - 2049 \<Longrightarrow> epop_stuck (fold (epop_exec kill rnd) ops s)"
proof (induction ops arbitrary: s)
  case (Cons op ops)
  have len: "\<forall>t<ep_num_process s. length (ep_retired s ! t) < 2 ^ 32 - 2049" using Cons.prems(5) by fastforce
  have E: "epop_stuck (epop_exec kill rnd op s)" "ep_num_process (epop_exec kill rnd op s) = ep_num_process s"
      "\<And>t. length (ep_retired (epop_exec kill rnd op s) ! t) \<le> Suc (length (ep_retired s ! t))"
    using epop_stuck_exec [OF Cons.prems(1) _ _ _ len, of op kill rnd] Cons.prems(2-4) by auto
  have "\<forall>t<ep_num_process s. length (ep_retired (epop_exec kill rnd op s) ! t) + length ops < 2 ^ 32 - 2049"
  proof (intro allI impI)
    fix t assume "t < ep_num_process s"
    then have "length (ep_retired s ! t) + length (op # ops) < 2 ^ 32 - 2049" using Cons.prems(5) by blast
    moreover have "length (ep_retired (epop_exec kill rnd op s) ! t) + length ops \<le> length (ep_retired s ! t) + length (op # ops)" using E(3) [of t] by simp
    ultimately show "length (ep_retired (epop_exec kill rnd op s) ! t) + length ops < 2 ^ 32 - 2049" by (rule le_less_trans [rotated])
  qed
  then show ?case using Cons.IH [OF E(1)] Cons.prems E(2) by simp
qed simp

text \<open>
  C26. In the configuration of the long experiments the robustness of publish-on-ping is gone: if
  thread 0 stays in its first operation, then, whatever the threads do and however signals are
  delivered, nothing is ever freed (over fewer than \<open>2 ^ 32 - 2049\<close> calls): every object retired stays in limbo.
\<close>

theorem epop_long_running_frees_nothing:
  assumes "legal_ops n ops" and "0 < n" and "StartOp 0 \<notin> set ops" and "EndOp 0 \<notin> set ops" and "length ops < 2 ^ 32 - 2049"
  shows "al_freed (ep_pool (fold (epop_exec kill rnd) (StartOp 0 # ops) (epop_start 2048 n alloc_init))) = []
    \<and> epop_limbo (fold (epop_exec kill rnd) (StartOp 0 # ops) (epop_start 2048 n alloc_init)) = mset (retired_in ops)"
proof -
  let ?s = "epop_start 2048 n alloc_init" and ?t = "snd (epop_startOp 0 (epop_start 2048 n alloc_init))"
  note S = epop_start_facts [of 2048 n alloc_init]
  have th: "length (ep_thread (fold epop_initThread ts s)) = length (ep_thread s) \<and> ep_epoch (fold epop_initThread ts s) = ep_epoch s
      \<and> ep_num_process (fold epop_initThread ts s) = ep_num_process s
      \<and> (\<forall>t<length (ep_thread s). t \<in> set ts \<or> epop_silent (ep_num_process s) (ep_thread s ! t) \<longrightarrow>
          epop_silent (ep_num_process s) (ep_thread (fold epop_initThread ts s) ! t))" for ts s
  proof (induction ts arbitrary: s)
    case (Cons t ts)
    have "epop_silent (ep_num_process s) (ep_thread (epop_initThread t s) ! u)"
      if "u < length (ep_thread s)" "u = t \<or> epop_silent (ep_num_process s) (ep_thread s ! u)" for u
      using that by (cases "u = t") (simp_all add: epop_initThread_def epop_upd_def epop_silent_def)
    moreover have "length (ep_thread (epop_initThread t s)) = length (ep_thread s)" "ep_epoch (epop_initThread t s) = ep_epoch s"
        "ep_num_process (epop_initThread t s) = ep_num_process s"
      by (simp_all add: epop_initThread_def epop_upd_def)
    ultimately show ?case using Cons.IH [of "epop_initThread t s"] by auto
  qed simp
  have "\<forall>th\<in>set (ep_thread ?s). epop_silent n th"
    using th [of "[0..<n]" "epop_new 2048 n alloc_init"] by (auto simp: epop_start_def epop_new_def in_set_conv_nth)
  moreover have "ep_epoch ?s = 0" using th [of "[0..<n]" "epop_new 2048 n alloc_init"] by (simp add: epop_start_def epop_new_def)
  ultimately have st: "epop_stuck ?t"
    using S assms(2) by (simp add: epop_stuck_def epop_startOp_def Let_def alloc_init_def) (simp add: epop_wf_def)
  have t: "ep_num_process ?t = n" "ep_retired ?t = replicate n []" using S by (simp_all add: epop_startOp_def Let_def)
  have "epop_stuck (fold (epop_exec kill rnd) ops ?t)"
    using epop_stuck_run [OF st, of ops kill rnd] assms t by simp
  then have fr: "al_freed (ep_pool (fold (epop_exec kill rnd) (StartOp 0 # ops) ?s)) = []" by (simp add: epop_stuck_def)
  have "legal_ops n (StartOp 0 # ops)" using assms(1,2) by simp
  then have "epop_limbo (fold (epop_exec kill rnd) (StartOp 0 # ops) ?s) + mset (al_freed (ep_pool (fold (epop_exec kill rnd) (StartOp 0 # ops) ?s)))
      = mset (retired_in (StartOp 0 # ops))"
    by (intro epop.run_accounting) (use S in \<open>simp_all add: epop_limbo_def alloc_init_def\<close>)
  then show ?thesis using fr by simp
qed

theorem epop_long_running_frees_nothing_witness:
  "al_freed (ep_pool (fold (epop_exec (\<lambda>_. True) (\<lambda>_. 0)) (StartOp 0 # [RetireOp 1 8, RetireOp 1 16]) (epop_start 2048 2 alloc_init))) = []"
  using epop_long_running_frees_nothing [of 2 "[RetireOp 1 8, RetireOp 1 16]" "\<lambda>_. True" "\<lambda>_. 0"] by simp

subsection \<open>What is freed\<close>

text \<open>
  C25. When a thread's list is full, not due at the low watermark, and epochs free nothing of it, the
  forced reclamation of \<open>retire\<close> frees exactly the objects that no slot names as it was before the
  call: it waits for none of the signals, which are all still pending, and it does not publish the
  local slots of the calling thread, so that an object protected only by the caller itself, such as
  the one it retires while it still uses it, is freed too.
\<close>

theorem epop_force_frees_own:
  assumes wf: "epop_wf s" and tid: "tid < ep_num_process s" and p: "p \<noteq> NULL" and kill: "\<forall>t<ep_num_process s. kill t"
    and full: "ep_empty_freq s \<le> Suc (length (ep_retired s ! tid))" "4096 \<le> ep_empty_freq s" "ep_empty_freq s < 2 ^ 32"
    and lo: "\<not> epop_isPastLoWatermark tid (Suc (length (ep_retired s ! tid))) s"
    and held: "\<exists>t<ep_num_process s. ep_reservations s ! t = 0"
  shows "\<exists>s'. epop_retire kill rnd tid p s = Some s'
    \<and> al_freed (ep_pool s') = al_freed (ep_pool s) @ filter (\<lambda>q. q \<notin> set (ep_slots s)) (map ri_obj (ep_retired s ! tid) @ [p])
    \<and> {0..<ep_num_process s} - {tid} \<subseteq> ep_pending s'"
proof -
  let ?p = "epop_push tid p s" and ?xs = "ep_retired s ! tid @ [\<lparr>ri_obj = p, ri_epoch = ep_epoch s\<rparr>]"
  note P = epop_push_facts [OF wf tid, of p]
  have len: "tid < length (ep_retired s)" using wf tid by (simp add: epop_wf_def)
  have xs: "ep_retired ?p ! tid = ?xs" using len by (simp add: epop_push_def)
  have low: "epop_lowatermark rnd tid ?p = ?p"
  proof -
    have "\<not> epop_isPastLoWatermark tid (length (ep_retired ?p ! tid)) ?p"
      using lo xs by (simp add: epop_isPastLoWatermark_def) (simp add: epop_push_def)
    then show ?thesis by (simp add: epop_lowatermark_def)
  qed
  have res: "ep_reservations ?p = ep_reservations s" by (simp add: epop_push_def)
  have "length (ep_reservations s) = ep_num_process s" using wf by (simp add: epop_wf_def)
  then have "0 \<in> set (take (ep_num_process ?p) (ep_reservations ?p))" using held P(3) res by (auto simp: in_set_conv_nth)
  then have "scan_min UINT64_MAX (take (ep_num_process ?p) (ep_reservations ?p)) = 0" using scan_min_le_elem le_zero_eq by blast
  then have "epop_rcu_empty tid ?p = (length ?xs, ?p)"
    using xs len by (simp add: epop_rcu_empty_def epop_sweep_eq Let_def) (simp add: epop_push_def)
  then have e: "epop_rcu_empty tid ?p = (Suc (length (ep_retired s ! tid)), ?p)" by simp
  have "(int (ep_empty_freq s) - 4096) mod 2 ^ 32 = int (ep_empty_freq s) - 4096" using full by (intro mod_pos_pos_trivial) simp_all
  then have still: "epop_still_full (Suc (length (ep_retired s ! tid))) ?p" using full(1) P(5) by (simp add: epop_still_full_def)
  obtain s1 s2 where F: "epop_force kill tid ?p = Some s2" "epop_drops ?p s1" "ep_retired s1 = ep_retired ?p" "ep_slots s1 = ep_slots ?p"
      "ep_pool s1 = ep_pool ?p" "(\<forall>t<ep_num_process ?p. kill t) \<longrightarrow> s2 = epop_hp_empty tid s1
        \<and> ep_pending s1 = ep_pending ?p \<union> ({0..<ep_num_process ?p} - {tid})"
    using epop_force_steps [OF P(1), of tid kill] P(3) tid by metis
  have s2: "s2 = epop_hp_empty tid s1" "ep_pending s1 = ep_pending ?p \<union> ({0..<ep_num_process s} - {tid})" using F(6) kill P(3) by simp_all
  have len1: "tid < length (ep_retired s1)" using F(3) len by (simp add: epop_push_def)
  have "epop_hp_empty tid s1 = epop_sweep tid (\<lambda>x. ri_obj x \<notin> set (ep_slots s)) (length ?xs) s1"
    unfolding epop_hp_empty_def epop_conflict_iff [OF epop_drops_wf(1) [OF F(2)]] F(3,4) xs P(6) by simp
  then have fr: "al_freed (ep_pool s2) = al_freed (ep_pool s) @ filter (\<lambda>q. q \<notin> set (ep_slots s)) (map ri_obj ?xs)"
      and pe: "ep_pending s2 = ep_pending s1"
    unfolding s2(1) by (simp_all add: epop_sweep_eq F(3,5) xs P(4) filter_map comp_def)
  let ?s3 = "epop_resetLoWmMetaData tid s2"
  have "epop_out_of_patience kill tid ?p = Some ?s3"
    using full(1) xs e still F(1) P(5) by (simp add: epop_out_of_patience_def)
  then have "epop_retire kill rnd tid p s = Some (epop_count_retire tid ?s3)" using p low by (simp add: epop_retire_def)
  moreover have "al_freed (ep_pool (epop_count_retire tid ?s3)) = al_freed (ep_pool s2)" "ep_pending (epop_count_retire tid ?s3) = ep_pending s2"
    by (simp_all add: epop_count_retire_def epop_resetLoWmMetaData_def)
  ultimately show ?thesis using fr pe s2(2) by auto
qed

text \<open>Two threads, the first in an operation since epoch 0; it retires what its own slot 0 holds.\<close>

definition epop_full :: epop where
  "epop_full = epop_upd 0 (\<lambda>th. th\<lparr>et_local_slots := [8, NULL, NULL], et_firstLoEntryFlag := False, et_numRetiresSinceLoWatermark := 1, et_LoPathReclaimAttemptFreq := 8192\<rparr>)
     ((epop_start 24576 2 alloc_init)\<lparr>ep_empty_freq := 4096, ep_slots := replicate 6 NULL, ep_reservations := [0, UINT64_MAX],
        ep_retired := [replicate 4095 \<lparr>ri_obj = 16, ri_epoch = 0\<rparr>, []]\<rparr>)"

theorem epop_force_frees_own_witness:
  "et_local_slots (ep_thread epop_full ! 0) ! 0 = 8 \<and> (\<exists>s'. epop_retire (\<lambda>_. True) 0 0 8 epop_full = Some s' \<and> 8 \<in> set (al_freed (ep_pool s')))"
proof -
  note S = epop_start_facts [of 24576 2 alloc_init]
  let ?b = "(epop_start 24576 2 alloc_init)\<lparr>ep_empty_freq := 4096, ep_slots := replicate 6 NULL, ep_reservations := [0, UINT64_MAX],
        ep_retired := [replicate 4095 \<lparr>ri_obj = 16, ri_epoch = 0\<rparr>, []]\<rparr>"
  have "epop_wf ?b" using S by (simp add: epop_wf_def)
  then have wf: "epop_wf epop_full" unfolding epop_full_def by (rule epop_wf_upd) (use S in simp_all)
  have f: "ep_num_process epop_full = 2" "ep_empty_freq epop_full = 4096" "ep_reservations epop_full = [0, UINT64_MAX]"
      "ep_slots epop_full = replicate 6 NULL" "ep_retired epop_full = [replicate 4095 \<lparr>ri_obj = 16, ri_epoch = 0\<rparr>, []]"
    using S by (simp_all add: epop_full_def)
  have "length (ep_thread ?b) = 2" using S by (simp add: epop_wf_def)
  then have th: "ep_thread epop_full ! 0 = (ep_thread ?b ! 0)\<lparr>et_local_slots := [8, NULL, NULL], et_firstLoEntryFlag := False,
      et_numRetiresSinceLoWatermark := 1, et_LoPathReclaimAttemptFreq := 8192\<rparr>"
    by (simp add: epop_full_def epop_upd_def)
  have lo: "\<not> epop_isPastLoWatermark 0 (Suc (length (ep_retired epop_full ! 0))) epop_full" by (simp add: epop_isPastLoWatermark_def th)
  have held: "\<exists>t<ep_num_process epop_full. ep_reservations epop_full ! t = 0" by (rule exI [of _ 0]) (simp add: f)
  have "\<exists>s'. epop_retire (\<lambda>_. True) 0 0 8 epop_full = Some s'
      \<and> al_freed (ep_pool s') = al_freed (ep_pool epop_full) @ filter (\<lambda>q. q \<notin> set (ep_slots epop_full)) (map ri_obj (ep_retired epop_full ! 0) @ [8])"
    using epop_force_frees_own [OF wf, of 0 8 "\<lambda>_. True" 0] f lo held by auto
  then show ?thesis using th f by (auto simp: set_replicate_conv_if)
qed

end
