(* ===== verification/AbNode.thy ===== *)
theory AbNode
  imports Prelude
begin

text \<open>
  The nodes of the relaxed (a,b)-tree, \<open>ds/brown_ext_abtree_lf/brown_ext_abtree_lf_impl.h\<close>:
  their arrays, the two searches inside a node, and the code that builds the nodes of every update
  out of the arrays of the nodes it replaces. A node that \<open>allocateNode\<close> returns has arrays
  of the right length with arbitrary contents; each builder is followed by the lists that a reader
  of the finished node sees.
\<close>

subsection \<open>Nodes\<close>

type_synonym addr = nat

record ab_node =
  ab_scxPtr :: nat
  ab_leaf :: bool
  ab_marked :: bool
  ab_weight :: bool
  ab_size :: nat
  ab_searchKey :: int
  ab_keys :: "int list"
  ab_ptrs :: "nat list"

definition getKeyCount :: "ab_node \<Rightarrow> nat" where
  "getKeyCount n = (if ab_leaf n then ab_size n else ab_size n - 1)"

abbreviation getABDegree :: "ab_node \<Rightarrow> nat" where
  "getABDegree n \<equiv> ab_size n"

function child_loop :: "int \<Rightarrow> int list \<Rightarrow> nat \<Rightarrow> nat \<Rightarrow> nat" where
  "child_loop key ks nkeys retval =
     (if retval < nkeys \<and> \<not> key < ks ! retval then child_loop key ks nkeys (Suc retval) else retval)"
  by pat_completeness auto
termination by (relation "measure (\<lambda>(_, _, nkeys, retval). nkeys - retval)") auto

function key_loop :: "int \<Rightarrow> int list \<Rightarrow> nat \<Rightarrow> nat \<Rightarrow> nat" where
  "key_loop key ks nkeys retval =
     (if retval < nkeys \<and> ks ! retval < key then key_loop key ks nkeys (Suc retval) else retval)"
  by pat_completeness auto
termination by (relation "measure (\<lambda>(_, _, nkeys, retval). nkeys - retval)") auto

declare child_loop.simps [simp del] key_loop.simps [simp del]

definition getChildIndex :: "ab_node \<Rightarrow> int \<Rightarrow> nat" where
  "getChildIndex n key = child_loop key (ab_keys n) (getKeyCount n) 0"

definition getKeyIndex :: "ab_node \<Rightarrow> int \<Rightarrow> nat" where
  "getKeyIndex n key = key_loop key (ab_keys n) (getKeyCount n) 0"

text \<open>What a reader of a node sees: its keys and its pointers (the values, in a leaf).\<close>

definition akeys :: "ab_node \<Rightarrow> int list" where
  "akeys n = take (getKeyCount n) (ab_keys n)"

definition aptrs :: "ab_node \<Rightarrow> nat list" where
  "aptrs n = take (ab_size n) (ab_ptrs n)"

definition node_ok :: "nat \<Rightarrow> ab_node \<Rightarrow> bool" where
  "node_ok dg n \<longleftrightarrow> length (ab_keys n) = dg \<and> length (ab_ptrs n) = dg \<and> ab_size n \<le> dg
     \<and> (ab_leaf n \<or> 1 \<le> ab_size n)"

lemma node_okD:
  "node_ok dg n \<Longrightarrow> length (akeys n) = getKeyCount n"
  "node_ok dg n \<Longrightarrow> length (aptrs n) = ab_size n"
  "node_ok dg n \<Longrightarrow> ab_size n \<le> dg"
  "node_ok dg n \<Longrightarrow> length (ab_keys n) = dg"
  "node_ok dg n \<Longrightarrow> length (ab_ptrs n) = dg"
  "node_ok dg n \<Longrightarrow> getKeyCount n \<le> dg"
  by (auto simp: node_ok_def akeys_def aptrs_def getKeyCount_def)

lemma aptrs_nth: "i < ab_size n \<Longrightarrow> aptrs n ! i = ab_ptrs n ! i"
  by (simp add: aptrs_def)

lemma akeys_nth: "i < getKeyCount n \<Longrightarrow> akeys n ! i = ab_keys n ! i"
  by (simp add: akeys_def)

text \<open>The bounds \<open>a\<close> and \<open>b\<close> of the degrees: \<open>b\<close> is \<open>DEGREE\<close>, at least 3 here.\<close>

definition min_deg :: "nat \<Rightarrow> nat" where
  "min_deg dg = max (dg div 4) 2"

lemma min_deg_bounds:
  assumes "3 \<le> dg"
  shows "2 \<le> min_deg dg" "min_deg dg \<le> (dg + 1) div 2" "min_deg dg \<le> dg + 1 - (dg + 1) div 2"
    "2 * min_deg dg \<le> dg + 1" "min_deg dg \<le> dg"
  using assms unfolding min_deg_def by (auto simp: max_def)

subsection \<open>The searches inside a node, and the first index where they stop\<close>

abbreviation cidx :: "int \<Rightarrow> int list \<Rightarrow> nat" where
  "cidx k ks \<equiv> length (takeWhile (\<lambda>s. \<not> k < s) ks)"

abbreviation kidx :: "int \<Rightarrow> int list \<Rightarrow> nat" where
  "kidx k ks \<equiv> length (takeWhile (\<lambda>s. s < k) ks)"

lemma child_loop_eq:
  "n \<le> length ks \<Longrightarrow> r \<le> n \<Longrightarrow> child_loop k ks n r = r + cidx k (drop r (take n ks))"
proof (induction k ks n r rule: child_loop.induct)
  case (1 k ks n r)
  show ?case
  proof (cases "r < n")
    case True
    then have "drop r (take n ks) = ks ! r # drop (Suc r) (take n ks)"
      using "1.prems" by (metis Cons_nth_drop_Suc length_take min.absorb2 nth_take)
    then show ?thesis
      using 1 True by (subst child_loop.simps) auto
  next
    case False
    then show ?thesis using "1.prems" by (subst child_loop.simps) simp
  qed
qed

lemma key_loop_eq:
  "n \<le> length ks \<Longrightarrow> r \<le> n \<Longrightarrow> key_loop k ks n r = r + kidx k (drop r (take n ks))"
proof (induction k ks n r rule: key_loop.induct)
  case (1 k ks n r)
  show ?case
  proof (cases "r < n")
    case True
    then have "drop r (take n ks) = ks ! r # drop (Suc r) (take n ks)"
      using "1.prems" by (metis Cons_nth_drop_Suc length_take min.absorb2 nth_take)
    then show ?thesis
      using 1 True by (subst key_loop.simps) auto
  next
    case False
    then show ?thesis using "1.prems" by (subst key_loop.simps) simp
  qed
qed

lemma getChildIndex_eq: "node_ok dg n \<Longrightarrow> getChildIndex n k = cidx k (akeys n)"
  using child_loop_eq [of "getKeyCount n" "ab_keys n" 0 k]
  by (simp add: getChildIndex_def akeys_def node_okD)

lemma getKeyIndex_eq: "node_ok dg n \<Longrightarrow> getKeyIndex n k = kidx k (akeys n)"
  using key_loop_eq [of "getKeyCount n" "ab_keys n" 0 k]
  by (simp add: getKeyIndex_def akeys_def node_okD)

lemma getChildIndex_le: "node_ok dg n \<Longrightarrow> getChildIndex n k \<le> getKeyCount n"
  by (metis getChildIndex_eq length_takeWhile_le node_okD(1))

lemma getKeyIndex_le: "node_ok dg n \<Longrightarrow> getKeyIndex n k \<le> getKeyCount n"
  by (metis getKeyIndex_eq length_takeWhile_le node_okD(1))

subsection \<open>Copying between arrays\<close>

definition arraycopy :: "'a list \<Rightarrow> nat \<Rightarrow> 'a list \<Rightarrow> nat \<Rightarrow> nat \<Rightarrow> 'a list" where
  "arraycopy src srcStart dest destStart len =
     fold (\<lambda>i a. a[destStart + i := src ! (srcStart + i)]) [0..<len] dest"

lemma length_arraycopy [simp]: "length (arraycopy src s dst d len) = length dst"
  by (induction len) (simp_all add: arraycopy_def)

lemma nth_arraycopy:
  "j < length dst \<Longrightarrow>
   arraycopy src s dst d len ! j = (if d \<le> j \<and> j < d + len then src ! (s + (j - d)) else dst ! j)"
proof (induction len)
  case 0
  then show ?case by (auto simp: arraycopy_def)
next
  case (Suc len)
  let ?a = "arraycopy src s dst d len"
  have "arraycopy src s dst d (Suc len) = ?a[d + len := src ! (s + len)]"
    by (simp add: arraycopy_def)
  then show ?case
    using Suc by (cases "j = d + len") auto
qed

lemma take_arraycopy_insert:
  assumes n: "n \<le> length src" "i \<le> n" "n < length dst"
  shows "take (Suc n) ((arraycopy src i (arraycopy src 0 dst 0 i) (i + 1) (n - i))[i := x])
           = take i (take n src) @ x # drop i (take n src)" (is "?l = ?r")
proof (rule nth_equalityI)
  show "length ?l = length ?r" using n by simp
next
  fix j
  assume "j < length ?l"
  then have j: "j \<le> n" "j < length dst" using n by auto
  consider "j < i" | "j = i" | "i < j" by linarith
  then show "?l ! j = ?r ! j"
  proof cases
    case 1
    then show ?thesis using n j by (simp add: nth_list_update nth_arraycopy nth_append min_def)
  next
    case 2
    then show ?thesis using n j by (simp add: nth_append)
  next
    case 3
    then obtain d where d: "j = Suc (i + d)" by (metis add_Suc_right less_iff_Suc_add)
    then show ?thesis using n j by (simp add: nth_list_update nth_arraycopy nth_append min_def)
  qed
qed

text \<open>The nodes an allocation may return: right lengths, arbitrary contents, initialised by
  \<open>initNode\<close>.\<close>

definition alloc_ok :: "nat \<Rightarrow> ab_node \<Rightarrow> bool" where
  "alloc_ok dg g \<longleftrightarrow> length (ab_keys g) = dg \<and> length (ab_ptrs g) = dg \<and> \<not> ab_marked g \<and> ab_scxPtr g = 0"

subsection \<open>Insertion, replacement and deletion in a leaf\<close>

text \<open>\<open>doInsert\<close>, key present: a copy of the leaf with one value replaced.\<close>

definition mk_replace :: "ab_node \<Rightarrow> nat \<Rightarrow> nat \<Rightarrow> ab_node \<Rightarrow> ab_node" where
  "mk_replace l keyIndex val g = g\<lparr>
     ab_keys := arraycopy (ab_keys l) 0 (ab_keys g) 0 (getKeyCount l),
     ab_ptrs := (arraycopy (ab_ptrs l) 0 (ab_ptrs g) 0 (getABDegree l))[keyIndex := val],
     ab_leaf := True, ab_searchKey := ab_searchKey l, ab_size := ab_size l, ab_weight := True\<rparr>"

text \<open>\<open>doInsert\<close>, key absent, room in the leaf.\<close>

definition ins_keys :: "ab_node \<Rightarrow> nat \<Rightarrow> int \<Rightarrow> int list \<Rightarrow> int list" where
  "ins_keys l keyIndex key dst =
     (arraycopy (ab_keys l) keyIndex (arraycopy (ab_keys l) 0 dst 0 keyIndex)
        (keyIndex + 1) (getKeyCount l - keyIndex))[keyIndex := key]"

definition ins_ptrs :: "ab_node \<Rightarrow> nat \<Rightarrow> nat \<Rightarrow> nat list \<Rightarrow> nat list" where
  "ins_ptrs l keyIndex val dst =
     (arraycopy (ab_ptrs l) keyIndex (arraycopy (ab_ptrs l) 0 dst 0 keyIndex)
        (keyIndex + 1) (getABDegree l - keyIndex))[keyIndex := val]"

definition mk_insert :: "ab_node \<Rightarrow> nat \<Rightarrow> int \<Rightarrow> nat \<Rightarrow> ab_node \<Rightarrow> ab_node" where
  "mk_insert l keyIndex key val g = g\<lparr>
     ab_keys := ins_keys l keyIndex key (ab_keys g), ab_ptrs := ins_ptrs l keyIndex val (ab_ptrs g),
     ab_leaf := ab_leaf l, ab_searchKey := ab_searchKey l, ab_size := ab_size l + 1,
     ab_weight := ab_weight l\<rparr>"

text \<open>
  \<open>doInsert\<close>, Overflow: the contents go through local arrays of \<open>DEGREE + 1\<close> cells
  into two leaves below a new internal node (\<open>left\<close>, \<open>right\<close> and \<open>n\<close>, in
  this order). The cells of a local array that no copy reaches are never read.
\<close>

definition mk_overflow ::
    "nat \<Rightarrow> ab_node \<Rightarrow> nat \<Rightarrow> int \<Rightarrow> nat \<Rightarrow> bool \<Rightarrow> addr \<Rightarrow> addr \<Rightarrow>
     ab_node \<Rightarrow> ab_node \<Rightarrow> ab_node \<Rightarrow> ab_node \<times> ab_node \<times> ab_node" where
  "mk_overflow dg l keyIndex key val atroot aleft aright g1 g2 g3 =
     (let keys = ins_keys l keyIndex key (replicate (dg + 1) 0);
          ptrs = ins_ptrs l keyIndex val (replicate (dg + 1) 0);
          size1 = (dg + 1) div 2;
          left = g1\<lparr>ab_keys := arraycopy keys 0 (ab_keys g1) 0 size1,
                    ab_ptrs := arraycopy ptrs 0 (ab_ptrs g1) 0 size1,
                    ab_leaf := True, ab_searchKey := keys ! 0, ab_size := size1, ab_weight := True\<rparr>;
          size2 = (dg + 1) - size1;
          right = g2\<lparr>ab_keys := arraycopy keys size1 (ab_keys g2) 0 size2,
                     ab_ptrs := arraycopy ptrs size1 (ab_ptrs g2) 0 size2,
                     ab_leaf := True, ab_searchKey := keys ! size1, ab_size := size2,
                     ab_weight := True\<rparr>;
          n = g3\<lparr>ab_keys := (ab_keys g3)[0 := keys ! size1],
                 ab_ptrs := (ab_ptrs g3)[0 := aleft, 1 := aright],
                 ab_leaf := False, ab_searchKey := keys ! size1, ab_size := 2, ab_weight := atroot\<rparr>
      in (left, right, n))"

text \<open>\<open>erase\<close>: a copy of the leaf without the key.\<close>

definition mk_erase :: "ab_node \<Rightarrow> nat \<Rightarrow> ab_node \<Rightarrow> ab_node" where
  "mk_erase l keyIndex g = g\<lparr>
     ab_keys := arraycopy (ab_keys l) (keyIndex + 1) (arraycopy (ab_keys l) 0 (ab_keys g) 0 keyIndex)
                  keyIndex (getKeyCount l - (keyIndex + 1)),
     ab_ptrs := arraycopy (ab_ptrs l) (keyIndex + 1) (arraycopy (ab_ptrs l) 0 (ab_ptrs g) 0 keyIndex)
                  keyIndex (getABDegree l - (keyIndex + 1)),
     ab_leaf := True, ab_searchKey := ab_keys l ! 0, ab_size := ab_size l - 1, ab_weight := True\<rparr>"

subsection \<open>What a reader sees of them\<close>

lemma take_ins_keys:
  assumes "node_ok dg l" "i \<le> getKeyCount l" "getKeyCount l < length dst"
  shows "take (Suc (getKeyCount l)) (ins_keys l i k dst) = take i (akeys l) @ k # drop i (akeys l)"
  using assms take_arraycopy_insert [of "getKeyCount l" "ab_keys l" i dst k]
  by (simp only: ins_keys_def akeys_def node_okD)

lemma take_ins_ptrs:
  assumes "node_ok dg l" "i \<le> ab_size l" "ab_size l < length dst"
  shows "take (Suc (ab_size l)) (ins_ptrs l i v dst) = take i (aptrs l) @ v # drop i (aptrs l)"
  using assms take_arraycopy_insert [of "ab_size l" "ab_ptrs l" i dst v]
  by (simp only: ins_ptrs_def aptrs_def node_okD)

lemma length_ins [simp]:
  "length (ins_keys l i k dst) = length dst" "length (ins_ptrs l i v dst') = length dst'"
  by (simp_all add: ins_keys_def ins_ptrs_def)

lemma mk_replace_view:
  fixes v :: nat
  assumes l: "node_ok dg l" "ab_leaf l" and g: "alloc_ok dg g" and i: "i < ab_size l"
  defines "n \<equiv> mk_replace l i v g"
  shows "node_ok dg n" "ab_leaf n" "ab_weight n" "akeys n = akeys l" "aptrs n = (aptrs l)[i := v]"
    "ab_searchKey n = ab_searchKey l" "\<not> ab_marked n" "ab_size n = ab_size l"
proof -
  show "node_ok dg n" "ab_leaf n" "ab_weight n" "ab_searchKey n = ab_searchKey l" "\<not> ab_marked n"
    "ab_size n = ab_size l"
    using l g by (simp_all add: n_def mk_replace_def node_ok_def alloc_ok_def)
  show "akeys n = akeys l"
    using l g
    by (intro nth_equalityI)
       (auto simp: n_def mk_replace_def akeys_def getKeyCount_def node_ok_def alloc_ok_def nth_arraycopy)
  show "aptrs n = (aptrs l)[i := v]"
    using l g i
    by (intro nth_equalityI)
       (auto simp: n_def mk_replace_def aptrs_def node_ok_def alloc_ok_def nth_arraycopy nth_list_update)
qed

lemma mk_insert_view:
  fixes k :: int and v :: nat
  assumes l: "node_ok dg l" "ab_leaf l" "ab_size l < dg" and g: "alloc_ok dg g" and i: "i \<le> ab_size l"
  defines "n \<equiv> mk_insert l i k v g"
  shows "node_ok dg n" "ab_leaf n" "ab_weight n = ab_weight l"
    "akeys n = take i (akeys l) @ k # drop i (akeys l)" "aptrs n = take i (aptrs l) @ v # drop i (aptrs l)"
    "ab_searchKey n = ab_searchKey l" "\<not> ab_marked n" "ab_size n = Suc (ab_size l)"
proof -
  show "node_ok dg n" "ab_leaf n" "ab_weight n = ab_weight l" "ab_searchKey n = ab_searchKey l"
    "\<not> ab_marked n" "ab_size n = Suc (ab_size l)"
    using l g by (simp_all add: n_def mk_insert_def node_ok_def alloc_ok_def)
  show "akeys n = take i (akeys l) @ k # drop i (akeys l)"
    using take_ins_keys [OF l(1), of i "ab_keys g" k] l g i
    by (simp add: n_def akeys_def [of "mk_insert l i k v g"] getKeyCount_def alloc_ok_def)
       (simp add: mk_insert_def)
  show "aptrs n = take i (aptrs l) @ v # drop i (aptrs l)"
    using take_ins_ptrs [OF l(1), of i "ab_ptrs g" v] l g i
    by (simp add: n_def aptrs_def [of "mk_insert l i k v g"] alloc_ok_def) (simp add: mk_insert_def)
qed

lemma mk_erase_view:
  assumes l: "node_ok dg l" "ab_leaf l" and g: "alloc_ok dg g" and i: "i < ab_size l"
  defines "n \<equiv> mk_erase l i g"
  shows "node_ok dg n" "ab_leaf n" "ab_weight n"
    "akeys n = take i (akeys l) @ drop (Suc i) (akeys l)" "aptrs n = take i (aptrs l) @ drop (Suc i) (aptrs l)"
    "ab_searchKey n = akeys l ! 0" "\<not> ab_marked n" "ab_size n = ab_size l - 1"
proof -
  show "node_ok dg n" "ab_leaf n" "ab_weight n" "\<not> ab_marked n" "ab_size n = ab_size l - 1"
    using l g by (auto simp: n_def mk_erase_def node_ok_def alloc_ok_def)
  show "ab_searchKey n = akeys l ! 0"
    using l i by (simp add: n_def mk_erase_def akeys_def getKeyCount_def)
  show "akeys n = take i (akeys l) @ drop (Suc i) (akeys l)"
    using l g i
    by (intro nth_equalityI)
       (auto simp: n_def mk_erase_def akeys_def getKeyCount_def node_ok_def alloc_ok_def nth_arraycopy nth_append)
  show "aptrs n = take i (aptrs l) @ drop (Suc i) (aptrs l)"
    using l g i
    by (intro nth_equalityI)
       (auto simp: n_def mk_erase_def aptrs_def node_ok_def alloc_ok_def nth_arraycopy nth_append)
qed

lemma take2: "2 \<le> length xs \<Longrightarrow> take 2 (xs[0 := x, Suc 0 := y]) = [x, y]"
  by (cases xs; cases "tl xs") auto

lemma take1: "0 < length xs \<Longrightarrow> take (Suc 0) (xs[0 := x]) = [x]"
  by (cases xs) auto

lemma take_arraycopy0:
  "n \<le> length dst \<Longrightarrow> s + n \<le> length src \<Longrightarrow> take n (arraycopy src s dst 0 n) = take n (drop s src)"
  by (rule nth_equalityI) (auto simp: nth_arraycopy)

lemma mk_overflow_view:
  assumes l: "node_ok dg l" "ab_leaf l" "ab_size l = dg" and i: "i \<le> dg" and dg: "2 \<le> dg"
    and g: "alloc_ok dg g1" "alloc_ok dg g2" "alloc_ok dg g3"
    and e: "mk_overflow dg l i k v atroot al ar g1 g2 g3 = (left, right, n)"
  defines "ks \<equiv> take i (akeys l) @ k # drop i (akeys l)" and "vs \<equiv> take i (aptrs l) @ v # drop i (aptrs l)"
    and "sz \<equiv> (dg + 1) div 2"
  shows "node_ok dg left" "ab_leaf left" "ab_weight left" "\<not> ab_marked left"
    "akeys left = take sz ks" "aptrs left = take sz vs" "ab_searchKey left = ks ! 0"
    and "node_ok dg right" "ab_leaf right" "ab_weight right" "\<not> ab_marked right"
    "akeys right = drop sz ks" "aptrs right = drop sz vs" "ab_searchKey right = ks ! sz"
    and "node_ok dg n" "\<not> ab_leaf n" "ab_weight n = atroot" "\<not> ab_marked n"
    "akeys n = [ks ! sz]" "aptrs n = [al, ar]" "ab_searchKey n = ks ! sz"
proof -
  have kc: "getKeyCount l = dg" using l by (simp add: getKeyCount_def)
  let ?K = "ins_keys l i k (replicate (dg + 1) 0)" and ?P = "ins_ptrs l i v (replicate (dg + 1) 0)"
  have K: "?K = ks" using take_ins_keys [OF l(1), of i "replicate (dg + 1) 0" k] kc i by (simp add: ks_def)
  have P: "?P = vs" using take_ins_ptrs [OF l(1), of i "replicate (dg + 1) 0" v] l i by (simp add: vs_def)
  have len: "length ks = dg + 1" "length vs = dg + 1" using K P length_ins by (metis length_replicate)+
  have sz: "sz \<le> dg" "0 < sz" "dg + 1 - sz \<le> dg" using dg by (auto simp: sz_def)
  note e' = e [unfolded mk_overflow_def Let_def K P sz_def [symmetric] prod.inject]
  have e1: "left = g1\<lparr>ab_keys := arraycopy ks 0 (ab_keys g1) 0 sz, ab_ptrs := arraycopy vs 0 (ab_ptrs g1) 0 sz,
      ab_leaf := True, ab_searchKey := ks ! 0, ab_size := sz, ab_weight := True\<rparr>"
    and e2: "right = g2\<lparr>ab_keys := arraycopy ks sz (ab_keys g2) 0 (dg + 1 - sz),
      ab_ptrs := arraycopy vs sz (ab_ptrs g2) 0 (dg + 1 - sz),
      ab_leaf := True, ab_searchKey := ks ! sz, ab_size := dg + 1 - sz, ab_weight := True\<rparr>"
    and e3: "n = g3\<lparr>ab_keys := (ab_keys g3)[0 := ks ! sz], ab_ptrs := (ab_ptrs g3)[0 := al, 1 := ar],
                 ab_leaf := False, ab_searchKey := ks ! sz, ab_size := 2, ab_weight := atroot\<rparr>"
    using e' by simp_all
  note gs = g [unfolded alloc_ok_def]
  show "node_ok dg left" "ab_leaf left" "ab_weight left" "\<not> ab_marked left" "ab_searchKey left = ks ! 0"
    "akeys left = take sz ks" "aptrs left = take sz vs"
    using gs sz len
    by (simp_all add: e1 node_ok_def akeys_def aptrs_def getKeyCount_def take_arraycopy0)
  show "node_ok dg right" "ab_leaf right" "ab_weight right" "\<not> ab_marked right" "ab_searchKey right = ks ! sz"
    "akeys right = drop sz ks" "aptrs right = drop sz vs"
    using gs sz len
    by (simp_all add: e2 node_ok_def akeys_def aptrs_def getKeyCount_def take_arraycopy0)
  show "node_ok dg n" "\<not> ab_leaf n" "ab_weight n = atroot" "\<not> ab_marked n" "akeys n = [ks ! sz]"
    "aptrs n = [al, ar]" "ab_searchKey n = ks ! sz"
    using gs dg by (simp_all add: e3 node_ok_def akeys_def aptrs_def getKeyCount_def take1 take2)
qed

end
