(* ===== verification/AbRebal.thy ===== *)
theory AbRebal
  imports AbNode
begin

text \<open>
  The nodes that the rebalancing steps of the relaxed (a,b)-tree build,
  \<open>fixWeightViolation\<close> and \<open>fixDegreeViolation\<close> of
  \<open>ds/brown_ext_abtree_lf/brown_ext_abtree_lf_impl.h\<close>: Absorb, Split, AbsorbSibling and
  Distribute, first as the array copies of the code, then as the lists a reader sees.
\<close>

lemma take_arraycopy:
  assumes "d + len \<le> length dst" "s + len \<le> length src"
  shows "take (d + len) (arraycopy src s dst d len) = take d dst @ take len (drop s src)"
proof -
  have [simp]: "min (length dst) d = d" "min (length src - s) len = len" using assms by auto
  show ?thesis using assms by (intro nth_equalityI) (auto simp: nth_arraycopy nth_append)
qed

subsection \<open>Absorb and Split\<close>

text \<open>The contents of \<open>p\<close> with those of its child \<open>l\<close> in place of the pointer to
  it; \<open>dst\<close> is the array of the new node, or a local array of twice the degree.\<close>

definition merge_keys :: "ab_node \<Rightarrow> ab_node \<Rightarrow> nat \<Rightarrow> int list \<Rightarrow> int list" where
  "merge_keys p l ixToL dst =
     arraycopy (ab_keys p) ixToL
       (arraycopy (ab_keys l) 0 (arraycopy (ab_keys p) 0 dst 0 ixToL) ixToL (getKeyCount l))
       (ixToL + getKeyCount l) (getKeyCount p - ixToL)"

definition merge_ptrs :: "ab_node \<Rightarrow> ab_node \<Rightarrow> nat \<Rightarrow> nat list \<Rightarrow> nat list" where
  "merge_ptrs p l ixToL dst =
     arraycopy (ab_ptrs p) (ixToL + 1)
       (arraycopy (ab_ptrs l) 0 (arraycopy (ab_ptrs p) 0 dst 0 ixToL) ixToL (getABDegree l))
       (ixToL + getABDegree l) (getABDegree p - (ixToL + 1))"

definition mk_absorb :: "ab_node \<Rightarrow> ab_node \<Rightarrow> nat \<Rightarrow> ab_node \<Rightarrow> ab_node" where
  "mk_absorb p l ixToL g =
     (let ks = merge_keys p l ixToL (ab_keys g)
      in g\<lparr>ab_ptrs := merge_ptrs p l ixToL (ab_ptrs g), ab_keys := ks, ab_leaf := False,
           ab_searchKey := ks ! 0, ab_size := getABDegree p + getABDegree l - 1, ab_weight := True\<rparr>)"

definition mk_split ::
    "nat \<Rightarrow> ab_node \<Rightarrow> ab_node \<Rightarrow> nat \<Rightarrow> bool \<Rightarrow> addr \<Rightarrow> addr \<Rightarrow>
     ab_node \<Rightarrow> ab_node \<Rightarrow> ab_node \<Rightarrow> ab_node \<times> ab_node \<times> ab_node" where
  "mk_split dg p l ixToL atroot aleft aright g1 g2 g3 =
     (let size' = getABDegree p + getABDegree l - 1;
          keys = merge_keys p l ixToL (replicate (2 * dg) 0);
          ptrs = merge_ptrs p l ixToL (replicate (2 * dg) 0);
          size1 = size' div 2;
          left = g1\<lparr>ab_keys := arraycopy keys 0 (ab_keys g1) 0 (size1 - 1),
                    ab_ptrs := arraycopy ptrs 0 (ab_ptrs g1) 0 size1,
                    ab_leaf := False, ab_searchKey := keys ! 0, ab_size := size1, ab_weight := True\<rparr>;
          size2 = size' - size1;
          right = g2\<lparr>ab_keys := arraycopy keys size1 (ab_keys g2) 0 (size2 - 1),
                     ab_ptrs := arraycopy ptrs size1 (ab_ptrs g2) 0 size2,
                     ab_leaf := False, ab_searchKey := keys ! size1, ab_size := size2,
                     ab_weight := True\<rparr>;
          n = g3\<lparr>ab_keys := (ab_keys g3)[0 := keys ! (size1 - 1)],
                 ab_ptrs := (ab_ptrs g3)[0 := aleft, 1 := aright],
                 ab_leaf := False, ab_searchKey := keys ! (size1 - 1), ab_size := 2,
                 ab_weight := atroot\<rparr>
      in (left, right, n))"

subsection \<open>AbsorbSibling and Distribute\<close>

text \<open>The contents of two siblings, with the key between them when they are internal.\<close>

definition cat_keys :: "ab_node \<Rightarrow> ab_node \<Rightarrow> int \<Rightarrow> int list \<Rightarrow> int list" where
  "cat_keys left right sep dst =
     (let k1 = getKeyCount left;
          d1 = arraycopy (ab_keys left) 0 dst 0 k1;
          (d2, k2) = (if \<not> ab_leaf left then (d1[k1 := sep], k1 + 1) else (d1, k1))
      in arraycopy (ab_keys right) 0 d2 k2 (getKeyCount right))"

definition cat_ptrs :: "ab_node \<Rightarrow> ab_node \<Rightarrow> nat list \<Rightarrow> nat list" where
  "cat_ptrs left right dst =
     arraycopy (ab_ptrs right) 0 (arraycopy (ab_ptrs left) 0 dst 0 (getABDegree left))
       (getABDegree left) (getABDegree right)"

text \<open>AbsorbSibling: the node \<open>newl\<close> with the contents of both, and the copy \<open>n\<close>
  of the parent with one pointer and one key less.\<close>

definition mk_newl :: "ab_node \<Rightarrow> ab_node \<Rightarrow> ab_node \<Rightarrow> ab_node \<Rightarrow> int \<Rightarrow> ab_node \<Rightarrow> ab_node" where
  "mk_newl l s left right sep g = g\<lparr>
     ab_keys := cat_keys left right sep (ab_keys g), ab_ptrs := cat_ptrs left right (ab_ptrs g),
     ab_leaf := ab_leaf left, ab_searchKey := ab_searchKey l,
     ab_size := getABDegree l + getABDegree s, ab_weight := True\<rparr>"

definition mk_shrink :: "ab_node \<Rightarrow> nat \<Rightarrow> nat \<Rightarrow> nat \<Rightarrow> addr \<Rightarrow> ab_node \<Rightarrow> ab_node" where
  "mk_shrink p leftindex ixToL ixToS newl g = g\<lparr>
     ab_keys := arraycopy (ab_keys p) (leftindex + 1) (arraycopy (ab_keys p) 0 (ab_keys g) 0 leftindex)
                  leftindex (getKeyCount p - (leftindex + 1)),
     ab_ptrs := (arraycopy (ab_ptrs p) (ixToL + 1) (arraycopy (ab_ptrs p) 0 (ab_ptrs g) 0 ixToS)
                  ixToL (getABDegree p - (ixToL + 1)))[ixToL - (if ixToL > ixToS then 1 else 0) := newl],
     ab_leaf := False, ab_searchKey := ab_searchKey p, ab_size := getABDegree p - 1,
     ab_weight := True\<rparr>"

text \<open>Distribute: \<open>newleft\<close>, \<open>newright\<close> and the copy \<open>n\<close> of the
  parent, in this order.\<close>

definition mk_distribute ::
    "nat \<Rightarrow> ab_node \<Rightarrow> ab_node \<Rightarrow> ab_node \<Rightarrow> nat \<Rightarrow> nat \<Rightarrow> addr \<Rightarrow> addr \<Rightarrow>
     ab_node \<Rightarrow> ab_node \<Rightarrow> ab_node \<Rightarrow> ab_node \<times> ab_node \<times> ab_node" where
  "mk_distribute dg p left right leftindex rightindex anewleft anewright gleft gright g =
     (let sz = getABDegree left + getABDegree right;
          leftsz = sz div 2;
          rightsz = sz - leftsz;
          inner = (if ab_leaf left then 0 else 1);
          keys = cat_keys left right (ab_keys p ! leftindex) (replicate (2 * dg) 0);
          ptrs = cat_ptrs left right (replicate (2 * dg) 0);
          k1 = leftsz - inner;
          nlkeys = arraycopy keys 0 (ab_keys gleft) 0 k1;
          newleft = gleft\<lparr>ab_keys := nlkeys, ab_ptrs := arraycopy ptrs 0 (ab_ptrs gleft) 0 leftsz,
                          ab_leaf := ab_leaf left, ab_searchKey := nlkeys ! 0, ab_size := leftsz,
                          ab_weight := True\<rparr>;
          keyp = keys ! k1;
          nrkeys = arraycopy keys (k1 + inner) (ab_keys gright) 0 (rightsz - inner);
          newright = gright\<lparr>ab_keys := nrkeys,
                            ab_ptrs := arraycopy ptrs leftsz (ab_ptrs gright) 0 rightsz,
                            ab_leaf := ab_leaf right, ab_searchKey := nrkeys ! 0, ab_size := rightsz,
                            ab_weight := True\<rparr>;
          n = g\<lparr>ab_keys := (arraycopy (ab_keys p) 0 (ab_keys g) 0 (getKeyCount p))[leftindex := keyp],
                ab_ptrs := (arraycopy (ab_ptrs p) 0 (ab_ptrs g) 0 (getABDegree p))
                             [leftindex := anewleft, rightindex := anewright],
                ab_leaf := False, ab_searchKey := ab_searchKey p, ab_size := ab_size p,
                ab_weight := True\<rparr>
      in (newleft, newright, n))"

subsection \<open>What a reader sees of them\<close>

lemma take_merge_keys:
  assumes "node_ok dg p" "node_ok dg l" "i \<le> getKeyCount p" "getKeyCount p + getKeyCount l \<le> length dst"
  shows "take (getKeyCount p + getKeyCount l) (merge_keys p l i dst)
           = take i (akeys p) @ akeys l @ drop i (akeys p)"
proof -
  let ?a = "arraycopy (ab_keys p) 0 dst 0 i"
  let ?b = "arraycopy (ab_keys l) 0 ?a i (getKeyCount l)"
  note n = node_okD [OF assms(1)] node_okD [OF assms(2)]
  have 1: "take i ?a = take i (akeys p)"
    using take_arraycopy [of 0 i dst 0 "ab_keys p"] assms n by (simp add: akeys_def min_def)
  have 2: "take (i + getKeyCount l) ?b = take i (akeys p) @ akeys l"
    using take_arraycopy [of i "getKeyCount l" ?a 0 "ab_keys l"] assms n 1 by (simp add: akeys_def)
  have "take (i + getKeyCount l + (getKeyCount p - i)) (merge_keys p l i dst)
      = take (i + getKeyCount l) ?b @ take (getKeyCount p - i) (drop i (ab_keys p))"
    unfolding merge_keys_def using assms n by (intro take_arraycopy) auto
  then show ?thesis
    using 2 assms(3) by (simp add: akeys_def drop_take add.commute)
qed

lemma take_merge_ptrs:
  assumes "node_ok dg p" "node_ok dg l" "i < ab_size p" "ab_size p + ab_size l - 1 \<le> length dst"
  shows "take (ab_size p + ab_size l - 1) (merge_ptrs p l i dst)
           = take i (aptrs p) @ aptrs l @ drop (Suc i) (aptrs p)"
proof -
  let ?a = "arraycopy (ab_ptrs p) 0 dst 0 i"
  let ?b = "arraycopy (ab_ptrs l) 0 ?a i (ab_size l)"
  note n = node_okD [OF assms(1)] node_okD [OF assms(2)]
  have 1: "take i ?a = take i (aptrs p)"
    using take_arraycopy [of 0 i dst 0 "ab_ptrs p"] assms n by (simp add: aptrs_def min_def)
  have 2: "take (i + ab_size l) ?b = take i (aptrs p) @ aptrs l"
    using take_arraycopy [of i "ab_size l" ?a 0 "ab_ptrs l"] assms n 1 by (simp add: aptrs_def)
  have "take (i + ab_size l + (ab_size p - (i + 1))) (merge_ptrs p l i dst)
      = take (i + ab_size l) ?b @ take (ab_size p - (i + 1)) (drop (i + 1) (ab_ptrs p))"
    unfolding merge_ptrs_def using assms n by (intro take_arraycopy) auto
  moreover have "i + ab_size l + (ab_size p - (i + 1)) = ab_size p + ab_size l - 1"
    using assms(3) by simp
  ultimately show ?thesis
    using 2 assms(3) by (simp add: aptrs_def drop_take)
qed

lemma length_merge [simp]:
  "length (merge_keys p l i dst) = length dst" "length (merge_ptrs p l i dst') = length dst'"
  by (simp_all add: merge_keys_def merge_ptrs_def)

lemma mk_absorb_view:
  assumes p: "node_ok dg p" "\<not> ab_leaf p" and l: "node_ok dg l" "\<not> ab_leaf l" and g: "alloc_ok dg g"
    and i: "i < ab_size p" and sz: "ab_size p + ab_size l - 1 \<le> dg" "2 \<le> ab_size l"
  defines "n \<equiv> mk_absorb p l i g"
  defines "ks \<equiv> take i (akeys p) @ akeys l @ drop i (akeys p)"
  shows "node_ok dg n" "\<not> ab_leaf n" "ab_weight n" "\<not> ab_marked n" "akeys n = ks"
    "aptrs n = take i (aptrs p) @ aptrs l @ drop (Suc i) (aptrs p)" "ab_searchKey n = ks ! 0"
    "ab_size n = ab_size p + ab_size l - 1"
proof -
  note n = node_okD [OF p(1)] node_okD [OF l(1)]
  have kc: "getKeyCount p = ab_size p - 1" "getKeyCount l = ab_size l - 1" "1 \<le> ab_size p"
    using p l by (simp_all add: getKeyCount_def node_ok_def)
  have K: "take (getKeyCount p + getKeyCount l) (merge_keys p l i (ab_keys g)) = ks"
    unfolding ks_def using kc sz i g by (intro take_merge_keys [OF p(1) l(1)]) (auto simp: alloc_ok_def)
  have P: "take (ab_size p + ab_size l - 1) (merge_ptrs p l i (ab_ptrs g))
      = take i (aptrs p) @ aptrs l @ drop (Suc i) (aptrs p)"
    using sz i g by (intro take_merge_ptrs [OF p(1) l(1)]) (auto simp: alloc_ok_def)
  have len: "getKeyCount p + getKeyCount l = ab_size p + ab_size l - 2" "0 < ab_size p + ab_size l - 2"
    using kc sz by auto
  have f: "\<not> ab_leaf n" "ab_weight n" "\<not> ab_marked n" "ab_size n = ab_size p + ab_size l - 1"
    "ab_keys n = merge_keys p l i (ab_keys g)" "ab_ptrs n = merge_ptrs p l i (ab_ptrs g)"
    "ab_searchKey n = merge_keys p l i (ab_keys g) ! 0"
    using g by (simp_all add: n_def mk_absorb_def alloc_ok_def Let_def)
  show "\<not> ab_leaf n" "ab_weight n" "\<not> ab_marked n" "ab_size n = ab_size p + ab_size l - 1"
    by (fact f)+
  show "node_ok dg n" using g sz by (simp add: node_ok_def alloc_ok_def f)
  show "akeys n = ks" using K len by (simp add: akeys_def getKeyCount_def [of n] f numeral_2_eq_2)
  show "aptrs n = take i (aptrs p) @ aptrs l @ drop (Suc i) (aptrs p)"
    using P by (simp add: aptrs_def [of n] f)
  have "ab_searchKey n = take (getKeyCount p + getKeyCount l) (merge_keys p l i (ab_keys g)) ! 0"
    using len by (simp add: f)
  then show "ab_searchKey n = ks ! 0" by (simp only: K)
qed

lemma mk_split_view:
  assumes p: "node_ok dg p" "\<not> ab_leaf p" and l: "node_ok dg l" "\<not> ab_leaf l"
    and g: "alloc_ok dg g1" "alloc_ok dg g2" "alloc_ok dg g3"
    and i: "i < ab_size p" and sz: "dg < ab_size p + ab_size l - 1" and dg: "3 \<le> dg"
    and e: "mk_split dg p l i atroot al ar g1 g2 g3 = (left, right, n)"
  defines "ks \<equiv> take i (akeys p) @ akeys l @ drop i (akeys p)"
    and "cs \<equiv> take i (aptrs p) @ aptrs l @ drop (Suc i) (aptrs p)"
    and "m \<equiv> (ab_size p + ab_size l - 1) div 2"
  shows "node_ok dg left" "\<not> ab_leaf left" "ab_weight left" "\<not> ab_marked left"
    "akeys left = take (m - 1) ks" "aptrs left = take m cs" "ab_searchKey left = ks ! 0"
    and "node_ok dg right" "\<not> ab_leaf right" "ab_weight right" "\<not> ab_marked right"
    "akeys right = drop m ks" "aptrs right = drop m cs" "ab_searchKey right = ks ! m"
    and "node_ok dg n" "\<not> ab_leaf n" "ab_weight n = atroot" "\<not> ab_marked n"
    "akeys n = [ks ! (m - 1)]" "aptrs n = [al, ar]" "ab_searchKey n = ks ! (m - 1)"
proof -
  note n = node_okD [OF p(1)] node_okD [OF l(1)]
  have kc: "getKeyCount p = ab_size p - 1" "getKeyCount l = ab_size l - 1" "1 \<le> ab_size p" "1 \<le> ab_size l"
    using p l by (simp_all add: getKeyCount_def node_ok_def)
  define K where "K = merge_keys p l i (replicate (2 * dg) 0)"
  define P where "P = merge_ptrs p l i (replicate (2 * dg) 0)"
  define S where "S = ab_size p + ab_size l - 1"
  have tK: "take (S - 1) K = ks" "length ks = S - 1"
    using take_merge_keys [OF p(1) l(1), of i "replicate (2 * dg) 0"] n kc i
    by (simp_all add: K_def ks_def S_def)
  have tP: "take S P = cs" "length cs = S"
    using take_merge_ptrs [OF p(1) l(1), of i "replicate (2 * dg) 0"] n kc i
    by (simp_all add: P_def cs_def S_def)
  have lens: "length K = 2 * dg" "length P = 2 * dg" by (simp_all add: K_def P_def)
  have S: "4 \<le> S" "S < 2 * dg" "m = S div 2" using sz dg n(3) n(9) kc by (auto simp: S_def m_def)
  have m: "2 \<le> m" "m \<le> dg" "S - m \<le> dg" "m - 1 < S - 1" "m < S - 1" "0 < S - 1" "Suc 0 \<le> S - m" "m \<le> S" "m - 1 \<le> S - 1"
    using S by auto
  have nth: "K ! 0 = ks ! 0" "K ! m = ks ! m" "K ! (m - 1) = ks ! (m - 1)"
    using m by (simp_all flip: tK(1))
  note e' = e [unfolded mk_split_def Let_def K_def [symmetric] P_def [symmetric] S_def [symmetric]
      S(3) [symmetric] prod.inject nth]
  have e1: "left = g1\<lparr>ab_keys := arraycopy K 0 (ab_keys g1) 0 (m - 1), ab_ptrs := arraycopy P 0 (ab_ptrs g1) 0 m,
      ab_leaf := False, ab_searchKey := ks ! 0, ab_size := m, ab_weight := True\<rparr>"
    and e2: "right = g2\<lparr>ab_keys := arraycopy K m (ab_keys g2) 0 (S - m - 1),
      ab_ptrs := arraycopy P m (ab_ptrs g2) 0 (S - m),
      ab_leaf := False, ab_searchKey := ks ! m, ab_size := S - m, ab_weight := True\<rparr>"
    and e3: "n = g3\<lparr>ab_keys := (ab_keys g3)[0 := ks ! (m - 1)], ab_ptrs := (ab_ptrs g3)[0 := al, 1 := ar],
                 ab_leaf := False, ab_searchKey := ks ! (m - 1), ab_size := 2, ab_weight := atroot\<rparr>"
    using e' by simp_all
  have parts: "take (m - 1) K = take (m - 1) ks" "take m P = take m cs"
    "take (S - m - 1) (drop m K) = drop m ks" "take (S - m) (drop m P) = drop m cs"
    using m by (simp_all add: min_def take_drop flip: tK(1) tP(1))
  note gs = g [unfolded alloc_ok_def]
  have ak: "take (m - 1) (arraycopy K 0 (ab_keys g1) 0 (m - 1)) = take (m - 1) ks"
    "take m (arraycopy P 0 (ab_ptrs g1) 0 m) = take m cs"
    "take (S - m - 1) (arraycopy K m (ab_keys g2) 0 (S - m - 1)) = drop m ks"
    "take (S - m) (arraycopy P m (ab_ptrs g2) 0 (S - m)) = drop m cs"
    using m(1-3) S(2) gs lens parts(1,3) [simplified] by (simp_all add: take_arraycopy0 parts(2,4))
  show "node_ok dg left" "\<not> ab_leaf left" "ab_weight left" "\<not> ab_marked left" "ab_searchKey left = ks ! 0"
    "akeys left = take (m - 1) ks" "aptrs left = take m cs"
    using gs m(1,2) ak(1,2) by (simp_all add: e1 node_ok_def akeys_def aptrs_def getKeyCount_def)
  show "node_ok dg right" "\<not> ab_leaf right" "ab_weight right" "\<not> ab_marked right" "ab_searchKey right = ks ! m"
    "akeys right = drop m ks" "aptrs right = drop m cs"
    using gs m(3,7) ak(3,4) by (simp_all add: e2 node_ok_def akeys_def aptrs_def getKeyCount_def)
  show "node_ok dg n" "\<not> ab_leaf n" "ab_weight n = atroot" "\<not> ab_marked n" "akeys n = [ks ! (m - 1)]"
    "aptrs n = [al, ar]" "ab_searchKey n = ks ! (m - 1)"
    using gs dg by (simp_all add: e3 node_ok_def akeys_def aptrs_def getKeyCount_def take1 take2)
qed

lemma take_cat_keys:
  assumes "node_ok dg left" "node_ok dg right" "ab_leaf right = ab_leaf left"
    "getKeyCount left + (if ab_leaf left then 0 else 1) + getKeyCount right \<le> length dst"
  shows "take (getKeyCount left + (if ab_leaf left then 0 else 1) + getKeyCount right) (cat_keys left right sep dst)
           = akeys left @ (if ab_leaf left then [] else [sep]) @ akeys right"
proof -
  let ?k = "getKeyCount left"
  let ?a = "arraycopy (ab_keys left) 0 dst 0 ?k"
  note n = node_okD [OF assms(1)] node_okD [OF assms(2)]
  have a: "take ?k ?a = akeys left"
    using take_arraycopy [of 0 ?k dst 0 "ab_keys left"] assms n by (simp add: akeys_def)
  have b: "take (Suc ?k) (?a[?k := sep]) = akeys left @ [sep]" if "\<not> ab_leaf left"
    using that assms a by (simp add: take_Suc_conv_app_nth)
  show ?thesis
  proof (cases "ab_leaf left")
    case True
    have "take (?k + getKeyCount right) (arraycopy (ab_keys right) 0 ?a ?k (getKeyCount right))
        = take ?k ?a @ take (getKeyCount right) (drop 0 (ab_keys right))"
      using True assms n by (intro take_arraycopy) auto
    then show ?thesis using True a by (simp add: cat_keys_def akeys_def Let_def)
  next
    case False
    have "take (?k + 1 + getKeyCount right) (arraycopy (ab_keys right) 0 (?a[?k := sep]) (?k + 1) (getKeyCount right))
        = take (?k + 1) (?a[?k := sep]) @ take (getKeyCount right) (drop 0 (ab_keys right))"
      using False assms n by (intro take_arraycopy) auto
    then show ?thesis using False b by (simp add: cat_keys_def akeys_def Let_def)
  qed
qed

lemma take_cat_ptrs:
  assumes "node_ok dg left" "node_ok dg right" "ab_size left + ab_size right \<le> length dst"
  shows "take (ab_size left + ab_size right) (cat_ptrs left right dst) = aptrs left @ aptrs right"
proof -
  let ?a = "arraycopy (ab_ptrs left) 0 dst 0 (ab_size left)"
  note n = node_okD [OF assms(1)] node_okD [OF assms(2)]
  have a: "take (ab_size left) ?a = aptrs left"
    using take_arraycopy [of 0 "ab_size left" dst 0 "ab_ptrs left"] assms n by (simp add: aptrs_def)
  have "take (ab_size left + ab_size right) (cat_ptrs left right dst)
      = take (ab_size left) ?a @ take (ab_size right) (drop 0 (ab_ptrs right))"
    unfolding cat_ptrs_def using assms n by (intro take_arraycopy) auto
  then show ?thesis using a by (simp add: aptrs_def)
qed

lemma length_cat [simp]:
  "length (cat_keys left right sep dst) = length dst" "length (cat_ptrs left right dst') = length dst'"
  by (simp_all add: cat_keys_def cat_ptrs_def Let_def)

abbreviation sibling_keys :: "ab_node \<Rightarrow> ab_node \<Rightarrow> int \<Rightarrow> int list" where
  "sibling_keys left right sep \<equiv> akeys left @ (if ab_leaf left then [] else [sep]) @ akeys right"

lemma keycount_sum:
  assumes "node_ok dg left" "node_ok dg right" "ab_leaf right = ab_leaf left"
  shows "getKeyCount left + (if ab_leaf left then 0 else 1) + getKeyCount right
    = ab_size left + ab_size right - (if ab_leaf left then 0 else 1)"
  using assms by (auto simp: getKeyCount_def node_ok_def)

lemma mk_newl_view:
  fixes sep :: int
  assumes ok: "node_ok dg left" "node_ok dg right" "ab_leaf right = ab_leaf left" and g: "alloc_ok dg g"
    and sz: "ab_size left + ab_size right \<le> dg" and ls: "{l, s} = {left, right}" "l \<noteq> s \<or> left = right"
  defines "n \<equiv> mk_newl l s left right sep g"
  shows "node_ok dg n" "ab_leaf n = ab_leaf left" "ab_weight n" "\<not> ab_marked n"
    "akeys n = sibling_keys left right sep" "aptrs n = aptrs left @ aptrs right"
    "ab_searchKey n = ab_searchKey l" "ab_size n = ab_size left + ab_size right"
proof -
  have s: "ab_size l + ab_size s = ab_size left + ab_size right"
    using ls by (auto simp: doubleton_eq_iff)
  have f: "ab_leaf n = ab_leaf left" "ab_weight n" "\<not> ab_marked n" "ab_searchKey n = ab_searchKey l"
    "ab_size n = ab_size left + ab_size right" "ab_keys n = cat_keys left right sep (ab_keys g)"
    "ab_ptrs n = cat_ptrs left right (ab_ptrs g)"
    using g s by (simp_all add: n_def mk_newl_def alloc_ok_def)
  show "ab_leaf n = ab_leaf left" "ab_weight n" "\<not> ab_marked n" "ab_searchKey n = ab_searchKey l"
    "ab_size n = ab_size left + ab_size right" by (fact f)+
  show "node_ok dg n" using g sz ok by (auto simp: node_ok_def f alloc_ok_def)
  show "aptrs n = aptrs left @ aptrs right"
    using take_cat_ptrs [OF ok(1,2), of "ab_ptrs g"] sz g by (simp add: aptrs_def [of n] f alloc_ok_def)
  have kc: "getKeyCount n = getKeyCount left + (if ab_leaf left then 0 else 1) + getKeyCount right"
    using keycount_sum [OF ok] by (simp add: getKeyCount_def [of n] f)
  show "akeys n = sibling_keys left right sep"
    unfolding akeys_def [of n] kc f using ok sz g keycount_sum [OF ok]
    by (intro take_cat_keys) (auto simp: alloc_ok_def)
qed

lemma mk_shrink_view:
  fixes newl :: addr
  assumes p: "node_ok dg p" "\<not> ab_leaf p" and g: "alloc_ok dg g"
    and ix: "ixS = (if 0 < ixL then ixL - 1 else 1)" "ixL < ab_size p" "ixS < ab_size p"
  defines "j \<equiv> min ixL ixS"
  defines "n \<equiv> mk_shrink p j ixL ixS newl g"
  shows "node_ok dg n" "\<not> ab_leaf n" "ab_weight n" "\<not> ab_marked n"
    "akeys n = take j (akeys p) @ drop (Suc j) (akeys p)"
    "aptrs n = take j (aptrs p) @ newl # drop (Suc (Suc j)) (aptrs p)"
    "ab_searchKey n = ab_searchKey p" "ab_size n = ab_size p - 1"
proof -
  have j: "Suc j < ab_size p" "j = (if 0 < ixL then ixL - 1 else 0)" using ix by (auto simp: j_def)
  note nd = node_okD [OF p(1)]
  define K where "K = arraycopy (ab_keys p) (j + 1) (arraycopy (ab_keys p) 0 (ab_keys g) 0 j)
                  j (getKeyCount p - (j + 1))"
  define P where "P = (arraycopy (ab_ptrs p) (ixL + 1) (arraycopy (ab_ptrs p) 0 (ab_ptrs g) 0 ixS)
                  ixL (getABDegree p - (ixL + 1)))[ixL - (if ixL > ixS then 1 else 0) := newl]"
  have f: "\<not> ab_leaf n" "ab_weight n" "\<not> ab_marked n" "ab_searchKey n = ab_searchKey p"
    "ab_size n = ab_size p - 1" "ab_keys n = K" "ab_ptrs n = P"
    using g by (simp_all add: n_def mk_shrink_def alloc_ok_def K_def P_def)
  show "\<not> ab_leaf n" "ab_weight n" "\<not> ab_marked n" "ab_searchKey n = ab_searchKey p"
    "ab_size n = ab_size p - 1" by (fact f)+
  show "node_ok dg n" using g j nd(3) by (auto simp: node_ok_def f alloc_ok_def K_def P_def)
  have "take (j + (getKeyCount p - (j + 1))) K
      = take j (arraycopy (ab_keys p) 0 (ab_keys g) 0 j) @ take (getKeyCount p - (j + 1)) (drop (j + 1) (ab_keys p))"
    unfolding K_def using g nd j p by (intro take_arraycopy) (auto simp: alloc_ok_def getKeyCount_def)
  moreover have "take j (arraycopy (ab_keys p) 0 (ab_keys g) 0 j) = take j (ab_keys p)"
    using take_arraycopy0 [of j "ab_keys g" 0 "ab_keys p"] g nd j by (simp add: alloc_ok_def)
  moreover have "j + (getKeyCount p - (j + 1)) = getKeyCount n" "j \<le> getKeyCount p"
    using j p by (auto simp: getKeyCount_def f)
  ultimately show "akeys n = take j (akeys p) @ drop (Suc j) (akeys p)"
    by (simp add: akeys_def f drop_take min_def)
  show "aptrs n = take j (aptrs p) @ newl # drop (Suc (Suc j)) (aptrs p)"
  proof (rule nth_equalityI)
    show "length (aptrs n) = length (take j (aptrs p) @ newl # drop (Suc (Suc j)) (aptrs p))"
      using j g nd by (simp add: aptrs_def f P_def alloc_ok_def)
  next
    fix i
    assume "i < length (aptrs n)"
    then have i: "i < ab_size p - 1" using f by (simp add: aptrs_def)
    have i': "i < dg" "ab_size p \<le> dg" using i nd(3) by auto
    have jj: "ixL - (if ixL > ixS then 1 else 0) = j" using ix by (auto simp: j_def)
    have lg: "length (ab_ptrs g) = dg" "length (ab_ptrs p) = dg" using g nd by (simp_all add: alloc_ok_def)
    have 1: "aptrs n ! i = P ! i" using i f by (simp add: aptrs_def)
    consider "i < j" | "i = j" | "j < i" by linarith
    then show "aptrs n ! i = (take j (aptrs p) @ newl # drop (Suc (Suc j)) (aptrs p)) ! i"
    proof cases
      case 1
      then have "P ! i = ab_ptrs p ! i" using ix j i i' lg unfolding P_def jj
        by (cases "0 < ixL") (auto simp: nth_list_update nth_arraycopy)
      then show ?thesis using 1 \<open>aptrs n ! i = P ! i\<close> i j nd by (simp add: nth_append aptrs_nth)
    next
      case 2
      then have "P ! i = newl" using i' lg unfolding P_def jj by simp
      then show ?thesis using 2 \<open>aptrs n ! i = P ! i\<close> j nd by (simp add: nth_append)
    next
      case 3
      then obtain d where d: "i = Suc (j + d)" by (metis add_Suc_right less_iff_Suc_add)
      have "P ! i = ab_ptrs p ! Suc i" using 3 d ix j i i' lg unfolding P_def jj
        by (cases "0 < ixL") (auto simp: nth_list_update nth_arraycopy)
      then show ?thesis using 3 d \<open>aptrs n ! i = P ! i\<close> i j(1) nd by (simp add: nth_append aptrs_nth)
    qed
  qed
qed

lemma mk_distribute_view:
  assumes ok: "node_ok dg left" "node_ok dg right" "ab_leaf right = ab_leaf left"
    and p: "node_ok dg p" "\<not> ab_leaf p" and g: "alloc_ok dg g1" "alloc_ok dg g2" "alloc_ok dg g3"
    and j: "Suc j < ab_size p" and sz: "4 \<le> ab_size left + ab_size right"
    and e: "mk_distribute dg p left right j (Suc j) al ar g1 g2 g3 = (newleft, newright, n)"
  defines "m \<equiv> (ab_size left + ab_size right) div 2"
    and "ks \<equiv> sibling_keys left right (akeys p ! j)"
    and "d \<equiv> (if ab_leaf left then 0 else 1)"
  shows "node_ok dg newleft" "ab_leaf newleft = ab_leaf left" "ab_weight newleft" "\<not> ab_marked newleft"
    "akeys newleft = take (m - d) ks" "aptrs newleft = take m (aptrs left @ aptrs right)"
    "ab_searchKey newleft = ks ! 0"
    and "node_ok dg newright" "ab_leaf newright = ab_leaf left" "ab_weight newright" "\<not> ab_marked newright"
    "akeys newright = drop m ks" "aptrs newright = drop m (aptrs left @ aptrs right)"
    "ab_searchKey newright = ks ! m"
    and "node_ok dg n" "\<not> ab_leaf n" "ab_weight n" "\<not> ab_marked n"
    "akeys n = (akeys p)[j := ks ! (m - d)]" "aptrs n = (aptrs p)[j := al, Suc j := ar]"
    "ab_searchKey n = ab_searchKey p" "ab_size n = ab_size p"
proof -
  define S where "S = ab_size left + ab_size right"
  define K where "K = cat_keys left right (ab_keys p ! j) (replicate (2 * dg) 0)"
  define P where "P = cat_ptrs left right (replicate (2 * dg) 0)"
  note nd = node_okD [OF ok(1)] node_okD [OF ok(2)] node_okD [OF p(1)]
  have sep: "ab_keys p ! j = akeys p ! j" using j p by (simp add: akeys_nth getKeyCount_def)
  have kc: "getKeyCount left + (if ab_leaf left then 0 else 1) + getKeyCount right = S - d"
    using keycount_sum [OF ok] by (simp add: S_def d_def)
  have S: "4 \<le> S" "S \<le> 2 * dg" "m = S div 2" "d \<le> 1" using sz nd(3) nd(9) by (auto simp: S_def m_def d_def)
  have m: "2 \<le> m" "m \<le> dg" "S - m \<le> dg" "m < S" "2 \<le> S - m" "m - d + d = m" "m - d < S - d" "m < S - d"
    using S by auto
  have "length ks = getKeyCount left + (if ab_leaf left then 0 else 1) + getKeyCount right"
    by (simp add: ks_def nd)
  moreover have "take (S - d) K = ks"
    unfolding K_def ks_def sep [symmetric] kc [symmetric] using S(2) kc
    by (intro take_cat_keys [OF ok]) simp
  ultimately have tK: "take (S - d) K = ks" "length ks = S - d" by (simp_all only: kc)
  have tP: "take S P = aptrs left @ aptrs right"
    using take_cat_ptrs [OF ok(1,2), of "replicate (2 * dg) 0"] S by (simp add: P_def S_def)
  have lens: "length K = 2 * dg" "length P = 2 * dg" by (simp_all add: K_def P_def)
  have lg: "length (ab_keys g1) = dg" "length (ab_ptrs g1) = dg" "length (ab_keys g2) = dg" "length (ab_ptrs g2) = dg"
     "length (ab_keys g3) = dg" "length (ab_ptrs g3) = dg" using g by (simp_all add: alloc_ok_def)
  note e' = e [unfolded mk_distribute_def Let_def K_def [symmetric] P_def [symmetric] S_def [symmetric]
      S(3) [symmetric] d_def [symmetric] prod.inject m(6)]
  define A where "A = arraycopy K 0 (ab_keys g1) 0 (m - d)"
  define B where "B = arraycopy K m (ab_keys g2) 0 (S - m - d)"
  have e1: "newleft = g1\<lparr>ab_keys := A, ab_ptrs := arraycopy P 0 (ab_ptrs g1) 0 m,
      ab_leaf := ab_leaf left, ab_searchKey := A ! 0, ab_size := m, ab_weight := True\<rparr>"
    and e2: "newright = g2\<lparr>ab_keys := B, ab_ptrs := arraycopy P m (ab_ptrs g2) 0 (S - m),
      ab_leaf := ab_leaf left, ab_searchKey := B ! 0, ab_size := S - m, ab_weight := True\<rparr>"
    and e3: "n = g3\<lparr>ab_keys := (arraycopy (ab_keys p) 0 (ab_keys g3) 0 (getKeyCount p))[j := K ! (m - d)],
      ab_ptrs := (arraycopy (ab_ptrs p) 0 (ab_ptrs g3) 0 (ab_size p))[j := al, Suc j := ar],
      ab_leaf := False, ab_searchKey := ab_searchKey p, ab_size := ab_size p, ab_weight := True\<rparr>"
    using e' ok(3) by (simp_all add: A_def B_def)
  have ie: "m - d \<le> dg" "m - d \<le> 2 * dg" "S - m - d \<le> dg" "m + (S - m - d) \<le> 2 * dg" "m - d \<le> S - d"
    "S - d - m = S - m - d" "m \<le> 2 * dg" "m + (S - m) \<le> 2 * dg" "m \<le> S"
    using m S(1,2,4) by linarith+
  have A: "take (m - d) A = take (m - d) ks"
    unfolding A_def tK(1) [symmetric] using ie(1,2,5) lens(1) lg(1) by (simp add: take_arraycopy0 min_def)
  have B: "take (S - m - d) B = drop m ks"
    unfolding B_def tK(1) [symmetric] drop_take ie(6) using ie(3,4) lens(1) lg(3) by (simp add: take_arraycopy0)
  have A0: "A ! 0 = ks ! 0" using arg_cong [OF A, of "\<lambda>x. x ! 0"] m S tK by simp
  have B0: "B ! 0 = ks ! m" using arg_cong [OF B, of "\<lambda>x. x ! 0"] m S tK by simp
  have Pl: "take m (arraycopy P 0 (ab_ptrs g1) 0 m) = take m (aptrs left @ aptrs right)"
    unfolding tP [symmetric] using m(2) ie(7,9) lens(2) lg(2) by (simp add: take_arraycopy0 min_def)
  have Pr: "take (S - m) (arraycopy P m (ab_ptrs g2) 0 (S - m)) = drop m (aptrs left @ aptrs right)"
    unfolding tP [symmetric] drop_take using m(3) ie(8) lens(2) lg(4) by (simp add: take_arraycopy0)
  show "node_ok dg newleft" "ab_leaf newleft = ab_leaf left" "ab_weight newleft" "\<not> ab_marked newleft"
    using g lg m by (simp_all add: e1 node_ok_def alloc_ok_def A_def)
  show "ab_searchKey newleft = ks ! 0" by (simp add: e1 A0)
  show "akeys newleft = take (m - d) ks" using A by (simp add: e1 akeys_def getKeyCount_def d_def split: if_splits)
  show "aptrs newleft = take m (aptrs left @ aptrs right)" unfolding Pl [symmetric] by (simp add: e1 aptrs_def)
  show "node_ok dg newright" "ab_leaf newright = ab_leaf left" "ab_weight newright" "\<not> ab_marked newright"
    using g lg m by (simp_all add: e2 node_ok_def alloc_ok_def B_def)
  show "ab_searchKey newright = ks ! m" by (simp add: e2 B0)
  show "akeys newright = drop m ks" using B by (simp add: e2 akeys_def getKeyCount_def d_def split: if_splits)
  show "aptrs newright = drop m (aptrs left @ aptrs right)" unfolding Pr [symmetric] by (simp add: e2 aptrs_def)
  show "node_ok dg n" "\<not> ab_leaf n" "ab_weight n" "\<not> ab_marked n" "ab_searchKey n = ab_searchKey p" "ab_size n = ab_size p"
    using g lg nd j by (simp_all add: e3 node_ok_def alloc_ok_def)
  have kp: "getKeyCount p = ab_size p - 1" "j < getKeyCount p" "getKeyCount p \<le> dg" "ab_size p \<le> dg"
    using p j nd by (auto simp: getKeyCount_def)
  have Kj: "K ! (m - d) = ks ! (m - d)" using m by (simp flip: tK(1))
  show "akeys n = (akeys p)[j := ks ! (m - d)]"
    using kp lg nd by (simp add: e3 akeys_def getKeyCount_def Kj take_update_swap take_arraycopy0)
  show "aptrs n = (aptrs p)[j := al, Suc j := ar]"
    using kp lg nd by (simp add: e3 aptrs_def take_update_swap take_arraycopy0)
qed

end
