(* ===== verification/AbTree.thy ===== *)
theory AbTree
  imports AbRebal
begin

text \<open>
  The relaxed (a,b)-tree of \<open>ds/brown_ext_abtree_lf/brown_ext_abtree_lf_impl.h\<close> as a machine:
  any number of threads run \<open>find\<close>, \<open>insert\<close>, \<open>insertIfAbsent\<close> and \<open>erase\<close>
  with the rebalancing \<open>fixWeightViolation\<close> and \<open>fixDegreeViolation\<close>, one access to
  shared memory per step. A thread is a stack of activation frames, the running one first; a frame
  is the line the activation is at, with its local variables.

  LLX and SCX are as \<open>common/scx_provider.h\<close> documents them: an SCX takes effect at one
  instant, and only if no node it depends on was frozen by another SCX since the LLX that added it.
  Nodes are allocated at addresses not in use, and a retired node stays readable to the threads that
  may still hold it, which is what the reclaimers guarantee; so no node is ever taken out of the
  heap.
\<close>

type_synonym ab_heap = "addr \<Rightarrow> ab_node option"

abbreviation nd :: "ab_heap \<Rightarrow> addr \<Rightarrow> ab_node" where
  "nd h x \<equiv> the (h x)"

definition AB_NO_VALUE :: nat where
  "AB_NO_VALUE = 2 ^ 64 - 1"

subsection \<open>LLX and SCX\<close>

text \<open>\<open>fail\<close> is the scheduler's choice that the LLX or the SCX meets another SCX in
  progress.\<close>

datatype llx_result = FINALIZED | FAILED | Snap nat

definition llx :: "bool \<Rightarrow> ab_heap \<Rightarrow> addr \<Rightarrow> llx_result" where
  "llx fail h x =
     (if fail then FAILED
      else if ab_marked (nd h x) then FINALIZED
      else Snap (ab_scxPtr (nd h x)))"

text \<open>A dependency: a node, the value its LLX returned, and whether to finalize it.\<close>

type_synonym scx_dep = "addr \<times> nat \<times> bool"

definition freeze :: "ab_heap \<Rightarrow> scx_dep list \<Rightarrow> ab_heap" where
  "freeze h deps =
     fold (\<lambda>(x, v, fin) h. h(x \<mapsto> (nd h x)\<lparr>ab_scxPtr := Suc (ab_scxPtr (nd h x)), ab_marked := ab_marked (nd h x) \<or> fin\<rparr>))
       deps h"

definition cas_field :: "ab_heap \<Rightarrow> addr \<Rightarrow> nat \<Rightarrow> addr \<Rightarrow> addr \<Rightarrow> ab_heap" where
  "cas_field h x ix old new =
     (if ab_ptrs (nd h x) ! ix = old then h(x \<mapsto> (nd h x)\<lparr>ab_ptrs := (ab_ptrs (nd h x))[ix := new]\<rparr>) else h)"

definition scxExecute :: "bool \<Rightarrow> ab_heap \<Rightarrow> scx_dep list \<Rightarrow> addr \<Rightarrow> nat \<Rightarrow> addr \<Rightarrow> addr \<Rightarrow> ab_heap option" where
  "scxExecute fail h deps x ix old new =
     (if fail \<or> (\<exists>(y, v, fin)\<in>set deps. ab_scxPtr (nd h y) \<noteq> v) then None
      else Some (cas_field (freeze h deps) x ix old new))"

subsection \<open>Operations, results, searches\<close>

datatype ab_op = OpFind int | OpInsert int nat bool | OpErase int

fun op_key :: "ab_op \<Rightarrow> int" where
  "op_key (OpFind k) = k"
| "op_key (OpInsert k v r) = k"
| "op_key (OpErase k) = k"

datatype ab_res = RPtr nat | RPair nat bool

text \<open>The locals of a search. \<open>s_st\<close> is no variable of the code: it is the index of the
  heap, in the history of the heap, from which the search started.\<close>

record srch =
  s_st :: nat
  s_gp :: "addr option"
  s_p :: addr
  s_l :: addr
  s_ixP :: int
  s_ixL :: nat

definition start_search :: "addr \<Rightarrow> ab_heap \<Rightarrow> nat \<Rightarrow> srch" where
  "start_search e h now =
     \<lparr>s_st = now, s_gp = None, s_p = e, s_l = ab_ptrs (nd h e) ! 0, s_ixP = -1, s_ixL = 0\<rparr>"

definition descend :: "ab_heap \<Rightarrow> int \<Rightarrow> srch \<Rightarrow> srch" where
  "descend h k sr =
     (let ix = getChildIndex (nd h (s_l sr)) k
      in sr\<lparr>s_ixP := int (s_ixL sr), s_ixL := ix, s_gp := Some (s_p sr), s_p := s_l sr,
            s_l := ab_ptrs (nd h (s_l sr)) ! ix\<rparr>)"

subsection \<open>Frames\<close>

datatype fix_kind = FixWeight | FixDegree

text \<open>
  The first group is an operation: the top of its \<open>while (true)\<close>, its search, the decision at
  the leaf, \<open>llx(p)\<close>, the check of \<open>p->ptrs[ixToL]\<close>, \<open>scxExecute\<close>, and the return (the
  first number is the index of the heap when the operation was invoked). The second group is common
  to the two rebalancing functions: entry, \<open>llx(viol)\<close>, the top of the loop, the search, its end,
  \<open>llx(gp)\<close>, the check of \<open>gp->ptrs[ixToP]\<close>, \<open>llx(p)\<close> and the check of
  \<open>p->ptrs[ixToL]\<close>; the rest are the last steps of each. \<open>FxUndef\<close> is a function that read
  memory it must not read: from there the behaviour of the code is undefined.
\<close>

datatype frame =
    OpStart ab_op nat
  | OpSearch ab_op nat srch
  | OpLeaf ab_op nat srch
  | OpLlx ab_op nat srch
  | OpChk ab_op nat srch nat
  | OpScx ab_op nat srch nat
  | OpEnd ab_op nat ab_res
  | FxStart fix_kind addr
  | FxLlxViol fix_kind addr
  | FxLoop fix_kind addr
  | FxSearch fix_kind addr srch
  | FxFound fix_kind addr srch
  | FxLlxGp fix_kind addr srch
  | FxChkP fix_kind addr srch nat
  | FxLlxP fix_kind addr srch nat
  | FxChkL fix_kind addr srch nat nat
  | WLlxL addr srch nat nat
  | WScx addr srch nat nat "nat option"
  | DSib addr srch nat nat
  | DLlxLeft addr srch nat nat addr
  | DLlxRight addr srch nat nat addr nat
  | DScx addr srch nat nat addr "(nat \<times> nat) option"
  | FxUndef fix_kind addr

text \<open>What a step does: it replaces the running frame by others, and an SCX that succeeds also
  replaces the heap.\<close>

datatype outcome = Go "frame list" | Commit ab_heap "frame list"

text \<open>The scheduler's choices in a step: a spurious failure, and three addresses and their
  contents for \<open>allocateNode\<close>.\<close>

record ab_choice =
  c_fail :: bool
  c_a1 :: addr
  c_a2 :: addr
  c_a3 :: addr
  c_g1 :: ab_node
  c_g2 :: ab_node
  c_g3 :: ab_node

definition choice_ok :: "nat \<Rightarrow> ab_heap \<Rightarrow> ab_choice \<Rightarrow> bool" where
  "choice_ok dg h c \<longleftrightarrow> distinct [c_a1 c, c_a2 c, c_a3 c]
     \<and> h (c_a1 c) = None \<and> h (c_a2 c) = None \<and> h (c_a3 c) = None
     \<and> alloc_ok dg (c_g1 c) \<and> alloc_ok dg (c_g2 c) \<and> alloc_ok dg (c_g3 c)"

subsection \<open>The operations\<close>

definition key_at :: "ab_node \<Rightarrow> int \<Rightarrow> bool" where
  "key_at l k \<longleftrightarrow> getKeyIndex l k < getKeyCount l \<and> ab_keys l ! getKeyIndex l k = k"

text \<open>\<open>find\<close>.\<close>

fun find_step :: "addr \<Rightarrow> ab_heap \<Rightarrow> nat \<Rightarrow> frame \<Rightarrow> outcome" where
  "find_step e h now (OpStart op i0) = Go [OpSearch op i0 (start_search e h now)]"
| "find_step e h now (OpSearch op i0 sr) =
     (if \<not> ab_leaf (nd h (s_l sr)) then Go [OpSearch op i0 (descend h (op_key op) sr)]
      else Go [OpLeaf op i0 sr])"
| "find_step e h now (OpLeaf op i0 sr) =
     (let l = nd h (s_l sr); index = getKeyIndex l (op_key op)
      in if key_at l (op_key op) then Go [OpEnd op i0 (RPair (ab_ptrs l ! index) True)]
         else Go [OpEnd op i0 (RPair AB_NO_VALUE False)])"
| "find_step e h now (OpEnd op i0 res) = Go []"
| "find_step e h now f = Go [f]"

text \<open>\<open>doInsert\<close>: the new leaf, or the three nodes of an overflow, are built and the SCX is
  executed in one step; every mutable word the code reads for it is in a node the SCX depends on.\<close>

definition insert_scx :: "nat \<Rightarrow> addr \<Rightarrow> ab_heap \<Rightarrow> ab_choice \<Rightarrow> int \<Rightarrow> nat \<Rightarrow> srch \<Rightarrow> nat \<Rightarrow>
    (ab_heap \<times> frame list \<times> nat) option" where
  "insert_scx dg e h c key val sr v =
     (let p = s_p sr; l = nd h (s_l sr); keyIndex = getKeyIndex l key; deps = [(p, v, False)]
      in if key_at l key then
           (case scxExecute (c_fail c) (h(c_a1 c \<mapsto> mk_replace l keyIndex val (c_g1 c))) deps
                   p (s_ixL sr) (s_l sr) (c_a1 c) of
              None \<Rightarrow> None
            | Some h' \<Rightarrow> Some (h', [FxStart FixDegree (c_a1 c)], ab_ptrs l ! keyIndex))
         else if getKeyCount l < dg then
           (case scxExecute (c_fail c) (h(c_a1 c \<mapsto> mk_insert l keyIndex key val (c_g1 c))) deps
                   p (s_ixL sr) (s_l sr) (c_a1 c) of
              None \<Rightarrow> None
            | Some h' \<Rightarrow> Some (h', [FxStart FixDegree (c_a1 c)], AB_NO_VALUE))
         else
           (let (left, right, n) =
                  mk_overflow dg l keyIndex key val (p = e) (c_a1 c) (c_a2 c) (c_g1 c) (c_g2 c) (c_g3 c)
            in case scxExecute (c_fail c) (h(c_a1 c \<mapsto> left, c_a2 c \<mapsto> right, c_a3 c \<mapsto> n)) deps
                   p (s_ixL sr) (s_l sr) (c_a3 c) of
              None \<Rightarrow> None
            | Some h' \<Rightarrow> Some (h', [FxStart FixWeight (c_a3 c)], AB_NO_VALUE)))"

fun insert_step :: "nat \<Rightarrow> addr \<Rightarrow> ab_heap \<Rightarrow> nat \<Rightarrow> ab_choice \<Rightarrow> int \<Rightarrow> nat \<Rightarrow> bool \<Rightarrow> frame \<Rightarrow> outcome" where
  "insert_step dg e h now c key val replace (OpStart op i0) = Go [OpSearch op i0 (start_search e h now)]"
| "insert_step dg e h now c key val replace (OpSearch op i0 sr) =
     (if \<not> ab_leaf (nd h (s_l sr)) then Go [OpSearch op i0 (descend h key sr)]
      else Go [OpLeaf op i0 sr])"
| "insert_step dg e h now c key val replace (OpLeaf op i0 sr) =
     (let l = nd h (s_l sr)
      in if key_at l key \<and> \<not> replace then Go [OpEnd op i0 (RPtr (ab_ptrs l ! getKeyIndex l key))]
         else Go [OpLlx op i0 sr])"
| "insert_step dg e h now c key val replace (OpLlx op i0 sr) =
     (case llx (c_fail c) h (s_p sr) of
        Snap v \<Rightarrow> Go [OpChk op i0 sr v]
      | _ \<Rightarrow> Go [OpStart op i0])"
| "insert_step dg e h now c key val replace (OpChk op i0 sr v) =
     (if ab_ptrs (nd h (s_p sr)) ! s_ixL sr \<noteq> s_l sr then Go [OpStart op i0] else Go [OpScx op i0 sr v])"
| "insert_step dg e h now c key val replace (OpScx op i0 sr v) =
     (case insert_scx dg e h c key val sr v of
        None \<Rightarrow> Go [OpStart op i0]
      | Some (h', fixes, res) \<Rightarrow> Commit h' (fixes @ [OpEnd op i0 (RPtr res)]))"
| "insert_step dg e h now c key val replace (OpEnd op i0 res) = Go []"
| "insert_step dg e h now c key val replace f = Go [f]"

text \<open>\<open>erase\<close>.\<close>

fun erase_step :: "nat \<Rightarrow> addr \<Rightarrow> ab_heap \<Rightarrow> nat \<Rightarrow> ab_choice \<Rightarrow> int \<Rightarrow> frame \<Rightarrow> outcome" where
  "erase_step dg e h now c key (OpStart op i0) = Go [OpSearch op i0 (start_search e h now)]"
| "erase_step dg e h now c key (OpSearch op i0 sr) =
     (if \<not> ab_leaf (nd h (s_l sr)) then Go [OpSearch op i0 (descend h key sr)]
      else Go [OpLeaf op i0 sr])"
| "erase_step dg e h now c key (OpLeaf op i0 sr) =
     (let l = nd h (s_l sr); keyIndex = getKeyIndex l key
      in if keyIndex = getKeyCount l \<or> ab_keys l ! keyIndex \<noteq> key
         then Go [OpEnd op i0 (RPair AB_NO_VALUE False)]
         else Go [OpLlx op i0 sr])"
| "erase_step dg e h now c key (OpLlx op i0 sr) =
     (case llx (c_fail c) h (s_p sr) of
        Snap v \<Rightarrow> Go [OpChk op i0 sr v]
      | _ \<Rightarrow> Go [OpStart op i0])"
| "erase_step dg e h now c key (OpChk op i0 sr v) =
     (if ab_ptrs (nd h (s_p sr)) ! s_ixL sr \<noteq> s_l sr then Go [OpStart op i0] else Go [OpScx op i0 sr v])"
| "erase_step dg e h now c key (OpScx op i0 sr v) =
     (let l = nd h (s_l sr); keyIndex = getKeyIndex l key
      in case scxExecute (c_fail c) (h(c_a1 c \<mapsto> mk_erase l keyIndex (c_g1 c))) [(s_p sr, v, False)]
               (s_p sr) (s_ixL sr) (s_l sr) (c_a1 c) of
           None \<Rightarrow> Go [OpStart op i0]
         | Some h' \<Rightarrow> Commit h' [FxStart FixDegree (c_a1 c), OpEnd op i0 (RPair (ab_ptrs l ! keyIndex) True)])"
| "erase_step dg e h now c key (OpEnd op i0 res) = Go []"
| "erase_step dg e h now c key f = Go [f]"

subsection \<open>Rebalancing\<close>

text \<open>\<open>fixWeightViolation\<close>: its last step, Absorb or Split.\<close>

definition weight_scx :: "nat \<Rightarrow> addr \<Rightarrow> ab_heap \<Rightarrow> ab_choice \<Rightarrow> srch \<Rightarrow> nat \<Rightarrow> nat \<Rightarrow> nat option \<Rightarrow>
    (ab_heap \<times> frame list) option" where
  "weight_scx dg e h c sr vg vp vl =
     (let gp = the (s_gp sr); ap = s_p sr; al = s_l sr; p = nd h ap; l = nd h al; ixToL = s_ixL sr;
          deps = [(gp, vg, False), (ap, vp, True)] @ (case vl of None \<Rightarrow> [] | Some v \<Rightarrow> [(al, v, True)]);
          size' = getABDegree p + getABDegree l - 1
      in if size' \<le> dg then
           (case scxExecute (c_fail c) (h(c_a1 c \<mapsto> mk_absorb p l ixToL (c_g1 c))) deps
                   gp (nat (s_ixP sr)) ap (c_a1 c) of
              None \<Rightarrow> None
            | Some h' \<Rightarrow> Some (h', [FxStart FixDegree (c_a1 c)]))
         else
           (let (left, right, n) =
                  mk_split dg p l ixToL (gp = e) (c_a1 c) (c_a2 c) (c_g1 c) (c_g2 c) (c_g3 c)
            in case scxExecute (c_fail c) (h(c_a1 c \<mapsto> left, c_a2 c \<mapsto> right, c_a3 c \<mapsto> n)) deps
                   gp (nat (s_ixP sr)) ap (c_a3 c) of
              None \<Rightarrow> None
            | Some h' \<Rightarrow> Some (h', [FxStart FixWeight (c_a3 c), FxStart FixDegree (c_a3 c)])))"

fun weight_step :: "nat \<Rightarrow> addr \<Rightarrow> ab_heap \<Rightarrow> nat \<Rightarrow> ab_choice \<Rightarrow> frame \<Rightarrow> outcome" where
  "weight_step dg e h now c (FxStart fk viol) =
     (if ab_weight (nd h viol) then Go [] else Go [FxLlxViol fk viol])"
| "weight_step dg e h now c (FxLlxViol fk viol) =
     (if llx (c_fail c) h viol = FINALIZED then Go [] else Go [FxLoop fk viol])"
| "weight_step dg e h now c (FxLoop fk viol) = Go [FxSearch fk viol (start_search e h now)]"
| "weight_step dg e h now c (FxSearch fk viol sr) =
     (if \<not> ab_leaf (nd h (s_l sr)) \<and> s_l sr \<noteq> viol
      then Go [FxSearch fk viol (descend h (ab_searchKey (nd h viol)) sr)]
      else Go [FxFound fk viol sr])"
| "weight_step dg e h now c (FxFound fk viol sr) =
     (if s_l sr \<noteq> viol then Go []
      else if \<not> ab_weight (nd h (s_p sr)) then Go [FxStart FixWeight (s_p sr), FxLoop fk viol]
      else Go [FxLlxGp fk viol sr])"
| "weight_step dg e h now c (FxLlxGp fk viol sr) =
     (case s_gp sr of
        None \<Rightarrow> Go [FxUndef fk viol]
      | Some gp \<Rightarrow> (case llx (c_fail c) h gp of Snap v \<Rightarrow> Go [FxChkP fk viol sr v] | _ \<Rightarrow> Go [FxLoop fk viol]))"
| "weight_step dg e h now c (FxChkP fk viol sr vg) =
     (if ab_ptrs (nd h (the (s_gp sr))) ! nat (s_ixP sr) \<noteq> s_p sr then Go [FxLoop fk viol]
      else Go [FxLlxP fk viol sr vg])"
| "weight_step dg e h now c (FxLlxP fk viol sr vg) =
     (case llx (c_fail c) h (s_p sr) of Snap v \<Rightarrow> Go [FxChkL fk viol sr vg v] | _ \<Rightarrow> Go [FxLoop fk viol])"
| "weight_step dg e h now c (FxChkL fk viol sr vg vp) =
     (if ab_ptrs (nd h (s_p sr)) ! s_ixL sr \<noteq> s_l sr then Go [FxLoop fk viol]
      else if \<not> ab_leaf (nd h (s_l sr)) then Go [WLlxL viol sr vg vp]
      else Go [WScx viol sr vg vp None])"
| "weight_step dg e h now c (WLlxL viol sr vg vp) =
     (case llx (c_fail c) h (s_l sr) of
        Snap v \<Rightarrow> Go [WScx viol sr vg vp (Some v)]
      | _ \<Rightarrow> Go [FxLoop FixWeight viol])"
| "weight_step dg e h now c (WScx viol sr vg vp vl) =
     (case weight_scx dg e h c sr vg vp vl of
        None \<Rightarrow> Go [FxLoop FixWeight viol]
      | Some (h', fixes) \<Rightarrow> Commit h' fixes)"
| "weight_step dg e h now c f = Go [f]"

text \<open>\<open>fixDegreeViolation\<close>: its last step, AbsorbSibling (with or without RootAbsorb) or
  Distribute. \<open>left\<close> and \<open>right\<close> are \<open>l\<close> and \<open>s\<close> in the order of their indices.\<close>

definition sib_ix :: "nat \<Rightarrow> nat" where
  "sib_ix ixToL = (if 0 < ixToL then ixToL - 1 else 1)"

definition sib_left :: "srch \<Rightarrow> addr \<Rightarrow> addr" where
  "sib_left sr s = (if s_ixL sr < sib_ix (s_ixL sr) then s_l sr else s)"

definition sib_right :: "srch \<Rightarrow> addr \<Rightarrow> addr" where
  "sib_right sr s = (if s_ixL sr < sib_ix (s_ixL sr) then s else s_l sr)"

definition degree_scx :: "nat \<Rightarrow> addr \<Rightarrow> ab_heap \<Rightarrow> ab_choice \<Rightarrow> srch \<Rightarrow> nat \<Rightarrow> nat \<Rightarrow> addr \<Rightarrow> (nat \<times> nat) option \<Rightarrow>
    (ab_heap \<times> frame list) option" where
  "degree_scx dg e h c sr vg vp as vlr =
     (let gp = the (s_gp sr); ap = s_p sr; p = nd h ap; l = nd h (s_l sr); s = nd h as;
          ixToL = s_ixL sr; ixToS = sib_ix ixToL;
          leftindex = (if ixToL < ixToS then ixToL else ixToS);
          rightindex = (if ixToL < ixToS then ixToS else ixToL);
          left = nd h (sib_left sr as); right = nd h (sib_right sr as);
          deps = [(gp, vg, False), (ap, vp, True)]
            @ (case vlr of None \<Rightarrow> []
                | Some (v1, v2) \<Rightarrow> [(sib_left sr as, v1, True), (sib_right sr as, v2, True)]);
          sz = getABDegree left + getABDegree right
      in if sz < 2 * min_deg dg then
           (let newl = mk_newl l s left right (ab_keys p ! leftindex) (c_g1 c)
            in if gp = e \<and> getABDegree p = 2 then
                 (case scxExecute (c_fail c) (h(c_a1 c \<mapsto> newl)) deps gp (nat (s_ixP sr)) ap (c_a1 c) of
                    None \<Rightarrow> None
                  | Some h' \<Rightarrow> Some (h', [FxStart FixDegree (c_a1 c)]))
               else
                 (let n = mk_shrink p leftindex ixToL ixToS (c_a1 c) (c_g2 c)
                  in case scxExecute (c_fail c) (h(c_a1 c \<mapsto> newl, c_a2 c \<mapsto> n)) deps gp (nat (s_ixP sr)) ap (c_a2 c) of
                    None \<Rightarrow> None
                  | Some h' \<Rightarrow> Some (h', [FxStart FixDegree (c_a1 c), FxStart FixDegree (c_a2 c)])))
         else
           (let (newleft, newright, n) =
                  mk_distribute dg p left right leftindex rightindex (c_a1 c) (c_a2 c) (c_g1 c) (c_g2 c) (c_g3 c)
            in case scxExecute (c_fail c) (h(c_a1 c \<mapsto> newleft, c_a2 c \<mapsto> newright, c_a3 c \<mapsto> n)) deps
                   gp (nat (s_ixP sr)) ap (c_a3 c) of
              None \<Rightarrow> None
            | Some h' \<Rightarrow> Some (h', [FxStart FixDegree (c_a3 c)])))"

fun degree_step :: "nat \<Rightarrow> addr \<Rightarrow> ab_heap \<Rightarrow> nat \<Rightarrow> ab_choice \<Rightarrow> frame \<Rightarrow> outcome" where
  "degree_step dg e h now c (FxStart fk viol) =
     (if getABDegree (nd h viol) \<ge> min_deg dg \<or> viol = e \<or> viol = ab_ptrs (nd h e) ! 0 then Go []
      else Go [FxLlxViol fk viol])"
| "degree_step dg e h now c (FxLlxViol fk viol) =
     (if llx (c_fail c) h viol = FINALIZED then Go [] else Go [FxLoop fk viol])"
| "degree_step dg e h now c (FxLoop fk viol) = Go [FxSearch fk viol (start_search e h now)]"
| "degree_step dg e h now c (FxSearch fk viol sr) =
     (if \<not> ab_leaf (nd h (s_l sr)) \<and> s_l sr \<noteq> viol
      then Go [FxSearch fk viol (descend h (ab_searchKey (nd h viol)) sr)]
      else Go [FxFound fk viol sr])"
| "degree_step dg e h now c (FxFound fk viol sr) =
     (if s_l sr \<noteq> viol then Go [] else Go [FxLlxGp fk viol sr])"
| "degree_step dg e h now c (FxLlxGp fk viol sr) =
     (case s_gp sr of
        None \<Rightarrow> Go [FxUndef fk viol]
      | Some gp \<Rightarrow> (case llx (c_fail c) h gp of Snap v \<Rightarrow> Go [FxChkP fk viol sr v] | _ \<Rightarrow> Go [FxLoop fk viol]))"
| "degree_step dg e h now c (FxChkP fk viol sr vg) =
     (if ab_ptrs (nd h (the (s_gp sr))) ! nat (s_ixP sr) \<noteq> s_p sr then Go [FxLoop fk viol]
      else Go [FxLlxP fk viol sr vg])"
| "degree_step dg e h now c (FxLlxP fk viol sr vg) =
     (case llx (c_fail c) h (s_p sr) of Snap v \<Rightarrow> Go [FxChkL fk viol sr vg v] | _ \<Rightarrow> Go [FxLoop fk viol])"
| "degree_step dg e h now c (FxChkL fk viol sr vg vp) =
     (if ab_ptrs (nd h (s_p sr)) ! s_ixL sr \<noteq> s_l sr then Go [FxLoop fk viol]
      else Go [DSib viol sr vg vp])"
| "degree_step dg e h now c (DSib viol sr vg vp) =
     (if sib_ix (s_ixL sr) < getABDegree (nd h (s_p sr)) then
        (let s = ab_ptrs (nd h (s_p sr)) ! sib_ix (s_ixL sr);
             viols = filter (\<lambda>x. \<not> ab_weight (nd h x)) [s_p sr, s_l sr, s]
         in if viols \<noteq> [] then Go (map (FxStart FixWeight) viols @ [FxLoop FixDegree viol])
            else if \<not> ab_leaf (nd h (sib_left sr s)) then Go [DLlxLeft viol sr vg vp s]
            else Go [DScx viol sr vg vp s None])
      else Go [FxUndef FixDegree viol])"
| "degree_step dg e h now c (DLlxLeft viol sr vg vp s) =
     (case llx (c_fail c) h (sib_left sr s) of
        Snap v \<Rightarrow> Go [DLlxRight viol sr vg vp s v]
      | _ \<Rightarrow> Go [FxLoop FixDegree viol])"
| "degree_step dg e h now c (DLlxRight viol sr vg vp s v1) =
     (case llx (c_fail c) h (sib_right sr s) of
        Snap v \<Rightarrow> Go [DScx viol sr vg vp s (Some (v1, v))]
      | _ \<Rightarrow> Go [FxLoop FixDegree viol])"
| "degree_step dg e h now c (DScx viol sr vg vp s vlr) =
     (case degree_scx dg e h c sr vg vp s vlr of
        None \<Rightarrow> Go [FxLoop FixDegree viol]
      | Some (h', fixes) \<Rightarrow> Commit h' fixes)"
| "degree_step dg e h now c f = Go [f]"

subsection \<open>The machine\<close>

text \<open>Which function a frame belongs to.\<close>

fun frame_step :: "nat \<Rightarrow> addr \<Rightarrow> ab_heap \<Rightarrow> nat \<Rightarrow> ab_choice \<Rightarrow> frame \<Rightarrow> outcome" where
  "frame_step dg e h now c f =
     (let op_step = (\<lambda>op. case op of
            OpFind k \<Rightarrow> find_step e h now f
          | OpInsert k v r \<Rightarrow> insert_step dg e h now c k v r f
          | OpErase k \<Rightarrow> erase_step dg e h now c k f);
          fix_step = (\<lambda>fk. case fk of
            FixWeight \<Rightarrow> weight_step dg e h now c f
          | FixDegree \<Rightarrow> degree_step dg e h now c f)
      in case f of
           OpStart op _ \<Rightarrow> op_step op | OpSearch op _ _ \<Rightarrow> op_step op | OpLeaf op _ _ \<Rightarrow> op_step op
         | OpLlx op _ _ \<Rightarrow> op_step op | OpChk op _ _ _ \<Rightarrow> op_step op | OpScx op _ _ _ \<Rightarrow> op_step op
         | OpEnd op _ _ \<Rightarrow> op_step op
         | FxStart fk _ \<Rightarrow> fix_step fk | FxLlxViol fk _ \<Rightarrow> fix_step fk | FxLoop fk _ \<Rightarrow> fix_step fk
         | FxSearch fk _ _ \<Rightarrow> fix_step fk | FxFound fk _ _ \<Rightarrow> fix_step fk | FxLlxGp fk _ _ \<Rightarrow> fix_step fk
         | FxChkP fk _ _ _ \<Rightarrow> fix_step fk | FxLlxP fk _ _ _ \<Rightarrow> fix_step fk | FxChkL fk _ _ _ _ \<Rightarrow> fix_step fk
         | WLlxL _ _ _ _ \<Rightarrow> fix_step FixWeight | WScx _ _ _ _ _ \<Rightarrow> fix_step FixWeight
         | DSib _ _ _ _ \<Rightarrow> fix_step FixDegree | DLlxLeft _ _ _ _ _ \<Rightarrow> fix_step FixDegree
         | DLlxRight _ _ _ _ _ _ \<Rightarrow> fix_step FixDegree | DScx _ _ _ _ _ _ \<Rightarrow> fix_step FixDegree
         | FxUndef fk _ \<Rightarrow> fix_step fk)"

text \<open>The state: the entry node, the history of the heap (the current heap last), and the stack of
  every thread.\<close>

record ab_state =
  ab_entry :: addr
  ab_hist :: "ab_heap list"
  ab_thr :: "nat \<Rightarrow> frame list"

abbreviation cur :: "ab_state \<Rightarrow> ab_heap" where
  "cur s \<equiv> last (ab_hist s)"

abbreviation now :: "ab_state \<Rightarrow> nat" where
  "now s \<equiv> length (ab_hist s) - 1"

text \<open>The constructor: a sentinel with one pointer, to an empty leaf.\<close>

definition ab_init :: "nat \<Rightarrow> int \<Rightarrow> addr \<Rightarrow> addr \<Rightarrow> ab_node \<Rightarrow> ab_node \<Rightarrow> ab_state" where
  "ab_init dg anyKey ae al g1 g2 =
     (let entryLeft = g1\<lparr>ab_leaf := True, ab_weight := True, ab_size := 0, ab_searchKey := anyKey\<rparr>;
          entry = g2\<lparr>ab_leaf := False, ab_weight := True, ab_size := 1, ab_searchKey := anyKey,
                     ab_ptrs := (ab_ptrs g2)[0 := al]\<rparr>
      in \<lparr>ab_entry = ae, ab_hist = [[al \<mapsto> entryLeft, ae \<mapsto> entry]], ab_thr = \<lambda>t. []\<rparr>)"

inductive ab_step :: "nat \<Rightarrow> ab_state \<Rightarrow> ab_state \<Rightarrow> bool" for dg where
  ab_invoke: "ab_thr s t = [] \<Longrightarrow>
     ab_step dg s (s\<lparr>ab_thr := (ab_thr s)(t := [OpStart op (now s)])\<rparr>)"
| ab_go: "ab_thr s t = f # fs \<Longrightarrow> choice_ok dg (cur s) c \<Longrightarrow>
     frame_step dg (ab_entry s) (cur s) (now s) c f = Go gs \<Longrightarrow>
     ab_step dg s (s\<lparr>ab_thr := (ab_thr s)(t := gs @ fs)\<rparr>)"
| ab_commit: "ab_thr s t = f # fs \<Longrightarrow> choice_ok dg (cur s) c \<Longrightarrow>
     frame_step dg (ab_entry s) (cur s) (now s) c f = Commit h' gs \<Longrightarrow>
     ab_step dg s (s\<lparr>ab_hist := ab_hist s @ [h'], ab_thr := (ab_thr s)(t := gs @ fs)\<rparr>)"

inductive ab_reach :: "nat \<Rightarrow> ab_state \<Rightarrow> bool" for dg where
  ab_reach_init: "alloc_ok dg g1 \<Longrightarrow> alloc_ok dg g2 \<Longrightarrow> ae \<noteq> al \<Longrightarrow> ab_reach dg (ab_init dg anyKey ae al g1 g2)"
| ab_reach_step: "ab_reach dg s \<Longrightarrow> ab_step dg s s' \<Longrightarrow> ab_reach dg s'"

end
