(* ===== verification/AbShape.thy ===== *)
theory AbShape
  imports AbNode
begin

text \<open>
  The shape of a relaxed (a,b)-tree, free of the heap: the tree of the nodes below an address, its
  order, its weighted balance, its sizes and its contents, the path a search takes, and contexts (a
  tree with a hole), through which every update of the tree is the replacement of one subtree.
\<close>

subsection \<open>Trees\<close>

text \<open>
  A leaf with its address, search key, keys and values; an internal node with its address,
  weight, search key, keys and children.
\<close>

datatype tr =
    Lf addr int "int list" "nat list"
  | In addr bool int "int list" "tr list"

fun rt :: "tr \<Rightarrow> addr" where
  "rt (Lf x sk ks vs) = x"
| "rt (In x w sk ks cs) = x"

fun wt :: "tr \<Rightarrow> bool" where
  "wt (Lf x sk ks vs) = True"
| "wt (In x w sk ks cs) = w"

text \<open>The degree of a node, as its field \<open>size\<close> has it.\<close>

fun deg :: "tr \<Rightarrow> nat" where
  "deg (Lf x sk ks vs) = length ks"
| "deg (In x w sk ks cs) = length cs"

fun is_leaf :: "tr \<Rightarrow> bool" where
  "is_leaf (Lf x sk ks vs) = True"
| "is_leaf (In x w sk ks cs) = False"

fun addrs :: "tr \<Rightarrow> addr list" where
  "addrs (Lf x sk ks vs) = [x]"
| "addrs (In x w sk ks cs) = x # concat (map addrs cs)"

fun tcontent :: "tr \<Rightarrow> (int \<times> nat) list" where
  "tcontent (Lf x sk ks vs) = zip ks vs"
| "tcontent (In x w sk ks cs) = concat (map tcontent cs)"

lemma rt_in_addrs [simp]: "rt t \<in> set (addrs t)"
  by (cases t) auto

text \<open>Weighted balance: every leaf is below the same number of nodes of weight one, itself
  included.\<close>

fun bal :: "tr \<Rightarrow> nat \<Rightarrow> bool" where
  "bal (Lf x sk ks vs) d \<longleftrightarrow> d = 1"
| "bal (In x w sk ks cs) d \<longleftrightarrow> cs \<noteq> [] \<and> of_bool w \<le> d \<and> (\<forall>c\<in>set cs. bal c (d - of_bool w))"

text \<open>Sizes: at most \<open>b\<close> children or keys, at least one child, exactly two below a node
  of weight zero.\<close>

fun sized :: "nat \<Rightarrow> tr \<Rightarrow> bool" where
  "sized b (Lf x sk ks vs) \<longleftrightarrow> length vs = length ks \<and> length ks \<le> b"
| "sized b (In x w sk ks cs) \<longleftrightarrow>
     1 \<le> length cs \<and> length cs \<le> b \<and> (\<not> w \<longrightarrow> length cs = 2) \<and> (\<forall>c\<in>set cs. sized b c)"

text \<open>Order: the search key and the keys of every node are in the range between the two
  separators around it. A bound \<open>None\<close> is infinite.\<close>

definition in_rng :: "int option \<Rightarrow> int option \<Rightarrow> int \<Rightarrow> bool" where
  "in_rng lo hi k \<longleftrightarrow> (case lo of None \<Rightarrow> True | Some a \<Rightarrow> a \<le> k) \<and> (case hi of None \<Rightarrow> True | Some b \<Rightarrow> k < b)"

fun srt :: "int option \<Rightarrow> int option \<Rightarrow> tr \<Rightarrow> bool"
  and srts :: "int option \<Rightarrow> int list \<Rightarrow> tr list \<Rightarrow> int option \<Rightarrow> bool" where
  "srt lo hi (Lf x sk ks vs) \<longleftrightarrow> in_rng lo hi sk \<and> sorted_wrt (<) ks \<and> (\<forall>k\<in>set ks. in_rng lo hi k)"
| "srt lo hi (In x w sk ks cs) \<longleftrightarrow> in_rng lo hi sk \<and> srts lo ks cs hi"
| "srts lo [] [c] hi \<longleftrightarrow> srt lo hi c"
| "srts lo (k # ks) (c # cs) hi \<longleftrightarrow> srt lo (Some k) c \<and> srts (Some k) ks cs hi"
| "srts lo _ _ hi \<longleftrightarrow> False"

text \<open>The path of a search, and the value it finds.\<close>

fun spath :: "int \<Rightarrow> tr \<Rightarrow> addr list"
  and spaths :: "int \<Rightarrow> int list \<Rightarrow> tr list \<Rightarrow> addr list" where
  "spath k (Lf x sk ks vs) = [x]"
| "spath k (In x w sk ks cs) = x # spaths k ks cs"
| "spaths k ks [] = []"
| "spaths k [] (c # cs) = spath k c"
| "spaths k (s # ks) (c # cs) = (if k < s then spath k c else spaths k ks cs)"

fun tlookup :: "int \<Rightarrow> tr \<Rightarrow> nat option"
  and tlookups :: "int \<Rightarrow> int list \<Rightarrow> tr list \<Rightarrow> nat option" where
  "tlookup k (Lf x sk ks vs) = map_of (zip ks vs) k"
| "tlookup k (In x w sk ks cs) = tlookups k ks cs"
| "tlookups k ks [] = None"
| "tlookups k [] (c # cs) = tlookup k c"
| "tlookups k (s # ks) (c # cs) = (if k < s then tlookup k c else tlookups k ks cs)"

subsection \<open>Order\<close>

lemma srts_length: "srts lo ks cs hi \<Longrightarrow> length cs = Suc (length ks)"
proof (induction ks arbitrary: lo cs)
  case Nil
  then show ?case by (cases "(lo, [] :: int list, cs, hi)" rule: srts.cases) auto
next
  case (Cons k ks)
  then show ?case by (cases cs) auto
qed

lemma srts_append:
  "length cs1 = Suc (length ks1) \<Longrightarrow>
   srts lo (ks1 @ k # ks2) (cs1 @ cs2) hi \<longleftrightarrow> srts lo ks1 cs1 (Some k) \<and> srts (Some k) ks2 cs2 hi"
proof (induction ks1 arbitrary: lo cs1)
  case Nil
  then obtain c where "cs1 = [c]" by (metis length_0_conv length_Suc_conv list.size(3))
  then show ?case by simp
next
  case (Cons k1 ks1)
  then obtain c cs where "cs1 = c # cs" by (cases cs1) auto
  with Cons show ?case by simp
qed

lemma in_rng_trans: "in_rng lo (Some m) k \<Longrightarrow> in_rng (Some m) hi j \<Longrightarrow> in_rng lo hi k \<and> in_rng lo hi j"
  by (auto simp: in_rng_def split: option.splits)

lemma in_rng_split: "in_rng lo (Some m) k \<Longrightarrow> in_rng (Some m) hi j \<Longrightarrow> in_rng lo hi m"
  by (auto simp: in_rng_def split: option.splits)

text \<open>Every range is inhabited, by the search key of the node; so separators are strictly
  sorted and inside the range.\<close>

lemma srt_inhabited: "srt lo hi t \<Longrightarrow> \<exists>k. in_rng lo hi k"
  by (cases t) auto

lemma srts_inhabited: "srts lo ks cs hi \<Longrightarrow> \<exists>k. in_rng lo hi k"
proof (induction ks arbitrary: lo cs)
  case Nil
  then have "length cs = 1" using srts_length by fastforce
  then obtain c where "cs = [c]" by (metis One_nat_def length_0_conv length_Suc_conv)
  then show ?case using Nil srt_inhabited by auto
next
  case (Cons s ks)
  then obtain c cs' where cs: "cs = c # cs'" by (cases cs) auto
  then obtain k1 k2 where "in_rng lo (Some s) k1" "in_rng (Some s) hi k2"
    using Cons srt_inhabited by fastforce
  then show ?case using in_rng_trans by blast
qed

lemma srts_keys: "srts lo ks cs hi \<Longrightarrow> sorted_wrt (<) ks \<and> (\<forall>k\<in>set ks. in_rng lo hi k)"
proof (induction ks arbitrary: lo cs)
  case Nil
  then show ?case by simp
next
  case (Cons s ks)
  then obtain c cs' where cs: "cs = c # cs'" by (cases cs) auto
  have a: "srt lo (Some s) c" "srts (Some s) ks cs' hi" using Cons.prems cs by auto
  obtain k1 where k1: "in_rng lo (Some s) k1" using srt_inhabited [OF a(1)] by blast
  obtain k2 where k2: "in_rng (Some s) hi k2" using srts_inhabited [OF a(2)] by blast
  have IH: "sorted_wrt (<) ks" "\<forall>k\<in>set ks. in_rng (Some s) hi k" using Cons.IH [OF a(2)] by auto
  have "s < k" if k: "k \<in> set ks" for k
  proof -
    obtain ks1 ks2 where ks: "ks = ks1 @ k # ks2" using split_list [OF k] by blast
    define cs1 cs2 where "cs1 = take (Suc (length ks1)) cs'" and "cs2 = drop (Suc (length ks1)) cs'"
    have "length cs' = Suc (length ks)" by (rule srts_length [OF a(2)])
    then have "cs' = cs1 @ cs2" "length cs1 = Suc (length ks1)" by (auto simp: cs1_def cs2_def ks)
    then have "srts (Some s) ks1 cs1 (Some k)" using a(2) srts_append [of cs1 ks1] by (simp add: ks)
    then show ?thesis using srts_inhabited by (fastforce simp: in_rng_def)
  qed
  moreover have "in_rng lo hi s" by (rule in_rng_split [OF k1 k2])
  moreover have "in_rng lo hi k" if "k \<in> set ks" for k
    using IH(2) that in_rng_trans [OF k1] by blast
  ultimately show ?case using IH(1) by auto
qed

text \<open>Searching through a concatenation.\<close>

lemma spaths_append:
  assumes "length cs1 = Suc (length ks1)" "\<forall>k\<in>set ks1. k < s"
  shows "spaths k (ks1 @ s # ks2) (cs1 @ cs2) = (if k < s then spaths k ks1 cs1 else spaths k ks2 cs2)"
  using assms
proof (induction ks1 arbitrary: cs1)
  case Nil
  then obtain c where "cs1 = [c]" by (metis length_0_conv length_Suc_conv list.size(3))
  then show ?case by simp
next
  case (Cons k1 ks1)
  then obtain c cs where "cs1 = c # cs" by (cases cs1) auto
  with Cons show ?case by auto
qed

lemma tlookups_append:
  assumes "length cs1 = Suc (length ks1)" "\<forall>k\<in>set ks1. k < s"
  shows "tlookups k (ks1 @ s # ks2) (cs1 @ cs2) = (if k < s then tlookups k ks1 cs1 else tlookups k ks2 cs2)"
  using assms
proof (induction ks1 arbitrary: cs1)
  case Nil
  then obtain c where "cs1 = [c]" by (metis length_0_conv length_Suc_conv list.size(3))
  then show ?case by simp
next
  case (Cons k1 ks1)
  then obtain c cs where "cs1 = c # cs" by (cases cs1) auto
  with Cons show ?case by auto
qed

lemma spaths_nth:
  "length cs = Suc (length ks) \<Longrightarrow> spaths k ks cs = spath k (cs ! cidx k ks)"
proof (induction ks arbitrary: cs)
  case Nil
  then obtain c where "cs = [c]" by (metis length_0_conv length_Suc_conv list.size(3))
  then show ?case by simp
next
  case (Cons k1 ks1)
  then obtain c cs' where "cs = c # cs'" by (cases cs) auto
  with Cons show ?case by auto
qed

lemma tlookups_nth:
  "length cs = Suc (length ks) \<Longrightarrow> tlookups k ks cs = tlookup k (cs ! cidx k ks)"
proof (induction ks arbitrary: cs)
  case Nil
  then obtain c where "cs = [c]" by (metis length_0_conv length_Suc_conv list.size(3))
  then show ?case by simp
next
  case (Cons k1 ks1)
  then obtain c cs' where "cs = c # cs'" by (cases cs) auto
  with Cons show ?case by auto
qed

text \<open>The search finds what the contents hold.\<close>

lemma tcontent_rng:
  "srt lo hi t \<Longrightarrow> kv \<in> set (tcontent t) \<Longrightarrow> in_rng lo hi (fst kv)"
  "srts lo ks cs hi \<Longrightarrow> kv \<in> set (concat (map tcontent cs)) \<Longrightarrow> in_rng lo hi (fst kv)"
proof (induction lo hi t and lo ks cs hi rule: srt_srts.induct)
  case (1 lo hi x sk ks vs)
  then show ?case by (cases kv) (auto dest: set_zip_leftD)
next
  case (4 lo k ks c cs hi)
  then have s: "srt lo (Some k) c" "srts (Some k) ks cs hi" by auto
  obtain k1 where k1: "in_rng lo (Some k) k1" using srt_inhabited [OF s(1)] by blast
  obtain k2 where k2: "in_rng (Some k) hi k2" using srts_inhabited [OF s(2)] by blast
  have "in_rng lo (Some k) (fst kv) \<or> in_rng (Some k) hi (fst kv)" using 4 s by auto
  then show ?case using in_rng_trans k1 k2 by blast
qed auto

lemma tlookup_content:
  "srt lo hi t \<Longrightarrow> tlookup k t = map_of (tcontent t) k"
  "srts lo ks cs hi \<Longrightarrow> tlookups k ks cs = map_of (concat (map tcontent cs)) k"
proof (induction lo hi t and lo ks cs hi rule: srt_srts.induct)
  case (4 lo s ks c cs hi)
  then have s: "srt lo (Some s) c" "srts (Some s) ks cs hi" by auto
  show ?case
  proof (cases "k < s")
    case True
    have "k \<notin> fst ` set (concat (map tcontent cs))"
      using True tcontent_rng(2) [OF s(2)] by (force simp: in_rng_def)
    then have "map_of (concat (map tcontent cs)) k = None" by (simp only: map_of_eq_None_iff not_False_eq_True)
    then show ?thesis using True 4 s by (simp add: map_add_def split: option.splits)
  next
    case False
    have "k \<notin> fst ` set (tcontent c)"
      using False tcontent_rng(1) [OF s(1)] by (force simp: in_rng_def)
    then have "map_of (tcontent c) k = None" by (simp only: map_of_eq_None_iff not_False_eq_True)
    then show ?thesis using False 4 s by (simp add: map_add_def split: option.splits)
  qed
qed auto

lemma sorted_tcontent:
  "srt lo hi t \<Longrightarrow> sized b t \<Longrightarrow> sorted_wrt (<) (map fst (tcontent t))"
  "srts lo ks cs hi \<Longrightarrow> \<forall>c\<in>set cs. sized b c \<Longrightarrow> sorted_wrt (<) (map fst (concat (map tcontent cs)))"
proof (induction lo hi t and lo ks cs hi rule: srt_srts.induct)
  case (4 lo s ks c cs hi)
  then have s: "srt lo (Some s) c" "srts (Some s) ks cs hi" by auto
  have "x < y" if "x \<in> set (map fst (tcontent c))" "y \<in> set (map fst (concat (map tcontent cs)))" for x y
    using that tcontent_rng(1) [OF s(1)] tcontent_rng(2) [OF s(2)] by (force simp: in_rng_def)
  then show ?case using 4 s by (simp add: sorted_wrt_append)
qed auto

subsection \<open>Contexts\<close>

text \<open>
  A context is the list of the nodes above a hole, the parent first: address, weight, search key,
  then the keys and children left of the hole and those right of it.
\<close>

datatype fr = Fr addr bool int "int list" "tr list" "int list" "tr list"

type_synonym ctx = "fr list"

fun faddr :: "fr \<Rightarrow> addr" where
  "faddr (Fr x w sk kl cl kr cr) = x"

fun plug :: "ctx \<Rightarrow> tr \<Rightarrow> tr" where
  "plug [] u = u"
| "plug (Fr x w sk kl cl kr cr # C) u = plug C (In x w sk (kl @ kr) (cl @ u # cr))"

text \<open>The range of the hole, its depth, and what the nodes around it have to satisfy.\<close>

definition lob :: "int option \<Rightarrow> int list \<Rightarrow> int option" where
  "lob lo kl = (if kl = [] then lo else Some (last kl))"

definition hib :: "int option \<Rightarrow> int list \<Rightarrow> int option" where
  "hib hi kr = (if kr = [] then hi else Some (hd kr))"

fun clo :: "ctx \<Rightarrow> int option" where
  "clo [] = None"
| "clo (Fr x w sk kl cl kr cr # C) = lob (clo C) kl"

fun chi :: "ctx \<Rightarrow> int option" where
  "chi [] = None"
| "chi (Fr x w sk kl cl kr cr # C) = hib (chi C) kr"

fun srtl :: "int option \<Rightarrow> int list \<Rightarrow> tr list \<Rightarrow> bool" where
  "srtl lo [] [] \<longleftrightarrow> True"
| "srtl lo (k # ks) (c # cs) \<longleftrightarrow> srt lo (Some k) c \<and> srtl (Some k) ks cs"
| "srtl lo _ _ \<longleftrightarrow> False"

fun srtr :: "int list \<Rightarrow> tr list \<Rightarrow> int option \<Rightarrow> bool" where
  "srtr [] [] hi \<longleftrightarrow> True"
| "srtr (k # ks) (c # cs) hi \<longleftrightarrow> srt (Some k) (hib hi ks) c \<and> srtr ks cs hi"
| "srtr _ _ hi \<longleftrightarrow> False"

fun csrt :: "ctx \<Rightarrow> bool" where
  "csrt [] \<longleftrightarrow> True"
| "csrt (Fr x w sk kl cl kr cr # C) \<longleftrightarrow>
     csrt C \<and> in_rng (clo C) (chi C) sk \<and> srtl (clo C) kl cl \<and> srtr kr cr (chi C)"

lemma srtl_length: "srtl lo kl cl \<Longrightarrow> length cl = length kl"
  by (induction lo kl cl rule: srtl.induct) auto

lemma srtr_length: "srtr kr cr hi \<Longrightarrow> length cr = length kr"
  by (induction kr cr hi rule: srtr.induct) auto

lemma srts_right:
  "length ms = Suc (length km) \<Longrightarrow> length cr = length kr \<Longrightarrow>
   srts lo (km @ kr) (ms @ cr) hi \<longleftrightarrow> srts lo km ms (hib hi kr) \<and> srtr kr cr hi"
proof (induction kr arbitrary: lo km ms cr)
  case Nil
  then show ?case by (simp add: hib_def)
next
  case (Cons k kr)
  then obtain c cr' where cr: "cr = c # cr'" by (cases cr) auto
  have "srts lo (km @ k # kr) (ms @ cr) hi \<longleftrightarrow> srts lo km ms (Some k) \<and> srts (Some k) kr cr hi"
    by (rule srts_append [OF Cons.prems(1)])
  moreover have "srts (Some k) kr cr hi \<longleftrightarrow> srt (Some k) (hib hi kr) c \<and> srtr kr cr' hi"
    using Cons.IH [where lo = "Some k" and km = "[]" and ms = "[c]" and cr = cr'] Cons.prems(2) cr by simp
  ultimately show ?case by (simp add: hib_def cr)
qed

lemma srts_mid:
  "length cl = length kl \<Longrightarrow> length ms = Suc (length km) \<Longrightarrow> length cr = length kr \<Longrightarrow>
   srts lo (kl @ km @ kr) (cl @ ms @ cr) hi \<longleftrightarrow>
     srtl lo kl cl \<and> srts (lob lo kl) km ms (hib hi kr) \<and> srtr kr cr hi"
proof (induction kl arbitrary: lo cl)
  case Nil
  then show ?case using srts_right by (simp add: lob_def)
next
  case (Cons k kl)
  then obtain c cl' where cl: "cl = c # cl'" by (cases cl) auto
  have "lob (Some k) kl = lob lo (k # kl)" by (simp add: lob_def)
  then show ?case using Cons cl by simp
qed

lemma srts_hole:
  "length cl = length kl \<Longrightarrow> length cr = length kr \<Longrightarrow>
   srts lo (kl @ kr) (cl @ u # cr) hi \<longleftrightarrow> srtl lo kl cl \<and> srt (lob lo kl) (hib hi kr) u \<and> srtr kr cr hi"
  using srts_mid [of cl kl "[u]" "[]" cr kr lo hi] by simp

text \<open>A frame is well-formed when it has as many keys as children on each side.\<close>

fun fr_ok :: "fr \<Rightarrow> bool" where
  "fr_ok (Fr x w sk kl cl kr cr) \<longleftrightarrow> length cl = length kl \<and> length cr = length kr"

lemma srt_plug:
  "\<forall>f\<in>set C. fr_ok f \<Longrightarrow> srt None None (plug C u) \<longleftrightarrow> csrt C \<and> srt (clo C) (chi C) u"
proof (induction C arbitrary: u)
  case Nil
  then show ?case by simp
next
  case (Cons f C)
  obtain x w sk kl cl kr cr where f: "f = Fr x w sk kl cl kr cr" by (cases f)
  then show ?case using Cons by (auto simp: srts_hole)
qed

lemma csrt_ok: "csrt C \<Longrightarrow> \<forall>f\<in>set C. fr_ok f"
  by (induction C rule: csrt.induct) (auto dest: srtl_length srtr_length)

fun cdepth :: "nat \<Rightarrow> ctx \<Rightarrow> nat" where
  "cdepth d [] = d"
| "cdepth d (Fr x w sk kl cl kr cr # C) = cdepth d C - of_bool w"

fun cbal :: "nat \<Rightarrow> ctx \<Rightarrow> bool" where
  "cbal d [] \<longleftrightarrow> True"
| "cbal d (Fr x w sk kl cl kr cr # C) \<longleftrightarrow> cbal d C \<and> of_bool w \<le> cdepth d C
     \<and> (\<forall>c\<in>set cl \<union> set cr. bal c (cdepth d C - of_bool w))"

lemma bal_plug: "bal (plug C u) d \<longleftrightarrow> cbal d C \<and> bal u (cdepth d C)"
  by (induction C u rule: plug.induct) auto

fun csized :: "nat \<Rightarrow> ctx \<Rightarrow> bool" where
  "csized b [] \<longleftrightarrow> True"
| "csized b (Fr x w sk kl cl kr cr # C) \<longleftrightarrow> csized b C \<and> length cl + length cr + 1 \<le> b
     \<and> (\<not> w \<longrightarrow> length cl + length cr = 1) \<and> (\<forall>c\<in>set cl \<union> set cr. sized b c)"

lemma sized_plug: "sized b (plug C u) \<longleftrightarrow> csized b C \<and> sized b u"
  by (induction C u rule: plug.induct) auto

fun caddrs :: "ctx \<Rightarrow> addr list" where
  "caddrs [] = []"
| "caddrs (Fr x w sk kl cl kr cr # C) = x # concat (map addrs (cl @ cr)) @ caddrs C"

lemma mset_addrs_plug: "mset (addrs (plug C u)) = mset (caddrs C) + mset (addrs u)"
  by (induction C u rule: plug.induct) (simp_all add: ac_simps)

lemma addrs_plug [simp]: "set (addrs (plug C u)) = set (caddrs C) \<union> set (addrs u)"
  using arg_cong [OF mset_addrs_plug, of set_mset] by simp

lemma distinct_plug: "distinct (addrs (plug C u)) \<longleftrightarrow> distinct (caddrs C @ addrs u)"
  by (rule mset_eq_imp_distinct_iff) (simp add: mset_addrs_plug)

fun cpre :: "ctx \<Rightarrow> (int \<times> nat) list" where
  "cpre [] = []"
| "cpre (Fr x w sk kl cl kr cr # C) = cpre C @ concat (map tcontent cl)"

fun cpost :: "ctx \<Rightarrow> (int \<times> nat) list" where
  "cpost [] = []"
| "cpost (Fr x w sk kl cl kr cr # C) = concat (map tcontent cr) @ cpost C"

lemma tcontent_plug: "tcontent (plug C u) = cpre C @ tcontent u @ cpost C"
  by (induction C u rule: plug.induct) simp_all

subsection \<open>Paths through a context\<close>

fun cthru :: "int \<Rightarrow> ctx \<Rightarrow> bool" where
  "cthru k [] \<longleftrightarrow> True"
| "cthru k (Fr x w sk kl cl kr cr # C) \<longleftrightarrow> cthru k C \<and> cidx k (kl @ kr) = length cl"

definition cpath :: "ctx \<Rightarrow> addr list" where
  "cpath C = rev (map faddr C)"

lemma cidx_eq_iff:
  "sorted_wrt (<) (kl @ kr) \<Longrightarrow>
   cidx k (kl @ kr) = length kl \<longleftrightarrow> (\<forall>s\<in>set kl. s \<le> k) \<and> (\<forall>s\<in>set kr. k < s)"
proof (induction kl)
  case Nil
  then show ?case by (cases kr) auto
next
  case (Cons s kl)
  then show ?case by auto
qed

lemma spath_plug:
  "\<forall>f\<in>set C. fr_ok f \<Longrightarrow> cthru k C \<Longrightarrow> spath k (plug C u) = cpath C @ spath k u"
proof (induction C arbitrary: u)
  case Nil
  then show ?case by (simp add: cpath_def)
next
  case (Cons f C)
  obtain x w sk kl cl kr cr where f: "f = Fr x w sk kl cl kr cr" by (cases f)
  have "spaths k (kl @ kr) (cl @ u # cr) = spath k u"
    using Cons.prems f spaths_nth [of "cl @ u # cr" "kl @ kr" k] nth_append_length [of cl u cr] by simp
  then show ?case using Cons f by (simp add: cpath_def)
qed

lemma spath_plug_miss:
  "\<forall>f\<in>set C. fr_ok f \<Longrightarrow> \<not> cthru k C \<Longrightarrow> spath k (plug C u) = spath k (plug C u')"
proof (induction C arbitrary: u u')
  case Nil
  then show ?case by simp
next
  case (Cons f C)
  obtain x w sk kl cl kr cr where f: "f = Fr x w sk kl cl kr cr" by (cases f)
  show ?case
  proof (cases "cthru k C")
    case True
    then have "cidx k (kl @ kr) \<noteq> length cl" using Cons.prems f by simp
    then have "(cl @ u # cr) ! cidx k (kl @ kr) = (cl @ u' # cr) ! cidx k (kl @ kr)"
      by (simp add: nth_append nth_Cons')
    then have "spaths k (kl @ kr) (cl @ u # cr) = spaths k (kl @ kr) (cl @ u' # cr)"
      using Cons.prems f spaths_nth [of _ "kl @ kr" k] by simp
    then show ?thesis using True Cons.prems f spath_plug [of C k] by simp
  next
    case False
    then show ?thesis using Cons f by simp
  qed
qed

lemma tlookup_plug:
  "\<forall>f\<in>set C. fr_ok f \<Longrightarrow> cthru k C \<Longrightarrow> tlookup k (plug C u) = tlookup k u"
proof (induction C arbitrary: u)
  case Nil
  then show ?case by simp
next
  case (Cons f C)
  obtain x w sk kl cl kr cr where f: "f = Fr x w sk kl cl kr cr" by (cases f)
  have "tlookups k (kl @ kr) (cl @ u # cr) = tlookup k u"
    using Cons.prems f tlookups_nth [of "cl @ u # cr" "kl @ kr" k] nth_append_length [of cl u cr] by simp
  then show ?case using Cons f by simp
qed

lemma tlookup_plug_miss:
  "\<forall>f\<in>set C. fr_ok f \<Longrightarrow> \<not> cthru k C \<Longrightarrow> tlookup k (plug C u) = tlookup k (plug C u')"
proof (induction C arbitrary: u u')
  case Nil
  then show ?case by simp
next
  case (Cons f C)
  obtain x w sk kl cl kr cr where f: "f = Fr x w sk kl cl kr cr" by (cases f)
  show ?case
  proof (cases "cthru k C")
    case True
    then have "cidx k (kl @ kr) \<noteq> length cl" using Cons.prems f by simp
    then have "(cl @ u # cr) ! cidx k (kl @ kr) = (cl @ u' # cr) ! cidx k (kl @ kr)"
      by (simp add: nth_append nth_Cons')
    then have "tlookups k (kl @ kr) (cl @ u # cr) = tlookups k (kl @ kr) (cl @ u' # cr)"
      using Cons.prems f tlookups_nth [of _ "kl @ kr" k] by simp
    then show ?thesis using True Cons.prems f tlookup_plug [of C k] by simp
  next
    case False
    then show ?thesis using Cons f by simp
  qed
qed

end
