(* ===== verification/AbShape_Rebal.thy ===== *)
theory AbShape_Rebal
  imports AbShape
begin

text \<open>
  The rebalancing steps and the leaf updates of the relaxed (a,b)-tree on its shape: each keeps the
  order, the weighted balance, the sizes and the contents, and leaves the path of every search the
  same but for the nodes it removes and creates.
\<close>

subsection \<open>The hole on the path of a search\<close>

lemma cthru_rng:
  "csrt C \<Longrightarrow> cthru k C \<Longrightarrow> srt (clo C) (chi C) u \<Longrightarrow> in_rng (clo C) (chi C) k"
proof (induction C arbitrary: u)
  case Nil
  then show ?case by (simp add: in_rng_def)
next
  case (Cons f C)
  obtain x w sk kl cl kr cr where f: "f = Fr x w sk kl cl kr cr" by (cases f)
  have ok: "length cl = length kl" "length cr = length kr" using csrt_ok [OF Cons.prems(1)] f by auto
  have all: "srts (clo C) (kl @ kr) (cl @ u # cr) (chi C)"
    using Cons.prems ok f by (simp add: srts_hole)
  have k: "in_rng (clo C) (chi C) k"
    by (rule Cons.IH [of "In x w sk (kl @ kr) (cl @ u # cr)"]) (use Cons.prems f all in auto)
  have "sorted_wrt (<) (kl @ kr)" using srts_keys [OF all] by simp
  then have "(\<forall>s\<in>set kl. s \<le> k) \<and> (\<forall>s\<in>set kr. k < s)"
    using cidx_eq_iff [of kl kr k] Cons.prems f ok by simp
  then show ?case using k f by (auto simp: in_rng_def lob_def hib_def)
qed

lemma spaths_mid_ex:
  assumes len: "length cl = length kl" "length cr = length kr"
  shows "\<exists>B A. \<forall>km ms. length ms = Suc (length km) \<longrightarrow> sorted_wrt (<) (kl @ km @ kr) \<longrightarrow>
     spaths k (kl @ km @ kr) (cl @ ms @ cr) = (if B then spaths k km ms else A)"
proof -
  consider (in_) "(\<forall>s\<in>set kl. s \<le> k) \<and> (\<forall>s\<in>set kr. k < s)" | (left) "\<exists>s\<in>set kl. k < s"
    | (right) "\<forall>s\<in>set kl. s \<le> k" "\<exists>s\<in>set kr. s \<le> k"
    by (meson linorder_not_less)
  then show ?thesis
  proof cases
    case in_
    have "spaths k (kl @ km @ kr) (cl @ ms @ cr) = spaths k km ms"
      if l: "length ms = Suc (length km)" for km ms
    proof -
      have "takeWhile (\<lambda>s. \<not> k < s) (kl @ km @ kr) = kl @ takeWhile (\<lambda>s. \<not> k < s) (km @ kr)"
        using in_ by (intro takeWhile_append2) auto
      moreover have "takeWhile (\<lambda>s. \<not> k < s) (km @ kr) = takeWhile (\<lambda>s. \<not> k < s) km"
      proof (cases kr)
        case (Cons s kr')
        then show ?thesis using in_ by (simp add: takeWhile_append)
            (metis takeWhile_eq_all_conv)
      qed simp
      moreover have "cidx k km < length ms" using l length_takeWhile_le [of _ km] by (simp add: less_Suc_eq_le)
      ultimately show ?thesis
        using l len by (simp add: spaths_nth nth_append)
    qed
    then have "\<forall>km ms. length ms = Suc (length km) \<longrightarrow> sorted_wrt (<) (kl @ km @ kr) \<longrightarrow>
      spaths k (kl @ km @ kr) (cl @ ms @ cr) = (if True then spaths k km ms else [])" by simp
    then show ?thesis by blast
  next
    case left
    have "takeWhile (\<lambda>s. \<not> k < s) kl \<noteq> kl" using left by (simp add: takeWhile_eq_all_conv)
    then have lt: "cidx k kl < length kl"
      by (metis takeWhile_eq_take length_takeWhile_le le_neq_implies_less take_all order_refl)
    have "spaths k (kl @ km @ kr) (cl @ ms @ cr) = spath k (cl ! cidx k kl)"
      if l: "length ms = Suc (length km)" for km ms
    proof -
      have "takeWhile (\<lambda>s. \<not> k < s) (kl @ km @ kr) = takeWhile (\<lambda>s. \<not> k < s) kl"
        using left by (auto intro: takeWhile_append1)
      then show ?thesis using l len lt by (simp add: spaths_nth nth_append)
    qed
    then have "\<forall>km ms. length ms = Suc (length km) \<longrightarrow> sorted_wrt (<) (kl @ km @ kr) \<longrightarrow>
      spaths k (kl @ km @ kr) (cl @ ms @ cr) = (if False then spaths k km ms else spath k (cl ! cidx k kl))" by simp
    then show ?thesis by blast
  next
    case right
    have pos: "0 < cidx k kr" if "sorted_wrt (<) (kl @ km @ kr)" for km
      using right(2) that by (cases kr) (auto simp: sorted_wrt_append)
    have "spaths k (kl @ km @ kr) (cl @ ms @ cr) = spath k (cr ! (cidx k kr - 1))"
      if l: "length ms = Suc (length km)" and s: "sorted_wrt (<) (kl @ km @ kr)" for km ms
    proof -
      have "\<forall>s\<in>set km. s \<le> k" using right(2) s by (fastforce simp: sorted_wrt_append)
      then have "takeWhile (\<lambda>s. \<not> k < s) (kl @ km @ kr) = kl @ km @ takeWhile (\<lambda>s. \<not> k < s) kr"
        using right(1) by (subst takeWhile_append2; (subst takeWhile_append2)?) auto
      then show ?thesis using l len pos [OF s] by (simp add: spaths_nth nth_append)
    qed
    then have "\<forall>km ms. length ms = Suc (length km) \<longrightarrow> sorted_wrt (<) (kl @ km @ kr) \<longrightarrow>
      spaths k (kl @ km @ kr) (cl @ ms @ cr) = (if False then spaths k km ms else spath k (cr ! (cidx k kr - 1)))" by simp
    then show ?thesis by blast
  qed
qed

subsection \<open>Replacing the middle of a node\<close>

text \<open>The path of \<open>k\<close> is the same in two trees but for the addresses in \<open>Z\<close>.\<close>

definition same_path :: "addr set \<Rightarrow> int \<Rightarrow> tr \<Rightarrow> tr \<Rightarrow> bool" where
  "same_path Z k t t' \<longleftrightarrow> filter (\<lambda>x. x \<notin> Z) (spath k t) = filter (\<lambda>x. x \<notin> Z) (spath k t')"

definition same_paths :: "addr set \<Rightarrow> int \<Rightarrow> int list \<Rightarrow> tr list \<Rightarrow> int list \<Rightarrow> tr list \<Rightarrow> bool" where
  "same_paths Z k ks cs ks' cs' \<longleftrightarrow>
     filter (\<lambda>x. x \<notin> Z) (spaths k ks cs) = filter (\<lambda>x. x \<notin> Z) (spaths k ks' cs')"

text \<open>
  One subtree may replace another: order, balance, sizes and contents, for the range \<open>lo\<close>,
  \<open>hi\<close> of the hole.
\<close>

definition shape_le :: "nat \<Rightarrow> int option \<Rightarrow> int option \<Rightarrow> addr set \<Rightarrow> tr \<Rightarrow> tr \<Rightarrow> bool" where
  "shape_le b lo hi Z u u' \<longleftrightarrow> srt lo hi u' \<and> sized b u' \<and> (\<forall>d. bal u d \<longrightarrow> bal u' d)
     \<and> tcontent u' = tcontent u \<and> (\<forall>k. same_path Z k u u')"

lemma mid_replace:
  assumes u: "srt lo hi (In p True sp (kl @ km @ kr) (cl @ ms @ cr))" 
      "sized b (In p True sp (kl @ km @ kr) (cl @ ms @ cr))"
    and len: "length cl = length kl" "length cr = length kr" "length ms = Suc (length km)" "length ms' = Suc (length km')"
    and s: "srts (lob lo kl) km ms (hib hi kr) \<Longrightarrow> srts (lob lo kl) km' ms' (hib hi kr)"
    and sz: "length cl + length ms' + length cr \<le> b" "\<forall>c\<in>set ms'. sized b c"
    and bl: "\<And>d. \<forall>c\<in>set ms. bal c d \<Longrightarrow> \<forall>c\<in>set ms'. bal c d"
    and ct: "concat (map tcontent ms') = concat (map tcontent ms)"
    and pth: "\<And>k. same_paths Z k km ms km' ms'"
    and n: "in_rng lo hi sn" "p \<in> Z" "n \<in> Z"
  shows "shape_le b lo hi Z (In p True sp (kl @ km @ kr) (cl @ ms @ cr)) (In n True sn (kl @ km' @ kr) (cl @ ms' @ cr))"
proof -
  let ?u = "In p True sp (kl @ km @ kr) (cl @ ms @ cr)"
  let ?u' = "In n True sn (kl @ km' @ kr) (cl @ ms' @ cr)"
  have m: "srtl lo kl cl" "srts (lob lo kl) km ms (hib hi kr)" "srtr kr cr hi"
    using u(1) len by (simp_all add: srts_mid)
  have s': "srts lo (kl @ km' @ kr) (cl @ ms' @ cr) hi"
    using m s [OF m(2)] len by (simp add: srts_mid)
  have 1: "srt lo hi ?u'" using s' n by simp
  have 2: "sized b ?u'" using u(2) sz len by auto
  have 3: "bal ?u d \<longrightarrow> bal ?u' d" for d using bl [of "d - 1"] len(4) by auto
  have 4: "tcontent ?u' = tcontent ?u" using ct by simp
  have 5: "same_path Z k ?u ?u'" for k
  proof -
    have so: "sorted_wrt (<) (kl @ km @ kr)" "sorted_wrt (<) (kl @ km' @ kr)"
      using srts_keys s' u(1) by auto
    obtain B A where BA: "\<And>km ms. length ms = Suc (length km) \<Longrightarrow> sorted_wrt (<) (kl @ km @ kr) \<Longrightarrow>
        spaths k (kl @ km @ kr) (cl @ ms @ cr) = (if B then spaths k km ms else A)"
      using spaths_mid_ex [OF len(1,2)] by blast
    show ?thesis
      using BA [OF len(3) so(1)] BA [OF len(4) so(2)] pth [of k] n(2,3)
      by (simp add: same_path_def same_paths_def)
  qed
  show ?thesis using 1 2 3 4 5 by (simp only: shape_le_def) blast
qed

lemma absorb_shape:
  assumes u: "srt lo hi (In p True sp (kl @ kr) (cl @ In l False sl lk lc # cr))" 
      "sized b (In p True sp (kl @ kr) (cl @ In l False sl lk lc # cr))"
    and len: "length cl = length kl" "length cr = length kr"
    and sz: "length cl + length lc + length cr \<le> b" and Z: "p \<in> Z" "l \<in> Z" "n \<in> Z"
  shows "shape_le b lo hi Z (In p True sp (kl @ kr) (cl @ In l False sl lk lc # cr)) (In n True ((kl @ lk @ kr) ! 0) (kl @ lk @ kr) (cl @ lc @ cr))"
proof -
  have l2: "length lc = 2" "\<forall>c\<in>set lc. sized b c" using u(2) by auto
  have m: "srts (lob lo kl) lk lc (hib hi kr)" "srtl lo kl cl" "srtr kr cr hi" using u(1) len by (auto simp: srts_hole)
  have ll: "length lc = Suc (length lk)" by (rule srts_length [OF m(1)])
  have "srts lo (kl @ lk @ kr) (cl @ lc @ cr) hi" using m len ll by (simp add: srts_mid)
  then have rng: "in_rng lo hi ((kl @ lk @ kr) ! 0)"
    using srts_keys l2 ll by (metis One_nat_def append_is_Nil_conv length_0_conv length_greater_0_conv nat.simps(3) nth_mem numeral_2_eq_2 old.nat.inject)
  have "shape_le b lo hi Z (In p True sp (kl @ [] @ kr) (cl @ [In l False sl lk lc] @ cr))
      (In n True ((kl @ lk @ kr) ! 0) (kl @ lk @ kr) (cl @ lc @ cr))"
    by (rule mid_replace) (use u len sz ll l2 rng Z in \<open>auto simp: same_paths_def\<close>)
  then show ?thesis by simp
qed

text \<open>A node cut into two below a new parent; \<open>w\<close> is the weight of the parent.\<close>

lemma split_shape:
  fixes a c n :: addr
  assumes u: "srts lo K Cs hi" "\<forall>c\<in>set Cs. sized b c"
    and m: "1 \<le> m" "m < length Cs" "m \<le> b" "length Cs - m \<le> b" "2 \<le> b"
    and s: "in_rng lo (Some (K ! (m - 1))) sa" "in_rng (Some (K ! (m - 1))) hi sb" "in_rng lo hi sn"
  defines "A \<equiv> In a True sa (take (m - 1) K) (take m Cs)" and "B \<equiv> In c True sb (drop m K) (drop m Cs)"
  shows "srt lo hi (In n w sn [K ! (m - 1)] [A, B])" "sized b (In n w sn [K ! (m - 1)] [A, B])"
    "tcontent (In n w sn [K ! (m - 1)] [A, B]) = concat (map tcontent Cs)"
    "\<And>d. \<forall>c\<in>set Cs. bal c d \<Longrightarrow> bal (In n w sn [K ! (m - 1)] [A, B]) (Suc d + of_bool w)"
    "n \<in> Z \<Longrightarrow> a \<in> Z \<Longrightarrow> c \<in> Z \<Longrightarrow> filter (\<lambda>x. x \<notin> Z) (spath k (In n w sn [K ! (m - 1)] [A, B]))
        = filter (\<lambda>x. x \<notin> Z) (spaths k K Cs)"
proof -
  have len: "length Cs = Suc (length K)" by (rule srts_length [OF u(1)])
  let ?k = "K ! (m - 1)"
  have K: "K = take (m - 1) K @ ?k # drop m K"
    using m len by (metis One_nat_def Suc_less_eq Suc_pred id_take_nth_drop le_eq_less_or_eq less_eq_Suc_le)
  have C: "Cs = take m Cs @ drop m Cs" by simp
  have l1: "length (take m Cs) = Suc (length (take (m - 1) K))" using m len by simp
  have s2: "srts lo (take (m - 1) K) (take m Cs) (Some ?k)" "srts (Some ?k) (drop m K) (drop m Cs) hi"
    using u(1) srts_append [OF l1, of lo ?k "drop m K" "drop m Cs" hi] K C by metis+
  show "srt lo hi (In n w sn [?k] [A, B])" using s2 s by (simp add: A_def B_def)
  show "sized b (In n w sn [?k] [A, B])"
    using u(2) m by (auto simp: A_def B_def dest: in_set_takeD in_set_dropD)
  have "concat (map tcontent (take m Cs)) @ concat (map tcontent (drop m Cs)) = concat (map tcontent Cs)"
    by (metis C concat_append map_append)
  then show "tcontent (In n w sn [?k] [A, B]) = concat (map tcontent Cs)" by (simp add: A_def B_def)
  show "bal (In n w sn [?k] [A, B]) (Suc d + of_bool w)" if "\<forall>c\<in>set Cs. bal c d" for d
    using that m by (auto simp: A_def B_def dest: in_set_takeD in_set_dropD)
  have "sorted_wrt (<) (take (m - 1) K @ ?k # drop m K)" using srts_keys [OF u(1)] K by simp
  then have "spaths k K Cs = (if k < ?k then spaths k (take (m - 1) K) (take m Cs) else spaths k (drop m K) (drop m Cs))"
    using spaths_append [OF l1, of ?k k "drop m K" "drop m Cs"] K by (simp add: sorted_wrt_append)
  then show "filter (\<lambda>x. x \<notin> Z) (spath k (In n w sn [?k] [A, B])) = filter (\<lambda>x. x \<notin> Z) (spaths k K Cs)"
    if "n \<in> Z" "a \<in> Z" "c \<in> Z"
    using that by (simp add: A_def B_def)
qed

subsection \<open>Siblings\<close>

text \<open>The contents of two siblings in one node, and a node cut into two siblings.\<close>

fun join_sib :: "addr \<Rightarrow> int \<Rightarrow> int \<Rightarrow> tr \<Rightarrow> tr \<Rightarrow> tr" where
  "join_sib q sq k (In a wa sa ka ca) (In c wc sc kc cc) = In q True sq (ka @ k # kc) (ca @ cc)"
| "join_sib q sq k (Lf a sa ka va) (Lf c sc kc vc) = Lf q sq (ka @ kc) (va @ vc)"
| "join_sib q sq k L S = L"

fun cut_left :: "addr \<Rightarrow> nat \<Rightarrow> tr \<Rightarrow> tr" where
  "cut_left q m (In x w sk ks cs) = In q True (ks ! 0) (take (m - 1) ks) (take m cs)"
| "cut_left q m (Lf x sk ks vs) = Lf q (ks ! 0) (take m ks) (take m vs)"

fun cut_right :: "addr \<Rightarrow> nat \<Rightarrow> tr \<Rightarrow> tr" where
  "cut_right q m (In x w sk ks cs) = In q True (ks ! m) (drop m ks) (drop m cs)"
| "cut_right q m (Lf x sk ks vs) = Lf q (ks ! m) (drop m ks) (drop m vs)"

fun cut_key :: "nat \<Rightarrow> tr \<Rightarrow> int" where
  "cut_key m (In x w sk ks cs) = ks ! (m - 1)"
| "cut_key m (Lf x sk ks vs) = ks ! m"

fun skey :: "tr \<Rightarrow> int" where
  "skey (Lf x sk ks vs) = sk"
| "skey (In x w sk ks cs) = sk"

lemma srt_skey: "srt lo hi t \<Longrightarrow> in_rng lo hi (skey t)"
  by (cases t) auto

lemma join_sib_shape:
  fixes q :: addr
  assumes s: "srt lo (Some k) L" "srt (Some k) hi S" and l: "is_leaf L = is_leaf S" and w: "wt L" "wt S"
    and sz: "sized b L" "sized b S" and sq: "sq = skey L \<or> sq = skey S"
  defines "J \<equiv> join_sib q sq k L S"
  shows "srt lo hi J" "deg L + deg S \<le> b' \<Longrightarrow> b \<le> b' \<Longrightarrow> sized b' J" "tcontent J = tcontent L @ tcontent S"
    "bal L d \<Longrightarrow> bal S d \<Longrightarrow> bal J d" "deg J = deg L + deg S" "wt J" "is_leaf J = is_leaf L" "rt J = q"
    "rt L \<in> Z \<Longrightarrow> rt S \<in> Z \<Longrightarrow> q \<in> Z \<Longrightarrow> filter (\<lambda>x. x \<notin> Z) (spath j J) = filter (\<lambda>x. x \<notin> Z) (spaths j [k] [L, S])"
proof -
  have sqr: "in_rng lo hi sq" using srt_skey [OF s(1)] srt_skey [OF s(2)] sq in_rng_trans by blast
  have sz': "sized b' t" if "sized b t" "b \<le> b'" for t
    using that by (induction t) auto
  have "srt lo hi J \<and> (deg L + deg S \<le> b' \<longrightarrow> b \<le> b' \<longrightarrow> sized b' J) \<and> tcontent J = tcontent L @ tcontent S \<and>
      (bal L d \<longrightarrow> bal S d \<longrightarrow> bal J d) \<and> deg J = deg L + deg S \<and> wt J \<and> is_leaf J = is_leaf L \<and> rt J = q \<and>
      (rt L \<in> Z \<longrightarrow> rt S \<in> Z \<longrightarrow> q \<in> Z \<longrightarrow> filter (\<lambda>x. x \<notin> Z) (spath j J) = filter (\<lambda>x. x \<notin> Z) (spaths j [k] [L, S]))"
  proof (cases L)
    case L: (Lf a sa ka va)
    then obtain c sc kc vc where S: "S = Lf c sc kc vc" using l by (cases S) auto
    have "sorted_wrt (<) (ka @ kc)" using s L S by (force simp: sorted_wrt_append in_rng_def)
    moreover have "\<forall>x\<in>set (ka @ kc). in_rng lo hi x"
      using s L S in_rng_trans [of lo k sa hi] in_rng_trans [of lo k _ hi sc] in_rng_trans [of lo k sa hi] by (auto; blast)
    ultimately show ?thesis
      using L S sqr sz by (auto simp: J_def)
  next
    case L: (In a wa sa ka ca)
    then obtain c wc sc kc cc where S: "S = In c wc sc kc cc" using l by (cases S) auto
    have len: "length ca = Suc (length ka)" using s L srts_length by auto
    have ss: "srts lo (ka @ k # kc) (ca @ cc) hi" using s L S len by (simp add: srts_append)
    have "\<forall>x\<in>set ka. x < k" using srts_keys [OF ss] by (simp add: sorted_wrt_append)
    then have "spaths j (ka @ k # kc) (ca @ cc) = (if j < k then spaths j ka ca else spaths j kc cc)"
      using len by (rule spaths_append [rotated])
    then show ?thesis
      using L S sqr ss sz w sz' by (auto simp: J_def)
  qed
  then show "srt lo hi J" "deg L + deg S \<le> b' \<Longrightarrow> b \<le> b' \<Longrightarrow> sized b' J" "tcontent J = tcontent L @ tcontent S"
    "bal L d \<Longrightarrow> bal S d \<Longrightarrow> bal J d" "deg J = deg L + deg S" "wt J" "is_leaf J = is_leaf L" "rt J = q"
    "rt L \<in> Z \<Longrightarrow> rt S \<in> Z \<Longrightarrow> q \<in> Z \<Longrightarrow> filter (\<lambda>x. x \<notin> Z) (spath j J) = filter (\<lambda>x. x \<notin> Z) (spaths j [k] [L, S])"
    by blast+
qed

lemma sorted_take_drop:
  "sorted_wrt (<) (ks :: int list) \<Longrightarrow> m < length ks \<Longrightarrow>
   (\<forall>x\<in>set (take m ks). x < ks ! m) \<and> (\<forall>x\<in>set (drop m ks). ks ! m \<le> x)"
proof -
  assume s: "sorted_wrt (<) ks" and m: "m < length ks"
  have "ks = take m ks @ ks ! m # drop (Suc m) ks" using m by (rule id_take_nth_drop)
  moreover have "drop m ks = ks ! m # drop (Suc m) ks" using m by (simp add: Cons_nth_drop_Suc)
  ultimately show ?thesis using s by (metis (no_types, lifting) linorder_not_less order_less_imp_not_less
      set_ConsD sorted_wrt.simps(2) sorted_wrt_append list.set_intros(1) order_refl less_imp_le)
qed

lemma cut_shape:
  fixes x y :: addr
  assumes J: "srt lo hi J" "sized b' J" and m: "2 \<le> m" "m < deg J" "m \<le> b" "deg J - m \<le> b" "2 \<le> deg J - m"
    and ch: "\<And>c. c \<in> set (case J of In _ _ _ _ cs \<Rightarrow> cs | _ \<Rightarrow> []) \<Longrightarrow> sized b c" and w: "wt J"
    and A_def: "A = cut_left x m J" and B_def: "B = cut_right y m J" and k_def: "k = cut_key m J"
  shows "srts lo [k] [A, B] hi" "sized b A" "sized b B" "tcontent A @ tcontent B = tcontent J"
    "bal J d \<Longrightarrow> bal A d" "bal J d \<Longrightarrow> bal B d" "deg A = m" "deg B = deg J - m" "wt A" "wt B"
    "is_leaf A = is_leaf J" "is_leaf B = is_leaf J" "rt A = x" "rt B = y"
    "rt J \<in> Z \<Longrightarrow> x \<in> Z \<Longrightarrow> y \<in> Z \<Longrightarrow> filter (\<lambda>x. x \<notin> Z) (spaths j [k] [A, B]) = filter (\<lambda>x. x \<notin> Z) (spath j J)"
proof -
  have "srts lo [k] [A, B] hi \<and> sized b A \<and> sized b B \<and> tcontent A @ tcontent B = tcontent J \<and>
    (bal J d \<longrightarrow> bal A d) \<and> (bal J d \<longrightarrow> bal B d) \<and> deg A = m \<and> deg B = deg J - m \<and> wt A \<and> wt B \<and>
    is_leaf A = is_leaf J \<and> is_leaf B = is_leaf J \<and> rt A = x \<and> rt B = y \<and>
    (rt J \<in> Z \<longrightarrow> x \<in> Z \<longrightarrow> y \<in> Z \<longrightarrow> filter (\<lambda>x. x \<notin> Z) (spaths j [k] [A, B]) = filter (\<lambda>x. x \<notin> Z) (spath j J))"
  proof (cases J)
    case (Lf q sq ks vs)
    have so: "sorted_wrt (<) ks" "\<forall>x\<in>set ks. in_rng lo hi x" using J Lf by auto
    have ml: "m < length ks" "ks \<noteq> []" "length vs = length ks" using m J Lf by auto
    have km: "in_rng lo hi (ks ! m)" "in_rng lo hi (ks ! 0)" using so ml by auto
    have std: "\<forall>x\<in>set (take m ks). x < ks ! m" "\<forall>x\<in>set (drop m ks). ks ! m \<le> x"
      using sorted_take_drop [OF so(1) ml(1)] by auto
    have "take m ks ! 0 \<in> set (take m ks)" using m ml by (intro nth_mem) auto
    then have k0: "ks ! 0 < ks ! m" using std m by auto
    have "in_rng lo (Some (ks ! m)) x" if "x \<in> set (take m ks)" for x
      using that std(1) so(2) in_set_takeD [OF that] by (auto simp: in_rng_def)
    moreover have "in_rng (Some (ks ! m)) hi x" if "x \<in> set (drop m ks)" for x
      using that std(2) so(2) in_set_dropD [OF that] by (auto simp: in_rng_def)
    moreover have "in_rng lo (Some (ks ! m)) (ks ! 0)" "in_rng (Some (ks ! m)) hi (ks ! m)"
      using km k0 by (auto simp: in_rng_def)
    moreover have "zip (take m ks) (take m vs) @ zip (drop m ks) (drop m vs) = zip ks vs"
      by (metis append_take_drop_id drop_zip take_zip)
    ultimately show ?thesis
      using Lf so ml m by (simp add: A_def B_def k_def sorted_wrt_take sorted_wrt_drop)
  next
    case (In q wq sq ks cs)
    have s: "srts lo ks cs hi" and wq: "wq" and cs: "\<forall>c\<in>set cs. sized b c"
      and md: "m < length cs" "length cs - m \<le> b" "2 \<le> length cs - m" using J w ch m In by auto
    have len: "length cs = Suc (length ks)" by (rule srts_length [OF s])
    have so: "sorted_wrt (<) ks" "\<forall>x\<in>set ks. in_rng lo hi x" using srts_keys [OF s] by auto
    have ml: "m - 1 < length ks" "m < length ks" "0 < length ks" using m md len by linarith+
    have k0: "ks ! 0 < ks ! (m - 1)" using so ml m by (simp add: sorted_wrt_iff_nth_less)
    have k1: "ks ! (m - 1) < ks ! m" using so ml m by (simp add: sorted_wrt_iff_nth_less)
    have r: "in_rng lo (Some (ks ! (m - 1))) (ks ! 0)" "in_rng (Some (ks ! (m - 1))) hi (ks ! m)" "in_rng lo hi (ks ! 0)"
      using so(2) ml k0 k1 nth_mem by (auto simp: in_rng_def)
    have m': "1 \<le> m" "2 \<le> b" using m by auto
    note sp = split_shape [OF s cs m'(1) md(1) m(3) md(2) m'(2) r(1,2,3), where a = x and c = y and n = q and w = True]
    have bl: "bal A d" "bal B d" if "bal J d"
      using that In wq m md by (auto simp: A_def B_def dest: in_set_takeD in_set_dropD)
    have pj: "rt J \<in> Z \<longrightarrow> x \<in> Z \<longrightarrow> y \<in> Z \<longrightarrow> filter (\<lambda>x. x \<notin> Z) (spaths j [k] [A, B]) = filter (\<lambda>x. x \<notin> Z) (spath j J)"
      using sp(5) [where Z = Z and k = j] In by (simp add: A_def B_def k_def)
    show ?thesis using sp(1-3) bl pj In md m by (simp add: A_def B_def k_def)
  qed
  then show "srts lo [k] [A, B] hi" "sized b A" "sized b B" "tcontent A @ tcontent B = tcontent J"
    "bal J d \<Longrightarrow> bal A d" "bal J d \<Longrightarrow> bal B d" "deg A = m" "deg B = deg J - m" "wt A" "wt B"
    "is_leaf A = is_leaf J" "is_leaf B = is_leaf J" "rt A = x" "rt B = y"
    "rt J \<in> Z \<Longrightarrow> x \<in> Z \<Longrightarrow> y \<in> Z \<Longrightarrow> filter (\<lambda>x. x \<notin> Z) (spaths j [k] [A, B]) = filter (\<lambda>x. x \<notin> Z) (spath j J)"
    by blast+
qed

end
