(* ===== verification/AbShape_Good.thy ===== *)
theory AbShape_Good
  imports AbShape_Rebal
begin

text \<open>
  Every update of the relaxed (a,b)-tree as the replacement of one subtree, on its shape: the
  replacement of \<open>u\<close> by \<open>u'\<close> keeps the invariant of the whole tree, changes the
  contents as the operation says, and leaves no violation but at the nodes it created.
\<close>

subsection \<open>The invariant of the whole tree\<close>

text \<open>The entry node is a sentinel with one child, the root; the root has weight one and, if
  internal, at least two children.\<close>

definition rootok :: "addr \<Rightarrow> tr \<Rightarrow> bool" where
  "rootok e T \<longleftrightarrow> (case T of In x w sk ks [R] \<Rightarrow> x = e \<and> w \<and> ks = [] \<and> wt R \<and> (is_leaf R \<or> 2 \<le> deg R) | _ \<Rightarrow> False)"

definition good :: "nat \<Rightarrow> addr \<Rightarrow> tr \<Rightarrow> bool" where
  "good b e T \<longleftrightarrow> rootok e T \<and> srt None None T \<and> distinct (addrs T) \<and> (\<exists>d. bal T d) \<and> sized b T"

lemma rootok_plug:
  assumes "C \<noteq> []" "rootok e (plug C u)" "length C = 1 \<Longrightarrow> wt u' \<and> (is_leaf u' \<or> 2 \<le> deg u')"
  shows "rootok e (plug C u')"
proof (cases C rule: rev_cases)
  case Nil
  then show ?thesis using assms by simp
next
  case (snoc C0 f)
  obtain x w sk kl cl kr cr where f: "f = Fr x w sk kl cl kr cr" by (cases f)
  have pa: "plug (C0 @ D) v = plug D (plug C0 v)" for D v
    by (induction C0 v rule: plug.induct) auto
  have 1: "plug C v = In x w sk (kl @ kr) (cl @ plug C0 v # cr)" for v
    by (simp add: snoc pa f)
  have same: "wt (plug C0 v) = wt (plug C0 v') \<and> is_leaf (plug C0 v) = is_leaf (plug C0 v') \<and> deg (plug C0 v) = deg (plug C0 v')"
    if "C0 \<noteq> []" for v v'
    using that
  proof (induction C0 arbitrary: v v')
    case (Cons g C1)
    obtain y w' sk' kl' cl' kr' cr' where g: "g = Fr y w' sk' kl' cl' kr' cr'" by (cases g)
    then show ?case using Cons.IH by (cases "C1 = []") auto
  qed simp
  have e: "cl = []" "cr = []" using assms(2) 1 [of u] by (cases cl; auto simp: rootok_def split: list.splits)+
  show ?thesis
  proof (cases "C0 = []")
    case True
    then show ?thesis using assms(2,3) 1 snoc e by (simp add: rootok_def)
  next
    case False
    then show ?thesis using assms(2) 1 e same [OF False, of u u'] by (simp add: rootok_def)
  qed
qed

lemma good_parts:
  assumes "good b e (plug C u)" and ok: "\<forall>f\<in>set C. fr_ok f"
  shows "csrt C" "srt (clo C) (chi C) u" "sized b u" "csized b C" "distinct (addrs u)" "distinct (caddrs C)"
    "set (addrs u) \<inter> set (caddrs C) = {}" "\<exists>d. bal u d"
  using assms by (auto simp: good_def srt_plug [OF ok] sized_plug bal_plug distinct_plug)

lemma good_replace:
  assumes g: "good b e (plug C u)" and ok: "\<forall>f\<in>set C. fr_ok f" and C: "C \<noteq> []"
    and s: "srt (clo C) (chi C) u'" "sized b u'"
    and bl: "\<And>d. bal u d \<Longrightarrow> bal u' d \<or> length C = 1 \<and> (\<exists>d'. bal u' d')"
    and di: "distinct (addrs u')" "set (addrs u') \<inter> set (caddrs C) = {}"
    and r: "length C = 1 \<Longrightarrow> wt u' \<and> (is_leaf u' \<or> 2 \<le> deg u')"
  shows "good b e (plug C u')"
proof -
  note p = good_parts [OF g ok]
  have "\<exists>d. bal (plug C u') d"
  proof -
    obtain d where d: "cbal d C" "bal u (cdepth d C)" using g by (auto simp: good_def bal_plug)
    consider "bal u' (cdepth d C)" | "length C = 1" "\<exists>d'. bal u' d'" using bl [OF d(2)] by blast
    then show ?thesis
    proof cases
      case 1
      then show ?thesis using d by (auto simp: bal_plug)
    next
      case 2
      then obtain f where f: "C = [f]" by (metis One_nat_def length_0_conv length_Suc_conv)
      obtain x w sk kl cl kr cr where f': "f = Fr x w sk kl cl kr cr" by (cases f)
      have "cl = [] \<and> cr = []" using g f f' by (cases cl; auto simp: good_def rootok_def split: list.splits)
      moreover obtain d' where "bal u' d'" using 2 by blast
      ultimately have "bal (plug C u') (d' + of_bool w)" using f f' by simp
      then show ?thesis by blast
    qed
  qed
  moreover have "rootok e (plug C u')"
    by (rule rootok_plug [OF C _ r]) (use g in \<open>auto simp: good_def\<close>)
  ultimately show ?thesis
    using p s di by (auto simp: good_def srt_plug [OF ok] sized_plug distinct_plug)
qed

subsection \<open>Violations\<close>

text \<open>Weight violations, and degree violations of nodes of weight one. A node of weight zero
  disappears with the step that repairs its weight, so its degree is not a separate concern.\<close>

fun wvs :: "tr \<Rightarrow> addr set" where
  "wvs (Lf x sk ks vs) = {}"
| "wvs (In x w sk ks cs) = (if w then {} else {x}) \<union> (\<Union>c\<in>set cs. wvs c)"

fun dvs :: "nat \<Rightarrow> tr \<Rightarrow> addr set" where
  "dvs a (Lf x sk ks vs) = (if length ks < a then {x} else {})"
| "dvs a (In x w sk ks cs) = (if w \<and> length cs < a then {x} else {}) \<union> (\<Union>c\<in>set cs. dvs a c)"

fun cwvs :: "ctx \<Rightarrow> addr set" where
  "cwvs [] = {}"
| "cwvs (Fr x w sk kl cl kr cr # C) = (if w then {} else {x}) \<union> (\<Union>c\<in>set cl \<union> set cr. wvs c) \<union> cwvs C"

fun cdvs :: "nat \<Rightarrow> ctx \<Rightarrow> addr set" where
  "cdvs a [] = {}"
| "cdvs a (Fr x w sk kl cl kr cr # C) =
     (if w \<and> length cl + length cr + 1 < a then {x} else {}) \<union> (\<Union>c\<in>set cl \<union> set cr. dvs a c) \<union> cdvs a C"

lemma wvs_plug: "wvs (plug C u) = cwvs C \<union> wvs u"
  by (induction C u rule: plug.induct) auto

lemma dvs_plug: "dvs a (plug C u) = cdvs a C \<union> dvs a u"
  by (induction C u rule: plug.induct) auto

lemma wvs_addrs: "wvs t \<subseteq> set (addrs t)"
proof (induction t)
  case (In x w sk ks cs)
  then have "(\<Union>c\<in>set cs. wvs c) \<subseteq> (\<Union>c\<in>set cs. set (addrs c))" by (intro UN_mono) auto
  then show ?case by auto
qed simp

lemma dvs_addrs: "dvs a t \<subseteq> set (addrs t)"
proof (induction t)
  case (In x w sk ks cs)
  then have "(\<Union>c\<in>set cs. dvs a c) \<subseteq> (\<Union>c\<in>set cs. set (addrs c))" by (intro UN_mono) auto
  then show ?case by auto
qed simp

lemma dvs_rt: "deg t \<ge> a \<or> \<not> wt t \<Longrightarrow> distinct (addrs t) \<Longrightarrow> rt t \<notin> dvs a t"
proof (cases t)
  case (In x w sk ks cs)
  assume a: "deg t \<ge> a \<or> \<not> wt t" "distinct (addrs t)"
  have "x \<notin> dvs a c" if "c \<in> set cs" for c using a that In dvs_addrs [of a c] by auto
  then show ?thesis using a In by auto
qed auto

subsection \<open>The steps\<close>

text \<open>What every replacement of a subtree by a rebalancing step satisfies: \<open>new\<close> are the
  created nodes, \<open>gone\<close> the removed ones, \<open>W\<close> and \<open>D\<close> the created nodes where a
  violation may be left.\<close>

definition reshape :: "nat \<Rightarrow> ctx \<Rightarrow> tr \<Rightarrow> tr \<Rightarrow> addr list \<Rightarrow> addr list \<Rightarrow> addr set \<Rightarrow> addr set \<Rightarrow> bool" where
  "reshape b C u u' new gone W D \<longleftrightarrow>
     srt (clo C) (chi C) u' \<and> sized b u'
   \<and> (\<forall>d. bal u d \<longrightarrow> bal u' d \<or> length C = 1 \<and> (\<exists>d'. bal u' d'))
   \<and> (\<forall>k. same_path (set new \<union> set gone) k u u')
   \<and> (length C = 1 \<longrightarrow> wt u' \<and> (is_leaf u' \<or> 2 \<le> deg u'))
   \<and> mset (addrs u') + mset gone = mset (addrs u) + mset new \<and> rt u' \<in> set new \<and> rt u \<in> set gone \<and> set gone \<subseteq> set (addrs u)
   \<and> wvs u' \<subseteq> wvs u \<union> W \<and> dvs (min_deg b) u' \<subseteq> dvs (min_deg b) u \<union> D"

definition rebal :: "nat \<Rightarrow> ctx \<Rightarrow> tr \<Rightarrow> tr \<Rightarrow> addr list \<Rightarrow> addr list \<Rightarrow> addr set \<Rightarrow> addr set \<Rightarrow> bool" where
  "rebal b C u u' new gone W D \<longleftrightarrow> reshape b C u u' new gone W D \<and> tcontent u' = tcontent u"

lemma rebalI:
  assumes "shape_le b (clo C) (chi C) (set new \<union> set gone) u u'"
    "length C = 1 \<Longrightarrow> wt u' \<and> (is_leaf u' \<or> 2 \<le> deg u')"
    "mset (addrs u') + mset gone = mset (addrs u) + mset new" "rt u' \<in> set new" "rt u \<in> set gone" "set gone \<subseteq> set (addrs u)"
    "wvs u' \<subseteq> wvs u \<union> W" "dvs (min_deg b) u' \<subseteq> dvs (min_deg b) u \<union> D"
  shows "rebal b C u u' new gone W D"
  using assms by (simp add: rebal_def reshape_def shape_le_def)

lemma reshapeI:
  assumes "srt (clo C) (chi C) u'" "sized b u'"
    "\<And>d. bal u d \<Longrightarrow> bal u' d \<or> length C = 1 \<and> (\<exists>d'. bal u' d')"
    "\<And>k. same_path (set new \<union> set gone) k u u'"
    "length C = 1 \<Longrightarrow> wt u' \<and> (is_leaf u' \<or> 2 \<le> deg u')"
    "mset (addrs u') + mset gone = mset (addrs u) + mset new" "rt u' \<in> set new" "rt u \<in> set gone" "set gone \<subseteq> set (addrs u)"
    "wvs u' \<subseteq> wvs u \<union> W" "dvs (min_deg b) u' \<subseteq> dvs (min_deg b) u \<union> D"
  shows "reshape b C u u' new gone W D"
  using assms unfolding reshape_def by blast

lemma rebalI':
  assumes "srt (clo C) (chi C) u'" "sized b u'"
    "\<And>d. bal u d \<Longrightarrow> bal u' d \<or> length C = 1 \<and> (\<exists>d'. bal u' d')"
    "tcontent u' = tcontent u" "\<And>k. same_path (set new \<union> set gone) k u u'"
    "length C = 1 \<Longrightarrow> wt u' \<and> (is_leaf u' \<or> 2 \<le> deg u')"
    "mset (addrs u') + mset gone = mset (addrs u) + mset new" "rt u' \<in> set new" "rt u \<in> set gone" "set gone \<subseteq> set (addrs u)"
    "wvs u' \<subseteq> wvs u \<union> W" "dvs (min_deg b) u' \<subseteq> dvs (min_deg b) u \<union> D"
  shows "rebal b C u u' new gone W D"
  using assms unfolding rebal_def by (blast intro: reshapeI)

lemma rebal_absorb:
  assumes g: "good b e (plug C u)" "\<forall>f\<in>set C. fr_ok f" and C: "C \<noteq> []"
    and u: "u = In p True sp (kl @ kr) (cl @ In l False sl lk lc # cr)"
    and len: "length cl = length kl" "length cr = length kr"
    and sz: "length cl + length lc + length cr \<le> b"
  shows "rebal b C u (In n True ((kl @ lk @ kr) ! 0) (kl @ lk @ kr) (cl @ lc @ cr)) [n] [p, l] {} {n}"
proof -
  note gp = good_parts [OF g]
  have l2: "length lc = 2" using gp(3) u by auto
  show ?thesis
  proof (rule rebalI)
    show "shape_le b (clo C) (chi C) (set [n] \<union> set [p, l]) u (In n True ((kl @ lk @ kr) ! 0) (kl @ lk @ kr) (cl @ lc @ cr))"
      unfolding u by (rule absorb_shape) (use gp(2,3) u len sz in auto)
    show "dvs (min_deg b) (In n True ((kl @ lk @ kr) ! 0) (kl @ lk @ kr) (cl @ lc @ cr))
        \<subseteq> dvs (min_deg b) u \<union> {n}" by (auto simp: u)
    show "wvs (In n True ((kl @ lk @ kr) ! 0) (kl @ lk @ kr) (cl @ lc @ cr)) \<subseteq> wvs u \<union> {}"
      by (auto simp: u)
  qed (use l2 in \<open>simp_all add: u\<close>)
qed

lemma rebal_split:
  assumes g: "good b e (plug C u)" "\<forall>f\<in>set C. fr_ok f" and C: "C \<noteq> []" and b: "3 \<le> b"
    and u: "u = In p True sp (kl @ kr) (cl @ In l False sl lk lc # cr)"
    and len: "length cl = length kl" "length cr = length kr"
    and sz: "b < length cl + length lc + length cr"
    and w: "w \<longleftrightarrow> length C = 1"
  defines "K \<equiv> kl @ lk @ kr" and "Cs \<equiv> cl @ lc @ cr"
  defines "m \<equiv> length Cs div 2"
  shows "rebal b C u (In n w (K ! (m - 1)) [K ! (m - 1)]
           [In a True (K ! 0) (take (m - 1) K) (take m Cs), In c True (K ! m) (drop m K) (drop m Cs)])
         [n, a, c] [p, l] {n} {n}"
proof -
  note gp = good_parts [OF g]
  have l2: "length lc = 2" "\<forall>c\<in>set lc. sized b c" "\<forall>c\<in>set cl \<union> set cr. sized b c"
      "length cl + length cr + 1 \<le> b" using gp(3) u by auto
  have md: "srts (lob (clo C) kl) lk lc (hib (chi C) kr)" "srtl (clo C) kl cl" "srtr kr cr (chi C)"
    using gp(2) len by (auto simp: u srts_hole)
  have ll: "length lc = Suc (length lk)" by (rule srts_length [OF md(1)])
  have s: "srts (clo C) K Cs (chi C)" using md len ll by (simp add: srts_mid K_def Cs_def)
  have lC: "length Cs = b + 1" using sz l2 by (simp add: Cs_def)
  have lK: "length Cs = Suc (length K)" by (rule srts_length [OF s])
  have so: "sorted_wrt (<) K" "\<forall>x\<in>set K. in_rng (clo C) (chi C) x" using srts_keys [OF s] by auto
  have m: "2 \<le> m" "m < length Cs" "m \<le> b" "length Cs - m \<le> b" "2 \<le> length Cs - m" "m - 1 < length K" "m < length K"
    "0 < length K" "1 \<le> m" "2 \<le> b"
    using b lC lK by (auto simp: m_def)
  have k: "K ! 0 < K ! (m - 1)" "K ! (m - 1) < K ! m" using so(1) m by (simp_all add: sorted_wrt_iff_nth_less)
  have r: "in_rng (clo C) (Some (K ! (m - 1))) (K ! 0)" "in_rng (Some (K ! (m - 1))) (chi C) (K ! m)" "in_rng (clo C) (chi C) (K ! (m - 1))"
    using so(2) m k nth_mem by (auto simp: in_rng_def)
  have sc: "\<forall>c\<in>set Cs. sized b c" using l2 by (auto simp: Cs_def)
  note sp = split_shape [OF s sc m(9,2,3,4,10) r, where a = a and c = c and n = n and w = w]
  let ?u' = "In n w (K ! (m - 1)) [K ! (m - 1)]
           [In a True (K ! 0) (take (m - 1) K) (take m Cs), In c True (K ! m) (drop m K) (drop m Cs)]"
  have bal': "bal ?u' d \<or> length C = 1 \<and> (\<exists>d'. bal ?u' d')" if d: "bal u d" for d
  proof -
    have "\<forall>c\<in>set Cs. bal c (d - 1)" "1 \<le> d" using d by (auto simp: u Cs_def)
    then have "bal ?u' (Suc (d - 1) + of_bool w)" using sp(4) by blast
    then show ?thesis using \<open>1 \<le> d\<close> w by (cases w) auto
  qed
  have ct: "tcontent ?u' = tcontent u" using sp(3) by (simp add: u Cs_def)
  have pth: "same_path (set [n, a, c] \<union> set [p, l]) k u ?u'" for k
  proof -
    have so2: "sorted_wrt (<) (kl @ [] @ kr)" "sorted_wrt (<) (kl @ lk @ kr)"
      using so(1) srts_keys [of "clo C" "kl @ kr"] gp(2) by (auto simp: u K_def)
    obtain B A where BA: "\<And>km ms. length ms = Suc (length km) \<Longrightarrow> sorted_wrt (<) (kl @ km @ kr) \<Longrightarrow>
        spaths k (kl @ km @ kr) (cl @ ms @ cr) = (if B then spaths k km ms else A)"
      using spaths_mid_ex [OF len] by blast
    show ?thesis
      using BA [of "[In l False sl lk lc]" "[]"] BA [OF ll] so2 sp(5) [of "set [n, a, c] \<union> set [p, l]" k]
      by (simp add: same_path_def u K_def [symmetric] Cs_def [symmetric])
  qed
  have ms: "mset (addrs ?u') + mset [p, l] = mset (addrs u) + mset [n, a, c]"
  proof -
    have "mset (concat (map addrs (take m Cs))) + mset (concat (map addrs (drop m Cs))) = mset (concat (map addrs Cs))"
      by (metis append_take_drop_id concat_append map_append mset_append)
    moreover have "mset (addrs u) = {#p, l#} + mset (concat (map addrs Cs))" by (simp add: u Cs_def)
    ultimately show ?thesis by (simp add: ac_simps)
  qed
  have uv: "(\<Union>c\<in>set (take m Cs). f c) \<union> (\<Union>c\<in>set (drop m Cs). f c) = (\<Union>c\<in>set Cs. f c)" for f :: "tr \<Rightarrow> addr set"
    by (metis UN_Un append_take_drop_id set_append)
  have wv: "wvs ?u' \<subseteq> wvs u \<union> {n}" using uv [of wvs] by (auto simp: u Cs_def)
  have am: "min_deg b \<le> m" "min_deg b \<le> length Cs - m" using min_deg_bounds [OF b] lC by (simp_all add: m_def)
  have dA: "dvs (min_deg b) (In a True (K ! 0) (take (m - 1) K) (take m Cs)) = (\<Union>c\<in>set (take m Cs). dvs (min_deg b) c)"
    using am(1) m(2) by simp
  have dB: "dvs (min_deg b) (In c True (K ! m) (drop m K) (drop m Cs)) = (\<Union>c\<in>set (drop m Cs). dvs (min_deg b) c)"
    using am(2) by simp
  have "dvs (min_deg b) ?u' \<subseteq> {n} \<union> (\<Union>c\<in>set Cs. dvs (min_deg b) c)"
    unfolding dvs.simps(2) [of _ n] uv [of "dvs (min_deg b)", symmetric]
    by (simp only: list.set UN_insert UN_empty dA dB) auto
  moreover have "(\<Union>c\<in>set Cs. dvs (min_deg b) c) \<subseteq> dvs (min_deg b) u" by (auto simp: u Cs_def)
  ultimately have dv: "dvs (min_deg b) ?u' \<subseteq> dvs (min_deg b) u \<union> {n}" by blast
  show ?thesis
    by (rule rebalI' [OF sp(1,2) bal' ct pth _ ms _ _ _ wv dv]) (use w in \<open>auto simp: u\<close>)
qed

text \<open>AbsorbSibling and Distribute, for two siblings of weight one on the same side of the
  leaf boundary.\<close>

lemma bal_pos: "bal t d \<Longrightarrow> 1 \<le> d"
proof (induction t arbitrary: d)
  case (In x w sk ks cs)
  then obtain c where "c \<in> set cs" "bal c (d - of_bool w)" by (cases cs) auto
  then show ?case using In.IH by (meson diff_le_self le_trans)
qed simp

lemma siblings_kind:
  assumes "bal L d" "bal S d" "wt L" "wt S"
  shows "is_leaf L = is_leaf S"
proof -
  have ne: "d \<noteq> 1" if t: "bal (In x True sk ks cs) d" for x sk ks cs
  proof -
    obtain c cs' where "cs = c # cs'" using t by (cases cs) auto
    then have "bal c (d - 1)" using t by simp
    then show ?thesis using bal_pos [of c "d - 1"] by auto
  qed
  show ?thesis
  proof (cases L)
    case (Lf x1 x2 x3 x4)
    then show ?thesis using assms ne by (cases S) auto
  next
    case (In x1 x2 x3 x4 x5)
    then show ?thesis using assms ne by (cases S) auto
  qed
qed

lemma srts_pair:
  assumes u: "srt lo hi (In p True sp (kl @ k # kr) (cl @ L # S # cr))"
    and len: "length cl = length kl" "length cr = length kr"
  shows "srtl lo kl cl" "srt (lob lo kl) (Some k) L" "srt (Some k) (hib hi kr) S" "srtr kr cr hi"
  using u srts_mid [of cl kl "[L, S]" "[k]" cr kr lo hi] len by auto

lemma rebal_sibling:
  fixes q :: addr
  assumes g: "good b e (plug C u)" "\<forall>f\<in>set C. fr_ok f" and C: "C \<noteq> []" and b: "3 \<le> b"
    and u: "u = In p True sp (kl @ k # kr) (cl @ L # S # cr)"
    and len: "length cl = length kl" "length cr = length kr"
    and w: "wt L" "wt S" and sz: "deg L + deg S < 2 * min_deg b"
    and sq: "sq = skey L \<or> sq = skey S" and c1: "length C = 1 \<Longrightarrow> cl \<noteq> [] \<or> cr \<noteq> []"
  defines "J \<equiv> join_sib q sq k L S"
  shows "rebal b C u (In n True sp (kl @ kr) (cl @ J # cr)) [n, q] [p, rt L, rt S] {} {n, q}"
proof (rule rebalI)
  note gp = good_parts [OF g]
  note pr = srts_pair [OF gp(2) [unfolded u] len]
  obtain d where "bal u d" using gp(8) by blast
  then have l: "is_leaf L = is_leaf S" using siblings_kind [of L "d - 1" S] w by (simp add: u)
  have lb: "deg L + deg S \<le> b" using sz min_deg_bounds [OF b] by simp
  have sLS: "sized b L" "sized b S" using gp(3) by (simp_all add: u)
  note js = join_sib_shape [OF pr(2,3) l w sLS sq, where q = q, folded J_def]
  have "shape_le b (clo C) (chi C) (set [n, q] \<union> set [p, rt L, rt S]) (In p True sp (kl @ [k] @ kr) (cl @ [L, S] @ cr))
      (In n True sp (kl @ [] @ kr) (cl @ [J] @ cr))"
  proof (rule mid_replace)
    show "same_paths (set [n, q] \<union> set [p, rt L, rt S]) j [k] [L, S] [] [J]" for j
      using js(9) [of "set [n, q] \<union> set [p, rt L, rt S]" j] by (simp add: same_paths_def)
  qed (use gp(2,3) len js lb in \<open>auto simp: u\<close>)
  then show "shape_le b (clo C) (chi C) (set [n, q] \<union> set [p, rt L, rt S]) u (In n True sp (kl @ kr) (cl @ J # cr))"
    by (simp add: u)
  show "wt (In n True sp (kl @ kr) (cl @ J # cr)) \<and> (is_leaf (In n True sp (kl @ kr) (cl @ J # cr)) \<or> 2 \<le> deg (In n True sp (kl @ kr) (cl @ J # cr)))"
    if "length C = 1" using c1 [OF that] by (cases cl; cases cr) auto
  have aJ: "mset (addrs J) + {#rt L, rt S#} = mset (addrs L) + mset (addrs S) + {#q#}"
    using l by (cases L; cases S) (simp_all add: J_def)
  then show "mset (addrs (In n True sp (kl @ kr) (cl @ J # cr))) + mset [p, rt L, rt S] = mset (addrs u) + mset [n, q]"
    by (simp add: u ac_simps)
  have wJ: "wvs J \<subseteq> wvs L \<union> wvs S" "dvs (min_deg b) J \<subseteq> dvs (min_deg b) L \<union> dvs (min_deg b) S \<union> {q}"
    using l by (cases L; cases S; auto simp: J_def)+
  show "wvs (In n True sp (kl @ kr) (cl @ J # cr)) \<subseteq> wvs u \<union> {}" using wJ(1) by (auto simp: u)
  show "rt (In n True sp (kl @ kr) (cl @ J # cr)) \<in> set [n, q]" "rt u \<in> set [p, rt L, rt S]" "set [p, rt L, rt S] \<subseteq> set (addrs u)" by (simp_all add: u)
  show "dvs (min_deg b) (In n True sp (kl @ kr) (cl @ J # cr)) \<subseteq> dvs (min_deg b) u \<union> {n, q}" using wJ(2) by (auto simp: u)
qed

lemma rebal_root_absorb:
  fixes q :: addr
  assumes g: "good b e (plug C u)" "\<forall>f\<in>set C. fr_ok f" and C: "length C = 1" and b: "3 \<le> b"
    and u: "u = In p True sp [k] [L, S]"
    and w: "wt L" "wt S" and sz: "deg L + deg S < 2 * min_deg b"
    and sq: "sq = skey L \<or> sq = skey S"
  defines "J \<equiv> join_sib q sq k L S"
  shows "rebal b C u J [q] [p, rt L, rt S] {} {q}"
proof (rule rebalI')
  note gp = good_parts [OF g]
  have pr: "srt (clo C) (Some k) L" "srt (Some k) (chi C) S" using gp(2) by (simp_all add: u)
  obtain d where d: "bal u d" using gp(8) by blast
  then have l: "is_leaf L = is_leaf S" using siblings_kind [of L "d - 1" S] w by (simp add: u)
  have lb: "deg L + deg S \<le> b" using sz min_deg_bounds [OF b] by simp
  have sLS: "sized b L" "sized b S" using gp(3) by (simp_all add: u)
  note js = join_sib_shape [OF pr l w sLS sq, where q = q, folded J_def]
  show "srt (clo C) (chi C) J" by (rule js(1))
  show "sized b J" by (rule js(2) [OF lb]) simp
  show "bal J d \<or> length C = 1 \<and> (\<exists>d'. bal J d')" if "bal u d" for d
    using js(4) [of "d - 1"] that C by (auto simp: u)
  show "tcontent J = tcontent u" by (simp add: js(3) u)
  show "same_path (set [q] \<union> set [p, rt L, rt S]) j u J" for j
    using js(9) [of "set [q] \<union> set [p, rt L, rt S]" j] by (simp add: same_path_def u)
  have "2 \<le> deg J" if "\<not> is_leaf J" using that js(5,7) l sLS by (cases L; cases S) auto
  then show "wt J \<and> (is_leaf J \<or> 2 \<le> deg J)" using js(6) by blast
  show "mset (addrs J) + mset [p, rt L, rt S] = mset (addrs u) + mset [q]"
    using l by (cases L; cases S) (simp_all add: J_def u)
  show "rt J \<in> set [q]" "rt u \<in> set [p, rt L, rt S]" "set [p, rt L, rt S] \<subseteq> set (addrs u)" by (simp_all add: js(8) u)
  show "wvs J \<subseteq> wvs u \<union> {}" "dvs (min_deg b) J \<subseteq> dvs (min_deg b) u \<union> {q}"
    using l by (cases L; cases S; auto simp: J_def u)+
qed

lemma rebal_distribute:
  fixes x :: addr
  assumes g: "good b e (plug C u)" "\<forall>f\<in>set C. fr_ok f" and C: "C \<noteq> []" and b: "3 \<le> b"
    and u: "u = In p True sp (kl @ k # kr) (cl @ L # S # cr)"
    and len: "length cl = length kl" "length cr = length kr"
    and w: "wt L" "wt S" and sz: "2 * min_deg b \<le> deg L + deg S"
  defines "J \<equiv> join_sib x (skey L) k L S"
  defines "m \<equiv> (deg L + deg S) div 2"
  shows "rebal b C u (In n True sp (kl @ cut_key m J # kr) (cl @ cut_left x m J # cut_right y m J # cr))
           [n, x, y] [p, rt L, rt S] {} {n}"
proof (rule rebalI)
  note gp = good_parts [OF g]
  note pr = srts_pair [OF gp(2) [unfolded u] len]
  obtain d where "bal u d" using gp(8) by blast
  then have l: "is_leaf L = is_leaf S" using siblings_kind [of L "d - 1" S] w by (simp add: u)
  have sLS: "sized b L" "sized b S" using gp(3) by (simp_all add: u)
  have dLS: "deg L \<le> b" "deg S \<le> b" using sLS by (cases L; cases S; simp)+
  note js = join_sib_shape [OF pr(2,3) l w sLS, where q = x and sq = "skey L", folded J_def, OF disjI1 [OF refl]]
  have dJ: "deg J = deg L + deg S" by (rule js(5))
  have mb: "min_deg b \<le> m" "min_deg b \<le> deg J - m" "2 \<le> m" "2 \<le> deg J - m" "m \<le> b" "deg J - m \<le> b" "m < deg J"
    using sz min_deg_bounds(1) [OF b] dLS dJ by (auto simp: m_def)
  have ch: "sized b c" if "c \<in> set (case J of In _ _ _ _ cs \<Rightarrow> cs | _ \<Rightarrow> [])" for c
    using that sLS l by (cases L; cases S) (auto simp: J_def)
  have sJ: "sized (2 * b) J" by (rule js(2)) (use dLS in auto)
  define A where "A = cut_left x m J"
  define B where "B = cut_right y m J"
  define k' where "k' = cut_key m J"
  note cs = cut_shape [OF js(1) sJ mb(3,7,5,6,4) ch js(6) A_def B_def k'_def]
  let ?u' = "In n True sp (kl @ k' # kr) (cl @ A # B # cr)"
  have "shape_le b (clo C) (chi C) (set [n, x, y] \<union> set [p, rt L, rt S]) (In p True sp (kl @ [k] @ kr) (cl @ [L, S] @ cr))
      (In n True sp (kl @ [k'] @ kr) (cl @ [A, B] @ cr))"
  proof (rule mid_replace)
    show "same_paths (set [n, x, y] \<union> set [p, rt L, rt S]) j [k] [L, S] [k'] [A, B]" for j
      using js(9) [of "set [n, x, y] \<union> set [p, rt L, rt S]" j] js(8) cs(15) [of "set [n, x, y] \<union> set [p, rt L, rt S]" j]
      by (simp add: same_paths_def)
    show "concat (map tcontent [A, B]) = concat (map tcontent [L, S])" using cs(4) js(3) by simp
    show "\<forall>c\<in>set [A, B]. bal c d" if "\<forall>c\<in>set [L, S]. bal c d" for d using that js(4) cs(5,6) by simp
    show "\<forall>c\<in>set [A, B]. sized b c" using cs(2,3) by simp
    show "srts (lob (clo C) kl) [k'] [A, B] (hib (chi C) kr)" by (rule cs(1))
    show "in_rng (clo C) (chi C) sp" using gp(2) by (simp add: u)
  qed (use gp(2,3) len in \<open>simp_all add: u\<close>)
  then show "shape_le b (clo C) (chi C) (set [n, x, y] \<union> set [p, rt L, rt S]) u
      (In n True sp (kl @ cut_key m J # kr) (cl @ cut_left x m J # cut_right y m J # cr))"
    by (simp add: u A_def B_def k'_def)
  have aJ: "mset (addrs A) + mset (addrs B) + {#rt L, rt S#} = mset (addrs L) + mset (addrs S) + {#x, y#}"
  proof (cases J)
    case (Lf q sq ks vs)
    then show ?thesis using l by (cases L; cases S) (simp_all add: A_def B_def J_def)
  next
    case (In q wq sq ks cs)
    have "mset (concat (map addrs (take m cs))) + mset (concat (map addrs (drop m cs))) = mset (concat (map addrs cs))"
      by (metis append_take_drop_id concat_append map_append mset_append)
    moreover have "mset (concat (map addrs cs)) + {#rt L, rt S#} = mset (addrs L) + mset (addrs S)"
      using l In by (cases L; cases S) (auto simp: J_def)
    ultimately show ?thesis using In by (simp add: A_def B_def)
        (metis (no_types, lifting) add_mset_add_single add_mset_commute union_mset_add_mset_right)
  qed
  then show "mset (addrs (In n True sp (kl @ cut_key m J # kr) (cl @ cut_left x m J # cut_right y m J # cr)))
      + mset [p, rt L, rt S] = mset (addrs u) + mset [n, x, y]"
    unfolding A_def [symmetric] B_def [symmetric] by (simp add: u)
  have v: "wvs A \<union> wvs B \<subseteq> wvs L \<union> wvs S" "dvs (min_deg b) A \<union> dvs (min_deg b) B \<subseteq> dvs (min_deg b) L \<union> dvs (min_deg b) S"
  proof -
    have "wvs J \<subseteq> wvs L \<union> wvs S" using l by (cases L; cases S; auto simp: J_def)
    moreover have "wvs A \<union> wvs B \<subseteq> wvs J"
      by (cases J) (auto simp: A_def B_def dest: in_set_takeD in_set_dropD)
    ultimately show "wvs A \<union> wvs B \<subseteq> wvs L \<union> wvs S" by blast
    show "dvs (min_deg b) A \<union> dvs (min_deg b) B \<subseteq> dvs (min_deg b) L \<union> dvs (min_deg b) S"
    proof (cases J)
      case (Lf q sq ks vs)
      then show ?thesis using mb by (simp add: A_def B_def)
    next
      case (In q wq sq ks cs)
      have "dvs (min_deg b) A \<union> dvs (min_deg b) B \<subseteq> (\<Union>c\<in>set cs. dvs (min_deg b) c)"
        using In mb by (auto simp: A_def B_def dest: in_set_takeD in_set_dropD)
      moreover have "(\<Union>c\<in>set cs. dvs (min_deg b) c) \<subseteq> dvs (min_deg b) L \<union> dvs (min_deg b) S"
        using l In by (cases L; cases S; auto simp: J_def)
      ultimately show ?thesis by blast
    qed
  qed
  show "wvs (In n True sp (kl @ cut_key m J # kr) (cl @ cut_left x m J # cut_right y m J # cr)) \<subseteq> wvs u \<union> {}"
    unfolding A_def [symmetric] B_def [symmetric] using v(1) by (auto simp: u)
  show "dvs (min_deg b) (In n True sp (kl @ cut_key m J # kr) (cl @ cut_left x m J # cut_right y m J # cr))
      \<subseteq> dvs (min_deg b) u \<union> {n}"
    unfolding A_def [symmetric] B_def [symmetric] using v(2) by (auto simp: u)
  show "rt u \<in> set [p, rt L, rt S]" "set [p, rt L, rt S] \<subseteq> set (addrs u)" by (simp_all add: u)
qed simp_all

text \<open>A leaf replaced by another leaf, or by two leaves below a new node.\<close>

lemma reshape_leaf:
  assumes g: "good b e (plug C (Lf l sk ks vs))" "\<forall>f\<in>set C. fr_ok f"
    and k: "sorted_wrt (<) ks'" "\<forall>x\<in>set ks'. in_rng (clo C) (chi C) x" "in_rng (clo C) (chi C) sk'"
    and s: "length vs' = length ks'" "length ks' \<le> b"
  shows "reshape b C (Lf l sk ks vs) (Lf n sk' ks' vs') [n] [l] {} {n}"
  by (rule reshapeI) (use k s in \<open>auto simp: same_path_def\<close>)

lemma reshape_overflow:
  assumes g: "good b e (plug C (Lf l sk ks vs))" "\<forall>f\<in>set C. fr_ok f" and b: "3 \<le> b"
    and k: "sorted_wrt (<) K" "\<forall>x\<in>set K. in_rng (clo C) (chi C) x"
    and s: "length V = b + 1" "length K = b + 1" and w: "w \<longleftrightarrow> length C = 1"
  defines "m \<equiv> (b + 1) div 2"
  shows "reshape b C (Lf l sk ks vs)
     (In n w (K ! m) [K ! m] [Lf x (K ! 0) (take m K) (take m V), Lf y (K ! m) (drop m K) (drop m V)])
     [n, x, y] [l] {n} (if w then {n} else {})" (is "reshape b C ?u ?u' _ _ _ _")
proof (rule reshapeI)
  have m: "2 \<le> m" "m \<le> b" "b + 1 - m \<le> b" "m < length K" "0 < length K" using b s by (auto simp: m_def)
  have am: "min_deg b \<le> m" "min_deg b \<le> b + 1 - m" using min_deg_bounds [OF b] by (auto simp: m_def)
  have std: "\<forall>x\<in>set (take m K). x < K ! m" "\<forall>x\<in>set (drop m K). K ! m \<le> x"
    using sorted_take_drop [OF k(1) m(4)] by auto
  have k0: "K ! 0 < K ! m" using k(1) m by (simp add: sorted_wrt_iff_nth_less)
  have r: "in_rng (clo C) (chi C) (K ! 0)" "in_rng (clo C) (chi C) (K ! m)" using k(2) m by auto
  have r2: "in_rng (clo C) (Some (K ! m)) (K ! 0)" "in_rng (Some (K ! m)) (chi C) (K ! m)"
    using r k0 by (auto simp: in_rng_def)
  have "in_rng (clo C) (Some (K ! m)) x" if "x \<in> set (take m K)" for x
    using that std(1) k(2) in_set_takeD [OF that] by (auto simp: in_rng_def)
  moreover have "in_rng (Some (K ! m)) (chi C) x" if "x \<in> set (drop m K)" for x
    using that std(2) k(2) in_set_dropD [OF that] by (auto simp: in_rng_def)
  ultimately show "srt (clo C) (chi C) ?u'" using r r2 k(1) by (simp add: sorted_wrt_take sorted_wrt_drop)
  show "sized b ?u'" using m s b by simp
  show "bal ?u' d \<or> length C = 1 \<and> (\<exists>d'. bal ?u' d')" if "bal ?u d" for d
  proof (cases w)
    case True
    then have "bal ?u' 2" by simp
    then show ?thesis using True w by blast
  next
    case False
    then show ?thesis using that by simp
  qed
  show "dvs (min_deg b) ?u' \<subseteq> dvs (min_deg b) ?u \<union> (if w then {n} else {})" using am m s by auto
qed (use w in \<open>auto simp: same_path_def\<close>)

subsection \<open>A step of the whole tree\<close>

definition rootaddr :: "tr \<Rightarrow> addr" where
  "rootaddr T = (case T of In x w sk ks [R] \<Rightarrow> rt R | _ \<Rightarrow> 0)"

definition tree_step :: "nat \<Rightarrow> addr \<Rightarrow> tr \<Rightarrow> tr \<Rightarrow> addr set \<Rightarrow> addr set \<Rightarrow> addr set \<Rightarrow> addr set \<Rightarrow> bool" where
  "tree_step b e T T' new gone W D \<longleftrightarrow>
     good b e T' \<and> gone \<subseteq> set (addrs T) \<and> set (addrs T') = (set (addrs T) - gone) \<union> new
   \<and> (\<forall>k. same_path (new \<union> gone) k T T')
   \<and> (rootaddr T' = rootaddr T \<or> rootaddr T' \<in> new \<and> rootaddr T \<in> gone)
   \<and> wvs T' \<subseteq> wvs T \<union> W \<and> dvs (min_deg b) T' \<subseteq> dvs (min_deg b) T \<union> D"

lemma same_path_plug:
  assumes "\<forall>f\<in>set C. fr_ok f" "same_path Z k u u'"
  shows "same_path Z k (plug C u) (plug C u')"
  using assms spath_plug [of C k] spath_plug_miss [of C k u u'] by (cases "cthru k C") (auto simp: same_path_def)

lemma rootaddr_plug:
  assumes "C \<noteq> []" "rootok e (plug C u)"
  shows "rootaddr (plug C u') = rootaddr (plug C u) \<or> rootaddr (plug C u') = rt u' \<and> rootaddr (plug C u) = rt u"
proof (cases C rule: rev_cases)
  case Nil
  then show ?thesis using assms by simp
next
  case (snoc C0 f)
  obtain x w sk kl cl kr cr where f: "f = Fr x w sk kl cl kr cr" by (cases f)
  have pa: "plug (C0 @ D) v = plug D (plug C0 v)" for D v
    by (induction C0 v rule: plug.induct) auto
  have 1: "plug C v = In x w sk (kl @ kr) (cl @ plug C0 v # cr)" for v by (simp add: snoc pa f)
  have e: "cl = []" "cr = []" using assms(2) 1 [of u] by (cases cl; auto simp: rootok_def split: list.splits)+
  have same: "rt (plug C0 v) = rt (plug C0 v')" if "C0 \<noteq> []" for v v'
    using that
  proof (induction C0 arbitrary: v v')
    case (Cons g C1)
    obtain y w' sk' kl' cl' kr' cr' where g: "g = Fr y w' sk' kl' cl' kr' cr'" by (cases g)
    then show ?case using Cons.IH by (cases "C1 = []") auto
  qed simp
  then show ?thesis using 1 e by (cases "C0 = []") (auto simp: rootaddr_def)
qed

lemma reshape_tree_step:
  assumes g: "good b e (plug C u)" "\<forall>f\<in>set C. fr_ok f" "C \<noteq> []"
    and r: "reshape b C u u' new gone W D"
    and n: "distinct new" "set new \<inter> set (addrs (plug C u)) = {}"
  shows "tree_step b e (plug C u) (plug C u') (set new) (set gone) W D"
proof -
  note gp = good_parts [OF g(1,2)]
  have ms: "mset (addrs u') + mset gone = mset (addrs u) + mset new" using r by (simp add: reshape_def)
  then have ms': "mset (addrs u' @ gone) = mset (addrs u @ new)" by simp
  have "distinct (addrs u @ new)" using gp(5) n by auto
  then have d: "distinct (addrs u' @ gone)" using mset_eq_imp_distinct_iff [OF ms'] by blast
  have un: "set (addrs u') \<union> set gone = set (addrs u) \<union> set new" using mset_eq_setD [OF ms'] by simp
  have gone: "set gone \<subseteq> set (addrs u)" using r by (simp add: reshape_def)
  have nw: "set new \<inter> set (addrs u) = {}" "set new \<inter> set (caddrs C) = {}" using n(2) by auto
  have au: "set (addrs u') = (set (addrs u) - set gone) \<union> set new" using un d gone nw by auto
  have "good b e (plug C u')"
  proof (rule good_replace [OF g])
    show "distinct (addrs u')" using d by simp
    show "set (addrs u') \<inter> set (caddrs C) = {}" using au gp(7) nw by blast
  qed (use r in \<open>auto simp: reshape_def\<close>)
  moreover have "set (addrs (plug C u')) = (set (addrs (plug C u)) - set gone) \<union> set new"
    using au gone gp(7) by auto
  moreover have "\<forall>k. same_path (set new \<union> set gone) k (plug C u) (plug C u')"
    using r same_path_plug [OF g(2)] by (simp add: reshape_def)
  moreover have "rootok e (plug C u)" using g(1) by (simp add: good_def)
  then have "rootaddr (plug C u') = rootaddr (plug C u) \<or> rootaddr (plug C u') \<in> set new \<and> rootaddr (plug C u) \<in> set gone"
    using rootaddr_plug [OF g(3)] r by (metis reshape_def)
  moreover have "wvs (plug C u') \<subseteq> wvs (plug C u) \<union> W" "dvs (min_deg b) (plug C u') \<subseteq> dvs (min_deg b) (plug C u) \<union> D"
    using r by (auto simp: reshape_def wvs_plug dvs_plug)
  ultimately show ?thesis using gone unfolding tree_step_def by auto
qed

end
