(* ===== verification/AbTree_Heap.thy ===== *)
theory AbTree_Heap
  imports AbTree AbShape_Good
begin

text \<open>
  The tree that a heap of the relaxed (a,b)-tree represents, and what one successful SCX does to it:
  the replacement of one subtree.
\<close>

subsection \<open>The heap holds a tree\<close>

definition leaf_at :: "nat \<Rightarrow> ab_heap \<Rightarrow> addr \<Rightarrow> int \<Rightarrow> int list \<Rightarrow> nat list \<Rightarrow> bool" where
  "leaf_at dg h x sk ks vs \<longleftrightarrow> (\<exists>n. h x = Some n \<and> node_ok dg n \<and> ab_leaf n \<and> ab_weight n \<and> \<not> ab_marked n
     \<and> ab_searchKey n = sk \<and> akeys n = ks \<and> aptrs n = vs)"

definition inner_at :: "nat \<Rightarrow> ab_heap \<Rightarrow> addr \<Rightarrow> bool \<Rightarrow> int \<Rightarrow> int list \<Rightarrow> nat list \<Rightarrow> bool" where
  "inner_at dg h x w sk ks ps \<longleftrightarrow> (\<exists>n. h x = Some n \<and> node_ok dg n \<and> \<not> ab_leaf n \<and> ab_weight n = w \<and> \<not> ab_marked n
     \<and> ab_searchKey n = sk \<and> akeys n = ks \<and> aptrs n = ps)"

fun coh :: "nat \<Rightarrow> ab_heap \<Rightarrow> tr \<Rightarrow> bool" where
  "coh dg h (Lf x sk ks vs) \<longleftrightarrow> leaf_at dg h x sk ks vs"
| "coh dg h (In x w sk ks cs) \<longleftrightarrow> inner_at dg h x w sk ks (map rt cs) \<and> (\<forall>c\<in>set cs. coh dg h c)"

fun ccoh :: "nat \<Rightarrow> ab_heap \<Rightarrow> ctx \<Rightarrow> addr \<Rightarrow> bool" where
  "ccoh dg h [] y \<longleftrightarrow> True"
| "ccoh dg h (Fr x w sk kl cl kr cr # C) y \<longleftrightarrow>
     inner_at dg h x w sk (kl @ kr) (map rt cl @ y # map rt cr) \<and> (\<forall>c\<in>set cl \<union> set cr. coh dg h c)
   \<and> ccoh dg h C x"

lemma coh_plug: "coh dg h (plug C u) \<longleftrightarrow> ccoh dg h C (rt u) \<and> coh dg h u"
  by (induction C u rule: plug.induct) auto

lemma inner_at_length: "inner_at dg h x w sk ks ps \<Longrightarrow> length ps = Suc (length ks)"
  by (auto simp: inner_at_def akeys_def aptrs_def node_ok_def getKeyCount_def)

lemma leaf_at_length: "leaf_at dg h x sk ks vs \<Longrightarrow> length vs = length ks \<and> length ks \<le> dg"
  by (auto simp: leaf_at_def akeys_def aptrs_def node_ok_def getKeyCount_def)

lemma coh_length: "coh dg h (In x w sk ks cs) \<Longrightarrow> length cs = Suc (length ks)"
  by (auto dest: inner_at_length)

lemma coh_dom: "coh dg h t \<Longrightarrow> x \<in> set (addrs t) \<Longrightarrow> \<exists>n. h x = Some n \<and> node_ok dg n \<and> \<not> ab_marked n"
proof (induction t)
  case (Lf y sk ks vs)
  then show ?case by (auto simp: leaf_at_def)
next
  case (In y w sk ks cs)
  then show ?case by (auto simp: inner_at_def)
qed

lemma coh_rt_leaf: "coh dg h t \<Longrightarrow> ab_leaf (nd h (rt t)) = is_leaf t"
  by (cases t) (auto simp: leaf_at_def inner_at_def)

lemma coh_rt:
  assumes "coh dg h t"
  shows "ab_weight (nd h (rt t)) = wt t" "ab_searchKey (nd h (rt t)) = skey t" "getABDegree (nd h (rt t)) = deg t"
    "h (rt t) = Some (nd h (rt t))" "node_ok dg (nd h (rt t))"
  using assms
  by (cases t; auto simp: leaf_at_def inner_at_def akeys_def aptrs_def node_ok_def getKeyCount_def
      dest!: arg_cong [where f = length])+

text \<open>Two heaps that agree on the nodes of a tree, but for the SCX stamps, hold the same tree.\<close>

definition same_core :: "ab_heap \<Rightarrow> ab_heap \<Rightarrow> addr \<Rightarrow> bool" where
  "same_core h h' x \<longleftrightarrow> map_option (ab_scxPtr_update (\<lambda>_. 0)) (h x) = map_option (ab_scxPtr_update (\<lambda>_. 0)) (h' x)"

lemma same_coreD:
  "same_core h h' x \<Longrightarrow> h x = Some n \<Longrightarrow> \<exists>n'. h' x = Some n' \<and> n\<lparr>ab_scxPtr := 0\<rparr> = n'\<lparr>ab_scxPtr := 0\<rparr>"
  by (cases "h' x") (auto simp: same_core_def)

lemma core_fields:
  assumes "n\<lparr>ab_scxPtr := 0\<rparr> = n'\<lparr>ab_scxPtr := 0\<rparr>"
  shows "ab_leaf n' = ab_leaf n" "ab_weight n' = ab_weight n" "ab_marked n' = ab_marked n" "ab_size n' = ab_size n"
    "ab_searchKey n' = ab_searchKey n" "ab_keys n' = ab_keys n" "ab_ptrs n' = ab_ptrs n"
  using assms by (metis ab_node.select_convs ab_node.surjective ab_node.update_convs(1))+

lemma same_core_at:
  assumes "same_core h h' x"
  shows "leaf_at dg h x sk ks vs \<Longrightarrow> leaf_at dg h' x sk ks vs"
    "inner_at dg h x w sk ks ps \<Longrightarrow> inner_at dg h' x w sk ks ps"
proof -
  have view: "node_ok dg n' = node_ok dg n \<and> akeys n' = akeys n \<and> aptrs n' = aptrs n"
    if "n\<lparr>ab_scxPtr := 0\<rparr> = n'\<lparr>ab_scxPtr := 0\<rparr>" for n n' :: ab_node
    using core_fields [OF that] by (simp add: node_ok_def akeys_def aptrs_def getKeyCount_def)
  show "leaf_at dg h' x sk ks vs" if "leaf_at dg h x sk ks vs"
    using that same_coreD [OF assms] view core_fields unfolding leaf_at_def by metis
  show "inner_at dg h' x w sk ks ps" if "inner_at dg h x w sk ks ps"
    using that same_coreD [OF assms] view core_fields unfolding inner_at_def by metis
qed

lemma coh_cong: "coh dg h t \<Longrightarrow> \<forall>x\<in>set (addrs t). same_core h h' x \<Longrightarrow> coh dg h' t"
proof (induction t)
  case (Lf x sk ks vs)
  then show ?case using same_core_at(1) by auto
next
  case (In x w sk ks cs)
  then show ?case using same_core_at(2) by auto
qed

lemma ccoh_cong: "ccoh dg h C y \<Longrightarrow> \<forall>x\<in>set (caddrs C). same_core h h' x \<Longrightarrow> ccoh dg h' C y"
proof (induction C arbitrary: y)
  case (Cons f C)
  obtain x w sk kl cl kr cr where f: "f = Fr x w sk kl cl kr cr" by (cases f)
  have "coh dg h' c" if "c \<in> set cl \<union> set cr" for c
    using coh_cong [of dg h c h'] Cons.prems that f by fastforce
  then show ?case using Cons f same_core_at(2) by auto
qed simp

subsection \<open>Finding a node in the tree\<close>

lemma locate:
  "coh dg h T \<Longrightarrow> x \<in> set (addrs T) \<Longrightarrow> \<exists>C u. T = plug C u \<and> rt u = x \<and> (\<forall>f\<in>set C. fr_ok f)"
proof (induction T)
  case (Lf y sk ks vs)
  then show ?case by (intro exI [of _ "[]"] exI [of _ "Lf y sk ks vs"]) auto
next
  case (In y w sk ks cs)
  show ?case
  proof (cases "x = y")
    case True
    then show ?thesis by (intro exI [of _ "[]"] exI [of _ "In y w sk ks cs"]) auto
  next
    case False
    then obtain c where c: "c \<in> set cs" "x \<in> set (addrs c)" using In.prems by auto
    then obtain cl cr where cs: "cs = cl @ c # cr" by (meson split_list)
    obtain C u where C: "c = plug C u" "rt u = x" "\<forall>f\<in>set C. fr_ok f"
      using In.IH [OF c(1) _ c(2)] In.prems c(1) by auto
    have len: "length cs = Suc (length ks)" by (rule coh_length [OF In.prems(1)])
    define f where "f = Fr y w sk (take (length cl) ks) cl (drop (length cl) ks) cr"
    have pa: "plug (C @ [f]) u = plug [f] (plug C u)"
      by (induction C u rule: plug.induct) auto
    have "fr_ok f" using len cs by (simp add: f_def)
    then show ?thesis
      using C pa cs by (intro exI [of _ "C @ [f]"] exI [of _ u]) (auto simp: f_def)
  qed
qed

lemma plug_child:
  assumes "T = plug C (In x w sk ks cs)" "\<forall>f\<in>set C. fr_ok f" "length cs = Suc (length ks)" "i < length cs"
  shows "T = plug (Fr x w sk (take i ks) (take i cs) (drop i ks) (drop (Suc i) cs) # C) (cs ! i)"
    "\<forall>f\<in>set (Fr x w sk (take i ks) (take i cs) (drop i ks) (drop (Suc i) cs) # C). fr_ok f"
  using assms id_take_nth_drop [of i cs] by auto

text \<open>A node on the path of \<open>k\<close> is a hole that \<open>k\<close> goes through.\<close>

lemma on_path_cthru:
  assumes "\<forall>f\<in>set C. fr_ok f" "distinct (addrs (plug C u))" "rt u \<in> set (spath k (plug C u))"
  shows "cthru k C"
proof (rule ccontr)
  assume n: "\<not> cthru k C"
  obtain z where z: "z \<noteq> rt u" "z \<notin> set (caddrs C)"
    using ex_new_if_finite [of "insert (rt u) (set (caddrs C))"] by auto
  have sub: "set (spath k t) \<subseteq> set (addrs t)" "set (spaths k ks cs) \<subseteq> set (concat (map addrs cs))" for t ks cs
    by (induction k t and k ks cs rule: spath_spaths.induct) auto
  have "rt u \<in> set (spath k (plug C (Lf z 0 [] [])))"
    using assms(3) spath_plug_miss [OF assms(1) n, of u "Lf z 0 [] []"] by simp
  then have "rt u \<in> set (addrs (plug C (Lf z 0 [] [])))" using sub(1) by blast
  then have "rt u \<in> set (caddrs C)" using z by auto
  then show False using assms(2) rt_in_addrs [of u] by (auto simp: distinct_plug)
qed

lemma spath_addrs: "set (spath k t) \<subseteq> set (addrs t)" "set (spaths k ks cs) \<subseteq> set (concat (map addrs cs))"
  by (induction k t and k ks cs rule: spath_spaths.induct) auto

definition child :: "ab_heap \<Rightarrow> addr \<Rightarrow> int \<Rightarrow> addr" where
  "child h x k = ab_ptrs (nd h x) ! getChildIndex (nd h x) k"

lemma inner_at_nth:
  assumes "inner_at dg h x w sk ks ps"
  shows "getABDegree (nd h x) = length ps" "i < length ps \<Longrightarrow> ab_ptrs (nd h x) ! i = ps ! i"
proof -
  obtain n where n: "h x = Some n" "node_ok dg n" "aptrs n = ps"
    using assms by (auto simp: inner_at_def)
  have sz: "length ps = ab_size n" using n by (metis node_okD(2))
  show "i < length ps \<Longrightarrow> ab_ptrs (nd h x) ! i = ps ! i" using n sz aptrs_nth [of i n] by simp
  show "getABDegree (nd h x) = length ps" using n sz by simp
qed

lemma inner_at_child:
  assumes "inner_at dg h x w sk ks ps"
  shows "child h x k = ps ! cidx k ks" "getChildIndex (nd h x) k = cidx k ks" "cidx k ks < length ps"
proof -
  obtain n where n: "h x = Some n" "node_ok dg n" "akeys n = ks"
    using assms by (auto simp: inner_at_def)
  show 1: "getChildIndex (nd h x) k = cidx k ks" using n getChildIndex_eq by simp
  show 2: "cidx k ks < length ps"
    using inner_at_length [OF assms] length_takeWhile_le [of _ ks] by (simp add: less_Suc_eq_le)
  show "child h x k = ps ! cidx k ks" using inner_at_nth(2) [OF assms 2] 1 by (simp add: child_def)
qed

lemma path_child:
  "coh dg h t \<Longrightarrow> x \<in> set (spath k t) \<Longrightarrow> \<not> ab_leaf (nd h x) \<Longrightarrow> child h x k \<in> set (spath k t)"
proof (induction t)
  case (Lf y sk ks vs)
  then show ?case by (auto simp: leaf_at_def)
next
  case (In y w sk ks cs)
  have i: "inner_at dg h y w sk ks (map rt cs)" using In.prems by simp
  note ch = inner_at_child [OF i, where k = k]
  have sp: "spaths k ks cs = spath k (cs ! cidx k ks)"
    using coh_length [OF In.prems(1)] by (rule spaths_nth)
  have mem: "cs ! cidx k ks \<in> set cs" using ch(3) by simp
  show ?case
  proof (cases "x = y")
    case True
    have "child h x k = rt (cs ! cidx k ks)" using True ch(1,3) by simp
    moreover have "rt t \<in> set (spath k t)" for t by (cases t) auto
    ultimately show ?thesis using sp by simp
  next
    case False
    then have "x \<in> set (spath k (cs ! cidx k ks))" using In.prems(2) sp by simp
    then have "child h x k \<in> set (spath k (cs ! cidx k ks))" using In.IH [OF mem] In.prems mem by auto
    then show ?thesis using sp by simp
  qed
qed

text \<open>The leaf on the path of \<open>k\<close> decides.\<close>

lemma path_leaf:
  "coh dg h t \<Longrightarrow> x \<in> set (spath k t) \<Longrightarrow> ab_leaf (nd h x) \<Longrightarrow>
   tlookup k t = map_of (zip (akeys (nd h x)) (aptrs (nd h x))) k"
proof (induction t)
  case (Lf y sk ks vs)
  then show ?case by (auto simp: leaf_at_def)
next
  case (In y w sk ks cs)
  have i: "inner_at dg h y w sk ks (map rt cs)" using In.prems by simp
  note ch = inner_at_child [OF i, where k = k]
  have sp: "spaths k ks cs = spath k (cs ! cidx k ks)" "tlookups k ks cs = tlookup k (cs ! cidx k ks)"
    using coh_length [OF In.prems(1)] by (simp_all add: spaths_nth tlookups_nth)
  have mem: "cs ! cidx k ks \<in> set cs" using ch(3) by simp
  have "x \<noteq> y" using i In.prems(3) by (auto simp: inner_at_def)
  then have "x \<in> set (spath k (cs ! cidx k ks))" using In.prems(2) sp by simp
  then show ?case using In.IH [OF mem] In.prems mem sp by auto
qed

end
