(* ===== verification/AbTree_Commit.thy ===== *)
theory AbTree_Commit
  imports AbTree_Heap
begin

text \<open>
  One successful SCX of the relaxed (a,b)-tree: what it changes in the heap, and that it replaces
  one subtree of the tree the heap holds.
\<close>

fun fleft :: "fr \<Rightarrow> tr list" where
  "fleft (Fr x w sk kl cl kr cr) = cl"

subsection \<open>What an SCX changes\<close>

lemma freeze_Cons: "freeze h ((x, v, f) # ds) =
    freeze (h(x \<mapsto> (nd h x)\<lparr>ab_scxPtr := Suc (ab_scxPtr (nd h x)), ab_marked := ab_marked (nd h x) \<or> f\<rparr>)) ds"
  by (simp add: freeze_def)

lemma freeze_other: "y \<notin> fst ` set ds \<Longrightarrow> freeze h ds y = h y"
proof (induction ds arbitrary: h)
  case Nil
  then show ?case by (simp add: freeze_def)
next
  case (Cons d ds)
  obtain x v f where "d = (x, v, f)" by (cases d)
  then show ?case using Cons by (simp add: freeze_Cons)
qed

lemma freeze_in: "(y, v, f) \<in> set ds \<Longrightarrow> distinct (map fst ds) \<Longrightarrow>
   freeze h ds y = Some ((nd h y)\<lparr>ab_scxPtr := Suc (ab_scxPtr (nd h y)), ab_marked := ab_marked (nd h y) \<or> f\<rparr>)"
proof (induction ds arbitrary: h)
  case (Cons d ds)
  obtain x v' f' where d: "d = (x, v', f')" by (cases d)
  show ?case
  proof (cases "x = y")
    case True
    then have "y \<notin> fst ` set ds" using Cons.prems(2) d by simp
    then have "f = f'" using Cons.prems(1) d True by (auto simp: image_iff)
    then show ?thesis using \<open>y \<notin> fst ` set ds\<close> d True by (simp add: freeze_Cons freeze_other)
  next
    case False
    then have "(y, v, f) \<in> set ds" using Cons.prems(1) d by auto
    then show ?thesis using Cons.IH Cons.prems(2) d False by (simp add: freeze_Cons)
  qed
qed simp

text \<open>Along an execution a node keeps its immutable fields, a leaf keeps everything, a marked
  node its pointers; and no pointer or mark changes without a new stamp.\<close>

definition node_le :: "ab_node \<Rightarrow> ab_node \<Rightarrow> bool" where
  "node_le n n' \<longleftrightarrow> ab_leaf n' = ab_leaf n \<and> ab_weight n' = ab_weight n \<and> ab_size n' = ab_size n
     \<and> ab_searchKey n' = ab_searchKey n \<and> ab_keys n' = ab_keys n
     \<and> length (ab_ptrs n') = length (ab_ptrs n) \<and> ab_scxPtr n \<le> ab_scxPtr n' \<and> (ab_marked n \<longrightarrow> ab_marked n')
     \<and> (ab_marked n \<or> ab_leaf n \<longrightarrow> ab_ptrs n' = ab_ptrs n)
     \<and> (ab_scxPtr n' = ab_scxPtr n \<longrightarrow> ab_ptrs n' = ab_ptrs n \<and> ab_marked n' = ab_marked n)"

definition heap_le :: "ab_heap \<Rightarrow> ab_heap \<Rightarrow> bool" where
  "heap_le h h' \<longleftrightarrow> (\<forall>x n. h x = Some n \<longrightarrow> (\<exists>n'. h' x = Some n' \<and> node_le n n'))"

lemma node_le_refl [simp]: "node_le n n"
  by (simp add: node_le_def)

lemma heap_le_refl [simp]: "heap_le h h"
  by (simp add: heap_le_def)

lemma node_le_trans: "node_le n1 n2 \<Longrightarrow> node_le n2 n3 \<Longrightarrow> node_le n1 n3"
  unfolding node_le_def by auto

lemma heap_le_trans: "heap_le h1 h2 \<Longrightarrow> heap_le h2 h3 \<Longrightarrow> heap_le h1 h3"
  unfolding heap_le_def using node_le_trans by meson

lemma heap_leD: "heap_le h h' \<Longrightarrow> h x = Some n \<Longrightarrow> \<exists>n'. h' x = Some n' \<and> node_le n n'"
  by (auto simp: heap_le_def)

lemma heap_le_nd:
  assumes "heap_le h h'" "x \<in> dom h"
  shows "x \<in> dom h'" "node_le (nd h x) (nd h' x)"
  using assms heap_leD by fastforce+

subsection \<open>The commit\<close>

text \<open>
  An SCX that changes pointer \<open>length cl\<close> of the node \<open>g\<close> above the hole from the root of
  \<open>u\<close> to that of \<open>u'\<close>, finalizing nodes of \<open>u\<close>: \<open>h1\<close> is the heap with the new nodes.
\<close>

definition unmarked_in :: "ab_heap \<Rightarrow> tr \<Rightarrow> bool" where
  "unmarked_in h T \<longleftrightarrow> (\<forall>x n. h x = Some n \<longrightarrow> \<not> ab_leaf n \<longrightarrow> (ab_marked n \<longleftrightarrow> x \<notin> set (addrs T)))"

definition ab_commit :: "nat \<Rightarrow> addr \<Rightarrow> ab_heap \<Rightarrow> ab_heap \<Rightarrow> ab_heap \<Rightarrow> fr \<Rightarrow> ctx \<Rightarrow> tr \<Rightarrow> tr \<Rightarrow>
    scx_dep list \<Rightarrow> nat \<Rightarrow> addr list \<Rightarrow> addr list \<Rightarrow> addr set \<Rightarrow> addr set \<Rightarrow> bool" where
  "ab_commit dg e h h1 h' F C u u' deps vg new gone W D \<longleftrightarrow>
     coh dg h (plug (F # C) u) \<and> good dg e (plug (F # C) u) \<and> (\<forall>f\<in>set (F # C). fr_ok f)
   \<and> reshape dg (F # C) u u' new gone W D
   \<and> distinct new \<and> set new \<inter> dom h = {} \<and> (\<forall>x. x \<notin> set new \<longrightarrow> h1 x = h x) \<and> coh dg h1 u'
   \<and> scxExecute False h1 ((faddr F, vg, False) # deps) (faddr F) (length (fleft F)) (rt u) (rt u') = Some h'
   \<and> distinct (map fst deps) \<and> fst ` set deps \<subseteq> set gone \<and> (\<forall>(x, v, f)\<in>set deps. f)
   \<and> (\<forall>x\<in>set gone. ab_leaf (nd h x) \<or> x \<in> fst ` set deps)
   \<and> (\<forall>x\<in>fst ` set deps. \<not> ab_leaf (nd h x))
   \<and> unmarked_in h (plug (F # C) u)"

lemma ab_commitD:
  assumes "ab_commit dg e h h1 h' F C u u' deps vg new gone W D"
  shows "coh dg h (plug (F # C) u)" "good dg e (plug (F # C) u)" "\<forall>f\<in>set (F # C). fr_ok f"
    "reshape dg (F # C) u u' new gone W D" "distinct new" "set new \<inter> dom h = {}" "\<And>x. x \<notin> set new \<Longrightarrow> h1 x = h x"
    "coh dg h1 u'"
    "scxExecute False h1 ((faddr F, vg, False) # deps) (faddr F) (length (fleft F)) (rt u) (rt u') = Some h'"
    "distinct (map fst deps)" "fst ` set deps \<subseteq> set gone" "\<forall>(x, v, f)\<in>set deps. f"
    "\<And>x. x \<in> set gone \<Longrightarrow> ab_leaf (nd h x) \<or> x \<in> fst ` set deps"
    "\<And>x. x \<in> fst ` set deps \<Longrightarrow> \<not> ab_leaf (nd h x)" "unmarked_in h (plug (F # C) u)"
proof -
  note c = assms [unfolded ab_commit_def]
  show "coh dg h (plug (F # C) u)" "good dg e (plug (F # C) u)" "\<forall>f\<in>set (F # C). fr_ok f"
    "reshape dg (F # C) u u' new gone W D" "distinct new" "set new \<inter> dom h = {}" "coh dg h1 u'"
    "scxExecute False h1 ((faddr F, vg, False) # deps) (faddr F) (length (fleft F)) (rt u) (rt u') = Some h'"
    "distinct (map fst deps)" "fst ` set deps \<subseteq> set gone" "\<forall>(x, v, f)\<in>set deps. f" "unmarked_in h (plug (F # C) u)"
    using c by - (elim conjE, assumption)+
  show "h1 x = h x" if "x \<notin> set new" for x using c that by - (elim conjE, erule allE, erule (1) mp)
  show "ab_leaf (nd h x) \<or> x \<in> fst ` set deps" if "x \<in> set gone" for x
    using c that by - (elim conjE, drule (1) bspec, assumption)
  show "\<not> ab_leaf (nd h x)" if "x \<in> fst ` set deps" for x
    using c that by - (elim conjE, drule (1) bspec, assumption)
qed

lemma commit_addrs:
  assumes c: "ab_commit dg e h h1 h' F C u u' deps vg new gone W D"
  shows "set (addrs (plug (F # C) u')) = (set (addrs (plug (F # C) u)) - set gone) \<union> set new" (is ?T)
    and "tree_step dg e (plug (F # C) u) (plug (F # C) u') (set new) (set gone) W D" (is ?S)
    and "distinct (caddrs (F # C) @ addrs u)" (is ?D)
    and "set gone \<subseteq> set (addrs u)" "set new \<inter> set (addrs (plug (F # C) u)) = {}"
    and "set (addrs u') \<inter> set gone = {}" "set (caddrs (F # C)) \<inter> set gone = {}" "set (caddrs (F # C)) \<inter> set new = {}"
    and "faddr F \<notin> set (addrs u')" "faddr F \<notin> set gone" "faddr F \<notin> set new"
proof -
  note a = ab_commitD [OF c]
  show nd: "set new \<inter> set (addrs (plug (F # C) u)) = {}" using coh_dom [OF a(1)] a(6) by blast
  show st: ?S by (rule reshape_tree_step [OF a(2,3) _ a(4,5) nd]) simp
  show T: ?T using st by (simp only: tree_step_def)
  show dis: ?D using a(2) distinct_plug by (simp only: good_def)
  show gu: "set gone \<subseteq> set (addrs u)" using a(4) by (simp add: reshape_def)
  have sub: "set (caddrs (F # C)) \<subseteq> set (addrs (plug (F # C) u))" unfolding addrs_plug by blast
  have gT: "set gone \<subseteq> set (addrs (plug (F # C) u))" using gu unfolding addrs_plug by blast
  show "set (addrs u') \<inter> set gone = {}" using T nd gT addrs_plug [of "F # C" u'] by blast
  have F: "faddr F \<in> set (caddrs (F # C))" by (cases F) simp
  show cg: "set (caddrs (F # C)) \<inter> set gone = {}" using dis gu by auto
  then show "faddr F \<notin> set gone" using F by auto
  show cn: "set (caddrs (F # C)) \<inter> set new = {}" using nd sub by blast
  then show "faddr F \<notin> set new" using F by auto
  have "distinct (addrs (plug (F # C) u'))" using st by (simp only: tree_step_def good_def)
  then have "distinct (caddrs (F # C) @ addrs u')" by (simp only: distinct_plug)
  then show "faddr F \<notin> set (addrs u')" using F by auto
qed

lemma coh_frame:
  "coh dg h (plug (Fr g w sk kl cl kr cr # C) u) \<longleftrightarrow>
     inner_at dg h g w sk (kl @ kr) (map rt cl @ rt u # map rt cr)
   \<and> (\<forall>c\<in>set cl \<union> set cr. coh dg h c) \<and> ccoh dg h C g \<and> coh dg h u"
  using coh_plug [of dg h "Fr g w sk kl cl kr cr # C" u] by auto

lemma frame_inner:
  assumes "coh dg h (plug (F # C) u)"
  shows "\<not> ab_leaf (nd h (faddr F))" "\<not> ab_marked (nd h (faddr F))" "faddr F \<in> dom h"
    "ab_ptrs (nd h (faddr F)) ! length (fleft F) = rt u"
proof -
  obtain g w sk kl cl kr cr where F: "F = Fr g w sk kl cl kr cr" by (cases F)
  have i: "inner_at dg h g w sk (kl @ kr) (map rt cl @ rt u # map rt cr)" using assms F coh_frame by blast
  then show "\<not> ab_leaf (nd h (faddr F))" "\<not> ab_marked (nd h (faddr F))" "faddr F \<in> dom h"
    using F by (auto simp: inner_at_def)
  show "ab_ptrs (nd h (faddr F)) ! length (fleft F) = rt u"
    using inner_at_nth(2) [OF i, of "length cl"] F by (simp add: nth_append)
qed

lemma commit_effect:
  assumes c: "ab_commit dg e h h1 h' F C u u' deps vg new gone W D"
  shows "x \<notin> insert (faddr F) (fst ` set deps) \<Longrightarrow> h' x = h1 x"
    and "x \<in> fst ` set deps \<Longrightarrow> h' x = Some ((nd h x)\<lparr>ab_scxPtr := Suc (ab_scxPtr (nd h x)), ab_marked := True\<rparr>)"
    and "h' (faddr F) = Some ((nd h (faddr F))\<lparr>ab_scxPtr := Suc (ab_scxPtr (nd h (faddr F))),
           ab_ptrs := (ab_ptrs (nd h (faddr F)))[length (fleft F) := rt u']\<rparr>)"
proof -
  note a = ab_commitD [OF c] and b = commit_addrs [OF c]
  define g where "g = faddr F"
  define ds where "ds = (g, vg, False) # deps"
  have d: "distinct (map fst ds)" using a(10,11) b(10) by (auto simp: ds_def g_def)
  have hx: "h1 x = h x" if "x \<in> insert g (fst ` set deps)" for x
    using that a(7,11) b(4,5,11) unfolding addrs_plug g_def by blast
  note fi = frame_inner [OF a(1), folded g_def]
  have fg: "freeze h1 ds g = Some ((nd h g)\<lparr>ab_scxPtr := Suc (ab_scxPtr (nd h g)), ab_marked := ab_marked (nd h g)\<rparr>)"
    using freeze_in [of g vg False ds h1] d hx [of g] by (simp add: ds_def)
  have ptr: "ab_ptrs (nd (freeze h1 ds) g) ! length (fleft F) = rt u" using fg fi(4) by simp
  have h': "h' = (freeze h1 ds)(g \<mapsto> (nd (freeze h1 ds) g)\<lparr>ab_ptrs := (ab_ptrs (nd (freeze h1 ds) g))[length (fleft F) := rt u']\<rparr>)"
    using a(9) ptr unfolding g_def [symmetric] ds_def [symmetric]
    by (simp add: scxExecute_def cas_field_def split: if_splits)
  show "h' x = h1 x" if "x \<notin> insert (faddr F) (fst ` set deps)"
    using that freeze_other [of x ds h1] by (simp add: h' ds_def g_def)
  show "h' (faddr F) = Some ((nd h (faddr F))\<lparr>ab_scxPtr := Suc (ab_scxPtr (nd h (faddr F))),
           ab_ptrs := (ab_ptrs (nd h (faddr F)))[length (fleft F) := rt u']\<rparr>)"
    by (simp add: h' fg g_def [symmetric])
  show "h' x = Some ((nd h x)\<lparr>ab_scxPtr := Suc (ab_scxPtr (nd h x)), ab_marked := True\<rparr>)"
    if x: "x \<in> fst ` set deps"
  proof -
    obtain v f where m: "(x, v, f) \<in> set deps" using x by auto
    have "f" using m a(12) by auto
    moreover have "x \<noteq> g" using x a(11) b(10) by (auto simp: g_def)
    ultimately show ?thesis
      using freeze_in [of x v f ds h1] d m x hx [of x] by (simp add: h' ds_def)
  qed
qed

lemma commit_keep:
  assumes c: "ab_commit dg e h h1 h' F C u u' deps vg new gone W D"
    and x: "x \<in> dom h" "x \<noteq> faddr F" "x \<notin> fst ` set deps"
  shows "h' x = h x"
  using commit_effect(1) [OF c, of x] ab_commitD(6,7) [OF c] x by auto

lemma commit_heap_le:
  assumes c: "ab_commit dg e h h1 h' F C u u' deps vg new gone W D"
  shows "heap_le h h'"
  unfolding heap_le_def
proof (intro allI impI)
  fix x n
  assume n: "h x = Some n"
  consider "x = faddr F" | "x \<in> fst ` set deps" | "x \<noteq> faddr F" "x \<notin> fst ` set deps" by blast
  then show "\<exists>n'. h' x = Some n' \<and> node_le n n'"
  proof cases
    case 1
    then show ?thesis
      using frame_inner [OF ab_commitD(1) [OF c]] commit_effect(3) [OF c] n by (simp add: node_le_def)
  next
    case 2
    then show ?thesis using commit_effect(2) [OF c 2] n by (simp add: node_le_def)
  next
    case 3
    then show ?thesis using commit_keep [OF c, of x] n by (auto simp: domIff)
  qed
qed

lemma commit_coh:
  assumes c: "ab_commit dg e h h1 h' F C u u' deps vg new gone W D"
  shows "coh dg h' (plug (F # C) u')"
proof -
  note a = ab_commitD [OF c] and b = commit_addrs [OF c]
  obtain g w sk kl cl kr cr where F: "F = Fr g w sk kl cl kr cr" by (cases F)
  have T: "inner_at dg h g w sk (kl @ kr) (map rt cl @ rt u # map rt cr)" "\<forall>c\<in>set cl \<union> set cr. coh dg h c"
    "ccoh dg h C g" using a(1) F coh_frame by auto
  have core: "same_core h1 h' x" if "x \<notin> insert g (fst ` set deps)" for x
    using commit_effect(1) [OF c, of x] that F by (simp add: same_core_def)
  have u': "coh dg h' u'"
  proof (rule coh_cong [OF a(8)])
    have "x \<notin> insert g (fst ` set deps)" if "x \<in> set (addrs u')" for x
      using b(6,9) a(11) F that by auto
    then show "\<forall>x\<in>set (addrs u'). same_core h1 h' x" using core by blast
  qed
  have inT: "same_core h h' x" if x: "x \<in> set (caddrs (F # C))" "x \<noteq> g" for x
  proof -
    have "x \<in> dom h" using coh_dom [OF a(1), of x] x(1) unfolding addrs_plug by auto
    moreover have "x \<notin> fst ` set deps" using x(1) b(7) a(11) by blast
    ultimately show ?thesis using commit_keep [OF c] x(2) F by (simp add: same_core_def)
  qed
  have dis: "g \<notin> set (concat (map addrs (cl @ cr)) @ caddrs C)" using b(3) F by auto
  have sib: "coh dg h' c" if c: "c \<in> set cl \<union> set cr" for c
  proof (rule coh_cong)
    show "coh dg h c" using T(2) c by blast
    have "set (addrs c) \<subseteq> set (caddrs (F # C))" using c F by auto
    moreover have "g \<notin> set (addrs c)" using dis c by auto
    ultimately show "\<forall>x\<in>set (addrs c). same_core h h' x" using inT by blast
  qed
  have up: "ccoh dg h' C g"
  proof (rule ccoh_cong [OF T(3)])
    have "set (caddrs C) \<subseteq> set (caddrs (F # C))" using F by auto
    then show "\<forall>x\<in>set (caddrs C). same_core h h' x" using inT dis by auto
  qed
  have "inner_at dg h' g w sk (kl @ kr) (map rt cl @ rt u' # map rt cr)"
  proof -
    obtain n where n: "h g = Some n" "node_ok dg n" "\<not> ab_leaf n" "ab_weight n = w" "\<not> ab_marked n"
      "ab_searchKey n = sk" "akeys n = kl @ kr" "aptrs n = map rt cl @ rt u # map rt cr"
      using T(1) by (auto simp: inner_at_def)
    have "aptrs (n\<lparr>ab_scxPtr := s, ab_ptrs := (ab_ptrs n)[length cl := rt u']\<rparr>) = (aptrs n)[length cl := rt u']" for s
      by (simp add: aptrs_def take_update_swap)
    then show ?thesis
      using n commit_effect(3) [OF c] F
      by (simp add: inner_at_def node_ok_def akeys_def getKeyCount_def list_update_append)
  qed
  then show ?thesis using u' sib up F coh_frame by blast
qed

lemma commit_removed:
  assumes c: "ab_commit dg e h h1 h' F C u u' deps vg new gone W D"
    and x: "x \<in> dom h" "x \<notin> set (addrs (plug (F # C) u'))"
  shows "ab_ptrs (nd h' x) = ab_ptrs (nd h x)"
proof -
  have "faddr F \<in> set (caddrs (F # C))" by (cases F) simp
  then have "x \<noteq> faddr F" using x(2) unfolding addrs_plug by blast
  then show ?thesis using commit_keep [OF c x(1)] commit_effect(2) [OF c, of x] by (cases "x \<in> fst ` set deps") auto
qed

lemma commit_dom:
  assumes c: "ab_commit dg e h h1 h' F C u u' deps vg new gone W D" and x: "x \<in> dom h'"
  shows "x \<in> dom h \<or> x \<in> set new"
proof (cases "x \<in> insert (faddr F) (fst ` set deps)")
  case True
  then have "x \<in> set (addrs (plug (F # C) u)) \<or> x = faddr F"
    using ab_commitD(11) [OF c] commit_addrs(4) [OF c] unfolding addrs_plug by blast
  then show ?thesis using coh_dom [OF ab_commitD(1) [OF c]] frame_inner(3) [OF ab_commitD(1) [OF c]] by blast
next
  case False
  then show ?thesis using commit_effect(1) [OF c False] ab_commitD(7) [OF c, of x] x by (auto simp: domIff)
qed

lemma commit_marks:
  assumes c: "ab_commit dg e h h1 h' F C u u' deps vg new gone W D"
  shows "unmarked_in h' (plug (F # C) u')"
  unfolding unmarked_in_def
proof (intro allI impI)
  fix x n
  assume n: "h' x = Some n" "\<not> ab_leaf n"
  note a = ab_commitD [OF c] and b = commit_addrs [OF c]
  have inT': "\<not> ab_marked n" if "x \<in> set (addrs (plug (F # C) u'))"
    using coh_dom [OF commit_coh [OF c] that] n by auto
  have "ab_marked n" if out: "x \<notin> set (addrs (plug (F # C) u'))"
  proof -
    have "x \<in> dom h" using commit_dom [OF c, of x] n out b(1) by auto
    then obtain m where m: "h x = Some m" by auto
    have le: "node_le m n" using heap_leD [OF commit_heap_le [OF c] m] n by auto
    consider "x \<in> set gone" | "x \<notin> set (addrs (plug (F # C) u))" using out b(1) by blast
    then show ?thesis
    proof cases
      case 1
      have "\<not> ab_leaf (nd h x)" using le n m by (auto simp: node_le_def)
      then show ?thesis using a(13) [OF 1] commit_effect(2) [OF c, of x] n by auto
    next
      case 2
      then have "ab_marked m" using a(15) m n(2) le unfolding unmarked_in_def node_le_def by metis
      then show ?thesis using le by (simp add: node_le_def)
    qed
  qed
  then show "ab_marked n \<longleftrightarrow> x \<notin> set (addrs (plug (F # C) u'))" using inT' by blast
qed

end
