(* ===== verification/AbTree_Inv.thy ===== *)
theory AbTree_Inv
  imports AbTree_Commit
begin

text \<open>
  The invariant of the (a,b)-tree machine: every heap of the history holds a tree, the trees of the
  history are related by single replacements, and what every frame of every thread knows. The
  sequential specification of the operations, and what it means that a result is linearizable.
\<close>

subsection \<open>The dictionary, and linearizability of a result\<close>

definition dict :: "tr \<Rightarrow> int \<Rightarrow> nat option" where
  "dict T = map_of (tcontent T)"

fun ab_spec :: "ab_op \<Rightarrow> (int \<Rightarrow> nat option) \<Rightarrow> (int \<Rightarrow> nat option) \<times> ab_res" where
  "ab_spec (OpFind k) m =
     (m, case m k of Some v \<Rightarrow> RPair v True | None \<Rightarrow> RPair AB_NO_VALUE False)"
| "ab_spec (OpInsert k v replace) m =
     (case m k of
        Some old \<Rightarrow> (if replace then m(k \<mapsto> v) else m, RPtr old)
      | None \<Rightarrow> (m(k \<mapsto> v), RPtr AB_NO_VALUE))"
| "ab_spec (OpErase k) m =
     (case m k of
        Some old \<Rightarrow> (m(k := None), RPair old True)
      | None \<Rightarrow> (m, RPair AB_NO_VALUE False))"

text \<open>At some moment \<open>j\<close> since the invocation \<open>i0\<close> the operation takes the dictionary of that
  moment to that of the same or of the next moment, and returns the result.\<close>

definition lin :: "tr list \<Rightarrow> ab_op \<Rightarrow> nat \<Rightarrow> ab_res \<Rightarrow> bool" where
  "lin Ts op i0 r \<longleftrightarrow> (\<exists>j j'. i0 \<le> j \<and> j \<le> j' \<and> j' \<le> Suc j \<and> j' < length Ts
     \<and> ab_spec op (dict (Ts ! j)) = (dict (Ts ! j'), r))"

lemma lin_append: "lin Ts op i0 r \<Longrightarrow> lin (Ts @ [T]) op i0 r"
proof -
  assume "lin Ts op i0 r"
  then obtain j j' where j: "i0 \<le> j" "j \<le> j'" "j' \<le> Suc j" "j' < length Ts"
    "ab_spec op (dict (Ts ! j)) = (dict (Ts ! j'), r)" unfolding lin_def by blast
  then have "(Ts @ [T]) ! j = Ts ! j" "(Ts @ [T]) ! j' = Ts ! j'" by (simp_all add: nth_append)
  then show ?thesis unfolding lin_def using j by (intro exI [of _ j] exI [of _ j']) simp
qed

subsection \<open>The history\<close>

definition closed_heap :: "ab_heap \<Rightarrow> bool" where
  "closed_heap h \<longleftrightarrow> (\<forall>x n i. h x = Some n \<longrightarrow> \<not> ab_leaf n \<longrightarrow> i < getABDegree n \<longrightarrow> ab_ptrs n ! i \<in> dom h)"

definition seen :: "tr list \<Rightarrow> nat \<Rightarrow> int \<Rightarrow> addr \<Rightarrow> bool" where
  "seen Ts st k x \<longleftrightarrow> (\<exists>j. st \<le> j \<and> j < length Ts \<and> x \<in> set (spath k (Ts ! j)))"

definition hinv :: "nat \<Rightarrow> addr \<Rightarrow> ab_heap list \<Rightarrow> tr list \<Rightarrow> bool" where
  "hinv dg e hs Ts \<longleftrightarrow> hs \<noteq> [] \<and> length Ts = length hs
     \<and> (\<forall>i<length hs. coh dg (hs ! i) (Ts ! i) \<and> good dg e (Ts ! i) \<and> heap_le (hs ! i) (last hs))
     \<and> unmarked_in (last hs) (last Ts) \<and> closed_heap (last hs)
     \<and> (\<forall>k x i. i < length Ts \<longrightarrow> x \<in> set (spath k (Ts ! i)) \<longrightarrow> x \<in> set (addrs (last Ts)) \<longrightarrow> x \<in> set (spath k (last Ts)))
     \<and> (\<forall>k x i. i < length Ts \<longrightarrow> x \<in> set (spath k (Ts ! i)) \<longrightarrow> x \<notin> set (addrs (last Ts)) \<longrightarrow> \<not> ab_leaf (nd (last hs) x) \<longrightarrow>
          seen Ts i k (child (last hs) x k))"

lemma hinvD:
  assumes "hinv dg e hs Ts"
  shows "hs \<noteq> []" "length Ts = length hs" "Ts \<noteq> []"
    "i < length hs \<Longrightarrow> coh dg (hs ! i) (Ts ! i)" "i < length hs \<Longrightarrow> good dg e (Ts ! i)"
    "i < length hs \<Longrightarrow> heap_le (hs ! i) (last hs)"
    "unmarked_in (last hs) (last Ts)" "closed_heap (last hs)"
    "i < length Ts \<Longrightarrow> x \<in> set (spath k (Ts ! i)) \<Longrightarrow> x \<in> set (addrs (last Ts)) \<Longrightarrow> x \<in> set (spath k (last Ts))"
    "i < length Ts \<Longrightarrow> x \<in> set (spath k (Ts ! i)) \<Longrightarrow> x \<notin> set (addrs (last Ts)) \<Longrightarrow> \<not> ab_leaf (nd (last hs) x) \<Longrightarrow>
          seen Ts i k (child (last hs) x k)"
  using assms unfolding hinv_def by auto

lemma hinv_last:
  assumes "hinv dg e hs Ts"
  shows "coh dg (last hs) (last Ts)" "good dg e (last Ts)"
  using hinvD [OF assms] by (simp_all add: last_conv_nth)

lemma seen_last: "Ts \<noteq> [] \<Longrightarrow> st < length Ts \<Longrightarrow> x \<in> set (spath k (last Ts)) \<Longrightarrow> seen Ts st k x"
  unfolding seen_def by (intro exI [of _ "length Ts - 1"]) (auto simp: last_conv_nth)

lemma seen_append: "seen Ts st k x \<Longrightarrow> seen (Ts @ [T]) st k x"
  unfolding seen_def by (metis length_append_singleton less_SucI nth_append)

lemma seen_dom:
  assumes "hinv dg e hs Ts" "seen Ts st k x"
  shows "x \<in> dom (last hs)" "node_ok dg (nd (last hs) x)"
proof -
  obtain j where j: "j < length Ts" "x \<in> set (spath k (Ts ! j))" using assms(2) unfolding seen_def by blast
  then have j': "j < length hs" using hinvD(2) [OF assms(1)] by simp
  have "x \<in> set (addrs (Ts ! j))" using j(2) spath_addrs by blast
  then obtain n where n: "(hs ! j) x = Some n" "node_ok dg n"
    using coh_dom [OF hinvD(4) [OF assms(1) j']] by blast
  obtain n' where n': "last hs x = Some n'" "node_le n n'"
    using heap_leD [OF hinvD(6) [OF assms(1) j'] n(1)] by blast
  then show "x \<in> dom (last hs)" "node_ok dg (nd (last hs) x)"
    using n(2) by (auto simp: node_le_def node_ok_def)
qed

lemma seen_child:
  assumes h: "hinv dg e hs Ts" and x: "seen Ts st k x" "\<not> ab_leaf (nd (last hs) x)"
  shows "seen Ts st k (child (last hs) x k)"
proof -
  obtain j where j: "st \<le> j" "j < length Ts" "x \<in> set (spath k (Ts ! j))" using x(1) unfolding seen_def by blast
  show ?thesis
  proof (cases "x \<in> set (addrs (last Ts))")
    case True
    have "x \<in> set (spath k (last Ts))" by (rule hinvD(9) [OF h j(2,3) True])
    then have "child (last hs) x k \<in> set (spath k (last Ts))"
      using path_child [OF hinv_last(1) [OF h]] x(2) by blast
    then show ?thesis using seen_last hinvD(3) [OF h] j by fastforce
  next
    case False
    have "seen Ts j k (child (last hs) x k)" by (rule hinvD(10) [OF h j(2,3) False x(2)])
    then show ?thesis using j(1) unfolding seen_def by (meson le_trans)
  qed
qed

subsection \<open>What a leaf says about a key\<close>

lemma map_of_zip_sorted:
  "sorted_wrt (<) ks \<Longrightarrow> length vs = length ks \<Longrightarrow>
   map_of (zip ks vs) k = (if kidx k ks < length ks \<and> ks ! kidx k ks = k then Some (vs ! kidx k ks) else None)"
proof (induction ks arbitrary: vs)
  case Nil
  then show ?case by simp
next
  case (Cons s ks)
  obtain v vs' where vs: "vs = v # vs'" using Cons.prems(2) by (cases vs) auto
  consider "s < k" | "s = k" | "k < s" by linarith
  then show ?case
  proof cases
    case 3
    then have "k \<notin> set (s # ks)" using Cons.prems(1) by auto
    then have "map_of (zip (s # ks) vs) k = None" by (metis map_of_eq_None_iff map_of_zip_is_None Cons.prems(2))
    then show ?thesis using 3 by simp
  qed (use Cons vs in auto)
qed

lemma leaf_sorted:
  "coh dg h t \<Longrightarrow> srt lo hi t \<Longrightarrow> x \<in> set (addrs t) \<Longrightarrow> ab_leaf (nd h x) \<Longrightarrow> sorted_wrt (<) (akeys (nd h x))"
  "\<forall>c\<in>set cs. coh dg h c \<Longrightarrow> srts lo ks cs hi \<Longrightarrow> x \<in> set (concat (map addrs cs)) \<Longrightarrow> ab_leaf (nd h x) \<Longrightarrow>
     sorted_wrt (<) (akeys (nd h x))"
proof (induction lo hi t and lo ks cs hi rule: srt_srts.induct)
  case (1 lo hi y sk ks vs)
  then show ?case by (auto simp: leaf_at_def)
next
  case (2 lo hi y w sk ks cs)
  then show ?case by (auto simp: inner_at_def)
qed auto

lemma key_at_lookup:
  assumes "node_ok dg n" "ab_leaf n" "sorted_wrt (<) (akeys n)"
  shows "map_of (zip (akeys n) (aptrs n)) k = (if key_at n k then Some (ab_ptrs n ! getKeyIndex n k) else None)"
proof -
  have len: "length (akeys n) = getKeyCount n" "length (aptrs n) = length (akeys n)" "getKeyCount n = ab_size n"
    using assms node_okD by (auto simp: getKeyCount_def)
  show ?thesis
    using map_of_zip_sorted [OF assms(3) len(2), of k] getKeyIndex_eq [OF assms(1), of k] len
    by (auto simp: key_at_def akeys_nth aptrs_nth)
qed

lemma seen_leaf:
  assumes h: "hinv dg e hs Ts" and x: "seen Ts st k x" "ab_leaf (nd (last hs) x)"
  shows "\<exists>j. st \<le> j \<and> j < length Ts \<and> dict (Ts ! j) k
    = (if key_at (nd (last hs) x) k then Some (ab_ptrs (nd (last hs) x) ! getKeyIndex (nd (last hs) x) k) else None)"
proof -
  obtain j where j: "st \<le> j" "j < length Ts" "x \<in> set (spath k (Ts ! j))" using x(1) unfolding seen_def by blast
  then have j': "j < length hs" using hinvD(2) [OF h] by simp
  note c = hinvD(4) [OF h j'] and g = hinvD(5) [OF h j']
  have srt: "srt None None (Ts ! j)" using g by (simp add: good_def)
  have xa: "x \<in> set (addrs (Ts ! j))" using j(3) spath_addrs by blast
  obtain n where n: "(hs ! j) x = Some n" "node_ok dg n" using coh_dom [OF c xa] by blast
  obtain n' where n': "last hs x = Some n'" "node_le n n'"
    using heap_leD [OF hinvD(6) [OF h j'] n(1)] by blast
  have lf: "ab_leaf n" using n' x(2) by (simp add: node_le_def)
  have same: "key_at n' k = key_at n k" "ab_ptrs n' = ab_ptrs n" "getKeyIndex n' k = getKeyIndex n k"
    using n'(2) lf by (simp_all add: node_le_def key_at_def getKeyIndex_def getKeyCount_def)
  have "dict (Ts ! j) k = tlookup k (Ts ! j)" using tlookup_content(1) [OF srt] by (simp add: dict_def)
  also have "\<dots> = map_of (zip (akeys n) (aptrs n)) k" using path_leaf [OF c j(3)] n lf by simp
  also have "\<dots> = (if key_at n k then Some (ab_ptrs n ! getKeyIndex n k) else None)"
    using key_at_lookup [OF n(2) lf] leaf_sorted(1) [OF c srt xa] n lf by simp
  finally show ?thesis using j same n' by auto
qed

subsection \<open>A commit extends the history\<close>

lemma closed_commit:
  assumes c: "ab_commit dg e h h1 h' F C u u' deps vg new gone W D" and cl: "closed_heap h"
  shows "closed_heap h'"
  unfolding closed_heap_def
proof (intro allI impI)
  fix x n i
  assume n: "h' x = Some n" "\<not> ab_leaf n" "i < getABDegree n"
  have sub: "dom h \<subseteq> dom h'" using heap_le_nd(1) [OF commit_heap_le [OF c]] by blast
  show "ab_ptrs n ! i \<in> dom h'"
  proof (cases "x \<in> set (addrs (plug (F # C) u'))")
    case True
    have cT: "coh dg h' (plug (F # C) u')" by (rule commit_coh [OF c])
    obtain D v where D: "plug (F # C) u' = plug D v" "rt v = x" using locate [OF cT True] by blast
    have cv: "coh dg h' v" using cT unfolding D(1) coh_plug by blast
    then obtain w sk ks cs where v: "v = In x w sk ks cs" using D(2) n by (cases v) (auto simp: leaf_at_def)
    then have i: "inner_at dg h' x w sk ks (map rt cs)" using cv by simp
    have len: "i < length cs" using inner_at_nth(1) [OF i] n by simp
    then have "ab_ptrs n ! i = rt (cs ! i)" using inner_at_nth(2) [OF i, of i] n by simp
    moreover have "coh dg h' (cs ! i)" using cv v len by simp
    ultimately show ?thesis using coh_rt(4) by fastforce
  next
    case False
    then have "x \<in> dom h" using commit_dom [OF c, of x] n commit_addrs(1) [OF c] by auto
    then obtain m where m: "h x = Some m" by auto
    have le: "node_le m n" using heap_leD [OF commit_heap_le [OF c] m] n by auto
    have "ab_ptrs n = ab_ptrs m" using commit_removed [OF c \<open>x \<in> dom h\<close> False] m n by simp
    then have "ab_ptrs n ! i \<in> dom h" using cl m n le unfolding closed_heap_def node_le_def by metis
    then show ?thesis using sub by blast
  qed
qed

lemma same_path_mem:
  assumes "same_path Z k t t'" "x \<in> set (spath k t)" "x \<notin> Z"
  shows "x \<in> set (spath k t')"
proof -
  have "x \<in> set (filter (\<lambda>x. x \<notin> Z) (spath k t))" using assms by simp
  then have "x \<in> set (filter (\<lambda>x. x \<notin> Z) (spath k t'))" using assms(1) by (simp only: same_path_def)
  then show ?thesis by simp
qed

lemma child_same:
  assumes "node_le n n'" "ab_ptrs n' = ab_ptrs n" "h x = Some n" "h' x = Some n'"
  shows "child h' x k = child h x k"
  using assms by (simp add: child_def node_le_def getChildIndex_def getKeyCount_def)

lemma hinv_commit:
  assumes h: "hinv dg e hs Ts" and T: "last Ts = plug (F # C) u"
    and c: "ab_commit dg e (last hs) h1 h' F C u u' deps vg new gone W D"
  shows "hinv dg e (hs @ [h']) (Ts @ [plug (F # C) u'])"
proof -
  let ?T' = "plug (F # C) u'"
  note d = hinvD [OF h]
  have st: "tree_step dg e (last Ts) ?T' (set new) (set gone) W D" using commit_addrs(2) [OF c] T by simp
  have pth: "same_path (set new \<union> set gone) k (last Ts) ?T'" for k using st unfolding tree_step_def by blast
  have aT': "set (addrs ?T') = (set (addrs (last Ts)) - set gone) \<union> set new" using st unfolding tree_step_def by blast
  have le: "heap_le (last hs) h'" by (rule commit_heap_le [OF c])
  have nw: "set new \<inter> dom (last hs) = {}" using ab_commitD(6) [OF c] .
  have onp: "x \<in> set (spath k ?T')" if x: "i < length Ts" "x \<in> set (spath k (Ts ! i))" "x \<in> set (addrs ?T')" for k x i
  proof -
    have "seen Ts i k x" using x unfolding seen_def by blast
    then have "x \<notin> set new" using seen_dom [OF h] nw by blast
    then have xT: "x \<in> set (addrs (last Ts))" "x \<notin> set gone" using x(3) aT' ab_commitD(1) [OF c] commit_addrs(5) [OF c] by auto
    have "x \<in> set (spath k (last Ts))" by (rule d(9) [OF x(1,2) xT(1)])
    then show ?thesis using same_path_mem [OF pth] \<open>x \<notin> set new\<close> xT(2) by blast
  qed
  have chl: "seen (Ts @ [?T']) i k (child h' x k)"
    if x: "i < length Ts" "x \<in> set (spath k (Ts ! i))" "x \<notin> set (addrs ?T')" "\<not> ab_leaf (nd h' x)" for k x i
  proof -
    have sx: "seen Ts i k x" using x unfolding seen_def by blast
    have xd: "x \<in> dom (last hs)" using seen_dom [OF h sx] by blast
    then obtain n where n: "last hs x = Some n" by auto
    obtain n' where n': "h' x = Some n'" "node_le n n'" using heap_leD [OF le n] by blast
    have "ab_ptrs n' = ab_ptrs n" using commit_removed [OF c xd x(3)] n n' by simp
    then have ch: "child h' x k = child (last hs) x k" using child_same n n' by blast
    have "\<not> ab_leaf (nd (last hs) x)" using x(4) n n' by (simp add: node_le_def)
    then show ?thesis using seen_append [OF seen_child [OF h sx]] ch by simp
  qed
  show ?thesis
    unfolding hinv_def
  proof (intro conjI allI impI)
    show "length (Ts @ [?T']) = length (hs @ [h'])" using d(2) by simp
    show "coh dg ((hs @ [h']) ! i) ((Ts @ [?T']) ! i)" if "i < length (hs @ [h'])" for i
      using that d(2) d(4) [of i] commit_coh [OF c] by (cases "i < length hs") (auto simp: nth_append)
    show "good dg e ((Ts @ [?T']) ! i)" if "i < length (hs @ [h'])" for i
      using that d(2) d(5) [of i] st unfolding tree_step_def by (cases "i < length hs") (auto simp: nth_append)
    show "heap_le ((hs @ [h']) ! i) (last (hs @ [h']))" if "i < length (hs @ [h'])" for i
      using that d(6) [of i] le heap_le_trans by (cases "i < length hs") (auto simp: nth_append)
    show "unmarked_in (last (hs @ [h'])) (last (Ts @ [?T']))" using commit_marks [OF c] by simp
    show "closed_heap (last (hs @ [h']))" using closed_commit [OF c d(8)] by simp
    show "x \<in> set (spath k (last (Ts @ [?T'])))"
      if "i < length (Ts @ [?T'])" "x \<in> set (spath k ((Ts @ [?T']) ! i))" "x \<in> set (addrs (last (Ts @ [?T'])))" for k x i
      using that onp by (cases "i < length Ts") (auto simp: nth_append)
    show "seen (Ts @ [?T']) i k (child (last (hs @ [h'])) x k)"
      if "i < length (Ts @ [?T'])" "x \<in> set (spath k ((Ts @ [?T']) ! i))" "x \<notin> set (addrs (last (Ts @ [?T'])))"
        "\<not> ab_leaf (nd (last (hs @ [h'])) x)" for k x i
      using that chl spath_addrs(1) [of k ?T'] by (cases "i < length Ts") (auto simp: nth_append)
  qed simp
qed

end
