(* ===== verification/AbTree_Frames.thy ===== *)
theory AbTree_Frames
  imports AbTree_Inv
begin

text \<open>
  What a frame of the (a,b)-tree machine knows: its search went along the path of its key, an LLX
  that is still current vouches for the pointers that were checked after it, a rebalancing function
  holds a node with a violation that is not the root, and a finished operation has a linearizable
  result. A commit of any thread keeps what the frames of all threads know.
\<close>

subsection \<open>What a frame knows\<close>

definition dep_ok :: "ab_heap \<Rightarrow> addr \<Rightarrow> nat \<Rightarrow> (nat list \<Rightarrow> bool) \<Rightarrow> bool" where
  "dep_ok h x v P \<longleftrightarrow> x \<in> dom h \<and> v \<le> ab_scxPtr (nd h x)
     \<and> (ab_scxPtr (nd h x) = v \<longrightarrow> \<not> ab_marked (nd h x) \<and> P (ab_ptrs (nd h x)))"

definition srch_ok :: "ab_heap \<Rightarrow> tr list \<Rightarrow> int \<Rightarrow> srch \<Rightarrow> bool" where
  "srch_ok h Ts k sr \<longleftrightarrow> s_st sr < length Ts
     \<and> seen Ts (s_st sr) k (s_l sr) \<and> s_l sr \<in> dom h
     \<and> seen Ts (s_st sr) k (s_p sr) \<and> s_p sr \<in> dom h \<and> \<not> ab_leaf (nd h (s_p sr))
     \<and> s_ixL sr = getChildIndex (nd h (s_p sr)) k
     \<and> (\<forall>g. s_gp sr = Some g \<longrightarrow> seen Ts (s_st sr) k g \<and> g \<in> dom h \<and> \<not> ab_leaf (nd h g)
          \<and> s_ixP sr = int (getChildIndex (nd h g) k))"

fun op_ok :: "ab_op \<Rightarrow> ab_node \<Rightarrow> bool" where
  "op_ok (OpFind k) l \<longleftrightarrow> False"
| "op_ok (OpInsert k v r) l \<longleftrightarrow> (key_at l k \<longrightarrow> r)"
| "op_ok (OpErase k) l \<longleftrightarrow> key_at l k"

definition viol_ok :: "nat \<Rightarrow> addr \<Rightarrow> ab_heap \<Rightarrow> tr list \<Rightarrow> fix_kind \<Rightarrow> addr \<Rightarrow> bool" where
  "viol_ok dg e h Ts fk viol \<longleftrightarrow> viol \<in> dom h \<and> viol \<noteq> rootaddr (last Ts) \<and>
     (case fk of FixWeight \<Rightarrow> \<not> ab_weight (nd h viol)
      | FixDegree \<Rightarrow> getABDegree (nd h viol) < min_deg dg \<and> viol \<noteq> e)"

definition fx_ok :: "nat \<Rightarrow> addr \<Rightarrow> ab_heap \<Rightarrow> tr list \<Rightarrow> fix_kind \<Rightarrow> addr \<Rightarrow> srch \<Rightarrow> bool" where
  "fx_ok dg e h Ts fk viol sr \<longleftrightarrow> viol_ok dg e h Ts fk viol \<and> srch_ok h Ts (ab_searchKey (nd h viol)) sr
     \<and> (s_gp sr = None \<longrightarrow> s_l sr \<noteq> viol)"

definition at_ok :: "nat \<Rightarrow> addr \<Rightarrow> ab_heap \<Rightarrow> tr list \<Rightarrow> fix_kind \<Rightarrow> addr \<Rightarrow> srch \<Rightarrow> bool" where
  "at_ok dg e h Ts fk viol sr \<longleftrightarrow> fx_ok dg e h Ts fk viol sr \<and> s_l sr = viol
     \<and> (fk = FixWeight \<longrightarrow> ab_weight (nd h (s_p sr)))"

definition gp_ok :: "ab_heap \<Rightarrow> srch \<Rightarrow> nat \<Rightarrow> bool" where
  "gp_ok h sr vg \<longleftrightarrow> dep_ok h (the (s_gp sr)) vg (\<lambda>ps. ps ! nat (s_ixP sr) = s_p sr)"

definition p_ok :: "ab_heap \<Rightarrow> srch \<Rightarrow> nat \<Rightarrow> bool" where
  "p_ok h sr vp \<longleftrightarrow> dep_ok h (s_p sr) vp (\<lambda>ps. ps ! s_ixL sr = s_l sr)"

definition s_ok :: "ab_heap \<Rightarrow> srch \<Rightarrow> nat \<Rightarrow> addr \<Rightarrow> bool" where
  "s_ok h sr vp s \<longleftrightarrow> s \<in> dom h \<and> sib_ix (s_ixL sr) < getABDegree (nd h (s_p sr))
     \<and> dep_ok h (s_p sr) vp (\<lambda>ps. ps ! sib_ix (s_ixL sr) = s)
     \<and> ab_weight (nd h (s_p sr)) \<and> ab_weight (nd h (s_l sr)) \<and> ab_weight (nd h s)"

fun frame_ok :: "nat \<Rightarrow> addr \<Rightarrow> ab_heap \<Rightarrow> tr list \<Rightarrow> frame \<Rightarrow> bool" where
  "frame_ok dg e h Ts (OpStart op i0) \<longleftrightarrow> i0 < length Ts"
| "frame_ok dg e h Ts (OpSearch op i0 sr) \<longleftrightarrow> i0 \<le> s_st sr \<and> srch_ok h Ts (op_key op) sr"
| "frame_ok dg e h Ts (OpLeaf op i0 sr) \<longleftrightarrow> i0 \<le> s_st sr \<and> srch_ok h Ts (op_key op) sr \<and> ab_leaf (nd h (s_l sr))"
| "frame_ok dg e h Ts (OpLlx op i0 sr) \<longleftrightarrow> i0 \<le> s_st sr \<and> srch_ok h Ts (op_key op) sr \<and> ab_leaf (nd h (s_l sr))
     \<and> op_ok op (nd h (s_l sr))"
| "frame_ok dg e h Ts (OpChk op i0 sr v) \<longleftrightarrow> i0 \<le> s_st sr \<and> srch_ok h Ts (op_key op) sr \<and> ab_leaf (nd h (s_l sr))
     \<and> op_ok op (nd h (s_l sr)) \<and> dep_ok h (s_p sr) v (\<lambda>_. True)"
| "frame_ok dg e h Ts (OpScx op i0 sr v) \<longleftrightarrow> i0 \<le> s_st sr \<and> srch_ok h Ts (op_key op) sr \<and> ab_leaf (nd h (s_l sr))
     \<and> op_ok op (nd h (s_l sr)) \<and> p_ok h sr v"
| "frame_ok dg e h Ts (OpEnd op i0 res) \<longleftrightarrow> lin Ts op i0 res"
| "frame_ok dg e h Ts (FxStart fk viol) \<longleftrightarrow> viol \<in> dom h"
| "frame_ok dg e h Ts (FxLlxViol fk viol) \<longleftrightarrow> viol_ok dg e h Ts fk viol"
| "frame_ok dg e h Ts (FxLoop fk viol) \<longleftrightarrow> viol_ok dg e h Ts fk viol"
| "frame_ok dg e h Ts (FxSearch fk viol sr) \<longleftrightarrow> fx_ok dg e h Ts fk viol sr"
| "frame_ok dg e h Ts (FxFound fk viol sr) \<longleftrightarrow> fx_ok dg e h Ts fk viol sr"
| "frame_ok dg e h Ts (FxLlxGp fk viol sr) \<longleftrightarrow> at_ok dg e h Ts fk viol sr"
| "frame_ok dg e h Ts (FxChkP fk viol sr vg) \<longleftrightarrow> at_ok dg e h Ts fk viol sr \<and> dep_ok h (the (s_gp sr)) vg (\<lambda>_. True)"
| "frame_ok dg e h Ts (FxLlxP fk viol sr vg) \<longleftrightarrow> at_ok dg e h Ts fk viol sr \<and> gp_ok h sr vg"
| "frame_ok dg e h Ts (FxChkL fk viol sr vg vp) \<longleftrightarrow> at_ok dg e h Ts fk viol sr \<and> gp_ok h sr vg \<and> dep_ok h (s_p sr) vp (\<lambda>_. True)"
| "frame_ok dg e h Ts (WLlxL viol sr vg vp) \<longleftrightarrow> at_ok dg e h Ts FixWeight viol sr \<and> gp_ok h sr vg \<and> p_ok h sr vp"
| "frame_ok dg e h Ts (WScx viol sr vg vp vl) \<longleftrightarrow> at_ok dg e h Ts FixWeight viol sr \<and> gp_ok h sr vg \<and> p_ok h sr vp
     \<and> (case vl of None \<Rightarrow> ab_leaf (nd h (s_l sr)) | Some v \<Rightarrow> dep_ok h (s_l sr) v (\<lambda>_. True))"
| "frame_ok dg e h Ts (DSib viol sr vg vp) \<longleftrightarrow> at_ok dg e h Ts FixDegree viol sr \<and> gp_ok h sr vg \<and> p_ok h sr vp"
| "frame_ok dg e h Ts (DLlxLeft viol sr vg vp s) \<longleftrightarrow> at_ok dg e h Ts FixDegree viol sr \<and> gp_ok h sr vg \<and> p_ok h sr vp
     \<and> s_ok h sr vp s \<and> \<not> ab_leaf (nd h (sib_left sr s))"
| "frame_ok dg e h Ts (DLlxRight viol sr vg vp s v1) \<longleftrightarrow> at_ok dg e h Ts FixDegree viol sr \<and> gp_ok h sr vg \<and> p_ok h sr vp
     \<and> s_ok h sr vp s \<and> \<not> ab_leaf (nd h (sib_left sr s)) \<and> dep_ok h (sib_left sr s) v1 (\<lambda>_. True)"
| "frame_ok dg e h Ts (DScx viol sr vg vp s vlr) \<longleftrightarrow> at_ok dg e h Ts FixDegree viol sr \<and> gp_ok h sr vg \<and> p_ok h sr vp
     \<and> s_ok h sr vp s \<and> (case vlr of None \<Rightarrow> ab_leaf (nd h (sib_left sr s))
        | Some (v1, v2) \<Rightarrow> \<not> ab_leaf (nd h (sib_left sr s)) \<and> dep_ok h (sib_left sr s) v1 (\<lambda>_. True)
            \<and> dep_ok h (sib_right sr s) v2 (\<lambda>_. True))"
| "frame_ok dg e h Ts (FxUndef fk viol) \<longleftrightarrow> viol \<in> dom h"

subsection \<open>A commit keeps it\<close>

lemma le_fields:
  assumes "heap_le h h'" "x \<in> dom h"
  shows "ab_leaf (nd h' x) = ab_leaf (nd h x)" "ab_weight (nd h' x) = ab_weight (nd h x)"
    "getABDegree (nd h' x) = getABDegree (nd h x)" "ab_searchKey (nd h' x) = ab_searchKey (nd h x)"
    "getChildIndex (nd h' x) k = getChildIndex (nd h x) k" "x \<in> dom h'"
    "key_at (nd h' x) k = key_at (nd h x) k" "op_ok op (nd h' x) = op_ok op (nd h x)"
proof -
  have n: "node_le (nd h x) (nd h' x)" and d: "x \<in> dom h'" using heap_le_nd [OF assms] by auto
  show "ab_leaf (nd h' x) = ab_leaf (nd h x)" "ab_weight (nd h' x) = ab_weight (nd h x)"
    "getABDegree (nd h' x) = getABDegree (nd h x)" "ab_searchKey (nd h' x) = ab_searchKey (nd h x)"
    using n by (simp_all add: node_le_def)
  show "x \<in> dom h'" by (rule d)
  show "getChildIndex (nd h' x) k = getChildIndex (nd h x) k"
    using n by (simp add: node_le_def getChildIndex_def getKeyCount_def)
  have ka: "key_at (nd h' x) k = key_at (nd h x) k" for k
    using n by (simp add: node_le_def key_at_def getKeyIndex_def getKeyCount_def)
  then show "key_at (nd h' x) k = key_at (nd h x) k" by simp
  show "op_ok op (nd h' x) = op_ok op (nd h x)" using ka by (cases op) auto
qed

lemma dep_ok_le: "heap_le h h' \<Longrightarrow> dep_ok h x v P \<Longrightarrow> dep_ok h' x v P"
proof -
  assume a: "heap_le h h'" "dep_ok h x v P"
  have n: "node_le (nd h x) (nd h' x)" "x \<in> dom h'" using heap_le_nd [OF a(1)] a(2) by (auto simp: dep_ok_def)
  show ?thesis using a(2) n unfolding dep_ok_def node_le_def by auto
qed

lemma srch_ok_le:
  assumes "heap_le h h'" "srch_ok h Ts k sr"
  shows "srch_ok h' (Ts @ [T]) k sr"
  using assms(2) le_fields [OF assms(1)] unfolding srch_ok_def by (auto intro: seen_append)

lemma viol_ok_le:
  assumes "heap_le h h'" "viol_ok dg e h Ts fk viol" "rootaddr T = rootaddr (last Ts) \<or> rootaddr T \<notin> dom h"
  shows "viol_ok dg e h' (Ts @ [T]) fk viol"
  using assms(2,3) le_fields [OF assms(1)] unfolding viol_ok_def by (cases fk) auto

lemma fx_ok_le:
  assumes "heap_le h h'" "fx_ok dg e h Ts fk viol sr" "rootaddr T = rootaddr (last Ts) \<or> rootaddr T \<notin> dom h"
  shows "fx_ok dg e h' (Ts @ [T]) fk viol sr"
proof -
  have v: "viol_ok dg e h Ts fk viol" and s: "srch_ok h Ts (ab_searchKey (nd h viol)) sr"
    and g: "s_gp sr = None \<longrightarrow> s_l sr \<noteq> viol" using assms(2) unfolding fx_ok_def by auto
  have "viol \<in> dom h" using v by (simp only: viol_ok_def)
  then have "ab_searchKey (nd h' viol) = ab_searchKey (nd h viol)" by (rule le_fields(4) [OF assms(1)])
  then show ?thesis
    using viol_ok_le [OF assms(1) v assms(3)] srch_ok_le [OF assms(1) s] g by (simp add: fx_ok_def)
qed

lemma at_ok_le:
  assumes "heap_le h h'" "at_ok dg e h Ts fk viol sr" "rootaddr T = rootaddr (last Ts) \<or> rootaddr T \<notin> dom h"
  shows "at_ok dg e h' (Ts @ [T]) fk viol sr"
proof -
  have f: "fx_ok dg e h Ts fk viol sr" and l: "s_l sr = viol" "fk = FixWeight \<longrightarrow> ab_weight (nd h (s_p sr))"
    using assms(2) unfolding at_ok_def by blast+
  have "s_p sr \<in> dom h" using f by (simp only: fx_ok_def srch_ok_def)
  then show ?thesis
    using l fx_ok_le [OF assms(1) f assms(3)] le_fields(2) [OF assms(1), of "s_p sr"] by (simp only: at_ok_def)
qed

lemma s_ok_le:
  assumes "heap_le h h'" "s_ok h sr vp s" "srch_ok h Ts k sr"
  shows "s_ok h' sr vp s"
proof -
  have d: "s_p sr \<in> dom h" "s_l sr \<in> dom h" "s \<in> dom h"
    using assms(2,3) by (simp_all only: s_ok_def srch_ok_def)
  note s = assms(2) [unfolded s_ok_def]
  show ?thesis
    unfolding s_ok_def using s dep_ok_le [OF assms(1)] le_fields(6) [OF assms(1) d(3)]
    by (simp only: le_fields(2,3) [OF assms(1) d(1)] le_fields(2) [OF assms(1) d(2)] le_fields(2) [OF assms(1) d(3)])
qed

lemma frame_ok_le:
  assumes le: "heap_le h h'" and f: "frame_ok dg e h Ts f"
    and r: "rootaddr T = rootaddr (last Ts) \<or> rootaddr T \<notin> dom h"
  shows "frame_ok dg e h' (Ts @ [T]) f"
proof -
  note lf = le_fields [OF le]
  note sl = srch_ok_le [OF le] and vl = viol_ok_le [OF le _ r] and fl = fx_ok_le [OF le _ r] and al = at_ok_le [OF le _ r]
    and dl = dep_ok_le [OF le]
  have pl: "p_ok h sr v \<Longrightarrow> p_ok h' sr v" "gp_ok h sr v \<Longrightarrow> gp_ok h' sr v" for sr v
    using dl unfolding p_ok_def gp_ok_def by auto
  have ad: "at_ok dg e h Ts fk viol sr \<Longrightarrow> s_l sr \<in> dom h \<and> s_p sr \<in> dom h" for fk viol sr
    unfolding at_ok_def fx_ok_def srch_ok_def by auto
  have sd: "srch_ok h Ts k sr \<Longrightarrow> s_l sr \<in> dom h" for k sr unfolding srch_ok_def by auto
  have so: "s_ok h' sr vp s \<and> sib_left sr s \<in> dom h \<and> sib_right sr s \<in> dom h"
    if a: "at_ok dg e h Ts fk viol sr" "s_ok h sr vp s" for fk viol sr vp s
  proof -
    have "srch_ok h Ts (ab_searchKey (nd h viol)) sr" using a(1) by (simp only: at_ok_def fx_ok_def)
    then have "s_ok h' sr vp s" by (rule s_ok_le [OF le a(2)])
    moreover have "s \<in> dom h" "s_l sr \<in> dom h" using a(2) ad [OF a(1)] by (simp_all only: s_ok_def)
    ultimately show ?thesis by (simp add: sib_left_def sib_right_def)
  qed
  show ?thesis
  proof (cases f)
    case (OpLeaf op i0 sr)
    then show ?thesis using f sl sd [of "op_key op" sr] lf(1) by auto
  next
    case (OpLlx op i0 sr)
    then show ?thesis using f sl sd [of "op_key op" sr] lf(1,8) by auto
  next
    case (OpChk op i0 sr v)
    then show ?thesis using f sl sd [of "op_key op" sr] lf(1,8) dl by auto
  next
    case (OpScx op i0 sr v)
    then show ?thesis using f sl sd [of "op_key op" sr] lf(1,8) pl by auto
  next
    case (OpEnd op i0 r)
    then show ?thesis using f lin_append by simp
  next
    case (WScx viol sr vg vp vl)
    then show ?thesis using f al pl ad [of FixWeight viol sr] dl lf(1) by (auto split: option.splits)
  next
    case (DLlxLeft viol sr vg vp s)
    then show ?thesis using f al pl so [of FixDegree viol sr vp s] lf(1) by auto
  next
    case (DLlxRight viol sr vg vp s v1)
    then show ?thesis using f al pl so [of FixDegree viol sr vp s] lf(1) dl by auto
  next
    case (DScx viol sr vg vp s vlr)
    then show ?thesis using f al pl so [of FixDegree viol sr vp s] lf(1) dl by (auto split: option.splits)
  qed (use f sl vl fl al dl pl lf(6) in auto)
qed

end
