(* ===== verification/AbTree_Ops.thy ===== *)
theory AbTree_Ops
  imports AbTree_Frames
begin

text \<open>
  The steps of \<open>find\<close>, \<open>doInsert\<close> and \<open>erase\<close> of the (a,b)-tree keep the invariant, and an
  SCX of theirs changes the dictionary as the operation says.
\<close>

subsection \<open>The place of an SCX in the tree\<close>

lemma entry_frame:
  assumes "good dg e (plug (F # C) u)"
  shows "faddr F = e \<longleftrightarrow> length (F # C) = 1"
proof -
  have r: "rootok e (plug (F # C) u)" and d: "distinct (caddrs (F # C))"
    using assms distinct_plug by (auto simp: good_def)
  show ?thesis
  proof (cases C rule: rev_cases)
    case Nil
    obtain x w sk kl cl kr cr where F: "F = Fr x w sk kl cl kr cr" by (cases F)
    then show ?thesis using r Nil by (auto simp: rootok_def split: list.splits)
  next
    case (snoc C0 f)
    obtain x w sk kl cl kr cr where f: "f = Fr x w sk kl cl kr cr" by (cases f)
    have pa: "plug (A @ D) v = plug D (plug A v)" for A D v
      by (induction A v rule: plug.induct) auto
    have "plug (F # C) u = plug [f] (plug (F # C0) u)" using snoc pa [of "F # C0" "[f]"] by simp
    then have "x = e" using r f by (auto simp: rootok_def split: list.splits)
    moreover have "x \<in> set (caddrs C)"
    proof -
      have "x \<in> set (caddrs (C1 @ [f]))" for C1
        using f by (induction C1 rule: caddrs.induct) auto
      then show ?thesis using snoc by simp
    qed
    moreover have "faddr F \<notin> set (caddrs C)" using d by (cases F) auto
    ultimately show ?thesis using snoc by auto
  qed
qed

lemma place:
  assumes h: "hinv dg e hs Ts" and s: "seen Ts st k P" "P \<in> dom (last hs)" "\<not> ab_leaf (nd (last hs) P)"
    "\<not> ab_marked (nd (last hs) P)" and i: "i < getABDegree (nd (last hs) P)"
  obtains w sk ks cs C where "last Ts = plug (Fr P w sk (take i ks) (take i cs) (drop i ks) (drop (Suc i) cs) # C) (cs ! i)"
    "\<forall>f\<in>set (Fr P w sk (take i ks) (take i cs) (drop i ks) (drop (Suc i) cs) # C). fr_ok f"
    "i < length cs" "length cs = Suc (length ks)" "cthru k C" "rt (cs ! i) = ab_ptrs (nd (last hs) P) ! i"
    "inner_at dg (last hs) P w sk ks (map rt cs)" "last Ts = plug C (In P w sk ks cs)" "\<forall>f\<in>set C. fr_ok f"
proof -
  have PT: "P \<in> set (addrs (last Ts))" using hinvD(7) [OF h] s unfolding unmarked_in_def by auto
  obtain j where j: "j < length Ts" "P \<in> set (spath k (Ts ! j))" using s(1) unfolding seen_def by blast
  have Pp: "P \<in> set (spath k (last Ts))" by (rule hinvD(9) [OF h j PT])
  obtain C v where C: "last Ts = plug C v" "rt v = P" "\<forall>f\<in>set C. fr_ok f"
    using locate [OF hinv_last(1) [OF h] PT] by blast
  have cv: "coh dg (last hs) v" using hinv_last(1) [OF h] unfolding C(1) coh_plug by blast
  then obtain w sk ks cs where v: "v = In P w sk ks cs" using C(2) s(2,3) by (cases v) (auto simp: leaf_at_def)
  have ia: "inner_at dg (last hs) P w sk ks (map rt cs)" using cv v by simp
  have len: "length cs = Suc (length ks)" "i < length cs"
    using inner_at_length [OF ia] inner_at_nth(1) [OF ia] i by simp_all
  have th: "cthru k C"
    using on_path_cthru [OF C(3), of v k] hinv_last(2) [OF h] Pp C by (simp add: good_def)
  have "last Ts = plug C (In P w sk ks cs)" using C(1) v by simp
  note pc = plug_child [OF this C(3) len]
  show ?thesis
    by (rule that [OF pc len(2,1) th _ ia])
       (use inner_at_nth(2) [OF ia, of i] len C v in auto)
qed

lemma scx_some:
  assumes "scxExecute fail h1 deps x ix old new = Some h'"
  shows "scxExecute False h1 deps x ix old new = Some h'" "(y, v, f) \<in> set deps \<Longrightarrow> ab_scxPtr (nd h1 y) = v"
  using assms by (auto simp: scxExecute_def split: if_splits)

lemma cidx_take_drop: "cidx k (take (cidx k ks) ks @ drop (cidx k ks) ks) = cidx k ks"
  by simp

text \<open>The children of a tree are held by a heap with new nodes added.\<close>

lemma coh_fresh: "coh dg h t \<Longrightarrow> (\<And>x. x \<in> dom h \<Longrightarrow> h1 x = h x) \<Longrightarrow> coh dg h1 t"
proof -
  assume a: "coh dg h t" "\<And>x. x \<in> dom h \<Longrightarrow> h1 x = h x"
  show ?thesis
  proof (rule coh_cong [OF a(1)])
    have "h1 x = h x" if "x \<in> set (addrs t)" for x using coh_dom [OF a(1) that] a(2) by blast
    then show "\<forall>x\<in>set (addrs t). same_core h h1 x" by (simp add: same_core_def)
  qed
qed

subsection \<open>The dictionary after a replacement\<close>

lemma dict_replace:
  assumes T: "good dg e (plug C u)" "good dg e (plug C u')" "\<forall>f\<in>set C. fr_ok f"
    and th: "cthru k C" and r: "map_of (tcontent u') = (map_of (tcontent u))(k := r)"
  shows "dict (plug C u') = (dict (plug C u))(k := r)"
proof
  fix j
  have s: "srt None None (plug C u)" "srt None None (plug C u')" using T by (simp_all add: good_def)
  then have su: "srt (clo C) (chi C) u" "srt (clo C) (chi C) u'" using srt_plug [OF T(3)] by auto
  have d: "dict (plug C v) j = tlookup j (plug C v)" if "srt None None (plug C v)" for v
    using tlookup_content(1) [OF that] by (simp add: dict_def)
  show "dict (plug C u') j = ((dict (plug C u))(k := r)) j"
  proof (cases "cthru j C")
    case True
    have "tlookup j u' = ((map_of (tcontent u))(k := r)) j"
      using tlookup_content(1) [OF su(2)] r by simp
    also have "\<dots> = (if j = k then r else tlookup j u)" using tlookup_content(1) [OF su(1)] by simp
    finally show ?thesis using d [OF s(1)] d [OF s(2)] tlookup_plug [OF T(3) True] by simp
  next
    case False
    then have "j \<noteq> k" using th by blast
    then show ?thesis using d [OF s(1)] d [OF s(2)] tlookup_plug_miss [OF T(3) False, of u u'] by simp
  qed
qed

lemma dict_rebal: "tcontent u' = tcontent u \<Longrightarrow> dict (plug C u') = dict (plug C u)"
  by (simp add: dict_def tcontent_plug)

subsection \<open>Updates of the sorted arrays of a leaf\<close>

lemma kidx_split:
  assumes "sorted_wrt (<) ks" "i = kidx k ks"
  shows "\<forall>x\<in>set (take i ks). x < k" "\<forall>x\<in>set (drop i ks). k \<le> x" "i \<le> length ks"
proof -
  show "\<forall>x\<in>set (take i ks). x < k" using assms(2) by (metis set_takeWhileD takeWhile_eq_take)
  show "i \<le> length ks" using assms(2) length_takeWhile_le by blast
  show "\<forall>x\<in>set (drop i ks). k \<le> x"
  proof (cases "drop i ks")
    case (Cons y ys)
    have "i < length ks" using Cons by (metis drop_all list.distinct(1) not_le)
    then have "\<not> ks ! i < k" using assms(2) nth_length_takeWhile by blast
    moreover have "ks ! i = y" using Cons by (metis hd_drop_conv_nth list.sel(1) \<open>i < length ks\<close>)
    moreover have "sorted_wrt (<) (y # ys)" using assms(1) Cons sorted_wrt_drop by metis
    ultimately show ?thesis using Cons by auto
  qed simp
qed

lemma sorted_insert:
  assumes "sorted_wrt (<) ks" "i = kidx k ks" "k \<notin> set ks"
  shows "sorted_wrt (<) (take i ks @ k # drop i ks)"
proof -
  note s = kidx_split [OF assms(1,2)]
  have "\<forall>x\<in>set (drop i ks). k < x" using s(2) assms(3) in_set_dropD by (metis order_le_imp_less_or_eq)
  moreover have "sorted_wrt (<) (take i ks @ drop i ks)" using assms(1) by simp
  ultimately show ?thesis using s(1) unfolding sorted_wrt_append by fastforce
qed

lemma map_of_insert:
  assumes "length vs = length ks" "i \<le> length ks" "k \<notin> set ks"
  shows "map_of (zip (take i ks @ k # drop i ks) (take i vs @ v # drop i vs)) = (map_of (zip ks vs))(k \<mapsto> v)"
proof -
  have "zip ks vs = zip (take i ks) (take i vs) @ zip (drop i ks) (drop i vs)"
    using assms by (metis append_take_drop_id length_take zip_append)
  moreover have "k \<notin> dom (map_of (zip (take i ks) (take i vs)))"
    using assms(3) by (auto dest!: map_of_SomeD in_set_zipE in_set_takeD)
  ultimately show ?thesis using assms by (simp add: map_add_upd_left)
qed

lemma map_of_replace:
  assumes "length vs = length ks" "i < length ks" "sorted_wrt (<) (ks :: int list)"
  shows "map_of (zip ks (vs[i := v])) = (map_of (zip ks vs))(ks ! i \<mapsto> v)"
  using assms
proof (induction ks arbitrary: vs i)
  case (Cons s ks)
  obtain w vs' where vs: "vs = w # vs'" using Cons.prems(1) by (cases vs) auto
  show ?case
  proof (cases i)
    case (Suc m)
    then have "s \<noteq> ks ! m" using Cons.prems by (auto dest: nth_mem)
    then show ?thesis using Cons.IH [of vs' m] Cons.prems vs Suc by (auto simp: fun_eq_iff)
  qed (use vs in auto)
qed simp

lemma map_of_erase:
  assumes "length vs = length ks" "i < length ks" "sorted_wrt (<) (ks :: int list)"
  shows "map_of (zip (take i ks @ drop (Suc i) ks) (take i vs @ drop (Suc i) vs)) = (map_of (zip ks vs))(ks ! i := None)"
  using assms
proof (induction ks arbitrary: vs i)
  case (Cons s ks)
  obtain w vs' where vs: "vs = w # vs'" using Cons.prems(1) by (cases vs) auto
  show ?case
  proof (cases i)
    case 0
    have "s \<notin> set ks" using Cons.prems(3) by auto
    then have "map_of (zip ks vs') s = None" by (metis in_set_zipE map_of_SomeD not_Some_eq)
    then show ?thesis using 0 vs by (auto simp: fun_eq_iff)
  next
    case (Suc m)
    then have "s \<noteq> ks ! m" using Cons.prems by (auto dest: nth_mem)
    then show ?thesis using Cons.IH [of vs' m] Cons.prems vs Suc by (auto simp: fun_eq_iff)
  qed
qed simp

lemma sorted_erase:
  assumes "sorted_wrt (<) (ks :: int list)"
  shows "sorted_wrt (<) (take i ks @ drop (Suc i) ks)"
proof (cases "i < length ks")
  case True
  have "sorted_wrt (<) (take i ks @ ks ! i # drop (Suc i) ks)" using assms id_take_nth_drop [OF True] by simp
  then show ?thesis by (auto simp: sorted_wrt_append)
qed (use assms in simp)

subsection \<open>Commits of the operations\<close>

text \<open>An SCX that takes the last tree of the history to \<open>T'\<close>, creating the nodes \<open>new\<close>
  and leaving violations at most at \<open>W\<close> (weight) and \<open>D\<close> (degree).\<close>

definition commits :: "nat \<Rightarrow> addr \<Rightarrow> ab_heap list \<Rightarrow> tr list \<Rightarrow> ab_heap \<Rightarrow> tr \<Rightarrow> addr set \<Rightarrow> addr set \<Rightarrow> addr set \<Rightarrow> bool" where
  "commits dg e hs Ts h' T' new W D \<longleftrightarrow> (\<exists>F C u u' h1 deps vg newl gone.
     last Ts = plug (F # C) u \<and> T' = plug (F # C) u' \<and> set newl = new
   \<and> ab_commit dg e (last hs) h1 h' F C u u' deps vg newl gone W D)"

lemma leaf_place:
  assumes h: "hinv dg e hs Ts" and s: "srch_ok (last hs) Ts k sr" "ab_leaf (nd (last hs) (s_l sr))"
    and p: "p_ok (last hs) sr v" "ab_scxPtr (nd (last hs) (s_p sr)) = v"
  obtains F C sk where "last Ts = plug (F # C) (Lf (s_l sr) sk (akeys (nd (last hs) (s_l sr))) (aptrs (nd (last hs) (s_l sr))))"
    "faddr F = s_p sr" "length (fleft F) = s_ixL sr" "\<forall>f\<in>set (F # C). fr_ok f" "cthru k (F # C)"
    "node_ok dg (nd (last hs) (s_l sr))" "sk = ab_searchKey (nd (last hs) (s_l sr))" "ab_weight (nd (last hs) (s_l sr))"
    "sorted_wrt (<) (akeys (nd (last hs) (s_l sr)))"
proof -
  let ?h = "last hs"
  have P: "seen Ts (s_st sr) k (s_p sr)" "s_p sr \<in> dom ?h" "\<not> ab_leaf (nd ?h (s_p sr))"
    "s_ixL sr = getChildIndex (nd ?h (s_p sr)) k" using s unfolding srch_ok_def by blast+
  have m: "\<not> ab_marked (nd ?h (s_p sr))" "ab_ptrs (nd ?h (s_p sr)) ! s_ixL sr = s_l sr"
    using p unfolding p_ok_def dep_ok_def by blast+
  have ok: "node_ok dg (nd ?h (s_p sr))" using seen_dom [OF h P(1)] by blast
  have ix: "s_ixL sr < getABDegree (nd ?h (s_p sr))"
    using getChildIndex_le [OF ok, of k] ok P(3,4) by (auto simp: getKeyCount_def node_ok_def)
  obtain w sk0 ks cs C where pl: "last Ts = plug (Fr (s_p sr) w sk0 (take (s_ixL sr) ks) (take (s_ixL sr) cs) (drop (s_ixL sr) ks) (drop (Suc (s_ixL sr)) cs) # C) (cs ! s_ixL sr)"
    "\<forall>f\<in>set (Fr (s_p sr) w sk0 (take (s_ixL sr) ks) (take (s_ixL sr) cs) (drop (s_ixL sr) ks) (drop (Suc (s_ixL sr)) cs) # C). fr_ok f"
    "s_ixL sr < length cs" "length cs = Suc (length ks)" "cthru k C" "rt (cs ! s_ixL sr) = ab_ptrs (nd ?h (s_p sr)) ! s_ixL sr"
    "inner_at dg ?h (s_p sr) w sk0 ks (map rt cs)" "last Ts = plug C (In (s_p sr) w sk0 ks cs)" "\<forall>f\<in>set C. fr_ok f"
    using place [OF h P(1-3) m(1) ix] by blast
  define F where "F = Fr (s_p sr) w sk0 (take (s_ixL sr) ks) (take (s_ixL sr) cs) (drop (s_ixL sr) ks) (drop (Suc (s_ixL sr)) cs)"
  have rl: "rt (cs ! s_ixL sr) = s_l sr" using pl(6) m(2) by simp
  have co: "coh dg ?h (cs ! s_ixL sr)"
    using hinv_last(1) [OF h] unfolding pl(1) coh_plug by blast
  then obtain sk ks' vs where u: "cs ! s_ixL sr = Lf (s_l sr) sk ks' vs"
    using rl s(2) coh_rt_leaf [OF co] by (cases "cs ! s_ixL sr") auto
  then have la: "leaf_at dg ?h (s_l sr) sk ks' vs" using co by simp
  have "cidx k ks = s_ixL sr" using inner_at_child(2) [OF pl(7), of k] P(4) by simp
  then have th: "cthru k (F # C)" using pl(3,5) by (simp add: F_def)
  have srt: "srt None None (last Ts)" using hinv_last(2) [OF h] by (simp add: good_def)
  have "s_l sr \<in> set (addrs (last Ts))" unfolding pl(1) by (simp add: u)
  then have so: "sorted_wrt (<) (akeys (nd ?h (s_l sr)))"
    using leaf_sorted(1) [OF hinv_last(1) [OF h] srt] s(2) by blast
  show ?thesis
    by (rule that [of F C sk]) (use pl(1,2,3) u la th so in \<open>auto simp: F_def leaf_at_def\<close>)
qed

lemma op_commit:
  assumes h: "hinv dg e hs Ts" and T: "last Ts = plug (F # C) (Lf l sk ks vs)"
    and F: "faddr F = p" "length (fleft F) = ix" "\<forall>f\<in>set (F # C). fr_ok f"
    and r: "reshape dg (F # C) (Lf l sk ks vs) u' newl [l] W D"
    and n: "distinct newl" "set newl \<inter> dom (last hs) = {}" "\<And>x. x \<notin> set newl \<Longrightarrow> h1 x = last hs x"
    and c: "coh dg h1 u'" and s: "scxExecute fail h1 [(p, v, False)] p ix l (rt u') = Some h'"
    and lf: "ab_leaf (nd (last hs) l)"
  shows "commits dg e hs Ts h' (plug (F # C) u') (set newl) W D"
  unfolding commits_def
proof (intro exI conjI)
  show "last Ts = plug (F # C) (Lf l sk ks vs)" by (rule T)
  show "ab_commit dg e (last hs) h1 h' F C (Lf l sk ks vs) u' [] v newl [l] W D"
    unfolding ab_commit_def
    using hinv_last [OF h, unfolded T] F r n c scx_some(1) [OF s] lf hinvD(7) [OF h, unfolded T] by simp
qed (rule refl)+

lemma commits_good:
  assumes "hinv dg e hs Ts" "commits dg e hs Ts h' T' new W D"
  shows "hinv dg e (hs @ [h']) (Ts @ [T'])" "heap_le (last hs) h'" "new \<inter> dom (last hs) = {}"
    "\<exists>gone. tree_step dg e (last Ts) T' new gone W D" "new \<subseteq> dom h'"
proof -
  obtain F C u u' h1 deps vg newl gone where c: "last Ts = plug (F # C) u" "T' = plug (F # C) u'" "set newl = new"
    "ab_commit dg e (last hs) h1 h' F C u u' deps vg newl gone W D"
    using assms(2) unfolding commits_def by blast
  show "hinv dg e (hs @ [h']) (Ts @ [T'])" using hinv_commit [OF assms(1) c(1,4)] c(2) by simp
  show "heap_le (last hs) h'" by (rule commit_heap_le [OF c(4)])
  show "new \<inter> dom (last hs) = {}" using ab_commitD(6) [OF c(4)] c(3) by simp
  show st: "\<exists>gone. tree_step dg e (last Ts) T' new gone W D" using commit_addrs(2) [OF c(4)] c(1,2,3) by auto
  have "new \<subseteq> set (addrs T')" using commit_addrs(1) [OF c(4)] c(2,3) by blast
  then show "new \<subseteq> dom h'" using coh_dom [OF commit_coh [OF c(4)]] c(2) by blast
qed

lemma in_rng_hole:
  assumes "hinv dg e hs Ts" "last Ts = plug C u" "\<forall>f\<in>set C. fr_ok f" "cthru k C"
  shows "in_rng (clo C) (chi C) k" "srt (clo C) (chi C) u" "sized dg u"
proof -
  have s: "srt None None (plug C u)" "sized dg (plug C u)" using hinv_last(2) [OF assms(1)] assms(2) by (simp_all add: good_def)
  then show "srt (clo C) (chi C) u" "sized dg u" using srt_plug [OF assms(3)] sized_plug by auto
  then show "in_rng (clo C) (chi C) k" using cthru_rng [of C k u] s srt_plug [OF assms(3)] assms(4) by blast
qed

lemma dict_leaf:
  assumes "hinv dg e hs Ts" "last Ts = plug C (Lf l sk ks vs)" "\<forall>f\<in>set C. fr_ok f" "cthru k C"
  shows "dict (last Ts) k = map_of (zip ks vs) k"
proof -
  have s: "srt None None (last Ts)" using hinv_last(2) [OF assms(1)] by (simp add: good_def)
  have "dict (last Ts) k = tlookup k (last Ts)" using tlookup_content(1) [OF s] by (simp add: dict_def)
  then show ?thesis using tlookup_plug [OF assms(3,4)] assms(2) by simp
qed

end
