(* ===== verification/AbTree_OpSteps.thy ===== *)
theory AbTree_OpSteps
  imports AbTree_Ops
begin

text \<open>
  The SCX of \<open>doInsert\<close> and of \<open>erase\<close>: each takes the dictionary of the moment before it to
  that of the moment after it, as the operation says, and leaves violations at most where it calls
  the rebalancing functions.
\<close>

text \<open>What an SCX of an operation yields: the next tree, where violations may be left, and the
  calls that take care of them.\<close>

definition covers :: "frame list \<Rightarrow> addr \<Rightarrow> addr set \<Rightarrow> addr set \<Rightarrow> addr set \<Rightarrow> bool" where
  "covers fs root new W D \<longleftrightarrow> (\<forall>f\<in>set fs. \<exists>fk x. f = FxStart fk x \<and> x \<in> new)
     \<and> (\<forall>x\<in>W. FxStart FixWeight x \<in> set fs) \<and> (\<forall>x\<in>D. x \<noteq> root \<longrightarrow> FxStart FixDegree x \<in> set fs)"

lemma leaf_at_new:
  assumes "node_ok dg n" "ab_leaf n" "ab_weight n" "\<not> ab_marked n" "ab_searchKey n = sk" "akeys n = ks" "aptrs n = vs"
    "h x = Some n"
  shows "leaf_at dg h x sk ks vs"
  using assms by (simp add: leaf_at_def)

lemma erase_commit:
  assumes h: "hinv dg e hs Ts" and dg: "3 \<le> dg" and c: "choice_ok dg (last hs) c"
    and f: "frame_ok dg e (last hs) Ts (OpScx (OpErase k) i0 sr v)"
    and i: "i = getKeyIndex (nd (last hs) (s_l sr)) k"
    and s: "scxExecute (c_fail c) ((last hs)(c_a1 c \<mapsto> mk_erase (nd (last hs) (s_l sr)) i (c_g1 c))) [(s_p sr, v, False)]
               (s_p sr) (s_ixL sr) (s_l sr) (c_a1 c) = Some h'"
  shows "\<exists>T' new W D. commits dg e hs Ts h' T' new W D
    \<and> ab_spec (OpErase k) (dict (last Ts)) = (dict T', RPair (ab_ptrs (nd (last hs) (s_l sr)) ! i) True)
    \<and> covers [FxStart FixDegree (c_a1 c)] (rootaddr T') new W D"
proof -
  let ?h = "last hs" and ?l = "s_l sr" and ?n = "nd (last hs) (s_l sr)"
  define h1 where "h1 = ?h(c_a1 c \<mapsto> mk_erase ?n i (c_g1 c))"
  have fo: "srch_ok ?h Ts k sr" "ab_leaf ?n" "key_at ?n k" "p_ok ?h sr v" using f by auto
  have a1: "?h (c_a1 c) = None" "alloc_ok dg (c_g1 c)" using c by (auto simp: choice_ok_def)
  have pne: "s_p sr \<noteq> c_a1 c" using fo(1) a1 unfolding srch_ok_def by auto
  have ver: "ab_scxPtr (nd ?h (s_p sr)) = v"
    using scx_some(2) [OF s, of "s_p sr" v False] pne by simp
  obtain F C sk where pl: "last Ts = plug (F # C) (Lf ?l sk (akeys ?n) (aptrs ?n))" "faddr F = s_p sr"
    "length (fleft F) = s_ixL sr" "\<forall>f\<in>set (F # C). fr_ok f" "cthru k (F # C)" "node_ok dg ?n"
    "sk = ab_searchKey ?n" "ab_weight ?n" "sorted_wrt (<) (akeys ?n)"
    by (rule leaf_place [OF h fo(1,2,4) ver])
  note rng = in_rng_hole [OF h pl(1,4,5)]
  have len: "length (akeys ?n) = ab_size ?n" "length (aptrs ?n) = ab_size ?n" "getKeyCount ?n = ab_size ?n"
    using node_okD(1,2) [OF pl(6)] fo(2) by (simp_all add: getKeyCount_def)
  have ik: "i < ab_size ?n" "akeys ?n ! i = k" using fo(3) len i by (auto simp: key_at_def akeys_nth)
  note v = mk_erase_view [OF pl(6) fo(2) a1(2) ik(1)]
  define u' where "u' = Lf (c_a1 c) (akeys ?n ! 0) (take i (akeys ?n) @ drop (Suc i) (akeys ?n)) (take i (aptrs ?n) @ drop (Suc i) (aptrs ?n))"
  have kr: "\<forall>x\<in>set (akeys ?n). in_rng (clo (F # C)) (chi (F # C)) x" using rng(2) by simp
  have r: "reshape dg (F # C) (Lf ?l sk (akeys ?n) (aptrs ?n)) u' [c_a1 c] [?l] {} {c_a1 c}"
    unfolding u'_def
  proof (rule reshape_leaf)
    show "good dg e (plug (F # C) (Lf ?l sk (akeys ?n) (aptrs ?n)))" using hinv_last(2) [OF h] pl(1) by simp
    show "sorted_wrt (<) (take i (akeys ?n) @ drop (Suc i) (akeys ?n))" by (rule sorted_erase [OF pl(9)])
    show "\<forall>x\<in>set (take i (akeys ?n) @ drop (Suc i) (akeys ?n)). in_rng (clo (F # C)) (chi (F # C)) x"
      using kr by (auto dest: in_set_takeD in_set_dropD)
    show "in_rng (clo (F # C)) (chi (F # C)) (akeys ?n ! 0)" using kr len ik(1) by auto
  qed (use pl(4) len node_okD(3) [OF pl(6)] in auto)
  have co: "coh dg h1 u'"
    unfolding u'_def coh.simps by (rule leaf_at_new [OF v(1-3,7,6,4,5)]) (simp add: h1_def)
  have cm: "commits dg e hs Ts h' (plug (F # C) u') (set [c_a1 c]) {} {c_a1 c}"
  proof (rule op_commit [OF h pl(1-4) r _ _ _ co _ fo(2)])
    show "scxExecute (c_fail c) h1 [(s_p sr, v, False)] (s_p sr) (s_ixL sr) ?l (rt u') = Some h'"
      using s by (simp add: h1_def u'_def)
  qed (use a1 in \<open>auto simp: h1_def\<close>)
  have gT: "good dg e (plug (F # C) (Lf ?l sk (akeys ?n) (aptrs ?n)))" "good dg e (plug (F # C) u')"
    using hinv_last [OF h] hinv_last(2) [OF commits_good(1) [OF h cm]] pl(1) by auto
  have "map_of (tcontent u') = (map_of (tcontent (Lf ?l sk (akeys ?n) (aptrs ?n))))(k := None)"
    using map_of_erase [of "aptrs ?n" "akeys ?n" i] len ik pl(9) by (simp add: u'_def)
  then have d: "dict (plug (F # C) u') = (dict (last Ts))(k := None)"
    using dict_replace [OF gT pl(4,5)] pl(1) by simp
  have "dict (last Ts) k = Some (ab_ptrs ?n ! i)"
    using dict_leaf [OF h pl(1,4,5)] key_at_lookup [OF pl(6) fo(2) pl(9), of k] fo(3) i by simp
  then have "ab_spec (OpErase k) (dict (last Ts)) = (dict (plug (F # C) u'), RPair (ab_ptrs ?n ! i) True)"
    by (simp add: d)
  then show ?thesis using cm by (intro exI conjI) (auto simp: covers_def)
qed

text \<open>A leaf replaced by a leaf, in general.\<close>

lemma leaf_commit:
  assumes h: "hinv dg e hs Ts" and c: "choice_ok dg (last hs) c"
    and pl: "last Ts = plug (F # C) (Lf l sk ks vs)" "faddr F = p" "length (fleft F) = ix"
      "\<forall>f\<in>set (F # C). fr_ok f" "cthru k (F # C)" and lf: "ab_leaf (nd (last hs) l)"
    and n: "node_ok dg n" "ab_leaf n" "ab_weight n" "\<not> ab_marked n" "ab_searchKey n = sk'" "akeys n = ks'" "aptrs n = vs'"
    and k: "sorted_wrt (<) ks'" "\<forall>x\<in>set ks'. in_rng (clo (F # C)) (chi (F # C)) x" "in_rng (clo (F # C)) (chi (F # C)) sk'"
    and m: "map_of (zip ks' vs') = (map_of (zip ks vs))(k := r)"
    and s: "scxExecute fail ((last hs)(c_a1 c \<mapsto> n)) [(p, v, False)] p ix l (c_a1 c) = Some h'"
  shows "\<exists>T'. commits dg e hs Ts h' T' {c_a1 c} {} {c_a1 c} \<and> dict T' = (dict (last Ts))(k := r)"
proof -
  define u' where "u' = Lf (c_a1 c) sk' ks' vs'"
  have a1: "last hs (c_a1 c) = None" using c by (auto simp: choice_ok_def)
  have la: "leaf_at dg ((last hs)(c_a1 c \<mapsto> n)) (c_a1 c) sk' ks' vs'"
    by (rule leaf_at_new [OF n]) simp
  have r: "reshape dg (F # C) (Lf l sk ks vs) u' [c_a1 c] [l] {} {c_a1 c}"
    unfolding u'_def
    by (rule reshape_leaf [OF _ pl(4) k]) (use hinv_last(2) [OF h] pl(1) leaf_at_length [OF la] in auto)
  have cm: "commits dg e hs Ts h' (plug (F # C) u') (set [c_a1 c]) {} {c_a1 c}"
  proof (rule op_commit [OF h pl(1-4) r _ _ _ _ _ lf])
    show "scxExecute fail ((last hs)(c_a1 c \<mapsto> n)) [(p, v, False)] p ix l (rt u') = Some h'" using s by (simp add: u'_def)
  qed (use a1 la in \<open>auto simp: u'_def\<close>)
  have gT: "good dg e (plug (F # C) (Lf l sk ks vs))" "good dg e (plug (F # C) u')"
    using hinv_last [OF h] hinv_last(2) [OF commits_good(1) [OF h cm]] pl(1) by auto
  have "map_of (tcontent u') = (map_of (tcontent (Lf l sk ks vs)))(k := r)" using m by (simp add: u'_def)
  then have "dict (plug (F # C) u') = (dict (last Ts))(k := r)" using dict_replace [OF gT pl(4,5)] pl(1) by simp
  then show ?thesis using cm by auto
qed

text \<open>A full leaf replaced by two leaves below a new node.\<close>

lemma overflow_commit:
  assumes h: "hinv dg e hs Ts" and dg: "3 \<le> dg" and c: "choice_ok dg (last hs) c"
    and pl: "last Ts = plug (F # C) (Lf l sk (akeys ln) (aptrs ln))" "faddr F = p" "length (fleft F) = ix"
      "\<forall>f\<in>set (F # C). fr_ok f" "cthru k (F # C)" "node_ok dg ln" "sorted_wrt (<) (akeys ln)"
    and lf: "ab_leaf (nd (last hs) l)" "ab_leaf ln" "ab_size ln = dg"
    and i: "i = kidx k (akeys ln)" and k: "k \<notin> set (akeys ln)"
    and e: "mk_overflow dg ln i k val (p = e) (c_a1 c) (c_a2 c) (c_g1 c) (c_g2 c) (c_g3 c) = (left, right, n)"
    and s: "scxExecute fail ((last hs)(c_a1 c \<mapsto> left, c_a2 c \<mapsto> right, c_a3 c \<mapsto> n)) [(p, v, False)] p ix l (c_a3 c) = Some h'"
  shows "\<exists>T' D. commits dg e hs Ts h' T' {c_a3 c, c_a1 c, c_a2 c} {c_a3 c} D \<and> D \<subseteq> {rootaddr T'}
    \<and> dict T' = (dict (last Ts))(k \<mapsto> val)"
proof -
  let ?a1 = "c_a1 c" and ?a2 = "c_a2 c" and ?a3 = "c_a3 c"
  define h1 where "h1 = (last hs)(?a1 \<mapsto> left, ?a2 \<mapsto> right, ?a3 \<mapsto> n)"
  define K where "K = take i (akeys ln) @ k # drop i (akeys ln)"
  define V where "V = take i (aptrs ln) @ val # drop i (aptrs ln)"
  define m where "m = (dg + 1) div 2"
  have ch: "distinct [?a1, ?a2, ?a3]" "last hs ?a1 = None" "last hs ?a2 = None" "last hs ?a3 = None"
    "alloc_ok dg (c_g1 c)" "alloc_ok dg (c_g2 c)" "alloc_ok dg (c_g3 c)" using c by (auto simp: choice_ok_def)
  have len: "length (akeys ln) = dg" "length (aptrs ln) = dg"
    using node_okD(1,2) [OF pl(6)] lf by (simp_all add: getKeyCount_def)
  have ile: "i \<le> dg" using i len length_takeWhile_le [of _ "akeys ln"] by simp
  have dg2: "2 \<le> dg" using dg by simp
  note vw = mk_overflow_view [OF pl(6) lf(2,3) ile dg2 ch(5-7) e, folded K_def V_def m_def]
  note rng = in_rng_hole [OF h pl(1,4,5)]
  have Ks: "sorted_wrt (<) K" unfolding K_def by (rule sorted_insert [OF pl(7) i k])
  have Kr: "\<forall>x\<in>set K. in_rng (clo (F # C)) (chi (F # C)) x"
    using rng by (auto simp: K_def dest: in_set_takeD in_set_dropD)
  have KV: "length V = dg + 1" "length K = dg + 1" using len ile by (simp_all add: K_def V_def)
  have good: "good dg e (plug (F # C) (Lf l sk (akeys ln) (aptrs ln)))" using hinv_last(2) [OF h] pl(1) by simp
  have w: "(p = e) \<longleftrightarrow> length (F # C) = 1" using entry_frame [OF good] pl(2) by simp
  define u' where "u' = In ?a3 (p = e) (K ! m) [K ! m] [Lf ?a1 (K ! 0) (take m K) (take m V), Lf ?a2 (K ! m) (drop m K) (drop m V)]"
  have r: "reshape dg (F # C) (Lf l sk (akeys ln) (aptrs ln)) u' [?a3, ?a1, ?a2] [l] {?a3} (if p = e then {?a3} else {})"
    unfolding u'_def m_def by (rule reshape_overflow [OF good pl(4) dg Ks Kr KV w])
  have at: "h1 ?a1 = Some left" "h1 ?a2 = Some right" "h1 ?a3 = Some n" using ch(1) by (auto simp: h1_def)
  have "leaf_at dg h1 ?a1 (K ! 0) (take m K) (take m V)" using vw(1-7) at(1) by (simp add: leaf_at_def)
  moreover have "leaf_at dg h1 ?a2 (K ! m) (drop m K) (drop m V)" using vw(8-14) at(2) by (simp add: leaf_at_def)
  moreover have "inner_at dg h1 ?a3 (p = e) (K ! m) [K ! m] [?a1, ?a2]" using vw(15-21) at(3) by (simp add: inner_at_def)
  ultimately have co: "coh dg h1 u'" by (simp add: u'_def)
  have cm: "commits dg e hs Ts h' (plug (F # C) u') (set [?a3, ?a1, ?a2]) {?a3} (if p = e then {?a3} else {})"
  proof (rule op_commit [OF h pl(1-4) r _ _ _ co _ lf(1)])
    show "scxExecute fail h1 [(p, v, False)] p ix l (rt u') = Some h'" using s by (simp add: h1_def u'_def)
  qed (use ch in \<open>auto simp: h1_def\<close>)
  have gT': "good dg e (plug (F # C) u')" using hinv_last(2) [OF commits_good(1) [OF h cm]] by simp
  have "zip (take m K) (take m V) @ zip (drop m K) (drop m V) = zip K V"
    by (metis append_take_drop_id drop_zip take_zip)
  then have "tcontent u' = zip K V" by (simp add: u'_def)
  moreover have "map_of (zip K V) = (map_of (zip (akeys ln) (aptrs ln)))(k \<mapsto> val)"
    unfolding K_def V_def by (rule map_of_insert) (use len ile k in auto)
  ultimately have "dict (plug (F # C) u') = (dict (last Ts))(k \<mapsto> val)"
    using dict_replace [OF good gT' pl(4,5), of "Some val"] pl(1) by simp
  moreover have "(if p = e then {?a3} else {}) \<subseteq> {rootaddr (plug (F # C) u')}"
  proof (cases "p = e")
    case True
    then have "C = []" using w by simp
    obtain g w' sk' kl cl kr cr where F': "F = Fr g w' sk' kl cl kr cr" by (cases F)
    then have "plug (F # C) u' = In g w' sk' (kl @ kr) (cl @ u' # cr)" using \<open>C = []\<close> by simp
    moreover have "rootok e (plug (F # C) u')" using gT' by (simp add: good_def)
    ultimately have "cl = [] \<and> cr = []" by (cases cl; cases cr) (auto simp: rootok_def split: list.splits)
    then have "rootaddr (plug (F # C) u') = ?a3"
      using \<open>plug (F # C) u' = _\<close> by (simp add: rootaddr_def) (simp add: u'_def)
    then show ?thesis by simp
  qed simp
  ultimately show ?thesis using cm by auto
qed

lemma insert_commit:
  assumes h: "hinv dg e hs Ts" and dg: "3 \<le> dg" and c: "choice_ok dg (last hs) c"
    and f: "frame_ok dg e (last hs) Ts (OpScx (OpInsert k val rep) i0 sr v)"
    and s: "insert_scx dg e (last hs) c k val sr v = Some (h', fixes, res)"
  shows "\<exists>T' new W D. commits dg e hs Ts h' T' new W D
    \<and> ab_spec (OpInsert k val rep) (dict (last Ts)) = (dict T', RPtr res) \<and> covers fixes (rootaddr T') new W D"
proof -
  let ?h = "last hs" and ?l = "s_l sr" and ?n = "nd (last hs) (s_l sr)"
  define i where "i = getKeyIndex ?n k"
  have fo: "srch_ok ?h Ts k sr" "ab_leaf ?n" "key_at ?n k \<longrightarrow> rep" "p_ok ?h sr v" using f by auto
  have ch: "?h (c_a1 c) = None" "?h (c_a2 c) = None" "?h (c_a3 c) = None" "alloc_ok dg (c_g1 c)"
    using c by (auto simp: choice_ok_def)
  have pne: "s_p sr \<noteq> c_a1 c" "s_p sr \<noteq> c_a2 c" "s_p sr \<noteq> c_a3 c" using fo(1) ch unfolding srch_ok_def by auto
  note sd = s [unfolded insert_scx_def Let_def i_def [symmetric]]
  have ver: "ab_scxPtr (nd ?h (s_p sr)) = v"
    using sd pne scx_some(2) [of "c_fail c" _ "[(s_p sr, v, False)]" _ _ _ _ _ "s_p sr" v False]
    by (fastforce split: if_splits option.splits prod.splits)
  obtain F C sk where pl: "last Ts = plug (F # C) (Lf ?l sk (akeys ?n) (aptrs ?n))" "faddr F = s_p sr"
    "length (fleft F) = s_ixL sr" "\<forall>f\<in>set (F # C). fr_ok f" "cthru k (F # C)" "node_ok dg ?n"
    "sk = ab_searchKey ?n" "ab_weight ?n" "sorted_wrt (<) (akeys ?n)"
    by (rule leaf_place [OF h fo(1,2,4) ver])
  note rng = in_rng_hole [OF h pl(1,4,5)]
  have kr: "\<forall>x\<in>set (akeys ?n). in_rng (clo (F # C)) (chi (F # C)) x" "in_rng (clo (F # C)) (chi (F # C)) (ab_searchKey ?n)"
    using rng(2) pl(7) by simp_all
  have len: "length (akeys ?n) = ab_size ?n" "length (aptrs ?n) = ab_size ?n" "getKeyCount ?n = ab_size ?n"
    using node_okD(1,2) [OF pl(6)] fo(2) by (simp_all add: getKeyCount_def)
  have ik: "i = kidx k (akeys ?n)" "i \<le> ab_size ?n"
    using getKeyIndex_eq [OF pl(6)] getKeyIndex_le [OF pl(6), of k] len by (simp_all add: i_def)
  have dk: "dict (last Ts) k = (if key_at ?n k then Some (ab_ptrs ?n ! i) else None)"
    using dict_leaf [OF h pl(1,4,5)] key_at_lookup [OF pl(6) fo(2) pl(9), of k] by (simp add: i_def)
  have nk: "k \<notin> set (akeys ?n)" if "\<not> key_at ?n k"
  proof -
    have "map_of (zip (akeys ?n) (aptrs ?n)) k = None" using key_at_lookup [OF pl(6) fo(2) pl(9), of k] that by simp
    then show ?thesis using len by (metis map_of_zip_is_None)
  qed
  consider (rep) "key_at ?n k" | (ins) "\<not> key_at ?n k" "ab_size ?n < dg" | (over) "\<not> key_at ?n k" "\<not> ab_size ?n < dg" by blast
  then show ?thesis
  proof cases
    case rep
    have i': "i < ab_size ?n" "akeys ?n ! i = k" using rep len by (auto simp: key_at_def akeys_nth i_def)
    note vw = mk_replace_view [OF pl(6) fo(2) ch(4) i'(1), of val]
    have sx: "scxExecute (c_fail c) (?h(c_a1 c \<mapsto> mk_replace ?n i val (c_g1 c))) [(s_p sr, v, False)] (s_p sr) (s_ixL sr) ?l (c_a1 c) = Some h'"
      and r: "fixes = [FxStart FixDegree (c_a1 c)]" "res = ab_ptrs ?n ! i"
      using sd rep by (auto split: option.splits)
    have mo: "map_of (zip (akeys ?n) ((aptrs ?n)[i := val])) = (map_of (zip (akeys ?n) (aptrs ?n)))(k \<mapsto> val)"
      using map_of_replace [of "aptrs ?n" "akeys ?n" i val] len i' pl(9) by simp
    obtain T' where T': "commits dg e hs Ts h' T' {c_a1 c} {} {c_a1 c}" "dict T' = (dict (last Ts))(k \<mapsto> val)"
      using leaf_commit [OF h c pl(1-5) fo(2) vw(1-3,7,6,4,5) pl(9) kr mo sx] by blast
    have "ab_spec (OpInsert k val rep) (dict (last Ts)) = (dict T', RPtr res)" using dk rep fo(3) T'(2) r by simp
    then show ?thesis using T'(1) r by (intro exI conjI) (auto simp: covers_def)
  next
    case ins
    note vw = mk_insert_view [OF pl(6) fo(2) ins(2) ch(4) ik(2), of k val]
    have vw3: "ab_weight (mk_insert ?n i k val (c_g1 c))" using vw(3) pl(8) by simp
    have sx: "scxExecute (c_fail c) (?h(c_a1 c \<mapsto> mk_insert ?n i k val (c_g1 c))) [(s_p sr, v, False)] (s_p sr) (s_ixL sr) ?l (c_a1 c) = Some h'"
      and r: "fixes = [FxStart FixDegree (c_a1 c)]" "res = AB_NO_VALUE"
      using sd ins len(3) by (auto split: option.splits)
    have so: "sorted_wrt (<) (take i (akeys ?n) @ k # drop i (akeys ?n))" by (rule sorted_insert [OF pl(9) ik(1) nk [OF ins(1)]])
    have kr': "\<forall>x\<in>set (take i (akeys ?n) @ k # drop i (akeys ?n)). in_rng (clo (F # C)) (chi (F # C)) x"
      using kr rng(1) by (auto dest: in_set_takeD in_set_dropD)
    have mo: "map_of (zip (take i (akeys ?n) @ k # drop i (akeys ?n)) (take i (aptrs ?n) @ val # drop i (aptrs ?n)))
        = (map_of (zip (akeys ?n) (aptrs ?n)))(k \<mapsto> val)"
      by (rule map_of_insert) (use len ik nk [OF ins(1)] in auto)
    obtain T' where T': "commits dg e hs Ts h' T' {c_a1 c} {} {c_a1 c}" "dict T' = (dict (last Ts))(k \<mapsto> val)"
      using leaf_commit [OF h c pl(1-5) fo(2) vw(1,2) vw3 vw(7,6,4,5) so kr' kr(2) mo sx] by blast
    have "ab_spec (OpInsert k val rep) (dict (last Ts)) = (dict T', RPtr res)" using dk ins T'(2) r by simp
    then show ?thesis using T'(1) r by (intro exI conjI) (auto simp: covers_def)
  next
    case over
    have sz: "ab_size ?n = dg" using over(2) node_okD(3) [OF pl(6)] by simp
    obtain left right n where e: "mk_overflow dg ?n i k val (s_p sr = e) (c_a1 c) (c_a2 c) (c_g1 c) (c_g2 c) (c_g3 c) = (left, right, n)"
      by (metis prod_cases3)
    have sx: "scxExecute (c_fail c) (?h(c_a1 c \<mapsto> left, c_a2 c \<mapsto> right, c_a3 c \<mapsto> n)) [(s_p sr, v, False)] (s_p sr) (s_ixL sr) ?l (c_a3 c) = Some h'"
      and r: "fixes = [FxStart FixWeight (c_a3 c)]" "res = AB_NO_VALUE"
      using sd over len(3) e by (auto split: option.splits)
    obtain T' D where T': "commits dg e hs Ts h' T' {c_a3 c, c_a1 c, c_a2 c} {c_a3 c} D" "D \<subseteq> {rootaddr T'}"
      "dict T' = (dict (last Ts))(k \<mapsto> val)"
      using overflow_commit [OF h dg c pl(1-6,9) fo(2,2) sz ik(1) nk [OF over(1)] e sx] by blast
    have "ab_spec (OpInsert k val rep) (dict (last Ts)) = (dict T', RPtr res)" using dk over T'(3) r by simp
    then show ?thesis using T'(1,2) r by (intro exI conjI) (auto simp: covers_def)
  qed
qed

end
