(* ===== verification/AbTree_Fixes.thy ===== *)
theory AbTree_Fixes
  imports AbTree_OpSteps
begin

text \<open>
  The SCX of \<open>fixWeightViolation\<close> and of \<open>fixDegreeViolation\<close>: each replaces the parent of the
  violation by the nodes it built, keeps the dictionary, and leaves violations at most where it
  calls itself again.
\<close>

subsection \<open>The place of the violation\<close>

lemma fix_place:
  assumes h: "hinv dg e hs Ts" and at: "at_ok dg e (last hs) Ts fk viol sr"
    and g: "gp_ok (last hs) sr vg" "ab_scxPtr (nd (last hs) (the (s_gp sr))) = vg"
    and p: "p_ok (last hs) sr vp" "ab_scxPtr (nd (last hs) (s_p sr)) = vp"
  obtains F C w sp ks cs where "last Ts = plug (F # C) (In (s_p sr) w sp ks cs)" "faddr F = the (s_gp sr)"
    "length (fleft F) = nat (s_ixP sr)" "\<forall>f\<in>set (F # C). fr_ok f" "s_ixL sr < length cs"
    "length cs = Suc (length ks)" "rt (cs ! s_ixL sr) = viol" "coh dg (last hs) (In (s_p sr) w sp ks cs)"
    "s_p sr \<noteq> viol" "the (s_gp sr) \<in> dom (last hs)" "s_p sr \<in> dom (last hs)"
proof -
  let ?h = "last hs"
  define k where "k = ab_searchKey (nd ?h viol)"
  have fx: "fx_ok dg e ?h Ts fk viol sr" "s_l sr = viol" using at unfolding at_ok_def by blast+
  have so: "srch_ok ?h Ts k sr" "s_gp sr \<noteq> None" using fx unfolding fx_ok_def k_def by auto
  obtain gp where gp: "s_gp sr = Some gp" using so(2) by blast
  have G: "seen Ts (s_st sr) k gp" "gp \<in> dom ?h" "\<not> ab_leaf (nd ?h gp)" "s_ixP sr = int (getChildIndex (nd ?h gp) k)"
    using so(1) gp unfolding srch_ok_def by blast+
  have P: "s_p sr \<in> dom ?h" "\<not> ab_leaf (nd ?h (s_p sr))" "s_ixL sr = getChildIndex (nd ?h (s_p sr)) k"
    "seen Ts (s_st sr) k (s_p sr)"
    using so(1) unfolding srch_ok_def by blast+
  have gm: "\<not> ab_marked (nd ?h gp)" "ab_ptrs (nd ?h gp) ! nat (s_ixP sr) = s_p sr"
    using g gp unfolding gp_ok_def dep_ok_def by auto
  have pm: "ab_ptrs (nd ?h (s_p sr)) ! s_ixL sr = viol"
    using p fx(2) unfolding p_ok_def dep_ok_def by auto
  have ixb: "getChildIndex (nd ?h x) k < getABDegree (nd ?h x)" if "node_ok dg (nd ?h x)" "\<not> ab_leaf (nd ?h x)" for x
    using getChildIndex_le [OF that(1), of k] that by (auto simp: getKeyCount_def node_ok_def)
  have ixg: "nat (s_ixP sr) < getABDegree (nd ?h gp)" using ixb seen_dom(2) [OF h G(1)] G by simp
  obtain w0 sk0 ks0 cs0 C where pl: "last Ts = plug (Fr gp w0 sk0 (take (nat (s_ixP sr)) ks0) (take (nat (s_ixP sr)) cs0) (drop (nat (s_ixP sr)) ks0) (drop (Suc (nat (s_ixP sr))) cs0) # C) (cs0 ! nat (s_ixP sr))"
    "\<forall>f\<in>set (Fr gp w0 sk0 (take (nat (s_ixP sr)) ks0) (take (nat (s_ixP sr)) cs0) (drop (nat (s_ixP sr)) ks0) (drop (Suc (nat (s_ixP sr))) cs0) # C). fr_ok f"
    "nat (s_ixP sr) < length cs0" "length cs0 = Suc (length ks0)" "cthru k C" "rt (cs0 ! nat (s_ixP sr)) = ab_ptrs (nd ?h gp) ! nat (s_ixP sr)"
    "inner_at dg ?h gp w0 sk0 ks0 (map rt cs0)" "last Ts = plug C (In gp w0 sk0 ks0 cs0)" "\<forall>f\<in>set C. fr_ok f"
    using place [OF h G(1-3) gm(1) ixg] by blast
  define F where "F = Fr gp w0 sk0 (take (nat (s_ixP sr)) ks0) (take (nat (s_ixP sr)) cs0) (drop (nat (s_ixP sr)) ks0) (drop (Suc (nat (s_ixP sr))) cs0)"
  have T: "last Ts = plug (F # C) (cs0 ! nat (s_ixP sr))" using pl(1) F_def by simp
  have rp: "rt (cs0 ! nat (s_ixP sr)) = s_p sr" using pl(6) gm(2) by simp
  have co: "coh dg ?h (cs0 ! nat (s_ixP sr))" using hinv_last(1) [OF h] unfolding T coh_plug by blast
  then obtain w sp ks cs where u: "cs0 ! nat (s_ixP sr) = In (s_p sr) w sp ks cs"
    using rp P(2) coh_rt_leaf [OF co] by (cases "cs0 ! nat (s_ixP sr)") auto
  have ia: "inner_at dg ?h (s_p sr) w sp ks (map rt cs)" using co u by simp
  have ixl: "s_ixL sr < length cs" using inner_at_child(2,3) [OF ia, of k] P(3) by simp
  have rl: "rt (cs ! s_ixL sr) = viol" using inner_at_nth(2) [OF ia, of "s_ixL sr"] ixl pm by simp
  have "distinct (addrs (In (s_p sr) w sp ks cs))"
    using hinv_last(2) [OF h] T u distinct_plug [of "F # C"] by (simp add: good_def del: plug.simps)
  moreover have "viol \<in> set (addrs (cs ! s_ixL sr))" unfolding rl [symmetric] by (rule rt_in_addrs)
  then have "viol \<in> set (concat (map addrs cs))" using nth_mem [OF ixl] by auto
  ultimately have "s_p sr \<noteq> viol" by auto
  then show ?thesis
    using that [of F C w sp ks cs] T u pl(2,3) co ixl rl P G(2) gp inner_at_length [OF ia] by (simp add: F_def)
qed

lemma fix_commit:
  assumes h: "hinv dg e hs Ts" and T: "last Ts = plug (F # C) u"
    and F: "faddr F = g" "length (fleft F) = ix" "\<forall>f\<in>set (F # C). fr_ok f"
    and r: "rebal dg (F # C) u u' newl gone W D"
    and n: "distinct newl" "set newl \<inter> dom (last hs) = {}" "\<And>x. x \<notin> set newl \<Longrightarrow> h1 x = last hs x"
    and c: "coh dg h1 u'" and s: "scxExecute fail h1 ((g, vg, False) # deps) g ix (rt u) (rt u') = Some h'"
    and d: "distinct (map fst deps)" "fst ` set deps \<subseteq> set gone" "\<forall>(x, v, f)\<in>set deps. f"
      "\<forall>x\<in>set gone. ab_leaf (nd (last hs) x) \<or> x \<in> fst ` set deps" "\<forall>x\<in>fst ` set deps. \<not> ab_leaf (nd (last hs) x)"
  shows "commits dg e hs Ts h' (plug (F # C) u') (set newl) W D" "dict (plug (F # C) u') = dict (last Ts)"
    "set gone \<inter> set (addrs (plug (F # C) u')) = {}"
proof -
  have rs: "reshape dg (F # C) u u' newl gone W D" "tcontent u' = tcontent u" using r by (simp_all add: rebal_def)
  have cm: "ab_commit dg e (last hs) h1 h' F C u u' deps vg newl gone W D"
    unfolding ab_commit_def
    using hinv_last [OF h, unfolded T] F rs n c scx_some(1) [OF s] d hinvD(7) [OF h, unfolded T] by blast
  then show "commits dg e hs Ts h' (plug (F # C) u') (set newl) W D"
    unfolding commits_def using T by blast
  show "dict (plug (F # C) u') = dict (last Ts)" using dict_rebal [OF rs(2)] T by simp
  show "set gone \<inter> set (addrs (plug (F # C) u')) = {}"
    unfolding addrs_plug using commit_addrs(6,7) [OF cm] by blast
qed

lemma map_rt_merge:
  "take i (map rt cs) @ map rt lc @ drop (Suc i) (map rt cs) = map rt (take i cs @ lc @ drop (Suc i) cs)"
  by (simp add: take_map drop_map)

subsection \<open>Absorb and Split\<close>

lemma weight_commit:
  assumes h: "hinv dg e hs Ts" and dg: "3 \<le> dg" and c: "choice_ok dg (last hs) c"
    and f: "frame_ok dg e (last hs) Ts (WScx viol sr vg vp vl)"
    and s: "weight_scx dg e (last hs) c sr vg vp vl = Some (h', fixes)"
  shows "\<exists>T' new W D. commits dg e hs Ts h' T' new W D \<and> dict T' = dict (last Ts)
    \<and> covers fixes (rootaddr T') new W D \<and> viol \<notin> set (addrs T')"
proof -
  let ?h = "last hs" and ?p = "nd (last hs) (s_p sr)" and ?l = "nd (last hs) viol" and ?i = "s_ixL sr"
  let ?a1 = "c_a1 c" and ?a2 = "c_a2 c" and ?a3 = "c_a3 c"
  have fo: "at_ok dg e ?h Ts FixWeight viol sr" "gp_ok ?h sr vg" "p_ok ?h sr vp" using f by auto
  have sl: "s_l sr = viol" "\<not> ab_weight ?l" "viol \<in> dom ?h" "ab_weight ?p"
    using fo(1) unfolding at_ok_def fx_ok_def viol_ok_def by auto
  have ch: "distinct [?a1, ?a2, ?a3]" "?h ?a1 = None" "?h ?a2 = None" "?h ?a3 = None"
    "alloc_ok dg (c_g1 c)" "alloc_ok dg (c_g2 c)" "alloc_ok dg (c_g3 c)" using c by (auto simp: choice_ok_def)
  define deps where "deps = [(s_p sr, vp, True)] @ (case vl of None \<Rightarrow> [] | Some v \<Rightarrow> [(viol, v, True)])"
  define g where "g = the (s_gp sr)"
  have gd: "g \<in> dom ?h" "s_p sr \<in> dom ?h" using fo(2,3) unfolding gp_ok_def p_ok_def dep_ok_def g_def by blast+
  have ne: "x \<in> dom ?h \<Longrightarrow> x \<noteq> ?a1 \<and> x \<noteq> ?a2 \<and> x \<noteq> ?a3" for x using ch by auto
  have deq: "(g, vg, False) # deps = [(g, vg, False), (s_p sr, vp, True)] @ (case vl of None \<Rightarrow> [] | Some v \<Rightarrow> [(viol, v, True)])"
    by (simp add: deps_def)
  note sd = s [unfolded weight_scx_def Let_def sl(1), folded g_def, folded deq]
  have "\<exists>h1 n. scxExecute (c_fail c) h1 ((g, vg, False) # deps) g (nat (s_ixP sr)) (s_p sr) n = Some h'
      \<and> (\<forall>y\<in>dom ?h. h1 y = ?h y)"
  proof (cases "getABDegree ?p + getABDegree ?l - 1 \<le> dg")
    case True
    then show ?thesis using sd ne
      by (intro exI [of _ "?h(?a1 \<mapsto> mk_absorb ?p ?l ?i (c_g1 c))"] exI [of _ ?a1]) (auto split: option.splits)
  next
    case False
    obtain left right n where "mk_split dg ?p ?l ?i (g = e) ?a1 ?a2 (c_g1 c) (c_g2 c) (c_g3 c) = (left, right, n)"
      by (metis prod_cases3)
    then show ?thesis using sd ne False
      by (intro exI [of _ "?h(?a1 \<mapsto> left, ?a2 \<mapsto> right, ?a3 \<mapsto> n)"] exI [of _ ?a3]) (auto split: option.splits)
  qed
  then obtain hx nx where hx: "scxExecute (c_fail c) hx ((g, vg, False) # deps) g (nat (s_ixP sr)) (s_p sr) nx = Some h'"
    "\<forall>y\<in>dom ?h. hx y = ?h y" by blast
  have ver: "ab_scxPtr (nd ?h g) = vg" "ab_scxPtr ?p = vp"
    using scx_some(2) [OF hx(1), of g vg False] scx_some(2) [OF hx(1), of "s_p sr" vp True] hx(2) gd
    by (simp_all add: deps_def)
  obtain F C w sp ks cs where pl: "last Ts = plug (F # C) (In (s_p sr) w sp ks cs)" "faddr F = g"
    "length (fleft F) = nat (s_ixP sr)" "\<forall>f\<in>set (F # C). fr_ok f" "?i < length cs"
    "length cs = Suc (length ks)" "rt (cs ! ?i) = viol" "coh dg ?h (In (s_p sr) w sp ks cs)" "s_p sr \<noteq> viol"
    using fix_place [OF h fo(1,2) _ fo(3) ver(2)] ver(1) unfolding g_def by metis
  have ip: "inner_at dg ?h (s_p sr) w sp ks (map rt cs)" using pl(8) by simp
  have wT: "w" using ip sl(4) by (auto simp: inner_at_def)
  have cL: "coh dg ?h (cs ! ?i)" using pl(5,8) by simp
  obtain sk lk lc where L: "cs ! ?i = In viol False sk lk lc"
    using coh_rt(1) [OF cL] pl(7) sl(2) by (cases "cs ! ?i") auto
  have il: "inner_at dg ?h viol False sk lk (map rt lc)" "\<forall>c\<in>set lc. coh dg ?h c" using cL L by simp_all
  then have nl: "\<not> ab_leaf ?l" by (auto simp: inner_at_def)
  obtain v where v: "vl = Some v" using f sl(1) nl by (cases vl) auto
  define kl cl kr cr where kd: "kl = take ?i ks" "cl = take ?i cs" "kr = drop ?i ks" "cr = drop (Suc ?i) cs"
  define K Cs where K: "K = kl @ lk @ kr" and Cs: "Cs = cl @ lc @ cr"
  have cseq: "cs = cl @ In viol False sk lk lc # cr" "ks = kl @ kr"
    using id_take_nth_drop [OF pl(5)] L by (simp_all add: kd)
  define u where "u = In (s_p sr) True sp (kl @ kr) (cl @ In viol False sk lk lc # cr)"
  have T: "last Ts = plug (F # C) u" using pl(1) cseq wT by (simp add: u_def)
  have len: "length cl = length kl" "length cr = length kr" using pl(5,6) by (simp_all add: kd)
  note g0 = hinv_last(2) [OF h, unfolded T]
  note gp = good_parts [OF g0 pl(4)]
  have l2: "length lc = 2" using gp(3) by (simp add: u_def)
  have vp: "node_ok dg ?p" "\<not> ab_leaf ?p" "akeys ?p = ks" "aptrs ?p = map rt cs" "ab_size ?p = length cs"
    using ip inner_at_nth(1) [OF ip] by (auto simp: inner_at_def)
  have vL: "node_ok dg ?l" "\<not> ab_leaf ?l" "akeys ?l = lk" "aptrs ?l = map rt lc" "ab_size ?l = 2"
    using il inner_at_nth(1) [OF il(1)] l2 by (auto simp: inner_at_def)
  have szs: "ab_size ?p + ab_size ?l - 1 = length Cs" using vp vL pl(5) l2 by (simp add: Cs kd)
  have Kv: "take ?i (akeys ?p) @ akeys ?l @ drop ?i (akeys ?p) = K" using vp vL by (simp add: K kd)
  have Cv: "take ?i (aptrs ?p) @ aptrs ?l @ drop (Suc ?i) (aptrs ?p) = map rt Cs"
    using vp vL map_rt_merge by (simp add: Cs kd)
  have sub: "\<forall>c\<in>set Cs. coh dg ?h c" using pl(8) il(2) by (auto simp: Cs kd dest: in_set_takeD in_set_dropD)
  have dp: "distinct (map fst deps)" "fst ` set deps \<subseteq> set [s_p sr, viol]" "\<forall>(x, v, f)\<in>set deps. f"
    "\<forall>x\<in>set [s_p sr, viol]. ab_leaf (nd ?h x) \<or> x \<in> fst ` set deps" "\<forall>x\<in>fst ` set deps. \<not> ab_leaf (nd ?h x)"
    using pl(9) vp(2) vL(2) v by (auto simp: deps_def)
  have ee: "g = e \<longleftrightarrow> length (F # C) = 1" using entry_frame [OF g0] pl(2) by simp
  show ?thesis
  proof (cases "length Cs \<le> dg")
    case True
    define n where "n = mk_absorb ?p ?l ?i (c_g1 c)"
    define h1 where "h1 = ?h(?a1 \<mapsto> n)"
    have iz: "?i < ab_size ?p" "ab_size ?p + ab_size ?l - 1 \<le> dg" "2 \<le> ab_size ?l" using pl(5) vp vL szs True by simp_all
    note vw = mk_absorb_view [OF vp(1,2) vL(1,2) ch(5) iz, folded n_def, unfolded Kv Cv]
    have sx: "scxExecute (c_fail c) h1 ((g, vg, False) # deps) g (nat (s_ixP sr)) (s_p sr) ?a1 = Some h'"
      and fx: "fixes = [FxStart FixDegree ?a1]"
      using sd True szs by (auto simp: n_def h1_def split: option.splits)
    define u' where "u' = In ?a1 True (K ! 0) K Cs"
    have sz: "length cl + length lc + length cr \<le> dg" using True by (simp add: Cs)
    have r: "rebal dg (F # C) u u' [?a1] [s_p sr, viol] {} {?a1}"
      using rebal_absorb [OF g0 pl(4) _ u_def len sz, of ?a1] by (simp add: u'_def K Cs)
    have keep: "h1 x = ?h x" if "x \<in> dom ?h" for x using ne [OF that] by (simp add: h1_def)
    have sub1: "\<forall>c\<in>set Cs. coh dg h1 c" using sub coh_fresh [where h = ?h and ?h1.0 = h1, OF _ keep] by blast
    have co: "coh dg h1 u'" using vw sub1 by (simp add: u'_def inner_at_def h1_def)
    have sx': "scxExecute (c_fail c) h1 ((g, vg, False) # deps) g (nat (s_ixP sr)) (rt u) (rt u') = Some h'"
      using sx by (simp add: u_def u'_def)
    have "commits dg e hs Ts h' (plug (F # C) u') (set [?a1]) {} {?a1}" "dict (plug (F # C) u') = dict (last Ts)"
      "set [s_p sr, viol] \<inter> set (addrs (plug (F # C) u')) = {}"
      by (rule fix_commit [OF h T pl(2-4) r _ _ _ co sx' dp]; use ch in \<open>auto simp: h1_def\<close>)+
    moreover have "covers fixes (rootaddr (plug (F # C) u')) (set [?a1]) {} {?a1}" by (simp add: fx covers_def)
    ultimately show ?thesis by (intro exI conjI) auto
  next
    case False
    obtain left right n where ms: "mk_split dg ?p ?l ?i (g = e) ?a1 ?a2 (c_g1 c) (c_g2 c) (c_g3 c) = (left, right, n)"
      by (metis prod_cases3)
    define h1 where "h1 = ?h(?a1 \<mapsto> left, ?a2 \<mapsto> right, ?a3 \<mapsto> n)"
    define m where "m = length Cs div 2"
    have iz: "?i < ab_size ?p" "dg < ab_size ?p + ab_size ?l - 1" using pl(5) vp szs False by simp_all
    note vw = mk_split_view [OF vp(1,2) vL(1,2) ch(5-7) iz dg ms, unfolded Kv Cv szs, folded m_def]
    have sx: "scxExecute (c_fail c) h1 ((g, vg, False) # deps) g (nat (s_ixP sr)) (s_p sr) ?a3 = Some h'"
      and fx: "fixes = [FxStart FixWeight ?a3, FxStart FixDegree ?a3]"
      using sd False szs ms by (auto simp: h1_def split: option.splits)
    define u' where "u' = In ?a3 (g = e) (K ! (m - 1)) [K ! (m - 1)]
        [In ?a1 True (K ! 0) (take (m - 1) K) (take m Cs), In ?a2 True (K ! m) (drop m K) (drop m Cs)]"
    have sz: "dg < length cl + length lc + length cr" using False by (simp add: Cs)
    have r: "rebal dg (F # C) u u' [?a3, ?a1, ?a2] [s_p sr, viol] {?a3} {?a3}"
      using rebal_split [OF g0 pl(4) _ dg u_def len sz ee, of ?a3 ?a1 ?a2] by (simp add: u'_def K Cs m_def)
    have keep: "h1 x = ?h x" if "x \<in> dom ?h" for x using ne [OF that] by (simp add: h1_def)
    have sub1: "\<forall>c\<in>set Cs. coh dg h1 c" using sub coh_fresh [where h = ?h and ?h1.0 = h1, OF _ keep] by blast
    have at: "h1 ?a1 = Some left" "h1 ?a2 = Some right" "h1 ?a3 = Some n" using ch(1) by (auto simp: h1_def)
    have "coh dg h1 (In ?a1 True (K ! 0) (take (m - 1) K) (take m Cs))"
      using vw(1-7) at(1) sub1 by (auto simp: inner_at_def take_map dest: in_set_takeD)
    moreover have "coh dg h1 (In ?a2 True (K ! m) (drop m K) (drop m Cs))"
      using vw(8-14) at(2) sub1 by (auto simp: inner_at_def drop_map dest: in_set_dropD)
    ultimately have co: "coh dg h1 u'" using vw(15-21) at(3) by (simp add: u'_def inner_at_def)
    have sx': "scxExecute (c_fail c) h1 ((g, vg, False) # deps) g (nat (s_ixP sr)) (rt u) (rt u') = Some h'"
      using sx by (simp add: u_def u'_def)
    have "commits dg e hs Ts h' (plug (F # C) u') (set [?a3, ?a1, ?a2]) {?a3} {?a3}" "dict (plug (F # C) u') = dict (last Ts)"
      "set [s_p sr, viol] \<inter> set (addrs (plug (F # C) u')) = {}"
      by (rule fix_commit [OF h T pl(2-4) r _ _ _ co sx' dp]; use ch in \<open>auto simp: h1_def\<close>)+
    moreover have "covers fixes (rootaddr (plug (F # C) u')) (set [?a3, ?a1, ?a2]) {?a3} {?a3}" by (simp add: fx covers_def)
    ultimately show ?thesis by (intro exI conjI) auto
  qed
qed

end
