(* ===== verification/AbTree_Sib.thy ===== *)
theory AbTree_Sib
  imports AbTree_Fixes
begin

text \<open>
  The SCX of \<open>fixDegreeViolation\<close>: AbsorbSibling, with or without RootAbsorb, and Distribute.
\<close>

subsection \<open>A node of the heap and its subtree\<close>

fun tkeys :: "tr \<Rightarrow> int list" where
  "tkeys (Lf x sk ks vs) = ks"
| "tkeys (In x w sk ks cs) = ks"

fun tkids :: "tr \<Rightarrow> tr list" where
  "tkids (Lf x sk ks vs) = []"
| "tkids (In x w sk ks cs) = cs"

fun tptrs :: "tr \<Rightarrow> nat list" where
  "tptrs (Lf x sk ks vs) = vs"
| "tptrs (In x w sk ks cs) = map rt cs"

lemma coh_parts:
  assumes "coh dg h t"
  shows "akeys (nd h (rt t)) = tkeys t" "aptrs (nd h (rt t)) = tptrs t" "ab_leaf (nd h (rt t)) = is_leaf t"
    "ab_size (nd h (rt t)) = deg t" "c \<in> set (tkids t) \<Longrightarrow> coh dg h c"
    "\<not> is_leaf t \<Longrightarrow> getABDegree (nd h (rt t)) = length (tkids t)" "node_ok dg (nd h (rt t))"
    "ab_searchKey (nd h (rt t)) = skey t" "ab_weight (nd h (rt t)) = wt t"
  using assms
  by (cases t; auto simp: leaf_at_def inner_at_def akeys_def aptrs_def node_ok_def getKeyCount_def
      dest!: arg_cong [where f = length])+

lemma coh_node:
  assumes "h (rt t) = Some n" "node_ok dg n" "ab_leaf n = is_leaf t" "ab_weight n = wt t" "\<not> ab_marked n"
    "akeys n = tkeys t" "aptrs n = tptrs t" "ab_searchKey n = skey t" "\<forall>c\<in>set (tkids t). coh dg h c"
  shows "coh dg h t"
  using assms by (cases t) (simp_all add: leaf_at_def inner_at_def)

lemma join_parts:
  assumes "is_leaf L = is_leaf S"
  shows "tkeys (join_sib q sq k L S) = tkeys L @ (if is_leaf L then [] else [k]) @ tkeys S"
    "tptrs (join_sib q sq k L S) = tptrs L @ tptrs S" "tkids (join_sib q sq k L S) = tkids L @ tkids S"
    "skey (join_sib q sq k L S) = sq" "rt (join_sib q sq k L S) = q" "is_leaf (join_sib q sq k L S) = is_leaf L"
    "wt (join_sib q sq k L S)"
  using assms by (cases L; cases S; simp)+

lemma cut_parts:
  "tkeys (cut_left x m J) = take (m - (if is_leaf J then 0 else 1)) (tkeys J)" "tptrs (cut_left x m J) = take m (tptrs J)"
  "tkids (cut_left x m J) = take m (tkids J)" "skey (cut_left x m J) = tkeys J ! 0" "rt (cut_left x m J) = x"
  "is_leaf (cut_left x m J) = is_leaf J" "wt (cut_left x m J)"
  "tkeys (cut_right x m J) = drop m (tkeys J)" "tptrs (cut_right x m J) = drop m (tptrs J)"
  "tkids (cut_right x m J) = drop m (tkids J)" "skey (cut_right x m J) = tkeys J ! m" "rt (cut_right x m J) = x"
  "is_leaf (cut_right x m J) = is_leaf J" "wt (cut_right x m J)"
  "cut_key m J = tkeys J ! (m - (if is_leaf J then 0 else 1))"
  by (cases J; simp add: take_map drop_map)+

subsection \<open>The place of the two siblings\<close>

lemma nth_split2:
  assumes "Suc j < length xs"
  shows "xs = take j xs @ xs ! j # xs ! Suc j # drop (Suc (Suc j)) xs"
  by (metis Cons_nth_drop_Suc assms id_take_nth_drop Suc_lessD)

lemma sib_place:
  assumes h: "hinv dg e hs Ts" and f: "at_ok dg e (last hs) Ts FixDegree viol sr" "gp_ok (last hs) sr vg"
      "p_ok (last hs) sr vp" "s_ok (last hs) sr vp s"
    and v: "ab_scxPtr (nd (last hs) (the (s_gp sr))) = vg" "ab_scxPtr (nd (last hs) (s_p sr)) = vp"
  obtains F C sp kl k kr cl L S cr where
    "last Ts = plug (F # C) (In (s_p sr) True sp (kl @ k # kr) (cl @ L # S # cr))"
    "faddr F = the (s_gp sr)" "length (fleft F) = nat (s_ixP sr)" "\<forall>f\<in>set (F # C). fr_ok f"
    "length cl = length kl" "length cr = length kr" "length cl = min (s_ixL sr) (sib_ix (s_ixL sr))"
    "rt L = sib_left sr s" "rt S = sib_right sr s" "wt L" "wt S" "is_leaf L = is_leaf S"
    "coh dg (last hs) (In (s_p sr) True sp (kl @ k # kr) (cl @ L # S # cr))"
    "distinct [s_p sr, rt L, rt S]" "s_ixL sr \<le> length kl + 1" "sib_ix (s_ixL sr) \<le> length kl + 1"
proof -
  let ?h = "last hs" and ?i = "s_ixL sr" and ?j = "sib_ix (s_ixL sr)"
  obtain F C w sp ks cs where pl: "last Ts = plug (F # C) (In (s_p sr) w sp ks cs)" "faddr F = the (s_gp sr)"
    "length (fleft F) = nat (s_ixP sr)" "\<forall>f\<in>set (F # C). fr_ok f" "?i < length cs"
    "length cs = Suc (length ks)" "rt (cs ! ?i) = viol" "coh dg ?h (In (s_p sr) w sp ks cs)"
    using fix_place [OF h f(1,2) v(1) f(3) v(2)] by metis
  have ia: "inner_at dg ?h (s_p sr) w sp ks (map rt cs)" using pl(8) by simp
  have so: "?j < length cs" "rt (cs ! ?j) = s" "ab_weight (nd ?h (s_p sr))" "ab_weight (nd ?h viol)" "ab_weight (nd ?h s)"
    using f(1,4) v(2) inner_at_nth(1) [OF ia] inner_at_nth(2) [OF ia, of ?j] unfolding s_ok_def dep_ok_def at_ok_def by auto
  define m where "m = min ?i ?j"
  have m: "Suc m < length cs" "?i \<noteq> ?j" using pl(5) so(1) by (auto simp: m_def sib_ix_def split: if_splits)
  have two: "(?i = m \<and> ?j = Suc m) \<or> (?i = Suc m \<and> ?j = m)" using m by (auto simp: m_def sib_ix_def split: if_splits)
  define L S where LS: "L = cs ! m" "S = cs ! Suc m"
  have r: "rt L = sib_left sr s" "rt S = sib_right sr s"
    using two pl(7) so(2) f(1) by (auto simp: LS sib_left_def sib_right_def at_ok_def)
  have cLS: "coh dg ?h L" "coh dg ?h S" using pl(8) m(1) by (simp_all add: LS)
  have w: "w" using ia so(3) by (auto simp: inner_at_def)
  have "{rt L, rt S} = {viol, s}" using two pl(7) so(2) by (auto simp: LS)
  then have "ab_weight (nd ?h (rt L))" "ab_weight (nd ?h (rt S))" using so(4,5) by (metis insertCI insertE singletonD)+
  then have wLS: "wt L" "wt S" using coh_rt(1) cLS by blast+
  have cs: "cs = take m cs @ L # S # drop (Suc (Suc m)) cs" unfolding LS by (rule nth_split2 [OF m(1)])
  have mk: "m < length ks" using m(1) pl(6) by simp
  have ks: "ks = take m ks @ ks ! m # drop (Suc m) ks" by (rule id_take_nth_drop [OF mk])
  note g0 = hinv_last(2) [OF h, unfolded pl(1)]
  note gp = good_parts [OF g0 pl(4)]
  obtain d where "bal (In (s_p sr) w sp ks cs) d" using gp(8) by blast
  then have "bal L (d - of_bool w)" "bal S (d - of_bool w)" using m(1) by (simp_all add: LS)
  then have lf: "is_leaf L = is_leaf S" using siblings_kind wLS by blast
  have "distinct (s_p sr # concat (map addrs (take m cs @ L # S # drop (Suc (Suc m)) cs)))"
    using gp(5) unfolding cs [symmetric] by simp
  then have "set (addrs L) \<inter> set (addrs S) = {}" "s_p sr \<notin> set (addrs L)" "s_p sr \<notin> set (addrs S)" by auto
  then have di: "distinct [s_p sr, rt L, rt S]"
    using rt_in_addrs [of L] rt_in_addrs [of S] by (auto simp del: rt_in_addrs)
  show ?thesis
    by (rule that [of F C sp "take m ks" "ks ! m" "drop (Suc m) ks" "take m cs" L S "drop (Suc (Suc m)) cs"];
        (unfold cs [symmetric] ks [symmetric])?)
       (use pl w r wLS lf m mk two di in \<open>auto simp: m_def\<close>)
qed

lemma join_coh:
  assumes c: "coh dg h L" "coh dg h S" and l: "is_leaf L = is_leaf S" and a: "alloc_ok dg g"
    and sz: "deg L + deg S \<le> dg" and ls: "{x, y} = {rt L, rt S}"
    and n: "h1 q = Some (mk_newl (nd h x) (nd h y) (nd h (rt L)) (nd h (rt S)) k g)"
    and f: "\<And>x. x \<in> dom h \<Longrightarrow> h1 x = h x"
  shows "coh dg h1 (join_sib q (ab_searchKey (nd h x)) k L S)"
proof (rule coh_node)
  note pL = coh_parts [OF c(1)] and pS = coh_parts [OF c(2)]
  have kl: "ab_leaf (nd h (rt S)) = ab_leaf (nd h (rt L))" using pL(3) pS(3) l by simp
  have s2: "ab_size (nd h (rt L)) + ab_size (nd h (rt S)) \<le> dg" using sz pL(4) pS(4) by simp
  have xy: "{nd h x, nd h y} = {nd h (rt L), nd h (rt S)}" using ls by (auto simp: doubleton_eq_iff)
  then have ne: "nd h x \<noteq> nd h y \<or> nd h (rt L) = nd h (rt S)" by (auto simp: doubleton_eq_iff)
  note v = mk_newl_view [OF pL(7) pS(7) kl a s2 xy ne, of k]
  let ?n = "mk_newl (nd h x) (nd h y) (nd h (rt L)) (nd h (rt S)) k g"
  let ?J = "join_sib q (ab_searchKey (nd h x)) k L S"
  note jp = join_parts [OF l, of q "ab_searchKey (nd h x)" k]
  show "h1 (rt ?J) = Some ?n" using n jp(5) by simp
  show "node_ok dg ?n" "\<not> ab_marked ?n" by (fact v)+
  show "ab_leaf ?n = is_leaf ?J" "ab_weight ?n = wt ?J" "akeys ?n = tkeys ?J" "aptrs ?n = tptrs ?J" "ab_searchKey ?n = skey ?J"
    using v jp pL(1-3) pS(1-3) by simp_all
  show "\<forall>c\<in>set (tkids ?J). coh dg h1 c"
    unfolding jp(3) using coh_fresh [where h = h and ?h1.0 = h1, OF _ f] pL(5) pS(5) by auto
qed

lemma cut_coh:
  fixes q :: addr and sq :: int
  assumes c: "coh dg h L" "coh dg h S" and l: "is_leaf L = is_leaf S"
    and p: "coh dg h (In px True sp (kl @ k # kr) (cl @ L # S # cr))" and len: "length cl = length kl"
    and a: "alloc_ok dg g1" "alloc_ok dg g2" "alloc_ok dg g3" and sz: "4 \<le> deg L + deg S"
    and e: "mk_distribute dg (nd h px) (nd h (rt L)) (nd h (rt S)) (length kl) (Suc (length kl)) x y g1 g2 g3 = (nl, nr, n)"
    and n: "h1 x = Some nl" "h1 y = Some nr" "h1 z = Some n" and f: "\<And>x. x \<in> dom h \<Longrightarrow> h1 x = h x"
  defines "m \<equiv> (deg L + deg S) div 2" and "J \<equiv> join_sib q sq k L S"
  shows "coh dg h1 (In z True sp (kl @ cut_key m J # kr) (cl @ cut_left x m J # cut_right y m J # cr))"
proof -
  note pL = coh_parts [OF c(1)] and pS = coh_parts [OF c(2)] and pp = coh_parts [OF p, simplified]
  have kl: "ab_leaf (nd h (rt S)) = ab_leaf (nd h (rt L))" using pL(3) pS(3) l by simp
  have j: "Suc (length kl) < ab_size (nd h px)" using pp(4) len by simp
  have sz': "4 \<le> ab_size (nd h (rt L)) + ab_size (nd h (rt S))" using sz pL(4) pS(4) by simp
  have nlf: "\<not> ab_leaf (nd h px)" using pp(3) by simp
  note v = mk_distribute_view [OF pL(7) pS(7) kl pp(7) nlf a j sz' e]
  note jp = join_parts [OF l, of q sq k, folded J_def]
  have kk: "akeys (nd h px) ! length kl = k" using pp(1) by simp
  have ks: "sibling_keys (nd h (rt L)) (nd h (rt S)) (akeys (nd h px) ! length kl) = tkeys J"
    "aptrs (nd h (rt L)) @ aptrs (nd h (rt S)) = tptrs J" "ab_leaf (nd h (rt L)) = is_leaf J"
    "(ab_size (nd h (rt L)) + ab_size (nd h (rt S))) div 2 = m"
    using jp pL(1-4) pS(1-4) unfolding kk m_def by simp_all
  note v' = v [unfolded ks(1), unfolded ks(2-4)]
  have kids: "\<forall>c\<in>set (tkids J). coh dg h1 c" "\<forall>c\<in>set cl \<union> set cr. coh dg h1 c"
    unfolding jp(3) using coh_fresh [where h = h and ?h1.0 = h1, OF _ f] pL(5) pS(5) p by auto
  note cp = cut_parts [where m = m and J = J]
  have A: "coh dg h1 (cut_left x m J)"
    by (rule coh_node [of h1 _ nl]) (use v' cp kids n in \<open>auto dest: in_set_takeD\<close>)
  have B: "coh dg h1 (cut_right y m J)"
    by (rule coh_node [of h1 _ nr]) (use v' cp kids n in \<open>auto dest: in_set_dropD\<close>)
  have "akeys n = kl @ cut_key m J # kr" using v'(19) pp(1) cp(15) by simp
  moreover have "aptrs n = map rt (cl @ cut_left x m J # cut_right y m J # cr)"
    using v'(20) pp(2) cp(5,12) len by (simp add: list_update_append)
  moreover have "ab_searchKey n = sp" using v'(21) pp(8) by simp
  ultimately have "inner_at dg h1 z True sp (kl @ cut_key m J # kr) (map rt (cl @ cut_left x m J # cut_right y m J # cr))"
    using v'(15-18) n(3) by (simp add: inner_at_def)
  then show ?thesis using A B kids(2) by simp
qed

subsection \<open>The SCX\<close>

lemma degree_commit:
  assumes h: "hinv dg e hs Ts" and dg: "3 \<le> dg" and c: "choice_ok dg (last hs) c"
    and f: "frame_ok dg e (last hs) Ts (DScx viol sr vg vp s vlr)"
    and sx: "degree_scx dg e (last hs) c sr vg vp s vlr = Some (h', fixes)"
  shows "\<exists>T' new W D. commits dg e hs Ts h' T' new W D \<and> dict T' = dict (last Ts)
    \<and> covers fixes (rootaddr T') new W D \<and> viol \<notin> set (addrs T')"
proof -
  let ?h = "last hs" and ?p = "nd (last hs) (s_p sr)" and ?i = "s_ixL sr"
  let ?a1 = "c_a1 c" and ?a2 = "c_a2 c" and ?a3 = "c_a3 c"
  have fo: "at_ok dg e ?h Ts FixDegree viol sr" "gp_ok ?h sr vg" "p_ok ?h sr vp" "s_ok ?h sr vp s" using f by auto
  have sl: "s_l sr = viol" using fo(1) unfolding at_ok_def by blast
  have ch: "distinct [?a1, ?a2, ?a3]" "?h ?a1 = None" "?h ?a2 = None" "?h ?a3 = None"
    "alloc_ok dg (c_g1 c)" "alloc_ok dg (c_g2 c)" "alloc_ok dg (c_g3 c)" using c by (auto simp: choice_ok_def)
  define g where "g = the (s_gp sr)"
  have gd: "g \<in> dom ?h" "s_p sr \<in> dom ?h" using fo(2,3) unfolding gp_ok_def p_ok_def dep_ok_def g_def by blast+
  have ne: "x \<in> dom ?h \<Longrightarrow> x \<noteq> ?a1 \<and> x \<noteq> ?a2 \<and> x \<noteq> ?a3" for x using ch by auto
  define deps where "deps = [(s_p sr, vp, True)] @ (case vlr of None \<Rightarrow> []
                | Some (v1, v2) \<Rightarrow> [(sib_left sr s, v1, True), (sib_right sr s, v2, True)])"
  have deq: "(g, vg, False) # deps = [(g, vg, False), (s_p sr, vp, True)] @ (case vlr of None \<Rightarrow> []
                | Some (v1, v2) \<Rightarrow> [(sib_left sr s, v1, True), (sib_right sr s, v2, True)])"
    by (simp add: deps_def)
  have min: "(if ?i < sib_ix ?i then ?i else sib_ix ?i) = min ?i (sib_ix ?i)"
    "(if ?i < sib_ix ?i then sib_ix ?i else ?i) = Suc (min ?i (sib_ix ?i))" by (auto simp: sib_ix_def)
  define l r where lr: "l = sib_left sr s" "r = sib_right sr s"
  note sd = sx [unfolded degree_scx_def Let_def sl min, folded g_def, folded deq, folded lr]
  define newl where "newl = mk_newl (nd ?h viol) (nd ?h s) (nd ?h l) (nd ?h r) (ab_keys ?p ! min ?i (sib_ix ?i)) (c_g1 c)"
  define nS where "nS = mk_shrink ?p (min ?i (sib_ix ?i)) ?i (sib_ix ?i) ?a1 (c_g2 c)"
  obtain nl nr n where md: "mk_distribute dg ?p (nd ?h l) (nd ?h r) (min ?i (sib_ix ?i)) (Suc (min ?i (sib_ix ?i))) ?a1 ?a2 (c_g1 c) (c_g2 c) (c_g3 c) = (nl, nr, n)"
    by (metis prod_cases3)
  let ?exec = "\<lambda>h1 nx. scxExecute (c_fail c) h1 ((g, vg, False) # deps) g (nat (s_ixP sr)) (s_p sr) nx = Some h'"
  consider (root) "getABDegree (nd ?h l) + getABDegree (nd ?h r) < 2 * min_deg dg" "g = e" "getABDegree ?p = 2"
      "?exec (?h(?a1 \<mapsto> newl)) ?a1" "fixes = [FxStart FixDegree ?a1]"
    | (sib) "getABDegree (nd ?h l) + getABDegree (nd ?h r) < 2 * min_deg dg" "\<not> (g = e \<and> getABDegree ?p = 2)"
      "?exec (?h(?a1 \<mapsto> newl, ?a2 \<mapsto> nS)) ?a2" "fixes = [FxStart FixDegree ?a1, FxStart FixDegree ?a2]"
    | (dist) "2 * min_deg dg \<le> getABDegree (nd ?h l) + getABDegree (nd ?h r)"
      "?exec (?h(?a1 \<mapsto> nl, ?a2 \<mapsto> nr, ?a3 \<mapsto> n)) ?a3" "fixes = [FxStart FixDegree ?a3]"
    using sd unfolding newl_def nS_def md by (auto split: option.splits if_splits)
  note cases = this
  obtain hx nx where hx: "?exec hx nx" "\<forall>y\<in>dom ?h. hx y = ?h y"
    using ne by (cases rule: cases) fastforce+
  have ver: "ab_scxPtr (nd ?h g) = vg" "ab_scxPtr ?p = vp"
    using scx_some(2) [OF hx(1), of g vg False] scx_some(2) [OF hx(1), of "s_p sr" vp True] hx(2) gd
    by (simp_all add: deps_def)
  obtain F C sp kl k kr cl L S cr where pl:
    "last Ts = plug (F # C) (In (s_p sr) True sp (kl @ k # kr) (cl @ L # S # cr))"
    "faddr F = g" "length (fleft F) = nat (s_ixP sr)" "\<forall>f\<in>set (F # C). fr_ok f"
    "length cl = length kl" "length cr = length kr" "length cl = min ?i (sib_ix ?i)"
    "rt L = l" "rt S = r" "wt L" "wt S" "is_leaf L = is_leaf S"
    "coh dg ?h (In (s_p sr) True sp (kl @ k # kr) (cl @ L # S # cr))"
    "distinct [s_p sr, rt L, rt S]" "?i \<le> length kl + 1" "sib_ix ?i \<le> length kl + 1"
    using sib_place [OF h fo ver [unfolded g_def]] unfolding g_def lr by metis
  define u where "u = In (s_p sr) True sp (kl @ k # kr) (cl @ L # S # cr)"
  have T: "last Ts = plug (F # C) u" using pl(1) u_def by simp
  note g0 = hinv_last(2) [OF h, unfolded T]
  have cLS: "coh dg ?h L" "coh dg ?h S" using pl(13) by simp_all
  note pp = coh_parts [OF pl(13), simplified]
  have mk: "min ?i (sib_ix ?i) = length kl" using pl(5,7) by simp
  have dgs: "getABDegree (nd ?h l) = deg L" "getABDegree (nd ?h r) = deg S" using coh_parts(4) cLS pl(8,9) by metis+
  have kk: "ab_keys ?p ! min ?i (sib_ix ?i) = k"
  proof -
    have "akeys ?p ! length kl = k" using pp(1) by simp
    moreover have "length kl < getKeyCount ?p" using node_okD(1) [OF pp(7)] pp(1) by simp
    ultimately show ?thesis using mk by (simp add: akeys_nth)
  qed
  have ls: "{viol, s} = {rt L, rt S}" using pl(8,9) sl unfolding lr by (auto simp: sib_left_def sib_right_def)
  then have sq: "ab_searchKey (nd ?h viol) = skey L \<or> ab_searchKey (nd ?h viol) = skey S"
    using coh_parts(8) cLS by (metis doubleton_eq_iff)
  have vlr: "vlr = None \<longleftrightarrow> is_leaf L"
    using f coh_parts(3) [OF cLS(1)] pl(8) lr by (cases vlr) (auto split: prod.splits)
  have lf: "ab_leaf (nd ?h l) = is_leaf L" "ab_leaf (nd ?h r) = is_leaf L" "\<not> ab_leaf ?p"
    using coh_parts(3) [OF cLS(1)] coh_parts(3) [OF cLS(2)] pl(8,9,12) pp(3) by simp_all
  have dp: "distinct (map fst deps)" "fst ` set deps \<subseteq> set [s_p sr, rt L, rt S]" "\<forall>(x, v, f)\<in>set deps. f"
    "\<forall>x\<in>set [s_p sr, rt L, rt S]. ab_leaf (nd ?h x) \<or> x \<in> fst ` set deps" "\<forall>x\<in>fst ` set deps. \<not> ab_leaf (nd ?h x)"
  proof -
    have md: "map fst deps = (if is_leaf L then [s_p sr] else [s_p sr, rt L, rt S])"
      using pl(8,9) vlr by (auto simp: deps_def lr [symmetric] split: option.splits prod.splits)
    have fs: "fst ` set deps = (if is_leaf L then {s_p sr} else {s_p sr, rt L, rt S})"
      using arg_cong [OF md, of set] by simp
    show "distinct (map fst deps)" using md pl(14) by simp
    show "fst ` set deps \<subseteq> set [s_p sr, rt L, rt S]" "\<forall>x\<in>set [s_p sr, rt L, rt S]. ab_leaf (nd ?h x) \<or> x \<in> fst ` set deps"
      "\<forall>x\<in>fst ` set deps. \<not> ab_leaf (nd ?h x)" using fs pl(8,9) lf by simp_all
    show "\<forall>(x, v, f)\<in>set deps. f" by (auto simp: deps_def split: option.splits)
  qed
  have ee: "g = e \<longleftrightarrow> length (F # C) = 1" using entry_frame [OF g0] pl(2) by simp
  have bd: "deg L + deg S < 2 * min_deg dg \<Longrightarrow> deg L + deg S \<le> dg" using min_deg_bounds(4) [OF dg] by linarith
  define J where "J = join_sib ?a1 (ab_searchKey (nd ?h viol)) k L S"
  have newl: "newl = mk_newl (nd ?h viol) (nd ?h s) (nd ?h (rt L)) (nd ?h (rt S)) k (c_g1 c)"
    unfolding newl_def kk pl(8,9) ..
  have fin: ?thesis
    if "rebal dg (F # C) u u' nw [s_p sr, rt L, rt S] {} D" "distinct nw" "set nw \<subseteq> {?a1, ?a2, ?a3}"
      "\<And>x. x \<notin> set nw \<Longrightarrow> h1 x = ?h x" "coh dg h1 u'" "?exec h1 (rt u')"
      "covers fixes (rootaddr (plug (F # C) u')) (set nw) {} D" for u' nw h1 D
  proof -
    have nn: "set nw \<inter> dom ?h = {}" using that(3) ch by auto
    have "?exec h1 (rt u')" by (fact that(6))
    then have ex: "scxExecute (c_fail c) h1 ((g, vg, False) # deps) g (nat (s_ixP sr)) (rt u) (rt u') = Some h'"
      by (simp add: u_def)
    note fc = fix_commit [OF h T pl(2-4) that(1,2) nn that(4,5) ex dp]
    have "viol \<in> set [s_p sr, rt L, rt S]" using ls by auto
    then show ?thesis using fc that(7) by blast
  qed
  show ?thesis
  proof (cases rule: cases)
    case root
    define h1 where "h1 = ?h(?a1 \<mapsto> newl)"
    have "length (kl @ k # kr) = 1" using root(3) pp(4) pl(5,6) by simp
    then have nil: "kl = []" "kr = []" by simp_all
    then have "cl = []" "cr = []" using pl(5,6) by simp_all
    then have u1: "u = In (s_p sr) True sp [k] [L, S]" using nil by (simp add: u_def)
    have C1: "length (F # C) = 1" using ee root(2) by simp
    have sz: "deg L + deg S < 2 * min_deg dg" using root(1) dgs by simp
    have keep: "h1 x = ?h x" if "x \<in> dom ?h" for x using ne [OF that] by (simp add: h1_def)
    have at: "h1 ?a1 = Some (mk_newl (nd ?h viol) (nd ?h s) (nd ?h (rt L)) (nd ?h (rt S)) k (c_g1 c))" by (simp add: h1_def newl)
    have co: "coh dg h1 J" unfolding J_def by (rule join_coh [OF cLS pl(12) ch(5) bd [OF sz] ls at keep])
    have r: "rebal dg (F # C) u J [?a1] [s_p sr, rt L, rt S] {} {?a1}"
      unfolding J_def by (rule rebal_root_absorb [OF g0 pl(4) C1 dg u1 pl(10,11) sz sq])
    have rJ: "rt J = ?a1" unfolding J_def by (rule join_parts(5) [OF pl(12)])
    show ?thesis
      by (rule fin [OF r _ _ _ co]) (use root(4,5) in \<open>simp_all add: rJ h1_def covers_def\<close>)
  next
    case sib
    define h1 where "h1 = ?h(?a1 \<mapsto> newl, ?a2 \<mapsto> nS)"
    have sz: "deg L + deg S < 2 * min_deg dg" using sib(1) dgs by simp
    have keep: "h1 x = ?h x" if "x \<in> dom ?h" for x using ne [OF that] by (simp add: h1_def)
    have at: "h1 ?a1 = Some (mk_newl (nd ?h viol) (nd ?h s) (nd ?h (rt L)) (nd ?h (rt S)) k (c_g1 c))"
      "h1 ?a2 = Some nS" using ch(1) by (simp_all add: h1_def newl)
    have cJ: "coh dg h1 J" unfolding J_def by (rule join_coh [OF cLS pl(12) ch(5) bd [OF sz] ls at(1) keep])
    have rJ: "rt J = ?a1" unfolding J_def by (rule join_parts(5) [OF pl(12)])
    have ix: "sib_ix ?i = (if 0 < ?i then ?i - 1 else 1)" "?i < ab_size ?p" "sib_ix ?i < ab_size ?p"
      using pp(4) pl(5,15,16) by (simp_all add: sib_ix_def)
    note v = mk_shrink_view [OF pp(7) lf(3) ch(6) ix, of ?a1, folded nS_def]
    let ?u' = "In ?a2 True sp (kl @ kr) (cl @ J # cr)"
    have "akeys nS = kl @ kr" "aptrs nS = map rt (cl @ J # cr)" "ab_searchKey nS = sp"
      using v(5,6,7) pp(1,2,8) pl(5) mk rJ by simp_all
    then have "inner_at dg h1 ?a2 True sp (kl @ kr) (map rt (cl @ J # cr))"
      using v(1-4) at(2) by (simp add: inner_at_def)
    moreover have "\<forall>c\<in>set cl \<union> set cr. coh dg h1 c"
      using coh_fresh [where h = ?h and ?h1.0 = h1, OF _ keep] pl(13) by auto
    ultimately have co: "coh dg h1 ?u'" using cJ by simp
    have c1: "cl \<noteq> [] \<or> cr \<noteq> []" if "length (F # C) = 1"
      using that sib(2) ee pp(4) pl(5,6) by (cases kl; cases kr) auto
    have r: "rebal dg (F # C) u ?u' [?a2, ?a1] [s_p sr, rt L, rt S] {} {?a2, ?a1}"
      unfolding J_def by (rule rebal_sibling [OF g0 pl(4) _ dg u_def pl(5,6,10,11) sz sq c1]) simp_all
    show ?thesis
      by (rule fin [OF r _ _ _ co]) (use sib(3,4) ch(1) in \<open>auto simp: h1_def covers_def\<close>)
  next
    case dist
    define h1 where "h1 = ?h(?a1 \<mapsto> nl, ?a2 \<mapsto> nr, ?a3 \<mapsto> n)"
    define m where "m = (deg L + deg S) div 2"
    define J' where "J' = join_sib ?a1 (skey L) k L S"
    have sz: "2 * min_deg dg \<le> deg L + deg S" using dist(1) dgs by simp
    have sz4: "4 \<le> deg L + deg S" using sz min_deg_bounds(1) [OF dg] by linarith
    have keep: "h1 x = ?h x" if "x \<in> dom ?h" for x using ne [OF that] by (simp add: h1_def)
    have at: "h1 ?a1 = Some nl" "h1 ?a2 = Some nr" "h1 ?a3 = Some n" using ch(1) by (simp_all add: h1_def)
    let ?u' = "In ?a3 True sp (kl @ cut_key m J' # kr) (cl @ cut_left ?a1 m J' # cut_right ?a2 m J' # cr)"
    have co: "coh dg h1 ?u'" unfolding J'_def m_def
      by (rule cut_coh [OF cLS pl(12,13,5) ch(5-7) sz4 md [unfolded mk, folded pl(8,9)] at keep])
    have r: "rebal dg (F # C) u ?u' [?a3, ?a1, ?a2] [s_p sr, rt L, rt S] {} {?a3}"
      unfolding J'_def m_def by (rule rebal_distribute [OF g0 pl(4) _ dg u_def pl(5,6,10,11) sz]) simp
    show ?thesis
      by (rule fin [OF r _ _ _ co]) (use dist(2,3) ch(1) in \<open>auto simp: h1_def covers_def\<close>)
  qed
qed

end
