(* ===== verification/AbTree_Steps.thy ===== *)
theory AbTree_Steps
  imports AbTree_Sib
begin

text \<open>
  The invariant of the (a,b)-tree machine and that every step keeps it; what follows for every
  reachable state.
\<close>

subsection \<open>Searches\<close>

lemma root_parts:
  assumes h: "hinv dg e hs Ts"
  obtains sk R where "last Ts = In e True sk [] [R]" "wt R" "rt R = rootaddr (last Ts)"
    "inner_at dg (last hs) e True sk [] [rt R]" "coh dg (last hs) R"
proof -
  have r: "rootok e (last Ts)" using hinv_last(2) [OF h] by (simp add: good_def)
  then obtain x w sk ks cs where T: "last Ts = In x w sk ks cs" by (cases "last Ts") (simp_all add: rootok_def)
  then obtain R where R: "cs = [R]" using r by (cases cs; cases "tl cs") (auto simp: rootok_def)
  have "x = e" "w" "ks = []" "wt R" using r T R by (simp_all add: rootok_def)
  then show ?thesis
    using that [of sk R] T R hinv_last(1) [OF h] by (simp add: rootaddr_def)
qed

lemma start_ok:
  assumes h: "hinv dg e hs Ts"
  defines "sr \<equiv> start_search e (last hs) (length hs - 1)"
  shows "srch_ok (last hs) Ts k sr" "s_l sr = rootaddr (last Ts)" "s_gp sr = None" "s_st sr = length Ts - 1"
proof -
  obtain sk R where R: "last Ts = In e True sk [] [R]" "wt R" "rt R = rootaddr (last Ts)"
    "inner_at dg (last hs) e True sk [] [rt R]" "coh dg (last hs) R"
    by (rule root_parts [OF h])
  note d = hinvD(1-3) [OF h]
  have ed: "e \<in> dom (last hs)" "\<not> ab_leaf (nd (last hs) e)" using R(4) by (auto simp: inner_at_def)
  have p0: "ab_ptrs (nd (last hs) e) ! 0 = rt R" using inner_at_nth(2) [OF R(4), of 0] by simp
  have ci: "getChildIndex (nd (last hs) e) k = 0" using inner_at_child(2) [OF R(4), of k] by simp
  have sp: "e \<in> set (spath k (last Ts))" "rt R \<in> set (spath k (last Ts))" using R(1) by (cases R; simp)+
  have n: "length Ts - 1 < length Ts" using d(3) by (simp add: less_Suc_eq)
  show "s_l sr = rootaddr (last Ts)" "s_gp sr = None" "s_st sr = length Ts - 1"
    using p0 R(3) d(2) by (simp_all add: sr_def start_search_def)
  show "srch_ok (last hs) Ts k sr"
    unfolding srch_ok_def sr_def start_search_def
    using seen_last [OF d(3) n sp(1)] seen_last [OF d(3) n sp(2)] n ed p0 ci d(2) coh_rt(4) [OF R(5)] by auto
qed

lemma descend_ok:
  assumes h: "hinv dg e hs Ts" and s: "srch_ok (last hs) Ts k sr" and l: "\<not> ab_leaf (nd (last hs) (s_l sr))"
  shows "srch_ok (last hs) Ts k (descend (last hs) k sr)" "s_st (descend (last hs) k sr) = s_st sr"
    "s_gp (descend (last hs) k sr) \<noteq> None"
proof -
  have sl: "seen Ts (s_st sr) k (s_l sr)" "s_l sr \<in> dom (last hs)" using s unfolding srch_ok_def by blast+
  have sc: "seen Ts (s_st sr) k (child (last hs) (s_l sr) k)" by (rule seen_child [OF h sl(1) l])
  have dc: "child (last hs) (s_l sr) k \<in> dom (last hs)" by (rule seen_dom(1) [OF h sc])
  show "s_st (descend (last hs) k sr) = s_st sr" "s_gp (descend (last hs) k sr) \<noteq> None"
    by (simp_all add: descend_def Let_def)
  show "srch_ok (last hs) Ts k (descend (last hs) k sr)"
    using s sl l sc dc unfolding srch_ok_def descend_def Let_def child_def by auto
qed

lemma snap_ok: "llx fail h x = Snap v \<Longrightarrow> x \<in> dom h \<Longrightarrow> dep_ok h x v (\<lambda>_. True)"
  by (auto simp: llx_def dep_ok_def split: if_splits)

lemma chk_ok: "dep_ok h x v Q \<Longrightarrow> P (ab_ptrs (nd h x)) \<Longrightarrow> dep_ok h x v P"
  by (simp add: dep_ok_def)

subsection \<open>The decision at a leaf\<close>

lemma leaf_lin:
  assumes h: "hinv dg e hs Ts" and s: "srch_ok (last hs) Ts (op_key op) sr" "i0 \<le> s_st sr" "ab_leaf (nd (last hs) (s_l sr))"
    and k: "k = op_key op" "l = nd (last hs) (s_l sr)"
    and op: "\<And>m. m k = (if key_at l k then Some (ab_ptrs l ! getKeyIndex l k) else None) \<Longrightarrow> ab_spec op m = (m, r)"
  shows "lin Ts op i0 r"
proof -
  have "seen Ts (s_st sr) k (s_l sr)" using s(1) k unfolding srch_ok_def by blast
  then obtain j where j: "s_st sr \<le> j" "j < length Ts"
    "dict (Ts ! j) k = (if key_at l k then Some (ab_ptrs l ! getKeyIndex l k) else None)"
    using seen_leaf [OF h _ s(3)] k by blast
  show ?thesis unfolding lin_def using j op [of "dict (Ts ! j)", OF j(3)] s(2) by (intro exI [of _ j]) auto
qed

lemma erase_miss:
  assumes "node_ok dg l"
  shows "(getKeyIndex l k = getKeyCount l \<or> ab_keys l ! getKeyIndex l k \<noteq> k) \<longleftrightarrow> \<not> key_at l k"
  using getKeyIndex_le [OF assms, of k] by (auto simp: key_at_def)

lemma lt_search: "srch_ok h Ts k sr \<Longrightarrow> i0 \<le> s_st sr \<Longrightarrow> i0 < length Ts"
  unfolding srch_ok_def by linarith

lemma op_go:
  assumes h: "hinv dg e hs Ts" and f: "frame_ok dg e (last hs) Ts f"
    and s: "frame_step dg e (last hs) (length hs - 1) c f = Go gs"
    and k: "(\<exists>op i0. f = OpStart op i0) \<or> (\<exists>op i0 sr. f = OpSearch op i0 sr) \<or> (\<exists>op i0 sr. f = OpLeaf op i0 sr)"
  shows "\<forall>g\<in>set gs. frame_ok dg e (last hs) Ts g"
proof -
  consider (start) op i0 where "f = OpStart op i0" | (srch) op i0 sr where "f = OpSearch op i0 sr"
    | (lf) op i0 sr where "f = OpLeaf op i0 sr" using k by blast
  then show ?thesis
  proof cases
    case start
    then have "i0 \<le> length Ts - 1" using f by simp
    then show ?thesis using start s start_ok(1) [OF h, of "op_key op"] start_ok(4) [OF h] by (cases op) auto
  next
    case srch
    have so: "srch_ok (last hs) Ts (op_key op) sr" "i0 \<le> s_st sr" using f srch by simp_all
    show ?thesis
    proof (cases "ab_leaf (nd (last hs) (s_l sr))")
      case True
      then show ?thesis using srch s so by (cases op) auto
    next
      case False
      then show ?thesis using srch s so descend_ok [OF h so(1)] by (cases op) auto
    qed
  next
    case lf
    have so: "srch_ok (last hs) Ts (op_key op) sr" "i0 \<le> s_st sr" "ab_leaf (nd (last hs) (s_l sr))" using f lf by simp_all
    have "seen Ts (s_st sr) (op_key op) (s_l sr)" using so(1) unfolding srch_ok_def by blast
    then have nok: "node_ok dg (nd (last hs) (s_l sr))" using seen_dom(2) [OF h] by blast
    note li = leaf_lin [OF h so(1,2,3) refl refl]
    show ?thesis
    proof (cases op)
      case (OpFind k)
      have "lin Ts op i0 (if key_at (nd (last hs) (s_l sr)) k
          then RPair (ab_ptrs (nd (last hs) (s_l sr)) ! getKeyIndex (nd (last hs) (s_l sr)) k) True else RPair AB_NO_VALUE False)"
        by (rule li) (simp add: OpFind)
      then show ?thesis using lf s OpFind by (auto simp: Let_def split: if_splits)
    next
      case (OpInsert k v r)
      have "lin Ts op i0 (RPtr (ab_ptrs (nd (last hs) (s_l sr)) ! getKeyIndex (nd (last hs) (s_l sr)) k))"
        if "key_at (nd (last hs) (s_l sr)) k" "\<not> r"
        by (rule li) (use that in \<open>simp add: OpInsert\<close>)
      then show ?thesis using lf s OpInsert so by (auto simp: Let_def split: if_splits)
    next
      case (OpErase k)
      have "lin Ts op i0 (RPair AB_NO_VALUE False)" if "\<not> key_at (nd (last hs) (s_l sr)) k"
        by (rule li) (use that in \<open>simp add: OpErase\<close>)
      then show ?thesis using lf s OpErase so erase_miss [OF nok, of k] by (auto simp: Let_def split: if_splits)
    qed
  qed
qed

lemma op_go2:
  assumes h: "hinv dg e hs Ts" and f: "frame_ok dg e (last hs) Ts f"
    and s: "frame_step dg e (last hs) (length hs - 1) c f = Go gs"
    and k: "(\<exists>op i0 sr. f = OpLlx op i0 sr) \<or> (\<exists>op i0 sr v. f = OpChk op i0 sr v) \<or> (\<exists>op i0 sr v. f = OpScx op i0 sr v)
      \<or> (\<exists>op i0 r. f = OpEnd op i0 r)"
  shows "\<forall>g\<in>set gs. frame_ok dg e (last hs) Ts g"
proof -
  consider (llx) op i0 sr where "f = OpLlx op i0 sr" | (chk) op i0 sr v where "f = OpChk op i0 sr v"
    | (scx) op i0 sr v where "f = OpScx op i0 sr v" | (ret) op i0 r where "f = OpEnd op i0 r" using k by blast
  then show ?thesis
  proof cases
    case llx
    have so: "srch_ok (last hs) Ts (op_key op) sr" "i0 \<le> s_st sr" "s_p sr \<in> dom (last hs)" using f llx by (auto simp: srch_ok_def)
    then have i: "i0 < length Ts" using lt_search by blast
    show ?thesis
      using f llx s i snap_ok [OF _ so(3), of "c_fail c"]
      by (cases op) (auto split: llx_result.splits)
  next
    case chk
    have so: "srch_ok (last hs) Ts (op_key op) sr" "i0 \<le> s_st sr" using f chk by simp_all
    then have i: "i0 < length Ts" using lt_search by blast
    show ?thesis
      using f chk s i by (cases op) (auto simp: p_ok_def intro: chk_ok split: if_splits)
  next
    case scx
    have so: "srch_ok (last hs) Ts (op_key op) sr" "i0 \<le> s_st sr" using f scx by simp_all
    then have i: "i0 < length Ts" using lt_search by blast
    then show ?thesis using f scx s by (cases op) (auto simp: Let_def split: option.splits)
  next
    case ret
    then show ?thesis using s by (cases op) auto
  qed
qed

subsection \<open>The rebalancing functions\<close>

lemma viol_start:
  assumes h: "hinv dg e hs Ts" and x: "viol \<in> dom (last hs)"
  shows "\<not> ab_weight (nd (last hs) viol) \<Longrightarrow> viol_ok dg e (last hs) Ts FixWeight viol"
    "getABDegree (nd (last hs) viol) < min_deg dg \<Longrightarrow> viol \<noteq> e \<Longrightarrow> viol \<noteq> ab_ptrs (nd (last hs) e) ! 0 \<Longrightarrow>
       viol_ok dg e (last hs) Ts FixDegree viol"
proof -
  obtain sk R where R: "last Ts = In e True sk [] [R]" "wt R" "rt R = rootaddr (last Ts)"
    "inner_at dg (last hs) e True sk [] [rt R]" "coh dg (last hs) R"
    by (rule root_parts [OF h])
  have "ab_ptrs (nd (last hs) e) ! 0 = rt R" using inner_at_nth(2) [OF R(4), of 0] by simp
  moreover have "ab_weight (nd (last hs) (rt R))" using coh_rt(1) [OF R(5)] R(2) by simp
  ultimately show "\<not> ab_weight (nd (last hs) viol) \<Longrightarrow> viol_ok dg e (last hs) Ts FixWeight viol"
    "getABDegree (nd (last hs) viol) < min_deg dg \<Longrightarrow> viol \<noteq> e \<Longrightarrow> viol \<noteq> ab_ptrs (nd (last hs) e) ! 0 \<Longrightarrow>
       viol_ok dg e (last hs) Ts FixDegree viol"
    using x R(3) by (auto simp: viol_ok_def)
qed

lemma fx_start:
  assumes h: "hinv dg e hs Ts" and v: "viol_ok dg e (last hs) Ts fk viol"
  shows "fx_ok dg e (last hs) Ts fk viol (start_search e (last hs) (length hs - 1))"
proof -
  have "viol \<noteq> rootaddr (last Ts)" using v unfolding viol_ok_def by blast
  then show ?thesis
    unfolding fx_ok_def using v start_ok(1) [OF h] start_ok(2) [OF h] by auto
qed

lemma fx_descend:
  assumes h: "hinv dg e hs Ts" and f: "fx_ok dg e (last hs) Ts fk viol sr" and l: "\<not> ab_leaf (nd (last hs) (s_l sr))"
  shows "fx_ok dg e (last hs) Ts fk viol (descend (last hs) (ab_searchKey (nd (last hs) viol)) sr)"
proof -
  have v: "viol_ok dg e (last hs) Ts fk viol" "srch_ok (last hs) Ts (ab_searchKey (nd (last hs) viol)) sr"
    using f unfolding fx_ok_def by blast+
  show ?thesis unfolding fx_ok_def using v(1) descend_ok [OF h v(2) l] by blast
qed

lemma fx_doms:
  assumes "fx_ok dg e h Ts fk viol sr"
  shows "viol_ok dg e h Ts fk viol" "s_p sr \<in> dom h" "s_l sr \<in> dom h" "\<not> ab_leaf (nd h (s_p sr))" "viol \<in> dom h"
    "s_l sr = viol \<Longrightarrow> s_gp sr \<noteq> None \<and> the (s_gp sr) \<in> dom h"
  using assms unfolding fx_ok_def srch_ok_def viol_ok_def by auto

lemma fix_go1:
  assumes h: "hinv dg e hs Ts" and f: "frame_ok dg e (last hs) Ts f"
    and s: "frame_step dg e (last hs) (length hs - 1) c f = Go gs"
    and k: "(\<exists>fk v. f = FxStart fk v) \<or> (\<exists>fk v. f = FxLlxViol fk v) \<or> (\<exists>fk v. f = FxLoop fk v)
      \<or> (\<exists>fk v sr. f = FxSearch fk v sr) \<or> (\<exists>fk v sr. f = FxFound fk v sr)"
  shows "\<forall>g\<in>set gs. frame_ok dg e (last hs) Ts g"
proof -
  consider (start) fk v where "f = FxStart fk v" | (lv) fk v where "f = FxLlxViol fk v" | (loop) fk v where "f = FxLoop fk v"
    | (search) fk v sr where "f = FxSearch fk v sr" | (found) fk v sr where "f = FxFound fk v sr" using k by blast
  then show ?thesis
  proof cases
    case start
    have "v \<in> dom (last hs)" using f start by simp
    then show ?thesis using start s viol_start [OF h, of v] by (cases fk) (auto split: if_splits)
  next
    case lv
    then show ?thesis using f s by (cases fk) (auto split: if_splits)
  next
    case loop
    then show ?thesis using f s fx_start [OF h, of fk v] by (cases fk) auto
  next
    case search
    have x: "fx_ok dg e (last hs) Ts fk v sr" using f search by simp
    show ?thesis
    proof (cases "ab_leaf (nd (last hs) (s_l sr)) \<or> s_l sr = v")
      case True
      then show ?thesis using search s x by (cases fk) (auto split: if_splits)
    next
      case False
      then show ?thesis using search s fx_descend [OF h x] by (cases fk) (auto split: if_splits)
    qed
  next
    case found
    have x: "fx_ok dg e (last hs) Ts fk v sr" using f found by simp
    then show ?thesis using found s fx_doms [OF x] by (cases fk) (auto simp: at_ok_def split: if_splits)
  qed
qed

lemma at_doms:
  assumes "at_ok dg e h Ts fk viol sr"
  shows "viol_ok dg e h Ts fk viol" "s_p sr \<in> dom h" "\<not> ab_leaf (nd h (s_p sr))" "s_gp sr \<noteq> None" "the (s_gp sr) \<in> dom h"
    "s_l sr = viol" "s_l sr \<in> dom h"
  using assms fx_doms [of dg e h Ts fk viol sr] unfolding at_ok_def by auto

lemma fix_go2:
  assumes h: "hinv dg e hs Ts" and f: "frame_ok dg e (last hs) Ts f"
    and s: "frame_step dg e (last hs) (length hs - 1) c f = Go gs"
    and k: "(\<exists>fk v sr. f = FxLlxGp fk v sr) \<or> (\<exists>fk v sr vg. f = FxChkP fk v sr vg) \<or> (\<exists>fk v sr vg. f = FxLlxP fk v sr vg)
      \<or> (\<exists>fk v sr vg vp. f = FxChkL fk v sr vg vp)"
  shows "\<forall>g\<in>set gs. frame_ok dg e (last hs) Ts g"
proof -
  have lp: "gp_ok (last hs) sr vg" if "dep_ok (last hs) (the (s_gp sr)) vg (\<lambda>_. True)"
    "ab_ptrs (nd (last hs) (the (s_gp sr))) ! nat (s_ixP sr) = s_p sr" for sr vg
    using that unfolding gp_ok_def by (rule chk_ok)
  have ll: "p_ok (last hs) sr vp" if "dep_ok (last hs) (s_p sr) vp (\<lambda>_. True)"
    "ab_ptrs (nd (last hs) (s_p sr)) ! s_ixL sr = s_l sr" for sr vp
    using that unfolding p_ok_def by (rule chk_ok)
  consider (gp) fk v sr where "f = FxLlxGp fk v sr" | (chk) fk v sr vg where "f = FxChkP fk v sr vg"
    | (p) fk v sr vg where "f = FxLlxP fk v sr vg" | (chl) fk v sr vg vp where "f = FxChkL fk v sr vg vp" using k by blast
  then show ?thesis
  proof cases
    case gp
    have a: "at_ok dg e (last hs) Ts fk v sr" using f gp by simp
    obtain g where "s_gp sr = Some g" using at_doms(4) [OF a] by blast
    then have g: "s_gp sr = Some g" "g \<in> dom (last hs)" using at_doms(5) [OF a] by simp_all
    then show ?thesis
      using gp s a at_doms(1) [OF a] snap_ok [OF _ g(2), of "c_fail c"]
      by (cases fk) (auto split: llx_result.splits)
  next
    case chk
    have a: "at_ok dg e (last hs) Ts fk v sr" using f chk by simp
    show ?thesis
      using chk s f at_doms(1) [OF a] lp [of sr vg] by (cases fk) (auto split: if_splits)
  next
    case p
    have a: "at_ok dg e (last hs) Ts fk v sr" using f p by simp
    show ?thesis
      using p s f at_doms(1) [OF a] snap_ok [OF _ at_doms(2) [OF a], of "c_fail c"]
      by (cases fk) (auto split: llx_result.splits)
  next
    case chl
    have a: "at_ok dg e (last hs) Ts fk v sr" using f chl by simp
    show ?thesis
      using chl s f at_doms(1) [OF a] ll [of sr vp] by (cases fk) (auto split: if_splits)
  qed
qed

lemma weight_go:
  assumes h: "hinv dg e hs Ts" and f: "frame_ok dg e (last hs) Ts f"
    and s: "frame_step dg e (last hs) (length hs - 1) c f = Go gs"
    and k: "(\<exists>v sr vg vp. f = WLlxL v sr vg vp) \<or> (\<exists>v sr vg vp vl. f = WScx v sr vg vp vl)"
  shows "\<forall>g\<in>set gs. frame_ok dg e (last hs) Ts g"
proof -
  consider (l) v sr vg vp where "f = WLlxL v sr vg vp" | (scx) v sr vg vp vl where "f = WScx v sr vg vp vl" using k by blast
  then show ?thesis
  proof cases
    case l
    have a: "at_ok dg e (last hs) Ts FixWeight v sr" using f l by simp
    show ?thesis
      using l s f at_doms(1) [OF a] snap_ok [OF _ at_doms(7) [OF a], of "c_fail c"]
      by (auto split: llx_result.splits)
  next
    case scx
    have a: "at_ok dg e (last hs) Ts FixWeight v sr" using f scx by simp
    show ?thesis using scx s at_doms(1) [OF a] by (auto split: option.splits)
  qed
qed

lemma sib_ok:
  assumes h: "hinv dg e hs Ts" and a: "at_ok dg e (last hs) Ts fk v sr" "p_ok (last hs) sr vp"
    and i: "sib_ix (s_ixL sr) < getABDegree (nd (last hs) (s_p sr))"
  defines "s \<equiv> ab_ptrs (nd (last hs) (s_p sr)) ! sib_ix (s_ixL sr)"
  shows "s \<in> dom (last hs)"
    "ab_weight (nd (last hs) (s_p sr)) \<Longrightarrow> ab_weight (nd (last hs) (s_l sr)) \<Longrightarrow> ab_weight (nd (last hs) s) \<Longrightarrow>
       s_ok (last hs) sr vp s"
proof -
  note d = at_doms [OF a(1)]
  obtain n where n: "last hs (s_p sr) = Some n" using d(2) by auto
  show sd: "s \<in> dom (last hs)"
    using hinvD(8) [OF h] n d(3) i unfolding closed_heap_def s_def by auto
  show "s_ok (last hs) sr vp s" if "ab_weight (nd (last hs) (s_p sr))" "ab_weight (nd (last hs) (s_l sr))" "ab_weight (nd (last hs) s)"
    unfolding s_ok_def using that sd i chk_ok [OF a(2) [unfolded p_ok_def]] by (auto simp: s_def)
qed

lemma degree_go:
  assumes h: "hinv dg e hs Ts" and f: "frame_ok dg e (last hs) Ts f"
    and s: "frame_step dg e (last hs) (length hs - 1) c f = Go gs"
    and k: "(\<exists>v sr vg vp. f = DSib v sr vg vp) \<or> (\<exists>v sr vg vp s. f = DLlxLeft v sr vg vp s)
      \<or> (\<exists>v sr vg vp s v1. f = DLlxRight v sr vg vp s v1) \<or> (\<exists>v sr vg vp s vlr. f = DScx v sr vg vp s vlr)"
  shows "\<forall>g\<in>set gs. frame_ok dg e (last hs) Ts g"
proof -
  consider (sib) v sr vg vp where "f = DSib v sr vg vp" | (left) v sr vg vp sb where "f = DLlxLeft v sr vg vp sb"
    | (right) v sr vg vp sb v1 where "f = DLlxRight v sr vg vp sb v1" | (scx) v sr vg vp sb vlr where "f = DScx v sr vg vp sb vlr"
    using k by (elim disjE exE) simp_all
  then show ?thesis
  proof cases
    case sib
    have a: "at_ok dg e (last hs) Ts FixDegree v sr" "p_ok (last hs) sr vp" using f sib by simp_all
    note d = at_doms [OF a(1)]
    show ?thesis
    proof (cases "sib_ix (s_ixL sr) < getABDegree (nd (last hs) (s_p sr))")
      case True
      let ?s = "ab_ptrs (nd (last hs) (s_p sr)) ! sib_ix (s_ixL sr)"
      note so = sib_ok [OF h a True]
      show ?thesis
      proof (cases "filter (\<lambda>x. \<not> ab_weight (nd (last hs) x)) [s_p sr, s_l sr, ?s] = []")
        case T2: True
        then have w: "ab_weight (nd (last hs) (s_p sr))" "ab_weight (nd (last hs) (s_l sr))" "ab_weight (nd (last hs) ?s)"
          by (auto split: if_splits)
        show ?thesis using sib s f True T2 so(2) [OF w] by (auto simp: Let_def w split: if_splits)
      next
        case F2: False
        have "gs = map (FxStart FixWeight) (filter (\<lambda>x. \<not> ab_weight (nd (last hs) x)) [s_p sr, s_l sr, ?s]) @ [FxLoop FixDegree v]"
          using sib s True F2 by (simp only: frame_step.simps frame.case fix_kind.case Let_def degree_step.simps if_True
              if_False outcome.inject not_False_eq_True)
        moreover have "x \<in> dom (last hs)" if "x \<in> set [s_p sr, s_l sr, ?s]" for x using that d so(1) by auto
        ultimately show ?thesis using d(1) by auto
      qed
    next
      case False
      then show ?thesis using sib s fx_doms(5) [of dg e "last hs" Ts FixDegree v sr] a(1) by (auto simp: at_ok_def)
    qed
  next
    case left
    have a: "at_ok dg e (last hs) Ts FixDegree v sr" "s_ok (last hs) sr vp sb" using f left by simp_all
    have sd: "sib_left sr sb \<in> dom (last hs)" using a(2) at_doms(7) [OF a(1)] by (auto simp: s_ok_def sib_left_def)
    show ?thesis
      using left s f at_doms(1) [OF a(1)] snap_ok [OF _ sd, of "c_fail c"] by (auto split: llx_result.splits)
  next
    case right
    have a: "at_ok dg e (last hs) Ts FixDegree v sr" "s_ok (last hs) sr vp sb" using f right by simp_all
    have sd: "sib_right sr sb \<in> dom (last hs)" using a(2) at_doms(7) [OF a(1)] by (auto simp: s_ok_def sib_right_def)
    show ?thesis
      using right s f at_doms(1) [OF a(1)] snap_ok [OF _ sd, of "c_fail c"] by (auto split: llx_result.splits)
  next
    case scx
    have a: "at_ok dg e (last hs) Ts FixDegree v sr" using f scx by simp
    show ?thesis using scx s at_doms(1) [OF a] by (auto split: option.splits)
  qed
qed

lemma go_ok:
  assumes h: "hinv dg e hs Ts" and f: "frame_ok dg e (last hs) Ts f"
    and s: "frame_step dg e (last hs) (length hs - 1) c f = Go gs"
  shows "\<forall>g\<in>set gs. frame_ok dg e (last hs) Ts g"
proof (cases f)
  case (FxUndef fk v)
  then show ?thesis using f s by (cases fk) auto
qed (use op_go [OF assms] op_go2 [OF assms] fix_go1 [OF assms] fix_go2 [OF assms] weight_go [OF assms] degree_go [OF assms] in simp)+

subsection \<open>A commit of any frame\<close>

text \<open>Only an \<open>OpScx\<close> changes the dictionary, and it changes it as its operation says.\<close>

lemma commit_ok:
  assumes h: "hinv dg e hs Ts" and dg: "3 \<le> dg" and c: "choice_ok dg (last hs) c"
    and f: "frame_ok dg e (last hs) Ts f" and s: "frame_step dg e (last hs) n c f = Commit h' gs"
  obtains T' new W D fxs where "commits dg e hs Ts h' T' new W D" "covers fxs (rootaddr T') new W D"
    "gs = fxs \<and> dict T' = dict (last Ts) \<and> (\<exists>v sr vg vp vl. f = WScx v sr vg vp vl \<and> v \<notin> set (addrs T'))
     \<or> gs = fxs \<and> dict T' = dict (last Ts) \<and> (\<exists>v sr vg vp sb vlr. f = DScx v sr vg vp sb vlr \<and> v \<notin> set (addrs T'))
     \<or> (\<exists>op i0 sr v r. f = OpScx op i0 sr v \<and> gs = fxs @ [OpEnd op i0 r] \<and> ab_spec op (dict (last Ts)) = (dict T', r))"
proof (cases f)
  case (OpScx op i0 sr v)
  show ?thesis
  proof (cases op)
    case (OpInsert k val rep)
    obtain fxs res where r: "insert_scx dg e (last hs) c k val sr v = Some (h', fxs, res)"
      "gs = fxs @ [OpEnd op i0 (RPtr res)]"
      using s OpScx OpInsert by (auto split: option.splits)
    show ?thesis
      using insert_commit [OF h dg c _ r(1), of rep i0] f OpScx OpInsert r(2) that by (metis (no_types, lifting))
  next
    case (OpErase k)
    define i where "i = getKeyIndex (nd (last hs) (s_l sr)) k"
    have r: "scxExecute (c_fail c) ((last hs)(c_a1 c \<mapsto> mk_erase (nd (last hs) (s_l sr)) i (c_g1 c))) [(s_p sr, v, False)]
               (s_p sr) (s_ixL sr) (s_l sr) (c_a1 c) = Some h'"
      "gs = [FxStart FixDegree (c_a1 c)] @ [OpEnd op i0 (RPair (ab_ptrs (nd (last hs) (s_l sr)) ! i) True)]"
      using s OpScx OpErase by (auto simp: Let_def i_def split: option.splits)
    show ?thesis
      using erase_commit [OF h dg c _ i_def r(1), of i0] f OpScx OpErase r(2) that by (metis (no_types, lifting))
  qed (use s OpScx in simp)
next
  case (WScx v sr vg vp vl)
  then have "weight_scx dg e (last hs) c sr vg vp vl = Some (h', gs)" using s by (auto split: option.splits)
  then show ?thesis using weight_commit [OF h dg c f [unfolded WScx]] WScx that by (metis (no_types, lifting))
next
  case (DScx v sr vg vp sb vlr)
  then have "degree_scx dg e (last hs) c sr vg vp sb vlr = Some (h', gs)" using s by (auto split: option.splits)
  then show ?thesis using degree_commit [OF h dg c f [unfolded DScx]] DScx that by (metis (no_types, lifting))
next
  case (OpStart op i0)
  then show ?thesis using s by (cases op) auto
next
  case (OpSearch op i0 sr)
  then show ?thesis using s by (cases op) (auto split: if_splits)
next
  case (OpLeaf op i0 sr)
  then show ?thesis using s by (cases op) (auto simp: Let_def split: if_splits)
next
  case (OpLlx op i0 sr)
  then show ?thesis using s by (cases op) (auto split: llx_result.splits)
next
  case (OpChk op i0 sr v)
  then show ?thesis using s by (cases op) (auto split: if_splits)
next
  case (OpEnd op i0 r)
  then show ?thesis using s by (cases op) auto
next
  case (FxStart fk v)
  then show ?thesis using s by (cases fk) (auto split: if_splits)
next
  case (FxLlxViol fk v)
  then show ?thesis using s by (cases fk) (auto split: if_splits)
next
  case (FxLoop fk v)
  then show ?thesis using s by (cases fk) auto
next
  case (FxSearch fk v sr)
  then show ?thesis using s by (cases fk) (auto split: if_splits)
next
  case (FxFound fk v sr)
  then show ?thesis using s by (cases fk) (auto split: if_splits)
next
  case (FxLlxGp fk v sr)
  then show ?thesis using s by (cases fk) (auto split: option.splits llx_result.splits)
next
  case (FxChkP fk v sr vg)
  then show ?thesis using s by (cases fk) (auto split: if_splits)
next
  case (FxLlxP fk v sr vg)
  then show ?thesis using s by (cases fk) (auto split: llx_result.splits)
next
  case (FxChkL fk v sr vg vp)
  then show ?thesis using s by (cases fk) (auto split: if_splits)
next
  case (WLlxL v sr vg vp)
  then show ?thesis using s by (auto split: llx_result.splits)
next
  case (DSib v sr vg vp)
  then show ?thesis using s by (auto simp: Let_def split: if_splits)
next
  case (DLlxLeft v sr vg vp sb)
  then show ?thesis using s by (auto split: llx_result.splits)
next
  case (DLlxRight v sr vg vp sb v1)
  then show ?thesis using s by (auto split: llx_result.splits)
next
  case (FxUndef fk v)
  then show ?thesis using s by (cases fk) auto
qed

subsection \<open>The invariant of the machine\<close>

definition ab_inv :: "nat \<Rightarrow> ab_state \<Rightarrow> tr list \<Rightarrow> bool" where
  "ab_inv dg s Ts \<longleftrightarrow> hinv dg (ab_entry s) (ab_hist s) Ts
     \<and> (\<forall>t. \<forall>f\<in>set (ab_thr s t). frame_ok dg (ab_entry s) (cur s) Ts f)"

definition init_tree :: "int \<Rightarrow> addr \<Rightarrow> addr \<Rightarrow> tr" where
  "init_tree anyKey ae al = In ae True anyKey [] [Lf al anyKey [] []]"

lemma ab_inv_init:
  assumes g: "alloc_ok dg g1" "alloc_ok dg g2" "ae \<noteq> al" and dg: "3 \<le> dg"
  shows "ab_inv dg (ab_init dg anyKey ae al g1 g2) [init_tree anyKey ae al]"
proof -
  define n1 where "n1 = g1\<lparr>ab_leaf := True, ab_weight := True, ab_size := 0, ab_searchKey := anyKey\<rparr>"
  define n2 where "n2 = g2\<lparr>ab_leaf := False, ab_weight := True, ab_size := 1, ab_searchKey := anyKey,
                     ab_ptrs := (ab_ptrs g2)[0 := al]\<rparr>"
  define h where "h = [al \<mapsto> n1, ae \<mapsto> n2]"
  define T where "T = init_tree anyKey ae al"
  have at: "h al = Some n1" "h ae = Some n2" using g(3) by (simp_all add: h_def)
  have n1: "node_ok dg n1" "ab_leaf n1" "ab_weight n1" "\<not> ab_marked n1" "ab_searchKey n1 = anyKey" "akeys n1 = []" "aptrs n1 = []"
    using g(1) by (simp_all add: n1_def node_ok_def alloc_ok_def akeys_def aptrs_def getKeyCount_def)
  have n2: "node_ok dg n2" "\<not> ab_leaf n2" "ab_weight n2" "\<not> ab_marked n2" "ab_searchKey n2 = anyKey" "akeys n2 = []" "aptrs n2 = [al]"
    using g(2) dg by (simp_all add: n2_def node_ok_def alloc_ok_def akeys_def aptrs_def getKeyCount_def take1)
  have co: "coh dg h T" using n1 n2 at by (simp add: T_def init_tree_def leaf_at_def inner_at_def)
  have "bal T 2" by (simp add: T_def init_tree_def)
  moreover have "rootok ae T" "srt None None T" "distinct (addrs T)" "sized dg T"
    using dg g(3) by (simp_all add: T_def init_tree_def rootok_def in_rng_def)
  ultimately have go: "good dg ae T" unfolding good_def by blast
  have un: "unmarked_in h T"
    using at n1(4) n2(4) by (auto simp: unmarked_in_def T_def init_tree_def h_def split: if_splits)
  have p2: "ab_ptrs n2 ! 0 = al" "ab_size n2 = 1"
    using g(2) dg by (simp_all add: n2_def alloc_ok_def)
  have cl: "closed_heap h"
    using p2 n1(2) at unfolding closed_heap_def by (auto simp: h_def split: if_splits)
  have "heap_le h h" unfolding heap_le_def node_le_def by auto
  then have "hinv dg ae [h] [T]" using co go un cl spath_addrs by (auto simp: hinv_def)
  then show ?thesis
    by (simp add: ab_inv_def ab_init_def Let_def h_def n1_def n2_def T_def)
qed

lemma ab_inv_invoke:
  assumes "ab_inv dg s Ts"
  shows "ab_inv dg (s\<lparr>ab_thr := (ab_thr s)(t := [OpStart op (now s)])\<rparr>) Ts"
proof -
  have "now s < length Ts" using hinvD(1-3) assms unfolding ab_inv_def by (metis diff_less length_greater_0_conv zero_less_one)
  then show ?thesis using assms by (auto simp: ab_inv_def)
qed

lemma ab_inv_go:
  assumes i: "ab_inv dg s Ts" and f: "ab_thr s t = f # fs"
    and s: "frame_step dg (ab_entry s) (cur s) (now s) c f = Go gs"
  shows "ab_inv dg (s\<lparr>ab_thr := (ab_thr s)(t := gs @ fs)\<rparr>) Ts"
proof -
  have h: "hinv dg (ab_entry s) (ab_hist s) Ts" using i by (simp add: ab_inv_def)
  have F: "\<forall>g\<in>set (f # fs). frame_ok dg (ab_entry s) (cur s) Ts g" using i f unfolding ab_inv_def by metis
  then have "\<forall>g\<in>set gs. frame_ok dg (ab_entry s) (cur s) Ts g" using go_ok [OF h _ s] by simp
  then show ?thesis using i F by (auto simp: ab_inv_def)
qed

lemma ab_inv_commit:
  assumes i: "ab_inv dg s Ts" and dg: "3 \<le> dg" and f: "ab_thr s t = f # fs" and c: "choice_ok dg (cur s) c"
    and s: "frame_step dg (ab_entry s) (cur s) (now s) c f = Commit h' gs"
  obtains T' where "ab_inv dg (s\<lparr>ab_hist := ab_hist s @ [h'], ab_thr := (ab_thr s)(t := gs @ fs)\<rparr>) (Ts @ [T'])"
    "dict T' = dict (last Ts) \<or> (\<exists>op i0 sr v r fxs. f = OpScx op i0 sr v \<and> gs = fxs @ [OpEnd op i0 r]
        \<and> ab_spec op (dict (last Ts)) = (dict T', r))"
proof -
  have h: "hinv dg (ab_entry s) (ab_hist s) Ts" using i by (simp add: ab_inv_def)
  have F: "\<forall>g\<in>set (f # fs). frame_ok dg (ab_entry s) (cur s) Ts g" using i f unfolding ab_inv_def by metis
  then have fo: "frame_ok dg (ab_entry s) (cur s) Ts f" by simp
  obtain T' new W D fxs where T': "commits dg (ab_entry s) (ab_hist s) Ts h' T' new W D" "covers fxs (rootaddr T') new W D"
    "gs = fxs \<and> dict T' = dict (last Ts) \<and> (\<exists>v sr vg vp vl. f = WScx v sr vg vp vl \<and> v \<notin> set (addrs T'))
     \<or> gs = fxs \<and> dict T' = dict (last Ts) \<and> (\<exists>v sr vg vp sb vlr. f = DScx v sr vg vp sb vlr \<and> v \<notin> set (addrs T'))
     \<or> (\<exists>op i0 sr v r. f = OpScx op i0 sr v \<and> gs = fxs @ [OpEnd op i0 r] \<and> ab_spec op (dict (last Ts)) = (dict T', r))"
    by (rule commit_ok [OF h dg c fo s])
  note cg = commits_good [OF h T'(1)]
  obtain gone where st: "tree_step dg (ab_entry s) (last Ts) T' new gone W D" using cg(4) by blast
  then have r: "rootaddr T' = rootaddr (last Ts) \<or> rootaddr T' \<notin> dom (cur s)"
    using cg(3) unfolding tree_step_def by blast
  have keep: "frame_ok dg (ab_entry s) h' (Ts @ [T']) g" if "frame_ok dg (ab_entry s) (cur s) Ts g" for g
    by (rule frame_ok_le [OF cg(2) that r])
  have fx: "frame_ok dg (ab_entry s) h' (Ts @ [T']) g" if "g \<in> set fxs" for g
    using T'(2) that cg(5) unfolding covers_def by fastforce
  have en: "frame_ok dg (ab_entry s) h' (Ts @ [T']) (OpEnd op i0 r)"
    if o: "f = OpScx op i0 sr v" "ab_spec op (dict (last Ts)) = (dict T', r)" for op i0 sr v r
  proof -
    note d = hinvD(1-3) [OF h]
    have "i0 \<le> length Ts - 1" using fo o(1) by (auto simp: srch_ok_def)
    moreover have "(Ts @ [T']) ! (length Ts - 1) = last Ts" using d(3) by (simp add: nth_append last_conv_nth)
    ultimately have "lin (Ts @ [T']) op i0 r"
      unfolding lin_def using o(2) d(3) by (intro exI [of _ "length Ts - 1"] exI [of _ "length Ts"]) (auto simp: nth_append)
    then show ?thesis by simp
  qed
  have gs: "\<forall>g\<in>set gs. frame_ok dg (ab_entry s) h' (Ts @ [T']) g" using T'(3) fx en by auto
  have "ab_inv dg (s\<lparr>ab_hist := ab_hist s @ [h'], ab_thr := (ab_thr s)(t := gs @ fs)\<rparr>) (Ts @ [T'])"
    using cg(1) gs F keep i unfolding ab_inv_def by auto
  then show ?thesis using that T'(3) by blast
qed

lemma ab_inv_step:
  assumes "ab_inv dg s Ts" "3 \<le> dg" "ab_step dg s s'"
  shows "\<exists>Us. ab_inv dg s' (Ts @ Us)"
  using assms(3)
proof cases
  case (ab_invoke t op)
  then show ?thesis using ab_inv_invoke [OF assms(1), of t op] by (metis append_Nil2)
next
  case (ab_go t f fs c gs)
  then show ?thesis using ab_inv_go [OF assms(1)] by (metis append_Nil2)
next
  case (ab_commit t f fs c h' gs)
  then show ?thesis using ab_inv_commit [OF assms(1,2)] by metis
qed

lemma ab_reach_inv:
  "ab_reach dg s \<Longrightarrow> 3 \<le> dg \<Longrightarrow> \<exists>Ts. ab_inv dg s Ts"
proof (induction rule: ab_reach.induct)
  case (ab_reach_init g1 g2 ae al anyKey)
  then show ?case using ab_inv_init by blast
next
  case (ab_reach_step s s')
  then show ?case using ab_inv_step by blast
qed

end
