(* ===== verification/AbTree_Map.thy ===== *)
theory AbTree_Map
  imports AbTree_Steps
begin

text \<open>
  The correctness of the relaxed (a,b)-tree: in every reachable state the heap holds one balanced
  search tree, every operation is linearizable as an operation of a map, and the rebalancing steps
  change nothing of the map.
\<close>

subsection \<open>The tree of a heap\<close>

definition holds :: "nat \<Rightarrow> addr \<Rightarrow> ab_heap \<Rightarrow> tr \<Rightarrow> bool" where
  "holds dg e h T \<longleftrightarrow> coh dg h T \<and> good dg e T"

text \<open>A heap holds at most one tree.\<close>

lemma coh_unique: "coh dg h T \<Longrightarrow> coh dg h U \<Longrightarrow> rt T = rt U \<Longrightarrow> T = U"
proof (induction T arbitrary: U)
  case (Lf x sk ks vs)
  then show ?case by (cases U) (auto simp: leaf_at_def inner_at_def)
next
  case (In x w sk ks cs)
  then obtain sk' ks' w' cs' where U: "U = In x w' sk' ks' cs'"
    by (cases U) (auto simp: leaf_at_def inner_at_def)
  have i: "inner_at dg h x w sk ks (map rt cs)" "inner_at dg h x w' sk' ks' (map rt cs')"
    using In.prems U by simp_all
  then have eq: "w' = w" "sk' = sk" "ks' = ks" "map rt cs' = map rt cs" by (auto simp: inner_at_def)
  have "cs' = cs"
  proof (rule nth_equalityI)
    show "length cs' = length cs" using eq(4) map_eq_imp_length_eq by blast
    fix j
    assume j: "j < length cs'"
    then have j': "j < length cs" using eq(4) map_eq_imp_length_eq by metis
    have "rt (cs ! j) = rt (cs' ! j)" using arg_cong [OF eq(4), of "\<lambda>xs. xs ! j"] j j' by simp
    then show "cs' ! j = cs ! j" using In.IH [of "cs ! j" "cs' ! j"] In.prems U j j' by simp
  qed
  then show ?case using U eq by simp
qed

lemma holds_unique: "holds dg e h T \<Longrightarrow> holds dg e h U \<Longrightarrow> T = U"
proof -
  have r: "rt T = e" if "holds dg e h T" for T
    using that by (cases T) (auto simp: holds_def good_def rootok_def split: list.splits)
  assume "holds dg e h T" "holds dg e h U"
  then show "T = U" using coh_unique r unfolding holds_def by metis
qed

lemma hinv_holds: "hinv dg e hs Ts \<Longrightarrow> holds dg e (last hs) (last Ts)" "hinv dg e hs Ts \<Longrightarrow> i < length hs \<Longrightarrow> holds dg e (hs ! i) (Ts ! i)"
  using hinv_last hinvD(4,5) unfolding holds_def by blast+

subsection \<open>Running a schedule\<close>

text \<open>An action of the scheduler: a thread invokes an operation, or takes its next step.\<close>

datatype sched = Inv nat ab_op | Act nat ab_choice

fun exec :: "nat \<Rightarrow> ab_state \<Rightarrow> sched \<Rightarrow> ab_state option" where
  "exec dg s (Inv t op) =
     (if ab_thr s t = [] then Some (s\<lparr>ab_thr := (ab_thr s)(t := [OpStart op (now s)])\<rparr>) else None)"
| "exec dg s (Act t c) =
     (case ab_thr s t of
        [] \<Rightarrow> None
      | f # fs \<Rightarrow>
          if choice_ok dg (cur s) c then
            (case frame_step dg (ab_entry s) (cur s) (now s) c f of
               Go gs \<Rightarrow> Some (s\<lparr>ab_thr := (ab_thr s)(t := gs @ fs)\<rparr>)
             | Commit h' gs \<Rightarrow> Some (s\<lparr>ab_hist := ab_hist s @ [h'], ab_thr := (ab_thr s)(t := gs @ fs)\<rparr>))
          else None)"

fun execs :: "nat \<Rightarrow> ab_state \<Rightarrow> sched list \<Rightarrow> ab_state option" where
  "execs dg s [] = Some s"
| "execs dg s (a # as) = (case exec dg s a of None \<Rightarrow> None | Some s' \<Rightarrow> execs dg s' as)"

lemma exec_step: "exec dg s a = Some s' \<Longrightarrow> ab_step dg s s'"
proof (cases a)
  case (Inv t op)
  assume "exec dg s a = Some s'"
  then show ?thesis using Inv ab_invoke by (auto split: if_splits)
next
  case (Act t c)
  assume e: "exec dg s a = Some s'"
  then obtain f fs where f: "ab_thr s t = f # fs" "choice_ok dg (cur s) c"
    using Act by (auto split: list.splits if_splits)
  show ?thesis
  proof (cases "frame_step dg (ab_entry s) (cur s) (now s) c f")
    case (Go gs)
    then show ?thesis using e Act f ab_go [OF f Go] by (simp del: frame_step.simps)
  next
    case (Commit h' gs)
    then show ?thesis using e Act f ab_commit [OF f Commit] by (simp del: frame_step.simps)
  qed
qed

lemma execs_reach: "execs dg s as = Some s' \<Longrightarrow> ab_reach dg s \<Longrightarrow> ab_reach dg s'"
proof (induction as arbitrary: s)
  case (Cons a as)
  then obtain s1 where "exec dg s a = Some s1" "execs dg s1 as = Some s'" by (auto split: option.splits)
  then show ?case using Cons exec_step ab_reach_step by blast
qed simp

subsection \<open>Correctness\<close>

text \<open>
  C3. In every reachable state of the relaxed (a,b)-tree (degree at least 3) the heap holds exactly
  one tree below the entry node, whose nodes are unmarked, and it is well formed: keys in order and
  separated by the keys of the inner nodes, every node with at most b keys or children, all leaves
  at the same depth when nodes of weight zero are not counted, the root of weight one.
\<close>

theorem abtree_invariant:
  assumes "3 \<le> dg" "ab_reach dg s"
  shows "\<exists>!T. holds dg (ab_entry s) (cur s) T"
proof -
  obtain Ts where "ab_inv dg s Ts" using ab_reach_inv [OF assms(2,1)] by blast
  then have "holds dg (ab_entry s) (cur s) (last Ts)" using hinv_holds by (simp add: ab_inv_def)
  then show ?thesis using holds_unique by blast
qed

text \<open>
  C1. Linearizability. When an operation of the (a,b)-tree is about to return, there is a moment
  between its invocation and now at which the map held by the heap of that moment, taken through the
  operation, gives its result and the map of that or of the next moment.
\<close>

theorem abtree_linearizable:
  assumes "3 \<le> dg" "ab_reach dg s" "OpEnd op i0 r \<in> set (ab_thr s t)"
  shows "\<exists>Ts. length Ts = length (ab_hist s) \<and> (\<forall>i<length Ts. holds dg (ab_entry s) (ab_hist s ! i) (Ts ! i)) \<and> lin Ts op i0 r"
proof -
  obtain Ts where i: "ab_inv dg s Ts" using ab_reach_inv [OF assms(2,1)] by blast
  then have "frame_ok dg (ab_entry s) (cur s) Ts (OpEnd op i0 r)" using assms(3) unfolding ab_inv_def by blast
  moreover have "hinv dg (ab_entry s) (ab_hist s) Ts" using i by (simp add: ab_inv_def)
  ultimately show ?thesis using hinv_holds(2) hinvD(2) by (metis frame_ok.simps(7))
qed

text \<open>
  C2. Every step of the (a,b)-tree refines a step of a map: the map held by the heap changes only
  with the SCX of an insert or erase, it changes as the operation says, and the operation then
  returns what the operation of the map returns; no step of the rebalancing functions changes it.
\<close>

theorem abtree_refines_map:
  assumes dg: "3 \<le> dg" and r: "ab_reach dg s" and st: "ab_step dg s s'"
  shows "\<exists>T T'. holds dg (ab_entry s) (cur s) T \<and> holds dg (ab_entry s') (cur s') T' \<and>
    (dict T' = dict T \<or> (\<exists>t op i0 sr v res fs fxs. ab_thr s t = OpScx op i0 sr v # fs
       \<and> ab_thr s' t = fxs @ OpEnd op i0 res # fs \<and> ab_spec op (dict T) = (dict T', res)))"
proof -
  obtain Ts where i: "ab_inv dg s Ts" using ab_reach_inv [OF r dg] by blast
  then have h: "holds dg (ab_entry s) (cur s) (last Ts)" using hinv_holds by (simp add: ab_inv_def)
  show ?thesis
    using st
  proof cases
    case (ab_invoke t op)
    then show ?thesis using h by auto
  next
    case (ab_go t f fs c gs)
    then show ?thesis using h by auto
  next
    case (ab_commit t f fs c h' gs)
    obtain T' where T': "ab_inv dg (s\<lparr>ab_hist := ab_hist s @ [h'], ab_thr := (ab_thr s)(t := gs @ fs)\<rparr>) (Ts @ [T'])"
      "dict T' = dict (last Ts) \<or> (\<exists>op i0 sr v r fxs. f = OpScx op i0 sr v \<and> gs = fxs @ [OpEnd op i0 r]
          \<and> ab_spec op (dict (last Ts)) = (dict T', r))"
      by (rule ab_inv_commit [OF i dg ab_commit(2-4)])
    have "holds dg (ab_entry s') (cur s') T'"
      using T'(1) ab_commit(1) hinv_holds(1) unfolding ab_inv_def by fastforce
    moreover have "ab_thr s t = f # fs" "ab_thr s' t = gs @ fs" using ab_commit(1,2) by simp_all
    ultimately show ?thesis using h T'(2)
      by (intro exI [of _ "last Ts"] exI [of _ T']) fastforce
  qed
qed

text \<open>
  The rebalancing functions never dereference a null grandparent: when the search for a
  violation finds it, the search has gone through a grandparent, because the violation is not at the
  root. This is the assertion the code states before its first LLX.
\<close>

lemma abtree_gp_not_null:
  assumes "3 \<le> dg" "ab_reach dg s" "FxLlxGp fk v sr \<in> set (ab_thr s t)"
  shows "s_gp sr \<noteq> None \<and> the (s_gp sr) \<in> dom (cur s)"
proof -
  obtain Ts where "ab_inv dg s Ts" using ab_reach_inv [OF assms(2,1)] by blast
  then have "frame_ok dg (ab_entry s) (cur s) Ts (FxLlxGp fk v sr)" using assms(3) unfolding ab_inv_def by blast
  then show ?thesis using at_doms(4,5) by simp
qed

end
