(* ===== verification/AbTree_Quiet.thy ===== *)
theory AbTree_Quiet
  imports AbTree_Map
begin

text \<open>
  Violations of the relaxed (a,b)-tree do not get lost: while a node of weight zero or of too small a
  degree is in the tree, some thread has a call of a rebalancing function for it on its stack. So the
  tree is a strict (a,b)-tree whenever no operation is running.
\<close>

subsection \<open>Above on a path\<close>

text \<open>\<open>x\<close> is in the list, and \<open>y\<close> is there too, not before \<open>x\<close>.\<close>

fun before :: "'a list \<Rightarrow> 'a \<Rightarrow> 'a \<Rightarrow> bool" where
  "before [] x y \<longleftrightarrow> False"
| "before (a # xs) x y \<longleftrightarrow> a = x \<and> y \<in> set (a # xs) \<or> before xs x y"

lemma before_set: "before xs x y \<Longrightarrow> x \<in> set xs \<and> y \<in> set xs"
  by (induction xs) auto

lemma before_filter: "P x \<Longrightarrow> P y \<Longrightarrow> before (filter P xs) x y = before xs x y"
  by (induction xs) auto

lemma before_same_path:
  assumes "same_path Z k t t'" "before (spath k t) x y" "x \<notin> Z" "y \<notin> Z"
  shows "before (spath k t') x y"
  using assms before_filter [of "\<lambda>z. z \<notin> Z" x y "spath k t"] before_filter [of "\<lambda>z. z \<notin> Z" x y "spath k t'"]
  by (simp add: same_path_def)

text \<open>A search that is at a node above \<open>v\<close> moves to a node that is not below it.\<close>

lemma before_child:
  "coh dg h t \<Longrightarrow> before (spath k t) x v \<Longrightarrow> x \<noteq> v \<Longrightarrow> \<not> ab_leaf (nd h x) \<and> before (spath k t) (child h x k) v"
proof (induction t)
  case (In y w sk ks cs)
  have i: "inner_at dg h y w sk ks (map rt cs)" using In.prems by simp
  note ch = inner_at_child [OF i, where k = k]
  have sp: "spaths k ks cs = spath k (cs ! cidx k ks)"
    using coh_length [OF In.prems(1)] by (rule spaths_nth)
  have mem: "cs ! cidx k ks \<in> set cs" using ch(3) by simp
  have top: "before (spath k t) (rt t) z" if "z \<in> set (spath k t)" for t z
    using that by (cases t) auto
  show ?case
  proof (cases "before (spath k (cs ! cidx k ks)) x v")
    case True
    then show ?thesis using In.IH [OF mem _ True] In.prems mem sp by auto
  next
    case False
    then have x: "x = y" "v \<in> set (spath k (cs ! cidx k ks))" using In.prems(2,3) sp by auto
    have "child h x k = rt (cs ! cidx k ks)" using x(1) ch(1,3) by simp
    moreover have "\<not> ab_leaf (nd h x)" using i x(1) by (auto simp: inner_at_def)
    ultimately show ?thesis using top [OF x(2)] sp by simp
  qed
qed auto

text \<open>Every node is on the path of its own search key.\<close>

lemma rng_cthru:
  "csrt C \<Longrightarrow> srt (clo C) (chi C) u \<Longrightarrow> in_rng (clo C) (chi C) k \<Longrightarrow> cthru k C"
proof (induction C arbitrary: u)
  case (Cons f C)
  obtain x w sk kl cl kr cr where f: "f = Fr x w sk kl cl kr cr" by (cases f)
  have ok: "length cl = length kl" "length cr = length kr" using csrt_ok [OF Cons.prems(1)] f by auto
  have all: "srts (clo C) (kl @ kr) (cl @ u # cr) (chi C)"
    using Cons.prems ok f by (simp add: srts_hole)
  note sk = srts_keys [OF all]
  have k: "in_rng (lob (clo C) kl) (hib (chi C) kr) k" using Cons.prems(3) f by simp
  have le: "s \<le> last kl" if "s \<in> set kl" for s
  proof (cases kl rule: rev_cases)
    case (snoc ks z)
    then show ?thesis using that sk by (auto simp: sorted_wrt_append)
  qed (use that in simp)
  have ge: "hd kr \<le> s" if "s \<in> set kr" for s
    using that sk by (cases kr) (auto simp: sorted_wrt_append)
  have l: "\<forall>s\<in>set kl. s \<le> k"
  proof
    fix s
    assume s: "s \<in> set kl"
    then have "last kl \<le> k" using k by (cases kl) (auto simp: in_rng_def lob_def)
    then show "s \<le> k" using le [OF s] by simp
  qed
  have r: "\<forall>s\<in>set kr. k < s"
  proof
    fix s
    assume s: "s \<in> set kr"
    then have "k < hd kr" using k by (cases kr) (auto simp: in_rng_def hib_def)
    then show "k < s" using ge [OF s] by simp
  qed
  have "in_rng (clo C) (chi C) k"
  proof -
    have "kl \<noteq> [] \<Longrightarrow> in_rng (clo C) (chi C) (last kl)" "kr \<noteq> [] \<Longrightarrow> in_rng (clo C) (chi C) (hd kr)"
      using sk by auto
    then show ?thesis
      using k by (cases "clo C"; cases "chi C"; auto simp: in_rng_def lob_def hib_def split: if_splits)
  qed
  then have "cthru k C" using Cons.IH [of "In x w sk (kl @ kr) (cl @ u # cr)"] Cons.prems all f by simp
  moreover have "cidx k (kl @ kr) = length cl" using cidx_eq_iff [of kl kr k] sk l r ok by simp
  ultimately show ?case using f by simp
qed simp

lemma own_path:
  assumes "holds dg e h T" "x \<in> set (addrs T)"
  shows "x \<in> set (spath (ab_searchKey (nd h x)) T)"
proof -
  have c: "coh dg h T" and g: "good dg e T" using assms(1) by (simp_all add: holds_def)
  obtain C u where C: "T = plug C u" "rt u = x" "\<forall>f\<in>set C. fr_ok f" using locate [OF c assms(2)] by blast
  have cu: "coh dg h u" using c unfolding C(1) coh_plug by blast
  have s: "csrt C" "srt (clo C) (chi C) u" using good_parts [OF g [unfolded C(1)] C(3)] by blast+
  have "in_rng (clo C) (chi C) (skey u)" using s(2) by (cases u) auto
  moreover have "ab_searchKey (nd h x) = skey u" using coh_rt(2) [OF cu] C(2) by simp
  ultimately have "cthru (ab_searchKey (nd h x)) C" using rng_cthru [OF s] by simp
  then show ?thesis using spath_plug [OF C(3)] C(1,2) by (cases u) auto
qed

subsection \<open>The order of nodes on a path, through the history\<close>

definition above :: "tr list \<Rightarrow> nat \<Rightarrow> int \<Rightarrow> addr \<Rightarrow> addr \<Rightarrow> bool" where
  "above Ts st k x v \<longleftrightarrow> (\<exists>j. st \<le> j \<and> j < length Ts \<and> before (spath k (Ts ! j)) x v)"

lemma above_append: "above Ts st k x v \<Longrightarrow> above (Ts @ [T]) st k x v"
  unfolding above_def by (metis length_append_singleton less_SucI nth_append)

lemma above_seen: "above Ts st k x v \<Longrightarrow> seen Ts st k x \<and> seen Ts st k v"
  using before_set unfolding above_def seen_def by metis

definition order_inv :: "ab_heap list \<Rightarrow> tr list \<Rightarrow> bool" where
  "order_inv hs Ts \<longleftrightarrow> (\<forall>k x v i. i < length Ts \<longrightarrow> before (spath k (Ts ! i)) x v \<longrightarrow> v \<in> set (addrs (last Ts)) \<longrightarrow>
     (if x \<in> set (addrs (last Ts)) then before (spath k (last Ts)) x v
      else x \<noteq> v \<longrightarrow> above Ts i k (child (last hs) x k) v))"

lemma order_invD:
  assumes "order_inv hs Ts" "i < length Ts" "before (spath k (Ts ! i)) x v" "v \<in> set (addrs (last Ts))"
  shows "x \<in> set (addrs (last Ts)) \<Longrightarrow> before (spath k (last Ts)) x v"
    "x \<notin> set (addrs (last Ts)) \<Longrightarrow> above Ts i k (child (last hs) x k) v"
  using assms unfolding order_inv_def by metis+

lemma above_child:
  assumes h: "hinv dg e hs Ts" and o: "order_inv hs Ts" and a: "above Ts st k x v" "x \<noteq> v"
    and v: "v \<in> set (addrs (last Ts))"
  shows "above Ts st k (child (last hs) x k) v"
proof -
  obtain j where j: "st \<le> j" "j < length Ts" "before (spath k (Ts ! j)) x v" using a(1) unfolding above_def by blast
  show ?thesis
  proof (cases "x \<in> set (addrs (last Ts))")
    case True
    have "before (spath k (last Ts)) x v" by (rule order_invD(1) [OF o j(2,3) v True])
    then have "before (spath k (last Ts)) (child (last hs) x k) v"
      using before_child [OF hinv_last(1) [OF h]] a(2) by blast
    then show ?thesis
      unfolding above_def using j hinvD(3) [OF h] by (intro exI [of _ "length Ts - 1"]) (auto simp: last_conv_nth)
  next
    case False
    have "above Ts j k (child (last hs) x k) v" by (rule order_invD(2) [OF o j(2,3) v False])
    then show ?thesis using j(1) unfolding above_def by (meson le_trans)
  qed
qed

lemma order_inv_commit:
  assumes h: "hinv dg e hs Ts" and o: "order_inv hs Ts" and cm: "commits dg e hs Ts h' T' new W D"
  shows "order_inv (hs @ [h']) (Ts @ [T'])"
proof -
  obtain F C u u' h1 deps vg newl gone where c: "last Ts = plug (F # C) u" "T' = plug (F # C) u'" "set newl = new"
    "ab_commit dg e (last hs) h1 h' F C u u' deps vg newl gone W D"
    using cm unfolding commits_def by blast
  have st: "tree_step dg e (last Ts) T' (set newl) (set gone) W D" using commit_addrs(2) [OF c(4)] c(1,2) by simp
  have pth: "same_path (set newl \<union> set gone) k (last Ts) T'" for k using st unfolding tree_step_def by blast
  have aT': "set (addrs T') = (set (addrs (last Ts)) - set gone) \<union> set newl" using st unfolding tree_step_def by blast
  have nw: "set newl \<inter> dom (last hs) = {}" using ab_commitD(6) [OF c(4)] .
  have old: "x \<notin> set newl \<union> set gone" "x \<in> set (addrs (last Ts))"
    if "seen Ts i k x" "x \<in> set (addrs T')" for i k x
  proof -
    have n: "x \<notin> set newl" using seen_dom(1) [OF h that(1)] nw by blast
    then show l: "x \<in> set (addrs (last Ts))" using that(2) aT' by blast
    then have "x \<notin> set gone" using that(2) aT' n by blast
    then show "x \<notin> set newl \<union> set gone" using n by blast
  qed
  have stay: "before (spath k T') x v"
    if x: "i < length Ts" "before (spath k (Ts ! i)) x v" "v \<in> set (addrs T')" "x \<in> set (addrs T')" for k x v i
  proof -
    have "above Ts i k x v" using x(1,2) unfolding above_def by blast
    then have s: "seen Ts i k x" "seen Ts i k v" using above_seen by blast+
    have "before (spath k (last Ts)) x v"
      by (rule order_invD(1) [OF o x(1,2) old(2) [OF s(2) x(3)] old(2) [OF s(1) x(4)]])
    then show ?thesis using before_same_path [OF pth] old(1) [OF s(1) x(4)] old(1) [OF s(2) x(3)] by blast
  qed
  have gone: "above (Ts @ [T']) i k (child h' x k) v"
    if x: "i < length Ts" "before (spath k (Ts ! i)) x v" "v \<in> set (addrs T')" "x \<notin> set (addrs T')" for k x v i
  proof -
    have a: "above Ts i k x v" using x(1,2) unfolding above_def by blast
    then have s: "seen Ts i k x" "seen Ts i k v" using above_seen by blast+
    have xd: "x \<in> dom (last hs)" by (rule seen_dom(1) [OF h s(1)])
    then obtain n where n: "last hs x = Some n" by auto
    obtain n' where n': "h' x = Some n'" "node_le n n'" using heap_leD [OF commit_heap_le [OF c(4)] n] by blast
    have "ab_ptrs n' = ab_ptrs n" using commit_removed [OF c(4) xd] x(4) c(2) n n' by simp
    then have ch: "child h' x k = child (last hs) x k" using child_same n n' by blast
    have "x \<noteq> v" using x(3,4) by blast
    then show ?thesis using above_append [OF above_child [OF h o a _ old(2) [OF s(2) x(3)]]] ch by simp
  qed
  show ?thesis
    unfolding order_inv_def
  proof (intro allI impI)
    fix k x v i
    assume i: "i < length (Ts @ [T'])" "before (spath k ((Ts @ [T']) ! i)) x v" "v \<in> set (addrs (last (Ts @ [T'])))"
    show "if x \<in> set (addrs (last (Ts @ [T']))) then before (spath k (last (Ts @ [T']))) x v
        else x \<noteq> v \<longrightarrow> above (Ts @ [T']) i k (child (last (hs @ [h'])) x k) v"
    proof (cases "i < length Ts")
      case True
      then show ?thesis using i stay [of i k x v] gone [of i k x v] by (simp add: nth_append)
    next
      case False
      then have "before (spath k T') x v" using i by (simp add: nth_append)
      then show ?thesis using before_set [of "spath k T'" x v] spath_addrs(1) [of k T'] by auto
    qed
  qed
qed

subsection \<open>Who takes care of a violation\<close>

fun handles :: "fix_kind \<Rightarrow> addr \<Rightarrow> frame \<Rightarrow> bool" where
  "handles fk x (FxStart fk' v) \<longleftrightarrow> fk' = fk \<and> v = x"
| "handles fk x (FxLlxViol fk' v) \<longleftrightarrow> fk' = fk \<and> v = x"
| "handles fk x (FxLoop fk' v) \<longleftrightarrow> fk' = fk \<and> v = x"
| "handles fk x (FxSearch fk' v sr) \<longleftrightarrow> fk' = fk \<and> v = x"
| "handles fk x (FxFound fk' v sr) \<longleftrightarrow> fk' = fk \<and> v = x"
| "handles fk x (FxLlxGp fk' v sr) \<longleftrightarrow> fk' = fk \<and> v = x"
| "handles fk x (FxChkP fk' v sr vg) \<longleftrightarrow> fk' = fk \<and> v = x"
| "handles fk x (FxLlxP fk' v sr vg) \<longleftrightarrow> fk' = fk \<and> v = x"
| "handles fk x (FxChkL fk' v sr vg vp) \<longleftrightarrow> fk' = fk \<and> v = x"
| "handles fk x (WLlxL v sr vg vp) \<longleftrightarrow> fk = FixWeight \<and> v = x"
| "handles fk x (WScx v sr vg vp vl) \<longleftrightarrow> fk = FixWeight \<and> v = x"
| "handles fk x (DSib v sr vg vp) \<longleftrightarrow> fk = FixDegree \<and> v = x"
| "handles fk x (DLlxLeft v sr vg vp s) \<longleftrightarrow> fk = FixDegree \<and> v = x"
| "handles fk x (DLlxRight v sr vg vp s v1) \<longleftrightarrow> fk = FixDegree \<and> v = x"
| "handles fk x (DScx v sr vg vp s vlr) \<longleftrightarrow> fk = FixDegree \<and> v = x"
| "handles fk x (FxUndef fk' v) \<longleftrightarrow> fk' = fk \<and> v = x"
| "handles fk x _ \<longleftrightarrow> False"

text \<open>The violations of a tree: the entry node and the root may have a small degree.\<close>

fun viols :: "nat \<Rightarrow> addr \<Rightarrow> tr \<Rightarrow> fix_kind \<Rightarrow> addr set" where
  "viols dg e T FixWeight = wvs T"
| "viols dg e T FixDegree = dvs (min_deg dg) T - {e, rootaddr T}"

text \<open>A search for a violation that is still in the tree is not below it, and finds it.\<close>

fun quiet_ok :: "ab_heap \<Rightarrow> tr list \<Rightarrow> frame \<Rightarrow> bool" where
  "quiet_ok h Ts (FxSearch fk v sr) \<longleftrightarrow> (v \<in> set (addrs (last Ts)) \<longrightarrow> above Ts (s_st sr) (ab_searchKey (nd h v)) (s_l sr) v)"
| "quiet_ok h Ts (FxFound fk v sr) \<longleftrightarrow> (v \<in> set (addrs (last Ts)) \<longrightarrow> s_l sr = v)"
| "quiet_ok h Ts f \<longleftrightarrow> True"

definition cov :: "nat \<Rightarrow> addr \<Rightarrow> (nat \<Rightarrow> frame list) \<Rightarrow> tr \<Rightarrow> bool" where
  "cov dg e thr T \<longleftrightarrow> (\<forall>fk x. x \<in> viols dg e T fk \<longrightarrow> (\<exists>t. \<exists>f\<in>set (thr t). handles fk x f))"

definition quiet_inv :: "nat \<Rightarrow> ab_state \<Rightarrow> tr list \<Rightarrow> bool" where
  "quiet_inv dg s Ts \<longleftrightarrow> ab_inv dg s Ts \<and> order_inv (ab_hist s) Ts
     \<and> (\<forall>t. \<forall>f\<in>set (ab_thr s t). quiet_ok (cur s) Ts f) \<and> cov dg (ab_entry s) (ab_thr s) (last Ts)"

lemma wvs_weight: "coh dg h T \<Longrightarrow> x \<in> wvs T \<Longrightarrow> \<not> ab_weight (nd h x)"
proof (induction T)
  case (In y w sk ks cs)
  then show ?case by (auto simp: inner_at_def split: if_splits)
qed simp

lemma dvs_degree: "coh dg h T \<Longrightarrow> x \<in> dvs a T \<Longrightarrow> getABDegree (nd h x) < a"
proof (induction T)
  case (Lf y sk ks vs)
  then show ?case using coh_rt(3) [OF Lf.prems(1)] by (auto split: if_splits)
next
  case (In y w sk ks cs)
  then show ?case using coh_rt(3) [OF In.prems(1)] by (auto split: if_splits)
qed

lemma viols_in: "x \<in> viols dg e T fk \<Longrightarrow> x \<in> set (addrs T)"
  using wvs_addrs [of T] dvs_addrs [of "min_deg dg" T] by (cases fk) auto

lemma in_tree_unmarked:
  assumes "hinv dg e hs Ts" "x \<in> set (addrs (last Ts))"
  shows "llx fail (last hs) x \<noteq> FINALIZED"
  using coh_dom [OF hinv_last(1) [OF assms(1)] assms(2)] by (auto simp: llx_def)

subsection \<open>A step that does not change the heap\<close>

lemma start_above:
  assumes h: "hinv dg e hs Ts" and v: "v \<in> set (addrs (last Ts))" "v \<noteq> e"
  defines "sr \<equiv> start_search e (last hs) (length hs - 1)"
  shows "above Ts (s_st sr) (ab_searchKey (nd (last hs) v)) (s_l sr) v"
proof -
  let ?k = "ab_searchKey (nd (last hs) v)"
  obtain sk R where R: "last Ts = In e True sk [] [R]" "rt R = rootaddr (last Ts)" by (rule root_parts [OF h])
  have p: "v \<in> set (spath ?k (last Ts))" by (rule own_path [OF hinv_holds(1) [OF h] v(1)])
  then have "v \<in> set (spath ?k R)" using R(1) v(2) by simp
  then have "before (spath ?k (last Ts)) (rt R) v" using R(1) by (cases R) auto
  then show ?thesis
    unfolding above_def sr_def start_ok(2,4) [OF h] R(2) [symmetric]
    using hinvD(3) [OF h] by (intro exI [of _ "length Ts - 1"]) (auto simp: last_conv_nth)
qed

lemma search_end:
  assumes h: "hinv dg e hs Ts" and a: "above Ts st k x v" "ab_leaf (nd (last hs) x)"
  shows "x = v"
proof (rule ccontr)
  assume n: "x \<noteq> v"
  obtain j where j: "j < length Ts" "before (spath k (Ts ! j)) x v" using a(1) unfolding above_def by blast
  then have j': "j < length hs" using hinvD(2) [OF h] by simp
  have "\<not> ab_leaf (nd (hs ! j) x)" using before_child [OF hinvD(4) [OF h j'] j(2) n] by blast
  moreover have "x \<in> set (addrs (Ts ! j))" using before_set [OF j(2)] spath_addrs(1) by blast
  then obtain m where m: "(hs ! j) x = Some m" using coh_dom [OF hinvD(4) [OF h j']] by blast
  moreover obtain m' where "last hs x = Some m'" "node_le m m'"
    using heap_leD [OF hinvD(6) [OF h j'] m] by blast
  ultimately show False using a(2) by (simp add: node_le_def)
qed

lemma go_quiet:
  assumes h: "hinv dg e hs Ts" and o: "order_inv hs Ts" and f: "frame_ok dg e (last hs) Ts f" "quiet_ok (last hs) Ts f"
    and s: "frame_step dg e (last hs) (length hs - 1) c f = Go gs"
  shows "\<forall>g\<in>set gs. quiet_ok (last hs) Ts g"
proof (cases f)
  case (FxLoop fk v)
  have "v \<noteq> e"
  proof
    assume "v = e"
    moreover obtain sk R where "inner_at dg (last hs) e True sk [] [rt R]" by (rule root_parts [OF h])
    ultimately show False using f(1) FxLoop by (cases fk) (auto simp: viol_ok_def inner_at_def)
  qed
  then show ?thesis using FxLoop s start_above [OF h, of v] by (cases fk) auto
next
  case (FxSearch fk v sr)
  let ?k = "ab_searchKey (nd (last hs) v)"
  have fin: "s_l sr = v" if "v \<in> set (addrs (last Ts))" "ab_leaf (nd (last hs) (s_l sr))"
    using search_end [OF h _ that(2)] f(2) FxSearch that(1) by simp
  have nxt: "above Ts (s_st sr) ?k (s_l (descend (last hs) ?k sr)) v"
    if "v \<in> set (addrs (last Ts))" "s_l sr \<noteq> v"
    using above_child [OF h o _ that(2,1)] f(2) FxSearch that(1) by (simp add: descend_def Let_def child_def)
  have "s_st (descend (last hs) ?k sr) = s_st sr" by (simp add: descend_def Let_def)
  then show ?thesis using FxSearch s fin nxt by (cases fk) (auto split: if_splits)
qed (use s in \<open>(auto simp: Let_def split: if_splits option.splits llx_result.splits ab_op.splits fix_kind.splits)?\<close>)

lemma go_handles:
  assumes h: "hinv dg e hs Ts" and f: "quiet_ok (last hs) Ts f" "handles fk x f"
    and v: "x \<in> viols dg e (last Ts) fk"
    and s: "frame_step dg e (last hs) (length hs - 1) c f = Go gs"
  shows "\<exists>g\<in>set gs. handles fk x g"
proof -
  have T: "x \<in> set (addrs (last Ts))" by (rule viols_in [OF v])
  note un = in_tree_unmarked [OF h T]
  have bad: "fk = FixWeight \<Longrightarrow> \<not> ab_weight (nd (last hs) x)"
    "fk = FixDegree \<Longrightarrow> getABDegree (nd (last hs) x) < min_deg dg \<and> x \<noteq> e \<and> x \<noteq> ab_ptrs (nd (last hs) e) ! 0"
  proof -
    obtain sk R where R: "rt R = rootaddr (last Ts)" "inner_at dg (last hs) e True sk [] [rt R]" by (rule root_parts [OF h])
    have "ab_ptrs (nd (last hs) e) ! 0 = rootaddr (last Ts)" using inner_at_nth(2) [OF R(2), of 0] R(1) by simp
    then show "fk = FixDegree \<Longrightarrow> getABDegree (nd (last hs) x) < min_deg dg \<and> x \<noteq> e \<and> x \<noteq> ab_ptrs (nd (last hs) e) ! 0"
      using v dvs_degree [OF hinv_last(1) [OF h]] by auto
    show "fk = FixWeight \<Longrightarrow> \<not> ab_weight (nd (last hs) x)"
      using v wvs_weight [OF hinv_last(1) [OF h]] by auto
  qed
  show ?thesis
  proof (cases f)
    case (FxStart fk' v')
    then show ?thesis using f(2) s bad by (cases fk) auto
  next
    case (FxLlxViol fk' v')
    then show ?thesis using f(2) s un by (cases fk) auto
  next
    case (FxFound fk' v' sr)
    then show ?thesis using f s T by (cases fk) (auto split: if_splits)
  next
    case (DSib v' sr vg vp)
    then show ?thesis using f(2) s by (auto simp: Let_def split: if_splits)
  next
    case (FxLoop fk' v')
    then show ?thesis using f(2) s by (cases fk) auto
  next
    case (FxSearch fk' v' sr)
    then show ?thesis using f(2) s by (cases fk) (auto split: if_splits)
  next
    case (FxLlxGp fk' v' sr)
    then show ?thesis using f(2) s by (cases fk) (auto split: option.splits llx_result.splits)
  next
    case (FxChkP fk' v' sr vg)
    then show ?thesis using f(2) s by (cases fk) (auto split: if_splits)
  next
    case (FxLlxP fk' v' sr vg)
    then show ?thesis using f(2) s by (cases fk) (auto split: llx_result.splits)
  next
    case (FxChkL fk' v' sr vg vp)
    then show ?thesis using f(2) s by (cases fk) (auto split: if_splits)
  next
    case (FxUndef fk' v')
    then show ?thesis using f(2) s by (cases fk) auto
  qed (use f(2) s in \<open>auto split: llx_result.splits option.splits\<close>)
qed

lemma all_frames_upd:
  assumes "thr t = f # fs" "\<And>g. g \<in> set gs \<Longrightarrow> Q g" "\<And>g t. g \<in> set (thr t) \<Longrightarrow> Q g"
  shows "\<forall>t'. \<forall>g\<in>set ((thr(t := gs @ fs)) t'). Q g"
proof (intro allI ballI)
  fix t' g
  assume g: "g \<in> set ((thr(t := gs @ fs)) t')"
  have "g \<in> set fs \<Longrightarrow> g \<in> set (thr t)" using assms(1) by simp
  then show "Q g" using g assms(2,3) by (cases "t' = t") auto
qed

lemma quiet_go:
  assumes i: "quiet_inv dg s Ts" and f: "ab_thr s t = f # fs"
    and st: "frame_step dg (ab_entry s) (cur s) (now s) c f = Go gs"
  shows "quiet_inv dg (s\<lparr>ab_thr := (ab_thr s)(t := gs @ fs)\<rparr>) Ts"
proof -
  let ?e = "ab_entry s" and ?h = "cur s"
  have a: "ab_inv dg s Ts" and o: "order_inv (ab_hist s) Ts" and q: "\<forall>t. \<forall>f\<in>set (ab_thr s t). quiet_ok ?h Ts f"
    and cv: "cov dg ?e (ab_thr s) (last Ts)" using i unfolding quiet_inv_def by blast+
  have h: "hinv dg ?e (ab_hist s) Ts" using a by (simp add: ab_inv_def)
  have ft: "f \<in> set (ab_thr s t)" using f by simp
  have qf: "quiet_ok ?h Ts f" using q ft by blast
  have "frame_ok dg ?e ?h Ts f" using a ft unfolding ab_inv_def by blast
  then have qg: "\<forall>g\<in>set gs. quiet_ok ?h Ts g" using go_quiet [OF h o _ qf] st by simp
  have "\<exists>t'. \<exists>g\<in>set (((ab_thr s)(t := gs @ fs)) t'). handles fk x g" if x: "x \<in> viols dg ?e (last Ts) fk" for fk x
  proof -
    obtain t' g where g: "g \<in> set (ab_thr s t')" "handles fk x g" using cv x unfolding cov_def by blast
    have "t' = t \<Longrightarrow> g = f \<or> g \<in> set fs" using g(1) f by simp
    then consider "t' \<noteq> t" | "t' = t" "g \<in> set fs" | "t' = t" "g = f" by blast
    then show ?thesis
    proof cases
      case 1
      then show ?thesis using g by (intro exI [of _ t'] bexI [of _ g]) simp_all
    next
      case 2
      then show ?thesis using g by (intro exI [of _ t] bexI [of _ g]) simp_all
    next
      case 3
      obtain g' where "g' \<in> set gs" "handles fk x g'"
        using go_handles [OF h qf _ x, of c gs] g(2) 3 st by auto
      then show ?thesis by (intro exI [of _ t] bexI [of _ g']) simp_all
    qed
  qed
  then have "cov dg ?e ((ab_thr s)(t := gs @ fs)) (last Ts)" unfolding cov_def by blast
  moreover have "\<forall>t'. \<forall>g\<in>set (((ab_thr s)(t := gs @ fs)) t'). quiet_ok ?h Ts g"
    by (rule all_frames_upd [where thr = "ab_thr s", OF f]) (use q qg in blast)+
  ultimately show ?thesis using ab_inv_go [OF a f st] o unfolding quiet_inv_def by simp
qed

subsection \<open>An SCX\<close>

lemma quiet_ok_commit:
  assumes h: "hinv dg e hs Ts" and cm: "commits dg e hs Ts h' T' new W D"
    and f: "frame_ok dg e (last hs) Ts f" "quiet_ok (last hs) Ts f"
  shows "quiet_ok h' (Ts @ [T']) f"
proof -
  note cg = commits_good [OF h cm]
  have old: "v \<in> set (addrs (last Ts))" "ab_searchKey (nd h' v) = ab_searchKey (nd (last hs) v)"
    if "v \<in> set (addrs T')" "v \<in> dom (last hs)" for v
  proof -
    show "v \<in> set (addrs (last Ts))" using cg(3,4) that unfolding tree_step_def by blast
    show "ab_searchKey (nd h' v) = ab_searchKey (nd (last hs) v)" by (rule le_fields(4) [OF cg(2) that(2)])
  qed
  show ?thesis
  proof (cases f)
    case (FxSearch fk v sr)
    have "v \<in> dom (last hs)" using f(1) FxSearch by (simp add: fx_ok_def viol_ok_def)
    then show ?thesis using f(2) FxSearch old above_append by auto
  next
    case (FxFound fk v sr)
    have "v \<in> dom (last hs)" using f(1) FxFound by (simp add: fx_ok_def viol_ok_def)
    then show ?thesis using f(2) FxFound old by auto
  qed simp_all
qed

lemma viols_step:
  assumes st: "tree_step dg e T T' new gone W D" and x: "x \<in> viols dg e T' fk" and n: "new \<inter> set (addrs T) = {}"
  shows "x \<in> viols dg e T fk \<or> fk = FixWeight \<and> x \<in> W \<or> fk = FixDegree \<and> x \<in> D \<and> x \<noteq> rootaddr T'"
proof (cases fk)
  case FixWeight
  then show ?thesis using st x unfolding tree_step_def by auto
next
  case FixDegree
  have "x = rootaddr T \<Longrightarrow> rootaddr T' = rootaddr T"
    using st viols_in [OF x] n unfolding tree_step_def by blast
  then show ?thesis using FixDegree st x unfolding tree_step_def by auto
qed

lemma quiet_commit:
  assumes i: "quiet_inv dg s Ts" and dg: "3 \<le> dg" and f: "ab_thr s t = f # fs" and c: "choice_ok dg (cur s) c"
    and st: "frame_step dg (ab_entry s) (cur s) (now s) c f = Commit h' gs"
  shows "\<exists>T'. quiet_inv dg (s\<lparr>ab_hist := ab_hist s @ [h'], ab_thr := (ab_thr s)(t := gs @ fs)\<rparr>) (Ts @ [T'])"
proof -
  let ?e = "ab_entry s" and ?h = "cur s"
  let ?s' = "s\<lparr>ab_hist := ab_hist s @ [h'], ab_thr := (ab_thr s)(t := gs @ fs)\<rparr>"
  have a: "ab_inv dg s Ts" and o: "order_inv (ab_hist s) Ts" and q: "\<forall>t. \<forall>f\<in>set (ab_thr s t). quiet_ok ?h Ts f"
    and cv: "cov dg ?e (ab_thr s) (last Ts)" using i unfolding quiet_inv_def by blast+
  have h: "hinv dg ?e (ab_hist s) Ts" using a by (simp add: ab_inv_def)
  have fr: "\<forall>t. \<forall>f\<in>set (ab_thr s t). frame_ok dg ?e ?h Ts f" using a unfolding ab_inv_def by blast
  have ft: "f \<in> set (ab_thr s t)" using f by simp
  have fo: "frame_ok dg ?e ?h Ts f" using fr ft by blast
  obtain T' new W D fxs where T': "commits dg ?e (ab_hist s) Ts h' T' new W D" "covers fxs (rootaddr T') new W D"
    "gs = fxs \<and> dict T' = dict (last Ts) \<and> (\<exists>v sr vg vp vl. f = WScx v sr vg vp vl \<and> v \<notin> set (addrs T'))
     \<or> gs = fxs \<and> dict T' = dict (last Ts) \<and> (\<exists>v sr vg vp sb vlr. f = DScx v sr vg vp sb vlr \<and> v \<notin> set (addrs T'))
     \<or> (\<exists>op i0 sr v r. f = OpScx op i0 sr v \<and> gs = fxs @ [OpEnd op i0 r] \<and> ab_spec op (dict (last Ts)) = (dict T', r))"
    by (rule commit_ok [OF h dg c fo st])
  note cg = commits_good [OF h T'(1)]
  obtain gone where ts: "tree_step dg ?e (last Ts) T' new gone W D" using cg(4) by blast
  have nw: "new \<inter> set (addrs (last Ts)) = {}" using cg(3) coh_dom [OF hinv_last(1) [OF h]] by blast
  have inv: "ab_inv dg ?s' (Ts @ [T'])"
  proof -
    obtain T2 where T2: "ab_inv dg ?s' (Ts @ [T2])" by (rule ab_inv_commit [OF a dg f c st])
    then have "hinv dg ?e (ab_hist s @ [h']) (Ts @ [T2])" by (simp add: ab_inv_def)
    then have "T2 = T'" using hinv_holds(1) [OF cg(1)] hinv_holds(1) holds_unique by fastforce
    then show ?thesis using T2 by simp
  qed
  have "g \<in> set fxs \<Longrightarrow> quiet_ok h' (Ts @ [T']) g" for g
    using T'(2) unfolding covers_def by fastforce
  then have "g \<in> set gs \<Longrightarrow> quiet_ok h' (Ts @ [T']) g" for g using T'(3) by auto
  then have qn: "\<forall>t'. \<forall>g\<in>set (((ab_thr s)(t := gs @ fs)) t'). quiet_ok h' (Ts @ [T']) g"
    by (rule all_frames_upd [where thr = "ab_thr s", OF f]) (use quiet_ok_commit [OF h T'(1)] q fr in blast)+
  have "\<exists>t'. \<exists>g\<in>set (((ab_thr s)(t := gs @ fs)) t'). handles fk x g" if x: "x \<in> viols dg ?e T' fk" for fk x
  proof (cases "x \<in> viols dg ?e (last Ts) fk")
    case False
    then consider "fk = FixWeight" "x \<in> W" | "fk = FixDegree" "x \<in> D" "x \<noteq> rootaddr T'"
      using viols_step [OF ts x nw] by blast
    then have "FxStart fk x \<in> set fxs" using T'(2) unfolding covers_def by cases auto
    then have "FxStart fk x \<in> set gs" using T'(3) by auto
    then show ?thesis by (intro exI [of _ t] bexI [of _ "FxStart fk x"]) simp_all
  next
    case True
    then obtain t' g where g: "g \<in> set (ab_thr s t')" "handles fk x g" using cv unfolding cov_def by blast
    have "g \<noteq> f" using T'(3) g(2) viols_in [OF x] by auto
    then have "t' = t \<Longrightarrow> g \<in> set fs" using g(1) f by simp
    then consider "t' \<noteq> t" | "t' = t" "g \<in> set fs" by blast
    then show ?thesis
    proof cases
      case 1
      then show ?thesis using g by (intro exI [of _ t'] bexI [of _ g]) simp_all
    next
      case 2
      then show ?thesis using g by (intro exI [of _ t] bexI [of _ g]) simp_all
    qed
  qed
  then have "cov dg ?e ((ab_thr s)(t := gs @ fs)) T'" unfolding cov_def by blast
  then have "quiet_inv dg ?s' (Ts @ [T'])"
    using inv order_inv_commit [OF h o T'(1)] qn unfolding quiet_inv_def by simp
  then show ?thesis by blast
qed

lemma quiet_invoke:
  assumes i: "quiet_inv dg s Ts" and t: "ab_thr s t = []"
  shows "quiet_inv dg (s\<lparr>ab_thr := (ab_thr s)(t := [OpStart op (now s)])\<rparr>) Ts"
proof -
  have "cov dg (ab_entry s) ((ab_thr s)(t := [OpStart op (now s)])) (last Ts)"
    unfolding cov_def
  proof (intro allI impI)
    fix fk x
    assume "x \<in> viols dg (ab_entry s) (last Ts) fk"
    then obtain t' g where g: "g \<in> set (ab_thr s t')" "handles fk x g" using i unfolding quiet_inv_def cov_def by blast
    then have "t' \<noteq> t" using t by auto
    then show "\<exists>t'. \<exists>g\<in>set (((ab_thr s)(t := [OpStart op (now s)])) t'). handles fk x g"
      using g by (intro exI [of _ t'] bexI [of _ g]) simp_all
  qed
  then show ?thesis using i ab_inv_invoke [of dg s Ts t op] unfolding quiet_inv_def by auto
qed

lemma quiet_init:
  assumes g: "alloc_ok dg g1" "alloc_ok dg g2" "ae \<noteq> al" and dg: "3 \<le> dg"
  shows "quiet_inv dg (ab_init dg anyKey ae al g1 g2) [init_tree anyKey ae al]"
proof -
  have "order_inv [h] [T]" for h T
    unfolding order_inv_def using before_set spath_addrs(1) by fastforce
  moreover have "viols dg ae (init_tree anyKey ae al) fk = {}" for fk
    by (cases fk) (auto simp: init_tree_def rootaddr_def)
  ultimately show ?thesis
    using ab_inv_init [OF assms, of anyKey] by (simp add: quiet_inv_def cov_def ab_init_def Let_def)
qed

lemma quiet_reach: "ab_reach dg s \<Longrightarrow> 3 \<le> dg \<Longrightarrow> \<exists>Ts. quiet_inv dg s Ts"
proof (induction rule: ab_reach.induct)
  case (ab_reach_init g1 g2 ae al anyKey)
  then show ?case using quiet_init by blast
next
  case (ab_reach_step s s')
  then obtain Ts where i: "quiet_inv dg s Ts" by blast
  show ?case
    using ab_reach_step.hyps(2)
  proof cases
    case (ab_invoke t op)
    then show ?thesis using quiet_invoke [OF i] by blast
  next
    case (ab_go t f fs c gs)
    then show ?thesis using quiet_go [OF i] by blast
  next
    case (ab_commit t f fs c h' gs)
    then show ?thesis using quiet_commit [OF i ab_reach_step.prems] by blast
  qed
qed

subsection \<open>A tree without violations\<close>

text \<open>
  A strict (a,b)-tree: every node has between \<open>a\<close> and \<open>b\<close> keys or children, and every leaf is
  \<open>n\<close> levels below the root of the tree. The root itself may have fewer, but at least two children
  when it is internal.
\<close>

fun strict_sub :: "nat \<Rightarrow> nat \<Rightarrow> nat \<Rightarrow> tr \<Rightarrow> bool" where
  "strict_sub a b n (Lf x sk ks vs) \<longleftrightarrow> n = 0 \<and> a \<le> length ks \<and> length ks \<le> b \<and> length vs = length ks"
| "strict_sub a b n (In x w sk ks cs) \<longleftrightarrow>
     0 < n \<and> w \<and> a \<le> length cs \<and> length cs \<le> b \<and> (\<forall>c\<in>set cs. strict_sub a b (n - 1) c)"

fun strict_root :: "nat \<Rightarrow> nat \<Rightarrow> nat \<Rightarrow> tr \<Rightarrow> bool" where
  "strict_root a b n (Lf x sk ks vs) \<longleftrightarrow> n = 0 \<and> length ks \<le> b \<and> length vs = length ks"
| "strict_root a b n (In x w sk ks cs) \<longleftrightarrow>
     0 < n \<and> w \<and> 2 \<le> length cs \<and> length cs \<le> b \<and> (\<forall>c\<in>set cs. strict_sub a b (n - 1) c)"

lemma strict_sub:
  "bal t d \<Longrightarrow> sized b t \<Longrightarrow> wvs t = {} \<Longrightarrow> dvs a t = {} \<Longrightarrow> 0 < d \<and> strict_sub a b (d - 1) t"
proof (induction t arbitrary: d)
  case (Lf x sk ks vs)
  then show ?case by (auto split: if_splits)
next
  case (In x w sk ks cs)
  have w: "w" using In.prems(3) by (auto split: if_splits)
  have c: "0 < d - 1 \<and> strict_sub a b (d - 1 - 1) c" if "c \<in> set cs" for c
    using In.IH [OF that, of "d - 1"] In.prems that w by auto
  moreover obtain c0 where "c0 \<in> set cs" using In.prems(1) by (cases cs) auto
  ultimately have "0 < d - 1" by blast
  then show ?case using c w In.prems by (auto split: if_splits)
qed

lemma strict_root:
  assumes g: "good dg e T" and W: "wvs T = {}" and D: "dvs a T \<subseteq> {e, rootaddr T}"
  shows "\<exists>sk R n. T = In e True sk [] [R] \<and> strict_root a dg n R"
proof -
  have r: "rootok e T" and di: "distinct (addrs T)" and sz: "sized dg T" using g by (simp_all add: good_def)
  obtain d where d: "bal T d" using g by (auto simp: good_def)
  obtain sk R where R: "T = In e True sk [] [R]" "wt R" "is_leaf R \<or> 2 \<le> deg R"
    using r by (cases T) (auto simp: rootok_def split: list.splits)
  have "strict_root a dg (d - 2) R"
  proof (cases R)
    case (Lf x sk ks vs)
    then show ?thesis using R d sz by auto
  next
    case (In x w sk' ks cs)
    have c: "0 < d - 2 \<and> strict_sub a dg (d - 2 - 1) c" if c: "c \<in> set cs" for c
    proof (rule strict_sub)
      show "bal c (d - 2)" "sized dg c" "wvs c = {}" using d sz W R In c by (auto split: if_splits simp: numeral_2_eq_2)
      have "e \<notin> set (addrs c)" "x \<notin> set (addrs c)" using di R In c by auto
      moreover have "dvs a c \<subseteq> {e, x}" using D R In c by (auto simp: rootaddr_def)
      ultimately show "dvs a c = {}" using dvs_addrs [of a c] by blast
    qed
    moreover obtain c0 where "c0 \<in> set cs" using R In by (cases cs) auto
    ultimately have "0 < d - 2" by blast
    then show ?thesis using c R In sz by auto
  qed
  then show ?thesis using R by blast
qed

lemma sum_list_ge: "\<forall>x\<in>set xs. m \<le> f x \<Longrightarrow> length xs * m \<le> sum_list (map f xs)" for m :: nat
  by (induction xs) auto

lemma keys_strict: "strict_sub a b n t \<Longrightarrow> a ^ Suc n \<le> length (tcontent t)"
proof (induction t arbitrary: n)
  case (In x w sk ks cs)
  have "\<forall>c\<in>set cs. a ^ n \<le> length (tcontent c)"
    using In.IH [where n = "n - 1"] In.prems by (cases n) auto
  then have "length cs * a ^ n \<le> sum_list (map (\<lambda>c. length (tcontent c)) cs)" by (rule sum_list_ge)
  moreover have "a * a ^ n \<le> length cs * a ^ n" using In.prems by (intro mult_right_mono) auto
  ultimately have "a * a ^ n \<le> sum_list (map (\<lambda>c. length (tcontent c)) cs)" by (rule le_trans [rotated])
  then show ?case by (simp add: length_concat comp_def)
qed auto

text \<open>
  C4. No violation of the (a,b)-tree is ever forgotten: in every reachable state, for every node of
  weight zero in the tree, and for every node other than the entry and the root that has fewer than
  \<open>a\<close> keys or children, some thread has a running or pending call of the rebalancing function for that
  node on its stack.
\<close>

theorem abtree_violations_attended:
  assumes "3 \<le> dg" "ab_reach dg s"
  shows "\<exists>T. holds dg (ab_entry s) (cur s) T \<and>
    (\<forall>fk x. x \<in> viols dg (ab_entry s) T fk \<longrightarrow> (\<exists>t. \<exists>f\<in>set (ab_thr s t). handles fk x f))"
proof -
  obtain Ts where i: "quiet_inv dg s Ts" using quiet_reach [OF assms(2,1)] by blast
  then have "holds dg (ab_entry s) (cur s) (last Ts)" using hinv_holds(1) by (simp add: quiet_inv_def ab_inv_def)
  then show ?thesis using i unfolding quiet_inv_def cov_def by blast
qed

lemma no_viols:
  assumes "3 \<le> dg" "ab_reach dg s" "\<forall>t. ab_thr s t = []"
  obtains T sk R n where "holds dg (ab_entry s) (cur s) T" "T = In (ab_entry s) True sk [] [R]"
    "strict_root (min_deg dg) dg n R"
proof -
  obtain Ts where i: "quiet_inv dg s Ts" using quiet_reach [OF assms(2,1)] by blast
  then have h: "holds dg (ab_entry s) (cur s) (last Ts)" using hinv_holds(1) by (simp add: quiet_inv_def ab_inv_def)
  have e: "viols dg (ab_entry s) (last Ts) fk = {}" for fk
    using i assms(3) unfolding quiet_inv_def cov_def by fastforce
  have "wvs (last Ts) = {}" "dvs (min_deg dg) (last Ts) \<subseteq> {ab_entry s, rootaddr (last Ts)}"
    using e [of FixWeight] e [of FixDegree] by auto
  then show ?thesis using that h strict_root unfolding holds_def by metis
qed

text \<open>
  C5. When no operation is running, the (a,b)-tree is strict: below the entry there is a tree whose
  leaves are all at the same depth, whose nodes other than the root have between \<open>a\<close> and
  \<open>b\<close> keys or children, and whose root is a leaf or has at least two children.
\<close>

theorem abtree_quiescent_strict:
  assumes "3 \<le> dg" "ab_reach dg s" "\<forall>t. ab_thr s t = []"
  shows "\<exists>sk R n. holds dg (ab_entry s) (cur s) (In (ab_entry s) True sk [] [R]) \<and> strict_root (min_deg dg) dg n R"
  by (rule no_viols [OF assms]) blast

text \<open>The leaves of a strict tree are at one depth, and its size is exponential in it.\<close>

fun levels :: "nat \<Rightarrow> tr \<Rightarrow> bool" where
  "levels n (Lf x sk ks vs) \<longleftrightarrow> n = 0"
| "levels n (In x w sk ks cs) \<longleftrightarrow> 0 < n \<and> cs \<noteq> [] \<and> (\<forall>c\<in>set cs. levels (n - 1) c)"

lemma levels_sub: "strict_sub a b n t \<Longrightarrow> 0 < a \<Longrightarrow> levels n t"
  by (induction t arbitrary: n) auto

lemma levels_root: "strict_root a b n R \<Longrightarrow> 0 < a \<Longrightarrow> levels n R"
  by (cases R) (auto intro: levels_sub)

lemma spath_levels:
  "levels n t \<Longrightarrow> coh dg h t \<Longrightarrow> length (spath k t) = n + 1"
proof (induction t arbitrary: n)
  case (In x w sk ks cs)
  have i: "inner_at dg h x w sk ks (map rt cs)" using In.prems by simp
  have m: "cs ! cidx k ks \<in> set cs" using inner_at_child(3) [OF i, of k] by simp
  then show ?case
    using In.IH [OF m, of "n - 1"] In.prems spaths_nth [OF coh_length [OF In.prems(2)], of k] by simp
qed simp

lemma strict_root_keys:
  assumes "strict_root a b n R" "0 < n"
  shows "2 * a ^ n \<le> length (tcontent R)"
proof (cases R)
  case (Lf x sk' ks vs)
  then show ?thesis using assms by simp
next
  case (In x w sk' ks cs)
  have "\<forall>c\<in>set cs. a ^ n \<le> length (tcontent c)"
    using keys_strict [of a b "n - 1"] assms In by auto
  then have "length cs * a ^ n \<le> sum_list (map (\<lambda>c. length (tcontent c)) cs)" by (rule sum_list_ge)
  moreover have "2 * a ^ n \<le> length cs * a ^ n" using assms(1) In by (intro mult_right_mono) auto
  ultimately have "2 * a ^ n \<le> sum_list (map (\<lambda>c. length (tcontent c)) cs)" by (rule le_trans [rotated])
  then show ?thesis using In by (simp add: length_concat comp_def)
qed

end
