(* ===== verification/AbTree_Seq.thy ===== *)
theory AbTree_Seq
  imports AbTree_Quiet "HOL-Library.Signed_Division"
begin

text \<open>
  The sequential functions of the (a,b)-tree: sizes, counts of nodes, height, depths, the sum of the
  keys that the test harness validates, and the destructor. Each walks the tree of a heap that nobody
  changes. The first argument is fuel, one unit per level of recursion; a null pointer is address 0.

  Every result is an \<open>int\<close> in the code. The counts of keys, of nodes and of levels are natural
  numbers here, the same numbers as long as the tree has less than \<open>2 ^ 31\<close> keys and nodes. The sum
  of the depths, which is much larger than the number of keys, and the quotient that is made of it
  are computed at their width, on words of 32 bits that wrap around (in the language the overflow
  of a signed integer is undefined).
\<close>

subsection \<open>The functions\<close>

text \<open>The loop over the children, with an accumulated sum.\<close>

definition kids :: "ab_node \<Rightarrow> addr list" where
  "kids n = map (\<lambda>i. ab_ptrs n ! i) [0..<getABDegree n]"

fun sum_loop :: "('a \<Rightarrow> 'n::comm_monoid_add option) \<Rightarrow> 'a list \<Rightarrow> 'n \<Rightarrow> 'n option" where
  "sum_loop f [] acc = Some acc"
| "sum_loop f (x # xs) acc = (case f x of None \<Rightarrow> None | Some v \<Rightarrow> sum_loop f xs (acc + v))"

fun sequentialSize :: "nat \<Rightarrow> ab_heap \<Rightarrow> addr \<Rightarrow> nat option" where
  "sequentialSize 0 h x = None"
| "sequentialSize (Suc m) h x =
     (if ab_leaf (nd h x) then Some (getKeyCount (nd h x))
      else sum_loop (sequentialSize m h) (kids (nd h x)) 0)"

fun getNumberOfLeaves :: "nat \<Rightarrow> ab_heap \<Rightarrow> addr \<Rightarrow> nat option" where
  "getNumberOfLeaves 0 h x = None"
| "getNumberOfLeaves (Suc m) h x =
     (if x = 0 then Some 0
      else if ab_leaf (nd h x) then Some 1
      else sum_loop (getNumberOfLeaves m h) (kids (nd h x)) 0)"

fun getNumberOfInternals :: "nat \<Rightarrow> ab_heap \<Rightarrow> addr \<Rightarrow> nat option" where
  "getNumberOfInternals 0 h x = None"
| "getNumberOfInternals (Suc m) h x =
     (if x = 0 then Some 0
      else if ab_leaf (nd h x) then Some 0
      else sum_loop (getNumberOfInternals m h) (kids (nd h x)) 1)"

definition getNumberOfNodes :: "nat \<Rightarrow> ab_heap \<Rightarrow> addr \<Rightarrow> nat option" where
  "getNumberOfNodes m h e =
     (let r = ab_ptrs (nd h e) ! 0
      in case (getNumberOfLeaves m h r, getNumberOfInternals m h r) of
           (Some l, Some i) \<Rightarrow> Some (l + i)
         | _ \<Rightarrow> None)"

fun getSumOfKeyDepths :: "nat \<Rightarrow> ab_heap \<Rightarrow> addr \<Rightarrow> 32 word \<Rightarrow> 32 word option" where
  "getSumOfKeyDepths 0 h x depth = None"
| "getSumOfKeyDepths (Suc m) h x depth =
     (if x = 0 then Some 0
      else if ab_leaf (nd h x) then Some (depth * word_of_nat (getKeyCount (nd h x)))
      else sum_loop (\<lambda>c. getSumOfKeyDepths m h c (1 + depth)) (kids (nd h x)) 0)"

text \<open>
  The size is converted to \<open>long\<close>, and so is the sum; the quotient is that of integers, and only
  its result is converted to floating point.
\<close>

definition getAverageKeyDepth :: "nat \<Rightarrow> ab_heap \<Rightarrow> addr \<Rightarrow> int option" where
  "getAverageKeyDepth m h e =
     (let r = ab_ptrs (nd h e) ! 0
      in case sequentialSize m h r of
           None \<Rightarrow> None
         | Some retval \<Rightarrow>
             (let sz = sint (word_of_nat retval :: 32 word)
              in if sz = 0 then Some 0 else map_option (\<lambda>d. sint d sdiv sz) (getSumOfKeyDepths m h r 0)))"

fun max_loop :: "('a \<Rightarrow> nat option) \<Rightarrow> 'a list \<Rightarrow> nat \<Rightarrow> nat option" where
  "max_loop f [] result = Some result"
| "max_loop f (x # xs) result =
     (case f x of None \<Rightarrow> None | Some retval \<Rightarrow> max_loop f xs (if retval > result then retval else result))"

fun getHeight :: "nat \<Rightarrow> ab_heap \<Rightarrow> addr \<Rightarrow> nat \<Rightarrow> nat option" where
  "getHeight 0 h x depth = None"
| "getHeight (Suc m) h x depth =
     (if x = 0 then Some 0
      else if ab_leaf (nd h x) then Some 0
      else map_option (\<lambda>result. result + 1) (max_loop (\<lambda>c. getHeight m h c (1 + depth)) (kids (nd h x)) 0))"

fun getKeyCountBelow :: "nat \<Rightarrow> ab_heap \<Rightarrow> addr \<Rightarrow> nat option" where
  "getKeyCountBelow 0 h x = None"
| "getKeyCountBelow (Suc m) h x =
     (if x = 0 then Some 0
      else if ab_leaf (nd h x) then Some (getKeyCount (nd h x))
      else sum_loop (getKeyCountBelow m h) (kids (nd h x)) 0)"

fun getTotalDegree :: "nat \<Rightarrow> ab_heap \<Rightarrow> addr \<Rightarrow> nat option" where
  "getTotalDegree 0 h x = None"
| "getTotalDegree (Suc m) h x =
     (if x = 0 then Some 0
      else let s = getKeyCount (nd h x)
           in if ab_leaf (nd h x) then Some s
              else map_option (\<lambda>v. 1 + v) (sum_loop (getTotalDegree m h) (kids (nd h x)) s))"

fun getNodeCount :: "nat \<Rightarrow> ab_heap \<Rightarrow> addr \<Rightarrow> nat option" where
  "getNodeCount 0 h x = None"
| "getNodeCount (Suc m) h x =
     (if x = 0 then Some 0
      else if ab_leaf (nd h x) then Some 1
      else sum_loop (getNodeCount m h) (kids (nd h x)) 1)"

fun getSumOfKeys :: "nat \<Rightarrow> ab_heap \<Rightarrow> addr \<Rightarrow> int option" where
  "getSumOfKeys 0 h x = None"
| "getSumOfKeys (Suc m) h x =
     (if ab_leaf (nd h x)
      then sum_loop (\<lambda>i. Some (ab_keys (nd h x) ! i)) [0..<getKeyCount (nd h x)] 0
      else sum_loop (getSumOfKeys m h) (kids (nd h x)) 0)"

definition ab_validate :: "nat \<Rightarrow> ab_heap \<Rightarrow> addr \<Rightarrow> int \<Rightarrow> bool \<Rightarrow> bool option" where
  "ab_validate m h e keysum checkkeysum =
     (if checkkeysum then map_option (\<lambda>treekeysum. treekeysum = keysum) (getSumOfKeys m h e) else Some True)"

text \<open>The destructor: the counter of nodes and the nodes given to the allocator, in this order.\<close>

fun free_loop :: "('a \<Rightarrow> 's \<Rightarrow> 's option) \<Rightarrow> 'a list \<Rightarrow> 's \<Rightarrow> 's option" where
  "free_loop f [] st = Some st"
| "free_loop f (x # xs) st = (case f x st of None \<Rightarrow> None | Some st' \<Rightarrow> free_loop f xs st')"

fun freeSubtree :: "nat \<Rightarrow> ab_heap \<Rightarrow> addr \<Rightarrow> nat \<times> addr list \<Rightarrow> (nat \<times> addr list) option" where
  "freeSubtree 0 h x st = None"
| "freeSubtree (Suc m) h x st =
     (if x = 0 then Some st
      else case (if \<not> ab_leaf (nd h x) then free_loop (freeSubtree m h) (kids (nd h x)) st else Some st) of
             None \<Rightarrow> None
           | Some (nodes, freed) \<Rightarrow> Some (nodes + 1, freed @ [x]))"

subsection \<open>Sums over the tree\<close>

lemma sum_loop_eq:
  "\<forall>x\<in>set xs. f x = Some (g x) \<Longrightarrow> sum_loop f xs acc = Some (acc + sum_list (map g xs))"
  by (induction xs arbitrary: acc) (auto simp: add.assoc)

lemma kids_eq: "inner_at dg h x w sk ks ps \<Longrightarrow> kids (nd h x) = ps"
  using inner_at_nth [of dg h x w sk ks ps] by (intro nth_equalityI) (auto simp: kids_def)

fun tsum :: "(ab_node \<Rightarrow> 'n::comm_monoid_add) \<Rightarrow> (ab_node \<Rightarrow> 'n) \<Rightarrow> ab_heap \<Rightarrow> tr \<Rightarrow> 'n" where
  "tsum lv iv h (Lf x sk ks vs) = lv (nd h x)"
| "tsum lv iv h (In x w sk ks cs) = iv (nd h x) + sum_list (map (tsum lv iv h) cs)"

lemma length_addrs_child: "c \<in> set cs \<Longrightarrow> length (addrs c) \<le> length (concat (map addrs cs))"
  by (induction cs) auto

text \<open>A recursive function that adds up a value of every leaf and of every internal node.\<close>

locale tree_sum =
  fixes F :: "nat \<Rightarrow> ab_heap \<Rightarrow> addr \<Rightarrow> 'n::comm_monoid_add option"
    and lv iv :: "ab_node \<Rightarrow> 'n"
  assumes at_leaf: "x \<noteq> 0 \<Longrightarrow> ab_leaf (nd h x) \<Longrightarrow> F (Suc m) h x = Some (lv (nd h x))"
    and at_inner: "x \<noteq> 0 \<Longrightarrow> \<not> ab_leaf (nd h x) \<Longrightarrow> \<forall>c\<in>set (kids (nd h x)). F m h c = Some (g c) \<Longrightarrow>
      F (Suc m) h x = Some (iv (nd h x) + sum_list (map g (kids (nd h x))))"
begin

lemma walk:
  "coh dg h t \<Longrightarrow> 0 \<notin> set (addrs t) \<Longrightarrow> length (addrs t) \<le> m \<Longrightarrow> F m h (rt t) = Some (tsum lv iv h t)"
proof (induction t arbitrary: m)
  case (Lf x sk ks vs)
  then obtain m' where "m = Suc m'" by (cases m) auto
  then show ?case using Lf at_leaf [of x h] by (auto simp: leaf_at_def)
next
  case (In x w sk ks cs)
  then obtain m' where m: "m = Suc m'" by (cases m) auto
  have i: "inner_at dg h x w sk ks (map rt cs)" using In.prems by simp
  then have nl: "\<not> ab_leaf (nd h x)" by (auto simp: inner_at_def)
  have c: "F m' h (rt c) = Some (tsum lv iv h c)" if "c \<in> set cs" for c
    using In.IH [OF that, of m'] In.prems m that length_addrs_child [OF that] by auto
  define g where "g y = the (F m' h y)" for y
  have "\<forall>y\<in>set (kids (nd h x)). F m' h y = Some (g y)" using c by (auto simp: kids_eq [OF i] g_def)
  then have "F m h x = Some (iv (nd h x) + sum_list (map g (kids (nd h x))))"
    using at_inner [where x = x and h = h and m = m' and g = g] nl In.prems m by simp
  moreover have "map g (kids (nd h x)) = map (tsum lv iv h) cs" using c by (simp add: kids_eq [OF i] g_def)
  ultimately show ?case by simp
qed

end

interpretation seq_size: tree_sum sequentialSize getKeyCount "\<lambda>_. 0"
  by unfold_locales (auto dest: sum_loop_eq [where acc = 0])

interpretation leaves: tree_sum getNumberOfLeaves "\<lambda>_. 1" "\<lambda>_. 0"
  by unfold_locales (auto dest: sum_loop_eq [where acc = 0])

interpretation internals: tree_sum getNumberOfInternals "\<lambda>_. 0" "\<lambda>_. 1"
  by unfold_locales (auto dest: sum_loop_eq [where acc = 1])

interpretation key_count: tree_sum getKeyCountBelow getKeyCount "\<lambda>_. 0"
  by unfold_locales (auto dest: sum_loop_eq [where acc = 0])

interpretation total_degree: tree_sum getTotalDegree getKeyCount "\<lambda>n. Suc (getKeyCount n)"
proof unfold_locales
  fix x h m and g :: "addr \<Rightarrow> nat"
  assume "x \<noteq> 0" "\<not> ab_leaf (nd h x)" and c: "\<forall>c\<in>set (kids (nd h x)). getTotalDegree m h c = Some (g c)"
  then show "getTotalDegree (Suc m) h x = Some (Suc (getKeyCount (nd h x)) + sum_list (map g (kids (nd h x))))"
    using sum_loop_eq [OF c] by simp
qed simp

interpretation node_count: tree_sum getNodeCount "\<lambda>_. 1" "\<lambda>_. 1"
  by unfold_locales (auto dest: sum_loop_eq [where acc = 1])

definition sum_keys :: "ab_node \<Rightarrow> int" where
  "sum_keys n = sum_list (map (\<lambda>i. ab_keys n ! i) [0..<getKeyCount n])"

interpretation key_sum: tree_sum getSumOfKeys sum_keys "\<lambda>_. 0"
proof unfold_locales
  have s: "sum_loop (\<lambda>i. Some (f i)) xs acc = Some (acc + sum_list (map f xs))" for f :: "nat \<Rightarrow> int" and xs acc
    by (rule sum_loop_eq) simp
  show "getSumOfKeys (Suc m) h x = Some (sum_keys (nd h x))" if "x \<noteq> 0" "ab_leaf (nd h x)" for x h m
    using that s by (simp add: sum_keys_def)
qed (auto dest: sum_loop_eq [where acc = 0])

subsection \<open>What the sums are\<close>

lemma sum_list_nested: "sum_list (concat xss) = sum_list (map sum_list xss)" for xss :: "'n::comm_monoid_add list list"
  by (induction xss) auto

lemma tsum_keys: "coh dg h t \<Longrightarrow> tsum getKeyCount (\<lambda>_. 0) h t = length (tcontent t)"
proof (induction t)
  case (Lf x sk ks vs)
  then have l: "leaf_at dg h x sk ks vs" by simp
  then have "getKeyCount (nd h x) = length ks" by (auto simp: leaf_at_def node_okD(1))
  then show ?case using leaf_at_length [OF l] by simp
next
  case (In x w sk ks cs)
  have "sum_list (map (tsum getKeyCount (\<lambda>_. 0) h) cs) = sum_list (map (\<lambda>c. length (tcontent c)) cs)"
    using In by (intro arg_cong [where f = sum_list] map_cong) auto
  then show ?case by (simp add: length_concat comp_def)
qed

lemma tsum_nodes: "tsum (\<lambda>_. 1) (\<lambda>_. 1) h t = length (addrs t)"
  "tsum (\<lambda>_. 1) (\<lambda>_. 0) h t + tsum (\<lambda>_. 0) (\<lambda>_. 1) h t = length (addrs t)"
proof (induction t)
  case (In x w sk ks cs)
  let ?S = "\<lambda>lv iv. sum_list (map (tsum lv iv h) cs) :: nat"
  have "sum_list (map (tsum (\<lambda>_. 1) (\<lambda>_. 1) h) cs) = sum_list (map (\<lambda>c. length (addrs c)) cs)"
    using In by (intro arg_cong [where f = sum_list] map_cong) auto
  then show "tsum (\<lambda>_. 1) (\<lambda>_. 1) h (In x w sk ks cs) = length (addrs (In x w sk ks cs))"
    by (simp add: length_concat comp_def)
  have "\<forall>c\<in>set cs. tsum (\<lambda>_. 1) (\<lambda>_. 0) h c + tsum (\<lambda>_. 0) (\<lambda>_. 1) h c = length (addrs c)" using In(2) by blast
  then have "?S (\<lambda>_. 1) (\<lambda>_. 0) + ?S (\<lambda>_. 0) (\<lambda>_. 1) = sum_list (map (\<lambda>c. length (addrs c)) cs)"
    by (induction cs) auto
  then show "tsum (\<lambda>_. 1) (\<lambda>_. 0) h (In x w sk ks cs) + tsum (\<lambda>_. 0) (\<lambda>_. 1) h (In x w sk ks cs)
      = length (addrs (In x w sk ks cs))" by (simp add: length_concat comp_def)
qed simp_all

text \<open>Every node but the first is the child of one node.\<close>

lemma tsum_degrees:
  "coh dg h t \<Longrightarrow> Suc (tsum getKeyCount (\<lambda>n. Suc (getKeyCount n)) h t) = length (tcontent t) + length (addrs t)"
proof (induction t)
  case (Lf x sk ks vs)
  then show ?case using tsum_keys [OF Lf] by simp
next
  case (In x w sk ks cs)
  have i: "inner_at dg h x w sk ks (map rt cs)" using In.prems by simp
  have "getKeyCount (nd h x) = length ks" using i by (auto simp: inner_at_def node_okD(1))
  then have kc: "Suc (getKeyCount (nd h x)) = length cs" using coh_length [OF In.prems] by simp
  let ?f = "tsum getKeyCount (\<lambda>n. Suc (getKeyCount n)) h"
  have "\<forall>c\<in>set cs. Suc (?f c) = length (tcontent c) + length (addrs c)" using In by simp
  then have "length cs + sum_list (map ?f cs)
      = sum_list (map (\<lambda>c. length (tcontent c)) cs) + sum_list (map (\<lambda>c. length (addrs c)) cs)"
    by (induction cs) auto
  then show ?case using kc by (simp add: length_concat comp_def)
qed

lemma tsum_sum: "coh dg h t \<Longrightarrow> tsum sum_keys (\<lambda>_. 0) h t = sum_list (map fst (tcontent t))"
proof (induction t)
  case (Lf x sk ks vs)
  then have l: "leaf_at dg h x sk ks vs" by simp
  then obtain n where n: "h x = Some n" "node_ok dg n" "akeys n = ks" by (auto simp: leaf_at_def)
  have "map (\<lambda>i. ab_keys n ! i) [0..<getKeyCount n] = ks"
    using n(3) node_okD(1) [OF n(2)] by (intro nth_equalityI) (auto simp: akeys_nth)
  then show ?case using n leaf_at_length [OF l] by (simp add: sum_keys_def)
next
  case (In x w sk ks cs)
  have "sum_list (map (tsum sum_keys (\<lambda>_. 0) h) cs) = sum_list (map (\<lambda>c. sum_list (map fst (tcontent c))) cs)"
    using In by (intro arg_cong [where f = sum_list] map_cong) auto
  then show ?case by (simp add: map_concat comp_def sum_list_nested)
qed

lemma dict_sums:
  assumes "good dg e T"
  shows "card (dom (dict T)) = length (tcontent T)" "\<Sum> (dom (dict T)) = sum_list (map fst (tcontent T))"
proof -
  have "sorted_wrt (<) (map fst (tcontent T))"
    using sorted_tcontent(1) [of None None T dg] assms by (simp add: good_def)
  then have d: "distinct (map fst (tcontent T))" by (simp add: strict_sorted_iff)
  have s: "dom (dict T) = set (map fst (tcontent T))" by (simp add: dict_def dom_map_of_conv_image_fst)
  show "card (dom (dict T)) = length (tcontent T)" unfolding s distinct_card [OF d] by simp
  show "\<Sum> (dom (dict T)) = sum_list (map fst (tcontent T))"
    unfolding s using sum_list_distinct_conv_sum_set [OF d, of "\<lambda>k. k"] by simp
qed

subsection \<open>Counts\<close>

lemma reach_tree:
  assumes "3 \<le> dg" "ab_reach dg s" "cur s 0 = None"
  obtains T sk R where "holds dg (ab_entry s) (cur s) T" "T = In (ab_entry s) True sk [] [R]" "coh dg (cur s) T"
    "coh dg (cur s) R" "good dg (ab_entry s) T" "ab_ptrs (nd (cur s) (ab_entry s)) ! 0 = rt R"
    "0 \<notin> set (addrs T)" "0 \<notin> set (addrs R)" "length (addrs T) = Suc (length (addrs R))"
proof -
  obtain Ts where "ab_inv dg s Ts" using ab_reach_inv [OF assms(2,1)] by blast
  then have h: "hinv dg (ab_entry s) (ab_hist s) Ts" by (simp add: ab_inv_def)
  obtain sk R where R: "last Ts = In (ab_entry s) True sk [] [R]"
    "inner_at dg (cur s) (ab_entry s) True sk [] [rt R]" "coh dg (cur s) R"
    by (rule root_parts [OF h])
  have H: "holds dg (ab_entry s) (cur s) (last Ts)" by (rule hinv_holds(1) [OF h])
  then have c: "coh dg (cur s) (last Ts)" "good dg (ab_entry s) (last Ts)" by (simp_all add: holds_def)
  have z: "0 \<notin> set (addrs (last Ts))"
  proof
    assume "0 \<in> set (addrs (last Ts))"
    then show False using coh_dom [OF c(1)] assms(3) by fastforce
  qed
  show ?thesis
    by (rule that [OF H R(1) c(1) R(3) c(2) _ z]) (use inner_at_nth(2) [OF R(2), of 0] z R(1) in simp_all)
qed

lemma size_of_map:
  assumes "3 \<le> dg" "ab_reach dg s" "cur s 0 = None" "holds dg (ab_entry s) (cur s) T" "length (addrs T) \<le> m"
  shows "sequentialSize m (cur s) (ab_ptrs (nd (cur s) (ab_entry s)) ! 0) = Some (card (dom (dict T)))"
proof -
  obtain T' sk R where r: "holds dg (ab_entry s) (cur s) T'" "T' = In (ab_entry s) True sk [] [R]" "coh dg (cur s) R"
    "good dg (ab_entry s) T'" "ab_ptrs (nd (cur s) (ab_entry s)) ! 0 = rt R" "0 \<notin> set (addrs R)"
    "length (addrs T') = Suc (length (addrs R))"
    by (rule reach_tree [OF assms(1-3)])
  have "T' = T" by (rule holds_unique [OF r(1) assms(4)])
  then have m: "length (addrs R) \<le> m" using assms(5) r(7) by simp
  show ?thesis
    using seq_size.walk [OF r(3,6) m] tsum_keys [OF r(3)] dict_sums(1) [OF r(4)] r(2,5) \<open>T' = T\<close> by simp
qed

text \<open>
  C7. The counting functions of the (a,b)-tree agree. While the heap does not change, and with fuel
  for the nodes of the tree: \<open>sequentialSize\<close> below the entry and \<open>getKeyCount\<close> both return the
  number of keys of the map, \<open>getNumberOfNodes\<close>, which adds leaves and internal nodes, returns one
  less than \<open>getNodeCount\<close>, which also counts the entry, and \<open>getTotalDegree\<close> is the number of
  keys and nodes below the entry together.
\<close>

theorem abtree_counts_agree:
  assumes "3 \<le> dg" "ab_reach dg s" "cur s 0 = None"
  shows "\<exists>T n. holds dg (ab_entry s) (cur s) T \<and> (\<forall>m\<ge>Suc n.
       sequentialSize m (cur s) (ab_ptrs (nd (cur s) (ab_entry s)) ! 0) = Some (card (dom (dict T)))
     \<and> getKeyCountBelow m (cur s) (ab_entry s) = Some (card (dom (dict T)))
     \<and> getNumberOfNodes m (cur s) (ab_entry s) = Some n
     \<and> getNodeCount m (cur s) (ab_entry s) = Some (Suc n)
     \<and> getTotalDegree m (cur s) (ab_entry s) = Some (card (dom (dict T)) + n))"
proof -
  let ?h = "cur s" and ?e = "ab_entry s"
  obtain T sk R where r: "holds dg ?e ?h T" "T = In ?e True sk [] [R]" "coh dg ?h T" "coh dg ?h R" "good dg ?e T"
    "ab_ptrs (nd ?h ?e) ! 0 = rt R" "0 \<notin> set (addrs T)" "0 \<notin> set (addrs R)" "length (addrs T) = Suc (length (addrs R))"
    by (rule reach_tree [OF assms])
  define n where "n = length (addrs R)"
  have n: "length (addrs T) = Suc n" "tcontent T = tcontent R" "rt T = ?e" using r(2,9) by (simp_all add: n_def)
  note c = dict_sums(1) [OF r(5)]
  have "sequentialSize m ?h (ab_ptrs (nd ?h ?e) ! 0) = Some (card (dom (dict T)))
     \<and> getKeyCountBelow m ?h ?e = Some (card (dom (dict T))) \<and> getNumberOfNodes m ?h ?e = Some n
     \<and> getNodeCount m ?h ?e = Some (Suc n) \<and> getTotalDegree m ?h ?e = Some (card (dom (dict T)) + n)"
    if m: "Suc n \<le> m" for m
  proof (intro conjI)
    have mR: "length (addrs R) \<le> m" "length (addrs T) \<le> m" using m n(1) by (simp_all add: n_def)
    show "sequentialSize m ?h (ab_ptrs (nd ?h ?e) ! 0) = Some (card (dom (dict T)))"
      using seq_size.walk [OF r(4,8) mR(1)] tsum_keys [OF r(4)] r(6) c n(2) by simp
    show "getKeyCountBelow m ?h ?e = Some (card (dom (dict T)))"
      using key_count.walk [OF r(3,7) mR(2)] tsum_keys [OF r(3)] n(3) c by simp
    show "getNumberOfNodes m ?h ?e = Some n"
      using leaves.walk [OF r(4,8) mR(1)] internals.walk [OF r(4,8) mR(1)] tsum_nodes(2) [of ?h R] r(6)
      by (simp add: getNumberOfNodes_def n_def)
    show "getNodeCount m ?h ?e = Some (Suc n)"
      using node_count.walk [OF r(3,7) mR(2)] tsum_nodes(1) [of ?h T] n(1,3) by simp
    show "getTotalDegree m ?h ?e = Some (card (dom (dict T)) + n)"
      using total_degree.walk [OF r(3,7) mR(2)] tsum_degrees [OF r(3)] n(1,3) c by simp
  qed
  then show ?thesis using r(1) by blast
qed

text \<open>
  What the test harness validates: \<open>getSumOfKeys\<close> returns the sum of the keys in the map, so
  \<open>validate\<close> with a key sum succeeds exactly when it is that sum; without the check it always does.
\<close>

lemma abtree_validate_exact:
  assumes "3 \<le> dg" "ab_reach dg s" "cur s 0 = None"
  shows "\<exists>T. holds dg (ab_entry s) (cur s) T \<and> (\<forall>m\<ge>length (addrs T). \<forall>keysum check.
      ab_validate m (cur s) (ab_entry s) keysum check = Some (\<not> check \<or> keysum = \<Sum> (dom (dict T))))"
proof -
  let ?h = "cur s" and ?e = "ab_entry s"
  obtain T sk R where r: "holds dg ?e ?h T" "T = In ?e True sk [] [R]" "coh dg ?h T" "coh dg ?h R" "good dg ?e T"
    "ab_ptrs (nd ?h ?e) ! 0 = rt R" "0 \<notin> set (addrs T)" "0 \<notin> set (addrs R)" "length (addrs T) = Suc (length (addrs R))"
    by (rule reach_tree [OF assms])
  then have rT: "rt T = ?e" by simp
  have "ab_validate m ?h ?e keysum check = Some (\<not> check \<or> keysum = \<Sum> (dom (dict T)))"
    if "length (addrs T) \<le> m" for m keysum check
    using key_sum.walk [OF r(3,7) that] tsum_sum [OF r(3)] rT dict_sums(2) [OF r(5)] by (auto simp: ab_validate_def)
  then show ?thesis using r(1) by blast
qed

subsection \<open>Height and depths\<close>

lemma max_loop_const:
  "\<forall>x\<in>set xs. f x = Some v \<Longrightarrow> max_loop f xs r = Some (if xs = [] then r else max v r)"
proof (induction xs arbitrary: r)
  case (Cons x xs)
  then show ?case by (cases xs) (auto simp: max_def)
qed simp

lemma word_sum_list: "word_of_nat (sum_list (map f xs)) = sum_list (map (\<lambda>x. word_of_nat (f x)) xs)"
  by (induction xs) simp_all

lemma sint_small: "n < 2 ^ 31 \<Longrightarrow> sint (word_of_nat n :: 32 word) = int n"
  by (simp add: signed_of_nat signed_take_bit_int_eq_self)

lemma average_of:
  assumes "Suc n * c < 2 ^ 31" "0 < c"
  shows "sint (word_of_nat c :: 32 word) \<noteq> 0"
    "sint (word_of_nat (n * c) :: 32 word) sdiv sint (word_of_nat c :: 32 word) = int n"
proof -
  have "n * c \<le> Suc n * c" "c \<le> Suc n * c" by simp_all
  then have "n * c < 2 ^ 31" "c < 2 ^ 31" using assms(1) by linarith+
  then have s: "sint (word_of_nat (n * c) :: 32 word) = int (n * c)" "sint (word_of_nat c :: 32 word) = int c"
    by (simp_all only: sint_small)
  show "sint (word_of_nat c :: 32 word) \<noteq> 0" using s(2) assms(2) by simp
  show "sint (word_of_nat (n * c) :: 32 word) sdiv sint (word_of_nat c :: 32 word) = int n"
    unfolding s using assms(2) by (auto simp: signed_divide_int_def sgn_if)
qed

lemma height_levels:
  "levels n t \<Longrightarrow> coh dg h t \<Longrightarrow> 0 \<notin> set (addrs t) \<Longrightarrow> length (addrs t) \<le> m \<Longrightarrow>
   getHeight m h (rt t) d' = Some n
     \<and> getSumOfKeyDepths m h (rt t) d = Some ((d + word_of_nat n) * word_of_nat (length (tcontent t)))"
proof (induction t arbitrary: n m d d')
  case (Lf x sk ks vs)
  then obtain m' where "m = Suc m'" by (cases m) auto
  moreover have l: "leaf_at dg h x sk ks vs" using Lf by simp
  then have "getKeyCount (nd h x) = length ks" "ab_leaf (nd h x)" by (auto simp: leaf_at_def node_okD(1))
  ultimately show ?case using Lf leaf_at_length [OF l] by simp
next
  case (In x w sk ks cs)
  then obtain m' where m: "m = Suc m'" by (cases m) auto
  have i: "inner_at dg h x w sk ks (map rt cs)" using In.prems by simp
  then have nl: "\<not> ab_leaf (nd h x)" by (auto simp: inner_at_def)
  have x0: "x \<noteq> 0" using In.prems by auto
  have n: "0 < n" "cs \<noteq> []" using In.prems(1) by auto
  have "word_of_nat n = (word_of_nat (Suc (n - 1)) :: 32 word)" using n(1) by simp
  then have dn: "1 + d + word_of_nat (n - 1) = d + word_of_nat n" by simp
  have c: "getHeight m' h (rt c) (1 + d') = Some (n - 1)
      \<and> getSumOfKeyDepths m' h (rt c) (1 + d) = Some ((d + word_of_nat n) * word_of_nat (length (tcontent c)))"
    if "c \<in> set cs" for c
    using In.IH [OF that, of "n - 1" m' "1 + d'" "1 + d", unfolded dn] In.prems m that length_addrs_child [OF that] by auto
  have "max_loop (\<lambda>c. getHeight m' h c (1 + d')) (map rt cs) 0 = Some (n - 1)"
    using max_loop_const [of "map rt cs" "\<lambda>c. getHeight m' h c (1 + d')" "n - 1" 0] c n(2) by simp
  then have H: "getHeight m h x d' = Some n" using m x0 nl n(1) by (simp add: kids_eq [OF i])
  define g where "g y = the (getSumOfKeyDepths m' h y (1 + d))" for y
  have "\<forall>y\<in>set (map rt cs). getSumOfKeyDepths m' h y (1 + d) = Some (g y)" using c by (auto simp: g_def)
  then have "sum_loop (\<lambda>c. getSumOfKeyDepths m' h c (1 + d)) (map rt cs) 0 = Some (sum_list (map g (map rt cs)))"
    using sum_loop_eq [of "map rt cs" "\<lambda>c. getSumOfKeyDepths m' h c (1 + d)" g 0] by simp
  moreover have "sum_list (map g (map rt cs)) = sum_list (map (\<lambda>c. (d + word_of_nat n) * word_of_nat (length (tcontent c))) cs)"
    unfolding map_map using c by (intro arg_cong [where f = sum_list] map_cong) (auto simp: g_def)
  ultimately have "getSumOfKeyDepths m h x d = Some ((d + word_of_nat n) * word_of_nat (sum_list (map (\<lambda>c. length (tcontent c)) cs)))"
    using m x0 nl by (simp add: kids_eq [OF i] sum_list_const_mult word_sum_list)
  then show ?case using H by (simp add: length_concat comp_def)
qed

text \<open>
  C6. The height of the (a,b)-tree is logarithmic. When no operation is running, \<open>getHeight\<close> returns
  a number \<open>n\<close>; if \<open>n\<close> is positive, the map has at least \<open>2 * a ^ n\<close> keys, and if it is 0, the
  tree is a single leaf below the entry and the map has at most \<open>b\<close> keys. Every search visits the
  entry and \<open>n + 1\<close> more nodes. \<open>getSumOfKeyDepths\<close> is \<open>n\<close> times the number of keys, modulo
  \<open>2 ^ 32\<close>; if \<open>n + 1\<close> times the number of keys is below \<open>2 ^ 31\<close>, so that no \<open>int\<close> overflows,
  \<open>getAverageKeyDepth\<close> is \<open>n\<close>, and 0 for the empty map.
\<close>

theorem abtree_height_logarithmic:
  assumes "3 \<le> dg" "ab_reach dg s" "cur s 0 = None" "\<forall>t. ab_thr s t = []"
  shows "\<exists>T n. holds dg (ab_entry s) (cur s) T \<and> (0 < n \<longrightarrow> 2 * min_deg dg ^ n \<le> card (dom (dict T)))
     \<and> (n = 0 \<longrightarrow> card (dom (dict T)) \<le> dg) \<and> (\<forall>k. length (spath k T) = n + 2) \<and> (\<forall>m\<ge>length (addrs T).
       getHeight m (cur s) (ab_ptrs (nd (cur s) (ab_entry s)) ! 0) 0 = Some n
     \<and> getSumOfKeyDepths m (cur s) (ab_ptrs (nd (cur s) (ab_entry s)) ! 0) 0
         = Some (word_of_nat (n * card (dom (dict T))))
     \<and> (Suc n * card (dom (dict T)) < 2 ^ 31 \<longrightarrow>
         getAverageKeyDepth m (cur s) (ab_entry s) = Some (if dom (dict T) = {} then 0 else int n)))"
proof -
  let ?h = "cur s" and ?e = "ab_entry s"
  obtain T sk R where r: "holds dg ?e ?h T" "T = In ?e True sk [] [R]" "coh dg ?h T" "coh dg ?h R" "good dg ?e T"
    "ab_ptrs (nd ?h ?e) ! 0 = rt R" "0 \<notin> set (addrs T)" "0 \<notin> set (addrs R)" "length (addrs T) = Suc (length (addrs R))"
    by (rule reach_tree [OF assms(1-3)])
  obtain T' sk' R' n where q: "holds dg ?e ?h T'" "T' = In ?e True sk' [] [R']" "strict_root (min_deg dg) dg n R'"
    by (rule no_viols [OF assms(1,2,4)])
  have "R' = R" using holds_unique [OF q(1) r(1)] q(2) r(2) by simp
  then have s: "strict_root (min_deg dg) dg n R" using q(3) by simp
  then have l: "levels n R" using levels_root min_deg_bounds(1) [OF assms(1)] by fastforce
  note c = dict_sums(1) [OF r(5)]
  have ct: "tcontent T = tcontent R" using r(2) by simp
  have e: "dom (dict T) = {} \<longleftrightarrow> tcontent R = []" using ct by (simp add: dict_def dom_map_of_conv_image_fst)
  have sp: "length (spath k T) = n + 2" for k using spath_levels [OF l r(4), of k] r(2) by simp
  have z: "card (dom (dict T)) \<le> dg" if "n = 0" using s that ct c by (cases R) auto
  have H: "getHeight m ?h (ab_ptrs (nd ?h ?e) ! 0) 0 = Some n
     \<and> getSumOfKeyDepths m ?h (ab_ptrs (nd ?h ?e) ! 0) 0 = Some (word_of_nat (n * card (dom (dict T))))
     \<and> sequentialSize m ?h (ab_ptrs (nd ?h ?e) ! 0) = Some (card (dom (dict T)))" if "length (addrs T) \<le> m" for m
  proof -
    have m: "length (addrs R) \<le> m" using that r(9) by simp
    show ?thesis
      using height_levels [OF l r(4,8) m, of 0 0] seq_size.walk [OF r(4,8) m] tsum_keys [OF r(4)] r(6) c ct by simp
  qed
  have A: "getAverageKeyDepth m ?h ?e = Some (if dom (dict T) = {} then 0 else int n)"
    if "length (addrs T) \<le> m" "Suc n * card (dom (dict T)) < 2 ^ 31" for m
    using average_of H [OF that(1)] e c ct that(2) by (auto simp: getAverageKeyDepth_def Let_def)
  show ?thesis
    using r(1) sp strict_root_keys [OF s] c ct z H A by (intro exI [of _ T] exI [of _ n]) (auto split del: if_split)
qed

subsection \<open>The destructor\<close>

lemma free_walk:
  "coh dg h t \<Longrightarrow> 0 \<notin> set (addrs t) \<Longrightarrow> length (addrs t) \<le> m \<Longrightarrow>
   \<exists>fs. freeSubtree m h (rt t) (n, freed) = Some (n + length (addrs t), freed @ fs) \<and> mset fs = mset (addrs t)"
proof (induction t arbitrary: m n freed)
  case (Lf x sk ks vs)
  then obtain m' where "m = Suc m'" by (cases m) auto
  then show ?case using Lf by (auto simp: leaf_at_def)
next
  case (In x w sk ks cs)
  then obtain m' where m: "m = Suc m'" by (cases m) auto
  have i: "inner_at dg h x w sk ks (map rt cs)" using In.prems by simp
  then have nl: "\<not> ab_leaf (nd h x)" by (auto simp: inner_at_def)
  have c: "\<exists>fs. freeSubtree m' h (rt c) (n, freed) = Some (n + length (addrs c), freed @ fs) \<and> mset fs = mset (addrs c)"
    if "c \<in> set cs" for c n freed
    using In.IH [OF that, of m' n freed] In.prems m that length_addrs_child [OF that] by auto
  have "\<exists>fs. free_loop (freeSubtree m' h) (map rt ds) (n, freed) = Some (n + length (concat (map addrs ds)), freed @ fs)
      \<and> mset fs = mset (concat (map addrs ds))" if "set ds \<subseteq> set cs" for ds n freed
    using that
  proof (induction ds arbitrary: n freed)
    case (Cons d ds)
    obtain fs where 1: "freeSubtree m' h (rt d) (n, freed) = Some (n + length (addrs d), freed @ fs)" "mset fs = mset (addrs d)"
      using c [of d n freed] Cons.prems by auto
    obtain gs where 2: "free_loop (freeSubtree m' h) (map rt ds) (n + length (addrs d), freed @ fs)
        = Some (n + length (addrs d) + length (concat (map addrs ds)), (freed @ fs) @ gs)"
      "mset gs = mset (concat (map addrs ds))"
      using Cons.IH [of "n + length (addrs d)" "freed @ fs"] Cons.prems by auto
    show ?case using 1 2 by (intro exI [of _ "fs @ gs"]) (simp add: add.assoc)
  qed simp
  from this [OF subset_refl, of n freed] obtain fs where
    f: "free_loop (freeSubtree m' h) (map rt cs) (n, freed) = Some (n + length (concat (map addrs cs)), freed @ fs)"
    "mset fs = mset (concat (map addrs cs))" by blast
  show ?case using f In.prems m nl by (intro exI [of _ "fs @ [x]"]) (simp add: kids_eq [OF i])
qed

text \<open>
  C8. The destructor of the (a,b)-tree ends and gives every node of the tree, and no other, to the
  allocator exactly once; it counts them.
\<close>

theorem abtree_destroy_frees_each_once:
  assumes "3 \<le> dg" "ab_reach dg s" "cur s 0 = None"
  shows "\<exists>T. holds dg (ab_entry s) (cur s) T \<and> (\<forall>m\<ge>length (addrs T). \<exists>freed.
      freeSubtree m (cur s) (ab_entry s) (0, []) = Some (length freed, freed) \<and> distinct freed \<and> set freed = set (addrs T))"
proof -
  let ?h = "cur s" and ?e = "ab_entry s"
  obtain T sk R where r: "holds dg ?e ?h T" "T = In ?e True sk [] [R]" "coh dg ?h T" "coh dg ?h R" "good dg ?e T"
    "ab_ptrs (nd ?h ?e) ! 0 = rt R" "0 \<notin> set (addrs T)" "0 \<notin> set (addrs R)" "length (addrs T) = Suc (length (addrs R))"
    by (rule reach_tree [OF assms])
  have "\<exists>freed. freeSubtree m ?h ?e (0, []) = Some (length freed, freed) \<and> distinct freed \<and> set freed = set (addrs T)"
    if m: "length (addrs T) \<le> m" for m
  proof -
    obtain fs where f: "freeSubtree m ?h (rt T) (0, []) = Some (length (addrs T), fs)" "mset fs = mset (addrs T)"
      using free_walk [OF r(3,7) m, of 0 "[]"] by auto
    have "distinct fs" using r(5) mset_eq_imp_distinct_iff [OF f(2)] by (simp add: good_def)
    then show ?thesis using f mset_eq_setD [OF f(2)] mset_eq_length [OF f(2)] r(2) by auto
  qed
  then show ?thesis using r(1) by blast
qed

end
