(* ===== verification/AbTree_Run.thy ===== *)
theory AbTree_Run
  imports AbTree_Seq
begin

text \<open>
  A concrete run of the (a,b)-tree of degree 3: eight inserts and the first steps of three erases by
  two threads. It ends in a state the comments of the code exclude: \<open>fixDegreeViolation\<close> reads
  the pointer of a sibling that a parent of size one does not have.
\<close>

subsection \<open>Evaluating steps\<close>

lemma frame_step_ops:
  "frame_step dg e h n c (OpStart (OpFind k) i0) = find_step e h n (OpStart (OpFind k) i0)"
  "frame_step dg e h n c (OpSearch (OpFind k) i0 sr) = find_step e h n (OpSearch (OpFind k) i0 sr)"
  "frame_step dg e h n c (OpLeaf (OpFind k) i0 sr) = find_step e h n (OpLeaf (OpFind k) i0 sr)"
  "frame_step dg e h n c (OpEnd (OpFind k) i0 res) = find_step e h n (OpEnd (OpFind k) i0 res)"
  "frame_step dg e h n c (OpStart (OpInsert k v r) i0) = insert_step dg e h n c k v r (OpStart (OpInsert k v r) i0)"
  "frame_step dg e h n c (OpSearch (OpInsert k v r) i0 sr) = insert_step dg e h n c k v r (OpSearch (OpInsert k v r) i0 sr)"
  "frame_step dg e h n c (OpLeaf (OpInsert k v r) i0 sr) = insert_step dg e h n c k v r (OpLeaf (OpInsert k v r) i0 sr)"
  "frame_step dg e h n c (OpLlx (OpInsert k v r) i0 sr) = insert_step dg e h n c k v r (OpLlx (OpInsert k v r) i0 sr)"
  "frame_step dg e h n c (OpChk (OpInsert k v r) i0 sr x) = insert_step dg e h n c k v r (OpChk (OpInsert k v r) i0 sr x)"
  "frame_step dg e h n c (OpScx (OpInsert k v r) i0 sr x) = insert_step dg e h n c k v r (OpScx (OpInsert k v r) i0 sr x)"
  "frame_step dg e h n c (OpEnd (OpInsert k v r) i0 res) = insert_step dg e h n c k v r (OpEnd (OpInsert k v r) i0 res)"
  "frame_step dg e h n c (OpStart (OpErase k) i0) = erase_step dg e h n c k (OpStart (OpErase k) i0)"
  "frame_step dg e h n c (OpSearch (OpErase k) i0 sr) = erase_step dg e h n c k (OpSearch (OpErase k) i0 sr)"
  "frame_step dg e h n c (OpLeaf (OpErase k) i0 sr) = erase_step dg e h n c k (OpLeaf (OpErase k) i0 sr)"
  "frame_step dg e h n c (OpLlx (OpErase k) i0 sr) = erase_step dg e h n c k (OpLlx (OpErase k) i0 sr)"
  "frame_step dg e h n c (OpChk (OpErase k) i0 sr x) = erase_step dg e h n c k (OpChk (OpErase k) i0 sr x)"
  "frame_step dg e h n c (OpScx (OpErase k) i0 sr x) = erase_step dg e h n c k (OpScx (OpErase k) i0 sr x)"
  "frame_step dg e h n c (OpEnd (OpErase k) i0 res) = erase_step dg e h n c k (OpEnd (OpErase k) i0 res)"
  by (simp_all del: find_step.simps insert_step.simps erase_step.simps)

lemma frame_step_fix:
  "frame_step dg e h n c (FxStart FixWeight x) = weight_step dg e h n c (FxStart FixWeight x)"
  "frame_step dg e h n c (FxLlxViol FixWeight x) = weight_step dg e h n c (FxLlxViol FixWeight x)"
  "frame_step dg e h n c (FxLoop FixWeight x) = weight_step dg e h n c (FxLoop FixWeight x)"
  "frame_step dg e h n c (FxSearch FixWeight x sr) = weight_step dg e h n c (FxSearch FixWeight x sr)"
  "frame_step dg e h n c (FxFound FixWeight x sr) = weight_step dg e h n c (FxFound FixWeight x sr)"
  "frame_step dg e h n c (FxLlxGp FixWeight x sr) = weight_step dg e h n c (FxLlxGp FixWeight x sr)"
  "frame_step dg e h n c (FxChkP FixWeight x sr vg) = weight_step dg e h n c (FxChkP FixWeight x sr vg)"
  "frame_step dg e h n c (FxLlxP FixWeight x sr vg) = weight_step dg e h n c (FxLlxP FixWeight x sr vg)"
  "frame_step dg e h n c (FxChkL FixWeight x sr vg vp) = weight_step dg e h n c (FxChkL FixWeight x sr vg vp)"
  "frame_step dg e h n c (WLlxL x sr vg vp) = weight_step dg e h n c (WLlxL x sr vg vp)"
  "frame_step dg e h n c (WScx x sr vg vp vl) = weight_step dg e h n c (WScx x sr vg vp vl)"
  "frame_step dg e h n c (FxStart FixDegree x) = degree_step dg e h n c (FxStart FixDegree x)"
  "frame_step dg e h n c (FxLlxViol FixDegree x) = degree_step dg e h n c (FxLlxViol FixDegree x)"
  "frame_step dg e h n c (FxLoop FixDegree x) = degree_step dg e h n c (FxLoop FixDegree x)"
  "frame_step dg e h n c (FxSearch FixDegree x sr) = degree_step dg e h n c (FxSearch FixDegree x sr)"
  "frame_step dg e h n c (FxFound FixDegree x sr) = degree_step dg e h n c (FxFound FixDegree x sr)"
  "frame_step dg e h n c (FxLlxGp FixDegree x sr) = degree_step dg e h n c (FxLlxGp FixDegree x sr)"
  "frame_step dg e h n c (FxChkP FixDegree x sr vg) = degree_step dg e h n c (FxChkP FixDegree x sr vg)"
  "frame_step dg e h n c (FxLlxP FixDegree x sr vg) = degree_step dg e h n c (FxLlxP FixDegree x sr vg)"
  "frame_step dg e h n c (FxChkL FixDegree x sr vg vp) = degree_step dg e h n c (FxChkL FixDegree x sr vg vp)"
  "frame_step dg e h n c (DSib x sr vg vp) = degree_step dg e h n c (DSib x sr vg vp)"
  "frame_step dg e h n c (DLlxLeft x sr vg vp sb) = degree_step dg e h n c (DLlxLeft x sr vg vp sb)"
  "frame_step dg e h n c (DLlxRight x sr vg vp sb v1) = degree_step dg e h n c (DLlxRight x sr vg vp sb v1)"
  "frame_step dg e h n c (DScx x sr vg vp sb vlr) = degree_step dg e h n c (DScx x sr vg vp sb vlr)"
  by (simp_all del: weight_step.simps degree_step.simps)

abbreviation node :: "nat \<Rightarrow> bool \<Rightarrow> bool \<Rightarrow> bool \<Rightarrow> nat \<Rightarrow> int \<Rightarrow> int list \<Rightarrow> nat list \<Rightarrow> ab_node" where
  "node sp lf mk w sz sk ks ps \<equiv> \<lparr>ab_scxPtr = sp, ab_leaf = lf, ab_marked = mk, ab_weight = w, ab_size = sz,
     ab_searchKey = sk, ab_keys = ks, ab_ptrs = ps\<rparr>"

text \<open>The scheduler's choice at a step: nodes at three addresses from \<open>x\<close> on, filled with zeros.\<close>

definition fresh :: "nat \<Rightarrow> ab_choice" where
  "fresh x = (let g = node 0 False False False 0 0 [0, 0, 0] [0, 0, 0]
     in \<lparr>c_fail = False, c_a1 = x, c_a2 = x + 1, c_a3 = x + 2, c_g1 = g, c_g2 = g, c_g3 = g\<rparr>)"

lemma fresh_ok: "choice_ok 3 h (fresh x) \<longleftrightarrow> h x = None \<and> h (x + 1) = None \<and> h (x + 2) = None"
  by (auto simp: choice_ok_def fresh_def alloc_ok_def Let_def)

lemma fresh_sel:
  "c_fail (fresh x) = False" "c_a1 (fresh x) = x" "c_a2 (fresh x) = x + 1" "c_a3 (fresh x) = x + 2"
  "c_g1 (fresh x) = node 0 False False False 0 0 [0, 0, 0] [0, 0, 0]"
  "c_g2 (fresh x) = node 0 False False False 0 0 [0, 0, 0] [0, 0, 0]"
  "c_g3 (fresh x) = node 0 False False False 0 0 [0, 0, 0] [0, 0, 0]"
  by (simp_all add: fresh_def Let_def)

definition acts :: "nat \<Rightarrow> nat \<Rightarrow> nat \<Rightarrow> sched list" where
  "acts t x n = replicate n (Act t (fresh x))"

lemma acts_rec:
  "acts t x (numeral w) = Act t (fresh x) # acts t x (pred_numeral w)"
  "acts t x (Suc n) = Act t (fresh x) # acts t x n" "acts t x 0 = []" "acts t x 1 = [Act t (fresh x)]"
  by (simp_all add: acts_def numeral_eq_Suc)

lemma arraycopy_rec:
  "arraycopy src i dst j 0 = dst"
  "arraycopy src i dst j (Suc n) = arraycopy src (Suc i) (dst[j := src ! i]) (Suc j) n"
  "arraycopy src i dst j (numeral w) = arraycopy src (Suc i) (dst[j := src ! i]) (Suc j) (pred_numeral w)"
proof -
  show "arraycopy src i dst j 0 = dst" by (simp add: arraycopy_def)
  have s: "arraycopy src i dst j (Suc n) = arraycopy src (Suc i) (dst[j := src ! i]) (Suc j) n" for n
  proof -
    have "[0..<Suc n] = 0 # map Suc [0..<n]" by (simp only: map_Suc_upt upt_conv_Cons [OF zero_less_Suc])
    then show ?thesis by (simp only: arraycopy_def) (simp add: fold_map comp_def)
  qed
  show "arraycopy src i dst j (Suc n) = arraycopy src (Suc i) (dst[j := src ! i]) (Suc j) n" by (rule s)
  show "arraycopy src i dst j (numeral w) = arraycopy src (Suc i) (dst[j := src ! i]) (Suc j) (pred_numeral w)"
    by (simp only: numeral_eq_Suc s)
qed

lemma replicate_rec: "replicate (numeral w) x = x # replicate (pred_numeral w) x"
  by (simp add: numeral_eq_Suc)

lemma loop_eval:
  "r < n \<Longrightarrow> ks ! r < key \<Longrightarrow> key_loop key ks n r = key_loop key ks n (Suc r)"
  "r < n \<Longrightarrow> \<not> ks ! r < key \<Longrightarrow> key_loop key ks n r = r"
  "\<not> r < n \<Longrightarrow> key_loop key ks n r = r"
  "r < n \<Longrightarrow> \<not> key < ks ! r \<Longrightarrow> child_loop key ks n r = child_loop key ks n (Suc r)"
  "r < n \<Longrightarrow> key < ks ! r \<Longrightarrow> child_loop key ks n r = r"
  "\<not> r < n \<Longrightarrow> child_loop key ks n r = r"
  by (subst key_loop.simps child_loop.simps, simp)+

lemmas step_eval = loop_eval arraycopy_rec replicate_rec frame_step_ops frame_step_fix fresh_ok fresh_sel acts_rec Let_def start_search_def descend_def
  getChildIndex_def getKeyIndex_def getKeyCount_def key_at_def
  llx_def scxExecute_def freeze_def cas_field_def min_deg_def sib_ix_def sib_left_def sib_right_def

lemmas insert_eval = step_eval insert_scx_def mk_insert_def mk_overflow_def ins_keys_def ins_ptrs_def

lemmas weight_eval = insert_eval weight_scx_def mk_absorb_def mk_split_def merge_keys_def merge_ptrs_def

lemmas erase_eval = step_eval mk_erase_def degree_scx_def mk_newl_def mk_shrink_def cat_keys_def cat_ptrs_def

subsection \<open>The heaps between the operations\<close>

definition run_h0 :: ab_heap where
  "run_h0 = [2 \<mapsto> node 0 True False True 0 0 [0, 0, 0] [0, 0, 0], 1 \<mapsto> node 0 False False True 1 0 [0, 0, 0] [2, 0, 0]]"

lemma run_h0_app: "run_h0 x = (if x = 2 then Some (node 0 True False True 0 0 [0, 0, 0] [0, 0, 0]) else
     if x = 1 then Some (node 0 False False True 1 0 [0, 0, 0] [2, 0, 0]) else
     None)"
  by (simp add: run_h0_def)

definition run_h1 :: ab_heap where
  "run_h1 = run_h0(1 \<mapsto> node 1 False False True 1 0 [0, 0, 0] [3, 0, 0],
     3 \<mapsto> node 0 True False True 1 0 [1, 0, 0] [7, 0, 0])"

lemma run_h1_app: "run_h1 x = (if x = 1 then Some (node 1 False False True 1 0 [0, 0, 0] [3, 0, 0]) else
     if x = 3 then Some (node 0 True False True 1 0 [1, 0, 0] [7, 0, 0]) else
     run_h0 x)"
  by (simp add: run_h1_def)

definition run_h2 :: ab_heap where
  "run_h2 = run_h1(1 \<mapsto> node 2 False False True 1 0 [0, 0, 0] [6, 0, 0],
     6 \<mapsto> node 0 True False True 2 0 [1, 2, 0] [7, 7, 0])"

lemma run_h2_app: "run_h2 x = (if x = 1 then Some (node 2 False False True 1 0 [0, 0, 0] [6, 0, 0]) else
     if x = 6 then Some (node 0 True False True 2 0 [1, 2, 0] [7, 7, 0]) else
     run_h1 x)"
  by (simp add: run_h2_def)

definition run_h3 :: ab_heap where
  "run_h3 = run_h2(1 \<mapsto> node 3 False False True 1 0 [0, 0, 0] [9, 0, 0],
     9 \<mapsto> node 0 True False True 3 0 [1, 2, 3] [7, 7, 7])"

lemma run_h3_app: "run_h3 x = (if x = 1 then Some (node 3 False False True 1 0 [0, 0, 0] [9, 0, 0]) else
     if x = 9 then Some (node 0 True False True 3 0 [1, 2, 3] [7, 7, 7]) else
     run_h2 x)"
  by (simp add: run_h3_def)

definition run_h4 :: ab_heap where
  "run_h4 = run_h3(1 \<mapsto> node 4 False False True 1 0 [0, 0, 0] [14, 0, 0],
     12 \<mapsto> node 0 True False True 2 1 [1, 2, 0] [7, 7, 0],
     13 \<mapsto> node 0 True False True 2 3 [3, 4, 0] [7, 7, 0],
     14 \<mapsto> node 0 False False True 2 3 [3, 0, 0] [12, 13, 0])"

lemma run_h4_app: "run_h4 x = (if x = 1 then Some (node 4 False False True 1 0 [0, 0, 0] [14, 0, 0]) else
     if x = 12 then Some (node 0 True False True 2 1 [1, 2, 0] [7, 7, 0]) else
     if x = 13 then Some (node 0 True False True 2 3 [3, 4, 0] [7, 7, 0]) else
     if x = 14 then Some (node 0 False False True 2 3 [3, 0, 0] [12, 13, 0]) else
     run_h3 x)"
  by (simp add: run_h4_def)

definition run_h5 :: ab_heap where
  "run_h5 = run_h4(14 \<mapsto> node 1 False False True 2 3 [3, 0, 0] [12, 15, 0],
     15 \<mapsto> node 0 True False True 3 3 [3, 4, 5] [7, 7, 7])"

lemma run_h5_app: "run_h5 x = (if x = 14 then Some (node 1 False False True 2 3 [3, 0, 0] [12, 15, 0]) else
     if x = 15 then Some (node 0 True False True 3 3 [3, 4, 5] [7, 7, 7]) else
     run_h4 x)"
  by (simp add: run_h5_def)

definition run_h6 :: ab_heap where
  "run_h6 = run_h5(1 \<mapsto> node 5 False False True 1 0 [0, 0, 0] [21, 0, 0],
     14 \<mapsto> node 3 False True True 2 3 [3, 0, 0] [12, 20, 0],
     18 \<mapsto> node 0 True False True 2 3 [3, 4, 0] [7, 7, 0],
     19 \<mapsto> node 0 True False True 2 5 [5, 6, 0] [7, 7, 0],
     20 \<mapsto> node 1 False True False 2 5 [5, 0, 0] [18, 19, 0],
     21 \<mapsto> node 0 False False True 3 3 [3, 5, 0] [12, 18, 19])"

lemma run_h6_app: "run_h6 x = (if x = 1 then Some (node 5 False False True 1 0 [0, 0, 0] [21, 0, 0]) else
     if x = 14 then Some (node 3 False True True 2 3 [3, 0, 0] [12, 20, 0]) else
     if x = 18 then Some (node 0 True False True 2 3 [3, 4, 0] [7, 7, 0]) else
     if x = 19 then Some (node 0 True False True 2 5 [5, 6, 0] [7, 7, 0]) else
     if x = 20 then Some (node 1 False True False 2 5 [5, 0, 0] [18, 19, 0]) else
     if x = 21 then Some (node 0 False False True 3 3 [3, 5, 0] [12, 18, 19]) else
     run_h5 x)"
  by (simp add: run_h6_def)

definition run_h7 :: ab_heap where
  "run_h7 = run_h6(21 \<mapsto> node 1 False False True 3 3 [3, 5, 0] [12, 18, 24],
     24 \<mapsto> node 0 True False True 3 5 [5, 6, 7] [7, 7, 7])"

lemma run_h7_app: "run_h7 x = (if x = 21 then Some (node 1 False False True 3 3 [3, 5, 0] [12, 18, 24]) else
     if x = 24 then Some (node 0 True False True 3 5 [5, 6, 7] [7, 7, 7]) else
     run_h6 x)"
  by (simp add: run_h7_def)

definition run_h8 :: ab_heap where
  "run_h8 = run_h7(1 \<mapsto> node 6 False False True 1 0 [0, 0, 0] [32, 0, 0],
     21 \<mapsto> node 3 False True True 3 3 [3, 5, 0] [12, 18, 29],
     27 \<mapsto> node 0 True False True 2 5 [5, 6, 0] [7, 7, 0],
     28 \<mapsto> node 0 True False True 2 7 [7, 8, 0] [7, 7, 0],
     29 \<mapsto> node 1 False True False 2 7 [7, 0, 0] [27, 28, 0],
     30 \<mapsto> node 0 False False True 2 3 [3, 0, 0] [12, 18, 0],
     31 \<mapsto> node 0 False False True 2 7 [7, 0, 0] [27, 28, 0],
     32 \<mapsto> node 0 False False True 2 5 [5, 0, 0] [30, 31, 0])"

lemma run_h8_app: "run_h8 x = (if x = 1 then Some (node 6 False False True 1 0 [0, 0, 0] [32, 0, 0]) else
     if x = 21 then Some (node 3 False True True 3 3 [3, 5, 0] [12, 18, 29]) else
     if x = 27 then Some (node 0 True False True 2 5 [5, 6, 0] [7, 7, 0]) else
     if x = 28 then Some (node 0 True False True 2 7 [7, 8, 0] [7, 7, 0]) else
     if x = 29 then Some (node 1 False True False 2 7 [7, 0, 0] [27, 28, 0]) else
     if x = 30 then Some (node 0 False False True 2 3 [3, 0, 0] [12, 18, 0]) else
     if x = 31 then Some (node 0 False False True 2 7 [7, 0, 0] [27, 28, 0]) else
     if x = 32 then Some (node 0 False False True 2 5 [5, 0, 0] [30, 31, 0]) else
     run_h7 x)"
  by (simp add: run_h8_def)

definition run_h9 :: ab_heap where
  "run_h9 = run_h8(30 \<mapsto> node 2 False True True 2 3 [3, 0, 0] [33, 18, 0],
     32 \<mapsto> node 1 False False True 2 5 [5, 0, 0] [37, 31, 0],
     33 \<mapsto> node 0 True False True 1 1 [2, 0, 0] [7, 0, 0],
     36 \<mapsto> node 0 True False True 3 1 [2, 3, 4] [7, 7, 7],
     37 \<mapsto> node 0 False False True 1 3 [0, 0, 0] [36, 0, 0])"

lemma run_h9_app: "run_h9 x = (if x = 30 then Some (node 2 False True True 2 3 [3, 0, 0] [33, 18, 0]) else
     if x = 32 then Some (node 1 False False True 2 5 [5, 0, 0] [37, 31, 0]) else
     if x = 33 then Some (node 0 True False True 1 1 [2, 0, 0] [7, 0, 0]) else
     if x = 36 then Some (node 0 True False True 3 1 [2, 3, 4] [7, 7, 7]) else
     if x = 37 then Some (node 0 False False True 1 3 [0, 0, 0] [36, 0, 0]) else
     run_h8 x)"
  by (simp add: run_h9_def)

definition run_h10 :: ab_heap where
  "run_h10 = run_h9(37 \<mapsto> node 1 False False True 1 3 [0, 0, 0] [39, 0, 0],
     39 \<mapsto> node 0 True False True 2 2 [3, 4, 0] [7, 7, 0])"

lemma run_h10_app: "run_h10 x = (if x = 37 then Some (node 1 False False True 1 3 [0, 0, 0] [39, 0, 0]) else
     if x = 39 then Some (node 0 True False True 2 2 [3, 4, 0] [7, 7, 0]) else
     run_h9 x)"
  by (simp add: run_h10_def)

definition run_h11 :: ab_heap where
  "run_h11 = run_h10(37 \<mapsto> node 2 False False True 1 3 [0, 0, 0] [42, 0, 0],
     42 \<mapsto> node 0 True False True 1 3 [4, 0, 0] [7, 0, 0])"

lemma run_h11_app: "run_h11 x = (if x = 37 then Some (node 2 False False True 1 3 [0, 0, 0] [42, 0, 0]) else
     if x = 42 then Some (node 0 True False True 1 3 [4, 0, 0] [7, 0, 0]) else
     run_h10 x)"
  by (simp add: run_h11_def)

subsection \<open>The run\<close>

declare frame_step.simps [simp del]

lemma run_1:
  assumes "ab_entry s = 1" "cur s = run_h0" "ab_thr s 0 = []" "ab_thr s 1 = []"
  shows "\<exists>s'. execs 3 s (Inv 0 (OpInsert 1 7 True) # acts 0 3 6 @ acts 0 6 2) = Some s' \<and> ab_entry s' = 1
    \<and> cur s' = run_h1 \<and> ab_thr s' 0 = [] \<and> ab_thr s' 1 = []"
  by (simp add: assms [unfolded One_nat_def] insert_eval run_h0_app run_h1_def, ((rule ext)?, auto)?)

lemma run_2:
  assumes "ab_entry s = 1" "cur s = run_h1" "ab_thr s 0 = []" "ab_thr s 1 = []"
  shows "\<exists>s'. execs 3 s (Inv 0 (OpInsert 2 7 True) # acts 0 6 6 @ acts 0 9 2) = Some s' \<and> ab_entry s' = 1
    \<and> cur s' = run_h2 \<and> ab_thr s' 0 = [] \<and> ab_thr s' 1 = []"
  by (simp add: assms [unfolded One_nat_def] insert_eval run_h0_app run_h1_app run_h2_def, ((rule ext)?, auto)?)

lemma run_3:
  assumes "ab_entry s = 1" "cur s = run_h2" "ab_thr s 0 = []" "ab_thr s 1 = []"
  shows "\<exists>s'. execs 3 s (Inv 0 (OpInsert 3 7 True) # acts 0 9 6 @ acts 0 12 2) = Some s' \<and> ab_entry s' = 1
    \<and> cur s' = run_h3 \<and> ab_thr s' 0 = [] \<and> ab_thr s' 1 = []"
  by (simp add: assms [unfolded One_nat_def] insert_eval run_h0_app run_h1_app run_h2_app run_h3_def, ((rule ext)?, auto)?)

lemma run_4:
  assumes "ab_entry s = 1" "cur s = run_h3" "ab_thr s 0 = []" "ab_thr s 1 = []"
  shows "\<exists>s'. execs 3 s (Inv 0 (OpInsert 4 7 True) # acts 0 12 6 @ acts 0 15 2) = Some s' \<and> ab_entry s' = 1
    \<and> cur s' = run_h4 \<and> ab_thr s' 0 = [] \<and> ab_thr s' 1 = []"
  by (simp add: assms [unfolded One_nat_def] insert_eval run_h0_app run_h1_app run_h2_app run_h3_app run_h4_def, ((rule ext)?, auto)?)

lemma run_5:
  assumes "ab_entry s = 1" "cur s = run_h4" "ab_thr s 0 = []" "ab_thr s 1 = []"
  shows "\<exists>s'. execs 3 s (Inv 0 (OpInsert 5 7 True) # acts 0 15 7 @ acts 0 18 2) = Some s' \<and> ab_entry s' = 1
    \<and> cur s' = run_h5 \<and> ab_thr s' 0 = [] \<and> ab_thr s' 1 = []"
  by (simp add: assms [unfolded One_nat_def] insert_eval run_h0_app run_h1_app run_h2_app run_h3_app run_h4_app run_h5_def, ((rule ext)?, auto)?)

lemma run_6:
  assumes "ab_entry s = 1" "cur s = run_h5" "ab_thr s 0 = []" "ab_thr s 1 = []"
  shows "\<exists>s'. execs 3 s (Inv 0 (OpInsert 6 7 True) # acts 0 18 7 @ acts 0 21 12 @ acts 0 24 2) = Some s' \<and> ab_entry s' = 1
    \<and> cur s' = run_h6 \<and> ab_thr s' 0 = [] \<and> ab_thr s' 1 = []"
  by (simp add: assms [unfolded One_nat_def] weight_eval run_h0_app run_h1_app run_h2_app run_h3_app run_h4_app run_h5_app run_h6_def, ((rule ext)?, auto)?)

lemma run_7:
  assumes "ab_entry s = 1" "cur s = run_h6" "ab_thr s 0 = []" "ab_thr s 1 = []"
  shows "\<exists>s'. execs 3 s (Inv 0 (OpInsert 7 7 True) # acts 0 24 7 @ acts 0 27 2) = Some s' \<and> ab_entry s' = 1
    \<and> cur s' = run_h7 \<and> ab_thr s' 0 = [] \<and> ab_thr s' 1 = []"
  by (simp add: assms [unfolded One_nat_def] insert_eval run_h0_app run_h1_app run_h2_app run_h3_app run_h4_app run_h5_app run_h6_app run_h7_def, ((rule ext)?, auto)?)

lemma run_8:
  assumes "ab_entry s = 1" "cur s = run_h7" "ab_thr s 0 = []" "ab_thr s 1 = []"
  shows "\<exists>s'. execs 3 s (Inv 0 (OpInsert 8 7 True) # acts 0 27 7 @ acts 0 30 12 @ acts 0 33 3) = Some s' \<and> ab_entry s' = 1
    \<and> cur s' = run_h8 \<and> ab_thr s' 0 = [] \<and> ab_thr s' 1 = []"
  by (simp add: assms [unfolded One_nat_def] weight_eval run_h0_app run_h1_app run_h2_app run_h3_app run_h4_app run_h5_app run_h6_app run_h7_app run_h8_def, ((rule ext)?, auto)?)

lemma run_9:
  assumes "ab_entry s = 1" "cur s = run_h8" "ab_thr s 0 = []" "ab_thr s 1 = []"
  shows "\<exists>s'. execs 3 s (Inv 0 (OpErase 1) # acts 0 33 8 @ acts 0 36 13 @ acts 0 39 1) = Some s' \<and> ab_entry s' = 1
    \<and> cur s' = run_h9 \<and> (\<exists>i0. ab_thr s' 0 = [FxStart FixDegree 37, OpEnd (OpErase 1) i0 (RPair 7 True)]) \<and> ab_thr s' 1 = []"
  by (simp add: assms [unfolded One_nat_def] erase_eval run_h0_app run_h1_app run_h2_app run_h3_app run_h4_app run_h5_app run_h6_app run_h7_app run_h8_app run_h9_def, ((rule ext)?, auto)?)

lemma run_10:
  assumes "ab_entry s = 1" "cur s = run_h9" "ab_thr s 0 = [FxStart FixDegree 37, OpEnd (OpErase 1) i0 (RPair 7 True)]" "ab_thr s 1 = []"
  shows "\<exists>s'. execs 3 s (Inv 1 (OpErase 2) # acts 1 39 8 @ acts 1 42 2) = Some s' \<and> ab_entry s' = 1
    \<and> cur s' = run_h10 \<and> (\<exists>i0. ab_thr s' 0 = [FxStart FixDegree 37, OpEnd (OpErase 1) i0 (RPair 7 True)]) \<and> ab_thr s' 1 = []"
  by (simp add: assms [unfolded One_nat_def] erase_eval run_h0_app run_h1_app run_h2_app run_h3_app run_h4_app run_h5_app run_h6_app run_h7_app run_h8_app run_h9_app run_h10_def, ((rule ext)?, auto)?)

lemma run_11:
  assumes "ab_entry s = 1" "cur s = run_h10" "ab_thr s 0 = [FxStart FixDegree 37, OpEnd (OpErase 1) i0 (RPair 7 True)]" "ab_thr s 1 = []"
  shows "\<exists>s'. execs 3 s (Inv 1 (OpErase 3) # acts 1 42 8 @ acts 1 45 12) = Some s' \<and> ab_entry s' = 1
    \<and> cur s' = run_h11 \<and> (\<exists>i0. ab_thr s' 0 = [FxStart FixDegree 37, OpEnd (OpErase 1) i0 (RPair 7 True)]) \<and> (\<exists>i1. ab_thr s' 1 = [FxUndef FixDegree 42, OpEnd (OpErase 3) i1 (RPair 7 True)])"
  by (simp add: assms [unfolded One_nat_def] erase_eval run_h0_app run_h1_app run_h2_app run_h3_app run_h4_app run_h5_app run_h6_app run_h7_app run_h8_app run_h9_app run_h10_app run_h11_def, ((rule ext)?, auto)?)

text \<open>The run from the initial state.\<close>

definition run_s0 :: ab_state where
  "run_s0 = ab_init 3 0 1 2 (node 0 False False False 0 0 [0, 0, 0] [0, 0, 0]) (node 0 False False False 0 0 [0, 0, 0] [0, 0, 0])"

lemma run_s0: "ab_reach 3 run_s0" "ab_entry run_s0 = 1" "cur run_s0 = run_h0" "ab_thr run_s0 t = []"
proof -
  show "ab_reach 3 run_s0" unfolding run_s0_def by (rule ab_reach_init) (simp_all add: alloc_ok_def)
  show "ab_entry run_s0 = 1" "cur run_s0 = run_h0" "ab_thr run_s0 t = []"
    by (simp_all add: run_s0_def ab_init_def Let_def run_h0_def)
qed

definition at_run :: "ab_state \<Rightarrow> ab_heap \<Rightarrow> bool" where
  "at_run s h \<longleftrightarrow> ab_reach 3 s \<and> ab_entry s = 1 \<and> cur s = h \<and> (\<forall>t. ab_thr s t = [])"

fun thread_of :: "sched \<Rightarrow> nat" where
  "thread_of (Inv t op) = t"
| "thread_of (Act t c) = t"

lemma execs_other:
  "execs dg s as = Some s' \<Longrightarrow> \<forall>a\<in>set as. thread_of a \<noteq> t \<Longrightarrow> ab_thr s' t = ab_thr s t"
proof (induction as arbitrary: s)
  case (Cons a as)
  then obtain s1 where s1: "exec dg s a = Some s1" "execs dg s1 as = Some s'" by (auto split: option.splits)
  have "ab_thr s1 t = ab_thr s t"
    using s1(1) Cons.prems(2) by (cases a) (auto split: if_splits list.splits outcome.splits)
  then show ?case using Cons.IH [OF s1(2)] Cons.prems(2) by simp
qed simp

lemma at_run_next:
  assumes s: "\<exists>s. at_run s h" and as: "\<forall>a\<in>set as. thread_of a = 0"
    and e: "\<And>s. ab_entry s = 1 \<Longrightarrow> cur s = h \<Longrightarrow> ab_thr s 0 = [] \<Longrightarrow> ab_thr s 1 = [] \<Longrightarrow>
      \<exists>s'. execs 3 s as = Some s' \<and> ab_entry s' = 1 \<and> cur s' = h' \<and> ab_thr s' 0 = [] \<and> ab_thr s' 1 = []"
  shows "\<exists>s. at_run s h'"
proof -
  obtain s where s: "at_run s h" using assms(1) by blast
  then obtain s' where s': "execs 3 s as = Some s'" "ab_entry s' = 1" "cur s' = h'" "ab_thr s' 0 = []"
    using e [of s] unfolding at_run_def by blast
  have "ab_thr s' t = []" for t
    using execs_other [OF s'(1), of t] as s s'(4) unfolding at_run_def by (cases "t = 0") auto
  then show ?thesis using s' s execs_reach unfolding at_run_def by blast
qed

lemma reach_5: "\<exists>s. at_run s run_h5"
proof -
  have "\<exists>s. at_run s run_h0" using run_s0 by (auto simp: at_run_def)
  then have "\<exists>s. at_run s run_h1" by (rule at_run_next [OF _ _ run_1]) (auto simp: acts_def)
  then have "\<exists>s. at_run s run_h2" by (rule at_run_next [OF _ _ run_2]) (auto simp: acts_def)
  then have "\<exists>s. at_run s run_h3" by (rule at_run_next [OF _ _ run_3]) (auto simp: acts_def)
  then have "\<exists>s. at_run s run_h4" by (rule at_run_next [OF _ _ run_4]) (auto simp: acts_def)
  then show ?thesis by (rule at_run_next [OF _ _ run_5]) (auto simp: acts_def)
qed

lemma reach_8: "\<exists>s. at_run s run_h8"
proof -
  have "\<exists>s. at_run s run_h6" using reach_5 by (rule at_run_next [OF _ _ run_6]) (auto simp: acts_def)
  then have "\<exists>s. at_run s run_h7" by (rule at_run_next [OF _ _ run_7]) (auto simp: acts_def)
  then show ?thesis by (rule at_run_next [OF _ _ run_8]) (auto simp: acts_def)
qed

lemma reach_9: "\<exists>s i0. ab_reach 3 s \<and> ab_entry s = 1 \<and> cur s = run_h9
   \<and> ab_thr s 0 = [FxStart FixDegree 37, OpEnd (OpErase 1) i0 (RPair 7 True)] \<and> ab_thr s 1 = []"
  using reach_8 run_9 execs_reach unfolding at_run_def by metis

lemma reach_11: "\<exists>s i1. ab_reach 3 s \<and> ab_entry s = 1 \<and> cur s = run_h11
   \<and> ab_thr s 1 = [FxUndef FixDegree 42, OpEnd (OpErase 3) i1 (RPair 7 True)]"
proof -
  obtain s i0 where s: "ab_reach 3 s" "ab_entry s = 1" "cur s = run_h9"
    "ab_thr s 0 = [FxStart FixDegree 37, OpEnd (OpErase 1) i0 (RPair 7 True)]" "ab_thr s 1 = []" using reach_9 by blast
  obtain s' i0' where s': "ab_reach 3 s'" "ab_entry s' = 1" "cur s' = run_h10"
    "ab_thr s' 0 = [FxStart FixDegree 37, OpEnd (OpErase 1) i0' (RPair 7 True)]" "ab_thr s' 1 = []"
    using run_10 [OF s(2-5)] execs_reach s(1) by metis
  show ?thesis using run_11 [OF s'(2-5)] execs_reach s'(1) by metis
qed

subsection \<open>What the run shows\<close>

text \<open>
  C9. The read of the sibling in \<open>fixDegreeViolation\<close> can be out of bounds: the comment that the
  parent has size at least \<open>a\<close> is false. An AbsorbSibling at a parent of size two that is not the
  root leaves a node of size one; before the thread repairs it another thread erases twice below it
  and reads \<open>p->ptrs[1]\<close> of that node, which was never written. The state is reached by two
  threads from the empty tree of degree 3.
\<close>

theorem abtree_sibling_undefined:
  "\<exists>s v. ab_reach 3 s \<and> FxUndef FixDegree v \<in> set (ab_thr s 1)"
proof -
  obtain s i1 where "ab_reach 3 s" "ab_thr s 1 = [FxUndef FixDegree 42, OpEnd (OpErase 3) i1 (RPair 7 True)]"
    using reach_11 by blast
  then show ?thesis by (intro exI [of _ s] exI [of _ 42]) simp
qed

text \<open>Witnesses of the properties of every reachable state.\<close>

theorem abtree_invariant_witness: "\<exists>!T. holds 3 1 run_h8 T"
proof -
  obtain s where s: "at_run s run_h8" using reach_8 by blast
  then show ?thesis using abtree_invariant [of 3 s] by (simp add: at_run_def)
qed

theorem abtree_quiescent_strict_witness:
  "\<exists>sk R n. holds 3 1 run_h8 (In 1 True sk [] [R]) \<and> strict_root (min_deg 3) 3 n R"
proof -
  obtain s where s: "at_run s run_h8" using reach_8 by blast
  then show ?thesis using abtree_quiescent_strict [of 3 s] by (simp add: at_run_def)
qed

lemma run_h8_free: "run_h8 0 = None" "ab_ptrs (nd run_h8 1) ! 0 = 32"
  by (simp_all add: run_h8_app run_h7_app run_h6_app run_h5_app run_h4_app run_h3_app run_h2_app run_h1_app run_h0_app)

theorem abtree_counts_agree_witness:
  "\<exists>T n. holds 3 1 run_h8 T \<and> (\<forall>m\<ge>Suc n. sequentialSize m run_h8 32 = Some (card (dom (dict T)))
     \<and> getNumberOfNodes m run_h8 1 = Some n \<and> getTotalDegree m run_h8 1 = Some (card (dom (dict T)) + n))"
proof -
  obtain s where s: "at_run s run_h8" using reach_8 by blast
  then show ?thesis using abtree_counts_agree [of 3 s] run_h8_free by (auto simp: at_run_def)
qed

lemma abtree_validate_exact_witness:
  "\<exists>T. holds 3 1 run_h8 T \<and> (\<exists>m. ab_validate m run_h8 1 (\<Sum> (dom (dict T))) True = Some True
     \<and> ab_validate m run_h8 1 (\<Sum> (dom (dict T)) + 1) True = Some False)"
proof -
  obtain s where s: "at_run s run_h8" using reach_8 by blast
  then obtain T where "holds 3 1 run_h8 T" "\<forall>m\<ge>length (addrs T). \<forall>keysum check.
      ab_validate m run_h8 1 keysum check = Some (\<not> check \<or> keysum = \<Sum> (dom (dict T)))"
    using abtree_validate_exact [of 3 s] run_h8_free by (auto simp: at_run_def)
  then show ?thesis by (intro exI [of _ T] conjI exI [of _ "length (addrs T)"]) simp_all
qed

lemma run_h8_eval:
  "getHeight (Suc (Suc (Suc m))) run_h8 32 0 = Some 2" "sequentialSize (Suc (Suc (Suc m))) run_h8 32 = Some 8"
  by (simp_all add: kids_def getKeyCount_def upt_rec
      run_h8_app run_h7_app run_h6_app run_h5_app run_h4_app run_h3_app run_h2_app run_h1_app run_h0_app)

theorem abtree_height_logarithmic_witness:
  "\<exists>T m. holds 3 1 run_h8 T \<and> 2 * min_deg 3 ^ 2 \<le> card (dom (dict T)) \<and> card (dom (dict T)) = 8
     \<and> getHeight m run_h8 32 0 = Some 2 \<and> getSumOfKeyDepths m run_h8 32 0 = Some 16
     \<and> getAverageKeyDepth m run_h8 1 = Some 2"
proof -
  obtain s where "at_run s run_h8" using reach_8 by blast
  then have s: "ab_reach 3 s" "ab_entry s = 1" "cur s = run_h8" "\<forall>t. ab_thr s t = []" by (simp_all add: at_run_def)
  obtain T n where T: "holds 3 1 run_h8 T" "0 < n \<longrightarrow> 2 * min_deg 3 ^ n \<le> card (dom (dict T))"
    "\<forall>m\<ge>length (addrs T). getHeight m run_h8 32 0 = Some n
       \<and> getSumOfKeyDepths m run_h8 32 0 = Some (word_of_nat (n * card (dom (dict T))))
       \<and> (Suc n * card (dom (dict T)) < 2 ^ 31 \<longrightarrow>
           getAverageKeyDepth m run_h8 1 = Some (if dom (dict T) = {} then 0 else int n))"
    using abtree_height_logarithmic [of 3 s] s run_h8_free by auto
  let ?m = "Suc (Suc (Suc (length (addrs T))))"
  have m: "length (addrs T) \<le> ?m" by simp
  have c: "card (dom (dict T)) = 8"
    using size_of_map [of 3 s T ?m] s run_h8_free T(1) run_h8_eval(2) by (simp del: sequentialSize.simps)
  have n: "n = 2" using T(3) m run_h8_eval(1) by fastforce
  have "dom (dict T) \<noteq> {}" using c by auto
  then show ?thesis
    using T(1,2) T(3) [rule_format, OF m] c n by (intro exI [of _ T] exI [of _ ?m]) simp
qed

theorem abtree_destroy_frees_each_once_witness:
  "\<exists>T m freed. holds 3 1 run_h8 T \<and> freeSubtree m run_h8 1 (0, []) = Some (length freed, freed)
     \<and> distinct freed \<and> set freed = set (addrs T)"
proof -
  obtain s where s: "at_run s run_h8" using reach_8 by blast
  then show ?thesis using abtree_destroy_frees_each_once [of 3 s] run_h8_free by (simp add: at_run_def) blast
qed

theorem abtree_linearizable_witness:
  "\<exists>s i0 Ts. cur s = run_h9 \<and> length Ts = length (ab_hist s) \<and> lin Ts (OpErase 1) i0 (RPair 7 True)"
proof -
  obtain s i0 where s: "ab_reach 3 s" "cur s = run_h9"
    "ab_thr s 0 = [FxStart FixDegree 37, OpEnd (OpErase 1) i0 (RPair 7 True)]" using reach_9 by blast
  have "OpEnd (OpErase 1) i0 (RPair 7 True) \<in> set (ab_thr s 0)" using s(3) by simp
  then show ?thesis using abtree_linearizable [of 3 s "OpErase 1" i0 "RPair 7 True" 0] s(1,2) by auto
qed

theorem abtree_violations_attended_witness:
  "\<exists>s T i0. cur s = run_h9 \<and> ab_thr s 0 = [FxStart FixDegree 37, OpEnd (OpErase 1) i0 (RPair 7 True)] \<and> holds 3 1 run_h9 T
    \<and> (\<forall>fk x. x \<in> viols 3 1 T fk \<longrightarrow> (\<exists>t. \<exists>f\<in>set (ab_thr s t). handles fk x f))"
proof -
  obtain s i0 where s: "ab_reach 3 s" "ab_entry s = 1" "cur s = run_h9"
    "ab_thr s 0 = [FxStart FixDegree 37, OpEnd (OpErase 1) i0 (RPair 7 True)]" using reach_9 by blast
  then show ?thesis using abtree_violations_attended [of 3 s] by auto
qed

lemma abtree_gp_not_null_witness:
  "\<exists>s t fk v sr. ab_reach 3 s \<and> FxLlxGp fk v sr \<in> set (ab_thr s t) \<and> the (s_gp sr) \<in> dom (cur s)"
proof -
  obtain s where s: "at_run s run_h5" using reach_5 by blast
  have "\<exists>s' fs sr. execs 3 s (Inv 0 (OpInsert 6 7 True) # acts 0 18 7 @ acts 0 21 6) = Some s' \<and> ab_thr s' 0 = FxLlxGp FixWeight 20 sr # fs"
    using s unfolding at_run_def
    by (simp add: insert_eval run_h0_app run_h1_app run_h2_app run_h3_app run_h4_app run_h5_app)
  then obtain s' fs sr where s': "ab_reach 3 s'" "ab_thr s' 0 = FxLlxGp FixWeight 20 sr # fs"
    using execs_reach s unfolding at_run_def by blast
  then have "FxLlxGp FixWeight 20 sr \<in> set (ab_thr s' 0)" by simp
  moreover from this have "the (s_gp sr) \<in> dom (cur s')"
    using abtree_gp_not_null [of 3 s' FixWeight 20 sr 0] s'(1) by simp
  ultimately show ?thesis using s'(1) by blast
qed

lemma before_scx:
  assumes "ab_entry s = 1" "cur s = run_h0" "ab_thr s 0 = []"
  shows "\<exists>s'. execs 3 s (Inv 0 (OpInsert 1 7 True) # acts 0 3 5) = Some s' \<and> ab_entry s' = 1 \<and> cur s' = run_h0
    \<and> (\<exists>i0 st. ab_thr s' 0 = [OpScx (OpInsert 1 7 True) i0 \<lparr>s_st = st, s_gp = None, s_p = 1, s_l = 2, s_ixP = - 1, s_ixL = 0\<rparr> 0])"
  by (simp add: assms [unfolded One_nat_def] insert_eval run_h0_app)

lemma the_scx:
  assumes "ab_entry s = 1" "cur s = run_h0"
    "ab_thr s 0 = [OpScx (OpInsert 1 7 True) i0 \<lparr>s_st = st, s_gp = None, s_p = 1, s_l = 2, s_ixP = - 1, s_ixL = 0\<rparr> 0]"
  shows "\<exists>s'. exec 3 s (Act 0 (fresh 3)) = Some s' \<and> ab_entry s' = 1 \<and>
    cur s' = run_h0(3 \<mapsto> node 0 True False True 1 0 [1, 0, 0] [7, 0, 0], 1 \<mapsto> node 1 False False True 1 0 [0, 0, 0] [3, 0, 0])"
  by (simp add: assms [unfolded One_nat_def] insert_eval run_h0_app)

theorem abtree_refines_map_witness:
  "\<exists>T T'. holds 3 1 run_h0 T \<and> holds 3 1 (run_h0(3 \<mapsto> node 0 True False True 1 0 [1, 0, 0] [7, 0, 0],
      1 \<mapsto> node 1 False False True 1 0 [0, 0, 0] [3, 0, 0])) T'"
proof -
  obtain s i0 st where s: "execs 3 run_s0 (Inv 0 (OpInsert 1 7 True) # acts 0 3 5) = Some s" "ab_entry s = 1" "cur s = run_h0"
    "ab_thr s 0 = [OpScx (OpInsert 1 7 True) i0 \<lparr>s_st = st, s_gp = None, s_p = 1, s_l = 2, s_ixP = - 1, s_ixL = 0\<rparr> 0]"
    using before_scx [OF run_s0(2-4)] by blast
  obtain s' where s': "exec 3 s (Act 0 (fresh 3)) = Some s'" "ab_entry s' = 1"
    "cur s' = run_h0(3 \<mapsto> node 0 True False True 1 0 [1, 0, 0] [7, 0, 0], 1 \<mapsto> node 1 False False True 1 0 [0, 0, 0] [3, 0, 0])"
    using the_scx [OF s(2-4)] by blast
  have r: "ab_reach 3 s" using execs_reach [OF s(1) run_s0(1)] .
  have "(3::nat) \<le> 3" by simp
  from abtree_refines_map [OF this r exec_step [OF s'(1)]] show ?thesis
    unfolding s(2,3) s'(2,3) by blast
qed

end
