(* ===== verification/ArrayLists.thy ===== *)
theory ArrayLists
  imports Prelude
begin

text \<open>
  The array lists of \<open>common/recordmgr/arraylist.h\<close>. \<open>ArrayList\<close> is used by its owner
  only; \<open>AtomicArrayList\<close> has one writer and many readers, so its operations are the stores
  they perform, in order. An \<open>assert\<close> that fails is \<open>None\<close>.
\<close>

subsection \<open>\<open>ArrayList\<close>\<close>

record alist =
  al_data :: "ptr list"
  al_size :: nat
  al_capacity :: nat

definition al_new :: "nat \<Rightarrow> (nat \<Rightarrow> ptr list) \<Rightarrow> alist" where
  "al_new capacity garbage = \<lparr>al_data = garbage capacity, al_size = 0, al_capacity = capacity\<rparr>"

definition al_get :: "nat \<Rightarrow> alist \<Rightarrow> ptr" where
  "al_get ix l = al_data l ! ix"

definition al_add :: "ptr \<Rightarrow> alist \<Rightarrow> alist option" where
  "al_add obj l =
     (if al_size l < al_capacity l
      then Some (l\<lparr>al_data := (al_data l)[al_size l := obj], al_size := al_size l + 1\<rparr>)
      else None)"

definition al_erase :: "nat \<Rightarrow> alist \<Rightarrow> alist option" where
  "al_erase ix l =
     (if ix < al_size l
      then (let sz = al_size l - 1
            in Some (l\<lparr>al_size := sz, al_data := (al_data l)[ix := al_data l ! sz]\<rparr>))
      else None)"

text \<open>The search from index \<open>i\<close>; the result -1 is \<open>None\<close>.\<close>

function al_index_from :: "ptr \<Rightarrow> alist \<Rightarrow> nat \<Rightarrow> nat option" where
  "al_index_from obj l i =
     (if i < al_size l
      then (if al_data l ! i = obj then Some i else al_index_from obj l (i + 1))
      else None)"
  by pat_completeness auto
termination by (relation "measure (\<lambda>(obj, l, i). al_size l - i)") auto

declare al_index_from.simps [simp del]

definition al_getIndex :: "ptr \<Rightarrow> alist \<Rightarrow> nat option" where
  "al_getIndex obj l = al_index_from obj l 0"

definition al_erase_obj :: "ptr \<Rightarrow> alist \<Rightarrow> alist option" where
  "al_erase_obj obj l = (case al_getIndex obj l of None \<Rightarrow> Some l | Some ix \<Rightarrow> al_erase ix l)"

definition al_contains :: "ptr \<Rightarrow> alist \<Rightarrow> bool" where
  "al_contains obj l \<longleftrightarrow> al_getIndex obj l \<noteq> None"

definition al_clear :: "alist \<Rightarrow> alist" where
  "al_clear l = l\<lparr>al_size := 0\<rparr>"

definition al_isFull :: "alist \<Rightarrow> bool" where
  "al_isFull l \<longleftrightarrow> al_size l = al_capacity l"

definition al_isEmpty :: "alist \<Rightarrow> bool" where
  "al_isEmpty l \<longleftrightarrow> al_size l = 0"

subsection \<open>\<open>AtomicArrayList\<close>\<close>

datatype al_write = WData nat ptr | WSize nat

primrec aal_write :: "al_write \<Rightarrow> alist \<Rightarrow> alist" where
  "aal_write (WData ix v) l = l\<lparr>al_data := (al_data l)[ix := v]\<rparr>"
| "aal_write (WSize sz) l = l\<lparr>al_size := sz\<rparr>"

definition aal_add :: "ptr \<Rightarrow> alist \<Rightarrow> al_write list option" where
  "aal_add obj l =
     (let sz = al_size l
      in if sz < al_capacity l then Some [WData sz obj, WSize (sz + 1)] else None)"

definition aal_erase :: "nat \<Rightarrow> alist \<Rightarrow> al_write list option" where
  "aal_erase ix l =
     (let sz = al_size l
      in if ix < sz
         then Some ((if ix \<noteq> sz - 1 then [WData ix (al_data l ! (sz - 1))] else []) @ [WSize (sz - 1)])
         else None)"

definition aal_erase_obj :: "ptr \<Rightarrow> alist \<Rightarrow> al_write list option" where
  "aal_erase_obj obj l = (case al_getIndex obj l of None \<Rightarrow> Some [] | Some ix \<Rightarrow> aal_erase ix l)"

definition aal_clear :: "al_write list" where
  "aal_clear = [WSize 0]"

subsection \<open>What a list holds\<close>

definition al_elems :: "alist \<Rightarrow> ptr list" where
  "al_elems l = take (al_size l) (al_data l)"

definition al_ok :: "alist \<Rightarrow> bool" where
  "al_ok l \<longleftrightarrow> length (al_data l) = al_capacity l \<and> al_size l \<le> al_capacity l"

lemma al_okD: "al_ok l \<Longrightarrow> al_size l \<le> length (al_data l) \<and> length (al_elems l) = al_size l"
  by (simp add: al_ok_def al_elems_def)

lemma elems_nth: "i < al_size l \<Longrightarrow> al_elems l ! i = al_data l ! i"
  by (simp add: al_elems_def)

lemma in_elems: "al_ok l \<Longrightarrow> p \<in> set (al_elems l) \<longleftrightarrow> (\<exists>i<al_size l. al_data l ! i = p)"
  using al_okD [of l] elems_nth [of _ l] by (auto simp: in_set_conv_nth)

lemma al_new_ok:
  "length (garbage n) = n \<Longrightarrow> al_ok (al_new n garbage) \<and> al_elems (al_new n garbage) = []"
  by (simp add: al_new_def al_ok_def al_elems_def)

lemma al_add_ok:
  assumes "al_ok l" "al_size l < al_capacity l"
  shows "\<exists>l'. al_add obj l = Some l' \<and> al_ok l' \<and> al_elems l' = al_elems l @ [obj] \<and> al_capacity l' = al_capacity l"
  using assms by (simp add: al_add_def al_ok_def al_elems_def take_Suc_conv_app_nth)

text \<open>Removal by index moves the last element into the gap.\<close>

lemma swap_erase: "ix < length xs \<Longrightarrow> mset (take (length xs - 1) (xs[ix := last xs])) + {#xs ! ix#} = mset xs"
proof (cases xs rule: rev_cases)
  case (snoc ys y)
  then show "ix < length xs \<Longrightarrow> ?thesis"
    by (auto simp: nth_append mset_update list_update_append less_Suc_eq)
qed simp

lemma al_erase_ok:
  assumes l: "al_ok l" "ix < al_size l"
  shows "\<exists>l'. al_erase ix l = Some l' \<and> al_ok l' \<and> al_size l' = al_size l - 1 \<and> al_capacity l' = al_capacity l
    \<and> mset (al_elems l') + {#al_get ix l#} = mset (al_elems l)"
proof -
  define l' where "l' = l\<lparr>al_size := al_size l - 1, al_data := (al_data l)[ix := al_data l ! (al_size l - 1)]\<rparr>"
  let ?xs = "al_elems l"
  have len: "length ?xs = al_size l" using al_okD [OF l(1)] by simp
  then have "last ?xs = al_data l ! (al_size l - 1)"
    using l(2) elems_nth [of "al_size l - 1" l] by (cases "?xs = []") (simp_all add: last_conv_nth)
  then have "al_elems l' = take (length ?xs - 1) (?xs[ix := last ?xs])"
    using len l(2) by (simp add: l'_def al_elems_def take_update_swap min_def)
  then have "mset (al_elems l') + {#?xs ! ix#} = mset ?xs" using swap_erase [of ix ?xs] len l(2) by simp
  moreover have "al_erase ix l = Some l'" using l(2) by (simp add: al_erase_def Let_def l'_def)
  moreover have "al_ok l'" using l unfolding al_ok_def l'_def by (simp, linarith)
  ultimately show ?thesis using elems_nth [OF l(2)] by (simp add: al_get_def l'_def)
qed

lemma index_from:
  "al_index_from obj l i = Some j \<Longrightarrow> i \<le> j \<and> j < al_size l \<and> al_data l ! j = obj"
  "al_index_from obj l i = None \<Longrightarrow> i \<le> j \<Longrightarrow> j < al_size l \<Longrightarrow> al_data l ! j \<noteq> obj"
proof (induction obj l i rule: al_index_from.induct)
  case (1 obj l i)
  {
    case 1
    then have "i < al_size l" "al_data l ! i = obj \<and> i = j \<or> al_data l ! i \<noteq> obj \<and> al_index_from obj l (i + 1) = Some j"
      by (subst (asm) al_index_from.simps; simp split: if_splits)+
    then show ?case using "1.IH"(1) by auto
  next
    case 2
    then have "i < al_size l \<and> al_data l ! i \<noteq> obj \<and> al_index_from obj l (i + 1) = None"
      by (subst (asm) al_index_from.simps) (auto split: if_splits)
    then show ?case using "1.IH"(2) 2 by (cases "j = i") auto
  }
qed

lemma al_contains_ok [simp]:
  assumes "al_ok l"
  shows "al_contains obj l \<longleftrightarrow> obj \<in> set (al_elems l)"
proof (cases "al_getIndex obj l")
  case None
  then have "\<not> (\<exists>j<al_size l. al_data l ! j = obj)" using index_from(2) [of obj l 0] unfolding al_getIndex_def by blast
  then show ?thesis using None by (simp add: al_contains_def in_elems [OF assms])
next
  case (Some j)
  then have "\<exists>j<al_size l. al_data l ! j = obj" using index_from(1) [of obj l 0 j] unfolding al_getIndex_def by blast
  then show ?thesis using Some by (simp add: al_contains_def in_elems [OF assms])
qed

lemma al_erase_obj_ok:
  assumes l: "al_ok l"
  shows "\<exists>l'. al_erase_obj obj l = Some l' \<and> al_ok l' \<and> al_capacity l' = al_capacity l \<and> mset (al_elems l') = mset (al_elems l) - {#obj#}"
proof (cases "al_getIndex obj l")
  case None
  then have "obj \<notin> set (al_elems l)" using al_contains_ok [OF l, of obj] by (simp add: al_contains_def)
  then show ?thesis using None l by (simp add: al_erase_obj_def diff_single_trivial)
next
  case (Some ix)
  then have ix: "ix < al_size l" "al_get ix l = obj" using index_from(1) [of obj l 0 ix] by (auto simp: al_getIndex_def al_get_def)
  obtain l' where l': "al_erase ix l = Some l'" "al_ok l'" "al_capacity l' = al_capacity l" "mset (al_elems l') + {#obj#} = mset (al_elems l)"
    using al_erase_ok [OF l ix(1)] ix(2) by auto
  have "mset (al_elems l') = mset (al_elems l) - {#obj#}" using l'(4) by (metis add_diff_cancel_right')
  then show ?thesis using Some l' by (simp add: al_erase_obj_def)
qed

lemma al_clear_ok: "al_ok l \<Longrightarrow> al_ok (al_clear l) \<and> al_elems (al_clear l) = [] \<and> al_capacity (al_clear l) = al_capacity l"
  by (simp add: al_clear_def al_ok_def al_elems_def)

text \<open>The stores of an operation of \<open>AtomicArrayList\<close> together do what \<open>ArrayList\<close> does.\<close>

lemma aal_writes:
  "map_option (\<lambda>ws. fold aal_write ws l) (aal_add obj l) = al_add obj l"
  "al_ok l \<Longrightarrow> map_option (\<lambda>ws. fold aal_write ws l) (aal_erase ix l) = al_erase ix l"
  "al_ok l \<Longrightarrow> map_option (\<lambda>ws. fold aal_write ws l) (aal_erase_obj obj l) = al_erase_obj obj l"
  "fold aal_write aal_clear l = al_clear l"
proof -
  show e: "map_option (\<lambda>ws. fold aal_write ws l) (aal_erase ix l) = al_erase ix l" if "al_ok l" for ix
    by (auto simp: aal_erase_def al_erase_def Let_def)
  show "map_option (\<lambda>ws. fold aal_write ws l) (aal_erase_obj obj l) = al_erase_obj obj l" if "al_ok l"
    using e [OF that] by (auto simp: aal_erase_obj_def al_erase_obj_def split: option.splits)
qed (auto simp: aal_add_def al_add_def aal_clear_def al_clear_def Let_def)

end
