(* ===== verification/HashTable.thy ===== *)
theory HashTable
  imports Prelude
begin

text \<open>
  The hash sets of \<open>common/recordmgr/hashtable.h\<close>: \<open>hashset_new\<close> (and \<open>hashset_pop\<close>,
  which has the same code for keys that are not pointers), with linear probing in a table of a power
  of two, refines a set; the older \<open>hashset\<close> does not.
\<close>

subsection \<open>\<open>hashset_new\<close>\<close>

text \<open>The finalizer of MurmurHash3; the result is converted to \<open>int\<close>, that is, to its low 32 bits.\<close>

definition hs_hash :: "ptr \<Rightarrow> 32 word" where
  "hs_hash key =
     (let k = key XOR drop_bit 33 key;
          k = k * 0xff51afd7ed558ccd;
          k = k XOR drop_bit 33 k;
          k = k * 0xc4ceb9fe1a85ec53;
          k = k XOR drop_bit 33 k
      in ucast k)"

record hset =
  hs_tableSize :: nat
  hs_keys :: "ptr list"
  hs_size :: int

definition hs_firstIndex :: "nat \<Rightarrow> ptr \<Rightarrow> nat" where
  "hs_firstIndex ts key = unat (hs_hash key AND (word_of_nat ts - 1))"

definition hs_nextIndex :: "nat \<Rightarrow> nat \<Rightarrow> nat" where
  "hs_nextIndex ts ix = (ix + 1) AND (ts - 1)"

text \<open>The loop of \<open>getIndex\<close>; it does not return when no cell is empty or holds the key.\<close>

partial_function (option) hs_probe :: "ptr list \<Rightarrow> nat \<Rightarrow> ptr \<Rightarrow> nat \<Rightarrow> nat option" where
  "hs_probe keys ts key ix =
     (if keys ! ix = NULL \<or> keys ! ix = key then Some ix else hs_probe keys ts key (hs_nextIndex ts ix))"

definition hs_getIndex :: "ptr \<Rightarrow> hset \<Rightarrow> nat option" where
  "hs_getIndex key s = hs_probe (hs_keys s) (hs_tableSize s) key (hs_firstIndex (hs_tableSize s) key)"

definition hs_clear :: "hset \<Rightarrow> hset" where
  "hs_clear s = (if hs_size s \<noteq> 0 then s\<lparr>hs_keys := replicate (hs_tableSize s) NULL, hs_size := 0\<rparr> else s)"

function hs_tableLoop :: "nat \<Rightarrow> nat \<Rightarrow> nat" where
  "hs_tableLoop n ts = (if 0 < ts \<and> ts < n * 4 then hs_tableLoop n (ts * 2) else ts)"
  by pat_completeness auto
termination by (relation "measure (\<lambda>(n, ts). n * 4 - ts)") auto

declare hs_tableLoop.simps [simp del]

text \<open>\<open>garbage\<close> is the contents of the memory that \<open>new\<close> returns.\<close>

definition hs_new :: "nat \<Rightarrow> (nat \<Rightarrow> ptr list) \<Rightarrow> hset" where
  "hs_new numberOfElements garbage =
     (let ts = hs_tableLoop numberOfElements 32
      in hs_clear \<lparr>hs_tableSize = ts, hs_keys = garbage ts, hs_size = -1\<rparr>)"

definition hs_get :: "ptr \<Rightarrow> hset \<Rightarrow> ptr option" where
  "hs_get key s = map_option (\<lambda>ix. hs_keys s ! ix) (hs_getIndex key s)"

definition hs_contains :: "ptr \<Rightarrow> hset \<Rightarrow> bool option" where
  "hs_contains key s = map_option (\<lambda>k. k \<noteq> NULL) (hs_get key s)"

text \<open>\<open>None\<close> when the search does not return or the assertion after the insertion fails.\<close>

definition hs_insert :: "ptr \<Rightarrow> hset \<Rightarrow> hset option" where
  "hs_insert key s =
     (case hs_getIndex key s of
        None \<Rightarrow> None
      | Some ix \<Rightarrow>
          if hs_keys s ! ix = NULL
          then let s1 = s\<lparr>hs_keys := (hs_keys s)[ix := key], hs_size := hs_size s + 1\<rparr>
               in if hs_size s1 < int (hs_tableSize s1) then Some s1 else None
          else Some s)"

subsection \<open>Probing\<close>

lemma nextIndex_mod: "ts = 2 ^ j \<Longrightarrow> hs_nextIndex ts ix = (ix + 1) mod ts"
  using take_bit_eq_mask [of j "ix + 1"] take_bit_eq_mod [of j "ix + 1"]
  by (simp add: hs_nextIndex_def mask_eq_exp_minus_1)

lemma firstIndex_less: "ts = 2 ^ j \<Longrightarrow> hs_firstIndex ts key < ts"
proof -
  assume ts: "ts = 2 ^ j"
  have "word_of_nat ts - 1 = (mask j :: 32 word)" by (simp add: ts mask_eq_exp_minus_1)
  then have "hs_firstIndex ts key = unat (take_bit j (hs_hash key))"
    by (simp add: hs_firstIndex_def take_bit_eq_mask)
  then show ?thesis by (simp add: ts unsigned_take_bit_eq take_bit_nat_less_exp)
qed

text \<open>The cells that stop a search for a key, and the distance at which a search stops.\<close>

definition stops :: "ptr list \<Rightarrow> ptr \<Rightarrow> nat \<Rightarrow> bool" where
  "stops keys key i \<longleftrightarrow> keys ! i = NULL \<or> keys ! i = key"

lemma probe_at:
  assumes ts: "ts = 2 ^ j" and ix: "ix < ts"
    and d: "stops keys key ((ix + d) mod ts)" "\<forall>d'<d. \<not> stops keys key ((ix + d') mod ts)"
  shows "hs_probe keys ts key ix = Some ((ix + d) mod ts)"
  using ix d
proof (induction d arbitrary: ix)
  case 0
  then show ?case by (subst hs_probe.simps) (simp add: stops_def)
next
  case (Suc d)
  have n: "\<not> stops keys key ix" using Suc.prems(1,3) by (metis Nat.add_0_right mod_less zero_less_Suc)
  have sh: "((ix + 1) mod ts + d') mod ts = (ix + Suc d') mod ts" for d' by (simp add: mod_add_left_eq)
  have "hs_probe keys ts key ((ix + 1) mod ts) = Some (((ix + 1) mod ts + d) mod ts)"
  proof (rule Suc.IH)
    show "(ix + 1) mod ts < ts" using Suc.prems(1) by (intro mod_less_divisor) simp
    show "stops keys key (((ix + 1) mod ts + d) mod ts)" using Suc.prems(2) sh by simp
    show "\<forall>d'<d. \<not> stops keys key (((ix + 1) mod ts + d') mod ts)" using Suc.prems(3) sh by auto
  qed
  then show ?case using n sh by (subst hs_probe.simps) (simp add: stops_def nextIndex_mod [OF ts])
qed

lemma probe_ex:
  assumes ts: "ts = 2 ^ j" and ix: "ix < ts" and i: "i < ts" "stops keys key i"
  shows "\<exists>d. hs_probe keys ts key ix = Some ((ix + d) mod ts) \<and> stops keys key ((ix + d) mod ts)
    \<and> (\<forall>d'<d. \<not> stops keys key ((ix + d') mod ts))"
proof -
  define P where "P d = stops keys key ((ix + d) mod ts)" for d
  have "(ix + (ts - ix + i)) mod ts = i" using ix i by simp
  then have "P (ts - ix + i)" using i(2) by (simp add: P_def)
  then have L: "P (Least P)" by (rule LeastI)
  define D where "D = Least P"
  have 1: "stops keys key ((ix + D) mod ts)" using L by (simp only: P_def D_def)
  have 2: "\<forall>d'<D. \<not> stops keys key ((ix + d') mod ts)"
    using not_less_Least [of _ P] unfolding D_def [symmetric] by (simp only: P_def) blast
  show ?thesis using probe_at [OF ts ix 1 2] 1 2 by blast
qed

text \<open>A full table in which a key is not: the search does not return.\<close>

lemma probe_full:
  assumes "hs_probe keys ts key ix = Some i"
  shows "stops keys key i"
  by (rule hs_probe.raw_induct [where P = "\<lambda>keys ts key ix i. stops keys key i", OF _ assms])
     (auto simp: stops_def split: if_splits)

subsection \<open>The invariant\<close>

definition hs_set :: "hset \<Rightarrow> ptr set" where
  "hs_set s = set (hs_keys s) - {NULL}"

definition hs_ok :: "hset \<Rightarrow> bool" where
  "hs_ok s \<longleftrightarrow> (\<exists>j. hs_tableSize s = 2 ^ j) \<and> length (hs_keys s) = hs_tableSize s
     \<and> hs_size s = int (card (hs_set s))
     \<and> (\<forall>i<hs_tableSize s. hs_keys s ! i \<noteq> NULL \<longrightarrow> hs_getIndex (hs_keys s ! i) s = Some i)"

lemma empty_cell:
  assumes "length keys = ts" "card (set keys - {NULL}) < ts"
    and d: "\<And>i i'. i < ts \<Longrightarrow> i' < ts \<Longrightarrow> keys ! i \<noteq> NULL \<Longrightarrow> keys ! i' = keys ! i \<Longrightarrow> i' = i"
  shows "\<exists>i<ts. keys ! i = NULL"
proof (rule ccontr)
  assume n: "\<not> (\<exists>i<ts. keys ! i = NULL)"
  then have "distinct keys" using assms(1) d by (auto simp: distinct_conv_nth)
  moreover have "NULL \<notin> set keys" using n assms(1) by (auto simp: in_set_conv_nth)
  ultimately have "card (set keys - {NULL}) = ts" using assms(1) distinct_card by fastforce
  then show False using assms(2) by simp
qed

lemma hs_inj:
  assumes "hs_ok s" "i < hs_tableSize s" "i' < hs_tableSize s" "hs_keys s ! i \<noteq> NULL" "hs_keys s ! i' = hs_keys s ! i"
  shows "i' = i"
  using assms unfolding hs_ok_def by (metis option.inject)

text \<open>Where a search ends: at the key, or at an empty cell when the key is not in the table.\<close>

lemma hs_getIndex_ok:
  assumes s: "hs_ok s" "hs_size s < int (hs_tableSize s)" and k: "key \<noteq> NULL"
  obtains ix d where "hs_getIndex key s = Some ix" "ix < hs_tableSize s" "hs_keys s ! ix = (if key \<in> hs_set s then key else NULL)"
    "ix = (hs_firstIndex (hs_tableSize s) key + d) mod hs_tableSize s"
    "\<forall>d'<d. \<not> stops (hs_keys s) key ((hs_firstIndex (hs_tableSize s) key + d') mod hs_tableSize s)"
proof -
  let ?ts = "hs_tableSize s" and ?ks = "hs_keys s"
  obtain j where j: "?ts = 2 ^ j" using s(1) unfolding hs_ok_def by blast
  have len: "length ?ks = ?ts" using s(1) by (simp add: hs_ok_def)
  have "card (set ?ks - {NULL}) < ?ts" using s by (simp add: hs_ok_def hs_set_def)
  then obtain i where "i < ?ts" "?ks ! i = NULL" using empty_cell [OF len] hs_inj [OF s(1)] by blast
  then have "stops ?ks key i" by (simp add: stops_def)
  then obtain d where d: "hs_getIndex key s = Some ((hs_firstIndex ?ts key + d) mod ?ts)"
    "stops ?ks key ((hs_firstIndex ?ts key + d) mod ?ts)"
    "\<forall>d'<d. \<not> stops ?ks key ((hs_firstIndex ?ts key + d') mod ?ts)"
    using probe_ex [OF j firstIndex_less [OF j] \<open>i < ?ts\<close>] unfolding hs_getIndex_def by blast
  define ix where "ix = (hs_firstIndex ?ts key + d) mod ?ts"
  have ix: "ix < ?ts" by (simp add: ix_def j)
  have "?ks ! ix = (if key \<in> hs_set s then key else NULL)"
  proof (cases "key \<in> hs_set s")
    case True
    then obtain i' where i': "i' < ?ts" "?ks ! i' = key" using len by (auto simp: hs_set_def in_set_conv_nth)
    then have "hs_getIndex key s = Some i'" using s(1) k unfolding hs_ok_def by metis
    then show ?thesis using d(1) i' True by (simp add: ix_def)
  next
    case False
    then have "?ks ! ix \<noteq> key" using ix len k nth_mem by (auto simp: hs_set_def)
    then show ?thesis using d(2) False by (simp add: stops_def ix_def)
  qed
  then show ?thesis using that d ix by (simp add: ix_def)
qed

lemma hs_contains_ok:
  assumes "hs_ok s" "hs_size s < int (hs_tableSize s)" "key \<noteq> NULL"
  shows "hs_contains key s = Some (key \<in> hs_set s)"
proof -
  obtain ix where "hs_getIndex key s = Some ix" "hs_keys s ! ix = (if key \<in> hs_set s then key else NULL)"
    by (rule hs_getIndex_ok [OF assms])
  then show ?thesis using assms(3) by (simp add: hs_contains_def hs_get_def)
qed

lemma hs_insert_ok:
  assumes s: "hs_ok s" "card (insert key (hs_set s)) < hs_tableSize s" and k: "key \<noteq> NULL"
  shows "\<exists>s'. hs_insert key s = Some s' \<and> hs_ok s' \<and> hs_set s' = insert key (hs_set s) \<and> hs_tableSize s' = hs_tableSize s"
proof -
  let ?ts = "hs_tableSize s" and ?ks = "hs_keys s"
  obtain j where j: "?ts = 2 ^ j" using s(1) unfolding hs_ok_def by blast
  have len: "length ?ks = ?ts" and sz: "hs_size s = int (card (hs_set s))"
    and fnd: "\<And>i. i < ?ts \<Longrightarrow> ?ks ! i \<noteq> NULL \<Longrightarrow> hs_getIndex (?ks ! i) s = Some i" using s(1) by (auto simp: hs_ok_def)
  have room: "hs_size s < int ?ts"
    using s(2) card_insert_le [of "hs_set s" key] unfolding sz by linarith
  obtain ix d where ix: "hs_getIndex key s = Some ix" "ix < ?ts" "?ks ! ix = (if key \<in> hs_set s then key else NULL)"
    "ix = (hs_firstIndex ?ts key + d) mod ?ts" "\<forall>d'<d. \<not> stops ?ks key ((hs_firstIndex ?ts key + d') mod ?ts)"
    by (rule hs_getIndex_ok [OF s(1) room k])
  show ?thesis
  proof (cases "key \<in> hs_set s")
    case True
    then show ?thesis using ix k s(1) by (simp add: hs_insert_def insert_absorb)
  next
    case False
    define ks' where "ks' = ?ks[ix := key]"
    define s' where "s' = s\<lparr>hs_keys := ks', hs_size := hs_size s + 1\<rparr>"
    have n: "?ks ! ix = NULL" using ix(3) False by simp
    have set': "hs_set s' = insert key (hs_set s)"
    proof -
      have "set ks' - {NULL} = insert key (set ?ks - {NULL})"
      proof -
        define A where "A = set (take ix ?ks) \<union> set (drop (Suc ix) ?ks)"
        have "?ks = take ix ?ks @ NULL # drop (Suc ix) ?ks" using id_take_nth_drop [of ix ?ks] ix(2) len n by simp
        then have "set ?ks = insert NULL A" unfolding A_def by (metis Un_insert_right list.simps(15) set_append)
        moreover have "ks' = take ix ?ks @ key # drop (Suc ix) ?ks"
          using ix(2) len by (simp add: ks'_def upd_conv_take_nth_drop)
        then have "set ks' = insert key A" by (simp add: A_def)
        ultimately show ?thesis using k by auto
      qed
      then show ?thesis by (simp add: hs_set_def s'_def)
    qed
    have stop': "stops ks' k' i = (if i = ix then k' = key else stops ?ks k' i)" if "i < ?ts" for i k'
      using that ix(2) len k by (auto simp: stops_def ks'_def nth_list_update)
    have m: "x mod ?ts < ?ts" for x using j by simp
    have "hs_getIndex (ks' ! i) s' = Some i" if i: "i < ?ts" "ks' ! i \<noteq> NULL" for i
    proof (cases "i = ix")
      case True
      have "\<forall>d'<d. \<not> stops ks' key ((hs_firstIndex ?ts key + d') mod ?ts)"
      proof (intro allI impI)
        fix d'
        assume d': "d' < d"
        have "\<not> stops ?ks key ((hs_firstIndex ?ts key + d') mod ?ts)" using ix(5) d' by blast
        then have "(hs_firstIndex ?ts key + d') mod ?ts \<noteq> ix" using n by (auto simp: stops_def)
        then show "\<not> stops ks' key ((hs_firstIndex ?ts key + d') mod ?ts)" using ix(5) d' stop' [OF m] by auto
      qed
      then show ?thesis
        using True probe_at [OF j firstIndex_less [OF j, of key], of ks' key d] ix(2,4) stop' [OF m [of "hs_firstIndex ?ts key + d"], of key] len
        by (simp add: hs_getIndex_def s'_def ks'_def)
    next
      case other: False
      let ?k = "?ks ! i"
      have ki: "ks' ! i = ?k" "?k \<noteq> NULL" using other i by (simp_all add: ks'_def)
      have kk: "?k \<noteq> key" using False ki(2) i(1) len nth_mem by (auto simp: hs_set_def)
      have st: "stops ?ks ?k i" by (simp add: stops_def)
      then obtain e where e: "hs_getIndex ?k s = Some ((hs_firstIndex ?ts ?k + e) mod ?ts)"
        "\<forall>d'<e. \<not> stops ?ks ?k ((hs_firstIndex ?ts ?k + d') mod ?ts)"
        using probe_ex [OF j firstIndex_less [OF j] i(1)] unfolding hs_getIndex_def by blast
      then have ei: "(hs_firstIndex ?ts ?k + e) mod ?ts = i" using fnd [OF i(1) ki(2)] by simp
      have "\<forall>d'<e. \<not> stops ks' ?k ((hs_firstIndex ?ts ?k + d') mod ?ts)" using e(2) stop' [OF m] kk by auto
      moreover have "stops ks' ?k ((hs_firstIndex ?ts ?k + e) mod ?ts)" unfolding ei using stop' [OF i(1), of ?k] other st by simp
      ultimately show ?thesis
        using probe_at [OF j firstIndex_less [OF j, of ?k], of ks' ?k e] ei ki(1) by (simp add: hs_getIndex_def s'_def)
    qed
    moreover have size': "hs_size s + 1 = int (card (insert key (hs_set s)))" using sz False by (simp add: hs_set_def)
    ultimately have "hs_ok s'" using j len set' by (auto simp: hs_ok_def s'_def ks'_def)
    moreover have "hs_insert key s = Some s'" using ix(1) n size' s(2) by (simp add: hs_insert_def s'_def ks'_def)
    ultimately show ?thesis using set' by (simp add: s'_def)
  qed
qed

lemma hs_clear_ok: "hs_ok s \<Longrightarrow> hs_ok (hs_clear s) \<and> hs_set (hs_clear s) = {} \<and> hs_tableSize (hs_clear s) = hs_tableSize s"
  by (auto simp: hs_clear_def hs_ok_def hs_set_def)

lemma tableLoop: "ts = 2 ^ i \<Longrightarrow> \<exists>j. hs_tableLoop n ts = 2 ^ j \<and> n * 4 \<le> hs_tableLoop n ts \<and> ts \<le> hs_tableLoop n ts"
proof (induction n ts arbitrary: i rule: hs_tableLoop.induct)
  case (1 n ts)
  show ?case
  proof (cases "ts < n * 4")
    case True
    then obtain j where "hs_tableLoop n (ts * 2) = 2 ^ j" "n * 4 \<le> hs_tableLoop n (ts * 2)" "ts * 2 \<le> hs_tableLoop n (ts * 2)"
      using 1(1) [of "Suc i"] 1(2) by auto
    moreover have "0 < ts" using 1(2) by simp
    then have "hs_tableLoop n ts = hs_tableLoop n (ts * 2)" using True by (subst hs_tableLoop.simps) simp
    ultimately show ?thesis by auto
  next
    case False
    then have "hs_tableLoop n ts = ts" by (subst hs_tableLoop.simps) simp
    then show ?thesis using False 1(2) by auto
  qed
qed

lemma hs_new_ok:
  shows "hs_ok (hs_new n garbage)" "hs_set (hs_new n garbage) = {}" "n * 4 \<le> hs_tableSize (hs_new n garbage)"
    "32 \<le> hs_tableSize (hs_new n garbage)"
proof -
  obtain j where j: "hs_tableLoop n 32 = 2 ^ j" "n * 4 \<le> hs_tableLoop n 32" "32 \<le> hs_tableLoop n 32"
    using tableLoop [of 32 5 n] by auto
  then show "hs_ok (hs_new n garbage)" "hs_set (hs_new n garbage) = {}" "n * 4 \<le> hs_tableSize (hs_new n garbage)"
    "32 \<le> hs_tableSize (hs_new n garbage)"
    by (auto simp: hs_new_def hs_clear_def hs_ok_def hs_set_def Let_def)
qed

subsection \<open>Refinement of a set\<close>

text \<open>
  The interface the users rely on: a key can be added while there is room, and then everything
  else is as before. Its client: the keys of a list are added one after the other.
\<close>

primrec insert_all :: "(ptr \<Rightarrow> 's \<Rightarrow> 's option) \<Rightarrow> ptr list \<Rightarrow> 's \<Rightarrow> 's option" where
  "insert_all ins [] s = Some s"
| "insert_all ins (k # ks) s = (case ins k s of None \<Rightarrow> None | Some s' \<Rightarrow> insert_all ins ks s')"

locale bounded_set =
  fixes ok :: "'s \<Rightarrow> bool"
    and elems :: "'s \<Rightarrow> ptr set"
    and room :: "'s \<Rightarrow> nat"
    and ins :: "ptr \<Rightarrow> 's \<Rightarrow> 's option"
  assumes finite_elems: "finite (elems s)"
    and ins_ok: "ok s \<Longrightarrow> card (insert k (elems s)) < room s \<Longrightarrow> k \<noteq> NULL
      \<Longrightarrow> \<exists>s'. ins k s = Some s' \<and> ok s' \<and> elems s' = insert k (elems s) \<and> room s' = room s"
begin

lemma insert_all_ok:
  "ok s \<Longrightarrow> card (elems s) + length ks < room s \<Longrightarrow> NULL \<notin> set ks
   \<Longrightarrow> \<exists>s'. insert_all ins ks s = Some s' \<and> ok s' \<and> elems s' = elems s \<union> set ks \<and> room s' = room s"
proof (induction ks arbitrary: s)
  case Nil
  then show ?case by simp
next
  case (Cons k ks)
  then have "card (insert k (elems s)) < room s" by (simp add: card_insert_if finite_elems)
  then obtain s' where s': "ins k s = Some s'" "ok s'" "elems s' = insert k (elems s)" "room s' = room s"
    using ins_ok [of s k] Cons.prems by auto
  have "card (elems s') \<le> Suc (card (elems s))" by (simp add: s'(3) card_insert_if finite_elems)
  then show ?case using Cons.IH [of s'] Cons.prems s' by auto
qed

end

lemma hs_size_card: "hs_ok s \<Longrightarrow> hs_size s = int (card (hs_set s))"
  by (simp add: hs_ok_def)

interpretation hset_set: bounded_set hs_ok hs_set hs_tableSize hs_insert
proof
  show "finite (hs_set s)" for s by (simp add: hs_set_def)
  show "\<exists>s'. hs_insert k s = Some s' \<and> hs_ok s' \<and> hs_set s' = insert k (hs_set s) \<and> hs_tableSize s' = hs_tableSize s"
    if "hs_ok s" "card (insert k (hs_set s)) < hs_tableSize s" "k \<noteq> NULL" for s k
    using hs_insert_ok that by simp
qed

text \<open>Sequences of calls on the hash set, and on a set.\<close>

datatype hs_op = HInsert ptr | HContains ptr | HClear | HSize

primrec hs_exec :: "hs_op \<Rightarrow> hset \<Rightarrow> (int \<times> hset) option" where
  "hs_exec (HInsert k) s = map_option (Pair 0) (hs_insert k s)"
| "hs_exec (HContains k) s = map_option (\<lambda>b. (of_bool b, s)) (hs_contains k s)"
| "hs_exec HClear s = Some (0, hs_clear s)"
| "hs_exec HSize s = Some (hs_size s, s)"

primrec set_exec :: "hs_op \<Rightarrow> ptr set \<Rightarrow> int \<times> ptr set" where
  "set_exec (HInsert k) A = (0, insert k A)"
| "set_exec (HContains k) A = (of_bool (k \<in> A), A)"
| "set_exec HClear A = (0, {})"
| "set_exec HSize A = (int (card A), A)"

primrec hs_run :: "hs_op list \<Rightarrow> hset \<Rightarrow> (int list \<times> hset) option" where
  "hs_run [] s = Some ([], s)"
| "hs_run (a # as) s =
     (case hs_exec a s of
        None \<Rightarrow> None
      | Some (r, s') \<Rightarrow> (case hs_run as s' of None \<Rightarrow> None | Some (rs, s'') \<Rightarrow> Some (r # rs, s'')))"

primrec set_run :: "hs_op list \<Rightarrow> ptr set \<Rightarrow> int list \<times> ptr set" where
  "set_run [] A = ([], A)"
| "set_run (a # as) A = (let (r, A') = set_exec a A; (rs, A'') = set_run as A' in (r # rs, A''))"

fun op_key :: "hs_op \<Rightarrow> ptr list" where
  "op_key (HInsert k) = [k]"
| "op_key (HContains k) = [k]"
| "op_key _ = []"

lemma hs_exec_ok:
  assumes "hs_ok s" "card (hs_set s) < hs_tableSize s" "NULL \<notin> set (op_key a)"
    and "\<forall>k. a = HInsert k \<longrightarrow> card (insert k (hs_set s)) < hs_tableSize s"
  shows "\<exists>s'. hs_exec a s = Some (fst (set_exec a (hs_set s)), s') \<and> hs_ok s' \<and> hs_set s' = snd (set_exec a (hs_set s))
    \<and> hs_tableSize s' = hs_tableSize s"
proof (cases a)
  case (HInsert k)
  then show ?thesis using hset_set.ins_ok [of s k] assms by auto
next
  case (HContains k)
  then show ?thesis using hs_contains_ok [of s k] assms hs_size_card by auto
qed (use assms hs_clear_ok hs_size_card in auto)

lemma hs_run_ok:
  assumes "hs_ok s" "hs_set s \<subseteq> K" "finite K" "card K < hs_tableSize s"
    and "\<forall>k. HInsert k \<in> set as \<longrightarrow> k \<in> K" "\<forall>a\<in>set as. NULL \<notin> set (op_key a)"
  shows "\<exists>s'. hs_run as s = Some (fst (set_run as (hs_set s)), s') \<and> hs_set s' = snd (set_run as (hs_set s))
    \<and> hs_tableSize s' = hs_tableSize s"
  using assms(1,2,4,5,6)
proof (induction as arbitrary: s)
  case Nil
  then show ?case by simp
next
  case (Cons a as)
  have "card (hs_set s) < hs_tableSize s" using card_mono [OF assms(3) Cons.prems(2)] Cons.prems(3) by linarith
  moreover have "card (insert k (hs_set s)) < hs_tableSize s" if "a = HInsert k" for k
    using card_mono [OF assms(3), of "insert k (hs_set s)"] Cons.prems(2,3,4) that by fastforce
  ultimately obtain s' where s': "hs_exec a s = Some (fst (set_exec a (hs_set s)), s')" "hs_ok s'"
    "hs_set s' = snd (set_exec a (hs_set s))" "hs_tableSize s' = hs_tableSize s"
    using hs_exec_ok [of s a] Cons.prems by auto
  have "hs_set s' \<subseteq> K" using Cons.prems s'(3) by (cases a) auto
  then show ?case using Cons.IH [of s'] Cons.prems s' by (auto simp: split_beta Let_def)
qed

lemma tableLoop_less: "hs_tableLoop n ts \<le> max ts (8 * n)"
proof (induction n ts rule: hs_tableLoop.induct)
  case (1 n ts)
  then show ?case by (subst hs_tableLoop.simps) auto
qed



subsection \<open>The older \<open>hashset\<close>\<close>

text \<open>
  A table of 32 cells, with the hash computed on signed words. \<open>HASHSET_NEXT_INDEX\<close> is
  \<open>ix + (1 % 32)\<close>, so the index runs past the table; an access there is \<open>None\<close>.
\<close>

definition HASHSET_TABLE_SIZE :: nat where
  "HASHSET_TABLE_SIZE = 32"

definition os_hash :: "ptr \<Rightarrow> 32 word" where
  "os_hash key =
     (let k = key XOR signed_drop_bit 33 key;
          k = k * 0xff51afd7ed558ccd;
          k = k XOR signed_drop_bit 33 k;
          k = k * 0xc4ceb9fe1a85ec53;
          k = k XOR signed_drop_bit 33 k
      in ucast k)"

record ohset =
  os_cleared :: bool
  os_keys :: "ptr list"

definition HASHSET_FIRST_INDEX :: "ptr \<Rightarrow> nat" where
  "HASHSET_FIRST_INDEX key = unat (os_hash key AND 31)"

definition HASHSET_NEXT_INDEX :: "nat \<Rightarrow> nat" where
  "HASHSET_NEXT_INDEX ix = ix + 1 mod HASHSET_TABLE_SIZE"

function os_probe :: "ptr list \<Rightarrow> ptr \<Rightarrow> nat \<Rightarrow> nat option" where
  "os_probe keys key ix =
     (if ix < HASHSET_TABLE_SIZE
      then (if keys ! ix \<noteq> NULL \<and> keys ! ix \<noteq> key then os_probe keys key (HASHSET_NEXT_INDEX ix) else Some ix)
      else None)"
  by pat_completeness auto
termination by (relation "measure (\<lambda>(keys, key, ix). HASHSET_TABLE_SIZE - ix)") (auto simp: HASHSET_NEXT_INDEX_def HASHSET_TABLE_SIZE_def)

declare os_probe.simps [simp del]

definition os_getIndex :: "ptr \<Rightarrow> ohset \<Rightarrow> nat option" where
  "os_getIndex key s = os_probe (os_keys s) key (HASHSET_FIRST_INDEX key)"

definition os_clear :: "ohset \<Rightarrow> ohset" where
  "os_clear s = (if \<not> os_cleared s then s\<lparr>os_keys := replicate HASHSET_TABLE_SIZE NULL, os_cleared := True\<rparr> else s)"

definition os_new :: "ptr list \<Rightarrow> ohset" where
  "os_new garbage = os_clear \<lparr>os_cleared = False, os_keys = garbage\<rparr>"

definition os_get :: "ptr \<Rightarrow> ohset \<Rightarrow> ptr option" where
  "os_get key s = map_option (\<lambda>ix. os_keys s ! ix) (os_getIndex key s)"

definition os_contains :: "ptr \<Rightarrow> ohset \<Rightarrow> bool option" where
  "os_contains key s = map_option (\<lambda>k. k \<noteq> NULL) (os_get key s)"

definition os_insert :: "ptr \<Rightarrow> ohset \<Rightarrow> ohset option" where
  "os_insert key s = map_option (\<lambda>ix. s\<lparr>os_keys := (os_keys s)[ix := key]\<rparr>) (os_getIndex key s)"

definition os_erase :: "ptr \<Rightarrow> ohset \<Rightarrow> ohset option" where
  "os_erase key s = map_option (\<lambda>ix. s\<lparr>os_keys := (os_keys s)[ix := NULL]\<rparr>) (os_getIndex key s)"

lemma os_first_1024: "HASHSET_FIRST_INDEX 1024 = 31" by code_simp
lemma os_first_4032: "HASHSET_FIRST_INDEX 4032 = 31" by code_simp
lemma os_first_192: "HASHSET_FIRST_INDEX 192 = 29" by code_simp
lemma os_first_384: "HASHSET_FIRST_INDEX 384 = 29" by code_simp

lemmas os_defs = os_insert_def os_erase_def os_contains_def os_get_def os_getIndex_def os_new_def os_clear_def
  os_probe.simps HASHSET_NEXT_INDEX_def HASHSET_TABLE_SIZE_def os_first_1024 os_first_4032 os_first_192 os_first_384

text \<open>Two keys with the last index: the search for the second leaves the table.\<close>

lemma old_hashset_out_of_bounds:
  "\<exists>s. os_insert 1024 (os_new garbage) = Some s \<and> os_contains 4032 s = None \<and> os_insert 4032 s = None"
  by (simp add: os_defs)

text \<open>\<open>clear\<close> clears once, in the constructor; keys added later stay.\<close>

lemma old_hashset_clear_keeps:
  "\<exists>s. os_insert 1024 (os_new garbage) = Some s \<and> os_contains 1024 (os_clear s) = Some True"
  by (simp add: os_defs)

text \<open>Erasing a key hides a key that was moved on by the collision.\<close>

lemma old_hashset_erase_hides:
  "\<exists>s1 s2 s3. os_insert 192 (os_new garbage) = Some s1 \<and> os_insert 384 s1 = Some s2 \<and> os_contains 384 s2 = Some True
     \<and> os_erase 192 s2 = Some s3 \<and> os_contains 384 s3 = Some False"
  by (simp add: os_defs)

end
