(* ===== verification/HazardPtr.thy ===== *)
theory HazardPtr
  imports ArrayLists HashTable
begin

text \<open>
  The hazard pointers of \<open>common/recordmgr/reclaimer_hazardptr.h\<close>: a thread announces the
  nodes it may use in an array list, and a thread whose list of retired nodes is full collects all
  announcements in a hash set and frees the retired nodes that are not in it. The functions first as
  the code of one thread, then the collection access by access while the owner of an array list
  changes it.
\<close>

subsection \<open>The class and its operations\<close>

definition MAX_HAZARDPTRS_PER_THREAD :: nat where
  "MAX_HAZARDPTRS_PER_THREAD = 16"

record hazp =
  hz_scanThreshold :: nat
  hz_announce :: "alist list"
  hz_retired :: "alist list"
  hz_comparing :: "hset list"
  hz_freed :: "ptr list"

text \<open>\<open>garbage\<close> is what the new arrays hold; \<open>hz_freed\<close> is what went to the pool.\<close>

definition hz_new :: "nat \<Rightarrow> (nat \<Rightarrow> ptr list) \<Rightarrow> hazp" where
  "hz_new numProcesses garbage =
     \<lparr>hz_scanThreshold = 5 * numProcesses * MAX_HAZARDPTRS_PER_THREAD,
      hz_announce = replicate numProcesses (al_new MAX_HAZARDPTRS_PER_THREAD garbage),
      hz_retired = replicate numProcesses (al_new (5 * numProcesses * MAX_HAZARDPTRS_PER_THREAD) garbage),
      hz_comparing = replicate numProcesses (hs_new (numProcesses * MAX_HAZARDPTRS_PER_THREAD) garbage),
      hz_freed = []\<rparr>"

definition hz_isProtected :: "nat \<Rightarrow> ptr \<Rightarrow> hazp \<Rightarrow> bool" where
  "hz_isProtected tid obj s = al_contains obj (hz_announce s ! tid)"

definition hz_unprotect :: "nat \<Rightarrow> ptr \<Rightarrow> hazp \<Rightarrow> hazp option" where
  "hz_unprotect tid obj s =
     map_option (\<lambda>l. s\<lparr>hz_announce := (hz_announce s)[tid := l]\<rparr>) (al_erase_obj obj (hz_announce s ! tid))"

text \<open>\<open>notRetired\<close> is what the callback returns.\<close>

definition hz_protect :: "nat \<Rightarrow> ptr \<Rightarrow> bool \<Rightarrow> hazp \<Rightarrow> (bool \<times> hazp) option" where
  "hz_protect tid obj notRetired s =
     (case al_add obj (hz_announce s ! tid) of
        None \<Rightarrow> None
      | Some l \<Rightarrow>
          (let s1 = s\<lparr>hz_announce := (hz_announce s)[tid := l]\<rparr>
           in if notRetired then (if hz_isProtected tid obj s1 then Some (True, s1) else None)
              else map_option (Pair False) (hz_unprotect tid obj s1)))"

definition hz_endOp :: "nat \<Rightarrow> hazp \<Rightarrow> hazp" where
  "hz_endOp tid s = s\<lparr>hz_announce := (hz_announce s)[tid := al_clear (hz_announce s ! tid)]\<rparr>"

text \<open>The collection of the announcements of one thread, and of all threads.\<close>

function hz_collect_from :: "alist \<Rightarrow> nat \<Rightarrow> nat \<Rightarrow> hset \<Rightarrow> hset option" where
  "hz_collect_from l sz ixHP h =
     (if ixHP < sz
      then (case hs_insert (al_get ixHP l) h of None \<Rightarrow> None | Some h' \<Rightarrow> hz_collect_from l sz (ixHP + 1) h')
      else Some h)"
  by pat_completeness auto
termination by (relation "measure (\<lambda>(l, sz, ixHP, h). sz - ixHP)") auto

declare hz_collect_from.simps [simp del]

primrec hz_collect :: "alist list \<Rightarrow> hset \<Rightarrow> hset option" where
  "hz_collect [] h = Some h"
| "hz_collect (l # ls) h =
     (if al_size l < MAX_HAZARDPTRS_PER_THREAD
      then (case hz_collect_from l (al_size l) 0 h of None \<Rightarrow> None | Some h' \<Rightarrow> hz_collect ls h')
      else None)"

text \<open>The sweep over the retired nodes: what is left and what is freed.\<close>

function hz_sweep :: "hset \<Rightarrow> alist \<Rightarrow> nat \<Rightarrow> ptr list \<Rightarrow> (alist \<times> ptr list) option" where
  "hz_sweep h l ix freed =
     (if ix < al_size l
      then (case hs_contains (al_get ix l) h of
              None \<Rightarrow> None
            | Some True \<Rightarrow> hz_sweep h l (ix + 1) freed
            | Some False \<Rightarrow>
                (case al_erase ix l of None \<Rightarrow> None | Some l' \<Rightarrow> hz_sweep h l' ix (freed @ [al_get ix l])))
      else Some (l, freed))"
  by pat_completeness auto
termination by (relation "measure (\<lambda>(h, l, ix, freed). al_size l - ix)") (auto simp: al_erase_def Let_def split: if_splits)

declare hz_sweep.simps [simp del]

definition hz_retire :: "nat \<Rightarrow> ptr \<Rightarrow> hazp \<Rightarrow> hazp option" where
  "hz_retire tid p s =
     (case al_add p (hz_retired s ! tid) of
        None \<Rightarrow> None
      | Some l \<Rightarrow>
          (if al_isFull l
           then (case hz_collect (hz_announce s) (hs_clear (hz_comparing s ! tid)) of
                   None \<Rightarrow> None
                 | Some h \<Rightarrow>
                     (case hz_sweep h l 0 (hz_freed s) of
                        None \<Rightarrow> None
                      | Some (l', freed) \<Rightarrow>
                          Some (s\<lparr>hz_retired := (hz_retired s)[tid := l'],
                                  hz_comparing := (hz_comparing s)[tid := h], hz_freed := freed\<rparr>)))
           else Some (s\<lparr>hz_retired := (hz_retired s)[tid := l]\<rparr>)))"

definition hz_delete :: "hazp \<Rightarrow> ptr list" where
  "hz_delete s = hz_freed s @ concat (map (\<lambda>l. map (\<lambda>ix. al_get ix l) [0..<al_size l]) (hz_retired s))"

subsection \<open>What a scan frees\<close>

definition hz_announced :: "hazp \<Rightarrow> ptr set" where
  "hz_announced s = (\<Union>l\<in>set (hz_announce s). set (al_elems l))"

lemma collect_from:
  assumes "al_ok l"
  shows "i \<le> al_size l \<Longrightarrow> hz_collect_from l (al_size l) i h = insert_all hs_insert (drop i (al_elems l)) h"
proof (induction "al_size l - i" arbitrary: i h)
  case 0
  then show ?case using al_okD [OF assms] by (subst hz_collect_from.simps) simp
next
  case (Suc x)
  then have i: "i < al_size l" "i < length (al_elems l)" using al_okD [OF assms] by simp_all
  have "drop i (al_elems l) = al_get i l # drop (i + 1) (al_elems l)"
    using Cons_nth_drop_Suc [OF i(2)] elems_nth [OF i(1)] by (simp add: al_get_def)
  then show ?case using Suc i(1) by (subst hz_collect_from.simps) (auto split: option.splits)
qed

lemma insert_all_append:
  "insert_all ins (xs @ ys) s = (case insert_all ins xs s of None \<Rightarrow> None | Some s' \<Rightarrow> insert_all ins ys s')"
  by (induction xs arbitrary: s) (auto split: option.splits)

lemma collect_eq:
  "\<forall>l\<in>set ls. al_ok l \<and> al_size l < MAX_HAZARDPTRS_PER_THREAD
   \<Longrightarrow> hz_collect ls h = insert_all hs_insert (concat (map al_elems ls)) h"
  by (induction ls arbitrary: h) (auto simp: collect_from insert_all_append split: option.splits)

lemma length_concat_le: "\<forall>l\<in>set ls. length (f l) \<le> n \<Longrightarrow> length (concat (map f ls)) \<le> length ls * n"
  by (induction ls) auto

lemma collect_ok:
  assumes "\<forall>l\<in>set ls. al_ok l \<and> al_size l < MAX_HAZARDPTRS_PER_THREAD \<and> NULL \<notin> set (al_elems l)"
    and "hs_ok h" "hs_set h = {}" "length ls * 15 < hs_tableSize h"
  shows "\<exists>h'. hz_collect ls h = Some h' \<and> hs_ok h' \<and> hs_set h' = (\<Union>l\<in>set ls. set (al_elems l))
    \<and> card (hs_set h') \<le> length ls * 15 \<and> hs_tableSize h' = hs_tableSize h"
proof -
  let ?ks = "concat (map al_elems ls)"
  have "\<forall>l\<in>set ls. length (al_elems l) \<le> 15" using assms(1) al_okD by (fastforce simp: MAX_HAZARDPTRS_PER_THREAD_def)
  then have len: "length ?ks \<le> length ls * 15" by (rule length_concat_le)
  have "card (hs_set h) + length ?ks < hs_tableSize h" using len assms(3,4) by simp
  then obtain h' where h': "insert_all hs_insert ?ks h = Some h'" "hs_ok h'" "hs_set h' = set ?ks" "hs_tableSize h' = hs_tableSize h"
    using hset_set.insert_all_ok [of h ?ks] assms(1,2,3) by auto
  have "card (hs_set h') \<le> length ls * 15" unfolding h'(3) using card_length [of ?ks] len by (rule order_trans)
  then show ?thesis using h' collect_eq [of ls h] assms(1) by auto
qed

lemma sweep_ok:
  assumes h: "hs_ok h" "card (hs_set h) < hs_tableSize h"
  shows "al_ok l \<Longrightarrow> NULL \<notin> set (al_elems l) \<Longrightarrow> ix \<le> al_size l \<Longrightarrow> \<forall>i<ix. al_data l ! i \<in> hs_set h
    \<Longrightarrow> \<exists>l' fr. hz_sweep h l ix freed = Some (l', freed @ fr) \<and> al_ok l' \<and> al_capacity l' = al_capacity l
        \<and> mset (al_elems l') + mset fr = mset (al_elems l) \<and> set (al_elems l') \<subseteq> hs_set h \<and> set fr \<inter> hs_set h = {}"
proof (induction "al_size l - ix" arbitrary: l ix freed rule: less_induct)
  case less
  note l = less.prems
  show ?case
  proof (cases "ix < al_size l")
    case False
    then have "set (al_elems l) \<subseteq> hs_set h" using l in_elems [OF l(1)] by auto
    then show ?thesis using False l(1) by (subst hz_sweep.simps) simp
  next
    case True
    let ?p = "al_get ix l"
    have p: "?p \<in> set (al_elems l)" using in_elems [OF l(1)] True by (auto simp: al_get_def)
    then have "?p \<noteq> NULL" using l(2) by metis
    then have c: "hs_contains ?p h = Some (?p \<in> hs_set h)"
      using hs_contains_ok [OF h(1), of ?p] h hs_size_card by simp
    show ?thesis
    proof (cases "?p \<in> hs_set h")
      case in_h: True
      have "\<exists>l' fr. hz_sweep h l (ix + 1) freed = Some (l', freed @ fr) \<and> al_ok l' \<and> al_capacity l' = al_capacity l
        \<and> mset (al_elems l') + mset fr = mset (al_elems l) \<and> set (al_elems l') \<subseteq> hs_set h \<and> set fr \<inter> hs_set h = {}"
        using True in_h l by (intro less.hyps) (auto simp: al_get_def less_Suc_eq)
      then show ?thesis using True c in_h by (subst hz_sweep.simps) simp
    next
      case out: False
      obtain l1 where l1: "al_erase ix l = Some l1" "al_ok l1" "al_size l1 = al_size l - 1" "al_capacity l1 = al_capacity l"
        "mset (al_elems l1) + {#?p#} = mset (al_elems l)" using al_erase_ok [OF l(1) True] by blast
      have d: "al_data l1 ! i = al_data l ! i" if "i < ix" for i using l1(1) that by (auto simp: al_erase_def Let_def split: if_splits)
      have "set (al_elems l1) \<subseteq> set (al_elems l)" using arg_cong [OF l1(5), of set_mset] by auto
      then have "\<exists>l' fr. hz_sweep h l1 ix (freed @ [?p]) = Some (l', (freed @ [?p]) @ fr) \<and> al_ok l' \<and> al_capacity l' = al_capacity l1
        \<and> mset (al_elems l') + mset fr = mset (al_elems l1) \<and> set (al_elems l') \<subseteq> hs_set h \<and> set fr \<inter> hs_set h = {}"
        using True l l1 d by (intro less.hyps) auto
      then obtain l' fr where r: "hz_sweep h l1 ix (freed @ [?p]) = Some (l', (freed @ [?p]) @ fr)" "al_ok l'" "al_capacity l' = al_capacity l1"
        "mset (al_elems l') + mset fr = mset (al_elems l1)" "set (al_elems l') \<subseteq> hs_set h" "set fr \<inter> hs_set h = {}" by blast
      have e: "hz_sweep h l ix freed = hz_sweep h l1 ix (freed @ [?p])"
        using True c out l1(1) by (subst hz_sweep.simps) simp
      have "mset (al_elems l') + mset (?p # fr) = mset (al_elems l)" using l1(5) r(4) by simp
      moreover have "hz_sweep h l ix freed = Some (l', freed @ (?p # fr))" using e r(1) by simp
      ultimately show ?thesis using r(2,3,5,6) l1(4) out by (intro exI [of _ l'] exI [of _ "?p # fr"]) simp
    qed
  qed
qed

lemma split_filter:
  assumes "M + N = R" "set_mset M \<subseteq> A" "set_mset N \<inter> A = {}"
  shows "M = filter_mset (\<lambda>x. x \<in> A) R" "N = filter_mset (\<lambda>x. x \<notin> A) R"
proof -
  have "filter_mset (\<lambda>x. x \<in> A) M = M" "filter_mset (\<lambda>x. x \<notin> A) N = N"
    using assms(2,3) by (auto simp: filter_mset_eq_conv)
  moreover have "filter_mset (\<lambda>x. x \<in> A) N = {#}" "filter_mset (\<lambda>x. x \<notin> A) M = {#}"
    using assms(2,3) by (auto simp: filter_mset_eq_conv)
  ultimately show "M = filter_mset (\<lambda>x. x \<in> A) R" "N = filter_mset (\<lambda>x. x \<notin> A) R" by (simp_all add: assms(1) [symmetric])
qed

subsection \<open>The invariant, and every operation\<close>

definition hz_ok :: "nat \<Rightarrow> hazp \<Rightarrow> bool" where
  "hz_ok n s \<longleftrightarrow> length (hz_announce s) = n \<and> length (hz_retired s) = n \<and> length (hz_comparing s) = n
     \<and> (\<forall>l\<in>set (hz_announce s). al_ok l \<and> al_capacity l = 16 \<and> NULL \<notin> set (al_elems l))
     \<and> (\<forall>l\<in>set (hz_retired s). al_ok l \<and> al_capacity l = 80 * n \<and> NULL \<notin> set (al_elems l)
          \<and> distinct (al_elems l) \<and> al_size l < 80 * n)
     \<and> (\<forall>h\<in>set (hz_comparing s). hs_ok h \<and> 64 * n \<le> hs_tableSize h)"

lemma hz_okD:
  assumes "hz_ok n s" "tid < n"
  shows "al_ok (hz_announce s ! tid)" "al_capacity (hz_announce s ! tid) = 16" "NULL \<notin> set (al_elems (hz_announce s ! tid))"
    "al_ok (hz_retired s ! tid)" "al_capacity (hz_retired s ! tid) = 80 * n" "NULL \<notin> set (al_elems (hz_retired s ! tid))"
    "distinct (al_elems (hz_retired s ! tid))" "al_size (hz_retired s ! tid) < 80 * n"
    "hs_ok (hz_comparing s ! tid)" "64 * n \<le> hs_tableSize (hz_comparing s ! tid)"
proof -
  have m: "hz_announce s ! tid \<in> set (hz_announce s)" "hz_retired s ! tid \<in> set (hz_retired s)"
    "hz_comparing s ! tid \<in> set (hz_comparing s)" using assms by (simp_all add: hz_ok_def)
  show "al_ok (hz_announce s ! tid)" "al_capacity (hz_announce s ! tid) = 16" "NULL \<notin> set (al_elems (hz_announce s ! tid))"
    using assms(1) m(1) by (simp_all add: hz_ok_def)
  show "al_ok (hz_retired s ! tid)" "al_capacity (hz_retired s ! tid) = 80 * n" "NULL \<notin> set (al_elems (hz_retired s ! tid))"
    "distinct (al_elems (hz_retired s ! tid))" "al_size (hz_retired s ! tid) < 80 * n"
    using assms(1) m(2) by (simp_all add: hz_ok_def)
  show "hs_ok (hz_comparing s ! tid)" "64 * n \<le> hs_tableSize (hz_comparing s ! tid)"
    using assms(1) m(3) by (simp_all add: hz_ok_def)
qed

lemma ball_update: "\<forall>x\<in>set xs. P x \<Longrightarrow> P v \<Longrightarrow> \<forall>x\<in>set (xs[i := v]). P x"
  by (blast dest: set_update_subset_insert [THEN subsetD])

lemma hz_ok_announce:
  assumes "hz_ok n s" "al_ok l" "al_capacity l = 16" "NULL \<notin> set (al_elems l)"
  shows "hz_ok n (s\<lparr>hz_announce := (hz_announce s)[tid := l]\<rparr>)"
proof -
  have "\<forall>l\<in>set ((hz_announce s)[tid := l]). al_ok l \<and> al_capacity l = 16 \<and> NULL \<notin> set (al_elems l)"
    using assms by (intro ball_update) (auto simp: hz_ok_def)
  then show ?thesis using assms(1) by (simp add: hz_ok_def)
qed

lemma hz_ok_scan:
  assumes "hz_ok n s" "al_ok l" "al_capacity l = 80 * n" "NULL \<notin> set (al_elems l)" "distinct (al_elems l)" "al_size l < 80 * n"
    and "hs_ok h" "64 * n \<le> hs_tableSize h"
  shows "hz_ok n (s\<lparr>hz_retired := (hz_retired s)[tid := l], hz_comparing := (hz_comparing s)[tid := h], hz_freed := fr\<rparr>)"
proof -
  have "\<forall>l\<in>set ((hz_retired s)[tid := l]). al_ok l \<and> al_capacity l = 80 * n \<and> NULL \<notin> set (al_elems l)
          \<and> distinct (al_elems l) \<and> al_size l < 80 * n"
    using assms by (intro ball_update) (auto simp: hz_ok_def)
  moreover have "\<forall>h\<in>set ((hz_comparing s)[tid := h]). hs_ok h \<and> 64 * n \<le> hs_tableSize h"
    using assms by (intro ball_update) (auto simp: hz_ok_def)
  ultimately show ?thesis using assms(1) by (simp add: hz_ok_def)
qed

lemma hz_new_ok:
  assumes "0 < n" "\<And>k. length (garbage k) = k"
  shows "hz_ok n (hz_new n garbage)"
proof -
  let ?h = "hs_new (n * 16) garbage"
  have h: "hs_ok ?h" "n * 16 * 4 \<le> hs_tableSize ?h" by (rule hs_new_ok)+
  have l: "al_ok (al_new k garbage)" "al_elems (al_new k garbage) = []" for k
    using al_new_ok [of garbage k] assms(2) [of k] by simp_all
  have c: "al_capacity (al_new k garbage) = k" "al_size (al_new k garbage) = 0" for k by (simp_all add: al_new_def)
  show ?thesis using assms(1) h(2) by (simp add: hz_ok_def hz_new_def MAX_HAZARDPTRS_PER_THREAD_def h(1) l c)
qed

lemma hz_unprotect_ok:
  assumes "hz_ok n s" "tid < n"
  shows "\<exists>s'. hz_unprotect tid obj s = Some s' \<and> hz_ok n s'
    \<and> mset (al_elems (hz_announce s' ! tid)) = mset (al_elems (hz_announce s ! tid)) - {#obj#}"
proof -
  obtain l where l: "al_erase_obj obj (hz_announce s ! tid) = Some l" "al_ok l" "al_capacity l = 16"
    "mset (al_elems l) = mset (al_elems (hz_announce s ! tid)) - {#obj#}"
    using al_erase_obj_ok [OF hz_okD(1) [OF assms]] hz_okD(2) [OF assms] by metis
  have "set (al_elems l) \<subseteq> set (al_elems (hz_announce s ! tid))"
    using arg_cong [OF l(4), of set_mset] by (metis in_diffD set_mset_mset subsetI)
  then have "hz_ok n (s\<lparr>hz_announce := (hz_announce s)[tid := l]\<rparr>)"
    using hz_okD(3) [OF assms] l by (intro hz_ok_announce [OF assms(1)]) auto
  moreover have "length (hz_announce s) = n" using assms(1) by (simp add: hz_ok_def)
  ultimately show ?thesis using l assms(2) by (simp add: hz_unprotect_def)
qed

lemma hz_protect_ok:
  assumes s: "hz_ok n s" "tid < n" and obj: "obj \<noteq> NULL" and room: "al_size (hz_announce s ! tid) < 16"
  shows "\<exists>s'. hz_protect tid obj b s = Some (b, s') \<and> hz_ok n s'
    \<and> mset (al_elems (hz_announce s' ! tid)) = mset (al_elems (hz_announce s ! tid)) + (if b then {#obj#} else {#})"
proof -
  obtain l where l: "al_add obj (hz_announce s ! tid) = Some l" "al_ok l" "al_elems l = al_elems (hz_announce s ! tid) @ [obj]"
    "al_capacity l = 16"
    using al_add_ok [OF hz_okD(1) [OF s], of obj] hz_okD(2) [OF s] room by auto
  define s1 where "s1 = s\<lparr>hz_announce := (hz_announce s)[tid := l]\<rparr>"
  have s1: "hz_ok n s1" unfolding s1_def using hz_okD(3) [OF s] l obj by (intro hz_ok_announce [OF s(1)]) auto
  have a: "hz_announce s1 ! tid = l" using s by (simp add: s1_def hz_ok_def)
  show ?thesis
  proof (cases b)
    case True
    then show ?thesis using l s1 a by (auto simp: hz_protect_def s1_def [symmetric] Let_def hz_isProtected_def)
  next
    case False
    then show ?thesis using hz_unprotect_ok [OF s1 s(2), of obj] l a by (auto simp: hz_protect_def s1_def [symmetric] Let_def)
  qed
qed

lemma hz_endOp_ok:
  assumes "hz_ok n s" "tid < n"
  shows "hz_ok n (hz_endOp tid s) \<and> al_elems (hz_announce (hz_endOp tid s) ! tid) = []"
proof -
  have "al_ok (al_clear (hz_announce s ! tid)) \<and> al_elems (al_clear (hz_announce s ! tid)) = [] \<and> al_capacity (al_clear (hz_announce s ! tid)) = 16"
    using al_clear_ok [OF hz_okD(1) [OF assms]] hz_okD(2) [OF assms] by simp
  then show ?thesis using assms hz_ok_announce [OF assms(1)] by (simp add: hz_endOp_def hz_ok_def [of n s])
qed

text \<open>
  C20. With at most 15 announcements per thread, \<open>retire\<close> returns and keeps the invariant; the
  search in the hash set ends and no array overflows. When the list of the thread is full, it frees
  exactly the retired nodes that no thread announces, keeps the others, and at most 15 per thread of
  the process stay; when it is not full, the node is only added.
\<close>
theorem hz_retire_exact:
  assumes s: "hz_ok n s" "tid < n" and p: "p \<noteq> NULL" "p \<notin> set (al_elems (hz_retired s ! tid))"
    and hp: "\<forall>l\<in>set (hz_announce s). al_size l < MAX_HAZARDPTRS_PER_THREAD"
  shows "\<exists>s'. hz_retire tid p s = Some s' \<and> hz_ok n s' \<and> hz_announce s' = hz_announce s
    \<and> (let R = mset (al_elems (hz_retired s ! tid)) + {#p#}
        in if size R < 80 * n then mset (al_elems (hz_retired s' ! tid)) = R \<and> hz_freed s' = hz_freed s
           else mset (al_elems (hz_retired s' ! tid)) = filter_mset (\<lambda>x. x \<in> hz_announced s) R
              \<and> (\<exists>fr. hz_freed s' = hz_freed s @ fr \<and> mset fr = filter_mset (\<lambda>x. x \<notin> hz_announced s) R)
              \<and> al_size (hz_retired s' ! tid) \<le> 15 * n)"
proof -
  have len: "length (hz_announce s) = n" "length (hz_retired s) = n" using s(1) by (simp_all add: hz_ok_def)
  note d = hz_okD [OF s]
  obtain l where l: "al_add p (hz_retired s ! tid) = Some l" "al_ok l" "al_elems l = al_elems (hz_retired s ! tid) @ [p]"
    "al_capacity l = 80 * n" using al_add_ok [OF d(4), of p] d(5,8) by auto
  have sz: "al_size l = Suc (al_size (hz_retired s ! tid))" using al_okD [OF l(2)] al_okD [OF d(4)] l(3) by simp
  have R: "mset (al_elems l) = mset (al_elems (hz_retired s ! tid)) + {#p#}" "distinct (al_elems l)" "NULL \<notin> set (al_elems l)"
    "size (mset (al_elems (hz_retired s ! tid)) + {#p#}) = al_size l"
    using l(3) d(6,7) p al_okD [OF d(4)] sz by auto
  show ?thesis
  proof (cases "al_size l < 80 * n")
    case True
    have "hz_ok n (s\<lparr>hz_retired := (hz_retired s)[tid := l], hz_comparing := (hz_comparing s)[tid := hz_comparing s ! tid], hz_freed := hz_freed s\<rparr>)"
      using l(2,4) R True d by (intro hz_ok_scan [OF s(1)])
    then have "hz_ok n (s\<lparr>hz_retired := (hz_retired s)[tid := l]\<rparr>)" by simp
    moreover have "hz_retire tid p s = Some (s\<lparr>hz_retired := (hz_retired s)[tid := l]\<rparr>)"
      using l True by (simp add: hz_retire_def al_isFull_def)
    ultimately show ?thesis using True R(1,4) len s(2) by (simp add: Let_def)
  next
    case False
    then have full: "al_isFull l" using l(4) sz d(8) by (simp add: al_isFull_def)
    define h0 where "h0 = hs_clear (hz_comparing s ! tid)"
    have h0: "hs_ok h0" "hs_set h0 = {}" "64 * n \<le> hs_tableSize h0" using hs_clear_ok [OF d(9)] d(10) by (simp_all add: h0_def)
    have "length (hz_announce s) * 15 < hs_tableSize h0" using len h0(3) s(2) by simp
    moreover have "\<forall>l\<in>set (hz_announce s). al_ok l \<and> al_size l < MAX_HAZARDPTRS_PER_THREAD \<and> NULL \<notin> set (al_elems l)"
      using s(1) hp by (auto simp: hz_ok_def)
    ultimately obtain h where h: "hz_collect (hz_announce s) h0 = Some h" "hs_ok h" "hs_set h = hz_announced s"
      "card (hs_set h) \<le> 15 * n" "hs_tableSize h = hs_tableSize h0"
      using collect_ok [OF _ h0(1,2)] len unfolding hz_announced_def by (metis mult.commute)
    have "card (hs_set h) < hs_tableSize h" using h(4,5) h0(3) s(2) by simp
    then obtain l' fr where w: "hz_sweep h l 0 (hz_freed s) = Some (l', hz_freed s @ fr)" "al_ok l'" "al_capacity l' = 80 * n"
      "mset (al_elems l') + mset fr = mset (al_elems l)" "set (al_elems l') \<subseteq> hs_set h" "set fr \<inter> hs_set h = {}"
      using sweep_ok [OF h(2) _ l(2) R(3), of 0 "hz_freed s"] l(4) by auto
    have "set_mset (mset (al_elems l')) \<subseteq> hs_set h" "set_mset (mset fr) \<inter> hs_set h = {}" using w(5,6) by simp_all
    note f = split_filter [OF w(4) this]
    have sub: "mset (al_elems l') \<subseteq># mset (al_elems l)" using f(1) by simp
    then have dl: "distinct (al_elems l')" using R(2) by (rule distinct_mset_subset)
    have "finite (hs_set h)" by (simp add: hs_set_def)
    then have "length (al_elems l') \<le> 15 * n"
      using card_mono [OF _ w(5)] distinct_card [OF dl] h(4) by (metis order_trans)
    then have sz': "al_size l' \<le> 15 * n" using al_okD [OF w(2)] by simp
    have n': "NULL \<notin> set (al_elems l')" using R(3) set_mset_mono [OF sub] by auto
    define s' where "s' = s\<lparr>hz_retired := (hz_retired s)[tid := l'], hz_comparing := (hz_comparing s)[tid := h], hz_freed := hz_freed s @ fr\<rparr>"
    have "al_size l' < 80 * n" using sz' s(2) by simp
    then have "hz_ok n s'" unfolding s'_def using w(2,3) n' dl h(2,5) h0(3) by (intro hz_ok_scan [OF s(1)]) simp_all
    moreover have "hz_retire tid p s = Some s'" using l(1) full h(1) w(1) by (simp add: hz_retire_def s'_def h0_def)
    moreover have "hz_retired s' ! tid = l'" "hz_announce s' = hz_announce s" "hz_freed s' = hz_freed s @ fr"
      using len s(2) by (simp_all add: s'_def)
    ultimately show ?thesis using False R(1,4) f sz' h(3) by (auto simp: Let_def)
  qed
qed

text \<open>A full list of 80 nodes, one of which is announced.\<close>

definition hz_example :: hazp where
  "hz_example = \<lparr>hz_scanThreshold = 80,
     hz_announce = [\<lparr>al_data = 5 # replicate 15 NULL, al_size = 1, al_capacity = 16\<rparr>],
     hz_retired = [\<lparr>al_data = map word_of_nat [1..<80] @ [0], al_size = 79, al_capacity = 80\<rparr>],
     hz_comparing = [hs_new 16 (\<lambda>k. replicate k NULL)], hz_freed = []\<rparr>"

lemma hz_example_retired:
  "al_elems (hz_retired hz_example ! 0) = map word_of_nat [1..<80]"
  by (simp add: hz_example_def al_elems_def)

lemma hz_example_ok: "hz_ok 1 hz_example"
proof -
  have "NULL \<notin> set (map word_of_nat [1..<80])" "distinct (map word_of_nat [1..<80] :: ptr list)" by code_simp+
  moreover have "al_elems (hz_announce hz_example ! 0) = [5]" by (simp add: hz_example_def al_elems_def)
  ultimately show ?thesis using hz_example_retired hs_new_ok [of 16 "\<lambda>k. replicate k NULL"]
    by (simp add: hz_ok_def hz_example_def al_ok_def)
qed

theorem hz_retire_exact_witness:
  "\<exists>s'. hz_retire 0 80 hz_example = Some s' \<and> al_elems (hz_retired s' ! 0) = [5] \<and> length (hz_freed s') = 79"
proof -
  have a: "hz_announced hz_example = {5}" by (simp add: hz_announced_def hz_example_def al_elems_def)
  have f: "filter (\<lambda>x. x \<in> {5}) (map word_of_nat [1..<80] @ [80] :: ptr list) = [5]"
    "length (filter (\<lambda>x. x \<notin> {5}) (map word_of_nat [1..<80] @ [80] :: ptr list)) = 79" by code_simp+
  have n: "(80 :: ptr) \<notin> set (map word_of_nat [1..<80])" by code_simp
  have R: "mset (al_elems (hz_retired hz_example ! 0)) + {#80#} = mset (map word_of_nat [1..<80] @ [80])"
    by (simp only: hz_example_retired mset_append mset.simps add_mset_add_single [symmetric])
  have sz: "\<not> size (mset (map word_of_nat [1..<80] @ [80] :: ptr list)) < 80 * 1" by (simp only: size_mset) simp
  have "\<forall>l\<in>set (hz_announce hz_example). al_size l < MAX_HAZARDPTRS_PER_THREAD"
    by (simp add: hz_example_def MAX_HAZARDPTRS_PER_THREAD_def)
  then obtain s' fr where s': "hz_retire 0 80 hz_example = Some s'"
    "mset (al_elems (hz_retired s' ! 0)) = mset (filter (\<lambda>x. x \<in> {5}) (map word_of_nat [1..<80] @ [80]))"
    "hz_freed s' = hz_freed hz_example @ fr" "mset fr = mset (filter (\<lambda>x. x \<notin> {5}) (map word_of_nat [1..<80] @ [80]))"
    using hz_retire_exact [OF hz_example_ok, of 0 80] n sz unfolding hz_example_retired [symmetric] a R Let_def mset_filter
    unfolding hz_example_retired by (simp only: if_False simp_thms) auto
  have "length fr = 79" using mset_eq_length [OF s'(4)] f(2) by simp
  then have "length (hz_freed s') = 79" using s'(3) by (simp add: hz_example_def)
  moreover have "al_elems (hz_retired s' ! 0) = [5]" using s'(2) unfolding f(1) by simp
  ultimately show ?thesis using s'(1) by blast
qed

subsection \<open>A scan while the owner changes its announcements\<close>

text \<open>
  The calls that the owner of an array list makes while another thread collects it: \<open>protect\<close>
  adds (and erases again when its callback fails), \<open>unprotect\<close> erases, \<open>endOp\<close> clears. Each
  store, and each load of the collecting thread, is a step.
\<close>

datatype hz_call = CAdd ptr | CErase ptr | CClear

primrec hz_writes :: "hz_call \<Rightarrow> alist \<Rightarrow> al_write list option" where
  "hz_writes (CAdd obj) l = aal_add obj l"
| "hz_writes (CErase obj) l = aal_erase_obj obj l"
| "hz_writes CClear l = Some aal_clear"

datatype hz_pc = ScSize | ScGet nat nat | ScDone

record hz_scan =
  sn_list :: alist
  sn_calls :: "hz_call list"
  sn_writes :: "al_write list"
  sn_pc :: hz_pc
  sn_seen :: "ptr list"

inductive hz_scan_step :: "hz_scan \<Rightarrow> hz_scan \<Rightarrow> bool" where
  own_call: "sn_writes s = [] \<Longrightarrow> sn_calls s = c # cs \<Longrightarrow> hz_writes c (sn_list s) = Some ws
    \<Longrightarrow> hz_scan_step s (s\<lparr>sn_calls := cs, sn_writes := ws\<rparr>)"
| own_store: "sn_writes s = w # ws
    \<Longrightarrow> hz_scan_step s (s\<lparr>sn_list := aal_write w (sn_list s), sn_writes := ws\<rparr>)"
| scan_size: "sn_pc s = ScSize \<Longrightarrow> hz_scan_step s (s\<lparr>sn_pc := ScGet (al_size (sn_list s)) 0\<rparr>)"
| scan_get: "sn_pc s = ScGet sz ixHP \<Longrightarrow> ixHP < sz
    \<Longrightarrow> hz_scan_step s (s\<lparr>sn_seen := sn_seen s @ [al_get ixHP (sn_list s)], sn_pc := ScGet sz (ixHP + 1)\<rparr>)"
| scan_done: "sn_pc s = ScGet sz ixHP \<Longrightarrow> \<not> ixHP < sz \<Longrightarrow> hz_scan_step s (s\<lparr>sn_pc := ScDone\<rparr>)"

text \<open>A run in all of whose states a predicate holds.\<close>

definition run_with :: "(hz_scan \<Rightarrow> bool) \<Rightarrow> hz_scan \<Rightarrow> hz_scan \<Rightarrow> bool" where
  "run_with P s s' \<longleftrightarrow> P s \<and> (\<lambda>s s'. hz_scan_step s s' \<and> P s')\<^sup>*\<^sup>* s s'"

lemma run_with_step: "run_with P s s' \<Longrightarrow> hz_scan_step s' s'' \<Longrightarrow> P s'' \<Longrightarrow> run_with P s s''"
  unfolding run_with_def by (metis (mono_tags, lifting) rtranclp.rtrancl_into_rtrancl)

text \<open>The announcement of \<open>c\<close> is the cell \<open>i\<close>.\<close>

definition in_cell :: "nat \<Rightarrow> ptr \<Rightarrow> hz_scan \<Rightarrow> bool" where
  "in_cell i c s \<longleftrightarrow> i < al_size (sn_list s) \<and> al_data (sn_list s) ! i = c"

definition scan_knows :: "nat \<Rightarrow> ptr \<Rightarrow> hz_scan \<Rightarrow> bool" where
  "scan_knows i c s = (case sn_pc s of ScSize \<Rightarrow> True | ScGet sz ix \<Rightarrow> i < sz \<and> (i < ix \<longrightarrow> c \<in> set (sn_seen s)) | ScDone \<Rightarrow> c \<in> set (sn_seen s))"

lemma scan_knows_step:
  assumes "hz_scan_step s s'" "in_cell i c s" "scan_knows i c s"
  shows "scan_knows i c s'"
  using assms by (cases rule: hz_scan_step.cases) (auto simp: scan_knows_def in_cell_def al_get_def less_Suc_eq split: hz_pc.splits)

text \<open>
  C21. If a node stays announced in one cell of the array list from the moment a collection starts until
  it ends, the collection finds it, whatever else the owner of the list protects, unprotects or
  clears meanwhile.
\<close>
theorem hz_scan_finds_stable:
  assumes "run_with (in_cell i c) s s'" "sn_pc s = ScSize" "sn_pc s' = ScDone"
  shows "c \<in> set (sn_seen s')"
proof -
  have "(\<lambda>s s'. hz_scan_step s s' \<and> in_cell i c s')\<^sup>*\<^sup>* s s'" "in_cell i c s" using assms(1) by (simp_all add: run_with_def)
  then have "in_cell i c s' \<and> scan_knows i c s'"
  proof (induction rule: rtranclp_induct)
    case base
    then show ?case using assms(2) by (simp add: scan_knows_def)
  next
    case (step y z)
    then show ?case using scan_knows_step by blast
  qed
  then show ?thesis using assms(3) by (simp add: scan_knows_def)
qed

text \<open>The list after a load of the first cell, and the calls of one turn of a traversal.\<close>

definition sn_start :: "ptr list \<Rightarrow> ptr \<Rightarrow> ptr \<Rightarrow> ptr \<Rightarrow> hz_scan" where
  "sn_start ds a b c = \<lparr>sn_list = \<lparr>al_data = a # b # ds, al_size = 2, al_capacity = 16\<rparr>,
     sn_calls = [CErase a, CAdd c], sn_writes = [], sn_pc = ScSize, sn_seen = []\<rparr>"

theorem hz_scan_finds_stable_witness:
  "2 \<in> set (sn_seen \<lparr>sn_list = \<lparr>al_data = 2 # replicate 15 NULL, al_size = 1, al_capacity = 16\<rparr>,
     sn_calls = [], sn_writes = [], sn_pc = ScDone, sn_seen = [2]\<rparr>)"
proof (rule hz_scan_finds_stable [of 0 2])
  let ?l = "\<lparr>al_data = 2 # replicate 15 NULL, al_size = 1, al_capacity = 16\<rparr>"
  let ?s = "\<lambda>pc seen. \<lparr>sn_list = ?l, sn_calls = [], sn_writes = [], sn_pc = pc, sn_seen = seen\<rparr>"
  have P: "in_cell 0 2 (?s pc seen)" for pc seen by (simp add: in_cell_def)
  have 0: "run_with (in_cell 0 2) (?s ScSize []) (?s ScSize [])" using P by (simp add: run_with_def)
  have 1: "run_with (in_cell 0 2) (?s ScSize []) (?s (ScGet 1 0) [])"
    by (rule run_with_step [OF 0 _ P]) (use scan_size [of "?s ScSize []"] in simp)
  have 2: "run_with (in_cell 0 2) (?s ScSize []) (?s (ScGet 1 1) [2])"
    by (rule run_with_step [OF 1 _ P]) (use scan_get [of "?s (ScGet 1 0) []" 1 0] in \<open>simp add: al_get_def\<close>)
  show "run_with (in_cell 0 2) (?s ScSize []) (?s ScDone [2])"
    by (rule run_with_step [OF 2 _ P]) (use scan_done [of "?s (ScGet 1 1) [2]" 1 1] in simp)
qed simp_all

definition announces :: "ptr \<Rightarrow> hz_scan \<Rightarrow> bool" where
  "announces b s \<longleftrightarrow> b \<in> set (al_elems (sn_list s))"

lemma missed_run:
  assumes ab: "a \<noteq> b"
  shows "run_with (announces b) (sn_start ds a b c)
    \<lparr>sn_list = \<lparr>al_data = b # c # ds, al_size = 2, al_capacity = 16\<rparr>, sn_calls = [], sn_writes = [],
     sn_pc = ScDone, sn_seen = [a, c]\<rparr>"
proof -
  let ?L = "\<lambda>x y n. \<lparr>al_data = x # y # ds, al_size = n, al_capacity = 16\<rparr>"
  let ?s = "\<lambda>l cs ws pc seen. \<lparr>sn_list = l, sn_calls = cs, sn_writes = ws, sn_pc = pc, sn_seen = seen\<rparr>"
  let ?R = "run_with (announces b) (sn_start ds a b c)"
  note sel = announces_def al_elems_def numeral_2_eq_2
  have 0: "?R (?s (?L a b 2) [CErase a, CAdd c] [] ScSize [])"
    by (simp add: run_with_def sn_start_def sel)
  have 1: "?R (?s (?L a b 2) [CErase a, CAdd c] [] (ScGet 2 0) [])"
    by (rule run_with_step [OF 0]) (use scan_size [of "?s (?L a b 2) [CErase a, CAdd c] [] ScSize []"] in \<open>simp_all add: sel\<close>)
  have 2: "?R (?s (?L a b 2) [CErase a, CAdd c] [] (ScGet 2 1) [a])"
    by (rule run_with_step [OF 1])
      (use scan_get [of "?s (?L a b 2) [CErase a, CAdd c] [] (ScGet 2 0) []" 2 0] in \<open>simp_all add: sel al_get_def\<close>)
  have e: "hz_writes (CErase a) (?L a b 2) = Some [WData 0 b, WSize 1]"
    by (simp add: aal_erase_obj_def al_getIndex_def al_index_from.simps aal_erase_def)
  have 3: "?R (?s (?L a b 2) [CAdd c] [WData 0 b, WSize 1] (ScGet 2 1) [a])"
    by (rule run_with_step [OF 2])
      (use own_call [of "?s (?L a b 2) [CErase a, CAdd c] [] (ScGet 2 1) [a]" "CErase a" "[CAdd c]"] e in \<open>simp_all add: sel\<close>)
  have 4: "?R (?s (?L b b 2) [CAdd c] [WSize 1] (ScGet 2 1) [a])"
    by (rule run_with_step [OF 3])
      (use own_store [of "?s (?L a b 2) [CAdd c] [WData 0 b, WSize 1] (ScGet 2 1) [a]" "WData 0 b" "[WSize 1]"] in \<open>simp_all add: sel\<close>)
  have 5: "?R (?s (?L b b 1) [CAdd c] [] (ScGet 2 1) [a])"
    by (rule run_with_step [OF 4])
      (use own_store [of "?s (?L b b 2) [CAdd c] [WSize 1] (ScGet 2 1) [a]" "WSize 1" "[]"] in \<open>simp_all add: sel\<close>)
  have a: "hz_writes (CAdd c) (?L b b 1) = Some [WData 1 c, WSize 2]" by (simp add: aal_add_def Let_def)
  have 6: "?R (?s (?L b b 1) [] [WData 1 c, WSize 2] (ScGet 2 1) [a])"
    by (rule run_with_step [OF 5])
      (use own_call [of "?s (?L b b 1) [CAdd c] [] (ScGet 2 1) [a]" "CAdd c" "[]"] a in \<open>simp_all add: sel\<close>)
  have 7: "?R (?s (?L b c 1) [] [WSize 2] (ScGet 2 1) [a])"
    by (rule run_with_step [OF 6])
      (use own_store [of "?s (?L b b 1) [] [WData 1 c, WSize 2] (ScGet 2 1) [a]" "WData 1 c" "[WSize 2]"] in \<open>simp_all add: sel\<close>)
  have 8: "?R (?s (?L b c 2) [] [] (ScGet 2 1) [a])"
    by (rule run_with_step [OF 7])
      (use own_store [of "?s (?L b c 1) [] [WSize 2] (ScGet 2 1) [a]" "WSize 2" "[]"] in \<open>simp_all add: sel\<close>)
  have 9: "?R (?s (?L b c 2) [] [] (ScGet 2 2) [a, c])"
    by (rule run_with_step [OF 8])
      (use scan_get [of "?s (?L b c 2) [] [] (ScGet 2 1) [a]" 2 1] in \<open>simp_all add: sel al_get_def\<close>)
  show ?thesis
    by (rule run_with_step [OF 9])
      (use scan_done [of "?s (?L b c 2) [] [] (ScGet 2 2) [a, c]" 2 2] in \<open>simp_all add: sel\<close>)
qed

text \<open>
  C22. A node that is announced in every state of a collection can be missed and freed. The owner moves
  on hand over hand as the traversals of the lists and trees do: \<open>a\<close> and \<open>b\<close> are
  protected, \<open>a\<close> is unprotected, \<open>c\<close> is protected. Its \<open>erase\<close> moves \<open>b\<close> to the
  cell of \<open>a\<close>, which the collecting thread has already read, and \<open>c\<close> goes to the cell where
  it reads next; so it collects \<open>a\<close> and \<open>c\<close>, and frees \<open>b\<close> if it is retired.
\<close>
theorem hz_scan_misses_protected:
  assumes abc: "distinct [a, b, c]" "NULL \<notin> {a, b, c}"
    and h: "hs_ok h" "hs_set h = {}" "2 < hs_tableSize h"
    and l: "al_ok l" "NULL \<notin> set (al_elems l)" "b \<in> set (al_elems l)"
  shows "\<exists>s h' l' fr. run_with (announces b) (sn_start ds a b c) s \<and> sn_pc s = ScDone \<and> sn_writes s = []
    \<and> insert_all hs_insert (sn_seen s) h = Some h' \<and> hz_sweep h' l 0 [] = Some (l', fr) \<and> b \<in> set fr"
proof -
  let ?s = "\<lparr>sn_list = \<lparr>al_data = b # c # ds, al_size = 2, al_capacity = 16\<rparr>, sn_calls = [], sn_writes = [],
     sn_pc = ScDone, sn_seen = [a, c]\<rparr>"
  have run: "run_with (announces b) (sn_start ds a b c) ?s" using abc(1) by (intro missed_run) simp
  obtain h' where h': "insert_all hs_insert [a, c] h = Some h'" "hs_ok h'" "hs_set h' = {a, c}" "hs_tableSize h' = hs_tableSize h"
    using hset_set.insert_all_ok [of h "[a, c]"] h abc(2) by auto
  have "card (hs_set h') < hs_tableSize h'" using h' h(3) by (simp add: card_insert_if)
  then obtain l' fr where w: "hz_sweep h' l 0 [] = Some (l', fr)" "mset (al_elems l') + mset fr = mset (al_elems l)"
    "set (al_elems l') \<subseteq> hs_set h'" using sweep_ok [OF h'(2) _ l(1,2), of 0 "[]"] by auto
  have "b \<notin> set (al_elems l')" using w(3) h'(3) abc(1) by auto
  moreover have "set (al_elems l') \<union> set fr = set (al_elems l)" using arg_cong [OF w(2), of set_mset] by simp
  ultimately have "b \<in> set fr" using l(3) by blast
  then show ?thesis using run w(1) h'(1) by (intro exI [of _ ?s] exI [of _ h'] exI [of _ l'] exI [of _ fr]) simp
qed

theorem hz_scan_misses_protected_witness:
  "\<exists>s h' l' fr. run_with (announces 2) (sn_start (replicate 14 NULL) 1 2 3) s \<and> sn_pc s = ScDone \<and> sn_writes s = []
    \<and> insert_all hs_insert (sn_seen s) (hs_new 16 (\<lambda>k. replicate k NULL)) = Some h'
    \<and> hz_sweep h' \<lparr>al_data = [2], al_size = 1, al_capacity = 1\<rparr> 0 [] = Some (l', fr) \<and> 2 \<in> set fr"
  using hs_new_ok [of 16 "\<lambda>k. replicate k NULL"]
  by (intro hz_scan_misses_protected) (simp_all add: al_ok_def al_elems_def)

end
