(* ===== verification/BagShared.thy ===== *)
theory BagShared
  imports BagMove
begin

text \<open>
  The operations of \<open>common/recordmgr/blockbag.h\<close> that exchange full blocks with the shared bag:
  a thread whose bag has grown past a threshold gives a block away, and a thread whose bag is empty
  takes one, or fills its bag from the allocator. The shared bag is here the stack of blocks that
  \<open>LockFreeBag\<close> shows it to be.
\<close>

definition shared_addBlock :: "bptr \<Rightarrow> bptr list \<Rightarrow> world \<Rightarrow> bptr list \<times> world" where
  "shared_addBlock q sh w =
     (q # sh, blk_upd q (\<lambda>x. x\<lparr>bk_next := (case sh of [] \<Rightarrow> 0 | r # _ \<Rightarrow> r)\<rparr>) w)"

definition shared_getBlock :: "bptr list \<Rightarrow> world \<Rightarrow> bptr \<times> bptr list \<times> world" where
  "shared_getBlock sh w =
     (case sh of [] \<Rightarrow> (0, [], w) | q # sh' \<Rightarrow> (q, sh', blk_upd q (\<lambda>x. x\<lparr>bk_next := 0\<rparr>) w))"

text \<open>\<open>add\<close> with a threshold; \<open>None\<close> is the assertion that a block was removed.\<close>

definition blockbag_add_shared ::
  "((bptr \<Rightarrow> blk option) \<Rightarrow> bptr) \<Rightarrow> ptr \<Rightarrow> nat \<Rightarrow> bag \<Rightarrow> bptr list \<Rightarrow> world \<Rightarrow> (bag \<times> bptr list \<times> world) option" where
  "blockbag_add_shared nw obj thresh b sh w =
     (let w1 = blk_upd (bb_head b) (block_push obj) w
      in if block_isFull (blk_at w1 (bb_head b)) then
           let (newblock, w2) = blockpool_allocateBlock nw (bb_head b) w1;
               b1 = b\<lparr>bb_sizeInBlocks := bb_sizeInBlocks b + 1, bb_head := newblock\<rparr>
           in if bb_sizeInBlocks b1 > thresh then
                let (q, b2, w3) = blockbag_removeFullBlock b1 w2
                in if q = 0 then None
                   else let (sh', w4) = shared_addBlock q sh w3 in Some (b2, sh', w4)
              else Some (b1, sh, w2)
         else Some (b, sh, w1))"

text \<open>The loop that fills a bag with new objects; \<open>fresh\<close> are the addresses that \<open>new\<close> picks.\<close>

fun fill_loop ::
  "((bptr \<Rightarrow> blk option) \<Rightarrow> bptr) \<Rightarrow> nat \<Rightarrow> ptr list \<Rightarrow> bag \<Rightarrow> world \<Rightarrow> allocator \<Rightarrow> bag \<times> world \<times> allocator" where
  "fill_loop nw tid [] b w al = (b, w, al)"
| "fill_loop nw tid (p # fresh) b w al =
     (let (obj, al1) = allocate tid p al; (b1, w1) = blockbag_add nw obj b w
      in fill_loop nw tid fresh b1 w1 al1)"

definition blockbag_remove_shared ::
  "((bptr \<Rightarrow> blk option) \<Rightarrow> bptr) \<Rightarrow> nat \<Rightarrow> ptr list \<Rightarrow> bag \<Rightarrow> bptr list \<Rightarrow> world \<Rightarrow> allocator
   \<Rightarrow> ptr \<times> bag \<times> bptr list \<times> world \<times> allocator" where
  "blockbag_remove_shared nw tid fresh b sh w al =
     (if block_isEmpty (blk_at w (bb_head b)) then
        if bk_next (blk_at w (bb_head b)) \<noteq> 0 then
          let nx = bk_next (blk_at w (bb_head b));
              result = fst (block_pop (blk_at w nx));
              w1 = blk_upd nx (snd \<circ> block_pop) w;
              temp = bb_head b;
              b1 = b\<lparr>bb_head := bk_next (blk_at w1 temp)\<rparr>;
              w2 = blockpool_deallocateBlock temp w1
          in (result, b1\<lparr>bb_sizeInBlocks := bb_sizeInBlocks b1 - 1\<rparr>, sh, w2, al)
        else
          let (q, sh', w1) = shared_getBlock sh w
          in if q \<noteq> 0 then
               let (b1, w2) = blockbag_addFullBlock q b w1; (p, b2, w3) = blockbag_remove b1 w2
               in (p, b2, sh', w3, al)
             else
               let (b1, w2, al1) = fill_loop nw tid fresh b w1 al; (p, b2, w3) = blockbag_remove b1 w2
               in (p, b2, sh', w3, al1)
      else (fst (block_pop (blk_at w (bb_head b))), b, sh, blk_upd (bb_head b) (snd \<circ> block_pop) w, al))"

subsection \<open>What a bag and the shared bag hold together\<close>

definition shared_ok :: "world \<Rightarrow> bptr list \<Rightarrow> bool" where
  "shared_ok w sh \<longleftrightarrow> distinct sh
     \<and> (\<forall>q\<in>set sh. q \<noteq> 0 \<and> q \<notin> set (bw_pool w) \<and> q \<in> dom (bw_mem w) \<and> block_wf (blk_at w q) \<and> bk_size (blk_at w q) = BLOCK_SIZE)"

definition sys_ok :: "world \<Rightarrow> bag \<Rightarrow> bptr list \<Rightarrow> bptr list \<Rightarrow> bool" where
  "sys_ok w b ps sh \<longleftrightarrow> bag_inv w b ps \<and> shared_ok w sh \<and> set ps \<inter> set sh = {}"

definition total :: "world \<Rightarrow> bptr list \<Rightarrow> bptr list \<Rightarrow> ptr multiset" where
  "total w ps sh = mset (bag_stack w ps) + mset (bag_stack w sh)"

lemma shared_frame:
  assumes s: "sys_ok w b ps sh" and f: "frame ps w ps' w'" and i: "bag_inv w' b' ps'"
  shows "sys_ok w' b' ps' sh" "bag_stack w' sh = bag_stack w sh"
proof -
  have d: "q \<in> dom (bw_mem w) \<and> q \<notin> set ps \<and> q \<notin> set (bw_pool w)" if "q \<in> set sh" for q
    using s that unfolding sys_ok_def shared_ok_def by blast
  have q: "\<forall>q\<in>set sh. bw_mem w' q = bw_mem w q \<and> q \<notin> set ps' \<and> q \<notin> set (bw_pool w')"
    using d f unfolding frame_def by blast
  then have "\<forall>q\<in>set sh. blk_at w' q = blk_at w q \<and> (q \<in> dom (bw_mem w') \<longleftrightarrow> q \<in> dom (bw_mem w))"
    by (simp add: blk_at_def dom_def)
  then have "shared_ok w' sh" using s q unfolding sys_ok_def shared_ok_def by metis
  then show "sys_ok w' b' ps' sh" using i q by (auto simp: sys_ok_def)
  show "bag_stack w' sh = bag_stack w sh" using q by (intro bag_stack_cong) blast
qed

text \<open>Changing one \<open>next\<close> pointer outside the bag.\<close>

lemma link_outside:
  assumes s: "bag_inv w b ps" and q: "q \<notin> set ps" "q \<in> dom (bw_mem w)"
  shows "bag_inv (blk_upd q (\<lambda>x. x\<lparr>bk_next := r\<rparr>) w) b ps"
proof -
  have "frame [q] w [] (blk_upd q (\<lambda>x. x\<lparr>bk_next := r\<rparr>) w)" by (auto simp: frame_def)
  then have "bag_ok (blk_upd q (\<lambda>x. x\<lparr>bk_next := r\<rparr>) w) b ps"
    using bag_ok_frame [of w b ps "[q]" "[]" "blk_upd q (\<lambda>x. x\<lparr>bk_next := r\<rparr>) w"] s q bag_inv_dom [OF s]
    by (auto simp: bag_inv_def)
  then show ?thesis using s q(2) by (simp add: bag_inv_def world_ok_upd)
qed

lemma shared_link:
  "q \<in> dom (bw_mem w) \<Longrightarrow> shared_ok (blk_upd q (\<lambda>x. x\<lparr>bk_next := r\<rparr>) w) sh = shared_ok w sh"
  by (auto simp: shared_ok_def)

lemma total_link [simp]: "total (blk_upd q (\<lambda>x. x\<lparr>bk_next := r\<rparr>) w) ps sh = total w ps sh"
  by (simp add: total_def)

lemma removeFullBlock_links:
  assumes "blockbag_removeFullBlock b w = (q, b', w')" "q \<noteq> 0"
  shows "\<exists>h n. q = bk_next (blk_at w h) \<and> w' = blk_upd q (\<lambda>x. x\<lparr>bk_next := 0\<rparr>) (blk_upd h (\<lambda>x. x\<lparr>bk_next := n\<rparr>) w) \<and> h = bb_head b"
  using assms by (auto simp: blockbag_removeFullBlock_def Let_def split: if_splits)

subsection \<open>Giving a block away\<close>

lemma give_block:
  assumes s: "sys_ok w b ps sh" "3 \<le> length ps" and rm: "blockbag_removeFullBlock b w = (q, b', w1)"
    and gv: "shared_addBlock q sh w1 = (sh', w')"
  shows "q \<noteq> 0 \<and> (\<exists>ps'. sys_ok w' b' ps' sh' \<and> total w' ps' sh' = total w ps sh) \<and> bb_sizeInBlocks b' = bb_sizeInBlocks b - 1"
proof -
  have inv: "bag_inv w b ps" and sh: "shared_ok w sh" "set ps \<inter> set sh = {}" using s by (simp_all add: sys_ok_def)
  obtain h qs where ps: "ps = h # q # qs" and i: "bag_inv w1 b' (h # qs)" and f: "full_block w1 q"
    and st: "bag_stack w1 (h # qs) = rev (block_items (blk_at w h)) @ bag_stack w qs"
    using blockbag_removeFullBlock_spec [OF inv rm] s(2) by blast
  have q0: "q \<noteq> 0" using bag_inv_dom [OF inv] ps by auto
  obtain n where w1: "w1 = blk_upd q (\<lambda>x. x\<lparr>bk_next := 0\<rparr>) (blk_upd h (\<lambda>x. x\<lparr>bk_next := n\<rparr>) w)"
    using removeFullBlock_links [OF rm q0] inv ps by (auto simp: bag_inv_def bag_ok_def)
  have d: "distinct ps" "set ps \<subseteq> dom (bw_mem w)" using inv bag_inv_dom [OF inv] by (auto simp: bag_inv_def bag_ok_def)
  have sh1: "shared_ok w1 sh" using sh(1) d(2) ps by (simp add: w1 shared_link)
  have w': "sh' = q # sh" "w' = blk_upd q (\<lambda>x. x\<lparr>bk_next := (case sh of [] \<Rightarrow> 0 | r # _ \<Rightarrow> r)\<rparr>) w1"
    using gv by (auto simp: shared_addBlock_def)
  have qd: "q \<in> dom (bw_mem w1)" "q \<notin> set (h # qs)" using d ps by (auto simp: w1)
  have qf: "block_wf (blk_at w1 q)" "bk_size (blk_at w1 q) = BLOCK_SIZE" "q \<notin> set (bw_pool w1)"
    using f by (auto simp: full_block_def blk_at_def)
  have "bag_inv w' b' (h # qs)" unfolding w'(2) by (rule link_outside [OF i qd(2,1)])
  moreover have "shared_ok w1 sh'" using sh1 qd qf q0 sh(2) ps by (auto simp: shared_ok_def w'(1))
  then have "shared_ok w' sh'" unfolding w'(2) using qd(1) by (simp add: shared_link)
  ultimately have "sys_ok w' b' (h # qs) sh'" using sh(2) ps w'(1) qd(2) by (auto simp: sys_ok_def)
  moreover have "total w' (h # qs) sh' = total w ps sh"
    by (simp add: w' w1 total_def ps)
  moreover have "bb_sizeInBlocks b' = bb_sizeInBlocks b - 1"
    using rm q0 by (auto simp: blockbag_removeFullBlock_def Let_def split: if_splits)
  ultimately show ?thesis using q0 by blast
qed

lemma add_shared_eq:
  "blockbag_add_shared nw obj thresh b sh w =
     (let (b1, w1) = blockbag_add nw obj b w
      in if block_isFull (blk_at (blk_upd (bb_head b) (block_push obj) w) (bb_head b)) \<and> bb_sizeInBlocks b1 > thresh
         then let (q, b2, w3) = blockbag_removeFullBlock b1 w1
              in if q = 0 then None else let (sh', w4) = shared_addBlock q sh w3 in Some (b2, sh', w4)
         else Some (b1, sh, w1))"
  by (auto simp: blockbag_add_shared_def blockbag_add_def Let_def split: prod.splits)

lemma add_size: "bb_sizeInBlocks (fst (blockbag_add nw obj b w)) \<le> Suc (bb_sizeInBlocks b)
  \<and> (\<not> block_isFull (blk_at (blk_upd (bb_head b) (block_push obj) w) (bb_head b)) \<longrightarrow> fst (blockbag_add nw obj b w) = b)"
  by (auto simp: blockbag_add_def Let_def split: prod.splits)

lemma add_shared_spec:
  assumes s: "sys_ok w b ps sh" and nw: "nw_ok nw" and th: "2 \<le> thresh"
  shows "\<exists>b' sh' w' ps'. blockbag_add_shared nw obj thresh b sh w = Some (b', sh', w') \<and> sys_ok w' b' ps' sh'
    \<and> total w' ps' sh' = total w ps sh + {#obj#} \<and> (bb_sizeInBlocks b \<le> thresh \<longrightarrow> bb_sizeInBlocks b' \<le> thresh)"
proof -
  obtain b1 w1 where ad: "blockbag_add nw obj b w = (b1, w1)" by fastforce
  have inv: "bag_inv w b ps" using s by (simp add: sys_ok_def)
  obtain ps1 where p1: "bag_inv w1 b1 ps1" "bag_stack w1 ps1 = obj # bag_stack w ps" "frame ps w ps1 w1"
    using blockbag_add_spec [OF inv nw ad] by blast
  have s1: "sys_ok w1 b1 ps1 sh" "total w1 ps1 sh = total w ps sh + {#obj#}"
    using shared_frame [OF s p1(3,1)] p1(2) by (simp_all add: total_def)
  have sz: "bb_sizeInBlocks b1 = length ps1" using blockbag_computeSizeInBlocks_spec [OF p1(1)] by simp
  have step: "bb_sizeInBlocks b1 \<le> Suc (bb_sizeInBlocks b)" using add_size [of nw obj b w] ad by simp
  show ?thesis
  proof (cases "block_isFull (blk_at (blk_upd (bb_head b) (block_push obj) w) (bb_head b)) \<and> bb_sizeInBlocks b1 > thresh")
    case True
    obtain q b2 w3 where rm: "blockbag_removeFullBlock b1 w1 = (q, b2, w3)" by (metis prod_cases3)
    obtain sh' w4 where gv: "shared_addBlock q sh w3 = (sh', w4)" by fastforce
    have "3 \<le> length ps1" using True sz th by simp
    note g = give_block [OF s1(1) this rm gv]
    then obtain ps' where "sys_ok w4 b2 ps' sh'" "total w4 ps' sh' = total w1 ps1 sh" by blast
    moreover have "blockbag_add_shared nw obj thresh b sh w = Some (b2, sh', w4)"
      using True g by (simp add: add_shared_eq ad rm gv)
    ultimately show ?thesis using g s1(2) step by auto
  next
    case False
    then have "blockbag_add_shared nw obj thresh b sh w = Some (b1, sh, w1)" by (auto simp: add_shared_eq ad)
    moreover have "bb_sizeInBlocks b \<le> thresh \<longrightarrow> bb_sizeInBlocks b1 \<le> thresh"
      using False add_size [of nw obj b w] ad by auto
    ultimately show ?thesis using s1 by blast
  qed
qed

subsection \<open>Taking a block\<close>

lemma remove_frame_spec:
  assumes s: "sys_ok w b ps sh" and ne: "bag_stack w ps \<noteq> []" and rm: "blockbag_remove b w = (p, b', w')"
  shows "\<exists>ps'. sys_ok w' b' ps' sh \<and> total w' ps' sh + {#p#} = total w ps sh"
proof -
  have inv: "bag_inv w b ps" using s by (simp add: sys_ok_def)
  obtain ps' where p: "bag_inv w' b' ps'" "p # bag_stack w' ps' = bag_stack w ps" "frame ps w ps' w'"
    using blockbag_remove_spec [OF inv ne rm] by blast
  have "mset (bag_stack w ps) = mset (bag_stack w' ps') + {#p#}" by (simp add: p(2) [symmetric])
  then have "total w' ps' sh + {#p#} = total w ps sh" using shared_frame(2) [OF s p(3,1)] by (simp add: total_def)
  then show ?thesis using shared_frame(1) [OF s p(3,1)] by blast
qed

lemma fill_spec:
  "sys_ok w b ps sh \<Longrightarrow> nw_ok nw \<Longrightarrow> fill_loop nw tid fresh b w al = (b', w', al')
   \<Longrightarrow> \<exists>ps'. sys_ok w' b' ps' sh \<and> bag_stack w' ps' = rev fresh @ bag_stack w ps \<and> bag_stack w' sh = bag_stack w sh
      \<and> al_allocated al' tid = al_allocated al tid + length fresh \<and> al_live al' = al_live al \<union> set fresh"
proof (induction nw tid fresh b w al arbitrary: ps rule: fill_loop.induct)
  case (1 nw tid b w al)
  then show ?case by auto
next
  case (2 nw tid p fresh b w al)
  obtain b1 w1 where ad: "blockbag_add nw p b w = (b1, w1)" by fastforce
  define al1 where "al1 = snd (allocate tid p al)"
  have al: "allocate tid p al = (p, al1)" "al_allocated al1 tid = Suc (al_allocated al tid)" "al_live al1 = insert p (al_live al)"
    by (simp_all add: al1_def allocate_def)
  have inv: "bag_inv w b ps" using 2(2) by (simp add: sys_ok_def)
  obtain ps1 where p1: "bag_inv w1 b1 ps1" "bag_stack w1 ps1 = p # bag_stack w ps" "frame ps w ps1 w1"
    using blockbag_add_spec [OF inv 2(3) ad] by blast
  note s1 = shared_frame [OF 2(2) p1(3,1)]
  have "fill_loop nw tid fresh b1 w1 al1 = (b', w', al')" using 2(4) by (simp add: al(1) ad)
  then obtain ps' where "sys_ok w' b' ps' sh" "bag_stack w' ps' = rev fresh @ bag_stack w1 ps1" "bag_stack w' sh = bag_stack w1 sh"
    "al_allocated al' tid = al_allocated al1 tid + length fresh" "al_live al' = al_live al1 \<union> set fresh"
    using 2(1) [OF al(1) [symmetric] refl ad [symmetric] refl s1(1) 2(3)] by blast
  then show ?case using p1(2) s1(2) al(2,3) by (intro exI [of _ ps']) simp
qed

lemma remove_shared_spec:
  assumes s: "sys_ok w b ps sh" and nw: "nw_ok nw" and fr: "length fresh = BLOCK_SIZE"
  shows "\<exists>p b' sh' w' al' ps'. blockbag_remove_shared nw tid fresh b sh w al = (p, b', sh', w', al') \<and> sys_ok w' b' ps' sh'
    \<and> (if total w ps sh = {#} then total w' ps' sh' + {#p#} = mset fresh \<and> al_live al' = al_live al \<union> set fresh
       else total w' ps' sh' + {#p#} = total w ps sh \<and> al' = al)"
proof -
  have inv: "bag_inv w b ps" and sh: "shared_ok w sh" "set ps \<inter> set sh = {}" using s by (simp_all add: sys_ok_def)
  have fne: "fresh \<noteq> []" using fr by (auto simp: BLOCK_SIZE_def)
  show ?thesis
  proof (cases "bag_stack w ps = []")
    case False
    obtain p b' w' where rm: "blockbag_remove b w = (p, b', w')" by (metis prod_cases3)
    have "\<not> blockbag_isEmpty b w" using False blockbag_isEmpty_spec [OF inv] by simp
    then have "blockbag_remove_shared nw tid fresh b sh w al = (p, b', sh, w', al)"
      using rm by (auto simp: blockbag_remove_shared_def blockbag_remove_def blockbag_isEmpty_def Let_def)
    moreover have "total w ps sh \<noteq> {#}" using False by (simp add: total_def)
    ultimately show ?thesis using remove_frame_spec [OF s False rm] by auto
  next
    case True
    then have e: "block_isEmpty (blk_at w (bb_head b))" "bk_next (blk_at w (bb_head b)) = 0"
      using blockbag_isEmpty_spec [OF inv] by (simp_all add: blockbag_isEmpty_def)
    show ?thesis
    proof (cases sh)
      case Nil
      obtain b1 w1 al1 where fl: "fill_loop nw tid fresh b w al = (b1, w1, al1)" by (metis prod_cases3)
      obtain ps1 where p1: "sys_ok w1 b1 ps1 sh" "bag_stack w1 ps1 = rev fresh" "al_live al1 = al_live al \<union> set fresh"
        using fill_spec [OF s nw fl] True by auto
      obtain p b' w' where rm: "blockbag_remove b1 w1 = (p, b', w')" by (metis prod_cases3)
      have "total w1 ps1 sh = mset fresh" "bag_stack w1 ps1 \<noteq> []" using p1(2) fne Nil by (simp_all add: total_def)
      then obtain ps' where "sys_ok w' b' ps' sh" "total w' ps' sh + {#p#} = mset fresh"
        using remove_frame_spec [OF p1(1) _ rm] by auto
      moreover have "blockbag_remove_shared nw tid fresh b sh w al = (p, b', sh, w', al1)"
        using e Nil fl rm by (simp add: blockbag_remove_shared_def shared_getBlock_def)
      moreover have "total w ps sh = {#}" using True Nil by (simp add: total_def)
      ultimately show ?thesis using p1(3) by auto
    next
      case (Cons q sh')
      let ?w1 = "blk_upd q (\<lambda>x. x\<lparr>bk_next := 0\<rparr>) w"
      have q: "q \<noteq> 0" "q \<notin> set (bw_pool w)" "q \<in> dom (bw_mem w)" "block_wf (blk_at w q)" "bk_size (blk_at w q) = BLOCK_SIZE"
        "q \<notin> set ps" "q \<notin> set sh'" using sh Cons by (auto simp: shared_ok_def)
      have i1: "bag_inv ?w1 b ps" by (rule link_outside [OF inv q(6,3)])
      have f: "full_block ?w1 q" using q by (simp add: full_block_def)
      obtain b1 w2 where ad: "blockbag_addFullBlock q b ?w1 = (b1, w2)" by fastforce
      note a = blockbag_addFullBlock_spec [OF i1 f q(6) ad]
      have w2: "w2 = blk_upd (bb_tail b) (\<lambda>x. x\<lparr>bk_next := q\<rparr>) ?w1" using ad by (simp add: blockbag_addFullBlock_def Let_def)
      have tl: "bb_tail b \<in> set ps" using inv by (auto simp: bag_inv_def bag_ok_def)
      then have td: "bb_tail b \<in> dom (bw_mem ?w1)" using bag_inv_dom [OF inv] by auto
      have "shared_ok w sh'" using sh(1) Cons by (auto simp: shared_ok_def)
      then have "shared_ok w2 sh'" using td q(3) by (simp add: w2 shared_link del: blk_upd_simps)
      then have s2: "sys_ok w2 b1 (ps @ [q]) sh'" using a(1) sh(2) q(7) Cons by (auto simp: sys_ok_def)
      have t2: "total w2 (ps @ [q]) sh' = total w ps sh" using Cons by (simp add: w2 total_def)
      have "length (block_items (blk_at w q)) = BLOCK_SIZE" using block_size_items [OF q(4)] q(5) by simp
      then have ne: "total w ps sh \<noteq> {#}" using Cons by (auto simp: total_def BLOCK_SIZE_def)
      then have "bag_stack w2 (ps @ [q]) \<noteq> []"
        using a(2) \<open>length (block_items (blk_at w q)) = BLOCK_SIZE\<close> by (auto simp: BLOCK_SIZE_def)
      moreover obtain p b' w' where rm: "blockbag_remove b1 w2 = (p, b', w')" by (metis prod_cases3)
      ultimately obtain ps' where "sys_ok w' b' ps' sh'" "total w' ps' sh' + {#p#} = total w ps sh"
        using remove_frame_spec [OF s2 _ rm] t2 by auto
      moreover have "blockbag_remove_shared nw tid fresh b sh w al = (p, b', sh', w', al)"
        using e Cons q(1) ad rm by (simp add: blockbag_remove_shared_def shared_getBlock_def)
      ultimately show ?thesis using ne by auto
    qed
  qed
qed

text \<open>
  C29. The bag of a thread and the shared bag lose and duplicate nothing, with a threshold of at least
  two blocks, and while no other thread works on the shared bag (for the concurrent shared bag see
  \<open>LockFreeBag\<close>). \<open>add\<close> puts the object
  into one of them; its assertion that a block could be removed holds, and a bag within the threshold
  stays so. \<open>remove\<close> takes an object out, from the bag or by a block of the shared bag; when both
  are empty, it fills the bag with new objects of the allocator and returns one of these.
\<close>
theorem shared_bag_conserves:
  assumes "sys_ok w b ps sh" "nw_ok nw" "2 \<le> thresh" "length fresh = BLOCK_SIZE"
  shows "(\<exists>b' sh' w' ps'. blockbag_add_shared nw obj thresh b sh w = Some (b', sh', w') \<and> sys_ok w' b' ps' sh'
      \<and> total w' ps' sh' = total w ps sh + {#obj#} \<and> (bb_sizeInBlocks b \<le> thresh \<longrightarrow> bb_sizeInBlocks b' \<le> thresh))
    \<and> (\<exists>p b' sh' w' al' ps'. blockbag_remove_shared nw tid fresh b sh w al = (p, b', sh', w', al') \<and> sys_ok w' b' ps' sh'
      \<and> (if total w ps sh = {#} then total w' ps' sh' + {#p#} = mset fresh \<and> al_live al' = al_live al \<union> set fresh
         else total w' ps' sh' + {#p#} = total w ps sh \<and> al' = al))"
  using add_shared_spec [OF assms(1,2,3)] remove_shared_spec [OF assms(1,2,4)] by blast

text \<open>A bag with the object 7 and a shared bag with one full block.\<close>

definition shared_example :: world where
  "shared_example = \<lparr>bw_mem = [1 \<mapsto> block_push 7 (block_new 0), 2 \<mapsto> \<lparr>bk_next = 0, bk_nextCount = 0, bk_size = 40, bk_data = replicate 40 9\<rparr>], bw_pool = []\<rparr>"

theorem shared_bag_conserves_witness:
  "sys_ok shared_example (bag_of_block 1) [1] [2] \<and>
   (\<exists>b' sh' w' ps'. blockbag_add_shared nw_next 8 2 (bag_of_block 1) [2] shared_example = Some (b', sh', w')
     \<and> total w' ps' sh' = total shared_example [1] [2] + {#8#} \<and> bb_sizeInBlocks b' \<le> 2)"
proof -
  have l: "length (bk_data (block_push 7 (block_new 0))) = 40" by (simp add: block_push_def block_new_def BLOCK_SIZE_def Let_def)
  have ok: "sys_ok shared_example (bag_of_block 1) [1] [2]"
    by (simp add: l sys_ok_def shared_ok_def bag_inv_alt shared_example_def bag_of_block_def world_ok_def push_new blk_at_def BLOCK_SIZE_def block_wf_def)
  have "length (replicate BLOCK_SIZE NULL) = BLOCK_SIZE" by simp
  note c = shared_bag_conserves [OF ok nw_next_ok order_refl this, of 8, THEN conjunct1]
  have sz: "bb_sizeInBlocks (bag_of_block 1) \<le> 2" by (simp add: bag_of_block_def)
  show ?thesis using ok c sz by blast
qed

subsection \<open>The move functions of the pool\<close>

text \<open>
  \<open>pool_none\<close> keeps nothing: what is moved to it goes to the allocator at once, the objects of the
  block that is not full included. The variant with a predecessor forgets the objects.
\<close>

definition pool_addMoveFullBlocks :: "nat \<Rightarrow> bag \<times> world \<Rightarrow> allocator \<Rightarrow> ((bag \<times> world) \<times> allocator) option" where
  "pool_addMoveFullBlocks tid bw al = deallocateAndClear tid bw al"

definition pool_addMoveAll :: "nat \<Rightarrow> bag \<times> world \<Rightarrow> allocator \<Rightarrow> ((bag \<times> world) \<times> allocator) option" where
  "pool_addMoveAll tid bw al = deallocateAndClear tid bw al"

definition pool_addMoveFullBlocks_after ::
  "nat \<Rightarrow> bptr \<Rightarrow> bag \<times> world \<Rightarrow> allocator \<Rightarrow> ((bag \<times> world) \<times> allocator) option" where
  "pool_addMoveFullBlocks_after tid predecessor bw al =
     map_option (\<lambda>bw'. (bw', al)) (blockbag_clearWithoutFreeingElements (fst bw) (snd bw))"

definition pool_computeSize :: "nat \<Rightarrow> nat" where
  "pool_computeSize tid = 0"

lemma pool_moves_free_all:
  assumes "bag_rep bw xs"
  shows "\<exists>bw'. pool_addMoveFullBlocks tid bw al = Some (bw', fold (deallocate tid) xs al) \<and> bag_rep bw' []"
    and "\<exists>bw'. pool_addMoveAll tid bw al = Some (bw', fold (deallocate tid) xs al) \<and> bag_rep bw' []"
  using deallocateAndClear_frees_contents [OF assms] by (simp_all add: pool_addMoveFullBlocks_def pool_addMoveAll_def)

end
