(* ===== verification/Spec2Isabelle.thy ===== *)
theory Spec2Isabelle
  imports Rcu Qsbr Ibr He Hp PopHp BagIter LockFreeBag Debra_System LazyList_Set HmTable EpochPop_Bound AbTree_Run HazardPtr BagShared
begin

text \<open>
  Verification library of \<open>pop_setbench\<close>, the C++ benchmark of concurrent sets with
  publish-on-ping memory reclamation.

  The program. A test harness (\<open>microbench/\<close>) runs threads on a set data structure
  (\<open>ds/\<close>). A data structure takes its nodes from a record manager
  (\<open>common/recordmgr/\<close>), and gives back every node it unlinks with \<open>retire\<close>. The
  record manager is put together from an allocator, a pool and a reclaimer. The reclaimer decides
  when a retired node can no longer be held by any thread; it then goes to the pool, that is, it is
  freed. The calls of the interface are \<open>startOp\<close>, \<open>endOp\<close>, a protected \<open>read\<close>,
  \<open>retire\<close> and the hook that runs at an allocation; publish-on-ping reclaimers also receive
  signals, whose handler publishes the hazard pointers of its thread.

  How the code is modelled. State is a record with the fields of the class, per-thread arrays are
  lists or functions of the thread, and an operation is a function from state to state in the order
  of its statements. What runs concurrently is a step relation in which a step is one access to
  shared memory and any thread may take the next step; an operation that is under way is a program
  counter with the local variables, or a stack of such frames where functions call each other.
  Ghost fields (what was retired, what a thread saw, the history of the heap) are named as such
  where they are declared, and no step depends on them. Memory is sequentially consistent: the
  orders the code asks for are those of \<open>seq_cst\<close> accesses and of x86 with the fences the code
  has. Loops that wait for other threads are steps of the relation; a loop that retries in a
  sequential operation takes the list of what its loads return, so that its end is a fact about that
  list and not about fuel. Pointers are 64-bit words; keys of the sets are integers; counters that
  the code lets wrap are taken modulo \<open>2 ^ 64\<close>, and where it relies on the absence of wrap this
  is a hypothesis. Sizes and counts of nodes that are \<open>int\<close> in the code are natural numbers: the
  models agree with the code below \<open>2 ^ 31\<close> keys and nodes. The sum of the key depths of the tree
  and the average made of it, which can leave that range earlier, are kept at 32 bits; the sums of
  keys that the harness validates are integers without bound. Assertions that can fail are a branch
  of the model (\<open>hs_insert\<close>, \<open>retire\<close> of publish-on-ping) or a predicate of their own
  that is shown to hold (\<open>push\<close>, \<open>pop\<close> and \<open>remove\<close> in \<open>BlockBag\<close>). The configuration is that of the
  builds without \<open>DEAMORTIZE_FREE_CALLS\<close>.

  Theories and what they model.

  \<^item> \<open>Prelude\<close>: words, the loops the reclaimers share (minimum of an array, erasure from a
    list during iteration), lemmas on lists and maps.
  \<^item> \<open>Allocator\<close>: \<open>allocator_new.h\<close> and \<open>pool_none.h\<close>. \<open>Reclaimer_Spec\<close>: the
    contract of \<open>reclaimer_interface.h\<close> as a locale: over every sequence of calls, what is
    retired is in limbo or was freed, once. \<open>Rcu\<close>, \<open>Qsbr\<close>, \<open>Ibr\<close>, \<open>He\<close>,
    \<open>Hp\<close>, \<open>PopHp\<close> and \<open>Debra\<close> interpret it.
  \<^item> \<open>Smr_System\<close>: the concurrent system of a reclamation scheme as a locale, with the proof
    that a scheme whose protocol satisfies the laws frees nothing that a thread holds; interpreted by
    \<open>Rcu\<close> (\<open>reclaimer_ibr_rcu.h\<close>), \<open>Qsbr\<close> (\<open>reclaimer_qsbr.h\<close>), \<open>Ibr\<close>
    (\<open>reclaimer_2geibr.h\<close>), \<open>He\<close> (\<open>reclaimer_he.h\<close>) and \<open>Hp\<close>
    (\<open>reclaimer_ibr_hp.h\<close>). Each of these has the class with every operation, the protocol access
    by access, the exact set \<open>empty\<close> frees, and, for \<open>Rcu\<close>, that the operations of the
    class are undisturbed runs of the system. In the system a scan may begin at any time, in the code
    only when the counter of \<open>retire\<close> says so: the system has more runs, and its safety theorems
    hold for those of the code. The run of \<open>Qsbr\<close> that frees an object of a thread in its first
    operation is therefore a history of calls of the class, with the counters of the code.
  \<^item> \<open>Pop_System\<close>, \<open>PopHp\<close>: \<open>reclaimer_ibr_pophp.h\<close> and the signal handler of
    \<open>recovery_manager.h\<close>, access by access with its counters and pending signals, and as a class.
    Nothing that is held is freed as long as no second look at the publication counters finds one
    unchanged; the loop of the code goes on when it does, and a run of the code, with the 32769
    calls of \<open>retire\<close> that it takes to get to a scan, frees an object that is held. \<open>EpochPop\<close>,
    \<open>EpochPop_Bound\<close>: \<open>reclaimer_rcu_popplushp.h\<close>, its bound on garbage and what its
    forced reclamation frees.
  \<^item> \<open>BlockBag\<close>, \<open>BagMove\<close>, \<open>BagIter\<close>, \<open>BagShared\<close>, \<open>LockFreeBag\<close>: \<open>blockbag.h\<close>,
    \<open>blockpool.h\<close>, \<open>lockfreeblockbag.h\<close>: bags as stacks, moves between them, the iterator,
    the shared bag as a linearizable stack, the exchange of blocks with
    it, and the move functions of the pool. \<open>Debra\<close>, \<open>Debra_System\<close>:
    \<open>reclaimer_debra.h\<close>, sequentially and access by access.
  \<^item> \<open>LazyList\<close> with \<open>_Inv\<close>, \<open>_Steps\<close>, \<open>_Set\<close>:
    \<open>ds/herlihy_lazylist/lazylist_impl.h\<close>; \<open>HmList\<close> with the same suffixes:
    \<open>ds/hmlist/hmlist_impl.h\<close>. The invariant of the list, linearizability of every result, and
    that each step refines a step of a map; an unlinked node is retired once.
    \<open>HmTable\<close>: the hash table \<open>ds/hm_hashtable/hmht_impl.h\<close>, an array of such lists, linearizable
    because its buckets are.
  \<^item> The relaxed (a,b)-tree of \<open>ds/brown_ext_abtree_lf/brown_ext_abtree_lf_impl.h\<close>.
    \<open>AbNode\<close> and \<open>AbRebal\<close>: \<open>Node\<close> and the contents of every node the operations
    and the rebalancing steps build, array copy by array copy, with what a reader sees of it.
    \<open>AbShape\<close> with \<open>_Rebal\<close> and \<open>_Good\<close>: trees, contexts, and each update as
    the replacement of a subtree that keeps order, balance, sizes and contents. \<open>AbTree\<close>: the
    machine, with \<open>find\<close>, \<open>doInsert\<close>, \<open>erase\<close>, \<open>fixWeightViolation\<close> and
    \<open>fixDegreeViolation\<close> as stacks of frames over a heap. \<open>AbTree_Heap\<close>,
    \<open>AbTree_Commit\<close>: the tree a heap holds and what one SCX does to it. \<open>AbTree_Inv\<close>,
    \<open>AbTree_Frames\<close>: the invariant of the history of heaps and what each frame knows.
    \<open>AbTree_Ops\<close>, \<open>AbTree_OpSteps\<close>, \<open>AbTree_Fixes\<close>, \<open>AbTree_Sib\<close>: the SCX
    of each function. \<open>AbTree_Steps\<close>, \<open>AbTree_Map\<close>: every step keeps the invariant,
    linearizability, refinement of a map. \<open>AbTree_Quiet\<close>: no violation is forgotten, so
    the tree is strict when nothing runs. \<open>AbTree_Seq\<close>: the sequential functions (sizes, counts,
    height, depths, key sum, destructor) against the map and the tree. \<open>AbTree_Run\<close>: a concrete run, by which the read of a
    sibling in \<open>fixDegreeViolation\<close> is out of bounds.
  \<^item> \<open>HashTable\<close>, \<open>ArrayLists\<close>: \<open>hashtable.h\<close> and \<open>arraylist.h\<close>. The hash
    set with linear probing refines a set (its locale \<open>bounded_set\<close> is what the users rely on);
    the older one does not. \<open>HazardPtr\<close>: \<open>reclaimer_hazardptr.h\<close> over both: what
    \<open>retire\<close> frees and its bound, what a collection finds while the owner of the list changes
    it, and the run in which it misses a protected node because \<open>erase\<close> moves its announcement.
  LLX and SCX. The tree uses them as the header of \<open>common/scx_provider.h\<close> documents them, and
  the model has them so: \<open>llx\<close> returns the stamp of an unmarked node, or fails; \<open>scxExecute\<close>
  takes effect at one instant and only if no node it depends on has a new stamp, or fails. The
  descriptors and the helping by which the provider achieves this are not modelled; the definitions
  \<open>llx\<close>, \<open>freeze\<close>, \<open>cas_field\<close> and \<open>scxExecute\<close> state the contract and are
  mapped to no code. A failure is the choice of the scheduler.

  The lemmas. For each component: an invariant of the state and that every operation keeps it; the
  functional behaviour of each operation on every branch; safety in every interleaving by induction on
  the steps; bounds on what is kept; and where the code does not do what it means to, a theorem that
  exhibits the run. Results of concurrent operations are right in the sense that at one moment between
  the invocation and the return the operation of an abstract map gives the result; the moment may lie
  in the past of the step that decides it, so the proofs keep what was true since the invocation
  (for lists, the set of nodes that were in the list; for the tree, the history of heaps with the tree
  each holds).

  Bounds and fuel. Iterations that end in the code are structural recursions or functions with a
  measure; \<open>partial_function (option)\<close> is used for the loops over linked blocks and nodes, with
  theorems that they return. Witnesses run with three or four threads and degree 3, the least degree
  for which the constants of the tree satisfy \<open>b \<ge> 2 * a - 1\<close>; the theorems hold for every
  number of threads, and for every degree from 3 on.

  Not modelled. The other reclaimers: \<open>none\<close> and the token, NBR, WFE and Crystalline families,
  \<open>hpasyf\<close> (which needs \<open>membarrier\<close>), and the variants \<open>pop2geibr\<close>,
  \<open>popplus2geibr\<close>, \<open>ibr_popplushp\<close>, \<open>rcu_pop\<close>, \<open>rcu_pophp\<close>,
  \<open>rcu_popplus\<close>, whose parts are those of the modelled ones. The copies of the data structures
  for single reclaimers or memory layouts (suffixes \<open>daoi\<close>, \<open>ooi\<close>, \<open>nzb\<close>,
  \<open>ibr_hp\<close>, \<open>rcuhppop\<close>), which repeat the algorithm of the base file with other calls of the
  record manager; the list of Harris and the ticket tree. The record manager itself
  (template dispatch to allocator, pool and reclaimer), statistics, range query
  providers, NUMA and thread binding, and the harness, which are glue, output or platform code; the
  vendored atomic operations. Non-local exits by \<open>siglongjmp\<close>, which only the NBR reclaimers
  use.
\<close>

end
